(* ===== verification/Prelude.thy ===== *)
theory Prelude
  imports Main "HOL-Library.AList" "HOL-Library.List_Lexorder" "HOL-Library.Char_ord"
begin

text \<open>
  Shared vocabulary of the development.

  The program is Python: a call either returns or raises. A call is modelled by a value of
  \<open>'a res\<close>, \<open>Inl\<close> an exception class or \<open>Inr\<close> the returned value; the text of an exception
  is not modelled, its class is. \<open>bindR\<close> sequences two calls as Python statements do.
  Text is a \<open>string\<close> read as its UTF-8 bytes, so \<open><\<close> on strings is SQLite's BINARY collation
  and \<open>length\<close> is the encoded length.
  The lemmas below (association lists, selections, maxima) are the ones every component uses.
\<close>

section \<open>Exceptions and results\<close>

datatype py_error =
    ValueError
  | TypeError
  | KeyError
  | LookupError
  | PermissionError
  | RuntimeError
  | OverflowError
  | IntegrityError
  | MessageConflict
  | WriterExpired
  | InvalidPage
  | FrameRouteReleased
  | ConnectionError
  | CancelledError
  | RestartRejected
  | RestartPending
  | AssertionError
  | StaleTask
  | TaskBusy
  | LegacyReplyIdentity
  | StepLimit
  | EmptyResponse
  | ContextLength
  | ContextOverflow
  | ExceptionGroup
  | TimeoutError

type_synonym 'a res = "py_error + 'a"

named_theorems res_simps

definition bindR :: "'a res \<Rightarrow> ('a \<Rightarrow> 'b res) \<Rightarrow> 'b res" where
  "bindR m f = (case m of Inl e \<Rightarrow> Inl e | Inr x \<Rightarrow> f x)"

lemma bindR_simps [simp]: "bindR (Inl e) f = Inl e" "bindR (Inr x) f = f x"
  by (simp_all add: bindR_def)

lemma bindR_Inr_iff [res_simps]: "bindR m f = Inr y \<longleftrightarrow> (\<exists>x. m = Inr x \<and> f x = Inr y)"
  by (cases m) auto

lemma bindR_Inl_iff: "bindR m f = Inl e \<longleftrightarrow> m = Inl e \<or> (\<exists>x. m = Inr x \<and> f x = Inl e)"
  by (cases m) auto

lemma bindR_cong [fundef_cong]:
  "m = m' \<Longrightarrow> (\<And>x. m' = Inr x \<Longrightarrow> f x = g x) \<Longrightarrow> bindR m f = bindR m' g"
  by (cases m') auto

definition ensure :: "bool \<Rightarrow> py_error \<Rightarrow> unit res" where
  "ensure c e = (if c then Inr () else Inl e)"

lemma ensure_Inr [simp]: "ensure c e = Inr u \<longleftrightarrow> c"
  by (simp add: ensure_def)

lemma ensure_Inl [simp]: "ensure c e = Inl e' \<longleftrightarrow> \<not> c \<and> e' = e"
  by (auto simp: ensure_def)

lemma bindR_ensure: "bindR (ensure c e) f = (if c then f () else Inl e)"
  by (simp add: ensure_def)

text \<open>A comprehension that may raise: the first failing element ends it.\<close>

fun mapR :: "('a \<Rightarrow> 'b res) \<Rightarrow> 'a list \<Rightarrow> 'b list res" where
  "mapR f [] = Inr []"
| "mapR f (x # xs) = bindR (f x) (\<lambda>y. bindR (mapR f xs) (\<lambda>ys. Inr (y # ys)))"

lemma mapR_cong [fundef_cong]:
  "xs = ys \<Longrightarrow> (\<And>x. x \<in> set ys \<Longrightarrow> f x = g x) \<Longrightarrow> mapR f xs = mapR g ys"
  by (induction xs arbitrary: ys) (auto simp: bindR_def split: sum.splits)

lemma mapR_Inr_map: "(\<And>x. x \<in> set xs \<Longrightarrow> f x = Inr (g x)) \<Longrightarrow> mapR f xs = Inr (map g xs)"
  by (induction xs) auto

lemma mapR_Inr_iff: "mapR f xs = Inr ys \<longleftrightarrow> list_all2 (\<lambda>x y. f x = Inr y) xs ys"
  by (induction xs arbitrary: ys) (auto simp: res_simps list_all2_Cons1)

lemma mapR_set: "mapR f xs = Inr ys \<Longrightarrow> y \<in> set ys \<Longrightarrow> \<exists>x \<in> set xs. f x = Inr y"
  by (induction xs arbitrary: ys) (auto simp: res_simps)

lemma mapR_total: "(\<And>x. x \<in> set xs \<Longrightarrow> \<exists>y. f x = Inr y) \<Longrightarrow> \<exists>ys. mapR f xs = Inr ys"
proof (induction xs)
  case (Cons x xs)
  then obtain y ys where "f x = Inr y" and "mapR f xs = Inr ys" by (meson list.set_intros)
  then show ?case by simp
qed simp

text \<open>A loop that threads a state and may raise.\<close>

fun foldR :: "('a \<Rightarrow> 's \<Rightarrow> 's res) \<Rightarrow> 'a list \<Rightarrow> 's \<Rightarrow> 's res" where
  "foldR f [] s = Inr s"
| "foldR f (x # xs) s = bindR (f x s) (foldR f xs)"

lemma foldR_append: "foldR f (xs @ ys) s = bindR (foldR f xs s) (foldR f ys)"
  by (induction xs arbitrary: s) (auto simp: bindR_def split: sum.splits)

lemma foldR_invariant:
  assumes "foldR f xs s = Inr t" and "P s"
    and "\<And>x s t. x \<in> set xs \<Longrightarrow> P s \<Longrightarrow> f x s = Inr t \<Longrightarrow> P t"
  shows "P t"
  using assms by (induction xs arbitrary: s) (auto simp: res_simps)

section \<open>Rows selected from a table\<close>

text \<open>
  A table is the list of its rows, oldest first. \<open>find\<close> reads a row by a unique key, \<open>filter\<close>
  is a WHERE clause. The following facts about them serve every store.
\<close>

lemma find_Some_iff': "find P xs = Some x \<Longrightarrow> x \<in> set xs \<and> P x"
  by (induction xs) (auto split: if_splits)

lemma find_None_iff': "find P xs = None \<longleftrightarrow> (\<forall>x \<in> set xs. \<not> P x)"
  by (induction xs) auto

lemma find_unique:
  assumes "distinct (map k xs)" and "x \<in> set xs"
  shows "find (\<lambda>y. k y = k x) xs = Some x"
  using assms by (induction xs) (auto simp: image_iff)

lemma find_append: "find P (xs @ ys) = (case find P xs of None \<Rightarrow> find P ys | Some x \<Rightarrow> Some x)"
  by (induction xs) auto

lemma distinct_map_same:
  "distinct (map k xs) \<Longrightarrow> x \<in> set xs \<Longrightarrow> y \<in> set xs \<Longrightarrow> k x = k y \<Longrightarrow> x = y"
  by (induction xs) (auto simp: image_iff)

lemma sorted_map_filter: "sorted (map k xs) \<Longrightarrow> sorted (map k (filter P xs))"
  by (induction xs) auto

lemma sorted_wrt_filter': "sorted_wrt R xs \<Longrightarrow> sorted_wrt R (filter P xs)"
  by (induction xs) auto

text \<open>\<open>ORDER BY f, g\<close>, and the rows after a row of a strict order.\<close>

lemma sorted_lex:
  fixes f :: "'a \<Rightarrow> 'b::linorder" and g :: "'a \<Rightarrow> 'c::linorder"
  assumes "sorted (map f xs)" and "\<And>k. sorted (map g (filter (\<lambda>x. f x = k) xs))"
  shows "sorted_wrt (\<lambda>a b. f a < f b \<or> (f a = f b \<and> g a \<le> g b)) xs"
  using assms
proof (induction xs)
  case (Cons x xs)
  have "f x < f y \<or> (f x = f y \<and> g x \<le> g y)" if y: "y \<in> set xs" for y
  proof (cases "f x = f y")
    case True
    then show ?thesis using Cons.prems(2)[of "f x"] y by (auto simp: image_iff)
  next
    case False
    then show ?thesis using Cons.prems(1) y by (auto simp: order_less_le)
  qed
  moreover have "sorted (map g (filter (\<lambda>x. f x = k) xs))" for k
    using Cons.prems(2)[of k] by (auto split: if_splits)
  ultimately show ?case using Cons by simp
qed simp

lemma sort_lex:
  fixes f :: "'a \<Rightarrow> 'b::linorder" and g :: "'a \<Rightarrow> 'c::linorder"
  shows "sorted_wrt (\<lambda>a b. f a < f b \<or> (f a = f b \<and> g a \<le> g b)) (sort_key f (sort_key g xs))"
  by (rule sorted_lex) (simp_all add: sort_key_stable sorted_map_filter)

lemma filter_after_take:
  assumes "sorted_wrt R xs" and "xs \<noteq> []" and "0 < n"
    and irrefl: "\<And>x. x \<in> set xs \<Longrightarrow> \<not> R x x" and asym: "\<And>x y. R x y \<Longrightarrow> \<not> R y x"
  shows "filter (R (last (take n xs))) xs = drop n xs"
proof -
  let ?l = "last (take n xs)"
  have w: "sorted_wrt R (take n xs @ drop n xs)" using assms(1) by simp
  have ne: "take n xs \<noteq> []" using assms by simp
  have t: "take n xs = butlast (take n xs) @ [?l]" using ne by simp
  have "sorted_wrt R (butlast (take n xs) @ [?l])"
    using w t by (simp only: sorted_wrt_append)
  then have "\<forall>y \<in> set (butlast (take n xs)). \<not> R ?l y" using asym by (auto simp: sorted_wrt_append)
  moreover have "\<not> R ?l ?l" using irrefl ne by (meson in_set_takeD last_in_set)
  ultimately have "\<forall>y \<in> set (butlast (take n xs) @ [?l]). \<not> R ?l y" by simp
  then have "filter (R ?l) (take n xs) = []" using t by (simp add: filter_empty_conv)
  moreover have "filter (R ?l) (drop n xs) = drop n xs"
    using w[unfolded sorted_wrt_append] last_in_set[OF ne] by (auto simp: filter_id_conv)
  ultimately have "filter (R ?l) (take n xs @ drop n xs) = drop n xs" by (simp only: filter_append append_Nil)
  then show ?thesis by simp
qed

text \<open>\<open>SELECT COALESCE(MAX(..), -1)\<close>.\<close>

definition max_default :: "int \<Rightarrow> int list \<Rightarrow> int" where
  "max_default d xs = fold max xs d"

lemma fold_max_ge: "d \<le> fold max xs (d::int)" "x \<in> set xs \<Longrightarrow> x \<le> fold max xs d"
proof (induction xs arbitrary: d)
  case (Cons a xs)
  { case 1 show ?case using Cons(1)[of "max a d"] by simp }
  { case 2 then show ?case using Cons(1)[of "max a d"] Cons(2)[of "max a d"] by auto }
qed auto

lemma fold_max_cases: "fold max xs (d::int) = d \<or> fold max xs d \<in> set xs"
proof (induction xs arbitrary: d)
  case (Cons a xs)
  from Cons[of "max a d"] show ?case by (auto simp: max_def)
qed auto

lemma max_default_ge: "d \<le> max_default d xs" "x \<in> set xs \<Longrightarrow> x \<le> max_default d xs"
  by (simp_all add: max_default_def fold_max_ge)

lemma max_default_mem: "max_default d xs = d \<or> max_default d xs \<in> set xs"
  by (simp add: max_default_def fold_max_cases)

lemma max_default_Nil [simp]: "max_default d [] = d"
  by (simp add: max_default_def)

lemma max_default_less: "d < b \<Longrightarrow> (\<And>x. x \<in> set xs \<Longrightarrow> x < b) \<Longrightarrow> max_default d xs < b"
  using max_default_mem[of d xs] by auto

lemma max_default_eqI:
  "x \<in> set xs \<Longrightarrow> d \<le> x \<Longrightarrow> (\<And>y. y \<in> set xs \<Longrightarrow> y \<le> x) \<Longrightarrow> max_default d xs = x"
  using max_default_ge(2)[of x xs d] max_default_mem[of d xs] max_default_ge(1)[of d xs]
  by (metis order_antisym)

section \<open>Association lists as Python dicts\<close>

text \<open>
  \<open>AList.update\<close> is \<open>d[k] = v\<close> on an insertion-ordered dict (an existing key keeps its place)
  and \<open>AList.delete\<close> is \<open>d.pop(k, None)\<close>.
\<close>

abbreviation keys :: "('k \<times> 'v) list \<Rightarrow> 'k list" where
  "keys d \<equiv> map fst d"

lemma map_of_update: "map_of (AList.update k v d) = (map_of d)(k \<mapsto> v)"
  by (rule AList.update_conv')

lemma map_of_delete': "map_of (AList.delete k d) = (map_of d)(k := None)"
  by (rule AList.delete_conv')

lemma distinct_keys_update [simp]: "distinct (keys d) \<Longrightarrow> distinct (keys (AList.update k v d))"
  by (rule AList.distinct_update)

lemma distinct_keys_delete [simp]: "distinct (keys d) \<Longrightarrow> distinct (keys (AList.delete k d))"
  by (simp add: AList.delete_keys distinct_removeAll)

lemma set_update_notin:
  "k \<notin> set (keys d) \<Longrightarrow> AList.update k v d = d @ [(k, v)]"
  by (induction d) auto

lemma map_of_is_find: "map_of d k = map_option snd (find (\<lambda>p. fst p = k) d)"
  by (induction d) auto

lemma in_set_update:
  "(a, b) \<in> set (AList.update k v d) \<Longrightarrow> (a = k \<and> b = v) \<or> (a, b) \<in> set d"
  by (induction d) (auto split: if_splits)

end
