(* ===== verification/Py_Json.thy ===== *)
theory Py_Json
  imports Prelude
begin

text \<open>
  The JSON boundary of \<open>session/message.py\<close>: \<open>freeze_json\<close>, \<open>freeze_metadata\<close> and, from
  \<open>session/message_codec.py\<close>, \<open>json_value\<close>.

  \<open>pyval\<close> is what a caller may pass: JSON-like values, lists and tuples (\<open>VSeq\<close>, its flag
  set on a tuple), mappings
  with keys that need not be text (\<open>VMap\<close>), or any other object (\<open>VOther\<close>). \<open>json\<close> is the frozen
  value: only finite floats, only text keys. A Python float is given by the two observations
  the program makes of it: its \<open>repr\<close> and, when it is integral, its integer value.
  A dict is the list of its items in insertion order; \<open>wf_json\<close> says its keys are distinct.
  \<open>json_sorted\<close> is the document \<open>json.dumps(.., sort_keys=True)\<close> writes and \<open>json_text\<close> its bytes
  with \<open>ensure_ascii=False, separators=(",", ":")\<close>; \<open>json_eq\<close> is Python's \<open>==\<close> on such values.
\<close>

section \<open>Values\<close>

datatype pykey = KStr string | KOther

datatype pyfloat = Finite string "int option" | NonFinite

datatype pyval =
    VNone
  | VBool bool
  | VInt int
  | VFloat pyfloat
  | VStr string
  | VSeq bool "pyval list"
  | VMap "(pykey \<times> pyval) list"
  | VOther

datatype json =
    JNull
  | JBool bool
  | JInt int
  | JFloat string "int option"
  | JStr string
  | JArr "json list"
  | JObj "(string \<times> json) list"

type_synonym json_object = "(string \<times> json) list"

primrec wf_json :: "json \<Rightarrow> bool" where
  "wf_json JNull = True"
| "wf_json (JBool b) = True"
| "wf_json (JInt i) = True"
| "wf_json (JFloat r i) = True"
| "wf_json (JStr s) = True"
| "wf_json (JArr xs) = list_all id (map wf_json xs)"
| "wf_json (JObj kvs) = (distinct (keys kvs) \<and> list_all snd (map (map_prod id wf_json) kvs))"

fun seqR :: "'a res list \<Rightarrow> 'a list res" where
  "seqR [] = Inr []"
| "seqR (r # rs) = bindR r (\<lambda>x. bindR (seqR rs) (\<lambda>xs. Inr (x # xs)))"

lemma seqR_all_Inr: "(\<And>x. x \<in> set xs \<Longrightarrow> f x = Inr (g x)) \<Longrightarrow> seqR (map f xs) = Inr (map g xs)"
  by (induction xs) auto

lemma seqR_Inr_iff: "seqR rs = Inr xs \<longleftrightarrow> rs = map Inr xs"
  by (induction rs arbitrary: xs) (auto simp: res_simps)

fun key_is_str :: "pykey \<Rightarrow> bool" where
  "key_is_str (KStr s) = True"
| "key_is_str KOther = False"

fun key_str :: "pykey \<Rightarrow> string" where
  "key_str (KStr s) = s"
| "key_str KOther = []"

section \<open>Freezing\<close>

primrec freeze_json :: "pyval \<Rightarrow> json res" where
  "freeze_json VNone = Inr JNull"
| "freeze_json (VBool b) = Inr (JBool b)"
| "freeze_json (VInt i) = Inr (JInt i)"
| "freeze_json (VFloat f) =
     (case f of NonFinite \<Rightarrow> Inl ValueError | Finite r i \<Rightarrow> Inr (JFloat r i))"
| "freeze_json (VStr s) = Inr (JStr s)"
| "freeze_json (VSeq t xs) = bindR (seqR (map freeze_json xs)) (\<lambda>ys. Inr (JArr ys))"
| "freeze_json (VMap kvs) =
     (if list_ex (\<lambda>kv. \<not> key_is_str (fst kv)) kvs then Inl TypeError
      else bindR (seqR (map (\<lambda>p. bindR (snd p) (\<lambda>v. Inr (key_str (fst p), v)))
                            (map (map_prod id freeze_json) kvs)))
             (\<lambda>ys. Inr (JObj ys)))"
| "freeze_json VOther = Inl TypeError"

primrec json_value :: "json \<Rightarrow> pyval" where
  "json_value JNull = VNone"
| "json_value (JBool b) = VBool b"
| "json_value (JInt i) = VInt i"
| "json_value (JFloat r i) = VFloat (Finite r i)"
| "json_value (JStr s) = VStr s"
| "json_value (JArr xs) = VSeq False (map json_value xs)"
| "json_value (JObj kvs) = VMap (map (map_prod KStr json_value) kvs)"

lemma freeze_json_value [simp]: "freeze_json (json_value j) = Inr j"
proof (induction j)
  case (JArr xs)
  then have "seqR (map freeze_json (map json_value xs)) = Inr (map id xs)"
    unfolding map_map by (intro seqR_all_Inr) simp
  then show ?case by simp
next
  case (JObj kvs)
  have "seqR (map (\<lambda>p. bindR (snd p) (\<lambda>v. Inr (key_str (fst p), v)))
          (map (map_prod id freeze_json) (map (map_prod KStr json_value) kvs))) = Inr (map id kvs)"
    unfolding map_map using JObj by (intro seqR_all_Inr) (force simp: prod_eq_iff)
  moreover have "\<not> list_ex (\<lambda>kv. \<not> key_is_str (fst kv)) (map (map_prod KStr json_value) kvs)"
    by (auto simp: list_ex_iff)
  ultimately show ?case by simp
qed simp_all

text \<open>The frozen value as a consumer holds it: an array is a tuple.\<close>

primrec frozen_value :: "json \<Rightarrow> pyval" where
  "frozen_value JNull = VNone"
| "frozen_value (JBool b) = VBool b"
| "frozen_value (JInt i) = VInt i"
| "frozen_value (JFloat r i) = VFloat (Finite r i)"
| "frozen_value (JStr s) = VStr s"
| "frozen_value (JArr xs) = VSeq True (map frozen_value xs)"
| "frozen_value (JObj kvs) = VMap (map (map_prod KStr frozen_value) kvs)"

lemma freeze_frozen_value [simp]: "freeze_json (frozen_value j) = Inr j"
proof (induction j)
  case (JArr xs)
  then have "seqR (map freeze_json (map frozen_value xs)) = Inr (map id xs)"
    unfolding map_map by (intro seqR_all_Inr) simp
  then show ?case by simp
next
  case (JObj kvs)
  have "seqR (map (\<lambda>p. bindR (snd p) (\<lambda>v. Inr (key_str (fst p), v)))
          (map (map_prod id freeze_json) (map (map_prod KStr frozen_value) kvs))) = Inr (map id kvs)"
    unfolding map_map using JObj by (intro seqR_all_Inr) (force simp: prod_eq_iff)
  moreover have "\<not> list_ex (\<lambda>kv. \<not> key_is_str (fst kv)) (map (map_prod KStr frozen_value) kvs)"
    by (auto simp: list_ex_iff)
  ultimately show ?case by simp
qed simp_all

fun is_mapping :: "pyval \<Rightarrow> bool" where
  "is_mapping (VMap kvs) = True"
| "is_mapping _ = False"

fun obj_items :: "json \<Rightarrow> json_object" where
  "obj_items (JObj kvs) = kvs"
| "obj_items _ = []"

lemma freeze_mapping: "is_mapping v \<Longrightarrow> freeze_json v = Inr j \<Longrightarrow> j = JObj (obj_items j)"
  by (cases v) (auto simp: res_simps split: if_splits)

section \<open>Sorted documents and their bytes\<close>

primrec json_sorted :: "json \<Rightarrow> json" where
  "json_sorted JNull = JNull"
| "json_sorted (JBool b) = JBool b"
| "json_sorted (JInt i) = JInt i"
| "json_sorted (JFloat r i) = JFloat r i"
| "json_sorted (JStr s) = JStr s"
| "json_sorted (JArr xs) = JArr (map json_sorted xs)"
| "json_sorted (JObj kvs) = JObj (sort_key fst (map (map_prod id json_sorted) kvs))"

fun show_nat :: "nat \<Rightarrow> string" where
  "show_nat n = (if n < 10 then [char_of (48 + n)] else show_nat (n div 10) @ [char_of (48 + n mod 10)])"

declare show_nat.simps [simp del]

definition show_int :: "int \<Rightarrow> string" where
  "show_int i = (if i < 0 then CHR ''-'' # show_nat (nat (- i)) else show_nat (nat i))"

definition hex_digit :: "nat \<Rightarrow> char" where
  "hex_digit n = char_of (if n < 10 then 48 + n else 87 + n)"

definition escape_char :: "char \<Rightarrow> string" where
  "escape_char c =
     (let n = of_char c :: nat; b = CHR 0x5C in
      if n = 34 \<or> n = 92 then [b, c]
      else if n = 8 then [b, CHR ''b'']
      else if n = 12 then [b, CHR ''f'']
      else if n = 10 then [b, CHR ''n'']
      else if n = 13 then [b, CHR ''r'']
      else if n = 9 then [b, CHR ''t'']
      else if n < 32 then [b, CHR ''u'', CHR ''0'', CHR ''0'', hex_digit (n div 16), hex_digit (n mod 16)]
      else [c])"

definition json_quote :: "string \<Rightarrow> string" where
  "json_quote s = [CHR 0x22] @ concat (map escape_char s) @ [CHR 0x22]"

fun join :: "string \<Rightarrow> string list \<Rightarrow> string" where
  "join sep [] = []"
| "join sep [x] = x"
| "join sep (x # y # ys) = x @ sep @ join sep (y # ys)"

primrec json_text :: "json \<Rightarrow> string" where
  "json_text JNull = ''null''"
| "json_text (JBool b) = (if b then ''true'' else ''false'')"
| "json_text (JInt i) = show_int i"
| "json_text (JFloat r i) = r"
| "json_text (JStr s) = json_quote s"
| "json_text (JArr xs) = ''['' @ join '','' (map json_text xs) @ '']''"
| "json_text (JObj kvs) =
     ''{'' @ join '','' (map (\<lambda>p. json_quote (fst p) @ '':'' @ snd p) (map (map_prod id json_text) kvs)) @ ''}''"

lemma json_sorted_idem [simp]: "json_sorted (json_sorted j) = json_sorted j"
proof (induction j)
  case (JObj kvs)
  let ?m = "map (map_prod id json_sorted) kvs"
  have "map (map_prod id json_sorted) (sort_key fst ?m) = sort_key fst ?m"
  proof (rule map_idI)
    fix p assume "p \<in> set (sort_key fst ?m)"
    then obtain q where "q \<in> set kvs" and p: "p = (fst q, json_sorted (snd q))"
      by auto
    then show "map_prod id json_sorted p = p"
      using JObj[of q "snd q"] by (cases q) (auto simp: snds.simps)
  qed
  moreover have "sort_key fst (sort_key fst ?m) = sort_key fst ?m"
    by (rule sort_key_id_if_sorted) simp
  ultimately show ?case by simp
qed auto

lemma set_keys_sort [simp]: "set (keys (sort_key fst xs)) = set (keys xs)"
  by simp

lemma distinct_keys_sort [simp]: "distinct (keys (sort_key fst xs)) = distinct (keys xs)"
proof -
  have "length (keys (sort_key fst xs)) = length (keys xs)" by simp
  then show ?thesis using set_keys_sort[of xs] by (metis card_distinct distinct_card)
qed

lemma map_of_sort:
  assumes "distinct (keys xs)"
  shows "map_of (sort_key fst xs) = map_of xs"
proof
  fix k
  show "map_of (sort_key fst xs) k = map_of xs k"
  proof (cases "map_of xs k")
    case None
    then have "k \<notin> set (keys (sort_key fst xs))"
      unfolding set_keys_sort by (simp add: map_of_eq_None_iff)
    then have "map_of (sort_key fst xs) k = None" by (metis map_of_eq_None_iff set_map)
    then show ?thesis using None by simp
  next
    case (Some v)
    then have "(k, v) \<in> set (sort_key fst xs)" by (simp add: map_of_SomeD)
    with assms Some show ?thesis by (simp add: map_of_is_SomeI)
  qed
qed

lemma keys_json_sorted: "set (keys (sort_key fst (map (map_prod id f) kvs))) = set (keys kvs)"
  by (force simp: image_iff)

lemma wf_json_sorted [simp]: "wf_json (json_sorted j) = wf_json j"
proof (induction j)
  case (JArr xs)
  then show ?case by (auto simp: list_all_iff)
next
  case (JObj kvs)
  let ?m = "map (map_prod id json_sorted) kvs"
  have "distinct (keys (sort_key fst ?m)) = distinct (keys kvs)"
    unfolding distinct_keys_sort by (simp add: comp_def)
  moreover have "(\<forall>p \<in> set ?m. wf_json (snd p)) = (\<forall>p \<in> set kvs. wf_json (snd p))"
    using JObj by (force simp: snds.simps)
  ultimately show ?case by (auto simp: list_all_iff)
qed auto

section \<open>Python equality\<close>

fun json_num :: "json \<Rightarrow> int option" where
  "json_num (JBool b) = Some (if b then 1 else 0)"
| "json_num (JInt i) = Some i"
| "json_num (JFloat r i) = i"
| "json_num _ = None"

definition num_eq :: "json \<Rightarrow> json \<Rightarrow> bool" where
  "num_eq a b = (json_num a \<noteq> None \<and> json_num a = json_num b)"

primrec json_eq :: "json \<Rightarrow> json \<Rightarrow> bool" where
  "json_eq JNull = (\<lambda>j. j = JNull)"
| "json_eq (JBool b) = num_eq (JBool b)"
| "json_eq (JInt i) = num_eq (JInt i)"
| "json_eq (JFloat r i) = (\<lambda>j. num_eq (JFloat r i) j \<or> (i = None \<and> j = JFloat r None))"
| "json_eq (JStr s) = (\<lambda>j. j = JStr s)"
| "json_eq (JArr xs) = (\<lambda>j. case j of JArr ys \<Rightarrow> list_all2 (\<lambda>f y. f y) (map json_eq xs) ys | _ \<Rightarrow> False)"
| "json_eq (JObj kvs) = (\<lambda>j. case j of
       JObj ls \<Rightarrow> length kvs = length ls \<and>
         list_all (\<lambda>p. case map_of ls (fst p) of None \<Rightarrow> False | Some w \<Rightarrow> snd p w)
                  (map (map_prod id json_eq) kvs)
     | _ \<Rightarrow> False)"

lemma json_eq_refl: "wf_json j \<Longrightarrow> json_eq j j"
proof (induction j)
  case (JArr xs)
  then show ?case by (auto simp: list_all_iff list_all2_map1 list_all2_same)
next
  case (JObj kvs)
  have "\<And>p. p \<in> set kvs \<Longrightarrow> map_of kvs (fst p) = Some (snd p)"
    using JObj.prems by (auto intro: map_of_is_SomeI)
  then show ?case using JObj by (fastforce simp: list_all_iff snds.simps)
qed (auto simp: num_eq_def)

text \<open>
  An object whose keys are known is its sorted listing, and sorting is invisible to Python's
  equality.
\<close>

lemma sort_known_keys:
  assumes "distinct (keys kvs)" and "set (keys kvs) = set ks" and "sorted ks" and "distinct ks"
  shows "sort_key fst kvs = map (\<lambda>k. (k, the (map_of kvs k))) ks"
proof -
  let ?s = "sort_key fst kvs"
  have "distinct (keys ?s)" and "sorted (keys ?s)" and "set (keys ?s) = set ks"
    using assms(1,2) unfolding distinct_keys_sort set_keys_sort by simp_all
  then have "keys ?s = ks"
    using assms sorted_distinct_set_unique by blast
  moreover have "?s = map (\<lambda>k. (k, the (map_of kvs k))) (keys ?s)"
    unfolding map_map using assms(1) by (intro map_idI[symmetric]) (auto simp: map_of_is_SomeI)
  ultimately show ?thesis by simp
qed

lemma map_of_sorted_items:
  assumes "distinct (keys kvs)"
  shows "map_of (sort_key fst (map (map_prod id f) kvs)) k = map_option f (map_of kvs k)"
proof -
  have "distinct (keys (map (map_prod id f) kvs))" using assms by (simp add: comp_def)
  then show ?thesis by (simp add: map_of_sort map_of_map map_prod_def)
qed

lemma json_eq_sorted: "wf_json j \<Longrightarrow> json_eq j (json_sorted j)"
proof (induction j)
  case (JArr xs)
  then show ?case by (auto simp: list_all_iff list_all2_map1 list_all2_map2 list_all2_same)
next
  case (JObj kvs)
  have "\<And>p. p \<in> set kvs \<Longrightarrow> map_of kvs (fst p) = Some (snd p)"
    using JObj.prems by (auto intro: map_of_is_SomeI)
  then show ?case using JObj
    by (fastforce simp: list_all_iff snds.simps map_of_sorted_items)
qed (auto simp: num_eq_def)

section \<open>Message metadata\<close>

definition MAX_METADATA_BYTES :: nat where
  "MAX_METADATA_BYTES = 64 * 1024"

definition dumped_bytes :: "json \<Rightarrow> nat" where
  "dumped_bytes j = length (json_text (json_sorted j))"

definition freeze_metadata :: "pyval \<Rightarrow> json_object res" where
  "freeze_metadata value =
     (if \<not> is_mapping value then Inl TypeError
      else bindR (freeze_json value) (\<lambda>frozen.
        if [] \<in> set (keys (obj_items frozen)) then Inl ValueError
        else if MAX_METADATA_BYTES < dumped_bytes frozen then Inl ValueError
        else Inr (obj_items frozen)))"

lemma freeze_metadata_iff:
  "freeze_metadata v = Inr m \<longleftrightarrow>
     is_mapping v \<and> freeze_json v = Inr (JObj m) \<and> [] \<notin> set (keys m)
       \<and> dumped_bytes (JObj m) \<le> MAX_METADATA_BYTES"
  by (cases "freeze_json v") (auto simp: freeze_metadata_def dest: freeze_mapping)

lemma freeze_metadata_again:
  assumes "freeze_metadata v = Inr m"
  shows "freeze_metadata (json_value (JObj m)) = Inr m"
proof -
  have "is_mapping (json_value (JObj m))" by simp
  with assms show ?thesis
    by (simp add: freeze_metadata_iff del: json_value.simps(7))
qed

end
