(* ===== verification/Message.thy ===== *)
theory Message
  imports Py_Json
begin

text \<open>
  \<open>session/message.py\<close>: the immutable facts of a session. \<open>part\<close> is \<open>ContentPart | ToolCall\<close>,
  \<open>body\<close> is \<open>Input | Output | ToolResult | Control\<close>, \<open>message\<close> the accepted record. Each
  \<open>mk_..\<close> is the constructor with its \<open>__post_init__\<close>: it takes the values a caller may pass
  and returns the frozen object or the exception. \<open>wf_body\<close> and \<open>wf_message\<close> are the class
  invariants those checks establish.
\<close>

section \<open>Content parts and references\<close>

datatype part =
    ContentPart string json
  | ToolCall string json_object

fun is_tool_call :: "part \<Rightarrow> bool" where
  "is_tool_call (ToolCall b a) = True"
| "is_tool_call (ContentPart k v) = False"

fun mk_ContentPart :: "pyval \<Rightarrow> pyval \<Rightarrow> part res" where
  "mk_ContentPart (VStr kind) v =
     (if kind = [] \<or> kind = ''tool_call'' then Inl ValueError
      else bindR (freeze_json v) (\<lambda>j. Inr (ContentPart kind j)))"
| "mk_ContentPart _ v = Inl ValueError"

fun mk_ToolCall :: "pyval \<Rightarrow> pyval \<Rightarrow> part res" where
  "mk_ToolCall (VStr binding_id) arguments =
     (if binding_id = [] then Inl ValueError
      else if \<not> is_mapping arguments then Inl TypeError
      else bindR (freeze_json arguments) (\<lambda>j. Inr (ToolCall binding_id (obj_items j))))"
| "mk_ToolCall _ arguments = Inl ValueError"

record content_references =
  ref_binding_ids :: "string list"
  ref_artifact_ids :: "string list"

definition mk_ContentReferences :: "string list \<Rightarrow> string list \<Rightarrow> content_references res" where
  "mk_ContentReferences binding_ids artifact_ids =
     (if [] \<in> set binding_ids then Inl TypeError
      else if [] \<in> set artifact_ids then Inl TypeError
      else Inr \<lparr>ref_binding_ids = binding_ids, ref_artifact_ids = artifact_ids\<rparr>)"

datatype call_ref = CallRef (ref_message: string) (ref_index: nat)

fun mk_CallRef :: "pyval \<Rightarrow> pyval \<Rightarrow> call_ref res" where
  "mk_CallRef (VStr message_id) (VInt part_index) =
     (if message_id = [] \<or> part_index < 0 then Inl ValueError
      else Inr (CallRef message_id (nat part_index)))"
| "mk_CallRef _ _ = Inl ValueError"

section \<open>Bodies\<close>

datatype finish = Continue | Complete | Quiet

datatype outcome = Success | Denied | Errored | Interrupted

datatype action = Pause | Resume | Abandon | Failure

text \<open>The first argument of \<open>ToolResult\<close> is the private \<open>_legacy_unknown\<close> mark.\<close>

datatype body =
    Input "part list"
  | Output "part list" finish
  | ToolResult bool call_ref outcome "part list"
  | Control action int "string option"

fun body_parts :: "body \<Rightarrow> part list" where
  "body_parts (Input ps) = ps"
| "body_parts (Output ps f) = ps"
| "body_parts (ToolResult l r oc ps) = ps"
| "body_parts (Control a t r) = []"

fun finish_name :: "finish \<Rightarrow> string" where
  "finish_name Continue = ''continue''"
| "finish_name Complete = ''complete''"
| "finish_name Quiet = ''quiet''"

fun outcome_name :: "outcome \<Rightarrow> string" where
  "outcome_name Success = ''success''"
| "outcome_name Denied = ''denied''"
| "outcome_name Errored = ''error''"
| "outcome_name Interrupted = ''interrupted''"

fun action_name :: "action \<Rightarrow> string" where
  "action_name Pause = ''pause''"
| "action_name Resume = ''resume''"
| "action_name Abandon = ''abandon''"
| "action_name Failure = ''failure''"

text \<open>
  \<open>x in {..literals..}\<close>: a list or a dict, or a tuple holding one, is not hashable, so asking
  raises \<open>TypeError\<close>; a text is looked up; anything else is not a member. \<open>literal\<close> returns the
  member.
\<close>

primrec hashable :: "pyval \<Rightarrow> bool" where
  "hashable VNone = True"
| "hashable (VBool b) = True"
| "hashable (VInt i) = True"
| "hashable (VFloat f) = True"
| "hashable (VStr s) = True"
| "hashable (VSeq t xs) = (t \<and> list_all id (map hashable xs))"
| "hashable (VMap kvs) = False"
| "hashable VOther = True"

fun literal :: "('a \<Rightarrow> string) \<Rightarrow> 'a list \<Rightarrow> pyval \<Rightarrow> 'a res" where
  "literal nm xs (VStr s) = (case find (\<lambda>x. nm x = s) xs of Some x \<Rightarrow> Inr x | None \<Rightarrow> Inl ValueError)"
| "literal nm xs v = (if hashable v then Inl ValueError else Inl TypeError)"

definition as_finish :: "pyval \<Rightarrow> finish res" where
  "as_finish = literal finish_name [Continue, Complete, Quiet]"

definition as_outcome :: "pyval \<Rightarrow> outcome res" where
  "as_outcome = literal outcome_name [Success, Denied, Errored, Interrupted]"

definition as_action :: "pyval \<Rightarrow> action res" where
  "as_action = literal action_name [Pause, Resume, Abandon, Failure]"

lemma as_finish_name [simp]: "as_finish (VStr (finish_name f)) = Inr f"
  by (cases f) (simp_all add: as_finish_def)

lemma as_outcome_name [simp]: "as_outcome (VStr (outcome_name oc)) = Inr oc"
  by (cases oc) (simp_all add: as_outcome_def)

lemma as_action_name [simp]: "as_action (VStr (action_name a)) = Inr a"
  by (cases a) (simp_all add: as_action_def)

lemma literal_Inr: "literal nm xs v = Inr x \<Longrightarrow> v = VStr (nm x)"
  by (cases v) (auto split: option.splits if_splits dest: find_Some_iff')

lemma as_finish_Inr: "as_finish v = Inr f \<longleftrightarrow> v = VStr (finish_name f)"
  by (auto simp: as_finish_def[symmetric] dest: literal_Inr[of finish_name, folded as_finish_def])
     (auto simp: as_finish_def dest: literal_Inr)

lemma as_outcome_Inr: "as_outcome v = Inr oc \<longleftrightarrow> v = VStr (outcome_name oc)"
  using as_outcome_name[of oc] by (auto simp: as_outcome_def dest: literal_Inr)

lemma as_action_Inr: "as_action v = Inr a \<longleftrightarrow> v = VStr (action_name a)"
  using as_action_name[of a] by (auto simp: as_action_def dest: literal_Inr)

definition mk_Input :: "part list \<Rightarrow> body res" where
  "mk_Input parts = (if list_ex is_tool_call parts then Inl TypeError else Inr (Input parts))"

definition mk_Output :: "part list \<Rightarrow> pyval \<Rightarrow> body res" where
  "mk_Output parts finish =
     bindR (as_finish finish) (\<lambda>f.
       if f \<noteq> Continue \<and> list_ex is_tool_call parts then Inl ValueError
       else Inr (Output parts f))"

definition mk_ToolResult :: "call_ref \<Rightarrow> pyval \<Rightarrow> part list \<Rightarrow> body res" where
  "mk_ToolResult call_ref outcome parts =
     (if list_ex is_tool_call parts then Inl TypeError
      else bindR (as_outcome outcome) (\<lambda>oc. Inr (ToolResult False call_ref oc parts)))"

definition mk_Control :: "pyval \<Rightarrow> pyval \<Rightarrow> pyval \<Rightarrow> body res" where
  "mk_Control action through_seq reason =
     bindR (as_action action) (\<lambda>a.
       case through_seq of
         VInt t \<Rightarrow>
           (if t < 0 then Inl ValueError
            else case reason of
                VNone \<Rightarrow> Inr (Control a t None)
              | VStr r \<Rightarrow> Inr (Control a t (Some r))
              | _ \<Rightarrow> Inl TypeError)
       | _ \<Rightarrow> Inl ValueError)"

section \<open>Class invariants\<close>

fun wf_part :: "part \<Rightarrow> bool" where
  "wf_part (ContentPart k v) \<longleftrightarrow> k \<noteq> [] \<and> k \<noteq> ''tool_call'' \<and> wf_json v"
| "wf_part (ToolCall b args) \<longleftrightarrow> b \<noteq> [] \<and> wf_json (JObj args)"

fun wf_body :: "body \<Rightarrow> bool" where
  "wf_body (Input ps) \<longleftrightarrow> list_all wf_part ps \<and> \<not> list_ex is_tool_call ps"
| "wf_body (Output ps f) \<longleftrightarrow> list_all wf_part ps \<and> (f = Continue \<or> \<not> list_ex is_tool_call ps)"
| "wf_body (ToolResult l r oc ps) \<longleftrightarrow>
     list_all wf_part ps \<and> \<not> list_ex is_tool_call ps \<and> ref_message r \<noteq> [] \<and> (l \<longrightarrow> oc = Errored)"
| "wf_body (Control a t r) \<longleftrightarrow> 0 \<le> t"

section \<open>Messages\<close>

text \<open>
  \<open>datetime\<close>: an aware value is its instant in microseconds, a naive one has no instant.
\<close>

datatype pytime = Aware int | Naive int

fun is_aware :: "pytime \<Rightarrow> bool" where
  "is_aware (Aware t) = True"
| "is_aware (Naive t) = False"

record message =
  m_id :: string
  m_session :: string
  m_seq :: int
  m_time :: pytime
  m_author :: string
  m_source :: string
  m_body :: body
  m_meta :: json_object

fun control_ahead :: "body \<Rightarrow> int \<Rightarrow> bool" where
  "control_ahead (Control a t r) seq = (seq \<le> t)"
| "control_ahead _ seq = False"

definition mk_Message ::
  "string \<Rightarrow> string \<Rightarrow> int \<Rightarrow> pytime \<Rightarrow> string \<Rightarrow> string \<Rightarrow> body \<Rightarrow> pyval \<Rightarrow> message res" where
  "mk_Message mid sid seq t author source b metadata =
     bindR (freeze_metadata metadata) (\<lambda>meta.
       if mid = [] \<or> sid = [] \<or> author = [] \<or> source = [] then Inl ValueError
       else if seq < 0 then Inl ValueError
       else if \<not> is_aware t then Inl ValueError
       else if control_ahead b seq then Inl ValueError
       else Inr \<lparr>m_id = mid, m_session = sid, m_seq = seq, m_time = t, m_author = author,
                 m_source = source, m_body = b, m_meta = meta\<rparr>)"

definition wf_message :: "message \<Rightarrow> bool" where
  "wf_message m \<longleftrightarrow>
     m_id m \<noteq> [] \<and> m_session m \<noteq> [] \<and> m_author m \<noteq> [] \<and> m_source m \<noteq> [] \<and> 0 \<le> m_seq m
       \<and> is_aware (m_time m) \<and> \<not> control_ahead (m_body m) (m_seq m)
       \<and> [] \<notin> set (keys (m_meta m)) \<and> dumped_bytes (JObj (m_meta m)) \<le> MAX_METADATA_BYTES"

lemma mk_Message_iff:
  "mk_Message mid sid seq t author source b md = Inr m \<longleftrightarrow>
     wf_message m \<and> freeze_metadata md = Inr (m_meta m)
       \<and> m_id m = mid \<and> m_session m = sid \<and> m_seq m = seq \<and> m_time m = t
       \<and> m_author m = author \<and> m_source m = source \<and> m_body m = b"
proof (cases "freeze_metadata md")
  case (Inl e)
  then show ?thesis by (simp add: mk_Message_def)
next
  case (Inr meta)
  then have "[] \<notin> set (keys meta)" and "dumped_bytes (JObj meta) \<le> MAX_METADATA_BYTES"
    using freeze_metadata_iff by blast+
  with Inr show ?thesis by (auto simp: mk_Message_def wf_message_def)
qed

lemma mk_Message_wf: "mk_Message mid sid seq t author source b md = Inr m \<Longrightarrow> wf_message m"
  by (simp add: mk_Message_iff)

section \<open>Constructors establish the invariants\<close>

text \<open>A value whose dicts have distinct keys, as every Python dict does.\<close>

primrec wf_pyval :: "pyval \<Rightarrow> bool" where
  "wf_pyval VNone = True"
| "wf_pyval (VBool b) = True"
| "wf_pyval (VInt i) = True"
| "wf_pyval (VFloat f) = True"
| "wf_pyval (VStr s) = True"
| "wf_pyval (VSeq t xs) = list_all id (map wf_pyval xs)"
| "wf_pyval (VMap kvs) = (distinct (map fst (filter (\<lambda>kv. key_is_str (fst kv)) kvs))
                            \<and> list_all snd (map (map_prod id wf_pyval) kvs))"
| "wf_pyval VOther = True"

lemma wf_json_value [simp]: "wf_pyval (json_value j) = wf_json j"
proof (induction j)
  case (JArr xs)
  then show ?case by (auto simp: list_all_iff)
next
  case (JObj kvs)
  have "filter (\<lambda>kv. key_is_str (fst kv)) (map (map_prod KStr json_value) kvs)
          = map (map_prod KStr json_value) kvs"
    by (auto simp: filter_id_conv)
  moreover have "map fst (map (map_prod KStr json_value) kvs) = map KStr (keys kvs)"
    by (induction kvs) auto
  ultimately have "distinct (map fst (filter (\<lambda>kv. key_is_str (fst kv)) (map (map_prod KStr json_value) kvs)))
      = distinct (keys kvs)"
    by (simp only: distinct_map) (auto intro: inj_onI)
  then show ?case using JObj by (force simp: list_all_iff snds.simps)
qed simp_all

lemma wf_freeze_json: "wf_pyval v \<Longrightarrow> freeze_json v = Inr j \<Longrightarrow> wf_json j"
proof (induction v arbitrary: j)
  case (VFloat f)
  then show ?case by (auto split: pyfloat.splits)
next
  case (VSeq t xs)
  from VSeq.prems(2) obtain ys where j: "j = JArr ys" and m: "map freeze_json xs = map Inr ys"
    by (auto simp: res_simps seqR_Inr_iff)
  have "wf_json y" if "y \<in> set ys" for y
  proof -
    have "Inr y \<in> set (map freeze_json xs)" unfolding m using that by simp
    then obtain x where "x \<in> set xs" and "freeze_json x = Inr y" by auto
    then show ?thesis using VSeq.IH[of x y] VSeq.prems(1) by (simp add: list_all_iff)
  qed
  then show ?case using j by (simp add: list_all_iff)
next
  case (VMap kvs)
  have str: "\<forall>kv \<in> set kvs. key_is_str (fst kv)"
    using VMap.prems(2) by (auto simp: list_ex_iff split: if_splits)
  let ?f = "\<lambda>p. bindR (snd p) (\<lambda>v. Inr (key_str (fst p), v))"
  have "bindR (seqR (map ?f (map (map_prod id freeze_json) kvs))) (\<lambda>ys. Inr (JObj ys)) = Inr j"
    using VMap.prems(2) by (simp split: if_splits)
  then obtain ys where j: "j = JObj ys"
    and "seqR (map ?f (map (map_prod id freeze_json) kvs)) = Inr ys"
    unfolding bindR_Inr_iff by blast
  then have m: "map (\<lambda>p. bindR (freeze_json (snd p)) (\<lambda>v. Inr (key_str (fst p), v))) kvs = map Inr ys"
    by (simp add: seqR_Inr_iff comp_def)
  have len: "length kvs = length ys" using arg_cong[OF m, of length] by simp
  have nth: "fst (ys ! i) = key_str (fst (kvs ! i)) \<and> freeze_json (snd (kvs ! i)) = Inr (snd (ys ! i))"
    if "i < length ys" for i
  proof -
    have "bindR (freeze_json (snd (kvs ! i))) (\<lambda>v. Inr (key_str (fst (kvs ! i)), v)) = Inr (ys ! i)"
      using arg_cong[OF m, of "\<lambda>l. l ! i"] len that by (simp del: bindR_simps)
    then obtain x where "freeze_json (snd (kvs ! i)) = Inr x" and "(key_str (fst (kvs ! i)), x) = ys ! i"
      unfolding bindR_Inr_iff by blast
    then show ?thesis by (cases "ys ! i") simp
  qed
  have "map fst ys = map (key_str \<circ> fst) kvs"
    using nth len by (auto intro!: nth_equalityI)
  moreover have "distinct (map fst kvs)"
    using VMap.prems(1) str by (simp add: filter_id_conv[THEN iffD2])
  moreover have "inj_on key_str (fst ` set kvs)"
  proof (rule inj_onI)
    fix x y assume "x \<in> fst ` set kvs" "y \<in> fst ` set kvs" "key_str x = key_str y"
    then show "x = y" using str by (cases x; cases y) fastforce+
  qed
  ultimately have "distinct (keys ys)"
    by (simp add: distinct_map comp_inj_on map_map[symmetric] del: map_map)
  moreover have "wf_json (snd p)" if mem: "p \<in> set ys" for p
  proof -
    obtain i where "i < length ys" and p: "p = ys ! i" using mem by (metis in_set_conv_nth)
    then have "kvs ! i \<in> set kvs" and "freeze_json (snd (kvs ! i)) = Inr (snd p)"
      using nth len by auto
    moreover have "wf_pyval (snd (kvs ! i))"
      using VMap.prems(1) calculation(1) by (force simp: list_all_iff)
    ultimately show ?thesis using VMap.IH[of "kvs ! i" "snd (kvs ! i)"] by (auto simp: snds.simps)
  qed
  ultimately show ?case using j by (auto simp: list_all_iff)
qed auto

lemma mk_ContentPart_wf: "wf_pyval v \<Longrightarrow> mk_ContentPart k v = Inr p \<Longrightarrow> wf_part p \<and> \<not> is_tool_call p"
  by (cases k) (auto simp: res_simps wf_freeze_json split: if_splits)

lemma mk_ToolCall_wf: "wf_pyval v \<Longrightarrow> mk_ToolCall k v = Inr p \<Longrightarrow> wf_part p \<and> is_tool_call p"
  using freeze_mapping[of v]
  by (cases k) (auto simp: res_simps split: if_splits simp del: wf_json.simps dest!: wf_freeze_json)

lemma mk_body_wf:
  assumes "list_all wf_part ps"
  shows "mk_Input ps = Inr b \<Longrightarrow> wf_body b"
    and "mk_Output ps f = Inr b \<Longrightarrow> wf_body b"
    and "ref_message r \<noteq> [] \<Longrightarrow> mk_ToolResult r oc ps = Inr b \<Longrightarrow> wf_body b"
  using assms
  by (auto simp: mk_Input_def mk_Output_def mk_ToolResult_def res_simps split: if_splits)

lemma mk_Control_wf: "mk_Control a t r = Inr b \<Longrightarrow> wf_body b"
  by (cases "as_action a"; cases t; cases r) (auto simp: mk_Control_def split: if_splits)

end
