(* ===== verification/Message_Codec.thy ===== *)
theory Message_Codec
  imports Message
begin

text \<open>
  \<open>session/message_codec.py\<close>: the persistent form of a body. A stored TEXT column that holds
  JSON is modelled by the document it parses to; \<open>encode_body\<close> returns the document
  \<open>json.dumps(.., sort_keys=True)\<close> writes, so equal columns are equal documents. A document with
  a repeated field (what \<open>_unique_fields\<close> rejects) is one that is not \<open>wf_json\<close>.
\<close>

section \<open>Encoding\<close>

fun part_to_json :: "part \<Rightarrow> json" where
  "part_to_json (ToolCall b args) =
     JObj [(''kind'', JStr ''tool_call''), (''binding_id'', JStr b), (''arguments'', JObj args)]"
| "part_to_json (ContentPart k v) = JObj [(''kind'', JStr k), (''value'', v)]"

fun reason_to_json :: "string option \<Rightarrow> json" where
  "reason_to_json None = JNull"
| "reason_to_json (Some r) = JStr r"

fun body_to_dict :: "body \<Rightarrow> json_object" where
  "body_to_dict (Control a t r) =
     [(''kind'', JStr ''control''), (''action'', JStr (action_name a)), (''through_seq'', JInt t),
      (''reason'', reason_to_json r)]"
| "body_to_dict (Input ps) = [(''kind'', JStr ''input''), (''parts'', JArr (map part_to_json ps))]"
| "body_to_dict (Output ps f) =
     [(''kind'', JStr ''output''), (''parts'', JArr (map part_to_json ps)),
      (''finish'', JStr (finish_name f))]"
| "body_to_dict (ToolResult l r oc ps) =
     [(''kind'', JStr ''tool_result''), (''parts'', JArr (map part_to_json ps)),
      (''outcome'', JStr (outcome_name oc)),
      (''call_ref'', JObj [(''message_id'', JStr (ref_message r)),
                           (''part_index'', JInt (int (ref_index r)))])]"

fun legacy_unknown :: "body \<Rightarrow> bool" where
  "legacy_unknown (ToolResult l r oc ps) = l"
| "legacy_unknown _ = False"

definition encode_body :: "body \<Rightarrow> bool \<Rightarrow> json res" where
  "encode_body b allow_legacy =
     (let data = body_to_dict b in
      if legacy_unknown b then
        (if \<not> allow_legacy then Inl ValueError
         else Inr (json_sorted (JObj (AList.update ''outcome'' (JStr ''unknown'') data))))
      else Inr (json_sorted (JObj data)))"

section \<open>Decoding\<close>

definition object_fields :: "json \<Rightarrow> string list \<Rightarrow> json_object res" where
  "object_fields value fs =
     (case value of
        JObj kvs \<Rightarrow> if set (keys kvs) = set fs then Inr kvs else Inl ValueError
      | _ \<Rightarrow> Inl ValueError)"

definition field :: "json_object \<Rightarrow> string \<Rightarrow> json" where
  "field row k = (case map_of row k of None \<Rightarrow> JNull | Some v \<Rightarrow> v)"

fun decode_part :: "json \<Rightarrow> part res" where
  "decode_part (JObj raw) =
     (if map_of raw ''kind'' = Some (JStr ''tool_call'')
      then bindR (object_fields (JObj raw) [''kind'', ''binding_id'', ''arguments'']) (\<lambda>data.
             mk_ToolCall (json_value (field data ''binding_id'')) (json_value (field data ''arguments'')))
      else bindR (object_fields (JObj raw) [''kind'', ''value'']) (\<lambda>data.
             mk_ContentPart (json_value (field data ''kind'')) (json_value (field data ''value''))))"
| "decode_part _ = Inl ValueError"

fun body_fields :: "string \<Rightarrow> string list option" where
  "body_fields k =
     (if k = ''input'' then Some [''kind'', ''parts'']
      else if k = ''output'' then Some [''kind'', ''parts'', ''finish'']
      else if k = ''tool_result'' then Some [''kind'', ''parts'', ''call_ref'', ''outcome'']
      else None)"

definition mark_legacy :: "bool \<Rightarrow> body \<Rightarrow> body" where
  "mark_legacy old b = (case b of ToolResult l r oc ps \<Rightarrow> ToolResult (l \<or> old) r oc ps | _ \<Rightarrow> b)"

definition decode_result :: "json_object \<Rightarrow> part list \<Rightarrow> body res" where
  "decode_result row parts =
     bindR (object_fields (field row ''call_ref'') [''message_id'', ''part_index'']) (\<lambda>call.
     bindR (mk_CallRef (json_value (field call ''message_id'')) (json_value (field call ''part_index''))) (\<lambda>ref.
     let old = (field row ''outcome'' = JStr ''unknown'') in
     bindR (mk_ToolResult ref (if old then VStr ''error'' else json_value (field row ''outcome'')) parts) (\<lambda>b.
       Inr (mark_legacy old b))))"

definition decode_body :: "json \<Rightarrow> body res" where
  "decode_body payload =
     (if \<not> wf_json payload then Inl ValueError
      else case payload of
        JObj data \<Rightarrow>
          (if map_of data ''kind'' = Some (JStr ''control'')
           then bindR (object_fields payload [''kind'', ''action'', ''through_seq'', ''reason'']) (\<lambda>row.
                  mk_Control (json_value (field row ''action'')) (json_value (field row ''through_seq''))
                             (json_value (field row ''reason'')))
           else case map_of data ''kind'' of
             Some (JStr kind) \<Rightarrow>
               (case body_fields kind of
                  None \<Rightarrow> Inl ValueError
                | Some fs \<Rightarrow>
                    bindR (object_fields payload fs) (\<lambda>row.
                      case field row ''parts'' of
                        JArr raw_parts \<Rightarrow>
                          bindR (mapR decode_part raw_parts) (\<lambda>parts.
                            if kind = ''input'' then mk_Input parts
                            else if kind = ''output'' then mk_Output parts (json_value (field row ''finish''))
                            else decode_result row parts)
                      | _ \<Rightarrow> Inl ValueError))
           | _ \<Rightarrow> Inl ValueError)
      | _ \<Rightarrow> Inl ValueError)"

section \<open>Round trips\<close>

text \<open>
  Sorting keys changes the order of dict items only: \<open>sorted_body\<close> is what reading a written
  column gives back.
\<close>

fun sorted_part :: "part \<Rightarrow> part" where
  "sorted_part (ContentPart k v) = ContentPart k (json_sorted v)"
| "sorted_part (ToolCall b args) = ToolCall b (obj_items (json_sorted (JObj args)))"

fun sorted_body :: "body \<Rightarrow> body" where
  "sorted_body (Input ps) = Input (map sorted_part ps)"
| "sorted_body (Output ps f) = Output (map sorted_part ps) f"
| "sorted_body (ToolResult l r oc ps) = ToolResult l r oc (map sorted_part ps)"
| "sorted_body (Control a t r) = Control a t r"

text \<open>The field names in byte order, as \<open>sort_keys\<close> writes them.\<close>

lemma sort_parts_docs:
  "json_sorted (part_to_json (ToolCall b args)) =
     JObj [(''arguments'', json_sorted (JObj args)), (''binding_id'', JStr b), (''kind'', JStr ''tool_call'')]"
  "json_sorted (part_to_json (ContentPart k v)) = JObj [(''kind'', JStr k), (''value'', json_sorted v)]"
  by (simp_all add: sort_key_def insort_key_def list_less_def)

lemma sorted_obj: "json_sorted (JObj kvs) = JObj (obj_items (json_sorted (JObj kvs)))"
  by simp

lemma is_mapping_value [simp]: "is_mapping (json_value (JObj kvs))"
  by simp

lemma decode_sorted_part:
  assumes "wf_part p"
  shows "decode_part (json_sorted (part_to_json p)) = Inr (sorted_part p)"
proof (cases p)
  case (ContentPart k v)
  with assms show ?thesis
    by (simp only: sort_parts_docs) (simp add: object_fields_def field_def insert_commute)
next
  case (ToolCall b args)
  have "is_mapping (json_value (json_sorted (JObj args)))"
    by (subst sorted_obj) (rule is_mapping_value)
  with ToolCall assms show ?thesis
    by (simp only: sort_parts_docs decode_part.simps sorted_part.simps)
       (simp add: object_fields_def field_def insert_commute del: json_sorted.simps)
qed

lemma decode_sorted_parts:
  assumes "list_all wf_part ps"
  shows "mapR decode_part (map json_sorted (map part_to_json ps)) = Inr (map sorted_part ps)"
proof -
  have "mapR decode_part (map json_sorted (map part_to_json ps))
          = mapR (\<lambda>p. decode_part (json_sorted (part_to_json p))) ps"
    by (induction ps) simp_all
  also have "\<dots> = Inr (map sorted_part ps)"
    using assms by (intro mapR_Inr_map decode_sorted_part) (simp add: list_all_iff)
  finally show ?thesis .
qed

lemma sorted_part_tool_call [simp]: "is_tool_call (sorted_part p) = is_tool_call p"
  by (cases p) simp_all

lemma sorted_parts_tool_call [simp]:
  "list_ex is_tool_call (map sorted_part ps) = list_ex is_tool_call ps"
  by (induction ps) simp_all

lemma wf_part_doc: "wf_part p \<Longrightarrow> wf_json (part_to_json p)"
  by (cases p) auto

lemma wf_reason [simp]: "wf_json (reason_to_json r)"
  by (cases r) simp_all

lemma wf_body_doc: "wf_body b \<Longrightarrow> wf_json (JObj (body_to_dict b))"
  by (cases b) (auto simp: list_all_iff wf_part_doc)

lemma sorted_body_docs:
  "json_sorted (JObj (body_to_dict (Control a t r))) =
     JObj [(''action'', JStr (action_name a)), (''kind'', JStr ''control''), (''reason'', reason_to_json r),
           (''through_seq'', JInt t)]"
  "json_sorted (JObj (body_to_dict (Input ps))) =
     JObj [(''kind'', JStr ''input''), (''parts'', JArr (map json_sorted (map part_to_json ps)))]"
  "json_sorted (JObj (body_to_dict (Output ps f))) =
     JObj [(''finish'', JStr (finish_name f)), (''kind'', JStr ''output''),
           (''parts'', JArr (map json_sorted (map part_to_json ps)))]"
  "json_sorted (JObj (body_to_dict (ToolResult l r' oc ps))) =
     JObj [(''call_ref'', JObj [(''message_id'', JStr (ref_message r')), (''part_index'', JInt (int (ref_index r')))]),
           (''kind'', JStr ''tool_result''), (''outcome'', JStr (outcome_name oc)),
           (''parts'', JArr (map json_sorted (map part_to_json ps)))]"
  "json_sorted (JObj (AList.update ''outcome'' x (body_to_dict (ToolResult l r' oc ps)))) =
     JObj [(''call_ref'', JObj [(''message_id'', JStr (ref_message r')), (''part_index'', JInt (int (ref_index r')))]),
           (''kind'', JStr ''tool_result''), (''outcome'', json_sorted x),
           (''parts'', JArr (map json_sorted (map part_to_json ps)))]"
  by (cases r; simp add: sort_key_def insort_key_def list_less_def)
     (simp_all add: sort_key_def insort_key_def list_less_def)

lemma encode_body_docs:
  "encode_body (Control a t r) al = Inr (json_sorted (JObj (body_to_dict (Control a t r))))"
  "encode_body (Input ps) al = Inr (json_sorted (JObj (body_to_dict (Input ps))))"
  "encode_body (Output ps f) al = Inr (json_sorted (JObj (body_to_dict (Output ps f))))"
  "encode_body (ToolResult False r' oc ps) al = Inr (json_sorted (JObj (body_to_dict (ToolResult False r' oc ps))))"
  "encode_body (ToolResult True r' oc ps) True =
     Inr (json_sorted (JObj (AList.update ''outcome'' (JStr ''unknown'') (body_to_dict (ToolResult True r' oc ps)))))"
  "encode_body (ToolResult True r' oc ps) False = Inl ValueError"
  by (simp_all add: encode_body_def Let_def del: json_sorted.simps body_to_dict.simps)

lemma decode_control:
  assumes "0 \<le> t"
  shows "decode_body (JObj [(''action'', JStr (action_name a)), (''kind'', JStr ''control''),
           (''reason'', reason_to_json r), (''through_seq'', JInt t)]) = Inr (Control a t r)"
  using assms
  by (cases r) (simp_all add: decode_body_def object_fields_def field_def mk_Control_def insert_commute)

lemma decode_input:
  assumes "mapR decode_part docs = Inr ps" and "wf_json (JArr docs)"
  shows "decode_body (JObj [(''kind'', JStr ''input''), (''parts'', JArr docs)]) = mk_Input ps"
  using assms by (simp add: decode_body_def object_fields_def field_def)

lemma decode_output:
  assumes "mapR decode_part docs = Inr ps" and "wf_json (JArr docs)"
  shows "decode_body (JObj [(''finish'', f), (''kind'', JStr ''output''), (''parts'', JArr docs)])
           = (if wf_json f then mk_Output ps (json_value f) else Inl ValueError)"
  using assms by (simp add: decode_body_def object_fields_def field_def insert_commute)

lemma decode_tool_result:
  assumes "mapR decode_part docs = Inr ps" and "wf_json (JArr docs)" and "mid \<noteq> []"
  shows "decode_body (JObj [(''call_ref'', JObj [(''message_id'', JStr mid), (''part_index'', JInt (int i))]),
            (''kind'', JStr ''tool_result''), (''outcome'', JStr oc), (''parts'', JArr docs)])
           = bindR (mk_ToolResult (CallRef mid i) (VStr (if oc = ''unknown'' then ''error'' else oc)) ps)
               (\<lambda>b. Inr (mark_legacy (oc = ''unknown'') b))"
proof -
  let ?ref = "JObj [(''message_id'', JStr mid), (''part_index'', JInt (int i))]"
  let ?row = "[(''call_ref'', ?ref), (''kind'', JStr ''tool_result''), (''outcome'', JStr oc), (''parts'', JArr docs)]"
  have "decode_body (JObj ?row) = decode_result ?row ps"
    using assms(1,2) by (simp add: decode_body_def object_fields_def field_def insert_commute)
  also have "\<dots> = bindR (mk_ToolResult (CallRef mid i) (VStr (if oc = ''unknown'' then ''error'' else oc)) ps)
               (\<lambda>b. Inr (mark_legacy (oc = ''unknown'') b))"
    using assms(3) by (simp add: decode_result_def object_fields_def field_def Let_def)
  finally show ?thesis .
qed

lemma outcome_name_known: "outcome_name oc \<noteq> ''unknown''"
  by (cases oc) simp_all

lemma wf_sorted_docs:
  "list_all wf_part ps \<Longrightarrow> wf_json (JArr (map json_sorted (map part_to_json ps)))"
  by (auto simp: list_all_iff wf_part_doc)

lemma decode_encode:
  assumes "wf_body b" and "encode_body b True = Inr doc"
  shows "decode_body doc = Inr (sorted_body b)"
proof (cases b)
  case (Input ps)
  with assms decode_input[OF decode_sorted_parts wf_sorted_docs, of ps] show ?thesis
    by (auto simp: encode_body_docs sorted_body_docs mk_Input_def simp del: json_sorted.simps body_to_dict.simps)
next
  case (Output ps f)
  with assms decode_output[OF decode_sorted_parts wf_sorted_docs, of ps "JStr (finish_name f)"] show ?thesis
    by (auto simp: encode_body_docs sorted_body_docs mk_Output_def simp del: json_sorted.simps body_to_dict.simps)
next
  case (ToolResult l r oc ps)
  with assms have ps: "list_all wf_part ps" "ref_message r \<noteq> []" by auto
  note d = decode_tool_result[OF decode_sorted_parts[OF ps(1)] wf_sorted_docs[OF ps(1)] ps(2), of "ref_index r"]
  show ?thesis
  proof (cases l)
    case True
    have "doc = json_sorted (JObj (AList.update ''outcome'' (JStr ''unknown'')
            (body_to_dict (ToolResult True r oc ps))))"
      using assms(2) ToolResult True by (auto simp only: encode_body_docs sum.inject)
    then have "doc = JObj [(''call_ref'', JObj [(''message_id'', JStr (ref_message r)),
                 (''part_index'', JInt (int (ref_index r)))]), (''kind'', JStr ''tool_result''),
               (''outcome'', JStr ''unknown''), (''parts'', JArr (map json_sorted (map part_to_json ps)))]"
      by (simp add: sorted_body_docs(5) del: json_sorted.simps(7) body_to_dict.simps AList.update.simps)
    with ToolResult True assms(1) d[of "''unknown''"] as_outcome_name[of Errored] show ?thesis
      by (simp add: mk_ToolResult_def mark_legacy_def list_ex_iff list_all_iff del: as_outcome_name)
  next
    case False
    with ToolResult assms d[of "outcome_name oc"] show ?thesis
      by (auto simp: encode_body_docs sorted_body_docs mk_ToolResult_def mark_legacy_def outcome_name_known
               simp del: json_sorted.simps body_to_dict.simps)
  qed
next
  case (Control a t r)
  with assms decode_control[of t a r] show ?thesis
    by (auto simp: encode_body_docs sorted_body_docs simp del: json_sorted.simps body_to_dict.simps)
qed

text \<open>Conversely, whatever document can be read is what its body is written back to.\<close>

lemma json_value_inv [simp]:
  "json_value j = VStr s \<longleftrightarrow> j = JStr s"
  "json_value j = VInt i \<longleftrightarrow> j = JInt i"
  "json_value j = VNone \<longleftrightarrow> j = JNull"
  by (cases j; auto)+

lemma is_mapping_json_value: "is_mapping (json_value j) \<longleftrightarrow> (\<exists>kvs. j = JObj kvs)"
  by (cases j) auto

lemma object_fields_Inr:
  "object_fields doc fs = Inr row \<longleftrightarrow> doc = JObj row \<and> set (keys row) = set fs"
  by (auto simp: object_fields_def split: json.splits if_splits)

lemma sorted_known_object:
  assumes "wf_json (JObj kvs)" and "set (keys kvs) = set ks" and "sorted ks" and "distinct ks"
  shows "json_sorted (JObj kvs) = JObj (map (\<lambda>k. (k, json_sorted (field kvs k))) ks)"
proof -
  let ?m = "map (map_prod id json_sorted) kvs"
  have keys: "keys ?m = keys kvs" by simp
  have "sort_key fst ?m = map (\<lambda>k. (k, the (map_of ?m k))) ks"
    using assms by (intro sort_known_keys) (simp_all add: keys)
  also have "\<dots> = map (\<lambda>k. (k, json_sorted (field kvs k))) ks"
  proof (rule map_cong[OF refl])
    fix k assume "k \<in> set ks"
    then have "k \<in> fst ` set kvs" using assms(2) by simp
    then obtain v where "map_of kvs k = Some v" by (meson map_of_eq_None_iff not_None_eq)
    then show "(k, the (map_of ?m k)) = (k, json_sorted (field kvs k))"
      by (simp add: field_def map_of_map map_prod_def)
  qed
  finally show ?thesis by simp
qed

lemma mk_ToolCall_Inr:
  "mk_ToolCall k v = Inr p \<Longrightarrow> \<exists>b kvs. k = VStr b \<and> b \<noteq> [] \<and> is_mapping v \<and> freeze_json v = Inr (JObj kvs)
     \<and> p = ToolCall b kvs"
  using freeze_mapping[of v] by (cases k) (auto simp: res_simps split: if_splits)

lemma mk_ContentPart_Inr:
  "mk_ContentPart k v = Inr p \<Longrightarrow> \<exists>b j. k = VStr b \<and> b \<noteq> [] \<and> b \<noteq> ''tool_call'' \<and> freeze_json v = Inr j
     \<and> p = ContentPart b j"
  by (cases k) (auto simp: res_simps split: if_splits)

lemma field_wf: "wf_json (JObj kvs) \<Longrightarrow> wf_json (field kvs k)"
  by (auto simp: field_def list_all_iff split: option.splits dest!: map_of_SomeD)

lemma decode_part_doc:
  assumes "wf_json doc" and "decode_part doc = Inr p"
  shows "json_sorted (part_to_json p) = json_sorted doc" and "wf_part p"
proof -
  obtain raw where doc: "doc = JObj raw" using assms(2) by (cases doc) auto
  have "json_sorted (part_to_json p) = json_sorted doc \<and> wf_part p"
  proof (cases "map_of raw ''kind'' = Some (JStr ''tool_call'')")
    case True
    with assms(2) doc have ks: "set (keys raw) = set [''arguments'', ''binding_id'', ''kind'']"
      and mk: "mk_ToolCall (json_value (field raw ''binding_id'')) (json_value (field raw ''arguments'')) = Inr p"
      by (auto simp: bindR_Inr_iff object_fields_Inr simp del: set_map)
    from mk_ToolCall_Inr[OF mk] obtain b kvs where "field raw ''binding_id'' = JStr b"
      and "field raw ''arguments'' = JObj kvs" and "p = ToolCall b kvs" and "b \<noteq> []"
      by (auto simp: is_mapping_json_value simp del: json_value.simps(7))
    with True sorted_known_object[OF _ ks] assms(1) doc field_wf[of raw "''arguments''"] show ?thesis
      by (simp add: sort_parts_docs field_def list_less_def del: json_sorted.simps wf_json.simps part_to_json.simps)
         (simp add: field_def)
  next
    case False
    with assms(2) doc have ks: "set (keys raw) = set [''kind'', ''value'']"
      and mk: "mk_ContentPart (json_value (field raw ''kind'')) (json_value (field raw ''value'')) = Inr p"
      by (auto simp: bindR_Inr_iff object_fields_Inr simp del: set_map)
    from mk_ContentPart_Inr[OF mk] obtain b where "field raw ''kind'' = JStr b"
      and "p = ContentPart b (field raw ''value'')" and "b \<noteq> []" "b \<noteq> ''tool_call''"
      by auto
    with sorted_known_object[OF _ ks] assms(1) doc field_wf[of raw "''value''"] show ?thesis
      by (simp add: sort_parts_docs list_less_def del: json_sorted.simps wf_json.simps part_to_json.simps)
         (simp)
  qed
  then show "json_sorted (part_to_json p) = json_sorted doc" and "wf_part p" by simp_all
qed

lemma decode_parts_doc:
  assumes "mapR decode_part docs = Inr ps" and "list_all wf_json docs"
  shows "map json_sorted (map part_to_json ps) = map json_sorted docs" and "list_all wf_part ps"
  using assms
  by (induction docs arbitrary: ps) (auto simp: bindR_Inr_iff decode_part_doc)

lemma mk_Control_Inr:
  "mk_Control a t r = Inr b \<Longrightarrow> \<exists>ac ti re. a = VStr (action_name ac) \<and> t = VInt ti \<and> 0 \<le> ti
     \<and> r = (case re of None \<Rightarrow> VNone | Some s \<Rightarrow> VStr s) \<and> b = Control ac ti re"
  by (cases t; cases r) (auto simp: mk_Control_def bindR_Inr_iff as_action_Inr split: if_splits)

lemma mk_CallRef_Inr:
  "mk_CallRef a i = Inr r \<Longrightarrow>
     a = VStr (ref_message r) \<and> ref_message r \<noteq> [] \<and> i = VInt (int (ref_index r))"
  by (cases a; cases i) (auto split: if_splits)

lemma decode_control_doc:
  assumes "wf_json (JObj data)" and "map_of data ''kind'' = Some (JStr ''control'')"
    and "decode_body (JObj data) = Inr b"
  shows "wf_body b \<and> encode_body b True = Inr (json_sorted (JObj data))"
proof -
  from assms have ks: "set (keys data) = set [''action'', ''kind'', ''reason'', ''through_seq'']"
    and mk: "mk_Control (json_value (field data ''action'')) (json_value (field data ''through_seq''))
               (json_value (field data ''reason'')) = Inr b"
    by (auto simp: decode_body_def bindR_Inr_iff object_fields_Inr simp del: set_map wf_json.simps)
  from mk_Control_Inr[OF mk] obtain a t r where f: "field data ''action'' = JStr (action_name a)"
    "field data ''through_seq'' = JInt t" "0 \<le> t" "field data ''reason'' = reason_to_json r" "b = Control a t r"
    by (auto split: option.splits)
  have "json_sorted (JObj data) = JObj (map (\<lambda>k. (k, json_sorted (field data k)))
          [''action'', ''kind'', ''reason'', ''through_seq''])"
    using sorted_known_object[OF assms(1) ks] by (simp add: list_less_def)
  also have "\<dots> = json_sorted (JObj (body_to_dict b))"
    using f assms(2) by (cases r) (simp_all add: sorted_body_docs field_def del: json_sorted.simps(7) body_to_dict.simps)
  finally show ?thesis using f by (simp add: encode_body_docs del: json_sorted.simps body_to_dict.simps)
qed

lemma decode_other_doc:
  assumes "wf_json (JObj data)" and "map_of data ''kind'' \<noteq> Some (JStr ''control'')"
    and "decode_body (JObj data) = Inr b"
  obtains kind fs docs ps where "map_of data ''kind'' = Some (JStr kind)" and "body_fields kind = Some fs"
    and "set (keys data) = set fs" and "field data ''parts'' = JArr docs" and "mapR decode_part docs = Inr ps"
    and "(if kind = ''input'' then mk_Input ps else if kind = ''output'' then mk_Output ps (json_value (field data ''finish''))
          else decode_result data ps) = Inr b"
  using assms
  by (auto simp: decode_body_def bindR_Inr_iff object_fields_Inr simp del: set_map wf_json.simps body_fields.simps
           split: option.splits json.splits)

lemma decode_result_Inr:
  assumes "decode_result row ps = Inr b"
  shows "\<exists>call r oc. field row ''call_ref'' = JObj call \<and> set (keys call) = set [''message_id'', ''part_index'']
           \<and> field call ''message_id'' = JStr (ref_message r) \<and> field call ''part_index'' = JInt (int (ref_index r))
           \<and> ref_message r \<noteq> [] \<and> \<not> list_ex is_tool_call ps
           \<and> (field row ''outcome'' = JStr ''unknown'' \<and> b = ToolResult True r Errored ps
              \<or> field row ''outcome'' = JStr (outcome_name oc) \<and> b = ToolResult False r oc ps)"
proof -
  from assms obtain call r b' where c: "field row ''call_ref'' = JObj call"
      "set (keys call) = set [''message_id'', ''part_index'']"
      "mk_CallRef (json_value (field call ''message_id'')) (json_value (field call ''part_index'')) = Inr r"
    and b': "mk_ToolResult r (if field row ''outcome'' = JStr ''unknown'' then VStr ''error''
              else json_value (field row ''outcome'')) ps = Inr b'"
      "b = mark_legacy (field row ''outcome'' = JStr ''unknown'') b'"
    by (auto simp: decode_result_def bindR_Inr_iff object_fields_Inr Let_def simp del: set_map)
  from b'(1) obtain oc where oc: "\<not> list_ex is_tool_call ps" "b' = ToolResult False r oc ps"
      "(if field row ''outcome'' = JStr ''unknown'' then VStr ''error'' else json_value (field row ''outcome''))
         = VStr (outcome_name oc)"
    by (auto simp: mk_ToolResult_def bindR_Inr_iff as_outcome_Inr split: if_splits)
  show ?thesis
  proof (cases "field row ''outcome'' = JStr ''unknown''")
    case True
    with oc have "oc = Errored" by (cases oc) auto
    with True c b'(2) oc mk_CallRef_Inr[OF c(3)] show ?thesis
      by (auto simp: mark_legacy_def)
  next
    case False
    with c b'(2) oc mk_CallRef_Inr[OF c(3)] show ?thesis by (auto simp: mark_legacy_def)
  qed
qed

lemma sorted_ref:
  assumes "wf_json (JObj call)" and "set (keys call) = set [''message_id'', ''part_index'']"
    and "field call ''message_id'' = JStr m" and "field call ''part_index'' = JInt i"
  shows "json_sorted (JObj call) = JObj [(''message_id'', JStr m), (''part_index'', JInt i)]"
  using sorted_known_object[OF assms(1,2)] assms(3,4) by (simp add: list_less_def)

lemma decode_result_doc:
  assumes wf: "wf_json (JObj data)" and kind: "field data ''kind'' = JStr ''tool_result''"
    and ks: "set (keys data) = set [''kind'', ''parts'', ''call_ref'', ''outcome'']"
    and docs: "field data ''parts'' = JArr docs"
    and eq: "map json_sorted (map part_to_json ps) = map json_sorted docs" and ps: "list_all wf_part ps"
    and r: "decode_result data ps = Inr b"
  shows "wf_body b \<and> encode_body b True = Inr (json_sorted (JObj data))"
proof -
  have ks': "set (keys data) = set [''call_ref'', ''kind'', ''outcome'', ''parts'']"
    using ks by auto
  from decode_result_Inr[OF r] obtain call r oc where c: "field data ''call_ref'' = JObj call"
      "set (keys call) = set [''message_id'', ''part_index'']" "field call ''message_id'' = JStr (ref_message r)"
      "field call ''part_index'' = JInt (int (ref_index r))" "ref_message r \<noteq> []" "\<not> list_ex is_tool_call ps"
    and oc: "field data ''outcome'' = JStr ''unknown'' \<and> b = ToolResult True r Errored ps
      \<or> field data ''outcome'' = JStr (outcome_name oc) \<and> b = ToolResult False r oc ps"
    by blast
  have "wf_json (JObj call)" using field_wf[OF wf, of "''call_ref''"] c(1) by simp
  note ref = sorted_ref[OF this c(2-4)]
  have doc: "json_sorted (JObj data) = JObj [(''call_ref'', JObj [(''message_id'', JStr (ref_message r)),
      (''part_index'', JInt (int (ref_index r)))]), (''kind'', JStr ''tool_result''),
      (''outcome'', json_sorted (field data ''outcome'')), (''parts'', JArr (map json_sorted docs))]"
    using sorted_known_object[OF wf ks'] ref c(1) kind docs by (simp add: list_less_def del: json_sorted.simps(7))
  from oc show ?thesis
  proof
    assume a: "field data ''outcome'' = JStr ''unknown'' \<and> b = ToolResult True r Errored ps"
    have "json_sorted (JObj (AList.update ''outcome'' (JStr ''unknown'') (body_to_dict b))) = json_sorted (JObj data)"
      unfolding doc using a eq by (simp add: sorted_body_docs(5) del: json_sorted.simps(7) body_to_dict.simps AList.update.simps)
    then show ?thesis using a c ps by (simp add: encode_body_docs del: json_sorted.simps body_to_dict.simps)
  next
    assume a: "field data ''outcome'' = JStr (outcome_name oc) \<and> b = ToolResult False r oc ps"
    then have "json_sorted (JObj (body_to_dict b)) = json_sorted (JObj data)"
      unfolding doc using eq by (simp add: sorted_body_docs(4) del: json_sorted.simps(7) body_to_dict.simps)
    then show ?thesis using a c ps by (simp add: encode_body_docs del: json_sorted.simps body_to_dict.simps)
  qed
qed

lemma decode_doc:
  assumes "decode_body doc = Inr b"
  shows "wf_body b \<and> encode_body b True = Inr (json_sorted doc)"
proof -
  from assms obtain data where doc: "doc = JObj data" and wf: "wf_json (JObj data)"
    by (cases doc) (auto simp: decode_body_def split: if_splits)
  show ?thesis
  proof (cases "map_of data ''kind'' = Some (JStr ''control'')")
    case True
    with decode_control_doc wf assms doc show ?thesis by blast
  next
    case False
    from decode_other_doc[OF wf False] assms doc obtain kind fs docs ps where
      k: "map_of data ''kind'' = Some (JStr kind)" "body_fields kind = Some fs" and fs: "set (keys data) = set fs"
      and p: "field data ''parts'' = JArr docs" "mapR decode_part docs = Inr ps"
      and b: "(if kind = ''input'' then mk_Input ps
               else if kind = ''output'' then mk_Output ps (json_value (field data ''finish''))
               else decode_result data ps) = Inr b" by blast
    have kf: "field data ''kind'' = JStr kind" using k by (simp add: field_def)
    have "list_all wf_json docs" using field_wf[OF wf, of "''parts''"] p by (simp add: list_all_iff)
    note d = decode_parts_doc[OF p(2) this]
    consider (i) "kind = ''input''" | (out) "kind = ''output''" | (r) "kind = ''tool_result''"
      using k(2) by (auto split: if_splits)
    then show ?thesis
    proof cases
      case i
      with k(2) fs have "set (keys data) = set [''kind'', ''parts'']" by simp
      from sorted_known_object[OF wf this] i kf p(1)
      have "json_sorted (JObj data) = JObj [(''kind'', JStr ''input''), (''parts'', JArr (map json_sorted docs))]"
        by (simp add: list_less_def del: json_sorted.simps(7))
      moreover from b i have "b = Input ps" and "\<not> list_ex is_tool_call ps"
        by (auto simp: mk_Input_def split: if_splits)
      ultimately show ?thesis using doc d
        by (simp add: encode_body_docs sorted_body_docs del: json_sorted.simps(7) body_to_dict.simps)
    next
      case out
      with k(2) fs have "set (keys data) = set [''finish'', ''kind'', ''parts'']" by auto
      from sorted_known_object[OF wf this] out kf p(1)
      have s: "json_sorted (JObj data) = JObj [(''finish'', json_sorted (field data ''finish'')),
          (''kind'', JStr ''output''), (''parts'', JArr (map json_sorted docs))]"
        by (simp add: list_less_def del: json_sorted.simps(7))
      from b out obtain f where "field data ''finish'' = JStr (finish_name f)" and "b = Output ps f"
        and "f = Continue \<or> \<not> list_ex is_tool_call ps"
        by (auto simp: mk_Output_def bindR_Inr_iff as_finish_Inr split: if_splits)
      then show ?thesis using doc d s
        by (auto simp add: encode_body_docs sorted_body_docs simp del: json_sorted.simps(7) body_to_dict.simps)
    next
      case r
      with k(2) fs b have "set (keys data) = set [''kind'', ''parts'', ''call_ref'', ''outcome'']"
        and "decode_result data ps = Inr b" by simp_all
      with decode_result_doc[OF wf _ _ p(1) d] kf r doc show ?thesis by simp
    qed
  qed
qed

lemmas decode_wf_body = decode_doc[THEN conjunct1]
lemmas encode_decode = decode_doc[THEN conjunct2]

end
