(* ===== verification/Artifacts.thy ===== *)
theory Artifacts
  imports Message
begin

text \<open>
  \<open>session/artifacts.py\<close>: the reference to an immutable attachment and the checks of its
  constructor. A field a caller may pass wrongly typed is a \<open>pyval\<close>. Text is UTF-8, so the
  number of characters is the number of bytes that do not continue one, and \<open>str.strip\<close> removes
  the encodings listed in \<open>white_space\<close>.
\<close>

datatype attachment_kind = FileKind | ImageKind

fun kind_name :: "attachment_kind \<Rightarrow> string" where
  "kind_name FileKind = ''file''"
| "kind_name ImageKind = ''image''"

definition as_kind :: "pyval \<Rightarrow> attachment_kind res" where
  "as_kind v = (if v = VStr ''file'' then Inr FileKind
                else if v = VStr ''image'' then Inr ImageKind else Inl ValueError)"

record attachment_ref =
  att_id :: string
  att_kind :: attachment_kind
  att_filename :: "string option"
  att_media :: "string option"
  att_size :: int
  att_sha :: string

definition code :: "char \<Rightarrow> nat" where
  "code c = of_char c"

definition alnum :: "char \<Rightarrow> bool" where
  "alnum c = (let n = code c in (48 \<le> n \<and> n \<le> 57) \<or> (65 \<le> n \<and> n \<le> 90) \<or> (97 \<le> n \<and> n \<le> 122))"

definition artifact_id_ok :: "string \<Rightarrow> bool" where
  "artifact_id_ok s =
     (case s of [] \<Rightarrow> False
      | c # cs \<Rightarrow> alnum c \<and> length cs \<le> 255 \<and> list_all (\<lambda>d. alnum d \<or> d \<in> set ''._-'') cs)"

definition media_char :: "char \<Rightarrow> bool" where
  "media_char c = (alnum c \<or> c \<in> set ''!#$&^_.+-'')"

definition media_type_ok :: "string \<Rightarrow> bool" where
  "media_type_ok s =
     (let a = takeWhile media_char s; r = dropWhile media_char s in
      a \<noteq> [] \<and> (case r of [] \<Rightarrow> False
                  | c # b \<Rightarrow> c = CHR ''/'' \<and> b \<noteq> [] \<and> list_all media_char b))"

definition sha256_ok :: "string \<Rightarrow> bool" where
  "sha256_ok s = (length s = 64 \<and> list_all (\<lambda>c. let n = code c in (48 \<le> n \<and> n \<le> 57) \<or> (97 \<le> n \<and> n \<le> 102)) s)"

definition char_count :: "string \<Rightarrow> nat" where
  "char_count s = length (filter (\<lambda>c. \<not> (128 \<le> code c \<and> code c < 192)) s)"

definition white_space :: "nat list list" where
  "white_space = map (\<lambda>n. [n]) ([9..<14] @ [28..<33]) @ [[194, 133], [194, 160], [225, 154, 128]]
     @ map (\<lambda>n. [226, 128, n]) ([128..<139] @ [168, 169, 175]) @ [[226, 129, 159], [227, 128, 128]]"

definition stripped :: "string \<Rightarrow> bool" where
  "stripped s =
     (let ns = map code s in
      list_all (\<lambda>w. take (length w) ns \<noteq> w \<and> take (length w) (rev ns) \<noteq> rev w) white_space)"

definition filename_ok :: "string \<Rightarrow> bool" where
  "filename_ok s = (s \<noteq> [] \<and> stripped s \<and> char_count s \<le> 255 \<and>
     list_all (\<lambda>c. c \<noteq> CHR ''/'' \<and> c \<noteq> CHR 0x5C \<and> 32 \<le> code c \<and> code c \<noteq> 127) s)"

fun check_artifact_id :: "pyval \<Rightarrow> string res" where
  "check_artifact_id (VStr s) = (if artifact_id_ok s then Inr s else Inl ValueError)"
| "check_artifact_id _ = Inl TypeError"

fun attachment_filename :: "pyval \<Rightarrow> string option res" where
  "attachment_filename VNone = Inr None"
| "attachment_filename (VStr s) = (if filename_ok s then Inr (Some s) else Inl ValueError)"
| "attachment_filename _ = Inl TypeError"

fun attachment_media_type :: "pyval \<Rightarrow> string option res" where
  "attachment_media_type VNone = Inr None"
| "attachment_media_type (VStr s) =
     (if 255 < char_count s \<or> \<not> media_type_ok s then Inl ValueError else Inr (Some s))"
| "attachment_media_type _ = Inl TypeError"

fun attachment_size :: "pyval \<Rightarrow> int res" where
  "attachment_size (VInt n) = (if n < 0 then Inl ValueError else Inr n)"
| "attachment_size _ = Inl TypeError"

fun attachment_sha :: "pyval \<Rightarrow> string res" where
  "attachment_sha (VStr s) = (if sha256_ok s then Inr s else Inl ValueError)"
| "attachment_sha _ = Inl TypeError"

definition mk_AttachmentRef ::
  "pyval \<Rightarrow> attachment_kind \<Rightarrow> pyval \<Rightarrow> pyval \<Rightarrow> pyval \<Rightarrow> pyval \<Rightarrow> attachment_ref res" where
  "mk_AttachmentRef artifact_id kind filename media_type size_bytes sha256 =
     bindR (check_artifact_id artifact_id) (\<lambda>i.
     bindR (attachment_filename filename) (\<lambda>f.
     bindR (attachment_media_type media_type) (\<lambda>m.
     bindR (attachment_size size_bytes) (\<lambda>n.
     bindR (attachment_sha sha256) (\<lambda>h.
       Inr \<lparr>att_id = i, att_kind = kind, att_filename = f, att_media = m, att_size = n, att_sha = h\<rparr>)))))"

definition wf_attachment :: "attachment_ref \<Rightarrow> bool" where
  "wf_attachment r \<longleftrightarrow> artifact_id_ok (att_id r) \<and> pred_option filename_ok (att_filename r)
     \<and> pred_option (\<lambda>m. char_count m \<le> 255 \<and> media_type_ok m) (att_media r)
     \<and> 0 \<le> att_size r \<and> sha256_ok (att_sha r)"

fun opt_text :: "string option \<Rightarrow> pyval" where
  "opt_text None = VNone"
| "opt_text (Some s) = VStr s"

lemma attachment_filename_Inr: "attachment_filename v = Inr f \<longleftrightarrow> v = opt_text f \<and> pred_option filename_ok f"
  by (cases v; cases f) auto

lemma attachment_media_Inr: "attachment_media_type v = Inr m \<longleftrightarrow>
    v = opt_text m \<and> pred_option (\<lambda>m. char_count m \<le> 255 \<and> media_type_ok m) m"
  by (cases v; cases m) auto

lemma check_artifact_id_Inr: "check_artifact_id v = Inr i \<longleftrightarrow> v = VStr i \<and> artifact_id_ok i"
  by (cases v) auto

lemma attachment_size_Inr: "attachment_size v = Inr n \<longleftrightarrow> v = VInt n \<and> 0 \<le> n"
  by (cases v) auto

lemma attachment_sha_Inr: "attachment_sha v = Inr h \<longleftrightarrow> v = VStr h \<and> sha256_ok h"
  by (cases v) auto

lemmas attachment_checks = attachment_filename_Inr attachment_media_Inr check_artifact_id_Inr
  attachment_size_Inr attachment_sha_Inr

lemma mk_AttachmentRef_iff:
  "mk_AttachmentRef i k f m n h = Inr r \<longleftrightarrow>
     wf_attachment r \<and> i = VStr (att_id r) \<and> k = att_kind r \<and> f = opt_text (att_filename r)
       \<and> m = opt_text (att_media r) \<and> n = VInt (att_size r) \<and> h = VStr (att_sha r)"
  by (cases r) (auto simp: mk_AttachmentRef_def wf_attachment_def res_simps attachment_checks)

end
