(* ===== verification/Message_Store.thy ===== *)
theory Message_Store
  imports Message_Codec Artifacts
begin

text \<open>
  The authority of \<open>session/log.py\<close>: the tables, session attributes, transactions, bindings and
  \<open>MessageWriter\<close>. A table is the list of its rows, oldest first; a TEXT column that holds JSON
  is the document it parses to; a timestamp column is the \<open>datetime\<close> it parses to.
  \<open>in_tx\<close> is \<open>connection.in_transaction\<close>. Callbacks a plugin registers with a writer (content
  validators, \<open>check_call\<close>, \<open>check_metadata\<close>, \<open>update_metadata\<close>) are functions in the writer's record.
  \<open>now\<close> is the instant \<open>datetime.now(UTC)\<close> returns.
\<close>

section \<open>Session attributes\<close>

datatype visibility = Listed | Internal

datatype learning = Eligible | Excluded

record session_attributes =
  sa_visibility :: visibility
  sa_learning :: learning

fun visibility_name :: "visibility \<Rightarrow> string" where
  "visibility_name Listed = ''listed''"
| "visibility_name Internal = ''internal''"

fun learning_name :: "learning \<Rightarrow> string" where
  "learning_name Eligible = ''eligible''"
| "learning_name Excluded = ''excluded''"

text \<open>\<open>SessionAttributes(..)\<close>: membership in a tuple of literals compares, it does not hash.\<close>

definition mk_SessionAttributes :: "json \<Rightarrow> json \<Rightarrow> session_attributes res" where
  "mk_SessionAttributes v l =
     (case find (\<lambda>x. JStr (visibility_name x) = v) [Listed, Internal] of
        None \<Rightarrow> Inl ValueError
      | Some vis \<Rightarrow>
          (case find (\<lambda>x. JStr (learning_name x) = l) [Eligible, Excluded] of
             None \<Rightarrow> Inl ValueError
           | Some lrn \<Rightarrow> Inr \<lparr>sa_visibility = vis, sa_learning = lrn\<rparr>))"

definition encode_attributes :: "session_attributes \<Rightarrow> json" where
  "encode_attributes a =
     JObj [(''learning'', JStr (learning_name (sa_learning a))),
           (''visibility'', JStr (visibility_name (sa_visibility a)))]"

definition decode_attributes :: "json \<Rightarrow> session_attributes res" where
  "decode_attributes raw =
     (case raw of
        JObj pairs \<Rightarrow>
          (if length pairs \<noteq> 2 \<or> set (keys pairs) \<noteq> {''visibility'', ''learning''} then Inl ValueError
           else mk_SessionAttributes (field pairs ''visibility'') (field pairs ''learning''))
      | _ \<Rightarrow> Inl ValueError)"

definition default_attributes :: session_attributes where
  "default_attributes = \<lparr>sa_visibility = Listed, sa_learning = Eligible\<rparr>"

lemma decode_encode_attributes [simp]: "decode_attributes (encode_attributes a) = Inr a"
  by (cases "sa_visibility a"; cases "sa_learning a"; cases a)
     (auto simp: decode_attributes_def encode_attributes_def mk_SessionAttributes_def field_def)

section \<open>Tables\<close>

record session_row =
  s_key :: string
  s_created :: pytime
  s_updated :: pytime
  s_metadata :: "json option"
  s_next :: int
  s_attributes :: json

record message_row =
  r_id :: string
  r_session :: string
  r_seq :: int
  r_ts :: pytime
  r_author :: string
  r_source :: string
  r_body :: json
  r_metadata :: json

record attachment_row =
  a_ref :: attachment_ref
  a_state :: string

record owner_row =
  o_owner :: string
  o_key :: string
  o_version :: int
  o_value :: json

record message_log =
  sessions :: "session_row list"
  messages :: "message_row list"
  bindings :: "(string \<times> json) list"
  message_bindings :: "(string \<times> string) list"
  attachments :: "attachment_row list"
  message_attachments :: "(string \<times> nat \<times> string) list"
  owner_records :: "owner_row list"
  has_metadata :: bool
  attachments_current :: bool
  in_tx :: bool

definition empty_log :: message_log where
  "empty_log = \<lparr>sessions = [], messages = [], bindings = [], message_bindings = [], attachments = [],
     message_attachments = [], owner_records = [], has_metadata = True, attachments_current = True,
     in_tx = False\<rparr>"

definition find_session :: "message_log \<Rightarrow> string \<Rightarrow> session_row option" where
  "find_session s k = find (\<lambda>r. s_key r = k) (sessions s)"

definition find_message :: "message_log \<Rightarrow> string \<Rightarrow> message_row option" where
  "find_message s i = find (\<lambda>r. r_id r = i) (messages s)"

text \<open>\<open>_json_object\<close>: the persisted object, rejected when a field repeats or it is no object.\<close>

definition json_object_of :: "json \<Rightarrow> json_object res" where
  "json_object_of raw =
     (if \<not> wf_json raw then Inl ValueError
      else case raw of JObj kvs \<Rightarrow> Inr kvs | _ \<Rightarrow> Inl ValueError)"

text \<open>\<open>_message\<close>: a row read back as a \<open>Message\<close>; a log without the column has no metadata.\<close>

definition message_of :: "message_log \<Rightarrow> message_row \<Rightarrow> message res" where
  "message_of s r =
     bindR (decode_body (r_body r)) (\<lambda>b.
     bindR (if has_metadata s then json_object_of (r_metadata r) else Inr []) (\<lambda>md.
       mk_Message (r_id r) (r_session r) (r_seq r) (r_ts r) (r_author r) (r_source r) b
         (frozen_value (JObj md))))"

section \<open>Transactions\<close>

text \<open>
  \<open>_write\<close>: the callback runs on the store inside a transaction; returning commits its store,
  raising rolls back to the store before. A call inside a transaction is refused.
\<close>

definition write_tx ::
  "(message_log \<Rightarrow> ('a \<times> message_log) res) \<Rightarrow> message_log \<Rightarrow> 'a res \<times> message_log" where
  "write_tx callback s =
     (if in_tx s then (Inl RuntimeError, s)
      else case callback (s\<lparr>in_tx := True\<rparr>) of
        Inl e \<Rightarrow> (Inl e, s)
      | Inr (x, t) \<Rightarrow> (Inr x, t\<lparr>in_tx := False\<rparr>))"

text \<open>\<open>_read\<close>: a read joins the caller's transaction or opens its own; it changes nothing.\<close>

definition session_attributes_of :: "message_log \<Rightarrow> string \<Rightarrow> session_attributes res" where
  "session_attributes_of s sid =
     (case find_session s sid of
        None \<Rightarrow> Inl ValueError
      | Some row \<Rightarrow> decode_attributes (s_attributes row))"

definition new_session :: "string \<Rightarrow> int \<Rightarrow> session_attributes \<Rightarrow> session_row" where
  "new_session sid now attributes =
     \<lparr>s_key = sid, s_created = Aware now, s_updated = Aware now, s_metadata = None, s_next = 0,
      s_attributes = encode_attributes attributes\<rparr>"

definition insert_or_ignore_session :: "session_row \<Rightarrow> message_log \<Rightarrow> message_log" where
  "insert_or_ignore_session row s =
     (if find_session s (s_key row) = None then s\<lparr>sessions := sessions s @ [row]\<rparr> else s)"

definition ensure_session ::
  "int \<Rightarrow> string \<Rightarrow> session_attributes \<Rightarrow> message_log \<Rightarrow> session_attributes res \<times> message_log" where
  "ensure_session now sid attributes s =
     (if sid = [] then (Inl ValueError, s)
      else write_tx (\<lambda>s.
        let s = insert_or_ignore_session (new_session sid now attributes) s in
        bindR (session_attributes_of s sid) (\<lambda>current.
          if current \<noteq> attributes then Inl MessageConflict else Inr (current, s))) s)"

section \<open>Bindings\<close>

definition save_binding :: "string \<Rightarrow> pyval \<Rightarrow> message_log \<Rightarrow> message_log res" where
  "save_binding binding_id descriptor s =
     (if binding_id = [] then Inl ValueError
      else bindR (freeze_json descriptor) (\<lambda>frozen.
        let payload = json_sorted frozen in
        case map_of (bindings s) binding_id of
          Some old \<Rightarrow> (if old \<noteq> payload then Inl MessageConflict else Inr s)
        | None \<Rightarrow> Inr (s\<lparr>bindings := bindings s @ [(binding_id, payload)]\<rparr>)))"

definition read_binding :: "message_log \<Rightarrow> string \<Rightarrow> json_object res" where
  "read_binding s binding_id =
     (case map_of (bindings s) binding_id of
        None \<Rightarrow> Inl KeyError
      | Some raw \<Rightarrow> json_object_of raw)"

definition read_bindings :: "message_log \<Rightarrow> json_object list res" where
  "read_bindings s = mapR (read_binding s) (sort (keys (bindings s)))"

section \<open>Attachment order\<close>

text \<open>
  \<open>validate_attachment_bindings\<close>: every attachment row names a message and an artifact, and in
  message order the ordinals count up from 0.
\<close>

fun ordinals_continue :: "string option \<Rightarrow> nat \<Rightarrow> (string \<times> nat \<times> string) list \<Rightarrow> unit res" where
  "ordinals_continue previous expected [] = Inr ()"
| "ordinals_continue previous expected ((mid, n, art) # rows) =
     (let e = (if previous = Some mid then expected else 0) in
      if n \<noteq> e then Inl ValueError else ordinals_continue (Some mid) (e + 1) rows)"

definition attachment_key_missing :: "message_log \<Rightarrow> string \<times> nat \<times> string \<Rightarrow> bool" where
  "attachment_key_missing s row =
     (find_message s (fst row) = None
      \<or> \<not> list_ex (\<lambda>a. att_id (a_ref a) = snd (snd row)) (attachments s))"

definition validate_attachment_bindings :: "message_log \<Rightarrow> unit res" where
  "validate_attachment_bindings s =
     (if list_ex (attachment_key_missing s) (message_attachments s) then Inl ValueError
      else ordinals_continue None 0
             (sort_key fst (sort_key (fst \<circ> snd) (message_attachments s))))"

section \<open>Writers\<close>

datatype body_type = InputType | OutputType | ToolResultType | ControlType

fun type_of :: "body \<Rightarrow> body_type" where
  "type_of (Input ps) = InputType"
| "type_of (Output ps f) = OutputType"
| "type_of (ToolResult l r oc ps) = ToolResultType"
| "type_of (Control a t r) = ControlType"

text \<open>
  A content validator returns its references, or (\<open>None\<close>) some other object. The projection of
  session metadata returns values by key, \<open>VNone\<close> to remove a key.
\<close>

record writer =
  w_session :: string
  w_author :: string
  w_source :: string
  w_types :: "body_type list"
  w_content :: "(string \<times> (part \<Rightarrow> content_references option res)) list"
  w_call_ref :: "call_ref option"
  w_check_call :: "(part \<Rightarrow> unit res) option"
  w_metadata_keys :: "string list"
  w_update_metadata :: "(body \<Rightarrow> (string \<times> pyval) list res) option"
  w_message_keys :: "string list"
  w_check_metadata :: "(json_object \<Rightarrow> unit res) option"
  w_active :: bool

text \<open>\<open>MessageLog.writer\<close>: a writer of tool results is bound to the call it answers.\<close>

definition new_writer :: "writer \<Rightarrow> writer res" where
  "new_writer w = (if ToolResultType \<in> set (w_types w) \<and> w_call_ref w = None then Inl ValueError
                   else Inr (w\<lparr>w_active := True\<rparr>))"

definition expire :: "writer \<Rightarrow> writer" where
  "expire w = w\<lparr>w_active := False\<rparr>"

fun result_ref :: "body \<Rightarrow> call_ref option" where
  "result_ref (ToolResult l r oc ps) = Some r"
| "result_ref _ = None"

definition check_grant :: "writer \<Rightarrow> body \<Rightarrow> unit res" where
  "check_grant w b =
     (if type_of b \<notin> set (w_types w) then Inl PermissionError
      else if result_ref b \<noteq> None \<and> result_ref b \<noteq> w_call_ref w then Inl PermissionError
      else Inr ())"

text \<open>
  \<open>_check_parts\<close>: the loop over the parts collects the bindings (a set, kept without repetition)
  and the artifacts in order; then every artifact has to be published.
\<close>

fun is_control :: "body \<Rightarrow> bool" where
  "is_control (Control a t r) = True"
| "is_control _ = False"

definition check_part :: "writer \<Rightarrow> part \<Rightarrow> string list \<times> string list \<Rightarrow> (string list \<times> string list) res" where
  "check_part w p acc =
     (case p of
        ToolCall binding args \<Rightarrow>
          (case w_check_call w of
             None \<Rightarrow> Inl PermissionError
           | Some check \<Rightarrow> bindR (check p) (\<lambda>_. Inr (List.insert binding (fst acc), snd acc)))
      | ContentPart kind v \<Rightarrow>
          (case map_of (w_content w) kind of
             None \<Rightarrow> Inl PermissionError
           | Some validator \<Rightarrow>
               bindR (validator p) (\<lambda>references.
                 case references of
                   None \<Rightarrow> Inl TypeError
                 | Some refs \<Rightarrow> Inr (fold List.insert (ref_binding_ids refs) (fst acc),
                                      snd acc @ ref_artifact_ids refs))))"

definition artifact_ready :: "message_log \<Rightarrow> string \<Rightarrow> bool" where
  "artifact_ready s artifact_id =
     (case find (\<lambda>a. att_id (a_ref a) = artifact_id) (attachments s) of
        None \<Rightarrow> False
      | Some row \<Rightarrow> a_state row = ''ready'')"

definition check_parts :: "writer \<Rightarrow> message_log \<Rightarrow> body \<Rightarrow> (string list \<times> string list) res" where
  "check_parts w s b =
     bindR (if is_control b then Inr ([], []) else foldR (check_part w) (body_parts b) ([], []))
       (\<lambda>(binding_ids, artifacts).
         if artifacts \<noteq> [] \<and> \<not> attachments_current s then Inl RuntimeError
         else if list_ex (\<lambda>a. \<not> artifact_ready s a) artifacts then Inl ValueError
         else Inr (binding_ids, artifacts))"

text \<open>
  The call a stored body answers, as \<open>json_extract(body, '$.call_ref..')\<close> reads it under
  \<open>kind = 'tool_result'\<close>: a text and a number (SQLite reads a JSON boolean as 0 or 1).
\<close>

definition json_get :: "string \<Rightarrow> json \<Rightarrow> json" where
  "json_get k j = (case j of JObj kvs \<Rightarrow> field kvs k | _ \<Rightarrow> JNull)"

definition answered_call :: "json \<Rightarrow> (json \<times> int) option" where
  "answered_call body =
     (if json_get ''kind'' body \<noteq> JStr ''tool_result'' then None
      else let ref = json_get ''call_ref'' body in
        if json_get ''message_id'' ref = JNull then None
        else map_option (Pair (json_get ''message_id'' ref)) (json_num (json_get ''part_index'' ref)))"

definition call_key :: "call_ref \<Rightarrow> json \<times> int" where
  "call_key ref = (JStr (ref_message ref), int (ref_index ref))"

definition has_result :: "message_log \<Rightarrow> call_ref \<Rightarrow> bool" where
  "has_result s ref = list_ex (\<lambda>r. answered_call (r_body r) = Some (call_key ref)) (messages s)"

fun calls_tool :: "body \<Rightarrow> nat \<Rightarrow> bool" where
  "calls_tool (Output ps f) i = (i < length ps \<and> is_tool_call (ps ! i))"
| "calls_tool _ i = False"

definition check_call_result :: "writer \<Rightarrow> message_log \<Rightarrow> call_ref \<Rightarrow> unit res" where
  "check_call_result w s ref =
     (case find_message s (ref_message ref) of
        None \<Rightarrow> Inl ValueError
      | Some call \<Rightarrow>
          if r_session call \<noteq> w_session w \<or> r_source call \<noteq> w_source w then Inl ValueError
          else bindR (decode_body (r_body call)) (\<lambda>request.
            if \<not> calls_tool request (ref_index ref) then Inl ValueError
            else if has_result s ref then Inl MessageConflict
            else Inr ()))"

definition check_result :: "writer \<Rightarrow> message_log \<Rightarrow> body \<Rightarrow> unit res" where
  "check_result w s b =
     (case result_ref b of None \<Rightarrow> Inr () | Some ref \<Rightarrow> check_call_result w s ref)"

text \<open>\<open>MessageWriter.check\<close>: what can be known before the append.\<close>

definition writer_check :: "writer \<Rightarrow> message_log \<Rightarrow> body \<Rightarrow> unit res" where
  "writer_check w s b =
     bindR (check_grant w b) (\<lambda>_.
     if \<not> w_active w then Inl WriterExpired
     else bindR (check_parts w s b) (\<lambda>_. check_result w s b))"

section \<open>Session metadata\<close>

text \<open>
  Python's \<open>==\<close> between a value the projection returned and a frozen value: numbers by value,
  a list is never a tuple, a dict by its items.
\<close>

primrec frozen_eq :: "pyval \<Rightarrow> json \<Rightarrow> bool" where
  "frozen_eq VNone = (\<lambda>j. j = JNull)"
| "frozen_eq (VBool b) = num_eq (JBool b)"
| "frozen_eq (VInt i) = num_eq (JInt i)"
| "frozen_eq (VFloat f) = (\<lambda>j. case f of
       NonFinite \<Rightarrow> False
     | Finite r i \<Rightarrow> num_eq (JFloat r i) j \<or> (i = None \<and> j = JFloat r None))"
| "frozen_eq (VStr s) = (\<lambda>j. j = JStr s)"
| "frozen_eq (VSeq t xs) = (\<lambda>j. case j of
       JArr ys \<Rightarrow> t \<and> list_all2 (\<lambda>f y. f y) (map frozen_eq xs) ys | _ \<Rightarrow> False)"
| "frozen_eq (VMap kvs) = (\<lambda>j. case j of
       JObj ls \<Rightarrow> length kvs = length ls \<and>
         list_all (\<lambda>p. key_is_str (fst p) \<and>
                       (case map_of ls (key_str (fst p)) of None \<Rightarrow> False | Some w \<Rightarrow> snd p w))
                  (map (map_prod id frozen_eq) kvs)
     | _ \<Rightarrow> False)"
| "frozen_eq VOther = (\<lambda>j. False)"

definition py_dict :: "(string \<times> pyval) list \<Rightarrow> pyval" where
  "py_dict d = VMap (map (map_prod KStr id) d)"

fun merge_key :: "string \<times> pyval \<Rightarrow> (string \<times> pyval) list \<Rightarrow> (string \<times> pyval) list" where
  "merge_key (k, v) d = (if v = VNone then AList.delete k d else AList.update k v d)"

definition session_metadata :: "message_log \<Rightarrow> string \<Rightarrow> json_object option res" where
  "session_metadata s sid =
     (case find_session s sid of
        None \<Rightarrow> Inr None
      | Some row \<Rightarrow>
          (case s_metadata row of
             None \<Rightarrow> Inr None
           | Some raw \<Rightarrow> bindR (json_object_of raw) (\<lambda>m. Inr (Some m))))"

definition update_session :: "string \<Rightarrow> (session_row \<Rightarrow> session_row) \<Rightarrow> message_log \<Rightarrow> message_log" where
  "update_session sid f s = s\<lparr>sessions := map (\<lambda>r. if s_key r = sid then f r else r) (sessions s)\<rparr>"

definition merge_session_metadata ::
  "string \<Rightarrow> (string \<times> pyval) list \<Rightarrow> message_log \<Rightarrow> message_log res" where
  "merge_session_metadata sid changes s =
     (if changes = [] then Inr s
      else bindR (session_metadata s sid) (\<lambda>stored.
        let current = (case stored of None \<Rightarrow> [] | Some m \<Rightarrow> m);
            updated = fold merge_key changes (map (map_prod id frozen_value) current) in
        if frozen_eq (py_dict updated) (JObj current) then Inr s
        else bindR (freeze_json (py_dict updated)) (\<lambda>doc.
               Inr (update_session sid (\<lambda>r. r\<lparr>s_metadata := Some doc\<rparr>) s))))"

section \<open>Append\<close>

text \<open>The INSERT of a message, with the unique keys of its table.\<close>

definition insert_message :: "message_row \<Rightarrow> message_log \<Rightarrow> message_log res" where
  "insert_message row s =
     (if list_ex (\<lambda>r. r_id r = r_id row
                     \<or> (r_session r = r_session row \<and> r_seq r = r_seq row)
                     \<or> (answered_call (r_body row) \<noteq> None
                         \<and> answered_call (r_body r) = answered_call (r_body row))) (messages s)
      then Inl IntegrityError
      else Inr (s\<lparr>messages := messages s @ [row]\<rparr>))"

definition insert_attachment :: "string \<Rightarrow> nat \<times> string \<Rightarrow> message_log \<Rightarrow> message_log res" where
  "insert_attachment mid na s =
     (if list_ex (\<lambda>r. fst r = mid \<and> fst (snd r) = fst na) (message_attachments s)
         \<or> attachment_key_missing s (mid, na) then Inl IntegrityError
      else Inr (s\<lparr>message_attachments := message_attachments s @ [(mid, na)]\<rparr>))"

definition insert_binding :: "string \<Rightarrow> string \<Rightarrow> message_log \<Rightarrow> message_log res" where
  "insert_binding mid binding_id s =
     (if (mid, binding_id) \<in> set (message_bindings s) \<or> map_of (bindings s) binding_id = None
      then Inl IntegrityError
      else Inr (s\<lparr>message_bindings := message_bindings s @ [(mid, binding_id)]\<rparr>))"

definition next_seq :: "message_log \<Rightarrow> string \<Rightarrow> int" where
  "next_seq s sid = (case find_session s sid of None \<Rightarrow> 0 | Some r \<Rightarrow> s_next r)"

definition source_head :: "message_log \<Rightarrow> string \<Rightarrow> string \<Rightarrow> int" where
  "source_head s sid src =
     max_default (- 1) (map r_seq (filter (\<lambda>r. r_session r = sid \<and> r_source r = src) (messages s)))"

text \<open>A repeated \<open>message_id\<close>: the stored message when it is the same fact, a conflict otherwise.\<close>

definition replay :: "writer \<Rightarrow> message_log \<Rightarrow> message_row \<Rightarrow> json \<Rightarrow> json_object \<Rightarrow> message res" where
  "replay w s old payload md =
     (if (r_session old, r_author old, r_source old, r_body old)
           \<noteq> (w_session w, w_author w, w_source w, payload) then Inl MessageConflict
      else bindR (message_of s old) (\<lambda>previous.
        if json_sorted (JObj (m_meta previous)) \<noteq> json_sorted (JObj md) then Inl MessageConflict
        else Inr previous))"

definition project_metadata :: "writer \<Rightarrow> body \<Rightarrow> (string \<times> pyval) list res" where
  "project_metadata w b = (case w_update_metadata w of None \<Rightarrow> Inr [] | Some f \<Rightarrow> f b)"

text \<open>Step 2 and 3 of \<open>_append\<close>: the new rows.\<close>

definition commit_message ::
  "int \<Rightarrow> writer \<Rightarrow> string \<Rightarrow> body \<Rightarrow> json \<Rightarrow> json_object \<Rightarrow> string list \<Rightarrow> string list
     \<Rightarrow> (string \<times> pyval) list \<Rightarrow> message_log \<Rightarrow> (message \<times> message_log) res" where
  "commit_message now w mid b payload md binding_ids artifacts changes s =
     (let s = insert_or_ignore_session (new_session (w_session w) now default_attributes) s;
          seq = next_seq s (w_session w) in
      bindR (mk_Message mid (w_session w) seq (Aware now) (w_author w) (w_source w) b (frozen_value (JObj md))) (\<lambda>m.
      bindR (insert_message
        \<lparr>r_id = mid, r_session = w_session w, r_seq = seq, r_ts = Aware now, r_author = w_author w,
         r_source = w_source w, r_body = payload, r_metadata = json_sorted (JObj md)\<rparr> s) (\<lambda>s.
      bindR (foldR (insert_attachment mid) (List.enumerate 0 artifacts) s) (\<lambda>s.
      bindR (foldR (insert_binding mid) binding_ids s) (\<lambda>s.
      let s = update_session (w_session w) (\<lambda>r. r\<lparr>s_next := seq + 1, s_updated := Aware now\<rparr>) s in
      bindR (merge_session_metadata (w_session w) changes s) (\<lambda>s. Inr (m, s)))))))"

definition append_message ::
  "int \<Rightarrow> writer \<Rightarrow> string \<Rightarrow> body \<Rightarrow> int option \<Rightarrow> pyval option \<Rightarrow> message_log
     \<Rightarrow> (message \<times> message_log) res" where
  "append_message now w mid b expected_head metadata s =
     bindR (check_grant w b) (\<lambda>_.
     bindR (freeze_metadata (case metadata of None \<Rightarrow> VMap [] | Some v \<Rightarrow> v)) (\<lambda>md.
     if w_check_metadata w = None \<and> \<not> set (keys md) \<subseteq> set (w_message_keys w) then Inl PermissionError
     else if md \<noteq> [] \<and> \<not> has_metadata s then Inl RuntimeError
     else
       let old = find_message s mid in
       bindR (encode_body b (old \<noteq> None)) (\<lambda>payload.
       case old of
         Some row \<Rightarrow> bindR (replay w s row payload md) (\<lambda>m. Inr (m, s))
       | None \<Rightarrow>
           if \<not> w_active w then Inl WriterExpired
           else bindR (case w_check_metadata w of
                         Some check \<Rightarrow> if md \<noteq> [] then check md else Inr () | None \<Rightarrow> Inr ()) (\<lambda>_.
           if expected_head \<noteq> None \<and> expected_head \<noteq> Some (source_head s (w_session w) (w_source w))
           then Inl MessageConflict
           else bindR (check_parts w s b) (\<lambda>(binding_ids, artifacts).
           bindR (check_result w s b) (\<lambda>_.
           bindR (project_metadata w b) (\<lambda>changes.
           if \<not> set (keys changes) \<subseteq> set (w_metadata_keys w) then Inl PermissionError
           else commit_message now w mid b payload md binding_ids artifacts changes s)))))))"

definition writer_append ::
  "int \<Rightarrow> writer \<Rightarrow> string \<Rightarrow> body \<Rightarrow> int option \<Rightarrow> pyval option \<Rightarrow> message_log
     \<Rightarrow> message res \<times> message_log" where
  "writer_append now w mid b expected_head metadata s =
     write_tx (append_message now w mid b expected_head metadata) s"

section \<open>The invariant of the log\<close>

definition metadata_ok :: "session_row \<Rightarrow> bool" where
  "metadata_ok r = (case s_metadata r of None \<Rightarrow> True | Some doc \<Rightarrow> \<exists>m. json_object_of doc = Inr m)"

definition wf_sessions :: "message_log \<Rightarrow> bool" where
  "wf_sessions s \<longleftrightarrow> distinct (map s_key (sessions s))
     \<and> (\<forall>r \<in> set (sessions s). s_key r \<noteq> [] \<and> 0 \<le> s_next r
          \<and> (\<exists>a. decode_attributes (s_attributes r) = Inr a) \<and> metadata_ok r)"

text \<open>A stored row is a message in canonical form, below its session's next number.\<close>

definition row_ok :: "message_log \<Rightarrow> message_row \<Rightarrow> bool" where
  "row_ok s r \<longleftrightarrow> (\<exists>m. message_of s r = Inr m \<and> encode_body (m_body m) True = Inr (r_body r))
     \<and> r_seq r < next_seq s (r_session r)"

definition seq_before :: "message_row \<Rightarrow> message_row \<Rightarrow> bool" where
  "seq_before a b \<longleftrightarrow> (r_session a = r_session b \<longrightarrow> r_seq a < r_seq b)"

definition answers_differ :: "message_row \<Rightarrow> message_row \<Rightarrow> bool" where
  "answers_differ a b \<longleftrightarrow> answered_call (r_body b) \<noteq> None \<longrightarrow> answered_call (r_body a) \<noteq> answered_call (r_body b)"

definition call_before :: "message_log \<Rightarrow> message_row \<Rightarrow> call_ref \<Rightarrow> bool" where
  "call_before s r ref \<longleftrightarrow> (\<exists>c \<in> set (messages s). r_id c = ref_message ref \<and> r_session c = r_session r
      \<and> r_source c = r_source r \<and> r_seq c < r_seq r
      \<and> (\<exists>b. decode_body (r_body c) = Inr b \<and> calls_tool b (ref_index ref)))"

definition wf_messages :: "message_log \<Rightarrow> bool" where
  "wf_messages s \<longleftrightarrow> distinct (map r_id (messages s))
     \<and> (\<forall>r \<in> set (messages s). row_ok s r)
     \<and> sorted_wrt seq_before (messages s) \<and> sorted_wrt answers_differ (messages s)
     \<and> (\<forall>r \<in> set (messages s). \<forall>ref. answered_call (r_body r) = Some (call_key ref) \<longrightarrow> call_before s r ref)"

definition ordinals_of :: "message_log \<Rightarrow> string \<Rightarrow> nat list" where
  "ordinals_of s mid = map (fst \<circ> snd) (filter (\<lambda>r. fst r = mid) (message_attachments s))"

definition wf_references :: "message_log \<Rightarrow> bool" where
  "wf_references s \<longleftrightarrow> distinct (message_bindings s)
     \<and> (\<forall>p \<in> set (message_bindings s). find_message s (fst p) \<noteq> None \<and> snd p \<in> set (keys (bindings s)))
     \<and> (\<forall>r \<in> set (message_attachments s). \<not> attachment_key_missing s r \<and> artifact_ready s (snd (snd r)))
     \<and> (\<forall>mid. \<exists>n. ordinals_of s mid = [0..<n])
     \<and> distinct (keys (bindings s)) \<and> (\<forall>p \<in> set (bindings s). \<exists>m. json_object_of (snd p) = Inr m)
     \<and> distinct (map (att_id \<circ> a_ref) (attachments s)) \<and> (\<forall>a \<in> set (attachments s). wf_attachment (a_ref a))"

definition wf_log :: "message_log \<Rightarrow> bool" where
  "wf_log s \<longleftrightarrow> wf_sessions s \<and> wf_messages s \<and> wf_references s"

lemma empty_log_wf [simp]: "wf_log empty_log"
  by (simp add: wf_log_def wf_sessions_def wf_messages_def wf_references_def empty_log_def ordinals_of_def
      exI[of _ "0::nat"])

section \<open>What an append does\<close>

lemma find_session_mem: "find_session s k = Some r \<Longrightarrow> r \<in> set (sessions s) \<and> s_key r = k"
  by (auto simp: find_session_def dest: find_Some_iff')

lemma find_message_mem: "find_message s i = Some r \<Longrightarrow> r \<in> set (messages s) \<and> r_id r = i"
  by (auto simp: find_message_def dest: find_Some_iff')

lemma find_message_None: "find_message s i = None \<longleftrightarrow> i \<notin> r_id ` set (messages s)"
  by (auto simp: find_message_def find_None_iff')

lemma attachment_key_missing_cong:
  "find_message t (fst r) = find_message s (fst r) \<Longrightarrow> attachments t = attachments s \<Longrightarrow>
     attachment_key_missing t r = attachment_key_missing s r"
  by (simp add: attachment_key_missing_def)

lemma foldR_insert_attachment:
  "foldR (insert_attachment mid) nas s = Inr t \<Longrightarrow>
     t = s\<lparr>message_attachments := message_attachments s @ map (Pair mid) nas\<rparr>
       \<and> (\<forall>na \<in> set nas. \<not> attachment_key_missing s (mid, na))"
proof (induction nas arbitrary: s)
  case (Cons na nas)
  let ?s = "s\<lparr>message_attachments := message_attachments s @ [(mid, na)]\<rparr>"
  from Cons.prems obtain u where u: "insert_attachment mid na s = Inr u"
    and "foldR (insert_attachment mid) nas u = Inr t" by (simp add: res_simps) blast
  moreover have "\<not> attachment_key_missing s (mid, na)" and "u = ?s"
    using u by (simp_all add: insert_attachment_def split: if_splits)
  moreover have "attachment_key_missing ?s = attachment_key_missing s"
    by (rule ext, rule attachment_key_missing_cong) (simp_all add: find_message_def)
  ultimately show ?case using Cons.IH[of ?s] by simp
qed simp

lemma foldR_insert_binding:
  "foldR (insert_binding mid) bs s = Inr t \<Longrightarrow>
     t = s\<lparr>message_bindings := message_bindings s @ map (Pair mid) bs\<rparr>
       \<and> set bs \<subseteq> set (keys (bindings s)) \<and> (distinct (message_bindings s) \<longrightarrow> distinct (message_bindings t))"
proof (induction bs arbitrary: s)
  case (Cons b bs)
  let ?s = "s\<lparr>message_bindings := message_bindings s @ [(mid, b)]\<rparr>"
  from Cons.prems obtain u where u: "insert_binding mid b s = Inr u"
    and "foldR (insert_binding mid) bs u = Inr t" by (simp add: res_simps) blast
  moreover have "(mid, b) \<notin> set (message_bindings s)" and "b \<in> set (keys (bindings s))" and "u = ?s"
    using u by (auto simp: insert_binding_def map_of_eq_None_iff split: if_splits)
  ultimately have IH: "t = ?s\<lparr>message_bindings := message_bindings ?s @ map (Pair mid) bs\<rparr>
       \<and> set bs \<subseteq> set (keys (bindings ?s))
       \<and> (distinct (message_bindings ?s) \<longrightarrow> distinct (message_bindings t))"
    and notin: "(mid, b) \<notin> set (message_bindings s)" and b: "b \<in> set (keys (bindings s))"
    using Cons.IH by blast+
  have "distinct (message_bindings s) \<longrightarrow> distinct (message_bindings t)"
    using IH[THEN conjunct2, THEN conjunct2] notin by simp
  then show ?case using IH b by simp
qed simp

lemma find_update_session:
  assumes "\<And>r. s_key (f r) = s_key r"
  shows "find_session (update_session k f s) k' =
           map_option (\<lambda>r. if k' = k then f r else r) (find_session s k')"
proof -
  have "find (\<lambda>r. s_key r = k') (map (\<lambda>r. if s_key r = k then f r else r) rs)
      = map_option (\<lambda>r. if k' = k then f r else r) (find (\<lambda>r. s_key r = k') rs)" for rs
    using assms by (induction rs) auto
  then show ?thesis by (simp add: find_session_def update_session_def)
qed

text \<open>What stays of a log that gets a message: everything but the session row and the new rows.\<close>

definition same_but_sessions :: "message_log \<Rightarrow> message_log \<Rightarrow> bool" where
  "same_but_sessions s t \<longleftrightarrow> t = s\<lparr>sessions := sessions t\<rparr>"

lemma same_but_sessionsD:
  assumes "same_but_sessions s t"
  shows "messages t = messages s" "bindings t = bindings s" "message_bindings t = message_bindings s"
    "attachments t = attachments s" "message_attachments t = message_attachments s"
    "owner_records t = owner_records s" "has_metadata t = has_metadata s"
    "attachments_current t = attachments_current s" "in_tx t = in_tx s"
proof -
  have t: "t = s\<lparr>sessions := sessions t\<rparr>" using assms by (simp add: same_but_sessions_def)
  show "messages t = messages s" "bindings t = bindings s" "message_bindings t = message_bindings s"
    "attachments t = attachments s" "message_attachments t = message_attachments s"
    "owner_records t = owner_records s" "has_metadata t = has_metadata s"
    "attachments_current t = attachments_current s" "in_tx t = in_tx s"
    by (subst t, simp)+
qed

lemma same_sessions_trans [trans]: "same_but_sessions r s \<Longrightarrow> same_but_sessions s t \<Longrightarrow> same_but_sessions r t"
  unfolding same_but_sessions_def by (metis message_log.surjective message_log.update_convs(1))

lemma same_update_session [simp]: "same_but_sessions s (update_session k f s)"
  by (simp add: same_but_sessions_def update_session_def)

lemma same_insert_session [simp]: "same_but_sessions s (insert_or_ignore_session row s)"
  by (simp add: same_but_sessions_def insert_or_ignore_session_def)

lemma merge_cases:
  assumes "merge_session_metadata sid changes s = Inr t"
  shows "t = s \<or> (\<exists>d doc. freeze_json (py_dict d) = Inr doc
           \<and> (\<exists>c. session_metadata s sid = Inr c
                 \<and> d = fold merge_key changes (map (map_prod id frozen_value) (case c of None \<Rightarrow> [] | Some m \<Rightarrow> m)))
           \<and> t = update_session sid (\<lambda>r. r\<lparr>s_metadata := Some doc\<rparr>) s)"
  using assms by (fastforce simp: merge_session_metadata_def res_simps Let_def split: if_splits)

text \<open>The session table through an append.\<close>

lemma wf_sessions_cong: "sessions t = sessions s \<Longrightarrow> wf_sessions t = wf_sessions s"
  by (simp add: wf_sessions_def)

lemma next_seq_cong: "sessions t = sessions s \<Longrightarrow> next_seq t = next_seq s"
  by (rule ext) (simp add: next_seq_def find_session_def)

lemma insert_session_wf:
  assumes "wf_sessions s" and "sid \<noteq> []"
  shows "wf_sessions (insert_or_ignore_session (new_session sid now a) s)"
proof -
  have "find_session s sid = None \<Longrightarrow> sid \<notin> s_key ` set (sessions s)"
    by (auto simp: find_session_def find_None_iff')
  then show ?thesis using assms
    by (auto simp: insert_or_ignore_session_def wf_sessions_def new_session_def metadata_ok_def)
qed

lemma next_seq_insert [simp]:
  "next_seq (insert_or_ignore_session (new_session sid now a) s) k = next_seq s k"
  by (auto simp: next_seq_def insert_or_ignore_session_def find_session_def find_append new_session_def
      split: option.splits)

lemma find_insert_session:
  "find_session (insert_or_ignore_session (new_session sid now a) s) sid =
     Some (case find_session s sid of None \<Rightarrow> new_session sid now a | Some r \<Rightarrow> r)"
  by (auto simp: insert_or_ignore_session_def find_session_def find_append new_session_def split: option.splits)

lemma find_insert_other:
  "k \<noteq> sid \<Longrightarrow> find_session (insert_or_ignore_session (new_session sid now a) s) k = find_session s k"
  by (auto simp: insert_or_ignore_session_def find_session_def find_append new_session_def split: option.splits)

lemma update_session_wf:
  assumes "wf_sessions s"
    and "\<And>r. r \<in> set (sessions s) \<Longrightarrow> s_key r = sid \<Longrightarrow>
           s_key (f r) = s_key r \<and> 0 \<le> s_next (f r) \<and> s_attributes (f r) = s_attributes r \<and> metadata_ok (f r)"
  shows "wf_sessions (update_session sid f s)"
proof -
  have "map s_key (map (\<lambda>r. if s_key r = sid then f r else r) (sessions s)) = map s_key (sessions s)"
    using assms(2) by auto
  then show ?thesis
    using assms unfolding wf_sessions_def update_session_def by (simp del: map_map) fastforce
qed

lemma wf_frozen_value [simp]: "wf_pyval (frozen_value j) = wf_json j"
proof (induction j)
  case (JArr xs)
  then show ?case by (auto simp: list_all_iff)
next
  case (JObj kvs)
  have "filter (\<lambda>kv. key_is_str (fst kv)) (map (map_prod KStr frozen_value) kvs)
          = map (map_prod KStr frozen_value) kvs"
    by (auto simp: filter_id_conv)
  moreover have "map fst (map (map_prod KStr frozen_value) kvs) = map KStr (keys kvs)"
    by (induction kvs) auto
  ultimately have "distinct (map fst (filter (\<lambda>kv. key_is_str (fst kv)) (map (map_prod KStr frozen_value) kvs)))
      = distinct (keys kvs)"
    by (simp only: distinct_map) (auto intro: inj_onI)
  then show ?case using JObj by (force simp: list_all_iff snds.simps)
qed simp_all

lemma wf_py_dict: "wf_pyval (py_dict d) \<longleftrightarrow> distinct (keys d) \<and> (\<forall>p \<in> set d. wf_pyval (snd p))"
proof -
  have "filter (\<lambda>kv. key_is_str (fst kv)) (map (map_prod KStr id) d) = map (map_prod KStr id) d"
    by (auto simp: filter_id_conv)
  moreover have "map fst (map (map_prod KStr id) d) = map KStr (keys d)"
    by (induction d) auto
  ultimately have "distinct (map fst (filter (\<lambda>kv. key_is_str (fst kv)) (map (map_prod KStr id) d)))
      = distinct (keys d)"
    by (simp only: distinct_map) (auto intro: inj_onI)
  then show ?thesis by (force simp: py_dict_def list_all_iff)
qed

lemma in_merge_key: "p \<in> set (merge_key c d) \<Longrightarrow> p = c \<or> p \<in> set d"
  by (cases c; cases p) (auto simp: AList.delete_eq split: if_splits dest: in_set_update)

lemma merge_keys_wf:
  assumes "distinct (keys d)" and "\<forall>p \<in> set d. wf_pyval (snd p)" and "\<forall>p \<in> set changes. wf_pyval (snd p)"
  shows "distinct (keys (fold merge_key changes d)) \<and> (\<forall>p \<in> set (fold merge_key changes d). wf_pyval (snd p))"
  using assms
proof (induction changes arbitrary: d)
  case (Cons c changes)
  obtain k v where c: "c = (k, v)" by (cases c)
  have "distinct (keys (merge_key c d))" using Cons.prems(1) by (simp add: c)
  moreover have "\<forall>p \<in> set (merge_key c d). wf_pyval (snd p)"
    using Cons.prems(2,3) in_merge_key[of _ c d] by (metis list.set_intros(1))
  moreover have "\<forall>p \<in> set changes. wf_pyval (snd p)" using Cons.prems(3) by simp
  ultimately show ?case using Cons.IH[of "merge_key c d"] unfolding fold_Cons comp_apply by blast
qed simp

lemma json_object_of_Inr: "json_object_of doc = Inr m \<longleftrightarrow> doc = JObj m \<and> wf_json doc"
  by (cases doc) (auto simp: json_object_of_def)

lemma session_metadata_wf: "session_metadata s sid = Inr (Some m) \<Longrightarrow> wf_json (JObj m)"
  by (auto simp: session_metadata_def res_simps json_object_of_Inr simp del: wf_json.simps split: option.splits)

lemma merge_wf:
  assumes wf: "wf_sessions s" and c: "\<forall>p \<in> set changes. wf_pyval (snd p)"
    and m: "merge_session_metadata sid changes s = Inr t"
  shows "wf_sessions t \<and> same_but_sessions s t \<and> next_seq t = next_seq s"
  using merge_cases[OF m]
proof (elim disjE exE conjE)
  assume "t = s" then show ?thesis using wf by (simp add: same_but_sessions_def)
next
  fix d doc cur
  assume doc: "freeze_json (py_dict d) = Inr doc" and cur: "session_metadata s sid = Inr cur"
    and d: "d = fold merge_key changes (map (map_prod id frozen_value) (case cur of None \<Rightarrow> [] | Some m \<Rightarrow> m))"
    and t: "t = update_session sid (\<lambda>r. r\<lparr>s_metadata := Some doc\<rparr>) s"
  let ?c = "case cur of None \<Rightarrow> [] | Some m \<Rightarrow> m"
  have "wf_json (JObj ?c)"
    using session_metadata_wf[of s sid] cur by (cases cur) auto
  then have "distinct (keys (map (map_prod id frozen_value) ?c))"
    and "\<forall>p \<in> set (map (map_prod id frozen_value) ?c). wf_pyval (snd p)"
    by (auto simp: list_all_iff comp_def)
  then have "wf_pyval (py_dict d)" unfolding wf_py_dict d using c by (intro merge_keys_wf)
  then have "wf_json doc" using doc by (rule wf_freeze_json)
  moreover have "is_mapping (py_dict d)" by (simp add: py_dict_def)
  ultimately have "json_object_of doc = Inr (obj_items doc)"
    using freeze_mapping[OF _ doc] by (cases doc) (auto simp: json_object_of_def)
  then have "wf_sessions t" unfolding t using wf
    by (intro update_session_wf) (auto simp: wf_sessions_def metadata_ok_def)
  moreover have "next_seq t k = next_seq s k" for k
    unfolding t next_seq_def by (subst find_update_session) (auto split: option.splits)
  ultimately show ?thesis by (simp add: t fun_eq_iff)
qed

text \<open>The call a canonical body answers.\<close>

lemma answered_call_encode:
  assumes "encode_body b al = Inr doc"
  shows "answered_call doc = map_option call_key (result_ref b)"
proof (cases b)
  case (ToolResult l r oc ps)
  then have "doc = json_sorted (JObj (body_to_dict b)) \<or>
     doc = json_sorted (JObj (AList.update ''outcome'' (JStr ''unknown'') (body_to_dict b)))"
    using assms by (auto simp: encode_body_def Let_def simp del: json_sorted.simps split: if_splits)
  then show ?thesis unfolding ToolResult sorted_body_docs
    by (auto simp: answered_call_def json_get_def field_def call_key_def Let_def)
next
  case (Control a t r)
  then show ?thesis using assms unfolding Control encode_body_docs sorted_body_docs
    by (auto simp: answered_call_def json_get_def field_def)
next
  case (Input ps)
  then show ?thesis using assms unfolding Input encode_body_docs sorted_body_docs
    by (auto simp: answered_call_def json_get_def field_def)
next
  case (Output ps f)
  then show ?thesis using assms unfolding Output encode_body_docs sorted_body_docs
    by (auto simp: answered_call_def json_get_def field_def)
qed

lemma call_key_inj: "call_key a = call_key b \<longleftrightarrow> a = b"
  by (cases a; cases b) (auto simp: call_key_def)

lemma encode_sorted_body: "encode_body b al = Inr doc \<Longrightarrow> wf_body b \<Longrightarrow>
    decode_body doc = Inr (sorted_body b) \<and> wf_body (sorted_body b) \<and> encode_body (sorted_body b) True = Inr doc"
proof -
  assume e: "encode_body b al = Inr doc" and wf: "wf_body b"
  then have t: "encode_body b True = Inr doc" by (auto simp: encode_body_def Let_def split: if_splits)
  have d: "decode_body doc = Inr (sorted_body b)" by (rule decode_encode[OF wf t])
  moreover have "json_sorted doc = doc"
    using t by (auto simp: encode_body_def Let_def simp del: json_sorted.simps split: if_splits)
  ultimately show ?thesis using decode_doc[OF d] by simp
qed

lemma sorted_body_ref [simp]: "result_ref (sorted_body b) = result_ref b"
  by (cases b) simp_all

lemma sorted_control_ahead [simp]: "control_ahead (sorted_body b) n = control_ahead b n"
  by (cases b) simp_all

text \<open>The message read back from the row an append writes.\<close>

definition stored_message :: "message \<Rightarrow> message" where
  "stored_message m = m\<lparr>m_body := sorted_body (m_body m), m_meta := obj_items (json_sorted (JObj (m_meta m)))\<rparr>"

lemma dumped_sorted [simp]: "dumped_bytes (json_sorted j) = dumped_bytes j"
  by (simp add: dumped_bytes_def)

lemma stored_message_wf: "wf_message m \<Longrightarrow> wf_message (stored_message m)"
  unfolding wf_message_def stored_message_def
  using dumped_sorted[of "JObj (m_meta m)"] keys_json_sorted[of json_sorted "m_meta m"]
  by (simp del: dumped_sorted)

definition new_row :: "int \<Rightarrow> writer \<Rightarrow> string \<Rightarrow> json \<Rightarrow> json_object \<Rightarrow> int \<Rightarrow> message_row" where
  "new_row now w mid payload md seq =
     \<lparr>r_id = mid, r_session = w_session w, r_seq = seq, r_ts = Aware now, r_author = w_author w,
      r_source = w_source w, r_body = payload, r_metadata = json_sorted (JObj md)\<rparr>"

lemma message_of_new_row:
  assumes m: "mk_Message mid (w_session w) seq (Aware now) (w_author w) (w_source w) b (frozen_value (JObj md)) = Inr m"
    and e: "encode_body b al = Inr payload" and wf: "wf_body b" and md: "wf_json (JObj md)"
    and col: "has_metadata s \<or> md = []"
  shows "message_of s (new_row now w mid payload md seq) = Inr (stored_message m)"
    and "encode_body (m_body (stored_message m)) True = Inr payload"
proof -
  obtain d where doc: "json_sorted (JObj md) = JObj d" by simp
  have "wf_json (JObj d)" using md unfolding doc[symmetric] by (simp del: json_sorted.simps)
  then have read: "(if has_metadata s then json_object_of (json_sorted (JObj md)) else Inr []) = Inr d"
    using col doc by (auto simp: json_object_of_def simp del: wf_json.simps)
  have f: "freeze_metadata (frozen_value (JObj md)) = Inr (m_meta m)" using m by (simp add: mk_Message_iff)
  then have meta: "m_meta m = md" by (simp add: freeze_metadata_iff del: frozen_value.simps)
  have keys: "set (keys d) = set (keys md)" using keys_json_sorted[of json_sorted md] doc
    by (simp only: json_sorted.simps json.inject)
  have bytes: "dumped_bytes (JObj d) = dumped_bytes (JObj md)"
    unfolding doc[symmetric] by (rule dumped_sorted)
  have "freeze_metadata (frozen_value (JObj d)) = Inr d"
    using f keys bytes unfolding meta freeze_metadata_iff
    by (simp add: freeze_frozen_value del: frozen_value.simps json_sorted.simps obj_items.simps) simp
  moreover have "wf_message (stored_message m)" using m stored_message_wf mk_Message_wf by blast
  ultimately have "mk_Message mid (w_session w) seq (Aware now) (w_author w) (w_source w) (sorted_body b)
      (frozen_value (JObj d)) = Inr (stored_message m)"
    using m unfolding mk_Message_iff by (simp add: stored_message_def meta doc del: json_sorted.simps frozen_value.simps)
  then show "message_of s (new_row now w mid payload md seq) = Inr (stored_message m)"
    using encode_sorted_body[OF e wf] read
    by (cases "has_metadata s")
       (simp_all add: message_of_def new_row_def doc del: json_sorted.simps frozen_value.simps)
  show "encode_body (m_body (stored_message m)) True = Inr payload"
    using encode_sorted_body[OF e wf] m by (simp add: stored_message_def mk_Message_iff)
qed

text \<open>The new rows of a committed message.\<close>

definition appended :: "writer \<Rightarrow> message_row \<Rightarrow> string list \<Rightarrow> string list \<Rightarrow> message_log \<Rightarrow> message_log \<Rightarrow> bool" where
  "appended w row bids arts s t \<longleftrightarrow>
     messages t = messages s @ [row] \<and> bindings t = bindings s \<and> attachments t = attachments s
     \<and> message_attachments t = message_attachments s @ map (Pair (r_id row)) (List.enumerate 0 arts)
     \<and> message_bindings t = message_bindings s @ map (Pair (r_id row)) bids
     \<and> owner_records t = owner_records s \<and> has_metadata t = has_metadata s
     \<and> attachments_current t = attachments_current s \<and> in_tx t = in_tx s
     \<and> (\<forall>k. next_seq t k = (if k = w_session w then r_seq row + 1 else next_seq s k))"

lemma commit_appended:
  assumes c: "commit_message now w mid b payload md bids arts changes s = Inr (m, t)"
    and wf: "wf_sessions s" and ch: "\<forall>p \<in> set changes. wf_pyval (snd p)"
  shows "appended w (new_row now w mid payload md (next_seq s (w_session w))) bids arts s t
     \<and> mk_Message mid (w_session w) (next_seq s (w_session w)) (Aware now) (w_author w) (w_source w) b
          (frozen_value (JObj md)) = Inr m
     \<and> (\<forall>r \<in> set (messages s). r_id r \<noteq> mid \<and> (answered_call payload \<noteq> None \<longrightarrow> answered_call (r_body r) \<noteq> answered_call payload))
     \<and> set bids \<subseteq> set (keys (bindings s)) \<and> (distinct (message_bindings s) \<longrightarrow> distinct (message_bindings t))
     \<and> (\<forall>na \<in> set (List.enumerate 0 arts). \<not> attachment_key_missing t (mid, na))
     \<and> wf_sessions t"
proof -
  let ?sid = "w_session w"
  let ?seq = "next_seq s ?sid"
  let ?row = "new_row now w mid payload md ?seq"
  let ?s1 = "insert_or_ignore_session (new_session ?sid now default_attributes) s"
  let ?f = "\<lambda>r. r\<lparr>s_next := ?seq + 1, s_updated := Aware now\<rparr>"
  from c obtain s2 s3 s4
    where m: "mk_Message mid ?sid ?seq (Aware now) (w_author w) (w_source w) b (frozen_value (JObj md)) = Inr m"
      and i2: "insert_message ?row ?s1 = Inr s2"
      and i3: "foldR (insert_attachment mid) (List.enumerate 0 arts) s2 = Inr s3"
      and i4: "foldR (insert_binding mid) bids s3 = Inr s4"
      and i5: "merge_session_metadata ?sid changes (update_session ?sid ?f s4) = Inr t"
    unfolding commit_message_def Let_def next_seq_insert bindR_Inr_iff new_row_def by auto
  have sid: "?sid \<noteq> []" and seq: "0 \<le> ?seq"
    using m by (auto simp: mk_Message_iff wf_message_def)
  have same1: "same_but_sessions s ?s1" by simp
  note d1 = same_but_sessionsD[OF same1]
  have s2: "s2 = ?s1\<lparr>messages := messages ?s1 @ [?row]\<rparr>"
    and fresh: "\<forall>r \<in> set (messages s). r_id r \<noteq> mid \<and> (answered_call payload \<noteq> None \<longrightarrow> answered_call (r_body r) \<noteq> answered_call payload)"
    using i2 by (auto simp: insert_message_def list_ex_iff d1 new_row_def split: if_splits)
  note s3 = foldR_insert_attachment[OF i3]
  note s4 = foldR_insert_binding[OF i4]
  have ses4: "sessions s4 = sessions ?s1" and mb4: "messages s4 = messages s @ [?row]" "bindings s4 = bindings s"
      "attachments s4 = attachments s" "owner_records s4 = owner_records s" "has_metadata s4 = has_metadata s"
      "attachments_current s4 = attachments_current s" "in_tx s4 = in_tx s"
      "message_attachments s4 = message_attachments s @ map (Pair mid) (List.enumerate 0 arts)"
      "message_bindings s4 = message_bindings s @ map (Pair mid) bids"
      "bindings s3 = bindings s" "message_bindings s3 = message_bindings s" "messages s2 = messages s4"
      "attachments s2 = attachments s"
    using s3[THEN conjunct1] s4[THEN conjunct1] by (simp_all add: s2 d1)
  have "wf_sessions s4" using insert_session_wf[OF wf sid] wf_sessions_cong[OF ses4] by blast
  then have "wf_sessions (update_session ?sid ?f s4)"
    using seq by (intro update_session_wf) (auto simp: wf_sessions_def metadata_ok_def)
  note m6 = merge_wf[OF this ch i5]
  then have same6: "same_but_sessions s4 t"
    using same_sessions_trans same_update_session by blast
  note d6 = same_but_sessionsD[OF same6]
  have "next_seq (update_session ?sid ?f s4) k = (if k = ?sid then ?seq + 1 else next_seq s k)" for k
  proof -
    have f4: "find_session s4 k = find_session ?s1 k" by (simp add: find_session_def ses4)
    show ?thesis
      unfolding next_seq_def[of "update_session ?sid ?f s4"] using find_insert_session[of ?sid now default_attributes s]
        find_insert_other[of k ?sid now default_attributes s]
      by (subst find_update_session) (auto simp: f4 next_seq_def split: option.splits)
  qed
  then have "\<forall>k. next_seq t k = (if k = ?sid then ?seq + 1 else next_seq s k)" using m6 by simp
  then have app: "appended w ?row bids arts s t"
    unfolding appended_def by (simp add: d6 mb4 new_row_def)
  have missing: "attachment_key_missing t (mid, na) = attachment_key_missing s2 (mid, na)" for na
    by (rule attachment_key_missing_cong) (simp_all add: find_message_def d6 mb4)
  have keys: "\<forall>na \<in> set (List.enumerate 0 arts). \<not> attachment_key_missing t (mid, na)"
    using s3[THEN conjunct2] missing by simp
  have bids: "set bids \<subseteq> set (keys (bindings s))"
    using s4[THEN conjunct2, THEN conjunct1] unfolding mb4 .
  have dist: "distinct (message_bindings s) \<longrightarrow> distinct (message_bindings t)"
    using s4[THEN conjunct2, THEN conjunct2] unfolding d6(3) mb4(11) .
  show ?thesis
    using app m fresh bids dist keys m6[THEN conjunct1] by (intro conjI)
qed

text \<open>A log that gets a well-formed row keeps its invariant.\<close>

lemma message_of_cong: "has_metadata t = has_metadata s \<Longrightarrow> message_of t r = message_of s r"
  by (simp add: message_of_def)

lemma appended_messages_wf:
  assumes wf: "wf_messages s" and app: "appended w row bids arts s t"
    and row: "r_session row = w_session w" "r_seq row = next_seq s (w_session w)"
    and fresh: "\<forall>r \<in> set (messages s). r_id r \<noteq> r_id row
                  \<and> (answered_call (r_body row) \<noteq> None \<longrightarrow> answered_call (r_body r) \<noteq> answered_call (r_body row))"
    and read: "\<exists>m. message_of t row = Inr m \<and> encode_body (m_body m) True = Inr (r_body row)"
    and call: "\<forall>ref. answered_call (r_body row) = Some (call_key ref) \<longrightarrow>
       (\<exists>c \<in> set (messages s). r_id c = ref_message ref \<and> r_session c = r_session row \<and> r_source c = r_source row
           \<and> (\<exists>b. decode_body (r_body c) = Inr b \<and> calls_tool b (ref_index ref)))"
  shows "wf_messages t"
proof -
  have msgs: "messages t = messages s @ [row]"
    and hm: "has_metadata t = has_metadata s"
    and nx: "\<And>k. next_seq t k = (if k = w_session w then r_seq row + 1 else next_seq s k)"
    using app by (simp_all add: appended_def)
  have below: "r_seq r < next_seq s (r_session r)" if "r \<in> set (messages s)" for r
    using wf that by (simp add: wf_messages_def row_ok_def)
  have old: "row_ok t r" if "r \<in> set (messages s)" for r
    using wf that below[OF that] row(2) by (auto simp: wf_messages_def row_ok_def message_of_cong[OF hm] nx)
  have new: "row_ok t row" using read row by (simp add: row_ok_def nx)
  have before: "seq_before r row" if "r \<in> set (messages s)" for r
    using below[OF that] row by (auto simp: seq_before_def)
  have calls_old: "call_before t r ref" if "call_before s r ref" for r ref
    using that by (auto simp: call_before_def msgs)
  have calls_new: "call_before t row ref" if ans: "answered_call (r_body row) = Some (call_key ref)" for ref
  proof -
    obtain c b where "c \<in> set (messages s)" "r_id c = ref_message ref" "r_session c = r_session row"
      "r_source c = r_source row" "decode_body (r_body c) = Inr b" "calls_tool b (ref_index ref)"
      using call[rule_format, OF ans] by blast
    then show ?thesis using below[of c] row by (auto simp: call_before_def msgs)
  qed
  show ?thesis
    unfolding wf_messages_def msgs
    using wf fresh old new before calls_old calls_new
    by (auto simp: wf_messages_def sorted_wrt_append answers_differ_def)
qed

lemma appended_references_wf:
  assumes wf: "wf_references s" and app: "appended w row bids arts s t"
    and fresh: "\<forall>r \<in> set (messages s). r_id r \<noteq> r_id row"
    and bids: "set bids \<subseteq> set (keys (bindings s))" and dist: "distinct (message_bindings s) \<longrightarrow> distinct (message_bindings t)"
    and att: "\<forall>na \<in> set (List.enumerate 0 arts). \<not> attachment_key_missing t (r_id row, na)"
    and ready: "\<forall>a \<in> set arts. artifact_ready s a"
  shows "wf_references t"
proof -
  have msgs: "messages t = messages s @ [row]" and bs: "bindings t = bindings s"
    and ats: "attachments t = attachments s"
    and ma: "message_attachments t = message_attachments s @ map (Pair (r_id row)) (List.enumerate 0 arts)"
    and mb: "message_bindings t = message_bindings s @ map (Pair (r_id row)) bids"
    using app by (simp_all add: appended_def)
  have find: "find_message t i = (case find_message s i of None \<Rightarrow> if i = r_id row then Some row else None | x \<Rightarrow> x)" for i
    by (auto simp: find_message_def msgs find_append split: option.splits)
  have ready_t: "artifact_ready t a = artifact_ready s a" for a by (simp add: artifact_ready_def ats)
  have known: "find_message s (fst r) \<noteq> None" if "r \<in> set (message_attachments s)" for r
    using wf that by (auto simp: wf_references_def attachment_key_missing_def)
  have miss: "\<not> attachment_key_missing t r" if "r \<in> set (message_attachments s)" for r
    using wf that by (auto simp: wf_references_def attachment_key_missing_def find ats split: option.splits)
  have "find_message s (r_id row) = None" using fresh by (auto simp: find_message_None)
  then have "filter (\<lambda>r. fst r = r_id row) (message_attachments s) = []"
    unfolding filter_empty_conv using known by metis
  then have "ordinals_of t (r_id row) = [0..<length arts]"
    by (simp add: ordinals_of_def ma filter_map comp_def enumerate_eq_zip)
  moreover have "ordinals_of t i = ordinals_of s i" if "i \<noteq> r_id row" for i
    using that by (simp add: ordinals_of_def ma filter_map comp_def)
  ultimately have ords: "\<exists>n. ordinals_of t i = [0..<n]" for i
    using wf unfolding wf_references_def by metis
  show ?thesis
    unfolding wf_references_def
  proof (intro conjI)
    show "distinct (message_bindings t)" using wf dist by (simp add: wf_references_def)
    show "\<forall>p \<in> set (message_bindings t). find_message t (fst p) \<noteq> None \<and> snd p \<in> set (keys (bindings t))"
    proof
      fix p assume "p \<in> set (message_bindings t)"
      then consider "p \<in> set (message_bindings s)" | x where "x \<in> set bids" "p = (r_id row, x)"
        by (auto simp: mb)
      then show "find_message t (fst p) \<noteq> None \<and> snd p \<in> set (keys (bindings t))"
      proof cases
        case 1
        then have "find_message s (fst p) \<noteq> None" and "snd p \<in> set (keys (bindings s))"
          using wf unfolding wf_references_def by blast+
        then show ?thesis unfolding bs by (auto simp: find)
      next
        case 2
        then show ?thesis using bids by (auto simp: bs find split: option.splits)
      qed
    qed
    show "\<forall>r \<in> set (message_attachments t). \<not> attachment_key_missing t r \<and> artifact_ready t (snd (snd r))"
    proof
      fix r assume "r \<in> set (message_attachments t)"
      then consider "r \<in> set (message_attachments s)" | na where "na \<in> set (List.enumerate 0 arts)" "r = (r_id row, na)"
        by (auto simp: ma)
      then show "\<not> attachment_key_missing t r \<and> artifact_ready t (snd (snd r))"
      proof cases
        case 1 then show ?thesis using wf miss by (auto simp: wf_references_def ready_t)
      next
        case 2
        then have "snd na \<in> set arts" by (metis imageI list.set_map map_snd_enumerate)
        then show ?thesis using 2 att ready by (simp add: ready_t)
      qed
    qed
    show "\<forall>i. \<exists>n. ordinals_of t i = [0..<n]" using ords by blast
    show "distinct (keys (bindings t))" "\<forall>p \<in> set (bindings t). \<exists>m. json_object_of (snd p) = Inr m"
      "distinct (map (att_id \<circ> a_ref) (attachments t))" "\<forall>a \<in> set (attachments t). wf_attachment (a_ref a)"
      using wf by (simp_all add: wf_references_def bs ats)
  qed
qed

text \<open>An accepted append is a replay or a commit.\<close>

definition replayed :: "writer \<Rightarrow> string \<Rightarrow> body \<Rightarrow> pyval option \<Rightarrow> message_log \<Rightarrow> message \<Rightarrow> bool" where
  "replayed w mid b metadata s m \<longleftrightarrow> (\<exists>row payload md. find_message s mid = Some row
     \<and> encode_body b True = Inr payload \<and> freeze_metadata (case metadata of None \<Rightarrow> VMap [] | Some v \<Rightarrow> v) = Inr md
     \<and> replay w s row payload md = Inr m)"

definition committed ::
  "int \<Rightarrow> writer \<Rightarrow> string \<Rightarrow> body \<Rightarrow> int option \<Rightarrow> pyval option \<Rightarrow> message_log \<Rightarrow> message \<Rightarrow> message_log \<Rightarrow> bool" where
  "committed now w mid b expected_head metadata s m t \<longleftrightarrow> (\<exists>payload md bids arts changes.
     find_message s mid = None \<and> w_active w
     \<and> encode_body b False = Inr payload
     \<and> freeze_metadata (case metadata of None \<Rightarrow> VMap [] | Some v \<Rightarrow> v) = Inr md
     \<and> (md \<noteq> [] \<longrightarrow> has_metadata s)
     \<and> (expected_head = None \<or> expected_head = Some (source_head s (w_session w) (w_source w)))
     \<and> check_parts w s b = Inr (bids, arts) \<and> check_result w s b = Inr ()
     \<and> project_metadata w b = Inr changes
     \<and> commit_message now w mid b payload md bids arts changes s = Inr (m, t))"

lemma append_cases:
  assumes "append_message now w mid b expected_head metadata s = Inr (m, t)"
  shows "check_grant w b = Inr () \<and> ((t = s \<and> replayed w mid b metadata s m)
     \<or> committed now w mid b expected_head metadata s m t)"
proof -
  let ?f = "freeze_metadata (case metadata of None \<Rightarrow> VMap [] | Some v \<Rightarrow> v)"
  obtain md where grant: "check_grant w b = Inr ()" and md: "?f = Inr md"
    using assms unfolding append_message_def bindR_Inr_iff by auto
  note unf = assms[unfolded append_message_def grant md bindR_simps Let_def]
  have col: "md \<noteq> [] \<longrightarrow> has_metadata s" using unf by (auto split: if_splits)
  show ?thesis
  proof (cases "find_message s mid")
    case (Some row)
    obtain payload where "encode_body b True = Inr payload" and "replay w s row payload md = Inr m" and "t = s"
      using unf unfolding Some by (auto simp: res_simps split: if_splits)
    with Some md grant show ?thesis by (auto simp: replayed_def)
  next
    case None
    obtain payload where p: "encode_body b False = Inr payload"
      and rest: "w_active w" "expected_head = None \<or> expected_head = Some (source_head s (w_session w) (w_source w))"
        "bindR (check_parts w s b) (\<lambda>(binding_ids, artifacts).
           bindR (check_result w s b) (\<lambda>_.
           bindR (project_metadata w b) (\<lambda>changes.
           if \<not> set (keys changes) \<subseteq> set (w_metadata_keys w) then Inl PermissionError
           else commit_message now w mid b payload md binding_ids artifacts changes s))) = Inr (m, t)"
      using unf unfolding None by (auto simp: res_simps split: if_splits option.splits)
    from rest(3) obtain bids arts changes where "check_parts w s b = Inr (bids, arts)"
      "check_result w s b = Inr ()" "project_metadata w b = Inr changes"
      "commit_message now w mid b payload md bids arts changes s = Inr (m, t)"
      by (auto simp: res_simps split: if_splits)
    with None md grant col p rest(1,2) show ?thesis unfolding committed_def by blast
  qed
qed

section \<open>Appends keep the invariant\<close>

text \<open>What the types of the arguments promise: frozen bodies and dicts with distinct keys.\<close>

definition wf_writer :: "writer \<Rightarrow> bool" where
  "wf_writer w \<longleftrightarrow> (\<forall>b changes. project_metadata w b = Inr changes \<longrightarrow> (\<forall>p \<in> set changes. wf_pyval (snd p)))"

lemma check_parts_ready: "check_parts w s b = Inr (bids, arts) \<Longrightarrow> a \<in> set arts \<Longrightarrow> artifact_ready s a"
  by (auto simp: check_parts_def res_simps list_ex_iff split: if_splits)

lemma check_result_call:
  assumes "check_result w s b = Inr ()" and "result_ref b = Some ref"
  shows "\<exists>c \<in> set (messages s). r_id c = ref_message ref \<and> r_session c = w_session w \<and> r_source c = w_source w
           \<and> (\<exists>b. decode_body (r_body c) = Inr b \<and> calls_tool b (ref_index ref))"
    and "\<not> has_result s ref"
  using assms
  by (auto simp: check_result_def check_call_result_def res_simps split: option.splits if_splits
      dest!: find_message_mem)

lemma project_wf: "wf_writer w \<Longrightarrow> project_metadata w b = Inr changes \<Longrightarrow> \<forall>p \<in> set changes. wf_pyval (snd p)"
  by (simp add: wf_writer_def)

text \<open>Everything a commit establishes, over the row it writes.\<close>

lemma committed_effect:
  assumes com: "committed now w mid b expected_head metadata s m t"
    and wf: "wf_log s" and b: "wf_body b" and md: "pred_option wf_pyval metadata" and w: "wf_writer w"
  shows "\<exists>row bids arts. appended w row bids arts s t \<and> wf_log t
     \<and> r_id row = mid \<and> r_session row = w_session w \<and> r_author row = w_author w \<and> r_source row = w_source w
     \<and> r_seq row = next_seq s (w_session w) \<and> encode_body b False = Inr (r_body row)
     \<and> message_of t row = Inr (stored_message m)
     \<and> mk_Message mid (w_session w) (next_seq s (w_session w)) (Aware now) (w_author w) (w_source w) b
          (frozen_value (JObj (m_meta m))) = Inr m
     \<and> freeze_metadata (case metadata of None \<Rightarrow> VMap [] | Some v \<Rightarrow> v) = Inr (m_meta m)"
proof -
  from com obtain payload meta bids arts changes
    where none: "find_message s mid = None" and pay: "encode_body b False = Inr payload"
      and meta: "freeze_metadata (case metadata of None \<Rightarrow> VMap [] | Some v \<Rightarrow> v) = Inr meta"
      and col: "meta \<noteq> [] \<longrightarrow> has_metadata s"
      and parts: "check_parts w s b = Inr (bids, arts)" and res: "check_result w s b = Inr ()"
      and proj: "project_metadata w b = Inr changes"
      and c: "commit_message now w mid b payload meta bids arts changes s = Inr (m, t)"
    unfolding committed_def by blast
  let ?row = "new_row now w mid payload meta (next_seq s (w_session w))"
  have sub: "wf_sessions s" "wf_messages s" "wf_references s" using wf by (simp_all add: wf_log_def)
  note ca = commit_appended[OF c sub(1) project_wf[OF w proj]]
  then have app: "appended w ?row bids arts s t" and mk: "mk_Message mid (w_session w) (next_seq s (w_session w))
      (Aware now) (w_author w) (w_source w) b (frozen_value (JObj meta)) = Inr m" by blast+
  have "wf_pyval (case metadata of None \<Rightarrow> VMap [] | Some v \<Rightarrow> v)" using md by (auto split: option.splits)
  then have wfmd: "wf_json (JObj meta)" using meta wf_freeze_json unfolding freeze_metadata_iff by blast
  have hm: "has_metadata t \<or> meta = []" using col app by (auto simp: appended_def)
  note read = message_of_new_row[OF mk pay b wfmd hm]
  have ans: "answered_call payload = map_option call_key (result_ref b)" by (rule answered_call_encode[OF pay])
  have row: "r_session ?row = w_session w" "r_seq ?row = next_seq s (w_session w)" "r_id ?row = mid"
    "r_body ?row = payload" "r_source ?row = w_source w" "r_author ?row = w_author w"
    by (simp_all add: new_row_def)
  have call: "\<forall>ref. answered_call (r_body ?row) = Some (call_key ref) \<longrightarrow>
       (\<exists>c \<in> set (messages s). r_id c = ref_message ref \<and> r_session c = r_session ?row \<and> r_source c = r_source ?row
           \<and> (\<exists>b. decode_body (r_body c) = Inr b \<and> calls_tool b (ref_index ref)))"
    using check_result_call(1)[OF res] unfolding row ans by (auto simp: call_key_inj)
  have "wf_messages t"
    using ca read call row by (intro appended_messages_wf[OF sub(2) app]) auto
  moreover have "wf_references t"
    using ca row check_parts_ready[OF parts] by (intro appended_references_wf[OF sub(3) app]) auto
  moreover have "wf_sessions t" using ca by blast
  ultimately have "wf_log t" by (simp add: wf_log_def)
  moreover have "m_meta m = meta" using mk by (simp add: mk_Message_iff freeze_metadata_iff del: frozen_value.simps)
  ultimately show ?thesis using app row pay read(1) mk meta
    by (intro exI[of _ ?row] exI[of _ bids] exI[of _ arts])
       (simp del: json_sorted.simps frozen_value.simps)
qed

lemma append_wf:
  assumes "append_message now w mid b expected_head metadata s = Inr (m, t)"
    and "wf_log s" and "wf_body b" and "pred_option wf_pyval metadata" and "wf_writer w"
  shows "wf_log t"
  using append_cases[OF assms(1)] committed_effect[OF _ assms(2-5)] assms(2) by blast

lemma wf_log_in_tx: "wf_log (s\<lparr>in_tx := x\<rparr>) = wf_log s"
  by (simp add: wf_log_def wf_sessions_def wf_messages_def wf_references_def row_ok_def message_of_def next_seq_def
      find_session_def call_before_def find_message_def attachment_key_missing_def artifact_ready_def ordinals_of_def)

lemma write_tx_invariant:
  assumes "write_tx f s = (r, t)" and "wf_log s"
    and "\<And>x u. f (s\<lparr>in_tx := True\<rparr>) = Inr (x, u) \<Longrightarrow> wf_log u"
  shows "wf_log t"
  using assms by (auto simp: write_tx_def wf_log_in_tx split: if_splits sum.splits)

lemma writer_append_wf:
  assumes "writer_append now w mid b expected_head metadata s = (r, t)"
    and "wf_log s" and "wf_body b" and "pred_option wf_pyval metadata" and "wf_writer w"
  shows "wf_log t"
  using write_tx_invariant[OF assms(1)[unfolded writer_append_def] assms(2)] append_wf assms
  by (metis wf_log_in_tx)

text \<open>Any error rolls back.\<close>

lemma write_tx_error: "write_tx f s = (Inl e, t) \<Longrightarrow> t = s"
  by (auto simp: write_tx_def split: if_splits sum.splits)

section \<open>Replay\<close>

definition extends :: "message_log \<Rightarrow> message_log \<Rightarrow> bool" where
  "extends s t \<longleftrightarrow> (\<exists>rows. messages t = messages s @ rows) \<and> has_metadata t = has_metadata s"

lemma extends_refl [simp]: "extends s s"
  by (simp add: extends_def)

lemma extends_trans: "extends r s \<Longrightarrow> extends s t \<Longrightarrow> extends r t"
  by (auto simp: extends_def)

lemma extends_find: "extends s t \<Longrightarrow> find_message s i = Some r \<Longrightarrow> find_message t i = Some r"
  by (auto simp: extends_def find_message_def find_append)

lemma extends_message_of: "extends s t \<Longrightarrow> message_of t = message_of s"
  by (rule ext) (auto simp: extends_def message_of_def)

lemma appended_extends: "appended w row bids arts s t \<Longrightarrow> extends s t"
  by (simp add: appended_def extends_def)

lemma encode_allow: "encode_body b False = Inr p \<Longrightarrow> encode_body b True = Inr p"
  by (auto simp: encode_body_def Let_def split: if_splits)

lemma appended_find:
  assumes "appended w row bids arts s t" and "find_message s (r_id row) = None"
  shows "find_message t (r_id row) = Some row"
  using assms by (auto simp: appended_def find_message_def find_append)

lemma append_again:
  assumes a: "append_message now w mid b expected_head metadata s = Inr (m, t)" and new: "find_message s mid = None"
    and wf: "wf_log s" "wf_body b" "pred_option wf_pyval metadata" "wf_writer w"
    and later: "extends t u"
  shows "append_message now' (w\<lparr>w_active := act\<rparr>) mid b expected_head' metadata u = Inr (stored_message m, u)"
proof -
  let ?w = "w\<lparr>w_active := act\<rparr>"
  have com: "committed now w mid b expected_head metadata s m t" and grant: "check_grant w b = Inr ()"
    using append_cases[OF a] new by (auto simp: replayed_def)
  obtain row bids arts where app: "appended w row bids arts s t"
    and row: "r_id row = mid" "r_session row = w_session w" "r_author row = w_author w" "r_source row = w_source w"
    and pay: "encode_body b False = Inr (r_body row)" and read: "message_of t row = Inr (stored_message m)"
    and md: "freeze_metadata (case metadata of None \<Rightarrow> VMap [] | Some v \<Rightarrow> v) = Inr (m_meta m)"
    using committed_effect[OF com wf] by blast
  have find: "find_message u mid = Some row"
    using appended_find[OF app] new row later extends_find by simp
  have "message_of u row = Inr (stored_message m)" using read extends_message_of[OF later] by simp
  moreover have "json_sorted (JObj (m_meta (stored_message m))) = json_sorted (JObj (m_meta m))"
    by (metis (no_types, lifting) json_sorted_idem message.select_convs(8) message.surjective
        message.update_convs(7,8) sorted_obj stored_message_def)
  ultimately have "replay ?w u row (r_body row) (m_meta m) = Inr (stored_message m)"
    using row by (simp add: replay_def del: json_sorted.simps)
  moreover have "check_grant ?w b = Inr ()" using grant by (simp add: check_grant_def split: if_splits)
  moreover have "\<not> (w_check_metadata ?w = None \<and> \<not> set (keys (m_meta m)) \<subseteq> set (w_message_keys ?w))"
    and "\<not> (m_meta m \<noteq> [] \<and> \<not> has_metadata u)"
    using a md grant later appended_extends[OF app]
    by (auto simp: append_message_def extends_def split: if_splits)
  ultimately show ?thesis
    using md find encode_allow[OF pay] by (simp add: append_message_def)
qed

lemma append_known:
  assumes "append_message now w mid b expected_head metadata s = Inr (m, t)" and "find_message s mid = Some row"
  shows "t = s \<and> message_of s row = Inr m \<and> encode_body b True = Inr (r_body row)
     \<and> r_session row = w_session w \<and> r_author row = w_author w \<and> r_source row = w_source w"
  using append_cases[OF assms(1)] assms(2)
  by (auto simp: committed_def replayed_def replay_def res_simps split: if_splits)

text \<open>The head of a source is a compare-and-swap value.\<close>

lemma source_head_append:
  assumes "wf_messages s" and "r_seq row = next_seq s (r_session row)" and "messages t = messages s @ [row]"
    and "0 \<le> r_seq row"
  shows "source_head t (r_session row) (r_source row) = r_seq row"
  unfolding source_head_def
proof (rule max_default_eqI)
  fix y assume "y \<in> set (map r_seq (filter (\<lambda>r. r_session r = r_session row \<and> r_source r = r_source row) (messages t)))"
  then show "y \<le> r_seq row"
    using assms(1,2,3) by (auto simp: wf_messages_def row_ok_def)
qed (use assms in auto)

lemma append_head:
  assumes a: "append_message now w mid b (Some h) metadata s = Inr (m, t)" and new: "find_message s mid = None"
    and wf: "wf_log s" "wf_body b" "pred_option wf_pyval metadata" "wf_writer w"
  shows "source_head s (w_session w) (w_source w) = h \<and> source_head t (w_session w) (w_source w) = m_seq m
     \<and> h < m_seq m \<and> m_seq m = next_seq s (w_session w)"
proof -
  have com: "committed now w mid b (Some h) metadata s m t"
    using append_cases[OF a] new by (auto simp: replayed_def)
  then have h: "source_head s (w_session w) (w_source w) = h" by (auto simp: committed_def)
  obtain row bids arts where app: "appended w row bids arts s t"
    and row: "r_session row = w_session w" "r_source row = w_source w" "r_seq row = next_seq s (w_session w)"
    and mk: "m_seq m = next_seq s (w_session w)" "0 \<le> m_seq m"
    using committed_effect[OF com wf] by (auto simp: mk_Message_iff wf_message_def)
  have "source_head t (w_session w) (w_source w) = m_seq m"
    using source_head_append[of s row t] wf(1) app row mk by (simp add: wf_log_def appended_def)
  moreover have "source_head s (w_session w) (w_source w) < m_seq m"
    unfolding source_head_def using wf(1) mk
    by (intro max_default_less) (auto simp: wf_log_def wf_messages_def row_ok_def)
  ultimately show ?thesis using h mk by simp
qed

lemma append_result_once:
  assumes "has_result s ref" and "result_ref b = Some ref" and "find_message s mid = None"
  shows "append_message now w mid b expected_head metadata s \<noteq> Inr (m, t)"
proof
  assume "append_message now w mid b expected_head metadata s = Inr (m, t)"
  then have "check_result w s b = Inr ()"
    using append_cases assms(3) by (fastforce simp: committed_def replayed_def)
  then show False using check_result_call(2)[of w s b ref] assms by simp
qed


section \<open>The other writes\<close>

text \<open>
  \<open>publish_row\<close> is the part of \<open>ArtifactStore.register_ready_attachment\<close> this log sees: the two
  stores open the same file, and a published artifact appears in the \<open>attachments\<close> table.
\<close>

definition publish_row :: "attachment_ref \<Rightarrow> message_log \<Rightarrow> message_log res" where
  "publish_row ref s =
     (if list_ex (\<lambda>a. att_id (a_ref a) = att_id ref) (attachments s) then Inl IntegrityError
      else Inr (s\<lparr>attachments := attachments s @ [\<lparr>a_ref = ref, a_state = ''ready''\<rparr>]\<rparr>))"

lemma sessions_only_wf:
  assumes "wf_log s" and "same_but_sessions s t" and "wf_sessions t" and "\<And>k. next_seq s k \<le> next_seq t k"
  shows "wf_log t"
proof -
  note d = same_but_sessionsD[OF assms(2)]
  have "row_ok t r" if "row_ok s r" for r
    using that assms(4)[of "r_session r"] message_of_cong[OF d(7)] by (auto simp: row_ok_def)
  then have "wf_messages t"
    using assms(1) by (auto simp: wf_log_def wf_messages_def d call_before_def)
  moreover have "find_message t = find_message s" by (rule ext) (simp add: find_message_def d)
  then have "attachment_key_missing t = attachment_key_missing s"
    by (intro ext attachment_key_missing_cong) (simp_all add: d)
  then have "wf_references t"
    using assms(1) \<open>find_message t = find_message s\<close>
    by (simp add: wf_log_def wf_references_def ordinals_of_def artifact_ready_def d)
  ultimately show ?thesis using assms(3) by (simp add: wf_log_def)
qed

lemma ensure_session_wf:
  assumes "ensure_session now sid a s = (r, t)" and "wf_log s"
  shows "wf_log t"
proof (cases "sid = []")
  case True
  then show ?thesis using assms by (simp add: ensure_session_def)
next
  case False
  show ?thesis
    using assms(1)[unfolded ensure_session_def if_not_P[OF False]] assms(2)
  proof (rule write_tx_invariant)
    fix x u
    let ?s = "s\<lparr>in_tx := True\<rparr>"
    assume "(let s = insert_or_ignore_session (new_session sid now a) ?s
             in bindR (session_attributes_of s sid)
                  (\<lambda>current. if current \<noteq> a then Inl MessageConflict else Inr (current, s))) = Inr (x, u)"
    then have u: "u = insert_or_ignore_session (new_session sid now a) ?s"
      by (auto simp: res_simps Let_def split: if_splits)
    have wf: "wf_log ?s" using assms(2) by (simp add: wf_log_in_tx)
    show "wf_log u" unfolding u
      using insert_session_wf[of ?s sid now a] False wf
      by (intro sessions_only_wf[OF wf]) (simp_all add: wf_log_def)
  qed
qed

text \<open>A session keeps the attributes it was admitted with; asking for them again changes nothing.\<close>

lemma ensure_session_admits:
  assumes "ensure_session now sid a s = (Inr r, t)"
  shows "r = a \<and> session_attributes_of t sid = Inr a
    \<and> (\<forall>k b. session_attributes_of s k = Inr b \<longrightarrow> session_attributes_of t k = Inr b)
    \<and> (find_session s sid \<noteq> None \<longrightarrow> t = s)"
proof -
  let ?s = "s\<lparr>in_tx := True\<rparr>"
  let ?u = "insert_or_ignore_session (new_session sid now a) ?s"
  have ntx: "\<not> in_tx s" and attr: "session_attributes_of ?u sid = Inr a" and r: "r = a"
    and t: "t = ?u\<lparr>in_tx := False\<rparr>"
    using assms by (auto simp: ensure_session_def write_tx_def res_simps Let_def split: if_splits sum.splits)
  have find: "find_session t k = find_session ?u k" for k by (simp add: t find_session_def)
  have old: "find_session ?u k = Some row" if "find_session s k = Some row" for k row
    using that by (auto simp: insert_or_ignore_session_def find_session_def find_append split: option.splits)
  have "session_attributes_of t k = Inr b" if "session_attributes_of s k = Inr b" for k b
    using that old find by (auto simp: session_attributes_of_def split: option.splits)
  moreover have "t = s" if "find_session s sid \<noteq> None"
    using that ntx by (simp add: t insert_or_ignore_session_def new_session_def find_session_def)
  ultimately show ?thesis using attr r find by (simp add: session_attributes_of_def)
qed

lemma ensure_session_again:
  assumes "session_attributes_of s sid = Inr b" and "sid \<noteq> []" and "\<not> in_tx s"
  shows "ensure_session now sid a s = ((if a = b then Inr b else Inl MessageConflict), s)"
proof -
  obtain row where row: "find_session s sid = Some row"
    using assms(1) by (auto simp: session_attributes_of_def split: option.splits)
  then have i: "insert_or_ignore_session (new_session sid now a) (s\<lparr>in_tx := True\<rparr>) = s\<lparr>in_tx := True\<rparr>"
    by (simp add: insert_or_ignore_session_def new_session_def find_session_def)
  have "session_attributes_of (s\<lparr>in_tx := True\<rparr>) sid = Inr b"
    using assms(1) by (simp add: session_attributes_of_def find_session_def)
  then show ?thesis using assms(2,3) by (auto simp: ensure_session_def write_tx_def i)
qed

lemma save_binding_cases:
  assumes "save_binding i v s = Inr t"
  shows "t = s \<or> (map_of (bindings s) i = None \<and> (\<exists>j. freeze_json v = Inr j
           \<and> t = s\<lparr>bindings := bindings s @ [(i, json_sorted j)]\<rparr>))"
  using assms by (cases "map_of (bindings s) i")
    (auto simp: save_binding_def res_simps Let_def split: if_splits)

lemma bindings_more_wf:
  assumes wf: "wf_log s" and t: "t = s\<lparr>bindings := bindings s @ [(i, d)]\<rparr>" and "\<exists>m. json_object_of d = Inr m" and "map_of (bindings s) i = None"
  shows "wf_log t"
proof -
  have "wf_sessions t" using wf by (simp add: wf_log_def wf_sessions_def t)
  moreover have "row_ok t r = row_ok s r" for r
    by (simp add: row_ok_def t message_of_def next_seq_def find_session_def)
  then have "wf_messages t" using wf by (simp add: wf_log_def wf_messages_def t call_before_def)
  moreover have f: "find_message t = find_message s" by (rule ext) (simp add: find_message_def t)
  then have "attachment_key_missing t = attachment_key_missing s"
    by (intro ext attachment_key_missing_cong) (simp_all add: t)
  then have "wf_references t"
    using wf assms(3,4) f
    by (auto simp: wf_log_def wf_references_def ordinals_of_def artifact_ready_def map_of_eq_None_iff t)
  ultimately show ?thesis by (simp add: wf_log_def)
qed

lemma save_binding_wf:
  assumes "save_binding i v s = Inr t" and "wf_log s" and "wf_pyval v" and "is_mapping v"
  shows "wf_log t"
  using save_binding_cases[OF assms(1)]
proof (elim disjE conjE exE)
  fix j assume "map_of (bindings s) i = None" "freeze_json v = Inr j"
    "t = s\<lparr>bindings := bindings s @ [(i, json_sorted j)]\<rparr>"
  moreover from this have "wf_json j" and "j = JObj (obj_items j)"
    using wf_freeze_json[OF assms(3)] freeze_mapping[OF assms(4)] by blast+
  then have "wf_json (json_sorted j)" and "\<exists>d. json_sorted j = JObj d"
    by (simp, metis json_sorted.simps(7))
  then have "\<exists>m. json_object_of (json_sorted j) = Inr m" by (auto simp: json_object_of_Inr)
  ultimately show ?thesis using bindings_more_wf[OF assms(2)] by blast
qed (use assms in simp)

text \<open>A saved binding is read back, and no later save changes it.\<close>

lemma save_binding_read:
  assumes "save_binding i v s = Inr t" and "freeze_json v = Inr (JObj d)" and "wf_pyval v"
  shows "read_binding t i = Inr (obj_items (json_sorted (JObj d)))"
proof -
  have "map_of (bindings t) i = Some (json_sorted (JObj d))"
    using assms by (auto simp: save_binding_def res_simps Let_def map_add_def simp del: json_sorted.simps
        split: if_splits option.splits)
  moreover have "wf_json (json_sorted (JObj d))"
    using wf_freeze_json[OF assms(3,2)] by (simp del: json_sorted.simps)
  ultimately show ?thesis by (simp add: read_binding_def json_object_of_def)
qed

lemma save_binding_keeps:
  assumes "save_binding i v s = Inr t" and "map_of (bindings s) k = Some d"
  shows "map_of (bindings t) k = Some d"
  using save_binding_cases[OF assms(1)] assms(2) by (auto simp: map_add_def)

lemma publish_wf:
  assumes "publish_row ref s = Inr t" and wf: "wf_log s" and ref: "wf_attachment ref"
  shows "wf_log t"
proof -
  have t: "t = s\<lparr>attachments := attachments s @ [\<lparr>a_ref = ref, a_state = ''ready''\<rparr>]\<rparr>"
    and new: "\<forall>a \<in> set (attachments s). att_id (a_ref a) \<noteq> att_id ref"
    using assms(1) by (auto simp: publish_row_def list_ex_iff split: if_splits)
  have "row_ok t r = row_ok s r" for r
    by (simp add: row_ok_def t message_of_def next_seq_def find_session_def)
  then have "wf_messages t" using wf by (simp add: wf_log_def wf_messages_def t call_before_def)
  moreover have "wf_sessions t" using wf by (simp add: wf_log_def wf_sessions_def t)
  moreover have f: "find_message t = find_message s" by (rule ext) (simp add: find_message_def t)
  moreover have "artifact_ready t a" if "artifact_ready s a" for a
    using that by (auto simp: artifact_ready_def t find_append split: option.splits)
  moreover have "\<not> attachment_key_missing t r" if "\<not> attachment_key_missing s r" for r
    using that unfolding attachment_key_missing_def f by (auto simp: t)
  ultimately have "wf_references t"
    using wf f ref new by (auto simp: wf_log_def wf_references_def ordinals_of_def t)
  then show ?thesis using \<open>wf_messages t\<close> \<open>wf_sessions t\<close> by (simp add: wf_log_def)
qed

section \<open>Histories of the log\<close>

inductive log_step :: "message_log \<Rightarrow> message_log \<Rightarrow> bool" where
  append_step: "wf_writer w \<Longrightarrow> wf_body b \<Longrightarrow> pred_option wf_pyval metadata \<Longrightarrow>
     writer_append now w mid b expected_head metadata s = (r, t) \<Longrightarrow> log_step s t"
| admit_step: "ensure_session now sid a s = (r', t) \<Longrightarrow> log_step s t"
| binding_step: "wf_pyval v \<Longrightarrow> is_mapping v \<Longrightarrow> save_binding i v s = Inr t \<Longrightarrow> log_step s t"
| publication_step: "wf_attachment ref \<Longrightarrow> publish_row ref s = Inr t \<Longrightarrow> log_step s t"

lemma log_step_wf: "log_step s t \<Longrightarrow> wf_log s \<Longrightarrow> wf_log t"
  by (induction rule: log_step.induct)
     (auto intro: writer_append_wf ensure_session_wf save_binding_wf publish_wf)

lemma log_reach_wf: "log_step\<^sup>*\<^sup>* empty_log s \<Longrightarrow> wf_log s"
  by (induction rule: rtranclp_induct) (auto intro: log_step_wf)

text \<open>The log is append-only: what was accepted stays, in place and unchanged.\<close>

lemma write_tx_extends:
  assumes "write_tx f s = (r, t)" and "\<And>x u. f (s\<lparr>in_tx := True\<rparr>) = Inr (x, u) \<Longrightarrow> extends s u"
  shows "extends s t"
  using assms by (auto simp: write_tx_def extends_def split: if_splits sum.splits)

lemma commit_extends:
  assumes "commit_message now w mid b payload md bids arts changes s = Inr (m, t)"
  shows "extends s t"
proof -
  obtain s2 s3 s4 row seq
    where i2: "insert_message row (insert_or_ignore_session (new_session (w_session w) now default_attributes) s) = Inr s2"
      and i3: "foldR (insert_attachment mid) (List.enumerate 0 arts) s2 = Inr s3"
      and i4: "foldR (insert_binding mid) bids s3 = Inr s4"
      and i5: "merge_session_metadata (w_session w) changes
          (update_session (w_session w) (\<lambda>r. r\<lparr>s_next := seq + 1, s_updated := Aware now\<rparr>) s4) = Inr t"
    using assms unfolding commit_message_def Let_def bindR_Inr_iff by auto
  have "extends s s2" using i2
    by (auto simp: insert_message_def insert_or_ignore_session_def extends_def split: if_splits)
  moreover have "extends s2 s3" using foldR_insert_attachment[OF i3] by (auto simp: extends_def)
  moreover have "extends s3 s4" using foldR_insert_binding[OF i4] by (auto simp: extends_def)
  moreover have "extends s4 t" using merge_cases[OF i5]
    by (auto simp: extends_def update_session_def)
  ultimately show ?thesis using extends_trans by blast
qed

lemma append_extends: "append_message now w mid b expected_head metadata s = Inr (m, t) \<Longrightarrow> extends s t"
  using append_cases commit_extends by (metis committed_def extends_refl)

lemma log_step_extends: "log_step s t \<Longrightarrow> extends s t"
proof (induction rule: log_step.induct)
  case (append_step w b metadata now mid expected_head s r t)
  then show ?case unfolding writer_append_def
    by (elim write_tx_extends) (auto dest!: append_extends simp: extends_def)
next
  case (admit_step now sid a s r' t)
  show ?case
  proof (cases "sid = []")
    case True
    then show ?thesis using admit_step by (simp add: ensure_session_def)
  next
    case False
    show ?thesis using admit_step[unfolded ensure_session_def if_not_P[OF False]]
      by (rule write_tx_extends)
         (auto simp: insert_or_ignore_session_def extends_def res_simps Let_def split: if_splits)
  qed
next
  case (binding_step v i s t)
  then show ?case using save_binding_cases by (fastforce simp: extends_def)
next
  case (publication_step ref s t)
  then show ?case by (auto simp: publish_row_def extends_def split: if_splits)
qed

lemma log_steps_extend: "log_step\<^sup>*\<^sup>* s t \<Longrightarrow> extends s t"
  by (induction rule: rtranclp_induct) (auto intro: extends_trans log_step_extends)


section \<open>The attachment check accepts every log of the store\<close>

lemma Cons_upt: "x # xs = [a..<b] \<Longrightarrow> x = a \<and> xs = [Suc a..<b]"
  by (metis list.distinct(1) list.sel(1) list.sel(3) upt_eq_Nil_conv upt_rec)

lemma ordinals_continue_sorted:
  assumes "sorted (map fst rows)" and "\<And>p r. prev = Some p \<Longrightarrow> r \<in> set rows \<Longrightarrow> p \<le> fst r"
    and "\<And>k. \<exists>n. map (fst \<circ> snd) (filter (\<lambda>r. fst r = k) rows) = [(if prev = Some k then e else 0)..<n]"
  shows "ordinals_continue prev e rows = Inr ()"
  using assms
proof (induction rows arbitrary: prev e)
  case (Cons row rows)
  obtain mid n art where row: "row = (mid, n, art)" by (cases row)
  let ?e = "if prev = Some mid then e else 0"
  obtain m where "map (fst \<circ> snd) (filter (\<lambda>r. fst r = mid) (row # rows)) = [?e..<m]"
    using Cons.prems(3)[of mid] by blast
  then have "n # map (fst \<circ> snd) (filter (\<lambda>r. fst r = mid) rows) = [?e..<m]" by (simp add: row)
  then have n: "n = ?e" and rest: "map (fst \<circ> snd) (filter (\<lambda>r. fst r = mid) rows) = [Suc ?e..<m]"
    using Cons_upt by blast+
  have later: "\<And>r. r \<in> set rows \<Longrightarrow> mid \<le> fst r" using Cons.prems(1) by (auto simp: row)
  have ords: "\<exists>n. map (fst \<circ> snd) (filter (\<lambda>r. fst r = k) rows) = [(if Some mid = Some k then Suc ?e else 0)..<n]" for k
  proof (cases "k = mid")
    case True
    then show ?thesis using rest by auto
  next
    case False
    obtain l where l: "map (fst \<circ> snd) (filter (\<lambda>r. fst r = k) rows) = [(if prev = Some k then e else 0)..<l]"
      using Cons.prems(3)[of k] False by (auto simp: row comp_def)
    show ?thesis
    proof (cases "prev = Some k")
      case True
      then have "k \<le> mid" using Cons.prems(2)[of k row] by (simp add: row)
      then have "filter (\<lambda>r. fst r = k) rows = []"
        using later False unfolding filter_empty_conv by force
      then show ?thesis using False by (intro exI[of _ 0]) simp
    next
      case False
      then show ?thesis using l \<open>k \<noteq> mid\<close> by auto
    qed
  qed
  have "ordinals_continue (Some mid) (Suc ?e) rows = Inr ()"
    by (rule Cons.IH[OF _ _ ords]) (use Cons.prems(1) later in auto)
  then show ?case using n by (simp add: row Let_def)
qed simp

lemma attachments_validate:
  assumes "wf_log s"
  shows "validate_attachment_bindings s = Inr ()"
proof -
  let ?rows = "sort_key fst (sort_key (fst \<circ> snd) (message_attachments s))"
  have "\<exists>n. map (fst \<circ> snd) (filter (\<lambda>r. fst r = k) ?rows) = [0..<n]" for k
  proof -
    let ?f = "filter (\<lambda>r. fst r = k) (message_attachments s)"
    obtain n where n: "map (fst \<circ> snd) ?f = [0..<n]"
      using assms unfolding wf_log_def wf_references_def ordinals_of_def by blast
    have "filter (\<lambda>r. fst r = k) ?rows = sort_key (fst \<circ> snd) ?f"
      by (simp add: sort_key_stable filter_sort)
    also have "\<dots> = ?f" by (intro sort_key_id_if_sorted) (simp only: n sorted_upt)
    finally show ?thesis using n by auto
  qed
  then have "ordinals_continue None 0 ?rows = Inr ()"
    by (intro ordinals_continue_sorted) auto
  moreover have "\<not> list_ex (attachment_key_missing s) (message_attachments s)"
    using assms by (auto simp: list_ex_iff wf_log_def wf_references_def)
  ultimately show ?thesis by (simp add: validate_attachment_bindings_def)
qed

end
