(* ===== verification/Message_Reader.thy ===== *)
theory Message_Reader
  imports Message_Store
begin

text \<open>
  The read side of \<open>session/log.py\<close>: \<open>MessageReader\<close>, the incremental reader of a running
  program, \<open>MessageCatalog\<close> and the references of a page. Reads decode stored rows and may raise;
  none of them changes the log. \<open>_decode\<close> only reuses a decoded message for an identical row, so
  it is \<open>message_of\<close>.
\<close>

section \<open>Reading a range\<close>

definition rows_between :: "message_log \<Rightarrow> string \<Rightarrow> int \<Rightarrow> int option \<Rightarrow> string option \<Rightarrow> message_row list" where
  "rows_between s sid after through source =
     sort_key r_seq (filter (\<lambda>r. r_session r = sid \<and> after < r_seq r
       \<and> (case through of None \<Rightarrow> True | Some t \<Rightarrow> r_seq r \<le> t)
       \<and> (case source of None \<Rightarrow> True | Some src \<Rightarrow> r_source r = src)) (messages s))"

definition read_range ::
  "message_log \<Rightarrow> string \<Rightarrow> int \<Rightarrow> int option \<Rightarrow> string option \<Rightarrow> int \<Rightarrow> message list res" where
  "read_range s sid after through source limit =
     (if limit < 1 \<or> after < - 1 then Inl ValueError
      else mapR (message_of s) (take (nat limit) (rows_between s sid after through source)))"

definition head_of :: "message_log \<Rightarrow> string \<Rightarrow> string option \<Rightarrow> int" where
  "head_of s sid source =
     max_default (- 1) (map r_seq (filter (\<lambda>r. r_session r = sid
       \<and> (case source of None \<Rightarrow> True | Some src \<Rightarrow> r_source r = src)) (messages s)))"

definition source_names :: "message_log \<Rightarrow> string \<Rightarrow> string set" where
  "source_names s sid = r_source ` set (filter (\<lambda>r. r_session r = sid) (messages s))"

definition latest_input :: "message_log \<Rightarrow> string \<Rightarrow> string \<Rightarrow> int \<Rightarrow> message option res" where
  "latest_input s sid source through =
     (case rev (sort_key r_seq (filter (\<lambda>r. r_session r = sid \<and> r_source r = source \<and> r_seq r \<le> through
             \<and> json_get ''kind'' (r_body r) = JStr ''input'') (messages s))) of
        [] \<Rightarrow> Inr None
      | row # _ \<Rightarrow> bindR (message_of s row) (\<lambda>m. Inr (Some m)))"

definition get_message :: "message_log \<Rightarrow> string \<Rightarrow> string \<Rightarrow> message option res" where
  "get_message s sid mid =
     (case find (\<lambda>r. r_id r = mid \<and> r_session r = sid) (messages s) of
        None \<Rightarrow> Inr None
      | Some row \<Rightarrow> bindR (message_of s row) (\<lambda>m. Inr (Some m)))"

lemma message_of_fields:
  "message_of s r = Inr m \<Longrightarrow> m_id m = r_id r \<and> m_session m = r_session r \<and> m_seq m = r_seq r
     \<and> m_source m = r_source r \<and> m_author m = r_author r \<and> m_time m = r_ts r \<and> wf_message m"
  by (auto simp: message_of_def res_simps mk_Message_iff)

lemma mapR_message_seqs: "mapR (message_of s) rows = Inr ms \<Longrightarrow> map m_seq ms = map r_seq rows"
  by (induction rows arbitrary: ms) (auto simp: res_simps dest: message_of_fields)

lemma read_range_last:
  assumes "read_range s sid after through source limit = Inr ms" and "ms \<noteq> []"
  shows "after < m_seq (last ms)"
proof -
  let ?rows = "take (nat limit) (rows_between s sid after through source)"
  have "mapR (message_of s) ?rows = Inr ms" using assms(1) by (auto simp: read_range_def split: if_splits)
  then have seqs: "map m_seq ms = map r_seq ?rows" by (rule mapR_message_seqs)
  then have "m_seq (last ms) \<in> set (map r_seq ?rows)"
    using assms(2) by (metis last_in_set last_map map_is_Nil_conv)
  then show ?thesis by (auto simp: rows_between_def dest!: in_set_takeD)
qed

section \<open>Snapshots\<close>

text \<open>
  \<open>snapshot\<close>: pages of 1000 up to a fixed head. The loop ends because every page moves the cursor.
\<close>

function snapshot_pages :: "message_log \<Rightarrow> string \<Rightarrow> int \<Rightarrow> int \<Rightarrow> message list res" where
  "snapshot_pages s sid head cursor =
     (if cursor < head then
        bindR (read_range s sid cursor (Some head) None 1000) (\<lambda>page.
          if page = [] then Inr []
          else bindR (snapshot_pages s sid head (m_seq (last page))) (\<lambda>rest. Inr (page @ rest)))
      else Inr [])"
  by pat_completeness auto
termination
  by (relation "measure (\<lambda>(s, sid, head, cursor). nat (head - cursor))") (auto dest: read_range_last)

declare snapshot_pages.simps [simp del]

definition snapshot :: "message_log \<Rightarrow> string \<Rightarrow> int \<Rightarrow> int option \<Rightarrow> message list res" where
  "snapshot s sid after through =
     snapshot_pages s sid (case through of None \<Rightarrow> head_of s sid None | Some t \<Rightarrow> t) after"

text \<open>
  The incremental reader: the decoded prefix it keeps and the data version it was read at.
  \<open>version\<close> is \<open>PRAGMA data_version\<close>, which another connection's commit changes. \<open>bisect_right\<close>
  on the ordered prefix is the number of messages up to a sequence number.
\<close>

record incremental =
  inc_messages :: "message list"
  inc_version :: "int option"

definition new_incremental :: incremental where
  "new_incremental = \<lparr>inc_messages = [], inc_version = None\<rparr>"

definition bisect_seq :: "message list \<Rightarrow> int \<Rightarrow> nat" where
  "bisect_seq ms x = length (takeWhile (\<lambda>m. m_seq m \<le> x) ms)"

definition incremental_snapshot ::
  "message_log \<Rightarrow> int \<Rightarrow> string \<Rightarrow> int \<Rightarrow> int option \<Rightarrow> incremental \<Rightarrow> (message list \<times> incremental) res" where
  "incremental_snapshot s version sid after through inc =
     (if in_tx s then bindR (snapshot s sid after through) (\<lambda>ms. Inr (ms, inc))
      else
        let head = head_of s sid None;
            cached = (if Some version = inc_version inc then inc_messages inc else []);
            previous = (if cached = [] then - 1 else m_seq (last cached));
            bound = (case through of None \<Rightarrow> head | Some t \<Rightarrow> min head t) in
        bindR (if previous < bound
               then bindR (snapshot s sid previous (Some bound)) (\<lambda>added. Inr (cached @ added))
               else Inr cached) (\<lambda>ms.
          Inr (drop (bisect_seq ms after) (take (bisect_seq ms bound) ms),
               \<lparr>inc_messages = ms, inc_version = Some version\<rparr>)))"

section \<open>Pages\<close>

definition artifact_ref :: "attachment_row \<Rightarrow> attachment_ref res" where
  "artifact_ref row =
     (if a_state row \<noteq> ''ready'' then Inl ValueError
      else let r = a_ref row in
        mk_AttachmentRef (VStr (att_id r)) (att_kind r) (opt_text (att_filename r)) (opt_text (att_media r))
          (VInt (att_size r)) (VStr (att_sha r)))"

definition find_attachment :: "message_log \<Rightarrow> string \<Rightarrow> attachment_row option" where
  "find_attachment s i = find (\<lambda>a. att_id (a_ref a) = i) (attachments s)"

text \<open>The rows of one message in ordinal order, each at its place and naming a published artifact.\<close>

fun collect_refs ::
  "message_log \<Rightarrow> attachment_ref list \<Rightarrow> (string \<times> nat \<times> string) list \<Rightarrow> attachment_ref list res" where
  "collect_refs s refs [] = Inr refs"
| "collect_refs s refs ((mid, n, art) # rows) =
     (if n \<noteq> length refs then Inl ValueError
      else case find_attachment s art of
        None \<Rightarrow> Inl ValueError
      | Some row \<Rightarrow> bindR (artifact_ref row) (\<lambda>r. collect_refs s (refs @ [r]) rows))"

definition message_refs :: "message_log \<Rightarrow> string \<Rightarrow> attachment_ref list res" where
  "message_refs s mid =
     collect_refs s [] (sort_key (fst \<circ> snd) (filter (\<lambda>r. fst r = mid) (message_attachments s)))"

definition binding_doc :: "message_log \<Rightarrow> string \<Rightarrow> json_object res" where
  "binding_doc s b = (case map_of (bindings s) b of None \<Rightarrow> Inl ValueError | Some d \<Rightarrow> json_object_of d)"

record message_page =
  page_messages :: "message list"
  page_attachments :: "(string \<times> attachment_ref list) list"
  page_bindings :: "(string \<times> json_object) list"
  page_through :: int
  page_more :: bool

definition page_references ::
  "message_log \<Rightarrow> message list
     \<Rightarrow> ((string \<times> attachment_ref list) list \<times> (string \<times> json_object) list) res" where
  "page_references s ms =
     bindR (mapR (\<lambda>m. bindR (message_refs s (m_id m)) (\<lambda>refs. Inr (m_id m, refs))) ms) (\<lambda>atts.
     bindR (mapR (\<lambda>b. bindR (binding_doc s b) (\<lambda>d. Inr (b, d)))
       (sort (remdups (map snd (filter (\<lambda>p. fst p \<in> set (map m_id ms)) (message_bindings s)))))) (\<lambda>binds.
       Inr (atts, binds)))"

definition page ::
  "message_log \<Rightarrow> string \<Rightarrow> int \<Rightarrow> int option \<Rightarrow> int option \<Rightarrow> int \<Rightarrow> bool \<Rightarrow> message_page res" where
  "page s sid after before_seq through_seq limit tail =
     (if \<not> (1 \<le> limit \<and> limit \<le> 200) \<or> after < - 1
         \<or> (case before_seq of None \<Rightarrow> False | Some b \<Rightarrow> b < 0) then Inl InvalidPage
      else case find_session s sid of
        None \<Rightarrow> Inl KeyError
      | Some row \<Rightarrow>
          let head = head_of s sid None;
              through = (case through_seq of None \<Rightarrow> head | Some t \<Rightarrow> t) in
          if \<not> (- 1 \<le> through \<and> through \<le> head) \<or> through < after then Inl InvalidPage
          else
            let before = (case before_seq of None \<Rightarrow> through + 1 | Some b \<Rightarrow> b) in
            if through + 1 < before then Inl InvalidPage
            else
              let found = filter (\<lambda>r. r_seq r < before) (rows_between s sid after (Some through) None);
                  rows = take (nat limit + 1) (if tail then rev found else found);
                  cut = take (nat limit) rows;
                  selected = (if tail then rev cut else cut) in
              bindR (mapR (message_of s) selected) (\<lambda>ms.
              bindR (page_references s ms) (\<lambda>(atts, binds).
                Inr \<lparr>page_messages = ms, page_attachments = atts, page_bindings = binds,
                     page_through = through, page_more = (nat limit < length rows)\<rparr>)))"

definition read_page :: "message_log \<Rightarrow> string \<Rightarrow> int \<Rightarrow> int option \<Rightarrow> int \<Rightarrow> message_page res" where
  "read_page s sid after through_seq limit = page s sid after None through_seq limit False"

definition read_tail :: "message_log \<Rightarrow> string \<Rightarrow> int option \<Rightarrow> int option \<Rightarrow> int \<Rightarrow> message_page res" where
  "read_tail s sid before_seq through_seq limit = page s sid (- 1) before_seq through_seq limit True"

text \<open>
  \<open>attachments_for\<close>: the references of each requested message of the session, in input order, a
  repeated request repeated; a message the session does not have is refused.
\<close>

definition attachments_for :: "message_log \<Rightarrow> string \<Rightarrow> string list \<Rightarrow> attachment_ref list res" where
  "attachments_for s sid ids =
     (if ids = [] then Inr []
      else let found = map r_id (sort_key r_seq (filter (\<lambda>r. r_session r = sid \<and> r_id r \<in> set ids) (messages s))) in
        bindR (mapR (\<lambda>i. bindR (message_refs s i) (\<lambda>refs. Inr (i, refs))) found) (\<lambda>refs.
          if set found \<noteq> set ids then Inl LookupError
          else Inr (concat (map (\<lambda>i. the (map_of refs i)) ids))))"

section \<open>Strictly ordered lists\<close>

abbreviation ascending :: "('a \<Rightarrow> int) \<Rightarrow> 'a list \<Rightarrow> bool" where
  "ascending f xs \<equiv> sorted_wrt (\<lambda>a b. f a < f b) xs"

lemma ascending_filter: "ascending f xs \<Longrightarrow> ascending f (filter P xs)"
  by (rule sorted_wrt_filter')

lemma ascending_sorted: "ascending f xs \<Longrightarrow> sort_key f xs = xs"
  by (rule sort_key_id_if_sorted) (auto simp: sorted_map elim!: sorted_wrt_mono_rel[rotated])

lemma filter_upto: "ascending f xs \<Longrightarrow> filter (\<lambda>x. f x \<le> c) xs = takeWhile (\<lambda>x. f x \<le> c) xs"
proof (induction xs)
  case (Cons x xs)
  have "filter (\<lambda>x. f x \<le> c) xs = []" if "\<not> f x \<le> c" using that Cons.prems by (auto simp: filter_empty_conv)
  then show ?case using Cons by auto
qed simp

lemma filter_after: "ascending f xs \<Longrightarrow> filter (\<lambda>x. c < f x) xs = dropWhile (\<lambda>x. f x \<le> c) xs"
proof (induction xs)
  case (Cons x xs)
  have "filter (\<lambda>x. c < f x) xs = xs" if "\<not> f x \<le> c" using that Cons.prems by (auto simp: filter_id_conv)
  then show ?case using Cons by auto
qed simp

lemma filter_split:
  "ascending f xs \<Longrightarrow> p \<le> q \<Longrightarrow>
     filter (\<lambda>x. f x \<le> p) xs @ filter (\<lambda>x. p < f x \<and> f x \<le> q) xs = filter (\<lambda>x. f x \<le> q) xs"
proof (induction xs)
  case (Cons x xs)
  have "filter (\<lambda>y. f y \<le> p) xs = []" if "p < f x" using that Cons.prems(1) by (auto simp: filter_empty_conv)
  then show ?case using Cons by auto
qed simp

lemma filter_after_page:
  assumes "ascending f xs" and "xs \<noteq> []" and "0 < n"
  shows "filter (\<lambda>x. f (last (take n xs)) < f x) xs = drop n xs"
  using filter_after_take[of "\<lambda>a b. f a < f b" xs n] assms by simp

lemma bisect_take: "ascending m_seq ms \<Longrightarrow> take (bisect_seq ms x) ms = filter (\<lambda>m. m_seq m \<le> x) ms"
  by (simp add: bisect_seq_def filter_upto takeWhile_eq_take[symmetric])

lemma bisect_drop: "ascending m_seq ms \<Longrightarrow> drop (bisect_seq ms x) ms = filter (\<lambda>m. x < m_seq m) ms"
  by (simp add: bisect_seq_def filter_after dropWhile_eq_drop[symmetric])

lemma takeWhile_mono_len: "(\<And>x. P x \<Longrightarrow> Q x) \<Longrightarrow> length (takeWhile P xs) \<le> length (takeWhile Q xs)"
  by (induction xs) auto

lemma takeWhile_takeWhile: "(\<And>x. P x \<Longrightarrow> Q x) \<Longrightarrow> takeWhile P (takeWhile Q xs) = takeWhile P xs"
  by (induction xs) auto

lemma bisect_slice:
  assumes "ascending m_seq ms"
  shows "drop (bisect_seq ms a) (take (bisect_seq ms b) ms) = filter (\<lambda>m. a < m_seq m \<and> m_seq m \<le> b) ms"
proof (cases "a \<le> b")
  case True
  let ?t = "take (bisect_seq ms b) ms"
  have t: "?t = takeWhile (\<lambda>m. m_seq m \<le> b) ms" by (simp add: bisect_seq_def takeWhile_eq_take[symmetric])
  have "bisect_seq ?t a = bisect_seq ms a"
    unfolding t unfolding bisect_seq_def using True by (subst takeWhile_takeWhile) auto
  moreover have "ascending m_seq ?t" using assms by (rule sorted_wrt_take)
  ultimately have "drop (bisect_seq ms a) ?t = filter (\<lambda>m. a < m_seq m) ?t" using bisect_drop by metis
  then show ?thesis using bisect_take[OF assms, of b] by (simp add: conj_commute)
next
  case False
  have "bisect_seq ms b \<le> bisect_seq ms a"
    unfolding bisect_seq_def using False by (intro takeWhile_mono_len) auto
  then show ?thesis using False by (auto simp: filter_empty_conv)
qed

section \<open>The history of a session\<close>

definition session_rows :: "message_log \<Rightarrow> string \<Rightarrow> message_row list" where
  "session_rows s sid = filter (\<lambda>r. r_session r = sid) (messages s)"

definition session_history :: "message_log \<Rightarrow> string \<Rightarrow> message list" where
  "session_history s sid = map (\<lambda>r. projr (message_of s r)) (session_rows s sid)"

lemma session_rows_ascending: "wf_log s \<Longrightarrow> ascending r_seq (session_rows s sid)"
proof -
  assume "wf_log s"
  then have "sorted_wrt seq_before (session_rows s sid)"
    unfolding session_rows_def by (intro sorted_wrt_filter') (simp add: wf_log_def wf_messages_def)
  then show ?thesis
    by (rule sorted_wrt_mono_rel[rotated]) (auto simp: session_rows_def seq_before_def)
qed

lemma row_message:
  "wf_log s \<Longrightarrow> r \<in> set (messages s) \<Longrightarrow> message_of s r = Inr (projr (message_of s r))"
  by (auto simp: wf_log_def wf_messages_def row_ok_def)

lemma row_seq: "wf_log s \<Longrightarrow> r \<in> set (messages s) \<Longrightarrow> m_seq (projr (message_of s r)) = r_seq r"
  using row_message message_of_fields by blast

lemma row_source: "wf_log s \<Longrightarrow> r \<in> set (messages s) \<Longrightarrow> m_source (projr (message_of s r)) = r_source r"
  using row_message message_of_fields by blast

lemma row_id: "wf_log s \<Longrightarrow> r \<in> set (messages s) \<Longrightarrow> m_id (projr (message_of s r)) = r_id r"
  using row_message message_of_fields by blast

lemma decode_rows:
  "wf_log s \<Longrightarrow> set rows \<subseteq> set (messages s) \<Longrightarrow> mapR (message_of s) rows = Inr (map (\<lambda>r. projr (message_of s r)) rows)"
  using row_message by (intro mapR_Inr_map) blast

lemma rows_between_eq:
  assumes "wf_log s"
  shows "rows_between s sid after through source =
    filter (\<lambda>r. after < r_seq r \<and> (case through of None \<Rightarrow> True | Some t \<Rightarrow> r_seq r \<le> t)
              \<and> (case source of None \<Rightarrow> True | Some src \<Rightarrow> r_source r = src)) (session_rows s sid)"
    (is "_ = filter ?Q _")
proof -
  have "rows_between s sid after through source = sort_key r_seq (filter ?Q (session_rows s sid))"
    unfolding rows_between_def session_rows_def filter_filter
    by (intro arg_cong[of _ _ "sort_key r_seq"] filter_cong) auto
  then show ?thesis
    using ascending_sorted[OF ascending_filter[OF session_rows_ascending[OF assms]]] by simp
qed

lemma session_history_seqs: "wf_log s \<Longrightarrow> map m_seq (session_history s sid) = map r_seq (session_rows s sid)"
  by (auto simp: session_history_def session_rows_def row_seq)

lemma session_history_ascending:
  assumes "wf_log s"
  shows "ascending m_seq (session_history s sid)"
proof -
  have "ascending m_seq (session_history s sid) = sorted_wrt (<) (map m_seq (session_history s sid))"
    by (simp add: sorted_wrt_map)
  also have "\<dots>" using session_rows_ascending[OF assms, of sid] by (simp add: session_history_seqs[OF assms] sorted_wrt_map)
  finally show ?thesis by simp
qed

lemma history_filter:
  assumes "wf_log s"
  shows "map (\<lambda>r. projr (message_of s r)) (rows_between s sid after through source) =
    filter (\<lambda>m. after < m_seq m \<and> (case through of None \<Rightarrow> True | Some t \<Rightarrow> m_seq m \<le> t)
              \<and> (case source of None \<Rightarrow> True | Some src \<Rightarrow> m_source m = src)) (session_history s sid)"
  unfolding rows_between_eq[OF assms] session_history_def filter_map comp_def
  using row_seq[OF assms] row_source[OF assms]
  by (intro arg_cong[of _ _ "map _"] filter_cong) (auto simp: session_rows_def split: option.splits)

lemma read_range_history:
  assumes "wf_log s" and "1 \<le> limit" and "- 1 \<le> after"
  shows "read_range s sid after through source limit =
    Inr (take (nat limit) (filter (\<lambda>m. after < m_seq m \<and> (case through of None \<Rightarrow> True | Some t \<Rightarrow> m_seq m \<le> t)
              \<and> (case source of None \<Rightarrow> True | Some src \<Rightarrow> m_source m = src)) (session_history s sid)))"
proof -
  let ?rows = "take (nat limit) (rows_between s sid after through source)"
  have "set ?rows \<subseteq> set (messages s)" by (auto simp: rows_between_def dest!: in_set_takeD)
  then have "mapR (message_of s) ?rows = Inr (map (\<lambda>r. projr (message_of s r)) ?rows)"
    by (rule decode_rows[OF assms(1)])
  then show ?thesis
    using assms(2,3) unfolding read_range_def take_map[symmetric] history_filter[OF assms(1)] by simp
qed

lemma snapshot_pages_history:
  assumes "wf_log s" and "- 1 \<le> cursor"
  shows "snapshot_pages s sid head cursor =
    Inr (filter (\<lambda>m. cursor < m_seq m \<and> m_seq m \<le> head) (session_history s sid))"
  using assms
proof (induction s sid head cursor rule: snapshot_pages.induct)
  case (1 s sid head cursor)
  let ?L = "filter (\<lambda>m. cursor < m_seq m \<and> m_seq m \<le> head) (session_history s sid)"
  have asc: "ascending m_seq ?L" by (rule ascending_filter[OF session_history_ascending[OF 1(2)]])
  have read: "read_range s sid cursor (Some head) None 1000 = Inr (take 1000 ?L)"
    using read_range_history[OF 1(2), of 1000 cursor sid "Some head" None] 1(3) by simp
  show ?case
  proof (cases "cursor < head")
    case False
    then have "?L = []" by (auto simp: filter_empty_conv)
    then show ?thesis using False by (subst snapshot_pages.simps) simp
  next
    case True
    show ?thesis
    proof (cases "?L = []")
      case empty: True
      then show ?thesis using True read by (subst snapshot_pages.simps) simp
    next
      case False
      let ?c = "m_seq (last (take 1000 ?L))"
      have "cursor < ?c" using read_range_last[OF read] False by simp
      moreover have "filter (\<lambda>m. ?c < m_seq m \<and> m_seq m \<le> head) (session_history s sid) = filter (\<lambda>m. ?c < m_seq m) ?L"
        using \<open>cursor < ?c\<close> unfolding filter_filter by (intro filter_cong) auto
      ultimately have "snapshot_pages s sid head ?c = Inr (drop 1000 ?L)"
        using 1(1)[OF True read] 1(2,3) False filter_after_page[OF asc False, of 1000] by simp
      then show ?thesis using True read False by (subst snapshot_pages.simps) (simp del: filter_filter)
    qed
  qed
qed

lemma snapshot_history:
  assumes "wf_log s" and "- 1 \<le> after"
  shows "snapshot s sid after through = Inr (filter (\<lambda>m. after < m_seq m
     \<and> m_seq m \<le> (case through of None \<Rightarrow> head_of s sid None | Some t \<Rightarrow> t)) (session_history s sid))"
  using snapshot_pages_history[OF assms] by (simp add: snapshot_def)

lemma history_le_head: "wf_log s \<Longrightarrow> m \<in> set (session_history s sid) \<Longrightarrow> m_seq m \<le> head_of s sid None"
  by (auto simp: session_history_def session_rows_def head_of_def row_seq intro!: max_default_ge(2))

lemma history_nonneg: "wf_log s \<Longrightarrow> m \<in> set (session_history s sid) \<Longrightarrow> 0 \<le> m_seq m \<and> wf_message m \<and> m_session m = sid"
  using row_message[of s] message_of_fields
  by (fastforce simp: session_history_def session_rows_def wf_message_def)

lemma get_message_history:
  assumes wf: "wf_log log" and get: "get_message log sid mid = Inr (Some m)"
  shows "m \<in> set (session_history log sid) \<and> m_id m = mid"
proof -
  obtain r where r: "find (\<lambda>r. r_id r = mid \<and> r_session r = sid) (messages log) = Some r" and d: "message_of log r = Inr m"
    using get by (auto simp: get_message_def res_simps split: option.splits)
  then have "r \<in> set (session_rows log sid)" and i: "r_id r = mid" by (auto simp: session_rows_def dest: find_Some_iff')
  then have "projr (message_of log r) \<in> set (session_history log sid)" by (auto simp: session_history_def)
  then show ?thesis using d i message_of_fields[OF d] by simp
qed

lemma get_message_body:
  assumes "get_message s sid mid = Inr (Some m)"
  shows "wf_body (m_body m)"
proof -
  obtain r where "message_of s r = Inr m" using assms by (auto simp: get_message_def res_simps split: option.splits)
  then show ?thesis using decode_wf_body by (fastforce simp: message_of_def res_simps mk_Message_iff)
qed


section \<open>The incremental reader\<close>

definition last_seq :: "message list \<Rightarrow> int" where
  "last_seq ms = (if ms = [] then - 1 else m_seq (last ms))"

text \<open>At the version it was read at, the cache is the history up to its last message.\<close>

definition cache_ok :: "message_log \<Rightarrow> string \<Rightarrow> message list \<Rightarrow> bool" where
  "cache_ok s sid ms \<longleftrightarrow> ms = filter (\<lambda>m. m_seq m \<le> last_seq ms) (session_history s sid)"

definition inc_ok :: "message_log \<Rightarrow> string \<Rightarrow> int \<Rightarrow> incremental \<Rightarrow> bool" where
  "inc_ok s sid version inc \<longleftrightarrow> (inc_version inc = Some version \<longrightarrow> cache_ok s sid (inc_messages inc))"

lemma cache_ok_Nil:
  assumes "wf_log s"
  shows "cache_ok s sid []"
proof -
  have "filter (\<lambda>m. m_seq m \<le> - 1) (session_history s sid) = []"
    using history_nonneg[OF assms] by (force simp: filter_empty_conv)
  then show ?thesis by (simp add: cache_ok_def last_seq_def)
qed

lemma cache_ok_filter:
  assumes wf: "wf_log s" and ms: "ms = filter (\<lambda>m. m_seq m \<le> q) (session_history s sid)"
  shows "cache_ok s sid ms"
proof (cases "ms = []")
  case True
  then show ?thesis using cache_ok_Nil[OF wf] by simp
next
  case False
  have asc: "ascending m_seq ms" unfolding ms by (rule ascending_filter[OF session_history_ascending[OF wf]])
  have top: "m_seq m \<le> last_seq ms" if "m \<in> set ms" for m
  proof -
    have "ascending m_seq (butlast ms @ [last ms])" using asc False by simp
    then have "\<forall>x \<in> set (butlast ms). m_seq x < m_seq (last ms)" by (simp add: sorted_wrt_append)
    moreover have "m \<in> set (butlast ms) \<or> m = last ms"
      using that False by (metis append_butlast_last_id in_set_conv_decomp rotate1.simps(2) set_ConsD set_rotate1)
    ultimately show ?thesis using False by (force simp: last_seq_def)
  qed
  have "last ms \<in> set ms" using False by simp
  then have "last_seq ms \<le> q" using False unfolding ms by (auto simp: last_seq_def)
  then have "filter (\<lambda>m. m_seq m \<le> last_seq ms) (session_history s sid) = ms"
    using top unfolding ms by (intro filter_cong) auto
  then show ?thesis by (simp add: cache_ok_def)
qed

lemma extends_history:
  assumes "extends s t"
  shows "\<exists>new. session_history t sid = session_history s sid @ new"
  using assms extends_message_of[OF assms] by (auto simp: extends_def session_history_def session_rows_def)

lemma cache_ok_extends:
  assumes wf: "wf_log t" and ext: "extends s t" and ok: "cache_ok s sid ms"
  shows "cache_ok t sid ms"
proof -
  obtain new where h: "session_history t sid = session_history s sid @ new"
    using extends_history[OF ext] by blast
  have "last_seq ms < m_seq m" if "m \<in> set new" for m
  proof (cases "ms = []")
    case True
    then show ?thesis using history_nonneg[OF wf, of m sid] that by (simp add: h last_seq_def)
  next
    case False
    then have "last ms \<in> set (session_history s sid)"
      using ok last_in_set[OF False] filter_is_subset unfolding cache_ok_def by (metis subsetD)
    then show ?thesis using session_history_ascending[OF wf, of sid] that False
      by (simp add: h sorted_wrt_append last_seq_def)
  qed
  then have "filter (\<lambda>m. m_seq m \<le> last_seq ms) new = []" by (force simp: filter_empty_conv)
  then show ?thesis using ok unfolding cache_ok_def h by simp
qed

lemma incremental_history:
  assumes wf: "wf_log s" and after: "- 1 \<le> after" and ntx: "\<not> in_tx s" and ok: "inc_ok s sid version inc"
  shows "\<exists>inc'. incremental_snapshot s version sid after through inc =
     Inr (filter (\<lambda>m. after < m_seq m \<and> m_seq m \<le> (case through of None \<Rightarrow> head_of s sid None | Some t \<Rightarrow> t))
            (session_history s sid), inc') \<and> inc_version inc' = Some version \<and> inc_ok s sid version inc'"
proof -
  let ?h = "session_history s sid"
  let ?bound = "case through of None \<Rightarrow> head_of s sid None | Some t \<Rightarrow> min (head_of s sid None) t"
  define c where "c = (if Some version = inc_version inc then inc_messages inc else [])"
  have asc: "ascending m_seq ?h" by (rule session_history_ascending[OF wf])
  have cached: "cache_ok s sid c"
    using ok cache_ok_Nil[OF wf] by (simp add: c_def inc_ok_def)
  then have c: "c = filter (\<lambda>m. m_seq m \<le> last_seq c) ?h" by (simp only: cache_ok_def)
  have prev: "- 1 \<le> last_seq c"
  proof (cases "c = []")
    case False
    have "set c \<subseteq> set ?h" by (subst c) (rule filter_is_subset)
    then have "last c \<in> set ?h" using last_in_set[OF False] by blast
    then show ?thesis using history_nonneg[OF wf, of "last c" sid] False by (simp add: last_seq_def)
  qed (simp add: last_seq_def)
  define ms where "ms = (if last_seq c < ?bound
     then c @ filter (\<lambda>m. last_seq c < m_seq m \<and> m_seq m \<le> ?bound) ?h else c)"
  have ms: "ms = filter (\<lambda>m. m_seq m \<le> max (last_seq c) ?bound) ?h"
  proof (cases "last_seq c < ?bound")
    case True
    then have "ms = filter (\<lambda>m. m_seq m \<le> last_seq c) ?h
        @ filter (\<lambda>m. last_seq c < m_seq m \<and> m_seq m \<le> ?bound) ?h"
      unfolding ms_def by (simp only: if_True c[symmetric])
    also have "\<dots> = filter (\<lambda>m. m_seq m \<le> ?bound) ?h"
      using True by (intro filter_split[OF asc] less_imp_le)
    finally show ?thesis using True by (simp only: max_absorb2 less_imp_le)
  next
    case False
    have "ms = c" unfolding ms_def using False by (rule if_not_P)
    moreover have "max (last_seq c) ?bound = last_seq c" using False by (intro max_absorb1) (simp only: not_less)
    ultimately show ?thesis by (simp only: c[symmetric])
  qed
  have read: "(if last_seq c < ?bound
       then bindR (snapshot s sid (last_seq c) (Some ?bound)) (\<lambda>added. Inr (c @ added))
       else Inr c) = Inr ms"
    unfolding ms_def using snapshot_history[OF wf prev, of sid "Some ?bound"] by simp
  have "drop (bisect_seq ms after) (take (bisect_seq ms ?bound) ms)
      = filter (\<lambda>m. after < m_seq m \<and> m_seq m \<le> ?bound) ms"
    by (rule bisect_slice) (simp only: ms ascending_filter[OF asc])
  also have "\<dots> = filter (\<lambda>m. after < m_seq m \<and> m_seq m \<le> (case through of None \<Rightarrow> head_of s sid None | Some t \<Rightarrow> t)) ?h"
    unfolding ms filter_filter using history_le_head[OF wf, of _ sid]
    by (intro filter_cong) (auto simp: le_max_iff_disj split: option.splits)
  finally have slice: "drop (bisect_seq ms after) (take (bisect_seq ms ?bound) ms) = \<dots>" .
  have "inc_ok s sid version \<lparr>inc_messages = ms, inc_version = Some version\<rparr>"
    using cache_ok_filter[OF wf ms] by (simp add: inc_ok_def)
  moreover have "(if c = [] then - 1 else m_seq (last c)) = last_seq c"
    by (simp add: last_seq_def)
  ultimately show ?thesis
    using read slice ntx unfolding incremental_snapshot_def Let_def c_def[symmetric]
    by (simp only: if_False bindR_simps) auto
qed

lemma new_incremental_ok [simp]: "inc_ok s sid version new_incremental"
  by (simp add: inc_ok_def new_incremental_def)

text \<open>Between two reads the log may grow (in the same version) or change at will (in another).\<close>

lemma inc_ok_later:
  assumes "inc_ok s sid version inc" and "inc_version inc = Some version" and "wf_log t"
    and "version' = version \<longrightarrow> extends s t"
  shows "inc_ok t sid version' inc"
  using assms cache_ok_extends unfolding inc_ok_def by auto


section \<open>Pages of a well-formed log\<close>

definition refs_of :: "message_log \<Rightarrow> string \<Rightarrow> attachment_ref list" where
  "refs_of s mid = map (\<lambda>r. a_ref (the (find_attachment s (snd (snd r)))))
     (filter (\<lambda>r. fst r = mid) (message_attachments s))"

lemma ready_attachment:
  assumes "artifact_ready s i"
  shows "\<exists>row. find_attachment s i = Some row \<and> a_state row = ''ready'' \<and> row \<in> set (attachments s)"
  using assms by (auto simp: artifact_ready_def find_attachment_def split: option.splits dest: find_Some_iff')

lemma artifact_ref_ready: "a_state row = ''ready'' \<Longrightarrow> wf_attachment (a_ref row) \<Longrightarrow> artifact_ref row = Inr (a_ref row)"
  by (simp add: artifact_ref_def mk_AttachmentRef_iff Let_def)

lemma collect_refs_all:
  assumes "map (fst \<circ> snd) rows = [length refs..<length refs + length rows]"
    and "\<And>r. r \<in> set rows \<Longrightarrow> \<exists>row. find_attachment s (snd (snd r)) = Some row \<and> artifact_ref row = Inr (a_ref row)"
  shows "collect_refs s refs rows = Inr (refs @ map (\<lambda>r. a_ref (the (find_attachment s (snd (snd r))))) rows)"
  using assms
proof (induction rows arbitrary: refs)
  case (Cons r rows)
  obtain mid n art where r: "r = (mid, n, art)" by (cases r)
  obtain row where row: "find_attachment s art = Some row" "artifact_ref row = Inr (a_ref row)"
    using Cons.prems(2)[of r] by (auto simp: r)
  have n: "n = length refs" and rest: "map (fst \<circ> snd) rows = [Suc (length refs)..<length refs + length (r # rows)]"
    using Cons_upt[OF Cons.prems(1)[unfolded r list.map comp_apply fst_conv snd_conv, folded r]]
    by (simp_all only: comp_def)
  have "collect_refs s (refs @ [a_ref row]) rows
      = Inr ((refs @ [a_ref row]) @ map (\<lambda>r. a_ref (the (find_attachment s (snd (snd r))))) rows)"
    using rest Cons.prems(2) by (intro Cons.IH) (auto simp: comp_def)
  then show ?case using n row by (simp add: r)
qed simp

lemma message_refs_wf:
  assumes "wf_log s"
  shows "message_refs s mid = Inr (refs_of s mid)"
proof -
  let ?rows = "filter (\<lambda>r. fst r = mid) (message_attachments s)"
  obtain n where n: "map (fst \<circ> snd) ?rows = [0..<n]"
    using assms unfolding wf_log_def wf_references_def ordinals_of_def by blast
  then have "n = length ?rows" by (metis diff_zero length_map length_upt)
  moreover have "sort_key (fst \<circ> snd) ?rows = ?rows"
    by (intro sort_key_id_if_sorted) (simp only: n sorted_upt)
  moreover have "\<exists>row. find_attachment s (snd (snd r)) = Some row \<and> artifact_ref row = Inr (a_ref row)"
    if "r \<in> set ?rows" for r
  proof -
    have "artifact_ready s (snd (snd r))" using assms that by (auto simp: wf_log_def wf_references_def)
    then obtain row where row: "find_attachment s (snd (snd r)) = Some row" "a_state row = ''ready''" "row \<in> set (attachments s)"
      using ready_attachment by blast
    moreover have "wf_attachment (a_ref row)" using assms row(3) by (simp add: wf_log_def wf_references_def)
    ultimately show ?thesis using artifact_ref_ready by blast
  qed
  ultimately show ?thesis
    using collect_refs_all[of ?rows "[]" s] n by (simp add: message_refs_def refs_of_def)
qed

lemma binding_doc_wf:
  assumes "wf_log s" and "(mid, b) \<in> set (message_bindings s)"
  shows "\<exists>d. binding_doc s b = Inr d"
proof -
  have "b \<in> set (keys (bindings s))" using assms unfolding wf_log_def wf_references_def by fastforce
  then obtain d where d: "map_of (bindings s) b = Some d" by (cases "map_of (bindings s) b") (auto simp: map_of_eq_None_iff)
  then have "(b, d) \<in> set (bindings s)" by (rule map_of_SomeD)
  then show ?thesis using assms(1) d by (fastforce simp: binding_doc_def wf_log_def wf_references_def)
qed

lemma page_references_wf:
  assumes "wf_log s"
  shows "\<exists>binds. page_references s ms = Inr (map (\<lambda>m. (m_id m, refs_of s (m_id m))) ms, binds)"
proof -
  have "mapR (\<lambda>m. bindR (message_refs s (m_id m)) (\<lambda>refs. Inr (m_id m, refs))) ms
      = Inr (map (\<lambda>m. (m_id m, refs_of s (m_id m))) ms)"
    by (rule mapR_Inr_map) (simp add: message_refs_wf[OF assms])
  moreover have "\<exists>binds. mapR (\<lambda>b. bindR (binding_doc s b) (\<lambda>d. Inr (b, d)))
       (sort (remdups (map snd (filter (\<lambda>p. fst p \<in> set (map m_id ms)) (message_bindings s))))) = Inr binds"
  proof (rule mapR_total)
    fix b assume "b \<in> set (sort (remdups (map snd (filter (\<lambda>p. fst p \<in> set (map m_id ms)) (message_bindings s)))))"
    then obtain mid where "(mid, b) \<in> set (message_bindings s)" by auto
    then obtain d where "binding_doc s b = Inr d" using binding_doc_wf[OF assms] by blast
    then show "\<exists>y. bindR (binding_doc s b) (\<lambda>d. Inr (b, d)) = Inr y" by simp
  qed
  ultimately show ?thesis by (auto simp: page_references_def)
qed

lemma page_rows:
  assumes "wf_log s"
  shows "map (\<lambda>r. projr (message_of s r)) (filter (\<lambda>r. r_seq r < before) (rows_between s sid after (Some through) None))
     = filter (\<lambda>m. after < m_seq m \<and> m_seq m \<le> through \<and> m_seq m < before) (session_history s sid)"
  unfolding rows_between_eq[OF assms] filter_filter session_history_def filter_map comp_def
  by (intro arg_cong[of _ _ "map _"] filter_cong) (auto simp: session_rows_def row_seq[OF assms])

lemma page_wf:
  fixes s sid after before_seq through_seq limit tail
  defines "through \<equiv> (case through_seq of None \<Rightarrow> head_of s sid None | Some t \<Rightarrow> t)"
  defines "before \<equiv> (case before_seq of None \<Rightarrow> through + 1 | Some b \<Rightarrow> b)"
  defines "span \<equiv> filter (\<lambda>m. after < m_seq m \<and> m_seq m < before) (session_history s sid)"
  assumes wf: "wf_log s" and admitted: "find_session s sid \<noteq> None"
    and limit: "1 \<le> limit" "limit \<le> 200" and after: "- 1 \<le> after" "after \<le> through"
    and through: "- 1 \<le> through" "through \<le> head_of s sid None" and before: "0 \<le> before" "before \<le> through + 1"
  shows "\<exists>p. page s sid after before_seq through_seq limit tail = Inr p \<and> page_through p = through
     \<and> page_more p = (nat limit < length span)
     \<and> page_messages p = (if tail then drop (length span - nat limit) span else take (nat limit) span)
     \<and> page_attachments p = map (\<lambda>m. (m_id m, refs_of s (m_id m))) (page_messages p)"
proof -
  let ?found = "filter (\<lambda>r. r_seq r < before) (rows_between s sid after (Some through) None)"
  let ?rows = "take (nat limit + 1) (if tail then rev ?found else ?found)"
  let ?cut = "take (nat limit) ?rows"
  let ?sel = "if tail then rev ?cut else ?cut"
  let ?d = "\<lambda>r. projr (message_of s r)"
  have "filter (\<lambda>m. after < m_seq m \<and> m_seq m \<le> through \<and> m_seq m < before) (session_history s sid) = span"
    unfolding span_def using before(2) by (intro filter_cong) auto
  then have found: "map ?d ?found = span" using page_rows[OF wf] by simp
  then have len: "length ?found = length span" by (metis length_map)
  have sel: "map ?d ?sel = (if tail then drop (length span - nat limit) span else take (nat limit) span)"
  proof (cases tail)
    case True
    then have "map ?d ?sel = rev (take (nat limit) (rev (map ?d ?found)))"
      by (simp add: take_map rev_map)
    then show ?thesis using True unfolding found by (simp add: take_rev)
  next
    case False
    then have "map ?d ?sel = take (nat limit) (map ?d ?found)" by (simp add: take_map)
    then show ?thesis using False unfolding found by simp
  qed
  have "set ?sel \<subseteq> set (messages s)"
    by (auto simp: rows_between_def dest!: in_set_takeD split: if_splits)
  then have dec: "mapR (message_of s) ?sel = Inr (map ?d ?sel)" by (rule decode_rows[OF wf])
  obtain binds where refs: "page_references s (map ?d ?sel)
      = Inr (map (\<lambda>m. (m_id m, refs_of s (m_id m))) (map ?d ?sel), binds)"
    using page_references_wf[OF wf] by blast
  have ok: "\<not> (\<not> (1 \<le> limit \<and> limit \<le> 200) \<or> after < - 1 \<or> (case before_seq of None \<Rightarrow> False | Some b \<Rightarrow> b < 0))"
    using limit after before(1) by (auto simp: before_def split: option.splits)
  have c1: "\<not> (\<not> (- 1 \<le> through \<and> through \<le> head_of s sid None) \<or> through < after)" and c2: "\<not> through + 1 < before"
    using through after(2) before(2) by auto
  obtain row where row: "find_session s sid = Some row" using admitted by blast
  have "page s sid after before_seq through_seq limit tail = Inr
     \<lparr>page_messages = map ?d ?sel, page_attachments = map (\<lambda>m. (m_id m, refs_of s (m_id m))) (map ?d ?sel),
      page_bindings = binds, page_through = through, page_more = (nat limit < length ?rows)\<rparr>"
    by (simp only: page_def if_not_P[OF ok] row option.case Let_def through_def[symmetric]
        before_def[symmetric] if_not_P[OF c1] if_not_P[OF c2] dec bindR_simps refs prod.case)
  moreover have "(nat limit < length ?rows) = (nat limit < length span)"
    using len by (simp split: if_splits)
  ultimately show ?thesis using sel by auto
qed


section \<open>Following a session\<close>

text \<open>
  \<open>MessageReader.follow\<close> as a machine. It subscribes an event before it reads; each round clears the event, reads
  a page under the lock, yields its messages, and waits for the event only when the page was empty. A commit by any
  thread, and closing the log, schedule the setting of the event (\<open>fl_ring\<close>) under the same lock; the loop of the follower sets it
  later, never in the middle of a round. Between clearing the event and taking the lock another thread may commit.
  \<open>fo_seen\<close> is what the generator has yielded.
\<close>

datatype follow_pc = Clearing | Fetching | Handing "message list" | Dozing | Stopped | Crashed py_error

record follower =
  fo_pc :: follow_pc
  fo_after :: int
  fo_event :: bool
  fo_seen :: "message list"

definition follow_begin :: "bool \<Rightarrow> int \<Rightarrow> follower" where
  "follow_begin closed after = \<lparr>fo_pc = (if closed then Stopped else Clearing), fo_after = after, fo_event = False, fo_seen = []\<rparr>"

definition follow_go :: "string \<Rightarrow> message_log \<Rightarrow> bool \<Rightarrow> follower \<Rightarrow> follower" where
  "follow_go sid s closed f = (case fo_pc f of
     Clearing \<Rightarrow> f\<lparr>fo_event := False, fo_pc := Fetching\<rparr>
   | Fetching \<Rightarrow>
       (if closed then f\<lparr>fo_pc := Stopped\<rparr>
        else case read_range s sid (fo_after f) None None 1000 of
            Inl e \<Rightarrow> f\<lparr>fo_pc := Crashed e\<rparr>
          | Inr ms \<Rightarrow> f\<lparr>fo_pc := (if ms = [] then Dozing else Handing ms)\<rparr>)
   | Dozing \<Rightarrow> (if fo_event f then f\<lparr>fo_pc := Clearing\<rparr> else f)
   | Handing ms \<Rightarrow> (case ms of
         [] \<Rightarrow> f\<lparr>fo_pc := Clearing\<rparr>
       | m # rest \<Rightarrow> f\<lparr>fo_after := m_seq m, fo_seen := fo_seen f @ [m], fo_pc := (if rest = [] then Clearing else Handing rest)\<rparr>)
   | _ \<Rightarrow> f)"

record follow_world =
  fl_log :: message_log
  fl_closed :: bool
  fl_ring :: bool
  fl_me :: follower

definition follow_start :: "message_log \<Rightarrow> bool \<Rightarrow> int \<Rightarrow> follow_world" where
  "follow_start s closed after = \<lparr>fl_log = s, fl_closed = closed, fl_ring = False, fl_me = follow_begin closed after\<rparr>"

text \<open>The steps of the follower's own loop, and those of the rest of the program.\<close>

inductive follow_own :: "string \<Rightarrow> follow_world \<Rightarrow> follow_world \<Rightarrow> bool" for sid where
  goes: "follow_own sid w (w\<lparr>fl_me := follow_go sid (fl_log w) (fl_closed w) (fl_me w)\<rparr>)"
| rings: "fl_ring w \<Longrightarrow> fo_pc (fl_me w) \<noteq> Fetching \<Longrightarrow> follow_own sid w (w\<lparr>fl_ring := False, fl_me := (fl_me w)\<lparr>fo_event := True\<rparr>\<rparr>)"

inductive follow_other :: "follow_world \<Rightarrow> follow_world \<Rightarrow> bool" where
  commits: "\<not> fl_closed w \<Longrightarrow> wf_log t \<Longrightarrow> extends (fl_log w) t \<Longrightarrow> follow_other w (w\<lparr>fl_log := t, fl_ring := True\<rparr>)"
| closes: "follow_other w (w\<lparr>fl_closed := True, fl_ring := True\<rparr>)"

definition follow_step :: "string \<Rightarrow> follow_world \<Rightarrow> follow_world \<Rightarrow> bool" where
  "follow_step sid w v \<longleftrightarrow> follow_own sid w v \<or> follow_other w v"

text \<open>A follower at rest: none of its own steps changes anything.\<close>

definition follow_rests :: "string \<Rightarrow> follow_world \<Rightarrow> bool" where
  "follow_rests sid w \<longleftrightarrow> (\<forall>v. follow_own sid w v \<longrightarrow> v = w)"

definition follow_due :: "string \<Rightarrow> int \<Rightarrow> follow_world \<Rightarrow> message list" where
  "follow_due sid after w = filter (\<lambda>m. after < m_seq m) (session_history (fl_log w) sid)"

fun follow_buffer :: "follow_pc \<Rightarrow> message list" where
  "follow_buffer (Handing ms) = ms"
| "follow_buffer _ = []"

definition leads :: "'a list \<Rightarrow> 'a list \<Rightarrow> bool" where
  "leads xs ys \<longleftrightarrow> (\<exists>rest. ys = xs @ rest)"

definition follow_ok :: "string \<Rightarrow> int \<Rightarrow> follow_world \<Rightarrow> bool" where
  "follow_ok sid after w \<longleftrightarrow> (let f = fl_me w; got = fo_seen f @ follow_buffer (fo_pc f) in
     wf_log (fl_log w) \<and> leads got (follow_due sid after w)
     \<and> fo_after f = (if fo_seen f = [] then after else m_seq (last (fo_seen f)))
     \<and> (fo_pc f = Fetching \<longrightarrow> \<not> fo_event f) \<and> (fo_pc f = Stopped \<longrightarrow> fl_closed w) \<and> fo_pc f \<noteq> Handing [] \<and> (\<forall>e. fo_pc f \<noteq> Crashed e)
     \<and> (fo_pc f = Dozing \<and> \<not> fo_event f \<and> \<not> fl_ring w \<longrightarrow> \<not> fl_closed w \<and> fo_seen f = follow_due sid after w))"

lemma leads_whole: "leads xs ys \<Longrightarrow> drop (length xs) ys = [] \<Longrightarrow> xs = ys"
  by (auto simp: leads_def)

lemma leads_more: "leads xs ys \<Longrightarrow> leads (xs @ take n (drop (length xs) ys)) ys"
  by (auto simp: leads_def) (metis append_take_drop_id)

lemma leads_init: "leads (xs @ zs) ys \<Longrightarrow> leads xs ys"
  by (auto simp: leads_def)

lemma leads_in: "leads xs ys \<Longrightarrow> x \<in> set xs \<Longrightarrow> x \<in> set ys"
  by (auto simp: leads_def)

lemma due_grows:
  assumes "extends s t" "leads ms (filter P (session_history s sid))"
  shows "leads ms (filter P (session_history t sid))"
  using extends_history[OF assms(1), of sid] assms(2) by (auto simp: leads_def)

lemma follow_left:
  assumes "wf_log s" and "leads seen (filter (\<lambda>m. after < m_seq m) (session_history s sid))"
  shows "filter (\<lambda>m. (if seen = [] then after else m_seq (last seen)) < m_seq m) (session_history s sid)
      = drop (length seen) (filter (\<lambda>m. after < m_seq m) (session_history s sid))"
proof (cases "seen = []")
  case False
  let ?H = "filter (\<lambda>m. after < m_seq m) (session_history s sid)" and ?a = "m_seq (last seen)"
  have lt: "after < ?a" using leads_in[OF assms(2), of "last seen"] False by simp
  have seen: "take (length seen) ?H = seen" "?H \<noteq> []" using assms(2) False by (auto simp: leads_def)
  have "filter (\<lambda>m. m_seq (last (take (length seen) ?H)) < m_seq m) ?H = drop (length seen) ?H"
    using False seen(2) by (intro filter_after_page[OF ascending_filter[OF session_history_ascending[OF assms(1)]]]) simp_all
  then have "filter (\<lambda>m. ?a < m_seq m) ?H = drop (length seen) ?H" unfolding seen(1) .
  moreover have "filter (\<lambda>m. ?a < m_seq m) ?H = filter (\<lambda>m. ?a < m_seq m) (session_history s sid)"
    using lt unfolding filter_filter by (intro filter_cong) auto
  ultimately show ?thesis using False by simp
qed simp

lemma follow_page:
  assumes "follow_ok sid after w" "- 1 \<le> after" "follow_buffer (fo_pc (fl_me w)) = []"
  shows "read_range (fl_log w) sid (fo_after (fl_me w)) None None 1000 = Inr (take 1000 (drop (length (fo_seen (fl_me w))) (follow_due sid after w)))"
proof -
  let ?f = "fl_me w"
  have ok: "wf_log (fl_log w)" "leads (fo_seen ?f) (follow_due sid after w)"
    "fo_after ?f = (if fo_seen ?f = [] then after else m_seq (last (fo_seen ?f)))"
    using assms(1,3) by (simp_all add: follow_ok_def Let_def)
  have up: "- 1 \<le> fo_after ?f"
  proof (cases "fo_seen ?f = []")
    case False
    then have "last (fo_seen ?f) \<in> set (follow_due sid after w)" using leads_in[OF ok(2)] by simp
    then show ?thesis using False ok(3) assms(2) by (simp add: follow_due_def)
  qed (use ok(3) assms(2) in simp)
  have "filter (\<lambda>m. fo_after ?f < m_seq m) (session_history (fl_log w) sid) = drop (length (fo_seen ?f)) (follow_due sid after w)"
    using follow_left[OF ok(1) ok(2)[unfolded follow_due_def]] unfolding ok(3) follow_due_def .
  then show ?thesis using read_range_history[OF ok(1), of 1000 "fo_after ?f" sid None None] up by simp
qed

lemma follow_go_ok:
  assumes "follow_ok sid after w" "- 1 \<le> after"
  shows "follow_ok sid after (w\<lparr>fl_me := follow_go sid (fl_log w) (fl_closed w) (fl_me w)\<rparr>)"
proof (cases "fo_pc (fl_me w)")
  case Fetching
  let ?H = "follow_due sid after w" and ?n = "length (fo_seen (fl_me w))"
  have r: "read_range (fl_log w) sid (fo_after (fl_me w)) None None 1000 = Inr (take 1000 (drop ?n ?H))"
    using follow_page[OF assms] Fetching by simp
  have seen: "leads (fo_seen (fl_me w)) ?H" using assms(1) Fetching by (simp add: follow_ok_def Let_def)
  note more = leads_more[OF seen, of 1000] and all = leads_whole[OF seen]
  have base: "wf_log (fl_log w)" "fo_after (fl_me w) = (if fo_seen (fl_me w) = [] then after else m_seq (last (fo_seen (fl_me w))))"
    "\<not> fo_event (fl_me w)"
    using assms(1) Fetching by (simp_all add: follow_ok_def Let_def)
  have due: "follow_due sid after (w\<lparr>fl_me := x\<rparr>) = ?H" for x by (simp add: follow_due_def)
  show ?thesis
  proof (cases "fl_closed w")
    case True
    then show ?thesis using base seen Fetching unfolding follow_ok_def due by (simp add: follow_go_def)
  next
    case False
    then have "follow_go sid (fl_log w) (fl_closed w) (fl_me w)
        = (fl_me w)\<lparr>fo_pc := (if take 1000 (drop ?n ?H) = [] then Dozing else Handing (take 1000 (drop ?n ?H)))\<rparr>"
      using Fetching r by (simp add: follow_go_def)
    then show ?thesis using False base seen more all unfolding follow_ok_def due Let_def by (cases "drop ?n ?H = []") simp_all
  qed
next
  case (Handing ms)
  then obtain m rest where "ms = m # rest" using assms(1) by (cases ms) (simp_all add: follow_ok_def Let_def)
  then show ?thesis using assms(1) Handing by (auto simp: follow_go_def follow_ok_def Let_def follow_due_def)
qed (use assms in \<open>auto simp: follow_go_def follow_ok_def Let_def follow_due_def\<close>)

lemma follow_other_ok:
  assumes "follow_other w v" "follow_ok sid after w"
  shows "follow_ok sid after v"
  using assms
proof cases
  case (commits t)
  let ?got = "fo_seen (fl_me w) @ follow_buffer (fo_pc (fl_me w))"
  have "leads ?got (follow_due sid after w)" using assms(2) by (simp add: follow_ok_def Let_def)
  then have "leads ?got (follow_due sid after v)"
    using due_grows[OF commits(4)] unfolding follow_due_def commits(1) by simp
  then show ?thesis using assms(2) commits unfolding follow_ok_def Let_def by simp
qed (auto simp: follow_ok_def Let_def follow_due_def)

lemma follow_step_ok:
  assumes "follow_step sid w v" "follow_ok sid after w" "- 1 \<le> after"
  shows "follow_ok sid after v"
  using assms(1) unfolding follow_step_def
proof
  assume "follow_own sid w v"
  then show ?thesis
  proof cases
    case goes
    then show ?thesis using follow_go_ok[OF assms(2,3)] by simp
  next
    case rings
    then show ?thesis using assms(2) by (auto simp: follow_ok_def Let_def follow_due_def)
  qed
qed (rule follow_other_ok[OF _ assms(2)])

lemma follow_reach_ok:
  assumes "(follow_step sid)\<^sup>*\<^sup>* (follow_start s closed after) w" "wf_log s" "- 1 \<le> after"
  shows "follow_ok sid after w"
  using assms(1)
proof (induction rule: rtranclp_induct)
  case base
  then show ?case using assms(2) by (simp add: follow_start_def follow_begin_def follow_ok_def follow_due_def leads_def)
qed (rule follow_step_ok[OF _ _ assms(3)])

text \<open>A follower at rest has nothing left to yield; and it comes to rest: each step of its own uses up a message, a wake-up,
  or a stage of the round.\<close>

lemma follow_at_rest:
  assumes "follow_rests sid w" "follow_ok sid after w"
  shows "if fl_closed w then fo_pc (fl_me w) = Stopped else fo_seen (fl_me w) = follow_due sid after w"
proof -
  have go: "follow_go sid (fl_log w) (fl_closed w) (fl_me w) = fl_me w"
  proof -
    have "w\<lparr>fl_me := follow_go sid (fl_log w) (fl_closed w) (fl_me w)\<rparr> = w" using assms(1) goes unfolding follow_rests_def by blast
    then have "fl_me (w\<lparr>fl_me := follow_go sid (fl_log w) (fl_closed w) (fl_me w)\<rparr>) = fl_me w" by (rule arg_cong)
    then show ?thesis by simp
  qed
  have ring: "fo_pc (fl_me w) \<noteq> Fetching \<Longrightarrow> \<not> fl_ring w"
  proof
    assume "fo_pc (fl_me w) \<noteq> Fetching" "fl_ring w"
    then have "w\<lparr>fl_ring := False, fl_me := (fl_me w)\<lparr>fo_event := True\<rparr>\<rparr> = w" using assms(1) rings unfolding follow_rests_def by blast
    from arg_cong[OF this, of fl_ring] show False using \<open>fl_ring w\<close> by simp
  qed
  show ?thesis
  proof (cases "fo_pc (fl_me w)")
    case Dozing
    have "\<not> fo_event (fl_me w)"
    proof
      assume "fo_event (fl_me w)"
      then have "fo_pc (follow_go sid (fl_log w) (fl_closed w) (fl_me w)) = Clearing" using Dozing by (simp add: follow_go_def)
      then show False using go Dozing by simp
    qed
    then show ?thesis using Dozing ring assms(2) by (auto simp: follow_ok_def Let_def)
  next
    case Clearing
    then have "fo_pc (follow_go sid (fl_log w) (fl_closed w) (fl_me w)) = Fetching" by (simp add: follow_go_def)
    then show ?thesis using go Clearing by simp
  next
    case Fetching
    then have "fo_pc (follow_go sid (fl_log w) (fl_closed w) (fl_me w)) \<noteq> Fetching" by (simp add: follow_go_def split: sum.split)
    then show ?thesis using go Fetching by simp
  next
    case (Handing ms)
    then have "fo_pc (follow_go sid (fl_log w) (fl_closed w) (fl_me w)) \<noteq> Handing ms" by (auto simp: follow_go_def split: list.split)
    then show ?thesis using go Handing by simp
  next
    case Stopped
    then show ?thesis using assms(2) by (simp add: follow_ok_def Let_def)
  next
    case (Crashed e)
    then show ?thesis using assms(2) by (simp add: follow_ok_def Let_def)
  qed
qed

fun stage :: "bool \<Rightarrow> follow_pc \<Rightarrow> nat" where
  "stage event Dozing = (if event then 4 else 0)"
| "stage event Clearing = 3"
| "stage event Fetching = 2"
| "stage event (Handing ms) = 1"
| "stage event _ = 0"

definition follow_rank :: "string \<Rightarrow> int \<Rightarrow> follow_world \<Rightarrow> nat \<times> nat \<times> nat" where
  "follow_rank sid after w = (length (follow_due sid after w) - length (fo_seen (fl_me w)), if fl_ring w then 1 else 0,
     stage (fo_event (fl_me w)) (fo_pc (fl_me w)))"

lemma follow_falls:
  assumes "follow_own sid w v" "v \<noteq> w" "follow_ok sid after w"
  shows "(follow_rank sid after v, follow_rank sid after w) \<in> less_than <*lex*> less_than <*lex*> less_than"
  using assms(1)
proof cases
  case goes
  show ?thesis
  proof (cases "fo_pc (fl_me w)")
    case (Handing ms)
    then obtain m rest where ms: "ms = m # rest" using assms(3) by (cases ms) (simp_all add: follow_ok_def Let_def)
    have "length (fo_seen (fl_me w)) < length (follow_due sid after w)"
      using assms(3) Handing ms by (auto simp: follow_ok_def Let_def leads_def)
    then show ?thesis using goes Handing ms by (simp add: follow_rank_def follow_go_def follow_due_def)
  next
    case Dozing
    then have "fo_event (fl_me w)" using goes assms(2) by (cases w) (auto simp: follow_go_def split: if_splits)
    then show ?thesis using goes Dozing by (simp add: follow_rank_def follow_go_def follow_due_def)
  next
    case Fetching
    then have "\<not> fo_event (fl_me w)" using assms(3) by (simp add: follow_ok_def Let_def)
    then show ?thesis using goes Fetching by (auto simp: follow_rank_def follow_go_def follow_due_def split: sum.split)
  qed (use goes assms(2,3) in \<open>simp_all add: follow_rank_def follow_go_def follow_due_def follow_ok_def Let_def\<close>)
next
  case rings
  then show ?thesis by (simp add: follow_rank_def follow_due_def)
qed

section \<open>The catalog\<close>

definition snapshot_heads :: "message_log \<Rightarrow> (string \<times> int) list" where
  "snapshot_heads s = map (\<lambda>k. (k, head_of s k None)) (sort (map s_key (sessions s)))"

definition snapshot_attributes :: "message_log \<Rightarrow> (string \<times> session_attributes) list res" where
  "snapshot_attributes s =
     mapR (\<lambda>r. bindR (decode_attributes (s_attributes r)) (\<lambda>a. Inr (s_key r, a))) (sort_key s_key (sessions s))"

record session_entry =
  e_session :: string
  e_created :: pytime
  e_updated :: pytime
  e_attributes :: session_attributes
  e_metadata :: "json_object option"
  e_head :: int
  e_count :: nat
  e_first :: "message option"

record session_page =
  sp_items :: "session_entry list"
  sp_total :: nat
  sp_cursor :: "(pytime \<times> string) option"

text \<open>\<open>_timestamp\<close>: a time without a zone is refused.\<close>

definition timestamp :: "pytime \<Rightarrow> pytime res" where
  "timestamp t = (if is_aware t then Inr t else Inl ValueError)"

definition session_entry :: "message_log \<Rightarrow> session_row \<Rightarrow> session_entry res" where
  "session_entry s r =
     (let rows = sort_key r_seq (session_rows s (s_key r)) in
      bindR (case rows of [] \<Rightarrow> Inr None | row # _ \<Rightarrow> bindR (message_of s row) (\<lambda>m. Inr (Some m))) (\<lambda>first.
      bindR (timestamp (s_created r)) (\<lambda>created.
      bindR (timestamp (s_updated r)) (\<lambda>updated.
      bindR (decode_attributes (s_attributes r)) (\<lambda>attrs.
      bindR (case s_metadata r of None \<Rightarrow> Inr None | Some d \<Rightarrow> bindR (json_object_of d) (\<lambda>m. Inr (Some m))) (\<lambda>md.
        Inr \<lparr>e_session = s_key r, e_created = created, e_updated = updated, e_attributes = attrs,
             e_metadata = md, e_head = head_of s (s_key r) None, e_count = length rows, e_first = first\<rparr>))))))"

text \<open>
  The directory, most recently active first. \<open>jd\<close> is SQLite's \<open>julianday\<close> of a stored time; a cursor
  whose text is no time is \<open>None\<close> in its first place.
\<close>

definition catalog_filter :: "string \<Rightarrow> visibility option \<Rightarrow> session_row \<Rightarrow> bool" where
  "catalog_filter pre vis r =
     (take (length pre) (s_key r) = pre
      \<and> (case vis of None \<Rightarrow> True
          | Some v \<Rightarrow> json_get ''visibility'' (s_attributes r) = JStr (visibility_name v)))"

definition catalog_after :: "(pytime \<Rightarrow> int) \<Rightarrow> pytime \<times> string \<Rightarrow> session_row \<Rightarrow> bool" where
  "catalog_after jd c r =
     (jd (s_updated r) < jd (fst c) \<or> (jd (s_updated r) = jd (fst c) \<and> snd c < s_key r))"

definition catalog_rows :: "(pytime \<Rightarrow> int) \<Rightarrow> message_log \<Rightarrow> string \<Rightarrow> visibility option \<Rightarrow> session_row list" where
  "catalog_rows jd s pre vis =
     sort_key (\<lambda>r. - jd (s_updated r)) (sort_key s_key (filter (catalog_filter pre vis) (sessions s)))"

definition catalog_cursor :: "(pytime option \<times> string) option \<Rightarrow> (pytime \<times> string) option res" where
  "catalog_cursor after =
     (case after of
        None \<Rightarrow> Inr None
      | Some (None, k) \<Rightarrow> Inl InvalidPage
      | Some (Some t, k) \<Rightarrow> (if is_aware t then Inr (Some (t, k)) else Inl InvalidPage))"

definition catalog_sessions ::
  "(pytime \<Rightarrow> int) \<Rightarrow> message_log \<Rightarrow> string \<Rightarrow> visibility option \<Rightarrow> (pytime option \<times> string) option \<Rightarrow> int
     \<Rightarrow> session_page res" where
  "catalog_sessions jd s pre vis after limit =
     (if \<not> (1 \<le> limit \<and> limit \<le> 200) then Inl InvalidPage
      else bindR (catalog_cursor after) (\<lambda>c.
        let ordered = catalog_rows jd s pre vis;
            rows = take (nat limit + 1)
              (case c of None \<Rightarrow> ordered | Some c \<Rightarrow> filter (catalog_after jd c) ordered) in
        bindR (mapR (session_entry s) (take (nat limit) rows)) (\<lambda>entries.
          Inr \<lparr>sp_items = entries, sp_total = length ordered,
               sp_cursor = (if nat limit < length rows
                            then Some (e_updated (last entries), e_session (last entries)) else None)\<rparr>)))"

text \<open>Every session of a well-formed log has an entry, and its head is its last message.\<close>

definition times_aware :: "message_log \<Rightarrow> bool" where
  "times_aware s \<longleftrightarrow> (\<forall>r \<in> set (sessions s). is_aware (s_created r) \<and> is_aware (s_updated r))"

lemma session_entry_wf:
  assumes wf: "wf_log s" and "times_aware s" and r: "r \<in> set (sessions s)"
  shows "\<exists>e. session_entry s r = Inr e \<and> e_session e = s_key r \<and> e_updated e = s_updated r
     \<and> e_head e = head_of s (s_key r) None \<and> e_count e = length (session_history s (s_key r))
     \<and> e_first e = (case session_history s (s_key r) of [] \<Rightarrow> None | m # _ \<Rightarrow> Some m)"
proof -
  let ?rows = "session_rows s (s_key r)"
  have sorted: "sort_key r_seq ?rows = ?rows" by (rule ascending_sorted[OF session_rows_ascending[OF wf]])
  have rows: "set ?rows \<subseteq> set (messages s)" by (auto simp: session_rows_def)
  have first: "(case ?rows of [] \<Rightarrow> Inr None | row # _ \<Rightarrow> bindR (message_of s row) (\<lambda>m. Inr (Some m)))
      = Inr (case session_history s (s_key r) of [] \<Rightarrow> None | m # _ \<Rightarrow> Some m)"
  proof (cases ?rows)
    case (Cons row rest)
    then have "message_of s row = Inr (projr (message_of s row))" using row_message[OF wf] rows by auto
    then show ?thesis using Cons by (metis (no_types, lifting) bindR_simps(2) list.simps(5,9) session_history_def)
  qed (simp add: session_history_def)
  obtain a where a: "decode_attributes (s_attributes r) = Inr a"
    using wf r by (auto simp: wf_log_def wf_sessions_def)
  have "metadata_ok r" using wf r by (auto simp: wf_log_def wf_sessions_def)
  then obtain md where md: "(case s_metadata r of None \<Rightarrow> Inr None | Some d \<Rightarrow> bindR (json_object_of d) (\<lambda>m. Inr (Some m))) = Inr md"
    by (auto simp: metadata_ok_def split: option.splits)
  have t: "timestamp (s_created r) = Inr (s_created r)" "timestamp (s_updated r) = Inr (s_updated r)"
    using assms(2) r by (simp_all add: timestamp_def times_aware_def)
  show ?thesis
    unfolding session_entry_def Let_def sorted first bindR_simps t a md
    by (simp add: session_history_def)
qed

definition catalog_less :: "(pytime \<Rightarrow> int) \<Rightarrow> session_row \<Rightarrow> session_row \<Rightarrow> bool" where
  "catalog_less jd a b = catalog_after jd (s_updated a, s_key a) b"

lemma sorted_wrt_both: "sorted_wrt P xs \<Longrightarrow> sorted_wrt Q xs \<Longrightarrow> sorted_wrt (\<lambda>a b. P a b \<and> Q a b) xs"
  by (induction xs) auto

lemma catalog_rows_sorted:
  assumes "wf_sessions s"
  shows "sorted_wrt (catalog_less jd) (catalog_rows jd s pre vis)"
proof -
  let ?rows = "catalog_rows jd s pre vis"
  have lex: "sorted_wrt (\<lambda>a b. - jd (s_updated a) < - jd (s_updated b)
      \<or> (- jd (s_updated a) = - jd (s_updated b) \<and> s_key a \<le> s_key b)) ?rows"
    unfolding catalog_rows_def by (rule sort_lex)
  have "distinct (map s_key (filter (catalog_filter pre vis) (sessions s)))"
    using assms by (simp add: wf_sessions_def distinct_map_filter)
  then have "distinct (map s_key ?rows)" by (simp add: catalog_rows_def distinct_map)
  then have "sorted_wrt (\<lambda>a b. s_key a \<noteq> s_key b) ?rows"
    by (simp add: distinct_conv_nth sorted_wrt_iff_nth_less)
  from sorted_wrt_both[OF lex this] show ?thesis
    by (rule sorted_wrt_mono_rel[rotated]) (auto simp: catalog_less_def catalog_after_def)
qed

text \<open>A page of the directory, and the page its cursor asks for next.\<close>

lemma catalog_page:
  assumes wf: "wf_log s" and t: "times_aware s" and limit: "1 \<le> limit" "limit \<le> 200"
    and c: "catalog_cursor after = Inr c"
    and rows: "rows = (case c of None \<Rightarrow> catalog_rows jd s pre vis
                       | Some c \<Rightarrow> filter (catalog_after jd c) (catalog_rows jd s pre vis))"
  shows "\<exists>p. catalog_sessions jd s pre vis after limit = Inr p
    \<and> map e_session (sp_items p) = map s_key (take (nat limit) rows)
    \<and> sp_total p = length (catalog_rows jd s pre vis)
    \<and> (sp_cursor p = None \<longleftrightarrow> length rows \<le> nat limit)
    \<and> (\<forall>c'. sp_cursor p = Some c' \<longrightarrow> catalog_cursor (Some (Some (fst c'), snd c')) = Inr (Some c')
          \<and> catalog_after jd c' = catalog_less jd (last (take (nat limit) rows)))"
proof -
  let ?take = "take (nat limit) rows"
  have sub: "set rows \<subseteq> set (sessions s)" unfolding rows catalog_rows_def by (auto split: option.splits)
  then have each: "\<exists>e. session_entry s r = Inr e \<and> e_session e = s_key r \<and> e_updated e = s_updated r"
    if "r \<in> set rows" for r using session_entry_wf[OF wf t, of r] that by blast
  let ?e = "\<lambda>r. projr (session_entry s r)"
  have es: "mapR (session_entry s) ?take = Inr (map ?e ?take)"
    using each by (intro mapR_Inr_map) (metis in_set_takeD sum.sel(2))
  have e: "e_session (?e r) = s_key r \<and> e_updated (?e r) = s_updated r" if "r \<in> set ?take" for r
    using each[OF in_set_takeD[OF that]] by auto
  then have ids: "map e_session (map ?e ?take) = map s_key ?take" by (simp del: take_map)
  let ?more = "nat limit < length (take (nat limit + 1) rows)"
  let ?p = "\<lparr>sp_items = map ?e ?take, sp_total = length (catalog_rows jd s pre vis),
     sp_cursor = (if ?more then Some (e_updated (last (map ?e ?take)), e_session (last (map ?e ?take))) else None)\<rparr>"
  have page: "catalog_sessions jd s pre vis after limit = Inr ?p"
    using limit es unfolding catalog_sessions_def c bindR_simps Let_def rows[symmetric]
    by (simp add: take_take min_def)
  have ne: "take (nat limit) rows \<noteq> []" if ?more using that limit by auto
  have last: "last (map ?e ?take) = ?e (last ?take)" "last ?take \<in> set ?take" if ?more
    using ne[OF that] by (simp_all only: last_map last_in_set not_False_eq_True)
  have aware: "is_aware (s_updated (last ?take))" if ?more
    using t sub in_set_takeD[OF last(2)[OF that]] by (auto simp: times_aware_def)
  show ?thesis
    using page ids last e aware
    by (intro exI[of _ ?p]) (auto simp: catalog_cursor_def catalog_less_def simp del: take_map)
qed

lemma catalog_less_trans: "catalog_after jd c a \<Longrightarrow> catalog_less jd a b \<Longrightarrow> catalog_after jd c b"
  by (auto simp: catalog_after_def catalog_less_def)

lemma catalog_next:
  assumes wf: "wf_sessions s" and n: "0 < n"
    and rows: "rows = (case c of None \<Rightarrow> catalog_rows jd s pre vis
                       | Some c \<Rightarrow> filter (catalog_after jd c) (catalog_rows jd s pre vis))"
    and "rows \<noteq> []"
  shows "filter (catalog_less jd (last (take n rows))) (catalog_rows jd s pre vis) = drop n rows"
proof -
  let ?all = "catalog_rows jd s pre vis"
  let ?l = "last (take n rows)"
  have sorted: "sorted_wrt (catalog_less jd) rows"
    unfolding rows using catalog_rows_sorted[OF wf] by (auto intro: sorted_wrt_filter' split: option.splits)
  have l: "?l \<in> set rows" using assms(4) n by (metis in_set_takeD last_in_set take_eq_Nil neq0_conv)
  have "filter (catalog_less jd ?l) ?all = filter (catalog_less jd ?l) rows"
  proof (cases c)
    case (Some c')
    then have "catalog_after jd c' ?l" using l by (simp add: rows)
    then show ?thesis unfolding rows Some by (auto intro: catalog_less_trans intro!: filter_cong)
  qed (simp add: rows)
  also have "\<dots> = drop n rows"
    using n assms(4) by (intro filter_after_take[OF sorted]) (auto simp: catalog_less_def catalog_after_def)
  finally show ?thesis .
qed

end
