(* ===== verification/Sample_Log.thy ===== *)
theory Sample_Log
  imports Message_Reader
begin

text \<open>
  One short conversation, run through the operations of the log: a binding is archived, a user
  says hello, the program calls the bound tool, the tool answers. The properties of the log are
  applied to it.
\<close>

definition user_writer :: writer where
  "user_writer = \<lparr>w_session = ''s'', w_author = ''user'', w_source = ''chat'', w_types = [InputType],
     w_content = [(''text'', \<lambda>p. Inr (Some \<lparr>ref_binding_ids = [], ref_artifact_ids = []\<rparr>))],
     w_call_ref = None, w_check_call = None, w_metadata_keys = [], w_update_metadata = None,
     w_message_keys = [], w_check_metadata = None, w_active = True\<rparr>"

definition program_writer :: writer where
  "program_writer = user_writer\<lparr>w_author := ''model'', w_types := [OutputType], w_content := [],
     w_check_call := Some (\<lambda>p. Inr ())\<rparr>"

definition tool_writer :: writer where
  "tool_writer = user_writer\<lparr>w_author := ''tool'', w_types := [ToolResultType],
     w_call_ref := Some (CallRef ''m2'' 0)\<rparr>"

definition hello :: body where
  "hello = Input [ContentPart ''text'' (JStr ''hi'')]"

definition asking :: body where
  "asking = Output [ToolCall ''echo'' []] Continue"

definition answer :: body where
  "answer = ToolResult False (CallRef ''m2'' 0) Success [ContentPart ''text'' (JStr ''hi'')]"

definition said :: "string \<Rightarrow> int \<Rightarrow> string \<Rightarrow> body \<Rightarrow> message" where
  "said mid seq author b = \<lparr>m_id = mid, m_session = ''s'', m_seq = seq, m_time = Aware 5, m_author = author,
     m_source = ''chat'', m_body = b, m_meta = []\<rparr>"

definition said_row :: "string \<Rightarrow> int \<Rightarrow> string \<Rightarrow> json \<Rightarrow> message_row" where
  "said_row mid seq author doc = \<lparr>r_id = mid, r_session = ''s'', r_seq = seq, r_ts = Aware 5, r_author = author,
     r_source = ''chat'', r_body = doc, r_metadata = JObj []\<rparr>"

definition text_doc :: json where
  "text_doc = JArr [JObj [(''kind'', JStr ''text''), (''value'', JStr ''hi'')]]"

definition hello_doc :: json where
  "hello_doc = JObj [(''kind'', JStr ''input''), (''parts'', text_doc)]"

definition asking_doc :: json where
  "asking_doc = JObj [(''finish'', JStr ''continue''), (''kind'', JStr ''output''),
     (''parts'', JArr [JObj [(''arguments'', JObj []), (''binding_id'', JStr ''echo''), (''kind'', JStr ''tool_call'')]])]"

definition answer_doc :: json where
  "answer_doc = JObj [(''call_ref'', JObj [(''message_id'', JStr ''m2''), (''part_index'', JInt 0)]),
     (''kind'', JStr ''tool_result''), (''outcome'', JStr ''success''), (''parts'', text_doc)]"

definition bound_log :: message_log where
  "bound_log = empty_log\<lparr>bindings := [(''echo'', JObj [])]\<rparr>"

definition log_after :: "int \<Rightarrow> message_row list \<Rightarrow> (string \<times> string) list \<Rightarrow> message_log" where
  "log_after n rows binds = bound_log\<lparr>sessions := [(new_session ''s'' 5 default_attributes)\<lparr>s_next := n\<rparr>],
     messages := rows, message_bindings := binds\<rparr>"

abbreviation log1 :: message_log where
  "log1 \<equiv> log_after 1 [said_row ''m1'' 0 ''user'' hello_doc] []"

abbreviation log2 :: message_log where
  "log2 \<equiv> log_after 2 [said_row ''m1'' 0 ''user'' hello_doc, said_row ''m2'' 1 ''model'' asking_doc] [(''m2'', ''echo'')]"

abbreviation log3 :: message_log where
  "log3 \<equiv> log_after 3 [said_row ''m1'' 0 ''user'' hello_doc, said_row ''m2'' 1 ''model'' asking_doc,
     said_row ''m3'' 2 ''tool'' answer_doc] [(''m2'', ''echo'')]"

section \<open>The operations on it\<close>

lemma no_metadata: "freeze_metadata (VMap []) = Inr []"
  by (simp add: freeze_metadata_def dumped_bytes_def MAX_METADATA_BYTES_def)

lemma encode_samples:
  "encode_body hello al = Inr hello_doc" "encode_body asking al = Inr asking_doc" "encode_body answer al = Inr answer_doc"
  by (simp_all add: hello_def asking_def answer_def hello_doc_def asking_doc_def answer_doc_def text_doc_def
      encode_body_def Let_def)

lemma make_samples:
  "mk_Message ''m1'' ''s'' 0 (Aware 5) ''user'' ''chat'' hello (VMap []) = Inr (said ''m1'' 0 ''user'' hello)"
  "mk_Message ''m2'' ''s'' 1 (Aware 5) ''model'' ''chat'' asking (VMap []) = Inr (said ''m2'' 1 ''model'' asking)"
  "mk_Message ''m3'' ''s'' 2 (Aware 5) ''tool'' ''chat'' answer (VMap []) = Inr (said ''m3'' 2 ''tool'' answer)"
  by (simp_all add: mk_Message_def no_metadata hello_def asking_def answer_def said_def)

lemma sample_bodies [simp]:
  "type_of hello = InputType" "type_of asking = OutputType" "type_of answer = ToolResultType"
  "result_ref hello = None" "result_ref asking = None" "result_ref answer = Some (CallRef ''m2'' 0)"
  "\<not> is_control hello" "\<not> is_control asking" "\<not> is_control answer"
  "body_parts hello = [ContentPart ''text'' (JStr ''hi'')]" "body_parts asking = [ToolCall ''echo'' []]"
  "body_parts answer = [ContentPart ''text'' (JStr ''hi'')]" "calls_tool asking 0"
  "wf_body hello" "wf_body asking" "wf_body answer"
  by (simp_all add: hello_def asking_def answer_def)

lemma sample_writers [simp]: "wf_writer user_writer" "wf_writer program_writer" "wf_writer tool_writer"
  by (simp_all add: wf_writer_def project_metadata_def user_writer_def program_writer_def tool_writer_def)

lemma decode_asking: "decode_body asking_doc = Inr asking"
  using decode_encode[of asking asking_doc] by (simp add: encode_samples) (simp add: asking_def)

lemma sample_places [simp]:
  "w_session user_writer = ''s''" "w_session program_writer = ''s''" "w_session tool_writer = ''s''"
  "w_source user_writer = ''chat''" "w_source program_writer = ''chat''" "w_source tool_writer = ''chat''"
  by (simp_all add: user_writer_def program_writer_def tool_writer_def)

lemma sample_answers:
  "answered_call hello_doc = None" "answered_call asking_doc = None" "answered_call answer_doc = Some (JStr ''m2'', 0)"
  by (simp_all add: answered_call_def json_get_def field_def hello_doc_def asking_doc_def answer_doc_def)

lemmas append_eval = append_message_def check_grant_def find_message_def check_parts_def check_part_def check_result_def
  project_metadata_def commit_message_def Let_def insert_or_ignore_session_def find_session_def new_session_def
  next_seq_def max_default_def insert_message_def insert_binding_def update_session_def merge_session_metadata_def source_head_def
  check_call_result_def has_result_def call_key_def sample_answers decode_asking no_metadata encode_samples make_samples

lemmas sample_eval = user_writer_def program_writer_def tool_writer_def log_after_def bound_log_def empty_log_def
  said_row_def

lemma sample_binding: "save_binding ''echo'' (VMap []) empty_log = Inr bound_log"
  by (simp add: save_binding_def bound_log_def empty_log_def Let_def)

lemma sample_appends:
  "append_message 5 user_writer ''m1'' hello None None (bound_log\<lparr>in_tx := True\<rparr>)
     = Inr (said ''m1'' 0 ''user'' hello, log1\<lparr>in_tx := True\<rparr>)"
  "append_message 5 program_writer ''m2'' asking (Some 0) None (log1\<lparr>in_tx := True\<rparr>)
     = Inr (said ''m2'' 1 ''model'' asking, log2\<lparr>in_tx := True\<rparr>)"
  "append_message 5 tool_writer ''m3'' answer None None (log2\<lparr>in_tx := True\<rparr>)
     = Inr (said ''m3'' 2 ''tool'' answer, log3\<lparr>in_tx := True\<rparr>)"
  by (simp_all add: append_eval sample_eval)

lemma sample_in_tx [simp]: "\<not> in_tx bound_log" "\<not> in_tx (log_after n rows binds)"
  "bound_log\<lparr>in_tx := False\<rparr> = bound_log" "(log_after n rows binds)\<lparr>in_tx := False\<rparr> = log_after n rows binds"
  by (simp_all add: log_after_def bound_log_def empty_log_def)

lemma sample_writes:
  "writer_append 5 user_writer ''m1'' hello None None bound_log = (Inr (said ''m1'' 0 ''user'' hello), log1)"
  "writer_append 5 program_writer ''m2'' asking (Some 0) None log1 = (Inr (said ''m2'' 1 ''model'' asking), log2)"
  "writer_append 5 tool_writer ''m3'' answer None None log2 = (Inr (said ''m3'' 2 ''tool'' answer), log3)"
  using sample_appends by (simp_all add: writer_append_def write_tx_def)

lemma sample_steps: "log_step empty_log bound_log" "log_step bound_log log1" "log_step log1 log2" "log_step log2 log3"
proof -
  show "log_step empty_log bound_log" by (rule log_step.binding_step[OF _ _ sample_binding]) simp_all
  show "log_step bound_log log1" by (rule log_step.append_step[OF _ _ _ sample_writes(1)]) simp_all
  show "log_step log1 log2" by (rule log_step.append_step[OF _ _ _ sample_writes(2)]) simp_all
  show "log_step log2 log3" by (rule log_step.append_step[OF _ _ _ sample_writes(3)]) simp_all
qed

lemma sample_reach: "log_step\<^sup>*\<^sup>* empty_log log1" "log_step\<^sup>*\<^sup>* empty_log log2" "log_step\<^sup>*\<^sup>* empty_log log3"
  "log_step\<^sup>*\<^sup>* log1 log3"
proof -
  show one: "log_step\<^sup>*\<^sup>* empty_log log1" using sample_steps(1,2) by (meson rtranclp.intros)
  then show two: "log_step\<^sup>*\<^sup>* empty_log log2" using sample_steps(3) by (meson rtranclp.intros)
  then show "log_step\<^sup>*\<^sup>* empty_log log3" using sample_steps(4) by (meson rtranclp.intros)
  show "log_step\<^sup>*\<^sup>* log1 log3" using sample_steps(3,4) by (meson rtranclp.intros)
qed

lemma sample_wf [simp]: "wf_log bound_log" "wf_log log1" "wf_log log2" "wf_log log3"
  using log_step_wf[OF sample_steps(1)] sample_reach log_reach_wf by simp_all

lemma sample_find:
  "find_message bound_log i = None"
  "find_message log1 i = (if i = ''m1'' then Some (said_row ''m1'' 0 ''user'' hello_doc) else None)"
  "find_message log2 i = (if i = ''m1'' then Some (said_row ''m1'' 0 ''user'' hello_doc)
     else if i = ''m2'' then Some (said_row ''m2'' 1 ''model'' asking_doc) else None)"
  by (simp_all add: find_message_def bound_log_def empty_log_def log_after_def said_row_def eq_commute)

end
