(* ===== verification/Log_Properties.thy ===== *)
theory Log_Properties
  imports Sample_Log
begin

text \<open>
  The properties of the message log, its values and its codec, each applied to the sample
  conversation of \<open>Sample_Log\<close> where it has hypotheses.
\<close>

section \<open>Writes as transactions\<close>

lemma written:
  assumes "writer_append now w mid b h md s = (Inr m, t)"
  obtains u where "append_message now w mid b h md (s\<lparr>in_tx := True\<rparr>) = Inr (m, u)" and "t = u\<lparr>in_tx := False\<rparr>"
    and "\<not> in_tx s"
  using assms by (auto simp: writer_append_def write_tx_def split: if_splits sum.splits)

lemma in_tx_reads [simp]:
  "find_message (s\<lparr>in_tx := x\<rparr>) i = find_message s i" "next_seq (s\<lparr>in_tx := x\<rparr>) k = next_seq s k"
  "source_head (s\<lparr>in_tx := x\<rparr>) k src = source_head s k src" "has_result (s\<lparr>in_tx := x\<rparr>) ref = has_result s ref"
  "message_of (s\<lparr>in_tx := x\<rparr>) r = message_of s r" "session_history (s\<lparr>in_tx := x\<rparr>) k = session_history s k"
  by (simp_all add: find_message_def next_seq_def find_session_def source_head_def has_result_def
      message_of_def session_history_def session_rows_def)

lemma extends_in_tx [simp]: "extends (s\<lparr>in_tx := x\<rparr>) t = extends s t" "extends s (t\<lparr>in_tx := x\<rparr>) = extends s t"
  by (simp_all add: extends_def)

lemma leave_tx: "\<not> in_tx u \<Longrightarrow> u\<lparr>in_tx := False\<rparr> = u"
  by (cases u) simp

lemma append_known_committed:
  assumes "append_message now w mid b h md s = Inr (m, t)" and "find_message s mid = None"
  shows "committed now w mid b h md s m t"
  using append_cases[OF assms(1)] assms(2) by (auto simp: replayed_def)

lemma append_history:
  assumes a: "append_message now w mid b h md s = Inr (m, t)" and new: "find_message s mid = None"
    and wf: "wf_log s" "wf_body b" "pred_option wf_pyval md" "wf_writer w"
  shows "session_history t (w_session w) = session_history s (w_session w) @ [stored_message m]
    \<and> (\<forall>sid. sid \<noteq> w_session w \<longrightarrow> session_history t sid = session_history s sid)
    \<and> m_seq m = next_seq s (w_session w)"
proof -
  obtain row bids arts where app: "appended w row bids arts s t" and row: "r_session row = w_session w"
      "message_of t row = Inr (stored_message m)" "mk_Message mid (w_session w) (next_seq s (w_session w)) (Aware now)
        (w_author w) (w_source w) b (frozen_value (JObj (m_meta m))) = Inr m"
    using committed_effect[OF append_known_committed[OF a new] wf] by blast
  have ms: "messages t = messages s @ [row]" using app by (simp add: appended_def)
  have mo: "message_of t = message_of s" using extends_message_of[OF appended_extends[OF app]] .
  have "m_seq m = next_seq s (w_session w)" using row(3) by (simp add: mk_Message_iff del: frozen_value.simps)
  then show ?thesis using row(1,2) mo by (simp add: session_history_def session_rows_def ms)
qed

section \<open>The log over time\<close>

text \<open>C5. Every store that the operations of the log can reach is well formed: the rows of a session are
  numbered upwards below its next number, every row reads back as a message in canonical form, a
  tool result names an earlier call of the same source, and no call has two results; its attachment
  table passes the integrity check.\<close>

theorem reachable_log_sound:
  assumes "log_step\<^sup>*\<^sup>* empty_log s"
  shows "wf_log s \<and> validate_attachment_bindings s = Inr ()"
  using log_reach_wf[OF assms] attachments_validate by blast

lemma reachable_log_sound_witness: "wf_log log3 \<and> validate_attachment_bindings log3 = Inr ()"
  by (rule reachable_log_sound) (rule sample_reach)

text \<open>The log only grows: whatever operations run, a stored message keeps its row, and the messages of a
  session later are those of before followed by new ones.\<close>

theorem log_append_only:
  assumes "log_step\<^sup>*\<^sup>* s t"
  shows "(\<exists>rows. messages t = messages s @ rows)
    \<and> (find_message s i = Some r \<longrightarrow> find_message t i = Some r)
    \<and> (\<exists>new. session_history t sid = session_history s sid @ new)"
proof -
  have e: "extends s t" by (rule log_steps_extend[OF assms])
  show ?thesis using e extends_find[OF e] extends_history[OF e] unfolding extends_def by blast
qed

lemma log_append_only_witness:
  "find_message log3 ''m1'' = Some (said_row ''m1'' 0 ''user'' hello_doc)"
proof -
  have "find_message log1 ''m1'' = Some (said_row ''m1'' 0 ''user'' hello_doc)" by (simp add: sample_find)
  then show ?thesis using log_append_only[OF sample_reach(4), of "''m1''" "said_row ''m1'' 0 ''user'' hello_doc" "''s''"] by blast
qed

text \<open>C9. A message that is accepted as new takes the next number of its session, is appended to that session's
  history in its stored form, and touches no other session.\<close>

theorem append_appends:
  assumes "writer_append now w mid b h md s = (Inr m, t)" and "find_message s mid = None"
    and "wf_log s" "wf_body b" "pred_option wf_pyval md" "wf_writer w"
  shows "m_seq m = next_seq s (w_session w)
    \<and> session_history t (w_session w) = session_history s (w_session w) @ [stored_message m]
    \<and> (sid \<noteq> w_session w \<longrightarrow> session_history t sid = session_history s sid)
    \<and> wf_log t"
proof -
  obtain u where "append_message now w mid b h md (s\<lparr>in_tx := True\<rparr>) = Inr (m, u)" and t: "t = u\<lparr>in_tx := False\<rparr>"
    using written[OF assms(1)] by metis
  then show ?thesis using append_history[of now w mid b h md "s\<lparr>in_tx := True\<rparr>" m u] assms(2-)
      writer_append_wf[OF assms(1,3-6)] by (simp add: wf_log_in_tx)
qed

lemma append_appends_witness:
  "session_history log2 ''s'' = session_history log1 ''s'' @ [stored_message (said ''m2'' 1 ''model'' asking)]"
  using append_appends[OF sample_writes(2)] by (simp add: sample_find)

text \<open>C1. Appending is idempotent by \<open>message_id\<close>: after any later growth of the log, with the writer expired or
  not, whatever head is expected, appending the same body and metadata again returns the stored
  message and changes nothing.\<close>

theorem append_idempotent:
  assumes "writer_append now w mid b h md s = (Inr m, t)" and "find_message s mid = None"
    and "wf_log s" "wf_body b" "pred_option wf_pyval md" "wf_writer w"
    and "extends t u" and "\<not> in_tx u"
  shows "writer_append now' (w\<lparr>w_active := act\<rparr>) mid b h' md u = (Inr (stored_message m), u)"
proof -
  obtain v where "append_message now w mid b h md (s\<lparr>in_tx := True\<rparr>) = Inr (m, v)" and t: "t = v\<lparr>in_tx := False\<rparr>"
    using written[OF assms(1)] by metis
  then have "append_message now' (w\<lparr>w_active := act\<rparr>) mid b h' md (u\<lparr>in_tx := True\<rparr>)
      = Inr (stored_message m, u\<lparr>in_tx := True\<rparr>)"
    using assms by (intro append_again[where s = "s\<lparr>in_tx := True\<rparr>"]) (simp_all add: wf_log_in_tx)
  then show ?thesis using assms(8) leave_tx by (simp add: writer_append_def write_tx_def)
qed

lemma append_idempotent_witness:
  "writer_append 9 (expire user_writer) ''m1'' hello (Some 7) None log3 = (Inr (stored_message (said ''m1'' 0 ''user'' hello)), log3)"
  using append_idempotent[OF sample_writes(1)] log_steps_extend[OF sample_reach(4)]
  by (simp add: expire_def sample_find)

text \<open>The conditional append is a compare-and-set on the head of the writer's source: a new message with an
  expected head is accepted only when the source's last number is the expected one, and is then that
  source's last message.\<close>

theorem append_compare_and_set:
  assumes "writer_append now w mid b (Some h) md s = (Inr m, t)" and "find_message s mid = None"
    and "wf_log s" "wf_body b" "pred_option wf_pyval md" "wf_writer w"
  shows "source_head s (w_session w) (w_source w) = h \<and> h < m_seq m
    \<and> source_head t (w_session w) (w_source w) = m_seq m"
proof -
  obtain v where "append_message now w mid b (Some h) md (s\<lparr>in_tx := True\<rparr>) = Inr (m, v)" and t: "t = v\<lparr>in_tx := False\<rparr>"
    using written[OF assms(1)] by metis
  then show ?thesis using append_head[of now w mid b h md "s\<lparr>in_tx := True\<rparr>" m v] assms(2-) by (simp add: wf_log_in_tx)
qed

lemma append_compare_and_set_witness: "source_head log1 ''s'' ''chat'' = 0 \<and> source_head log2 ''s'' ''chat'' = 1"
  using append_compare_and_set[OF sample_writes(2)] by (simp add: sample_find said_def)

section \<open>Tool results\<close>

lemma sorted_wrt_pair:
  assumes "sorted_wrt P xs" and "x \<in> set xs" and "y \<in> set xs" and "x \<noteq> y"
  shows "P x y \<or> P y x"
  using assms by (induction xs) auto

lemma same_answer:
  assumes "wf_messages s" and "r \<in> set (messages s)" and "r' \<in> set (messages s)"
    and "answered_call (r_body r) = Some k" and "answered_call (r_body r') = Some k"
  shows "r = r'"
  using assms sorted_wrt_pair[of answers_differ "messages s" r r'] unfolding wf_messages_def answers_differ_def by auto

text \<open>C15. In every reachable store a call has at most one result, and the result comes after the call: in the
  same session and source, from a message that made that call.\<close>

theorem one_result_per_call:
  assumes "log_step\<^sup>*\<^sup>* empty_log s" and "r \<in> set (messages s)" and "answered_call (r_body r) = Some (call_key ref)"
  shows "call_before s r ref \<and> (r' \<in> set (messages s) \<and> answered_call (r_body r') = Some (call_key ref) \<longrightarrow> r' = r)"
proof -
  have wf: "wf_messages s" using log_reach_wf[OF assms(1)] by (simp add: wf_log_def)
  then show ?thesis using assms(2,3) same_answer[OF wf] unfolding wf_messages_def by blast
qed

lemma one_result_per_call_witness: "call_before log3 (said_row ''m3'' 2 ''tool'' answer_doc) (CallRef ''m2'' 0)"
proof -
  have "said_row ''m3'' 2 ''tool'' answer_doc \<in> set (messages log3)" by (simp add: log_after_def)
  moreover have "answered_call (r_body (said_row ''m3'' 2 ''tool'' answer_doc)) = Some (call_key (CallRef ''m2'' 0))"
    by (simp add: said_row_def sample_answers call_key_def)
  ultimately show ?thesis using one_result_per_call[OF sample_reach(3)] by blast
qed

section \<open>Refusals\<close>

lemma refused_unless:
  assumes "\<And>m t. append_message now w mid b h md (s\<lparr>in_tx := True\<rparr>) \<noteq> Inr (m, t)"
  shows "\<exists>e. writer_append now w mid b h md s = (Inl e, s)"
  using assms by (auto simp: writer_append_def write_tx_def split: sum.splits)

text \<open>C37. A refused append leaves the store as it was; and it is refused when the body's type is not granted, when a
  new message comes from an expired writer, when the session's source has another head than
  the expected one, and when the call already has a result.\<close>

theorem append_refusals:
  "(writer_append now w mid b h md s = (Inl e, t) \<longrightarrow> t = s)
   \<and> (type_of b \<notin> set (w_types w) \<and> \<not> in_tx s \<longrightarrow> writer_append now w mid b h md s = (Inl PermissionError, s))
   \<and> (find_message s mid = None
        \<and> (\<not> w_active w \<or> (h \<noteq> None \<and> h \<noteq> Some (source_head s (w_session w) (w_source w)))
            \<or> (\<exists>ref. result_ref b = Some ref \<and> has_result s ref)) \<longrightarrow>
      (\<exists>e. writer_append now w mid b h md s = (Inl e, s)))"
proof (intro conjI impI)
  show "writer_append now w mid b h md s = (Inl e, t) \<Longrightarrow> t = s" unfolding writer_append_def by (rule write_tx_error)
  show "type_of b \<notin> set (w_types w) \<and> \<not> in_tx s \<Longrightarrow> writer_append now w mid b h md s = (Inl PermissionError, s)"
    by (simp add: writer_append_def write_tx_def append_message_def check_grant_def)
  assume p: "find_message s mid = None
        \<and> (\<not> w_active w \<or> (h \<noteq> None \<and> h \<noteq> Some (source_head s (w_session w) (w_source w)))
            \<or> (\<exists>ref. result_ref b = Some ref \<and> has_result s ref))"
  have "append_message now w mid b h md (s\<lparr>in_tx := True\<rparr>) \<noteq> Inr (m, t)" for m t
  proof
    assume a: "append_message now w mid b h md (s\<lparr>in_tx := True\<rparr>) = Inr (m, t)"
    then have "committed now w mid b h md (s\<lparr>in_tx := True\<rparr>) m t" using p by (intro append_known_committed) simp_all
    then have "w_active w" and "h = None \<or> h = Some (source_head s (w_session w) (w_source w))"
      by (auto simp: committed_def)
    then obtain ref where "result_ref b = Some ref" "has_result s ref" using p by blast
    then show False using append_result_once[of "s\<lparr>in_tx := True\<rparr>" ref b mid] a p by simp
  qed
  then show "\<exists>e. writer_append now w mid b h md s = (Inl e, s)" by (rule refused_unless)
qed

lemma append_refusals_witness:
  "writer_append 5 user_writer ''m9'' asking None None log1 = (Inl PermissionError, log1)
   \<and> (\<exists>e. writer_append 5 (expire user_writer) ''m9'' hello None None log1 = (Inl e, log1))
   \<and> (\<exists>e. writer_append 5 user_writer ''m9'' hello (Some 4) None log1 = (Inl e, log1))
   \<and> (\<exists>e. writer_append 5 tool_writer ''m9'' answer None None log3 = (Inl e, log3))"
proof (intro conjI)
  show "writer_append 5 user_writer ''m9'' asking None None log1 = (Inl PermissionError, log1)"
    using append_refusals[where w = user_writer and b = asking and s = log1] by (simp add: user_writer_def)
  show "\<exists>e. writer_append 5 (expire user_writer) ''m9'' hello None None log1 = (Inl e, log1)"
    using append_refusals[where w = "expire user_writer" and s = log1 and mid = "''m9''"] by (simp add: sample_find expire_def)
  have "source_head log1 ''s'' ''chat'' = 0" by (simp add: source_head_def log_after_def said_row_def max_default_def)
  then show "\<exists>e. writer_append 5 user_writer ''m9'' hello (Some 4) None log1 = (Inl e, log1)"
    using append_refusals[where w = user_writer and s = log1 and mid = "''m9''" and h = "Some 4"] by (simp add: sample_find)
  have "find_message log3 ''m9'' = None" "has_result log3 (CallRef ''m2'' 0)"
    by (simp_all add: sample_answers has_result_def find_message_def log_after_def said_row_def call_key_def)
  then show "\<exists>e. writer_append 5 tool_writer ''m9'' answer None None log3 = (Inl e, log3)"
    using append_refusals[where b = answer and s = log3 and mid = "''m9''"] by simp
qed

section \<open>Sessions\<close>

text \<open>Admitting a session fixes its attributes: the call returns the asked ones exactly when they are stored from
  then on, no session's attributes ever change by it, and asking again gives the stored ones or a
  conflict without effect.\<close>

theorem session_admission:
  assumes "ensure_session now sid a s = (Inr r, t)" and "wf_log s"
  shows "r = a \<and> session_attributes_of t sid = Inr a \<and> wf_log t
    \<and> (session_attributes_of s k = Inr c \<longrightarrow> session_attributes_of t k = Inr c)
    \<and> ensure_session now' sid b t = ((if b = a then Inr a else Inl MessageConflict), t)"
proof -
  have ok: "sid \<noteq> [] \<and> \<not> in_tx t" using assms(1)
    by (auto simp: ensure_session_def write_tx_def split: if_splits sum.splits prod.splits)
  then show ?thesis using ensure_session_admits[OF assms(1)] ensure_session_wf[OF assms]
      ensure_session_again[of t sid a now' b] by blast
qed

lemma session_admission_witness:
  "session_attributes_of (snd (ensure_session 5 ''s'' \<lparr>sa_visibility = Internal, sa_learning = Excluded\<rparr> bound_log)) ''s''
     = Inr \<lparr>sa_visibility = Internal, sa_learning = Excluded\<rparr>"
proof -
  let ?a = "\<lparr>sa_visibility = Internal, sa_learning = Excluded\<rparr>"
  have "\<exists>t. ensure_session 5 ''s'' ?a bound_log = (Inr ?a, t)"
    by (simp add: ensure_session_def write_tx_def bound_log_def empty_log_def insert_or_ignore_session_def find_session_def
        new_session_def session_attributes_of_def Let_def)
  then obtain t where t: "ensure_session 5 ''s'' ?a bound_log = (Inr ?a, t)" by blast
  then show ?thesis using session_admission[OF t] by simp
qed

section \<open>The codec\<close>

text \<open>C38. What a legal body is stored as decodes to that body, with the members of every JSON object in key order,
  and encodes to the same document again.\<close>

theorem body_roundtrip:
  assumes "wf_body b" and "encode_body b True = Inr doc"
  shows "decode_body doc = Inr (sorted_body b) \<and> encode_body (sorted_body b) True = Inr doc"
  using assms encode_sorted_body by blast

lemma body_roundtrip_witness: "decode_body answer_doc = Inr answer"
  using body_roundtrip[of answer answer_doc] by (simp add: encode_samples) (simp add: answer_def)

text \<open>C39. The decoder accepts only legal bodies, and only documents that the encoder writes: a decoded body
  encodes to the document it came from, in canonical order.\<close>

theorem decoded_is_canonical:
  assumes "decode_body doc = Inr b"
  shows "wf_body b \<and> encode_body b True = Inr (json_sorted doc)"
  by (rule decode_doc[OF assms])

lemma decoded_is_canonical_witness: "encode_body asking True = Inr (json_sorted asking_doc)"
  using decoded_is_canonical[OF decode_asking] by simp

text \<open>Message metadata is accepted exactly when it is a mapping of JSON values with non-empty text keys whose
  canonical text has at most 64 KiB; freezing a frozen value again is the identity.\<close>

theorem metadata_bounded:
  "(freeze_metadata v = Inr m \<longleftrightarrow> is_mapping v \<and> freeze_json v = Inr (JObj m) \<and> [] \<notin> set (keys m)
     \<and> length (json_text (json_sorted (JObj m))) \<le> 65536)
   \<and> (freeze_metadata v = Inr m \<longrightarrow> freeze_metadata (json_value (JObj m)) = Inr m)"
  using freeze_metadata_iff[of v m] freeze_metadata_again[of v m] by (simp add: dumped_bytes_def MAX_METADATA_BYTES_def)

lemma metadata_bounded_witness: "freeze_metadata (json_value (JObj [])) = Inr []"
  using metadata_bounded[of "VMap []" "[]"] no_metadata by simp

end
