(* ===== verification/Reader_Properties.thy ===== *)
theory Reader_Properties
  imports Sample_Log
begin

text \<open>
  The properties of reading: snapshots and their cache, pages, the follower and the session
  catalog, all against the history of a session.
\<close>

section \<open>Snapshots\<close>

text \<open>C35. The paging loop of a snapshot ends and loses nothing: a snapshot of a session is its history between the
  two bounds, in order, however many pages of 1000 it takes.\<close>

theorem snapshot_complete:
  assumes "wf_log s" and "- 1 \<le> after"
  shows "snapshot s sid after through = Inr (filter (\<lambda>m. after < m_seq m
     \<and> m_seq m \<le> (case through of None \<Rightarrow> head_of s sid None | Some t \<Rightarrow> t)) (session_history s sid))"
  by (rule snapshot_history[OF assms])

lemma snapshot_complete_witness:
  "snapshot log3 ''s'' 0 (Some 1) = Inr (filter (\<lambda>m. 0 < m_seq m \<and> m_seq m \<le> 1) (session_history log3 ''s''))"
  using snapshot_complete[of log3 0 "''s''" "Some 1"] by simp

text \<open>One read of a sequence: the log and its data version at that moment, and the bounds asked for.\<close>

record reading =
  rd_log :: message_log
  rd_version :: int
  rd_after :: int
  rd_through :: "int option"

primrec incremental_reads :: "string \<Rightarrow> incremental \<Rightarrow> reading list \<Rightarrow> message list res list" where
  "incremental_reads sid inc [] = []"
| "incremental_reads sid inc (r # rs) =
     (case incremental_snapshot (rd_log r) (rd_version r) sid (rd_after r) (rd_through r) inc of
        Inl e \<Rightarrow> Inl e # incremental_reads sid inc rs
      | Inr (ms, inc') \<Rightarrow> Inr ms # incremental_reads sid inc' rs)"

text \<open>Between two reads under the same data version the log has only grown.\<close>

fun reads_legal :: "reading list \<Rightarrow> bool" where
  "reads_legal (r # t # rs) \<longleftrightarrow> (rd_version t = rd_version r \<longrightarrow> extends (rd_log r) (rd_log t)) \<and> reads_legal (t # rs)"
| "reads_legal _ \<longleftrightarrow> True"

lemma incremental_reads_history:
  assumes "reads_legal rs" and "\<forall>r \<in> set rs. wf_log (rd_log r) \<and> - 1 \<le> rd_after r \<and> \<not> in_tx (rd_log r)"
    and "\<forall>r. rs \<noteq> [] \<and> r = hd rs \<longrightarrow> inc_ok (rd_log r) sid (rd_version r) inc"
  shows "incremental_reads sid inc rs = map (\<lambda>r. snapshot (rd_log r) sid (rd_after r) (rd_through r)) rs"
  using assms
proof (induction rs arbitrary: inc)
  case (Cons r rs)
  have r: "wf_log (rd_log r)" "- 1 \<le> rd_after r" "\<not> in_tx (rd_log r)" and ok: "inc_ok (rd_log r) sid (rd_version r) inc"
    using Cons.prems(2,3) by simp_all
  obtain inc' where i: "incremental_snapshot (rd_log r) (rd_version r) sid (rd_after r) (rd_through r) inc
      = Inr (filter (\<lambda>m. rd_after r < m_seq m \<and> m_seq m \<le> (case rd_through r of None \<Rightarrow> head_of (rd_log r) sid None | Some t \<Rightarrow> t))
              (session_history (rd_log r) sid), inc')" "inc_version inc' = Some (rd_version r)" "inc_ok (rd_log r) sid (rd_version r) inc'"
    using incremental_history[OF r ok] by blast
  have "incremental_reads sid inc' rs = map (\<lambda>r. snapshot (rd_log r) sid (rd_after r) (rd_through r)) rs"
  proof (rule Cons.IH)
    show "reads_legal rs" using Cons.prems(1) by (cases rs) simp_all
    show "\<forall>r \<in> set rs. wf_log (rd_log r) \<and> - 1 \<le> rd_after r \<and> \<not> in_tx (rd_log r)" using Cons.prems(2) by simp
    have "inc_ok (rd_log t) sid (rd_version t) inc'" if "rs = t # ts" for t ts
      using inc_ok_later[OF i(3,2), of "rd_log t" "rd_version t"] Cons.prems(1,2) that by simp
    then show "\<forall>t. rs \<noteq> [] \<and> t = hd rs \<longrightarrow> inc_ok (rd_log t) sid (rd_version t) inc'" by (cases rs) simp_all
  qed
  then show ?case using i(1) snapshot_history[OF r(1,2)] by simp
qed simp

text \<open>C36. The incremental reader answers every snapshot as a fresh reader would: over any sequence of reads with any bounds, as long as
  the log has only grown between two reads under the same data version; after a read under another version the
  prefix is read again.\<close>

theorem incremental_equivalent:
  assumes "reads_legal rs" and "\<forall>r \<in> set rs. wf_log (rd_log r) \<and> - 1 \<le> rd_after r \<and> \<not> in_tx (rd_log r)"
  shows "incremental_reads sid new_incremental rs = map (\<lambda>r. snapshot (rd_log r) sid (rd_after r) (rd_through r)) rs"
  using assms by (intro incremental_reads_history) (simp_all add: new_incremental_ok)

lemma incremental_equivalent_witness:
  "incremental_reads ''s'' new_incremental
      [\<lparr>rd_log = log1, rd_version = 1, rd_after = - 1, rd_through = None\<rparr>, \<lparr>rd_log = log3, rd_version = 1, rd_after = 0, rd_through = Some 1\<rparr>,
       \<lparr>rd_log = log3, rd_version = 1, rd_after = - 1, rd_through = None\<rparr>]
    = [snapshot log1 ''s'' (- 1) None, snapshot log3 ''s'' 0 (Some 1), snapshot log3 ''s'' (- 1) None]"
proof -
  have "\<not> in_tx log1" "\<not> in_tx log3" by (simp_all add: log_after_def bound_log_def empty_log_def)
  then show ?thesis using log_steps_extend[OF sample_reach(4)] by (subst incremental_equivalent) simp_all
qed

section \<open>Pages\<close>

text \<open>A page is a slice of the history below the fixed upper bound: the first \<open>limit\<close> messages after the cursor,
  or the last ones for a tail page, with the attachment references of exactly those messages, and
  \<open>page_more\<close> says whether anything was left out.\<close>

theorem page_is_slice:
  assumes "wf_log s" and "find_session s sid \<noteq> None" and "1 \<le> limit" "limit \<le> 200"
    and "- 1 \<le> after" "after \<le> through" "- 1 \<le> through" "through \<le> head_of s sid None"
    and "0 \<le> before" "before \<le> through + 1"
    and "span = filter (\<lambda>m. after < m_seq m \<and> m_seq m < before) (session_history s sid)"
  shows "\<exists>p. page s sid after (Some before) (Some through) limit tail = Inr p
     \<and> page_messages p = (if tail then drop (length span - nat limit) span else take (nat limit) span)
     \<and> page_attachments p = map (\<lambda>m. (m_id m, refs_of s (m_id m))) (page_messages p)
     \<and> page_through p = through \<and> page_more p = (nat limit < length span)"
  using page_wf[OF assms(1-4), of after "Some through" "Some before" tail] assms(5-) by auto

lemma page_is_slice_witness:
  "\<exists>p. page log3 ''s'' 0 (Some 2) (Some 1) 10 False = Inr p \<and> page_through p = 1"
proof -
  have "find_session log3 ''s'' \<noteq> None" "head_of log3 ''s'' None = 2"
    by (simp_all add: find_session_def log_after_def new_session_def head_of_def said_row_def max_default_def)
  then show ?thesis using page_is_slice[of log3 "''s''" 10 0 1 2 _ False] by auto
qed

section \<open>Following\<close>

text \<open>C18. A follower loses nothing. However its rounds interleave with commits of other threads and the closing of the log, what it
  has yielded is the beginning of the session's history after its starting point: in order, without gap or repetition. Its
  own steps, when nobody else acts, come to an end; and when none of them can change anything it has yielded all of that
  history, or the log was closed and it has stopped. So no commit is slept through.\<close>

theorem follow_exactly_once:
  assumes "wf_log s" and "- 1 \<le> after"
  shows "((follow_step sid)\<^sup>*\<^sup>* (follow_start s closed after) w \<longrightarrow>
      (\<exists>rest. filter (\<lambda>m. after < m_seq m) (session_history (fl_log w) sid) = fo_seen (fl_me w) @ rest
        \<and> (follow_rests sid w \<longrightarrow> (if fl_closed w then fo_pc (fl_me w) = Stopped else rest = []))))
    \<and> wf {(v, w). (follow_step sid)\<^sup>*\<^sup>* (follow_start s closed after) w \<and> follow_own sid w v \<and> v \<noteq> w}"
proof
  show "(follow_step sid)\<^sup>*\<^sup>* (follow_start s closed after) w \<longrightarrow>
      (\<exists>rest. filter (\<lambda>m. after < m_seq m) (session_history (fl_log w) sid) = fo_seen (fl_me w) @ rest
        \<and> (follow_rests sid w \<longrightarrow> (if fl_closed w then fo_pc (fl_me w) = Stopped else rest = [])))"
  proof
    assume "(follow_step sid)\<^sup>*\<^sup>* (follow_start s closed after) w"
    then have ok: "follow_ok sid after w" by (rule follow_reach_ok[OF _ assms])
    then have "leads (fo_seen (fl_me w)) (follow_due sid after w)" by (auto simp: follow_ok_def Let_def dest: leads_init)
    then obtain rest where "follow_due sid after w = fo_seen (fl_me w) @ rest" by (auto simp: leads_def)
    then show "\<exists>rest. filter (\<lambda>m. after < m_seq m) (session_history (fl_log w) sid) = fo_seen (fl_me w) @ rest
        \<and> (follow_rests sid w \<longrightarrow> (if fl_closed w then fo_pc (fl_me w) = Stopped else rest = []))"
      using follow_at_rest[OF _ ok] unfolding follow_due_def by auto
  qed
  show "wf {(v, w). (follow_step sid)\<^sup>*\<^sup>* (follow_start s closed after) w \<and> follow_own sid w v \<and> v \<noteq> w}"
    by (rule wf_subset[of "inv_image (less_than <*lex*> less_than <*lex*> less_than) (follow_rank sid after)"])
      (use follow_falls follow_reach_ok[OF _ assms] in \<open>auto intro!: wf_inv_image wf_lex_prod\<close>)
qed

text \<open>A follower that waits on the log of one message is woken by the commit of two more and yields them.\<close>

abbreviation follower_at :: "message_log \<Rightarrow> bool \<Rightarrow> follow_pc \<Rightarrow> int \<Rightarrow> bool \<Rightarrow> message list \<Rightarrow> follow_world" where
  "follower_at s ring pc after event seen \<equiv> \<lparr>fl_log = s, fl_closed = False, fl_ring = ring,
     fl_me = \<lparr>fo_pc = pc, fo_after = after, fo_event = event, fo_seen = seen\<rparr>\<rparr>"

lemma history_samples: "session_history log1 ''s'' = [said ''m1'' 0 ''user'' hello]"
  "session_history log3 ''s'' = [said ''m1'' 0 ''user'' hello, said ''m2'' 1 ''model'' asking, said ''m3'' 2 ''tool'' answer]"
proof -
  have "decode_body hello_doc = Inr hello" "decode_body asking_doc = Inr asking" "decode_body answer_doc = Inr answer"
    using decode_encode[of hello hello_doc] decode_encode[of asking asking_doc] decode_encode[of answer answer_doc]
    by (simp_all add: encode_samples) (simp_all add: hello_def asking_def answer_def)
  then show "session_history log1 ''s'' = [said ''m1'' 0 ''user'' hello]"
    "session_history log3 ''s'' = [said ''m1'' 0 ''user'' hello, said ''m2'' 1 ''model'' asking, said ''m3'' 2 ''tool'' answer]"
    by (simp_all add: session_history_def session_rows_def log_after_def said_row_def message_of_def json_object_of_def
        bound_log_def empty_log_def make_samples)
qed

lemma sample_pages: "read_range log1 ''s'' 0 None None 1000 = Inr []"
  "read_range log3 ''s'' 0 None None 1000 = Inr [said ''m2'' 1 ''model'' asking, said ''m3'' 2 ''tool'' answer]"
  "read_range log3 ''s'' 2 None None 1000 = Inr []"
  using read_range_history[of log1 1000 0 "''s''" None None] read_range_history[of log3 1000 0 "''s''" None None]
    read_range_history[of log3 1000 2 "''s''" None None]
  by (simp_all add: history_samples said_def)

lemma follow_goes: "follow_step sid w (w\<lparr>fl_me := follow_go sid (fl_log w) (fl_closed w) (fl_me w)\<rparr>)"
  using follow_own.goes by (simp add: follow_step_def)

lemma follow_sample:
  "(follow_step ''s'')\<^sup>*\<^sup>* (follow_start log1 False 0)
     (follower_at log3 False Dozing 2 False [said ''m2'' 1 ''model'' asking, said ''m3'' 2 ''tool'' answer])"
proof -
  let ?m2 = "said ''m2'' 1 ''model'' asking" and ?m3 = "said ''m3'' 2 ''tool'' answer"
  note run = rtranclp.rtrancl_into_rtrancl
  have "(follow_step ''s'')\<^sup>*\<^sup>* (follow_start log1 False 0) (follower_at log1 False Clearing 0 False [])"
    by (simp add: follow_start_def follow_begin_def)
  from run[OF this follow_goes] have "(follow_step ''s'')\<^sup>*\<^sup>* (follow_start log1 False 0) (follower_at log1 False Fetching 0 False [])"
    by (simp add: follow_go_def)
  from run[OF this follow_goes] have "(follow_step ''s'')\<^sup>*\<^sup>* (follow_start log1 False 0) (follower_at log1 False Dozing 0 False [])"
    by (simp add: follow_go_def sample_pages)
  moreover have "follow_step ''s'' (follower_at log1 False Dozing 0 False []) (follower_at log3 True Dozing 0 False [])"
    using commits[of "follower_at log1 False Dozing 0 False []" log3] log_steps_extend[OF sample_reach(4)] by (simp add: follow_step_def)
  ultimately have "(follow_step ''s'')\<^sup>*\<^sup>* (follow_start log1 False 0) (follower_at log3 True Dozing 0 False [])" by (rule run)
  moreover have "follow_step ''s'' (follower_at log3 True Dozing 0 False []) (follower_at log3 False Dozing 0 True [])"
    using rings[of "follower_at log3 True Dozing 0 False []" "''s''"] by (simp add: follow_step_def)
  ultimately have "(follow_step ''s'')\<^sup>*\<^sup>* (follow_start log1 False 0) (follower_at log3 False Dozing 0 True [])" by (rule run)
  from run[OF this follow_goes] have "(follow_step ''s'')\<^sup>*\<^sup>* (follow_start log1 False 0) (follower_at log3 False Clearing 0 True [])"
    by (simp add: follow_go_def)
  from run[OF this follow_goes] have "(follow_step ''s'')\<^sup>*\<^sup>* (follow_start log1 False 0) (follower_at log3 False Fetching 0 False [])"
    by (simp add: follow_go_def)
  from run[OF this follow_goes] have "(follow_step ''s'')\<^sup>*\<^sup>* (follow_start log1 False 0) (follower_at log3 False (Handing [?m2, ?m3]) 0 False [])"
    by (simp add: follow_go_def sample_pages)
  from run[OF this follow_goes] have "(follow_step ''s'')\<^sup>*\<^sup>* (follow_start log1 False 0) (follower_at log3 False (Handing [?m3]) 1 False [?m2])"
    by (simp add: follow_go_def) (simp add: said_def)
  from run[OF this follow_goes] have "(follow_step ''s'')\<^sup>*\<^sup>* (follow_start log1 False 0) (follower_at log3 False Clearing 2 False [?m2, ?m3])"
    by (simp add: follow_go_def) (simp add: said_def)
  from run[OF this follow_goes] have "(follow_step ''s'')\<^sup>*\<^sup>* (follow_start log1 False 0) (follower_at log3 False Fetching 2 False [?m2, ?m3])"
    by (simp add: follow_go_def)
  from run[OF this follow_goes] show ?thesis by (simp add: follow_go_def sample_pages)
qed

lemma follow_exactly_once_witness:
  "\<exists>w. (follow_step ''s'')\<^sup>*\<^sup>* (follow_start log1 False 0) w \<and> fl_log w = log3 \<and> follow_rests ''s'' w
     \<and> filter (\<lambda>m. 0 < m_seq m) (session_history log3 ''s'') = fo_seen (fl_me w) \<and> map m_id (fo_seen (fl_me w)) = [''m2'', ''m3'']"
proof -
  let ?w = "follower_at log3 False Dozing 2 False [said ''m2'' 1 ''model'' asking, said ''m3'' 2 ''tool'' answer]"
  have rests: "follow_rests ''s'' ?w" by (auto simp: follow_rests_def follow_go_def elim!: follow_own.cases)
  have "filter (\<lambda>m. 0 < m_seq m) (session_history log3 ''s'') = fo_seen (fl_me ?w)"
    using follow_exactly_once[of log1 0 "''s''" False ?w] follow_sample rests by simp
  then show ?thesis using follow_sample rests by (intro exI[of _ ?w]) (simp add: said_def)
qed

section \<open>The catalog\<close>

definition catalog_rest ::
  "(pytime \<Rightarrow> int) \<Rightarrow> message_log \<Rightarrow> string \<Rightarrow> visibility option \<Rightarrow> (pytime \<times> string) option \<Rightarrow> session_row list" where
  "catalog_rest jd s pre vis c = (case c of None \<Rightarrow> catalog_rows jd s pre vis
     | Some c \<Rightarrow> filter (catalog_after jd c) (catalog_rows jd s pre vis))"

text \<open>Paging the session catalog partitions it: a page holds the first \<open>limit\<close> of the sessions left, its cursor
  is missing exactly when none are left after them, and the sessions left for that cursor are the
  ones after this page - none skipped, none shown twice.\<close>

theorem catalog_pages_partition:
  assumes "wf_log s" and "times_aware s" and "1 \<le> limit" "limit \<le> 200" and "catalog_cursor after = Inr c"
  shows "\<exists>p. catalog_sessions jd s pre vis after limit = Inr p
    \<and> map e_session (sp_items p) = map s_key (take (nat limit) (catalog_rest jd s pre vis c))
    \<and> sp_total p = length (catalog_rows jd s pre vis)
    \<and> (sp_cursor p = None \<longleftrightarrow> length (catalog_rest jd s pre vis c) \<le> nat limit)
    \<and> (\<forall>c'. sp_cursor p = Some c' \<longrightarrow> catalog_cursor (Some (Some (fst c'), snd c')) = Inr (Some c')
          \<and> catalog_rest jd s pre vis (Some c') = drop (nat limit) (catalog_rest jd s pre vis c))"
proof -
  let ?rest = "catalog_rest jd s pre vis c"
  obtain p where p: "catalog_sessions jd s pre vis after limit = Inr p"
      "map e_session (sp_items p) = map s_key (take (nat limit) ?rest)" "sp_total p = length (catalog_rows jd s pre vis)"
      "sp_cursor p = None \<longleftrightarrow> length ?rest \<le> nat limit"
      "\<And>c'. sp_cursor p = Some c' \<Longrightarrow> catalog_cursor (Some (Some (fst c'), snd c')) = Inr (Some c')
          \<and> catalog_after jd c' = catalog_less jd (last (take (nat limit) ?rest))"
    using catalog_page[OF assms catalog_rest_def, of jd pre vis] by (elim exE conjE) metis
  have "catalog_rest jd s pre vis (Some c') = drop (nat limit) ?rest" if "sp_cursor p = Some c'" for c'
  proof -
    have "?rest \<noteq> []" using p(4) that by auto
    then have "filter (catalog_less jd (last (take (nat limit) ?rest))) (catalog_rows jd s pre vis) = drop (nat limit) ?rest"
      using assms(1,3) by (intro catalog_next[OF _ _ catalog_rest_def]) (simp_all add: wf_log_def)
    moreover have "catalog_rest jd s pre vis (Some c')
        = filter (catalog_less jd (last (take (nat limit) ?rest))) (catalog_rows jd s pre vis)"
      unfolding catalog_rest_def[of _ _ _ _ "Some c'"] option.case p(5)[OF that, THEN conjunct2] ..
    ultimately show ?thesis by (simp only:)
  qed
  then have "\<forall>c'. sp_cursor p = Some c' \<longrightarrow> catalog_cursor (Some (Some (fst c'), snd c')) = Inr (Some c')
          \<and> catalog_rest jd s pre vis (Some c') = drop (nat limit) ?rest" using p(5) by blast
  then show ?thesis using p(1-4) by (intro exI[of _ p] conjI)
qed

lemma catalog_pages_partition_witness:
  "\<exists>p. catalog_sessions (\<lambda>t. 0) log3 ''s'' None None 1 = Inr p \<and> sp_total p = 1"
proof -
  have "times_aware log3" by (simp add: times_aware_def log_after_def new_session_def)
  moreover have "length (catalog_rows (\<lambda>t. 0) log3 ''s'' None) = 1"
    by (simp add: catalog_rows_def catalog_filter_def log_after_def new_session_def)
  ultimately show ?thesis using catalog_pages_partition[of log3 1 None None "\<lambda>t. 0" "''s''" None] by (auto simp: catalog_cursor_def)
qed

end
