(* ===== verification/Owner_Store.thy ===== *)
theory Owner_Store
  imports Message_Store
begin

text \<open>
  \<open>OwnerStore\<close> and \<open>OwnerTransaction\<close> of \<open>session/log.py\<close>: one owner's versioned JSON records,
  written by compare-and-swap, in one transaction with messages.

  A transaction callback is the client's program; it may catch what an operation raises and go on.
  \<open>tx_prog\<close> is such a program: each operation hands its result, value or exception, to the rest.
  After a failed operation every further operation raises and the transaction cannot commit, so
  what a failed statement left behind is never seen: an error leaves the state as it was.

  The contract of the records, for the clients that keep their state in them, is the locale
  \<open>versioned_records\<close>; its interpretation on the log is \<open>owner_rows\<close>.
\<close>

section \<open>Records\<close>

record owner_record =
  rec_version :: int
  rec_value :: json_object

text \<open>\<open>json.loads\<close> without a hook keeps the last value of a repeated key.\<close>

primrec loads_last :: "json \<Rightarrow> json" where
  "loads_last JNull = JNull"
| "loads_last (JBool b) = JBool b"
| "loads_last (JInt i) = JInt i"
| "loads_last (JFloat r i) = JFloat r i"
| "loads_last (JStr s) = JStr s"
| "loads_last (JArr xs) = JArr (map loads_last xs)"
| "loads_last (JObj kvs) = JObj (fold (\<lambda>p. AList.update (fst p) (snd p)) (map (map_prod id loads_last) kvs) [])"

definition owner_record_of :: "owner_row \<Rightarrow> owner_record res" where
  "owner_record_of row =
     (if o_version row < 0 then Inl ValueError
      else case loads_last (o_value row) of
        JObj kvs \<Rightarrow> Inr \<lparr>rec_version = o_version row, rec_value = kvs\<rparr>
      | _ \<Rightarrow> Inl ValueError)"

definition owner_rows_of :: "message_log \<Rightarrow> string \<Rightarrow> owner_row list" where
  "owner_rows_of s owner = filter (\<lambda>r. o_owner r = owner) (owner_records s)"

definition owner_row :: "message_log \<Rightarrow> string \<Rightarrow> string \<Rightarrow> owner_row option" where
  "owner_row s owner key = find (\<lambda>r. o_owner r = owner \<and> o_key r = key) (owner_records s)"

definition owner_read :: "message_log \<Rightarrow> string \<Rightarrow> string \<Rightarrow> owner_record option res" where
  "owner_read s owner key =
     (case owner_row s owner key of
        None \<Rightarrow> Inr None
      | Some row \<Rightarrow> bindR (owner_record_of row) (\<lambda>r. Inr (Some r)))"

definition owner_list :: "message_log \<Rightarrow> string \<Rightarrow> (string \<times> owner_record) list res" where
  "owner_list s owner =
     mapR (\<lambda>row. bindR (owner_record_of row) (\<lambda>r. Inr (o_key row, r))) (sort_key o_key (owner_rows_of s owner))"

definition owner_scan :: "message_log \<Rightarrow> string \<Rightarrow> string \<Rightarrow> string \<Rightarrow> int \<Rightarrow> (string \<times> owner_record) list res" where
  "owner_scan s owner start stop limit =
     (if stop \<le> start then Inl ValueError
      else if \<not> (1 \<le> limit \<and> limit \<le> 1000) then Inl ValueError
      else mapR (\<lambda>row. bindR (owner_record_of row) (\<lambda>r. Inr (o_key row, r)))
             (take (nat limit) (rev (sort_key o_key
               (filter (\<lambda>r. start \<le> o_key r \<and> o_key r < stop) (owner_rows_of s owner))))))"

text \<open>\<open>INSERT .. ON CONFLICT(owner,key) DO UPDATE\<close>.\<close>

definition upsert_owner_row :: "owner_row \<Rightarrow> owner_row list \<Rightarrow> owner_row list" where
  "upsert_owner_row row rows =
     (if list_ex (\<lambda>r. o_owner r = o_owner row \<and> o_key r = o_key row) rows
      then map (\<lambda>r. if o_owner r = o_owner row \<and> o_key r = o_key row
                    then r\<lparr>o_version := o_version row, o_value := o_value row\<rparr> else r) rows
      else rows @ [row])"

definition owner_save ::
  "string \<Rightarrow> string \<Rightarrow> pyval \<Rightarrow> int option \<Rightarrow> message_log \<Rightarrow> (owner_record \<times> message_log) res" where
  "owner_save owner key value expected_version s =
     (if key = [] then Inl ValueError
      else if (case expected_version of None \<Rightarrow> False | Some v \<Rightarrow> v < 0) then Inl ValueError
      else bindR (freeze_json value) (\<lambda>frozen.
        if \<not> is_mapping value then Inl TypeError
        else bindR (owner_read s owner key) (\<lambda>current.
          if map_option rec_version current \<noteq> expected_version then Inl MessageConflict
          else
            let version = (case current of None \<Rightarrow> 0 | Some r \<Rightarrow> rec_version r + 1) in
            Inr (\<lparr>rec_version = version, rec_value = obj_items frozen\<rparr>,
                 s\<lparr>owner_records := upsert_owner_row
                   \<lparr>o_owner = owner, o_key = key, o_version = version, o_value = json_sorted frozen\<rparr>
                   (owner_records s)\<rparr>))))"

section \<open>Transactions\<close>

datatype 'a tx_prog =
    Return 'a
  | Raise py_error
  | Read string "owner_record option res \<Rightarrow> 'a tx_prog"
  | Save string pyval "int option" "owner_record res \<Rightarrow> 'a tx_prog"
  | Append writer string body "int option" "pyval option" "message res \<Rightarrow> 'a tx_prog"

text \<open>\<open>_perform\<close>: refused once an operation has failed; a failure marks the transaction.\<close>

definition perform :: "(message_log \<Rightarrow> ('b \<times> message_log) res) \<Rightarrow> bool \<times> message_log \<Rightarrow> 'b res \<times> (bool \<times> message_log)" where
  "perform operation st =
     (if fst st then (Inl RuntimeError, st)
      else case operation (snd st) of
        Inl e \<Rightarrow> (Inl e, (True, snd st))
      | Inr (x, t) \<Rightarrow> (Inr x, (False, t)))"

definition tx_read :: "string \<Rightarrow> string \<Rightarrow> bool \<times> message_log \<Rightarrow> owner_record option res" where
  "tx_read owner key st = (if fst st then Inl RuntimeError else owner_read (snd st) owner key)"

primrec run_tx :: "string \<Rightarrow> int \<Rightarrow> 'a tx_prog \<Rightarrow> bool \<times> message_log \<Rightarrow> 'a res \<times> (bool \<times> message_log)" where
  "run_tx owner now (Return x) = (\<lambda>st. (Inr x, st))"
| "run_tx owner now (Raise e) = (\<lambda>st. (Inl e, st))"
| "run_tx owner now (Read key k) = (\<lambda>st. run_tx owner now (k (tx_read owner key st)) st)"
| "run_tx owner now (Save key v ver k) = (\<lambda>st.
     case perform (owner_save owner key v ver) st of (r, st') \<Rightarrow> run_tx owner now (k r) st')"
| "run_tx owner now (Append w mid b h md k) = (\<lambda>st.
     case perform (append_message now w mid b h md) st of (r, st') \<Rightarrow> run_tx owner now (k r) st')"

definition transact :: "string \<Rightarrow> int \<Rightarrow> 'a tx_prog \<Rightarrow> message_log \<Rightarrow> 'a res \<times> message_log" where
  "transact owner now prog s =
     write_tx (\<lambda>s.
       case run_tx owner now prog (False, s) of
         (Inl e, st) \<Rightarrow> Inl e
       | (Inr x, (failed, t)) \<Rightarrow> if failed then Inl RuntimeError else Inr (x, t)) s"

section \<open>Facts of the rows\<close>

definition wf_owner_rows :: "message_log \<Rightarrow> bool" where
  "wf_owner_rows s \<longleftrightarrow> distinct (map (\<lambda>r. (o_owner r, o_key r)) (owner_records s))
     \<and> (\<forall>r \<in> set (owner_records s). 0 \<le> o_version r \<and> wf_json (o_value r) \<and> (\<exists>kvs. o_value r = JObj kvs))"

lemma fold_update_id:
  "distinct (keys kvs) \<Longrightarrow> set (keys kvs) \<inter> set (keys acc) = {} \<Longrightarrow>
     fold (\<lambda>p. AList.update (fst p) (snd p)) kvs acc = acc @ kvs"
proof (induction kvs arbitrary: acc)
  case (Cons p kvs)
  have "AList.update (fst p) (snd p) acc = acc @ [p]"
    using Cons.prems(2) set_update_notin[of "fst p" acc "snd p"] by auto
  then show ?case using Cons by auto
qed simp

lemma loads_last_wf [simp]: "wf_json j \<Longrightarrow> loads_last j = j"
proof (induction j)
  case (JArr xs)
  then show ?case by (auto simp: list_all_iff intro: map_idI)
next
  case (JObj kvs)
  have "map (map_prod id loads_last) kvs = kvs"
  proof (rule map_idI)
    fix p assume "p \<in> set kvs"
    then have "loads_last (snd p) = snd p" using JObj.IH[of p "snd p"] JObj.prems
      by (auto simp: snds.simps list_all_iff)
    then show "map_prod id loads_last p = p" by (simp add: prod_eq_iff)
  qed
  then show ?case using fold_update_id[of kvs "[]"] JObj.prems by simp
qed simp_all

lemma owner_record_of_wf: "0 \<le> o_version r \<Longrightarrow> wf_json (o_value r) \<Longrightarrow> o_value r = JObj kvs \<Longrightarrow>
    owner_record_of r = Inr \<lparr>rec_version = o_version r, rec_value = kvs\<rparr>"
  by (simp add: owner_record_of_def del: loads_last.simps)

lemma owner_row_mem: "owner_row s owner key = Some r \<Longrightarrow> r \<in> set (owner_records s) \<and> o_owner r = owner \<and> o_key r = key"
  by (auto simp: owner_row_def dest: find_Some_iff')

lemma owner_read_total:
  assumes "wf_owner_rows s"
  shows "\<exists>r. owner_read s owner key = Inr r"
proof (cases "owner_row s owner key")
  case (Some row)
  then obtain kvs where "0 \<le> o_version row" "wf_json (o_value row)" "o_value row = JObj kvs"
    using assms owner_row_mem[OF Some] unfolding wf_owner_rows_def by blast
  then show ?thesis using Some owner_record_of_wf by (simp add: owner_read_def)
qed (simp add: owner_read_def)

lemma owner_row_find:
  assumes "wf_owner_rows s" and "r \<in> set (owner_records s)"
  shows "owner_row s (o_owner r) (o_key r) = Some r"
  using find_unique[of "\<lambda>r. (o_owner r, o_key r)" "owner_records s" r] assms
  by (simp add: wf_owner_rows_def owner_row_def)

lemma find_upsert:
  "find (\<lambda>r. o_owner r = ow \<and> o_key r = k) (upsert_owner_row row rows) =
     (if ow = o_owner row \<and> k = o_key row
      then Some (case find (\<lambda>r. o_owner r = ow \<and> o_key r = k) rows of
                   None \<Rightarrow> row | Some r \<Rightarrow> r\<lparr>o_version := o_version row, o_value := o_value row\<rparr>)
      else find (\<lambda>r. o_owner r = ow \<and> o_key r = k) rows)"
proof -
  let ?at = "\<lambda>r. o_owner r = o_owner row \<and> o_key r = o_key row"
  let ?f = "\<lambda>r. if ?at r then r\<lparr>o_version := o_version row, o_value := o_value row\<rparr> else r"
  have upd: "find (\<lambda>r. o_owner r = ow \<and> o_key r = k) (map ?f rows)
      = map_option ?f (find (\<lambda>r. o_owner r = ow \<and> o_key r = k) rows)"
    by (induction rows) auto
  show ?thesis
  proof (cases "list_ex ?at rows")
    case True
    have "find ?at rows \<noteq> None" using True by (auto simp: list_ex_iff find_None_iff')
    then obtain r where r: "find ?at rows = Some r" by blast
    then have "?at r" using find_Some_iff' by fast
    show ?thesis
    proof (cases "ow = o_owner row \<and> k = o_key row")
      case same: True
      then show ?thesis using True upd r \<open>?at r\<close> by (simp add: upsert_owner_row_def)
    next
      case False
      have "map_option ?f (find (\<lambda>r. o_owner r = ow \<and> o_key r = k) rows) = find (\<lambda>r. o_owner r = ow \<and> o_key r = k) rows"
        using False by (cases "find (\<lambda>r. o_owner r = ow \<and> o_key r = k) rows") (auto dest: find_Some_iff')
      then show ?thesis using False True upd by (auto simp: upsert_owner_row_def)
    qed
  next
    case False
    then have "find ?at rows = None" by (auto simp: list_ex_iff find_None_iff')
    then show ?thesis using False by (auto simp: upsert_owner_row_def find_append split: option.splits)
  qed
qed

lemma upsert_keys:
  "map (\<lambda>r. (o_owner r, o_key r)) (upsert_owner_row row rows) =
     (if list_ex (\<lambda>r. o_owner r = o_owner row \<and> o_key r = o_key row) rows
      then map (\<lambda>r. (o_owner r, o_key r)) rows
      else map (\<lambda>r. (o_owner r, o_key r)) rows @ [(o_owner row, o_key row)])"
  by (auto simp: upsert_owner_row_def)

lemma upsert_wf:
  assumes "wf_owner_rows s" and "0 \<le> o_version row" and "wf_json (o_value row)" and "o_value row = JObj kvs"
  shows "wf_owner_rows (s\<lparr>owner_records := upsert_owner_row row (owner_records s)\<rparr>)"
proof -
  have "distinct (map (\<lambda>r. (o_owner r, o_key r)) (upsert_owner_row row (owner_records s)))"
    unfolding upsert_keys using assms(1) by (auto simp: wf_owner_rows_def list_ex_iff)
  moreover have "\<forall>r \<in> set (upsert_owner_row row (owner_records s)).
      0 \<le> o_version r \<and> wf_json (o_value r) \<and> (\<exists>kvs. o_value r = JObj kvs)"
    using assms by (auto simp: wf_owner_rows_def upsert_owner_row_def simp del: wf_json.simps)
  ultimately show ?thesis by (simp add: wf_owner_rows_def)
qed

text \<open>Everything a successful save establishes.\<close>

lemma owner_save_effect:
  assumes save: "owner_save owner key v ver s = Inr (r, t)" and wf: "wf_owner_rows s" and v: "wf_pyval v"
  shows "(\<exists>cur. owner_read s owner key = Inr cur \<and> map_option rec_version cur = ver
            \<and> rec_version r = (case cur of None \<Rightarrow> 0 | Some c \<Rightarrow> rec_version c + 1))
     \<and> freeze_json v = Inr (JObj (rec_value r))
     \<and> owner_read t owner key = Inr (Some (r\<lparr>rec_value := obj_items (json_sorted (JObj (rec_value r)))\<rparr>))
     \<and> (\<forall>ow k. (ow, k) \<noteq> (owner, key) \<longrightarrow> owner_row t ow k = owner_row s ow k)
     \<and> wf_owner_rows t \<and> t = s\<lparr>owner_records := owner_records t\<rparr>"
proof -
  from save obtain frozen cur where f: "freeze_json v = Inr frozen" and m: "is_mapping v"
    and cur: "owner_read s owner key = Inr cur" and ver: "map_option rec_version cur = ver"
    and r: "r = \<lparr>rec_version = (case cur of None \<Rightarrow> 0 | Some c \<Rightarrow> rec_version c + 1), rec_value = obj_items frozen\<rparr>"
    and t: "t = s\<lparr>owner_records := upsert_owner_row
       \<lparr>o_owner = owner, o_key = key, o_version = rec_version r, o_value = json_sorted frozen\<rparr> (owner_records s)\<rparr>"
    by (auto simp: owner_save_def res_simps Let_def split: if_splits)
  obtain d where d: "json_sorted frozen = JObj d" and fo: "frozen = JObj (obj_items frozen)"
    using freeze_mapping[OF m f] by (metis json_sorted.simps(7))
  have wfd: "wf_json (JObj d)" using wf_freeze_json[OF v f] unfolding d[symmetric] by simp
  have "0 \<le> rec_version c" if "cur = Some c" for c
    using cur that wf by (auto simp: owner_read_def owner_record_of_def res_simps split: option.splits json.splits if_splits)
  then have pos: "0 \<le> rec_version r" by (auto simp: r split: option.splits)
  let ?row = "\<lparr>o_owner = owner, o_key = key, o_version = rec_version r, o_value = json_sorted frozen\<rparr>"
  have wft: "wf_owner_rows t" unfolding t using pos wfd d by (intro upsert_wf[OF wf]) auto
  have row: "owner_row t owner key = Some (case owner_row s owner key of None \<Rightarrow> ?row
      | Some x \<Rightarrow> x\<lparr>o_version := rec_version r, o_value := json_sorted frozen\<rparr>)"
    using find_upsert[of owner key ?row "owner_records s"]
    by (cases "owner_row s owner key") (simp_all add: owner_row_def t)
  have "owner_read t owner key = Inr (Some \<lparr>rec_version = rec_version r, rec_value = d\<rparr>)"
    unfolding owner_read_def row using pos wfd d
    by (auto simp: owner_record_of_def simp del: loads_last.simps wf_json.simps split: option.splits)
  moreover have "obj_items (json_sorted (JObj (rec_value r))) = d"
    using d fo by (simp add: r del: json_sorted.simps)
  moreover have "owner_row t ow k = owner_row s ow k" if "(ow, k) \<noteq> (owner, key)" for ow k
    unfolding owner_row_def t using find_upsert[of ow k ?row "owner_records s"] that by auto
  ultimately show ?thesis
    using cur ver wft f fo t by (auto simp: r)
qed

section \<open>The contract of the records\<close>

text \<open>
  \<open>fetch s k\<close> is the record under a key, its version and its value; \<open>save k v e\<close> replaces the
  version \<open>e\<close> (\<open>None\<close>: no record yet) and returns the new version.
\<close>

locale versioned_records =
  fixes ok :: "'s \<Rightarrow> bool"
    and fetch :: "'s \<Rightarrow> 'k \<Rightarrow> (int \<times> 'd) option"
    and save :: "'k \<Rightarrow> 'v \<Rightarrow> int option \<Rightarrow> 's \<Rightarrow> (int \<times> 's) res"
    and good :: "'v \<Rightarrow> bool"
    and doc :: "'v \<Rightarrow> 'd"
  assumes save_ok: "ok s \<Longrightarrow> good v \<Longrightarrow> save k v e s = Inr (n, t) \<Longrightarrow> ok t"
    and save_version: "ok s \<Longrightarrow> good v \<Longrightarrow> save k v e s = Inr (n, t) \<Longrightarrow>
          map_option fst (fetch s k) = e \<and> n = (case e of None \<Rightarrow> 0 | Some m \<Rightarrow> m + 1)"
    and save_fetch: "ok s \<Longrightarrow> good v \<Longrightarrow> save k v e s = Inr (n, t) \<Longrightarrow> fetch t k = Some (n, doc v)"
    and save_other: "ok s \<Longrightarrow> good v \<Longrightarrow> save k v e s = Inr (n, t) \<Longrightarrow> k' \<noteq> k \<Longrightarrow> fetch t k' = fetch s k'"
begin

text \<open>Of two writers that read the same version, the second loses.\<close>

lemma stale_loses:
  assumes "ok s" and "good v" and "good v'" and first: "save k v e s = Inr (n, t)"
  shows "save k v' e t \<noteq> Inr (m, u)"
proof
  assume second: "save k v' e t = Inr (m, u)"
  have "fetch t k = Some (n, doc v)" by (rule save_fetch[OF assms(1,2) first])
  then have "e = Some n" using save_version[OF save_ok[OF assms(1,2) first] assms(3) second] by simp
  then show False using save_version[OF assms(1,2) first] by (cases e) auto
qed

inductive saves :: "'s \<Rightarrow> nat \<Rightarrow> 'k \<Rightarrow> 's \<Rightarrow> bool" where
  none: "saves s 0 k s"
| this_key: "saves s c k t \<Longrightarrow> good v \<Longrightarrow> save k v e t = Inr (n, u) \<Longrightarrow> saves s (Suc c) k u"
| other_key: "saves s c k t \<Longrightarrow> good v \<Longrightarrow> save k' v e t = Inr (n, u) \<Longrightarrow> k' \<noteq> k \<Longrightarrow> saves s c k u"

lemma saves_ok: "saves s c k t \<Longrightarrow> ok s \<Longrightarrow> ok t"
  by (induction rule: saves.induct) (auto intro: save_ok)

text \<open>The version of a record counts the saves of its key.\<close>

lemma version_counts:
  assumes "saves s c k t" and "ok s" and "fetch s k = None"
  shows "map_option fst (fetch t k) = (if c = 0 then None else Some (int c - 1))"
  using assms
proof (induction rule: saves.induct)
  case (this_key s c k t v e n u)
  then show ?case using save_version[OF saves_ok[OF this_key(1) this_key(5)] this_key(2,3)]
      save_fetch[OF saves_ok[OF this_key(1) this_key(5)] this_key(2,3)] by auto
next
  case (other_key s c k t v k' e n u)
  then show ?case using save_other[OF saves_ok[OF other_key(1) other_key(6)] other_key(2,3)] by auto
qed simp

end

definition fetch_record :: "string \<Rightarrow> message_log \<Rightarrow> string \<Rightarrow> (int \<times> json_object) option" where
  "fetch_record owner s key =
     (case owner_read s owner key of
        Inr (Some r) \<Rightarrow> Some (rec_version r, rec_value r)
      | _ \<Rightarrow> None)"

definition save_record :: "string \<Rightarrow> string \<Rightarrow> pyval \<Rightarrow> int option \<Rightarrow> message_log \<Rightarrow> (int \<times> message_log) res" where
  "save_record owner key v e s = bindR (owner_save owner key v e s) (\<lambda>(r, t). Inr (rec_version r, t))"

definition saved_doc :: "pyval \<Rightarrow> json_object" where
  "saved_doc v = (case freeze_json v of Inl e \<Rightarrow> [] | Inr j \<Rightarrow> obj_items (json_sorted j))"

lemma fetch_read: "wf_owner_rows s \<Longrightarrow> owner_read s owner key = Inr cur \<Longrightarrow>
    fetch_record owner s key = map_option (\<lambda>r. (rec_version r, rec_value r)) cur"
  by (auto simp: fetch_record_def split: option.splits)

interpretation owner_rows: versioned_records wf_owner_rows "fetch_record owner" "save_record owner" wf_pyval saved_doc
  for owner
proof unfold_locales
  fix s v k e n t
  assume wf: "wf_owner_rows s" and v: "wf_pyval v" and "save_record owner k v e s = Inr (n, t)"
  then obtain r where save: "owner_save owner k v e s = Inr (r, t)" and n: "n = rec_version r"
    by (auto simp: save_record_def res_simps)
  note eff = owner_save_effect[OF save wf v]
  show "wf_owner_rows t" using eff by blast
  obtain cur where cur: "owner_read s owner k = Inr cur" "map_option rec_version cur = e"
    "rec_version r = (case cur of None \<Rightarrow> 0 | Some c \<Rightarrow> rec_version c + 1)" using eff by blast
  show "map_option fst (fetch_record owner s k) = e \<and> n = (case e of None \<Rightarrow> 0 | Some m \<Rightarrow> m + 1)"
    using cur fetch_read[OF wf cur(1)] n by (cases cur) auto
  show "fetch_record owner t k = Some (n, saved_doc v)"
    using eff n by (auto simp: fetch_record_def saved_doc_def)
  show "fetch_record owner t k' = fetch_record owner s k'" if "k' \<noteq> k" for k'
    using eff that by (auto simp: fetch_record_def owner_read_def)
qed

section \<open>Transactions\<close>

primrec prog_ok :: "'a tx_prog \<Rightarrow> bool" where
  "prog_ok (Return x) = True"
| "prog_ok (Raise e) = True"
| "prog_ok (Read key k) = (\<forall>r. prog_ok (k r))"
| "prog_ok (Save key v ver k) = (wf_pyval v \<and> (\<forall>r. prog_ok (k r)))"
| "prog_ok (Append w mid b h md k) =
     (wf_writer w \<and> wf_body b \<and> pred_option wf_pyval md \<and> (\<forall>r. prog_ok (k r)))"

definition wf_store :: "message_log \<Rightarrow> bool" where
  "wf_store s \<longleftrightarrow> wf_log s \<and> wf_owner_rows s"

lemma wf_log_owner: "wf_log (s\<lparr>owner_records := rows\<rparr>) = wf_log s"
  by (simp add: wf_log_def wf_sessions_def wf_messages_def wf_references_def row_ok_def message_of_def next_seq_def
      find_session_def call_before_def find_message_def attachment_key_missing_def artifact_ready_def ordinals_of_def)

lemma wf_owner_rows_cong: "owner_records t = owner_records s \<Longrightarrow> wf_owner_rows t = wf_owner_rows s"
  by (simp add: wf_owner_rows_def)

lemma owner_save_wf:
  assumes "owner_save owner key v ver s = Inr (r, t)" and "wf_store s" and "wf_pyval v"
  shows "wf_store t \<and> extends s t"
proof -
  have wf: "wf_owner_rows s" using assms(2) by (simp add: wf_store_def)
  note eff = owner_save_effect[OF assms(1) wf assms(3)]
  then have t: "t = s\<lparr>owner_records := owner_records t\<rparr>" by blast
  have "wf_log t" using assms(2) unfolding wf_store_def by (subst t) (simp only: wf_log_owner)
  moreover have "extends s t" unfolding extends_def by (subst t, subst (2) t) simp
  ultimately show ?thesis using eff by (simp add: wf_store_def)
qed

lemma append_owner_records:
  assumes "append_message now w mid b h md s = Inr (m, t)" and "wf_log s" "wf_body b" "pred_option wf_pyval md" "wf_writer w"
  shows "owner_records t = owner_records s"
  using append_cases[OF assms(1)]
proof (elim conjE disjE)
  assume "committed now w mid b h md s m t"
  then obtain row bids arts where "appended w row bids arts s t" using committed_effect[OF _ assms(2-5)] by blast
  then show ?thesis by (simp add: appended_def)
qed simp

lemma append_store:
  assumes "append_message now w mid b h md s = Inr (m, t)" and "wf_store s" "wf_body b" "pred_option wf_pyval md" "wf_writer w"
  shows "wf_store t \<and> extends s t"
proof -
  have wf: "wf_log s" "wf_owner_rows s" using assms(2) by (simp_all add: wf_store_def)
  have "wf_owner_rows t" using wf_owner_rows_cong[OF append_owner_records[OF assms(1) wf(1) assms(3-5)]] wf(2) by simp
  then show ?thesis
    using append_wf[OF assms(1) wf(1) assms(3-5)] append_extends[OF assms(1)] by (simp add: wf_store_def)
qed

lemma run_tx_wf:
  assumes "run_tx owner now prog st = (r, st')" and "prog_ok prog" and "wf_store (snd st)"
  shows "wf_store (snd st') \<and> extends (snd st) (snd st')"
  using assms
proof (induction prog arbitrary: st)
  case (Save key v ver k)
  obtain x st1 where p: "perform (owner_save owner key v ver) st = (x, st1)" by (metis prod.exhaust)
  have "wf_store (snd st1) \<and> extends (snd st) (snd st1)"
    using p Save.prems owner_save_wf by (auto simp: perform_def split: if_splits sum.splits)
  moreover have "run_tx owner now (k x) st1 = (r, st')" using Save.prems(1) p by simp
  ultimately show ?case using Save.IH[of "k x" st1] Save.prems(2) extends_trans by auto
next
  case (Append w mid b h md k)
  obtain x st1 where p: "perform (append_message now w mid b h md) st = (x, st1)" by (metis prod.exhaust)
  have "wf_store (snd st1) \<and> extends (snd st) (snd st1)"
    using p Append.prems append_store by (auto simp: perform_def split: if_splits sum.splits)
  moreover have "run_tx owner now (k x) st1 = (r, st')" using Append.prems(1) p by simp
  ultimately show ?case using Append.IH[of "k x" st1] Append.prems(2) extends_trans by auto
next
  case (Read key k)
  then show ?case using Read.IH[of "k (tx_read owner key st)" st] by simp
qed auto

lemma wf_store_in_tx: "wf_store (s\<lparr>in_tx := x\<rparr>) = wf_store s"
  by (simp add: wf_store_def wf_log_in_tx wf_owner_rows_def)

lemma transact_wf:
  assumes "transact owner now prog s = (r, t)" and "prog_ok prog" and "wf_store s"
  shows "wf_store t \<and> extends s t"
proof (cases "in_tx s")
  case True
  then show ?thesis using assms by (simp add: transact_def write_tx_def)
next
  case False
  obtain x f u where run: "run_tx owner now prog (False, s\<lparr>in_tx := True\<rparr>) = (x, (f, u))"
    by (metis prod.exhaust)
  have "wf_store u \<and> extends (s\<lparr>in_tx := True\<rparr>) u"
    using run_tx_wf[OF run assms(2)] assms(3) by (simp add: wf_store_in_tx)
  then show ?thesis
    using assms(1,3) run False
    by (auto simp: transact_def write_tx_def wf_store_in_tx extends_def split: sum.splits if_splits)
qed

text \<open>
  What a callback asks for, stated without the transaction: its operations carried out one after the
  other on the store each of them finds, every one successful and its result handed back, up to the value
  the callback returns. A failed operation is never committed, whatever the callback does with its
  exception.
\<close>

inductive carried_out :: "string \<Rightarrow> int \<Rightarrow> 'a tx_prog \<Rightarrow> message_log \<Rightarrow> 'a \<Rightarrow> message_log \<Rightarrow> bool" for owner now where
  returns: "carried_out owner now (Return x) s x s"
| reads: "carried_out owner now (k (owner_read s owner key)) s x t \<Longrightarrow> carried_out owner now (Read key k) s x t"
| saves: "owner_save owner key v ver s = Inr (r, u) \<Longrightarrow> carried_out owner now (k (Inr r)) u x t
    \<Longrightarrow> carried_out owner now (Save key v ver k) s x t"
| appends: "append_message now w mid b h md s = Inr (m, u) \<Longrightarrow> carried_out owner now (k (Inr m)) u x t
    \<Longrightarrow> carried_out owner now (Append w mid b h md k) s x t"

inductive_simps carried_out_simps:
  "carried_out owner now (Return y) s x t"
  "carried_out owner now (Raise e) s x t"
  "carried_out owner now (Read key k) s x t"
  "carried_out owner now (Save key v ver k) s x t"
  "carried_out owner now (Append w mid b h md k) s x t"

lemma carried_out_run: "carried_out owner now prog s x t \<Longrightarrow> run_tx owner now prog (False, s) = (Inr x, (False, t))"
  by (induction rule: carried_out.induct) (simp_all add: perform_def tx_read_def)

lemma run_failed: "snd (run_tx owner now prog (True, s)) = (True, s)"
  by (induction prog) (auto simp: perform_def tx_read_def split: prod.splits)

lemma run_clean: "run_tx owner now prog (False, s) = (Inr x, (False, t)) \<Longrightarrow> carried_out owner now prog s x t"
proof (induction prog arbitrary: s)
  case (Read key k)
  then show ?case using Read.IH[of "k (owner_read s owner key)" s] by (simp add: tx_read_def carried_out_simps)
next
  case (Save key v ver k)
  show ?case
  proof (cases "owner_save owner key v ver s")
    case (Inl e)
    then show ?thesis using Save.prems run_failed[of owner now "k (Inl e)" s] by (simp add: perform_def)
  next
    case (Inr p)
    then show ?thesis using Save by (cases p) (simp add: perform_def carried_out_simps)
  qed
next
  case (Append w mid b h md k)
  show ?case
  proof (cases "append_message now w mid b h md s")
    case (Inl e)
    then show ?thesis using Append.prems run_failed[of owner now "k (Inl e)" s] by (simp add: perform_def)
  next
    case (Inr p)
    then show ?thesis using Append by (cases p) (simp add: perform_def carried_out_simps)
  qed
qed (simp_all add: carried_out_simps)

lemma transact_commits:
  "transact owner now prog s = (Inr x, t) \<longleftrightarrow>
     \<not> in_tx s \<and> (\<exists>u. carried_out owner now prog (s\<lparr>in_tx := True\<rparr>) x u \<and> t = u\<lparr>in_tx := False\<rparr>)"
proof
  assume "transact owner now prog s = (Inr x, t)"
  then obtain u where "\<not> in_tx s" "run_tx owner now prog (False, s\<lparr>in_tx := True\<rparr>) = (Inr x, (False, u))" "t = u\<lparr>in_tx := False\<rparr>"
    by (auto simp: transact_def write_tx_def split: prod.splits sum.splits if_splits)
  then show "\<not> in_tx s \<and> (\<exists>u. carried_out owner now prog (s\<lparr>in_tx := True\<rparr>) x u \<and> t = u\<lparr>in_tx := False\<rparr>)"
    using run_clean[of owner now prog "s\<lparr>in_tx := True\<rparr>" x u] by auto
next
  assume "\<not> in_tx s \<and> (\<exists>u. carried_out owner now prog (s\<lparr>in_tx := True\<rparr>) x u \<and> t = u\<lparr>in_tx := False\<rparr>)"
  then show "transact owner now prog s = (Inr x, t)"
    using carried_out_run by (fastforce simp: transact_def write_tx_def)
qed

lemma transact_error: "transact owner now prog s = (Inl e, t) \<Longrightarrow> t = s"
  unfolding transact_def by (rule write_tx_error)

end
