(* ===== verification/Artifact_Store.thy ===== *)
theory Artifact_Store
  imports Artifacts
begin

text \<open>
  \<open>session/artifact_store.py\<close>: attachment metadata and the import records that make publishing a
  file recoverable. A table is the list of its rows; a statement that violates a key or a CHECK
  is \<open>IntegrityError\<close>, and an error carries no store because the transaction rolls back.
  The import of an artifact moves prepared, file_published, artifact_committed; \<open>wf_artifacts\<close>
  relates the two tables, and \<open>validate_attachment_metadata_integrity\<close> is its run-time check.
\<close>

section \<open>Rows\<close>

record artifact_row =
  ar_id :: string
  ar_key :: string
  ar_kind :: string
  ar_filename :: "string option"
  ar_media :: "string option"
  ar_size :: int
  ar_sha :: string
  ar_state :: string
  ar_created :: string

record import_row =
  ir_id :: string
  ir_key :: string
  ir_size :: int
  ir_sha :: string
  ir_phase :: string
  ir_created :: string
  ir_updated :: string
  ir_error :: "string option"

record artifact_store =
  ar_rows :: "artifact_row list"
  ir_rows :: "import_row list"

record artifact_record =
  rec_ref :: attachment_ref
  rec_key :: string
  rec_created :: string

text \<open>\<open>PurePosixPath(text).parts\<close>: empty components and single dots vanish.\<close>

fun split_slash :: "string \<Rightarrow> string list" where
  "split_slash [] = [[]]"
| "split_slash (c # cs) =
     (if c = CHR ''/'' then [] # split_slash cs
      else case split_slash cs of [] \<Rightarrow> [[c]] | p # ps \<Rightarrow> (c # p) # ps)"

definition posix_parts :: "string \<Rightarrow> string list" where
  "posix_parts s =
     (let body = filter (\<lambda>p. p \<noteq> [] \<and> p \<noteq> ''.'') (split_slash s) in
      if take 2 s = ''//'' \<and> take 3 s \<noteq> ''///'' then ''//'' # body
      else if take 1 s = ''/'' then ''/'' # body
      else body)"

definition check_storage_key :: "string \<Rightarrow> string \<Rightarrow> unit res" where
  "check_storage_key artifact_id storage_key =
     ensure (posix_parts storage_key = [''uploads'', ''artifacts'', artifact_id @ ''.bin'']) ValueError"

definition import_phases :: "string list" where
  "import_phases = [''prepared'', ''file_published'', ''artifact_committed'']"

text \<open>\<open>AttachmentImportRecord.__post_init__\<close>, and \<open>_import_record\<close> on a row.\<close>

definition import_record :: "import_row \<Rightarrow> import_row res" where
  "import_record r =
     (if \<not> artifact_id_ok (ir_id r) then Inl ValueError
      else bindR (check_storage_key (ir_id r) (ir_key r)) (\<lambda>_.
        if ir_size r < 0 then Inl ValueError
        else if \<not> sha256_ok (ir_sha r) then Inl ValueError
        else if ir_phase r \<notin> set import_phases then Inl ValueError
        else if ir_created r = [] \<or> ir_updated r = [] then Inl ValueError
        else if ir_error r = Some [] then Inl ValueError
        else Inr r))"

definition artifact_record_of :: "artifact_row \<Rightarrow> artifact_record res" where
  "artifact_record_of r =
     bindR (as_kind (VStr (ar_kind r))) (\<lambda>k.
     bindR (mk_AttachmentRef (VStr (ar_id r)) k (opt_text (ar_filename r)) (opt_text (ar_media r))
              (VInt (ar_size r)) (VStr (ar_sha r))) (\<lambda>ref.
     bindR (check_storage_key (att_id ref) (ar_key r)) (\<lambda>_.
       if ar_state r \<noteq> ''ready'' \<or> ar_created r = [] then Inl ValueError
       else Inr \<lparr>rec_ref = ref, rec_key = ar_key r, rec_created = ar_created r\<rparr>)))"

section \<open>Operations\<close>

definition find_import :: "artifact_store \<Rightarrow> string \<Rightarrow> import_row option" where
  "find_import s i = find (\<lambda>r. ir_id r = i) (ir_rows s)"

definition find_artifact :: "artifact_store \<Rightarrow> string \<Rightarrow> artifact_row option" where
  "find_artifact s i = find (\<lambda>r. ar_id r = i) (ar_rows s)"

definition begin_attachment_import ::
  "artifact_store \<Rightarrow> string \<Rightarrow> string \<Rightarrow> int \<Rightarrow> string \<Rightarrow> string
     \<Rightarrow> (import_row \<times> artifact_store) res" where
  "begin_attachment_import s artifact_id storage_key expected_size expected_sha created_at =
     bindR (import_record
       \<lparr>ir_id = artifact_id, ir_key = storage_key, ir_size = expected_size, ir_sha = expected_sha,
        ir_phase = ''prepared'', ir_created = created_at, ir_updated = created_at, ir_error = None\<rparr>) (\<lambda>intent.
     case find_import s artifact_id of
       Some existing \<Rightarrow>
         (if ir_key existing \<noteq> storage_key \<or> ir_size existing \<noteq> expected_size
             \<or> ir_sha existing \<noteq> expected_sha then Inl RuntimeError
          else bindR (import_record existing) (\<lambda>r. Inr (r, s)))
     | None \<Rightarrow>
         (if list_ex (\<lambda>r. ir_key r = storage_key) (ir_rows s) then Inl IntegrityError
          else Inr (intent, s\<lparr>ir_rows := ir_rows s @ [intent]\<rparr>)))"

text \<open>An UPDATE with its row count.\<close>

definition update_imports ::
  "artifact_store \<Rightarrow> (import_row \<Rightarrow> bool) \<Rightarrow> (import_row \<Rightarrow> import_row) \<Rightarrow> artifact_store \<times> nat" where
  "update_imports s P f =
     (s\<lparr>ir_rows := map (\<lambda>r. if P r then f r else r) (ir_rows s)\<rparr>, length (filter P (ir_rows s)))"

definition mark_attachment_import_file_published ::
  "artifact_store \<Rightarrow> string \<Rightarrow> string \<Rightarrow> artifact_store res" where
  "mark_attachment_import_file_published s artifact_id updated_at =
     (if updated_at = [] then Inl ValueError
      else case update_imports s (\<lambda>r. ir_id r = artifact_id \<and> ir_phase r = ''prepared'')
             (\<lambda>r. r\<lparr>ir_phase := ''file_published'', ir_updated := updated_at, ir_error := None\<rparr>) of
        (t, n) \<Rightarrow> if n \<noteq> 1 then Inl RuntimeError else Inr t)"

definition record_attachment_import_error ::
  "artifact_store \<Rightarrow> string \<Rightarrow> string \<Rightarrow> string \<Rightarrow> artifact_store res" where
  "record_attachment_import_error s artifact_id error updated_at =
     (if error = [] then Inl ValueError
      else if updated_at = [] then Inl ValueError
      else case update_imports s (\<lambda>r. ir_id r = artifact_id \<and> ir_phase r \<noteq> ''artifact_committed'')
             (\<lambda>r. r\<lparr>ir_updated := updated_at, ir_error := Some error\<rparr>) of
        (t, n) \<Rightarrow> if n \<noteq> 1 then Inl RuntimeError else Inr t)"

definition attachment_import :: "artifact_store \<Rightarrow> string \<Rightarrow> import_row option res" where
  "attachment_import s artifact_id =
     (case find_import s artifact_id of
        None \<Rightarrow> Inr None
      | Some row \<Rightarrow> bindR (import_record row) (\<lambda>r. Inr (Some r)))"

definition incomplete_attachment_imports :: "artifact_store \<Rightarrow> import_row list res" where
  "incomplete_attachment_imports s =
     mapR import_record
       (sort_key ir_created (sort_key ir_id (filter (\<lambda>r. ir_phase r \<noteq> ''artifact_committed'') (ir_rows s))))"

definition get_attachment :: "artifact_store \<Rightarrow> string \<Rightarrow> artifact_record option res" where
  "get_attachment s artifact_id =
     (case find_artifact s artifact_id of
        None \<Rightarrow> Inr None
      | Some row \<Rightarrow> bindR (artifact_record_of row) (\<lambda>r. Inr (Some r)))"

definition list_attachments :: "artifact_store \<Rightarrow> artifact_record list res" where
  "list_attachments s = mapR artifact_record_of (sort_key ar_id (ar_rows s))"

text \<open>
  Publication: the transaction, and the record read back after its commit (an error of that read
  leaves the committed store behind, so the result carries the store on both sides).
\<close>

definition commit_attachment ::
  "artifact_store \<Rightarrow> attachment_ref \<Rightarrow> string \<Rightarrow> string \<Rightarrow> artifact_store res" where
  "commit_attachment s ref storage_key created_at =
     bindR (check_storage_key (att_id ref) storage_key) (\<lambda>_.
     if created_at = [] then Inl ValueError
     else case find_import s (att_id ref) of
       None \<Rightarrow> Inl RuntimeError
     | Some intent \<Rightarrow>
         if ir_phase intent \<noteq> ''file_published'' then Inl RuntimeError
         else if ir_key intent \<noteq> storage_key \<or> ir_size intent \<noteq> att_size ref
                 \<or> ir_sha intent \<noteq> att_sha ref then Inl RuntimeError
         else if list_ex (\<lambda>r. ar_id r = att_id ref \<or> ar_key r = storage_key) (ar_rows s)
           then Inl IntegrityError
         else
           let row = \<lparr>ar_id = att_id ref, ar_key = storage_key, ar_kind = kind_name (att_kind ref),
                      ar_filename = att_filename ref, ar_media = att_media ref,
                      ar_size = att_size ref, ar_sha = att_sha ref, ar_state = ''ready'',
                      ar_created = created_at\<rparr> in
           Inr (fst (update_imports (s\<lparr>ar_rows := ar_rows s @ [row]\<rparr>)
                 (\<lambda>r. ir_id r = att_id ref \<and> ir_phase r = ''file_published'')
                 (\<lambda>r. r\<lparr>ir_phase := ''artifact_committed'', ir_updated := created_at, ir_error := None\<rparr>))))"

definition register_ready_attachment ::
  "artifact_store \<Rightarrow> attachment_ref \<Rightarrow> string \<Rightarrow> string \<Rightarrow> artifact_record res \<times> artifact_store" where
  "register_ready_attachment s ref storage_key created_at =
     (case commit_attachment s ref storage_key created_at of
        Inl e \<Rightarrow> (Inl e, s)
      | Inr t \<Rightarrow> (bindR (get_attachment t (att_id ref)) (\<lambda>found.
                   case found of None \<Rightarrow> Inl RuntimeError | Some r \<Rightarrow> Inr r), t))"

text \<open>
  The integrity report: the artifacts that have to match a committed intent, the committed
  intents that have to have an artifact, and the imports still under way.
\<close>

definition committed_match :: "artifact_row \<Rightarrow> import_row option \<Rightarrow> bool" where
  "committed_match a intent =
     (case intent of None \<Rightarrow> False
      | Some r \<Rightarrow> ir_phase r = ''artifact_committed'' \<and> ir_key r = ar_key a
                    \<and> ir_size r = ar_size a \<and> ir_sha r = ar_sha a)"

definition validate_attachment_metadata_integrity :: "artifact_store \<Rightarrow> (nat \<times> string list) res" where
  "validate_attachment_metadata_integrity s =
     bindR (mapR artifact_record_of (sort_key ar_id (ar_rows s))) (\<lambda>_.
     bindR (mapR import_record (sort_key ir_id (ir_rows s))) (\<lambda>_.
     if list_ex (\<lambda>a. \<not> committed_match a (find_import s (ar_id a))) (ar_rows s) then Inl ValueError
     else if list_ex (\<lambda>r. ir_phase r = ''artifact_committed'' \<and> ir_id r \<notin> set (map ar_id (ar_rows s)))
               (ir_rows s) then Inl ValueError
     else Inr (length (ar_rows s),
               map ir_id (sort_key ir_created
                 (sort_key ir_id (filter (\<lambda>r. ir_phase r \<noteq> ''artifact_committed'') (ir_rows s)))))))"

section \<open>The invariant of the two tables\<close>

definition wf_artifacts :: "artifact_store \<Rightarrow> bool" where
  "wf_artifacts s \<longleftrightarrow>
     distinct (map ir_id (ir_rows s)) \<and> distinct (map ar_id (ar_rows s))
     \<and> (\<forall>r \<in> set (ir_rows s). import_record r = Inr r)
     \<and> (\<forall>a \<in> set (ar_rows s). (\<exists>x. artifact_record_of a = Inr x)
                                \<and> committed_match a (find_import s (ar_id a)))
     \<and> (\<forall>r \<in> set (ir_rows s). ir_phase r = ''artifact_committed'' \<longrightarrow>
                                ir_id r \<in> set (map ar_id (ar_rows s)))"

definition import_ok :: "import_row \<Rightarrow> bool" where
  "import_ok r \<longleftrightarrow> artifact_id_ok (ir_id r)
     \<and> posix_parts (ir_key r) = [''uploads'', ''artifacts'', ir_id r @ ''.bin'']
     \<and> 0 \<le> ir_size r \<and> sha256_ok (ir_sha r) \<and> ir_phase r \<in> set import_phases
     \<and> ir_created r \<noteq> [] \<and> ir_updated r \<noteq> [] \<and> ir_error r \<noteq> Some []"

lemma import_record_iff: "import_record r = Inr r' \<longleftrightarrow> r' = r \<and> import_ok r"
  by (auto simp: import_record_def import_ok_def check_storage_key_def bindR_ensure split: if_splits)

lemma find_map_update:
  assumes "\<And>r. P r \<Longrightarrow> ir_id (f r) = ir_id r"
  shows "find (\<lambda>r. ir_id r = i) (map (\<lambda>r. if P r then f r else r) rs)
           = map_option (\<lambda>r. if P r then f r else r) (find (\<lambda>r. ir_id r = i) rs)"
  using assms by (induction rs) auto

lemma find_update_imports:
  assumes "\<And>r. P r \<Longrightarrow> ir_id (f r) = ir_id r"
  shows "find_import (fst (update_imports s P f)) i
           = map_option (\<lambda>r. if P r then f r else r) (find_import s i)"
  unfolding find_import_def update_imports_def using find_map_update[of P f i] assms by simp

lemma ids_update: "(\<And>r. P r \<Longrightarrow> ir_id (f r) = ir_id r) \<Longrightarrow>
    map ir_id (map (\<lambda>r. if P r then f r else r) rs) = map ir_id rs"
  by auto

lemma row_count:
  assumes "distinct (map ir_id rs)" and "\<And>r. P r \<Longrightarrow> ir_id r = i"
  shows "length (filter P rs) \<le> 1"
proof -
  have "filter P rs = filter P (filter (\<lambda>r. ir_id r = i) rs)"
    using assms(2) by (induction rs) auto
  moreover have "length (filter (\<lambda>r. ir_id r = i) rs) \<le> 1"
    using assms(1) by (induction rs) (auto simp: filter_empty_conv image_iff)
  ultimately show ?thesis using length_filter_le[of P] by (metis order_trans)
qed

text \<open>An import that is not committed may be rewritten within its identity.\<close>

lemma wf_update_open:
  assumes "wf_artifacts s"
    and f: "\<And>r. P r \<Longrightarrow> ir_id (f r) = ir_id r \<and> ir_phase r \<noteq> ''artifact_committed''
                 \<and> ir_phase (f r) \<noteq> ''artifact_committed''"
    and ok: "\<And>r. P r \<Longrightarrow> import_record r = Inr r \<Longrightarrow> import_record (f r) = Inr (f r)"
  shows "wf_artifacts (fst (update_imports s P f))"
proof -
  have find: "find_import (fst (update_imports s P f)) i
      = map_option (\<lambda>r. if P r then f r else r) (find_import s i)" for i
    using f by (intro find_update_imports) blast
  have rows: "ir_rows (fst (update_imports s P f)) = map (\<lambda>r. if P r then f r else r) (ir_rows s)"
    "ar_rows (fst (update_imports s P f)) = ar_rows s"
    by (simp_all add: update_imports_def)
  have "committed_match a (map_option (\<lambda>r. if P r then f r else r) x)" if "committed_match a x" for a x
    using that f by (auto simp: committed_match_def split: option.splits)
  moreover have "map ir_id (map (\<lambda>r. if P r then f r else r) (ir_rows s)) = map ir_id (ir_rows s)"
    using f by (intro ids_update) blast
  ultimately show ?thesis
    using assms(1) f ok unfolding wf_artifacts_def find rows by (simp del: map_map) fastforce
qed

lemma published_is:
  assumes "mark_attachment_import_file_published s i u = Inr t"
  shows "t = fst (update_imports s (\<lambda>r. ir_id r = i \<and> ir_phase r = ''prepared'')
             (\<lambda>r. r\<lparr>ir_phase := ''file_published'', ir_updated := u, ir_error := None\<rparr>)) \<and> u \<noteq> []"
  using assms by (auto simp: mark_attachment_import_file_published_def split: if_splits prod.splits)

lemma error_is:
  assumes "record_attachment_import_error s i e u = Inr t"
  shows "t = fst (update_imports s (\<lambda>r. ir_id r = i \<and> ir_phase r \<noteq> ''artifact_committed'')
             (\<lambda>r. r\<lparr>ir_updated := u, ir_error := Some e\<rparr>)) \<and> u \<noteq> [] \<and> e \<noteq> []"
  using assms by (auto simp: record_attachment_import_error_def split: if_splits prod.splits)

lemma commit_is:
  assumes "commit_attachment s ref k u = Inr t"
  shows "\<exists>row. t = fst (update_imports (s\<lparr>ar_rows := ar_rows s @ [row]\<rparr>)
             (\<lambda>r. ir_id r = att_id ref \<and> ir_phase r = ''file_published'')
             (\<lambda>r. r\<lparr>ir_phase := ''artifact_committed'', ir_updated := u, ir_error := None\<rparr>))"
  using assms by (auto simp: commit_attachment_def res_simps split: option.splits if_splits)

lemma published_wf:
  assumes "wf_artifacts s" and "mark_attachment_import_file_published s i u = Inr t"
  shows "wf_artifacts t"
  unfolding published_is[OF assms(2), THEN conjunct1]
  using assms(1) published_is[OF assms(2)]
  by (intro wf_update_open) (auto simp: import_record_iff import_ok_def import_phases_def)

lemma error_wf:
  assumes "wf_artifacts s" and "record_attachment_import_error s i e u = Inr t"
  shows "wf_artifacts t"
  unfolding error_is[OF assms(2), THEN conjunct1]
  using assms(1) error_is[OF assms(2)]
  by (intro wf_update_open) (auto simp: import_record_iff import_ok_def import_phases_def)

lemma begin_cases:
  assumes "begin_attachment_import s i k n h c = Inr (r, t)"
  shows "(find_import s i = Some r \<and> t = s) \<or>
         (find_import s i = None \<and> import_record r = Inr r \<and> ir_id r = i \<and> ir_phase r = ''prepared''
            \<and> t = s\<lparr>ir_rows := ir_rows s @ [r]\<rparr>)"
  using assms
  by (auto simp: begin_attachment_import_def res_simps import_record_iff split: option.splits if_splits)

lemma begin_wf:
  assumes "wf_artifacts s" and "begin_attachment_import s i k n h c = Inr (r, t)"
  shows "wf_artifacts t"
  using begin_cases[OF assms(2)]
proof (elim disjE conjE)
  assume "t = s" then show ?thesis using assms(1) by simp
next
  assume none: "find_import s i = None" and r: "import_record r = Inr r" "ir_id r = i"
    "ir_phase r = ''prepared''" and t: "t = s\<lparr>ir_rows := ir_rows s @ [r]\<rparr>"
  have fresh: "i \<notin> ir_id ` set (ir_rows s)" using none by (auto simp: find_import_def find_None_iff')
  have "committed_match a (find_import t (ar_id a))" if "committed_match a (find_import s (ar_id a))" for a
    using that t by (auto simp: find_import_def find_append committed_match_def split: option.splits)
  with assms(1) t r fresh show ?thesis by (auto simp: wf_artifacts_def)
qed

lemma as_kind_name [simp]: "as_kind (VStr (kind_name k)) = Inr k"
  by (cases k) (simp_all add: as_kind_def)

lemma commit_wf:
  assumes wf: "wf_artifacts s" and ref: "wf_attachment ref" and c: "commit_attachment s ref k u = Inr t"
  shows "wf_artifacts t \<and> get_attachment t (att_id ref) = Inr (Some \<lparr>rec_ref = ref, rec_key = k, rec_created = u\<rparr>)"
proof -
  let ?row = "\<lparr>ar_id = att_id ref, ar_key = k, ar_kind = kind_name (att_kind ref),
    ar_filename = att_filename ref, ar_media = att_media ref, ar_size = att_size ref,
    ar_sha = att_sha ref, ar_state = ''ready'', ar_created = u\<rparr>"
  let ?P = "\<lambda>r. ir_id r = att_id ref \<and> ir_phase r = ''file_published''"
  let ?f = "\<lambda>r. r\<lparr>ir_phase := ''artifact_committed'', ir_updated := u, ir_error := None\<rparr>"
  let ?g = "\<lambda>r. if ?P r then ?f r else r"
  from c obtain intent where key: "check_storage_key (att_id ref) k = Inr ()" and u: "u \<noteq> []"
    and find: "find_import s (att_id ref) = Some intent"
    and intent: "ir_phase intent = ''file_published''" "ir_key intent = k" "ir_size intent = att_size ref"
      "ir_sha intent = att_sha ref"
    and fresh: "\<forall>r \<in> set (ar_rows s). ar_id r \<noteq> att_id ref"
    and t: "t = fst (update_imports (s\<lparr>ar_rows := ar_rows s @ [?row]\<rparr>) ?P ?f)"
    by (auto simp: commit_attachment_def res_simps list_ex_iff split: option.splits if_splits)
  have rows: "ir_rows t = map ?g (ir_rows s)" "ar_rows t = ar_rows s @ [?row]"
    by (simp_all add: t update_imports_def)
  have ids: "map ir_id (map ?g (ir_rows s)) = map ir_id (ir_rows s)" by (rule ids_update) simp
  have ft: "find_import t i = map_option ?g (find_import s i)" for i
    unfolding t by (subst find_update_imports) (simp_all add: find_import_def)
  have rec: "artifact_record_of ?row = Inr \<lparr>rec_ref = ref, rec_key = k, rec_created = u\<rparr>"
    using ref u key mk_AttachmentRef_iff[of "VStr (att_id ref)" "att_kind ref" "opt_text (att_filename ref)"
        "opt_text (att_media ref)" "VInt (att_size ref)" "VStr (att_sha ref)" ref]
    by (simp add: artifact_record_of_def)
  have old: "committed_match a (find_import t (ar_id a))" if "a \<in> set (ar_rows s)" for a
  proof -
    have "committed_match a (find_import s (ar_id a))" and "ar_id a \<noteq> att_id ref"
      using that wf fresh by (auto simp: wf_artifacts_def)
    moreover have "ir_id r = ar_id a" if "find_import s (ar_id a) = Some r" for r
      using that by (auto simp: find_import_def dest: find_Some_iff')
    ultimately show ?thesis unfolding ft by (auto simp: committed_match_def split: option.splits)
  qed
  have "ir_id intent = att_id ref" using find by (auto simp: find_import_def dest: find_Some_iff')
  then have new: "committed_match ?row (find_import t (att_id ref))"
    unfolding ft find using intent by (simp add: committed_match_def)
  have ok: "import_record (?g r) = Inr (?g r)" if "r \<in> set (ir_rows s)" for r
    using that wf u by (auto simp: wf_artifacts_def import_record_iff import_ok_def import_phases_def)
  have finished: "ir_id (?g r) \<in> set (map ar_id (ar_rows t))"
    if "r \<in> set (ir_rows s)" and "ir_phase (?g r) = ''artifact_committed''" for r
    using that wf unfolding rows wf_artifacts_def by (cases "?P r") auto
  have "wf_artifacts t"
    unfolding wf_artifacts_def
  proof (intro conjI)
    show "distinct (map ir_id (ir_rows t))" unfolding rows ids using wf by (simp add: wf_artifacts_def)
    show "distinct (map ar_id (ar_rows t))" using wf fresh by (auto simp: rows wf_artifacts_def)
    show "\<forall>r \<in> set (ir_rows t). import_record r = Inr r" 
      unfolding rows set_map ball_simps by (intro ballI ok)
    show "\<forall>a \<in> set (ar_rows t). (\<exists>x. artifact_record_of a = Inr x) \<and> committed_match a (find_import t (ar_id a))"
      using wf old new rec by (auto simp: rows(2) wf_artifacts_def)
    show "\<forall>r \<in> set (ir_rows t). ir_phase r = ''artifact_committed'' \<longrightarrow> ir_id r \<in> set (map ar_id (ar_rows t))"
      unfolding rows(1) set_map ball_simps using finished by (intro ballI impI) simp
  qed
  moreover have "find_artifact t (att_id ref) = Some ?row"
    using fresh unfolding find_artifact_def rows by (auto simp: find_append find_None_iff' split: option.splits
        dest: find_Some_iff')
  ultimately show ?thesis using rec by (simp add: get_attachment_def)
qed

section \<open>Histories\<close>

inductive artifact_step :: "artifact_store \<Rightarrow> artifact_store \<Rightarrow> bool" where
  begin_step: "begin_attachment_import s i k n h c = Inr (r, t) \<Longrightarrow> artifact_step s t"
| publish_step: "mark_attachment_import_file_published s i u = Inr t \<Longrightarrow> artifact_step s t"
| error_step: "record_attachment_import_error s i e u = Inr t \<Longrightarrow> artifact_step s t"
| register_step: "wf_attachment ref \<Longrightarrow> register_ready_attachment s ref k u = (r, t) \<Longrightarrow> artifact_step s t"

inductive_cases artifact_stepE: "artifact_step s t"

definition empty_artifacts :: artifact_store where
  "empty_artifacts = \<lparr>ar_rows = [], ir_rows = []\<rparr>"

lemma register_cases:
  "register_ready_attachment s ref k u = (r, t) \<Longrightarrow>
     t = s \<or> commit_attachment s ref k u = Inr t"
  by (auto simp: register_ready_attachment_def split: sum.splits)

lemma artifact_step_wf: "artifact_step s t \<Longrightarrow> wf_artifacts s \<Longrightarrow> wf_artifacts t"
  by (induction rule: artifact_step.induct)
     (auto intro: begin_wf published_wf error_wf dest!: register_cases dest: commit_wf)

lemma artifact_reach_wf:
  assumes "artifact_step\<^sup>*\<^sup>* empty_artifacts s"
  shows "wf_artifacts s"
  using assms
proof (induction rule: rtranclp_induct)
  case base
  show ?case by (simp add: wf_artifacts_def empty_artifacts_def)
next
  case (step s t)
  then show ?case by (blast intro: artifact_step_wf)
qed

lemma validate_wf:
  assumes "wf_artifacts s"
  shows "validate_attachment_metadata_integrity s = Inr (length (ar_rows s),
     map ir_id (sort_key ir_created (sort_key ir_id
       (filter (\<lambda>r. ir_phase r \<noteq> ''artifact_committed'') (ir_rows s)))))"
proof -
  have "\<exists>ys. mapR artifact_record_of (sort_key ar_id (ar_rows s)) = Inr ys"
    and "\<exists>ys. mapR import_record (sort_key ir_id (ir_rows s)) = Inr ys"
    using assms by (auto simp: wf_artifacts_def intro!: mapR_total)
  then obtain ys zs where "mapR artifact_record_of (sort_key ar_id (ar_rows s)) = Inr ys"
    and "mapR import_record (sort_key ir_id (ir_rows s)) = Inr zs" by blast
  moreover have "\<not> list_ex (\<lambda>a. \<not> committed_match a (find_import s (ar_id a))) (ar_rows s)"
    and "\<not> list_ex (\<lambda>r. ir_phase r = ''artifact_committed'' \<and> ir_id r \<notin> set (map ar_id (ar_rows s))) (ir_rows s)"
    using assms by (auto simp: wf_artifacts_def list_ex_iff)
  ultimately show ?thesis unfolding validate_attachment_metadata_integrity_def by simp
qed

fun phase_rank :: "string \<Rightarrow> nat" where
  "phase_rank p = (if p = ''prepared'' then 0 else if p = ''file_published'' then 1 else 2)"

definition import_advances :: "import_row \<Rightarrow> import_row \<Rightarrow> bool" where
  "import_advances r r' \<longleftrightarrow> ir_id r' = ir_id r \<and> ir_key r' = ir_key r \<and> ir_size r' = ir_size r
     \<and> ir_sha r' = ir_sha r \<and> ir_created r' = ir_created r
     \<and> phase_rank (ir_phase r) \<le> phase_rank (ir_phase r')
     \<and> phase_rank (ir_phase r') \<le> Suc (phase_rank (ir_phase r))
     \<and> (ir_phase r = ''artifact_committed'' \<longrightarrow> r' = r)"

lemma update_advances:
  assumes "find_import s i = Some r" and "\<And>r. P r \<Longrightarrow> import_advances r (f r)"
  shows "\<exists>r'. find_import (fst (update_imports s P f)) i = Some r' \<and> import_advances r r'"
proof -
  have "\<And>r. P r \<Longrightarrow> ir_id (f r) = ir_id r" using assms(2) by (simp add: import_advances_def)
  then show ?thesis using assms by (auto simp: find_update_imports import_advances_def)
qed

lemma find_import_ar [simp]: "find_import (s\<lparr>ar_rows := a\<rparr>) i = find_import s i"
  by (simp add: find_import_def)

lemma import_advances_refl: "import_advances r r"
  by (simp add: import_advances_def)

lemma begin_keeps:
  assumes "begin_attachment_import s j k n h c = Inr (x, t)" and "find_import s i = Some r"
  shows "find_import t i = Some r"
  using begin_cases[OF assms(1)] assms(2)
  by (elim disjE conjE) (simp_all add: find_import_def find_append)

lemma step_advances:
  assumes "artifact_step s t" and "find_import s i = Some r"
  shows "\<exists>r'. find_import t i = Some r' \<and> import_advances r r'"
  using assms
proof (induction rule: artifact_step.induct)
  case (begin_step s j k n h c x t)
  then show ?case using begin_keeps import_advances_refl by blast
next
  case (publish_step s j u t)
  then show ?case unfolding published_is[OF publish_step(1), THEN conjunct1]
    by (intro update_advances) (auto simp: import_advances_def)
next
  case (error_step s j e u t)
  then show ?case unfolding error_is[OF error_step(1), THEN conjunct1]
    by (intro update_advances) (auto simp: import_advances_def)
next
  case (register_step ref s k u x t)
  from register_cases[OF register_step(2)] show ?case
  proof
    assume "t = s" then show ?thesis using register_step import_advances_refl by blast
  next
    assume c: "commit_attachment s ref k u = Inr t"
    obtain row where t: "t = fst (update_imports (s\<lparr>ar_rows := ar_rows s @ [row]\<rparr>)
             (\<lambda>r. ir_id r = att_id ref \<and> ir_phase r = ''file_published'')
             (\<lambda>r. r\<lparr>ir_phase := ''artifact_committed'', ir_updated := u, ir_error := None\<rparr>))"
      using commit_is[OF c] by blast
    show ?thesis unfolding t using register_step(3)
      by (intro update_advances) (auto simp: import_advances_def)
  qed
qed

lemma step_artifacts_append: "artifact_step s t \<Longrightarrow> \<exists>rows. ar_rows t = ar_rows s @ rows"
  by (induction rule: artifact_step.induct)
     (auto simp: update_imports_def
       dest!: begin_cases published_is error_is register_cases commit_is)

end
