(* ===== verification/Store_Properties.thy ===== *)
theory Store_Properties
  imports Sample_Log Owner_Store Artifact_Store
begin

text \<open>
  The properties of the versioned owner records, of the transaction that joins them with appends,
  and of the attachment imports.
\<close>

section \<open>Owner records\<close>

text \<open>Saving an owner record is a compare-and-set on its version: it succeeds only with the current version
  expected, makes the next version readable, leaves every other record alone, and a second save
  with the same expectation loses.\<close>

theorem owner_compare_and_set:
  assumes "owner_save owner key v ver s = Inr (r, t)" and "wf_owner_rows s" and "wf_pyval v" "wf_pyval v'"
  shows "(\<exists>cur. owner_read s owner key = Inr cur \<and> map_option rec_version cur = ver
            \<and> rec_version r = (case cur of None \<Rightarrow> 0 | Some c \<Rightarrow> rec_version c + 1))
     \<and> owner_read t owner key = Inr (Some (r\<lparr>rec_value := obj_items (json_sorted (JObj (rec_value r)))\<rparr>))
     \<and> ((ow, k) \<noteq> (owner, key) \<longrightarrow> owner_read t ow k = owner_read s ow k)
     \<and> wf_owner_rows t \<and> owner_save owner key v' ver t \<noteq> Inr x"
proof -
  have "owner_save owner key v' ver t \<noteq> Inr x"
  proof
    assume "owner_save owner key v' ver t = Inr x"
    then have "save_record owner key v' ver t = Inr (rec_version (fst x), snd x)" by (simp add: save_record_def split: prod.splits)
    moreover have "save_record owner key v ver s = Inr (rec_version r, t)" using assms(1) by (simp add: save_record_def)
    ultimately show False using owner_rows.stale_loses[OF assms(2-4)] by blast
  qed
  moreover have "(ow, k) \<noteq> (owner, key) \<longrightarrow> owner_read t ow k = owner_read s ow k"
    using owner_save_effect[OF assms(1-3)] by (simp add: owner_read_def)
  ultimately show ?thesis using owner_save_effect[OF assms(1-3)] by blast
qed

lemma sample_save:
  "owner_save ''o'' ''k'' (VMap []) None empty_log
     = Inr (\<lparr>rec_version = 0, rec_value = []\<rparr>,
            empty_log\<lparr>owner_records := [\<lparr>o_owner = ''o'', o_key = ''k'', o_version = 0, o_value = JObj []\<rparr>]\<rparr>)"
  by (simp add: owner_save_def owner_read_def owner_row_def empty_log_def upsert_owner_row_def Let_def)

lemma empty_rows [simp]: "wf_owner_rows empty_log"
  by (simp add: wf_owner_rows_def empty_log_def)

lemma owner_compare_and_set_witness:
  "\<forall>x. owner_save ''o'' ''k'' (VMap []) None (snd (projr (owner_save ''o'' ''k'' (VMap []) None empty_log))) \<noteq> Inr x"
  using owner_compare_and_set[OF sample_save, of "VMap []"] by (simp add: sample_save)

text \<open>However saves of an owner's records interleave, the version of a record that did not exist before
  counts its successful saves: it is their number less one.\<close>

theorem owner_version_counts:
  assumes "owner_rows.saves owner s c key t" and "wf_owner_rows s" and "fetch_record owner s key = None"
  shows "map_option fst (fetch_record owner t key) = (if c = 0 then None else Some (int c - 1))"
  by (rule owner_rows.version_counts[OF assms])

lemma owner_version_counts_witness:
  "map_option fst (fetch_record ''o'' (snd (projr (owner_save ''o'' ''k'' (VMap []) None empty_log))) ''k'') = Some 0"
proof -
  have "save_record ''o'' ''k'' (VMap []) None empty_log = Inr (0, snd (projr (owner_save ''o'' ''k'' (VMap []) None empty_log)))"
    by (simp add: save_record_def sample_save)
  then have "owner_rows.saves ''o'' empty_log (Suc 0) ''k'' (snd (projr (owner_save ''o'' ''k'' (VMap []) None empty_log)))"
    by (intro owner_rows.saves.this_key[OF owner_rows.saves.none]) simp_all
  moreover have "fetch_record ''o'' empty_log ''k'' = None"
    by (simp add: fetch_record_def owner_read_def owner_row_def empty_log_def)
  ultimately show ?thesis using owner_version_counts by fastforce
qed

text \<open>C11. A transaction over an owner's records and its writers is atomic. It returns a value exactly when it is
  not nested and every operation of the callback succeeds in its turn, and then the store it leaves is
  the one these operations made, one after the other, each on what the ones before had left. In every
  other case - the callback raises, or one of its operations failed, even when the callback swallowed
  the error - it raises and the store is as before. Either way the store stays well formed and the log only grew.\<close>

theorem transact_atomic:
  assumes "transact owner now prog s = (r, t)" and "prog_ok prog" and "wf_store s"
  shows "(r = Inr x \<longleftrightarrow> \<not> in_tx s \<and> (\<exists>u. carried_out owner now prog (s\<lparr>in_tx := True\<rparr>) x u))
    \<and> (\<forall>u. r = Inr x \<and> carried_out owner now prog (s\<lparr>in_tx := True\<rparr>) x u \<longrightarrow> t = u\<lparr>in_tx := False\<rparr>)
    \<and> (r = Inl e \<longrightarrow> t = s) \<and> wf_store t \<and> extends s t"
proof -
  have "r = Inr x \<longleftrightarrow> \<not> in_tx s \<and> (\<exists>u. carried_out owner now prog (s\<lparr>in_tx := True\<rparr>) x u)"
    using transact_commits[of owner now prog s x] assms(1) by auto
  moreover have "t = u\<lparr>in_tx := False\<rparr>" if "r = Inr x" "carried_out owner now prog (s\<lparr>in_tx := True\<rparr>) x u" for u
    using transact_commits[of owner now prog s x] assms(1) that by auto
  ultimately show ?thesis using transact_wf[OF assms] transact_error[of owner now prog s e t] assms(1) by blast
qed

definition save_once :: "string tx_prog" where
  "save_once = Save ''k'' (VMap []) None (\<lambda>r. Return (if isl r then ''refused'' else ''saved''))"

definition save_twice :: "unit tx_prog" where
  "save_twice = Save ''k'' (VMap []) None (\<lambda>_. Save ''k'' (VMap []) None (\<lambda>_. Return ()))"

lemmas save_defs = owner_save_def owner_read_def owner_row_def empty_log_def upsert_owner_row_def owner_record_of_def Let_def

lemma transact_atomic_witness:
  "(\<exists>t. transact ''o'' 5 save_once empty_log = (Inr ''saved'', t)
      \<and> owner_records t = [\<lparr>o_owner = ''o'', o_key = ''k'', o_version = 0, o_value = JObj []\<rparr>])
   \<and> snd (transact ''o'' 5 save_twice empty_log) = empty_log"
proof
  obtain r t where run: "transact ''o'' 5 save_once empty_log = (r, t)" by (metis prod.exhaust)
  let ?u = "empty_log\<lparr>in_tx := True, owner_records := [\<lparr>o_owner = ''o'', o_key = ''k'', o_version = 0, o_value = JObj []\<rparr>]\<rparr>"
  have carried: "carried_out ''o'' 5 save_once (empty_log\<lparr>in_tx := True\<rparr>) ''saved'' ?u"
    by (simp add: save_once_def carried_out_simps save_defs)
  have sound: "prog_ok save_once" "wf_store empty_log" "\<not> in_tx empty_log"
    by (simp_all add: save_once_def wf_store_def) (simp add: empty_log_def)
  have "r = Inr ''saved''" using transact_atomic[OF run, of "''saved''"] sound carried by blast
  moreover from this have "t = ?u\<lparr>in_tx := False\<rparr>" using transact_atomic[OF run, of "''saved''"] sound carried by blast
  ultimately show "\<exists>t. transact ''o'' 5 save_once empty_log = (Inr ''saved'', t)
      \<and> owner_records t = [\<lparr>o_owner = ''o'', o_key = ''k'', o_version = 0, o_value = JObj []\<rparr>]"
    using run by simp
next
  have "\<exists>e. fst (transact ''o'' 5 save_twice empty_log) = Inl e"
    by (simp add: transact_def write_tx_def perform_def save_twice_def save_defs)
  then obtain e t where run: "transact ''o'' 5 save_twice empty_log = (Inl e, t)" by (metis prod.collapse)
  then show "snd (transact ''o'' 5 save_twice empty_log) = empty_log"
    using transact_atomic[OF run, of "()" e] by (simp add: wf_store_def save_twice_def)
qed

section \<open>Attachments\<close>

definition sample_import :: "string \<Rightarrow> import_row" where
  "sample_import phase = \<lparr>ir_id = ''a'', ir_key = ''uploads/artifacts/a.bin'', ir_size = 0, ir_sha = replicate 64 CHR ''0'',
     ir_phase = phase, ir_created = ''t'', ir_updated = ''t'', ir_error = None\<rparr>"

lemma sample_import_begins:
  "begin_attachment_import empty_artifacts ''a'' ''uploads/artifacts/a.bin'' 0 (replicate 64 CHR ''0'') ''t''
     = Inr (sample_import ''prepared'', empty_artifacts\<lparr>ir_rows := [sample_import ''prepared'']\<rparr>)"
  by (simp add: begin_attachment_import_def import_record_def check_storage_key_def posix_parts_def artifact_id_ok_def
      alnum_def code_def bindR_ensure sha256_ok_def import_phases_def find_import_def empty_artifacts_def sample_import_def list_all_iff Let_def)

text \<open>Whatever the import operations do, in any order and with any failures, the integrity check of the
  attachment tables passes: every artifact has exactly its committed import, and the report counts
  the artifacts and lists the unfinished imports by creation time and identity.\<close>

theorem artifacts_validate:
  assumes "artifact_step\<^sup>*\<^sup>* empty_artifacts s"
  shows "validate_attachment_metadata_integrity s = Inr (length (ar_rows s),
     map ir_id (sort_key ir_created (sort_key ir_id
       (filter (\<lambda>r. ir_phase r \<noteq> ''artifact_committed'') (ir_rows s)))))"
  by (rule validate_wf[OF artifact_reach_wf[OF assms]])

lemma artifacts_validate_witness:
  "validate_attachment_metadata_integrity (empty_artifacts\<lparr>ir_rows := [sample_import ''prepared'']\<rparr>) = Inr (0, [''a''])"
  using artifacts_validate[OF r_into_rtranclp, OF artifact_step.begin_step[OF sample_import_begins]]
  by (simp add: empty_artifacts_def sample_import_def)

lemma steps_advance:
  assumes "artifact_step\<^sup>*\<^sup>* s t" and "find_import s i = Some r"
  shows "\<exists>r'. find_import t i = Some r' \<and> ir_id r' = ir_id r \<and> ir_key r' = ir_key r \<and> ir_size r' = ir_size r
    \<and> ir_sha r' = ir_sha r \<and> ir_created r' = ir_created r \<and> phase_rank (ir_phase r) \<le> phase_rank (ir_phase r')
    \<and> (ir_phase r = ''artifact_committed'' \<longrightarrow> r' = r)"
  using assms(1)
proof (induction rule: rtranclp_induct)
  case base
  then show ?case using assms(2) by simp
next
  case (step t u)
  then obtain r' where r': "find_import t i = Some r'" and f: "ir_id r' = ir_id r \<and> ir_key r' = ir_key r \<and> ir_size r' = ir_size r
    \<and> ir_sha r' = ir_sha r \<and> ir_created r' = ir_created r \<and> phase_rank (ir_phase r) \<le> phase_rank (ir_phase r')
    \<and> (ir_phase r = ''artifact_committed'' \<longrightarrow> r' = r)" by blast
  obtain r'' where "find_import u i = Some r''" and "import_advances r' r''" using step_advances[OF step(2) r'] by blast
  then show ?case using f unfolding import_advances_def by auto
qed

text \<open>An import keeps its identity, place, size and hash for ever and only moves forward - prepared, published,
  committed - and a committed one never changes again; a published artifact row is never
  changed or removed.\<close>

theorem imports_move_forward:
  assumes "artifact_step\<^sup>*\<^sup>* s t" and "find_import s i = Some r"
  shows "(\<exists>r'. find_import t i = Some r' \<and> ir_id r' = ir_id r \<and> ir_key r' = ir_key r \<and> ir_size r' = ir_size r
    \<and> ir_sha r' = ir_sha r \<and> ir_created r' = ir_created r \<and> phase_rank (ir_phase r) \<le> phase_rank (ir_phase r')
    \<and> (ir_phase r = ''artifact_committed'' \<longrightarrow> r' = r)) \<and> (\<exists>rows. ar_rows t = ar_rows s @ rows)"
proof -
  have "\<exists>rows. ar_rows t = ar_rows s @ rows" using assms(1)
  proof (induction rule: rtranclp_induct)
    case (step t u)
    then show ?case using step_artifacts_append[OF step(2)] by auto
  qed simp
  then show ?thesis using steps_advance[OF assms] by blast
qed

lemma imports_move_forward_witness:
  "\<exists>r'. find_import (empty_artifacts\<lparr>ir_rows := [sample_import ''file_published'']\<rparr>) ''a'' = Some r' \<and> ir_size r' = 0"
proof -
  let ?s = "empty_artifacts\<lparr>ir_rows := [sample_import ''prepared'']\<rparr>"
  have "mark_attachment_import_file_published ?s ''a'' ''t'' = Inr (empty_artifacts\<lparr>ir_rows := [sample_import ''file_published'']\<rparr>)"
    by (simp add: mark_attachment_import_file_published_def update_imports_def sample_import_def empty_artifacts_def)
  then have "artifact_step\<^sup>*\<^sup>* ?s (empty_artifacts\<lparr>ir_rows := [sample_import ''file_published'']\<rparr>)"
    by (intro r_into_rtranclp artifact_step.publish_step)
  moreover have "find_import ?s ''a'' = Some (sample_import ''prepared'')" by (simp add: find_import_def sample_import_def)
  ultimately show ?thesis using imports_move_forward by (fastforce simp: sample_import_def)
qed

end
