(* ===== verification/Turn_Projection.thy ===== *)
theory Turn_Projection
  imports Message
begin

text \<open>
  \<open>plugins/turn_projection/plugin.py\<close>: the logical turns of one source, computed from a session
  prefix, and from \<open>plugins/react/plugin.py\<close> what the model loop recovers from the same prefix:
  the tool calls still to run, the steps taken and whether a terminal tool succeeded.
  The local variables of \<open>project\<close> are the record \<open>projection\<close>, its loop body \<open>project_step\<close>.
\<close>

section \<open>Turns\<close>

datatype turn_status = TOpen | TComplete | TQuiet | TAbandoned

record turn =
  t_source :: string
  t_after :: int
  t_through :: int
  t_ending :: "string option"
  t_status :: turn_status
  t_messages :: "string list"
  t_observations :: "(call_ref \<times> string) list"

fun is_talk :: "body \<Rightarrow> bool" where
  "is_talk (Input ps) = True"
| "is_talk (Output ps f) = True"
| "is_talk _ = False"

fun observed :: "message \<Rightarrow> (call_ref \<times> string) list" where
  "observed m = (case m_body m of ToolResult l r oc ps \<Rightarrow> [(r, m_id m)] | _ \<Rightarrow> [])"

definition build_turn ::
  "string \<Rightarrow> int \<Rightarrow> int \<Rightarrow> string option \<Rightarrow> turn_status \<Rightarrow> message list \<Rightarrow> turn" where
  "build_turn source after through ending status ms =
     \<lparr>t_source = source, t_after = after, t_through = through, t_ending = ending, t_status = status,
      t_messages = map m_id (filter (\<lambda>m. is_talk (m_body m)) ms),
      t_observations = concat (map observed ms)\<rparr>"

definition calls_in :: "string \<Rightarrow> part list \<Rightarrow> call_ref list" where
  "calls_in mid ps = map (\<lambda>(i, p). CallRef mid i) (filter (\<lambda>(i, p). is_tool_call p) (List.enumerate 0 ps))"

fun message_calls :: "message \<Rightarrow> call_ref list" where
  "message_calls m = (case m_body m of Output ps f \<Rightarrow> calls_in (m_id m) ps | _ \<Rightarrow> [])"

fun status_of :: "finish \<Rightarrow> turn_status" where
  "status_of Continue = TOpen"
| "status_of Complete = TComplete"
| "status_of Quiet = TQuiet"

record projection =
  p_turns :: "turn list"
  p_pending :: "message list"
  p_calls :: "call_ref list"
  p_after :: int
  p_head :: int

definition project_start :: projection where
  "project_start = \<lparr>p_turns = [], p_pending = [], p_calls = [], p_after = - 1, p_head = - 1\<rparr>"

text \<open>The ordering check over the whole prefix.\<close>

fun check_prefix :: "string \<Rightarrow> int \<Rightarrow> string list \<Rightarrow> message list \<Rightarrow> unit res" where
  "check_prefix sid previous seen [] = Inr ()"
| "check_prefix sid previous seen (m # ms) =
     (if m_session m \<noteq> sid \<or> m_seq m \<le> previous then Inl ValueError
      else if m_id m \<in> set seen then Inl ValueError
      else check_prefix sid (m_seq m) (m_id m # seen) ms)"

definition keeps_result :: "call_ref list \<Rightarrow> message \<Rightarrow> bool" where
  "keeps_result calls m = (case m_body m of ToolResult l r oc ps \<Rightarrow> r \<in> set calls | _ \<Rightarrow> True)"

definition close_abandoned :: "string \<Rightarrow> string \<Rightarrow> int \<Rightarrow> projection \<Rightarrow> projection res" where
  "close_abandoned source mid through st =
     (if through \<le> p_after st then Inl ValueError
      else
        let closed = filter (\<lambda>m. m_seq m \<le> through) (p_pending st);
            rest = filter (\<lambda>m. through < m_seq m) (p_pending st);
            calls = concat (map message_calls rest);
            pending = filter (keeps_result calls) rest in
        Inr (st\<lparr>p_turns := p_turns st @ (if closed \<noteq> []
                   then [build_turn source (p_after st) through (Some mid) TAbandoned closed] else []),
                p_pending := pending, p_calls := calls, p_after := through\<rparr>))"

definition project_step :: "string \<Rightarrow> message \<Rightarrow> projection \<Rightarrow> projection res" where
  "project_step source m st0 =
     (if m_source m \<noteq> source then Inr st0
      else
        let st = st0\<lparr>p_head := m_seq m\<rparr> in
        case m_body m of
          Input ps \<Rightarrow> Inr (st\<lparr>p_pending := p_pending st @ [m]\<rparr>)
        | Output ps f \<Rightarrow>
            (if f = Continue
             then Inr (st\<lparr>p_pending := p_pending st @ [m], p_calls := p_calls st @ calls_in (m_id m) ps\<rparr>)
             else Inr (st\<lparr>p_turns := p_turns st @ [build_turn source (p_after st) (m_seq m) (Some (m_id m))
                             (status_of f) (p_pending st @ [m])],
                          p_pending := [], p_calls := [], p_after := m_seq m\<rparr>))
        | ToolResult l r oc ps \<Rightarrow>
            (if r \<in> set (p_calls st) then Inr (st\<lparr>p_pending := p_pending st @ [m]\<rparr>) else Inr st)
        | Control a through reason \<Rightarrow>
            (if a = Abandon then close_abandoned source (m_id m) through st else Inr st))"

definition project_finish :: "string \<Rightarrow> projection \<Rightarrow> turn list" where
  "project_finish source st =
     p_turns st @ (if p_pending st \<noteq> []
                   then [build_turn source (p_after st) (p_head st) None TOpen (p_pending st)] else [])"

definition project :: "message list \<Rightarrow> string \<Rightarrow> turn list res" where
  "project ms source =
     (case ms of
        [] \<Rightarrow> Inr []
      | m # _ \<Rightarrow>
          bindR (check_prefix (m_session m) (- 1) [] ms) (\<lambda>_.
          bindR (foldR (project_step source) ms project_start) (\<lambda>st.
            Inr (project_finish source st))))"

section \<open>What the model loop recovers\<close>

text \<open>
  \<open>_pending_calls\<close>: the loop state is the boundary, the calls with the number of their message (a
  dict, in insertion order) and the answered calls.
\<close>

record recovery =
  v_boundary :: int
  v_calls :: "(call_ref \<times> int) list"
  v_results :: "call_ref list"

definition recover_step :: "string \<Rightarrow> message \<Rightarrow> recovery \<Rightarrow> recovery" where
  "recover_step source m v =
     (if m_source m \<noteq> source then v
      else case m_body m of
        Output ps f \<Rightarrow>
          v\<lparr>v_boundary := (if f \<noteq> Continue then m_seq m else v_boundary v),
            v_calls := fold (\<lambda>r. AList.update r (m_seq m)) (calls_in (m_id m) ps) (v_calls v)\<rparr>
      | Control a through reason \<Rightarrow>
          (if a = Abandon then v\<lparr>v_boundary := max (v_boundary v) through\<rparr> else v)
      | ToolResult l r oc ps \<Rightarrow> v\<lparr>v_results := r # v_results v\<rparr>
      | Input ps \<Rightarrow> v)"

definition recovered :: "message list \<Rightarrow> string \<Rightarrow> recovery" where
  "recovered ms source = fold (recover_step source) ms \<lparr>v_boundary = - 1, v_calls = [], v_results = []\<rparr>"

definition pending_calls :: "message list \<Rightarrow> string \<Rightarrow> call_ref list" where
  "pending_calls ms source =
     (let v = recovered ms source in
      map fst (filter (\<lambda>(ref, seq). v_boundary v < seq \<and> ref \<notin> set (v_results v)) (v_calls v)))"

definition is_facts :: "part \<Rightarrow> bool" where
  "is_facts p = (case p of ContentPart k v \<Rightarrow> k = ''model.facts'' | ToolCall b a \<Rightarrow> False)"

definition steps_step :: "string \<Rightarrow> message \<Rightarrow> message list \<Rightarrow> message list" where
  "steps_step source m outputs =
     (if m_source m \<noteq> source then outputs
      else case m_body m of
        Output ps f \<Rightarrow>
          (if f \<noteq> Continue then []
           else if list_ex is_facts ps then outputs @ [m] else outputs)
      | Control a through reason \<Rightarrow>
          (if a = Abandon then filter (\<lambda>x. through < m_seq x) outputs else outputs)
      | _ \<Rightarrow> outputs)"

definition model_steps :: "message list \<Rightarrow> string \<Rightarrow> nat" where
  "model_steps ms source = length (fold (steps_step source) ms [])"

text \<open>\<open>_terminal_result\<close>: \<open>tool_name\<close> is \<open>ToolMenu.name\<close>, the names are those that end the loop.\<close>

record terminal =
  z_boundary :: int
  z_calls :: "(call_ref \<times> int) list"
  z_succeeded :: "call_ref list"

definition terminal_calls :: "(string \<Rightarrow> string) \<Rightarrow> string list \<Rightarrow> string \<Rightarrow> part list \<Rightarrow> call_ref list" where
  "terminal_calls tool_name names mid ps =
     map (\<lambda>(i, p). CallRef mid i)
       (filter (\<lambda>(i, p). case p of ToolCall b a \<Rightarrow> tool_name b \<in> set names | ContentPart k v \<Rightarrow> False)
          (List.enumerate 0 ps))"

definition terminal_step ::
  "(string \<Rightarrow> string) \<Rightarrow> string list \<Rightarrow> string \<Rightarrow> message \<Rightarrow> terminal \<Rightarrow> terminal" where
  "terminal_step tool_name names source m z =
     (if m_source m \<noteq> source then z
      else case m_body m of
        Output ps f \<Rightarrow>
          (if f \<noteq> Continue then z\<lparr>z_boundary := m_seq m\<rparr>
           else z\<lparr>z_calls := fold (\<lambda>r. AList.update r (m_seq m))
                    (terminal_calls tool_name names (m_id m) ps) (z_calls z)\<rparr>)
      | Control a through reason \<Rightarrow>
          (if a = Abandon then z\<lparr>z_boundary := max (z_boundary z) through\<rparr> else z)
      | ToolResult l r oc ps \<Rightarrow> (if oc = Success then z\<lparr>z_succeeded := r # z_succeeded z\<rparr> else z)
      | Input ps \<Rightarrow> z)"

definition terminal_result :: "(string \<Rightarrow> string) \<Rightarrow> string list \<Rightarrow> message list \<Rightarrow> string \<Rightarrow> bool" where
  "terminal_result tool_name names ms source =
     (let z = fold (terminal_step tool_name names source) ms
                \<lparr>z_boundary = - 1, z_calls = [], z_succeeded = []\<rparr> in
      list_ex (\<lambda>(ref, seq). z_boundary z < seq \<and> ref \<in> set (z_succeeded z)) (z_calls z))"

section \<open>The shape of the turns\<close>

declare message_calls.simps [simp del] observed.simps [simp del]

definition group_ok :: "string \<Rightarrow> message list \<Rightarrow> int \<Rightarrow> message list \<Rightarrow> bool" where
  "group_ok source dn lo ms \<longleftrightarrow> set ms \<subseteq> set dn \<and> sorted_wrt (\<lambda>a b. m_seq a < m_seq b) ms
     \<and> (\<forall>m \<in> set ms. m_source m = source \<and> lo < m_seq m)
     \<and> (\<forall>m \<in> set ms. \<forall>r i. (r, i) \<in> set (observed m) \<longrightarrow>
          (\<exists>c \<in> set ms. r \<in> set (message_calls c) \<and> m_seq c < m_seq m))"

definition turn_ok :: "string \<Rightarrow> message list \<Rightarrow> turn \<Rightarrow> bool" where
  "turn_ok source dn t \<longleftrightarrow> (\<exists>ms. ms \<noteq> [] \<and> group_ok source dn (t_after t) ms
     \<and> (\<forall>m \<in> set ms. m_seq m \<le> t_through t)
     \<and> t = build_turn source (t_after t) (t_through t) (t_ending t) (t_status t) ms)"

definition talk_ids :: "string \<Rightarrow> message list \<Rightarrow> string list" where
  "talk_ids source ms = map m_id (filter (\<lambda>m. m_source m = source \<and> is_talk (m_body m)) ms)"

definition turns_ok :: "string \<Rightarrow> message list \<Rightarrow> turn list \<Rightarrow> bool" where
  "turns_ok source dn ts \<longleftrightarrow> (\<forall>t \<in> set ts. turn_ok source dn t)
     \<and> sorted_wrt (\<lambda>a b. t_through a \<le> t_after b) ts"

definition proj_inv :: "string \<Rightarrow> message list \<Rightarrow> projection \<Rightarrow> bool" where
  "proj_inv source dn st \<longleftrightarrow>
     group_ok source dn (p_after st) (p_pending st) \<and> (\<forall>m \<in> set (p_pending st). m_seq m \<le> p_head st)
     \<and> set (p_calls st) = set (concat (map message_calls (p_pending st)))
     \<and> turns_ok source dn (p_turns st) \<and> (\<forall>t \<in> set (p_turns st). t_through t \<le> p_after st \<and> t_status t \<noteq> TOpen)
     \<and> - 1 \<le> p_after st \<and> (p_after st = - 1 \<or> (\<exists>m \<in> set dn. p_after st \<le> m_seq m))
     \<and> concat (map t_messages (p_turns st)) @ map m_id (filter (\<lambda>m. is_talk (m_body m)) (p_pending st))
         = talk_ids source dn"

lemma group_ok_mono: "group_ok source dn lo ms \<Longrightarrow> group_ok source (dn @ [m]) lo ms"
  by (auto simp: group_ok_def)

lemma turn_ok_mono: "turn_ok source dn t \<Longrightarrow> turn_ok source (dn @ [m]) t"
  unfolding turn_ok_def by (metis group_ok_mono)

lemma turns_ok_mono: "turns_ok source dn ts \<Longrightarrow> turns_ok source (dn @ [m]) ts"
  by (auto simp: turns_ok_def turn_ok_mono)

lemma turns_ok_snoc:
  "turns_ok source dn ts \<Longrightarrow> turn_ok source dn t \<Longrightarrow> (\<forall>x \<in> set ts. t_through x \<le> t_after t) \<Longrightarrow> turns_ok source dn (ts @ [t])"
  by (auto simp: turns_ok_def sorted_wrt_append)

lemma build_turn_ok:
  assumes "group_ok source dn lo ms" and "ms \<noteq> []" and "\<forall>m \<in> set ms. m_seq m \<le> hi"
  shows "turn_ok source dn (build_turn source lo hi e st ms)"
  using assms unfolding turn_ok_def by (intro exI[of _ ms]) (simp add: build_turn_def)

lemma build_turn_simps [simp]:
  "t_after (build_turn s a b e st ms) = a" "t_through (build_turn s a b e st ms) = b"
  "t_status (build_turn s a b e st ms) = st"
  "t_messages (build_turn s a b e st ms) = map m_id (filter (\<lambda>m. is_talk (m_body m)) ms)"
  "t_observations (build_turn s a b e st ms) = concat (map observed ms)"
  "t_source (build_turn s a b e st ms) = s"
  by (simp_all add: build_turn_def)

lemma calls_in_message: "r \<in> set (calls_in mid ps) \<Longrightarrow> ref_message r = mid"
  by (auto simp: calls_in_def)

lemma message_calls_id: "r \<in> set (message_calls m) \<Longrightarrow> ref_message r = m_id m"
  by (cases "m_body m") (auto simp: message_calls.simps dest: calls_in_message)

lemma group_ok_snoc:
  assumes "group_ok source dn lo ms" and "m_source m = source" and "lo < m_seq m" and "\<forall>x \<in> set dn. m_seq x < m_seq m"
    and "\<And>r i. (r, i) \<in> set (observed m) \<Longrightarrow> \<exists>c \<in> set ms. r \<in> set (message_calls c)"
  shows "group_ok source (dn @ [m]) lo (ms @ [m])"
proof -
  have lt: "\<And>x. x \<in> set ms \<Longrightarrow> m_seq x < m_seq m" using assms(1,4) by (auto simp: group_ok_def)
  have "\<exists>c \<in> set (ms @ [m]). r \<in> set (message_calls c) \<and> m_seq c < m_seq x"
    if "x \<in> set (ms @ [m])" "(r, i) \<in> set (observed x)" for x r i
  proof (cases "x \<in> set ms")
    case True
    then show ?thesis using assms(1) that unfolding group_ok_def by fastforce
  next
    case False
    then have "x = m" using that by auto
    then show ?thesis using assms(5) that lt by fastforce
  qed
  then show ?thesis
    using assms lt unfolding group_ok_def by (auto simp: sorted_wrt_append)
qed

lemma talk_ids_snoc:
  "talk_ids source (dn @ [m]) = talk_ids source dn @ (if m_source m = source \<and> is_talk (m_body m) then [m_id m] else [])"
  by (simp add: talk_ids_def)

lemma group_split:
  assumes "sorted_wrt (\<lambda>a b. m_seq a < m_seq b) ms"
  shows "filter (\<lambda>m. m_seq m \<le> c) ms @ filter (\<lambda>m. c < m_seq m) ms = ms"
  using assms
proof (induction ms)
  case (Cons m ms)
  have "filter (\<lambda>x. m_seq x \<le> c) ms = []" if "c < m_seq m" using that Cons.prems by (auto simp: filter_empty_conv)
  moreover have "filter (\<lambda>x. c < m_seq x) ms = ms" if "c < m_seq m" using that Cons.prems by (auto simp: filter_id_conv)
  ultimately show ?case using Cons by auto
qed simp

lemma keeps_talk: "is_talk (m_body m) \<Longrightarrow> keeps_result calls m"
  by (cases "m_body m") (auto simp: keeps_result_def)

lemma keeps_calls: "\<not> keeps_result calls m \<Longrightarrow> message_calls m = []"
  by (cases "m_body m") (auto simp: keeps_result_def message_calls.simps)

lemma calls_filter: "concat (map message_calls (filter (keeps_result calls) ms)) = concat (map message_calls ms)"
  by (induction ms) (auto simp: keeps_calls)

lemma observed_keeps: "(r, i) \<in> set (observed m) \<Longrightarrow> keeps_result calls m \<Longrightarrow> r \<in> set calls"
  by (cases "m_body m") (auto simp: keeps_result_def observed.simps)

lemma abandon_inv:
  assumes inv: "proj_inv source dn st" and close: "close_abandoned source mid through st = Inr st'"
    and dist: "distinct (map m_id dn)" and bound: "\<exists>m \<in> set dn'. through \<le> m_seq m"
    and dn': "dn' = dn @ [m]" and tk: "talk_ids source dn' = talk_ids source dn"
  shows "proj_inv source dn' st'"
proof -
  let ?p = "p_pending st"
  let ?closed = "filter (\<lambda>m. m_seq m \<le> through) ?p"
  let ?rest = "filter (\<lambda>m. through < m_seq m) ?p"
  let ?calls = "concat (map message_calls ?rest)"
  let ?pending = "filter (keeps_result ?calls) ?rest"
  let ?new = "if ?closed \<noteq> [] then [build_turn source (p_after st) through (Some mid) TAbandoned ?closed] else []"
  from close have after: "p_after st < through"
    and st': "st' = st\<lparr>p_turns := p_turns st @ ?new, p_pending := ?pending, p_calls := ?calls, p_after := through\<rparr>"
    by (auto simp: close_abandoned_def Let_def split: if_splits)
  have gp: "group_ok source dn (p_after st) ?p" using inv by (simp add: proj_inv_def)
  then have asc: "sorted_wrt (\<lambda>a b. m_seq a < m_seq b) ?p" and sub: "set ?p \<subseteq> set dn"
    and calls: "\<And>m r i. m \<in> set ?p \<Longrightarrow> (r, i) \<in> set (observed m) \<Longrightarrow>
       \<exists>c \<in> set ?p. r \<in> set (message_calls c) \<and> m_seq c < m_seq m"
    using gp unfolding group_ok_def by blast+
  have split: "?closed @ ?rest = ?p" by (rule group_split[OF asc])
  have gc: "group_ok source dn (p_after st) ?closed"
    using gp calls unfolding group_ok_def
    by (auto simp: sorted_wrt_filter') fastforce
  have unique: "c = c'" if "c \<in> set ?p" "c' \<in> set ?p" "r \<in> set (message_calls c)" "r \<in> set (message_calls c')" for c c' r
    using that sub message_calls_id[OF that(3)] message_calls_id[OF that(4)] distinct_map_same[OF dist, of c c'] by auto
  have gr: "group_ok source dn through ?pending"
    unfolding group_ok_def
  proof (intro conjI ballI allI impI)
    fix m r i assume m: "m \<in> set ?pending" and o: "(r, i) \<in> set (observed m)"
    have "keeps_result ?calls m" using m by simp
    then have "r \<in> set ?calls" by (rule observed_keeps[OF o])
    then obtain c where c: "c \<in> set ?rest" "r \<in> set (message_calls c)" by auto
    obtain c' where c': "c' \<in> set ?p" "r \<in> set (message_calls c')" "m_seq c' < m_seq m" using calls[OF _ o] m by auto
    then have "c' = c" using unique[of c' c r] c by auto
    moreover have "keeps_result ?calls c" using keeps_calls[of ?calls c] c(2) by fastforce
    ultimately show "\<exists>c \<in> set ?pending. r \<in> set (message_calls c) \<and> m_seq c < m_seq m" using c c' by auto
  qed (use gp in \<open>auto simp: group_ok_def intro: sorted_wrt_filter'\<close>)
  have "turns_ok source dn (p_turns st @ ?new)"
  proof (cases "?closed = []")
    case True
    then show ?thesis using inv by (simp add: proj_inv_def)
  next
    case False
    have "turn_ok source dn (build_turn source (p_after st) through (Some mid) TAbandoned ?closed)"
      by (rule build_turn_ok[OF gc False]) simp
    then have "turns_ok source dn (p_turns st @ [build_turn source (p_after st) through (Some mid) TAbandoned ?closed])"
      using inv by (intro turns_ok_snoc) (simp_all add: proj_inv_def)
    then show ?thesis using False by simp
  qed
  then have ts: "turns_ok source dn' (p_turns st @ ?new)" unfolding dn' by (rule turns_ok_mono)
  have "filter (\<lambda>m. is_talk (m_body m)) ?pending = filter (\<lambda>m. is_talk (m_body m)) ?rest"
    unfolding filter_filter[of _ "keeps_result ?calls"] using keeps_talk by (intro filter_cong) auto
  then have "concat (map t_messages (p_turns st @ ?new)) @ map m_id (filter (\<lambda>m. is_talk (m_body m)) ?pending)
      = concat (map t_messages (p_turns st)) @ map m_id (filter (\<lambda>m. is_talk (m_body m)) (?closed @ ?rest))"
    by (auto simp: filter_empty_conv)
  also have "\<dots> = talk_ids source dn'" using inv tk by (simp only: split proj_inv_def)
  finally have cover: "concat (map t_messages (p_turns st @ ?new)) @ map m_id (filter (\<lambda>m. is_talk (m_body m)) ?pending)
      = talk_ids source dn'" .
  have "\<forall>t \<in> set (p_turns st @ ?new). t_through t \<le> through \<and> t_status t \<noteq> TOpen"
    using inv after by (auto simp: proj_inv_def)
  then show ?thesis
    using gr[THEN group_ok_mono, of m] ts cover bound after inv calls_filter[of ?calls ?rest]
    unfolding proj_inv_def st' dn'[symmetric] by simp
qed


lemma proj_inv_push:
  assumes inv: "proj_inv source dn st" and m: "m_source m = source" and later: "\<forall>x \<in> set dn. m_seq x < m_seq m"
    and pos: "0 \<le> m_seq m"
    and calls: "set calls = set (p_calls st) \<union> set (message_calls m)"
    and obs: "\<And>r i. (r, i) \<in> set (observed m) \<Longrightarrow> r \<in> set (p_calls st)"
  shows "proj_inv source (dn @ [m]) (st\<lparr>p_head := m_seq m, p_pending := p_pending st @ [m], p_calls := calls\<rparr>)"
proof -
  have "p_after st < m_seq m" using inv later pos by (auto simp: proj_inv_def)
  moreover have "\<exists>c \<in> set (p_pending st). r \<in> set (message_calls c)" if "(r, i) \<in> set (observed m)" for r i
    using obs[OF that] inv by (auto simp: proj_inv_def)
  ultimately have g: "group_ok source (dn @ [m]) (p_after st) (p_pending st @ [m])"
    using inv m later by (intro group_ok_snoc) (auto simp: proj_inv_def)
  have "\<forall>x \<in> set (p_pending st @ [m]). m_seq x \<le> m_seq m"
    using inv later by (auto simp: proj_inv_def group_ok_def less_imp_le)
  then show ?thesis
    using inv g calls turns_ok_mono[of source dn "p_turns st" m] m
    by (auto simp: proj_inv_def talk_ids_snoc)
qed

lemma proj_inv_skip:
  assumes "proj_inv source dn st" and "m_source m = source \<longrightarrow> \<not> is_talk (m_body m)"
    and "h = p_head st \<or> (h = m_seq m \<and> (\<forall>x \<in> set dn. m_seq x < m_seq m))"
  shows "proj_inv source (dn @ [m]) (st\<lparr>p_head := h\<rparr>)"
proof -
  have "set (p_pending st) \<subseteq> set dn" and "\<forall>x \<in> set (p_pending st). m_seq x \<le> p_head st"
    using assms(1) by (auto simp: proj_inv_def group_ok_def)
  then have h: "\<forall>x \<in> set (p_pending st). m_seq x \<le> h" using assms(3) by (auto dest: less_imp_le)
  have t: "talk_ids source (dn @ [m]) = talk_ids source dn" using assms(2) by (simp add: talk_ids_snoc)
  have a: "p_after st = - 1 \<or> (\<exists>x \<in> set (dn @ [m]). p_after st \<le> m_seq x)" using assms(1) by (auto simp: proj_inv_def)
  show ?thesis
    using assms(1) h a group_ok_mono[of source dn "p_after st" "p_pending st" m]
      turns_ok_mono[of source dn "p_turns st" m]
    unfolding proj_inv_def t by simp
qed

lemma project_step_inv:
  assumes inv: "proj_inv source dn st" and step: "project_step source m st = Inr st'"
    and later: "\<forall>x \<in> set dn. m_seq x < m_seq m" and pos: "0 \<le> m_seq m" and dist: "distinct (map m_id dn)"
    and ahead: "\<not> control_ahead (m_body m) (m_seq m)"
  shows "proj_inv source (dn @ [m]) st'"
proof (cases "m_source m = source")
  case False
  then show ?thesis using proj_inv_skip[OF inv, of m "p_head st"] step by (simp add: project_step_def)
next
  case True
  have skip: "proj_inv source (dn @ [m]) (st\<lparr>p_head := m_seq m\<rparr>)" if "\<not> is_talk (m_body m)"
    using proj_inv_skip[OF inv, of m "m_seq m"] that later by simp
  show ?thesis
  proof (cases "m_body m")
    case (Input ps)
    have "proj_inv source (dn @ [m]) (st\<lparr>p_head := m_seq m, p_pending := p_pending st @ [m], p_calls := p_calls st\<rparr>)"
      using Input by (intro proj_inv_push[OF inv True later pos]) (auto simp: message_calls.simps observed.simps)
    then show ?thesis using step Input True by (simp add: project_step_def)
  next
    case (ToolResult l r oc ps)
    show ?thesis
    proof (cases "r \<in> set (p_calls st)")
      case r: True
      have "proj_inv source (dn @ [m]) (st\<lparr>p_head := m_seq m, p_pending := p_pending st @ [m], p_calls := p_calls st\<rparr>)"
        using ToolResult r by (intro proj_inv_push[OF inv True later pos]) (auto simp: message_calls.simps observed.simps)
      then show ?thesis using step ToolResult True r by (simp add: project_step_def)
    next
      case False
      then show ?thesis using step ToolResult True skip by (simp add: project_step_def)
    qed
  next
    case (Control a through reason)
    show ?thesis
    proof (cases "a = Abandon")
      case False
      then show ?thesis using step Control True skip by (simp add: project_step_def)
    next
      case ab: True
      have "proj_inv source dn (st\<lparr>p_head := m_seq m\<rparr>)"
        using inv later by (auto simp: proj_inv_def group_ok_def less_imp_le)
      moreover have "close_abandoned source (m_id m) through (st\<lparr>p_head := m_seq m\<rparr>) = Inr st'"
        using step Control True ab by (simp add: project_step_def)
      moreover have "\<exists>x \<in> set (dn @ [m]). through \<le> m_seq x" using ahead Control by auto
      moreover have "talk_ids source (dn @ [m]) = talk_ids source dn" using Control by (simp add: talk_ids_snoc)
      ultimately show ?thesis using abandon_inv dist by blast
    qed
  next
    case (Output ps f)
    let ?calls = "p_calls st @ calls_in (m_id m) ps"
    have push: "proj_inv source (dn @ [m]) (st\<lparr>p_head := m_seq m, p_pending := p_pending st @ [m], p_calls := ?calls\<rparr>)"
      using Output by (intro proj_inv_push[OF inv True later pos]) (auto simp: message_calls.simps observed.simps)
    show ?thesis
    proof (cases "f = Continue")
      case c: True
      then show ?thesis using step Output True push by (simp add: project_step_def)
    next
      case False
      let ?t = "build_turn source (p_after st) (m_seq m) (Some (m_id m)) (status_of f) (p_pending st @ [m])"
      have st': "st' = st\<lparr>p_head := m_seq m, p_turns := p_turns st @ [?t], p_pending := [], p_calls := [], p_after := m_seq m\<rparr>"
        using step Output True False by (simp add: project_step_def)
      have "turn_ok source (dn @ [m]) ?t"
        using push by (intro build_turn_ok) (auto simp: proj_inv_def)
      then have "turns_ok source (dn @ [m]) (p_turns st @ [?t])"
        using push by (intro turns_ok_snoc) (auto simp: proj_inv_def)
      moreover have "status_of f \<noteq> TOpen" using False by (cases f) auto
      moreover have "p_after st < m_seq m" using inv later pos by (auto simp: proj_inv_def)
      ultimately show ?thesis
        using push pos unfolding st' by (auto simp: proj_inv_def group_ok_def)
    qed
  qed
qed

definition prefix_ok :: "message list \<Rightarrow> bool" where
  "prefix_ok ms \<longleftrightarrow> sorted_wrt (\<lambda>a b. m_seq a < m_seq b) ms \<and> distinct (map m_id ms)
     \<and> (\<forall>a \<in> set ms. \<forall>b \<in> set ms. m_session a = m_session b) \<and> (\<forall>m \<in> set ms. wf_message m)"

lemma project_fold_inv:
  assumes "foldR (project_step source) ms st = Inr st'" and "proj_inv source dn st" and "prefix_ok (dn @ ms)"
  shows "proj_inv source (dn @ ms) st'"
  using assms
proof (induction ms arbitrary: dn st)
  case (Cons m ms)
  obtain s1 where s1: "project_step source m st = Inr s1" and rest: "foldR (project_step source) ms s1 = Inr st'"
    using Cons.prems(1) by (auto simp: res_simps)
  have "proj_inv source (dn @ [m]) s1"
    using Cons.prems(3) by (intro project_step_inv[OF Cons.prems(2) s1]) (auto simp: prefix_ok_def sorted_wrt_append wf_message_def)
  then show ?case using Cons.IH[OF rest, of "dn @ [m]"] Cons.prems(3) by simp
qed simp

lemma proj_inv_start: "proj_inv source [] project_start"
  by (simp add: proj_inv_def project_start_def group_ok_def turns_ok_def talk_ids_def)

lemma check_prefix_ok:
  assumes "sorted_wrt (\<lambda>a b. m_seq a < m_seq b) ms" and "distinct (map m_id ms)"
    and "\<forall>m \<in> set ms. m_session m = sid \<and> prev < m_seq m \<and> m_id m \<notin> set seen"
  shows "check_prefix sid prev seen ms = Inr ()"
  using assms
proof (induction ms arbitrary: prev seen)
  case (Cons m ms)
  have fresh: "\<forall>x \<in> set ms. m_id x \<noteq> m_id m"
  proof
    fix x assume "x \<in> set ms"
    then have "m_id x \<in> set (map m_id ms)" by simp
    then show "m_id x \<noteq> m_id m" using Cons.prems(2) by (simp only: list.map distinct.simps) metis
  qed
  have "check_prefix sid (m_seq m) (m_id m # seen) ms = Inr ()"
  proof (rule Cons.IH)
    show "\<forall>x \<in> set ms. m_session x = sid \<and> m_seq m < m_seq x \<and> m_id x \<notin> set (m_id m # seen)"
      using fresh Cons.prems(1,3) by simp
  qed (use Cons.prems in simp_all)
  then show ?case using Cons.prems by simp
qed simp

lemma project_start_ok:
  assumes "prefix_ok ms" and "ms \<noteq> []"
  shows "project ms source = bindR (foldR (project_step source) ms project_start) (\<lambda>st. Inr (project_finish source st))"
proof -
  obtain m ms' where ms: "ms = m # ms'" using assms(2) by (cases ms) auto
  have "m_session x = m_session m" and "0 \<le> m_seq x" if "x \<in> set ms" for x
    using assms(1) that unfolding prefix_ok_def wf_message_def ms by auto
  then have "check_prefix (m_session m) (- 1) [] ms = Inr ()"
    using assms(1) by (intro check_prefix_ok) (force simp: prefix_ok_def)+
  then show ?thesis by (simp add: project_def ms)
qed

text \<open>The turns of a prefix: every turn is a run of its messages, they follow one another, and
  every input and output of the source is in exactly one, in order.\<close>

lemma project_turns:
  assumes "project ms source = Inr ts" and "prefix_ok ms"
  shows "turns_ok source ms ts \<and> concat (map t_messages ts) = talk_ids source ms
     \<and> (\<forall>t \<in> set (butlast ts). t_status t \<noteq> TOpen)"
proof (cases "ms = []")
  case True
  then show ?thesis using assms by (simp add: project_def turns_ok_def talk_ids_def)
next
  case False
  then obtain st where fold: "foldR (project_step source) ms project_start = Inr st" and ts: "ts = project_finish source st"
    using assms(1) project_start_ok[OF assms(2)] by (auto simp: res_simps)
  have inv: "proj_inv source ms st"
    using project_fold_inv[OF fold proj_inv_start] assms(2) by simp
  show ?thesis
  proof (cases "p_pending st = []")
    case True
    then show ?thesis using inv ts by (auto simp: project_finish_def proj_inv_def dest: in_set_butlastD)
  next
    case False
    let ?t = "build_turn source (p_after st) (p_head st) None TOpen (p_pending st)"
    have "turn_ok source ms ?t" using inv False by (intro build_turn_ok) (auto simp: proj_inv_def)
    then have "turns_ok source ms (p_turns st @ [?t])" using inv by (intro turns_ok_snoc) (auto simp: proj_inv_def)
    then show ?thesis using inv ts False by (auto simp: project_finish_def proj_inv_def)
  qed
qed

lemma turn_ok_facts:
  assumes "turn_ok source ms t"
  shows "t_after t < t_through t"
    and "i \<in> set (t_messages t) \<Longrightarrow> \<exists>m \<in> set ms. m_id m = i \<and> m_source m = source \<and> t_after t < m_seq m \<and> m_seq m \<le> t_through t"
    and "(r, i) \<in> set (t_observations t) \<Longrightarrow> ref_message r \<in> set (t_messages t)"
proof -
  obtain g where g: "g \<noteq> []" "group_ok source ms (t_after t) g" "\<forall>m \<in> set g. m_seq m \<le> t_through t"
    and t: "t = build_turn source (t_after t) (t_through t) (t_ending t) (t_status t) g"
    using assms unfolding turn_ok_def by blast
  show "t_after t < t_through t" using g by (cases g) (auto simp: group_ok_def)
  have tm: "t_messages t = map m_id (filter (\<lambda>m. is_talk (m_body m)) g)" and tobs: "t_observations t = concat (map observed g)"
    by (subst t, simp)+
  show "\<exists>m \<in> set ms. m_id m = i \<and> m_source m = source \<and> t_after t < m_seq m \<and> m_seq m \<le> t_through t"
    if "i \<in> set (t_messages t)"
    using that g unfolding tm by (auto simp: group_ok_def)
  show "ref_message r \<in> set (t_messages t)" if "(r, i) \<in> set (t_observations t)"
  proof -
    from that have "(r, i) \<in> set (concat (map observed g))" by (simp only: tobs)
    then obtain m where "m \<in> set g" "(r, i) \<in> set (observed m)" by auto
    then obtain c where c: "c \<in> set g" "r \<in> set (message_calls c)" using g(2) unfolding group_ok_def by blast
    then have "is_talk (m_body c)" by (cases "m_body c") (auto simp: message_calls.simps)
    then show ?thesis using c message_calls_id[OF c(2)] unfolding tm by force
  qed
qed


section \<open>The calls a restart recovers\<close>

fun closings :: "message \<Rightarrow> int list" where
  "closings m = (case m_body m of
     Output ps f \<Rightarrow> if f \<noteq> Continue then [m_seq m] else []
   | Control a t r \<Rightarrow> if a = Abandon then [t] else []
   | _ \<Rightarrow> [])"

declare closings.simps [simp del]

definition from_source :: "string \<Rightarrow> message list \<Rightarrow> message list" where
  "from_source source ms = filter (\<lambda>m. m_source m = source) ms"

text \<open>The end of the closed part of a source: its last answer or abandoned prefix.\<close>

definition closed_through :: "message list \<Rightarrow> string \<Rightarrow> int" where
  "closed_through ms source = max_default (- 1) (concat (map closings (from_source source ms)))"

lemma map_of_fold_update:
  "map_of (fold (\<lambda>r. AList.update r v) rs d) r = (if r \<in> set rs then Some v else map_of d r)"
  by (induction rs arbitrary: d) (auto simp: map_of_update)

lemma distinct_fold_update: "distinct (keys d) \<Longrightarrow> distinct (keys (fold (\<lambda>r. AList.update r v) rs d))"
  by (induction rs arbitrary: d) auto

lemma recovered_snoc: "recovered (ms @ [m]) source = recover_step source m (recovered ms source)"
  by (simp add: recovered_def)

lemma max_default_snoc: "max_default d (xs @ [x]) = max (max_default d xs) x"
  by (simp add: max_default_def max.commute)

lemma closed_through_snoc:
  "closed_through (ms @ [m]) source =
     (if m_source m = source then fold max (closings m) (closed_through ms source) else closed_through ms source)"
  by (simp add: closed_through_def from_source_def max_default_def)

lemma closings_bound:
  assumes "wf_message m" and "x \<in> set (closings m)"
  shows "x \<le> m_seq m"
  using assms by (cases "m_body m") (auto simp: closings.simps wf_message_def split: if_splits)

lemma closed_through_bound:
  assumes "prefix_ok (ms @ [m])"
  shows "closed_through ms source < m_seq m"
  unfolding closed_through_def
proof (rule max_default_less)
  show "- 1 < m_seq m" using assms by (simp add: prefix_ok_def wf_message_def)
  fix x assume "x \<in> set (concat (map closings (from_source source ms)))"
  then obtain y where "y \<in> set ms" "x \<in> set (closings y)" by (auto simp: from_source_def)
  then have "x \<le> m_seq y" and "m_seq y < m_seq m"
    using assms closings_bound unfolding prefix_ok_def sorted_wrt_append by auto
  then show "x < m_seq m" by simp
qed

lemma prefix_ok_butlast: "prefix_ok (ms @ [m]) \<Longrightarrow> prefix_ok ms"
  unfolding prefix_ok_def sorted_wrt_append map_append distinct_append set_append by blast

lemma prefix_ok_fresh:
  assumes "prefix_ok (ms @ [m])" and "x \<in> set ms"
  shows "m_id x \<noteq> m_id m"
proof -
  have "distinct (map m_id (ms @ [m]))" using assms(1) unfolding prefix_ok_def by blast
  then have "m_id m \<notin> set (map m_id ms)" by simp
  then show ?thesis using assms(2) by (metis image_eqI list.set_map)
qed

lemma recovered_spec:
  assumes "prefix_ok ms"
  shows "v_boundary (recovered ms source) = closed_through ms source
    \<and> (\<forall>r seq. map_of (v_calls (recovered ms source)) r = Some seq \<longleftrightarrow>
         (\<exists>m \<in> set ms. m_source m = source \<and> r \<in> set (message_calls m) \<and> m_seq m = seq))
    \<and> set (v_results (recovered ms source)) = {r. \<exists>m \<in> set ms. m_source m = source \<and> (\<exists>i. (r, i) \<in> set (observed m))}
    \<and> distinct (keys (v_calls (recovered ms source)))"
  using assms
proof (induction ms rule: rev_induct)
  case Nil
  show ?case by (simp add: recovered_def closed_through_def from_source_def)
next
  case (snoc m ms)
  let ?v = "recovered ms source"
  have ok: "prefix_ok ms" by (rule prefix_ok_butlast[OF snoc.prems])
  note IH = snoc.IH[OF ok]
  have bound: "closed_through ms source < m_seq m" by (rule closed_through_bound[OF snoc.prems])
  show ?case
  proof (cases "m_source m = source")
    case False
    then show ?thesis using IH by (auto simp: recovered_snoc recover_step_def closed_through_snoc)
  next
    case True
    have fresh: "r \<notin> set (message_calls m)" if "x \<in> set ms" "r \<in> set (message_calls x)" for x r
    proof
      assume "r \<in> set (message_calls m)"
      then have "m_id x = m_id m" using message_calls_id that(2) by metis
      then show False using prefix_ok_fresh[OF snoc.prems that(1)] by simp
    qed
    show ?thesis
    proof (cases "m_body m")
      case (Input ps)
      then have "message_calls m = []" "observed m = []" "closings m = []"
        by (simp_all add: message_calls.simps observed.simps closings.simps)
      then show ?thesis using IH True Input by (simp add: recovered_snoc recover_step_def closed_through_snoc)
    next
      case (ToolResult l r oc ps)
      then have "message_calls m = []" "observed m = [(r, m_id m)]" "closings m = []"
        by (simp_all add: message_calls.simps observed.simps closings.simps)
      then show ?thesis using IH True ToolResult
        by (simp add: recovered_snoc recover_step_def closed_through_snoc) blast
    next
      case (Control a t re)
      then have "message_calls m = []" "observed m = []" "closings m = (if a = Abandon then [t] else [])"
        by (simp_all add: message_calls.simps observed.simps closings.simps)
      then show ?thesis using IH True Control
        by (simp add: recovered_snoc recover_step_def closed_through_snoc max.commute del: map_of_eq_Some_iff)
    next
      case (Output ps f)
      have calls: "message_calls m = calls_in (m_id m) ps" and obs: "observed m = []"
        using Output by (simp_all add: message_calls.simps observed.simps)
      have v: "recovered (ms @ [m]) source = ?v\<lparr>v_boundary := (if f \<noteq> Continue then m_seq m else v_boundary ?v),
          v_calls := fold (\<lambda>r. AList.update r (m_seq m)) (message_calls m) (v_calls ?v)\<rparr>"
        using Output True by (simp add: recovered_snoc recover_step_def calls)
      have "v_boundary (recovered (ms @ [m]) source) = closed_through (ms @ [m]) source"
        using IH True Output bound by (simp add: v closed_through_snoc closings.simps max_def)
      moreover have "map_of (v_calls (recovered (ms @ [m]) source)) r = Some seq \<longleftrightarrow>
         (\<exists>x \<in> set (ms @ [m]). m_source x = source \<and> r \<in> set (message_calls x) \<and> m_seq x = seq)" for r seq
        using IH True fresh by (auto simp: v map_of_fold_update)
      moreover have "set (v_results (recovered (ms @ [m]) source)) = set (v_results ?v)" by (simp add: v)
      moreover have "distinct (keys (v_calls (recovered (ms @ [m]) source)))"
        using IH by (simp add: v distinct_fold_update)
      ultimately show ?thesis using IH obs by auto
    qed
  qed
qed

lemma pending_calls_spec:
  assumes "prefix_ok ms"
  shows "r \<in> set (pending_calls ms source) \<longleftrightarrow>
     (\<exists>m \<in> set ms. m_source m = source \<and> r \<in> set (message_calls m) \<and> closed_through ms source < m_seq m)
     \<and> \<not> (\<exists>m \<in> set ms. m_source m = source \<and> (\<exists>i. (r, i) \<in> set (observed m)))"
proof -
  let ?v = "recovered ms source"
  note spec = recovered_spec[OF assms, of source]
  have "(r, seq) \<in> set (v_calls ?v) \<longleftrightarrow> map_of (v_calls ?v) r = Some seq" for seq
    using map_of_eq_Some_iff[of "v_calls ?v" r seq] spec by blast
  then have "r \<in> set (pending_calls ms source) \<longleftrightarrow>
      (\<exists>seq. map_of (v_calls ?v) r = Some seq \<and> v_boundary ?v < seq \<and> r \<notin> set (v_results ?v))"
    by (force simp: pending_calls_def Let_def)
  then show ?thesis using spec by auto
qed

lemma project_after:
  assumes "foldR (project_step source) ms st = Inr st'" and "p_after st = v_boundary v"
  shows "p_after st' = v_boundary (fold (recover_step source) ms v)"
  using assms
proof (induction ms arbitrary: st v)
  case (Cons m ms)
  obtain s1 where s1: "project_step source m st = Inr s1" and rest: "foldR (project_step source) ms s1 = Inr st'"
    using Cons.prems(1) by (auto simp: res_simps)
  have "p_after s1 = v_boundary (recover_step source m v)"
    using s1 Cons.prems(2)
    by (cases "m_body m") (auto simp: project_step_def recover_step_def close_abandoned_def Let_def split: if_splits)
  then show ?case using Cons.IH[OF rest] by simp
qed simp

text \<open>A message of the source after the closed part is in the open turn.\<close>

lemma in_concat_or: "x \<in> set ys \<Longrightarrow> concat xss @ zs = ys \<Longrightarrow> x \<notin> set zs \<Longrightarrow> \<exists>xs \<in> set xss. x \<in> set xs"
  by auto

lemma open_turn_member:
  assumes p: "project ms source = Inr ts" and ok: "prefix_ok ms" and m: "m \<in> set ms" "m_source m = source"
    and talk: "is_talk (m_body m)" and open': "closed_through ms source < m_seq m"
  shows "ts \<noteq> [] \<and> t_status (last ts) = TOpen \<and> m_id m \<in> set (t_messages (last ts))"
proof -
  have "ms \<noteq> []" using m by auto
  then obtain st where fold: "foldR (project_step source) ms project_start = Inr st" and ts: "ts = project_finish source st"
    using p project_start_ok[OF ok] by (auto simp: res_simps)
  have inv: "proj_inv source ms st" using project_fold_inv[OF fold proj_inv_start] ok by simp
  have after: "p_after st = closed_through ms source"
    using project_after[OF fold, of "\<lparr>v_boundary = - 1, v_calls = [], v_results = []\<rparr>"] recovered_spec[OF ok, of source]
    by (simp add: recovered_def project_start_def)
  have mem: "m_id m \<in> set (talk_ids source ms)" using m talk by (auto simp: talk_ids_def)
  have closed: "m_id m \<notin> set (t_messages t)" if t: "t \<in> set (p_turns st)" for t
  proof
    assume i: "m_id m \<in> set (t_messages t)"
    have t_ok: "turn_ok source ms t" and le: "t_through t \<le> p_after st" using inv t by (auto simp: proj_inv_def turns_ok_def)
    obtain x where "x \<in> set ms" "m_id x = m_id m" "m_seq x \<le> t_through t"
      using turn_ok_facts(2)[OF t_ok i] by blast
    moreover have "distinct (map m_id ms)" using ok unfolding prefix_ok_def by blast
    ultimately have "x = m" using distinct_map_same m(1) by metis
    then show False using \<open>m_seq x \<le> t_through t\<close> le after open' by simp
  qed
  have cover: "concat (map t_messages (p_turns st)) @ map m_id (filter (\<lambda>m. is_talk (m_body m)) (p_pending st)) = talk_ids source ms"
    using inv unfolding proj_inv_def by blast
  have "m_id m \<in> set (map m_id (filter (\<lambda>m. is_talk (m_body m)) (p_pending st)))"
    using in_concat_or[OF mem cover] closed by auto
  then show ?thesis using ts by (auto simp: project_finish_def)
qed

lemma pending_in_open_turn:
  assumes "project ms source = Inr ts" and "prefix_ok ms" and "r \<in> set (pending_calls ms source)"
  shows "ts \<noteq> [] \<and> t_status (last ts) = TOpen \<and> ref_message r \<in> set (t_messages (last ts))"
proof -
  obtain m where m: "m \<in> set ms" "m_source m = source" "r \<in> set (message_calls m)" "closed_through ms source < m_seq m"
    using assms pending_calls_spec by blast
  then have "is_talk (m_body m)" by (cases "m_body m") (auto simp: message_calls.simps)
  then show ?thesis using open_turn_member[OF assms(1,2) m(1,2) _ m(4)] message_calls_id[OF m(3)] by simp
qed


end
