(* ===== verification/Turn_Properties.thy ===== *)
theory Turn_Properties
  imports Sample_Log Turn_Projection
begin

text \<open>
  Turns and pending calls over the history of a stored session: the log's invariant gives the
  ordering the projection asks for, so its only refusal is an abandon of a closed prefix.
\<close>

lemma history_prefix_ok:
  assumes wf: "wf_log s"
  shows "prefix_ok (session_history s sid)"
  unfolding prefix_ok_def
proof (intro conjI)
  show "sorted_wrt (\<lambda>a b. m_seq a < m_seq b) (session_history s sid)"
    using session_history_ascending[OF wf, of sid] by (simp add: sorted_wrt_map)
  have rows: "set (session_rows s sid) \<subseteq> set (messages s)" by (auto simp: session_rows_def)
  then have "map m_id (session_history s sid) = map r_id (session_rows s sid)"
    using row_id[OF wf] by (auto simp: session_history_def)
  moreover have "distinct (map r_id (session_rows s sid))"
    using wf by (simp add: wf_log_def wf_messages_def session_rows_def distinct_map_filter)
  ultimately show "distinct (map m_id (session_history s sid))" by simp
  show "\<forall>a \<in> set (session_history s sid). \<forall>b \<in> set (session_history s sid). m_session a = m_session b"
    and "\<forall>m \<in> set (session_history s sid). wf_message m" using history_nonneg[OF wf] by blast+
qed

text \<open>An abandon that names a part of its source that is not closed yet.\<close>

definition abandons_open :: "string \<Rightarrow> message list \<Rightarrow> bool" where
  "abandons_open source ms \<longleftrightarrow> (\<forall>pre m post t r. ms = pre @ m # post \<longrightarrow> m_source m = source \<longrightarrow>
     m_body m = Control Abandon t r \<longrightarrow> closed_through pre source < t)"

lemma fold_total:
  assumes "prefix_ok ms" and "abandons_open source ms"
  shows "\<exists>st. foldR (project_step source) ms project_start = Inr st \<and> p_after st = closed_through ms source"
  using assms
proof (induction ms rule: rev_induct)
  case Nil
  then show ?case by (simp add: project_start_def closed_through_def from_source_def max_default_def)
next
  case (snoc m ms)
  have "abandons_open source ms" unfolding abandons_open_def
  proof (intro allI impI)
    fix pre x post t r
    assume "ms = pre @ x # post" "m_source x = source" "m_body x = Control Abandon t r"
    then show "closed_through pre source < t"
      using snoc.prems(2)[unfolded abandons_open_def, rule_format, of pre x "post @ [m]" t r] by simp
  qed
  then obtain st where st: "foldR (project_step source) ms project_start = Inr st" "p_after st = closed_through ms source"
    using snoc.IH prefix_ok_butlast[OF snoc.prems(1)] by blast
  have "\<exists>st'. project_step source m st = Inr st'"
    using snoc.prems(2)[unfolded abandons_open_def, rule_format, of ms m "[]"] st(2)
    by (cases "m_body m") (auto simp: project_step_def close_abandoned_def Let_def)
  then obtain st' where "project_step source m st = Inr st'" by blast
  then have fold: "foldR (project_step source) (ms @ [m]) project_start = Inr st'" using st by (simp add: foldR_append)
  have "p_after st' = v_boundary (fold (recover_step source) (ms @ [m]) \<lparr>v_boundary = - 1, v_calls = [], v_results = []\<rparr>)"
    by (rule project_after[OF fold]) (simp add: project_start_def)
  then show ?case using fold recovered_spec[OF snoc.prems(1)] by (auto simp: recovered_def)
qed

lemma project_total:
  assumes "prefix_ok ms" and "abandons_open source ms"
  shows "\<exists>ts. project ms source = Inr ts"
proof (cases ms)
  case (Cons m rest)
  then show ?thesis using fold_total[OF assms] project_start_ok[OF assms(1)] by auto
qed (simp add: project_def)

text \<open>C4. The turns of a source over the history of a stored session exist unless some control message abandons a
  prefix that was already closed; they lie one after another, only the last can be open, together
  they hold exactly the source's inputs and outputs, each once and in order, and a turn observes
  only results of calls made in that turn.\<close>

theorem turns_partition_history:
  assumes "wf_log s" and "abandons_open source (session_history s sid)"
  shows "\<exists>ts. project (session_history s sid) source = Inr ts
    \<and> concat (map t_messages ts) = talk_ids source (session_history s sid)
    \<and> distinct (concat (map t_messages ts))
    \<and> sorted_wrt (\<lambda>a b. t_through a \<le> t_after b) ts
    \<and> (\<forall>t \<in> set (butlast ts). t_status t \<noteq> TOpen)
    \<and> (\<forall>t \<in> set ts. \<forall>r i. (r, i) \<in> set (t_observations t) \<longrightarrow> ref_message r \<in> set (t_messages t))"
proof -
  have ok: "prefix_ok (session_history s sid)" by (rule history_prefix_ok[OF assms(1)])
  obtain ts where ts: "project (session_history s sid) source = Inr ts" using project_total[OF ok assms(2)] by blast
  note t = project_turns[OF ts ok]
  have "distinct (talk_ids source (session_history s sid))"
    using ok by (simp add: talk_ids_def prefix_ok_def distinct_map_filter)
  then show ?thesis using ts t turn_ok_facts(3) unfolding turns_ok_def by metis
qed

lemma sample_history:
  "session_history log2 ''s'' = [said ''m1'' 0 ''user'' hello, said ''m2'' 1 ''model'' asking]"
  "session_history log3 ''s'' = [said ''m1'' 0 ''user'' hello, said ''m2'' 1 ''model'' asking, said ''m3'' 2 ''tool'' answer]"
proof -
  have d: "decode_body hello_doc = Inr hello" "decode_body answer_doc = Inr answer"
    using decode_encode[of hello hello_doc] decode_encode[of answer answer_doc]
    by (simp_all add: encode_samples) (simp_all add: hello_def answer_def)
  show "session_history log2 ''s'' = [said ''m1'' 0 ''user'' hello, said ''m2'' 1 ''model'' asking]"
    and "session_history log3 ''s'' = [said ''m1'' 0 ''user'' hello, said ''m2'' 1 ''model'' asking, said ''m3'' 2 ''tool'' answer]"
    using make_samples
    by (simp_all add: session_history_def session_rows_def log_after_def said_row_def message_of_def json_object_of_def d
        decode_asking bound_log_def empty_log_def)
qed

lemma sample_open: "abandons_open ''chat'' (session_history log3 ''s'')"
  unfolding abandons_open_def
proof (intro allI impI)
  fix pre m post t r
  assume eq: "session_history log3 ''s'' = pre @ m # post" and c: "m_body m = Control Abandon t r"
  have "m \<in> set (session_history log3 ''s'')" using eq by simp
  then show "closed_through pre ''chat'' < t"
    using c by (auto simp: sample_history said_def hello_def asking_def answer_def)
qed

lemma turns_partition_history_witness:
  "\<exists>ts. project (session_history log3 ''s'') ''chat'' = Inr ts \<and> concat (map t_messages ts) = [''m1'', ''m2'']"
  using turns_partition_history[OF _ sample_open]
  by (auto simp: sample_history talk_ids_def said_def hello_def asking_def answer_def)

text \<open>C17. What the model loop recovers as pending after a restart is exactly the calls of its source that lie after
  the closed part and have no stored result.\<close>

theorem pending_exact:
  assumes "wf_log s"
  shows "r \<in> set (pending_calls (session_history s sid) source) \<longleftrightarrow>
     (\<exists>m \<in> set (session_history s sid). m_source m = source \<and> r \<in> set (message_calls m)
         \<and> closed_through (session_history s sid) source < m_seq m)
     \<and> \<not> (\<exists>m \<in> set (session_history s sid). m_source m = source \<and> result_ref (m_body m) = Some r)"
proof -
  have "(\<exists>i. (r, i) \<in> set (observed m)) \<longleftrightarrow> result_ref (m_body m) = Some r" for m
    by (cases "m_body m") (auto simp: observed.simps)
  then show ?thesis unfolding pending_calls_spec[OF history_prefix_ok[OF assms]] by simp
qed

lemma pending_exact_witness:
  "CallRef ''m2'' 0 \<notin> set (pending_calls (session_history log3 ''s'') ''chat'')"
  using pending_exact[OF sample_wf(4), of "CallRef ''m2'' 0" "''s''" "''chat''"]
  by (simp add: sample_history said_def)

text \<open>The two readings of the history agree: a call the model loop still has to execute was made by a message of
  the open turn, which is then the last one.\<close>

theorem pending_call_in_open_turn:
  assumes "wf_log s" and "project (session_history s sid) source = Inr ts"
    and "r \<in> set (pending_calls (session_history s sid) source)"
  shows "ts \<noteq> [] \<and> t_status (last ts) = TOpen \<and> ref_message r \<in> set (t_messages (last ts))"
  by (rule pending_in_open_turn[OF assms(2) history_prefix_ok[OF assms(1)] assms(3)])

lemma pending_call_in_open_turn_witness:
  "\<exists>ts. project (session_history log2 ''s'') ''chat'' = Inr ts \<and> ts \<noteq> [] \<and> t_status (last ts) = TOpen"
proof -
  have r: "CallRef ''m2'' 0 \<in> set (pending_calls (session_history log2 ''s'') ''chat'')"
    by (simp add: sample_history said_def hello_def asking_def pending_calls_def recovered_def recover_step_def
        calls_in_def Let_def)
  have "\<exists>ts. project (session_history log2 ''s'') ''chat'' = Inr ts"
    by (simp add: sample_history said_def hello_def asking_def project_def project_start_def project_step_def Let_def)
  then show ?thesis using pending_call_in_open_turn[OF _ _ r] by auto
qed

end
