(* ===== verification/Delivery_Records.thy ===== *)
theory Delivery_Records
  imports Message_Reader Owner_Store
begin

text \<open>
  \<open>plugins/delivery/records.py\<close>, \<open>history.py\<close> and the values of \<open>api.py\<close>: which sinks a message was
  selected for, the phase of each delivery, the consumption cursor of a session and the index of
  confirmed deliveries, all records of one owner's store.

  Pydantic parses a stored record back into the model it was dumped from: a record is a typed
  value (\<open>delivery_row\<close>), except that the phase and the receipt of a delivery are the stored texts,
  because \<open>read_delivery\<close> reinterprets an old one. A key is the \<open>delivery_key\<close> value its text is built
  from; \<open>key_text\<close> is that text, by which the store lists. A confirmation time is its instant in
  microseconds: the index text orders by (time, message id). The read side of the log is a
  \<open>message_log\<close> argument; a write returns the new records, an error none (the transaction rolls back).
\<close>

section \<open>Values\<close>

record sink =
  sk_name :: string
  sk_binding :: string
  sk_address :: string

datatype receipt_status = RDelivered | RRejected | RFailed

record receipt =
  rc_status :: receipt_status
  rc_ids :: "string list"
  rc_error :: "string option"

datatype phase = Prepared | Started | Settled receipt_status

record delivery =
  dl_sink :: sink
  dl_phase :: phase
  dl_receipt :: "receipt option"
  dl_confirmed :: "int option"

text \<open>\<open>Delivery(..)\<close> with \<open>check_receipt\<close>.\<close>

definition receipt_mismatch :: "phase \<Rightarrow> receipt option \<Rightarrow> bool" where
  "receipt_mismatch ph rc =
     (case ph of
        Settled st \<Rightarrow> (case rc of None \<Rightarrow> True | Some r \<Rightarrow> rc_status r \<noteq> st)
      | _ \<Rightarrow> rc \<noteq> None)"

definition mk_Delivery :: "sink \<Rightarrow> phase \<Rightarrow> receipt option \<Rightarrow> int option \<Rightarrow> delivery res" where
  "mk_Delivery sk ph rc confirmed =
     (if receipt_mismatch ph rc then Inl ValueError
      else if confirmed \<noteq> None \<and> ph \<noteq> Settled RDelivered then Inl ValueError
      else Inr \<lparr>dl_sink = sk, dl_phase = ph, dl_receipt = rc, dl_confirmed = confirmed\<rparr>)"

definition wf_delivery :: "delivery \<Rightarrow> bool" where
  "wf_delivery d \<longleftrightarrow> mk_Delivery (dl_sink d) (dl_phase d) (dl_receipt d) (dl_confirmed d) = Inr d"

record stored_receipt =
  sr_status :: string
  sr_ids :: "string list"
  sr_error :: "string option"

record stored_delivery =
  sd_sink :: sink
  sd_phase :: string
  sd_receipt :: "stored_receipt option"
  sd_confirmed :: "int option"

fun status_name :: "receipt_status \<Rightarrow> string" where
  "status_name RDelivered = ''delivered''"
| "status_name RRejected = ''rejected''"
| "status_name RFailed = ''failed''"

fun phase_name :: "phase \<Rightarrow> string" where
  "phase_name Prepared = ''prepared''"
| "phase_name Started = ''started''"
| "phase_name (Settled st) = status_name st"

definition parse_status :: "string \<Rightarrow> receipt_status res" where
  "parse_status s = (case find (\<lambda>x. status_name x = s) [RDelivered, RRejected, RFailed] of
                       None \<Rightarrow> Inl ValueError | Some st \<Rightarrow> Inr st)"

definition parse_phase :: "string \<Rightarrow> phase res" where
  "parse_phase s = (case find (\<lambda>x. phase_name x = s)
                           [Prepared, Started, Settled RDelivered, Settled RRejected, Settled RFailed] of
                      None \<Rightarrow> Inl ValueError | Some ph \<Rightarrow> Inr ph)"

definition dump_receipt :: "receipt \<Rightarrow> stored_receipt" where
  "dump_receipt r = \<lparr>sr_status = status_name (rc_status r), sr_ids = rc_ids r, sr_error = rc_error r\<rparr>"

definition dump_delivery :: "delivery \<Rightarrow> stored_delivery" where
  "dump_delivery d =
     \<lparr>sd_sink = dl_sink d, sd_phase = phase_name (dl_phase d),
      sd_receipt = map_option dump_receipt (dl_receipt d), sd_confirmed = dl_confirmed d\<rparr>"

definition parse_receipt :: "stored_receipt \<Rightarrow> receipt res" where
  "parse_receipt r =
     bindR (parse_status (sr_status r)) (\<lambda>st.
       Inr \<lparr>rc_status = st, rc_ids = sr_ids r, rc_error = sr_error r\<rparr>)"

definition parse_delivery :: "stored_delivery \<Rightarrow> delivery res" where
  "parse_delivery d =
     bindR (parse_phase (sd_phase d)) (\<lambda>ph.
     bindR (case sd_receipt d of None \<Rightarrow> Inr None | Some r \<Rightarrow> bindR (parse_receipt r) (\<lambda>x. Inr (Some x))) (\<lambda>rc.
       mk_Delivery (sd_sink d) ph rc (sd_confirmed d)))"

text \<open>\<open>read_delivery\<close>: the old phase \<open>unknown\<close> reads as \<open>failed\<close>.\<close>

definition read_delivery :: "stored_delivery \<Rightarrow> delivery res" where
  "read_delivery d =
     (if sd_phase d = ''unknown''
      then case sd_receipt d of
          None \<Rightarrow> Inl ValueError
        | Some r \<Rightarrow>
            if sr_status r \<noteq> ''unknown'' then Inl ValueError
            else parse_delivery (d\<lparr>sd_phase := ''failed'', sd_receipt := Some (r\<lparr>sr_status := ''failed''\<rparr>)\<rparr>)
      else parse_delivery d)"

record selection =
  sel_session :: string
  sel_owner :: string
  sel_passive :: bool
  sel_sinks :: "string list"

record confirmation =
  cf_message :: string
  cf_session :: string
  cf_time :: int

datatype delivery_key =
    KSelection string
  | KCursor string string
  | KDelivery string string
  | KConfirmed string
  | KTime int string

datatype delivery_row =
    RSelection selection
  | RCursor int
  | RDelivery stored_delivery
  | RConfirmation confirmation

section \<open>The record store\<close>

type_synonym delivery_rows = "(delivery_key \<times> int \<times> delivery_row) list"

definition row_read :: "delivery_rows \<Rightarrow> delivery_key \<Rightarrow> (int \<times> delivery_row) option" where
  "row_read rows k = map_of rows k"

definition row_save ::
  "delivery_key \<Rightarrow> delivery_row \<Rightarrow> int option \<Rightarrow> delivery_rows \<Rightarrow> (int \<times> delivery_rows) res" where
  "row_save k v expected rows =
     (if map_option fst (row_read rows k) \<noteq> expected then Inl MessageConflict
      else let version = (case row_read rows k of None \<Rightarrow> 0 | Some (n, _) \<Rightarrow> n + 1) in
        Inr (version, AList.update k (version, v) rows))"

interpretation delivery_store: versioned_records
  "\<lambda>rows :: delivery_rows. True" row_read row_save "\<lambda>v :: delivery_row. True" "\<lambda>v. v"
  by unfold_locales
     (auto simp: row_save_def row_read_def Let_def map_of_update split: if_splits option.splits)

definition as_selection :: "delivery_row \<Rightarrow> selection res" where
  "as_selection r = (case r of RSelection s \<Rightarrow> Inr s | _ \<Rightarrow> Inl ValueError)"

definition read_selection :: "delivery_rows \<Rightarrow> string \<Rightarrow> selection option res" where
  "read_selection rows mid =
     (case row_read rows (KSelection mid) of
        None \<Rightarrow> Inr None
      | Some (version, v) \<Rightarrow>
          (if version \<noteq> 0 then Inl ValueError else bindR (as_selection v) (\<lambda>s. Inr (Some s))))"

definition check_owner :: "string \<Rightarrow> delivery_rows \<Rightarrow> string \<Rightarrow> selection res" where
  "check_owner owner rows mid =
     bindR (read_selection rows mid) (\<lambda>selection.
       case selection of
         None \<Rightarrow> Inl ValueError
       | Some s \<Rightarrow> if sel_owner s \<noteq> owner then Inl PermissionError else Inr s)"

definition read_cursor :: "string \<Rightarrow> delivery_rows \<Rightarrow> string \<Rightarrow> int res" where
  "read_cursor owner rows sid =
     (case row_read rows (KCursor owner sid) of
        None \<Rightarrow> Inr (- 1)
      | Some (_, RCursor n) \<Rightarrow> (if n < - 1 then Inl ValueError else Inr n)
      | Some _ \<Rightarrow> Inl ValueError)"

definition as_delivery :: "delivery_row \<Rightarrow> delivery res" where
  "as_delivery r = (case r of RDelivery d \<Rightarrow> read_delivery d | _ \<Rightarrow> Inl ValueError)"

definition records_read :: "string \<Rightarrow> delivery_rows \<Rightarrow> string \<Rightarrow> string \<Rightarrow> ((int \<times> delivery_row) \<times> delivery) res" where
  "records_read owner rows mid sk =
     bindR (check_owner owner rows mid) (\<lambda>_.
       case row_read rows (KDelivery mid sk) of
         None \<Rightarrow> Inl ValueError
       | Some row \<Rightarrow>
           bindR (as_delivery (snd row)) (\<lambda>d.
             if sk_name (dl_sink d) \<noteq> sk then Inl ValueError else Inr (row, d)))"

section \<open>Selecting and consuming\<close>

definition check_message :: "message_log \<Rightarrow> string \<Rightarrow> message \<Rightarrow> sink list \<Rightarrow> unit res" where
  "check_message log sid m sinks =
     (if sid \<noteq> m_session m then Inl ValueError
      else bindR (get_message log sid (m_id m)) (\<lambda>found.
        if found \<noteq> Some m then Inl ValueError
        else if \<not> distinct (map sk_name sinks) then Inl ValueError
        else Inr ()))"

definition prepared :: "sink \<Rightarrow> delivery" where
  "prepared sk = \<lparr>dl_sink = sk, dl_phase = Prepared, dl_receipt = None, dl_confirmed = None\<rparr>"

definition add_sink :: "string \<Rightarrow> string \<Rightarrow> sink \<Rightarrow> delivery_rows \<Rightarrow> delivery_rows res" where
  "add_sink owner mid sk rows =
     (case row_read rows (KDelivery mid (sk_name sk)) of
        Some _ \<Rightarrow>
          bindR (records_read owner rows mid (sk_name sk)) (\<lambda>(row, existing).
            if dl_sink existing \<noteq> sk then Inl MessageConflict else Inr rows)
      | None \<Rightarrow>
          bindR (row_save (KDelivery mid (sk_name sk)) (RDelivery (dump_delivery (prepared sk))) None rows)
            (\<lambda>(_, rows). Inr rows))"

definition prepare_message ::
  "string \<Rightarrow> message \<Rightarrow> sink list \<Rightarrow> bool \<Rightarrow> delivery_rows \<Rightarrow> (selection \<times> delivery_rows) res" where
  "prepare_message owner m sinks passive rows =
     bindR (read_selection rows (m_id m)) (\<lambda>existing.
       case existing of
         Some s \<Rightarrow> (if sel_session s \<noteq> m_session m then Inl ValueError else Inr (s, rows))
       | None \<Rightarrow>
           let s = \<lparr>sel_session = m_session m, sel_owner = owner, sel_passive = passive,
                    sel_sinks = map sk_name sinks\<rparr> in
           bindR (row_save (KSelection (m_id m)) (RSelection s) None rows) (\<lambda>(_, rows).
           bindR (foldR (add_sink owner (m_id m)) sinks rows) (\<lambda>rows. Inr (s, rows))))"

definition records_prepare ::
  "string \<Rightarrow> message_log \<Rightarrow> string \<Rightarrow> message \<Rightarrow> sink list \<Rightarrow> bool \<Rightarrow> delivery_rows
     \<Rightarrow> (selection \<times> delivery_rows) res" where
  "records_prepare owner log sid m sinks passive rows =
     bindR (check_message log sid m sinks) (\<lambda>_.
     bindR (read_selection rows (m_id m)) (\<lambda>existing.
       if existing \<noteq> None then bindR (check_owner owner rows (m_id m)) (\<lambda>s. Inr (s, rows))
       else prepare_message owner m sinks passive rows))"

text \<open>\<open>publish\<close>: the append and the first selection are one transaction over log and records.\<close>

definition records_publish ::
  "string \<Rightarrow> int \<Rightarrow> writer \<Rightarrow> string \<Rightarrow> body \<Rightarrow> sink list \<Rightarrow> bool \<Rightarrow> message_log \<times> delivery_rows
     \<Rightarrow> ((message \<times> selection) \<times> (message_log \<times> delivery_rows)) res" where
  "records_publish owner now w mid b sinks passive st =
     (if \<not> distinct (map sk_name sinks) then Inl ValueError
      else bindR (append_message now w mid b None None (fst st)) (\<lambda>(m, log).
        bindR (read_selection (snd st) mid) (\<lambda>existing.
          if existing \<noteq> None
          then bindR (check_owner owner (snd st) mid) (\<lambda>s. Inr ((m, s), (log, snd st)))
          else bindR (prepare_message owner m sinks passive (snd st)) (\<lambda>(s, rows). Inr ((m, s), (log, rows))))))"

definition records_consume ::
  "string \<Rightarrow> message_log \<Rightarrow> string \<Rightarrow> message \<Rightarrow> sink list option \<Rightarrow> bool \<Rightarrow> delivery_rows
     \<Rightarrow> (selection option \<times> delivery_rows) res" where
  "records_consume owner log sid m sinks passive rows =
     bindR (check_message log sid m (case sinks of None \<Rightarrow> [] | Some s \<Rightarrow> s)) (\<lambda>_.
     bindR (read_cursor owner rows sid) (\<lambda>cursor.
     if m_seq m \<le> cursor then
       bindR (read_selection rows (m_id m)) (\<lambda>existing.
         if existing = None \<and> sinks \<noteq> None then Inl ValueError else Inr (existing, rows))
     else
       bindR (read_range log sid cursor None None 1) (\<lambda>following.
       if following = [] \<or> hd following \<noteq> m then Inl MessageConflict
       else
         bindR (case sinks of
                  None \<Rightarrow> bindR (read_selection rows (m_id m)) (\<lambda>s. Inr (s, rows))
                | Some sks \<Rightarrow> bindR (prepare_message owner m sks passive rows) (\<lambda>(s, rows). Inr (Some s, rows)))
           (\<lambda>(s, rows).
         bindR (row_save (KCursor owner sid) (RCursor (m_seq m))
                  (map_option fst (row_read rows (KCursor owner sid))) rows) (\<lambda>(_, rows).
           Inr (s, rows))))))"

definition records_add :: "string \<Rightarrow> string \<Rightarrow> sink \<Rightarrow> delivery_rows \<Rightarrow> delivery_rows res" where
  "records_add owner mid sk rows =
     bindR (check_owner owner rows mid) (\<lambda>_. add_sink owner mid sk rows)"

text \<open>
  \<open>save\<close>: \<open>previous\<close> is the record the caller read, \<open>now\<close> the instant of a first confirmation. The
  delivery, the index by message and the index by time are one transaction.
\<close>

definition records_save ::
  "string \<Rightarrow> int \<Rightarrow> string \<Rightarrow> int \<times> delivery_row \<Rightarrow> delivery \<Rightarrow> delivery_rows \<Rightarrow> (int \<times> delivery_rows) res" where
  "records_save owner now mid previous d0 rows =
     bindR (check_owner owner rows mid) (\<lambda>selection.
     bindR (as_delivery (snd previous)) (\<lambda>old.
     if dl_phase old = Settled RDelivered \<and> d0 \<noteq> old then Inl MessageConflict
     else
       let d = (if dl_phase d0 = Settled RDelivered \<and> dl_phase old \<noteq> Settled RDelivered
                then d0\<lparr>dl_confirmed := Some now\<rparr> else d0) in
       bindR (row_save (KDelivery mid (sk_name (dl_sink d))) (RDelivery (dump_delivery d))
                (Some (fst previous)) rows) (\<lambda>(version, rows).
       case dl_confirmed d of
         None \<Rightarrow> Inr (version, rows)
       | Some t \<Rightarrow>
           if row_read rows (KConfirmed mid) \<noteq> None then Inr (version, rows)
           else
             let cf = RConfirmation \<lparr>cf_message = mid, cf_session = sel_session selection, cf_time = t\<rparr> in
             bindR (row_save (KConfirmed mid) cf None rows) (\<lambda>(_, rows).
             bindR (row_save (KTime t mid) cf None rows) (\<lambda>(_, rows). Inr (version, rows))))))"

text \<open>The text of a key; \<open>list\<close> reads the records in its order.\<close>

definition pair_text :: "string \<Rightarrow> string \<Rightarrow> string" where
  "pair_text a b = json_text (JArr [JStr a, JStr b])"

fun key_text :: "(int \<Rightarrow> string) \<Rightarrow> delivery_key \<Rightarrow> string" where
  "key_text fmt (KSelection mid) = ''selection:'' @ mid"
| "key_text fmt (KCursor owner sid) = ''cursor:'' @ pair_text owner sid"
| "key_text fmt (KDelivery mid sk) = ''delivery:'' @ pair_text mid sk"
| "key_text fmt (KConfirmed mid) = ''confirmed-message:'' @ mid"
| "key_text fmt (KTime t mid) = ''confirmed-time:'' @ fmt t @ '':'' @ mid"

definition settled :: "delivery \<Rightarrow> bool" where
  "settled d = (case dl_phase d of Settled st \<Rightarrow> True | _ \<Rightarrow> False)"

definition pending_of :: "string \<Rightarrow> delivery_rows \<Rightarrow> delivery_key \<Rightarrow> (string \<times> string) list res" where
  "pending_of owner rows k =
     (case k of
        KDelivery mid sk \<Rightarrow>
          (if mid = [] \<or> sk = [] then Inl ValueError
           else bindR (read_selection rows mid) (\<lambda>selection.
             case selection of
               None \<Rightarrow> Inl ValueError
             | Some s \<Rightarrow>
                 if sel_owner s \<noteq> owner then Inr []
                 else bindR (records_read owner rows mid sk) (\<lambda>(_, d).
                   Inr (if settled d then [] else [(mid, sk)]))))
      | _ \<Rightarrow> Inr [])"

definition records_pending :: "string \<Rightarrow> (int \<Rightarrow> string) \<Rightarrow> delivery_rows \<Rightarrow> (string \<times> string) list res" where
  "records_pending owner fmt rows =
     bindR (mapR (pending_of owner rows) (sort_key (key_text fmt) (keys rows))) (\<lambda>xs. Inr (concat xs))"

section \<open>History\<close>

definition time_entries :: "delivery_rows \<Rightarrow> ((int \<times> string) \<times> int \<times> delivery_row) list" where
  "time_entries rows =
     concat (map (\<lambda>(k, row). case k of KTime t mid \<Rightarrow> [((t, mid), row)] | _ \<Rightarrow> []) rows)"

definition time_before :: "int \<times> string \<Rightarrow> int \<times> string \<Rightarrow> bool" where
  "time_before a b = (fst a < fst b \<or> (fst a = fst b \<and> snd a < snd b))"

definition time_rows :: "delivery_rows \<Rightarrow> int \<Rightarrow> int \<times> string \<Rightarrow> ((int \<times> string) \<times> int \<times> delivery_row) list" where
  "time_rows rows start stop =
     rev (sort_key (\<lambda>e. fst (fst e)) (sort_key (\<lambda>e. snd (fst e))
       (filter (\<lambda>e. start \<le> fst (fst e) \<and> time_before (fst e) stop) (time_entries rows))))"

record history_query =
  hq_excluded :: "string list"
  hq_visibility :: "visibility option"

text \<open>One index row: refused when damaged, left out by the query, or a delivered message.\<close>

definition history_row ::
  "message_log \<Rightarrow> history_query \<Rightarrow> (int \<times> string) \<times> int \<times> delivery_row \<Rightarrow> (message \<times> int) list res" where
  "history_row log q entry =
     (case entry of ((t, mid), version, v) \<Rightarrow>
        (case v of
           RConfirmation cf \<Rightarrow>
             (if version \<noteq> 0 \<or> (t, mid) \<noteq> (cf_time cf, cf_message cf) then Inl ValueError
              else bindR (get_message log (cf_session cf) (cf_message cf)) (\<lambda>found.
                case found of
                  None \<Rightarrow> Inl ValueError
                | Some m \<Rightarrow>
                    if m_source m \<in> set (hq_excluded q) then Inr []
                    else case hq_visibility q of
                      None \<Rightarrow> Inr [(m, cf_time cf)]
                    | Some vis \<Rightarrow>
                        bindR (session_attributes_of log (m_session m)) (\<lambda>a.
                          if sa_visibility a \<noteq> vis then Inr [] else Inr [(m, cf_time cf)])))
         | _ \<Rightarrow> Inl ValueError))"

text \<open>The rows of a page in turn, until \<open>limit\<close> messages are found.\<close>

fun take_rows ::
  "message_log \<Rightarrow> history_query \<Rightarrow> nat \<Rightarrow> (message \<times> int) list \<Rightarrow> ((int \<times> string) \<times> int \<times> delivery_row) list
     \<Rightarrow> (message \<times> int) list res" where
  "take_rows log q limit acc [] = Inr acc"
| "take_rows log q limit acc (r # rs) =
     bindR (history_row log q r) (\<lambda>found.
       if found = [] then take_rows log q limit acc rs
       else if length (acc @ found) = limit then Inr (acc @ found)
       else take_rows log q limit (acc @ found) rs)"

lemma time_rows_set: "set (time_rows rows start stop) =
    {e \<in> set (time_entries rows). start \<le> fst (fst e) \<and> time_before (fst e) stop}"
  by (auto simp: time_rows_def)

lemma time_before_trans: "time_before a b \<Longrightarrow> time_before b c \<Longrightarrow> time_before a c"
  by (auto simp: time_before_def)

lemma time_before_irrefl [simp]: "\<not> time_before a a"
  by (simp add: time_before_def)

lemma filter_length_less:
  assumes "\<And>x. x \<in> set xs \<Longrightarrow> P x \<Longrightarrow> Q x" and "y \<in> set xs" and "Q y" and "\<not> P y"
  shows "length (filter P xs) < length (filter Q xs)"
proof -
  have "filter P xs = filter P (filter Q xs)"
    unfolding filter_filter using assms(1) by (intro filter_cong) auto
  moreover have "y \<in> set (filter Q xs)" using assms(2,3) by simp
  ultimately show ?thesis using assms(4) by (metis length_filter_less)
qed

lemma time_rows_shrink:
  assumes "e \<in> set (time_rows rows start stop)"
  shows "length (time_rows rows start (fst e)) < length (time_rows rows start stop)"
  using assms unfolding time_rows_set time_rows_def length_rev length_sort
  by (intro filter_length_less[of _ _ _ e]) (auto intro: time_before_trans)

text \<open>\<open>_recent\<close>: pages of 128 rows, latest first, each below the last row of the one before.\<close>

function recent_pages ::
  "message_log \<Rightarrow> history_query \<Rightarrow> nat \<Rightarrow> delivery_rows \<Rightarrow> int \<Rightarrow> int \<times> string \<Rightarrow> (message \<times> int) list
     \<Rightarrow> (message \<times> int) list res" where
  "recent_pages log q limit rows start stop acc =
     (if \<not> time_before (start, []) stop then Inl ValueError
      else
        let found = take 128 (time_rows rows start stop) in
        if found = [] then Inr acc
        else bindR (take_rows log q limit acc found) (\<lambda>acc'.
          if length acc' = limit then Inr acc'
          else recent_pages log q limit rows start (fst (last found)) acc'))"
  by pat_completeness auto
termination
proof (relation "measure (\<lambda>(log, q, limit, rows, start, stop, acc). length (time_rows rows start stop))")
  fix log q limit rows start stop acc found x
  assume "found = take 128 (time_rows rows start stop)" and "found \<noteq> []"
  then have "last found \<in> set (time_rows rows start stop)" by (metis in_set_takeD last_in_set)
  then show "((log, q, limit, rows, start, fst (last found), x), (log, q, limit, rows, start, stop, acc))
      \<in> measure (\<lambda>(log, q, limit, rows, start, stop, acc). length (time_rows rows start stop))"
    using time_rows_shrink by simp
qed simp

declare recent_pages.simps [simp del]

definition recent ::
  "message_log \<Rightarrow> history_query \<Rightarrow> delivery_rows \<Rightarrow> int \<Rightarrow> int \<Rightarrow> int \<Rightarrow> (message \<times> int) list res" where
  "recent log q rows since until limit =
     (if until \<le> since \<or> \<not> (1 \<le> limit \<and> limit \<le> 1000) then Inl ValueError
      else recent_pages log q (nat limit) rows since (until, []) [])"

text \<open>\<open>status\<close>: the phase and receipt of one delivery, without its owner's authority.\<close>

definition delivery_status :: "delivery_rows \<Rightarrow> string \<Rightarrow> string \<Rightarrow> delivery option res" where
  "delivery_status rows mid sk =
     (if mid = [] \<or> sk = [] then Inl ValueError
      else case row_read rows (KDelivery mid sk) of
        None \<Rightarrow> Inr None
      | Some (version, v) \<Rightarrow>
          (if version < 0 then Inl ValueError
           else bindR (as_delivery v) (\<lambda>d.
             if sk_name (dl_sink d) \<noteq> sk then Inl ValueError else Inr (Some d))))"

section \<open>Stored deliveries\<close>

lemma parse_status_name [simp]: "parse_status (status_name st) = Inr st"
  by (cases st) (simp_all add: parse_status_def)

lemma parse_phase_name [simp]: "parse_phase (phase_name ph) = Inr ph"
proof (cases ph)
  case (Settled st)
  then show ?thesis by (cases st) (simp_all add: parse_phase_def)
qed (simp_all add: parse_phase_def)

lemma parse_dump_receipt [simp]: "parse_receipt (dump_receipt r) = Inr r"
  by (simp add: parse_receipt_def dump_receipt_def)

lemma phase_known: "phase_name ph \<noteq> ''unknown''"
proof (cases ph)
  case (Settled st)
  then show ?thesis by (cases st) simp_all
qed simp_all

lemma read_dump_delivery: "wf_delivery d \<Longrightarrow> read_delivery (dump_delivery d) = Inr d"
  using phase_known[of "dl_phase d"]
  by (cases "dl_receipt d") (simp_all add: read_delivery_def dump_delivery_def parse_delivery_def wf_delivery_def)

lemma mk_Delivery_wf: "mk_Delivery sk ph rc c = Inr d \<Longrightarrow> wf_delivery d \<and> dl_sink d = sk \<and> dl_phase d = ph \<and> dl_receipt d = rc"
  by (auto simp: mk_Delivery_def wf_delivery_def split: if_splits)

lemma read_delivery_wf:
  assumes "read_delivery s = Inr d"
  shows "wf_delivery d \<and> dl_sink d = sd_sink s \<and> dl_confirmed d = sd_confirmed s"
proof -
  have "wf_delivery d \<and> dl_sink d = sd_sink x \<and> dl_confirmed d = sd_confirmed x" if "parse_delivery x = Inr d" for x
    using that by (auto simp: parse_delivery_def res_simps mk_Delivery_def wf_delivery_def split: if_splits)
  then show ?thesis using assms by (auto simp: read_delivery_def split: if_splits option.splits)
qed

lemma settled_receipt: "wf_delivery d \<Longrightarrow> settled d \<longleftrightarrow> dl_receipt d \<noteq> None"
  by (cases "dl_phase d") (auto simp: wf_delivery_def mk_Delivery_def receipt_mismatch_def settled_def split: if_splits option.splits)

lemma prepared_wf [simp]: "wf_delivery (prepared sk)"
  by (simp add: wf_delivery_def prepared_def mk_Delivery_def receipt_mismatch_def)

section \<open>The invariant of the records\<close>

fun row_wf :: "delivery_rows \<Rightarrow> delivery_key \<Rightarrow> int \<times> delivery_row \<Rightarrow> bool" where
  "row_wf rows (KSelection mid) row = (fst row = 0 \<and> (\<exists>s. snd row = RSelection s))"
| "row_wf rows (KCursor owner sid) row = (\<exists>n. - 1 \<le> n \<and> snd row = RCursor n)"
| "row_wf rows (KDelivery mid sk) row =
     ((\<exists>d. as_delivery (snd row) = Inr d \<and> sk_name (dl_sink d) = sk) \<and> row_read rows (KSelection mid) \<noteq> None)"
| "row_wf rows (KConfirmed mid) row = (\<exists>cf. snd row = RConfirmation cf \<and> cf_message cf = mid)"
| "row_wf rows (KTime t mid) row =
     (fst row = 0 \<and> (\<exists>cf. snd row = RConfirmation cf \<and> cf_message cf = mid \<and> cf_time cf = t
        \<and> row_read rows (KConfirmed mid) = Some (0, RConfirmation cf)))"

definition wf_rows :: "delivery_rows \<Rightarrow> bool" where
  "wf_rows rows \<longleftrightarrow> distinct (keys rows)
     \<and> (\<forall>k row. row_read rows k = Some row \<longrightarrow> 0 \<le> fst row \<and> row_wf rows k row)"

lemma empty_rows_wf [simp]: "wf_rows []"
  by (simp add: wf_rows_def row_read_def)

lemma row_save_iff:
  "row_save k v e rows = Inr (n, rows') \<longleftrightarrow> map_option fst (row_read rows k) = e
     \<and> n = (case e of None \<Rightarrow> 0 | Some m \<Rightarrow> m + 1) \<and> rows' = AList.update k (n, v) rows"
  by (auto simp: row_save_def Let_def split: option.splits)

lemma row_read_update: "row_read (AList.update k row rows) k' = (if k' = k then Some row else row_read rows k')"
  by (simp add: row_read_def map_of_update)

definition keeps_rows :: "delivery_rows \<Rightarrow> delivery_rows \<Rightarrow> bool" where
  "keeps_rows rows rows' \<longleftrightarrow> (\<forall>mid. row_read rows (KSelection mid) \<noteq> None \<longrightarrow>
       row_read rows' (KSelection mid) = row_read rows (KSelection mid))
     \<and> (\<forall>mid. row_read rows (KConfirmed mid) \<noteq> None \<longrightarrow>
       row_read rows' (KConfirmed mid) = row_read rows (KConfirmed mid))"

lemma keeps_refl [simp]: "keeps_rows rows rows"
  by (simp add: keeps_rows_def)

lemma keeps_trans: "keeps_rows a b \<Longrightarrow> keeps_rows b c \<Longrightarrow> keeps_rows a c"
  unfolding keeps_rows_def by (metis (no_types))

lemma row_wf_keeps: "keeps_rows rows rows' \<Longrightarrow> row_wf rows k row \<Longrightarrow> row_wf rows' k row"
  by (cases k) (auto simp: keeps_rows_def)

lemma update_wf:
  assumes wf: "wf_rows rows" and keep: "keeps_rows rows (AList.update k row rows)" and "0 \<le> fst row"
    and "row_wf (AList.update k row rows) k row"
  shows "wf_rows (AList.update k row rows)"
  unfolding wf_rows_def
proof (intro conjI allI impI)
  show "distinct (keys (AList.update k row rows))" using wf by (simp add: wf_rows_def)
  fix k' row' assume r: "row_read (AList.update k row rows) k' = Some row'"
  have "k' = k \<and> row' = row \<or> row_read rows k' = Some row'"
    using r by (simp add: row_read_update split: if_splits)
  then show "0 \<le> fst row'" and "row_wf (AList.update k row rows) k' row'"
    using assms row_wf_keeps[OF keep] unfolding wf_rows_def by blast+
qed

lemma new_key_keeps: "row_read rows k = None \<Longrightarrow> keeps_rows rows (AList.update k row rows)"
  by (auto simp: keeps_rows_def row_read_update)

lemma read_selection_wf: "wf_rows rows \<Longrightarrow> \<exists>s. read_selection rows mid = Inr s
    \<and> (s = None \<longleftrightarrow> row_read rows (KSelection mid) = None)"
  by (cases "row_read rows (KSelection mid)")
     (fastforce simp: read_selection_def wf_rows_def as_selection_def)+

lemma read_selection_Some: "read_selection rows mid = Inr (Some s) \<longleftrightarrow> row_read rows (KSelection mid) = Some (0, RSelection s)"
  by (auto simp: read_selection_def as_selection_def res_simps split: option.splits if_splits delivery_row.splits)

lemma read_selection_None: "read_selection rows mid = Inr None \<longleftrightarrow> row_read rows (KSelection mid) = None"
  by (auto simp: read_selection_def as_selection_def res_simps split: option.splits if_splits delivery_row.splits)

lemma check_owner_iff: "check_owner owner rows mid = Inr s \<longleftrightarrow>
    row_read rows (KSelection mid) = Some (0, RSelection s) \<and> sel_owner s = owner"
  by (auto simp: check_owner_def res_simps read_selection_Some split: option.splits if_splits)

lemma add_sink_wf:
  assumes "add_sink owner mid sk rows = Inr rows'" and wf: "wf_rows rows" and sel: "row_read rows (KSelection mid) \<noteq> None"
  shows "wf_rows rows' \<and> keeps_rows rows rows'
    \<and> (\<forall>k. k \<noteq> KDelivery mid (sk_name sk) \<longrightarrow> row_read rows' k = row_read rows k)
    \<and> (row_read rows (KDelivery mid (sk_name sk)) \<noteq> None \<longrightarrow> rows' = rows)
    \<and> (\<exists>v x d. row_read rows' (KDelivery mid (sk_name sk)) = Some (v, x) \<and> as_delivery x = Inr d \<and> dl_sink d = sk)"
proof (cases "row_read rows (KDelivery mid (sk_name sk))")
  case (Some r)
  then show ?thesis using assms
    by (auto simp: add_sink_def records_read_def res_simps split: if_splits)
next
  case None
  let ?k = "KDelivery mid (sk_name sk)"
  have r': "rows' = AList.update ?k (0, RDelivery (dump_delivery (prepared sk))) rows"
    using assms(1) None by (auto simp: add_sink_def res_simps row_save_iff)
  have k: "keeps_rows rows rows'" unfolding r' by (rule new_key_keeps[OF None])
  have d: "as_delivery (RDelivery (dump_delivery (prepared sk))) = Inr (prepared sk)"
    by (simp add: as_delivery_def read_dump_delivery)
  have "wf_rows rows'" unfolding r'
    using k sel d by (intro update_wf[OF wf]) (auto simp: r' row_read_update prepared_def)
  then show ?thesis using k None d by (auto simp: r' row_read_update prepared_def)
qed

lemma add_sinks_wf:
  assumes "foldR (add_sink owner mid) sks rows = Inr rows'" and "wf_rows rows" and "row_read rows (KSelection mid) \<noteq> None"
  shows "wf_rows rows' \<and> keeps_rows rows rows'
    \<and> (\<forall>k. (\<forall>sk \<in> set sks. k \<noteq> KDelivery mid (sk_name sk)) \<longrightarrow> row_read rows' k = row_read rows k)"
  using assms
proof (induction sks arbitrary: rows)
  case (Cons sk sks)
  then obtain r1 where r1: "add_sink owner mid sk rows = Inr r1" and rest: "foldR (add_sink owner mid) sks r1 = Inr rows'"
    by (auto simp: res_simps)
  note w = add_sink_wf[OF r1 Cons.prems(2,3)]
  have "row_read r1 (KSelection mid) \<noteq> None" using w Cons.prems(3) by (auto simp: keeps_rows_def)
  then have IH: "wf_rows rows' \<and> keeps_rows r1 rows'
      \<and> (\<forall>k. (\<forall>sk \<in> set sks. k \<noteq> KDelivery mid (sk_name sk)) \<longrightarrow> row_read rows' k = row_read r1 k)"
    using Cons.IH[OF rest] w by blast
  then show ?case using w keeps_trans by auto
qed simp

lemma prepare_wf:
  assumes "prepare_message owner m sinks passive rows = Inr (s, rows')" and wf: "wf_rows rows"
  shows "wf_rows rows' \<and> keeps_rows rows rows' \<and> row_read rows' (KSelection (m_id m)) = Some (0, RSelection s)
    \<and> (row_read rows (KSelection (m_id m)) \<noteq> None \<longrightarrow> rows' = rows)
    \<and> (\<forall>k. k \<noteq> KSelection (m_id m) \<longrightarrow> (\<forall>sk \<in> set sinks. k \<noteq> KDelivery (m_id m) (sk_name sk)) \<longrightarrow>
          row_read rows' k = row_read rows k)"
proof (cases "row_read rows (KSelection (m_id m))")
  case (Some r)
  then obtain x where "read_selection rows (m_id m) = Inr (Some x)" using read_selection_wf[OF wf, of "m_id m"] by auto
  then have "s = x" and "rows' = rows"
    using assms(1) by (simp_all add: prepare_message_def split: if_splits)
  then show ?thesis using wf \<open>read_selection rows (m_id m) = Inr (Some x)\<close> by (simp add: read_selection_Some)
next
  case None
  let ?s = "\<lparr>sel_session = m_session m, sel_owner = owner, sel_passive = passive, sel_sinks = map sk_name sinks\<rparr>"
  let ?r = "AList.update (KSelection (m_id m)) (0, RSelection ?s) rows"
  have "read_selection rows (m_id m) = Inr None" using None by (simp add: read_selection_None)
  then have s: "s = ?s" and fold: "foldR (add_sink owner (m_id m)) sinks ?r = Inr rows'"
    using assms(1) None by (auto simp: prepare_message_def res_simps Let_def row_save_iff)
  have k: "keeps_rows rows ?r" by (rule new_key_keeps[OF None])
  have "wf_rows ?r" using k by (intro update_wf[OF wf]) auto
  then have w: "wf_rows rows' \<and> keeps_rows ?r rows'
     \<and> (\<forall>k. (\<forall>sk \<in> set sinks. k \<noteq> KDelivery (m_id m) (sk_name sk)) \<longrightarrow> row_read rows' k = row_read ?r k)"
    using add_sinks_wf[OF fold] by (simp add: row_read_update)
  moreover have "row_read rows' (KSelection (m_id m)) = Some (0, RSelection s)"
    using w by (simp add: row_read_update s)
  ultimately show ?thesis using keeps_trans[OF k] None by (auto simp: row_read_update)
qed

definition confirm_now :: "int \<Rightarrow> delivery \<Rightarrow> delivery \<Rightarrow> delivery" where
  "confirm_now now old d = (if dl_phase d = Settled RDelivered \<and> dl_phase old \<noteq> Settled RDelivered
                            then d\<lparr>dl_confirmed := Some now\<rparr> else d)"

lemma confirm_now_facts:
  "wf_delivery d \<Longrightarrow> wf_delivery (confirm_now now old d)"
  "dl_sink (confirm_now now old d) = dl_sink d"
  "dl_phase (confirm_now now old d) = dl_phase d"
  "dl_receipt (confirm_now now old d) = dl_receipt d"
  by (cases d; auto simp: confirm_now_def wf_delivery_def mk_Delivery_def split: if_splits)+

lemma save_wf:
  assumes save: "records_save owner now mid previous d0 rows = Inr (v, rows')" and wf: "wf_rows rows"
    and d0: "wf_delivery d0" and prev: "row_read rows (KDelivery mid (sk_name (dl_sink d0))) = Some previous"
  shows "\<exists>old. as_delivery (snd previous) = Inr old
    \<and> (dl_phase old = Settled RDelivered \<longrightarrow> d0 = old) \<and> v = fst previous + 1
    \<and> row_read rows' (KDelivery mid (sk_name (dl_sink d0))) = Some (v, RDelivery (dump_delivery (confirm_now now old d0)))
    \<and> wf_rows rows' \<and> keeps_rows rows rows'
    \<and> (\<forall>m k. (m, k) \<noteq> (mid, sk_name (dl_sink d0)) \<longrightarrow> row_read rows' (KDelivery m k) = row_read rows (KDelivery m k))
    \<and> (\<forall>ow sid. row_read rows' (KCursor ow sid) = row_read rows (KCursor ow sid))"
proof -
  from save obtain sel old where sel: "check_owner owner rows mid = Inr sel" and old: "as_delivery (snd previous) = Inr old"
    and same: "dl_phase old = Settled RDelivered \<longrightarrow> d0 = old"
    by (auto simp: records_save_def res_simps Let_def split: if_splits)
  let ?d = "confirm_now now old d0"
  let ?k = "KDelivery mid (sk_name (dl_sink d0))"
  let ?r1 = "AList.update ?k (fst previous + 1, RDelivery (dump_delivery ?d)) rows"
  have selrow: "row_read rows (KSelection mid) \<noteq> None" using sel by (simp add: check_owner_iff)
  have wd: "wf_delivery ?d" and sk: "dl_sink ?d = dl_sink d0" using confirm_now_facts d0 by blast+
  have v0: "0 \<le> fst previous" using wf prev unfolding wf_rows_def by blast
  have asd: "as_delivery (RDelivery (dump_delivery ?d)) = Inr ?d" using wd by (simp add: as_delivery_def read_dump_delivery)
  have k1: "keeps_rows rows ?r1" by (auto simp: keeps_rows_def row_read_update)
  have w1: "wf_rows ?r1"
    using k1 v0 asd sk selrow by (intro update_wf[OF wf]) (auto simp: row_read_update)
  have v: "v = fst previous + 1" and tail: "case dl_confirmed ?d of None \<Rightarrow> rows' = ?r1
     | Some t \<Rightarrow> (row_read ?r1 (KConfirmed mid) \<noteq> None \<and> rows' = ?r1)
        \<or> (row_read ?r1 (KConfirmed mid) = None \<and> row_read ?r1 (KTime t mid) = None
           \<and> (let cf = RConfirmation \<lparr>cf_message = mid, cf_session = sel_session sel, cf_time = t\<rparr> in
              rows' = AList.update (KTime t mid) (0, cf) (AList.update (KConfirmed mid) (0, cf) ?r1)))"
    using save sel old same prev
    by (auto simp: records_save_def res_simps Let_def confirm_now_def[symmetric] sk row_save_iff row_read_update
        split: if_splits option.splits)
  show ?thesis
  proof (cases "rows' = ?r1")
    case True
    then show ?thesis using old same v w1 k1 by (auto simp: row_read_update)
  next
    case False
    then obtain t where t: "dl_confirmed ?d = Some t" using tail by (auto split: option.splits)
    let ?cf = "RConfirmation \<lparr>cf_message = mid, cf_session = sel_session sel, cf_time = t\<rparr>"
    let ?r2 = "AList.update (KConfirmed mid) (0, ?cf) ?r1"
    have n1: "row_read ?r1 (KConfirmed mid) = None" and n2: "row_read ?r1 (KTime t mid) = None"
      and r': "rows' = AList.update (KTime t mid) (0, ?cf) ?r2"
      using tail t False by (auto simp: Let_def)
    have k2: "keeps_rows ?r1 ?r2" by (rule new_key_keeps[OF n1])
    have w2: "wf_rows ?r2" using k2 by (intro update_wf[OF w1]) auto
    have "row_read ?r2 (KTime t mid) = None" using n2 by (simp add: row_read_update)
    then have k3: "keeps_rows ?r2 rows'" unfolding r' by (rule new_key_keeps)
    have w3: "wf_rows rows'" unfolding r'
      using k3 by (intro update_wf[OF w2]) (auto simp: r' row_read_update)
    have "keeps_rows rows rows'" using k1 k2 k3 keeps_trans by blast
    then show ?thesis using old same v w3 by (auto simp: r' row_read_update)
  qed
qed

section \<open>Consumption\<close>

lemma consume_cases:
  assumes c: "records_consume owner log sid m sinks passive rows = Inr (s, rows')" and wf: "wf_rows rows"
  obtains cursor where "read_cursor owner rows sid = Inr cursor" and "- 1 \<le> cursor" and "m_session m = sid"
      and "get_message log sid (m_id m) = Inr (Some m)" and "m_seq m \<le> cursor" and "rows' = rows"
      and "read_selection rows (m_id m) = Inr s"
    | cursor following r1 where "read_cursor owner rows sid = Inr cursor" and "- 1 \<le> cursor" and "m_session m = sid"
      and "get_message log sid (m_id m) = Inr (Some m)" and "cursor < m_seq m"
      and "read_range log sid cursor None None 1 = Inr (m # following)"
      and "wf_rows r1" "keeps_rows rows r1"
      and "\<forall>ow sd. row_read r1 (KCursor ow sd) = row_read rows (KCursor ow sd)"
      and "\<forall>mid sk. row_read rows (KDelivery mid sk) \<noteq> None \<and> mid \<noteq> m_id m \<longrightarrow>
             row_read r1 (KDelivery mid sk) = row_read rows (KDelivery mid sk)"
      and "sinks = None \<longrightarrow> r1 = rows" and "\<forall>sks. sinks = Some sks \<longrightarrow> prepare_message owner m sks passive rows = Inr (the s, r1) \<and> s \<noteq> None"
      and "\<exists>v. rows' = AList.update (KCursor owner sid) (v, RCursor (m_seq m)) r1 \<and> 0 \<le> v"
proof -
  from c obtain cursor where msg: "check_message log sid m (case sinks of None \<Rightarrow> [] | Some s \<Rightarrow> s) = Inr ()"
    and cur: "read_cursor owner rows sid = Inr cursor"
    by (auto simp: records_consume_def res_simps)
  have pos: "- 1 \<le> cursor"
    using cur by (auto simp: read_cursor_def split: option.splits if_splits delivery_row.splits)
  have m: "m_session m = sid" "get_message log sid (m_id m) = Inr (Some m)"
    using msg by (auto simp: check_message_def res_simps split: if_splits)
  show thesis
  proof (cases "m_seq m \<le> cursor")
    case True
    then have "read_selection rows (m_id m) = Inr s" "rows' = rows"
      using c msg cur by (auto simp: records_consume_def res_simps split: if_splits)
    then show thesis using that(1) cur pos m True by blast
  next
    case False
    then obtain following r1 where f: "read_range log sid cursor None None 1 = Inr following" "following \<noteq> []" "hd following = m"
      and sel: "(case sinks of None \<Rightarrow> bindR (read_selection rows (m_id m)) (\<lambda>s. Inr (s, rows))
           | Some sks \<Rightarrow> bindR (prepare_message owner m sks passive rows) (\<lambda>(s, rows). Inr (Some s, rows))) = Inr (s, r1)"
      and sv: "\<exists>v. row_save (KCursor owner sid) (RCursor (m_seq m)) (map_option fst (row_read r1 (KCursor owner sid))) r1 = Inr (v, rows')"
      using c msg cur by (auto simp: records_consume_def res_simps split: if_splits prod.splits)
    obtain fs where fs: "following = m # fs" using f by (cases following) auto
    have r1: "wf_rows r1 \<and> keeps_rows rows r1 \<and> (\<forall>ow sd. row_read r1 (KCursor ow sd) = row_read rows (KCursor ow sd))
        \<and> (\<forall>mid sk. row_read rows (KDelivery mid sk) \<noteq> None \<and> mid \<noteq> m_id m \<longrightarrow>
             row_read r1 (KDelivery mid sk) = row_read rows (KDelivery mid sk))
        \<and> (sinks = None \<longrightarrow> r1 = rows) \<and> (\<forall>sks. sinks = Some sks \<longrightarrow> prepare_message owner m sks passive rows = Inr (the s, r1) \<and> s \<noteq> None)"
    proof (cases sinks)
      case None
      then show ?thesis using sel wf by (auto simp: res_simps)
    next
      case (Some sks)
      then obtain s' where "prepare_message owner m sks passive rows = Inr (s', r1)" "s = Some s'"
        using sel by (auto simp: res_simps)
      note p = this prepare_wf[OF this(1) wf]
      have cur: "\<forall>ow sd. row_read r1 (KCursor ow sd) = row_read rows (KCursor ow sd)" using p(3) by blast
      have del: "\<forall>mid sk. row_read rows (KDelivery mid sk) \<noteq> None \<and> mid \<noteq> m_id m \<longrightarrow>
          row_read r1 (KDelivery mid sk) = row_read rows (KDelivery mid sk)" using p(3) by blast
      show ?thesis using p(1,2) p(3)[THEN conjunct1] p(3)[THEN conjunct2, THEN conjunct1] cur del Some by simp
    qed
    have ex: "\<exists>v. rows' = AList.update (KCursor owner sid) (v, RCursor (m_seq m)) r1 \<and> 0 \<le> v"
    proof -
      have "0 \<le> fst row" if "row_read r1 (KCursor owner sid) = Some row" for row
        using r1[THEN conjunct1] that unfolding wf_rows_def by blast
      moreover obtain v where "rows' = AList.update (KCursor owner sid) (v, RCursor (m_seq m)) r1"
        and "v = (case map_option fst (row_read r1 (KCursor owner sid)) of None \<Rightarrow> 0 | Some m \<Rightarrow> m + 1)"
        using sv unfolding row_save_iff by blast
      ultimately show ?thesis by (cases "row_read r1 (KCursor owner sid)") auto
    qed
    have lt: "cursor < m_seq m" using False by simp
    note parts = r1[THEN conjunct1] r1[THEN conjunct2, THEN conjunct1] r1[THEN conjunct2, THEN conjunct2, THEN conjunct1]
      r1[THEN conjunct2, THEN conjunct2, THEN conjunct2, THEN conjunct1]
      r1[THEN conjunct2, THEN conjunct2, THEN conjunct2, THEN conjunct2, THEN conjunct1]
      r1[THEN conjunct2, THEN conjunct2, THEN conjunct2, THEN conjunct2, THEN conjunct2]
    show thesis by (rule that(2)[OF cur pos m lt f(1)[unfolded fs] parts ex])
  qed
qed

end
