(* ===== verification/Delivery_State.thy ===== *)
theory Delivery_State
  imports Delivery_Records Sample_Log
begin

text \<open>
  The record store of deliveries together with the message log: the operations as steps over both,
  what every reachable pair satisfies, and what consumption, saving and the history index do on it.
  A \<open>save\<close> is stepped with the record it replaces as its \<open>previous\<close>: with any older record the
  version check of the store refuses it. It keeps the sink it read, as every caller does. A \<open>Sink\<close>
  has a non-empty name (its \<open>Text\<close> type).
\<close>

type_synonym delivery_state = "message_log \<times> delivery_rows"

definition named :: "sink list \<Rightarrow> bool" where
  "named sinks = list_all (\<lambda>sk. sk_name sk \<noteq> []) sinks"

inductive delivery_step :: "delivery_state \<Rightarrow> delivery_state \<Rightarrow> bool" where
  log_grows: "log_step log log' \<Longrightarrow> delivery_step (log, rows) (log', rows)"
| prepares: "named sinks \<Longrightarrow> records_prepare owner log sid m sinks passive rows = Inr (s, rows') \<Longrightarrow>
     delivery_step (log, rows) (log, rows')"
| publishes: "named sinks \<Longrightarrow> wf_writer w \<Longrightarrow> wf_body b \<Longrightarrow>
     records_publish owner now w mid b sinks passive (log, rows) = Inr (r, st') \<Longrightarrow>
     delivery_step (log, rows) st'"
| consumes: "pred_option named sinks \<Longrightarrow> records_consume owner log sid m sinks passive rows = Inr (sel, rows') \<Longrightarrow>
     delivery_step (log, rows) (log, rows')"
| adds: "named [sk] \<Longrightarrow> records_add owner mid sk rows = Inr rows' \<Longrightarrow> delivery_step (log, rows) (log, rows')"
| saves: "wf_delivery d \<Longrightarrow> row_read rows (KDelivery mid (sk_name (dl_sink d))) = Some previous \<Longrightarrow>
     as_delivery (snd previous) = Inr old \<Longrightarrow> dl_sink d = dl_sink old \<Longrightarrow> records_save owner now mid previous d rows = Inr (v, rows') \<Longrightarrow> delivery_step (log, rows) (log, rows')"

section \<open>The invariant\<close>

definition selections_ok :: "message_log \<Rightarrow> delivery_rows \<Rightarrow> bool" where
  "selections_ok log rows \<longleftrightarrow> (\<forall>mid v s. row_read rows (KSelection mid) = Some (v, RSelection s) \<longrightarrow>
     (\<exists>m. get_message log (sel_session s) mid = Inr (Some m)))"

definition confirmed_ok :: "delivery_rows \<Rightarrow> bool" where
  "confirmed_ok rows \<longleftrightarrow> (\<forall>mid v cf. row_read rows (KConfirmed mid) = Some (v, RConfirmation cf) \<longrightarrow>
     (\<exists>s. row_read rows (KSelection mid) = Some (0, RSelection s) \<and> cf_session cf = sel_session s))"

definition cursors_ok :: "message_log \<Rightarrow> delivery_rows \<Rightarrow> bool" where
  "cursors_ok log rows \<longleftrightarrow> (\<forall>owner sid v n. row_read rows (KCursor owner sid) = Some (v, RCursor n) \<longrightarrow>
     (\<exists>m \<in> set (session_history log sid). m_seq m = n))"

definition delivery_inv :: "delivery_state \<Rightarrow> bool" where
  "delivery_inv st \<longleftrightarrow> wf_log (fst st) \<and> wf_rows (snd st) \<and> selections_ok (fst st) (snd st)
     \<and> confirmed_ok (snd st) \<and> cursors_ok (fst st) (snd st)"

lemma get_message_extends:
  assumes "extends log log'" and "get_message log sid mid = Inr (Some m)"
  shows "get_message log' sid mid = Inr (Some m)"
proof -
  obtain rows where rows: "messages log' = messages log @ rows" using assms(1) by (auto simp: extends_def)
  show ?thesis using assms(2) extends_message_of[OF assms(1)]
    by (auto simp: get_message_def find_append rows split: option.splits)
qed

lemma selections_extends: "extends log log' \<Longrightarrow> selections_ok log rows \<Longrightarrow> selections_ok log' rows"
  unfolding selections_ok_def using get_message_extends by blast

lemma cursors_extends:
  assumes "extends log log'" and "cursors_ok log rows"
  shows "cursors_ok log' rows"
proof -
  have "set (session_history log sid) \<subseteq> set (session_history log' sid)" for sid
    using extends_history[OF assms(1), of sid] by auto
  then show ?thesis using assms(2) unfolding cursors_ok_def by blast
qed

lemma selection_is: "wf_rows rows \<Longrightarrow> row_read rows (KSelection mid) = Some (v, x) \<Longrightarrow> v = 0 \<and> (\<exists>s. x = RSelection s)"
  unfolding wf_rows_def by force

text \<open>What a step may write without touching the invariant: nothing but deliveries.\<close>

lemma keeps_confirmed:
  assumes "confirmed_ok rows" and "keeps_rows rows rows'"
    and "\<And>mid. row_read rows' (KConfirmed mid) = row_read rows (KConfirmed mid)"
  shows "confirmed_ok rows'"
  using assms unfolding confirmed_ok_def keeps_rows_def by (metis option.distinct(1))

lemma prepare_session:
  "prepare_message owner m sinks passive rows = Inr (s, rows') \<Longrightarrow> sel_session s = m_session m"
  by (auto simp: prepare_message_def res_simps Let_def split: option.splits if_splits)

lemma prepare_selections:
  assumes "selections_ok log rows" and "\<exists>x. get_message log (m_session m) (m_id m) = Inr (Some x)"
    and p: "prepare_message owner m sinks passive rows = Inr (s, rows')" and wf: "wf_rows rows"
  shows "selections_ok log rows'"
  unfolding selections_ok_def
proof (intro allI impI)
  fix mid v s'
  assume r: "row_read rows' (KSelection mid) = Some (v, RSelection s')"
  show "\<exists>m. get_message log (sel_session s') mid = Inr (Some m)"
  proof (cases "mid = m_id m")
    case True
    then have "s' = s" using r prepare_wf[OF p wf] by simp
    then show ?thesis using assms(2) prepare_session[OF p] True by simp
  next
    case False
    then have "row_read rows (KSelection mid) = Some (v, RSelection s')" using r prepare_wf[OF p wf] by simp
    then show ?thesis using assms(1) unfolding selections_ok_def by blast
  qed
qed

lemma prepare_inv:
  assumes inv: "delivery_inv (log, rows)" and p: "prepare_message owner m sinks passive rows = Inr (s, rows')"
    and m: "\<exists>x. get_message log (m_session m) (m_id m) = Inr (Some x)"
  shows "delivery_inv (log, rows')"
proof -
  have wf: "wf_rows rows" using inv by (simp add: delivery_inv_def)
  note w = prepare_wf[OF p wf]
  have other: "\<And>k. k \<noteq> KSelection (m_id m) \<Longrightarrow> (\<And>mid sk. k \<noteq> KDelivery mid sk) \<Longrightarrow> row_read rows' k = row_read rows k"
    using w[THEN conjunct2, THEN conjunct2, THEN conjunct2, THEN conjunct2] by blast
  have "selections_ok log rows'" using inv m by (intro prepare_selections[OF _ m p wf]) (simp add: delivery_inv_def)
  moreover have "confirmed_ok rows'"
    by (rule keeps_confirmed[of rows, OF _ w[THEN conjunct2, THEN conjunct1] other]) (use inv in \<open>simp_all add: delivery_inv_def\<close>)
  moreover have "cursors_ok log rows'" using inv other by (simp add: delivery_inv_def cursors_ok_def)
  ultimately show ?thesis using inv w[THEN conjunct1] by (simp add: delivery_inv_def)
qed

text \<open>A message that passes the check is a stored one of its own session.\<close>

lemma checked_message:
  "check_message log sid m sinks = Inr () \<Longrightarrow> m_session m = sid \<and> get_message log sid (m_id m) = Inr (Some m)"
  by (auto simp: check_message_def res_simps split: if_splits)

lemma prepares_inv:
  assumes inv: "delivery_inv (log, rows)" and p: "records_prepare owner log sid m sinks passive rows = Inr (s, rows')"
  shows "delivery_inv (log, rows')"
proof -
  have c: "check_message log sid m sinks = Inr ()" using p by (auto simp: records_prepare_def res_simps)
  then consider "rows' = rows" | "prepare_message owner m sinks passive rows = Inr (s, rows')"
    using p by (auto simp: records_prepare_def res_simps split: if_splits)
  then show ?thesis
  proof cases
    case 2
    then show ?thesis using prepare_inv[OF inv 2] checked_message[OF c] by blast
  qed (use inv in simp)
qed

lemma find_stronger:
  "find P xs = Some x \<Longrightarrow> (\<And>y. Q y \<Longrightarrow> P y) \<Longrightarrow> Q x \<Longrightarrow> find Q xs = Some x"
  by (induction xs) (auto split: if_splits)

lemma stored_get_message:
  assumes "find_message log mid = Some r" and "message_of log r = Inr m"
  shows "get_message log (m_session m) mid = Inr (Some m)"
proof -
  have "r_id r = mid \<and> r_session r = m_session m"
    using message_of_fields[OF assms(2)] find_message_mem[OF assms(1)] by simp
  then have "find (\<lambda>r. r_id r = mid \<and> r_session r = m_session m) (messages log) = Some r"
    by (intro find_stronger[OF assms(1)[unfolded find_message_def]]) simp_all
  then show ?thesis using assms(2) by (simp add: get_message_def)
qed

lemma appended_readable:
  assumes a: "append_message now w mid b h md s = Inr (m, t)"
    and wf: "wf_log s" "wf_body b" "pred_option wf_pyval md" "wf_writer w"
  shows "m_id m = mid \<and> (\<exists>x. get_message t (m_session m) mid = Inr (Some x)) \<and> wf_log t \<and> extends s t"
proof (cases "find_message s mid")
  case (Some row)
  then have "t = s" and m: "message_of s row = Inr m" using append_known[OF a] by blast+
  then show ?thesis using stored_get_message[OF Some m] message_of_fields[OF m] find_message_mem[OF Some] wf(1) by simp
next
  case None
  have com: "committed now w mid b h md s m t" using append_cases[OF a] None by (auto simp: replayed_def)
  obtain row bids arts where app: "appended w row bids arts s t" "wf_log t" and row: "r_id row = mid"
      "message_of t row = Inr (stored_message m)" and mk: "mk_Message mid (w_session w) (next_seq s (w_session w)) (Aware now)
        (w_author w) (w_source w) b (frozen_value (JObj (m_meta m))) = Inr m"
    using committed_effect[OF com wf] by blast
  have "m_id m = mid" using mk by (simp add: mk_Message_iff del: frozen_value.simps)
  moreover have "find_message t (r_id row) = Some row" using appended_find[OF app(1)] None row(1) by simp
  ultimately show ?thesis using stored_get_message[of t mid row "stored_message m"] row app appended_extends[OF app(1)]
    by (simp add: stored_message_def)
qed

lemma publishes_inv:
  assumes inv: "delivery_inv (log, rows)" and w: "wf_writer w" "wf_body b"
    and p: "records_publish owner now w mid b sinks passive (log, rows) = Inr (r, st')"
  shows "delivery_inv st'"
proof -
  obtain m log' where a: "append_message now w mid b None None log = Inr (m, log')"
    using p by (auto simp: records_publish_def res_simps split: if_splits)
  have log: "wf_log log" using inv by (simp add: delivery_inv_def)
  note r = appended_readable[OF a log w(2) _ w(1)]
  then have ext: "extends log log'" and m: "m_id m = mid" "\<exists>x. get_message log' (m_session m) mid = Inr (Some x)" and wf': "wf_log log'"
    by simp_all
  have inv': "delivery_inv (log', rows)"
    using inv wf' selections_extends[OF ext] cursors_extends[OF ext] by (simp add: delivery_inv_def)
  consider "st' = (log', rows)" | s rows' where "prepare_message owner m sinks passive rows = Inr (s, rows')" "st' = (log', rows')"
    using p a by (auto simp: records_publish_def res_simps split: if_splits)
  then show ?thesis using inv' prepare_inv[OF inv'] m by cases auto
qed

lemma update_inv:
  assumes inv: "delivery_inv (log, rows)" and wf: "wf_rows (AList.update k row rows)"
    and k: "\<And>mid. k \<noteq> KSelection mid" "\<And>mid. k \<noteq> KConfirmed mid"
    and cur: "\<And>owner sid n. k = KCursor owner sid \<Longrightarrow> snd row = RCursor n \<Longrightarrow> \<exists>m \<in> set (session_history log sid). m_seq m = n"
  shows "delivery_inv (log, AList.update k row rows)"
proof -
  have "row_read (AList.update k row rows) (KSelection mid) = row_read rows (KSelection mid)"
    "row_read (AList.update k row rows) (KConfirmed mid) = row_read rows (KConfirmed mid)" for mid
    using k[of mid] by (auto simp: row_read_update)
  moreover have "cursors_ok log (AList.update k row rows)"
    using inv cur unfolding delivery_inv_def cursors_ok_def row_read_update by (fastforce split: if_splits)
  ultimately show ?thesis using inv wf by (simp add: delivery_inv_def selections_ok_def confirmed_ok_def)
qed

lemma cursor_update_wf:
  assumes "wf_rows rows" and "0 \<le> v" and "- 1 \<le> n"
  shows "wf_rows (AList.update (KCursor owner sid) (v, RCursor n) rows)"
  using assms by (intro update_wf) (auto simp: keeps_rows_def row_read_update)

lemma consumes_inv:
  assumes inv: "delivery_inv (log, rows)" and c: "records_consume owner log sid m sinks passive rows = Inr (s, rows')"
  shows "delivery_inv (log, rows')"
proof -
  have wf: "wf_rows rows" and log: "wf_log log" using inv by (simp_all add: delivery_inv_def)
  show ?thesis
  proof (rule consume_cases[OF c wf])
    assume "rows' = rows"
    then show ?thesis using inv by simp
  next
    fix cursor following r1
    assume m: "m_session m = sid" "get_message log sid (m_id m) = Inr (Some m)" and lt: "- 1 \<le> cursor" "cursor < m_seq m"
      and none: "sinks = None \<longrightarrow> r1 = rows"
      and some: "\<forall>sks. sinks = Some sks \<longrightarrow> prepare_message owner m sks passive rows = Inr (the s, r1) \<and> s \<noteq> None"
      and r': "\<exists>v. rows' = AList.update (KCursor owner sid) (v, RCursor (m_seq m)) r1 \<and> 0 \<le> v"
    have r1: "delivery_inv (log, r1)"
    proof (cases sinks)
      case None
      then show ?thesis using none inv by simp
    next
      case (Some sks)
      then have "prepare_message owner m sks passive rows = Inr (the s, r1)" using some by simp
      then show ?thesis by (rule prepare_inv[OF inv]) (rule exI[of _ m], use m in simp)
    qed
    obtain v where v: "rows' = AList.update (KCursor owner sid) (v, RCursor (m_seq m)) r1" "0 \<le> v" using r' by blast
    have mem: "m \<in> set (session_history log sid)" using get_message_history[OF log m(2)] by simp
    show ?thesis unfolding v(1)
    proof (rule update_inv[OF r1])
      show "wf_rows (AList.update (KCursor owner sid) (v, RCursor (m_seq m)) r1)"
        using r1 lt v(2) by (intro cursor_update_wf) (simp_all add: delivery_inv_def)
    qed (use mem in auto)
  qed
qed

lemma adds_inv:
  assumes inv: "delivery_inv (log, rows)" and a: "records_add owner mid sk rows = Inr rows'"
  shows "delivery_inv (log, rows')"
proof -
  obtain s where s: "check_owner owner rows mid = Inr s" and add: "add_sink owner mid sk rows = Inr rows'"
    using a by (auto simp: records_add_def res_simps)
  have wf: "wf_rows rows" using inv by (simp add: delivery_inv_def)
  have sel: "row_read rows (KSelection mid) \<noteq> None" using s by (simp add: check_owner_iff)
  note w = add_sink_wf[OF add wf sel]
  have other: "\<And>k. (\<And>mid sk. k \<noteq> KDelivery mid sk) \<Longrightarrow> row_read rows' k = row_read rows k"
    using w[THEN conjunct2, THEN conjunct2, THEN conjunct1] by blast
  show ?thesis using inv w[THEN conjunct1] other
    by (simp add: delivery_inv_def selections_ok_def confirmed_ok_def cursors_ok_def)
qed

lemma save_confirmed:
  assumes "records_save owner now mid previous d0 rows = Inr (v, rows')"
  shows "(\<forall>m. row_read rows' (KConfirmed m) = row_read rows (KConfirmed m))
    \<or> (\<exists>sel cf. row_read rows (KSelection mid) = Some (0, RSelection sel) \<and> cf_session cf = sel_session sel
        \<and> (\<forall>m. row_read rows' (KConfirmed m) = (if m = mid then Some (0, RConfirmation cf) else row_read rows (KConfirmed m))))"
  using assms by (auto simp: records_save_def res_simps Let_def row_save_iff row_read_update check_owner_iff
      split: if_splits option.splits)

lemma saves_inv:
  assumes inv: "delivery_inv (log, rows)" and d: "wf_delivery d"
    and prev: "row_read rows (KDelivery mid (sk_name (dl_sink d))) = Some previous"
    and s: "records_save owner now mid previous d rows = Inr (v, rows')"
  shows "delivery_inv (log, rows')"
proof -
  have wf: "wf_rows rows" using inv by (simp add: delivery_inv_def)
  have w: "wf_rows rows'" "keeps_rows rows rows'"
    "\<And>ow sid. row_read rows' (KCursor ow sid) = row_read rows (KCursor ow sid)"
    using save_wf[OF s wf d prev] by blast+
  have selrow: "row_read rows (KSelection m) = Some x \<Longrightarrow> row_read rows' (KSelection m) = Some x" for m x
    using w(2) unfolding keeps_rows_def by simp
  have selback: "row_read rows' (KSelection m) = row_read rows (KSelection m)" for m
    using s by (auto simp: records_save_def res_simps Let_def row_save_iff row_read_update split: if_splits option.splits)
  have "confirmed_ok rows'"
    using save_confirmed[OF s]
  proof
    assume "\<forall>m. row_read rows' (KConfirmed m) = row_read rows (KConfirmed m)"
    then show ?thesis using inv by (intro keeps_confirmed[OF _ w(2)]) (simp_all add: delivery_inv_def)
  next
    assume "\<exists>sel cf. row_read rows (KSelection mid) = Some (0, RSelection sel) \<and> cf_session cf = sel_session sel
        \<and> (\<forall>m. row_read rows' (KConfirmed m) = (if m = mid then Some (0, RConfirmation cf) else row_read rows (KConfirmed m)))"
    then obtain sel cf where "row_read rows (KSelection mid) = Some (0, RSelection sel)" "cf_session cf = sel_session sel"
        "\<And>m. row_read rows' (KConfirmed m) = (if m = mid then Some (0, RConfirmation cf) else row_read rows (KConfirmed m))"
      by blast
    then show ?thesis using inv selback unfolding delivery_inv_def confirmed_ok_def by (auto split: if_splits)
  qed
  then show ?thesis using inv w selback by (simp add: delivery_inv_def selections_ok_def cursors_ok_def)
qed

lemma delivery_step_inv:
  "delivery_step st st' \<Longrightarrow> delivery_inv st \<Longrightarrow> delivery_inv st'"
proof (induction rule: delivery_step.induct)
  case (log_grows log log' rows)
  then show ?case using log_step_wf[OF log_grows(1)] log_step_extends[OF log_grows(1)] selections_extends cursors_extends
    by (auto simp: delivery_inv_def)
qed (blast intro: prepares_inv publishes_inv consumes_inv adds_inv saves_inv)+

lemma delivery_start: "delivery_inv (empty_log, [])"
  by (simp add: delivery_inv_def selections_ok_def confirmed_ok_def cursors_ok_def row_read_def)

lemma delivery_reach_inv: "delivery_step\<^sup>*\<^sup>* (empty_log, []) st \<Longrightarrow> delivery_inv st"
  by (induction rule: rtranclp_induct) (auto intro: delivery_start delivery_step_inv)

section \<open>What never changes\<close>

lemma delivery_selected:
  "wf_rows rows \<Longrightarrow> row_read rows (KDelivery mid sk) = Some r \<Longrightarrow> row_read rows (KSelection mid) \<noteq> None"
  unfolding wf_rows_def by fastforce

lemma prepare_deliveries:
  assumes p: "prepare_message owner m sinks passive rows = Inr (s, rows')" and wf: "wf_rows rows"
    and r: "row_read rows (KDelivery mid sk) = Some r"
  shows "row_read rows' (KDelivery mid sk) = Some r"
proof (cases "mid = m_id m")
  case True
  then have "rows' = rows" using prepare_wf[OF p wf] delivery_selected[OF wf r] by blast
  then show ?thesis using r by simp
next
  case False
  then show ?thesis using prepare_wf[OF p wf] r by auto
qed

text \<open>How a stored delivery may move.\<close>

definition moves :: "int \<times> delivery_row \<Rightarrow> int \<times> delivery_row \<Rightarrow> bool" where
  "moves r r' \<longleftrightarrow> (\<forall>d. as_delivery (snd r) = Inr d \<longrightarrow>
     (\<exists>d'. as_delivery (snd r') = Inr d' \<and> dl_sink d' = dl_sink d \<and> fst r \<le> fst r' \<and> (fst r' = fst r \<longrightarrow> r' = r)
         \<and> (dl_phase d = Settled RDelivered \<longrightarrow> d' = d)))"

lemma moves_refl [simp]: "moves r r"
  by (simp add: moves_def)

lemma moves_trans:
  assumes ab: "moves a b" and bc: "moves b c"
  shows "moves a c"
  unfolding moves_def
proof (intro allI impI)
  fix d
  assume "as_delivery (snd a) = Inr d"
  then obtain d1 where d1: "as_delivery (snd b) = Inr d1" "dl_sink d1 = dl_sink d" "fst a \<le> fst b" "fst b = fst a \<longrightarrow> b = a"
      "dl_phase d = Settled RDelivered \<longrightarrow> d1 = d" using ab unfolding moves_def by blast
  then obtain d2 where d2: "as_delivery (snd c) = Inr d2" "dl_sink d2 = dl_sink d1" "fst b \<le> fst c" "fst c = fst b \<longrightarrow> c = b"
      "dl_phase d1 = Settled RDelivered \<longrightarrow> d2 = d1" using bc unfolding moves_def by blast
  have "fst c = fst a \<longrightarrow> c = a" using d1(3,4) d2(3,4) by auto
  then show "\<exists>d'. as_delivery (snd c) = Inr d' \<and> dl_sink d' = dl_sink d \<and> fst a \<le> fst c \<and> (fst c = fst a \<longrightarrow> c = a)
         \<and> (dl_phase d = Settled RDelivered \<longrightarrow> d' = d)"
    using d1 d2 by (intro exI[of _ d2]) simp
qed

definition moves_rows :: "delivery_rows \<Rightarrow> delivery_rows \<Rightarrow> bool" where
  "moves_rows rows rows' \<longleftrightarrow> keeps_rows rows rows' \<and> (\<forall>mid sk r. row_read rows (KDelivery mid sk) = Some r \<longrightarrow>
     (\<exists>r'. row_read rows' (KDelivery mid sk) = Some r' \<and> moves r r'))"

lemma moves_rows_refl [simp]: "moves_rows rows rows"
  by (auto simp: moves_rows_def)

lemma moves_rows_trans:
  assumes "moves_rows a b" and "moves_rows b c"
  shows "moves_rows a c"
  unfolding moves_rows_def
proof (intro conjI allI impI)
  show "keeps_rows a c" using assms keeps_trans unfolding moves_rows_def by blast
  fix mid sk r
  assume "row_read a (KDelivery mid sk) = Some r"
  then obtain r1 where r1: "row_read b (KDelivery mid sk) = Some r1" "moves r r1" using assms(1) unfolding moves_rows_def by blast
  then obtain r2 where "row_read c (KDelivery mid sk) = Some r2" "moves r1 r2" using assms(2) unfolding moves_rows_def by blast
  then show "\<exists>r'. row_read c (KDelivery mid sk) = Some r' \<and> moves r r'" using moves_trans[OF r1(2)] by blast
qed

lemma prepare_moves:
  "prepare_message owner m sinks passive rows = Inr (s, rows') \<Longrightarrow> wf_rows rows \<Longrightarrow> moves_rows rows rows'"
  unfolding moves_rows_def using prepare_deliveries prepare_wf by (metis moves_refl)

lemma prepares_moves:
  assumes "records_prepare owner log sid m sinks passive rows = Inr (s, rows')" and wf: "wf_rows rows"
  shows "moves_rows rows rows'"
proof -
  consider "rows' = rows" | "prepare_message owner m sinks passive rows = Inr (s, rows')"
    using assms(1) by (auto simp: records_prepare_def res_simps split: if_splits)
  then show ?thesis using prepare_moves[OF _ wf] by cases simp_all
qed

lemma publishes_moves:
  assumes "records_publish owner now w mid b sinks passive (log, rows) = Inr (r, st')" and wf: "wf_rows rows"
  shows "moves_rows rows (snd st')"
proof -
  consider "snd st' = rows" | m s where "prepare_message owner m sinks passive rows = Inr (s, snd st')"
    using assms(1) by (auto simp: records_publish_def res_simps split: if_splits)
  then show ?thesis using prepare_moves[OF _ wf] by cases simp_all
qed

lemma consumes_moves:
  assumes c: "records_consume owner log sid m sinks passive rows = Inr (s, rows')" and wf: "wf_rows rows"
  shows "moves_rows rows rows'"
proof (rule consume_cases[OF c wf])
  assume "rows' = rows"
  then show ?thesis by simp
next
  fix cursor following r1
  assume none: "sinks = None \<longrightarrow> r1 = rows"
    and some: "\<forall>sks. sinks = Some sks \<longrightarrow> prepare_message owner m sks passive rows = Inr (the s, r1) \<and> s \<noteq> None"
    and r': "\<exists>v. rows' = AList.update (KCursor owner sid) (v, RCursor (m_seq m)) r1 \<and> 0 \<le> v"
  have "moves_rows rows r1"
  proof (cases sinks)
    case (Some sks)
    then have "prepare_message owner m sks passive rows = Inr (the s, r1)" using some by simp
    then show ?thesis by (rule prepare_moves[OF _ wf])
  qed (simp add: none)
  moreover have "moves_rows r1 rows'"
    using r' by (auto simp: moves_rows_def keeps_rows_def row_read_update)
  ultimately show ?thesis by (rule moves_rows_trans)
qed

lemma adds_moves:
  assumes a: "records_add owner mid sk rows = Inr rows'" and wf: "wf_rows rows"
  shows "moves_rows rows rows'"
proof -
  obtain s where s: "check_owner owner rows mid = Inr s" and add: "add_sink owner mid sk rows = Inr rows'"
    using a by (auto simp: records_add_def res_simps)
  note w = add_sink_wf[OF add wf]
  have sel: "row_read rows (KSelection mid) \<noteq> None" using s by (simp add: check_owner_iff)
  have "row_read rows' (KDelivery m k) = Some r" if "row_read rows (KDelivery m k) = Some r" for m k r
  proof (cases "(m, k) = (mid, sk_name sk)")
    case True
    then have "rows' = rows" using w[OF sel] that by auto
    then show ?thesis using that by simp
  next
    case False
    then have "KDelivery m k \<noteq> KDelivery mid (sk_name sk)" by simp
    then show ?thesis using w[OF sel] that by metis
  qed
  then show ?thesis using w[OF sel] unfolding moves_rows_def by (metis moves_refl)
qed

lemma saves_moves:
  assumes s: "records_save owner now mid previous d rows = Inr (v, rows')" and wf: "wf_rows rows" and d: "wf_delivery d"
    and prev: "row_read rows (KDelivery mid (sk_name (dl_sink d))) = Some previous"
    and old: "as_delivery (snd previous) = Inr old" "dl_sink d = dl_sink old"
  shows "moves_rows rows rows'"
proof -
  have w: "dl_phase old = Settled RDelivered \<longrightarrow> d = old" "v = fst previous + 1"
    "row_read rows' (KDelivery mid (sk_name (dl_sink d))) = Some (v, RDelivery (dump_delivery (confirm_now now old d)))"
    "keeps_rows rows rows'" "\<And>m k. (m, k) \<noteq> (mid, sk_name (dl_sink d)) \<Longrightarrow> row_read rows' (KDelivery m k) = row_read rows (KDelivery m k)"
    using save_wf[OF s wf d prev] old(1) by auto
  have wc: "wf_delivery (confirm_now now old d)" using confirm_now_facts(1)[OF d] by blast
  have as: "as_delivery (RDelivery (dump_delivery (confirm_now now old d))) = Inr (confirm_now now old d)"
    using wc by (simp add: as_delivery_def read_dump_delivery)
  have "moves previous (v, RDelivery (dump_delivery (confirm_now now old d)))"
    using w(1,2) as old confirm_now_facts(2)[of now old d] by (auto simp: moves_def confirm_now_def)
  moreover have "\<exists>r'. row_read rows' (KDelivery m k) = Some r' \<and> moves r r'"
    if "row_read rows (KDelivery m k) = Some r" for m k r
  proof (cases "(m, k) = (mid, sk_name (dl_sink d))")
    case True
    then show ?thesis using calculation w(3) that prev by auto
  next
    case False
    then show ?thesis using w(5)[OF False] that by simp
  qed
  ultimately show ?thesis using w(4) unfolding moves_rows_def by blast
qed

lemma delivery_step_moves: "delivery_step st st' \<Longrightarrow> wf_rows (snd st) \<Longrightarrow> moves_rows (snd st) (snd st')"
proof (induction rule: delivery_step.induct)
  case prepares
  then show ?case using prepares_moves[OF prepares(2)] by simp
next
  case publishes
  then show ?case using publishes_moves[OF publishes(4)] by simp
next
  case consumes
  then show ?case using consumes_moves[OF consumes(2)] by simp
next
  case adds
  then show ?case using adds_moves[OF adds(2)] by simp
next
  case saves
  then show ?case using saves_moves[OF saves(5) _ saves(1-4)] by simp
qed simp

lemma delivery_steps_move:
  assumes "delivery_step\<^sup>*\<^sup>* st st'" and "delivery_inv st"
  shows "moves_rows (snd st) (snd st') \<and> delivery_inv st'"
  using assms(1)
proof (induction rule: rtranclp_induct)
  case (step t u)
  then have "wf_rows (snd t)" by (simp add: delivery_inv_def)
  then show ?case using step delivery_step_moves[OF step(2)] delivery_step_inv[OF step(2)] moves_rows_trans by blast
qed (simp add: assms(2))

section \<open>The confirmation index\<close>

lemma time_entries_keys: "fst ` set (time_entries rows) = {(t, mid). KTime t mid \<in> set (keys rows)}"
proof (induction rows)
  case (Cons r rows)
  then show ?case by (cases r; cases "fst r") (auto simp: time_entries_def image_Un)
qed (simp add: time_entries_def)

lemma time_entries_distinct: "distinct (keys rows) \<Longrightarrow> distinct (map fst (time_entries rows))"
proof (induction rows)
  case (Cons r rows)
  have tail: "distinct (map fst (time_entries rows))" using Cons by simp
  show ?case
  proof (cases "fst r")
    case (KTime t mid)
    have "(t, mid) \<notin> fst ` set (time_entries rows)" using Cons.prems KTime unfolding time_entries_keys by simp
    then show ?thesis using tail KTime by (cases r) (simp add: time_entries_def)
  qed (use tail in \<open>cases r; simp add: time_entries_def\<close>)+
qed (simp add: time_entries_def)

lemma time_entry_row:
  assumes "distinct (keys rows)" and "((t, mid), row) \<in> set (time_entries rows)"
  shows "row_read rows (KTime t mid) = Some row"
proof -
  have "(KTime t mid, row) \<in> set rows"
    using assms(2) by (auto simp: time_entries_def split: delivery_key.splits)
  then show ?thesis using assms(1) by (simp add: row_read_def)
qed

lemma time_rows_sorted:
  assumes "distinct (map fst (time_entries rows))"
  shows "sorted_wrt (\<lambda>a b. time_before (fst b) (fst a)) (time_rows rows start stop)"
proof -
  let ?F = "filter (\<lambda>e. start \<le> fst (fst e) \<and> time_before (fst e) stop) (time_entries rows)"
  let ?L = "sort_key (\<lambda>e. fst (fst e)) (sort_key (\<lambda>e. snd (fst e)) ?F)"
  have lex: "sorted_wrt (\<lambda>a b. fst (fst a) < fst (fst b) \<or> (fst (fst a) = fst (fst b) \<and> snd (fst a) \<le> snd (fst b))) ?L"
    by (rule sort_lex)
  have "distinct (map fst ?F)" using assms by (rule distinct_map_filter)
  then have "distinct (map fst ?L)" by (simp add: distinct_map)
  then have "sorted_wrt (\<lambda>a b. fst a \<noteq> fst b) ?L" by (simp add: distinct_conv_nth sorted_wrt_iff_nth_less)
  from sorted_wrt_both[OF lex this] have "sorted_wrt (\<lambda>a b. time_before (fst a) (fst b)) ?L"
    by (rule sorted_wrt_mono_rel[rotated]) (auto simp: time_before_def prod_eq_iff)
  then show ?thesis by (simp add: time_rows_def sorted_wrt_rev)
qed

lemma time_rows_filter:
  assumes "time_before stop' stop"
  shows "time_rows rows start stop' = filter (\<lambda>e. time_before (fst e) stop') (time_rows rows start stop)"
proof -
  have "filter (\<lambda>e. start \<le> fst (fst e) \<and> time_before (fst e) stop') (time_entries rows)
      = filter (\<lambda>e. time_before (fst e) stop') (filter (\<lambda>e. start \<le> fst (fst e) \<and> time_before (fst e) stop) (time_entries rows))"
    unfolding filter_filter using time_before_trans[OF _ assms] by (intro filter_cong) auto
  then show ?thesis by (simp add: time_rows_def rev_filter[symmetric] filter_sort)
qed

lemma time_rows_next:
  assumes "distinct (map fst (time_entries rows))" and "0 < n" and "time_rows rows start stop \<noteq> []"
  shows "time_rows rows start (fst (last (take n (time_rows rows start stop)))) = drop n (time_rows rows start stop)"
proof -
  let ?X = "time_rows rows start stop"
  have "last (take n ?X) \<in> set ?X" using assms(2,3) by (metis in_set_takeD last_in_set not_gr0 take_eq_Nil)
  then have "time_before (fst (last (take n ?X))) stop" by (simp add: time_rows_set)
  then have "time_rows rows start (fst (last (take n ?X))) = filter (\<lambda>e. time_before (fst e) (fst (last (take n ?X)))) ?X"
    by (rule time_rows_filter)
  also have "\<dots> = drop n ?X"
    by (rule filter_after_take[OF time_rows_sorted[OF assms(1)] assms(3,2)]) (auto simp: time_before_def)
  finally show ?thesis .
qed

text \<open>The messages of a run of index rows, when none of them is damaged.\<close>

definition row_hits :: "message_log \<Rightarrow> history_query \<Rightarrow> ((int \<times> string) \<times> int \<times> delivery_row) list \<Rightarrow> (message \<times> int) list" where
  "row_hits log q es = concat (map (\<lambda>e. projr (history_row log q e)) es)"

definition readable :: "message_log \<Rightarrow> history_query \<Rightarrow> (int \<times> string) \<times> int \<times> delivery_row \<Rightarrow> bool" where
  "readable log q e \<longleftrightarrow> (\<exists>found. history_row log q e = Inr found \<and> length found \<le> 1)"

lemma take_rows_hits:
  assumes "\<forall>e \<in> set es. readable log q e" and "length acc < limit"
  shows "take_rows log q limit acc es = Inr (take limit (acc @ row_hits log q es))"
  using assms
proof (induction es arbitrary: acc)
  case (Cons e es)
  obtain found where f: "history_row log q e = Inr found" "length found \<le> 1" using Cons.prems(1) by (auto simp: readable_def)
  have hits: "row_hits log q (e # es) = found @ row_hits log q es" by (simp add: row_hits_def f)
  show ?case
  proof (cases "found = []")
    case True
    then show ?thesis using Cons hits f by simp
  next
    case False
    then have one: "length found = 1" using f(2) by (cases found) auto
    show ?thesis
    proof (cases "length (acc @ found) = limit")
      case True
      then show ?thesis using f False hits by simp
    next
      case neq: False
      then have "length (acc @ found) < limit" using one Cons.prems(2) by simp
      then show ?thesis using Cons.IH[of "acc @ found"] Cons.prems(1) f False neq hits by simp
    qed
  qed
qed (simp add: row_hits_def)

lemma history_row_message:
  assumes "history_row log q ((t, mid), v, x) = Inr found"
  shows "\<exists>cf m. x = RConfirmation cf \<and> mid = cf_message cf \<and> t = cf_time cf \<and> get_message log (cf_session cf) mid = Inr (Some m)"
proof (cases x)
  case (RConfirmation cf)
  have now: "(t, mid) = (cf_time cf, cf_message cf)"
    using assms RConfirmation by (auto simp: history_row_def split: if_split_asm)
  show ?thesis
  proof (cases "get_message log (cf_session cf) (cf_message cf)")
    case (Inl e)
    then show ?thesis using assms RConfirmation by (simp add: history_row_def split: if_split_asm)
  next
    case (Inr r)
    then show ?thesis using assms RConfirmation now by (cases r) (simp_all add: history_row_def split: if_split_asm)
  qed
qed (use assms in \<open>simp_all add: history_row_def\<close>)

lemma get_message_named: "get_message log sid mid = Inr (Some m) \<Longrightarrow> mid \<noteq> []"
  using message_of_fields by (fastforce simp: get_message_def res_simps wf_message_def split: option.splits dest!: find_Some_iff')

lemma readable_named: "readable log q ((t, mid), row) \<Longrightarrow> mid \<noteq> []"
  using history_row_message get_message_named unfolding readable_def by (metis prod.collapse)

lemma recent_pages_hits:
  assumes "distinct (map fst (time_entries rows))" and "\<forall>e \<in> set (time_rows rows start stop). readable log q e"
    and "length acc < limit" and "time_before (start, []) stop"
  shows "recent_pages log q limit rows start stop acc = Inr (take limit (acc @ row_hits log q (time_rows rows start stop)))"
  using assms
proof (induction log q limit rows start stop acc rule: recent_pages.induct)
  case (1 log q limit rows start stop acc)
  let ?X = "time_rows rows start stop"
  show ?case
  proof (cases "?X = []")
    case True
    then show ?thesis using 1 by (subst recent_pages.simps) (simp add: row_hits_def)
  next
    case False
    let ?found = "take 128 ?X" and ?stop = "fst (last (take 128 ?X))"
    have sub: "\<forall>e \<in> set ?found. readable log q e" using 1(3) by (meson in_set_takeD)
    have take: "take_rows log q limit acc ?found = Inr (take limit (acc @ row_hits log q ?found))"
      using take_rows_hits[OF sub 1(4)] .
    have split: "row_hits log q ?X = row_hits log q ?found @ row_hits log q (drop 128 ?X)"
      unfolding row_hits_def concat_append[symmetric] map_append[symmetric] append_take_drop_id ..
    have "last ?found \<in> set ?X" using False by (metis in_set_takeD last_in_set take_eq_Nil zero_neq_numeral)
    then have below: "time_before ?stop stop" and above: "start \<le> fst ?stop" by (auto simp: time_rows_set)
    have rest: "time_rows rows start ?stop = drop 128 ?X" by (rule time_rows_next) (use 1(2) False in simp_all)
    show ?thesis
    proof (cases "length (take limit (acc @ row_hits log q ?found)) = limit")
      case True
      obtain a where a: "a = take limit (acc @ row_hits log q ?found)" by simp
      have "recent_pages log q limit rows start stop acc = Inr a"
        using True take[folded a] 1(5) False unfolding a[symmetric]
        by (subst recent_pages.simps) (simp add: Let_def)
      moreover have "take limit (acc @ row_hits log q ?X) = a" using True unfolding a split by simp
      ultimately show ?thesis by simp
    next
      case short: False
      then have whole: "take limit (acc @ row_hits log q ?found) = acc @ row_hits log q ?found"
        and less: "length (acc @ row_hits log q ?found) < limit" by auto
      obtain t mid row where last: "last ?found = ((t, mid), row)" by (metis prod.exhaust)
      then have "mid \<noteq> []" using 1(3) \<open>last ?found \<in> set ?X\<close> readable_named by metis
      then have "[] < mid" by (cases mid) simp_all
      then have start: "time_before (start, []) ?stop" using above last by (auto simp: time_before_def)
      have rest_ok: "\<forall>e \<in> set (time_rows rows start ?stop). readable log q e" using 1(3) rest by (metis in_set_dropD)
      have "recent_pages log q limit rows start ?stop (acc @ row_hits log q ?found)
          = Inr (take limit ((acc @ row_hits log q ?found) @ row_hits log q (drop 128 ?X)))"
        using 1(1)[of ?found "acc @ row_hits log q ?found"] 1(5) 1(2) False rest_ok less start take whole short unfolding rest by simp
      then show ?thesis using take whole short 1(5) False less unfolding split
        by (subst recent_pages.simps) (simp add: Let_def)
    qed
  qed
qed

lemma stored_session:
  assumes wf: "wf_log log" and "get_message log sid mid = Inr (Some m)"
  shows "m_session m = sid \<and> (\<exists>a. session_attributes_of log sid = Inr a)"
proof -
  obtain r where r: "find (\<lambda>r. r_id r = mid \<and> r_session r = sid) (messages log) = Some r" and d: "message_of log r = Inr m"
    using assms(2) by (auto simp: get_message_def res_simps split: option.splits)
  then have mem: "r \<in> set (messages log)" and sid: "r_session r = sid" by (auto dest: find_Some_iff')
  have "r_seq r < next_seq log sid" using wf mem sid by (auto simp: wf_log_def wf_messages_def row_ok_def)
  moreover have "0 \<le> r_seq r" using message_of_fields[OF d] by (simp add: wf_message_def)
  ultimately obtain row where row: "find_session log sid = Some row" by (auto simp: next_seq_def split: option.splits)
  have "\<exists>a. decode_attributes (s_attributes row) = Inr a"
    using wf find_session_mem[OF row] by (auto simp: wf_log_def wf_sessions_def)
  then show ?thesis using row message_of_fields[OF d] sid by (simp add: session_attributes_of_def)
qed

lemma index_readable:
  assumes inv: "delivery_inv (log, rows)" and e: "e \<in> set (time_entries rows)"
  shows "readable log q e"
proof -
  obtain t mid v x where ee: "e = ((t, mid), v, x)" by (metis prod.exhaust)
  have wf: "wf_rows rows" and log: "wf_log log" using inv by (simp_all add: delivery_inv_def)
  have "row_read rows (KTime t mid) = Some (v, x)"
    using time_entry_row e wf unfolding ee by (simp add: wf_rows_def)
  then have "row_wf rows (KTime t mid) (v, x)" using wf unfolding wf_rows_def by blast
  then obtain cf where cf: "v = 0" "x = RConfirmation cf" "cf_message cf = mid" "cf_time cf = t"
      "row_read rows (KConfirmed mid) = Some (0, RConfirmation cf)" by auto
  obtain s where "row_read rows (KSelection mid) = Some (0, RSelection s)" "cf_session cf = sel_session s"
    using inv cf(5) unfolding delivery_inv_def confirmed_ok_def by fastforce
  then obtain m where m: "get_message log (cf_session cf) mid = Inr (Some m)"
    using inv unfolding delivery_inv_def selections_ok_def by fastforce
  then obtain a where "session_attributes_of log (m_session m) = Inr a" using stored_session[OF log m] by auto
  then show ?thesis using m cf(1-4) unfolding ee by (auto simp: readable_def history_row_def split: option.splits)
qed

lemma recent_hits:
  assumes inv: "delivery_inv (log, rows)" and "since < until" and limit: "1 \<le> limit" "limit \<le> 1000"
  shows "recent log q rows since until limit = Inr (take (nat limit) (row_hits log q (time_rows rows since (until, []))))"
proof -
  have "distinct (keys rows)" using inv by (simp add: delivery_inv_def wf_rows_def)
  moreover have "\<forall>e \<in> set (time_rows rows since (until, [])). readable log q e"
    using index_readable[OF inv] by (simp add: time_rows_set)
  ultimately show ?thesis using recent_pages_hits[OF time_entries_distinct, of rows since "(until, [])" log q "[]" "nat limit"] assms(2) limit
    by (simp add: recent_def time_before_def)
qed

section \<open>Pending deliveries\<close>

definition rows_named :: "delivery_rows \<Rightarrow> bool" where
  "rows_named rows \<longleftrightarrow> (\<forall>mid sk. row_read rows (KDelivery mid sk) \<noteq> None \<longrightarrow> sk \<noteq> [])"

lemma prepare_named:
  assumes "prepare_message owner m sinks passive rows = Inr (s, rows')" and "wf_rows rows" and "rows_named rows" and "named sinks"
  shows "rows_named rows'"
  unfolding rows_named_def
proof (intro allI impI)
  fix mid sk
  assume r: "row_read rows' (KDelivery mid sk) \<noteq> None"
  show "sk \<noteq> []"
  proof (cases "\<exists>x \<in> set sinks. KDelivery mid sk = KDelivery (m_id m) (sk_name x)")
    case True
    then show ?thesis using assms(4) by (auto simp: named_def list_all_iff)
  next
    case False
    then have "row_read rows' (KDelivery mid sk) = row_read rows (KDelivery mid sk)" using prepare_wf[OF assms(1,2)] by blast
    then show ?thesis using assms(3) r unfolding rows_named_def by metis
  qed
qed

lemma delivery_step_named:
  "delivery_step st st' \<Longrightarrow> delivery_inv st \<Longrightarrow> rows_named (snd st) \<Longrightarrow> rows_named (snd st')"
proof (induction rule: delivery_step.induct)
  case (prepares sinks owner lg sid m pas rows s rows')
  then have wf: "wf_rows rows" by (simp add: delivery_inv_def)
  consider "rows' = rows" | "prepare_message owner m sinks pas rows = Inr (s, rows')"
    using prepares(2) by (auto simp: records_prepare_def res_simps split: if_splits)
  then show ?case using prepare_named[OF _ wf] prepares by cases auto
next
  case (publishes sinks w bd owner tm mid pas lg rows res st1)
  then have wf: "wf_rows rows" by (simp add: delivery_inv_def)
  consider "snd st1 = rows" | m s where "prepare_message owner m sinks pas rows = Inr (s, snd st1)"
    using publishes(4) by (auto simp: records_publish_def res_simps split: if_splits)
  then show ?case using prepare_named[OF _ wf] publishes by cases auto
next
  case (consumes sinks owner lg sid m pas rows sel rows')
  then have wf: "wf_rows rows" by (simp add: delivery_inv_def)
  show ?case
  proof (rule consume_cases[OF consumes(2) wf])
    fix cursor following r1
    assume none: "sinks = None \<longrightarrow> r1 = rows"
      and some: "\<forall>sks. sinks = Some sks \<longrightarrow> prepare_message owner m sks pas rows = Inr (the sel, r1) \<and> sel \<noteq> None"
      and r': "\<exists>v. rows' = AList.update (KCursor owner sid) (v, RCursor (m_seq m)) r1 \<and> 0 \<le> v"
    have "rows_named r1"
    proof (cases sinks)
      case (Some sks)
      then have "prepare_message owner m sks pas rows = Inr (the sel, r1)" using some by simp
      moreover have "rows_named rows" "named sks" using consumes(1,4) Some by simp_all
      ultimately show ?thesis by (rule prepare_named[OF _ wf])
    qed (use none consumes(4) in simp)
    moreover have "row_read rows' (KDelivery mid sk) = row_read r1 (KDelivery mid sk)" for mid sk
      using r' by (auto simp: row_read_update)
    ultimately show ?thesis by (simp add: rows_named_def)
  qed (use consumes(4) in simp)
next
  case (adds sk owner mid rows rows' lg)
  then obtain s where s: "check_owner owner rows mid = Inr s" and add: "add_sink owner mid sk rows = Inr rows'"
    by (auto simp: records_add_def res_simps)
  have "wf_rows rows" using adds by (simp add: delivery_inv_def)
  then have "row_read rows' (KDelivery m k) = row_read rows (KDelivery m k)" if "k \<noteq> sk_name sk" for m k
    using add_sink_wf[OF add] s that by (simp add: check_owner_iff)
  then show ?case using adds unfolding rows_named_def named_def by (simp, metis)
next
  case (saves d rows mid previous old owner tm v rows' lg)
  then have "wf_rows rows" by (simp add: delivery_inv_def)
  then have "row_read rows' (KDelivery m k) = row_read rows (KDelivery m k)" if "(m, k) \<noteq> (mid, sk_name (dl_sink d))" for m k
    using save_wf[OF saves(5) _ saves(1,2)] that by blast
  moreover have "sk_name (dl_sink d) \<noteq> []" using saves(2,7) unfolding rows_named_def snd_conv by (metis option.distinct(1))
  ultimately show ?case using saves(7) unfolding rows_named_def snd_conv by (metis prod.inject)
qed simp

lemma delivery_reach_named: "delivery_step\<^sup>*\<^sup>* (empty_log, []) st \<Longrightarrow> rows_named (snd st)"
proof (induction rule: rtranclp_induct)
  case (step t u)
  then show ?case using delivery_step_named[OF step(2)] delivery_reach_inv[OF step(1)] by blast
qed (simp add: rows_named_def row_read_def)

text \<open>A delivery of the owner's that is not settled.\<close>

definition unsettled :: "string \<Rightarrow> delivery_rows \<Rightarrow> string \<Rightarrow> string \<Rightarrow> bool" where
  "unsettled owner rows mid sk \<longleftrightarrow> (\<exists>row s d. row_read rows (KDelivery mid sk) = Some row
     \<and> row_read rows (KSelection mid) = Some (0, RSelection s) \<and> sel_owner s = owner
     \<and> as_delivery (snd row) = Inr d \<and> \<not> settled d)"

lemma pending_of_wf:
  assumes inv: "delivery_inv (log, rows)" and named: "rows_named rows" and k: "row_read rows k \<noteq> None"
  shows "\<exists>ps. pending_of owner rows k = Inr ps
     \<and> (\<forall>mid sk. (mid, sk) \<in> set ps \<longleftrightarrow> k = KDelivery mid sk \<and> unsettled owner rows mid sk)"
proof (cases k)
  case (KDelivery mid sk)
  have wf: "wf_rows rows" using inv by (simp add: delivery_inv_def)
  obtain v x where row: "row_read rows k = Some (v, x)" using k by auto
  then have "row_wf rows (KDelivery mid sk) (v, x)" using wf KDelivery unfolding wf_rows_def by blast
  then obtain d where d: "as_delivery x = Inr d" "sk_name (dl_sink d) = sk" and sel: "row_read rows (KSelection mid) \<noteq> None" by auto
  obtain s where s: "row_read rows (KSelection mid) = Some (0, RSelection s)"
    using sel selection_is[OF wf] by fastforce
  then have rs: "read_selection rows mid = Inr (Some s)" by (simp add: read_selection_Some)
  obtain m where "get_message log (sel_session s) mid = Inr (Some m)"
    using inv s unfolding delivery_inv_def selections_ok_def by fastforce
  then have mid: "mid \<noteq> []" by (rule get_message_named)
  have sk: "sk \<noteq> []" using named k KDelivery unfolding rows_named_def by metis
  show ?thesis
  proof (cases "sel_owner s = owner")
    case True
    then have "records_read owner rows mid sk = Inr ((v, x), d)"
      using s row d KDelivery by (simp add: records_read_def check_owner_def rs)
    then show ?thesis using True mid sk rs s row d KDelivery by (auto simp: pending_of_def unsettled_def)
  next
    case False
    then show ?thesis using mid sk rs s KDelivery by (auto simp: pending_of_def unsettled_def)
  qed
qed (simp_all add: pending_of_def)

lemma mapR_map: "(\<And>x. x \<in> set xs \<Longrightarrow> f x = Inr (g x)) \<Longrightarrow> mapR f xs = Inr (map g xs)"
  by (induction xs) simp_all

lemma records_pending_exact:
  assumes inv: "delivery_inv (log, rows)" and named: "rows_named rows"
  shows "\<exists>ps. records_pending owner fmt rows = Inr ps \<and> (\<forall>mid sk. (mid, sk) \<in> set ps \<longleftrightarrow> unsettled owner rows mid sk)"
proof -
  let ?ks = "sort_key (key_text fmt) (keys rows)"
  let ?g = "\<lambda>k. projr (pending_of owner rows k)"
  have mem: "k \<in> set ?ks \<longleftrightarrow> row_read rows k \<noteq> None" for k
    by (simp add: row_read_def map_of_eq_None_iff)
  have one: "pending_of owner rows k = Inr (?g k)
      \<and> (\<forall>mid sk. (mid, sk) \<in> set (?g k) \<longleftrightarrow> k = KDelivery mid sk \<and> unsettled owner rows mid sk)" if "k \<in> set ?ks" for k
    using pending_of_wf[OF inv named, of k owner] that unfolding mem by auto
  then have "mapR (pending_of owner rows) ?ks = Inr (map ?g ?ks)" by (intro mapR_map) blast
  then have r: "records_pending owner fmt rows = Inr (concat (map ?g ?ks))" by (simp add: records_pending_def)
  have un: "KDelivery mid sk \<in> set ?ks" if "unsettled owner rows mid sk" for mid sk
    using that unfolding mem unsettled_def by auto
  have "(mid, sk) \<in> set (concat (map ?g ?ks)) \<longleftrightarrow> unsettled owner rows mid sk" for mid sk
  proof -
    have "(mid, sk) \<in> set (concat (map ?g ?ks)) \<longleftrightarrow> (\<exists>k \<in> set ?ks. (mid, sk) \<in> set (?g k))" by auto
    also have "\<dots> \<longleftrightarrow> (\<exists>k \<in> set ?ks. k = KDelivery mid sk \<and> unsettled owner rows mid sk)" using one by blast
    also have "\<dots> \<longleftrightarrow> unsettled owner rows mid sk" using un by blast
    finally show ?thesis .
  qed
  then show ?thesis using r by blast
qed

end
