(* ===== verification/Delivery_Execution.thy ===== *)
theory Delivery_Execution
  imports Delivery_State
begin

text \<open>
  \<open>plugins/delivery/execution.py\<close>: sending one prepared delivery. The code between two awaits runs
  alone, so \<open>_send\<close> is a machine whose states are its awaits and whose steps are the segments
  between them; \<open>retry\<close> and \<open>cancel_prepared\<close> are steps of their own (the callback they run under the
  delivery's slot), and other operations on the records may come between any two segments. A crash
  forgets the machine and keeps the records.

  The sender is a plugin: what \<open>query\<close> and \<open>send\<close> return or raise and whether it is idempotent are
  inputs of the steps; a receipt of another schema is an exception (\<open>model_validate\<close>). The waits of
  the task host (\<open>exclusive\<close>, \<open>activity\<close>) only delay a step.
\<close>

section \<open>Segments\<close>

datatype send_pc =
    Idle
  | Waiting
  | Opening "int \<times> delivery_row" delivery
  | Querying "int \<times> delivery_row" delivery
  | Sending "int \<times> delivery_row" delivery
  | Returned receipt
  | Raised py_error

definition settle :: "delivery \<Rightarrow> receipt \<Rightarrow> delivery" where
  "settle d r = \<lparr>dl_sink = dl_sink d, dl_phase = Settled (rc_status r), dl_receipt = Some r, dl_confirmed = None\<rparr>"

definition started :: "delivery \<Rightarrow> delivery" where
  "started d = \<lparr>dl_sink = dl_sink d, dl_phase = Started, dl_receipt = None, dl_confirmed = None\<rparr>"

definition fault :: "receipt_status \<Rightarrow> string \<Rightarrow> receipt" where
  "fault st reason = \<lparr>rc_status = st, rc_ids = [], rc_error = Some reason\<rparr>"

text \<open>The two fixed error texts, as the UTF-8 bytes of the source literals.\<close>

definition interrupted :: string where
  "interrupted = map (char_of :: nat \<Rightarrow> char)
      [229, 142, 159, 229, 143, 145, 233, 128, 129, 228, 184, 173, 230, 150, 173, 228, 184,
       148, 230, 178, 161, 230, 156, 137, 229, 143, 175, 230, 159, 165, 232, 175, 162, 229,
       155, 158, 230, 137, 167, 239, 188, 155, 229, 143, 175, 232, 131, 189, 229, 183, 178,
       233, 128, 129, 232, 190, 190, 239, 188, 140, 228, 184, 141, 232, 135, 170, 229, 138,
       168, 233, 135, 141, 229, 143, 145]"

definition unconfirmed :: string where
  "unconfirmed = map (char_of :: nat \<Rightarrow> char)
      [229, 143, 145, 233, 128, 129, 229, 183, 178, 229, 188, 128, 229, 167, 139, 228, 189,
       134, 230, 156, 170, 229, 143, 150, 229, 190, 151, 229, 143, 175, 231, 161, 174, 232,
       174, 164, 229, 155, 158, 230, 137, 167]"

text \<open>Returning the receipt of a settled delivery.\<close>

definition settled_result :: "delivery \<Rightarrow> send_pc" where
  "settled_result d = (case dl_receipt d of None \<Rightarrow> Raised AssertionError | Some r \<Rightarrow> Returned r)"

definition send_begin :: "string \<Rightarrow> message_log \<Rightarrow> delivery_rows \<Rightarrow> string \<Rightarrow> string \<Rightarrow> send_pc" where
  "send_begin owner log rows mid sk =
     (case records_read owner rows mid sk of
        Inl e \<Rightarrow> Raised e
      | Inr (row, d) \<Rightarrow>
          if settled d then settled_result d
          else case read_selection rows mid of
            Inl e \<Rightarrow> Raised e
          | Inr None \<Rightarrow> Raised ValueError
          | Inr (Some s) \<Rightarrow>
              (case get_message log (sel_session s) mid of
                 Inl e \<Rightarrow> Raised e
               | Inr None \<Rightarrow> Raised ValueError
               | Inr (Some m) \<Rightarrow> Waiting))"

definition send_reread :: "string \<Rightarrow> delivery_rows \<Rightarrow> string \<Rightarrow> string \<Rightarrow> bool \<Rightarrow> send_pc" where
  "send_reread owner rows mid sk active =
     (if \<not> active then Raised CancelledError
      else case records_read owner rows mid sk of
        Inl e \<Rightarrow> Raised e
      | Inr (row, d) \<Rightarrow> if settled d then settled_result d else Opening row d)"

text \<open>Saving a settled phase and returning its receipt.\<close>

definition settle_row ::
  "string \<Rightarrow> int \<Rightarrow> string \<Rightarrow> int \<times> delivery_row \<Rightarrow> delivery \<Rightarrow> receipt \<Rightarrow> delivery_rows \<Rightarrow> send_pc \<times> delivery_rows" where
  "settle_row owner now mid row d r rows =
     (case records_save owner now mid row (settle d r) rows of
        Inl e \<Rightarrow> (Raised e, rows)
      | Inr (_, rows') \<Rightarrow> (Returned r, rows'))"

text \<open>
  Step 2 up to the call of \<open>send\<close>. \<open>before_start\<close> is \<open>None\<close> without a check, or what the check
  returned or raised.
\<close>

definition send_go ::
  "string \<Rightarrow> int \<Rightarrow> string \<Rightarrow> int \<times> delivery_row \<Rightarrow> delivery \<Rightarrow> bool \<Rightarrow> string option res option \<Rightarrow> delivery_rows
     \<Rightarrow> send_pc \<times> delivery_rows" where
  "send_go owner now mid row d active before_start rows =
     (if \<not> active then (Raised CancelledError, rows)
      else
        let go = (case records_save owner now mid row (started d) rows of
                    Inl e \<Rightarrow> (Raised e, rows)
                  | Inr (v, rows') \<Rightarrow> (Sending (v, RDelivery (dump_delivery (started d))) (started d), rows')) in
        if dl_phase d \<noteq> Prepared then go
        else case before_start of
          None \<Rightarrow> go
        | Some (Inl e) \<Rightarrow> (Raised e, rows)
        | Some (Inr None) \<Rightarrow> go
        | Some (Inr (Some reason)) \<Rightarrow>
            if reason = [] then (Raised TypeError, rows)
            else settle_row owner now mid row d (fault RRejected reason) rows)"

definition send_opened ::
  "string \<Rightarrow> int \<Rightarrow> string \<Rightarrow> int \<times> delivery_row \<Rightarrow> delivery \<Rightarrow> bool \<Rightarrow> string option res option \<Rightarrow> delivery_rows
     \<Rightarrow> send_pc \<times> delivery_rows" where
  "send_opened owner now mid row d active before_start rows =
     (if dl_phase d = Started then (Querying row d, rows)
      else send_go owner now mid row d active before_start rows)"

definition send_queried ::
  "string \<Rightarrow> int \<Rightarrow> string \<Rightarrow> int \<times> delivery_row \<Rightarrow> delivery \<Rightarrow> bool \<Rightarrow> string option res option \<Rightarrow> bool
     \<Rightarrow> receipt option res \<Rightarrow> delivery_rows \<Rightarrow> send_pc \<times> delivery_rows" where
  "send_queried owner now mid row d active before_start idempotent found rows =
     (case found of
        Inl e \<Rightarrow> (Raised e, rows)
      | Inr (Some r) \<Rightarrow> settle_row owner now mid row d r rows
      | Inr None \<Rightarrow>
          if \<not> idempotent then settle_row owner now mid row d (fault RFailed interrupted) rows
          else send_go owner now mid row d active before_start rows)"

definition send_done ::
  "string \<Rightarrow> int \<Rightarrow> string \<Rightarrow> int \<times> delivery_row \<Rightarrow> delivery \<Rightarrow> receipt res \<Rightarrow> delivery_rows
     \<Rightarrow> send_pc \<times> delivery_rows" where
  "send_done owner now mid row d response rows =
     (case response of
        Inr r \<Rightarrow> settle_row owner now mid row d r rows
      | Inl e \<Rightarrow>
          (case records_save owner now mid row (settle d (fault RFailed unconfirmed)) rows of
             Inl e' \<Rightarrow> (Raised e', rows)
           | Inr (_, rows') \<Rightarrow> (Raised e, rows')))"

section \<open>Operations under the slot\<close>

definition running :: "send_pc \<Rightarrow> bool" where
  "running pc = (case pc of Idle \<Rightarrow> False | Returned r \<Rightarrow> False | Raised e \<Rightarrow> False | _ \<Rightarrow> True)"

text \<open>\<open>rearm\<close>: \<open>None\<close> when there is nothing to do or the old task has to be drained first.\<close>

definition rearm ::
  "string \<Rightarrow> int \<Rightarrow> string \<Rightarrow> string \<Rightarrow> send_pc \<Rightarrow> delivery_rows \<Rightarrow> delivery_rows option res" where
  "rearm owner now mid sk pc rows =
     bindR (records_read owner rows mid sk) (\<lambda>(row, d).
       if dl_phase d \<noteq> Settled RRejected then Inr None
       else if running pc then Inr None
       else bindR (records_save owner now mid row (prepared (dl_sink d)) rows) (\<lambda>(_, rows'). Inr (Some rows')))"

definition cancel_prepared ::
  "string \<Rightarrow> int \<Rightarrow> string \<Rightarrow> string \<Rightarrow> string \<Rightarrow> delivery_rows \<Rightarrow> (bool \<times> delivery_rows) res" where
  "cancel_prepared owner now mid sk reason rows =
     bindR (ensure (reason \<noteq> []) ValueError) (\<lambda>_. bindR (records_read owner rows mid sk) (\<lambda>(row, d).
       if dl_phase d \<noteq> Prepared then Inr (False, rows)
       else bindR (records_save owner now mid row (settle d (fault RRejected reason)) rows) (\<lambda>(_, rows').
              Inr (True, rows'))))"

section \<open>Executions\<close>

record exec_state =
  x_pc :: send_pc
  x_rows :: delivery_rows
  x_active :: bool
  x_sends :: nat
  x_rearms :: nat

fun is_sending :: "send_pc \<Rightarrow> bool" where
  "is_sending (Sending row d) = True"
| "is_sending _ = False"

text \<open>A segment that ends in the call of \<open>send\<close> counts as one send.\<close>

definition moved :: "send_pc \<times> delivery_rows \<Rightarrow> exec_state \<Rightarrow> exec_state" where
  "moved r x = x\<lparr>x_pc := fst r, x_rows := snd r,
     x_sends := x_sends x + (if is_sending (fst r) then 1 else 0)\<rparr>"

inductive exec_step :: "string \<Rightarrow> string \<Rightarrow> string \<Rightarrow> bool \<Rightarrow> exec_state \<Rightarrow> exec_state \<Rightarrow> bool"
  for owner mid sk idem where
  begins: "\<not> running (x_pc x) \<Longrightarrow>
     exec_step owner mid sk idem x (x\<lparr>x_pc := send_begin owner log (x_rows x) mid sk, x_active := True\<rparr>)"
| rereads: "x_pc x = Waiting \<Longrightarrow>
     exec_step owner mid sk idem x (x\<lparr>x_pc := send_reread owner (x_rows x) mid sk (x_active x)\<rparr>)"
| opens: "x_pc x = Opening row d \<Longrightarrow>
     exec_step owner mid sk idem x (moved (send_opened owner now mid row d (x_active x) check (x_rows x)) x)"
| queries: "x_pc x = Querying row d \<Longrightarrow>
     exec_step owner mid sk idem x (moved (send_queried owner now mid row d (x_active x) check idem found (x_rows x)) x)"
| answers: "x_pc x = Sending row d \<Longrightarrow>
     exec_step owner mid sk idem x (moved (send_done owner now mid row d response (x_rows x)) x)"
| fails: "running (x_pc x) \<Longrightarrow> \<not> is_sending (x_pc x) \<Longrightarrow> exec_step owner mid sk idem x (x\<lparr>x_pc := Raised e\<rparr>)"
| crashes: "exec_step owner mid sk idem x (x\<lparr>x_pc := Idle\<rparr>)"
| revokes: "exec_step owner mid sk idem x (x\<lparr>x_active := False\<rparr>)"
| retries: "rearm owner now mid sk (x_pc x) (x_rows x) = Inr (Some rows') \<Longrightarrow>
     exec_step owner mid sk idem x (x\<lparr>x_rows := rows', x_rearms := x_rearms x + 1\<rparr>)"
| cancels: "cancel_prepared owner now mid sk reason (x_rows x) = Inr (done', rows') \<Longrightarrow>
     exec_step owner mid sk idem x (x\<lparr>x_rows := rows', x_active := (x_active x \<and> \<not> done')\<rparr>)"
| others: "wf_rows rows' \<Longrightarrow> keeps_rows (x_rows x) rows' \<Longrightarrow>
     row_read rows' (KDelivery mid sk) = row_read (x_rows x) (KDelivery mid sk) \<Longrightarrow>
     exec_step owner mid sk idem x (x\<lparr>x_rows := rows'\<rparr>)"

section \<open>The invariant of an execution\<close>

text \<open>A record the machine holds is the stored one, or an older version of it.\<close>

definition held :: "delivery_rows \<Rightarrow> string \<Rightarrow> string \<Rightarrow> int \<times> delivery_row \<Rightarrow> delivery \<Rightarrow> bool" where
  "held rows mid sk row d \<longleftrightarrow> as_delivery (snd row) = Inr d \<and> sk_name (dl_sink d) = sk
     \<and> (\<exists>cur. row_read rows (KDelivery mid sk) = Some cur \<and> fst row \<le> fst cur \<and> (fst cur = fst row \<longrightarrow> cur = row))"

definition pc_ok :: "delivery_rows \<Rightarrow> string \<Rightarrow> string \<Rightarrow> send_pc \<Rightarrow> bool" where
  "pc_ok rows mid sk pc = (case pc of
       Opening row d \<Rightarrow> held rows mid sk row d \<and> \<not> settled d
     | Querying row d \<Rightarrow> held rows mid sk row d \<and> dl_phase d = Started
     | Sending row d \<Rightarrow> held rows mid sk row d \<and> dl_phase d = Started
     | _ \<Rightarrow> True)"

definition phase_at :: "delivery_rows \<Rightarrow> string \<Rightarrow> string \<Rightarrow> phase option" where
  "phase_at rows mid sk = (case row_read rows (KDelivery mid sk) of
       None \<Rightarrow> None
     | Some row \<Rightarrow> (case as_delivery (snd row) of Inl e \<Rightarrow> None | Inr d \<Rightarrow> Some (dl_phase d)))"

definition exec_inv :: "string \<Rightarrow> string \<Rightarrow> bool \<Rightarrow> exec_state \<Rightarrow> bool" where
  "exec_inv mid sk idem x \<longleftrightarrow> wf_rows (x_rows x) \<and> pc_ok (x_rows x) mid sk (x_pc x)
     \<and> (\<not> idem \<longrightarrow> x_sends x \<le> x_rearms x + (if phase_at (x_rows x) mid sk = Some Prepared then 0 else 1))"

lemma save_held:
  assumes wf: "wf_rows rows" and h: "held rows mid sk row old" and d: "wf_delivery d" "dl_sink d = dl_sink old"
    and s: "records_save owner now mid row d rows = Inr (v, rows')"
  shows "row_read rows (KDelivery mid sk) = Some row \<and> wf_rows rows' \<and> keeps_rows rows rows' \<and> v = fst row + 1
    \<and> row_read rows' (KDelivery mid sk) = Some (v, RDelivery (dump_delivery (confirm_now now old d)))
    \<and> wf_delivery (confirm_now now old d)"
proof -
  have old: "as_delivery (snd row) = Inr old" and name: "sk_name (dl_sink d) = sk" using h d(2) by (simp_all add: held_def)
  obtain cur where cur: "row_read rows (KDelivery mid sk) = Some cur" "fst cur = fst row \<longrightarrow> cur = row"
    using h by (auto simp: held_def)
  have "map_option fst (row_read rows (KDelivery mid sk)) = Some (fst row)"
  proof -
    obtain r where "row_save (KDelivery mid (sk_name (dl_sink (confirm_now now old d)))) (RDelivery (dump_delivery (confirm_now now old d)))
        (Some (fst row)) rows = Inr r"
      using s old by (auto simp: records_save_def res_simps Let_def confirm_now_def split: if_split_asm)
    then show ?thesis using name confirm_now_facts(2)[of now old d] by (cases r) (simp add: row_save_iff)
  qed
  then have row: "row_read rows (KDelivery mid sk) = Some row" using cur by simp
  show ?thesis using save_wf[OF s wf d(1)] row name old confirm_now_facts(1)[OF d(1)] by auto
qed

lemma settle_wf [simp]: "wf_delivery (settle d r)" "dl_sink (settle d r) = dl_sink d" "dl_phase (settle d r) = Settled (rc_status r)"
  "dl_receipt (settle d r) = Some r"
  by (simp_all add: settle_def wf_delivery_def mk_Delivery_def receipt_mismatch_def)

lemma started_wf [simp]: "wf_delivery (started d)" "dl_sink (started d) = dl_sink d" "dl_phase (started d) = Started"
  by (simp_all add: started_def wf_delivery_def mk_Delivery_def receipt_mismatch_def)

lemma as_dumped: "wf_delivery d \<Longrightarrow> as_delivery (RDelivery (dump_delivery d)) = Inr d"
  by (simp add: as_delivery_def read_dump_delivery)

lemma phase_saved:
  assumes wf: "wf_rows rows" and h: "held rows mid sk row old" and d: "wf_delivery d" "dl_sink d = dl_sink old"
    and s: "records_save owner now mid row d rows = Inr (v, rows')"
  shows "wf_rows rows' \<and> phase_at rows mid sk = Some (dl_phase old) \<and> phase_at rows' mid sk = Some (dl_phase d)"
  using save_held[OF assms] h as_dumped by (auto simp: phase_at_def held_def confirm_now_facts)

definition budget :: "string \<Rightarrow> string \<Rightarrow> delivery_rows \<Rightarrow> nat" where
  "budget mid sk rows = (if phase_at rows mid sk = Some Prepared then 0 else 1)"

definition segment_ok :: "string \<Rightarrow> string \<Rightarrow> bool \<Rightarrow> delivery_rows \<Rightarrow> send_pc \<times> delivery_rows \<Rightarrow> bool" where
  "segment_ok mid sk idem rows r \<longleftrightarrow> wf_rows (snd r) \<and> pc_ok (snd r) mid sk (fst r)
     \<and> (\<not> idem \<longrightarrow> budget mid sk rows + (if is_sending (fst r) then 1 else 0) \<le> budget mid sk (snd r))"

lemma segment_moved:
  assumes "exec_inv mid sk idem x" and "segment_ok mid sk idem (x_rows x) r"
  shows "exec_inv mid sk idem (moved r x)"
  using assms by (auto simp: exec_inv_def segment_ok_def moved_def budget_def[symmetric])

lemma idle_segment: "wf_rows rows \<Longrightarrow> \<not> running pc \<Longrightarrow> segment_ok mid sk idem rows (pc, rows)"
  by (cases pc) (simp_all add: segment_ok_def pc_ok_def running_def)

lemma settle_segment:
  assumes wf: "wf_rows rows" and h: "held rows mid sk row d"
  shows "segment_ok mid sk idem rows (settle_row owner now mid row d r rows)"
proof (cases "records_save owner now mid row (settle d r) rows")
  case (Inl e)
  then show ?thesis using idle_segment[OF wf, of "Raised e"] by (simp add: settle_row_def running_def)
next
  case (Inr res)
  obtain v rows' where res: "res = (v, rows')" by (cases res)
  have "wf_rows rows'" "phase_at rows' mid sk = Some (Settled (rc_status r))"
    using phase_saved[OF wf h _ _ Inr[unfolded res]] by simp_all
  then show ?thesis using Inr res by (simp add: settle_row_def segment_ok_def pc_ok_def budget_def)
qed

lemma go_segment:
  assumes wf: "wf_rows rows" and h: "held rows mid sk row d"
    and phase: "dl_phase d = Prepared \<or> (dl_phase d = Started \<and> idem)"
  shows "segment_ok mid sk idem rows (send_go owner now mid row d active check rows)"
proof -
  have raised: "segment_ok mid sk idem rows (Raised e, rows)" for e
    by (rule idle_segment[OF wf]) (simp add: running_def)
  have go: "segment_ok mid sk idem rows (case records_save owner now mid row (started d) rows of
        Inl e \<Rightarrow> (Raised e, rows)
      | Inr (v, rows') \<Rightarrow> (Sending (v, RDelivery (dump_delivery (started d))) (started d), rows'))"
  proof (cases "records_save owner now mid row (started d) rows")
    case (Inr res)
    obtain v rows' where res: "res = (v, rows')" by (cases res)
    note s = save_held[OF wf h _ _ Inr[unfolded res]] and p = phase_saved[OF wf h _ _ Inr[unfolded res]]
    have "confirm_now now d (started d) = started d" by (simp add: confirm_now_def)
    then have "row_read rows' (KDelivery mid sk) = Some (v, RDelivery (dump_delivery (started d)))" using s by simp
    then have "held rows' mid sk (v, RDelivery (dump_delivery (started d))) (started d)"
      using h as_dumped[of "started d"] by (simp add: held_def)
    then show ?thesis using Inr res p phase by (auto simp: segment_ok_def pc_ok_def budget_def)
  qed (simp add: raised)
  show ?thesis
    using go raised settle_segment[OF wf h]
    by (auto simp: send_go_def Let_def split: option.splits sum.splits)
qed

lemma send_opened_segment:
  assumes wf: "wf_rows rows" and h: "held rows mid sk row d" "\<not> settled d"
  shows "segment_ok mid sk idem rows (send_opened owner now mid row d active check rows)"
proof (cases "dl_phase d = Started")
  case True
  then show ?thesis using wf h by (simp add: send_opened_def segment_ok_def pc_ok_def)
next
  case False
  then have "dl_phase d = Prepared" using h(2) by (cases "dl_phase d") (simp_all add: settled_def)
  then show ?thesis using go_segment[OF wf h(1)] by (simp add: send_opened_def)
qed

lemma send_queried_segment:
  assumes wf: "wf_rows rows" and h: "held rows mid sk row d" "dl_phase d = Started"
  shows "segment_ok mid sk idem rows (send_queried owner now mid row d active check idem found rows)"
  using settle_segment[OF wf h(1)] go_segment[OF wf h(1)] h(2) idle_segment[OF wf]
  by (auto simp: send_queried_def running_def split: sum.splits option.splits)

lemma send_done_segment:
  assumes wf: "wf_rows rows" and h: "held rows mid sk row d"
  shows "segment_ok mid sk idem rows (send_done owner now mid row d response rows)"
proof (cases response)
  case (Inr r)
  then show ?thesis using settle_segment[OF wf h] by (simp add: send_done_def)
next
  case (Inl e)
  have "segment_ok mid sk idem rows (settle_row owner now mid row d (fault RFailed unconfirmed) rows)"
    by (rule settle_segment[OF wf h])
  then show ?thesis using Inl
    by (auto simp: send_done_def settle_row_def segment_ok_def pc_ok_def split: sum.splits)
qed

lemma begin_pc: "pc_ok rows mid sk (send_begin owner log rows mid sk)"
  by (auto simp: pc_ok_def send_begin_def settled_result_def split: sum.splits option.splits prod.splits)

lemma records_read_held:
  assumes "records_read owner rows mid sk = Inr (row, d)"
  shows "held rows mid sk row d"
  using assms by (cases row) (auto simp: records_read_def res_simps held_def split: option.splits if_splits)

lemma reread_pc: "pc_ok rows mid sk (send_reread owner rows mid sk active)"
  using records_read_held
  by (auto simp: pc_ok_def send_reread_def settled_result_def split: sum.splits option.splits prod.splits)

lemma held_newer:
  assumes "held rows mid sk row d" and "row_read rows (KDelivery mid sk) = Some cur"
    and "row_read rows' (KDelivery mid sk) = Some cur'" and "fst cur < fst cur'"
  shows "held rows' mid sk row d"
  using assms by (auto simp: held_def)

lemma exec_step_inv:
  assumes "exec_step owner mid sk idem x y" and inv: "exec_inv mid sk idem x"
  shows "exec_inv mid sk idem y"
  using assms(1)
proof cases
  case (begins lg)
  then show ?thesis using inv begin_pc by (simp add: exec_inv_def)
next
  case rereads
  then show ?thesis using inv reread_pc by (simp add: exec_inv_def)
next
  case (opens row d tm check)
  then have "segment_ok mid sk idem (x_rows x) (send_opened owner tm mid row d (x_active x) check (x_rows x))"
    using inv by (intro send_opened_segment) (auto simp: exec_inv_def pc_ok_def)
  then show ?thesis using opens segment_moved[OF inv] by simp
next
  case (queries row d tm check found)
  then have "segment_ok mid sk idem (x_rows x) (send_queried owner tm mid row d (x_active x) check idem found (x_rows x))"
    using inv by (intro send_queried_segment) (auto simp: exec_inv_def pc_ok_def)
  then show ?thesis using queries segment_moved[OF inv] by simp
next
  case (answers row d tm response)
  then have "segment_ok mid sk idem (x_rows x) (send_done owner tm mid row d response (x_rows x))"
    using inv by (intro send_done_segment) (auto simp: exec_inv_def pc_ok_def)
  then show ?thesis using answers segment_moved[OF inv] by simp
next
  case (fails e)
  then show ?thesis using inv by (simp add: exec_inv_def pc_ok_def)
next
  case crashes
  then show ?thesis using inv by (simp add: exec_inv_def pc_ok_def)
next
  case revokes
  then show ?thesis using inv by (simp add: exec_inv_def)
next
  case (retries tm rows')
  then obtain row d v where r: "records_read owner (x_rows x) mid sk = Inr (row, d)" and idle: "\<not> running (x_pc x)"
      and s: "records_save owner tm mid row (prepared (dl_sink d)) (x_rows x) = Inr (v, rows')"
    by (auto simp: rearm_def res_simps split: if_splits)
  have wf: "wf_rows (x_rows x)" using inv by (simp add: exec_inv_def)
  have "dl_sink (prepared (dl_sink d)) = dl_sink d" by (simp add: prepared_def)
  then have "wf_rows rows'" using phase_saved[OF wf records_read_held[OF r] prepared_wf _ s] by blast
  moreover have "pc_ok rows' mid sk (x_pc x)" using idle by (cases "x_pc x") (simp_all add: running_def pc_ok_def)
  ultimately show ?thesis using inv retries by (auto simp: exec_inv_def split: if_splits)
next
  case (cancels tm reason done' rows')
  have wf: "wf_rows (x_rows x)" using inv by (simp add: exec_inv_def)
  consider "rows' = x_rows x"
    | row d v where "records_read owner (x_rows x) mid sk = Inr (row, d)"
        "records_save owner tm mid row (settle d (fault RRejected reason)) (x_rows x) = Inr (v, rows')"
    using cancels(2) by (auto simp: cancel_prepared_def res_simps split: if_splits)
  then show ?thesis
  proof cases
    case 1
    then show ?thesis using inv cancels by (simp add: exec_inv_def)
  next
    case (2 row d v)
    note h = records_read_held[OF 2(1)]
    note s = save_held[OF wf h settle_wf(1,2) 2(2)] and p = phase_saved[OF wf h settle_wf(1,2) 2(2)]
    have newer: "held rows' mid sk row' d'" if "held (x_rows x) mid sk row' d'" for row' d'
      by (rule held_newer[OF that, of row]) (use s in auto)
    have "pc_ok rows' mid sk (x_pc x)" using inv newer by (cases "x_pc x") (simp_all add: exec_inv_def pc_ok_def)
    then show ?thesis using inv cancels s p by (auto simp: exec_inv_def split: if_splits)
  qed
next
  case (others rows')
  have "held rows' mid sk = held (x_rows x) mid sk" using others by (intro ext) (simp add: held_def)
  moreover have "phase_at rows' mid sk = phase_at (x_rows x) mid sk" using others by (simp add: phase_at_def)
  ultimately show ?thesis using inv others by (cases "x_pc x") (simp_all add: exec_inv_def pc_ok_def)
qed

lemma exec_steps_inv: "(exec_step owner mid sk idem)\<^sup>*\<^sup>* x y \<Longrightarrow> exec_inv mid sk idem x \<Longrightarrow> exec_inv mid sk idem y"
  by (induction rule: rtranclp_induct) (auto intro: exec_step_inv)

end
