(* ===== verification/Delivery_Properties.thy ===== *)
theory Delivery_Properties
  imports Delivery_Execution
begin

text \<open>
  The properties of delivery: of the records (consumption in order, what never changes, pending
  work, the confirmation index) and of sending (at most one unconfirmed effect, durable results).
\<close>

section \<open>A prepared delivery\<close>

definition sample_sink :: sink where
  "sample_sink = \<lparr>sk_name = ''cli'', sk_binding = ''b'', sk_address = ''a''\<rparr>"

definition sample_selection :: selection where
  "sample_selection = \<lparr>sel_session = ''s'', sel_owner = ''o'', sel_passive = False, sel_sinks = [''cli'']\<rparr>"

definition sample_rows :: delivery_rows where
  "sample_rows = [(KSelection ''m1'', (0, RSelection sample_selection)),
     (KDelivery ''m1'' ''cli'', (0, RDelivery (dump_delivery (prepared sample_sink))))]"

lemma sample_message: "message_of log1 (said_row ''m1'' 0 ''user'' hello_doc) = Inr (said ''m1'' 0 ''user'' hello)"
proof -
  have "decode_body hello_doc = Inr hello"
    using decode_encode[of hello hello_doc] by (simp add: encode_samples) (simp add: hello_def)
  then show ?thesis using make_samples(1)
    by (simp add: message_of_def said_row_def log_after_def bound_log_def empty_log_def json_object_of_def)
qed

lemma sample_get: "get_message log1 ''s'' ''m1'' = Inr (Some (said ''m1'' 0 ''user'' hello))"
  using sample_message by (simp add: get_message_def log_after_def said_row_def)

lemma sample_prepare:
  "records_prepare ''o'' log1 ''s'' (said ''m1'' 0 ''user'' hello) [sample_sink] False [] = Inr (sample_selection, sample_rows)"
  using sample_get
  by (simp add: records_prepare_def check_message_def said_def read_selection_def row_read_def prepare_message_def row_save_def
      add_sink_def sample_selection_def sample_rows_def sample_sink_def Let_def)

lemma sample_delivery_reach: "delivery_step\<^sup>*\<^sup>* (empty_log, []) (log1, sample_rows)"
proof -
  have "delivery_step\<^sup>*\<^sup>* (empty_log, rows) (s, rows)" if "log_step\<^sup>*\<^sup>* empty_log s" for s rows
    using that by (induction rule: rtranclp_induct) (auto intro: delivery_step.log_grows rtranclp.rtrancl_into_rtrancl)
  then have "delivery_step\<^sup>*\<^sup>* (empty_log, []) (log1, [])" using sample_reach(1) by blast
  moreover have "delivery_step (log1, []) (log1, sample_rows)"
    by (rule delivery_step.prepares[OF _ sample_prepare]) (simp add: named_def sample_sink_def)
  ultimately show ?thesis by (rule rtranclp.rtrancl_into_rtrancl)
qed

section \<open>Records\<close>

text \<open>What was decided about a delivery stays: whatever operations run later, a message keeps its first
  selection, a delivery keeps its destination, versions only rise, and once it is delivered its
  receipt and confirmation time never change.\<close>

theorem delivery_facts_stay:
  assumes "delivery_step\<^sup>*\<^sup>* (empty_log, []) st" and "delivery_step\<^sup>*\<^sup>* st st'"
    and "row_read (snd st) (KDelivery mid sk) = Some row"
  shows "(\<exists>d. as_delivery (snd row) = Inr d)
    \<and> (\<exists>row'. row_read (snd st') (KDelivery mid sk) = Some row' \<and> moves row row')
    \<and> (\<exists>s. row_read (snd st) (KSelection mid) = Some (0, RSelection s)
          \<and> row_read (snd st') (KSelection mid) = Some (0, RSelection s))"
proof -
  have inv: "delivery_inv st" by (rule delivery_reach_inv[OF assms(1)])
  then have wf: "wf_rows (snd st)" by (simp add: delivery_inv_def)
  have m: "moves_rows (snd st) (snd st')" using delivery_steps_move[OF assms(2) inv] by blast
  have "row_wf (snd st) (KDelivery mid sk) row" using wf assms(3) unfolding wf_rows_def by blast
  then have d: "\<exists>d. as_delivery (snd row) = Inr d" by auto
  have sel: "row_read (snd st) (KSelection mid) \<noteq> None" by (rule delivery_selected[OF wf assms(3)])
  then obtain s where s: "row_read (snd st) (KSelection mid) = Some (0, RSelection s)"
    using selection_is[OF wf] by (cases "row_read (snd st) (KSelection mid)") force+
  then have "row_read (snd st') (KSelection mid) = Some (0, RSelection s)"
    using m unfolding moves_rows_def keeps_rows_def by simp
  then show ?thesis using d s m assms(3) unfolding moves_rows_def by blast
qed

lemma delivery_facts_stay_witness:
  "\<exists>row'. row_read sample_rows (KDelivery ''m1'' ''cli'') = Some row'
     \<and> moves (0, RDelivery (dump_delivery (prepared sample_sink))) row'"
proof -
  have "row_read sample_rows (KDelivery ''m1'' ''cli'') = Some (0, RDelivery (dump_delivery (prepared sample_sink)))"
    by (simp add: row_read_def sample_rows_def)
  then show ?thesis using delivery_facts_stay[OF sample_delivery_reach rtranclp.rtrancl_refl] by fastforce
qed

text \<open>A consumer takes the messages of a session in order, one by one: a message beyond its cursor is accepted
  only when it is the next one of the history, the cursor then stands on it, and a message at or
  before the cursor changes nothing.\<close>

theorem consume_in_order:
  assumes "delivery_step\<^sup>*\<^sup>* (empty_log, []) (log, rows)"
    and "records_consume owner log sid m sinks pas rows = Inr (sel, rows')" and "read_cursor owner rows sid = Inr cursor"
  shows "(m_seq m \<le> cursor \<and> rows' = rows)
    \<or> (\<exists>rest. filter (\<lambda>x. cursor < m_seq x) (session_history log sid) = m # rest
         \<and> read_cursor owner rows' sid = Inr (m_seq m) \<and> cursor < m_seq m)"
proof -
  have inv: "delivery_inv (log, rows)" by (rule delivery_reach_inv[OF assms(1)])
  then have wf: "wf_rows rows" and log: "wf_log log" by (simp_all add: delivery_inv_def)
  show ?thesis
  proof (rule consume_cases[OF assms(2) wf])
    fix c
    assume "read_cursor owner rows sid = Inr c" "m_seq m \<le> c" "rows' = rows"
    then show ?thesis using assms(3) by simp
  next
    fix c following r1
    assume c: "read_cursor owner rows sid = Inr c" "- 1 \<le> c" "c < m_seq m"
      and next': "read_range log sid c None None 1 = Inr (m # following)"
      and r': "\<exists>v. rows' = AList.update (KCursor owner sid) (v, RCursor (m_seq m)) r1 \<and> 0 \<le> v"
    have "c = cursor" using c(1) assms(3) by simp
    let ?H = "filter (\<lambda>x. cursor < m_seq x) (session_history log sid)"
    have "take 1 ?H = m # following"
      using read_range_history[OF log, of 1 c sid None None] c(2) next' \<open>c = cursor\<close> by simp
    then have "?H = m # tl ?H" by (cases ?H) simp_all
    moreover have "read_cursor owner rows' sid = Inr (m_seq m)"
      using r' c(2,3) by (auto simp: read_cursor_def row_read_update)
    ultimately show ?thesis using c(3) \<open>c = cursor\<close> by blast
  qed
qed

lemma sample_consume:
  "records_consume ''o'' log1 ''s'' (said ''m1'' 0 ''user'' hello) None False sample_rows
     = Inr (Some sample_selection, sample_rows @ [(KCursor ''o'' ''s'', (0, RCursor 0))])"
proof -
  have "read_range log1 ''s'' (- 1) None None 1 = Inr [said ''m1'' 0 ''user'' hello]"
    using sample_message by (simp add: read_range_def rows_between_def log_after_def said_row_def)
  then show ?thesis using sample_get
    by (simp add: records_consume_def check_message_def said_def read_cursor_def row_read_def sample_rows_def
        read_selection_def as_selection_def row_save_def Let_def)
qed

lemma consume_in_order_witness:
  "\<exists>rest. filter (\<lambda>x. - 1 < m_seq x) (session_history log1 ''s'') = said ''m1'' 0 ''user'' hello # rest"
proof -
  have "read_cursor ''o'' sample_rows ''s'' = Inr (- 1)" by (simp add: read_cursor_def row_read_def sample_rows_def)
  then show ?thesis using consume_in_order[OF sample_delivery_reach sample_consume] by (auto simp: said_def)
qed

text \<open>The work a restart resumes is complete and no more: in every reachable state the enumeration of pending
  deliveries succeeds and lists exactly the owner's deliveries that have no settled receipt.\<close>

theorem pending_complete:
  assumes "delivery_step\<^sup>*\<^sup>* (empty_log, []) (log, rows)"
  shows "\<exists>ps. records_pending owner fmt rows = Inr ps \<and> (\<forall>mid sk. (mid, sk) \<in> set ps \<longleftrightarrow> unsettled owner rows mid sk)"
  using records_pending_exact[OF delivery_reach_inv[OF assms]] delivery_reach_named[OF assms] by simp

lemma pending_complete_witness:
  "\<exists>ps. records_pending ''o'' (\<lambda>t. []) sample_rows = Inr ps \<and> (''m1'', ''cli'') \<in> set ps"
proof -
  have "unsettled ''o'' sample_rows ''m1'' ''cli''"
    using as_dumped[of "prepared sample_sink"]
    by (simp add: unsettled_def row_read_def sample_rows_def sample_selection_def settled_def) (simp add: prepared_def)
  then show ?thesis using pending_complete[OF sample_delivery_reach, of "''o''" "\<lambda>t. []"] by blast
qed

text \<open>The history of delivered messages is total and exact on every reachable state: it reads the confirmation
  index of the time window, latest first, over as many pages of 128 as it takes, and returns the
  first \<open>limit\<close> messages the query admits.\<close>

theorem recent_exact:
  assumes "delivery_step\<^sup>*\<^sup>* (empty_log, []) (log, rows)" and "since < until" and "1 \<le> limit" "limit \<le> 1000"
  shows "recent log q rows since until limit = Inr (take (nat limit) (row_hits log q (time_rows rows since (until, []))))
    \<and> sorted_wrt (\<lambda>a b. time_before (fst b) (fst a)) (time_rows rows since (until, []))
    \<and> (\<forall>e \<in> set (time_rows rows since (until, [])). since \<le> fst (fst e) \<and> fst (fst e) < until)"
proof -
  have inv: "delivery_inv (log, rows)" by (rule delivery_reach_inv[OF assms(1)])
  have "distinct (keys rows)" using inv by (simp add: delivery_inv_def wf_rows_def)
  then show ?thesis using recent_hits[OF inv assms(2-4)] time_rows_sorted[OF time_entries_distinct]
    by (auto simp: time_rows_set time_before_def)
qed

lemma recent_exact_witness: "recent log1 \<lparr>hq_excluded = [], hq_visibility = None\<rparr> sample_rows 0 10 5 = Inr []"
proof -
  have "time_rows sample_rows 0 (10, []) = []" by (simp add: time_rows_def time_entries_def sample_rows_def)
  then show ?thesis using recent_exact[OF sample_delivery_reach, of 0 10 5] by (simp add: row_hits_def)
qed

text \<open>A delivery that satisfies the receipt rule of its type is stored and read back unchanged; nothing else can
  be built: a settled phase has a receipt of that status, an open one none.\<close>

theorem delivery_stored:
  "mk_Delivery sk ph rc c = Inr d \<Longrightarrow> read_delivery (dump_delivery d) = Inr d
     \<and> (settled d \<longleftrightarrow> dl_receipt d \<noteq> None) \<and> (\<forall>r. dl_receipt d = Some r \<longrightarrow> dl_phase d = Settled (rc_status r))"
proof -
  assume "mk_Delivery sk ph rc c = Inr d"
  then have wf: "wf_delivery d" using mk_Delivery_wf by blast
  have "dl_phase d = Settled (rc_status r)" if "dl_receipt d = Some r" for r
    using wf that by (cases "dl_phase d") (auto simp: wf_delivery_def mk_Delivery_def receipt_mismatch_def split: if_splits)
  then show ?thesis using read_dump_delivery[OF wf] settled_receipt[OF wf] by blast
qed

lemma delivery_stored_witness:
  "read_delivery (dump_delivery (started (prepared sample_sink))) = Inr (started (prepared sample_sink))"
  using delivery_stored[of sample_sink Started None None "started (prepared sample_sink)"]
  by (simp add: mk_Delivery_def receipt_mismatch_def started_def prepared_def)

section \<open>Sending\<close>

text \<open>C6. Under crashes at any point, cancellations, retries and concurrent work on other records, a sender that
  cannot recognise a repeated key is called at most once per arming: the number of sends never
  exceeds the explicit retries plus one, and is at most the retries while the delivery waits to be
  sent.\<close>

theorem sends_at_most_once:
  assumes "(exec_step owner mid sk False)\<^sup>*\<^sup>* x y"
    and "x_pc x = Idle" "x_sends x = 0" "x_rearms x = 0" and "wf_rows (x_rows x)"
  shows "x_sends y \<le> x_rearms y + 1 \<and> (phase_at (x_rows y) mid sk = Some Prepared \<longrightarrow> x_sends y \<le> x_rearms y)"
proof -
  have "exec_inv mid sk False x" using assms by (simp add: exec_inv_def pc_ok_def)
  then have "exec_inv mid sk False y" by (rule exec_steps_inv[OF assms(1)])
  then show ?thesis by (auto simp: exec_inv_def split: if_splits)
qed

lemma sample_rows_wf: "wf_rows sample_rows"
  using delivery_reach_inv[OF sample_delivery_reach] by (simp add: delivery_inv_def)

text \<open>A run that sends: the process dies while the sender works, the delivery is taken up again, the sender knows
  nothing of the key, and the delivery is settled as failed without a second call.\<close>

abbreviation sample_delivery :: "delivery \<Rightarrow> delivery_row" where
  "sample_delivery d \<equiv> RDelivery (dump_delivery d)"

definition rows_at :: "int \<Rightarrow> delivery \<Rightarrow> delivery_rows" where
  "rows_at v d = [(KSelection ''m1'', (0, RSelection sample_selection)), (KDelivery ''m1'' ''cli'', (v, sample_delivery d))]"

lemma sample_prepared [simp]: "wf_delivery (prepared sample_sink)" "dl_sink (prepared sample_sink) = sample_sink"
  "sk_name sample_sink = ''cli''" "dl_phase (prepared sample_sink) = Prepared"
  by (simp_all add: prepared_def wf_delivery_def mk_Delivery_def receipt_mismatch_def sample_sink_def)

lemma rows_at_read [simp]: "row_read (rows_at v d) (KDelivery ''m1'' ''cli'') = Some (v, sample_delivery d)"
  "row_read (rows_at v d) (KSelection ''m1'') = Some (0, RSelection sample_selection)"
  by (simp_all add: row_read_def rows_at_def)

lemma rows_at_begin: "wf_delivery d \<Longrightarrow> \<not> settled d \<Longrightarrow> dl_sink d = sample_sink \<Longrightarrow> send_begin ''o'' log1 (rows_at v d) ''m1'' ''cli'' = Waiting"
  "wf_delivery d \<Longrightarrow> \<not> settled d \<Longrightarrow> dl_sink d = sample_sink \<Longrightarrow> send_reread ''o'' (rows_at v d) ''m1'' ''cli'' True = Opening (v, sample_delivery d) d"
  using sample_get
  by (simp_all add: send_begin_def send_reread_def records_read_def check_owner_def read_selection_def as_selection_def as_dumped sample_selection_def)

lemma rows_at_save:
  assumes "wf_delivery d" "wf_delivery e" "dl_sink e = sample_sink" "dl_sink d = sample_sink" "dl_confirmed e = None"
    "dl_phase d \<noteq> Settled RDelivered" "dl_phase e \<noteq> Settled RDelivered"
  shows "records_save ''o'' 5 ''m1'' (v, sample_delivery d) e (rows_at v d) = Inr (v + 1, rows_at (v + 1) e)"
  using assms
  by (simp add: records_save_def check_owner_def read_selection_def as_selection_def as_dumped sample_selection_def row_save_def rows_at_def
      row_read_def Let_def)

abbreviation exec_at :: "send_pc \<Rightarrow> delivery_rows \<Rightarrow> nat \<Rightarrow> exec_state" where
  "exec_at pc rows n \<equiv> \<lparr>x_pc = pc, x_rows = rows, x_active = True, x_sends = n, x_rearms = 0\<rparr>"

lemma sample_sends:
  "(exec_step ''o'' ''m1'' ''cli'' False)\<^sup>*\<^sup>* (exec_at Idle sample_rows 0) (exec_at Idle (rows_at 1 (started (prepared sample_sink))) 1)"
proof -
  let ?p = "prepared sample_sink" and ?s = "started (prepared sample_sink)"
  let ?R = "(exec_step ''o'' ''m1'' ''cli'' False)\<^sup>*\<^sup>* (exec_at Idle sample_rows 0)"
  note run = rtranclp.rtrancl_into_rtrancl
  have rows: "sample_rows = rows_at 0 ?p" by (simp add: sample_rows_def rows_at_def)
  have confirmed: "dl_confirmed ?s = None" by (simp add: started_def)
  have open': "\<not> settled ?p" "\<not> settled ?s" by (simp_all add: settled_def prepared_def started_def)
  have "?R (exec_at Idle (rows_at 0 ?p) 0)" by (simp add: rows)
  moreover have "exec_step ''o'' ''m1'' ''cli'' False (exec_at Idle (rows_at 0 ?p) 0) (exec_at Waiting (rows_at 0 ?p) 0)"
    using exec_step.begins[of "exec_at Idle (rows_at 0 ?p) 0" "''o''" "''m1''" "''cli''" False log1] by (simp add: running_def rows_at_begin open')
  ultimately have "?R (exec_at Waiting (rows_at 0 ?p) 0)" by (rule run)
  moreover have "exec_step ''o'' ''m1'' ''cli'' False (exec_at Waiting (rows_at 0 ?p) 0) (exec_at (Opening (0, sample_delivery ?p) ?p) (rows_at 0 ?p) 0)"
    using exec_step.rereads[of "exec_at Waiting (rows_at 0 ?p) 0" "''o''" "''m1''" "''cli''" False] by (simp add: rows_at_begin open')
  ultimately have "?R (exec_at (Opening (0, sample_delivery ?p) ?p) (rows_at 0 ?p) 0)" by (rule run)
  moreover have "exec_step ''o'' ''m1'' ''cli'' False (exec_at (Opening (0, sample_delivery ?p) ?p) (rows_at 0 ?p) 0)
      (exec_at (Sending (1, sample_delivery ?s) ?s) (rows_at 1 ?s) 1)"
    using exec_step.opens[of "exec_at (Opening (0, sample_delivery ?p) ?p) (rows_at 0 ?p) 0" "(0, sample_delivery ?p)" ?p "''o''" "''m1''" "''cli''" False 5 None]
      rows_at_save[of ?p ?s 0] confirmed
    by (simp add: send_opened_def send_go_def moved_def)
  ultimately have "?R (exec_at (Sending (1, sample_delivery ?s) ?s) (rows_at 1 ?s) 1)" by (rule run)
  moreover have "exec_step ''o'' ''m1'' ''cli'' False (exec_at (Sending (1, sample_delivery ?s) ?s) (rows_at 1 ?s) 1) (exec_at Idle (rows_at 1 ?s) 1)"
    using exec_step.crashes[of "''o''" "''m1''" "''cli''" False "exec_at (Sending (1, sample_delivery ?s) ?s) (rows_at 1 ?s) 1"] by simp
  ultimately show ?thesis by (rule run)
qed

lemma sample_gives_up:
  "(exec_step ''o'' ''m1'' ''cli'' False)\<^sup>*\<^sup>* (exec_at Idle sample_rows 0) (exec_at (Returned (fault RFailed interrupted)) (rows_at 2 (settle (started (prepared sample_sink)) (fault RFailed interrupted))) 1)"
proof -
  let ?p = "prepared sample_sink" and ?s = "started (prepared sample_sink)"
  let ?f = "settle ?s (fault RFailed interrupted)" and ?R = "(exec_step ''o'' ''m1'' ''cli'' False)\<^sup>*\<^sup>* (exec_at Idle sample_rows 0)"
  note run = rtranclp.rtrancl_into_rtrancl
  have confirmed: "dl_confirmed ?f = None" by (simp add: settle_def)
  have open': "\<not> settled ?s" by (simp add: settled_def started_def)
  note sample_sends
  moreover have "exec_step ''o'' ''m1'' ''cli'' False (exec_at Idle (rows_at 1 ?s) 1) (exec_at Waiting (rows_at 1 ?s) 1)"
    using exec_step.begins[of "exec_at Idle (rows_at 1 ?s) 1" "''o''" "''m1''" "''cli''" False log1] by (simp add: running_def rows_at_begin open')
  ultimately have "?R (exec_at Waiting (rows_at 1 ?s) 1)" by (rule run)
  moreover have "exec_step ''o'' ''m1'' ''cli'' False (exec_at Waiting (rows_at 1 ?s) 1) (exec_at (Opening (1, sample_delivery ?s) ?s) (rows_at 1 ?s) 1)"
    using exec_step.rereads[of "exec_at Waiting (rows_at 1 ?s) 1" "''o''" "''m1''" "''cli''" False] by (simp add: rows_at_begin open')
  ultimately have "?R (exec_at (Opening (1, sample_delivery ?s) ?s) (rows_at 1 ?s) 1)" by (rule run)
  moreover have "exec_step ''o'' ''m1'' ''cli'' False (exec_at (Opening (1, sample_delivery ?s) ?s) (rows_at 1 ?s) 1)
      (exec_at (Querying (1, sample_delivery ?s) ?s) (rows_at 1 ?s) 1)"
    using exec_step.opens[of "exec_at (Opening (1, sample_delivery ?s) ?s) (rows_at 1 ?s) 1" "(1, sample_delivery ?s)" ?s "''o''" "''m1''" "''cli''" False 5 None]
    by (simp add: send_opened_def moved_def)
  ultimately have "?R (exec_at (Querying (1, sample_delivery ?s) ?s) (rows_at 1 ?s) 1)" by (rule run)
  moreover have "exec_step ''o'' ''m1'' ''cli'' False (exec_at (Querying (1, sample_delivery ?s) ?s) (rows_at 1 ?s) 1)
      (exec_at (Returned (fault RFailed interrupted)) (rows_at 2 ?f) 1)"
    using exec_step.queries[of "exec_at (Querying (1, sample_delivery ?s) ?s) (rows_at 1 ?s) 1" "(1, sample_delivery ?s)" ?s "''o''" "''m1''" "''cli''" False 5 None "Inr None"]
      rows_at_save[of ?s ?f 1] confirmed
    by (simp add: send_queried_def settle_row_def moved_def fault_def)
  ultimately show ?thesis by (rule run)
qed

lemma sends_at_most_once_witness:
  "\<exists>y. (exec_step ''o'' ''m1'' ''cli'' False)\<^sup>*\<^sup>* (exec_at Idle sample_rows 0) y
     \<and> x_sends y = 1 \<and> x_sends y \<le> x_rearms y + 1 \<and> phase_at (x_rows y) ''m1'' ''cli'' = Some (Settled RFailed)"
proof -
  let ?f = "settle (started (prepared sample_sink)) (fault RFailed interrupted)"
  let ?y = "exec_at (Returned (fault RFailed interrupted)) (rows_at 2 ?f) 1"
  have "phase_at (rows_at 2 ?f) ''m1'' ''cli'' = Some (Settled RFailed)"
    by (simp add: phase_at_def as_dumped) (simp add: fault_def)
  moreover have "x_sends ?y \<le> x_rearms ?y + 1" using sends_at_most_once[OF sample_gives_up] sample_rows_wf by simp
  ultimately show ?thesis using sample_gives_up by (intro exI[of _ ?y]) simp
qed

lemma settle_returned:
  assumes wf: "wf_rows rows" and h: "held rows mid sk row d" and "settle_row owner now mid row d r rows = (Returned r', rows')"
  shows "\<exists>v z d'. row_read rows' (KDelivery mid sk) = Some (v, z) \<and> as_delivery z = Inr d' \<and> dl_receipt d' = Some r'"
proof -
  obtain v where s: "records_save owner now mid row (settle d r) rows = Inr (v, rows')" and r: "r' = r"
    using assms(3) by (auto simp: settle_row_def split: sum.splits)
  have "as_delivery (RDelivery (dump_delivery (confirm_now now d (settle d r)))) = Inr (confirm_now now d (settle d r))"
    using save_held[OF wf h settle_wf(1,2) s] as_dumped by blast
  then show ?thesis using save_held[OF wf h settle_wf(1,2) s] r confirm_now_facts(4)[of now d "settle d r"] by auto
qed

lemma go_returned:
  "send_go owner now mid row d active check rows = (Returned r, rows') \<Longrightarrow> \<exists>reason. settle_row owner now mid row d reason rows = (Returned r, rows')"
  by (auto simp: send_go_def Let_def split: if_splits sum.splits option.splits)

lemma read_returned:
  assumes "records_read owner rows mid sk = Inr (row, d)" and "settled_result d = Returned r"
  shows "\<exists>v z d'. row_read rows (KDelivery mid sk) = Some (v, z) \<and> as_delivery z = Inr d' \<and> dl_receipt d' = Some r"
  using assms by (cases row) (auto simp: records_read_def res_simps settled_result_def split: option.splits if_splits)

text \<open>A result is durable before it is known: when sending returns a receipt, the stored delivery already holds
  that receipt.\<close>

theorem returned_receipt_stored:
  assumes "exec_step owner mid sk idem x y" and "exec_inv mid sk idem x" and "x_pc y = Returned r" and "x_pc x \<noteq> Returned r"
  shows "\<exists>v z d. row_read (x_rows y) (KDelivery mid sk) = Some (v, z) \<and> as_delivery z = Inr d \<and> dl_receipt d = Some r"
  using assms(1)
proof cases
  case (begins lg)
  then have b: "send_begin owner lg (x_rows x) mid sk = Returned r" using assms(3) by simp
  obtain row d where "records_read owner (x_rows x) mid sk = Inr (row, d)" "settled_result d = Returned r"
    using b by (auto simp: send_begin_def split: sum.splits prod.splits if_splits option.splits)
  then show ?thesis using read_returned begins by simp
next
  case rereads
  then have b: "send_reread owner (x_rows x) mid sk (x_active x) = Returned r" using assms(3) by simp
  obtain row d where "records_read owner (x_rows x) mid sk = Inr (row, d)" "settled_result d = Returned r"
    using b by (auto simp: send_reread_def split: sum.splits prod.splits if_splits)
  then show ?thesis using read_returned rereads by simp
next
  case (opens row d tm check)
  then have wf: "wf_rows (x_rows x)" and h: "held (x_rows x) mid sk row d" using assms(2) by (simp_all add: exec_inv_def pc_ok_def)
  obtain rows' where s: "send_opened owner tm mid row d (x_active x) check (x_rows x) = (Returned r, rows')" "x_rows y = rows'"
    using opens assms(3) by (auto simp: moved_def prod_eq_iff)
  then show ?thesis using settle_returned[OF wf h] go_returned[of owner tm mid row d "x_active x" check "x_rows x" r rows']
    by (auto simp: send_opened_def split: if_splits)
next
  case (queries row d tm check found)
  then have wf: "wf_rows (x_rows x)" and h: "held (x_rows x) mid sk row d" using assms(2) by (simp_all add: exec_inv_def pc_ok_def)
  obtain rows' where s: "send_queried owner tm mid row d (x_active x) check idem found (x_rows x) = (Returned r, rows')" "x_rows y = rows'"
    using queries assms(3) by (auto simp: moved_def prod_eq_iff)
  then show ?thesis using settle_returned[OF wf h] go_returned[of owner tm mid row d "x_active x" check "x_rows x" r rows']
    by (auto simp: send_queried_def split: if_splits sum.splits option.splits)
next
  case (answers row d tm response)
  then have wf: "wf_rows (x_rows x)" and h: "held (x_rows x) mid sk row d" using assms(2) by (simp_all add: exec_inv_def pc_ok_def)
  obtain rows' where s: "send_done owner tm mid row d response (x_rows x) = (Returned r, rows')" "x_rows y = rows'"
    using answers assms(3) by (auto simp: moved_def prod_eq_iff)
  then show ?thesis using settle_returned[OF wf h] by (auto simp: send_done_def split: sum.splits)
qed (use assms(3,4) in auto)

definition settled_rows :: delivery_rows where
  "settled_rows = [(KSelection ''m1'', (0, RSelection sample_selection)),
     (KDelivery ''m1'' ''cli'', (1, RDelivery (dump_delivery (settle (prepared sample_sink) (fault RFailed ''x'')))))]"

lemma returned_receipt_stored_witness:
  "\<exists>v z d. row_read settled_rows (KDelivery ''m1'' ''cli'') = Some (v, z) \<and> as_delivery z = Inr d
     \<and> dl_receipt d = Some (fault RFailed ''x'')"
proof -
  let ?x = "\<lparr>x_pc = Idle, x_rows = settled_rows, x_active = True, x_sends = 0, x_rearms = 1\<rparr>"
  let ?d = "settle (prepared sample_sink) (fault RFailed ''x'')"
  have d: "as_delivery (RDelivery (dump_delivery ?d)) = Inr ?d" by (rule as_dumped) simp
  have sk: "sk_name (dl_sink ?d) = ''cli''" by (simp add: prepared_def sample_sink_def)
  have "wf_rows settled_rows"
    using d sk by (auto simp: wf_rows_def settled_rows_def row_read_def split: if_splits)
  then have inv: "exec_inv ''m1'' ''cli'' False ?x" by (simp add: exec_inv_def pc_ok_def)
  have "send_begin ''o'' log1 settled_rows ''m1'' ''cli'' = Returned (fault RFailed ''x'')"
    using d sk by (simp add: send_begin_def records_read_def check_owner_def read_selection_def as_selection_def row_read_def
        settled_rows_def sample_selection_def settled_def settled_result_def)
  then have "exec_step ''o'' ''m1'' ''cli'' False ?x (?x\<lparr>x_pc := Returned (fault RFailed ''x'')\<rparr>)"
    using exec_step.begins[of ?x "''o''" "''m1''" "''cli''" False log1] by (simp add: running_def)
  from returned_receipt_stored[OF this inv] show ?thesis by simp
qed

end
