(* ===== verification/Durable_Store.thy ===== *)
theory Durable_Store
  imports Artifacts
begin

text \<open>
  \<open>agent/plugin_composition/durable_delivery_store.py\<close>: the ledger of durable deliveries, one table
  of immutable envelopes with a forward-only state.

  A row is its envelope extended by the columns a transition sets, in the order of the table; the
  two JSON columns are parsed documents, \<open>metadata_json\<close> in the sorted form the store writes, so
  that equal columns are equal documents. Every public operation checks its arguments, then runs in
  one transaction: on a read-only store a writing transaction is refused, an exception rolls back
  (the result carries no rows). The schema admission of the database file (\<open>user_version\<close>,
  \<open>sqlite_master\<close>) is not modelled: the file is on the current schema. A metadata value that is no
  JSON document (a NaN, a nested key that is not text) is refused here, where \<open>json.dumps\<close> may
  still write a text for it. Time is the ISO text \<open>now\<close>.
\<close>

section \<open>Rows\<close>

datatype durable_state =
    DPrepared
  | DProviderStarted
  | DDelivered
  | DProjected
  | DSettled
  | DRejected
  | DFailed

record envelope =
  en_id :: string
  en_session :: string
  en_turn :: string
  en_service :: string
  en_channel :: string
  en_recipient :: string
  en_projection :: string
  en_body :: string
  en_metadata :: json

record durable_row = envelope +
  dr_state :: durable_state
  dr_attempt :: "string option"
  dr_snapshot :: "string option"
  dr_generation :: "string option"
  dr_binding :: "string option"
  dr_receipt :: "json option"
  dr_message :: "string option"
  dr_domain :: "string option"
  dr_created :: string
  dr_updated :: string

type_synonym durable_rows = "durable_row list"

section \<open>Checks\<close>

fun identity :: "pyval \<Rightarrow> string res" where
  "identity (VStr s) = (if s = [] \<or> \<not> stripped s then Inl ValueError else Inr s)"
| "identity _ = Inl ValueError"

definition envelope_get :: "(string \<times> pyval) list \<Rightarrow> string \<Rightarrow> pyval" where
  "envelope_get e k = (case map_of e k of None \<Rightarrow> VNone | Some v \<Rightarrow> v)"

fun text_keyed :: "pyval \<Rightarrow> bool" where
  "text_keyed (VMap kvs) = list_all (\<lambda>p. key_is_str (fst p)) kvs"
| "text_keyed _ = False"

fun nonempty_text :: "pyval \<Rightarrow> string res" where
  "nonempty_text (VStr s) = (if s = [] then Inl ValueError else Inr s)"
| "nonempty_text _ = Inl ValueError"

definition dumped :: "pyval \<Rightarrow> json res" where
  "dumped v = bindR (freeze_json v) (\<lambda>j. Inr (json_sorted j))"

definition normalize_envelope :: "(string \<times> pyval) list \<Rightarrow> envelope res" where
  "normalize_envelope e =
     bindR (ensure (text_keyed (envelope_get e ''metadata'')) ValueError) (\<lambda>_.
     bindR (identity (envelope_get e ''logical_delivery_id'')) (\<lambda>i.
     bindR (identity (envelope_get e ''accepted_session_id'')) (\<lambda>s.
     bindR (identity (envelope_get e ''accepted_turn_id'')) (\<lambda>t.
     bindR (identity (envelope_get e ''target_service'')) (\<lambda>sv.
     bindR (identity (envelope_get e ''channel'')) (\<lambda>c.
     bindR (identity (envelope_get e ''recipient'')) (\<lambda>r.
     bindR (identity (envelope_get e ''projection_session_id'')) (\<lambda>p.
     bindR (nonempty_text (envelope_get e ''body'')) (\<lambda>b.
     bindR (dumped (envelope_get e ''metadata'')) (\<lambda>m.
     Inr \<lparr>en_id = i, en_session = s, en_turn = t, en_service = sv, en_channel = c, en_recipient = r,
          en_projection = p, en_body = b, en_metadata = m\<rparr>))))))))))"

section \<open>Transactions\<close>

definition writing :: "bool \<Rightarrow> 'a res \<Rightarrow> 'a res" where
  "writing ro act = (if ro then Inl PermissionError else act)"

definition required :: "durable_rows \<Rightarrow> string \<Rightarrow> durable_row res" where
  "required rows lid =
     (case find (\<lambda>r. en_id r = lid) rows of None \<Rightarrow> Inl RuntimeError | Some r \<Rightarrow> Inr r)"

text \<open>An UPDATE that must change exactly one row, then the row as stored.\<close>

definition update_rows :: "(durable_row \<Rightarrow> bool) \<Rightarrow> (durable_row \<Rightarrow> durable_row) \<Rightarrow> durable_rows \<Rightarrow> durable_rows \<times> nat" where
  "update_rows P f rows = (map (\<lambda>r. if P r then f r else r) rows, length (filter P rows))"

definition transition ::
  "bool \<Rightarrow> string \<Rightarrow> (durable_row \<Rightarrow> bool) \<Rightarrow> (durable_row \<Rightarrow> durable_row) \<Rightarrow> durable_rows
     \<Rightarrow> (durable_row \<times> durable_rows) res" where
  "transition ro lid P f rows = writing ro
     (let (rows', n) = update_rows (\<lambda>r. en_id r = lid \<and> P r) f rows in
      if n \<noteq> 1 then Inl RuntimeError
      else bindR (required rows' lid) (\<lambda>row. Inr (row, rows')))"

definition akashic :: string where
  "akashic = ''akashic''"

section \<open>Operations\<close>

definition interrupted_receipt :: json where
  "interrupted_receipt = JObj [(''error'', JStr ''provider call interrupted; delivery may have occurred''),
     (''status'', JStr ''failed'')]"

definition recover_interrupted :: "bool \<Rightarrow> string \<Rightarrow> durable_rows \<Rightarrow> (nat \<times> durable_rows) res" where
  "recover_interrupted ro now rows = writing ro
     (let (rows', n) = update_rows (\<lambda>r. dr_state r = DProviderStarted \<and> en_channel r \<noteq> akashic)
            (\<lambda>r. r\<lparr>dr_state := DFailed, dr_receipt := Some interrupted_receipt, dr_updated := now\<rparr>) rows in
      Inr (n, rows'))"

definition recovered_receipt :: "string \<Rightarrow> json" where
  "recovered_receipt lid = JObj [(''delivery_id'', JStr lid), (''recovered_from'', JStr ''session''),
     (''status'', JStr ''delivered'')]"

definition mark_recovered ::
  "bool \<Rightarrow> string \<Rightarrow> string \<Rightarrow> string \<Rightarrow> durable_rows \<Rightarrow> (durable_row \<times> durable_rows) res" where
  "mark_recovered ro now logical_id message_id rows =
     bindR (identity (VStr logical_id)) (\<lambda>lid.
     bindR (identity (VStr message_id)) (\<lambda>mid.
     transition ro lid (\<lambda>r. dr_state r = DProviderStarted \<and> en_channel r = akashic)
       (\<lambda>r. r\<lparr>dr_state := DProjected, dr_receipt := Some (recovered_receipt lid),
             dr_message := Some mid, dr_updated := now\<rparr>) rows))"

definition lookup_identity :: "durable_rows \<Rightarrow> envelope \<Rightarrow> durable_row option res" where
  "lookup_identity rows e =
     (case filter (\<lambda>r. en_id r = en_id e \<or> en_session r = en_session e \<and> en_turn r = en_turn e) rows of
        [] \<Rightarrow> Inr None
      | [r] \<Rightarrow> Inr (Some r)
      | _ \<Rightarrow> Inl RuntimeError)"

text \<open>Every column of the envelope must be equal.\<close>

definition assert_same_envelope :: "durable_row \<Rightarrow> envelope \<Rightarrow> unit res" where
  "assert_same_envelope r e = ensure (envelope.truncate r = e) RuntimeError"

definition new_row :: "envelope \<Rightarrow> string \<Rightarrow> durable_row" where
  "new_row e now = envelope.extend e (durable_row.fields DPrepared None None None None None None None now now)"

definition insert_row :: "envelope \<Rightarrow> string \<Rightarrow> durable_rows \<Rightarrow> durable_rows res" where
  "insert_row e now rows =
     bindR (ensure (\<not> list_ex (\<lambda>r. en_id r = en_id e \<or> en_session r = en_session e \<and> en_turn r = en_turn e) rows)
       IntegrityError) (\<lambda>_. Inr (rows @ [new_row e now]))"

definition prepare_row :: "bool \<Rightarrow> string \<Rightarrow> envelope \<Rightarrow> durable_rows \<Rightarrow> (durable_row \<times> durable_rows) res" where
  "prepare_row ro now e rows = writing ro
     (bindR (lookup_identity rows e) (\<lambda>existing. case existing of
        Some r \<Rightarrow> bindR (assert_same_envelope r e) (\<lambda>_. Inr (r, rows))
      | None \<Rightarrow> bindR (insert_row e now rows) (\<lambda>rows'.
          bindR (required rows' (en_id e)) (\<lambda>r. Inr (r, rows')))))"

definition prepare ::
  "bool \<Rightarrow> string \<Rightarrow> (string \<times> pyval) list \<Rightarrow> durable_rows \<Rightarrow> (durable_row \<times> durable_rows) res" where
  "prepare ro now e rows = bindR (normalize_envelope e) (\<lambda>n. prepare_row ro now n rows)"

definition mark_provider_started ::
  "bool \<Rightarrow> string \<Rightarrow> string \<Rightarrow> string \<times> string \<times> string \<times> string \<Rightarrow> durable_rows
     \<Rightarrow> (durable_row \<times> durable_rows) res" where
  "mark_provider_started ro now logical_id attempt rows =
     (case attempt of (attempt_id, snapshot_id, generation_id, binding_token) \<Rightarrow>
     bindR (identity (VStr logical_id)) (\<lambda>lid.
     bindR (identity (VStr attempt_id)) (\<lambda>a.
     bindR (identity (VStr snapshot_id)) (\<lambda>s.
     bindR (identity (VStr generation_id)) (\<lambda>g.
     bindR (identity (VStr binding_token)) (\<lambda>b.
     transition ro lid (\<lambda>r. dr_state r = DPrepared)
       (\<lambda>r. r\<lparr>dr_state := DProviderStarted, dr_attempt := Some a, dr_snapshot := Some s,
             dr_generation := Some g, dr_binding := Some b, dr_updated := now\<rparr>) rows))))))"

definition cancel_receipt :: "string \<Rightarrow> json" where
  "cancel_receipt reason = JObj [(''error'', JStr reason), (''provider_started'', JBool False),
     (''status'', JStr ''rejected'')]"

definition cancel_prepared_row ::
  "bool \<Rightarrow> string \<Rightarrow> string \<Rightarrow> string \<Rightarrow> durable_rows \<Rightarrow> (durable_row \<times> durable_rows) res" where
  "cancel_prepared_row ro now logical_id reason rows =
     bindR (identity (VStr logical_id)) (\<lambda>lid.
     bindR (ensure (reason \<noteq> [] \<and> stripped reason) ValueError) (\<lambda>_.
     transition ro lid (\<lambda>r. dr_state r = DPrepared)
       (\<lambda>r. r\<lparr>dr_state := DRejected, dr_receipt := Some (cancel_receipt reason), dr_updated := now\<rparr>) rows))"

definition mark_provider_result ::
  "bool \<Rightarrow> string \<Rightarrow> string \<Rightarrow> durable_state \<Rightarrow> json_object \<Rightarrow> durable_rows \<Rightarrow> (durable_row \<times> durable_rows) res" where
  "mark_provider_result ro now logical_id state receipt rows =
     bindR (ensure (state \<in> {DDelivered, DRejected, DFailed}) ValueError) (\<lambda>_.
     bindR (identity (VStr logical_id)) (\<lambda>lid.
     transition ro lid (\<lambda>r. dr_state r = DProviderStarted)
       (\<lambda>r. r\<lparr>dr_state := state, dr_receipt := Some (json_sorted (JObj receipt)), dr_updated := now\<rparr>) rows))"

definition mark_projected ::
  "bool \<Rightarrow> string \<Rightarrow> string \<Rightarrow> string \<Rightarrow> durable_rows \<Rightarrow> (durable_row \<times> durable_rows) res" where
  "mark_projected ro now logical_id message_id rows =
     bindR (identity (VStr logical_id)) (\<lambda>lid.
     bindR (identity (VStr message_id)) (\<lambda>mid.
     transition ro lid (\<lambda>r. dr_state r = DDelivered)
       (\<lambda>r. r\<lparr>dr_state := DProjected, dr_message := Some mid, dr_updated := now\<rparr>) rows))"

definition confirm_settled ::
  "bool \<Rightarrow> string \<Rightarrow> string \<Rightarrow> string \<Rightarrow> durable_rows \<Rightarrow> (durable_row \<times> durable_rows) res" where
  "confirm_settled ro now settlement_ref domain_receipt rows =
     bindR (identity (VStr settlement_ref)) (\<lambda>lid.
     bindR (identity (VStr domain_receipt)) (\<lambda>opaque.
     writing ro (bindR (required rows lid) (\<lambda>row.
       if dr_state row = DSettled
       then (if dr_domain row \<noteq> Some opaque then Inl RuntimeError else Inr (row, rows))
       else transition ro lid (\<lambda>r. dr_state r = DProjected)
              (\<lambda>r. r\<lparr>dr_state := DSettled, dr_domain := Some opaque, dr_updated := now\<rparr>) rows))))"

definition durable_lookup :: "durable_rows \<Rightarrow> string \<Rightarrow> string \<Rightarrow> durable_row option res" where
  "durable_lookup rows session turn =
     bindR (identity (VStr session)) (\<lambda>s.
     bindR (identity (VStr turn)) (\<lambda>t.
     Inr (find (\<lambda>r. en_session r = s \<and> en_turn r = t) rows)))"

definition forward_progress :: "durable_row \<Rightarrow> bool" where
  "forward_progress r \<longleftrightarrow> dr_state r \<in> {DPrepared, DDelivered, DProjected}
     \<or> dr_state r = DProviderStarted \<and> en_channel r = akashic"

definition recoverable :: "durable_rows \<Rightarrow> durable_rows" where
  "recoverable rows = sort_key dr_created (sort_key en_id (filter forward_progress rows))"

definition forward_targets :: "durable_rows \<Rightarrow> string set" where
  "forward_targets rows = set (map en_service (filter forward_progress rows))"

section \<open>The ledger as a map\<close>

text \<open>
  The abstract ledger maps a logical delivery to its row. On a table whose identifiers are
  distinct every transition is an update of that map at one key, guarded by its state.
\<close>

definition ledger :: "durable_rows \<Rightarrow> string \<Rightarrow> durable_row option" where
  "ledger rows lid = find (\<lambda>r. en_id r = lid) rows"

definition unique_rows :: "durable_rows \<Rightarrow> bool" where
  "unique_rows rows \<longleftrightarrow> distinct (map en_id rows) \<and> distinct (map (\<lambda>r. (en_session r, en_turn r)) rows)"

definition same_envelope :: "(durable_row \<Rightarrow> durable_row) \<Rightarrow> bool" where
  "same_envelope f \<longleftrightarrow> (\<forall>r. envelope.truncate (f r) = envelope.truncate r)"

lemma same_envelope_fields:
  assumes "same_envelope f"
  shows "en_id (f r) = en_id r" "en_session (f r) = en_session r" "en_turn (f r) = en_turn r"
    "en_channel (f r) = en_channel r" "en_service (f r) = en_service r"
  using assms[unfolded same_envelope_def, rule_format, of r]
  by (simp_all add: envelope.truncate_def)

lemma ledger_in: "ledger rows lid = Some r \<Longrightarrow> r \<in> set rows \<and> en_id r = lid"
  unfolding ledger_def by (rule find_Some_iff')

lemma ledger_of: "unique_rows rows \<Longrightarrow> r \<in> set rows \<Longrightarrow> ledger rows (en_id r) = Some r"
  unfolding ledger_def unique_rows_def by (rule find_unique) auto

lemma ledger_None: "ledger rows lid = None \<longleftrightarrow> (\<forall>r \<in> set rows. en_id r \<noteq> lid)"
  by (simp add: ledger_def find_None_iff')

lemma ledger_append: "ledger (rows @ [r]) lid = (case ledger rows lid of None \<Rightarrow> if en_id r = lid then Some r else None | Some x \<Rightarrow> Some x)"
  by (auto simp: ledger_def find_append split: option.split)

lemma unique_rows_map:
  assumes "same_envelope f"
  shows "unique_rows (map (\<lambda>r. if P r then f r else r) rows) = unique_rows rows"
proof -
  have "map en_id (map (\<lambda>r. if P r then f r else r) rows) = map en_id rows"
    and "map (\<lambda>r. (en_session r, en_turn r)) (map (\<lambda>r. if P r then f r else r) rows)
      = map (\<lambda>r. (en_session r, en_turn r)) rows"
    using same_envelope_fields[OF assms] by simp_all
  then show ?thesis unfolding unique_rows_def by (simp only:)
qed

lemma ledger_map:
  assumes "\<And>r. en_id (f r) = en_id r"
  shows "ledger (map f rows) lid = map_option f (ledger rows lid)"
  using assms by (induction rows) (auto simp: ledger_def)

lemma filter_unique:
  assumes "unique_rows rows"
  shows "filter (\<lambda>r. en_id r = lid \<and> P r) rows =
    (case ledger rows lid of None \<Rightarrow> [] | Some r \<Rightarrow> if P r then [r] else [])"
  using assms
proof (induction rows)
  case (Cons x xs)
  then have IH: "filter (\<lambda>r. en_id r = lid \<and> P r) xs =
      (case ledger xs lid of None \<Rightarrow> [] | Some r \<Rightarrow> if P r then [r] else [])"
    by (simp add: unique_rows_def)
  show ?case
  proof (cases "en_id x = lid")
    case True
    with Cons.prems have "ledger xs lid = None"
      by (auto simp: ledger_None unique_rows_def image_iff)
    then show ?thesis using True IH by (simp add: ledger_def)
  next
    case False
    then show ?thesis using IH by (simp add: ledger_def)
  qed
qed (simp add: ledger_def)

lemma transition_cases:
  assumes "unique_rows rows" and f: "same_envelope f"
  shows "transition ro lid P f rows =
    (if ro then Inl PermissionError
     else case ledger rows lid of
            None \<Rightarrow> Inl RuntimeError
          | Some r \<Rightarrow> if \<not> P r then Inl RuntimeError
                      else Inr (f r, map (\<lambda>r. if en_id r = lid then f r else r) rows))"
proof (cases "ledger rows lid")
  case None
  then show ?thesis
    by (simp add: transition_def writing_def update_rows_def filter_unique[OF assms(1)])
next
  case (Some r)
  have id: "\<And>x. en_id (if en_id x = lid \<and> P x then f x else x) = en_id x"
    using same_envelope_fields[OF f] by simp
  have "ledger (map (\<lambda>r. if en_id r = lid \<and> P r then f r else r) rows) lid = Some (if P r then f r else r)"
    using ledger_map[OF id, of rows lid] Some ledger_in[OF Some] by simp
  then have req: "P r \<Longrightarrow> required (map (\<lambda>r. if en_id r = lid \<and> P r then f r else r) rows) lid = Inr (f r)"
    by (simp add: required_def ledger_def)
  have "map (\<lambda>r. if en_id r = lid \<and> P r then f r else r) rows = map (\<lambda>r. if en_id r = lid then f r else r) rows"
    if "P r"
  proof (rule map_cong[OF refl])
    fix x assume "x \<in> set rows"
    then have "en_id x = lid \<Longrightarrow> x = r" using ledger_of[OF assms(1), of x] Some by simp
    then show "(if en_id x = lid \<and> P x then f x else x) = (if en_id x = lid then f x else x)"
      using that by auto
  qed
  then show ?thesis using Some req
    by (simp add: transition_def writing_def update_rows_def filter_unique[OF assms(1)])
qed

lemma transition_Inr:
  assumes "unique_rows rows" and "same_envelope f"
    and "transition ro lid P f rows = Inr (v, rows')"
  obtains r where "\<not> ro" "ledger rows lid = Some r" "P r" "v = f r"
    "rows' = map (\<lambda>r. if en_id r = lid then f r else r) rows"
    "ledger rows' = (ledger rows)(lid \<mapsto> v)" "unique_rows rows'"
proof -
  from assms obtain r where r: "\<not> ro" "ledger rows lid = Some r" "P r" "v = f r"
    and rows': "rows' = map (\<lambda>r. if en_id r = lid then f r else r) rows"
    by (auto simp: transition_cases split: if_splits option.splits)
  have id: "\<And>x. en_id (if en_id x = lid then f x else x) = en_id x"
    using same_envelope_fields[OF assms(2)] by simp
  have "ledger rows' = (ledger rows)(lid \<mapsto> v)"
  proof
    fix k show "ledger rows' k = ((ledger rows)(lid \<mapsto> v)) k"
      using ledger_map[OF id, of rows k] r rows' ledger_in[of rows k]
      by (cases "ledger rows k") auto
  qed
  moreover have "unique_rows rows'" unfolding rows' using unique_rows_map[OF assms(2)] assms(1) by simp
  ultimately show thesis using that r rows' by blast
qed

section \<open>The state machine\<close>

fun durable_edge :: "durable_state \<Rightarrow> durable_state \<Rightarrow> bool" where
  "durable_edge DPrepared s \<longleftrightarrow> s \<in> {DProviderStarted, DRejected}"
| "durable_edge DProviderStarted s \<longleftrightarrow> s \<in> {DDelivered, DRejected, DFailed, DProjected}"
| "durable_edge DDelivered s \<longleftrightarrow> s = DProjected"
| "durable_edge DProjected s \<longleftrightarrow> s = DSettled"
| "durable_edge _ _ \<longleftrightarrow> False"

fun durable_rank :: "durable_state \<Rightarrow> nat" where
  "durable_rank DPrepared = 0"
| "durable_rank DProviderStarted = 1"
| "durable_rank DDelivered = 2"
| "durable_rank DProjected = 3"
| "durable_rank DSettled = 4"
| "durable_rank DRejected = 4"
| "durable_rank DFailed = 4"

lemma edge_rank: "durable_edge s t \<Longrightarrow> durable_rank s < durable_rank t"
  by (cases s; cases t) auto

lemma path_rank: "durable_edge\<^sup>*\<^sup>* s t \<Longrightarrow> s = t \<or> durable_rank s < durable_rank t"
  by (induction rule: rtranclp_induct) (auto dest: edge_rank)

lemma path_antisym: "durable_edge\<^sup>*\<^sup>* s t \<Longrightarrow> durable_edge\<^sup>*\<^sup>* t s \<Longrightarrow> s = t"
  using path_rank[of s t] path_rank[of t s] by auto

lemma terminal_path:
  assumes "durable_edge\<^sup>*\<^sup>* s t" and "s \<in> {DSettled, DRejected, DFailed}"
  shows "t = s"
  using assms by (induction rule: rtranclp_induct) auto

text \<open>What a row may become: same envelope, a later state, and a column once set keeps its value.\<close>

definition set_once :: "'a option \<Rightarrow> 'a option \<Rightarrow> bool" where
  "set_once a b \<longleftrightarrow> a = None \<or> b = a"

definition kept :: "durable_row \<Rightarrow> durable_row \<Rightarrow> bool" where
  "kept r r' \<longleftrightarrow> envelope.truncate r' = envelope.truncate r \<and> dr_created r' = dr_created r
     \<and> durable_edge\<^sup>*\<^sup>* (dr_state r) (dr_state r') \<and> (dr_state r' = dr_state r \<longrightarrow> r' = r)
     \<and> set_once (dr_attempt r) (dr_attempt r') \<and> set_once (dr_snapshot r) (dr_snapshot r')
     \<and> set_once (dr_generation r) (dr_generation r') \<and> set_once (dr_binding r) (dr_binding r')
     \<and> set_once (dr_receipt r) (dr_receipt r') \<and> set_once (dr_message r) (dr_message r')
     \<and> set_once (dr_domain r) (dr_domain r')"

lemma set_once_trans: "set_once a b \<Longrightarrow> set_once b c \<Longrightarrow> set_once a c"
  by (auto simp: set_once_def)

lemma kept_refl [simp]: "kept r r"
  by (simp add: kept_def set_once_def)

lemma kept_trans:
  assumes "kept a b" and "kept b c"
  shows "kept a c"
proof -
  have path: "durable_edge\<^sup>*\<^sup>* (dr_state a) (dr_state c)"
    using assms unfolding kept_def by (meson rtranclp_trans)
  have "c = a" if "dr_state c = dr_state a"
  proof -
    have "dr_state b = dr_state a"
      using assms that path_antisym unfolding kept_def by metis
    then show ?thesis using assms that unfolding kept_def by metis
  qed
  then show ?thesis using assms path set_once_trans unfolding kept_def by metis
qed

definition grows :: "durable_rows \<Rightarrow> durable_rows \<Rightarrow> bool" where
  "grows rows rows' \<longleftrightarrow> (\<forall>lid r. ledger rows lid = Some r \<longrightarrow> (\<exists>r'. ledger rows' lid = Some r' \<and> kept r r'))"

lemma grows_refl [simp]: "grows rows rows"
  by (auto simp: grows_def)

lemma grows_trans: "grows a b \<Longrightarrow> grows b c \<Longrightarrow> grows a c"
  unfolding grows_def by (meson kept_trans)

section \<open>The invariant\<close>

text \<open>The columns a state has set.\<close>

definition bound :: "durable_row \<Rightarrow> bool" where
  "bound r \<longleftrightarrow> (\<exists>a s g b. dr_attempt r = Some a \<and> dr_snapshot r = Some s \<and> dr_generation r = Some g
     \<and> dr_binding r = Some b \<and> [] \<notin> {a, s, g, b})"

definition unbound :: "durable_row \<Rightarrow> bool" where
  "unbound r \<longleftrightarrow> dr_attempt r = None \<and> dr_snapshot r = None \<and> dr_generation r = None \<and> dr_binding r = None"

definition has_text :: "string option \<Rightarrow> bool" where
  "has_text t \<longleftrightarrow> t \<noteq> None \<and> t \<noteq> Some []"

definition has_receipt :: "durable_row \<Rightarrow> bool" where
  "has_receipt r \<longleftrightarrow> (\<exists>kvs. dr_receipt r = Some (JObj kvs))"

fun columns_ok :: "durable_state \<Rightarrow> durable_row \<Rightarrow> bool" where
  "columns_ok DPrepared r \<longleftrightarrow> unbound r \<and> dr_receipt r = None \<and> dr_message r = None \<and> dr_domain r = None"
| "columns_ok DProviderStarted r \<longleftrightarrow> bound r \<and> dr_receipt r = None \<and> dr_message r = None \<and> dr_domain r = None"
| "columns_ok DDelivered r \<longleftrightarrow> bound r \<and> has_receipt r \<and> dr_message r = None \<and> dr_domain r = None"
| "columns_ok DRejected r \<longleftrightarrow> (bound r \<or> unbound r) \<and> has_receipt r \<and> dr_message r = None \<and> dr_domain r = None"
| "columns_ok DFailed r \<longleftrightarrow> bound r \<and> has_receipt r \<and> dr_message r = None \<and> dr_domain r = None"
| "columns_ok DProjected r \<longleftrightarrow> bound r \<and> has_receipt r \<and> has_text (dr_message r) \<and> dr_domain r = None"
| "columns_ok DSettled r \<longleftrightarrow> bound r \<and> has_receipt r \<and> has_text (dr_message r) \<and> has_text (dr_domain r)"

definition id_ok :: "string \<Rightarrow> bool" where
  "id_ok s \<longleftrightarrow> s \<noteq> [] \<and> stripped s"

definition envelope_ok :: "envelope \<Rightarrow> bool" where
  "envelope_ok e \<longleftrightarrow> id_ok (en_id e) \<and> id_ok (en_session e) \<and> id_ok (en_turn e) \<and> id_ok (en_service e)
     \<and> id_ok (en_channel e) \<and> id_ok (en_recipient e) \<and> id_ok (en_projection e) \<and> en_body e \<noteq> []
     \<and> (\<exists>kvs. en_metadata e = JObj kvs) \<and> json_sorted (en_metadata e) = en_metadata e"

definition durable_row_ok :: "durable_row \<Rightarrow> bool" where
  "durable_row_ok r \<longleftrightarrow> envelope_ok (envelope.truncate r) \<and> columns_ok (dr_state r) r"

definition durable_inv :: "durable_rows \<Rightarrow> bool" where
  "durable_inv rows \<longleftrightarrow> unique_rows rows \<and> (\<forall>r \<in> set rows. durable_row_ok r)"

lemma identity_Inr: "identity v = Inr s \<longleftrightarrow> v = VStr s \<and> id_ok s"
  by (cases v) (auto simp: id_ok_def)

lemma freeze_text_keyed: "text_keyed v \<Longrightarrow> freeze_json v = Inr j \<Longrightarrow> \<exists>kvs. j = JObj kvs"
  by (cases v) (auto simp: res_simps split: if_splits)

lemma normalize_ok: "normalize_envelope e = Inr n \<Longrightarrow> envelope_ok n"
proof -
  assume "normalize_envelope e = Inr n"
  then obtain i s t sv c r p b j where ids: "id_ok i" "id_ok s" "id_ok t" "id_ok sv" "id_ok c" "id_ok r" "id_ok p"
    and b: "nonempty_text (envelope_get e ''body'') = Inr b"
    and m: "text_keyed (envelope_get e ''metadata'')" "freeze_json (envelope_get e ''metadata'') = Inr j"
    and n: "n = \<lparr>en_id = i, en_session = s, en_turn = t, en_service = sv, en_channel = c, en_recipient = r,
          en_projection = p, en_body = b, en_metadata = json_sorted j\<rparr>"
    by (auto simp: normalize_envelope_def res_simps identity_Inr dumped_def)
  obtain kvs where "j = JObj kvs" using freeze_text_keyed[OF m] by blast
  then obtain ks where ks: "json_sorted j = JObj ks" by simp
  then have sorted: "json_sorted (JObj ks) = JObj ks" using json_sorted_idem[of j] by (simp only:)
  have "b \<noteq> []" using b by (cases "envelope_get e ''body''") (auto split: if_splits)
  then show ?thesis using ids unfolding n ks envelope_ok_def by (simp add: sorted del: json_sorted.simps)
qed

lemma row_ok_ledger: "durable_inv rows \<Longrightarrow> ledger rows lid = Some r \<Longrightarrow> durable_row_ok r \<and> en_id r = lid"
  using ledger_in by (fastforce simp: durable_inv_def)

text \<open>A transition guarded by its state keeps the invariant and moves one row.\<close>

lemma transition_grows:
  assumes inv: "durable_inv rows" and f: "same_envelope f" and t: "transition ro lid P f rows = Inr (v, rows')"
    and step: "\<And>r. P r \<Longrightarrow> en_id r = lid \<Longrightarrow> durable_row_ok r \<Longrightarrow> columns_ok (dr_state (f r)) (f r) \<and> kept r (f r)"
  shows "durable_inv rows' \<and> grows rows rows' \<and> ledger rows' = (ledger rows)(en_id v \<mapsto> v)"
proof -
  have u: "unique_rows rows" using inv by (simp add: durable_inv_def)
  obtain r where r: "ledger rows lid = Some r" "P r" "v = f r"
    and rows': "rows' = map (\<lambda>r. if en_id r = lid then f r else r) rows"
    and l: "ledger rows' = (ledger rows)(lid \<mapsto> v)" and u': "unique_rows rows'"
    by (rule transition_Inr[OF u f t])
  have ok: "durable_row_ok r" "en_id r = lid" using row_ok_ledger[OF inv r(1)] by auto
  have st: "columns_ok (dr_state v) v \<and> kept r v" using step[OF r(2) ok(2,1)] r(3) by simp
  have vok: "durable_row_ok v"
    using st ok f r(3) by (simp add: durable_row_ok_def same_envelope_def)
  have "durable_row_ok x'" if x': "x' \<in> set rows'" for x'
  proof -
    obtain x where x: "x \<in> set rows" "x' = (if en_id x = lid then f x else x)" using x' rows' by auto
    show ?thesis
    proof (cases "en_id x = lid")
      case True
      then have "x = r" using ledger_of[OF u x(1)] r(1) by simp
      then show ?thesis using x vok r(3) True by simp
    next
      case False
      then show ?thesis using x inv by (simp add: durable_inv_def)
    qed
  qed
  moreover have "grows rows rows'"
    unfolding grows_def l using r st by auto
  moreover have "en_id v = lid" using r(3) ok(2) same_envelope_fields(1)[OF f] by simp
  ultimately show ?thesis using u' l by (simp add: durable_inv_def)
qed
text \<open>The writing operations but \<open>recover_interrupted\<close>, as calls.\<close>

datatype durable_call =
    CPrepare "(string \<times> pyval) list"
  | CStart string "string \<times> string \<times> string \<times> string"
  | CCancel string string
  | CResult string durable_state json_object
  | CRecovered string string
  | CProject string string
  | CSettle string string

fun durable_op :: "bool \<Rightarrow> string \<Rightarrow> durable_call \<Rightarrow> durable_rows \<Rightarrow> (durable_row \<times> durable_rows) res" where
  "durable_op ro now (CPrepare e) = prepare ro now e"
| "durable_op ro now (CStart lid a) = mark_provider_started ro now lid a"
| "durable_op ro now (CCancel lid reason) = cancel_prepared_row ro now lid reason"
| "durable_op ro now (CResult lid st rc) = mark_provider_result ro now lid st rc"
| "durable_op ro now (CRecovered lid m) = mark_recovered ro now lid m"
| "durable_op ro now (CProject lid m) = mark_projected ro now lid m"
| "durable_op ro now (CSettle lid d) = confirm_settled ro now lid d"

inductive durable_step :: "durable_rows \<Rightarrow> durable_rows \<Rightarrow> bool" where
  Call: "durable_op ro now c rows = Inr (v, rows') \<Longrightarrow> durable_step rows rows'"
| Recover: "recover_interrupted ro now rows = Inr (n, rows') \<Longrightarrow> durable_step rows rows'"

inductive_cases durable_stepE: "durable_step rows rows'"

lemmas kept_simps = kept_def set_once_def same_envelope_def envelope.truncate_def

lemma edge_path [intro]: "durable_edge s t \<Longrightarrow> durable_edge\<^sup>*\<^sup>* s t"
  by (rule r_into_rtranclp)

lemma new_row_sel [simp]:
  "envelope.truncate (new_row e now) = e" "en_id (new_row e now) = en_id e"
  "en_session (new_row e now) = en_session e" "en_turn (new_row e now) = en_turn e"
  "dr_state (new_row e now) = DPrepared" "columns_ok DPrepared (new_row e now)"
  by (simp_all add: new_row_def envelope.truncate_def envelope.extend_def durable_row.fields_def unbound_def)

lemma same_truncate:
  "envelope.truncate r = e \<Longrightarrow> en_id r = en_id e \<and> en_session r = en_session e \<and> en_turn r = en_turn e
     \<and> en_channel r = en_channel e"
  by (auto simp: envelope.truncate_def)

lemma filter_one: "filter P xs = [r] \<Longrightarrow> r \<in> set xs \<and> P r \<and> (\<forall>x \<in> set xs. P x \<longrightarrow> x = r)"
proof -
  assume "filter P xs = [r]"
  then have "{x \<in> set xs. P x} = {r}" using set_filter[of P xs] by simp
  then show ?thesis by blast
qed

lemma filter_two:
  assumes "filter P xs = a # b # ys" and "distinct xs"
  shows "a \<in> set xs \<and> P a \<and> b \<in> set xs \<and> P b \<and> a \<noteq> b"
proof -
  have "{x \<in> set xs. P x} = set (a # b # ys)" using set_filter[of P xs] assms(1) by simp
  moreover have "distinct (a # b # ys)" using distinct_filter[of xs P] assms by simp
  ultimately show ?thesis by auto
qed

lemma prepare_row_cases:
  assumes "unique_rows rows"
  shows "prepare_row ro now e rows =
    (if ro then Inl PermissionError
     else if \<forall>r \<in> set rows. en_id r \<noteq> en_id e \<and> (en_session r, en_turn r) \<noteq> (en_session e, en_turn e)
          then Inr (new_row e now, rows @ [new_row e now])
     else case ledger rows (en_id e) of
            None \<Rightarrow> Inl RuntimeError
          | Some r \<Rightarrow> if envelope.truncate r = e then Inr (r, rows) else Inl RuntimeError)"
proof -
  let ?Q = "\<lambda>r. en_id r = en_id e \<or> en_session r = en_session e \<and> en_turn r = en_turn e"
  consider (fresh) "filter ?Q rows = []" | (one) r where "filter ?Q rows = [r]" | (many) a b xs where "filter ?Q rows = a # b # xs"
    by (cases "filter ?Q rows" rule: remdups_adj.cases) simp_all
  then show ?thesis
  proof cases
    case fresh
    then have none: "\<forall>r \<in> set rows. \<not> ?Q r" by (simp add: filter_empty_conv)
    then have "ledger rows (en_id e) = None" by (simp add: ledger_None)
    then have "required (rows @ [new_row e now]) (en_id e) = Inr (new_row e now)"
      by (simp add: required_def ledger_append flip: ledger_def)
    then show ?thesis using none fresh
      by (auto simp: prepare_row_def writing_def lookup_identity_def insert_row_def list_ex_iff bindR_ensure)
  next
    case (one r)
    have r: "r \<in> set rows" "?Q r" and other: "\<And>x. x \<in> set rows \<Longrightarrow> ?Q x \<Longrightarrow> x = r"
      using filter_one[OF one] by auto
    have "ledger rows (en_id e) = (if en_id r = en_id e then Some r else None)"
      using ledger_of[OF assms r(1)] other by (auto simp: ledger_None)
    moreover have "\<not> (\<forall>r \<in> set rows. en_id r \<noteq> en_id e \<and> (en_session r, en_turn r) \<noteq> (en_session e, en_turn e))"
      using r by auto
    moreover have "prepare_row ro now e rows = (if ro then Inl PermissionError
        else if envelope.truncate r = e then Inr (r, rows) else Inl RuntimeError)"
      using one by (simp add: prepare_row_def writing_def lookup_identity_def assert_same_envelope_def bindR_ensure)
    ultimately show ?thesis using same_truncate[of r e] by auto
  next
    case many
    have "distinct rows" using assms by (simp add: unique_rows_def distinct_map)
    then have ab: "a \<in> set rows" "?Q a" "b \<in> set rows" "?Q b" "a \<noteq> b"
      using filter_two[OF many] by auto
    have "envelope.truncate r \<noteq> e" if "ledger rows (en_id e) = Some r" for r
    proof
      assume t: "envelope.truncate r = e"
      have "x = r" if "x \<in> set rows" "?Q x" for x
      proof -
        have "r \<in> set rows" using ledger_in[OF \<open>ledger rows (en_id e) = Some r\<close>] by simp
        then show ?thesis using that same_truncate[OF t] assms
          by (auto simp: unique_rows_def dest: distinct_map_same)
      qed
      then show False using ab by metis
    qed
    moreover have "\<not> (\<forall>r \<in> set rows. en_id r \<noteq> en_id e \<and> (en_session r, en_turn r) \<noteq> (en_session e, en_turn e))"
      using ab by auto
    moreover have "prepare_row ro now e rows = (if ro then Inl PermissionError else Inl RuntimeError)"
      using many by (simp add: prepare_row_def writing_def lookup_identity_def)
    ultimately show ?thesis by (auto split: option.splits)
  qed
qed

declare identity.simps [simp del]

section \<open>Every operation moves forward\<close>

definition moved :: "durable_rows \<Rightarrow> durable_row \<Rightarrow> durable_rows \<Rightarrow> bool" where
  "moved rows v rows' \<longleftrightarrow> durable_inv rows' \<and> grows rows rows' \<and> ledger rows' = (ledger rows)(en_id v \<mapsto> v)"

lemma transition_moved:
  assumes "durable_inv rows" and "same_envelope f" and "transition ro lid P f rows = Inr (v, rows')"
    and "\<And>r. P r \<Longrightarrow> en_id r = lid \<Longrightarrow> durable_row_ok r \<Longrightarrow> columns_ok (dr_state (f r)) (f r) \<and> kept r (f r)"
  shows "moved rows v rows'"
  unfolding moved_def by (rule transition_grows[OF assms])

lemma kept_by_edge:
  assumes "envelope.truncate r' = envelope.truncate r" and "dr_created r' = dr_created r"
    and "durable_edge (dr_state r) (dr_state r')" and "set_once (dr_attempt r) (dr_attempt r')"
    and "set_once (dr_snapshot r) (dr_snapshot r')" and "set_once (dr_generation r) (dr_generation r')"
    and "set_once (dr_binding r) (dr_binding r')" and "set_once (dr_receipt r) (dr_receipt r')"
    and "set_once (dr_message r) (dr_message r')" and "set_once (dr_domain r) (dr_domain r')"
  shows "kept r r'"
  using assms edge_rank[OF assms(3)] by (auto simp: kept_def)

lemmas column_simps = durable_row_ok_def bound_def unbound_def has_receipt_def has_text_def
  set_once_def envelope.truncate_def id_ok_def

lemma start_moved:
  assumes "durable_inv rows" and "mark_provider_started ro now lid at rows = Inr (v, rows')"
  shows "moved rows v rows'"
proof -
  obtain a s g b where at: "at = (a, s, g, b)" by (cases at) auto
  have ids: "id_ok a" "id_ok s" "id_ok g" "id_ok b"
    using assms(2) by (auto simp: mark_provider_started_def at res_simps identity_Inr)
  have t: "transition ro lid (\<lambda>r. dr_state r = DPrepared)
       (\<lambda>r. r\<lparr>dr_state := DProviderStarted, dr_attempt := Some a, dr_snapshot := Some s,
             dr_generation := Some g, dr_binding := Some b, dr_updated := now\<rparr>) rows = Inr (v, rows')"
    using assms(2) by (auto simp: mark_provider_started_def at res_simps identity_Inr)
  show ?thesis
    by (rule transition_moved[OF assms(1) _ t])
      (use ids in \<open>auto intro!: kept_by_edge simp: same_envelope_def column_simps\<close>)
qed

lemma cancel_moved:
  assumes "durable_inv rows" and "cancel_prepared_row ro now lid reason rows = Inr (v, rows')"
  shows "moved rows v rows'"
proof -
  have t: "transition ro lid (\<lambda>r. dr_state r = DPrepared)
       (\<lambda>r. r\<lparr>dr_state := DRejected, dr_receipt := Some (cancel_receipt reason), dr_updated := now\<rparr>) rows = Inr (v, rows')"
    using assms(2) by (auto simp: cancel_prepared_row_def res_simps identity_Inr)
  show ?thesis
    by (rule transition_moved[OF assms(1) _ t])
      (auto intro!: kept_by_edge simp: same_envelope_def column_simps cancel_receipt_def)
qed

lemma result_moved:
  assumes "durable_inv rows" and "mark_provider_result ro now lid st rc rows = Inr (v, rows')"
  shows "moved rows v rows'"
proof -
  have st: "st \<in> {DDelivered, DRejected, DFailed}"
    using assms(2) by (auto simp: mark_provider_result_def res_simps)
  have t: "transition ro lid (\<lambda>r. dr_state r = DProviderStarted)
       (\<lambda>r. r\<lparr>dr_state := st, dr_receipt := Some (json_sorted (JObj rc)), dr_updated := now\<rparr>) rows = Inr (v, rows')"
    using assms(2) by (auto simp: mark_provider_result_def res_simps identity_Inr simp del: json_sorted.simps)
  show ?thesis
    by (rule transition_moved[OF assms(1) _ t])
      (use st in \<open>auto intro!: kept_by_edge simp: same_envelope_def column_simps\<close>)
qed

lemma recovered_moved:
  assumes "durable_inv rows" and "mark_recovered ro now lid m rows = Inr (v, rows')"
  shows "moved rows v rows'"
proof -
  have m: "id_ok m" using assms(2) by (auto simp: mark_recovered_def res_simps identity_Inr)
  have t: "transition ro lid (\<lambda>r. dr_state r = DProviderStarted \<and> en_channel r = akashic)
       (\<lambda>r. r\<lparr>dr_state := DProjected, dr_receipt := Some (recovered_receipt lid),
             dr_message := Some m, dr_updated := now\<rparr>) rows = Inr (v, rows')"
    using assms(2) by (auto simp: mark_recovered_def res_simps identity_Inr)
  show ?thesis
    by (rule transition_moved[OF assms(1) _ t])
      (use m in \<open>auto intro!: kept_by_edge simp: same_envelope_def column_simps recovered_receipt_def\<close>)
qed

lemma project_moved:
  assumes "durable_inv rows" and "mark_projected ro now lid m rows = Inr (v, rows')"
  shows "moved rows v rows'"
proof -
  have m: "id_ok m" using assms(2) by (auto simp: mark_projected_def res_simps identity_Inr)
  have t: "transition ro lid (\<lambda>r. dr_state r = DDelivered)
       (\<lambda>r. r\<lparr>dr_state := DProjected, dr_message := Some m, dr_updated := now\<rparr>) rows = Inr (v, rows')"
    using assms(2) by (auto simp: mark_projected_def res_simps identity_Inr)
  show ?thesis
    by (rule transition_moved[OF assms(1) _ t])
      (use m in \<open>auto intro!: kept_by_edge simp: same_envelope_def column_simps\<close>)
qed

lemma moved_same: "durable_inv rows \<Longrightarrow> ledger rows (en_id v) = Some v \<Longrightarrow> moved rows v rows"
  by (simp add: moved_def fun_upd_idem)

lemma required_ledger: "required rows lid = (case ledger rows lid of None \<Rightarrow> Inl RuntimeError | Some r \<Rightarrow> Inr r)"
  by (simp add: required_def ledger_def)

lemma settle_moved:
  assumes "durable_inv rows" and "confirm_settled ro now lid d rows = Inr (v, rows')"
  shows "moved rows v rows'"
proof -
  have d: "id_ok d" using assms(2) by (auto simp: confirm_settled_def res_simps identity_Inr)
  consider (again) "rows' = rows" "ledger rows lid = Some v"
    | (moves) "transition ro lid (\<lambda>r. dr_state r = DProjected)
       (\<lambda>r. r\<lparr>dr_state := DSettled, dr_domain := Some d, dr_updated := now\<rparr>) rows = Inr (v, rows')"
    using assms(2)
    by (auto simp: confirm_settled_def res_simps identity_Inr writing_def required_ledger split: if_splits option.splits)
  then show ?thesis
  proof cases
    case again
    then show ?thesis using ledger_in moved_same[OF assms(1)] by metis
  next
    case moves
    show ?thesis
      by (rule transition_moved[OF assms(1) _ moves])
        (use d in \<open>auto intro!: kept_by_edge simp: same_envelope_def column_simps\<close>)
  qed
qed

lemma prepare_moved:
  assumes inv: "durable_inv rows" and "prepare ro now e rows = Inr (v, rows')"
  shows "moved rows v rows'"
proof -
  obtain n where n: "normalize_envelope e = Inr n" and p: "prepare_row ro now n rows = Inr (v, rows')"
    using assms(2) by (auto simp: prepare_def res_simps)
  have u: "unique_rows rows" using inv by (simp add: durable_inv_def)
  have ok: "durable_row_ok (new_row n now)"
    using normalize_ok[OF n] new_row_sel(6)[of n now] by (simp add: durable_row_ok_def del: columns_ok.simps)
  consider (old) "rows' = rows" "ledger rows (en_id n) = Some v"
    | (fresh) "\<forall>r \<in> set rows. en_id r \<noteq> en_id n \<and> (en_session r, en_turn r) \<noteq> (en_session n, en_turn n)"
        "v = new_row n now" "rows' = rows @ [v]"
    using p by (auto simp: prepare_row_cases[OF u] split: if_splits option.splits)
  then show ?thesis
  proof cases
    case old
    then show ?thesis using ledger_in moved_same[OF inv] by metis
  next
    case fresh
    then have "unique_rows rows'" using u by (auto simp: unique_rows_def)
    moreover have "\<forall>r \<in> set rows'. durable_row_ok r" using fresh ok inv by (simp add: durable_inv_def)
    moreover have none: "ledger rows (en_id n) = None" using fresh by (simp add: ledger_None)
    have l: "ledger rows' = (ledger rows)(en_id v \<mapsto> v)"
    proof
      fix k show "ledger rows' k = ((ledger rows)(en_id v \<mapsto> v)) k"
        using none fresh by (auto simp: ledger_append split: option.splits)
    qed
    moreover have "grows rows rows'" unfolding grows_def l using none fresh(2) by auto
    ultimately show ?thesis by (simp add: moved_def durable_inv_def)
  qed
qed

lemma op_moved: "durable_inv rows \<Longrightarrow> durable_op ro now c rows = Inr (v, rows') \<Longrightarrow> moved rows v rows'"
  by (cases c) (auto dest: start_moved cancel_moved result_moved recovered_moved project_moved settle_moved prepare_moved)

lemma recover_moves:
  assumes inv: "durable_inv rows" and "recover_interrupted ro now rows = Inr (n, rows')"
  shows "durable_inv rows' \<and> grows rows rows'
    \<and> (\<forall>lid. ledger rows' lid = map_option (\<lambda>r. if dr_state r = DProviderStarted \<and> en_channel r \<noteq> akashic
         then r\<lparr>dr_state := DFailed, dr_receipt := Some interrupted_receipt, dr_updated := now\<rparr> else r) (ledger rows lid))"
proof -
  let ?P = "\<lambda>r. dr_state r = DProviderStarted \<and> en_channel r \<noteq> akashic"
  let ?f = "\<lambda>r. r\<lparr>dr_state := DFailed, dr_receipt := Some interrupted_receipt, dr_updated := now\<rparr>"
  have rows': "rows' = map (\<lambda>r. if ?P r then ?f r else r) rows"
    using assms(2) by (auto simp: recover_interrupted_def writing_def update_rows_def split: if_splits)
  have l: "ledger rows' lid = map_option (\<lambda>r. if ?P r then ?f r else r) (ledger rows lid)" for lid
    unfolding rows' by (rule ledger_map) simp
  have "kept r (if ?P r then ?f r else r)" if "durable_row_ok r" for r
    using that by (auto intro!: kept_by_edge simp: column_simps)
  then have "grows rows rows'"
    unfolding grows_def l using row_ok_ledger[OF inv] by force
  moreover have "unique_rows rows'"
    unfolding rows' using inv unique_rows_map[of ?f ?P rows]
    by (simp add: durable_inv_def same_envelope_def envelope.truncate_def)
  moreover have "durable_row_ok (?f r)" if "durable_row_ok r" "?P r" for r
    using that by (auto simp: column_simps envelope_ok_def interrupted_receipt_def)
  then have "\<forall>r \<in> set rows'. durable_row_ok r" unfolding rows' using inv by (auto simp: durable_inv_def)
  ultimately show ?thesis using l by (simp add: durable_inv_def)
qed

lemma step_moves: "durable_step rows rows' \<Longrightarrow> durable_inv rows \<Longrightarrow> durable_inv rows' \<and> grows rows rows'"
  by (erule durable_stepE) (auto dest: op_moved recover_moves simp: moved_def)

lemma steps_move: "durable_step\<^sup>*\<^sup>* rows rows' \<Longrightarrow> durable_inv rows \<Longrightarrow> durable_inv rows' \<and> grows rows rows'"
  by (induction rule: rtranclp_induct) (auto dest: step_moves intro: grows_trans)

lemma durable_inv_Nil [simp]: "durable_inv []"
  by (simp add: durable_inv_def unique_rows_def)

end
