(* ===== verification/Durable_Deliveries.thy ===== *)
theory Durable_Deliveries
  imports Durable_Store
begin

text \<open>
  \<open>agent/plugin_composition/durable_deliveries.py\<close>: the owner of provider receipt, Session projection
  and settlement over the ledger of \<open>Durable_Store\<close>.

  \<open>submit\<close> awaits two callbacks, the sender (which calls back \<open>mark_started\<close>) and the projector. It is
  a machine whose states are these awaits. The callbacks are other code: what they do and return is an
  input of the steps, except that a sender starts provider I/O only after \<open>mark_started\<close> returned,
  so a successful \<open>mark_started\<close> is what grants one provider call. Several submissions may be in
  flight (each root has its own instance and lock), other callers cancel and settle between them, and
  a crash forgets every task; the next process runs \<open>recover_interrupted_provider_calls\<close> first.
  \<open>_complete_critical\<close> keeps cancellation away from the task and is the identity here.
\<close>

section \<open>Requests and views\<close>

record durable_request =
  rq_id :: string
  rq_turn :: "string \<times> string"
  rq_service :: string
  rq_channel :: string
  rq_recipient :: string
  rq_projection :: string
  rq_body :: string
  rq_metadata :: "(pykey \<times> pyval) list"

definition validate_message_delivery_id :: "string \<Rightarrow> string res" where
  "validate_message_delivery_id v = (if v = [] \<or> 128 < char_count v then Inl ValueError else Inr v)"

definition mk_request :: "durable_request \<Rightarrow> durable_request res" where
  "mk_request rq =
     bindR (validate_message_delivery_id (rq_id rq)) (\<lambda>_.
     bindR (ensure (list_all (\<lambda>v. v \<noteq> [] \<and> stripped v)
              [rq_service rq, rq_channel rq, rq_recipient rq, rq_projection rq]) ValueError) (\<lambda>_.
     bindR (ensure (rq_body rq \<noteq> []) ValueError) (\<lambda>_. Inr rq)))"

definition envelope_of :: "durable_request \<Rightarrow> (string \<times> pyval) list" where
  "envelope_of rq =
     [(''logical_delivery_id'', VStr (rq_id rq)), (''accepted_session_id'', VStr (fst (rq_turn rq))),
      (''accepted_turn_id'', VStr (snd (rq_turn rq))), (''target_service'', VStr (rq_service rq)),
      (''channel'', VStr (rq_channel rq)), (''recipient'', VStr (rq_recipient rq)),
      (''projection_session_id'', VStr (rq_projection rq)), (''body'', VStr (rq_body rq)),
      (''metadata'', VMap (rq_metadata rq))]"

record durable_view =
  vw_id :: string
  vw_turn :: "string \<times> string"
  vw_service :: string
  vw_channel :: string
  vw_recipient :: string
  vw_projection :: string
  vw_body :: string
  vw_metadata :: json_object
  vw_state :: durable_state
  vw_attempt :: "string option"
  vw_snapshot :: "string option"
  vw_generation :: "string option"
  vw_binding :: "string option"
  vw_receipt :: "json_object option"
  vw_message :: "string option"
  vw_domain :: "string option"

definition row_text :: "string \<Rightarrow> string res" where
  "row_text v = (if v = [] then Inl RuntimeError else Inr v)"

definition optional_text :: "string option \<Rightarrow> string option res" where
  "optional_text v = (case v of None \<Rightarrow> Inr None | Some t \<Rightarrow> bindR (row_text t) (\<lambda>x. Inr (Some x)))"

fun row_mapping :: "json \<Rightarrow> json_object res" where
  "row_mapping (JObj kvs) = Inr kvs"
| "row_mapping _ = Inl RuntimeError"

text \<open>Older provider receipts of status \<open>unknown\<close> read as failed.\<close>

definition current_receipt :: "json_object \<Rightarrow> json_object" where
  "current_receipt kvs =
     (if map_of kvs ''status'' = Some (JStr ''unknown'') then AList.update ''status'' (JStr ''failed'') kvs else kvs)"

definition view_receipt :: "json option \<Rightarrow> json_object option res" where
  "view_receipt rc = (case rc of None \<Rightarrow> Inr None
     | Some d \<Rightarrow> bindR (row_mapping d) (\<lambda>kvs. Inr (Some (current_receipt kvs))))"

definition view_of :: "durable_row \<Rightarrow> durable_view res" where
  "view_of r =
     bindR (row_mapping (en_metadata r)) (\<lambda>md.
     bindR (view_receipt (dr_receipt r)) (\<lambda>rc.
     bindR (mapR row_text [en_id r, en_session r, en_turn r, en_service r, en_channel r, en_recipient r,
              en_projection r, en_body r]) (\<lambda>_.
     bindR (mapR optional_text [dr_attempt r, dr_snapshot r, dr_generation r, dr_binding r,
              dr_message r, dr_domain r]) (\<lambda>_.
     Inr \<lparr>vw_id = en_id r, vw_turn = (en_session r, en_turn r), vw_service = en_service r,
          vw_channel = en_channel r, vw_recipient = en_recipient r, vw_projection = en_projection r,
          vw_body = en_body r, vw_metadata = md, vw_state = dr_state r, vw_attempt = dr_attempt r,
          vw_snapshot = dr_snapshot r, vw_generation = dr_generation r, vw_binding = dr_binding r,
          vw_receipt = rc, vw_message = dr_message r, vw_domain = dr_domain r\<rparr>))))"

definition request_of :: "durable_view \<Rightarrow> durable_request res" where
  "request_of v = mk_request
     \<lparr>rq_id = vw_id v, rq_turn = vw_turn v, rq_service = vw_service v, rq_channel = vw_channel v,
      rq_recipient = vw_recipient v, rq_projection = vw_projection v, rq_body = vw_body v,
      rq_metadata = map (map_prod KStr json_value) (vw_metadata v)\<rparr>"

section \<open>The owner\<close>

datatype delivery_status = SDelivered | SRejected | SFailed

record channel_receipt =
  cr_delivery :: string
  cr_status :: delivery_status
  cr_ids :: "string list"
  cr_error :: "string option"

fun result_state :: "delivery_status \<Rightarrow> durable_state" where
  "result_state SDelivered = DDelivered"
| "result_state SRejected = DRejected"
| "result_state SFailed = DFailed"

fun delivery_status_name :: "delivery_status \<Rightarrow> string" where
  "delivery_status_name SDelivered = ''delivered''"
| "delivery_status_name SRejected = ''rejected''"
| "delivery_status_name SFailed = ''failed''"

definition receipt_doc :: "channel_receipt \<Rightarrow> json_object" where
  "receipt_doc cr = [(''delivery_id'', JStr (cr_delivery cr)), (''status'', JStr (delivery_status_name (cr_status cr))),
     (''provider_ids'', JArr (map JStr (cr_ids cr))),
     (''error'', case cr_error cr of None \<Rightarrow> JNull | Some e \<Rightarrow> JStr e)]"

definition interrupted_doc :: json_object where
  "interrupted_doc = [(''status'', JStr ''failed''), (''error'', JStr ''provider call interrupted'')]"

datatype durable_pc =
    DIdle
  | DSend durable_request bool
  | DProject durable_request bool
  | DDone durable_view
  | DRaised py_error

definition finish_submit :: "durable_row \<Rightarrow> durable_pc" where
  "finish_submit row = (case view_of row of Inl e \<Rightarrow> DRaised e | Inr v \<Rightarrow> DDone v)"

text \<open>What \<open>submit\<close> does once the row is no longer to be sent.\<close>

definition after_send :: "durable_request \<Rightarrow> durable_row \<Rightarrow> durable_pc" where
  "after_send rq row =
     (if dr_state row = DProviderStarted \<and> rq_channel rq = akashic then DProject rq True
      else if dr_state row = DDelivered then DProject rq False
      else finish_submit row)"

definition submit_begin :: "string \<Rightarrow> durable_request \<Rightarrow> durable_rows \<Rightarrow> durable_pc \<times> durable_rows" where
  "submit_begin now rq rows =
     (case prepare False now (envelope_of rq) rows of
        Inl e \<Rightarrow> (DRaised e, rows)
      | Inr (row, rows') \<Rightarrow> (if dr_state row = DPrepared then DSend rq False else after_send rq row, rows'))"

text \<open>The callback \<open>mark_started\<close>; when the ledger refuses, it raises into the sender.\<close>

definition mark_started ::
  "string \<Rightarrow> durable_request \<Rightarrow> string \<times> string \<times> string \<times> string \<Rightarrow> durable_rows \<Rightarrow> (durable_row \<times> durable_rows) res" where
  "mark_started now rq attempt rows = mark_provider_started False now (rq_id rq) attempt rows"

definition sender_returned ::
  "string \<Rightarrow> durable_request \<Rightarrow> bool \<Rightarrow> channel_receipt \<Rightarrow> durable_rows \<Rightarrow> durable_pc \<times> durable_rows" where
  "sender_returned now rq begun cr rows =
     (if \<not> begun then (DRaised RuntimeError, rows)
      else case mark_provider_result False now (rq_id rq) (result_state (cr_status cr)) (receipt_doc cr) rows of
        Inl e \<Rightarrow> (DRaised e, rows)
      | Inr (row, rows') \<Rightarrow> (after_send rq row, rows'))"

definition sender_raised ::
  "string \<Rightarrow> durable_request \<Rightarrow> bool \<Rightarrow> py_error \<Rightarrow> durable_rows \<Rightarrow> durable_pc \<times> durable_rows" where
  "sender_raised now rq begun e rows =
     (if \<not> begun then (DRaised e, rows)
      else case mark_provider_result False now (rq_id rq) DFailed interrupted_doc rows of
        Inl e' \<Rightarrow> (DRaised e', rows)
      | Inr (row, rows') \<Rightarrow> (DRaised e, rows'))"

definition projected ::
  "string \<Rightarrow> durable_request \<Rightarrow> bool \<Rightarrow> string \<Rightarrow> durable_rows \<Rightarrow> durable_pc \<times> durable_rows" where
  "projected now rq recovering message_id rows =
     (case (if recovering then mark_recovered else mark_projected) False now (rq_id rq) message_id rows of
        Inl e \<Rightarrow> (DRaised e, rows)
      | Inr (row, rows') \<Rightarrow> (finish_submit row, rows'))"

definition lookup_view :: "durable_rows \<Rightarrow> string \<times> string \<Rightarrow> durable_view option res" where
  "lookup_view rows turn =
     bindR (durable_lookup rows (fst turn) (snd turn)) (\<lambda>found. case found of
       None \<Rightarrow> Inr None
     | Some r \<Rightarrow> bindR (view_of r) (\<lambda>v. Inr (Some v)))"

definition required_view :: "durable_rows \<Rightarrow> string \<times> string \<Rightarrow> durable_view res" where
  "required_view rows turn =
     bindR (lookup_view rows turn) (\<lambda>found. case found of None \<Rightarrow> Inl KeyError | Some v \<Rightarrow> Inr v)"

definition recoverable_views :: "durable_rows \<Rightarrow> durable_view list res" where
  "recoverable_views rows = mapR view_of (recoverable rows)"

definition resume_begin :: "string \<Rightarrow> string \<times> string \<Rightarrow> durable_rows \<Rightarrow> durable_pc \<times> durable_rows" where
  "resume_begin now turn rows =
     (case bindR (required_view rows turn) request_of of
        Inl e \<Rightarrow> (DRaised e, rows)
      | Inr rq \<Rightarrow> submit_begin now rq rows)"

definition cancel_turn ::
  "string \<Rightarrow> string \<times> string \<Rightarrow> string \<Rightarrow> durable_rows \<Rightarrow> (durable_view \<times> durable_rows) res" where
  "cancel_turn now turn reason rows =
     bindR (required_view rows turn) (\<lambda>v.
     bindR (cancel_prepared_row False now (vw_id v) reason rows) (\<lambda>(row, rows').
     bindR (view_of row) (\<lambda>w. Inr (w, rows'))))"

definition settle_turn :: "string \<Rightarrow> string \<Rightarrow> string \<Rightarrow> durable_rows \<Rightarrow> (durable_view \<times> durable_rows) res" where
  "settle_turn now settlement_ref receipt rows =
     bindR (confirm_settled False now settlement_ref receipt rows) (\<lambda>(row, rows').
     bindR (view_of row) (\<lambda>w. Inr (w, rows')))"

section \<open>Executions\<close>

record durable_world =
  dw_rows :: durable_rows
  dw_tasks :: "nat \<Rightarrow> durable_pc"
  dw_granted :: "string \<Rightarrow> nat"

definition set_task :: "nat \<Rightarrow> durable_pc \<times> durable_rows \<Rightarrow> durable_world \<Rightarrow> durable_world" where
  "set_task i p w = w\<lparr>dw_rows := snd p, dw_tasks := (dw_tasks w)(i := fst p)\<rparr>"

inductive durable_run :: "durable_world \<Rightarrow> durable_world \<Rightarrow> bool" where
  Submit: "dw_tasks w i = DIdle \<Longrightarrow> mk_request rq0 = Inr rq \<Longrightarrow>
    durable_run w (set_task i (submit_begin now rq (dw_rows w)) w)"
| Resume: "dw_tasks w i = DIdle \<Longrightarrow> durable_run w (set_task i (resume_begin now turn (dw_rows w)) w)"
| Grant: "dw_tasks w i = DSend rq begun \<Longrightarrow> mark_started now rq attempt (dw_rows w) = Inr (row, rows') \<Longrightarrow>
    durable_run w (set_task i (DSend rq True, rows') (w\<lparr>dw_granted := (dw_granted w)(rq_id rq := dw_granted w (rq_id rq) + 1)\<rparr>))"
| Return: "dw_tasks w i = DSend rq begun \<Longrightarrow>
    durable_run w (set_task i (sender_returned now rq begun cr (dw_rows w)) w)"
| Raise: "dw_tasks w i = DSend rq begun \<Longrightarrow>
    durable_run w (set_task i (sender_raised now rq begun e (dw_rows w)) w)"
| Project: "dw_tasks w i = DProject rq recovering \<Longrightarrow>
    durable_run w (set_task i (projected now rq recovering mid (dw_rows w)) w)"
| Project_Raise: "dw_tasks w i = DProject rq recovering \<Longrightarrow>
    durable_run w (set_task i (DRaised e, dw_rows w) w)"
| Collect: "dw_tasks w i \<in> {DDone v, DRaised e} \<Longrightarrow> durable_run w (set_task i (DIdle, dw_rows w) w)"
| Cancel: "cancel_turn now turn reason (dw_rows w) = Inr (v, rows') \<Longrightarrow> durable_run w (w\<lparr>dw_rows := rows'\<rparr>)"
| Settle: "settle_turn now lid receipt (dw_rows w) = Inr (v, rows') \<Longrightarrow> durable_run w (w\<lparr>dw_rows := rows'\<rparr>)"
| Restart: "recover_interrupted False now (dw_rows w) = Inr (n, rows') \<Longrightarrow>
    durable_run w (w\<lparr>dw_rows := rows', dw_tasks := (\<lambda>_. DIdle)\<rparr>)"

inductive_cases durable_runE: "durable_run w w'"

definition durable_start :: durable_world where
  "durable_start = \<lparr>dw_rows = [], dw_tasks = (\<lambda>_. DIdle), dw_granted = (\<lambda>_. 0)\<rparr>"

section \<open>Stored rows are readable\<close>

lemma row_mapping_JObj: "(\<exists>kvs. j = JObj kvs) \<Longrightarrow> \<exists>kvs. row_mapping j = Inr kvs \<and> j = JObj kvs"
  by auto

lemma optional_text_ok: "t = None \<or> has_text t \<Longrightarrow> optional_text t = Inr t"
  by (cases t) (auto simp: optional_text_def has_text_def row_text_def split: if_splits)

lemma columns_text:
  assumes "columns_ok s r"
  shows "\<forall>t \<in> set [dr_attempt r, dr_snapshot r, dr_generation r, dr_binding r, dr_message r, dr_domain r].
      t = None \<or> has_text t"
    and "dr_receipt r = None \<or> has_receipt r"
  using assms by (cases s; auto simp: bound_def unbound_def has_text_def has_receipt_def)+

lemma view_total:
  assumes "durable_row_ok r"
  shows "\<exists>v. view_of r = Inr v \<and> vw_state v = dr_state r \<and> vw_id v = en_id r"
proof -
  have e: "envelope_ok (envelope.truncate r)" and c: "columns_ok (dr_state r) r"
    using assms by (auto simp: durable_row_ok_def)
  obtain md where md: "row_mapping (en_metadata r) = Inr md"
    using e by (auto simp: envelope_ok_def envelope.truncate_def)
  have "mapR optional_text [dr_attempt r, dr_snapshot r, dr_generation r, dr_binding r, dr_message r, dr_domain r]
      = Inr (map id [dr_attempt r, dr_snapshot r, dr_generation r, dr_binding r, dr_message r, dr_domain r])"
    using columns_text(1)[OF c] by (intro mapR_Inr_map) (metis id_apply optional_text_ok)
  moreover have "mapR row_text [en_id r, en_session r, en_turn r, en_service r, en_channel r, en_recipient r,
              en_projection r, en_body r] = Inr (map id [en_id r, en_session r, en_turn r, en_service r, en_channel r, en_recipient r,
              en_projection r, en_body r])"
    using e by (intro mapR_Inr_map) (auto simp: row_text_def envelope_ok_def envelope.truncate_def id_ok_def)
  moreover obtain rc where "view_receipt (dr_receipt r) = Inr rc"
    using columns_text(2)[OF c] by (auto simp: view_receipt_def has_receipt_def)
  ultimately show ?thesis using md by (simp add: view_of_def)
qed

lemma view_fields:
  assumes "view_of r = Inr v"
  shows "vw_id v = en_id r" "vw_turn v = (en_session r, en_turn r)" "vw_service v = en_service r"
    "vw_channel v = en_channel r" "vw_recipient v = en_recipient r" "vw_projection v = en_projection r"
    "vw_body v = en_body r" "en_metadata r = JObj (vw_metadata v)" "vw_state v = dr_state r"
  using assms by (cases "en_metadata r"; auto simp: view_of_def res_simps)+

lemma finish_submit_ok: "durable_row_ok r \<Longrightarrow> \<exists>v. finish_submit r = DDone v \<and> view_of r = Inr v"
  using view_total[of r] by (auto simp: finish_submit_def)

text \<open>A view asked for again is the same envelope.\<close>

lemma normalize_again:
  assumes ok: "durable_row_ok r" and v: "view_of r = Inr v" and len: "char_count (en_id r) \<le> 128"
  shows "\<exists>rq. request_of v = Inr rq \<and> normalize_envelope (envelope_of rq) = Inr (envelope.truncate r)
    \<and> rq_id rq = en_id r \<and> rq_channel rq = en_channel r"
proof -
  note f = view_fields[OF v]
  have ids: "id_ok (en_id r)" "id_ok (en_session r)" "id_ok (en_turn r)" "id_ok (en_service r)"
     "id_ok (en_channel r)" "id_ok (en_recipient r)" "id_ok (en_projection r)" "en_body r \<noteq> []"
    and md: "json_sorted (en_metadata r) = en_metadata r"
    using ok by (auto simp: durable_row_ok_def envelope_ok_def envelope.truncate_def)
  let ?rq = "\<lparr>rq_id = en_id r, rq_turn = (en_session r, en_turn r), rq_service = en_service r, rq_channel = en_channel r,
      rq_recipient = en_recipient r, rq_projection = en_projection r, rq_body = en_body r,
      rq_metadata = map (map_prod KStr json_value) (vw_metadata v)\<rparr>"
  have rq: "request_of v = Inr ?rq"
    using ids len f(1-7) by (simp add: request_of_def mk_request_def validate_message_delivery_id_def id_ok_def ensure_def)
  have "freeze_json (json_value (JObj (vw_metadata v))) = Inr (JObj (vw_metadata v))"
    by (rule freeze_json_value)
  then have "dumped (VMap (map (map_prod KStr json_value) (vw_metadata v))) = Inr (en_metadata r)"
    using md f(8) unfolding dumped_def by (simp del: freeze_json.simps json_sorted.simps)
  moreover have "text_keyed (VMap (map (map_prod KStr json_value) (vw_metadata v)))"
    by (auto simp: list_all_iff)
  moreover have "\<And>s. id_ok s \<Longrightarrow> identity (VStr s) = Inr s" by (simp add: identity_Inr)
  ultimately have "normalize_envelope (envelope_of ?rq) = Inr (envelope.truncate r)"
    using ids by (simp add: normalize_envelope_def envelope_get_def envelope_of_def envelope.truncate_def ensure_def
      del: text_keyed.simps)
  with rq show ?thesis by simp
qed

section \<open>States the operations leave\<close>

lemma inv_unique: "durable_inv rows \<Longrightarrow> unique_rows rows"
  by (simp add: durable_inv_def)

lemma transition_value:
  assumes "durable_inv rows" and "same_envelope f" and "transition ro lid P f rows = Inr (v, rows')"
  shows "en_id v = lid \<and> (\<exists>r. ledger rows lid = Some r \<and> P r \<and> v = f r)"
proof -
  obtain r where "ledger rows lid = Some r" "P r" "v = f r"
    by (rule transition_Inr[OF inv_unique[OF assms(1)] assms(2,3)])
  then show ?thesis using ledger_in same_envelope_fields(1)[OF assms(2)] by metis
qed

lemma start_value:
  assumes "durable_inv rows" and "mark_provider_started ro now lid at rows = Inr (v, rows')"
  shows "en_id v = lid \<and> dr_state v = DProviderStarted \<and> (\<exists>r. ledger rows lid = Some r \<and> dr_state r = DPrepared)"
proof -
  obtain a s g b where at: "at = (a, s, g, b)" by (cases at) auto
  have t: "transition ro lid (\<lambda>r. dr_state r = DPrepared)
       (\<lambda>r. r\<lparr>dr_state := DProviderStarted, dr_attempt := Some a, dr_snapshot := Some s,
             dr_generation := Some g, dr_binding := Some b, dr_updated := now\<rparr>) rows = Inr (v, rows')"
    using assms(2) by (auto simp: mark_provider_started_def at res_simps identity_Inr)
  show ?thesis using transition_value[OF assms(1) _ t] by (auto simp: kept_simps)
qed

lemma result_value:
  assumes "durable_inv rows" and "mark_provider_result ro now lid st rc rows = Inr (v, rows')"
  shows "en_id v = lid \<and> dr_state v = st \<and> st \<in> {DDelivered, DRejected, DFailed}"
proof -
  have t: "transition ro lid (\<lambda>r. dr_state r = DProviderStarted)
       (\<lambda>r. r\<lparr>dr_state := st, dr_receipt := Some (json_sorted (JObj rc)), dr_updated := now\<rparr>) rows = Inr (v, rows')"
    and st: "st \<in> {DDelivered, DRejected, DFailed}"
    using assms(2) by (auto simp: mark_provider_result_def res_simps identity_Inr simp del: json_sorted.simps)
  show ?thesis using transition_value[OF assms(1) _ t] st by (auto simp: kept_simps)
qed

lemma result_succeeds:
  assumes "durable_inv rows" and "ledger rows lid = Some r" and "dr_state r = DProviderStarted"
    and "st \<in> {DDelivered, DRejected, DFailed}"
  shows "\<exists>v rows'. mark_provider_result False now lid st rc rows = Inr (v, rows')"
proof -
  have "id_ok lid"
    using row_ok_ledger[OF assms(1,2)] by (auto simp: durable_row_ok_def envelope_ok_def envelope.truncate_def)
  then show ?thesis
    using assms(2-4) transition_cases[OF inv_unique[OF assms(1)], of "\<lambda>r. r\<lparr>dr_state := st, dr_receipt := Some (json_sorted (JObj rc)), dr_updated := now\<rparr>"]
    by (simp add: mark_provider_result_def identity_Inr[THEN iffD2] kept_simps ensure_def del: json_sorted.simps)
qed

lemma projected_value:
  assumes "durable_inv rows"
    and "(if recovering then mark_recovered else mark_projected) False now lid mid rows = Inr (v, rows')"
  shows "en_id v = lid \<and> dr_state v = DProjected \<and> moved rows v rows'"
proof (cases recovering)
  case True
  then have m: "mark_recovered False now lid mid rows = Inr (v, rows')" using assms(2) by simp
  then have t: "transition False lid (\<lambda>r. dr_state r = DProviderStarted \<and> en_channel r = akashic)
       (\<lambda>r. r\<lparr>dr_state := DProjected, dr_receipt := Some (recovered_receipt lid),
             dr_message := Some mid, dr_updated := now\<rparr>) rows = Inr (v, rows')"
    by (auto simp: mark_recovered_def res_simps identity_Inr)
  have "en_id v = lid \<and> (\<exists>r. v = r\<lparr>dr_state := DProjected, dr_receipt := Some (recovered_receipt lid),
             dr_message := Some mid, dr_updated := now\<rparr>)"
    using transition_value[OF assms(1) _ t] by (simp add: kept_simps) blast
  then obtain r where i: "en_id v = lid" and r: "v = r\<lparr>dr_state := DProjected, dr_receipt := Some (recovered_receipt lid),
             dr_message := Some mid, dr_updated := now\<rparr>" by blast
  have "dr_state v = DProjected" unfolding r by simp
  then show ?thesis using i recovered_moved[OF assms(1) m] by blast
next
  case False
  then have m: "mark_projected False now lid mid rows = Inr (v, rows')" using assms(2) by simp
  then have t: "transition False lid (\<lambda>r. dr_state r = DDelivered)
       (\<lambda>r. r\<lparr>dr_state := DProjected, dr_message := Some mid, dr_updated := now\<rparr>) rows = Inr (v, rows')"
    by (auto simp: mark_projected_def res_simps identity_Inr)
  show ?thesis using transition_value[OF assms(1) _ t] project_moved[OF assms(1) m] by (auto simp: kept_simps)
qed

lemma cancel_value:
  assumes "durable_inv rows" and "cancel_prepared_row ro now lid reason rows = Inr (v, rows')"
  shows "dr_state v = DRejected"
proof -
  have t: "transition ro lid (\<lambda>r. dr_state r = DPrepared)
       (\<lambda>r. r\<lparr>dr_state := DRejected, dr_receipt := Some (cancel_receipt reason), dr_updated := now\<rparr>) rows = Inr (v, rows')"
    using assms(2) by (auto simp: cancel_prepared_row_def res_simps identity_Inr)
  show ?thesis using transition_value[OF assms(1) _ t] by (auto simp: kept_simps)
qed

lemma settle_value:
  assumes "durable_inv rows" and "confirm_settled ro now lid d rows = Inr (v, rows')"
  shows "dr_state v = DSettled \<and> en_id v = lid"
proof -
  consider (again) "ledger rows lid = Some v" "dr_state v = DSettled"
    | (moves) "transition ro lid (\<lambda>r. dr_state r = DProjected)
       (\<lambda>r. r\<lparr>dr_state := DSettled, dr_domain := Some d, dr_updated := now\<rparr>) rows = Inr (v, rows')"
    using assms(2)
    by (auto simp: confirm_settled_def res_simps identity_Inr writing_def required_ledger split: if_splits option.splits)
  then show ?thesis
  proof cases
    case again
    then show ?thesis using ledger_in by metis
  next
    case moves
    show ?thesis using transition_value[OF assms(1) _ moves] by (auto simp: kept_simps)
  qed
qed

lemma prepare_value:
  assumes "durable_inv rows" and "prepare ro now e rows = Inr (v, rows')"
  shows "ledger rows (en_id v) = Some v \<and> rows' = rows \<or> ledger rows (en_id v) = None \<and> dr_state v = DPrepared"
proof -
  obtain n where p: "prepare_row ro now n rows = Inr (v, rows')"
    using assms(2) by (auto simp: prepare_def res_simps)
  then show ?thesis
    using ledger_in by (fastforce simp: prepare_row_cases[OF inv_unique[OF assms(1)]] ledger_None split: if_splits option.splits)
qed

section \<open>The invariant of executions\<close>

text \<open>
  A delivery is granted at most one provider call, and never again once it left \<open>prepared\<close>; a started
  call to an outside channel always has the task that waits for it.
\<close>

definition granted_ok :: "durable_rows \<Rightarrow> (string \<Rightarrow> nat) \<Rightarrow> bool" where
  "granted_ok rows g \<longleftrightarrow> (\<forall>lid. g lid \<le> 1 \<and> (g lid = 1 \<longrightarrow> (\<exists>r. ledger rows lid = Some r \<and> dr_state r \<noteq> DPrepared)))"

definition outside_call :: "durable_rows \<Rightarrow> string \<Rightarrow> bool" where
  "outside_call rows lid \<longleftrightarrow> (\<exists>r. ledger rows lid = Some r \<and> dr_state r = DProviderStarted \<and> en_channel r \<noteq> akashic)"

definition waits_for :: "durable_pc \<Rightarrow> string \<Rightarrow> bool" where
  "waits_for pc lid \<longleftrightarrow> (\<exists>rq. pc = DSend rq True \<and> rq_id rq = lid)"

definition attended :: "durable_rows \<Rightarrow> (nat \<Rightarrow> durable_pc) \<Rightarrow> bool" where
  "attended rows tasks \<longleftrightarrow> (\<forall>lid. outside_call rows lid \<longrightarrow> (\<exists>i. waits_for (tasks i) lid))"

definition durable_ok :: "durable_world \<Rightarrow> bool" where
  "durable_ok w \<longleftrightarrow> durable_inv (dw_rows w) \<and> granted_ok (dw_rows w) (dw_granted w) \<and> attended (dw_rows w) (dw_tasks w)"

lemma kept_not_prepared: "kept r r' \<Longrightarrow> dr_state r \<noteq> DPrepared \<Longrightarrow> dr_state r' \<noteq> DPrepared"
  using path_rank[of "dr_state r" "dr_state r'"] by (auto simp: kept_def)

lemma granted_grows: "grows rows rows' \<Longrightarrow> granted_ok rows g \<Longrightarrow> granted_ok rows' g"
  unfolding granted_ok_def grows_def by (meson kept_not_prepared)

lemma attended_update:
  assumes "attended rows tasks" and "ledger rows' = (ledger rows)(en_id v \<mapsto> v)"
    and "dr_state v \<noteq> DProviderStarted \<or> waits_for p (en_id v)"
    and "\<And>lid. waits_for (tasks i) lid \<Longrightarrow> lid = en_id v"
  shows "attended rows' (tasks(i := p))"
  unfolding attended_def
proof (intro allI impI)
  fix lid assume o: "outside_call rows' lid"
  show "\<exists>j. waits_for ((tasks(i := p)) j) lid"
  proof (cases "lid = en_id v")
    case True
    then have "waits_for p lid" using o assms(2,3) by (auto simp: outside_call_def)
    then show ?thesis by (intro exI[of _ i]) simp
  next
    case False
    then have "outside_call rows lid" using o assms(2) by (simp add: outside_call_def)
    then obtain j where j: "waits_for (tasks j) lid" using assms(1) by (auto simp: attended_def)
    then have "j \<noteq> i" using assms(4) False by auto
    then show ?thesis using j by (intro exI[of _ j]) simp
  qed
qed

lemma attended_rest:
  assumes "attended rows tasks" and "\<And>lid. waits_for (tasks i) lid \<Longrightarrow> \<not> outside_call rows lid"
  shows "attended rows (tasks(i := p))"
  using assms unfolding attended_def fun_upd_def by metis

lemma result_refused:
  assumes "durable_inv rows" and "st \<in> {DDelivered, DRejected, DFailed}"
    and "mark_provider_result False now lid st rc rows = Inl e"
  shows "\<not> outside_call rows lid"
proof
  assume "outside_call rows lid"
  then obtain r where r: "ledger rows lid = Some r" "dr_state r = DProviderStarted" by (auto simp: outside_call_def)
  show False using result_succeeds[OF assms(1) r assms(2), of now rc] assms(3) by auto
qed

text \<open>One task acting on its own delivery.\<close>

lemma task_moved:
  assumes w: "durable_ok w" and m: "moved (dw_rows w) v rows'"
    and "dr_state v \<noteq> DProviderStarted \<or> waits_for p (en_id v)"
    and "\<And>lid. waits_for (dw_tasks w i) lid \<Longrightarrow> lid = en_id v"
  shows "durable_ok (set_task i (p, rows') w)"
proof -
  have "attended rows' ((dw_tasks w)(i := p))"
    by (rule attended_update[OF _ _ assms(3,4)]) (use w m in \<open>auto simp: durable_ok_def moved_def\<close>)
  then show ?thesis using w m granted_grows unfolding durable_ok_def moved_def set_task_def by auto
qed

lemma task_stays:
  assumes "durable_ok w" and "\<And>lid. waits_for (dw_tasks w i) lid \<Longrightarrow> \<not> outside_call (dw_rows w) lid"
  shows "durable_ok (set_task i (p, dw_rows w) w)"
  using assms attended_rest unfolding durable_ok_def set_task_def by auto

lemma idle_waits [simp]:
  "waits_for DIdle lid = False" "waits_for (DProject rq b) lid = False" "waits_for (DDone v) lid = False"
  "waits_for (DRaised e) lid = False" "waits_for (DSend rq False) lid = False"
  "waits_for (DSend rq True) lid = (rq_id rq = lid)"
  by (auto simp: waits_for_def)

lemma submit_ok:
  assumes w: "durable_ok w" and i: "dw_tasks w i = DIdle"
  shows "durable_ok (set_task i (submit_begin now rq (dw_rows w)) w)"
proof (cases "prepare False now (envelope_of rq) (dw_rows w)")
  case (Inl e)
  then show ?thesis using task_stays[OF w, of i] i by (simp add: submit_begin_def)
next
  case (Inr x)
  obtain row rows' where x: "prepare False now (envelope_of rq) (dw_rows w) = Inr (row, rows')"
    using Inr by (cases x) auto
  have inv: "durable_inv (dw_rows w)" using w by (simp add: durable_ok_def)
  have "rows' = dw_rows w \<or> dr_state row \<noteq> DProviderStarted" using prepare_value[OF inv x] by auto
  then show ?thesis
    using task_stays[OF w, of i] task_moved[OF w prepare_moved[OF inv x], of _ i] x i
    by (auto simp: submit_begin_def)
qed

lemma sender_returned_ok:
  assumes w: "durable_ok w" and i: "dw_tasks w i = DSend rq begun"
  shows "durable_ok (set_task i (sender_returned now rq begun cr (dw_rows w)) w)"
proof (cases "mark_provider_result False now (rq_id rq) (result_state (cr_status cr)) (receipt_doc cr) (dw_rows w)")
  case (Inl e)
  have inv: "durable_inv (dw_rows w)" using w by (simp add: durable_ok_def)
  have "result_state (cr_status cr) \<in> {DDelivered, DRejected, DFailed}" by (cases "cr_status cr") auto
  then have "\<not> outside_call (dw_rows w) (rq_id rq)"
    using result_refused[OF inv _ Inl] by blast
  then show ?thesis using Inl i task_stays[OF w, of i] by (cases begun) (auto simp: sender_returned_def)
next
  case (Inr x)
  have inv: "durable_inv (dw_rows w)" using w by (simp add: durable_ok_def)
  obtain row rows' where x: "x = (row, rows')" by (cases x) auto
  have m: "moved (dw_rows w) row rows'" using result_moved[OF inv] Inr x by blast
  have v: "en_id row = rq_id rq" "dr_state row \<noteq> DProviderStarted" using result_value[OF inv Inr[unfolded x]] by auto
  show ?thesis
    using task_moved[OF w m, of _ i] task_stays[OF w, of i] v i Inr x by (cases begun) (simp_all add: sender_returned_def)
qed

lemma sender_raised_ok:
  assumes w: "durable_ok w" and i: "dw_tasks w i = DSend rq begun"
  shows "durable_ok (set_task i (sender_raised now rq begun e (dw_rows w)) w)"
proof (cases "mark_provider_result False now (rq_id rq) DFailed interrupted_doc (dw_rows w)")
  case (Inl e')
  have inv: "durable_inv (dw_rows w)" using w by (simp add: durable_ok_def)
  have "\<not> outside_call (dw_rows w) (rq_id rq)"
    using result_refused[OF inv _ Inl] by blast
  then show ?thesis using Inl i task_stays[OF w, of i] by (cases begun) (auto simp: sender_raised_def)
next
  case (Inr x)
  have inv: "durable_inv (dw_rows w)" using w by (simp add: durable_ok_def)
  obtain row rows' where x: "x = (row, rows')" by (cases x) auto
  have m: "moved (dw_rows w) row rows'" using result_moved[OF inv] Inr x by blast
  have v: "en_id row = rq_id rq" "dr_state row \<noteq> DProviderStarted" using result_value[OF inv Inr[unfolded x]] by auto
  show ?thesis
    using task_moved[OF w m, of _ i] task_stays[OF w, of i] v i Inr x by (cases begun) (simp_all add: sender_raised_def)
qed

lemma projected_ok:
  assumes w: "durable_ok w" and i: "dw_tasks w i = DProject rq recovering"
  shows "durable_ok (set_task i (projected now rq recovering mid (dw_rows w)) w)"
proof (cases "(if recovering then mark_recovered else mark_projected) False now (rq_id rq) mid (dw_rows w)")
  case (Inl e)
  then show ?thesis using i task_stays[OF w, of i] by (simp add: projected_def)
next
  case (Inr x)
  have inv: "durable_inv (dw_rows w)" using w by (simp add: durable_ok_def)
  obtain row rows' where x: "x = (row, rows')" by (cases x) auto
  have v: "dr_state row = DProjected" "moved (dw_rows w) row rows'" using projected_value[OF inv Inr[unfolded x]] by auto
  show ?thesis using task_moved[OF w v(2), of _ i] v(1) i Inr x by (simp add: projected_def)
qed

lemma grant_ok:
  assumes w: "durable_ok w" and i: "dw_tasks w i = DSend rq begun"
    and m: "mark_started now rq attempt (dw_rows w) = Inr (row, rows')"
  shows "durable_ok (set_task i (DSend rq True, rows') (w\<lparr>dw_granted := (dw_granted w)(rq_id rq := dw_granted w (rq_id rq) + 1)\<rparr>))"
proof -
  have inv: "durable_inv (dw_rows w)" and g: "granted_ok (dw_rows w) (dw_granted w)"
    using w by (auto simp: durable_ok_def)
  note m' = m[unfolded mark_started_def]
  have v: "en_id row = rq_id rq" "dr_state row = DProviderStarted" "\<exists>r. ledger (dw_rows w) (rq_id rq) = Some r \<and> dr_state r = DPrepared"
    using start_value[OF inv m'] by auto
  have mv: "moved (dw_rows w) row rows'" by (rule start_moved[OF inv m'])
  have zero: "dw_granted w (rq_id rq) = 0"
    using g v(3) unfolding granted_ok_def by (metis le_neq_implies_less less_one option.inject)
  have "granted_ok rows' (dw_granted w)" using granted_grows g mv by (auto simp: moved_def)
  then have "granted_ok rows' ((dw_granted w)(rq_id rq := dw_granted w (rq_id rq) + 1))"
    using zero v mv by (auto simp: granted_ok_def moved_def)
  moreover have "durable_ok (set_task i (DSend rq True, rows') w)"
    by (rule task_moved[OF w mv]) (use v i in \<open>auto simp: waits_for_def\<close>)
  ultimately show ?thesis by (simp add: durable_ok_def set_task_def)
qed

lemma rows_moved:
  assumes w: "durable_ok w" and m: "moved (dw_rows w) v rows'" and "dr_state v \<noteq> DProviderStarted"
  shows "durable_ok (w\<lparr>dw_rows := rows'\<rparr>)"
proof -
  have "attended rows' (dw_tasks w)"
    using w m assms(3) unfolding durable_ok_def moved_def attended_def outside_call_def
    by (metis fun_upd_apply option.inject)
  then show ?thesis using w m granted_grows by (auto simp: durable_ok_def moved_def)
qed

lemma restart_ok:
  assumes w: "durable_ok w" and "recover_interrupted False now (dw_rows w) = Inr (n, rows')"
  shows "durable_ok (w\<lparr>dw_rows := rows', dw_tasks := (\<lambda>_. DIdle)\<rparr>)"
proof -
  have inv: "durable_inv (dw_rows w)" using w by (simp add: durable_ok_def)
  note r = recover_moves[OF inv assms(2)]
  have "\<not> outside_call rows' lid" for lid
    using r unfolding outside_call_def by (auto split: if_splits)
  then show ?thesis using r w granted_grows by (auto simp: durable_ok_def attended_def)
qed

lemma run_ok: "durable_run w w' \<Longrightarrow> durable_ok w \<Longrightarrow> durable_ok w'"
proof (induction rule: durable_run.induct)
  case (Resume w i now turn)
  show ?case
  proof (cases "bindR (required_view (dw_rows w) turn) request_of")
    case (Inl e)
    then show ?thesis using task_stays[OF Resume(2), of i] Resume(1) by (simp add: resume_begin_def)
  next
    case (Inr rq)
    then show ?thesis using submit_ok[OF Resume(2,1)] by (simp add: resume_begin_def)
  qed
next
  case (Cancel now turn reason w v rows')
  have inv: "durable_inv (dw_rows w)" using Cancel(2) by (simp add: durable_ok_def)
  from Cancel(1) obtain lid row where c: "cancel_prepared_row False now lid reason (dw_rows w) = Inr (row, rows')"
    by (auto simp: cancel_turn_def res_simps)
  show ?case using rows_moved[OF Cancel(2) cancel_moved[OF inv c]] cancel_value[OF inv c] by simp
next
  case (Settle now lid receipt w v rows')
  have inv: "durable_inv (dw_rows w)" using Settle(2) by (simp add: durable_ok_def)
  from Settle(1) obtain row where c: "confirm_settled False now lid receipt (dw_rows w) = Inr (row, rows')"
    by (auto simp: settle_turn_def res_simps)
  show ?case using rows_moved[OF Settle(2) settle_moved[OF inv c]] settle_value[OF inv c] by simp
next
  case (Grant w i rq begun now attempt row rows')
  then show ?case by (intro grant_ok)
next
  case (Project_Raise w i rq recovering e)
  then show ?case using task_stays[of w i] by simp
next
  case (Collect w i v e)
  then show ?case using task_stays[of w i] by auto
qed (auto intro: submit_ok grant_ok sender_returned_ok sender_raised_ok projected_ok restart_ok)

lemma runs_ok: "durable_run\<^sup>*\<^sup>* w w' \<Longrightarrow> durable_ok w \<Longrightarrow> durable_ok w'"
  by (induction rule: rtranclp_induct) (auto dest: run_ok)

lemma start_ok [simp]: "durable_ok durable_start"
  by (auto simp: durable_ok_def durable_start_def granted_ok_def attended_def outside_call_def ledger_def)

end
