(* ===== verification/Durable_Properties.thy ===== *)
theory Durable_Properties
  imports Durable_Deliveries
begin

text \<open>
  The properties of durable deliveries: the ledger refines an abstract map from deliveries to rows,
  rows only move forward, an outside provider is called at most once per delivery, and no delivery is
  lost between the sender, the projector and a crash.
\<close>

section \<open>A sample delivery\<close>

definition sample_request :: durable_request where
  "sample_request = \<lparr>rq_id = ''d1'', rq_turn = (''s'', ''t''), rq_service = ''svc'', rq_channel = ''mail'',
     rq_recipient = ''u'', rq_projection = ''p'', rq_body = ''hi'', rq_metadata = [(KStr ''k'', VInt 1)]\<rparr>"

definition sample_envelope :: envelope where
  "sample_envelope = \<lparr>en_id = ''d1'', en_session = ''s'', en_turn = ''t'', en_service = ''svc'', en_channel = ''mail'',
     en_recipient = ''u'', en_projection = ''p'', en_body = ''hi'', en_metadata = JObj [(''k'', JInt 1)]\<rparr>"

definition sample_row :: durable_row where
  "sample_row = new_row sample_envelope ''0''"

definition sent_row :: durable_row where
  "sent_row = sample_row\<lparr>dr_state := DProviderStarted, dr_attempt := Some ''a'', dr_snapshot := Some ''b'',
     dr_generation := Some ''c'', dr_binding := Some ''d'', dr_updated := ''1''\<rparr>"

lemmas strip_eval = stripped_def white_space_def code_def upt_rec list_all_iff Let_def

lemma sample_ids [simp]:
  "identity (VStr ''d1'') = Inr ''d1''" "identity (VStr ''s'') = Inr ''s''" "identity (VStr ''t'') = Inr ''t''"
  "identity (VStr ''svc'') = Inr ''svc''" "identity (VStr ''mail'') = Inr ''mail''" "identity (VStr ''u'') = Inr ''u''"
  "identity (VStr ''p'') = Inr ''p''" "identity (VStr ''a'') = Inr ''a''" "identity (VStr ''b'') = Inr ''b''"
  "identity (VStr ''c'') = Inr ''c''" "identity (VStr ''d'') = Inr ''d''"
  by (simp_all add: identity.simps strip_eval)

lemma sample_normal [simp]: "normalize_envelope (envelope_of sample_request) = Inr sample_envelope"
  by (simp add: normalize_envelope_def envelope_of_def sample_request_def sample_envelope_def envelope_get_def
      ensure_def dumped_def)

lemma prepared_sample [simp]: "prepare False ''0'' (envelope_of sample_request) [] = Inr (sample_row, [sample_row])"
  by (simp add: prepare_def prepare_row_cases unique_rows_def sample_row_def)

lemma sample_unique: "unique_rows [sample_row]"
  by (simp add: unique_rows_def)

lemma sample_row_sel [simp]:
  "en_id sample_row = ''d1''" "dr_state sample_row = DPrepared" "en_id sent_row = ''d1''"
  "dr_state sent_row = DProviderStarted" "en_channel sent_row = ''mail''"
  by (simp_all add: sample_row_def sent_row_def sample_envelope_def new_row_def envelope.extend_def durable_row.fields_def)

lemma sample_started [simp]:
  "mark_provider_started False ''1'' ''d1'' (''a'', ''b'', ''c'', ''d'') [sample_row] = Inr (sent_row, [sent_row])"
  by (simp add: mark_provider_started_def transition_cases[OF sample_unique] kept_simps ledger_def sent_row_def)

lemma sample_inv [simp]: "durable_inv [sample_row]"
  using prepare_moved[OF durable_inv_Nil prepared_sample] by (simp add: moved_def)

lemma sent_inv [simp]: "durable_inv [sent_row]"
  using start_moved[OF sample_inv sample_started] by (simp add: moved_def)

definition sample_world :: durable_world where
  "sample_world = set_task 0 (DSend sample_request False, [sample_row]) durable_start"

definition sent_world :: durable_world where
  "sent_world = set_task 0 (DSend sample_request True, [sent_row])
     (sample_world\<lparr>dw_granted := (dw_granted sample_world)(''d1'' := 1)\<rparr>)"

lemma sample_run: "durable_run\<^sup>*\<^sup>* durable_start sent_world"
proof -
  have "mk_request sample_request = Inr sample_request"
    by (simp add: mk_request_def sample_request_def validate_message_delivery_id_def char_count_def strip_eval ensure_def)
  then have "durable_run durable_start (set_task 0 (submit_begin ''0'' sample_request (dw_rows durable_start)) durable_start)"
    by (intro Submit) (simp add: durable_start_def)
  then have 1: "durable_run durable_start sample_world"
    by (simp add: submit_begin_def durable_start_def sample_world_def)
  have "durable_run sample_world (set_task 0 (DSend sample_request True, [sent_row])
     (sample_world\<lparr>dw_granted := (dw_granted sample_world)(rq_id sample_request := dw_granted sample_world (rq_id sample_request) + 1)\<rparr>))"
    by (rule Grant[where now = "''1''" and attempt = "(''a'', ''b'', ''c'', ''d'')"])
      (auto simp: sample_world_def set_task_def mark_started_def, simp add: sample_request_def)
  then have "durable_run sample_world sent_world"
    by (simp add: sent_world_def sample_world_def set_task_def durable_start_def sample_request_def)
  with 1 show ?thesis by auto
qed

section \<open>The ledger refines a map\<close>

text \<open>The specification speaks of a map from deliveries to rows and of nothing else of the store: which mapping denotes which
  envelope, what a new row holds and which receipts the ledger writes itself are stated here again.\<close>

type_synonym durable_ledger = "string \<Rightarrow> durable_row option"

definition text_at :: "(string \<times> pyval) list \<Rightarrow> string \<Rightarrow> string \<Rightarrow> bool" where
  "text_at e k s \<longleftrightarrow> map_of e k = Some (VStr s) \<and> id_ok s"

definition denotes :: "(string \<times> pyval) list \<Rightarrow> envelope \<Rightarrow> bool" where
  "denotes e n \<longleftrightarrow> text_at e ''logical_delivery_id'' (en_id n) \<and> text_at e ''accepted_session_id'' (en_session n)
     \<and> text_at e ''accepted_turn_id'' (en_turn n) \<and> text_at e ''target_service'' (en_service n) \<and> text_at e ''channel'' (en_channel n)
     \<and> text_at e ''recipient'' (en_recipient n) \<and> text_at e ''projection_session_id'' (en_projection n)
     \<and> map_of e ''body'' = Some (VStr (en_body n)) \<and> en_body n \<noteq> []
     \<and> (\<exists>kvs j. map_of e ''metadata'' = Some (VMap kvs) \<and> (\<forall>p \<in> set kvs. key_is_str (fst p)) \<and> freeze_json (VMap kvs) = Inr j
          \<and> en_metadata n = json_sorted j)"

definition spec_change ::
  "bool \<Rightarrow> string \<Rightarrow> (durable_row \<Rightarrow> bool) \<Rightarrow> (durable_row \<Rightarrow> durable_row) \<Rightarrow> durable_ledger \<Rightarrow> (durable_row \<times> durable_ledger) res" where
  "spec_change ro lid P f m =
     (if ro then Inl PermissionError
      else case m lid of Some r \<Rightarrow> if P r then Inr (f r, m(lid \<mapsto> f r)) else Inl RuntimeError | None \<Rightarrow> Inl RuntimeError)"

definition fresh_row :: "envelope \<Rightarrow> string \<Rightarrow> durable_row" where
  "fresh_row e now = \<lparr>en_id = en_id e, en_session = en_session e, en_turn = en_turn e, en_service = en_service e, en_channel = en_channel e,
     en_recipient = en_recipient e, en_projection = en_projection e, en_body = en_body e, en_metadata = en_metadata e,
     dr_state = DPrepared, dr_attempt = None, dr_snapshot = None, dr_generation = None, dr_binding = None, dr_receipt = None,
     dr_message = None, dr_domain = None, dr_created = now, dr_updated = now\<rparr>"

definition spec_prepare :: "bool \<Rightarrow> string \<Rightarrow> envelope \<Rightarrow> durable_ledger \<Rightarrow> (durable_row \<times> durable_ledger) res" where
  "spec_prepare ro now e m =
     (if ro then Inl PermissionError
      else case m (en_id e) of
        Some r \<Rightarrow> if envelope.truncate r = e then Inr (r, m) else Inl RuntimeError
      | None \<Rightarrow> if \<exists>r \<in> ran m. en_session r = en_session e \<and> en_turn r = en_turn e then Inl RuntimeError
                else Inr (fresh_row e now, m(en_id e \<mapsto> fresh_row e now)))"

text \<open>The results the specification admits: exactly one, but for the class of the exception that refuses a
  mapping which denotes no envelope.\<close>

fun spec_op :: "bool \<Rightarrow> string \<Rightarrow> durable_call \<Rightarrow> durable_ledger \<Rightarrow> (durable_row \<times> durable_ledger) res set" where
  "spec_op ro now (CPrepare e) m =
     {res. (\<forall>n. denotes e n \<longrightarrow> res = spec_prepare ro now n m) \<and> ((\<nexists>n. denotes e n) \<longrightarrow> (\<exists>er. res = Inl er))}"
| "spec_op ro now (CStart lid (a, s, g, b)) m =
     {if \<not> (id_ok lid \<and> id_ok a \<and> id_ok s \<and> id_ok g \<and> id_ok b) then Inl ValueError
      else spec_change ro lid (\<lambda>r. dr_state r = DPrepared)
        (\<lambda>r. r\<lparr>dr_state := DProviderStarted, dr_attempt := Some a, dr_snapshot := Some s,
              dr_generation := Some g, dr_binding := Some b, dr_updated := now\<rparr>) m}"
| "spec_op ro now (CCancel lid reason) m =
     {if \<not> (id_ok lid \<and> id_ok reason) then Inl ValueError
      else spec_change ro lid (\<lambda>r. dr_state r = DPrepared)
        (\<lambda>r. r\<lparr>dr_state := DRejected,
              dr_receipt := Some (JObj [(''error'', JStr reason), (''provider_started'', JBool False), (''status'', JStr ''rejected'')]),
              dr_updated := now\<rparr>) m}"
| "spec_op ro now (CResult lid st rc) m =
     {if \<not> (id_ok lid \<and> st \<in> {DDelivered, DRejected, DFailed}) then Inl ValueError
      else spec_change ro lid (\<lambda>r. dr_state r = DProviderStarted)
        (\<lambda>r. r\<lparr>dr_state := st, dr_receipt := Some (json_sorted (JObj rc)), dr_updated := now\<rparr>) m}"
| "spec_op ro now (CRecovered lid mid) m =
     {if \<not> (id_ok lid \<and> id_ok mid) then Inl ValueError
      else spec_change ro lid (\<lambda>r. dr_state r = DProviderStarted \<and> en_channel r = ''akashic'')
        (\<lambda>r. r\<lparr>dr_state := DProjected,
              dr_receipt := Some (JObj [(''delivery_id'', JStr lid), (''recovered_from'', JStr ''session''), (''status'', JStr ''delivered'')]),
              dr_message := Some mid, dr_updated := now\<rparr>) m}"
| "spec_op ro now (CProject lid mid) m =
     {if \<not> (id_ok lid \<and> id_ok mid) then Inl ValueError
      else spec_change ro lid (\<lambda>r. dr_state r = DDelivered)
        (\<lambda>r. r\<lparr>dr_state := DProjected, dr_message := Some mid, dr_updated := now\<rparr>) m}"
| "spec_op ro now (CSettle lid d) m =
     {if \<not> (id_ok lid \<and> id_ok d) then Inl ValueError
      else if \<not> ro \<and> (\<exists>r. m lid = Some r \<and> dr_state r = DSettled \<and> dr_domain r = Some d) then Inr (the (m lid), m)
      else spec_change ro lid (\<lambda>r. dr_state r = DProjected)
        (\<lambda>r. r\<lparr>dr_state := DSettled, dr_domain := Some d, dr_updated := now\<rparr>) m}"

text \<open>After a restart: every call that was out, but to the program's own channel, has failed.\<close>

definition was_out :: "durable_row \<Rightarrow> bool" where
  "was_out r \<longleftrightarrow> dr_state r = DProviderStarted \<and> en_channel r \<noteq> ''akashic''"

definition spec_interrupt :: "bool \<Rightarrow> string \<Rightarrow> durable_ledger \<Rightarrow> (nat \<times> durable_ledger) res" where
  "spec_interrupt ro now m =
     (if ro then Inl PermissionError
      else Inr (card {lid. \<exists>r. m lid = Some r \<and> was_out r},
        \<lambda>lid. map_option (\<lambda>r. if was_out r
           then r\<lparr>dr_state := DFailed, dr_updated := now,
                  dr_receipt := Some (JObj [(''error'', JStr ''provider call interrupted; delivery may have occurred''), (''status'', JStr ''failed'')])\<rparr>
           else r) (m lid)))"

abbreviation as_ledger :: "('a \<times> durable_rows) res \<Rightarrow> ('a \<times> durable_ledger) res" where
  "as_ledger \<equiv> map_sum id (map_prod id ledger)"

lemma identity_VStr: "identity (VStr s) = (if id_ok s then Inr s else Inl ValueError)"
  by (auto simp: identity.simps id_ok_def)

lemma ledger_upd:
  assumes "\<And>r. en_id (f r) = en_id r" and "ledger rows lid = Some r"
  shows "ledger (map (\<lambda>x. if en_id x = lid then f x else x) rows) = (ledger rows)(lid \<mapsto> f r)"
proof
  fix k show "ledger (map (\<lambda>x. if en_id x = lid then f x else x) rows) k = ((ledger rows)(lid \<mapsto> f r)) k"
    using ledger_map[of "\<lambda>x. if en_id x = lid then f x else x" rows k] assms ledger_in[of rows k]
    by (cases "ledger rows k") auto
qed

lemma transition_spec:
  assumes "unique_rows rows" and "same_envelope f"
  shows "as_ledger (transition ro lid P f rows) = spec_change ro lid P f (ledger rows)"
  using ledger_upd[of f] same_envelope_fields(1)[OF assms(2)]
  by (simp add: transition_cases[OF assms] spec_change_def split: option.split)

lemma ledger_ran: "unique_rows rows \<Longrightarrow> ran (ledger rows) = set rows"
  using ledger_of ledger_in unfolding ran_def by fastforce

lemma new_row_fresh: "new_row e now = fresh_row e now"
  by (simp add: new_row_def fresh_row_def envelope.extend_def durable_row.fields_def)

lemma fresh_row_id [simp]: "en_id (fresh_row e now) = en_id e"
  by (simp add: fresh_row_def)

lemma normalize_denotes: "normalize_envelope e = Inr n \<longleftrightarrow> denotes e n"
proof -
  have ids: "identity (envelope_get e k) = Inr s \<longleftrightarrow> text_at e k s" for k s
    by (auto simp: identity_Inr envelope_get_def text_at_def split: option.splits)
  have "nonempty_text v = Inr b \<longleftrightarrow> v = VStr b \<and> b \<noteq> []" for v b by (cases v) auto
  then have body: "nonempty_text (envelope_get e ''body'') = Inr b \<longleftrightarrow> map_of e ''body'' = Some (VStr b) \<and> b \<noteq> []" for b
    by (cases "map_of e ''body''") (simp_all add: envelope_get_def)
  have meta: "text_keyed (envelope_get e ''metadata'') \<and> dumped (envelope_get e ''metadata'') = Inr m \<longleftrightarrow>
     (\<exists>kvs j. map_of e ''metadata'' = Some (VMap kvs) \<and> (\<forall>p \<in> set kvs. key_is_str (fst p)) \<and> freeze_json (VMap kvs) = Inr j \<and> m = json_sorted j)" for m
  proof (cases "map_of e ''metadata''")
    case (Some v)
    then show ?thesis by (cases v) (auto simp: envelope_get_def dumped_def res_simps list_all_iff simp del: freeze_json.simps)
  qed (simp add: envelope_get_def)
  have "normalize_envelope e = Inr n \<longleftrightarrow>
      text_keyed (envelope_get e ''metadata'') \<and> dumped (envelope_get e ''metadata'') = Inr (en_metadata n)
      \<and> nonempty_text (envelope_get e ''body'') = Inr (en_body n)
      \<and> identity (envelope_get e ''logical_delivery_id'') = Inr (en_id n) \<and> identity (envelope_get e ''accepted_session_id'') = Inr (en_session n)
      \<and> identity (envelope_get e ''accepted_turn_id'') = Inr (en_turn n) \<and> identity (envelope_get e ''target_service'') = Inr (en_service n)
      \<and> identity (envelope_get e ''channel'') = Inr (en_channel n) \<and> identity (envelope_get e ''recipient'') = Inr (en_recipient n)
      \<and> identity (envelope_get e ''projection_session_id'') = Inr (en_projection n)"
    by (cases n) (auto simp: normalize_envelope_def res_simps)
  then show ?thesis unfolding ids body denotes_def using meta[of "en_metadata n"] by blast
qed

lemma interrupt_spec:
  assumes "unique_rows rows"
  shows "as_ledger (recover_interrupted ro now rows) = spec_interrupt ro now (ledger rows)"
proof -
  let ?f = "\<lambda>r. if was_out r
      then r\<lparr>dr_state := DFailed, dr_receipt := Some interrupted_receipt, dr_updated := now\<rparr> else r"
  have out: "(\<lambda>r. dr_state r = DProviderStarted \<and> en_channel r \<noteq> akashic) = was_out" by (simp add: was_out_def akashic_def fun_eq_iff)
  have "ledger (map ?f rows) = (\<lambda>lid. map_option ?f (ledger rows lid))" using ledger_map[of ?f rows] by (simp add: fun_eq_iff)
  moreover have "length (filter was_out rows) = card {lid. \<exists>r. ledger rows lid = Some r \<and> was_out r}"
  proof -
    have "distinct (map en_id (filter was_out rows))" using assms by (simp add: unique_rows_def distinct_map_filter)
    then have "length (filter was_out rows) = card (set (map en_id (filter was_out rows)))" using distinct_card by fastforce
    moreover have "set (map en_id (filter was_out rows)) = {lid. \<exists>r. ledger rows lid = Some r \<and> was_out r}"
      using ledger_of[OF assms] ledger_in[of rows] by fastforce
    ultimately show ?thesis by simp
  qed
  moreover have "recover_interrupted ro now rows = (if ro then Inl PermissionError else Inr (length (filter was_out rows), map ?f rows))"
    by (simp add: recover_interrupted_def writing_def update_rows_def out)
  moreover have "?f = (\<lambda>r. if was_out r
           then r\<lparr>dr_state := DFailed, dr_updated := now,
                  dr_receipt := Some (JObj [(''error'', JStr ''provider call interrupted; delivery may have occurred''), (''status'', JStr ''failed'')])\<rparr>
           else r)"
    by (simp add: interrupted_receipt_def fun_eq_iff)
  ultimately show ?thesis unfolding spec_interrupt_def by simp
qed

lemma prepare_spec:
  assumes "unique_rows rows"
  shows "as_ledger (prepare_row ro now e rows) = spec_prepare ro now e (ledger rows)"
proof (cases "ledger rows (en_id e)")
  case None
  have "ledger (rows @ [fresh_row e now]) = (ledger rows)(en_id e \<mapsto> fresh_row e now)"
    using None by (auto simp: ledger_append fun_eq_iff split: option.split)
  moreover have "\<forall>r \<in> set rows. en_id r \<noteq> en_id e" using None by (simp add: ledger_None)
  ultimately show ?thesis
    using None by (auto simp: prepare_row_cases[OF assms] new_row_fresh spec_prepare_def ledger_ran[OF assms])
next
  case (Some r)
  then have "\<exists>r \<in> set rows. en_id r = en_id e" using ledger_in by blast
  then show ?thesis using Some by (auto simp: prepare_row_cases[OF assms] new_row_fresh spec_prepare_def)
qed

text \<open>C7. The ledger refines its specification. On every table the store can reach, every writing operation, on a writable or a
  read-only store, returns what the specification admits of the abstract map, the same row or the same exception, and leaves
  the table that represents the new map; the recovery after a restart fails exactly the calls that were out, and counts
  them.\<close>

theorem ledger_refines:
  assumes "durable_step\<^sup>*\<^sup>* [] rows"
  shows "as_ledger (durable_op ro now c rows) \<in> spec_op ro now c (ledger rows)
    \<and> as_ledger (recover_interrupted ro now rows) = spec_interrupt ro now (ledger rows)"
proof (rule conjI[OF _ interrupt_spec])
  show u: "unique_rows rows" using steps_move[OF assms] inv_unique by simp
  show "as_ledger (durable_op ro now c rows) \<in> spec_op ro now c (ledger rows)"
  proof (cases c)
    case (CPrepare e)
    then show ?thesis
      using prepare_spec[OF u, of ro now] by (cases "normalize_envelope e") (auto simp: prepare_def normalize_denotes[symmetric])
  next
    case (CStart lid at)
    obtain a s g b where at: "at = (a, s, g, b)" by (cases at) auto
    show ?thesis unfolding CStart at
      by (simp add: mark_provider_started_def identity_VStr transition_spec[OF u] kept_simps)
  next
    case (CCancel lid reason)
    then show ?thesis
      by (simp add: cancel_prepared_row_def cancel_receipt_def identity_VStr transition_spec[OF u] kept_simps ensure_def id_ok_def spec_change_def)
  next
    case (CResult lid st rc)
    then show ?thesis
      by (simp add: mark_provider_result_def identity_VStr transition_spec[OF u] kept_simps ensure_def del: json_sorted.simps)
  next
    case (CRecovered lid mid)
    then show ?thesis
      by (simp add: mark_recovered_def recovered_receipt_def akashic_def identity_VStr transition_spec[OF u] kept_simps spec_change_def)
  next
    case (CProject lid mid)
    then show ?thesis by (simp add: mark_projected_def identity_VStr transition_spec[OF u] kept_simps)
  next
    case (CSettle lid d)
    then show ?thesis
      by (auto simp: confirm_settled_def identity_VStr transition_spec[OF u] kept_simps writing_def required_ledger
          spec_change_def split: option.splits)
  qed
qed

lemma sample_step: "durable_step\<^sup>*\<^sup>* [] [sample_row]" "durable_step\<^sup>*\<^sup>* [sample_row] [sent_row]"
proof -
  have "durable_op False ''0'' (CPrepare (envelope_of sample_request)) [] = Inr (sample_row, [sample_row])" by simp
  then have "durable_step [] [sample_row]" by (rule durable_step.Call)
  then show "durable_step\<^sup>*\<^sup>* [] [sample_row]" by (rule r_into_rtranclp)
  have "durable_op False ''1'' (CStart ''d1'' (''a'', ''b'', ''c'', ''d'')) [sample_row] = Inr (sent_row, [sent_row])" by simp
  then have "durable_step [sample_row] [sent_row]" by (rule durable_step.Call)
  then show "durable_step\<^sup>*\<^sup>* [sample_row] [sent_row]" by (rule r_into_rtranclp)
qed

lemma ledger_refines_witness:
  "as_ledger (durable_op False ''1'' (CStart ''d1'' (''a'', ''b'', ''c'', ''d'')) [sample_row])
     \<in> spec_op False ''1'' (CStart ''d1'' (''a'', ''b'', ''c'', ''d'')) (ledger [sample_row])
   \<and> as_ledger (recover_interrupted False ''2'' [sent_row]) = spec_interrupt False ''2'' (ledger [sent_row])
   \<and> spec_interrupt False ''2'' (ledger [sent_row]) \<noteq> Inr (0, ledger [sent_row])"
proof -
  have "durable_step\<^sup>*\<^sup>* [] [sent_row]" using sample_step by (rule rtranclp_trans)
  note sent = ledger_refines[OF this, of False "''2''"]
  have "recover_interrupted False ''2'' [sent_row] = Inr (1, snd (projr (recover_interrupted False ''2'' [sent_row])))"
    by (simp add: recover_interrupted_def writing_def update_rows_def akashic_def)
  then have "as_ledger (recover_interrupted False ''2'' [sent_row]) \<noteq> Inr (0, ledger [sent_row])"
    by (metis map_sum.simps(2) map_prod_simp Inr_inject prod.inject id_apply zero_neq_one)
  then show ?thesis using ledger_refines[OF sample_step(1)] sent by metis
qed

section \<open>Forward only\<close>

lemma kept_terminal: "kept r r' \<Longrightarrow> dr_state r \<in> {DSettled, DRejected, DFailed} \<Longrightarrow> r' = r"
  using terminal_path unfolding kept_def by metis

text \<open>C16. A delivery only moves forward: over any sequence of store operations, on any number of deliveries, a
  row is never lost, keeps its envelope and creation time, keeps every column once it is set, moves
  only along the edges of the state machine, and a settled, rejected or failed row never changes;
  the rows stay unique and carry exactly the columns of their state.\<close>

theorem durable_forward_only:
  assumes "durable_step\<^sup>*\<^sup>* [] rows" and "durable_step\<^sup>*\<^sup>* rows rows'" and "ledger rows lid = Some r"
  shows "(\<exists>r'. ledger rows' lid = Some r' \<and> kept r r' \<and> columns_ok (dr_state r') r'
      \<and> (dr_state r \<in> {DSettled, DRejected, DFailed} \<longrightarrow> r' = r)) \<and> unique_rows rows'"
proof -
  have inv: "durable_inv rows" using steps_move[OF assms(1)] by simp
  have g: "durable_inv rows'" "grows rows rows'" using steps_move[OF assms(2) inv] by auto
  then obtain r' where r': "ledger rows' lid = Some r'" "kept r r'" using assms(3) by (auto simp: grows_def)
  have "durable_row_ok r'" using row_ok_ledger[OF g(1) r'(1)] by simp
  then show ?thesis using r' kept_terminal inv_unique[OF g(1)] by (auto simp: durable_row_ok_def)
qed

theorem durable_forward_only_witness:
  "ledger [sample_row] ''d1'' = Some sample_row \<and> (\<exists>r'. ledger [sent_row] ''d1'' = Some r' \<and> kept sample_row r')"
  using durable_forward_only[OF sample_step, of "''d1''" sample_row] by (auto simp: ledger_def)

section \<open>Provider calls\<close>

text \<open>C2. An outside provider is called at most once per delivery: over any interleaving of submissions,
  resumptions, cancellations, settlements, failing callbacks and restarts, at most one call is ever
  granted for a logical delivery, and the grant is durable: the stored row has left \<open>prepared\<close>.\<close>

theorem provider_called_once:
  assumes "durable_run\<^sup>*\<^sup>* durable_start w"
  shows "dw_granted w lid \<le> 1
    \<and> (dw_granted w lid = 1 \<longrightarrow> (\<exists>r. ledger (dw_rows w) lid = Some r \<and> dr_state r \<noteq> DPrepared))"
  using runs_ok[OF assms start_ok] by (simp add: durable_ok_def granted_ok_def)

theorem provider_called_once_witness:
  "dw_granted sent_world ''d1'' = 1 \<and> (\<exists>r. ledger (dw_rows sent_world) ''d1'' = Some r \<and> dr_state r \<noteq> DPrepared)"
proof -
  have "dw_granted sent_world ''d1'' = 1" by (simp add: sent_world_def set_task_def)
  then show ?thesis using provider_called_once[OF sample_run, of "''d1''"] by blast
qed

text \<open>C13. No delivery is forgotten: in every reachable state, restarts included, a stored delivery is finished
  (settled, rejected or failed), or enumerated by \<open>recoverable\<close> so that it can be resumed, or being
  sent by a running task that still waits for its provider.\<close>

theorem no_delivery_forgotten:
  assumes "durable_run\<^sup>*\<^sup>* durable_start w" and "ledger (dw_rows w) lid = Some r"
  shows "dr_state r \<in> {DSettled, DRejected, DFailed} \<or> r \<in> set (recoverable (dw_rows w))
    \<or> (\<exists>i rq. dw_tasks w i = DSend rq True \<and> rq_id rq = lid)"
proof -
  have ok: "durable_ok w" by (rule runs_ok[OF assms(1) start_ok])
  have r: "r \<in> set (dw_rows w)" using ledger_in[OF assms(2)] by simp
  show ?thesis
  proof (cases "forward_progress r \<or> dr_state r \<in> {DSettled, DRejected, DFailed}")
    case True
    then show ?thesis using r by (auto simp: recoverable_def)
  next
    case False
    then have "dr_state r = DProviderStarted" "en_channel r \<noteq> akashic"
      by (cases "dr_state r"; auto simp: forward_progress_def)+
    then have "outside_call (dw_rows w) lid" using assms(2) by (auto simp: outside_call_def)
    then show ?thesis using ok by (auto simp: durable_ok_def attended_def waits_for_def)
  qed
qed

theorem no_delivery_forgotten_witness:
  "ledger (dw_rows sent_world) ''d1'' = Some sent_row \<and> dr_state sent_row \<notin> {DSettled, DRejected, DFailed}
     \<and> sent_row \<notin> set (recoverable (dw_rows sent_world)) \<and> (\<exists>i rq. dw_tasks sent_world i = DSend rq True \<and> rq_id rq = ''d1'')"
proof -
  have r: "dw_rows sent_world = [sent_row]" by (simp add: sent_world_def set_task_def)
  then have l: "ledger (dw_rows sent_world) ''d1'' = Some sent_row" by (simp add: ledger_def)
  moreover have "sent_row \<notin> set (recoverable (dw_rows sent_world))"
    by (simp add: r recoverable_def forward_progress_def akashic_def)
  ultimately show ?thesis using no_delivery_forgotten[OF sample_run l] by simp
qed

section \<open>Resuming\<close>

text \<open>A cooperating sender and projector finish a resumed delivery.\<close>

fun finish_pc :: "string \<Rightarrow> string \<times> string \<times> string \<times> string \<Rightarrow> channel_receipt \<Rightarrow> string
     \<Rightarrow> nat \<Rightarrow> durable_pc \<times> durable_rows \<Rightarrow> durable_pc \<times> durable_rows" where
  "finish_pc now at cr mid 0 p = p"
| "finish_pc now at cr mid (Suc n) (pc, rows) =
     (case pc of
        DSend rq begun \<Rightarrow>
          (case mark_started now rq at rows of
             Inl e \<Rightarrow> finish_pc now at cr mid n (sender_raised now rq begun e rows)
           | Inr (row, rows') \<Rightarrow> finish_pc now at cr mid n (sender_returned now rq True cr rows'))
      | DProject rq recovering \<Rightarrow> finish_pc now at cr mid n (projected now rq recovering mid rows)
      | _ \<Rightarrow> (pc, rows))"

lemma finish_pc_done [simp]: "finish_pc now at cr mid n (DDone v, rows) = (DDone v, rows)"
  by (cases n) auto

lemma lookup_by_turn:
  assumes "durable_inv rows" and "r \<in> set rows"
  shows "durable_lookup rows (en_session r) (en_turn r) = Inr (Some r)"
proof -
  have "id_ok (en_session r)" "id_ok (en_turn r)"
    using assms by (auto simp: durable_inv_def durable_row_ok_def envelope_ok_def envelope.truncate_def)
  moreover have "find (\<lambda>x. (en_session x, en_turn x) = (en_session r, en_turn r)) rows = Some r"
    using assms by (intro find_unique) (auto simp: durable_inv_def unique_rows_def)
  ultimately show ?thesis by (simp add: durable_lookup_def identity_VStr)
qed

lemma prepare_again:
  assumes "durable_inv rows" and "ledger rows (en_id r) = Some r" and "normalize_envelope e = Inr (envelope.truncate r)"
  shows "prepare False now e rows = Inr (r, rows)"
proof -
  have "as_ledger (prepare_row False now (envelope.truncate r) rows) = Inr (r, ledger rows)"
    using assms(2) by (simp add: prepare_spec[OF inv_unique[OF assms(1)]] spec_prepare_def envelope.truncate_def)
  moreover have "\<exists>x \<in> set rows. en_id x = en_id r" using ledger_in[OF assms(2)] by blast
  ultimately show ?thesis
    using assms(2,3) by (auto simp: prepare_def prepare_row_cases[OF inv_unique[OF assms(1)]] envelope.truncate_def split: if_splits)
qed

text \<open>Resuming finds the stored row by its turn and asks for the same envelope, so it never conflicts.\<close>

lemma resume_begin_row:
  assumes inv: "durable_inv rows" and r: "r \<in> set rows" and len: "char_count (en_id r) \<le> 128"
  obtains rq where "rq_id rq = en_id r" "rq_channel rq = en_channel r"
    "resume_begin now (en_session r, en_turn r) rows = (if dr_state r = DPrepared then DSend rq False else after_send rq r, rows)"
proof -
  have ok: "durable_row_ok r" using inv r by (simp add: durable_inv_def)
  obtain v where v: "view_of r = Inr v" using view_total[OF ok] by blast
  obtain rq where rq: "request_of v = Inr rq" "normalize_envelope (envelope_of rq) = Inr (envelope.truncate r)"
      "rq_id rq = en_id r" "rq_channel rq = en_channel r"
    using normalize_again[OF ok v len] by blast
  have l: "ledger rows (en_id r) = Some r" using ledger_of[OF inv_unique[OF inv] r] .
  have "bindR (required_view rows (en_session r, en_turn r)) request_of = Inr rq"
    using lookup_by_turn[OF inv r] v rq by (simp add: required_view_def lookup_view_def)
  then have "resume_begin now (en_session r, en_turn r) rows = (if dr_state r = DPrepared then DSend rq False else after_send rq r, rows)"
    using prepare_again[OF inv l rq(2)] by (simp add: resume_begin_def submit_begin_def)
  with rq show thesis using that by blast
qed

lemma row_in_states:
  assumes "durable_inv rows" and "ledger rows lid = Some r"
  shows "id_ok lid" "unique_rows rows"
  using row_ok_ledger[OF assms] inv_unique[OF assms(1)]
  by (auto simp: durable_row_ok_def envelope_ok_def envelope.truncate_def)

lemma project_completes:
  assumes inv: "durable_inv rows" and l: "ledger rows lid = Some r" and mid: "id_ok mid" and "rq_id rq = lid"
    and st: "recovering \<and> dr_state r = DProviderStarted \<and> en_channel r = akashic \<or> \<not> recovering \<and> dr_state r = DDelivered"
  shows "\<exists>v rows' r'. projected now rq recovering mid rows = (DDone v, rows') \<and> ledger rows' lid = Some r'
    \<and> view_of r' = Inr v \<and> vw_state v = DProjected"
proof -
  have "\<exists>row rows'. (if recovering then mark_recovered else mark_projected) False now lid mid rows = Inr (row, rows')"
    using st l mid row_in_states[OF inv l]
    by (auto simp: mark_recovered_def mark_projected_def identity_VStr transition_cases kept_simps)
  then obtain row rows' where m: "(if recovering then mark_recovered else mark_projected) False now lid mid rows = Inr (row, rows')"
    by blast
  have p: "en_id row = lid" "dr_state row = DProjected" "durable_inv rows'" "ledger rows' = (ledger rows)(en_id row \<mapsto> row)"
    using projected_value[OF inv m] by (auto simp: moved_def)
  then have l': "ledger rows' lid = Some row" by simp
  then obtain v where v: "finish_submit row = DDone v" "view_of row = Inr v"
    using finish_submit_ok row_ok_ledger[OF p(3)] by blast
  have "projected now rq recovering mid rows = (DDone v, rows')" using m v(1) assms(4) by (simp add: projected_def)
  then show ?thesis using l' v(2) view_fields(9)[OF v(2)] p(2) by auto
qed

lemma result_completes:
  assumes inv: "durable_inv rows" and l: "ledger rows lid = Some r" and "dr_state r = DProviderStarted"
    and "rq_id rq = lid" and mid: "id_ok mid"
  shows "\<exists>v rows' r'. finish_pc now at cr mid 1 (sender_returned now rq True cr rows) = (DDone v, rows')
    \<and> ledger rows' lid = Some r' \<and> view_of r' = Inr v \<and> vw_state v \<in> {DProjected, DRejected, DFailed}"
proof -
  have st: "result_state (cr_status cr) \<in> {DDelivered, DRejected, DFailed}" by (cases "cr_status cr") auto
  obtain row rows' where m: "mark_provider_result False now lid (result_state (cr_status cr)) (receipt_doc cr) rows = Inr (row, rows')"
    using result_succeeds[OF inv l assms(3) st] by blast
  have p: "en_id row = lid" "dr_state row = result_state (cr_status cr)" using result_value[OF inv m] by auto
  have q: "durable_inv rows'" "ledger rows' = (ledger rows)(en_id row \<mapsto> row)"
    using result_moved[OF inv m] by (auto simp: moved_def)
  have l': "ledger rows' lid = Some row" using p(1) q(2) by simp
  have ret: "sender_returned now rq True cr rows = (after_send rq row, rows')"
    using m assms(4) by (simp add: sender_returned_def)
  show ?thesis
  proof (cases "dr_state row = DDelivered")
    case True
    then have "after_send rq row = DProject rq False" by (simp add: after_send_def)
    then show ?thesis using ret project_completes[OF q(1) l' mid assms(4), of False now] True by fastforce
  next
    case False
    then have "after_send rq row = finish_submit row" using p st by (auto simp: after_send_def)
    moreover obtain v where v: "finish_submit row = DDone v" "view_of row = Inr v"
      using finish_submit_ok row_ok_ledger[OF q(1) l'] by blast
    ultimately show ?thesis using ret l' v(2) view_fields(9)[OF v(2)] p(2) st False by auto
  qed
qed

text \<open>Everything \<open>recoverable\<close> lists can be completed: resuming such a delivery by its turn, with a sender that
  marks the start and returns a receipt and a projector that returns a message, ends in two awaits
  with the view of the stored row, and that row is projected, rejected or failed.\<close>

theorem resume_completes:
  assumes inv: "durable_inv rows" and r: "r \<in> set (recoverable rows)" and len: "char_count (en_id r) \<le> 128"
    and at: "id_ok a" "id_ok s" "id_ok g" "id_ok b" and mid: "id_ok mid"
  shows "\<exists>v rows' r'. finish_pc now (a, s, g, b) cr mid 2 (resume_begin now (en_session r, en_turn r) rows) = (DDone v, rows')
    \<and> ledger rows' (en_id r) = Some r' \<and> view_of r' = Inr v \<and> vw_state v \<in> {DProjected, DRejected, DFailed}"
proof -
  let ?lid = "en_id r"
  have in_rows: "r \<in> set rows" and fwd: "forward_progress r" using r by (auto simp: recoverable_def)
  have l: "ledger rows ?lid = Some r" by (rule ledger_of[OF inv_unique[OF inv] in_rows])
  obtain rq where rq: "rq_id rq = ?lid" "rq_channel rq = en_channel r"
    and b: "resume_begin now (en_session r, en_turn r) rows = (if dr_state r = DPrepared then DSend rq False else after_send rq r, rows)"
    by (rule resume_begin_row[OF inv in_rows len])
  have two: "(2::nat) = Suc 1" "(1::nat) = Suc 0" by simp_all
  consider (send) "dr_state r = DPrepared"
    | (project) recovering where "after_send rq r = DProject rq recovering" "dr_state r \<noteq> DPrepared"
        "recovering \<and> dr_state r = DProviderStarted \<and> en_channel r = akashic \<or> \<not> recovering \<and> dr_state r = DDelivered"
    | (at_end) "dr_state r = DProjected"
    using fwd rq(2) unfolding forward_progress_def after_send_def by (cases "dr_state r") auto
  then show ?thesis
  proof cases
    case send
    have "\<exists>row rows'. mark_provider_started False now ?lid (a, s, g, b) rows = Inr (row, rows')"
      using send l at row_in_states[OF inv l]
      by (simp add: mark_provider_started_def identity_VStr transition_cases kept_simps)
    then obtain row rows' where m: "mark_provider_started False now ?lid (a, s, g, b) rows = Inr (row, rows')" by blast
    have p: "en_id row = ?lid" "dr_state row = DProviderStarted" using start_value[OF inv m] by auto
    have q: "durable_inv rows'" "ledger rows' = (ledger rows)(en_id row \<mapsto> row)"
      using start_moved[OF inv m] by (auto simp: moved_def)
    have l': "ledger rows' ?lid = Some row" using p(1) q(2) by simp
    have "finish_pc now (a, s, g, b) cr mid 2 (resume_begin now (en_session r, en_turn r) rows)
        = finish_pc now (a, s, g, b) cr mid 1 (sender_returned now rq True cr rows')"
      using b send m rq(1) unfolding two(1) by (simp add: mark_started_def)
    then show ?thesis using result_completes[OF q(1) l' p(2) rq(1) mid, of now "(a, s, g, b)" cr] by simp
  next
    case project
    then show ?thesis using b project_completes[OF inv l mid rq(1) project(3), of now] unfolding two by fastforce
  next
    case at_end
    then have "after_send rq r = finish_submit r" by (simp add: after_send_def)
    moreover obtain v where v: "finish_submit r = DDone v" "view_of r = Inr v"
      using finish_submit_ok row_ok_ledger[OF inv l] by blast
    ultimately show ?thesis using b l v(2) view_fields(9)[OF v(2)] at_end by auto
  qed
qed

definition sample_receipt :: channel_receipt where
  "sample_receipt = \<lparr>cr_delivery = ''x'', cr_status = SDelivered, cr_ids = [], cr_error = None\<rparr>"

theorem resume_completes_witness:
  "\<exists>v rows'. finish_pc ''2'' (''a'', ''b'', ''c'', ''d'') sample_receipt ''p'' 2 (resume_begin ''2'' (''s'', ''t'') [sample_row])
     = (DDone v, rows')"
proof -
  have "sample_row \<in> set (recoverable [sample_row])" by (simp add: recoverable_def forward_progress_def)
  moreover have "char_count (en_id sample_row) \<le> 128" by (simp add: char_count_def)
  moreover have "id_ok ''a''" "id_ok ''b''" "id_ok ''c''" "id_ok ''d''" "id_ok ''p''"
    by (simp_all add: id_ok_def strip_eval)
  moreover have "(en_session sample_row, en_turn sample_row) = (''s'', ''t'')"
    by (simp add: sample_row_def sample_envelope_def new_row_def envelope.extend_def durable_row.fields_def)
  ultimately show ?thesis
    using resume_completes[OF sample_inv, of sample_row "''a''" "''b''" "''c''" "''d''" "''p''" "''2''" sample_receipt] by auto
qed

end
