(* ===== verification/Job_Store.thy ===== *)
theory Job_Store
  imports Message Artifacts
begin

text \<open>
  \<open>plugins/scheduler/store.py\<close> and the job type of \<open>plugins/scheduler/schedule.py\<close>: the file of scheduled
  jobs, of the operations that changed them and of the fires that ran.

  The file is a JSON document that \<open>decode\<close> checks; here it is the typed document \<open>stored\<close>, a job's
  field holding the value its JSON field holds, a time the instant its ISO text names. A dict is an
  association list in insertion order. A change reads the file, checks it, applies one update and
  checks and writes the result while it holds the file lock, so a change is one step; when anything
  raises, the file keeps its content. Instants are microseconds since the epoch.

  Parameters (\<open>sched_env\<close>): whether a time zone name is in the time zone database, APScheduler's
  \<open>CronTrigger.get_next_fire_time\<close>, and SHA-256 as a function of what is serialised and hashed. The
  year bound of \<open>datetime\<close> is not modelled.
\<close>

section \<open>Jobs\<close>

record job =
  jb_trigger :: string
  jb_tier :: string
  jb_fire_at :: pytime
  jb_channel :: string
  jb_chat :: string
  jb_interval :: "int option"
  jb_cron :: "string option"
  jb_message :: "string option"
  jb_prompt :: "string option"
  jb_name :: "string option"
  jb_timezone :: string
  jb_created :: pytime
  jb_runs :: int
  jb_enabled :: bool
  jb_id :: string

definition SCHEDULE_MAX_ACTIVE_JOBS :: nat where
  "SCHEDULE_MAX_ACTIVE_JOBS = 10"

text \<open>\<open>str.split()\<close> on the UTF-8 bytes.\<close>

definition white_prefix :: "nat list \<Rightarrow> nat list option" where
  "white_prefix ns = find (\<lambda>w. take (length w) ns = w) white_space"

lemma white_prefix_pos: "white_prefix ns = Some w \<Longrightarrow> 0 < length w"
  unfolding white_prefix_def by (drule find_Some_iff') (auto simp: white_space_def)

function split_words :: "nat list \<Rightarrow> nat list \<Rightarrow> nat list list" where
  "split_words cur [] = (if cur = [] then [] else [rev cur])"
| "split_words cur (x # xs) =
     (case white_prefix (x # xs) of
        None \<Rightarrow> split_words (x # cur) xs
      | Some w \<Rightarrow> (if cur = [] then [] else [rev cur]) @ split_words [] (drop (length w) (x # xs)))"
  by pat_completeness auto
termination
  by (relation "measure (\<lambda>(cur, xs). length xs)") (auto dest!: white_prefix_pos)

definition words_of :: "string \<Rightarrow> string list" where
  "words_of s = map (map char_of) (split_words [] (map code s))"

definition is_cron_expr :: "string \<Rightarrow> bool" where
  "is_cron_expr s = (length (words_of s) \<in> {5, 6})"

section \<open>Parameters\<close>

datatype digest_input = OfJob job | OfIds "string list" | OfFire string int

record sched_env =
  se_zone :: "string \<Rightarrow> bool"
  se_cron :: "string list \<Rightarrow> string \<Rightarrow> int option \<Rightarrow> int \<Rightarrow> int option res"
  se_digest :: "digest_input \<Rightarrow> string"

definition next_cron_fire :: "sched_env \<Rightarrow> string \<Rightarrow> string \<Rightarrow> int \<Rightarrow> int res" where
  "next_cron_fire E expr tz after =
     (if \<not> is_cron_expr expr then Inl ValueError
      else if \<not> se_zone E tz then Inl KeyError
      else bindR (se_cron E (words_of expr) tz None after) (\<lambda>result.
        bindR (case result of
                 Some t \<Rightarrow> if t \<le> after then se_cron E (words_of expr) tz (Some t) after else Inr result
               | None \<Rightarrow> Inr None) (\<lambda>final.
        case final of None \<Rightarrow> Inl ValueError | Some t \<Rightarrow> Inr t)))"

fun instant :: "pytime \<Rightarrow> int" where
  "instant (Aware t) = t"
| "instant (Naive t) = t"

definition fire_key :: "sched_env \<Rightarrow> job \<Rightarrow> string" where
  "fire_key E j = se_digest E (OfFire (jb_id j) (instant (jb_fire_at j)))"

definition next_slot :: "int \<Rightarrow> int \<Rightarrow> int \<Rightarrow> int" where
  "next_slot start interval after = start + (max 0 ((after - start) div interval) + 1) * interval"

definition advance :: "sched_env \<Rightarrow> job \<Rightarrow> int \<Rightarrow> int res" where
  "advance E j after =
     (case jb_cron j of
        Some (c # cs) \<Rightarrow> next_cron_fire E (c # cs) (jb_timezone j) after
      | _ \<Rightarrow> (case jb_interval j of
                None \<Rightarrow> Inl AssertionError
              | Some s \<Rightarrow> Inr (next_slot (instant (jb_fire_at j)) (s * 1000000) after)))"

section \<open>Operations and fires\<close>

datatype op_kind = OSchedule | OCancel

record operation =
  op_kind :: op_kind
  op_digest :: string
  op_jobs :: "string list"
  op_success :: bool
  op_response :: string

definition mk_Operation :: "op_kind \<Rightarrow> string \<Rightarrow> string list \<Rightarrow> bool \<Rightarrow> string \<Rightarrow> operation res" where
  "mk_Operation kind digest ids success response =
     (if \<not> sha256_ok digest \<or> response = [] \<or> [] \<in> set ids \<or> \<not> distinct ids
         \<or> kind = OSchedule \<and> length ids \<noteq> (if success then 1 else 0)
      then Inl ValueError
      else Inr \<lparr>op_kind = kind, op_digest = digest, op_jobs = ids, op_success = success, op_response = response\<rparr>)"

definition check_operation :: "operation \<Rightarrow> operation res" where
  "check_operation p = mk_Operation (op_kind p) (op_digest p) (op_jobs p) (op_success p) (op_response p)"

datatype fire_status = FPending | FDelivered | FFailed | FCancelled

record fire =
  fr_job :: job
  fr_status :: fire_status
  fr_error :: "string option"

record schedule =
  sc_jobs :: "(string \<times> job) list"
  sc_ops :: "(string \<times> operation) list"
  sc_fires :: "(string \<times> fire) list"

record stored =
  st_jobs :: "job list"
  st_ops :: "(string \<times> operation) list"
  st_fires :: "(string \<times> fire) list"

section \<open>Checks\<close>

definition job_identity_ok :: "sched_env \<Rightarrow> job \<Rightarrow> bool" where
  "job_identity_ok E j \<longleftrightarrow> jb_trigger j \<in> {''at'', ''after'', ''every''} \<and> jb_tier j \<in> {''instant'', ''soft''}
     \<and> jb_id j \<noteq> [] \<and> jb_channel j \<noteq> [] \<and> jb_chat j \<noteq> [] \<and> jb_timezone j \<noteq> [] \<and> se_zone E (jb_timezone j)"

definition filled :: "string option \<Rightarrow> bool" where
  "filled t \<longleftrightarrow> t \<noteq> None \<and> t \<noteq> Some []"

definition job_payload_ok :: "job \<Rightarrow> bool" where
  "job_payload_ok j \<longleftrightarrow> (jb_tier j = ''instant'' \<longrightarrow> filled (jb_message j)) \<and> (jb_tier j = ''soft'' \<longrightarrow> filled (jb_prompt j))
     \<and> 0 \<le> jb_runs j"

definition job_schedule_ok :: "job \<Rightarrow> bool" where
  "job_schedule_ok j \<longleftrightarrow>
     (if jb_trigger j = ''every'' then
        (jb_interval j = None) \<noteq> (jb_cron j = None)
        \<and> (\<forall>s \<in> set_option (jb_interval j). 0 < s) \<and> (\<forall>c \<in> set_option (jb_cron j). is_cron_expr c)
      else jb_interval j = None \<and> jb_cron j = None)"

definition validate_job :: "sched_env \<Rightarrow> job \<Rightarrow> unit res" where
  "validate_job E j = ensure (job_identity_ok E j \<and> job_payload_ok j \<and> job_schedule_ok j) ValueError"

text \<open>Parsing a stored time gives an aware one, UTC when the text names no zone.\<close>

definition aware_job :: "job \<Rightarrow> job" where
  "aware_job j = j\<lparr>jb_fire_at := Aware (instant (jb_fire_at j)), jb_created := Aware (instant (jb_created j))\<rparr>"

definition decode_job :: "sched_env \<Rightarrow> job \<Rightarrow> job res" where
  "decode_job E d = bindR (validate_job E (aware_job d)) (\<lambda>_. Inr (aware_job d))"

definition decode_jobs :: "sched_env \<Rightarrow> job list \<Rightarrow> job list res" where
  "decode_jobs E raw = bindR (mapR (decode_job E) raw) (\<lambda>jobs.
     bindR (ensure (distinct (map jb_id jobs)) ValueError) (\<lambda>_. Inr jobs))"

definition fire_status_ok :: "fire_status \<Rightarrow> string option \<Rightarrow> bool" where
  "fire_status_ok st err \<longleftrightarrow> (if st \<in> {FPending, FDelivered} then err = None else filled err)"

definition decode_op :: "string \<times> operation \<Rightarrow> (string \<times> operation) res" where
  "decode_op p = bindR (ensure (fst p \<noteq> []) ValueError) (\<lambda>_.
     bindR (check_operation (snd p)) (\<lambda>v. Inr (fst p, v)))"

definition decode_fire :: "sched_env \<Rightarrow> string \<times> fire \<Rightarrow> (string \<times> fire) res" where
  "decode_fire E p =
     bindR (decode_job E (fr_job (snd p))) (\<lambda>j.
     bindR (ensure (fire_status_ok (fr_status (snd p)) (fr_error (snd p)) \<and> fst p = fire_key E j) ValueError) (\<lambda>_.
     Inr (fst p, (snd p)\<lparr>fr_job := j\<rparr>)))"

definition decode :: "sched_env \<Rightarrow> stored \<Rightarrow> schedule res" where
  "decode E raw =
     bindR (decode_jobs E (st_jobs raw)) (\<lambda>jobs.
     bindR (mapR decode_op (st_ops raw)) (\<lambda>ops.
     bindR (mapR (decode_fire E) (st_fires raw)) (\<lambda>fires.
     Inr \<lparr>sc_jobs = map (\<lambda>j. (jb_id j, j)) jobs, sc_ops = ops, sc_fires = fires\<rparr>)))"

definition encode :: "sched_env \<Rightarrow> schedule \<Rightarrow> stored res" where
  "encode E s =
     bindR (mapR (\<lambda>p. bindR (ensure (fst p = jb_id (snd p)) ValueError) (\<lambda>_.
                      bindR (validate_job E (snd p)) (\<lambda>_. Inr (snd p)))) (sc_jobs s)) (\<lambda>data.
     let value = \<lparr>st_jobs = data, st_ops = sc_ops s, st_fires = sc_fires s\<rparr> in
     bindR (decode E value) (\<lambda>_. Inr value))"

section \<open>The file\<close>

type_synonym job_file = "stored option"

text \<open>Parsing refuses a document that repeats a field.\<close>

definition read_file :: "sched_env \<Rightarrow> job_file \<Rightarrow> schedule res" where
  "read_file E f =
     (case f of
        None \<Rightarrow> Inr \<lparr>sc_jobs = [], sc_ops = [], sc_fires = []\<rparr>
      | Some raw \<Rightarrow> bindR (ensure (distinct (keys (st_ops raw)) \<and> distinct (keys (st_fires raw))) ValueError)
          (\<lambda>_. decode E raw))"

definition load_jobs :: "sched_env \<Rightarrow> job_file \<Rightarrow> job list res" where
  "load_jobs E f = bindR (read_file E f) (\<lambda>s. Inr (map snd (sc_jobs s)))"

definition change :: "sched_env \<Rightarrow> (schedule \<Rightarrow> ('a \<times> schedule) res) \<Rightarrow> job_file \<Rightarrow> ('a \<times> job_file) res" where
  "change E upd f =
     bindR (read_file E f) (\<lambda>s.
     bindR (encode E s) (\<lambda>before.
     bindR (upd s) (\<lambda>(result, s').
     bindR (encode E s') (\<lambda>after. Inr (result, if before \<noteq> after \<or> f = None then Some after else f)))))"

definition save_jobs :: "sched_env \<Rightarrow> (string \<times> job) list \<Rightarrow> job_file \<Rightarrow> (unit \<times> job_file) res" where
  "save_jobs E jobs = change E (\<lambda>s. Inr ((), s\<lparr>sc_jobs := jobs\<rparr>))"

definition previous :: "schedule \<Rightarrow> string \<Rightarrow> op_kind \<Rightarrow> string \<Rightarrow> operation option res" where
  "previous s key kind digest =
     (case map_of (sc_ops s) key of
        None \<Rightarrow> Inr None
      | Some p \<Rightarrow> if (op_kind p, op_digest p) \<noteq> (kind, digest) then Inl ValueError else Inr (Some p))"

definition utf8 :: "nat list \<Rightarrow> string" where
  "utf8 ns = map char_of ns"

definition capacity_text :: "nat \<Rightarrow> string" where
  "capacity_text n = utf8 [115, 99, 104, 101, 100, 117, 108, 101, 95, 99, 97, 112, 97, 99, 105, 116, 121, 95, 114, 101,
       97, 99, 104, 101, 100, 239, 188, 154, 229, 189, 147, 229, 137, 141, 229, 183, 178, 230, 156,
       137, 32]
     @ show_nat n @ utf8 [32, 228, 184, 170, 230, 180, 187, 229, 138, 168, 229, 174, 154, 230, 151, 182, 228, 187,
       187, 229, 138, 161, 239, 188, 140, 233, 187, 152, 232, 174, 164, 228, 184, 138, 233, 153,
       144, 228, 184, 186, 32]
     @ show_nat SCHEDULE_MAX_ACTIVE_JOBS @ utf8 [32, 228, 184, 170, 227, 128, 130, 232, 175, 183, 229, 133, 136, 231, 161, 174, 232, 174,
       164, 232, 166, 129, 231, 167, 187, 233, 153, 164, 231, 154, 132, 228, 187, 187, 229, 138,
       161, 227, 128, 130]"

definition cancelled_text :: "nat \<Rightarrow> string" where
  "cancelled_text n =
     (if n = 0 then utf8 [230, 156, 170, 230, 137, 190, 229, 136, 176, 229, 140, 185, 233, 133, 141, 231, 154, 132,
       228, 187, 187, 229, 138, 161]
      else utf8 [229, 183, 178, 229, 143, 150, 230, 182, 136, 32] @ show_nat n
        @ utf8 [32, 228, 184, 170, 228, 187, 187, 229, 138, 161])"

definition cancelled_error :: string where
  "cancelled_error = utf8 [228, 187, 187, 229, 138, 161, 229, 183, 178, 232, 162, 171, 230, 152, 142, 231, 161, 174,
       229, 143, 150, 230, 182, 136]"

definition active_jobs :: "schedule \<Rightarrow> nat" where
  "active_jobs s = length (filter (\<lambda>p. jb_enabled (snd p)) (sc_jobs s))"

section \<open>Changes\<close>

definition add_update :: "sched_env \<Rightarrow> string \<Rightarrow> job \<Rightarrow> string \<Rightarrow> schedule \<Rightarrow> (operation \<times> schedule) res" where
  "add_update E key j response s =
     (let digest = se_digest E (OfJob j) in
      bindR (previous s key OSchedule digest) (\<lambda>prev. case prev of
        Some p \<Rightarrow> Inr (p, s)
      | None \<Rightarrow>
          if jb_id j \<in> set (keys (sc_jobs s)) then Inl ValueError
          else if SCHEDULE_MAX_ACTIVE_JOBS \<le> active_jobs s then
            bindR (mk_Operation OSchedule digest [] False (capacity_text (active_jobs s))) (\<lambda>p.
            Inr (p, s\<lparr>sc_ops := AList.update key p (sc_ops s)\<rparr>))
          else
            bindR (mk_Operation OSchedule digest [jb_id j] True response) (\<lambda>p.
            Inr (p, s\<lparr>sc_jobs := AList.update (jb_id j) j (sc_jobs s), sc_ops := AList.update key p (sc_ops s)\<rparr>))))"

definition add_job :: "sched_env \<Rightarrow> string \<Rightarrow> job \<Rightarrow> string \<Rightarrow> job_file \<Rightarrow> (operation \<times> job_file) res" where
  "add_job E key j response = change E (add_update E key j response)"

definition cancel_fire :: "string list \<Rightarrow> fire \<Rightarrow> fire" where
  "cancel_fire ids f =
     (if jb_id (fr_job f) \<in> set ids \<and> fr_status f = FPending
      then f\<lparr>fr_status := FCancelled, fr_error := Some cancelled_error\<rparr> else f)"

definition del_job :: "string \<Rightarrow> (string \<times> job) list \<Rightarrow> (string \<times> job) list res" where
  "del_job i js = (if i \<in> set (keys js) then Inr (AList.delete i js) else Inl KeyError)"

definition cancel_update :: "sched_env \<Rightarrow> string \<Rightarrow> string list \<Rightarrow> schedule \<Rightarrow> (operation \<times> schedule) res" where
  "cancel_update E key ids s =
     (let digest = se_digest E (OfIds ids) in
      bindR (previous s key OCancel digest) (\<lambda>prev. case prev of
        Some p \<Rightarrow> Inr (p, s)
      | None \<Rightarrow>
          let removed = filter (\<lambda>i. i \<in> set (keys (sc_jobs s))) ids in
          bindR (foldR del_job removed (sc_jobs s)) (\<lambda>js.
          bindR (mk_Operation OCancel digest removed True (cancelled_text (length removed))) (\<lambda>p.
          Inr (p, s\<lparr>sc_jobs := js, sc_fires := map (map_prod id (cancel_fire ids)) (sc_fires s),
                    sc_ops := AList.update key p (sc_ops s)\<rparr>)))))"

definition cancel_jobs :: "sched_env \<Rightarrow> string \<Rightarrow> string list \<Rightarrow> job_file \<Rightarrow> (operation \<times> job_file) res" where
  "cancel_jobs E key ids = change E (cancel_update E key ids)"

definition start_update :: "sched_env \<Rightarrow> job \<Rightarrow> schedule \<Rightarrow> (fire option \<times> schedule) res" where
  "start_update E j s =
     (case map_of (sc_jobs s) (jb_id j) of
        None \<Rightarrow> Inr (None, s)
      | Some current \<Rightarrow>
          if \<not> jb_enabled current \<or> fire_key E current \<noteq> fire_key E j then Inr (None, s)
          else case map_of (sc_fires s) (fire_key E j) of
            Some f \<Rightarrow> Inr (if fr_status f = FPending then Some f else None, s)
          | None \<Rightarrow>
              let f = \<lparr>fr_job = current, fr_status = FPending, fr_error = None\<rparr> in
              Inr (Some f, s\<lparr>sc_fires := AList.update (fire_key E current) f (sc_fires s)\<rparr>))"

definition start_fire :: "sched_env \<Rightarrow> job \<Rightarrow> job_file \<Rightarrow> (fire option \<times> job_file) res" where
  "start_fire E j = change E (start_update E j)"

definition after_fire :: "sched_env \<Rightarrow> int \<Rightarrow> fire_status \<Rightarrow> job \<Rightarrow> job res" where
  "after_fire E now st current =
     (let count = jb_runs current + (if st = FDelivered then 1 else 0) in
      if jb_trigger current = ''every'' then
        bindR (advance E current (max now (instant (jb_fire_at current)))) (\<lambda>t.
        Inr (current\<lparr>jb_fire_at := Aware t, jb_runs := count\<rparr>))
      else Inr (current\<lparr>jb_enabled := False, jb_runs := count\<rparr>))"

definition settle_update ::
  "sched_env \<Rightarrow> string \<Rightarrow> fire_status \<Rightarrow> int \<Rightarrow> string option \<Rightarrow> schedule \<Rightarrow> (unit \<times> schedule) res" where
  "settle_update E key st now err s =
     (case map_of (sc_fires s) key of
        None \<Rightarrow> Inl KeyError
      | Some f \<Rightarrow>
          if fr_status f \<noteq> FPending then Inr ((), s)
          else
            let s' = s\<lparr>sc_fires := AList.update key (f\<lparr>fr_status := st, fr_error := err\<rparr>) (sc_fires s)\<rparr> in
            case map_of (sc_jobs s) (jb_id (fr_job f)) of
              None \<Rightarrow> Inr ((), s')
            | Some current \<Rightarrow>
                if fire_key E current \<noteq> key then Inr ((), s')
                else bindR (after_fire E now st current) (\<lambda>j.
                  Inr ((), s'\<lparr>sc_jobs := AList.update (jb_id current) j (sc_jobs s)\<rparr>)))"

definition settle_fire ::
  "sched_env \<Rightarrow> string \<Rightarrow> fire_status \<Rightarrow> int \<Rightarrow> string option \<Rightarrow> job_file \<Rightarrow> (unit \<times> job_file) res" where
  "settle_fire E key st now err = change E (settle_update E key st now err)"

definition recover_job :: "sched_env \<Rightarrow> int \<Rightarrow> (string \<times> fire) list \<Rightarrow> job \<Rightarrow> job res" where
  "recover_job E now fires j =
     (if \<not> jb_enabled j \<or> now < instant (jb_fire_at j) \<or> fire_key E j \<in> set (keys fires) then Inr j
      else if jb_trigger j = ''every'' then bindR (advance E j now) (\<lambda>t. Inr (j\<lparr>jb_fire_at := Aware t\<rparr>))
      else if 300 * 1000000 < now - instant (jb_fire_at j) then Inr (j\<lparr>jb_enabled := False\<rparr>)
      else Inr j)"

definition recover_update :: "sched_env \<Rightarrow> int \<Rightarrow> schedule \<Rightarrow> (schedule \<times> schedule) res" where
  "recover_update E now s =
     bindR (mapR (\<lambda>p. bindR (recover_job E now (sc_fires s) (snd p)) (\<lambda>j. Inr (fst p, j))) (sc_jobs s)) (\<lambda>js.
     let s' = s\<lparr>sc_jobs := js\<rparr> in Inr (s', s'))"

definition recover_file :: "sched_env \<Rightarrow> int \<Rightarrow> job_file \<Rightarrow> (schedule \<times> job_file) res" where
  "recover_file E now = change E (recover_update E now)"

section \<open>What a readable file holds\<close>

definition aware_ok :: "job \<Rightarrow> bool" where
  "aware_ok j \<longleftrightarrow> is_aware (jb_fire_at j) \<and> is_aware (jb_created j)"

definition job_ok :: "sched_env \<Rightarrow> job \<Rightarrow> bool" where
  "job_ok E j \<longleftrightarrow> validate_job E j = Inr () \<and> aware_ok j"

definition op_ok :: "operation \<Rightarrow> bool" where
  "op_ok p \<longleftrightarrow> check_operation p = Inr p"

definition fire_ok :: "sched_env \<Rightarrow> string \<times> fire \<Rightarrow> bool" where
  "fire_ok E p \<longleftrightarrow> job_ok E (fr_job (snd p)) \<and> fire_status_ok (fr_status (snd p)) (fr_error (snd p))
     \<and> fst p = fire_key E (fr_job (snd p))"

definition keyed :: "schedule \<Rightarrow> bool" where
  "keyed s \<longleftrightarrow> distinct (keys (sc_ops s)) \<and> distinct (keys (sc_fires s))"

definition sched_ok :: "sched_env \<Rightarrow> schedule \<Rightarrow> bool" where
  "sched_ok E s \<longleftrightarrow> distinct (keys (sc_jobs s)) \<and> keyed s
     \<and> (\<forall>p \<in> set (sc_jobs s). fst p = jb_id (snd p) \<and> job_ok E (snd p))
     \<and> (\<forall>p \<in> set (sc_ops s). fst p \<noteq> [] \<and> op_ok (snd p))
     \<and> (\<forall>p \<in> set (sc_fires s). fire_ok E p)"

lemma aware_job_simps [simp]:
  "jb_id (aware_job j) = jb_id j" "jb_enabled (aware_job j) = jb_enabled j" "jb_runs (aware_job j) = jb_runs j"
  "instant (jb_fire_at (aware_job j)) = instant (jb_fire_at j)" "fire_key E (aware_job j) = fire_key E j"
  "validate_job E (aware_job j) = validate_job E j" "aware_ok (aware_job j)"
  by (simp_all add: aware_job_def fire_key_def validate_job_def job_identity_ok_def job_payload_ok_def
      job_schedule_ok_def aware_ok_def)

lemma aware_job_id: "aware_ok j \<Longrightarrow> aware_job j = j"
proof -
  assume a: "aware_ok j"
  obtain t u where "jb_fire_at j = Aware t" "jb_created j = Aware u"
    using a by (cases "jb_fire_at j"; cases "jb_created j") (auto simp: aware_ok_def)
  then show ?thesis by (simp add: aware_job_def)
qed

lemma check_operation_Inr: "check_operation p = Inr q \<longleftrightarrow> op_ok p \<and> q = p"
  by (auto simp: op_ok_def check_operation_def mk_Operation_def split: if_splits)

lemma mk_Operation_ok: "mk_Operation k d ids su r = Inr p \<Longrightarrow> op_ok p"
  by (auto simp: op_ok_def check_operation_def mk_Operation_def split: if_splits)

lemma decode_job_Inr: "decode_job E d = Inr j \<longleftrightarrow> validate_job E d = Inr () \<and> j = aware_job d"
  by (auto simp: decode_job_def res_simps)

lemma decode_op_Inr: "decode_op p = Inr q \<longleftrightarrow> fst p \<noteq> [] \<and> op_ok (snd p) \<and> q = p"
  by (cases p) (auto simp: decode_op_def res_simps check_operation_Inr)

lemma decode_fire_Inr:
  "decode_fire E p = Inr q \<longleftrightarrow> validate_job E (fr_job (snd p)) = Inr ()
     \<and> fire_status_ok (fr_status (snd p)) (fr_error (snd p)) \<and> fst p = fire_key E (fr_job (snd p))
     \<and> q = (fst p, (snd p)\<lparr>fr_job := aware_job (fr_job (snd p))\<rparr>)"
  by (auto simp: decode_fire_def res_simps decode_job_Inr)

text \<open>Reading back normalises the times of new jobs and nothing else.\<close>

definition norm_fire :: "fire \<Rightarrow> fire" where
  "norm_fire f = f\<lparr>fr_job := aware_job (fr_job f)\<rparr>"

definition norm :: "schedule \<Rightarrow> schedule" where
  "norm s = s\<lparr>sc_jobs := map (map_prod id aware_job) (sc_jobs s), sc_fires := map (map_prod id norm_fire) (sc_fires s)\<rparr>"

definition image_of :: "schedule \<Rightarrow> stored" where
  "image_of s = \<lparr>st_jobs = map snd (sc_jobs s), st_ops = sc_ops s, st_fires = sc_fires s\<rparr>"

lemma mapR_exact:
  assumes "mapR f xs = Inr ys" and "\<And>x y. x \<in> set xs \<Longrightarrow> f x = Inr y \<Longrightarrow> y = g x"
  shows "ys = map g xs"
  using assms by (induction xs arbitrary: ys) (auto simp: res_simps)

lemma mapR_each: "mapR f xs = Inr ys \<Longrightarrow> x \<in> set xs \<Longrightarrow> \<exists>y. f x = Inr y"
  by (induction xs arbitrary: ys) (auto simp: res_simps)

lemma decode_Inr:
  assumes "decode E raw = Inr s"
  shows "s = \<lparr>sc_jobs = map (\<lambda>j. (jb_id j, aware_job j)) (st_jobs raw), sc_ops = st_ops raw,
             sc_fires = map (map_prod id norm_fire) (st_fires raw)\<rparr>"
    and "distinct (map jb_id (st_jobs raw))" and "\<forall>j \<in> set (st_jobs raw). validate_job E j = Inr ()"
    and "\<forall>p \<in> set (st_ops raw). fst p \<noteq> [] \<and> op_ok (snd p)"
    and "\<forall>p \<in> set (st_fires raw). validate_job E (fr_job (snd p)) = Inr ()
     \<and> fire_status_ok (fr_status (snd p)) (fr_error (snd p)) \<and> fst p = fire_key E (fr_job (snd p))"
proof -
  obtain js ops fs where js: "mapR (decode_job E) (st_jobs raw) = Inr js" "distinct (map jb_id js)"
    and ops: "mapR decode_op (st_ops raw) = Inr ops" and fs: "mapR (decode_fire E) (st_fires raw) = Inr fs"
    and s: "s = \<lparr>sc_jobs = map (\<lambda>j. (jb_id j, j)) js, sc_ops = ops, sc_fires = fs\<rparr>"
    using assms by (auto simp: decode_def decode_jobs_def res_simps)
  have 1: "js = map aware_job (st_jobs raw)" by (rule mapR_exact[OF js(1)]) (simp add: decode_job_Inr)
  have 2: "ops = map id (st_ops raw)" by (rule mapR_exact[OF ops]) (simp add: decode_op_Inr)
  have 3: "fs = map (map_prod id norm_fire) (st_fires raw)"
    by (rule mapR_exact[OF fs]) (simp add: decode_fire_Inr norm_fire_def map_prod_def split_beta)
  show "s = \<lparr>sc_jobs = map (\<lambda>j. (jb_id j, aware_job j)) (st_jobs raw), sc_ops = st_ops raw,
             sc_fires = map (map_prod id norm_fire) (st_fires raw)\<rparr>"
    using s 1 2 3 by (simp add: comp_def)
  show "distinct (map jb_id (st_jobs raw))" using js(2) 1 by (simp add: comp_def)
  show "\<forall>j \<in> set (st_jobs raw). validate_job E j = Inr ()"
    using mapR_each[OF js(1)] by (auto simp: decode_job_Inr)
  show "\<forall>p \<in> set (st_ops raw). fst p \<noteq> [] \<and> op_ok (snd p)"
    using mapR_each[OF ops] by (metis decode_op_Inr)
  show "\<forall>p \<in> set (st_fires raw). validate_job E (fr_job (snd p)) = Inr ()
     \<and> fire_status_ok (fr_status (snd p)) (fr_error (snd p)) \<and> fst p = fire_key E (fr_job (snd p))"
    using mapR_each[OF fs] by (metis decode_fire_Inr)
qed

lemma decode_ok:
  assumes "decode E raw = Inr s" and "distinct (keys (st_ops raw))" and "distinct (keys (st_fires raw))"
  shows "sched_ok E s"
  using decode_Inr[OF assms(1)] assms(2,3)
  by (auto simp: sched_ok_def keyed_def job_ok_def fire_ok_def norm_fire_def comp_def)

lemma decode_total:
  assumes "distinct (map jb_id (st_jobs raw))" and "\<forall>j \<in> set (st_jobs raw). validate_job E j = Inr ()"
    and "\<forall>p \<in> set (st_ops raw). fst p \<noteq> [] \<and> op_ok (snd p)"
    and "\<forall>p \<in> set (st_fires raw). validate_job E (fr_job (snd p)) = Inr ()
     \<and> fire_status_ok (fr_status (snd p)) (fr_error (snd p)) \<and> fst p = fire_key E (fr_job (snd p))"
  shows "\<exists>s. decode E raw = Inr s"
proof -
  have "mapR (decode_job E) (st_jobs raw) = Inr (map aware_job (st_jobs raw))"
    using assms(2) by (intro mapR_Inr_map) (simp add: decode_job_Inr)
  moreover have "mapR decode_op (st_ops raw) = Inr (map id (st_ops raw))"
    using assms(3) by (intro mapR_Inr_map) (simp add: decode_op_Inr)
  moreover have "mapR (decode_fire E) (st_fires raw) = Inr (map (map_prod id norm_fire) (st_fires raw))"
    using assms(4) by (intro mapR_Inr_map) (simp add: decode_fire_Inr norm_fire_def map_prod_def split_beta)
  ultimately show ?thesis using assms(1) by (simp add: decode_def decode_jobs_def comp_def ensure_def)
qed

lemma encode_Inr:
  assumes "encode E s = Inr v"
  shows "v = image_of s" and "decode E v = Inr (norm s)" and "\<forall>p \<in> set (sc_jobs s). fst p = jb_id (snd p)"
proof -
  obtain data t where d: "mapR (\<lambda>p. bindR (ensure (fst p = jb_id (snd p)) ValueError) (\<lambda>_.
        bindR (validate_job E (snd p)) (\<lambda>_. Inr (snd p)))) (sc_jobs s) = Inr data"
    and v: "v = \<lparr>st_jobs = data, st_ops = sc_ops s, st_fires = sc_fires s\<rparr>" and t: "decode E v = Inr t"
    using assms by (auto simp: encode_def res_simps Let_def)
  have "data = map snd (sc_jobs s)" by (rule mapR_exact[OF d]) (auto simp: res_simps)
  then show v': "v = image_of s" using v by (simp add: image_of_def)
  show keys: "\<forall>p \<in> set (sc_jobs s). fst p = jb_id (snd p)"
    using mapR_each[OF d] by (auto simp: res_simps)
  have "map (\<lambda>p. (jb_id (snd p), aware_job (snd p))) (sc_jobs s) = map (map_prod id aware_job) (sc_jobs s)"
    using keys by (auto simp: prod_eq_iff)
  then have "t = norm s" using decode_Inr(1)[OF t] v' by (simp add: image_of_def norm_def comp_def)
  then show "decode E v = Inr (norm s)" using t by simp
qed

lemma norm_ok: "sched_ok E s \<Longrightarrow> norm s = s"
proof -
  assume ok: "sched_ok E s"
  have "map (map_prod id aware_job) (sc_jobs s) = sc_jobs s"
    by (rule map_idI) (use ok in \<open>auto simp: sched_ok_def job_ok_def aware_job_id prod_eq_iff\<close>)
  moreover have "map (map_prod id norm_fire) (sc_fires s) = sc_fires s"
    by (rule map_idI) (use ok in \<open>auto simp: sched_ok_def fire_ok_def job_ok_def aware_job_id prod_eq_iff norm_fire_def\<close>)
  ultimately show ?thesis by (simp add: norm_def)
qed

lemma encode_ok: "sched_ok E s \<Longrightarrow> encode E s = Inr (image_of s)"
proof -
  assume ok: "sched_ok E s"
  have "mapR (\<lambda>p. bindR (ensure (fst p = jb_id (snd p)) ValueError) (\<lambda>_.
        bindR (validate_job E (snd p)) (\<lambda>_. Inr (snd p)))) (sc_jobs s) = Inr (map snd (sc_jobs s))"
    using ok by (intro mapR_Inr_map) (simp add: sched_ok_def job_ok_def ensure_def)
  moreover have "map jb_id (map snd (sc_jobs s)) = keys (sc_jobs s)"
    using ok by (auto simp: sched_ok_def)
  then have d: "distinct (map jb_id (st_jobs (image_of s)))"
    using ok by (simp only: sched_ok_def image_of_def stored.simps)
  have "\<exists>t. decode E (image_of s) = Inr t"
    by (rule decode_total[OF d]) (use ok in \<open>simp_all add: image_of_def sched_ok_def job_ok_def fire_ok_def\<close>)
  then obtain t where "decode E \<lparr>st_jobs = map snd (sc_jobs s), st_ops = sc_ops s, st_fires = sc_fires s\<rparr> = Inr t"
    by (auto simp: image_of_def)
  ultimately show ?thesis by (simp add: encode_def image_of_def)
qed

lemma read_ok: "read_file E f = Inr s \<Longrightarrow> sched_ok E s"
proof (cases f)
  case None
  assume "read_file E f = Inr s"
  then show ?thesis using None by (auto simp: read_file_def sched_ok_def keyed_def)
next
  case (Some raw)
  assume "read_file E f = Inr s"
  then show ?thesis using Some by (auto simp: read_file_def res_simps intro: decode_ok)
qed

lemma change_Inr:
  assumes r: "read_file E f = Inr s" and c: "change E upd f = Inr (x, f')"
  obtains s' where "upd s = Inr (x, s')" "\<forall>p \<in> set (sc_jobs s'). fst p = jb_id (snd p)"
    "keyed s' \<Longrightarrow> read_file E f' = Inr (norm s')"
proof -
  have ok: "sched_ok E s" by (rule read_ok[OF r])
  obtain s' after where u: "upd s = Inr (x, s')" and e: "encode E s' = Inr after"
    and f': "f' = (if image_of s \<noteq> after \<or> f = None then Some after else f)"
    using c r encode_ok[OF ok] by (auto simp: change_def res_simps)
  note e' = encode_Inr[OF e]
  have "read_file E f' = Inr (norm s')" if k: "keyed s'"
  proof (cases "image_of s \<noteq> after \<or> f = None")
    case True
    then show ?thesis using f' e' k by (simp add: read_file_def keyed_def image_of_def ensure_def)
  next
    case False
    then have "decode E (image_of s) = Inr (norm s')" using e' by simp
    moreover have "decode E (image_of s) = Inr s" using encode_Inr(2)[OF encode_ok[OF ok]] norm_ok[OF ok] by simp
    ultimately have "norm s' = s" by simp
    moreover have "f' = f" using f' False by auto
    ultimately show ?thesis using r by simp
  qed
  then show thesis using that u e'(3) by blast
qed

section \<open>How the file evolves\<close>

text \<open>Receipts stay, a fire keeps its job and once settled never changes, and the active jobs stay bounded.\<close>

definition fire_kept :: "fire \<Rightarrow> fire \<Rightarrow> bool" where
  "fire_kept f f' \<longleftrightarrow> fr_job f' = fr_job f \<and> (fr_status f \<noteq> FPending \<longrightarrow> f' = f)"

definition evolves :: "schedule \<Rightarrow> schedule \<Rightarrow> bool" where
  "evolves s s' \<longleftrightarrow> (\<forall>k p. map_of (sc_ops s) k = Some p \<longrightarrow> map_of (sc_ops s') k = Some p)
     \<and> (\<forall>k f. map_of (sc_fires s) k = Some f \<longrightarrow> (\<exists>f'. map_of (sc_fires s') k = Some f' \<and> fire_kept f f'))
     \<and> active_jobs s' \<le> max SCHEDULE_MAX_ACTIVE_JOBS (active_jobs s)"

lemma evolves_refl [simp]: "evolves s s"
  by (auto simp: evolves_def fire_kept_def)

lemma evolves_trans:
  assumes "evolves a b" and "evolves b c"
  shows "evolves a c"
proof -
  have "\<exists>h. map_of (sc_fires c) k = Some h \<and> fire_kept f h" if f: "map_of (sc_fires a) k = Some f" for k f
  proof -
    obtain g where g: "map_of (sc_fires b) k = Some g" "fire_kept f g" using assms(1) f unfolding evolves_def by blast
    then obtain h where "map_of (sc_fires c) k = Some h" "fire_kept g h" using assms(2) unfolding evolves_def by blast
    then show ?thesis using g(2) by (auto simp: fire_kept_def)
  qed
  then show ?thesis using assms by (auto simp: evolves_def max_def split: if_splits)
qed

definition aware_fires :: "schedule \<Rightarrow> bool" where
  "aware_fires s \<longleftrightarrow> (\<forall>p \<in> set (sc_fires s). aware_ok (fr_job (snd p)))"

lemma norm_fires: "aware_fires s \<Longrightarrow> sc_fires (norm s) = sc_fires s"
  unfolding norm_def aware_fires_def
  by (auto intro!: map_idI simp: prod_eq_iff norm_fire_def aware_job_id)

lemma norm_active [simp]: "active_jobs (norm s) = active_jobs s"
  by (simp add: active_jobs_def norm_def filter_map comp_def)

lemma norm_ops [simp]: "sc_ops (norm s) = sc_ops s"
  by (simp add: norm_def)

lemma ok_aware: "sched_ok E s \<Longrightarrow> aware_fires s"
  by (auto simp: sched_ok_def fire_ok_def job_ok_def aware_fires_def)

definition good_update :: "(schedule \<Rightarrow> ('a \<times> schedule) res) \<Rightarrow> sched_env \<Rightarrow> bool" where
  "good_update upd E \<longleftrightarrow> (\<forall>s x s'. sched_ok E s \<longrightarrow> upd s = Inr (x, s') \<longrightarrow> keyed s' \<and> aware_fires s' \<and> evolves s s')"

lemma change_evolves:
  assumes "good_update upd E" and r: "read_file E f = Inr s" and c: "change E upd f = Inr (x, f')"
  shows "\<exists>s'. upd s = Inr (x, s') \<and> read_file E f' = Inr (norm s') \<and> sc_fires (norm s') = sc_fires s' \<and> evolves s (norm s')"
proof -
  obtain s' where s': "upd s = Inr (x, s')" "keyed s' \<Longrightarrow> read_file E f' = Inr (norm s')"
    using change_Inr[OF r c] by blast
  have "keyed s'" "aware_fires s'" "evolves s s'"
    using assms(1) read_ok[OF r] s'(1) by (auto simp: good_update_def)
  then show ?thesis using s' norm_fires[of s'] by (auto simp: evolves_def)
qed

lemma count_update:
  assumes "map_of js k = Some j" and "P j' \<Longrightarrow> P j"
  shows "length (filter (\<lambda>p. P (snd p)) (AList.update k j' js)) \<le> length (filter (\<lambda>p. P (snd p)) js)"
  using assms by (induction js) (auto split: if_splits)

lemma count_delete: "length (filter Q (AList.delete k js)) \<le> length (filter Q js)"
  by (induction js) auto

lemma set_update: "set (AList.update k v xs) \<subseteq> insert (k, v) (set xs)"
  using in_set_update by fastforce

lemma evolves_ops:
  assumes "map_of (sc_ops s) key = None" and "sc_fires s' = sc_fires s" and "sc_ops s' = AList.update key p (sc_ops s)"
    and "active_jobs s' \<le> max SCHEDULE_MAX_ACTIVE_JOBS (active_jobs s)"
  shows "evolves s s'"
  using assms by (auto simp: evolves_def map_of_update fire_kept_def)

lemma previous_None: "previous s key k d = Inr None \<longleftrightarrow> map_of (sc_ops s) key = None"
  by (auto simp: previous_def split: option.splits)

lemma add_good: "good_update (add_update E key j response) E"
  unfolding good_update_def
proof (intro allI impI)
  fix s x s' assume ok: "sched_ok E s" and u: "add_update E key j response s = Inr (x, s')"
  consider (old) "s' = s"
    | (full) p where "map_of (sc_ops s) key = None" "s' = s\<lparr>sc_ops := AList.update key p (sc_ops s)\<rparr>"
    | (fresh) p where "map_of (sc_ops s) key = None" "jb_id j \<notin> set (keys (sc_jobs s))" "active_jobs s < SCHEDULE_MAX_ACTIVE_JOBS"
        "s' = s\<lparr>sc_jobs := AList.update (jb_id j) j (sc_jobs s), sc_ops := AList.update key p (sc_ops s)\<rparr>"
    using u by (fastforce simp: add_update_def Let_def res_simps previous_None not_le split: option.splits if_splits)
  then show "keyed s' \<and> aware_fires s' \<and> evolves s s'"
  proof cases
    case old
    then show ?thesis using ok ok_aware by (simp add: sched_ok_def)
  next
    case full
    have "evolves s s'" by (rule evolves_ops[OF full(1), where p = p]) (simp_all add: full(2) active_jobs_def)
    then show ?thesis using ok ok_aware full(2) by (simp add: sched_ok_def keyed_def aware_fires_def)
  next
    case fresh
    have "active_jobs s' \<le> Suc (active_jobs s)"
      using fresh(2,4) by (simp add: active_jobs_def set_update_notin)
    then have "evolves s s'"
      using fresh(3) by (intro evolves_ops[OF fresh(1), where p = p]) (simp_all add: fresh(4))
    then show ?thesis using ok ok_aware fresh(4) by (simp add: sched_ok_def keyed_def aware_fires_def)
  qed
qed

lemma delete_count: "foldR del_job ids js = Inr js' \<Longrightarrow> length (filter Q js') \<le> length (filter Q js)"
proof (induction ids arbitrary: js)
  case (Cons i ids)
  then have "length (filter Q js') \<le> length (filter Q (AList.delete i js))"
    by (auto simp: del_job_def res_simps split: if_splits)
  then show ?case using count_delete[of Q i js] by simp
qed simp

lemma map_of_cancel: "map_of (map (map_prod id (cancel_fire ids)) fs) k = map_option (cancel_fire ids) (map_of fs k)"
  by (induction fs) auto

lemma cancel_fire_job [simp]: "fr_job (cancel_fire ids f) = fr_job f" "fire_kept f (cancel_fire ids f)"
  by (auto simp: cancel_fire_def fire_kept_def)

lemma cancel_good: "good_update (cancel_update E key ids) E"
  unfolding good_update_def
proof (intro allI impI)
  fix s x s' assume ok: "sched_ok E s" and u: "cancel_update E key ids s = Inr (x, s')"
  consider (old) "s' = s"
    | (fresh) p js where "map_of (sc_ops s) key = None"
        "foldR del_job (filter (\<lambda>i. i \<in> set (keys (sc_jobs s))) ids) (sc_jobs s) = Inr js"
        "s' = s\<lparr>sc_jobs := js, sc_fires := map (map_prod id (cancel_fire ids)) (sc_fires s),
                sc_ops := AList.update key p (sc_ops s)\<rparr>"
    using u by (fastforce simp: cancel_update_def Let_def res_simps previous_None split: option.splits if_splits)
  then show "keyed s' \<and> aware_fires s' \<and> evolves s s'"
  proof cases
    case old
    then show ?thesis using ok ok_aware by (simp add: sched_ok_def)
  next
    case fresh
    have "active_jobs s' \<le> active_jobs s"
      using delete_count[OF fresh(2)] fresh(3) by (simp add: active_jobs_def)
    then have "evolves s s'"
      using fresh(1,3) by (auto simp: evolves_def map_of_update map_of_cancel)
    moreover have "keyed s'" using ok fresh(3) by (simp add: sched_ok_def keyed_def comp_def)
    moreover have "aware_fires s'" using ok_aware[OF ok] fresh(3) by (auto simp: aware_fires_def)
    ultimately show ?thesis by blast
  qed
qed

lemma evolves_fire:
  assumes "map_of (sc_fires s) key = None \<or> (\<exists>f. map_of (sc_fires s) key = Some f \<and> fire_kept f g)"
    and "sc_fires s' = AList.update key g (sc_fires s)" and "sc_ops s' = sc_ops s" and "active_jobs s' \<le> active_jobs s"
  shows "evolves s s'"
  using assms by (auto simp: evolves_def map_of_update fire_kept_def)

lemma job_in: "sched_ok E s \<Longrightarrow> map_of (sc_jobs s) i = Some j \<Longrightarrow> job_ok E j \<and> jb_id j = i"
  using map_of_SomeD by (fastforce simp: sched_ok_def)

lemma fire_in: "sched_ok E s \<Longrightarrow> map_of (sc_fires s) k = Some f \<Longrightarrow> fire_ok E (k, f)"
  using map_of_SomeD by (fastforce simp: sched_ok_def)

lemma aware_fires_update:
  "aware_fires s \<Longrightarrow> aware_ok (fr_job g) \<Longrightarrow> sc_fires s' = AList.update key g (sc_fires s) \<Longrightarrow> aware_fires s'"
  using set_update[of key g "sc_fires s"] by (auto simp: aware_fires_def)

lemma start_good: "good_update (start_update E j) E"
  unfolding good_update_def
proof (intro allI impI)
  fix s x s' assume ok: "sched_ok E s" and u: "start_update E j s = Inr (x, s')"
  consider (old) "s' = s"
    | (fresh) c where "map_of (sc_jobs s) (jb_id j) = Some c" "map_of (sc_fires s) (fire_key E c) = None"
        "s' = s\<lparr>sc_fires := AList.update (fire_key E c) \<lparr>fr_job = c, fr_status = FPending, fr_error = None\<rparr> (sc_fires s)\<rparr>"
    using u by (fastforce simp: start_update_def Let_def split: option.splits if_splits)
  then show "keyed s' \<and> aware_fires s' \<and> evolves s s'"
  proof cases
    case old
    then show ?thesis using ok ok_aware by (simp add: sched_ok_def)
  next
    case fresh
    let ?g = "\<lparr>fr_job = c, fr_status = FPending, fr_error = None\<rparr>"
    have s': "sc_fires s' = AList.update (fire_key E c) ?g (sc_fires s)" "sc_ops s' = sc_ops s" "active_jobs s' \<le> active_jobs s"
      using fresh(3) by (simp_all add: active_jobs_def)
    have "aware_ok c" using job_in[OF ok fresh(1)] by (simp add: job_ok_def)
    then have "aware_fires s'" using aware_fires_update[OF ok_aware[OF ok] _ s'(1)] by simp
    moreover have "evolves s s'" by (rule evolves_fire[OF _ s']) (simp add: fresh(2))
    ultimately show ?thesis using ok s' by (simp add: sched_ok_def keyed_def)
  qed
qed

lemma settle_good: "good_update (settle_update E key st now err) E"
  unfolding good_update_def
proof (intro allI impI)
  fix s x s' assume ok: "sched_ok E s" and u: "settle_update E key st now err s = Inr (x, s')"
  consider (old) "s' = s"
    | (settles) f where "map_of (sc_fires s) key = Some f" "fr_status f = FPending"
        "sc_fires s' = AList.update key (f\<lparr>fr_status := st, fr_error := err\<rparr>) (sc_fires s)" "sc_ops s' = sc_ops s"
        "sc_jobs s' = sc_jobs s \<or> (\<exists>c j. map_of (sc_jobs s) (jb_id c) = Some c \<and> after_fire E now st c = Inr j
            \<and> sc_jobs s' = AList.update (jb_id c) j (sc_jobs s))"
  proof (cases "map_of (sc_fires s) key")
    case None
    then show thesis using u by (simp add: settle_update_def)
  next
    case (Some f)
    show thesis
    proof (cases "fr_status f = FPending")
      case False
      then show thesis using u Some that(1) by (auto simp: settle_update_def)
    next
      case True
      let ?m = "map_of (sc_jobs s) (jb_id (fr_job f))"
      have "sc_jobs s' = sc_jobs s \<or> (\<exists>c j. map_of (sc_jobs s) (jb_id c) = Some c \<and> after_fire E now st c = Inr j
            \<and> sc_jobs s' = AList.update (jb_id c) j (sc_jobs s))"
      proof (cases ?m)
        case None
        then show ?thesis using u Some True by (auto simp: settle_update_def)
      next
        case (Some c)
        have "map_of (sc_jobs s) (jb_id c) = Some c" using job_in[OF ok Some] Some by simp
        then show ?thesis using u \<open>map_of (sc_fires s) key = Some f\<close> True Some
          by (auto simp: settle_update_def res_simps Let_def split: if_splits)
      qed
      moreover have "sc_fires s' = AList.update key (f\<lparr>fr_status := st, fr_error := err\<rparr>) (sc_fires s) \<and> sc_ops s' = sc_ops s"
        using u Some True by (auto simp: settle_update_def res_simps Let_def split: if_splits option.splits)
      ultimately show thesis using that(2) Some True by blast
    qed
  qed
  then show "keyed s' \<and> aware_fires s' \<and> evolves s s'"
  proof cases
    case old
    then show ?thesis using ok ok_aware by (simp add: sched_ok_def)
  next
    case settles
    have "active_jobs s' \<le> active_jobs s"
    proof (cases "sc_jobs s' = sc_jobs s")
      case False
      then obtain c j where c: "map_of (sc_jobs s) (jb_id c) = Some c" "after_fire E now st c = Inr j"
        "sc_jobs s' = AList.update (jb_id c) j (sc_jobs s)" using settles(5) by blast
      have "jb_enabled j \<Longrightarrow> jb_enabled c" using c(2) by (auto simp: after_fire_def res_simps Let_def split: if_splits)
      then show ?thesis using count_update[OF c(1), of jb_enabled j] c(3) by (simp add: active_jobs_def)
    qed (simp add: active_jobs_def)
    then have "evolves s s'"
      using settles by (intro evolves_fire[OF _ settles(3,4)]) (auto simp: fire_kept_def)
    moreover have "aware_fires s'"
      using fire_in[OF ok settles(1)] by (intro aware_fires_update[OF ok_aware[OF ok] _ settles(3)]) (simp add: fire_ok_def job_ok_def)
    ultimately show ?thesis using ok settles(3,4) by (simp add: sched_ok_def keyed_def)
  qed
qed

lemma recover_enabled: "recover_job E now fs j = Inr j' \<Longrightarrow> jb_enabled j' \<Longrightarrow> jb_enabled j"
  by (auto simp: recover_job_def res_simps split: if_splits)

lemma recover_count:
  assumes "mapR (\<lambda>p. bindR (recover_job E now fs (snd p)) (\<lambda>j. Inr (fst p, j))) js = Inr js'"
  shows "length (filter (\<lambda>p. jb_enabled (snd p)) js') \<le> length (filter (\<lambda>p. jb_enabled (snd p)) js)"
  using assms by (induction js arbitrary: js') (auto simp: res_simps dest: recover_enabled)

lemma recover_good: "good_update (recover_update E now) E"
  unfolding good_update_def
proof (intro allI impI)
  fix s x s' assume ok: "sched_ok E s" and u: "recover_update E now s = Inr (x, s')"
  then obtain js where js: "mapR (\<lambda>p. bindR (recover_job E now (sc_fires s) (snd p)) (\<lambda>j. Inr (fst p, j))) (sc_jobs s) = Inr js"
    and s': "s' = s\<lparr>sc_jobs := js\<rparr>"
    by (auto simp: recover_update_def res_simps Let_def)
  have "active_jobs s' \<le> active_jobs s" using recover_count[OF js] s' by (simp add: active_jobs_def)
  then have "evolves s s'" using s' by (simp add: evolves_def fire_kept_def)
  then show "keyed s' \<and> aware_fires s' \<and> evolves s s'"
    using ok ok_aware[OF ok] s' by (simp add: sched_ok_def keyed_def aware_fires_def)
qed

text \<open>The steps of the scheduler and its tools.\<close>

inductive job_step :: "sched_env \<Rightarrow> job_file \<Rightarrow> job_file \<Rightarrow> bool" for E where
  Add: "add_job E key j response f = Inr (p, f') \<Longrightarrow> job_step E f f'"
| Cancel_Jobs: "cancel_jobs E key ids f = Inr (p, f') \<Longrightarrow> job_step E f f'"
| Start: "start_fire E j f = Inr (x, f') \<Longrightarrow> job_step E f f'"
| Settle_Fire: "settle_fire E key st now err f = Inr (u, f') \<Longrightarrow> job_step E f f'"
| Recover_File: "recover_file E now f = Inr (s, f') \<Longrightarrow> job_step E f f'"

inductive_cases job_stepE: "job_step E f f'"

lemma step_evolves: "job_step E f f' \<Longrightarrow> read_file E f = Inr s \<Longrightarrow> \<exists>s'. read_file E f' = Inr s' \<and> evolves s s'"
proof (induction rule: job_step.induct)
  case Add
  then show ?case using change_evolves[OF add_good] by (fastforce simp: add_job_def)
next
  case Cancel_Jobs
  then show ?case using change_evolves[OF cancel_good] by (fastforce simp: cancel_jobs_def)
next
  case Start
  then show ?case using change_evolves[OF start_good] by (fastforce simp: start_fire_def)
next
  case Settle_Fire
  then show ?case using change_evolves[OF settle_good] by (fastforce simp: settle_fire_def)
next
  case Recover_File
  then show ?case using change_evolves[OF recover_good] by (fastforce simp: recover_file_def)
qed

lemma steps_evolve:
  assumes "(job_step E)\<^sup>*\<^sup>* f f'" and "read_file E f = Inr s"
  shows "\<exists>s'. read_file E f' = Inr s' \<and> evolves s s'"
  using assms(1)
proof (induction rule: rtranclp_induct)
  case base
  then show ?case using assms(2) by auto
next
  case (step g h)
  then show ?case using step_evolves evolves_trans by blast
qed

end
