(* ===== verification/Job_Properties.thy ===== *)
theory Job_Properties
  imports Job_Store
begin

text \<open>
  The properties of the scheduler's file: it can always be read back, operations are idempotent by
  key, a fire is settled once, and a restart moves every due job forward.
\<close>

section \<open>A sample environment\<close>

definition sample_env :: sched_env where
  "sample_env = \<lparr>se_zone = (\<lambda>_. True), se_cron = (\<lambda>_ _ _ t. Inr (Some (t + 1))),
     se_digest = (\<lambda>i. case i of OfFire s t \<Rightarrow> s @ show_int t | _ \<Rightarrow> replicate 64 CHR ''a'')\<rparr>"

definition sample_job :: job where
  "sample_job = \<lparr>jb_trigger = ''after'', jb_tier = ''instant'', jb_fire_at = Aware 5, jb_channel = ''c'', jb_chat = ''u'',
     jb_interval = None, jb_cron = None, jb_message = Some ''hi'', jb_prompt = None, jb_name = None,
     jb_timezone = ''UTC'', jb_created = Aware 0, jb_runs = 0, jb_enabled = True, jb_id = ''j''\<rparr>"

definition sample_op :: operation where
  "sample_op = \<lparr>op_kind = OSchedule, op_digest = replicate 64 CHR ''a'', op_jobs = [''j''], op_success = True,
     op_response = ''ok''\<rparr>"

definition sample_fire :: "fire_status \<Rightarrow> fire" where
  "sample_fire st = \<lparr>fr_job = sample_job, fr_status = st, fr_error = None\<rparr>"

definition sample_key :: string where
  "sample_key = fire_key sample_env sample_job"

definition file1 :: job_file where
  "file1 = Some \<lparr>st_jobs = [sample_job], st_ops = [(''k'', sample_op)], st_fires = []\<rparr>"

definition file2 :: job_file where
  "file2 = Some \<lparr>st_jobs = [sample_job], st_ops = [(''k'', sample_op)], st_fires = [(sample_key, sample_fire FPending)]\<rparr>"

definition file3 :: job_file where
  "file3 = Some \<lparr>st_jobs = [sample_job\<lparr>jb_enabled := False, jb_runs := 1\<rparr>], st_ops = [(''k'', sample_op)],
     st_fires = [(sample_key, sample_fire FDelivered)]\<rparr>"

lemma sample_job_ok [simp]: "validate_job sample_env sample_job = Inr ()" "aware_job sample_job = sample_job"
  "validate_job sample_env (sample_job\<lparr>jb_enabled := False, jb_runs := 1\<rparr>) = Inr ()"
  "aware_job (sample_job\<lparr>jb_enabled := False, jb_runs := 1\<rparr>) = sample_job\<lparr>jb_enabled := False, jb_runs := 1\<rparr>"
  by (simp_all add: validate_job_def job_identity_ok_def job_payload_ok_def job_schedule_ok_def filled_def
      sample_job_def sample_env_def ensure_def aware_job_def)

lemma sample_op_ok [simp]: "check_operation sample_op = Inr sample_op"
  by (simp add: check_operation_def mk_Operation_def sample_op_def sha256_ok_def list_all_iff code_def Let_def)

lemma sample_key_again [simp]:
  "fire_key sample_env sample_job = sample_key" "fire_key sample_env (sample_job\<lparr>jb_enabled := False, jb_runs := 1\<rparr>) = sample_key"
  by (simp_all add: sample_key_def fire_key_def)

lemmas file_eval = change_def read_file_def decode_def decode_jobs_def decode_job_def encode_def decode_op_def
  decode_fire_def ensure_def fire_status_ok_def

lemma sample_add: "add_job sample_env ''k'' sample_job ''ok'' None = Inr (sample_op, file1)"
proof -
  have "mk_Operation OSchedule (se_digest sample_env (OfJob sample_job)) [''j''] True ''ok'' = Inr sample_op"
    by (simp add: mk_Operation_def sample_op_def sample_env_def sha256_ok_def list_all_iff code_def Let_def)
  moreover have "jb_id sample_job = ''j''" by (simp add: sample_job_def)
  ultimately show ?thesis
    by (simp add: add_job_def file_eval add_update_def previous_def active_jobs_def SCHEDULE_MAX_ACTIVE_JOBS_def
        file1_def Let_def)
qed

lemma sample_start: "start_fire sample_env sample_job file1 = Inr (Some (sample_fire FPending), file2)"
proof -
  have "jb_id sample_job = ''j''" "jb_enabled sample_job" by (simp_all add: sample_job_def)
  then show ?thesis
    by (simp add: start_fire_def file_eval start_update_def file1_def file2_def Let_def sample_fire_def)
qed

lemma sample_settle: "settle_fire sample_env sample_key FDelivered 7 None file2 = Inr ((), file3)"
proof -
  have "jb_id sample_job = ''j''" "jb_enabled sample_job" "jb_trigger sample_job = ''after''" "jb_runs sample_job = 0"
    by (simp_all add: sample_job_def)
  then show ?thesis
    by (simp add: settle_fire_def file_eval settle_update_def after_fire_def file2_def file3_def Let_def sample_fire_def)
qed

lemma schedule_steps: "(job_step sample_env)\<^sup>*\<^sup>* None file1" "(job_step sample_env)\<^sup>*\<^sup>* file1 file3" "(job_step sample_env)\<^sup>*\<^sup>* None file3"
proof -
  show 1: "(job_step sample_env)\<^sup>*\<^sup>* None file1" using job_step.Add[OF sample_add] by (rule r_into_rtranclp)
  show 2: "(job_step sample_env)\<^sup>*\<^sup>* file1 file3"
    using job_step.Start[OF sample_start] job_step.Settle_Fire[OF sample_settle] by auto
  show "(job_step sample_env)\<^sup>*\<^sup>* None file3" using 1 2 by (rule rtranclp_trans)
qed

section \<open>The file\<close>

lemma read_None [simp]: "read_file E None = Inr \<lparr>sc_jobs = [], sc_ops = [], sc_fires = []\<rparr>"
  by (simp add: read_file_def)

text \<open>C19. The schedule file is always readable: after any sequence of additions, cancellations, starts, settlements
  and recoveries it decodes, to jobs that satisfy the schema and stand under their own ids, receipts
  and fires that satisfy theirs, each fire under the key of its job and time, and never more than ten
  active jobs.\<close>

theorem schedule_file_sound:
  assumes "(job_step E)\<^sup>*\<^sup>* None f"
  shows "\<exists>s. read_file E f = Inr s \<and> sched_ok E s \<and> active_jobs s \<le> SCHEDULE_MAX_ACTIVE_JOBS"
proof -
  obtain s where s: "read_file E f = Inr s" "evolves \<lparr>sc_jobs = [], sc_ops = [], sc_fires = []\<rparr> s"
    using steps_evolve[OF assms read_None] by blast
  then show ?thesis using read_ok[OF s(1)] by (simp add: evolves_def active_jobs_def)
qed

theorem schedule_file_sound_witness:
  "\<exists>s. read_file sample_env file3 = Inr s \<and> sched_ok sample_env s \<and> active_jobs s \<le> SCHEDULE_MAX_ACTIVE_JOBS"
  by (rule schedule_file_sound[OF schedule_steps(3)])

lemma change_noop:
  assumes r: "read_file E f = Inr s" and u: "upd s = Inr (x, s)" and f: "f \<noteq> None"
  shows "change E upd f = Inr (x, f)"
  using assms encode_ok[OF read_ok[OF r]] by (simp add: change_def)

lemma change_refused:
  "read_file E f = Inr s \<Longrightarrow> upd s = Inl e \<Longrightarrow> change E upd f = Inl e"
  by (simp add: change_def encode_ok[OF read_ok])

lemma step_Some: "job_step E f f' \<Longrightarrow> f' \<noteq> None"
  by (induction rule: job_step.induct)
    (auto simp: add_job_def cancel_jobs_def start_fire_def settle_fire_def recover_file_def change_def res_simps split: if_splits)

lemma steps_Some: "(job_step E)\<^sup>*\<^sup>* f f' \<Longrightarrow> f \<noteq> None \<Longrightarrow> f' \<noteq> None"
  by (induction rule: rtranclp_induct) (auto dest: step_Some)

lemma previous_Some: "previous s key k d = Inr (Some p) \<longleftrightarrow> map_of (sc_ops s) key = Some p \<and> op_kind p = k \<and> op_digest p = d"
  by (auto simp: previous_def split: option.splits)

lemma add_recorded:
  assumes "add_update E key j response s = Inr (p, s')"
  shows "map_of (sc_ops s') key = Some p \<and> op_kind p = OSchedule \<and> op_digest p = se_digest E (OfJob j)"
  using assms
  by (auto simp: add_update_def Let_def res_simps previous_Some map_of_update mk_Operation_def split: option.splits if_splits)

text \<open>Adding a job is idempotent by operation key: whatever happens to the file afterwards, even if the job
  was cancelled or ran, asking again for the same job under the key returns the recorded receipt and
  leaves the file as it is, and any other job or a cancellation under that key is refused.\<close>

theorem add_replayed:
  assumes "(job_step E)\<^sup>*\<^sup>* None f" and a: "add_job E key j response f = Inr (p, f1)" and s: "(job_step E)\<^sup>*\<^sup>* f1 f2"
  shows "add_job E key j response' f2 = Inr (p, f2)
    \<and> (\<forall>j'. se_digest E (OfJob j') \<noteq> se_digest E (OfJob j) \<longrightarrow> add_job E key j' response' f2 = Inl ValueError)
    \<and> cancel_jobs E key ids f2 = Inl ValueError"
proof -
  obtain s0 where s0: "read_file E f = Inr s0" using schedule_file_sound[OF assms(1)] by blast
  obtain s1 where u: "add_update E key j response s0 = Inr (p, s1)" and r1: "read_file E f1 = Inr (norm s1)"
    using change_evolves[OF add_good s0 a[unfolded add_job_def]] by blast
  obtain s2 where r2: "read_file E f2 = Inr s2" and e: "evolves (norm s1) s2" using steps_evolve[OF s r1] by blast
  have p: "map_of (sc_ops s2) key = Some p" "op_kind p = OSchedule" "op_digest p = se_digest E (OfJob j)"
    using add_recorded[OF u] e by (auto simp: evolves_def)
  have "f1 \<noteq> None" using step_Some[OF job_step.Add[OF a]] .
  then have f2: "f2 \<noteq> None" by (rule steps_Some[OF s])
  have "add_update E key j response' s2 = Inr (p, s2)"
    using p by (simp add: add_update_def Let_def previous_def)
  moreover have "add_update E key j' response' s2 = Inl ValueError" if "se_digest E (OfJob j') \<noteq> se_digest E (OfJob j)" for j'
    using p that by (simp add: add_update_def Let_def previous_def)
  moreover have "cancel_update E key ids s2 = Inl ValueError"
    using p by (simp add: cancel_update_def Let_def previous_def)
  ultimately show ?thesis
    unfolding add_job_def cancel_jobs_def
    by (intro conjI allI impI) (rule change_noop[OF r2 _ f2] change_refused[OF r2], simp)+
qed

theorem add_replayed_witness:
  "add_job sample_env ''k'' sample_job ''again'' file3 = Inr (sample_op, file3) \<and> cancel_jobs sample_env ''k'' [''j''] file3 = Inl ValueError"
  using add_replayed[OF rtranclp.rtrancl_refl sample_add schedule_steps(2), of "''again''" "[''j'']"] by blast

section \<open>Fires\<close>

text \<open>A fire runs to one end: once a fire is delivered, failed or cancelled, no later operation changes it, and
  the timer that would start it again, for any snapshot of the job with that time, gets nothing and
  leaves the file unchanged.\<close>

theorem fire_settled_once:
  assumes "(job_step E)\<^sup>*\<^sup>* None f" and r: "read_file E f = Inr s" and k: "map_of (sc_fires s) (fire_key E j) = Some fr"
    and settled: "fr_status fr \<noteq> FPending" and s: "(job_step E)\<^sup>*\<^sup>* f f'"
  shows "\<exists>s'. read_file E f' = Inr s' \<and> map_of (sc_fires s') (fire_key E j) = Some fr \<and> start_fire E j f' = Inr (None, f')"
proof -
  obtain s' where r': "read_file E f' = Inr s'" and e: "evolves s s'" using steps_evolve[OF s r] by blast
  have fr: "map_of (sc_fires s') (fire_key E j) = Some fr" using e k settled by (auto simp: evolves_def fire_kept_def)
  have "f \<noteq> None"
  proof
    assume "f = None"
    then show False using r k by auto
  qed
  then have f': "f' \<noteq> None" by (rule steps_Some[OF s])
  have "start_update E j s' = Inr (None, s')"
    using fr settled by (auto simp: start_update_def split: option.splits)
  then show ?thesis using r' fr change_noop[OF r' _ f'] by (simp add: start_fire_def)
qed

theorem fire_settled_once_witness:
  "\<exists>s'. read_file sample_env file3 = Inr s' \<and> map_of (sc_fires s') sample_key = Some (sample_fire FDelivered)
     \<and> start_fire sample_env sample_job file3 = Inr (None, file3)"
proof -
  obtain s where r: "read_file sample_env file3 = Inr s" using schedule_file_sound[OF schedule_steps(3)] by blast
  have "map_of (sc_fires s) (fire_key sample_env sample_job) = Some (sample_fire FDelivered)"
    using r by (auto simp: file_eval file3_def sample_fire_def)
  then show ?thesis
    using fire_settled_once[OF schedule_steps(3) r, of sample_job "sample_fire FDelivered" file3] by (auto simp: sample_fire_def)
qed

section \<open>Moving forward\<close>

lemma next_slot_exact:
  assumes "0 < interval"
  shows "after < next_slot start interval after" "start < next_slot start interval after"
    "(next_slot start interval after - start) mod interval = 0"
    "start \<le> after \<Longrightarrow> next_slot start interval after \<le> after + interval"
proof -
  let ?q = "(after - start) div interval"
  have d1: "interval * ?q \<le> after - start"
    using mult_div_mod_eq[of interval "after - start"] pos_mod_sign[OF assms, of "after - start"] by linarith
  have d2: "after - start < interval * ?q + interval"
    using mult_div_mod_eq[of interval "after - start"] pos_mod_bound[OF assms, of "after - start"] by linarith
  have n: "next_slot start interval after = start + interval * max 0 ?q + interval"
    by (simp add: next_slot_def algebra_simps)
  have "interval * ?q \<le> interval * max 0 ?q" using assms by (simp add: mult_left_mono)
  then show "after < next_slot start interval after" using n d2 by linarith
  have "0 \<le> interval * max 0 ?q" using assms by simp
  then show "start < next_slot start interval after" using n assms by linarith
  show "(next_slot start interval after - start) mod interval = 0" by (simp add: next_slot_def)
  show "next_slot start interval after \<le> after + interval" if "start \<le> after"
  proof -
    have "0 \<le> ?q" using that assms by (simp add: pos_imp_zdiv_nonneg_iff)
    then show ?thesis using n d1 by (simp add: max_def)
  qed
qed

lemma no_words [simp]: "\<not> is_cron_expr []"
  by (simp add: is_cron_expr_def words_of_def)

lemma advance_future:
  assumes h1: "\<And>parts tz n t. se_cron E parts tz None n = Inr (Some t) \<Longrightarrow> n \<le> t"
    and h2: "\<And>parts tz n t. se_cron E parts tz (Some n) n = Inr (Some t) \<Longrightarrow> n < t"
    and ok: "job_ok E j" and every: "jb_trigger j = ''every''" and a: "advance E j now = Inr t"
  shows "now < t"
proof (cases "jb_cron j")
  case None
  have "jb_interval j \<noteq> None" "\<forall>s \<in> set_option (jb_interval j). 0 < s"
    using ok every None by (auto simp: job_ok_def validate_job_def job_schedule_ok_def)
  then obtain s where "jb_interval j = Some s" "0 < s" by auto
  then show ?thesis
    using a None next_slot_exact(1)[of "s * 1000000" now "instant (jb_fire_at j)"] by (simp add: advance_def)
next
  case (Some c)
  have "is_cron_expr c" using ok every Some by (auto simp: job_ok_def validate_job_def job_schedule_ok_def)
  then have "c \<noteq> []" by (metis no_words)
  then have n: "next_cron_fire E c (jb_timezone j) now = Inr t" using a Some by (cases c) (auto simp: advance_def)
  then obtain r where r: "se_cron E (words_of c) (jb_timezone j) None now = Inr r"
    by (auto simp: next_cron_fire_def res_simps split: if_splits)
  show ?thesis
  proof (cases r)
    case None
    then show ?thesis using n r by (auto simp: next_cron_fire_def split: if_splits)
  next
    case (Some u)
    show ?thesis
    proof (cases "u \<le> now")
      case True
      then have "u = now" using h1 r Some by force
      then show ?thesis using n r Some h2 by (auto simp: next_cron_fire_def res_simps split: if_splits option.splits)
    next
      case False
      then show ?thesis using n r Some by (auto simp: next_cron_fire_def split: if_splits)
    qed
  qed
qed

definition due_soon :: "int \<Rightarrow> job \<Rightarrow> bool" where
  "due_soon now j \<longleftrightarrow> jb_trigger j \<noteq> ''every'' \<and> now - instant (jb_fire_at j) \<le> 300 * 1000000"

text \<open>C40. After a restart no job is stuck in the past: once \<open>recover\<close> has run, every enabled job is in the future, or
  its fire is already recorded and is resumed from there, or it is a one-shot at most five minutes
  late. APScheduler enters by its contract: the next time is not before now, and after now when now
  was the previous time.\<close>

theorem recover_moves_on:
  assumes h1: "\<And>parts tz n t. se_cron E parts tz None n = Inr (Some t) \<Longrightarrow> n \<le> t"
    and h2: "\<And>parts tz n t. se_cron E parts tz (Some n) n = Inr (Some t) \<Longrightarrow> n < t"
    and r: "read_file E f = Inr s" and c: "recover_file E now f = Inr (t, f')"
  shows "\<exists>s'. read_file E f' = Inr s' \<and> (\<forall>p \<in> set (sc_jobs s'). jb_enabled (snd p) \<longrightarrow>
    now < instant (jb_fire_at (snd p)) \<or> fire_key E (snd p) \<in> set (keys (sc_fires s')) \<or> due_soon now (snd p))"
proof -
  have ok: "sched_ok E s" by (rule read_ok[OF r])
  obtain s' where u: "recover_update E now s = Inr (t, s')" and r': "read_file E f' = Inr (norm s')"
      and fs: "sc_fires (norm s') = sc_fires s'"
    using change_evolves[OF recover_good r c[unfolded recover_file_def]] by blast
  obtain js where js: "mapR (\<lambda>p. bindR (recover_job E now (sc_fires s) (snd p)) (\<lambda>j. Inr (fst p, j))) (sc_jobs s) = Inr js"
    and s': "s' = s\<lparr>sc_jobs := js\<rparr>"
    using u by (auto simp: recover_update_def res_simps Let_def)
  have each: "jb_enabled j \<longrightarrow> now < instant (jb_fire_at j) \<or> fire_key E j \<in> set (keys (sc_fires s)) \<or> due_soon now j"
    if p: "(k, j) \<in> set js" for k j
  proof -
    obtain q where q: "q \<in> set (sc_jobs s)" and rj: "recover_job E now (sc_fires s) (snd q) = Inr j"
      using mapR_set[OF js p] by (auto simp: res_simps)
    have jok: "job_ok E (snd q)" using ok q by (simp add: sched_ok_def)
    show ?thesis
      using rj advance_future[OF h1 h2 jok]
      by (auto simp: recover_job_def res_simps due_soon_def split: if_splits)
  qed
  have "jb_enabled (snd p) \<longrightarrow> now < instant (jb_fire_at (snd p)) \<or> fire_key E (snd p) \<in> set (keys (sc_fires (norm s')))
      \<or> due_soon now (snd p)" if p: "p \<in> set (sc_jobs (norm s'))" for p
  proof -
    obtain k j where q: "(k, j) \<in> set js" "snd p = aware_job j" using p s' by (auto simp: norm_def)
    have "jb_trigger (aware_job j) = jb_trigger j" by (simp add: aware_job_def)
    then show ?thesis using each[OF q(1)] fs s' by (simp add: q(2) due_soon_def)
  qed
  then show ?thesis using r' by blast
qed

definition sample_every :: job where
  "sample_every = sample_job\<lparr>jb_trigger := ''every'', jb_interval := Some 10\<rparr>"

definition every_file :: job_file where
  "every_file = Some \<lparr>st_jobs = [sample_every], st_ops = [], st_fires = []\<rparr>"

lemma every_ok [simp]: "validate_job sample_env sample_every = Inr ()" "aware_job sample_every = sample_every"
  by (simp_all add: validate_job_def job_identity_ok_def job_payload_ok_def job_schedule_ok_def filled_def
      sample_every_def sample_job_def sample_env_def ensure_def aware_job_def)

lemma every_recovered:
  "\<exists>t f'. recover_file sample_env 25000000 every_file = Inr (t, f')"
proof -
  let ?j = "sample_every\<lparr>jb_fire_at := Aware 30000005\<rparr>"
  have "recover_job sample_env 25000000 [] sample_every = Inr ?j"
    by (simp add: recover_job_def advance_def next_slot_def sample_every_def sample_job_def)
  moreover have "validate_job sample_env ?j = Inr ()" "jb_id ?j = jb_id sample_every"
    using every_ok(1) by (simp_all add: validate_job_def job_identity_ok_def job_payload_ok_def job_schedule_ok_def)
  ultimately show ?thesis
    by (simp add: recover_file_def file_eval recover_update_def every_file_def Let_def)
qed

theorem recover_moves_on_witness:
  "\<exists>t f' s'. recover_file sample_env 25000000 every_file = Inr (t, f') \<and> read_file sample_env f' = Inr s'
     \<and> (\<forall>p \<in> set (sc_jobs s'). jb_enabled (snd p) \<longrightarrow>
          25000000 < instant (jb_fire_at (snd p)) \<or> fire_key sample_env (snd p) \<in> set (keys (sc_fires s')) \<or> due_soon 25000000 (snd p))"
proof -
  have h1: "n \<le> t" if "se_cron sample_env parts tz None n = Inr (Some t)" for parts tz n t
    using that by (simp add: sample_env_def)
  have h2: "n < t" if "se_cron sample_env parts tz (Some n) n = Inr (Some t)" for parts tz n t
    using that by (simp add: sample_env_def)
  obtain s where r: "read_file sample_env every_file = Inr s" by (simp add: file_eval every_file_def)
  obtain t f' where c: "recover_file sample_env 25000000 every_file = Inr (t, f')" using every_recovered by blast
  have "\<exists>s'. read_file sample_env f' = Inr s' \<and> (\<forall>p \<in> set (sc_jobs s'). jb_enabled (snd p) \<longrightarrow>
      25000000 < instant (jb_fire_at (snd p)) \<or> fire_key sample_env (snd p) \<in> set (keys (sc_fires s')) \<or> due_soon 25000000 (snd p))"
    by (rule recover_moves_on[OF _ _ r c]) (fact h1, fact h2)
  then show ?thesis using c by blast
qed

end
