(* ===== verification/Inbound_Store.thy ===== *)
theory Inbound_Store
  imports Prelude
begin

text \<open>
  \<open>session/inbound_store.py\<close> and \<open>session/admissions.py\<close>: the durable hand-over of inbound messages and the
  leases of sessions being processed.

  A reservation looks for an existing row and, when there is none, inserts; another connection may
  write between the two, so they are two steps (\<open>reserve_lookup\<close>, \<open>reserve_insert\<close>). The tables are
  lists of rows; all columns are text, the two JSON columns included, which this store never parses.
  The schema checks of the constructors are not modelled.
\<close>

section \<open>Hand-offs\<close>

record handoff =
  hf_id :: string
  hf_dedupe :: "string option"
  hf_channel :: string
  hf_sender :: string
  hf_chat :: string
  hf_session :: string
  hf_content :: string
  hf_timestamp :: string
  hf_media :: string
  hf_metadata :: string
  hf_created :: string

type_synonym handoffs = "handoff list"

definition filled_handoff :: "handoff \<Rightarrow> bool" where
  "filled_handoff h \<longleftrightarrow> [] \<notin> {hf_id h, hf_channel h, hf_sender h, hf_chat h, hf_session h, hf_content h,
     hf_timestamp h, hf_media h, hf_metadata h, hf_created h} \<and> hf_dedupe h \<noteq> Some []"

definition same_identity :: "bool \<Rightarrow> handoff \<Rightarrow> handoff \<Rightarrow> bool" where
  "same_identity include_timestamp row h \<longleftrightarrow>
     hf_dedupe row = hf_dedupe h \<and> hf_channel row = hf_channel h \<and> hf_sender row = hf_sender h
     \<and> hf_chat row = hf_chat h \<and> hf_session row = hf_session h \<and> hf_content row = hf_content h
     \<and> (include_timestamp \<longrightarrow> hf_timestamp row = hf_timestamp h)
     \<and> hf_media row = hf_media h \<and> hf_metadata row = hf_metadata h"

definition validate_existing :: "bool \<Rightarrow> handoff \<Rightarrow> handoff \<Rightarrow> unit res" where
  "validate_existing include_timestamp row h = ensure (same_identity include_timestamp row h) RuntimeError"

definition by_id :: "handoffs \<Rightarrow> string \<Rightarrow> handoff option" where
  "by_id rows i = find (\<lambda>r. hf_id r = i) rows"

definition by_dedupe :: "handoffs \<Rightarrow> string option \<Rightarrow> handoff option" where
  "by_dedupe rows k = (case k of None \<Rightarrow> None | Some d \<Rightarrow> find (\<lambda>r. hf_dedupe r = Some d) rows)"

definition reserve_lookup :: "handoffs \<Rightarrow> handoff \<Rightarrow> (string \<times> bool) option res" where
  "reserve_lookup rows h =
     (if \<not> filled_handoff h then Inl ValueError
      else
        let i = by_id rows (hf_id h); d = by_dedupe rows (hf_dedupe h) in
        if i \<noteq> None \<and> d \<noteq> None \<and> map_option hf_id i \<noteq> map_option hf_id d then Inl RuntimeError
        else case (if i \<noteq> None then i else d) of
          None \<Rightarrow> Inr None
        | Some row \<Rightarrow> bindR (validate_existing (i \<noteq> None) row h) (\<lambda>_. Inr (Some (hf_id row, False))))"

definition conflicts :: "handoffs \<Rightarrow> handoff \<Rightarrow> bool" where
  "conflicts rows h = list_ex (\<lambda>r. hf_id r = hf_id h \<or> (hf_dedupe h \<noteq> None \<and> hf_dedupe r = hf_dedupe h)) rows"

definition reserve_insert :: "handoffs \<Rightarrow> handoff \<Rightarrow> ((string \<times> bool) \<times> handoffs) res" where
  "reserve_insert rows h =
     (let fresh = \<not> conflicts rows h; rows' = (if fresh then rows @ [h] else rows) in
      case (case by_id rows' (hf_id h) of Some r \<Rightarrow> Some r | None \<Rightarrow> by_dedupe rows' (hf_dedupe h)) of
        None \<Rightarrow> Inl RuntimeError
      | Some row \<Rightarrow> bindR (validate_existing (hf_id row = hf_id h) row h) (\<lambda>_. Inr ((hf_id row, fresh), rows')))"

text \<open>A reservation nobody interferes with.\<close>

definition reserve :: "handoffs \<Rightarrow> handoff \<Rightarrow> ((string \<times> bool) \<times> handoffs) res" where
  "reserve rows h = bindR (reserve_lookup rows h) (\<lambda>found. case found of
     Some r \<Rightarrow> Inr (r, rows) | None \<Rightarrow> reserve_insert rows h)"

definition handoff_after :: "string \<times> string \<Rightarrow> handoff \<Rightarrow> bool" where
  "handoff_after c r \<longleftrightarrow> fst c < hf_created r \<or> (fst c = hf_created r \<and> snd c < hf_id r)"

definition list_handoffs :: "handoffs \<Rightarrow> int option \<Rightarrow> (string \<times> string) option \<Rightarrow> handoffs res" where
  "list_handoffs rows limit after =
     (if (case limit of None \<Rightarrow> False | Some n \<Rightarrow> n < 1) then Inl ValueError
      else
        let rs = sort_key hf_created (sort_key hf_id
                   (case after of None \<Rightarrow> rows | Some c \<Rightarrow> filter (handoff_after c) rows)) in
        Inr (case limit of None \<Rightarrow> rs | Some n \<Rightarrow> take (nat n) rs))"

definition read_handoff :: "handoffs \<Rightarrow> string \<Rightarrow> string \<Rightarrow> handoff option" where
  "read_handoff rows session client = by_dedupe rows (Some (session @ '':'' @ client))"

definition has_handoff :: "handoffs \<Rightarrow> string \<Rightarrow> string \<Rightarrow> bool" where
  "has_handoff rows session client = (read_handoff rows session client \<noteq> None)"

definition complete_handoff :: "handoffs \<Rightarrow> string \<Rightarrow> handoffs res" where
  "complete_handoff rows i =
     (if i = [] then Inl ValueError
      else if length (filter (\<lambda>r. hf_id r = i) rows) \<noteq> 1 then Inl RuntimeError
      else Inr (filter (\<lambda>r. hf_id r \<noteq> i) rows))"

section \<open>Leases\<close>

record admission =
  ad_id :: string
  ad_session :: string
  ad_created :: string

text \<open>\<open>new_id\<close> is \<open>uuid4().hex\<close>; \<open>exists_session\<close> reads the sessions table in the same transaction.\<close>

definition acquire ::
  "(string \<Rightarrow> bool) \<Rightarrow> string \<Rightarrow> string \<Rightarrow> string \<Rightarrow> bool \<Rightarrow> admission list \<Rightarrow> (string \<times> admission list) res" where
  "acquire exists_session new_id now key require_existing rows =
     (if key = [] then Inl ValueError
      else if require_existing \<and> \<not> exists_session key then Inl KeyError
      else if new_id \<in> set (map ad_id rows) then Inl IntegrityError
      else Inr (new_id, rows @ [\<lparr>ad_id = new_id, ad_session = key, ad_created = now\<rparr>]))"

text \<open>The deletion is committed before its count is checked: nothing is deleted when it raises.\<close>

definition release_admission :: "string \<Rightarrow> admission list \<Rightarrow> unit res \<times> admission list" where
  "release_admission i rows =
     (if length (filter (\<lambda>r. ad_id r = i) rows) = 1 then Inr () else Inl RuntimeError,
      filter (\<lambda>r. ad_id r \<noteq> i) rows)"

definition clear_stale :: "admission list \<Rightarrow> admission list" where
  "clear_stale rows = []"

section \<open>The invariant\<close>

definition wf_handoffs :: "handoffs \<Rightarrow> bool" where
  "wf_handoffs rows \<longleftrightarrow> distinct (map hf_id rows)
     \<and> (\<forall>a \<in> set rows. \<forall>b \<in> set rows. hf_dedupe a \<noteq> None \<longrightarrow> hf_dedupe a = hf_dedupe b \<longrightarrow> a = b)
     \<and> (\<forall>r \<in> set rows. filled_handoff r)"

inductive handoff_step :: "handoffs \<Rightarrow> handoffs \<Rightarrow> bool" where
  Insert: "filled_handoff h \<Longrightarrow> reserve_insert rows h = Inr (r, rows') \<Longrightarrow> handoff_step rows rows'"
| Complete: "complete_handoff rows i = Inr rows' \<Longrightarrow> handoff_step rows rows'"

lemma no_conflict:
  "\<not> conflicts rows h \<longleftrightarrow> (\<forall>r \<in> set rows. hf_id r \<noteq> hf_id h \<and> (hf_dedupe h = None \<or> hf_dedupe r \<noteq> hf_dedupe h))"
  by (auto simp: conflicts_def list_ex_iff)

lemma by_id_in: "by_id rows i = Some r \<Longrightarrow> r \<in> set rows \<and> hf_id r = i"
  unfolding by_id_def by (rule find_Some_iff')

lemma by_dedupe_in: "by_dedupe rows k = Some r \<Longrightarrow> r \<in> set rows \<and> hf_dedupe r = k \<and> k \<noteq> None"
  unfolding by_dedupe_def by (auto split: option.splits dest!: find_Some_iff')

lemma by_id_of: "wf_handoffs rows \<Longrightarrow> r \<in> set rows \<Longrightarrow> by_id rows (hf_id r) = Some r"
  unfolding by_id_def wf_handoffs_def by (rule find_unique) auto

lemma by_dedupe_of:
  assumes "wf_handoffs rows" and "r \<in> set rows" and "hf_dedupe r = Some d"
  shows "by_dedupe rows (Some d) = Some r"
proof -
  have "find (\<lambda>x. hf_dedupe x = Some d) rows \<noteq> None" using assms by (auto simp: find_None_iff')
  then obtain x where x: "find (\<lambda>x. hf_dedupe x = Some d) rows = Some x" by blast
  then have "x \<in> set rows" "hf_dedupe x = Some d" using find_Some_iff' by fastforce+
  then have "x = r" using assms unfolding wf_handoffs_def by (metis option.distinct(1))
  then show ?thesis using x by (simp add: by_dedupe_def)
qed

lemma insert_cases:
  assumes "wf_handoffs rows" and "filled_handoff h"
  shows "reserve_insert rows h =
    (if \<not> conflicts rows h then Inr ((hf_id h, True), rows @ [h])
     else case (case by_id rows (hf_id h) of Some r \<Rightarrow> Some r | None \<Rightarrow> by_dedupe rows (hf_dedupe h)) of
       None \<Rightarrow> Inl RuntimeError
     | Some row \<Rightarrow> if same_identity (hf_id row = hf_id h) row h then Inr ((hf_id row, False), rows) else Inl RuntimeError)"
proof (cases "conflicts rows h")
  case False
  then have "by_id (rows @ [h]) (hf_id h) = Some h"
    by (auto simp: by_id_def find_append find_None_iff' no_conflict split: option.split dest!: find_Some_iff')
  then show ?thesis using False
    by (simp add: reserve_insert_def validate_existing_def same_identity_def ensure_def)
next
  case True
  then show ?thesis
    by (auto simp: reserve_insert_def validate_existing_def ensure_def split: option.split)
qed

lemma handoff_step_wf: "handoff_step rows rows' \<Longrightarrow> wf_handoffs rows \<Longrightarrow> wf_handoffs rows'"
proof (induction rule: handoff_step.induct)
  case (Insert h rows r rows')
  show ?case
  proof (cases "conflicts rows h")
    case True
    then show ?thesis using Insert insert_cases[of rows h] by (auto split: option.splits if_splits)
  next
    case False
    then have "rows' = rows @ [h]" using Insert insert_cases[of rows h] by simp
    then show ?thesis using Insert False unfolding no_conflict wf_handoffs_def by auto
  qed
next
  case (Complete rows i rows')
  then have "rows' = filter (\<lambda>r. hf_id r \<noteq> i) rows" by (auto simp: complete_handoff_def split: if_splits)
  then show ?case using Complete(2) by (auto simp: wf_handoffs_def distinct_map_filter)
qed

lemma handoff_steps_wf: "handoff_step\<^sup>*\<^sup>* rows rows' \<Longrightarrow> wf_handoffs rows \<Longrightarrow> wf_handoffs rows'"
  by (induction rule: rtranclp_induct) (auto dest: handoff_step_wf)

lemma wf_handoffs_Nil [simp]: "wf_handoffs []"
  by (simp add: wf_handoffs_def)

text \<open>Looking up and inserting agree with the invariant.\<close>

lemma lookup_found:
  assumes "wf_handoffs rows" and "row \<in> set rows" and "filled_handoff h" and "hf_dedupe h = hf_dedupe row"
    and "hf_dedupe row \<noteq> None \<or> hf_id h = hf_id row" and "by_id rows (hf_id h) = None \<or> hf_id h = hf_id row"
    and "same_identity (hf_id h = hf_id row) row h"
  shows "reserve rows h = Inr ((hf_id row, False), rows)"
proof (cases "hf_id h = hf_id row")
  case True
  then have i: "by_id rows (hf_id h) = Some row" using by_id_of[OF assms(1,2)] by simp
  have "by_dedupe rows (hf_dedupe h) \<in> {None, Some row}"
    using assms(1,2,4) by_dedupe_of[OF assms(1,2)] by (cases "hf_dedupe row") (auto simp: by_dedupe_def)
  then show ?thesis using i assms(3,7) True
    by (auto simp: reserve_def reserve_lookup_def validate_existing_def ensure_def Let_def)
next
  case False
  then have i: "by_id rows (hf_id h) = None" using assms(6) by simp
  obtain d where "hf_dedupe row = Some d" using assms(5) False by auto
  then have "by_dedupe rows (hf_dedupe h) = Some row" using by_dedupe_of[OF assms(1,2)] assms(4) by simp
  then show ?thesis using i assms(3,7) False
    by (simp add: reserve_def reserve_lookup_def validate_existing_def ensure_def Let_def)
qed

lemma insert_stored:
  assumes "wf_handoffs rows" and "filled_handoff h" and "reserve_insert rows h = Inr ((i, fresh), rows')"
  shows "\<exists>row \<in> set rows'. hf_id row = i \<and> same_identity (i = hf_id h) row h \<and> (fresh \<longrightarrow> row = h \<and> rows' = rows @ [h])
    \<and> (\<not> fresh \<longrightarrow> rows' = rows)"
proof (cases "conflicts rows h")
  case False
  then show ?thesis using assms(3) insert_cases[OF assms(1,2)] by (auto simp: same_identity_def)
next
  case True
  then obtain row where row: "(case by_id rows (hf_id h) of Some r \<Rightarrow> Some r | None \<Rightarrow> by_dedupe rows (hf_dedupe h)) = Some row"
    "same_identity (hf_id row = hf_id h) row h" "i = hf_id row" "\<not> fresh" "rows' = rows"
    using assms(3) insert_cases[OF assms(1,2)] by (auto split: option.splits if_splits)
  have "row \<in> set rows" using row(1) by_id_in by_dedupe_in by (fastforce split: option.splits)
  then show ?thesis using row by auto
qed

end
