(* ===== verification/Inbound_Properties.thy ===== *)
theory Inbound_Properties
  imports Inbound_Store "HOL-Library.Multiset"
begin

text \<open>
  The properties of the inbound hand-over: a redelivered message is recognised, and paging through the
  waiting hand-offs visits each of them once, in order of arrival.
\<close>

text \<open>A redelivery is recognised: in every reachable table, while a hand-off waits, a delivery with its
  deduplication key, under the same or a new hand-off id and with any new transport time, gets the
  identity of the waiting row and changes nothing; if anything else of it differs it is refused and
  changes nothing.\<close>

theorem redelivery_recognised:
  assumes "handoff_step\<^sup>*\<^sup>* [] rows" and "r \<in> set rows" and "filled_handoff h"
    and "hf_dedupe h = hf_dedupe r" and "hf_dedupe r \<noteq> None" and "hf_id h = hf_id r \<or> by_id rows (hf_id h) = None"
  shows "reserve rows h =
    (if same_identity (hf_id h = hf_id r) r h then Inr ((hf_id r, False), rows) else Inl RuntimeError)"
proof -
  have wf: "wf_handoffs rows" by (rule handoff_steps_wf[OF assms(1)]) simp
  obtain d where d: "hf_dedupe r = Some d" using assms(5) by auto
  have k: "by_dedupe rows (hf_dedupe h) = Some r" using by_dedupe_of[OF wf assms(2) d] assms(4) d by simp
  have i: "by_id rows (hf_id h) = (if hf_id h = hf_id r then Some r else None)"
    using assms(6) by_id_of[OF wf assms(2)] by auto
  show ?thesis
  proof (cases "hf_id h = hf_id r")
    case True
    then show ?thesis using i k assms(3)
      by (simp add: reserve_def reserve_lookup_def validate_existing_def bindR_ensure Let_def)
  next
    case False
    then show ?thesis using i k assms(3)
      by (simp add: reserve_def reserve_lookup_def validate_existing_def bindR_ensure Let_def)
  qed
qed

definition sample_handoff :: handoff where
  "sample_handoff = \<lparr>hf_id = ''h1'', hf_dedupe = Some ''s:1'', hf_channel = ''c'', hf_sender = ''u'', hf_chat = ''x'',
     hf_session = ''s'', hf_content = ''hi'', hf_timestamp = ''1'', hf_media = ''[]'', hf_metadata = ''{}'', hf_created = ''1''\<rparr>"

lemma sample_reserved: "handoff_step\<^sup>*\<^sup>* [] [sample_handoff]"
proof -
  have f: "filled_handoff sample_handoff" by (simp add: filled_handoff_def sample_handoff_def)
  have "reserve_insert [] sample_handoff = Inr ((''h1'', True), [sample_handoff])"
    using insert_cases[OF wf_handoffs_Nil f] by (simp add: conflicts_def sample_handoff_def)
  then have "handoff_step [] [sample_handoff]" by (rule handoff_step.Insert[OF f])
  then show ?thesis by (rule r_into_rtranclp)
qed

theorem redelivery_recognised_witness:
  "reserve [sample_handoff] (sample_handoff\<lparr>hf_id := ''h2'', hf_timestamp := ''9''\<rparr>) = Inr ((''h1'', False), [sample_handoff])"
  using redelivery_recognised[OF sample_reserved, of sample_handoff "sample_handoff\<lparr>hf_id := ''h2'', hf_timestamp := ''9''\<rparr>"]
  by (simp add: filled_handoff_def sample_handoff_def same_identity_def by_id_def)

section \<open>Pages\<close>

definition waiting :: "handoffs \<Rightarrow> handoffs" where
  "waiting rows = sort_key hf_created (sort_key hf_id rows)"

definition cursor_of :: "handoff \<Rightarrow> string \<times> string" where
  "cursor_of r = (hf_created r, hf_id r)"

lemma sort_filter: "sort_key hf_created (sort_key hf_id (filter P rows)) = filter P (waiting rows)"
  by (simp add: waiting_def filter_sort)

lemma waiting_set [simp]: "set (waiting rows) = set rows" "length (waiting rows) = length rows"
  by (simp_all add: waiting_def)

lemma strictly_after:
  assumes "sorted_wrt (\<lambda>a b. hf_created a < hf_created b \<or> (hf_created a = hf_created b \<and> hf_id a \<le> hf_id b)) xs"
    and "distinct (map hf_id xs)"
  shows "sorted_wrt (\<lambda>a b. handoff_after (cursor_of a) b) xs"
  using assms by (induction xs) (auto simp: handoff_after_def cursor_of_def image_iff order_le_less)

lemma waiting_sorted:
  assumes "wf_handoffs rows"
  shows "sorted_wrt (\<lambda>a b. handoff_after (cursor_of a) b) (waiting rows)"
proof (rule strictly_after)
  show "sorted_wrt (\<lambda>a b. hf_created a < hf_created b \<or> (hf_created a = hf_created b \<and> hf_id a \<le> hf_id b)) (waiting rows)"
    unfolding waiting_def by (rule sort_lex)
  have "distinct rows" and "inj_on hf_id (set rows)" using assms by (auto simp: wf_handoffs_def distinct_map)
  then show "distinct (map hf_id (waiting rows))" by (simp add: distinct_map waiting_def)
qed

text \<open>Paging through the waiting hand-offs loses and repeats none: the first page is the first \<open>limit\<close> of them
  in order of arrival, and the page after the last row of any prefix is the next \<open>limit\<close>.\<close>

theorem handoff_pages:
  assumes "handoff_step\<^sup>*\<^sup>* [] rows" and "1 \<le> limit"
  shows "list_handoffs rows (Some limit) None = Inr (take (nat limit) (waiting rows))
    \<and> (\<forall>n. 0 < n \<longrightarrow> rows \<noteq> [] \<longrightarrow>
         list_handoffs rows (Some limit) (Some (cursor_of (last (take n (waiting rows)))))
           = Inr (take (nat limit) (drop n (waiting rows))))
    \<and> mset (waiting rows) = mset rows"
proof -
  have wf: "wf_handoffs rows" by (rule handoff_steps_wf[OF assms(1)]) simp
  have next_page: "filter (handoff_after (cursor_of (last (take n (waiting rows))))) (waiting rows) = drop n (waiting rows)"
    if "0 < n" "rows \<noteq> []" for n
  proof (rule filter_after_take[OF waiting_sorted[OF wf]])
    show "waiting rows \<noteq> []" using that(2) by (metis length_0_conv waiting_set(2))
  qed (use that in \<open>auto simp: handoff_after_def cursor_of_def\<close>)
  have first: "list_handoffs rows (Some limit) None = Inr (take (nat limit) (waiting rows))"
    using assms(2) by (simp add: list_handoffs_def waiting_def Let_def)
  have later: "list_handoffs rows (Some limit) (Some c) = Inr (take (nat limit) (filter (handoff_after c) (waiting rows)))" for c
    using assms(2) unfolding list_handoffs_def Let_def option.case sort_filter by simp
  have "mset (waiting rows) = mset rows" by (simp add: waiting_def)
  then show ?thesis using first later next_page by (simp del: mset_eq_length)
qed

theorem handoff_pages_witness:
  "list_handoffs [sample_handoff] (Some 1) None = Inr [sample_handoff]
     \<and> list_handoffs [sample_handoff] (Some 1) (Some (''1'', ''h1'')) = Inr []"
  using handoff_pages[OF sample_reserved, of 1] by (force simp: waiting_def cursor_of_def sample_handoff_def)

end
