(* ===== verification/Frame_Book.thy ===== *)
theory Frame_Book
  imports Message
begin

text \<open>
  \<open>agent/control/frame_book.py\<close>: the routes on which control connections wait for the frame of a final
  output to be written.

  Routes, claims, stages and waiter futures are mutable objects shared by several tables, so the book
  is an explicit heap: an object is a number below its counter. A reservation is its route. The code
  between two awaits runs alone; a task that waits is in \<open>FWait\<close>, and its steps are the segment before
  the await, the resumption once its future is done, and a cancellation. The writer's future calls
  \<open>frame_done\<close> for each route it was attached to. What a resolver returns or raises is an input. The sets
  of stages, claims and waiters are lists, iterated in the order of insertion; no lemma depends on it.
\<close>

section \<open>Objects\<close>

type_synonym route_key = "string \<times> string"

record route =
  rt_key :: route_key
  rt_conn :: string
  rt_expected :: "string option"
  rt_resolved :: "string option"
  rt_written :: "nat option"
  rt_drained :: bool
  rt_error :: "py_error option"
  rt_waiters :: "nat list"
  rt_claims :: "nat list"
  rt_staged :: bool

record frame_claim =
  cl_route :: nat
  cl_ref :: call_ref
  cl_ending :: "string option"
  cl_closed :: bool

record frame_stage =
  sg_route :: nat
  sg_closed :: bool

datatype wait_state = WPending | WResult | WError py_error

record book =
  bk_heap :: "nat \<Rightarrow> route"
  bk_nroutes :: nat
  bk_claim :: "nat \<Rightarrow> frame_claim"
  bk_nclaims :: nat
  bk_stage :: "nat \<Rightarrow> frame_stage"
  bk_nstages :: nat
  bk_future :: "nat \<Rightarrow> wait_state"
  bk_nfutures :: nat
  bk_routes :: "(route_key \<times> nat) list"
  bk_stages :: "nat list"
  bk_claims :: "((string \<times> call_ref) \<times> nat) list"
  bk_closed :: "py_error option"

definition set_route :: "nat \<Rightarrow> (route \<Rightarrow> route) \<Rightarrow> book \<Rightarrow> book" where
  "set_route r f b = b\<lparr>bk_heap := (bk_heap b)(r := f (bk_heap b r))\<rparr>"

definition set_claim :: "nat \<Rightarrow> (frame_claim \<Rightarrow> frame_claim) \<Rightarrow> book \<Rightarrow> book" where
  "set_claim c f b = b\<lparr>bk_claim := (bk_claim b)(c := f (bk_claim b c))\<rparr>"

definition set_stage :: "nat \<Rightarrow> (frame_stage \<Rightarrow> frame_stage) \<Rightarrow> book \<Rightarrow> book" where
  "set_stage s f b = b\<lparr>bk_stage := (bk_stage b)(s := f (bk_stage b s))\<rparr>"

text \<open>Setting the result of every waiter that is not done.\<close>

definition settle_waiters :: "wait_state \<Rightarrow> nat list \<Rightarrow> book \<Rightarrow> book" where
  "settle_waiters v ws b =
     b\<lparr>bk_future := (\<lambda>w. if w \<in> set ws \<and> bk_future b w = WPending then v else bk_future b w)\<rparr>"

section \<open>Ending a route\<close>

definition release_route :: "route_key \<Rightarrow> nat option \<Rightarrow> book \<Rightarrow> book" where
  "release_route key exact_route b =
     (case map_of (bk_routes b) key of
        None \<Rightarrow> b
      | Some r \<Rightarrow>
          if exact_route \<noteq> None \<and> exact_route \<noteq> Some r then b
          else
            let rt = bk_heap b r;
                err = (if rt_error rt = None \<and> \<not> rt_drained rt then Some FrameRouteReleased else rt_error rt);
                b = b\<lparr>bk_routes := AList.delete key (bk_routes b)\<rparr>;
                b = settle_waiters (WError (case err of None \<Rightarrow> FrameRouteReleased | Some e \<Rightarrow> e)) (rt_waiters rt) b in
            set_route r (\<lambda>rt. rt\<lparr>rt_error := err, rt_waiters := []\<rparr>) b)"

definition fail_route :: "route_key \<Rightarrow> py_error \<Rightarrow> nat option \<Rightarrow> book \<Rightarrow> book" where
  "fail_route key error exact_route b =
     (case (case exact_route of Some r \<Rightarrow> Some r | None \<Rightarrow> map_of (bk_routes b) key) of
        None \<Rightarrow> b
      | Some r \<Rightarrow>
          let b = (if map_of (bk_routes b) key = Some r then b\<lparr>bk_routes := AList.delete key (bk_routes b)\<rparr> else b);
              b = b\<lparr>bk_stages := filter (\<lambda>s. sg_route (bk_stage b s) \<noteq> r) (bk_stages b)\<rparr>;
              b = settle_waiters (WError error) (rt_waiters (bk_heap b r)) b in
          set_route r (\<lambda>rt. rt\<lparr>rt_error := Some error, rt_waiters := []\<rparr>) b)"

definition maybe_release :: "nat \<Rightarrow> book \<Rightarrow> book" where
  "maybe_release r b =
     (let rt = bk_heap b r in
      if rt_staged rt \<or> \<not> rt_drained rt \<or> rt_claims rt \<noteq> [] then b
      else release_route (rt_key rt) (Some r) b)"

text \<open>The callback of the writer's future; \<open>outcome\<close> is its exception.\<close>

definition frame_done :: "nat \<Rightarrow> py_error option \<Rightarrow> book \<Rightarrow> book" where
  "frame_done r outcome b =
     (case outcome of
        Some e \<Rightarrow> fail_route (rt_key (bk_heap b r)) e (Some r) b
      | None \<Rightarrow>
          let b = set_route r (\<lambda>rt. rt\<lparr>rt_written := None, rt_drained := True\<rparr>) b;
              b = settle_waiters WResult (rt_waiters (bk_heap b r)) b in
          maybe_release r b)"

section \<open>Routing\<close>

definition check_open :: "book \<Rightarrow> unit res" where
  "check_open b = (case bk_closed b of None \<Rightarrow> Inr () | Some e \<Rightarrow> Inl e)"

definition new_route :: "route_key \<Rightarrow> string \<Rightarrow> bool \<Rightarrow> route" where
  "new_route key conn staged = \<lparr>rt_key = key, rt_conn = conn, rt_expected = None, rt_resolved = None,
     rt_written = None, rt_drained = False, rt_error = None, rt_waiters = [], rt_claims = [], rt_staged = staged\<rparr>"

definition add_route :: "route \<Rightarrow> book \<Rightarrow> nat \<times> book" where
  "add_route rt b = (bk_nroutes b, b\<lparr>bk_heap := (bk_heap b)(bk_nroutes b := rt), bk_nroutes := Suc (bk_nroutes b)\<rparr>)"

definition route_input :: "string \<Rightarrow> string \<Rightarrow> string \<Rightarrow> book \<Rightarrow> (nat \<times> book) res" where
  "route_input sid iid conn b =
     bindR (check_open b) (\<lambda>_.
     case map_of (bk_routes b) (sid, iid) of
       Some r \<Rightarrow> Inr (r, b)
     | None \<Rightarrow>
         (case add_route (new_route (sid, iid) conn False) b of (r, b) \<Rightarrow>
          Inr (r, b\<lparr>bk_routes := AList.update (sid, iid) r (bk_routes b)\<rparr>)))"

definition route_input_with_owner :: "string \<Rightarrow> string \<Rightarrow> string \<Rightarrow> book \<Rightarrow> ((nat \<times> bool) \<times> book) res" where
  "route_input_with_owner sid iid conn b =
     bindR (check_open b) (\<lambda>_.
     case map_of (bk_routes b) (sid, iid) of
       Some r \<Rightarrow> Inr ((r, False), b)
     | None \<Rightarrow> bindR (route_input sid iid conn b) (\<lambda>(r, b). Inr ((r, True), b)))"

definition stage_input :: "string \<Rightarrow> string \<Rightarrow> string \<Rightarrow> book \<Rightarrow> (nat \<times> book) res" where
  "stage_input sid iid conn b =
     bindR (check_open b) (\<lambda>_.
     case add_route (new_route (sid, iid) conn True) b of (r, b) \<Rightarrow>
     let s = bk_nstages b in
     Inr (s, b\<lparr>bk_stage := (bk_stage b)(s := \<lparr>sg_route = r, sg_closed = False\<rparr>), bk_nstages := Suc s,
               bk_stages := s # bk_stages b\<rparr>))"

definition commit_stage :: "nat \<Rightarrow> book \<Rightarrow> (nat \<times> book) res" where
  "commit_stage s b =
     (if sg_closed (bk_stage b s) then Inl FrameRouteReleased
      else
        let r = sg_route (bk_stage b s); key = rt_key (bk_heap b r);
            b = set_stage s (\<lambda>g. g\<lparr>sg_closed := True\<rparr>) b;
            b = b\<lparr>bk_stages := filter (\<lambda>t. t \<noteq> s) (bk_stages b)\<rparr>;
            b = (case map_of (bk_routes b) key of
                   None \<Rightarrow> b
                 | Some old \<Rightarrow> fail_route key FrameRouteReleased (Some old) b);
            b = set_route r (\<lambda>rt. rt\<lparr>rt_staged := False\<rparr>) b;
            b = b\<lparr>bk_routes := AList.update key r (bk_routes b)\<rparr> in
        Inr (r, maybe_release r b))"

definition abort_stage :: "nat \<Rightarrow> book \<Rightarrow> book" where
  "abort_stage s b =
     (if sg_closed (bk_stage b s) then b
      else
        let r = sg_route (bk_stage b s);
            b = set_stage s (\<lambda>g. g\<lparr>sg_closed := True\<rparr>) b;
            b = b\<lparr>bk_stages := filter (\<lambda>t. t \<noteq> s) (bk_stages b)\<rparr> in
        fail_route (rt_key (bk_heap b r)) FrameRouteReleased (Some r) b)"

section \<open>Pages\<close>

fun get_item :: "pyval \<Rightarrow> string \<Rightarrow> pyval" where
  "get_item (VMap kvs) k = (case map_of kvs (KStr k) of None \<Rightarrow> VNone | Some v \<Rightarrow> v)"
| "get_item _ k = VNone"

fun text_of :: "pyval \<Rightarrow> string option" where
  "text_of (VStr s) = Some s"
| "text_of _ = None"

fun is_list :: "pyval \<Rightarrow> bool" where
  "is_list (VSeq t xs) = (\<not> t)"
| "is_list _ = False"

fun items_of :: "pyval \<Rightarrow> pyval list" where
  "items_of (VSeq t xs) = xs"
| "items_of _ = []"

definition complete_output :: "pyval \<Rightarrow> bool" where
  "complete_output row \<longleftrightarrow>
     (let body = get_item row ''body'' in
      text_of (get_item row ''id'') \<noteq> None \<and> text_of (get_item row ''session_id'') \<noteq> None \<and> is_mapping body
      \<and> get_item body ''kind'' = VStr ''output'' \<and> get_item body ''finish'' = VStr ''complete''
      \<and> is_list (get_item body ''parts''))"

definition row_identity :: "pyval \<Rightarrow> string \<times> string" where
  "row_identity row = (the (text_of (get_item row ''session_id'')), the (text_of (get_item row ''id'')))"

definition endings :: "pyval \<Rightarrow> (string \<times> string) list res" where
  "endings page =
     (let rows = get_item page ''items'' in
      if \<not> is_list rows then Inl TypeError
      else if \<not> list_all is_mapping (items_of rows) then Inl TypeError
      else Inr (map row_identity (filter complete_output (items_of rows))))"

definition resolve_route :: "nat \<Rightarrow> string \<Rightarrow> book \<Rightarrow> book" where
  "resolve_route r ending b =
     fold (\<lambda>c. set_claim c (\<lambda>cl. cl\<lparr>cl_ending := Some ending\<rparr>)) (rt_claims (bk_heap b r))
       (set_route r (\<lambda>rt. rt\<lparr>rt_expected := Some ending, rt_resolved := Some ending\<rparr>) b)"

text \<open>The loop keeps what it resolved before an exception.\<close>

fun resolve_routes ::
  "(nat \<Rightarrow> string option res) \<Rightarrow> string \<Rightarrow> (string \<times> string) list \<Rightarrow> nat list \<Rightarrow> nat list \<Rightarrow> book
     \<Rightarrow> nat list res \<times> book" where
  "resolve_routes resolver conn complete [] tracked b = (Inr tracked, b)"
| "resolve_routes resolver conn complete (r # rs) tracked b =
     (let rt = bk_heap b r in
      if rt_conn rt \<noteq> conn then resolve_routes resolver conn complete rs tracked b
      else case resolver r of
        Inl e \<Rightarrow> (Inl e, b)
      | Inr None \<Rightarrow> resolve_routes resolver conn complete rs tracked b
      | Inr (Some ending) \<Rightarrow>
          if (fst (rt_key rt), ending) \<notin> set complete then resolve_routes resolver conn complete rs tracked b
          else if rt_expected rt \<noteq> None \<and> rt_expected rt \<noteq> Some ending then (Inl ValueError, b)
          else resolve_routes resolver conn complete rs (tracked @ [r]) (resolve_route r ending b))"

definition all_routes :: "book \<Rightarrow> nat list" where
  "all_routes b = map snd (bk_routes b) @ map (\<lambda>s. sg_route (bk_stage b s)) (bk_stages b)"

definition resolve_page :: "(nat \<Rightarrow> string option res) \<Rightarrow> string \<Rightarrow> pyval \<Rightarrow> book \<Rightarrow> nat list res \<times> book" where
  "resolve_page resolver conn page b =
     (case endings page of
        Inl e \<Rightarrow> (Inl e, b)
      | Inr complete \<Rightarrow> resolve_routes resolver conn complete (all_routes b) [] b)"

text \<open>The callbacks \<open>attach_page\<close> registers are the routes it returns.\<close>

definition attachable :: "book \<Rightarrow> nat \<Rightarrow> bool" where
  "attachable b r \<longleftrightarrow> rt_written (bk_heap b r) = None \<and> \<not> rt_drained (bk_heap b r)"

fun attach_page :: "nat list \<Rightarrow> nat \<Rightarrow> book \<Rightarrow> nat list \<times> book" where
  "attach_page [] written b = ([], b)"
| "attach_page (r # rs) written b =
     (if \<not> attachable b r then attach_page rs written b
      else case attach_page rs written (set_route r (\<lambda>rt. rt\<lparr>rt_written := Some written\<rparr>) b) of
        (cs, b') \<Rightarrow> (r # cs, b'))"

section \<open>Claims and endings\<close>

definition release_input :: "string \<Rightarrow> string \<Rightarrow> book \<Rightarrow> book" where
  "release_input sid iid b =
     (case map_of (bk_routes b) (sid, iid) of
        None \<Rightarrow> b
      | Some r \<Rightarrow> if rt_claims (bk_heap b r) = [] then release_route (sid, iid) None b else b)"

definition active_input_ids :: "string \<Rightarrow> book \<Rightarrow> string list" where
  "active_input_ids sid b =
     map (\<lambda>r. snd (rt_key (bk_heap b r))) (filter (\<lambda>r. fst (rt_key (bk_heap b r)) = sid) (all_routes b))"

definition settle_input :: "string \<Rightarrow> string \<Rightarrow> py_error option \<Rightarrow> book \<Rightarrow> book" where
  "settle_input sid iid error b =
     (case map_of (bk_routes b) (sid, iid) of
        None \<Rightarrow> b
      | Some r \<Rightarrow>
          if rt_claims (bk_heap b r) \<noteq> []
          then (case error of None \<Rightarrow> b | Some e \<Rightarrow> fail_route (sid, iid) e (Some r) b)
          else release_route (sid, iid) None b)"

definition claim_for :: "string \<Rightarrow> call_ref \<Rightarrow> book \<Rightarrow> nat option" where
  "claim_for sid ref b =
     (case map_of (bk_claims b) (sid, ref) of
        None \<Rightarrow> None
      | Some c \<Rightarrow> if cl_closed (bk_claim b c) then None else Some c)"

definition arm_claim :: "string \<Rightarrow> string \<Rightarrow> call_ref \<Rightarrow> book \<Rightarrow> (nat \<times> book) res" where
  "arm_claim sid iid ref b =
     (case map_of (bk_routes b) (sid, iid) of
        None \<Rightarrow> Inl FrameRouteReleased
      | Some r \<Rightarrow>
          (case claim_for sid ref b of
             Some c \<Rightarrow> Inr (c, b)
           | None \<Rightarrow>
               let c = bk_nclaims b;
                   cl = \<lparr>cl_route = r, cl_ref = ref, cl_ending = rt_resolved (bk_heap b r), cl_closed = False\<rparr>;
                   b = b\<lparr>bk_claim := (bk_claim b)(c := cl), bk_nclaims := Suc c\<rparr>;
                   b = set_route r (\<lambda>rt. rt\<lparr>rt_claims := c # rt_claims rt\<rparr>) b in
               Inr (c, b\<lparr>bk_claims := AList.update (sid, ref) c (bk_claims b)\<rparr>)))"

text \<open>\<open>consume\<close> and \<open>abort\<close> of a claim are the same code.\<close>

definition close_claim :: "nat \<Rightarrow> book \<Rightarrow> book" where
  "close_claim c b =
     (if cl_closed (bk_claim b c) then b
      else
        let r = cl_route (bk_claim b c); key = (fst (rt_key (bk_heap b r)), cl_ref (bk_claim b c));
            b = set_claim c (\<lambda>cl. cl\<lparr>cl_closed := True\<rparr>) b;
            b = set_route r (\<lambda>rt. rt\<lparr>rt_claims := filter (\<lambda>x. x \<noteq> c) (rt_claims rt)\<rparr>) b;
            b = (if map_of (bk_claims b) key = Some c then b\<lparr>bk_claims := AList.delete key (bk_claims b)\<rparr> else b) in
        maybe_release r b)"

definition fail_connection :: "string \<Rightarrow> py_error \<Rightarrow> book \<Rightarrow> book" where
  "fail_connection conn error b =
     (let b = fold (\<lambda>(key, r) b. if rt_conn (bk_heap b r) = conn then fail_route key error None b else b) (bk_routes b) b in
      fold (\<lambda>s b. if rt_conn (bk_heap b (sg_route (bk_stage b s))) = conn then abort_stage s b else b) (bk_stages b) b)"

definition close_book :: "py_error option \<Rightarrow> book \<Rightarrow> book" where
  "close_book error b =
     (let e = (case error of None \<Rightarrow> ConnectionError | Some e \<Rightarrow> e);
          b = b\<lparr>bk_closed := Some e\<rparr>;
          b = fold (\<lambda>key. fail_route key e None) (keys (bk_routes b)) b in
      fold abort_stage (bk_stages b) b)"

section \<open>Waiting\<close>

text \<open>What a task waits for: an output message, or the frame of a claim.\<close>

datatype wait_goal = GOutput string | GClaim nat

datatype frame_pc = FIdle | FWait nat nat wait_goal | FReturned nat wait_goal | FRaised py_error

text \<open>The segment of \<open>_wait_route\<close> up to its await: raises, returns at once, or waits on a new future.\<close>

definition wait_route :: "nat \<Rightarrow> wait_goal \<Rightarrow> book \<Rightarrow> (nat option \<times> book) res" where
  "wait_route r g b =
     (case rt_error (bk_heap b r) of
        Some e \<Rightarrow> Inl e
      | None \<Rightarrow>
          if rt_drained (bk_heap b r) then Inr (None, b)
          else
            let w = bk_nfutures b;
                b = b\<lparr>bk_future := (bk_future b)(w := WPending), bk_nfutures := Suc w\<rparr> in
            Inr (Some w, set_route r (\<lambda>rt. rt\<lparr>rt_waiters := w # rt_waiters rt\<rparr>) b))"

definition wait_output :: "nat \<Rightarrow> string \<Rightarrow> book \<Rightarrow> frame_pc \<times> book" where
  "wait_output r mid b =
     (if rt_expected (bk_heap b r) \<noteq> None \<and> rt_expected (bk_heap b r) \<noteq> Some mid then (FRaised ValueError, b)
      else
        let b = set_route r (\<lambda>rt. rt\<lparr>rt_expected := Some mid\<rparr>) b in
        case wait_route r (GOutput mid) b of
          Inl e \<Rightarrow> (FRaised e, b)
        | Inr (None, b) \<Rightarrow> (FReturned r (GOutput mid), b)
        | Inr (Some w, b) \<Rightarrow> (FWait r w (GOutput mid), b))"

definition wait_input :: "string \<Rightarrow> string \<Rightarrow> string \<Rightarrow> book \<Rightarrow> frame_pc \<times> book" where
  "wait_input sid iid ending b =
     (case map_of (bk_routes b) (sid, iid) of
        None \<Rightarrow> (FRaised FrameRouteReleased, b)
      | Some r \<Rightarrow> wait_output r ending b)"

text \<open>The loop of \<open>wait_claim\<close> from its condition to the next await or its end.\<close>

definition claim_loop :: "nat \<Rightarrow> book \<Rightarrow> frame_pc \<times> book" where
  "claim_loop c b =
     (let r = cl_route (bk_claim b c); rt = bk_heap b r in
      if cl_ending (bk_claim b c) = None \<or> \<not> rt_drained rt then
        (case wait_route r (GClaim c) b of
           Inl e \<Rightarrow> (FRaised e, b)
         | Inr (Some w, b) \<Rightarrow> (FWait r w (GClaim c), b)
         | Inr (None, b) \<Rightarrow> (FRaised FrameRouteReleased, b))
      else (case rt_error rt of Some e \<Rightarrow> (FRaised e, b) | None \<Rightarrow> (FReturned r (GClaim c), b)))"

definition wait_claim :: "nat \<Rightarrow> book \<Rightarrow> frame_pc \<times> book" where
  "wait_claim c b = (if cl_closed (bk_claim b c) then (FRaised FrameRouteReleased, b) else claim_loop c b)"

definition drop_waiter :: "nat \<Rightarrow> nat \<Rightarrow> book \<Rightarrow> book" where
  "drop_waiter r w = set_route r (\<lambda>rt. rt\<lparr>rt_waiters := filter (\<lambda>x. x \<noteq> w) (rt_waiters rt)\<rparr>)"

text \<open>The task resumes when its future is done.\<close>

definition resume_wait :: "nat \<Rightarrow> nat \<Rightarrow> wait_goal \<Rightarrow> book \<Rightarrow> frame_pc \<times> book" where
  "resume_wait r w g b =
     (let b' = drop_waiter r w b in
      case bk_future b w of
        WPending \<Rightarrow> (FWait r w g, b)
      | WError e \<Rightarrow> (FRaised e, b')
      | WResult \<Rightarrow>
          (case rt_error (bk_heap b' r) of
             Some e \<Rightarrow> (FRaised e, b')
           | None \<Rightarrow>
               let b'' = maybe_release r b' in
               case g of
                 GOutput mid \<Rightarrow> (FReturned r g, b'')
               | GClaim c \<Rightarrow>
                   (case rt_error (bk_heap b'' r) of
                      Some e \<Rightarrow> (FRaised e, b'')
                    | None \<Rightarrow>
                        if cl_ending (bk_claim b'' c) = None \<and> rt_drained (bk_heap b'' r)
                        then (FRaised FrameRouteReleased, b'')
                        else claim_loop c b'')))"

definition cancel_wait :: "nat \<Rightarrow> nat \<Rightarrow> book \<Rightarrow> frame_pc \<times> book" where
  "cancel_wait r w b = (FRaised CancelledError, drop_waiter r w b)"

section \<open>The invariant of the book\<close>

text \<open>
  A route that is in no table any more has ended: drained or failed. A waiter that is still pending
  belongs to a route that has not ended, so by the first fact to one in a table.
\<close>

definition live :: "book \<Rightarrow> nat \<Rightarrow> bool" where
  "live b r \<longleftrightarrow> map_of (bk_routes b) (rt_key (bk_heap b r)) = Some r
     \<or> (\<exists>s \<in> set (bk_stages b). sg_route (bk_stage b s) = r)"

definition ended :: "book \<Rightarrow> nat \<Rightarrow> bool" where
  "ended b r \<longleftrightarrow> rt_drained (bk_heap b r) \<or> rt_error (bk_heap b r) \<noteq> None"

definition in_bounds :: "book \<Rightarrow> bool" where
  "in_bounds b \<longleftrightarrow> (\<forall>p \<in> set (bk_routes b). snd p < bk_nroutes b \<and> rt_key (bk_heap b (snd p)) = fst p)
     \<and> (\<forall>s \<in> set (bk_stages b). s < bk_nstages b)
     \<and> (\<forall>s < bk_nstages b. sg_route (bk_stage b s) < bk_nroutes b)
     \<and> (\<forall>c < bk_nclaims b. cl_route (bk_claim b c) < bk_nroutes b)
     \<and> (\<forall>r. bk_nroutes b \<le> r \<longrightarrow> rt_waiters (bk_heap b r) = [])
     \<and> (\<forall>r. \<forall>w \<in> set (rt_waiters (bk_heap b r)). w < bk_nfutures b)"

definition book_inv :: "book \<Rightarrow> bool" where
  "book_inv b \<longleftrightarrow> in_bounds b \<and> distinct (keys (bk_routes b))
     \<and> (\<forall>r < bk_nroutes b. live b r \<or> ended b r)
     \<and> (\<forall>r. \<forall>w \<in> set (rt_waiters (bk_heap b r)). bk_future b w = WPending \<longrightarrow> \<not> ended b r)"

text \<open>What an operation that no task waits in leaves to the waiting tasks.\<close>

definition quiet :: "book \<Rightarrow> book \<Rightarrow> bool" where
  "quiet b b' \<longleftrightarrow> bk_nroutes b \<le> bk_nroutes b' \<and> bk_nclaims b \<le> bk_nclaims b' \<and> bk_nfutures b' = bk_nfutures b
     \<and> (\<forall>r. set (rt_waiters (bk_heap b' r)) \<subseteq> set (rt_waiters (bk_heap b r)))
     \<and> (\<forall>r. \<forall>w \<in> set (rt_waiters (bk_heap b r)). bk_future b' w = WPending \<longrightarrow> w \<in> set (rt_waiters (bk_heap b' r)))
     \<and> (\<forall>w. bk_future b w \<noteq> WPending \<longrightarrow> bk_future b' w = bk_future b w)
     \<and> (\<forall>w. bk_future b w = WPending \<longrightarrow> bk_future b' w = WResult \<longrightarrow>
           (\<exists>r. w \<in> set (rt_waiters (bk_heap b r)) \<and> rt_drained (bk_heap b' r)))
     \<and> (\<forall>r < bk_nroutes b. (rt_drained (bk_heap b r) \<longrightarrow> rt_drained (bk_heap b' r))
           \<and> (rt_error (bk_heap b r) \<noteq> None \<longrightarrow> rt_error (bk_heap b' r) \<noteq> None)
           \<and> (\<forall>m. rt_expected (bk_heap b r) = Some m \<longrightarrow> rt_expected (bk_heap b' r) = Some m)
           \<and> rt_key (bk_heap b' r) = rt_key (bk_heap b r) \<and> rt_conn (bk_heap b' r) = rt_conn (bk_heap b r))
     \<and> (\<forall>c < bk_nclaims b. cl_route (bk_claim b' c) = cl_route (bk_claim b c)
           \<and> (cl_ending (bk_claim b c) \<noteq> None \<longrightarrow> cl_ending (bk_claim b' c) \<noteq> None))"

lemma quiet_refl [simp]: "quiet b b"
  by (simp add: quiet_def)

lemma quiet_waiter_bound: "in_bounds b \<Longrightarrow> w \<in> set (rt_waiters (bk_heap b r)) \<Longrightarrow> r < bk_nroutes b"
  unfolding in_bounds_def by (metis empty_iff empty_set linorder_not_le)

lemma quiet_trans:
  assumes "in_bounds b" and 1: "quiet b c" and 2: "quiet c d"
  shows "quiet b d"
proof -
  have n: "bk_nroutes b \<le> bk_nroutes c" "bk_nclaims b \<le> bk_nclaims c" using 1 by (auto simp: quiet_def)
  have "\<exists>r. w \<in> set (rt_waiters (bk_heap b r)) \<and> rt_drained (bk_heap d r)"
    if p: "bk_future b w = WPending" "bk_future d w = WResult" for w
  proof (cases "bk_future c w = WPending")
    case True
    then obtain r where "w \<in> set (rt_waiters (bk_heap c r))" "rt_drained (bk_heap d r)"
      using 2 p unfolding quiet_def by blast
    moreover have "set (rt_waiters (bk_heap c r)) \<subseteq> set (rt_waiters (bk_heap b r))"
      using 1 unfolding quiet_def by blast
    ultimately show ?thesis by blast
  next
    case False
    then have "bk_future c w = WResult" using 2 p unfolding quiet_def by metis
    then obtain r where r: "w \<in> set (rt_waiters (bk_heap b r))" "rt_drained (bk_heap c r)"
      using 1 p unfolding quiet_def by blast
    have "r < bk_nroutes c" using quiet_waiter_bound[OF assms(1) r(1)] n by simp
    then show ?thesis using r 2 unfolding quiet_def by blast
  qed
  moreover have "w \<in> set (rt_waiters (bk_heap d r))" if w: "w \<in> set (rt_waiters (bk_heap b r))" "bk_future d w = WPending" for r w
  proof -
    have "bk_future c w = WPending" using 2 w(2) unfolding quiet_def by metis
    then have "w \<in> set (rt_waiters (bk_heap c r))" using 1 w(1) unfolding quiet_def by blast
    then show ?thesis using 2 w(2) unfolding quiet_def by blast
  qed
  moreover have "\<forall>r < bk_nroutes b. (rt_drained (bk_heap b r) \<longrightarrow> rt_drained (bk_heap d r))
           \<and> (rt_error (bk_heap b r) \<noteq> None \<longrightarrow> rt_error (bk_heap d r) \<noteq> None)
           \<and> (\<forall>m. rt_expected (bk_heap b r) = Some m \<longrightarrow> rt_expected (bk_heap d r) = Some m)
           \<and> rt_key (bk_heap d r) = rt_key (bk_heap b r) \<and> rt_conn (bk_heap d r) = rt_conn (bk_heap b r)"
    using 1 2 n unfolding quiet_def by (metis order_less_le_trans)
  moreover have "\<forall>c' < bk_nclaims b. cl_route (bk_claim d c') = cl_route (bk_claim b c')
           \<and> (cl_ending (bk_claim b c') \<noteq> None \<longrightarrow> cl_ending (bk_claim d c') \<noteq> None)"
    using 1 2 n unfolding quiet_def by (metis order_less_le_trans)
  moreover have "bk_nroutes b \<le> bk_nroutes d" "bk_nclaims b \<le> bk_nclaims d" "bk_nfutures d = bk_nfutures b"
    "\<forall>r. set (rt_waiters (bk_heap d r)) \<subseteq> set (rt_waiters (bk_heap b r))"
    "\<forall>w. bk_future b w \<noteq> WPending \<longrightarrow> bk_future d w = bk_future b w"
    using 1 2 unfolding quiet_def by (metis le_trans, metis le_trans, metis, metis subset_trans, metis)
  ultimately show ?thesis unfolding quiet_def by blast
qed

text \<open>One step of the book: it keeps the invariant and is quiet.\<close>

definition good :: "book \<Rightarrow> book \<Rightarrow> bool" where
  "good b b' \<longleftrightarrow> (book_inv b \<longrightarrow> book_inv b' \<and> quiet b b')"

lemma good_refl [simp]: "good b b"
  by (simp add: good_def)

lemma good_trans: "good a b \<Longrightarrow> good b c \<Longrightarrow> good a c"
  unfolding good_def book_inv_def using quiet_trans by blast

lemma good_fold: "(\<And>x b. x \<in> set xs \<Longrightarrow> good b (f x b)) \<Longrightarrow> good b (fold f xs b)"
  by (induction xs arbitrary: b) (auto intro: good_trans)

text \<open>Ending a route: it leaves the tables, its waiters are settled, its error is set.\<close>

definition end_route :: "bool \<Rightarrow> nat \<Rightarrow> py_error option \<Rightarrow> py_error \<Rightarrow> book \<Rightarrow> book" where
  "end_route staged r err e b =
     (let key = rt_key (bk_heap b r); ws = rt_waiters (bk_heap b r) in
      b\<lparr>bk_routes := (if map_of (bk_routes b) key = Some r then AList.delete key (bk_routes b) else bk_routes b),
        bk_stages := (if staged then filter (\<lambda>s. sg_route (bk_stage b s) \<noteq> r) (bk_stages b) else bk_stages b),
        bk_future := (\<lambda>w. if w \<in> set ws \<and> bk_future b w = WPending then WError e else bk_future b w),
        bk_heap := (bk_heap b)(r := (bk_heap b r)\<lparr>rt_error := err, rt_waiters := []\<rparr>)\<rparr>)"

lemma end_route_live:
  assumes "x \<noteq> r" and "live b x"
  shows "live (end_route st r err e b) x"
  using assms by (auto simp: live_def end_route_def Let_def map_of_delete')

lemma end_route_good:
  assumes "err \<noteq> None \<or> (rt_drained (bk_heap b r) \<and> rt_error (bk_heap b r) = None)"
  shows "good b (end_route st r err e b)"
  unfolding good_def
proof (intro impI conjI)
  assume inv: "book_inv b"
  let ?b = "end_route st r err e b"
  have b: "in_bounds b" using inv by (simp add: book_inv_def)
  have "in_bounds ?b"
    using b unfolding in_bounds_def end_route_def Let_def
    by (auto simp: AList.delete_eq)
  moreover have "distinct (keys (bk_routes ?b))" using inv by (simp add: book_inv_def end_route_def Let_def)
  moreover have r: "ended ?b r" using assms by (auto simp: ended_def end_route_def Let_def)
  have other: "ended ?b x = ended b x" if "x \<noteq> r" for x using that by (simp add: ended_def end_route_def Let_def)
  have n: "bk_nroutes ?b = bk_nroutes b" by (simp add: end_route_def Let_def)
  have "live ?b x \<or> ended ?b x" if "x < bk_nroutes b" for x
    using inv that r other[of x] end_route_live[of x r b st] unfolding book_inv_def by (cases "x = r") auto
  moreover have "\<not> ended ?b x" if w: "w \<in> set (rt_waiters (bk_heap ?b x))" "bk_future ?b w = WPending" for x w
  proof -
    have "x \<noteq> r" using w(1) by (auto simp: end_route_def Let_def)
    moreover have "w \<in> set (rt_waiters (bk_heap b x))" "bk_future b w = WPending"
      using w calculation by (auto simp: end_route_def Let_def split: if_splits)
    ultimately show ?thesis using inv other unfolding book_inv_def by blast
  qed
  ultimately show "book_inv ?b" unfolding book_inv_def n by blast
  show "quiet b ?b"
    using assms by (auto simp: quiet_def end_route_def Let_def)
qed

lemma in_routes: "in_bounds b \<Longrightarrow> map_of (bk_routes b) key = Some r \<Longrightarrow> r < bk_nroutes b \<and> rt_key (bk_heap b r) = key"
  using map_of_SomeD[of "bk_routes b" key r] unfolding in_bounds_def by fastforce

lemma release_good: "good b (release_route key ex b)"
proof (cases "map_of (bk_routes b) key")
  case None
  then show ?thesis by (simp add: release_route_def)
next
  case (Some r)
  define err where "err = (if rt_error (bk_heap b r) = None \<and> \<not> rt_drained (bk_heap b r) then Some FrameRouteReleased
      else rt_error (bk_heap b r))"
  define e where "e = (case err of None \<Rightarrow> FrameRouteReleased | Some e \<Rightarrow> e)"
  let ?b = "set_route r (\<lambda>rt. rt\<lparr>rt_error := err, rt_waiters := []\<rparr>)
      (settle_waiters (WError e) (rt_waiters (bk_heap b r)) (b\<lparr>bk_routes := AList.delete key (bk_routes b)\<rparr>))"
  have body: "release_route key ex b = (if ex \<noteq> None \<and> ex \<noteq> Some r then b else ?b)"
    using Some by (simp add: release_route_def Let_def flip: err_def e_def)
  have "?b = end_route False r err e b" if "book_inv b"
  proof -
    have "rt_key (bk_heap b r) = key" using that in_routes[OF _ Some] by (simp add: book_inv_def)
    then show ?thesis using Some
      by (intro book.equality) (simp_all add: end_route_def settle_waiters_def set_route_def Let_def fun_eq_iff)
  qed
  moreover have "err \<noteq> None \<or> rt_drained (bk_heap b r) \<and> rt_error (bk_heap b r) = None" by (auto simp: err_def)
  ultimately show ?thesis using end_route_good[of err b r False e] body by (auto simp: good_def)
qed

lemma fail_exact: "fail_route (rt_key (bk_heap b r)) e (Some r) b = end_route True r (Some e) e b"
  by (rule book.equality) (simp_all add: fail_route_def end_route_def settle_waiters_def set_route_def Let_def fun_eq_iff)

lemma fail_good: "good b (fail_route (rt_key (bk_heap b r)) e (Some r) b)"
  unfolding fail_exact by (rule end_route_good) simp

lemma fail_keyed_good: "good b (fail_route key e None b)"
proof (cases "map_of (bk_routes b) key")
  case None
  then show ?thesis by (simp add: fail_route_def)
next
  case (Some r)
  have "fail_route key e None b = fail_route key e (Some r) b" using Some by (simp add: fail_route_def)
  then show ?thesis using fail_good[of b r e] in_routes[OF _ Some] by (auto simp: good_def book_inv_def)
qed

lemma fail_current_good: "map_of (bk_routes b) key = Some r \<Longrightarrow> good b (fail_route key e (Some r) b)"
  using fail_good[of b r e] in_routes[of b key r] by (auto simp: good_def book_inv_def)

lemma maybe_release_good: "good b (maybe_release r b)"
  by (simp add: maybe_release_def Let_def release_good)

text \<open>Changes of a route that concern neither the tables nor its waiters.\<close>

lemma set_route_good:
  assumes "\<And>rt. rt_key (f rt) = rt_key rt" and "\<And>rt. rt_conn (f rt) = rt_conn rt" and "\<And>rt. rt_drained (f rt) = rt_drained rt"
    and "\<And>rt. rt_error (f rt) = rt_error rt" and "\<And>rt. rt_waiters (f rt) = rt_waiters rt"
    and "rt_expected (bk_heap b r) = None \<or> rt_expected (f (bk_heap b r)) = rt_expected (bk_heap b r)"
  shows "good b (set_route r f b)"
  unfolding good_def
proof (intro impI conjI)
  assume inv: "book_inv b"
  have "live (set_route r f b) x = live b x" "ended (set_route r f b) x = ended b x" for x
    using assms by (auto simp: live_def ended_def set_route_def)
  moreover have "in_bounds (set_route r f b)"
    using inv assms unfolding book_inv_def in_bounds_def by (auto simp: set_route_def)
  ultimately show "book_inv (set_route r f b)"
    using inv assms unfolding book_inv_def by (auto simp: set_route_def split: if_splits)
  show "quiet b (set_route r f b)"
    using assms by (auto simp: quiet_def set_route_def)
qed

lemma set_claim_good:
  assumes "\<And>cl. cl_route (f cl) = cl_route cl" and "cl_ending (bk_claim b c) = None \<or> cl_ending (f (bk_claim b c)) \<noteq> None"
  shows "good b (set_claim c f b)"
  using assms unfolding good_def book_inv_def in_bounds_def quiet_def live_def ended_def by (auto simp: set_claim_def)

lemma set_stage_good: "(\<And>g. sg_route (f g) = sg_route g) \<Longrightarrow> good b (set_stage s f b)"
proof -
  assume f: "\<And>g. sg_route (f g) = sg_route g"
  have sg: "sg_route (bk_stage (set_stage s f b) t) = sg_route (bk_stage b t)" for t by (simp add: set_stage_def f)
  have "live (set_stage s f b) r = live b r" "ended (set_stage s f b) r = ended b r" for r
    unfolding live_def ended_def sg by (simp_all add: set_stage_def)
  moreover have "in_bounds (set_stage s f b) = in_bounds b"
    unfolding in_bounds_def sg by (simp add: set_stage_def)
  ultimately show ?thesis by (simp add: good_def book_inv_def quiet_def) (simp add: set_stage_def)
qed

lemma frame_done_good: "good b (frame_done r outcome b)"
proof (cases outcome)
  case (Some e)
  then show ?thesis using fail_good by (simp add: frame_done_def)
next
  case None
  let ?b = "settle_waiters WResult (rt_waiters (bk_heap b r)) (set_route r (\<lambda>rt. rt\<lparr>rt_written := None, rt_drained := True\<rparr>) b)"
  have "good b ?b"
    unfolding good_def
  proof (intro impI conjI)
    assume inv: "book_inv b"
    have "live ?b x = live b x" "ended ?b x = (x = r \<or> ended b x)" for x
      by (auto simp: live_def ended_def set_route_def settle_waiters_def)
    moreover have "in_bounds ?b"
      using inv unfolding book_inv_def in_bounds_def by (auto simp: set_route_def settle_waiters_def)
    ultimately show "book_inv ?b"
      using inv unfolding book_inv_def by (auto simp: set_route_def settle_waiters_def split: if_splits)
    show "quiet b ?b" by (auto simp: quiet_def set_route_def settle_waiters_def)
  qed
  moreover have "frame_done r outcome b = maybe_release r ?b"
    using None by (simp add: frame_done_def Let_def set_route_def)
  ultimately show ?thesis using good_trans[OF _ maybe_release_good] by simp
qed

section \<open>Every operation is good\<close>

lemma map_of_None_update: "map_of (AList.update k v xs) k' = (if k' = k then Some v else map_of xs k')"
  by (simp add: map_of_update)

lemma set_update': "p \<in> set (AList.update k v xs) \<Longrightarrow> p = (k, v) \<or> p \<in> set xs"
  using in_set_update[of "fst p" "snd p" k v xs] by (cases p) auto

lemma route_input_good:
  assumes "route_input sid iid conn b = Inr (r, b')"
  shows "good b b' \<and> (book_inv b \<longrightarrow> r < bk_nroutes b')"
proof (cases "map_of (bk_routes b) (sid, iid)")
  case (Some x)
  then have "b' = b" "r = x" using assms by (auto simp: route_input_def res_simps)
  then show ?thesis using in_routes[OF _ Some] by (simp add: book_inv_def)
next
  case None
  have b': "b' = b\<lparr>bk_heap := (bk_heap b)(bk_nroutes b := new_route (sid, iid) conn False), bk_nroutes := Suc (bk_nroutes b),
      bk_routes := AList.update (sid, iid) (bk_nroutes b) (bk_routes b)\<rparr>" and r: "r = bk_nroutes b"
    using assms None by (auto simp: route_input_def res_simps add_route_def)
  have "book_inv b' \<and> quiet b b'" if inv: "book_inv b"
  proof
    have bnd: "in_bounds b" using inv by (simp add: book_inv_def)
    have "live b' x" if "live b x" "x < bk_nroutes b" for x
      using that None unfolding live_def b' by (auto simp: map_of_None_update)
    moreover have "live b' (bk_nroutes b)" by (simp add: live_def b' new_route_def map_of_None_update)
    moreover have "ended b' x = ended b x" if "x < bk_nroutes b" for x using that by (simp add: ended_def b')
    moreover have "in_bounds b'"
      using bnd unfolding in_bounds_def b' by (auto simp: new_route_def less_Suc_eq dest!: set_update')
    moreover have "\<not> ended b' x" if w: "w \<in> set (rt_waiters (bk_heap b' x))" "bk_future b' w = WPending" for x w
    proof -
      have "w \<in> set (rt_waiters (bk_heap b x))" "x \<noteq> bk_nroutes b" "bk_future b w = WPending"
        using w by (auto simp: b' new_route_def split: if_splits)
      then show ?thesis using inv by (auto simp: book_inv_def ended_def b')
    qed
    ultimately show "book_inv b'" using inv by (auto simp: book_inv_def b' less_Suc_eq)
    have "rt_waiters (bk_heap b (bk_nroutes b)) = []" using bnd by (simp add: in_bounds_def)
    then show "quiet b b'" by (simp add: quiet_def b' new_route_def)
  qed
  then show ?thesis by (simp add: good_def r b')
qed

lemma route_with_owner_good:
  assumes "route_input_with_owner sid iid conn b = Inr (x, b')"
  shows "good b b'"
proof (cases "map_of (bk_routes b) (sid, iid)")
  case (Some r)
  then show ?thesis using assms by (auto simp: route_input_with_owner_def res_simps)
next
  case None
  then show ?thesis using assms route_input_good by (auto simp: route_input_with_owner_def res_simps)
qed

lemma stage_input_good:
  assumes "stage_input sid iid conn b = Inr (s, b')"
  shows "good b b'"
proof -
  have b': "b' = b\<lparr>bk_heap := (bk_heap b)(bk_nroutes b := new_route (sid, iid) conn True), bk_nroutes := Suc (bk_nroutes b),
      bk_stage := (bk_stage b)(bk_nstages b := \<lparr>sg_route = bk_nroutes b, sg_closed = False\<rparr>),
      bk_nstages := Suc (bk_nstages b), bk_stages := bk_nstages b # bk_stages b\<rparr>"
    using assms by (auto simp: stage_input_def res_simps add_route_def Let_def)
  have "book_inv b' \<and> quiet b b'" if inv: "book_inv b"
  proof
    have bnd: "in_bounds b" using inv by (simp add: book_inv_def)
    have "live b' x" if x: "live b x" "x < bk_nroutes b" for x
      using x(1)[unfolded live_def]
    proof
      assume "\<exists>s \<in> set (bk_stages b). sg_route (bk_stage b s) = x"
      then obtain s where s: "s \<in> set (bk_stages b)" "sg_route (bk_stage b s) = x" by blast
      then have "s \<noteq> bk_nstages b" using bnd by (auto simp: in_bounds_def)
      then have "s \<in> set (bk_stages b') \<and> sg_route (bk_stage b' s) = x" using s by (simp add: b')
      then show ?thesis unfolding live_def by blast
    qed (use x in \<open>simp add: live_def b'\<close>)
    moreover have "live b' (bk_nroutes b)" by (simp add: live_def b')
    moreover have "ended b' x = ended b x" if "x < bk_nroutes b" for x using that by (simp add: ended_def b')
    moreover have "in_bounds b'"
      using bnd unfolding in_bounds_def b' by (auto simp: new_route_def less_Suc_eq)
    moreover have "\<not> ended b' x" if w: "w \<in> set (rt_waiters (bk_heap b' x))" "bk_future b' w = WPending" for x w
    proof -
      have "w \<in> set (rt_waiters (bk_heap b x))" "x \<noteq> bk_nroutes b" "bk_future b w = WPending"
        using w by (auto simp: b' new_route_def split: if_splits)
      then show ?thesis using inv by (auto simp: book_inv_def ended_def b')
    qed
    ultimately show "book_inv b'" using inv by (auto simp: book_inv_def b' less_Suc_eq)
    have "rt_waiters (bk_heap b (bk_nroutes b)) = []" using bnd by (simp add: in_bounds_def)
    then show "quiet b b'" by (simp add: quiet_def b' new_route_def)
  qed
  then show ?thesis by (simp add: good_def)
qed

lemma install_good:
  assumes "map_of (bk_routes b) (rt_key (bk_heap b r)) = None" and "r = sg_route (bk_stage b s)" and "s < bk_nstages b"
  shows "good b (b\<lparr>bk_stages := filter (\<lambda>t. t \<noteq> s) (bk_stages b),
     bk_heap := (bk_heap b)(r := (bk_heap b r)\<lparr>rt_staged := False\<rparr>),
     bk_routes := AList.update (rt_key (bk_heap b r)) r (bk_routes b)\<rparr>)"
  unfolding good_def
proof (intro impI conjI)
  let ?b = "b\<lparr>bk_stages := filter (\<lambda>t. t \<noteq> s) (bk_stages b),
     bk_heap := (bk_heap b)(r := (bk_heap b r)\<lparr>rt_staged := False\<rparr>),
     bk_routes := AList.update (rt_key (bk_heap b r)) r (bk_routes b)\<rparr>"
  assume inv: "book_inv b"
  then have bnd: "in_bounds b" by (simp add: book_inv_def)
  have "live ?b x" if "live b x" for x
    using that assms unfolding live_def by (auto simp: map_of_None_update)
  moreover have "ended ?b x = ended b x" for x by (simp add: ended_def)
  moreover have "in_bounds ?b" using bnd assms(2,3) unfolding in_bounds_def by (auto dest!: set_update')
  ultimately show "book_inv ?b" using inv unfolding book_inv_def by auto
  show "quiet b ?b" by (auto simp: quiet_def)
qed

lemma fail_stages:
  "fail_route key e (Some r) (b\<lparr>bk_stages := filter P (bk_stages b)\<rparr>)
     = (fail_route key e (Some r) b)\<lparr>bk_stages := filter P (bk_stages (fail_route key e (Some r) b))\<rparr>"
  by (rule book.equality)
    (simp_all add: fail_route_def settle_waiters_def set_route_def Let_def fun_eq_iff filter_filter conj_commute cong: conj_cong)

lemma fail_same [simp]:
  "bk_stage (fail_route key e ex b) = bk_stage b" "bk_nstages (fail_route key e ex b) = bk_nstages b"
  "rt_key (bk_heap (fail_route key e ex b) x) = rt_key (bk_heap b x)" "rt_conn (bk_heap (fail_route key e ex b) x) = rt_conn (bk_heap b x)"
  by (auto simp: fail_route_def settle_waiters_def set_route_def Let_def split: option.split)

lemma fail_removes:
  "map_of (bk_routes b) key = Some r \<Longrightarrow> map_of (bk_routes (fail_route key e (Some r) b)) key = None"
  by (simp add: fail_route_def settle_waiters_def set_route_def Let_def map_of_delete')

lemma commit_good:
  assumes "commit_stage s b = Inr (r, b')" and "s < bk_nstages b"
  shows "good b b'"
proof -
  define b1 where "b1 = set_stage s (\<lambda>g. g\<lparr>sg_closed := True\<rparr>) b"
  define key where "key = rt_key (bk_heap b r)"
  have r: "r = sg_route (bk_stage b s)" using assms(1) by (auto simp: commit_stage_def Let_def split: if_splits)
  define b2 where "b2 = (case map_of (bk_routes b1) key of None \<Rightarrow> b1 | Some old \<Rightarrow> fail_route key FrameRouteReleased (Some old) b1)"
  define b3 where "b3 = b2\<lparr>bk_stages := filter (\<lambda>t. t \<noteq> s) (bk_stages b2),
     bk_heap := (bk_heap b2)(r := (bk_heap b2 r)\<lparr>rt_staged := False\<rparr>), bk_routes := AList.update key r (bk_routes b2)\<rparr>"
  have g1: "good b b1" unfolding b1_def by (rule set_stage_good) simp
  have g2: "good b1 b2" unfolding b2_def by (auto split: option.split intro: fail_current_good)
  have b2: "rt_key (bk_heap b2 r) = key" "bk_stage b2 = bk_stage b1" "bk_nstages b2 = bk_nstages b" "map_of (bk_routes b2) key = None"
    by (auto simp: b2_def b1_def key_def set_stage_def fail_removes split: option.split)
  have "r = sg_route (bk_stage b2 s)" using r b2(2) by (simp add: b1_def set_stage_def)
  then have g3: "good b2 b3" unfolding b3_def using install_good[of b2 r s] b2 assms(2) by simp
  have "b' = maybe_release r b3"
    using assms(1) unfolding commit_stage_def Let_def r[symmetric] b1_def[symmetric] key_def[symmetric] b3_def b2_def set_route_def
    by (auto simp: fail_stages split: if_splits option.splits)
  then have "good b3 b'" using maybe_release_good by simp
  then show ?thesis using g1 g2 g3 good_trans by blast
qed

lemma abort_good: "good b (abort_stage s b)"
proof (cases "sg_closed (bk_stage b s)")
  case True
  then show ?thesis by (simp add: abort_stage_def)
next
  case False
  define b1 where "b1 = set_stage s (\<lambda>g. g\<lparr>sg_closed := True\<rparr>) b"
  define r where "r = sg_route (bk_stage b s)"
  have sg: "sg_route (bk_stage b1 s) = r" by (simp add: b1_def r_def set_stage_def)
  have h: "bk_heap b1 = bk_heap b" by (simp add: b1_def set_stage_def)
  let ?f = "fail_route (rt_key (bk_heap b1 r)) FrameRouteReleased (Some r) b1"
  have "set (bk_stages ?f) \<subseteq> {t. sg_route (bk_stage b1 t) \<noteq> r}"
    unfolding fail_exact by (auto simp: end_route_def Let_def)
  then have "filter (\<lambda>t. t \<noteq> s) (bk_stages ?f) = bk_stages ?f"
    using sg by (intro filter_True) auto
  moreover have "abort_stage s b = fail_route (rt_key (bk_heap b1 r)) FrameRouteReleased (Some r)
      (b1\<lparr>bk_stages := filter (\<lambda>t. t \<noteq> s) (bk_stages b1)\<rparr>)"
    using False unfolding abort_stage_def Let_def b1_def[symmetric] r_def[symmetric] by (simp add: h)
  ultimately have "abort_stage s b = ?f" unfolding fail_stages by simp
  moreover have "good b b1" unfolding b1_def by (rule set_stage_good) simp
  ultimately show ?thesis using fail_good good_trans by metis
qed

lemma resolve_route_good:
  assumes "rt_expected (bk_heap b r) = None \<or> rt_expected (bk_heap b r) = Some ending"
  shows "good b (resolve_route r ending b)"
proof -
  let ?b = "set_route r (\<lambda>rt. rt\<lparr>rt_expected := Some ending, rt_resolved := Some ending\<rparr>) b"
  have 1: "good b ?b" using assms by (intro set_route_good) auto
  have 2: "good ?b (fold (\<lambda>c. set_claim c (\<lambda>cl. cl\<lparr>cl_ending := Some ending\<rparr>)) (rt_claims (bk_heap b r)) ?b)"
    by (intro good_fold set_claim_good) auto
  show ?thesis unfolding resolve_route_def using 1 2 by (rule good_trans)
qed

lemma resolve_routes_good: "good b (snd (resolve_routes resolver conn complete rs tracked b))"
proof (induction rs arbitrary: tracked b)
  case (Cons r rs)
  show ?case
    using Cons resolve_route_good[of b r] by (auto simp: Let_def split: sum.split option.split intro: good_trans)
qed simp

lemma resolve_page_good: "good b (snd (resolve_page resolver conn page b))"
  by (simp add: resolve_page_def resolve_routes_good split: sum.split)

lemma attach_page_good: "good b (snd (attach_page rs written b))"
proof (induction rs arbitrary: b)
  case (Cons r rs)
  have "good b (set_route r (\<lambda>rt. rt\<lparr>rt_written := Some written\<rparr>) b)" by (intro set_route_good) auto
  then show ?case using Cons good_trans[OF _ Cons] by (simp add: split_beta)
qed simp

lemma release_input_good: "good b (release_input sid iid b)"
  by (simp add: release_input_def release_good split: option.split)

lemma settle_input_good: "good b (settle_input sid iid error b)"
  by (auto simp: settle_input_def release_good fail_current_good split: option.split)

lemma index_claims_good: "good b (b\<lparr>bk_claims := cs\<rparr>)"
  by (auto simp: good_def book_inv_def in_bounds_def live_def ended_def quiet_def)

lemma arm_claim_good:
  assumes "arm_claim sid iid ref b = Inr (c, b')"
  shows "good b b'"
proof (cases "map_of (bk_routes b) (sid, iid)")
  case None
  then show ?thesis using assms by (simp add: arm_claim_def)
next
  case (Some r)
  show ?thesis
  proof (cases "claim_for sid ref b")
    case (Some x)
    then show ?thesis using assms \<open>map_of (bk_routes b) (sid, iid) = Some r\<close> by (simp add: arm_claim_def)
  next
    case None
    let ?cl = "\<lparr>cl_route = r, cl_ref = ref, cl_ending = rt_resolved (bk_heap b r), cl_closed = False\<rparr>"
    let ?b1 = "b\<lparr>bk_claim := (bk_claim b)(bk_nclaims b := ?cl), bk_nclaims := Suc (bk_nclaims b)\<rparr>"
    let ?b2 = "set_route r (\<lambda>rt. rt\<lparr>rt_claims := bk_nclaims b # rt_claims rt\<rparr>) ?b1"
    have "good b ?b1"
      using in_routes[OF _ Some] by (auto simp: good_def book_inv_def in_bounds_def live_def ended_def quiet_def less_Suc_eq)
    moreover have "good ?b1 ?b2" by (intro set_route_good) auto
    moreover have "b' = ?b2\<lparr>bk_claims := AList.update (sid, ref) (bk_nclaims b) (bk_claims ?b2)\<rparr>"
      using assms Some None by (auto simp: arm_claim_def Let_def set_route_def)
    ultimately show ?thesis using index_claims_good good_trans[OF good_trans] by simp
  qed
qed

lemma close_claim_good: "good b (close_claim c b)"
proof (cases "cl_closed (bk_claim b c)")
  case True
  then show ?thesis by (simp add: close_claim_def)
next
  case False
  define b1 where "b1 = set_claim c (\<lambda>cl. cl\<lparr>cl_closed := True\<rparr>) b"
  define b2 where "b2 = set_route (cl_route (bk_claim b c)) (\<lambda>rt. rt\<lparr>rt_claims := filter (\<lambda>x. x \<noteq> c) (rt_claims rt)\<rparr>) b1"
  have g1: "good b b1" unfolding b1_def by (rule set_claim_good) auto
  have g2: "good b1 b2" unfolding b2_def by (intro set_route_good) auto
  have "good b2 (if P then b2\<lparr>bk_claims := cs\<rparr> else b2)" for P cs using index_claims_good by simp
  then have "good b2 (close_claim c b)"
    using False unfolding close_claim_def Let_def b1_def[symmetric] b2_def[symmetric] by (simp add: good_trans[OF _ maybe_release_good])
  then show ?thesis using g1 g2 good_trans by blast
qed

lemma fail_connection_good: "good b (fail_connection conn error b)"
  unfolding fail_connection_def Let_def
  by (rule good_trans; rule good_fold) (auto simp: fail_keyed_good abort_good)

lemma close_flag_good: "good b (b\<lparr>bk_closed := e\<rparr>)"
  by (auto simp: good_def book_inv_def in_bounds_def live_def ended_def quiet_def)

lemma close_book_good: "good b (close_book error b)"
  unfolding close_book_def Let_def
  by (rule good_trans[OF close_flag_good good_trans]; rule good_fold) (auto simp: fail_keyed_good abort_good)

section \<open>Waiting tasks\<close>

text \<open>
  The world: the book, the tasks that wait on it, and the routes whose frame the writer has written. A
  step is one operation of the book on objects that exist, a task starting to wait, resuming with its
  future done, or being cancelled.
\<close>

record frame_world =
  fw_book :: book
  fw_tasks :: "nat \<Rightarrow> frame_pc"
  fw_written :: "nat set"

definition empty_book :: book where
  "empty_book = \<lparr>bk_heap = (\<lambda>r. new_route ([], []) [] False), bk_nroutes = 0,
     bk_claim = (\<lambda>c. \<lparr>cl_route = 0, cl_ref = CallRef [] 0, cl_ending = None, cl_closed = True\<rparr>),
     bk_nclaims = 0, bk_stage = (\<lambda>s. \<lparr>sg_route = 0, sg_closed = True\<rparr>), bk_nstages = 0,
     bk_future = (\<lambda>w. WPending), bk_nfutures = 0, bk_routes = [], bk_stages = [], bk_claims = [], bk_closed = None\<rparr>"

definition frame_start :: frame_world where
  "frame_start = \<lparr>fw_book = empty_book, fw_tasks = (\<lambda>i. FIdle), fw_written = {}\<rparr>"

inductive book_op :: "book \<Rightarrow> book \<Rightarrow> bool" where
  Route: "route_input sid iid conn b = Inr (r, b') \<Longrightarrow> book_op b b'"
| RouteOwner: "route_input_with_owner sid iid conn b = Inr (x, b') \<Longrightarrow> book_op b b'"
| Stage: "stage_input sid iid conn b = Inr (s, b') \<Longrightarrow> book_op b b'"
| Commit: "s < bk_nstages b \<Longrightarrow> commit_stage s b = Inr (r, b') \<Longrightarrow> book_op b b'"
| Abort: "s < bk_nstages b \<Longrightarrow> book_op b (abort_stage s b)"
| Resolve: "book_op b (snd (resolve_page resolver conn page b))"
| Attach: "book_op b (snd (attach_page rs written b))"
| WriteFailed: "book_op b (frame_done r (Some e) b)"
| Release: "book_op b (release_input sid iid b)"
| SettleInput: "book_op b (settle_input sid iid error b)"
| Arm: "arm_claim sid iid ref b = Inr (c, b') \<Longrightarrow> book_op b b'"
| Consume: "book_op b (close_claim c b)"
| Disconnect: "book_op b (fail_connection conn error b)"
| Close: "book_op b (close_book close_error b)"

definition set_task :: "nat \<Rightarrow> frame_pc \<times> book \<Rightarrow> frame_world \<Rightarrow> frame_world" where
  "set_task i x W = W\<lparr>fw_book := snd x, fw_tasks := (fw_tasks W)(i := fst x)\<rparr>"

inductive frame_step :: "frame_world \<Rightarrow> frame_world \<Rightarrow> bool" where
  Operate: "book_op (fw_book W) b \<Longrightarrow> frame_step W (W\<lparr>fw_book := b\<rparr>)"
| Written: "frame_step W (W\<lparr>fw_book := frame_done r None (fw_book W), fw_written := insert r (fw_written W)\<rparr>)"
| WaitOutput: "fw_tasks W i = FIdle \<Longrightarrow> r < bk_nroutes (fw_book W) \<Longrightarrow>
    frame_step W (set_task i (wait_output r mid (fw_book W)) W)"
| WaitInput: "fw_tasks W i = FIdle \<Longrightarrow> frame_step W (set_task i (wait_input sid iid mid (fw_book W)) W)"
| WaitClaim: "fw_tasks W i = FIdle \<Longrightarrow> c < bk_nclaims (fw_book W) \<Longrightarrow>
    frame_step W (set_task i (wait_claim c (fw_book W)) W)"
| Resume: "fw_tasks W i = FWait r w g \<Longrightarrow> bk_future (fw_book W) w \<noteq> WPending \<Longrightarrow>
    frame_step W (set_task i (resume_wait r w g (fw_book W)) W)"
| Cancel: "fw_tasks W i = FWait r w g \<Longrightarrow> frame_step W (set_task i (cancel_wait r w (fw_book W)) W)"

lemma book_op_good: "book_op b b' \<Longrightarrow> good b b'"
  by (induction rule: book_op.induct)
    (simp_all add: route_input_good route_with_owner_good stage_input_good commit_good abort_good resolve_page_good attach_page_good
      frame_done_good release_input_good settle_input_good arm_claim_good close_claim_good fail_connection_good close_book_good)

subsection \<open>What a waiting task relies on\<close>

definition goal_ok :: "book \<Rightarrow> nat \<Rightarrow> wait_goal \<Rightarrow> bool" where
  "goal_ok b r g \<longleftrightarrow> r < bk_nroutes b \<and> (case g of
     GOutput mid \<Rightarrow> rt_expected (bk_heap b r) = Some mid
   | GClaim c \<Rightarrow> c < bk_nclaims b \<and> cl_route (bk_claim b c) = r)"

definition waits :: "book \<Rightarrow> nat \<Rightarrow> nat \<Rightarrow> wait_goal \<Rightarrow> bool" where
  "waits b r w g \<longleftrightarrow> goal_ok b r g \<and> w < bk_nfutures b
     \<and> (bk_future b w = WPending \<longrightarrow> w \<in> set (rt_waiters (bk_heap b r)))
     \<and> (bk_future b w = WResult \<longrightarrow> rt_drained (bk_heap b r))
     \<and> (\<forall>x. w \<in> set (rt_waiters (bk_heap b x)) \<longrightarrow> x = r)"

definition served :: "book \<Rightarrow> nat \<Rightarrow> wait_goal \<Rightarrow> bool" where
  "served b r g \<longleftrightarrow> goal_ok b r g \<and> rt_drained (bk_heap b r)
     \<and> (\<forall>c. g = GClaim c \<longrightarrow> cl_ending (bk_claim b c) \<noteq> None)"

definition task_ok :: "book \<Rightarrow> frame_pc \<Rightarrow> bool" where
  "task_ok b p \<longleftrightarrow> (case p of FWait r w g \<Rightarrow> waits b r w g | FReturned r g \<Rightarrow> served b r g | _ \<Rightarrow> True)"

lemma goal_kept: "goal_ok b r g \<Longrightarrow> quiet b b' \<Longrightarrow> goal_ok b' r g"
  by (auto simp: goal_ok_def quiet_def split: wait_goal.splits)

lemma served_kept: "served b r g \<Longrightarrow> quiet b b' \<Longrightarrow> served b' r g"
  using goal_kept[of b r g b'] by (auto simp: served_def quiet_def goal_ok_def)

lemma waits_kept:
  assumes w: "waits b r w g" and q: "quiet b b'"
  shows "waits b' r w g"
proof -
  have "r < bk_nroutes b" using w by (simp add: waits_def goal_ok_def)
  have pend: "bk_future b w = WPending" if "bk_future b' w = WPending"
    using q that unfolding quiet_def by metis
  have "rt_drained (bk_heap b' r)" if res: "bk_future b' w = WResult"
  proof (cases "bk_future b w = WPending")
    case True
    then obtain x where "w \<in> set (rt_waiters (bk_heap b x))" "rt_drained (bk_heap b' x)"
      using q res unfolding quiet_def by blast
    then show ?thesis using w by (auto simp: waits_def)
  next
    case False
    then have "bk_future b w = WResult" using q res unfolding quiet_def by metis
    then show ?thesis using w q \<open>r < bk_nroutes b\<close> by (simp add: waits_def quiet_def)
  qed
  moreover have "w \<in> set (rt_waiters (bk_heap b' r))" if p: "bk_future b' w = WPending"
    using w q pend[OF p] p unfolding waits_def quiet_def by blast
  moreover have "x = r" if "w \<in> set (rt_waiters (bk_heap b' x))" for x
    using w q that unfolding waits_def quiet_def by blast
  moreover have "w < bk_nfutures b'" using w q by (simp add: waits_def quiet_def)
  ultimately show ?thesis using goal_kept[OF _ q] w unfolding waits_def by blast
qed

lemma task_kept: "task_ok b p \<Longrightarrow> quiet b b' \<Longrightarrow> task_ok b' p"
  by (auto simp: task_ok_def waits_kept served_kept split: frame_pc.splits)

subsection \<open>Starting and ending a wait\<close>

definition add_waiter :: "nat \<Rightarrow> book \<Rightarrow> book" where
  "add_waiter r b = set_route r (\<lambda>rt. rt\<lparr>rt_waiters := bk_nfutures b # rt_waiters rt\<rparr>)
     (b\<lparr>bk_future := (bk_future b)(bk_nfutures b := WPending), bk_nfutures := Suc (bk_nfutures b)\<rparr>)"

lemma wait_route_eq:
  "wait_route r g b = (case rt_error (bk_heap b r) of Some e \<Rightarrow> Inl e
     | None \<Rightarrow> if rt_drained (bk_heap b r) then Inr (None, b) else Inr (Some (bk_nfutures b), add_waiter r b))"
  by (simp add: wait_route_def add_waiter_def Let_def split: option.split)

lemma fresh_waiter: "in_bounds b \<Longrightarrow> bk_nfutures b \<notin> set (rt_waiters (bk_heap b x))"
  unfolding in_bounds_def by blast

lemma add_waiter_inv:
  assumes inv: "book_inv b" and r: "r < bk_nroutes b" "\<not> ended b r"
  shows "book_inv (add_waiter r b)"
proof -
  have bnd: "in_bounds b" using inv by (simp add: book_inv_def)
  have "live (add_waiter r b) x = live b x" "ended (add_waiter r b) x = ended b x" for x
    by (auto simp: live_def ended_def add_waiter_def set_route_def)
  moreover have "in_bounds (add_waiter r b)"
    using bnd r unfolding in_bounds_def by (auto simp: add_waiter_def set_route_def less_Suc_eq)
  moreover have "\<not> ended b x" if "w \<in> set (rt_waiters (bk_heap (add_waiter r b) x))" "bk_future (add_waiter r b) w = WPending" for x w
    using that r inv fresh_waiter[OF bnd] by (auto simp: book_inv_def add_waiter_def set_route_def split: if_splits)
  ultimately show ?thesis using inv by (auto simp: book_inv_def add_waiter_def set_route_def)
qed

lemma add_waiter_task:
  assumes "in_bounds b" and "task_ok b p"
  shows "task_ok (add_waiter r b) p"
  using assms
  by (auto simp: task_ok_def waits_def served_def goal_ok_def add_waiter_def set_route_def split: frame_pc.splits wait_goal.splits)

lemma add_waiter_waits:
  assumes "in_bounds b" and "goal_ok b r g"
  shows "waits (add_waiter r b) r (bk_nfutures b) g"
  using assms fresh_waiter[OF assms(1)]
  by (auto simp: waits_def goal_ok_def add_waiter_def set_route_def split: wait_goal.splits if_splits)

lemma drop_waiter_inv: "book_inv b \<Longrightarrow> book_inv (drop_waiter r w b)"
  by (auto simp: book_inv_def in_bounds_def live_def ended_def drop_waiter_def set_route_def)

lemma drop_waiter_task:
  assumes "task_ok b p" and "\<And>x g. p \<noteq> FWait x w g"
  shows "task_ok (drop_waiter r w b) p"
  using assms by (auto simp: task_ok_def waits_def served_def goal_ok_def drop_waiter_def set_route_def
    split: frame_pc.splits wait_goal.splits)

text \<open>A segment of a task: it keeps the book and what the other tasks rely on, and waits on a new future.\<close>

definition goes :: "book \<Rightarrow> frame_pc \<times> book \<Rightarrow> bool" where
  "goes b x \<longleftrightarrow> book_inv (snd x) \<and> task_ok (snd x) (fst x) \<and> (\<forall>q. task_ok b q \<longrightarrow> task_ok (snd x) q)
     \<and> (\<forall>r w g. fst x = FWait r w g \<longrightarrow> bk_nfutures b \<le> w)"

lemma goes_stop [simp]: "goes b (FRaised e, b) = book_inv b"
  by (simp add: goes_def task_ok_def)

lemma goes_return [simp]: "goes b (FReturned r g, b) \<longleftrightarrow> book_inv b \<and> served b r g"
  by (auto simp: goes_def task_ok_def)

lemma goes_after:
  assumes g: "good b c" and inv: "book_inv b" and x: "goes c x"
  shows "goes b x"
proof -
  have q: "quiet b c" using g inv by (simp add: good_def)
  then have "bk_nfutures c = bk_nfutures b" by (simp add: quiet_def)
  then show ?thesis using x task_kept[OF _ q] by (simp add: goes_def)
qed

lemma goes_wait:
  assumes "book_inv b" and "goal_ok b r g" and "\<not> ended b r"
  shows "goes b (FWait r (bk_nfutures b) g, add_waiter r b)"
proof -
  have "in_bounds b" "r < bk_nroutes b" using assms by (auto simp: book_inv_def goal_ok_def)
  then show ?thesis
    using assms by (simp add: goes_def add_waiter_inv add_waiter_task) (simp add: task_ok_def add_waiter_waits)
qed

lemma wait_output_goes:
  assumes "book_inv b" and "r < bk_nroutes b"
  shows "goes b (wait_output r mid b)"
proof (cases "rt_expected (bk_heap b r) \<noteq> None \<and> rt_expected (bk_heap b r) \<noteq> Some mid")
  case True
  then show ?thesis using assms by (simp add: wait_output_def)
next
  case False
  let ?b = "set_route r (\<lambda>rt. rt\<lparr>rt_expected := Some mid\<rparr>) b"
  have g: "good b ?b" using False by (intro set_route_good) auto
  then have inv: "book_inv ?b" using assms(1) by (simp add: good_def)
  have goal: "goal_ok ?b r (GOutput mid)" using assms(2) by (simp add: goal_ok_def set_route_def)
  have "goes ?b (wait_output r mid b)"
    using False inv goal goes_wait[OF inv goal]
    by (auto simp: wait_output_def wait_route_eq Let_def served_def ended_def split: option.split)
  then show ?thesis by (rule goes_after[OF g assms(1)])
qed

lemma wait_input_goes: "book_inv b \<Longrightarrow> goes b (wait_input sid iid mid b)"
  using wait_output_goes in_routes by (auto simp: wait_input_def book_inv_def split: option.split)

lemma claim_loop_goes:
  assumes "book_inv b" and "c < bk_nclaims b"
  shows "goes b (claim_loop c b)"
proof -
  have "goal_ok b (cl_route (bk_claim b c)) (GClaim c)" using assms by (simp add: goal_ok_def book_inv_def in_bounds_def)
  then show ?thesis
    using assms goes_wait[OF assms(1)]
    by (auto simp: claim_loop_def wait_route_eq Let_def served_def ended_def split: option.split)
qed

lemma maybe_release_drained [simp]: "rt_drained (bk_heap (maybe_release r b) x) = rt_drained (bk_heap b x)"
  by (auto simp: maybe_release_def release_route_def settle_waiters_def set_route_def Let_def split: option.split)

text \<open>Resuming with the future done always ends the wait.\<close>

lemma resume_goes:
  assumes inv: "book_inv b" and w: "waits b r w g" and d: "bk_future b w \<noteq> WPending"
  shows "goes (drop_waiter r w b) (resume_wait r w g b) \<and> (\<forall>x y z. fst (resume_wait r w g b) \<noteq> FWait x y z)"
proof -
  let ?b = "drop_waiter r w b"
  let ?m = "maybe_release r ?b"
  have inv': "book_inv ?b" using inv by (rule drop_waiter_inv)
  have m: "good ?b ?m" by (rule maybe_release_good)
  then have minv: "book_inv ?m" using inv' by (simp add: good_def)
  have q: "quiet ?b ?m" using m inv' by (simp add: good_def)
  have "goal_ok ?b r g" using w by (simp add: waits_def goal_ok_def drop_waiter_def set_route_def split: wait_goal.splits)
  then have goal: "goal_ok ?m r g" using q by (rule goal_kept)
  show ?thesis
  proof (cases "bk_future b w")
    case (WError e)
    then show ?thesis using inv' by (simp add: resume_wait_def Let_def)
  next
    case WResult
    have dr: "rt_drained (bk_heap ?m r)" using w WResult by (simp add: waits_def drop_waiter_def set_route_def)
    have out: "goes ?m (FReturned r (GOutput mid), ?m)" if "g = GOutput mid" for mid
      using minv goal dr that by (simp add: served_def)
    have claim: "goes ?m (claim_loop c ?m)" if "g = GClaim c" for c
      using claim_loop_goes[OF minv] goal that by (simp add: goal_ok_def)
    have "goes ?m (FRaised e, ?m)" for e using minv by simp
    then have "goes ?b x" if "x = (FRaised e, ?m) \<or> x = (FReturned r g, ?m) \<and> (\<exists>mid. g = GOutput mid) \<or> (\<exists>c. g = GClaim c \<and> x = claim_loop c ?m)" for x e
      using that out claim \<open>goes ?m (FRaised e, ?m)\<close> goes_after[OF m inv', of x] by (elim disjE conjE exE) simp_all
    moreover have "\<forall>x y z. fst (claim_loop c ?m) \<noteq> FWait x y z" if "g = GClaim c" "cl_ending (bk_claim ?m c) \<noteq> None" for c
      using that goal dr by (auto simp: claim_loop_def goal_ok_def Let_def split: option.split)
    ultimately show ?thesis using WResult inv' dr
      by (auto simp: resume_wait_def Let_def split: option.split wait_goal.split)
  qed (use d in simp)
qed

lemma cancel_goes: "book_inv b \<Longrightarrow> goes (drop_waiter r w b) (cancel_wait r w b)"
  by (simp add: cancel_wait_def drop_waiter_inv)

subsection \<open>Drained routes\<close>

text \<open>Only the writer's success drains a route.\<close>

lemma drained_fold:
  "(\<And>c b. rt_drained (bk_heap (f c b) x) = rt_drained (bk_heap b x)) \<Longrightarrow>
     rt_drained (bk_heap (fold f cs b) x) = rt_drained (bk_heap b x)"
  by (induction cs arbitrary: b) auto

lemma drained_simps [simp]:
  "rt_drained (bk_heap (release_route key ex b) x) = rt_drained (bk_heap b x)"
  "rt_drained (bk_heap (fail_route key e ex b) x) = rt_drained (bk_heap b x)"
  "rt_drained (bk_heap (set_claim c f b) x) = rt_drained (bk_heap b x)"
  "rt_drained (bk_heap (drop_waiter r w b) x) = rt_drained (bk_heap b x)"
  "rt_drained (bk_heap (add_waiter r b) x) = rt_drained (bk_heap b x)"
  by (auto simp: release_route_def fail_route_def settle_waiters_def set_route_def set_claim_def drop_waiter_def add_waiter_def Let_def
    split: option.split)

lemma drained_resolve [simp]: "rt_drained (bk_heap (snd (resolve_page resolver conn page b)) x) = rt_drained (bk_heap b x)"
proof -
  have "rt_drained (bk_heap (resolve_route r e b) x) = rt_drained (bk_heap b x)" for r e b
    by (simp add: resolve_route_def drained_fold) (simp add: set_route_def)
  then have "rt_drained (bk_heap (snd (resolve_routes resolver conn complete rs tracked b)) x) = rt_drained (bk_heap b x)" for complete rs tracked
    by (induction rs arbitrary: tracked b) (simp_all add: Let_def split: sum.split option.split)
  then show ?thesis by (simp add: resolve_page_def split: sum.split)
qed

lemma drained_attach [simp]: "rt_drained (bk_heap (snd (attach_page rs written b)) x) = rt_drained (bk_heap b x)"
  by (induction rs arbitrary: b) (simp_all add: split_beta set_route_def)

lemma drained_abort [simp]: "rt_drained (bk_heap (abort_stage s b) x) = rt_drained (bk_heap b x)"
  by (simp add: abort_stage_def Let_def set_stage_def)

lemma drained_ends [simp]:
  "rt_drained (bk_heap (fail_connection conn e b) x) = rt_drained (bk_heap b x)"
  "rt_drained (bk_heap (close_book e' b) x) = rt_drained (bk_heap b x)"
  by (simp_all add: fail_connection_def close_book_def Let_def drained_fold split_beta)

lemma book_op_drained:
  assumes "book_op b b'" and "rt_drained (bk_heap b' x)"
  shows "rt_drained (bk_heap b x)"
  using assms
proof (induction rule: book_op.induct)
  case (Commit s b r b')
  then show ?case by (auto simp: commit_stage_def Let_def set_stage_def set_route_def split: if_splits option.splits)
qed (auto simp: route_input_def route_input_with_owner_def stage_input_def add_route_def new_route_def res_simps Let_def
      frame_done_def release_input_def settle_input_def arm_claim_def close_claim_def set_route_def split: option.splits if_splits)

subsection \<open>The invariant of the world\<close>

definition frame_inv :: "frame_world \<Rightarrow> bool" where
  "frame_inv W \<longleftrightarrow> book_inv (fw_book W) \<and> (\<forall>i. task_ok (fw_book W) (fw_tasks W i))
     \<and> (\<forall>i j r w g r' g'. fw_tasks W i = FWait r w g \<longrightarrow> fw_tasks W j = FWait r' w g' \<longrightarrow> i = j)
     \<and> (\<forall>r. rt_drained (bk_heap (fw_book W) r) \<longrightarrow> r \<in> fw_written W)"

lemma set_task_sel:
  "fw_book (set_task i x W) = snd x" "fw_tasks (set_task i x W) = (fw_tasks W)(i := fst x)" "fw_written (set_task i x W) = fw_written W"
  by (simp_all add: set_task_def)

lemma set_task_inv:
  assumes inv: "frame_inv W" and x: "goes b x"
    and others: "\<And>j. j \<noteq> i \<Longrightarrow> task_ok b (fw_tasks W j)" and n: "bk_nfutures b = bk_nfutures (fw_book W)"
    and d: "\<And>r. rt_drained (bk_heap (snd x) r) \<Longrightarrow> rt_drained (bk_heap (fw_book W) r)"
  shows "frame_inv (set_task i x W)"
proof -
  have "w < bk_nfutures (fw_book W)" if "fw_tasks W j = FWait r w g" for j r w g
  proof -
    have "task_ok (fw_book W) (FWait r w g)" using inv that unfolding frame_inv_def by metis
    then show ?thesis by (simp add: task_ok_def waits_def)
  qed
  moreover have "bk_nfutures (fw_book W) \<le> w" if "fst x = FWait r w g" for r w g
    using x n that by (simp add: goes_def)
  ultimately have fresh: "fw_tasks W j \<noteq> FWait r' w g'" if "fst x = FWait r w g" for j r w g r' g'
    using that by (meson linorder_not_le)
  have same: "j = k" if "((fw_tasks W)(i := fst x)) j = FWait r w g" "((fw_tasks W)(i := fst x)) k = FWait r' w g'" for j k r w g r' g'
  proof -
    have "fw_tasks W j' = FWait p w q \<Longrightarrow> fw_tasks W k' = FWait p' w q' \<Longrightarrow> j' = k'" for j' k' p q p' q'
      using inv unfolding frame_inv_def by blast
    moreover have False if "fst x = FWait p w q" "fw_tasks W k' = FWait p' w q'" for k' p q p' q'
      using fresh[OF that(1)] that(2) by blast
    ultimately show ?thesis
      using that by (cases "j = i"; cases "k = i") (simp, metis fun_upd_apply, metis fun_upd_apply, metis fun_upd_apply)
  qed
  have "task_ok (snd x) (((fw_tasks W)(i := fst x)) j)" for j
    using x others[of j] by (simp add: goes_def)
  moreover have "r \<in> fw_written W" if "rt_drained (bk_heap (snd x) r)" for r
    using d[OF that] inv by (simp add: frame_inv_def)
  moreover have "book_inv (snd x)" using x by (simp add: goes_def)
  ultimately show ?thesis
    unfolding frame_inv_def set_task_sel using same by (intro conjI allI impI) (assumption | blast)+
qed

lemma book_change_inv:
  assumes "frame_inv W" and "good (fw_book W) b" and "\<And>r. rt_drained (bk_heap b r) \<Longrightarrow> r \<in> written"
  shows "frame_inv (W\<lparr>fw_book := b, fw_written := written\<rparr>)"
  using assms unfolding frame_inv_def good_def by (auto intro: task_kept)

lemma wait_drained [simp]:
  "rt_drained (bk_heap (snd (claim_loop c b)) x) = rt_drained (bk_heap b x)"
  "rt_drained (bk_heap (snd (wait_output r mid b)) x) = rt_drained (bk_heap b x)"
  by (auto simp: claim_loop_def wait_output_def wait_route_eq Let_def set_route_def split: option.split)

lemma step_drained [simp]:
  "rt_drained (bk_heap (snd (wait_input sid iid mid b)) x) = rt_drained (bk_heap b x)"
  "rt_drained (bk_heap (snd (wait_claim c b)) x) = rt_drained (bk_heap b x)"
  "rt_drained (bk_heap (snd (resume_wait r w g b)) x) = rt_drained (bk_heap b x)"
  "rt_drained (bk_heap (snd (cancel_wait r w b)) x) = rt_drained (bk_heap b x)"
  by (auto simp: wait_input_def wait_claim_def resume_wait_def cancel_wait_def Let_def split: option.split wait_state.split wait_goal.split)

lemma frame_done_drained: "rt_drained (bk_heap (frame_done r None b) x) \<longleftrightarrow> x = r \<or> rt_drained (bk_heap b x)"
  by (simp add: frame_done_def Let_def) (simp add: settle_waiters_def set_route_def)

lemma frame_step_inv: "frame_step W W' \<Longrightarrow> frame_inv W \<Longrightarrow> frame_inv W'"
proof (induction rule: frame_step.induct)
  case (Operate W b)
  have "frame_inv (W\<lparr>fw_book := b, fw_written := fw_written W\<rparr>)"
    using Operate book_op_drained[OF Operate(1)] by (intro book_change_inv book_op_good) (auto simp: frame_inv_def)
  then show ?case by simp
next
  case (Written W r)
  then show ?case by (intro book_change_inv frame_done_good) (auto simp: frame_inv_def frame_done_drained)
next
  case (WaitOutput W i r mid)
  then show ?case by (intro set_task_inv[OF _ wait_output_goes]) (auto simp: frame_inv_def)
next
  case (WaitInput W i sid iid mid)
  then show ?case by (intro set_task_inv[OF _ wait_input_goes]) (auto simp: frame_inv_def)
next
  case (WaitClaim W i c)
  then have "goes (fw_book W) (wait_claim c (fw_book W))"
    by (simp add: wait_claim_def claim_loop_goes frame_inv_def)
  then show ?case using WaitClaim by (intro set_task_inv) (auto simp: frame_inv_def)
next
  case (Resume W i r w g)
  let ?b = "drop_waiter r w (fw_book W)"
  have w: "waits (fw_book W) r w g" using Resume by (auto simp: frame_inv_def task_ok_def split: frame_pc.splits)
  show ?case
  proof (rule set_task_inv[OF Resume(3)])
    show "goes ?b (resume_wait r w g (fw_book W))" using resume_goes w Resume by (simp add: frame_inv_def)
    show "task_ok ?b (fw_tasks W j)" if "j \<noteq> i" for j
      using Resume that by (intro drop_waiter_task) (auto simp: frame_inv_def)
  qed (simp_all add: drop_waiter_def set_route_def)
next
  case (Cancel W i r w g)
  let ?b = "drop_waiter r w (fw_book W)"
  show ?case
  proof (rule set_task_inv[OF Cancel(2)])
    show "goes ?b (cancel_wait r w (fw_book W))" using Cancel cancel_goes by (simp add: frame_inv_def)
    show "task_ok ?b (fw_tasks W j)" if "j \<noteq> i" for j
      using Cancel that by (intro drop_waiter_task) (auto simp: frame_inv_def)
  qed (simp_all add: drop_waiter_def set_route_def)
qed

lemma frame_start_inv [simp]: "frame_inv frame_start"
  by (simp add: frame_inv_def frame_start_def empty_book_def book_inv_def in_bounds_def new_route_def task_ok_def)

lemma frame_reach_inv: "frame_step\<^sup>*\<^sup>* frame_start W \<Longrightarrow> frame_inv W"
  by (induction rule: rtranclp_induct) (auto dest: frame_step_inv)

end
