(* ===== verification/Frame_Properties.thy ===== *)
theory Frame_Properties
  imports Frame_Book
begin

text \<open>
  The properties of the control frames: no task waits for ever on a route that is gone, and a wait that
  returns has seen the frame written.
\<close>

section \<open>Disconnection and closing\<close>

text \<open>A stage in the table has not been committed or aborted.\<close>

definition open_stages :: "book \<Rightarrow> bool" where
  "open_stages b \<longleftrightarrow> (\<forall>s \<in> set (bk_stages b). s < bk_nstages b \<and> \<not> sg_closed (bk_stage b s))"

definition shrinks :: "book \<Rightarrow> book \<Rightarrow> bool" where
  "shrinks b b' \<longleftrightarrow> set (bk_stages b') \<subseteq> set (bk_stages b) \<and> set (bk_routes b') \<subseteq> set (bk_routes b)
     \<and> (\<forall>s. sg_route (bk_stage b' s) = sg_route (bk_stage b s)) \<and> (\<forall>r. rt_conn (bk_heap b' r) = rt_conn (bk_heap b r))
     \<and> (open_stages b \<longrightarrow> open_stages b')"

lemma shrinks_refl [simp]: "shrinks b b"
  by (simp add: shrinks_def)

lemma shrinks_trans: "shrinks a b \<Longrightarrow> shrinks b c \<Longrightarrow> shrinks a c"
  unfolding shrinks_def by (metis subset_trans)

lemma shrinks_fold: "(\<And>x b. shrinks b (f x b)) \<Longrightarrow> shrinks b (fold f xs b)"
  by (induction xs arbitrary: b) (auto intro: shrinks_trans)

lemma fail_shrinks: "shrinks b (fail_route key e ex b)"
  by (auto simp: shrinks_def open_stages_def fail_route_def settle_waiters_def set_route_def Let_def AList.delete_eq
      split: option.split)

lemma release_shrinks: "shrinks b (release_route key ex b)"
  by (auto simp: shrinks_def open_stages_def release_route_def settle_waiters_def set_route_def Let_def AList.delete_eq
      split: option.split)

lemma abort_shrinks: "shrinks b (abort_stage s b)"
proof (cases "sg_closed (bk_stage b s)")
  case False
  let ?c = "set_stage s (\<lambda>g. g\<lparr>sg_closed := True\<rparr>) b"
  have "shrinks b (?c\<lparr>bk_stages := filter (\<lambda>t. t \<noteq> s) (bk_stages ?c)\<rparr>)"
    by (auto simp: shrinks_def open_stages_def set_stage_def)
  then show ?thesis using False shrinks_trans[OF _ fail_shrinks] by (simp add: abort_stage_def Let_def)
qed (simp add: abort_stage_def)

lemma abort_removes: "open_stages b \<Longrightarrow> s \<notin> set (bk_stages (abort_stage s b))"
proof (cases "sg_closed (bk_stage b s)")
  case False
  then show ?thesis using fail_shrinks by (simp add: abort_stage_def Let_def shrinks_def) fastforce
qed (auto simp: abort_stage_def open_stages_def)

text \<open>A sweep over a list leaves nothing of what it sweeps.\<close>

lemma sweep_routes:
  assumes "p \<in> set (bk_routes (fold (\<lambda>(key, r) b. if P (rt_conn (bk_heap b r)) then fail_route key e None b else b) xs b))"
    and "p \<in> set xs"
  shows "\<not> P (rt_conn (bk_heap b (snd p)))"
  using assms
proof (induction xs arbitrary: b)
  case (Cons x xs)
  obtain key r where x: "x = (key, r)" by (cases x)
  let ?f = "\<lambda>(key, r) b. if P (rt_conn (bk_heap b r)) then fail_route key e None b else b"
  have sh: "shrinks b (?f y b)" for y b using fail_shrinks by (auto split: prod.split)
  show ?case
  proof (cases "p \<in> set xs")
    case True
    then show ?thesis using Cons.IH[of "?f x b"] Cons.prems(1) sh[of b x] by (simp add: shrinks_def)
  next
    case False
    then have p: "p = (key, r)" using Cons.prems(2) x by simp
    have "p \<notin> set (bk_routes (fail_route key e None b))"
      using p by (auto simp: fail_route_def settle_waiters_def set_route_def Let_def AList.delete_eq map_of_eq_None_iff image_iff split: option.split)
    moreover have "p \<in> set (bk_routes (?f x b))"
      using Cons.prems(1) shrinks_fold[of ?f "?f x b" xs, OF sh] by (auto simp: shrinks_def)
    ultimately show ?thesis using p x by auto
  qed
qed simp

lemma sweep_stages:
  assumes "open_stages b" and "t \<in> set (bk_stages (fold (\<lambda>s b. if P (rt_conn (bk_heap b (sg_route (bk_stage b s)))) then abort_stage s b else b) xs b))"
    and "t \<in> set xs"
  shows "\<not> P (rt_conn (bk_heap b (sg_route (bk_stage b t))))"
  using assms
proof (induction xs arbitrary: b)
  case (Cons s xs)
  let ?f = "\<lambda>s b. if P (rt_conn (bk_heap b (sg_route (bk_stage b s)))) then abort_stage s b else b"
  have sh: "shrinks b (?f y b)" for y b using abort_shrinks by auto
  show ?case
  proof (cases "t \<in> set xs")
    case True
    then show ?thesis using Cons.IH[of "?f s b"] Cons.prems(1,2) sh[of b s] by (simp add: shrinks_def)
  next
    case False
    then have t: "t = s" using Cons.prems(3) by simp
    have "t \<in> set (bk_stages (?f s b))"
      using Cons.prems(2) shrinks_fold[of ?f "?f s b" xs, OF sh] by (auto simp: shrinks_def)
    then show ?thesis using abort_removes[OF Cons.prems(1), of s] t by auto
  qed
qed simp

text \<open>Both ends of the book are sweeps, followed by no live route of the connection.\<close>

lemma swept_not_live:
  assumes inv: "open_stages b" "in_bounds c"
    and b': "b' = fold (\<lambda>(key, r) b. if P (rt_conn (bk_heap b r)) then fail_route key e None b else b) (bk_routes b) b"
    and c: "c = fold (\<lambda>s b. if P (rt_conn (bk_heap b (sg_route (bk_stage b s)))) then abort_stage s b else b) (bk_stages b') b'"
    and r: "P (rt_conn (bk_heap b r))"
  shows "\<not> live c r"
proof
  assume "live c r"
  have b: "shrinks b b'" unfolding b' by (rule shrinks_fold) (auto intro: fail_shrinks)
  have c': "shrinks b' c" unfolding c by (rule shrinks_fold) (auto intro: abort_shrinks)
  have conn: "rt_conn (bk_heap b' x) = rt_conn (bk_heap b x)" "rt_conn (bk_heap c x) = rt_conn (bk_heap b x)" for x
    using b c' by (auto simp: shrinks_def)
  from \<open>live c r\<close> show False unfolding live_def
  proof
    assume "map_of (bk_routes c) (rt_key (bk_heap c r)) = Some r"
    then have "(rt_key (bk_heap c r), r) \<in> set (bk_routes c)" by (rule map_of_SomeD)
    then have "(rt_key (bk_heap c r), r) \<in> set (bk_routes b')" using c' by (auto simp: shrinks_def)
    moreover have "set (bk_routes b') \<subseteq> set (bk_routes b)" using b by (simp add: shrinks_def)
    ultimately show False using sweep_routes[of _ P e "bk_routes b" b] r unfolding b' by fastforce
  next
    assume "\<exists>s \<in> set (bk_stages c). sg_route (bk_stage c s) = r"
    then obtain s where s: "s \<in> set (bk_stages c)" "sg_route (bk_stage c s) = r" by blast
    then have "s \<in> set (bk_stages b')" "sg_route (bk_stage b' s) = r" using c' by (auto simp: shrinks_def)
    moreover have "open_stages b'" using b inv by (simp add: shrinks_def)
    ultimately show False using sweep_stages[of b' s P "bk_stages b'"] s(1) r conn unfolding c by simp
  qed
qed

subsection \<open>Stages stay open while they are listed\<close>

lemma stages_kept: "bk_stages b' = bk_stages b \<Longrightarrow> bk_stage b' = bk_stage b \<Longrightarrow> bk_nstages b' = bk_nstages b \<Longrightarrow> open_stages b' = open_stages b"
  by (simp add: open_stages_def)

lemma set_route_stages [simp]: "open_stages (set_route r f b) = open_stages b"
  by (rule stages_kept) (simp_all add: set_route_def)

lemma set_claim_stages [simp]: "open_stages (set_claim c f b) = open_stages b"
  by (rule stages_kept) (simp_all add: set_claim_def)

lemma updates_stages [simp]:
  "open_stages (b\<lparr>bk_heap := h\<rparr>) = open_stages b" "open_stages (b\<lparr>bk_nroutes := n\<rparr>) = open_stages b"
  "open_stages (b\<lparr>bk_routes := rs\<rparr>) = open_stages b" "open_stages (b\<lparr>bk_claim := cl\<rparr>) = open_stages b"
  "open_stages (b\<lparr>bk_nclaims := n\<rparr>) = open_stages b" "open_stages (b\<lparr>bk_claims := cs\<rparr>) = open_stages b"
  "open_stages (b\<lparr>bk_closed := e\<rparr>) = open_stages b"
  by (rule stages_kept; simp)+

lemma settle_stages [simp]: "open_stages (settle_waiters v ws b) = open_stages b"
  by (rule stages_kept) (simp_all add: settle_waiters_def)

lemma ends_open: "open_stages b \<Longrightarrow> open_stages (fail_route key e ex b)" "open_stages b \<Longrightarrow> open_stages (release_route key ex b)"
  "open_stages b \<Longrightarrow> open_stages (abort_stage s b)"
  using fail_shrinks release_shrinks abort_shrinks unfolding shrinks_def by blast+

lemma maybe_open: "open_stages b \<Longrightarrow> open_stages (maybe_release r b)"
  by (simp add: maybe_release_def Let_def ends_open)

lemma open_fold: "(\<And>x b. open_stages b \<Longrightarrow> open_stages (f x b)) \<Longrightarrow> open_stages b \<Longrightarrow> open_stages (fold f xs b)"
  by (induction xs arbitrary: b) auto

lemma resolve_open: "open_stages (snd (resolve_routes resolver conn complete rs tracked b)) = open_stages b"
proof (induction rs arbitrary: tracked b)
  case (Cons r rs)
  have "open_stages (fold (\<lambda>c. set_claim c f) cs b) = open_stages b" for f cs b
    by (induction cs arbitrary: b) auto
  then show ?case using Cons by (simp add: Let_def resolve_route_def split: sum.split option.split)
qed simp

lemma attach_open: "open_stages (snd (attach_page rs written b)) = open_stages b"
  by (induction rs arbitrary: b) (simp_all add: split_beta)

lemma commit_open:
  assumes "open_stages b" and "commit_stage s b = Inr (r, b')"
  shows "open_stages b'"
proof -
  let ?c = "set_stage s (\<lambda>g. g\<lparr>sg_closed := True\<rparr>) b"
  have c: "open_stages (?c\<lparr>bk_stages := filter (\<lambda>t. t \<noteq> s) (bk_stages ?c)\<rparr>)"
    using assms(1) by (auto simp: open_stages_def set_stage_def)
  show ?thesis using assms(2) c
    by (auto simp: commit_stage_def Let_def intro!: maybe_open ends_open split: if_splits option.splits)
qed

lemma book_op_open: "book_op b b' \<Longrightarrow> open_stages b \<Longrightarrow> open_stages b'"
proof (induction rule: book_op.induct)
  case (Stage sid iid conn b s b')
  then show ?case by (auto simp: stage_input_def res_simps add_route_def Let_def open_stages_def less_Suc_eq split: if_splits)
next
  case (Commit s b r b')
  then show ?case using commit_open by blast
next
  case (Resolve b resolver conn page)
  then show ?case by (simp add: resolve_page_def resolve_open split: sum.split)
next
  case (Disconnect b conn error)
  then show ?case unfolding fail_connection_def Let_def
    by (auto intro!: open_fold ends_open split: prod.split)
next
  case (Close b close_error)
  then show ?case unfolding close_book_def Let_def by (auto intro!: open_fold ends_open)
qed (auto simp: route_input_def route_input_with_owner_def add_route_def res_simps Let_def attach_open ends_open maybe_open
      frame_done_def release_input_def settle_input_def arm_claim_def close_claim_def
      split: option.splits if_splits)

lemma task_open:
  "open_stages b \<Longrightarrow> open_stages (snd (wait_output r mid b))" "open_stages b \<Longrightarrow> open_stages (snd (claim_loop c b))"
  "open_stages b \<Longrightarrow> open_stages (drop_waiter r w b)"
proof -
  have "open_stages (add_waiter r b) = open_stages b" for r b
    by (rule stages_kept) (simp_all add: add_waiter_def set_route_def)
  then show "open_stages b \<Longrightarrow> open_stages (snd (wait_output r mid b))" "open_stages b \<Longrightarrow> open_stages (snd (claim_loop c b))"
    by (auto simp: wait_output_def claim_loop_def wait_route_eq Let_def split: option.split)
qed (simp add: drop_waiter_def)

lemma resume_open: "open_stages b \<Longrightarrow> open_stages (snd (resume_wait r w g b))"
  by (auto simp: resume_wait_def Let_def task_open maybe_open split: wait_state.split option.split wait_goal.split)

lemma frame_step_open: "frame_step W W' \<Longrightarrow> open_stages (fw_book W) \<Longrightarrow> open_stages (fw_book W')"
  by (induction rule: frame_step.induct)
    (auto simp: book_op_open frame_done_def Let_def maybe_open set_task_def task_open wait_input_def wait_claim_def resume_open cancel_wait_def
      split: option.split)

lemma frame_reach_open: "frame_step\<^sup>*\<^sup>* frame_start W \<Longrightarrow> open_stages (fw_book W)"
proof (induction rule: rtranclp_induct)
  case base
  then show ?case by (simp add: open_stages_def frame_start_def empty_book_def)
qed (rule frame_step_open)

section \<open>No task waits on a route that is gone\<close>

text \<open>What an operation leaves pending is still in the tables and has not ended.\<close>

lemma pending_live:
  assumes "book_inv b" and "waits b r w g" and "bk_future b w = WPending"
  shows "live b r \<and> \<not> ended b r"
  using assms unfolding book_inv_def waits_def goal_ok_def by blast

lemma pending_after:
  assumes "book_inv b" and "waits b r w g" and "good b b'" and "bk_future b' w = WPending"
  shows "live b' r \<and> \<not> ended b' r"
  using assms waits_kept[OF assms(2)] pending_live[of b' r w g] by (simp add: good_def)

lemma disconnect_settles:
  assumes inv: "book_inv b" "open_stages b" and w: "waits b r w g"
  shows "bk_future (fail_connection (rt_conn (bk_heap b r)) e b) w \<noteq> WPending"
proof -
  let ?c = "fail_connection (rt_conn (bk_heap b r)) e b"
  have "in_bounds ?c" using fail_connection_good inv by (simp add: good_def book_inv_def)
  then have "\<not> live ?c r"
    by (intro swept_not_live[OF inv(2), where P = "\<lambda>x. x = rt_conn (bk_heap b r)"]) (simp_all add: fail_connection_def Let_def)
  then show ?thesis using pending_after[OF inv(1) w fail_connection_good] by blast
qed

lemma close_settles:
  assumes inv: "book_inv b" "open_stages b" and w: "waits b r w g"
  shows "bk_future (close_book e b) w \<noteq> WPending"
proof -
  define err where "err = (case e of None \<Rightarrow> ConnectionError | Some e \<Rightarrow> e)"
  let ?b = "b\<lparr>bk_closed := Some err\<rparr>"
  have "fold (\<lambda>key. fail_route key err None) (keys (bk_routes b)) ?b
      = fold (\<lambda>(key, r) b. if True then fail_route key err None b else b) (bk_routes ?b) ?b"
    by (simp add: fold_map comp_def case_prod_unfold)
  then have close: "close_book e b = fold (\<lambda>s b. if True then abort_stage s b else b)
      (bk_stages (fold (\<lambda>(key, r) b. if True then fail_route key err None b else b) (bk_routes ?b) ?b))
      (fold (\<lambda>(key, r) b. if True then fail_route key err None b else b) (bk_routes ?b) ?b)"
    by (simp add: close_book_def err_def Let_def)
  have "open_stages ?b" using inv(2) by simp
  moreover have "in_bounds (close_book e b)" using close_book_good inv by (simp add: good_def book_inv_def)
  ultimately have "\<not> live (close_book e b) r"
    by (intro swept_not_live[OF _ _ refl close]) simp_all
  then show ?thesis using pending_after[OF inv(1) w close_book_good] by blast
qed

lemma written_settles:
  assumes "book_inv b" and "waits b r w g"
  shows "bk_future (frame_done r outcome b) w \<noteq> WPending"
proof -
  have "ended (frame_done r outcome b) r"
    by (cases outcome) (auto simp: ended_def frame_done_drained, simp add: frame_done_def fail_exact end_route_def Let_def)
  then show ?thesis using pending_after[OF assms frame_done_good] by blast
qed

text \<open>C14. No task waits for ever on a route that is gone: in every reachable state, a task whose future is pending
  waits on a route that is in the tables of the book, not drained and not failed; a task whose future
  is done ends as soon as it resumes; and writing the frame, failing to write it, losing the
  connection and closing the book each complete the future.\<close>

theorem waiter_not_lost:
  assumes "frame_step\<^sup>*\<^sup>* frame_start W" and "fw_tasks W i = FWait r w g" and "b = fw_book W"
  shows "(bk_future b w = WPending \<longrightarrow> live b r \<and> \<not> ended b r)
    \<and> (bk_future b w \<noteq> WPending \<longrightarrow> (\<forall>x y z. fst (resume_wait r w g b) \<noteq> FWait x y z))
    \<and> bk_future (frame_done r outcome b) w \<noteq> WPending
    \<and> bk_future (fail_connection (rt_conn (bk_heap b r)) e b) w \<noteq> WPending
    \<and> bk_future (close_book e' b) w \<noteq> WPending"
proof -
  have inv: "frame_inv W" and st: "open_stages b" using assms frame_reach_inv frame_reach_open by auto
  have "task_ok b (FWait r w g)" using inv assms(2,3) unfolding frame_inv_def by metis
  then have w: "waits b r w g" by (simp add: task_ok_def)
  have b: "book_inv b" using inv assms(3) by (simp add: frame_inv_def)
  show ?thesis
    using pending_live[OF b w] resume_goes[OF b w] written_settles[OF b w] disconnect_settles[OF b st w] close_settles[OF b st w] by blast
qed

text \<open>C20. A wait returns only for a written frame: when a task returns normally, the writer has written the frame of
  the route it waited on; the route is bound to the output the task asked for, and the claim it
  waited for has its final output.\<close>

theorem return_means_written:
  assumes "frame_step\<^sup>*\<^sup>* frame_start W" and "fw_tasks W i = FReturned r g"
  shows "r \<in> fw_written W \<and> (case g of
     GOutput mid \<Rightarrow> rt_expected (bk_heap (fw_book W) r) = Some mid
   | GClaim c \<Rightarrow> cl_route (bk_claim (fw_book W) c) = r \<and> cl_ending (bk_claim (fw_book W) c) \<noteq> None)"
proof -
  have inv: "frame_inv W" using assms(1) by (rule frame_reach_inv)
  then have "task_ok (fw_book W) (FReturned r g)" using assms(2) unfolding frame_inv_def by metis
  then have "served (fw_book W) r g" by (simp add: task_ok_def)
  then show ?thesis using inv by (auto simp: served_def goal_ok_def frame_inv_def split: wait_goal.splits)
qed

text \<open>A stage whose frame could not be written can still be committed: the dead route becomes the active one.\<close>

theorem failed_stage_commits:
  assumes "\<not> sg_closed (bk_stage b s)" and "r = sg_route (bk_stage b s)" and "\<not> rt_drained (bk_heap b r)"
  shows "\<exists>b'. commit_stage s (frame_done r (Some e) b) = Inr (r, b')
    \<and> map_of (bk_routes b') (rt_key (bk_heap b' r)) = Some r \<and> rt_error (bk_heap b' r) \<noteq> None"
proof -
  let ?c = "frame_done r (Some e) b"
  have c: "bk_stage ?c = bk_stage b" "rt_error (bk_heap ?c r) = Some e" "\<not> rt_drained (bk_heap ?c r)"
    using assms(3) by (simp_all add: frame_done_def) (simp add: fail_exact end_route_def Let_def)
  have err: "rt_error (bk_heap (fail_route k x ex d) r) \<noteq> None" if "rt_error (bk_heap d r) \<noteq> None" for k x ex d
    using that by (auto simp: fail_route_def settle_waiters_def set_route_def Let_def split: option.split)
  show ?thesis
    using assms c err
    by (auto simp: commit_stage_def Let_def set_stage_def set_route_def maybe_release_def map_of_update split: option.split)
qed

section \<open>A task that waits and returns\<close>

definition sample_book :: book where
  "sample_book = (case route_input ''s'' ''i'' ''c'' empty_book of Inr (r, b) \<Rightarrow> b | Inl e \<Rightarrow> empty_book)"

definition sample_waiting :: frame_world where
  "sample_waiting = set_task 0 (wait_output 0 ''m'' sample_book) (frame_start\<lparr>fw_book := sample_book\<rparr>)"

definition sample_written :: frame_world where
  "sample_written = sample_waiting\<lparr>fw_book := frame_done 0 None (fw_book sample_waiting), fw_written := {0}\<rparr>"

definition sample_returned :: frame_world where
  "sample_returned = set_task 0 (resume_wait 0 0 (GOutput ''m'') (fw_book sample_written)) sample_written"

lemmas sample_frame_eval = sample_book_def empty_book_def route_input_def check_open_def add_route_def new_route_def
  wait_output_def wait_route_def set_task_def set_route_def frame_start_def Let_def
  frame_done_def settle_waiters_def maybe_release_def release_route_def resume_wait_def drop_waiter_def

lemma sample_waiting_reached: "frame_step\<^sup>*\<^sup>* frame_start sample_waiting"
proof -
  have "frame_step frame_start (frame_start\<lparr>fw_book := sample_book\<rparr>)"
    by (rule frame_step.Operate, rule book_op.Route[of "''s''" "''i''" "''c''" _ 0]) (simp add: sample_frame_eval)
  moreover have "frame_step (frame_start\<lparr>fw_book := sample_book\<rparr>) sample_waiting"
    using frame_step.WaitOutput[of "frame_start\<lparr>fw_book := sample_book\<rparr>" 0 0 "''m''"]
    by (simp add: sample_waiting_def) (simp add: sample_frame_eval)
  ultimately show ?thesis by (meson rtranclp.rtrancl_into_rtrancl rtranclp.rtrancl_refl)
qed

lemma sample_waits: "fw_tasks sample_waiting 0 = FWait 0 0 (GOutput ''m'')" "fw_written sample_waiting = {}"
  "bk_future (fw_book sample_waiting) 0 = WPending" "bk_future (fw_book sample_written) 0 = WResult"
  "fw_tasks sample_returned 0 = FReturned 0 (GOutput ''m'')"
  by (simp_all add: sample_waiting_def sample_written_def sample_returned_def sample_frame_eval)

lemma sample_returned_reached: "frame_step\<^sup>*\<^sup>* frame_start sample_returned"
proof -
  have "frame_step sample_waiting sample_written"
    using frame_step.Written[of sample_waiting 0] by (simp add: sample_written_def sample_waits)
  moreover have "frame_step sample_written sample_returned"
    using frame_step.Resume[of sample_written 0 0 0 "GOutput ''m''"] sample_waits by (simp add: sample_returned_def) (simp add: sample_written_def)
  ultimately show ?thesis using sample_waiting_reached by (meson rtranclp.rtrancl_into_rtrancl)
qed

theorem waiter_not_lost_witness:
  "live (fw_book sample_waiting) 0 \<and> \<not> ended (fw_book sample_waiting) 0
     \<and> bk_future (close_book None (fw_book sample_waiting)) 0 \<noteq> WPending"
  using waiter_not_lost[OF sample_waiting_reached sample_waits(1) refl] sample_waits(3) by blast

theorem return_means_written_witness: "0 \<in> fw_written sample_returned"
  using return_means_written[OF sample_returned_reached sample_waits(5)] by blast

end
