(* ===== verification/Conversation.thy ===== *)
theory Conversation
  imports Log_Properties Turn_Properties
begin

text \<open>
  \<open>plugins/conversation/source.py\<close>: the source that accepts the user's messages and controls of one
  session, wakes the reply program and revokes it.

  The admission callbacks run without an await, one at a time (\<open>Tasks.admit\<close>), so each is one step over
  the log and the slot of the source's key. The slot holds the task that is not done, with its
  handle and whether it is active; cancelling revokes it at once, it is done later. The listener
  \<open>changed\<close> is a parameter that answers or raises. What a method awaits after its callback (the end of the
  cancelled task) changes nothing and is the Boolean next to its message.
\<close>

section \<open>Does the source need a reply?\<close>

record wake =
  wk_boundary :: int
  wk_latest :: int
  wk_paused :: int

definition wake_start :: wake where
  "wake_start = \<lparr>wk_boundary = - 1, wk_latest = - 1, wk_paused = - 1\<rparr>"

definition wake_step :: "string \<Rightarrow> message \<Rightarrow> wake \<Rightarrow> wake" where
  "wake_step source m k =
     (if m_source m \<noteq> source then k
      else case m_body m of
        Input ps \<Rightarrow> k\<lparr>wk_latest := m_seq m\<rparr>
      | Output ps f \<Rightarrow> (if f \<noteq> Continue then k\<lparr>wk_boundary := m_seq m\<rparr> else k)
      | Control a through reason \<Rightarrow>
          (if a = Abandon then k\<lparr>wk_boundary := max (wk_boundary k) through\<rparr>
           else if a = Pause \<or> a = Failure then k\<lparr>wk_paused := max (wk_paused k) through\<rparr>
           else if a = Resume \<and> wk_paused k \<le> through then k\<lparr>wk_paused := - 1\<rparr>
           else k)
      | ToolResult l r oc ps \<Rightarrow> k)"

definition needs_reply_to :: "message list \<Rightarrow> string \<Rightarrow> bool" where
  "needs_reply_to ms source =
     (let k = fold (wake_step source) ms wake_start in max (wk_boundary k) (wk_paused k) < wk_latest k)"

text \<open>With a reader only the messages from the latest input on are read.\<close>

definition needs_reply :: "message_log \<Rightarrow> string \<Rightarrow> string \<Rightarrow> bool res" where
  "needs_reply s sid source =
     (let head = head_of s sid None in
      bindR (latest_input s sid source head) (\<lambda>latest. case latest of
        None \<Rightarrow> Inr False
      | Some l \<Rightarrow> bindR (snapshot s sid (m_seq l) (Some head)) (\<lambda>ms. Inr (needs_reply_to (l # ms) source))))"

section \<open>The source\<close>

record conversation =
  cn_session :: string
  cn_source :: string
  cn_inputs :: writer
  cn_controls :: writer

definition mk_conversation :: "string \<Rightarrow> writer \<Rightarrow> writer \<Rightarrow> conversation res" where
  "mk_conversation sid inputs controls =
     (if w_session inputs \<noteq> sid \<or> w_session controls \<noteq> sid \<or> w_source controls \<noteq> w_source inputs then Inl ValueError
      else Inr \<lparr>cn_session = sid, cn_source = w_source inputs, cn_inputs = inputs, cn_controls = controls\<rparr>)"

record conv_task =
  ct_handle :: string
  ct_active :: bool

record conv_state =
  cv_log :: message_log
  cv_task :: "conv_task option"

definition task_active :: "conv_state \<Rightarrow> bool" where
  "task_active st = (case cv_task st of None \<Rightarrow> False | Some t \<Rightarrow> ct_active t)"

definition cancel_task :: "conv_state \<Rightarrow> conv_state" where
  "cancel_task st = st\<lparr>cv_task := map_option (\<lambda>t. t\<lparr>ct_active := False\<rparr>) (cv_task st)\<rparr>"

text \<open>An append followed by the notification; the message stays when the listener raises.\<close>

definition append_changed ::
  "int \<Rightarrow> (message \<Rightarrow> unit res) \<Rightarrow> writer \<Rightarrow> string \<Rightarrow> body \<Rightarrow> int option \<Rightarrow> conv_state \<Rightarrow> message res \<times> conv_state" where
  "append_changed now changed w mid b head st =
     (case writer_append now w mid b head None (cv_log st) of
        (Inl e, s) \<Rightarrow> (Inl e, st\<lparr>cv_log := s\<rparr>)
      | (Inr m, s) \<Rightarrow> (bindR (changed m) (\<lambda>_. Inr m), st\<lparr>cv_log := s\<rparr>))"

definition conv_accept ::
  "conversation \<Rightarrow> int \<Rightarrow> unit res \<Rightarrow> (message \<Rightarrow> unit res) \<Rightarrow> string \<Rightarrow> body \<Rightarrow> conv_state \<Rightarrow> message res \<times> conv_state" where
  "conv_accept C now open_gate changed mid b st =
     (case get_message (cv_log st) (cn_session C) mid of
        Inl e \<Rightarrow> (Inl e, st)
      | Inr (Some old) \<Rightarrow> append_changed now (\<lambda>m. Inr ()) (cn_inputs C) mid b None st
      | Inr None \<Rightarrow>
          (case open_gate of
             Inl e \<Rightarrow> (Inl e, st)
           | Inr u \<Rightarrow>
               (case append_changed now changed (cn_inputs C) mid b None st of
                  (Inl e, st') \<Rightarrow> (Inl e, st')
                | (Inr m, st') \<Rightarrow> (Inr m, cancel_task st'))))"

text \<open>A control must name an accepted message of the source, and an abandon an open one.\<close>

definition closes_at :: "string \<Rightarrow> int \<Rightarrow> message \<Rightarrow> bool" where
  "closes_at source through m \<longleftrightarrow> m_source m = source \<and> (case m_body m of
     Output ps f \<Rightarrow> f \<noteq> Continue \<and> through \<le> m_seq m
   | Control a t r \<Rightarrow> a = Abandon \<and> through \<le> t
   | _ \<Rightarrow> False)"

definition check_control :: "conversation \<Rightarrow> action \<Rightarrow> int \<Rightarrow> message_log \<Rightarrow> unit res" where
  "check_control C a through s =
     bindR (read_range s (cn_session C) (through - 1) (Some through) None 1) (\<lambda>target.
     if target = [] \<or> m_source (hd target) \<noteq> cn_source C then Inl MessageConflict
     else if a \<noteq> Abandon then Inr ()
     else bindR (snapshot s (cn_session C) (- 1) None) (\<lambda>ms.
       if list_ex (closes_at (cn_source C) through) ms then Inl MessageConflict else Inr ()))"

definition check_handle :: "string option \<Rightarrow> conv_state \<Rightarrow> unit res" where
  "check_handle handle st =
     (case handle of
        Some h \<Rightarrow> (case cv_task st of
                     None \<Rightarrow> Inl StaleTask
                   | Some t \<Rightarrow> if ct_handle t \<noteq> h \<or> \<not> ct_active t then Inl StaleTask else Inr ())
      | None \<Rightarrow> if task_active st then Inl MessageConflict else Inr ())"

definition revoked :: "conv_state \<Rightarrow> bool" where
  "revoked st = (case cv_task st of None \<Rightarrow> False | Some t \<Rightarrow> \<not> ct_active t)"

definition conv_control ::
  "conversation \<Rightarrow> int \<Rightarrow> (message \<Rightarrow> unit res) \<Rightarrow> string \<Rightarrow> action \<Rightarrow> int \<Rightarrow> string option \<Rightarrow> int \<Rightarrow> string option \<Rightarrow> conv_state
     \<Rightarrow> (message \<times> bool) res \<times> conv_state" where
  "conv_control C now changed mid a through reason expected_head handle st =
     (case get_message (cv_log st) (cn_session C) mid of
        Inl e \<Rightarrow> (Inl e, st)
      | Inr (Some old) \<Rightarrow>
          (case append_changed now (\<lambda>m. Inr ()) (cn_controls C) mid (Control a through reason) None st of
             (Inl e, st') \<Rightarrow> (Inl e, st')
           | (Inr m, st') \<Rightarrow> (Inr (m, a \<noteq> Resume \<and> revoked st'), st'))
      | Inr None \<Rightarrow>
          (case bindR (check_control C a through (cv_log st)) (\<lambda>_. check_handle handle st) of
             Inl e \<Rightarrow> (Inl e, st)
           | Inr u \<Rightarrow>
               (case append_changed now changed (cn_controls C) mid (Control a through reason) (Some expected_head) st of
                  (Inl e, st') \<Rightarrow> (Inl e, st')
                | (Inr m, st') \<Rightarrow>
                    (Inr (m, a \<noteq> Resume \<and> cv_task st' \<noteq> None), if a \<noteq> Resume then cancel_task st' else st'))))"

definition conv_pause ::
  "conversation \<Rightarrow> int \<Rightarrow> (message \<Rightarrow> unit res) \<Rightarrow> string \<Rightarrow> conv_state \<Rightarrow> (message \<times> bool) res \<times> conv_state" where
  "conv_pause C now changed mid st =
     (case get_message (cv_log st) (cn_session C) mid of
        Inl e \<Rightarrow> (Inl e, st)
      | Inr (Some old) \<Rightarrow>
          (case m_body old of
             Control Pause through reason \<Rightarrow>
               (case append_changed now (\<lambda>m. Inr ()) (cn_controls C) mid (m_body old) None st of
                  (Inl e, st') \<Rightarrow> (Inl e, st')
                | (Inr m, st') \<Rightarrow> (Inr (m, revoked st'), st'))
           | _ \<Rightarrow> (Inl MessageConflict, st))
      | Inr None \<Rightarrow>
          (let head = head_of (cv_log st) (cn_session C) (Some (cn_source C)) in
           if head < 0 then (Inl MessageConflict, st)
           else case append_changed now changed (cn_controls C) mid (Control Pause head None) (Some head) st of
               (Inl e, st') \<Rightarrow> (Inl e, st')
             | (Inr m, st') \<Rightarrow> (Inr (m, cv_task st' \<noteq> None), cancel_task st')))"

fun is_input :: "body \<Rightarrow> bool" where
  "is_input (Input ps) = True"
| "is_input _ = False"

definition last_input :: "string \<Rightarrow> message list \<Rightarrow> message option" where
  "last_input source ms =
     (let xs = filter (\<lambda>m. m_source m = source \<and> is_input (m_body m)) ms in if xs = [] then None else Some (last xs))"

definition last_control :: "string \<Rightarrow> message list \<Rightarrow> action option" where
  "last_control source ms =
     (let xs = filter (\<lambda>m. m_source m = source \<and> is_control (m_body m)) ms in
      if xs = [] then None else case m_body (last xs) of Control a t r \<Rightarrow> Some a | _ \<Rightarrow> None)"

text \<open>What \<open>resume\<close> checks of the current log before it records the intent.\<close>

definition check_resume :: "conversation \<Rightarrow> message \<Rightarrow> string \<Rightarrow> conv_state \<Rightarrow> unit res \<Rightarrow> message list \<Rightarrow> unit res" where
  "check_resume C target input_id st open_gate ms =
     (if map_option m_id (last_input (cn_source C) ms) \<noteq> Some input_id then Inl MessageConflict
      else if list_ex (\<lambda>m. m_seq target < m_seq m \<and> m_source m = cn_source C \<and> (case m_body m of
                   Output ps f \<Rightarrow> f \<noteq> Continue
                 | Control a t r \<Rightarrow> a = Abandon \<and> m_seq target \<le> t
                 | _ \<Rightarrow> False)) ms then Inl MessageConflict
      else if last_control (cn_source C) ms \<notin> {Some Failure, Some Pause} then Inl MessageConflict
      else if task_active st then Inl MessageConflict
      else open_gate)"

text \<open>The input to resume, and the message already accepted under the new identity.\<close>

definition resume_target :: "conversation \<Rightarrow> string \<Rightarrow> string \<Rightarrow> message_log \<Rightarrow> (message \<times> message option) res" where
  "resume_target C mid input_id s =
     bindR (get_message s (cn_session C) input_id) (\<lambda>target. case target of
       None \<Rightarrow> Inl MessageConflict
     | Some m \<Rightarrow> if m_source m \<noteq> cn_source C \<or> \<not> is_input (m_body m) then Inl MessageConflict
                 else bindR (get_message s (cn_session C) mid) (\<lambda>old. Inr (m, old)))"

definition conv_resume ::
  "conversation \<Rightarrow> int \<Rightarrow> unit res \<Rightarrow> (message \<Rightarrow> unit res) \<Rightarrow> string \<Rightarrow> string \<Rightarrow> conv_state \<Rightarrow> message res \<times> conv_state" where
  "conv_resume C now open_gate changed mid input_id st =
     (let s = cv_log st; sid = cn_session C in
      case resume_target C mid input_id s of
        Inl e \<Rightarrow> (Inl e, st)
      | Inr (target, Some old) \<Rightarrow>
          (case m_body old of
             Control Resume through reason \<Rightarrow>
               (case snapshot s sid (- 1) (Some through) of
                  Inl e \<Rightarrow> (Inl e, st)
                | Inr prefix \<Rightarrow>
                    if map_option m_id (last_input (cn_source C) prefix) \<noteq> Some input_id then (Inl MessageConflict, st)
                    else append_changed now (\<lambda>m. Inr ()) (cn_controls C) mid (m_body old) None st)
           | _ \<Rightarrow> (Inl MessageConflict, st))
      | Inr (target, None) \<Rightarrow>
          (case snapshot s sid (- 1) None of
             Inl e \<Rightarrow> (Inl e, st)
           | Inr ms \<Rightarrow>
               (case check_resume C target input_id st open_gate ms of
                  Inl e \<Rightarrow> (Inl e, st)
                | Inr u \<Rightarrow>
                    (let head = m_seq (last (filter (\<lambda>m. m_source m = cn_source C) ms)) in
                     append_changed now changed (cn_controls C) mid (Control Resume head None) (Some head) st))))"

section \<open>The reply task\<close>

text \<open>The two admissions of \<open>start\<close>; between them the caller waits for a revoked task to end.\<close>

definition start_lookup :: "conv_state \<Rightarrow> conv_task option" where
  "start_lookup st = cv_task st"

definition start_task :: "conversation \<Rightarrow> bool \<Rightarrow> string \<Rightarrow> conv_state \<Rightarrow> string option res \<times> conv_state" where
  "start_task C accepting new_handle st =
     (case cv_task st of
        Some t \<Rightarrow> (Inr (Some (ct_handle t)), st)
      | None \<Rightarrow>
          (case needs_reply (cv_log st) (cn_session C) (cn_source C) of
             Inl e \<Rightarrow> (Inl e, st)
           | Inr False \<Rightarrow> (Inr None, st)
           | Inr True \<Rightarrow>
               if \<not> accepting then (Inr None, st)
               else (Inr (Some new_handle), st\<lparr>cv_task := Some \<lparr>ct_handle = new_handle, ct_active = True\<rparr>\<rparr>)))"

text \<open>The program raised: only a task that still holds the slot and is active records the failure.\<close>

definition task_failed ::
  "conversation \<Rightarrow> int \<Rightarrow> (message \<Rightarrow> unit res) \<Rightarrow> string \<Rightarrow> string \<Rightarrow> string \<Rightarrow> conv_state \<Rightarrow> unit res \<times> conv_state" where
  "task_failed C now changed new_id handle text st =
     (if cv_task st = Some \<lparr>ct_handle = handle, ct_active = True\<rparr> then
        let head = head_of (cv_log st) (cn_session C) (Some (cn_source C)) in
        if head < 0 then (Inl ValueError, st)
        else case append_changed now changed (cn_controls C) new_id (Control Failure head (Some text)) (Some head) st of
            (Inl e, st') \<Rightarrow> (Inl e, st')
          | (Inr m, st') \<Rightarrow> (Inr (), st')
      else (Inr (), st))"

definition task_done :: "string \<Rightarrow> conv_state \<Rightarrow> conv_state" where
  "task_done handle st = (if map_option ct_handle (cv_task st) = Some handle then st\<lparr>cv_task := None\<rparr> else st)"


text \<open>The admission of \<open>complete\<close>: work beside the replies runs only when no reply is needed.\<close>

definition complete_admit :: "conversation \<Rightarrow> string \<Rightarrow> conv_state \<Rightarrow> (string option \<times> bool) res \<times> conv_state" where
  "complete_admit C new_handle st =
     (case cv_task st of
        Some t \<Rightarrow> (Inr (Some (ct_handle t), False), st)
      | None \<Rightarrow>
          (case needs_reply (cv_log st) (cn_session C) (cn_source C) of
             Inl e \<Rightarrow> (Inl e, st)
           | Inr True \<Rightarrow> (Inr (None, False), st)
           | Inr False \<Rightarrow>
               (Inr (Some new_handle, True), st\<lparr>cv_task := Some \<lparr>ct_handle = new_handle, ct_active = True\<rparr>\<rparr>)))"

text \<open>\<open>conversation/program.py\<close>: the check before an external effect of a reply program.\<close>

definition check_source :: "conversation \<Rightarrow> int \<Rightarrow> conv_state \<Rightarrow> unit res" where
  "check_source C through st =
     (if \<not> task_active st then Inl CancelledError
      else bindR (snapshot (cv_log st) (cn_session C) through None) (\<lambda>ms.
        if list_ex (\<lambda>m. m_source m = cn_source C \<and> (is_input (m_body m) \<or> is_control (m_body m))) ms
        then Inl CancelledError else Inr ()))"

section \<open>What an append adds\<close>

lemma get_message_find:
  assumes wf: "wf_log s" and new: "get_message s sid mid = Inr None" and find: "find_message s mid = Some r"
  shows "r_session r \<noteq> sid"
proof
  assume "r_session r = sid"
  moreover have "r \<in> set (messages s)" "r_id r = mid" using find find_message_mem by auto
  ultimately have "find (\<lambda>r. r_id r = mid \<and> r_session r = sid) (messages s) \<noteq> None" by (auto simp: find_None_iff')
  then show False using new by (auto simp: get_message_def res_simps split: option.splits)
qed

lemma append_adds:
  assumes a: "writer_append now w mid b h md s = (r, t)" and wf: "wf_log s" "wf_body b" "pred_option wf_pyval md" "wf_writer w"
  shows "wf_log t \<and> (r = Inl e \<longrightarrow> t = s)
    \<and> (session_history t sid = session_history s sid
       \<or> (\<exists>m. r = Inr m \<and> find_message s mid = None \<and> w_session w = sid \<and> w_active w
            \<and> session_history t sid = session_history s sid @ [stored_message m] \<and> m_source m = w_source w \<and> m_body m = b
            \<and> m_seq m = next_seq s sid \<and> (\<forall>x. h = Some x \<longrightarrow> x = source_head s sid (w_source w))))
    \<and> (\<forall>m. r = Inr m \<longrightarrow> find_message s mid = None \<longrightarrow> session_history t (w_session w) = session_history s (w_session w) @ [stored_message m])"
proof (cases r)
  case (Inl e')
  then have "t = s" using a by (auto simp: writer_append_def write_tx_def split: if_splits sum.splits)
  then show ?thesis using wf Inl by auto
next
  case (Inr m)
  then have ap: "writer_append now w mid b h md s = (Inr m, t)" using a by simp
  have wft: "wf_log t" by (rule writer_append_wf[OF ap wf(1,2,3,4)])
  obtain u where u: "append_message now w mid b h md (s\<lparr>in_tx := True\<rparr>) = Inr (m, u)" "t = u\<lparr>in_tx := False\<rparr>" "\<not> in_tx s"
    using written[OF ap] by blast
  show ?thesis
  proof (cases "find_message s mid")
    case (Some row)
    then have "u = s\<lparr>in_tx := True\<rparr>" using append_known[OF u(1)] by simp
    then show ?thesis using u wft Some Inr by simp
  next
    case None
    have tx: "wf_log (s\<lparr>in_tx := True\<rparr>)" using wf(1) by (simp add: wf_log_in_tx)
    have n: "find_message (s\<lparr>in_tx := True\<rparr>) mid = None" using None by simp
    have hist: "session_history u (w_session w) = session_history s (w_session w) @ [stored_message m]"
      "\<forall>sid. sid \<noteq> w_session w \<longrightarrow> session_history u sid = session_history s sid" "m_seq m = next_seq s (w_session w)"
      using append_history[OF u(1) n tx wf(2,3,4)] by auto
    have com: "committed now w mid b h md (s\<lparr>in_tx := True\<rparr>) m u" by (rule append_known_committed[OF u(1) n])
    then have "w_active w" "h = None \<or> h = Some (source_head s (w_session w) (w_source w))" by (auto simp: committed_def)
    moreover have "m_source m = w_source w" "m_body m = b"
      using com by (auto simp: committed_def commit_message_def res_simps mk_Message_iff Let_def)
    ultimately show ?thesis using hist u None Inr wft by (cases "sid = w_session w") auto
  qed
qed

section \<open>Waking\<close>

abbreviation wake_of :: "string \<Rightarrow> message list \<Rightarrow> wake" where
  "wake_of source ms \<equiv> fold (wake_step source) ms wake_start"

lemma wake_body:
  assumes "m_source m = source"
  shows "m_body m = Input ps \<Longrightarrow> wake_step source m k = k\<lparr>wk_latest := m_seq m\<rparr>"
    and "m_body m = Output ps f \<Longrightarrow> wake_step source m k = (if f = Continue then k else k\<lparr>wk_boundary := m_seq m\<rparr>)"
    and "m_body m = ToolResult l r oc ps \<Longrightarrow> wake_step source m k = k"
    and "m_body m = Control Abandon t x \<Longrightarrow> wake_step source m k = k\<lparr>wk_boundary := max (wk_boundary k) t\<rparr>"
    and "m_body m = Control Pause t x \<Longrightarrow> wake_step source m k = k\<lparr>wk_paused := max (wk_paused k) t\<rparr>"
    and "m_body m = Control Failure t x \<Longrightarrow> wake_step source m k = k\<lparr>wk_paused := max (wk_paused k) t\<rparr>"
    and "m_body m = Control Resume t x \<Longrightarrow> wake_step source m k = (if wk_paused k \<le> t then k\<lparr>wk_paused := - 1\<rparr> else k)"
  using assms by (simp_all add: wake_step_def)

lemma wake_other: "m_source m \<noteq> source \<Longrightarrow> wake_step source m k = k"
  by (simp add: wake_step_def)

lemma wake_step_cases:
  "wake_step source m k = k
   \<or> wake_step source m k = k\<lparr>wk_latest := m_seq m\<rparr> \<and> is_input (m_body m)
   \<or> wake_step source m k = k\<lparr>wk_boundary := m_seq m\<rparr>
   \<or> (\<exists>t. t \<in> {through. \<exists>a r. m_body m = Control a through r} \<and>
        (wake_step source m k = k\<lparr>wk_boundary := max (wk_boundary k) t\<rparr> \<or> wake_step source m k = k\<lparr>wk_paused := max (wk_paused k) t\<rparr>
         \<or> wake_step source m k = k\<lparr>wk_paused := - 1\<rparr>))"
proof (cases "m_source m = source")
  case True
  show ?thesis
  proof (cases "m_body m")
    case (Control a t r)
    then show ?thesis by (cases a) (auto simp: wake_step_def)
  qed (auto simp: wake_step_def)
qed (simp add: wake_step_def)

lemma wake_below:
  assumes "\<forall>m \<in> set ms. wf_message m \<and> m_seq m < n" and "0 \<le> n"
  shows "wk_boundary (wake_of source ms) < n \<and> wk_paused (wake_of source ms) < n \<and> wk_latest (wake_of source ms) < n
    \<and> - 1 \<le> wk_boundary (wake_of source ms)"
  using assms
proof (induction ms rule: rev_induct)
  case Nil
  then show ?case by (simp add: wake_start_def)
next
  case (snoc m ms)
  have "t < m_seq m" if "m_body m = Control a t r" for a t r
    using snoc.prems(1) that by (auto simp: wf_message_def)
  moreover have "0 \<le> m_seq m" using snoc.prems(1) by (auto simp: wf_message_def)
  ultimately show ?case
    using snoc wake_step_cases[of source m "wake_of source ms"] by (auto simp: max_def)
qed

text \<open>From the latest input on, what came before it can no longer matter.\<close>

definition wake_alike :: "int \<Rightarrow> wake \<Rightarrow> wake \<Rightarrow> bool" where
  "wake_alike n k k' \<longleftrightarrow> wk_latest k = wk_latest k' \<and> n \<le> wk_latest k
     \<and> (wk_boundary k = wk_boundary k' \<or> wk_boundary k < n \<and> wk_boundary k' < n)
     \<and> (wk_paused k = wk_paused k' \<or> wk_paused k < n \<and> wk_paused k' < n)"

lemma wake_alike_step:
  assumes "wake_alike n k k'" and "n \<le> m_seq m" and "0 \<le> n"
  shows "wake_alike n (wake_step source m k) (wake_step source m k')"
proof (cases "m_source m = source")
  case True
  then show ?thesis
  proof (cases "m_body m")
    case (Control a t r)
    then show ?thesis using assms True by (cases a) (auto simp: wake_alike_def wake_body max_def)
  qed (use assms True in \<open>auto simp: wake_alike_def wake_body\<close>)
qed (simp add: wake_other assms)

lemma wake_alike_fold:
  assumes "wake_alike n k k'" and "\<forall>m \<in> set ms. n \<le> m_seq m" and "0 \<le> n"
  shows "wake_alike n (fold (wake_step source) ms k) (fold (wake_step source) ms k')"
  using assms by (induction ms arbitrary: k k') (auto intro: wake_alike_step)

lemma wake_tail:
  assumes sorted: "sorted_wrt (\<lambda>a b. m_seq a < m_seq b) (pre @ l # post)" and wf: "\<forall>m \<in> set (pre @ l # post). wf_message m"
    and l: "m_source l = source" "is_input (m_body l)"
  shows "needs_reply_to (l # post) source = needs_reply_to (pre @ l # post) source"
proof -
  obtain ps where ps: "m_body l = Input ps" using l(2) by (cases "m_body l") auto
  have n: "0 \<le> m_seq l" using wf by (auto simp: wf_message_def)
  have "wk_boundary (wake_of source pre) < m_seq l \<and> wk_paused (wake_of source pre) < m_seq l"
    using wake_below[of pre "m_seq l" source] sorted wf n by (auto simp: sorted_wrt_append)
  moreover have tail: "\<forall>m \<in> set post. m_seq l \<le> m_seq m" using sorted by (auto simp: sorted_wrt_append)
  ultimately have "wake_alike (m_seq l) (wake_step source l wake_start) (wake_step source l (wake_of source pre))"
    using n by (simp add: wake_alike_def wake_body(1)[OF l(1) ps] wake_start_def)
  then have "wake_alike (m_seq l) (wake_of source (l # post)) (wake_of source (pre @ l # post))"
    using wake_alike_fold[of "m_seq l" _ _ post] n tail by simp
  then show ?thesis by (auto simp: needs_reply_to_def Let_def wake_alike_def)
qed

lemma wake_latest_keep:
  assumes "\<forall>m \<in> set ms. \<not> (m_source m = source \<and> is_input (m_body m))"
  shows "wk_latest (fold (wake_step source) ms k) = wk_latest k"
  using assms
proof (induction ms arbitrary: k)
  case (Cons m ms)
  have "wk_latest (wake_step source m k) = wk_latest k"
    using Cons.prems wake_step_cases[of source m k] wake_other[of m source k] by (cases "m_source m = source") auto
  then show ?case using Cons by simp
qed simp

lemma wake_latest:
  assumes "\<forall>m \<in> set post. \<not> (m_source m = source \<and> is_input (m_body m))" and "m_source l = source" "is_input (m_body l)"
  shows "wk_latest (wake_of source (pre @ l # post)) = m_seq l"
  using assms by (cases "m_body l") (simp_all add: wake_latest_keep wake_body(1))

lemma wake_no_input:
  assumes "last_input source ms = None" and "\<forall>m \<in> set ms. wf_message m"
  shows "\<not> needs_reply_to ms source"
proof -
  have "\<forall>m \<in> set ms. \<not> (m_source m = source \<and> is_input (m_body m))"
    using assms(1) by (auto simp: last_input_def Let_def filter_empty_conv split: if_splits)
  note wake_latest_keep[OF this]
  moreover have "- 1 \<le> wk_boundary (wake_of source ms)"
    using assms(2)
  proof (induction ms rule: rev_induct)
    case (snoc m ms)
    then show ?case using wake_step_cases[of source m "wake_of source ms"] by (auto simp: wf_message_def)
  qed (simp add: wake_start_def)
  ultimately show ?thesis by (simp add: needs_reply_to_def Let_def wake_start_def)
qed

lemma last_input_split:
  assumes "last_input source ms = Some l"
  shows "\<exists>pre post. ms = pre @ l # post \<and> m_source l = source \<and> is_input (m_body l)
    \<and> (\<forall>m \<in> set post. \<not> (m_source m = source \<and> is_input (m_body m)))"
  using assms
proof (induction ms rule: rev_induct)
  case (snoc m ms)
  show ?case
  proof (cases "m_source m = source \<and> is_input (m_body m)")
    case True
    then have "l = m" using snoc.prems by (simp add: last_input_def)
    then show ?thesis using True by force
  next
    case False
    then have "last_input source ms = Some l" using snoc.prems by (auto simp: last_input_def Let_def split: if_splits)
    then obtain pre post where "ms = pre @ l # post" "m_source l = source" "is_input (m_body l)"
      "\<forall>m \<in> set post. \<not> (m_source m = source \<and> is_input (m_body m))" using snoc.IH by blast
    then show ?thesis using False by (intro exI[of _ pre] exI[of _ "post @ [m]"]) auto
  qed
qed (simp add: last_input_def)

text \<open>The boundary is the closed part of the turn projection.\<close>

lemma wake_closed:
  assumes "prefix_ok ms"
  shows "wk_boundary (wake_of source ms) = closed_through ms source"
  using assms
proof (induction ms rule: rev_induct)
  case Nil
  then show ?case by (simp add: wake_start_def closed_through_def from_source_def)
next
  case (snoc m ms)
  have lt: "closed_through ms source < m_seq m" by (rule closed_through_bound[OF snoc.prems])
  have IH: "wk_boundary (wake_of source ms) = closed_through ms source" using snoc.IH prefix_ok_butlast[OF snoc.prems] .
  show ?case
  proof (cases "m_source m = source")
    case True
    then show ?thesis
    proof (cases "m_body m")
      case (Control a t r)
      then show ?thesis using True IH by (cases a) (simp_all add: closed_through_snoc wake_body closings.simps max.commute)
    qed (use True IH lt in \<open>simp_all add: closed_through_snoc wake_body closings.simps max_def\<close>)
  qed (simp add: closed_through_snoc wake_other IH)
qed

section \<open>The reader's question\<close>

lemma row_is_input:
  assumes "wf_log s" and "r \<in> set (messages s)"
  shows "json_get ''kind'' (r_body r) = JStr ''input'' \<longleftrightarrow> is_input (m_body (projr (message_of s r)))"
proof -
  let ?m = "projr (message_of s r)"
  have "Inr (r_body r) = encode_body (m_body ?m) True"
    using assms by (auto simp: wf_log_def wf_messages_def row_ok_def)
  then show ?thesis
  proof (cases "m_body ?m")
    case (ToolResult l ref oc ps)
    then show ?thesis using \<open>Inr (r_body r) = _\<close>
      by (cases l) (auto simp: encode_body_docs sorted_body_docs json_get_def field_def)
  qed (auto simp: encode_body_docs sorted_body_docs json_get_def field_def)
qed

lemma latest_input_history:
  assumes wf: "wf_log s"
  shows "latest_input s sid source (head_of s sid None) = Inr (last_input source (session_history s sid))"
proof -
  let ?P = "\<lambda>r. r_source r = source \<and> json_get ''kind'' (r_body r) = JStr ''input''"
  let ?rows = "filter ?P (session_rows s sid)"
  have sub: "set (session_rows s sid) \<subseteq> set (messages s)" by (auto simp: session_rows_def)
  have "filter (\<lambda>r. r_session r = sid \<and> r_source r = source \<and> r_seq r \<le> head_of s sid None
      \<and> json_get ''kind'' (r_body r) = JStr ''input'') (messages s) = ?rows"
    by (auto simp: session_rows_def head_of_def intro!: filter_cong max_default_ge(2))
  moreover have "sort_key r_seq ?rows = ?rows"
    by (rule ascending_sorted) (rule ascending_filter, rule session_rows_ascending[OF wf])
  ultimately have sorted: "sort_key r_seq (filter (\<lambda>r. r_session r = sid \<and> r_source r = source \<and> r_seq r \<le> head_of s sid None
      \<and> json_get ''kind'' (r_body r) = JStr ''input'') (messages s)) = ?rows" by simp
  have hist: "filter (\<lambda>m. m_source m = source \<and> is_input (m_body m)) (session_history s sid) = map (\<lambda>r. projr (message_of s r)) ?rows"
    unfolding session_history_def filter_map comp_def using sub
    by (intro arg_cong[where f = "map _"] filter_cong) (auto simp: row_source[OF wf] row_is_input[OF wf])
  show ?thesis
  proof (cases "?rows" rule: rev_cases)
    case Nil
    then show ?thesis using hist unfolding latest_input_def sorted by (simp add: last_input_def)
  next
    case (snoc rs r)
    then have "r \<in> set ?rows" by (metis in_set_conv_decomp)
    then have "message_of s r = Inr (projr (message_of s r))" using row_message[OF wf] sub by auto
    then show ?thesis using hist snoc unfolding latest_input_def sorted by (simp add: last_input_def res_simps)
  qed
qed

lemma needs_reply_history:
  assumes wf: "wf_log s"
  shows "needs_reply s sid source = Inr (needs_reply_to (session_history s sid) source)"
proof (cases "last_input source (session_history s sid)")
  case None
  then show ?thesis
    using wake_no_input[OF None] history_nonneg[OF wf] by (simp add: needs_reply_def latest_input_history[OF wf] Let_def)
next
  case (Some l)
  obtain pre post where split: "session_history s sid = pre @ l # post" and l: "m_source l = source" "is_input (m_body l)"
    using last_input_split[OF Some] by blast
  have sorted: "sorted_wrt (\<lambda>a b. m_seq a < m_seq b) (pre @ l # post)"
    using session_history_ascending[OF wf, of sid] unfolding split by (simp add: sorted_wrt_map)
  have wfm: "\<forall>m \<in> set (pre @ l # post). wf_message m \<and> m_seq m \<le> head_of s sid None"
    using history_nonneg[OF wf, of _ sid] history_le_head[OF wf, of _ sid] unfolding split by blast
  have "0 \<le> m_seq l" using wfm by (auto simp: wf_message_def)
  moreover have "filter (\<lambda>m. m_seq l < m_seq m \<and> m_seq m \<le> head_of s sid None) (session_history s sid) = post"
    unfolding split using sorted wfm by (auto simp: sorted_wrt_append filter_id_conv filter_empty_conv)
  ultimately have "snapshot s sid (m_seq l) (Some (head_of s sid None)) = Inr post" by (simp add: snapshot_history[OF wf])
  then show ?thesis
    using Some wake_tail[OF sorted _ l] wfm by (simp add: needs_reply_def latest_input_history[OF wf] Let_def split)
qed

end
