(* ===== verification/Conversation_Properties.thy ===== *)
theory Conversation_Properties
  imports Conversation
begin

text \<open>
  The conversation over time: its methods interleave with the appends of reply tasks, tools and other
  sources. The history of the source always projects to turns, and a reply is never committed after
  an input the reply's task has not been started for.
\<close>

section \<open>Steps of a source\<close>

definition wf_conversation :: "conversation \<Rightarrow> bool" where
  "wf_conversation C \<longleftrightarrow> w_session (cn_inputs C) = cn_session C \<and> w_source (cn_inputs C) = cn_source C
     \<and> w_session (cn_controls C) = cn_session C \<and> w_source (cn_controls C) = cn_source C
     \<and> wf_writer (cn_inputs C) \<and> wf_writer (cn_controls C)"

abbreviation history_of :: "conversation \<Rightarrow> conv_state \<Rightarrow> message list" where
  "history_of C st \<equiv> session_history (cv_log st) (cn_session C)"

text \<open>A reply task appends with a writer of outputs that is active only while the task is.\<close>

definition reply_writer :: "conversation \<Rightarrow> conv_state \<Rightarrow> writer \<Rightarrow> bool" where
  "reply_writer C st w \<longleftrightarrow> wf_writer w \<and> w_session w = cn_session C \<and> w_source w = cn_source C
     \<and> w_types w = [OutputType] \<and> (w_active w \<longrightarrow> task_active st)"

text \<open>Everything else that happens to the log: tool results, other sources, other sessions.\<close>

definition foreign :: "conversation \<Rightarrow> message_log \<Rightarrow> message_log \<Rightarrow> bool" where
  "foreign C s t \<longleftrightarrow> log_step s t
     \<and> (\<forall>new. session_history t (cn_session C) = session_history s (cn_session C) @ new \<longrightarrow>
          length new \<le> 1 \<and> (\<forall>m \<in> set new. m_source m = cn_source C \<longrightarrow> \<not> is_talk (m_body m) \<and> \<not> is_control (m_body m)))"

text \<open>The second component is the head of the source when the task in the slot was started.\<close>

inductive conv_step :: "conversation \<Rightarrow> (message \<Rightarrow> unit res) set \<Rightarrow> conv_state \<times> int \<Rightarrow> conv_state \<times> int \<Rightarrow> bool"
  for C L where
  Accept: "changed \<in> L \<Longrightarrow> is_input b \<Longrightarrow> wf_body b \<Longrightarrow> conv_accept C now g changed mid b st = (r, st') \<Longrightarrow>
    conv_step C L (st, h) (st', h)"
| Control: "changed \<in> L \<Longrightarrow> 0 \<le> through \<Longrightarrow> conv_control C now changed mid a through reason head handle st = (r', st') \<Longrightarrow>
    conv_step C L (st, h) (st', h)"
| Pause: "changed \<in> L \<Longrightarrow> conv_pause C now changed mid st = (r', st') \<Longrightarrow> conv_step C L (st, h) (st', h)"
| Resume: "changed \<in> L \<Longrightarrow> conv_resume C now g changed mid i st = (r, st') \<Longrightarrow> conv_step C L (st, h) (st', h)"
| Start: "start_task C acc nh st = (p, st') \<Longrightarrow>
    conv_step C L (st, h) (st', if cv_task st = None then head_of (cv_log st) (cn_session C) (Some (cn_source C)) else h)"
| Complete: "complete_admit C nh st = (q, st') \<Longrightarrow>
    conv_step C L (st, h) (st', if cv_task st = None then head_of (cv_log st) (cn_session C) (Some (cn_source C)) else h)"
| Failed: "changed \<in> L \<Longrightarrow> task_failed C now changed i hn text st = (u, st') \<Longrightarrow> conv_step C L (st, h) (st', h)"
| Done: "conv_step C L (st, h) (task_done hn st, h)"
| Cancel: "conv_step C L (st, h) (cancel_task st, h)"
| Reply: "reply_writer C st w \<Longrightarrow> wf_body b \<Longrightarrow> pred_option wf_pyval md \<Longrightarrow> writer_append now w mid b eh md (cv_log st) = (r, s) \<Longrightarrow>
    conv_step C L (st, h) (st\<lparr>cv_log := s\<rparr>, h)"
| Other: "foreign C (cv_log st) s \<Longrightarrow> conv_step C L (st, h) (st\<lparr>cv_log := s\<rparr>, h)"

definition conv_start :: "conv_state \<times> int" where
  "conv_start = (\<lparr>cv_log = empty_log, cv_task = None\<rparr>, - 1)"

section \<open>The effect of a step\<close>

text \<open>Inputs, pauses and abandons end the work of the running reply.\<close>

fun interrupts :: "body \<Rightarrow> bool" where
  "interrupts (Input ps) = True"
| "interrupts (Control a t r) = (a = Pause \<or> a = Abandon)"
| "interrupts _ = False"

text \<open>A stored message for which a listener may raise. The methods call the listener between the append and the
  revocation, so only for such a message the task can survive.\<close>

definition unheard :: "(message \<Rightarrow> unit res) set \<Rightarrow> message \<Rightarrow> bool" where
  "unheard L m \<longleftrightarrow> (\<exists>c \<in> L. \<exists>x e. c x = Inl e \<and> m = stored_message x)"

definition effect :: "conversation \<Rightarrow> (message \<Rightarrow> bool) \<Rightarrow> conv_state \<Rightarrow> conv_state \<Rightarrow> bool" where
  "effect C q st st' \<longleftrightarrow> wf_log (cv_log st') \<and> (cv_task st' = cv_task st \<or> \<not> task_active st')
     \<and> (history_of C st' = history_of C st
        \<or> (\<exists>m. history_of C st' = history_of C st @ [m]
             \<and> (m_source m = cn_source C \<longrightarrow>
                 (\<forall>t r. m_body m = Control Abandon t r \<longrightarrow> closed_through (history_of C st) (cn_source C) < t)
                 \<and> (interrupts (m_body m) \<longrightarrow> \<not> task_active st' \<or> q m))))"

lemma effect_refl: "wf_log (cv_log st) \<Longrightarrow> effect C q st st"
  by (simp add: effect_def)

lemma stored_fields [simp]: "m_source (stored_message m) = m_source m" "m_id (stored_message m) = m_id m"
  "m_seq (stored_message m) = m_seq m" "m_body (stored_message m) = sorted_body (m_body m)"
  by (simp_all add: stored_message_def)

lemma sorted_shape [simp]: "interrupts (sorted_body b) = interrupts b" "is_input (sorted_body b) = is_input b"
  "is_control (sorted_body b) = is_control b" "sorted_body b = Control a t r \<longleftrightarrow> b = Control a t r"
  by (cases b; simp)+

lemma get_message_known: "get_message s sid mid = Inr (Some m) \<Longrightarrow> find_message s mid \<noteq> None"
  by (auto simp: get_message_def find_message_def find_None_iff' res_simps dest!: find_Some_iff' split: option.splits)

lemma task_active_cancel [simp]: "\<not> task_active (cancel_task st)" "cv_log (cancel_task st) = cv_log st"
  by (auto simp: task_active_def cancel_task_def split: option.split)

text \<open>A replayed append changes nothing; a new one adds the stored message.\<close>

lemma append_known_written:
  assumes "writer_append now w mid b h md s = (Inr m, t)" and "find_message s mid \<noteq> None"
  shows "t = s"
proof -
  obtain u where u: "append_message now w mid b h md (s\<lparr>in_tx := True\<rparr>) = Inr (m, u)" "t = u\<lparr>in_tx := False\<rparr>" "\<not> in_tx s"
    using written[OF assms(1)] by blast
  obtain row where "find_message (s\<lparr>in_tx := True\<rparr>) mid = Some row" using assms(2) by auto
  then have "u = s\<lparr>in_tx := True\<rparr>" using append_known[OF u(1)] by simp
  then show ?thesis using u by simp
qed

lemma append_changed_known:
  assumes "append_changed now c w mid b h st = (r, st')" and "wf_log (cv_log st)" "wf_body b" "wf_writer w"
    and "find_message (cv_log st) mid \<noteq> None"
  shows "st' = st"
proof -
  obtain x t where a: "writer_append now w mid b h None (cv_log st) = (x, t)" by fastforce
  have "t = cv_log st"
  proof (cases x)
    case (Inl e)
    then show ?thesis using append_adds[OF a assms(2,3) _ assms(4)] by simp
  next
    case (Inr m)
    then show ?thesis using append_known_written a assms(5) by simp
  qed
  then show ?thesis using assms(1) a by (auto simp: append_changed_def split: sum.splits)
qed


lemma append_changed_adds:
  assumes a: "append_changed now c w mid b h st = (r, st')" and wf: "wf_log (cv_log st)" "wf_body b" "wf_writer w" "w_session w = cn_session C"
  shows "wf_log (cv_log st') \<and> cv_task st' = cv_task st
    \<and> (history_of C st' = history_of C st
       \<or> (\<exists>m. history_of C st' = history_of C st @ [stored_message m] \<and> m_source m = w_source w \<and> m_body m = b
            \<and> m_seq m = next_seq (cv_log st) (cn_session C)))"
proof -
  obtain x t where w: "writer_append now w mid b h None (cv_log st) = (x, t)" by fastforce
  have "cv_log st' = t" "cv_task st' = cv_task st" using a w by (auto simp: append_changed_def split: sum.splits)
  moreover have "pred_option wf_pyval None" by simp
  ultimately show ?thesis using append_adds[OF w wf(1,2) _ wf(3), of undefined "cn_session C"] by simp blast
qed

text \<open>Shape of the effect of one append of the source.\<close>

lemma append_effect:
  assumes a: "append_changed now c w mid b h st = (r, st')" and wf: "wf_log (cv_log st)" "wf_body b" "wf_writer w" "w_session w = cn_session C"
    and ab: "\<And>t x. b = Control Abandon t x \<Longrightarrow> closed_through (history_of C st) (cn_source C) < t"
    and st: "cv_log st2 = cv_log st'" "cv_task st2 = cv_task st \<or> \<not> task_active st2"
    and i: "\<And>m. interrupts b \<Longrightarrow> history_of C st' = history_of C st @ [stored_message m] \<Longrightarrow> \<not> task_active st2 \<or> q (stored_message m)"
  shows "effect C q st st2"
  using append_changed_adds[OF a wf] ab st i unfolding effect_def by (auto simp: st(1))

lemma raised:
  assumes "append_changed now c w mid b h st = (Inl e, st')" and "history_of C st' = history_of C st @ [stored_message m]"
    and "\<forall>x e. c x = Inl e \<longrightarrow> q (stored_message x)" and "wf_log (cv_log st)" "wf_body b" "wf_writer w" "w_session w = cn_session C"
  shows "q (stored_message m)"
proof -
  obtain x t where w: "writer_append now w mid b h None (cv_log st) = (x, t)" by fastforce
  note adds = append_adds[OF w assms(4,5) _ assms(6), of undefined "cn_session C"]
  show ?thesis
  proof (cases x)
    case (Inl e')
    then have "t = cv_log st" using append_adds[OF w assms(4,5) _ assms(6), of e' "cn_session C"] by simp
    then have "cv_log st' = cv_log st" using assms(1) w Inl by (simp add: append_changed_def)
    then show ?thesis using assms(2) by simp
  next
    case (Inr y)
    then have "c y = Inl e" "cv_log st' = t" using assms(1) w by (cases "c y"; auto simp: append_changed_def)+
    moreover from this have "session_history t (cn_session C) = history_of C st @ [stored_message y]"
      using adds Inr assms(2) by auto
    ultimately have "stored_message y = stored_message m" using assms(2) by simp
    then show ?thesis using assms(3) \<open>c y = Inl e\<close> by metis
  qed
qed

lemma accept_effect:
  assumes C: "wf_conversation C" and wf: "wf_log (cv_log st)" "wf_body b" and b: "is_input b" and q: "\<forall>x e. c x = Inl e \<longrightarrow> q (stored_message x)"
    and a: "conv_accept C now g c mid b st = (r, st')"
  shows "effect C q st st'"
proof -
  have w: "wf_writer (cn_inputs C)" "w_session (cn_inputs C) = cn_session C" using C by (auto simp: wf_conversation_def)
  have nab: "b \<noteq> Control Abandon t x" for t x using b by auto
  show ?thesis
  proof (cases "get_message (cv_log st) (cn_session C) mid")
    case (Inl e)
    then show ?thesis using a wf by (simp add: conv_accept_def effect_refl)
  next
    case (Inr old)
    show ?thesis
    proof (cases old)
      case (Some m)
      have "st' = st"
        using a Inr Some append_changed_known[OF _ wf w(1) get_message_known] by (simp add: conv_accept_def)
      then show ?thesis using wf by (simp add: effect_refl)
    next
      case None
      show ?thesis
      proof (cases g)
        case (Inl e)
        then show ?thesis using a wf Inr None by (simp add: conv_accept_def effect_refl)
      next
        case (Inr u)
        obtain x s1 where x: "append_changed now c (cn_inputs C) mid b None st = (x, s1)" by fastforce
        have st': "st' = (case x of Inl e \<Rightarrow> s1 | Inr m \<Rightarrow> cancel_task s1)"
          using a x Inr None \<open>get_message _ _ _ = Inr old\<close> by (cases x) (auto simp: conv_accept_def)
        show ?thesis
        proof (rule append_effect[OF x wf w(1,2)])
          show "closed_through (history_of C st) (cn_source C) < t" if "b = Control Abandon t y" for t y using nab that by blast
          show "cv_log st' = cv_log s1" using st' by (auto split: sum.splits)
          show "cv_task st' = cv_task st \<or> \<not> task_active st'"
            using st' append_changed_adds[OF x wf w(1,2)] by (auto split: sum.splits)
          show "\<not> task_active st' \<or> q (stored_message m)" if "interrupts b" "history_of C s1 = history_of C st @ [stored_message m]" for m
          proof (cases x)
            case (Inl e)
            show ?thesis using raised[OF x[unfolded Inl] that(2) q wf w(1,2)] by blast
          qed (use st' in simp)
        qed
      qed
    qed
  qed
qed

lemma snapshot_all:
  assumes "wf_log s"
  shows "snapshot s sid (- 1) None = Inr (session_history s sid)"
  using snapshot_history[OF assms, of "- 1" sid None] history_nonneg[OF assms, of _ sid] history_le_head[OF assms, of _ sid]
  by (force simp: filter_id_conv)

lemma check_control_open:
  assumes "check_control C Abandon t s = Inr ()" and wf: "wf_log s"
  shows "closed_through (session_history s (cn_session C)) (cn_source C) < t"
proof -
  let ?H = "session_history s (cn_session C)"
  have "- 1 < t" and none: "\<forall>m \<in> set ?H. \<not> closes_at (cn_source C) t m"
    using assms(1) by (auto simp: check_control_def res_simps read_range_def snapshot_all[OF wf] list_ex_iff split: if_splits)
  moreover have "x < t" if "m \<in> set ?H" "m_source m = cn_source C" "x \<in> set (closings m)" for m x
    using none that by (cases "m_body m") (auto simp: closes_at_def closings.simps split: if_splits)
  ultimately show ?thesis
    unfolding closed_through_def by (intro max_default_less) (auto simp: from_source_def)
qed

lemma control_writer: "wf_conversation C \<Longrightarrow> wf_writer (cn_controls C) \<and> w_session (cn_controls C) = cn_session C"
  by (simp add: wf_conversation_def)

lemma control_effect:
  assumes C: "wf_conversation C" and wf: "wf_log (cv_log st)" "0 \<le> through" and q: "\<forall>x e. c x = Inl e \<longrightarrow> q (stored_message x)"
    and a: "conv_control C now c mid a through reason head handle st = (r, st')"
  shows "effect C q st st'"
proof -
  let ?b = "Control a through reason"
  have w: "wf_writer (cn_controls C)" "w_session (cn_controls C) = cn_session C" and b: "wf_body ?b"
    using control_writer[OF C] wf(2) by auto
  show ?thesis
  proof (cases "get_message (cv_log st) (cn_session C) mid")
    case (Inl e)
    then show ?thesis using a wf by (simp add: conv_control_def effect_refl)
  next
    case (Inr old)
    show ?thesis
    proof (cases old)
      case (Some m)
      obtain x s1 where x: "append_changed now (\<lambda>m. Inr ()) (cn_controls C) mid ?b None st = (x, s1)" by fastforce
      have "s1 = st" using append_changed_known[OF x wf(1) b w(1) get_message_known] Inr Some by simp
      then have "st' = st" using a Inr Some x by (cases x) (auto simp: conv_control_def)
      then show ?thesis using wf by (simp add: effect_refl)
    next
      case None
      show ?thesis
      proof (cases "bindR (check_control C a through (cv_log st)) (\<lambda>_. check_handle handle st)")
        case (Inl e)
        then show ?thesis using a wf None \<open>get_message _ _ _ = Inr old\<close> by (simp add: conv_control_def effect_refl)
      next
        case chk: (Inr u)
        obtain x s1 where x: "append_changed now c (cn_controls C) mid ?b (Some head) st = (x, s1)" by fastforce
        have st': "st' = (case x of Inl e \<Rightarrow> s1 | Inr m \<Rightarrow> if a \<noteq> Resume then cancel_task s1 else s1)"
          using a x chk None Inr by (cases x) (auto simp: conv_control_def)
        show ?thesis
        proof (rule append_effect[OF x wf(1) b w])
          show "closed_through (history_of C st) (cn_source C) < t" if "?b = Control Abandon t y" for t y
            using check_control_open[of C t "cv_log st"] chk that wf(1) by (auto simp: res_simps)
          show "cv_log st' = cv_log s1" using st' by (auto split: sum.splits)
          show "cv_task st' = cv_task st \<or> \<not> task_active st'"
            using st' append_changed_adds[OF x wf(1) b w] by (auto split: sum.splits if_splits)
          show "\<not> task_active st' \<or> q (stored_message m)" if "interrupts ?b" "history_of C s1 = history_of C st @ [stored_message m]" for m
          proof (cases x)
            case (Inl e)
            show ?thesis using raised[OF x[unfolded Inl] that(2) q wf(1) b w] by blast
          qed (use st' that in auto)
        qed
      qed
    qed
  qed
qed

lemma pause_effect:
  assumes C: "wf_conversation C" and wf: "wf_log (cv_log st)" and q: "\<forall>x e. c x = Inl e \<longrightarrow> q (stored_message x)"
    and a: "conv_pause C now c mid st = (r, st')"
  shows "effect C q st st'"
proof -
  have w: "wf_writer (cn_controls C)" "w_session (cn_controls C) = cn_session C" using control_writer[OF C] by auto
  show ?thesis
  proof (cases "get_message (cv_log st) (cn_session C) mid")
    case (Inl e)
    then show ?thesis using a wf by (simp add: conv_pause_def effect_refl)
  next
    case (Inr old)
    show ?thesis
    proof (cases old)
      case (Some m)
      have "st' = st"
      proof (cases "\<exists>t y. m_body m = Control Pause t y")
        case True
        have "m \<in> set (history_of C st)" using get_message_history[OF wf] Inr Some by auto
        then have "wf_message m" using history_nonneg[OF wf] by blast
        then have b: "wf_body (m_body m)"
          using get_message_body Inr Some by simp
        obtain x s1 where x: "append_changed now (\<lambda>m. Inr ()) (cn_controls C) mid (m_body m) None st = (x, s1)" by fastforce
        have "s1 = st" using append_changed_known[OF x wf b w(1) get_message_known] Inr Some by simp
        then show ?thesis using a Inr Some x True by (cases x) (auto simp: conv_pause_def)
      next
        case False
        then show ?thesis using a Inr Some by (auto simp: conv_pause_def split: body.splits action.splits)
      qed
      then show ?thesis using wf by (simp add: effect_refl)
    next
      case None
      let ?head = "head_of (cv_log st) (cn_session C) (Some (cn_source C))"
      let ?b = "Control Pause ?head None"
      show ?thesis
      proof (cases "?head < 0")
        case True
        then show ?thesis using a wf None Inr by (simp add: conv_pause_def effect_refl Let_def)
      next
        case False
        then have b: "wf_body ?b" by simp
        obtain x s1 where x: "append_changed now c (cn_controls C) mid ?b (Some ?head) st = (x, s1)" by fastforce
        have st': "st' = (case x of Inl e \<Rightarrow> s1 | Inr m \<Rightarrow> cancel_task s1)"
          using a x False None Inr by (cases x) (auto simp: conv_pause_def Let_def)
        show ?thesis
        proof (rule append_effect[OF x wf b w])
          show "cv_log st' = cv_log s1" using st' by (auto split: sum.splits)
          show "cv_task st' = cv_task st \<or> \<not> task_active st'"
            using st' append_changed_adds[OF x wf b w] by (auto split: sum.splits)
          show "\<not> task_active st' \<or> q (stored_message m)" if "interrupts ?b" "history_of C s1 = history_of C st @ [stored_message m]" for m
          proof (cases x)
            case (Inl e)
            show ?thesis using raised[OF x[unfolded Inl] that(2) q wf b w] by blast
          qed (use st' in auto)
        qed simp
      qed
    qed
  qed
qed

lemma history_ok: "wf_log s \<Longrightarrow> m \<in> set (session_history s sid) \<Longrightarrow> 0 \<le> m_seq m \<and> wf_message m"
  using history_nonneg by blast

text \<open>The append of a resume or a failure interrupts nothing.\<close>

lemma mild_effect:
  assumes x: "append_changed now c w mid b h st = (r, st')" and wf: "wf_log (cv_log st)" "wf_body b" "wf_writer w" "w_session w = cn_session C"
    and "\<not> interrupts b"
  shows "effect C q st st'"
proof (rule append_effect[OF x wf])
  show "closed_through (history_of C st) (cn_source C) < t" if "b = Control Abandon t y" for t y using that assms(6) by simp
qed (use append_changed_adds[OF x wf] assms(6) in auto)

lemma resume_effect:
  assumes C: "wf_conversation C" and wf: "wf_log (cv_log st)"
    and a: "conv_resume C now g c mid input_id st = (r, st')"
  shows "effect C q st st'"
proof -
  have w: "wf_writer (cn_controls C)" "w_session (cn_controls C) = cn_session C" using control_writer[OF C] by auto
  show ?thesis
  proof (cases "resume_target C mid input_id (cv_log st)")
    case (Inl e)
    then show ?thesis using a wf by (simp add: conv_resume_def Let_def effect_refl)
  next
    case (Inr p)
    obtain target old where p: "p = (target, old)" by (cases p)
    have old: "get_message (cv_log st) (cn_session C) mid = Inr old"
      using Inr p by (auto simp: resume_target_def res_simps split: option.splits if_splits)
    show ?thesis
    proof (cases old)
      case (Some m)
      show ?thesis
      proof (cases "st' = st")
        case False
        then have x: "append_changed now (\<lambda>m. Inr ()) (cn_controls C) mid (m_body m) None st = (r, st')"
          using a Inr p Some by (auto simp: conv_resume_def Let_def split: body.splits action.splits sum.splits if_splits)
        have "st' = st" using append_changed_known[OF x wf get_message_body w(1) get_message_known] old Some by simp
        then show ?thesis using False by simp
      qed (simp add: effect_refl wf)
    next
      case None
      show ?thesis
      proof (cases "st' = st")
        case False
        let ?ms = "history_of C st"
        let ?head = "m_seq (last (filter (\<lambda>m. m_source m = cn_source C) ?ms))"
        have x: "append_changed now c (cn_controls C) mid (Control Resume ?head None) (Some ?head) st = (r, st')"
          and ok: "check_resume C target input_id st g ?ms = Inr ()"
          using False a Inr p None by (auto simp: conv_resume_def Let_def snapshot_all[OF wf] split: sum.splits)
        have "filter (\<lambda>m. m_source m = cn_source C) ?ms \<noteq> []"
          using ok last_input_split[of "cn_source C" ?ms] by (auto simp: check_resume_def filter_empty_conv split: if_splits)
        then have "0 \<le> ?head" using last_in_set history_ok[OF wf] by fastforce
        then show ?thesis by (intro mild_effect[OF x wf _ w]) simp_all
      qed (simp add: effect_refl wf)
    qed
  qed
qed

lemma failed_effect:
  assumes C: "wf_conversation C" and wf: "wf_log (cv_log st)" and a: "task_failed C now c i hn text st = (r, st')"
  shows "effect C q st st'"
proof (cases "st' = st")
  case False
  have w: "wf_writer (cn_controls C)" "w_session (cn_controls C) = cn_session C" using control_writer[OF C] by auto
  let ?head = "head_of (cv_log st) (cn_session C) (Some (cn_source C))"
  obtain x s1 where x: "append_changed now c (cn_controls C) i (Control Failure ?head (Some text)) (Some ?head) st = (x, s1)" by fastforce
  then have "s1 = st'" "\<not> ?head < 0" using False a by (auto simp: task_failed_def Let_def split: if_splits sum.splits)
  then show ?thesis by (intro mild_effect[OF x[unfolded \<open>s1 = st'\<close>] wf _ w]) simp_all
qed (simp add: effect_refl wf)

lemma reply_effect:
  assumes wf: "wf_log (cv_log st)" "wf_body b" "pred_option wf_pyval md" and w: "reply_writer C st w"
    and a: "writer_append now w mid b eh md (cv_log st) = (r, s)"
  shows "effect C q st (st\<lparr>cv_log := s\<rparr>)"
proof -
  have ww: "wf_writer w" "w_session w = cn_session C" "w_types w = [OutputType]" using w by (auto simp: reply_writer_def)
  note adds = append_adds[OF a wf ww(1), of undefined "cn_session C"]
  have "type_of b = OutputType" if r: "r = Inr m" for m
  proof -
    obtain u where "append_message now w mid b eh md (cv_log st\<lparr>in_tx := True\<rparr>) = Inr (m, u)"
      using written[OF a[unfolded r]] by blast
    then have "check_grant w b = Inr ()" using append_cases by blast
    then show ?thesis using ww(3) by (auto simp: check_grant_def split: if_splits)
  qed
  then have body: "\<not> interrupts b \<and> (\<forall>t x. b \<noteq> Control Abandon t x)" if "r = Inr m" for m
    using that by (cases b) auto
  then show ?thesis using adds unfolding effect_def by auto
qed

lemma foreign_effect:
  assumes "wf_log (cv_log st)" and f: "foreign C (cv_log st) s"
  shows "effect C q st (st\<lparr>cv_log := s\<rparr>)"
proof -
  have wf: "wf_log s" using f assms(1) log_step_wf by (auto simp: foreign_def)
  obtain new where new: "session_history s (cn_session C) = history_of C st @ new"
    using extends_history log_step_extends f unfolding foreign_def by blast
  then have "length new \<le> 1" and plain: "\<forall>m \<in> set new. m_source m = cn_source C \<longrightarrow> \<not> is_talk (m_body m) \<and> \<not> is_control (m_body m)"
    using f by (auto simp: foreign_def)
  then consider "new = []" | m where "new = [m]" by (cases new) auto
  then show ?thesis
  proof cases
    case 2
    then have "\<not> interrupts (m_body m) \<and> (\<forall>t x. m_body m \<noteq> Control Abandon t x)" if "m_source m = cn_source C"
      using plain that by (cases "m_body m") auto
    then show ?thesis using wf new 2 by (auto simp: effect_def)
  qed (use wf new in \<open>simp add: effect_def\<close>)
qed

section \<open>The invariant of the source\<close>

definition conv_ok :: "conversation \<Rightarrow> (message \<Rightarrow> bool) \<Rightarrow> conv_state \<times> int \<Rightarrow> bool" where
  "conv_ok C q x \<longleftrightarrow> (case x of (st, h) \<Rightarrow>
     wf_log (cv_log st) \<and> abandons_open (cn_source C) (history_of C st)
     \<and> (task_active st \<longrightarrow>
          (\<forall>m \<in> set (history_of C st). m_source m = cn_source C \<longrightarrow> interrupts (m_body m) \<longrightarrow> m_seq m \<le> h \<or> q m)))"

lemma abandons_open_snoc:
  assumes "abandons_open source ms" and "m_source m = source \<longrightarrow> (\<forall>t r. m_body m = Control Abandon t r \<longrightarrow> closed_through ms source < t)"
  shows "abandons_open source (ms @ [m])"
  unfolding abandons_open_def
proof (intro allI impI)
  fix pre x post t r
  assume eq: "ms @ [m] = pre @ x # post" and x: "m_source x = source" "m_body x = Control Abandon t r"
  show "closed_through pre source < t"
  proof (cases post rule: rev_cases)
    case Nil
    then show ?thesis using eq x assms(2) by simp
  next
    case (snoc rest y)
    then have "ms = pre @ x # rest" using eq by simp
    then show ?thesis using assms(1) x unfolding abandons_open_def by blast
  qed
qed

lemma effect_ok:
  assumes e: "effect C q st st'" and ok: "conv_ok C q (st, h)"
  shows "conv_ok C q (st', h)"
proof -
  have act: "task_active st" if "task_active st'" using e that by (auto simp: effect_def task_active_def)
  consider "history_of C st' = history_of C st" | m where "history_of C st' = history_of C st @ [m]"
      "m_source m = cn_source C \<longrightarrow> (\<forall>t r. m_body m = Control Abandon t r \<longrightarrow> closed_through (history_of C st) (cn_source C) < t)
        \<and> (interrupts (m_body m) \<longrightarrow> \<not> task_active st' \<or> q m)"
    using e unfolding effect_def by blast
  then show ?thesis
  proof cases
    case 1
    then show ?thesis using ok e act by (simp add: conv_ok_def effect_def)
  next
    case 2
    then show ?thesis using ok e act abandons_open_snoc[of "cn_source C" "history_of C st" m]
      by (auto simp: conv_ok_def effect_def)
  qed
qed

lemma source_le_head:
  "wf_log s \<Longrightarrow> m \<in> set (session_history s sid) \<Longrightarrow> m_seq m \<le> head_of s sid (Some (m_source m))"
  by (auto simp: session_history_def session_rows_def head_of_def row_seq row_source intro!: max_default_ge(2))

lemma started_ok:
  assumes ok: "conv_ok C q (st, h)" and "cv_log st' = cv_log st" and "cv_task st \<noteq> None \<longrightarrow> cv_task st' = cv_task st"
  shows "conv_ok C q (st', if cv_task st = None then head_of (cv_log st) (cn_session C) (Some (cn_source C)) else h)"
proof -
  have "m_seq m \<le> head_of (cv_log st) (cn_session C) (Some (cn_source C))"
    if "wf_log (cv_log st)" "m \<in> set (history_of C st)" "m_source m = cn_source C" for m
    using source_le_head[OF that(1,2)] that(3) by simp
  then show ?thesis using assms by (auto simp: conv_ok_def task_active_def)
qed

lemma conv_step_ok:
  assumes step: "conv_step C L x y" and C: "wf_conversation C" and ok: "conv_ok C (unheard L) x"
  shows "conv_ok C (unheard L) y"
  using step ok
proof (induction rule: conv_step.induct)
  case (Accept c b now g mid st r st' h)
  then have "wf_log (cv_log st)" by (simp add: conv_ok_def)
  moreover have "\<forall>x e. c x = Inl e \<longrightarrow> unheard L (stored_message x)" using Accept by (auto simp: unheard_def)
  ultimately show ?case using effect_ok[OF accept_effect[OF C]] Accept by blast
next
  case (Control c through now mid a reason head handle st r st' h)
  then have "wf_log (cv_log st)" by (simp add: conv_ok_def)
  moreover have "\<forall>x e. c x = Inl e \<longrightarrow> unheard L (stored_message x)" using Control by (auto simp: unheard_def)
  ultimately show ?case using effect_ok[OF control_effect[OF C]] Control by blast
next
  case (Pause c now mid st r st' h)
  then have "wf_log (cv_log st)" by (simp add: conv_ok_def)
  moreover have "\<forall>x e. c x = Inl e \<longrightarrow> unheard L (stored_message x)" using Pause by (auto simp: unheard_def)
  ultimately show ?case using effect_ok[OF pause_effect[OF C]] Pause by blast
next
  case (Resume c now g mid i st r st' h)
  then have "wf_log (cv_log st)" by (simp add: conv_ok_def)
  then show ?case using effect_ok[OF resume_effect[OF C]] Resume by blast
next
  case (Start acc nh st p st' h)
  then show ?case by (intro started_ok) (auto simp: start_task_def split: option.splits sum.splits bool.splits if_splits)
next
  case (Complete nh st p st' h)
  then show ?case by (intro started_ok) (auto simp: complete_admit_def split: option.splits sum.splits bool.splits)
next
  case (Failed c now i hn reason st u st' h)
  then have "wf_log (cv_log st)" by (simp add: conv_ok_def)
  then show ?case using effect_ok[OF failed_effect[OF C]] Failed by blast
next
  case (Done st h hn)
  then show ?case by (auto simp: conv_ok_def task_done_def task_active_def)
next
  case (Cancel st h)
  then show ?case by (simp add: conv_ok_def)
next
  case (Reply st w b md now mid eh r s h)
  then have "wf_log (cv_log st)" by (simp add: conv_ok_def)
  then show ?case using effect_ok[OF reply_effect] Reply by blast
next
  case (Other st s h)
  then have "wf_log (cv_log st)" by (simp add: conv_ok_def)
  then show ?case using effect_ok[OF foreign_effect] Other by blast
qed

lemma conv_reach_ok:
  assumes "(conv_step C L)\<^sup>*\<^sup>* conv_start y" and "wf_conversation C"
  shows "conv_ok C (unheard L) y"
  using assms(1)
proof (induction rule: rtranclp_induct)
  case base
  then show ?case by (simp add: conv_ok_def conv_start_def task_active_def abandons_open_def session_history_def session_rows_def)
    (simp add: empty_log_def)
next
  case (step y z)
  then show ?case using conv_step_ok[OF step(2) assms(2)] by blast
qed

section \<open>Accepting, pausing and resuming\<close>

lemma new_append:
  assumes a: "append_changed now c w mid b h st = (Inr m, st')" and wf: "wf_log (cv_log st)" "wf_body b" "wf_writer w"
    and w: "w_session w = cn_session C" and new: "get_message (cv_log st) (cn_session C) mid = Inr None"
  shows "history_of C st' = history_of C st @ [stored_message m] \<and> m_source m = w_source w \<and> m_body m = b
    \<and> wf_log (cv_log st') \<and> (\<forall>x \<in> set (history_of C st). m_seq x < m_seq m) \<and> 0 \<le> m_seq m"
proof -
  have wr: "writer_append now w mid b h None (cv_log st) = (Inr m, cv_log st')"
  proof (cases "writer_append now w mid b h None (cv_log st)")
    case (Pair x s)
    then show ?thesis using a by (cases x; cases "c (projr x)") (auto simp: append_changed_def)
  qed
  have fresh: "find_message (cv_log st) mid = None"
  proof (rule ccontr)
    assume "find_message (cv_log st) mid \<noteq> None"
    then obtain row where row: "find_message (cv_log st) mid = Some row" by blast
    obtain u where "append_message now w mid b h None (cv_log st\<lparr>in_tx := True\<rparr>) = Inr (m, u)" using written[OF wr] by blast
    then have "r_session row = w_session w" using append_known row by simp
    then show False using get_message_find[OF wf(1) new row] w by simp
  qed
  note adds = append_adds[OF wr wf(1,2) _ wf(3), of undefined "cn_session C"]
  have hist: "history_of C st' = history_of C st @ [stored_message m]" using adds fresh w by simp
  have wf': "wf_log (cv_log st')" using adds by simp
  have "ascending m_seq (history_of C st')" "wf_message (stored_message m)"
    using session_history_ascending[OF wf', of "cn_session C"] history_nonneg[OF wf', of "stored_message m" "cn_session C"] hist by auto
  then show ?thesis using adds hist wf' by (auto simp: sorted_wrt_append wf_message_def)
qed

lemma wake_within:
  assumes "\<forall>m \<in> set ms. wf_message m \<and> (m_source m = source \<longrightarrow> m_seq m \<le> n)" and "- 1 \<le> n"
  shows "wk_paused (wake_of source ms) \<le> n \<and> wk_latest (wake_of source ms) \<le> n"
  using assms
proof (induction ms rule: rev_induct)
  case Nil
  then show ?case by (simp add: wake_start_def)
next
  case (snoc m ms)
  show ?case
  proof (cases "m_source m = source")
    case True
    then have "m_seq m \<le> n" and "\<And>a t r. m_body m = Control a t r \<Longrightarrow> t < m_seq m"
      using snoc.prems(1) by (auto simp: wf_message_def)
    then show ?thesis using snoc wake_step_cases[of source m "wake_of source ms"] by fastforce
  qed (use snoc in \<open>simp add: wake_other\<close>)
qed

lemma writers_of:
  assumes "wf_conversation C"
  shows "wf_writer (cn_controls C)" "w_session (cn_controls C) = cn_session C" "w_source (cn_controls C) = cn_source C"
    "wf_writer (cn_inputs C)" "w_session (cn_inputs C) = cn_session C" "w_source (cn_inputs C) = cn_source C"
  using assms by (auto simp: wf_conversation_def)

lemma history_wf: "wf_log s \<Longrightarrow> \<forall>m \<in> set (session_history s sid). wf_message m \<and> 0 \<le> m_seq m"
  using history_ok by blast

lemma accepted_new:
  assumes C: "wf_conversation C" and wf: "wf_log (cv_log st)"
    and a: "conv_accept C now g c mid b st = (Inr m, st1)" and new: "get_message (cv_log st) (cn_session C) mid = Inr None"
    and b: "is_input b" "wf_body b"
  shows "\<not> task_active st1" "needs_reply (cv_log st1) (cn_session C) (cn_source C) = Inr True"
proof -
  let ?H = "history_of C st" and ?src = "cn_source C"
  note w = writers_of[OF C] and hwf = history_wf[OF wf, of "cn_session C"]
  obtain s1 where x: "append_changed now c (cn_inputs C) mid b None st = (Inr m, s1)" and st1: "st1 = cancel_task s1"
    using a new by (cases "append_changed now c (cn_inputs C) mid b None st") (auto simp: conv_accept_def split: sum.splits)
  note n = new_append[OF x wf b(2) w(4,5) new]
  obtain ps where "b = Input ps" using b(1) by (cases b) auto
  then have "needs_reply_to (history_of C s1) ?src"
    using n w(6) wake_below[of ?H "m_seq m" ?src] hwf by (simp add: needs_reply_to_def Let_def wake_body(1)[of "stored_message m"])
  then show "\<not> task_active st1" "needs_reply (cv_log st1) (cn_session C) ?src = Inr True"
    using n st1 by (simp_all add: needs_reply_history)
qed

lemma paused_new:
  assumes C: "wf_conversation C" and wf: "wf_log (cv_log st)"
    and a: "conv_pause C now c mid st = (Inr p, st2)" and new: "get_message (cv_log st) (cn_session C) mid = Inr None"
  shows "\<not> task_active st2" "needs_reply (cv_log st2) (cn_session C) (cn_source C) = Inr False"
proof -
  let ?H = "history_of C st" and ?src = "cn_source C"
  note w = writers_of[OF C] and hwf = history_wf[OF wf, of "cn_session C"]
  let ?h = "head_of (cv_log st) (cn_session C) (Some ?src)"
  obtain m s1 where x: "append_changed now c (cn_controls C) mid (Control Pause ?h None) (Some ?h) st = (Inr m, s1)"
    and st2: "st2 = cancel_task s1" and h: "0 \<le> ?h"
    using a new by (cases "append_changed now c (cn_controls C) mid (Control Pause ?h None) (Some ?h) st")
      (auto simp: conv_pause_def Let_def split: sum.splits if_splits)
  note n = new_append[OF x wf _ w(1,2) new]
  have "m_seq m \<le> ?h" if "m \<in> set ?H" "m_source m = ?src" for m
    using source_le_head[OF wf that(1)] that(2) by simp
  then have "\<forall>m \<in> set ?H. wf_message m \<and> (m_source m = ?src \<longrightarrow> m_seq m \<le> ?h)"
    using hwf by blast
  then have "wk_latest (wake_of ?src ?H) \<le> ?h" using wake_within h by auto
  then have "\<not> needs_reply_to (history_of C s1) ?src"
    using n h w(3) by (simp add: needs_reply_to_def Let_def wake_body(5)[of "stored_message m"])
  then show "\<not> task_active st2" "needs_reply (cv_log st2) (cn_session C) ?src = Inr False"
    using n st2 h by (simp_all add: needs_reply_history)
qed

lemma resumed_new:
  assumes C: "wf_conversation C" and wf: "wf_log (cv_log st)"
    and a: "conv_resume C now g c mid i st = (Inr m, st3)" and new: "get_message (cv_log st) (cn_session C) mid = Inr None"
  shows "\<not> task_active st3" "needs_reply (cv_log st3) (cn_session C) (cn_source C) = Inr True"
proof -
  let ?H = "history_of C st" and ?src = "cn_source C"
  note w = writers_of[OF C] and hwf = history_wf[OF wf, of "cn_session C"]
  obtain target old where t: "resume_target C mid i (cv_log st) = Inr (target, old)"
    using a by (cases "resume_target C mid i (cv_log st)") (auto simp: conv_resume_def Let_def)
  have old: "old = None" and gt: "get_message (cv_log st) (cn_session C) i = Inr (Some target)"
    and ti: "m_source target = ?src" "is_input (m_body target)"
    using t new by (auto simp: resume_target_def res_simps split: option.splits if_splits)
  let ?h = "m_seq (last (filter (\<lambda>m. m_source m = ?src) ?H))"
  have x: "append_changed now c (cn_controls C) mid (Control Resume ?h None) (Some ?h) st = (Inr m, st3)"
    and ok: "check_resume C target i st g ?H = Inr ()"
    using a t old by (auto simp: conv_resume_def Let_def snapshot_all[OF wf] split: sum.splits)
  obtain l where l: "last_input ?src ?H = Some l" "m_id l = i" using ok by (auto simp: check_resume_def split: if_splits)
  obtain pre post where split: "?H = pre @ l # post" "m_source l = ?src" "is_input (m_body l)"
    "\<forall>m \<in> set post. \<not> (m_source m = ?src \<and> is_input (m_body m))" using last_input_split[OF l(1)] by blast
  have tH: "target \<in> set ?H" "m_id target = i" using get_message_history[OF wf gt] by auto
  have dist: "distinct (map m_id ?H)" and asc: "ascending m_seq ?H"
    using history_prefix_ok[OF wf] session_history_ascending[OF wf] by (auto simp: prefix_ok_def)
  have tl: "target = l" using dist tH l(2) split(1) by (auto simp: distinct_map dest: inj_onD)
  have none: "\<not> (m_seq l < m_seq x \<and> m_source x = ?src \<and> (case m_body x of Output ps f \<Rightarrow> f \<noteq> Continue
      | Control a t r \<Rightarrow> a = Abandon \<and> m_seq l \<le> t | _ \<Rightarrow> False))" if "x \<in> set ?H" for x
    using ok that unfolding tl by (auto simp: check_resume_def list_ex_iff split: if_splits)
  have act: "\<not> task_active st" using ok by (auto simp: check_resume_def split: if_splits)
  have "closed_through ?H ?src < m_seq l"
    unfolding closed_through_def
  proof (intro max_default_less)
    show "- 1 < m_seq l" using hwf split(1) by fastforce
    fix y assume "y \<in> set (concat (map closings (from_source ?src ?H)))"
    then obtain x where x: "x \<in> set ?H" "m_source x = ?src" "y \<in> set (closings x)" by (auto simp: from_source_def)
    have "y \<le> m_seq x" using closings_bound hwf x by blast
    show "y < m_seq l"
    proof (cases "m_seq l < m_seq x")
      case True
      then show ?thesis using none[OF x(1)] x(2,3) by (cases "m_body x") (auto simp: closings.simps split: if_splits)
    next
      case False
      show ?thesis
      proof (cases "x = l")
        case True
        then show ?thesis using split(3) x(3) by (cases "m_body l") (auto simp: closings.simps)
      next
        case ne: False
        then have "m_seq x < m_seq l" using False x(1) asc split(1) by (auto simp: sorted_wrt_append)
        then show ?thesis using \<open>y \<le> m_seq x\<close> by simp
      qed
    qed
  qed
  then have bd: "wk_boundary (wake_of ?src ?H) < m_seq l" using wake_closed[OF history_prefix_ok[OF wf]] by simp
  have latest: "wk_latest (wake_of ?src ?H) = m_seq l" using wake_latest[OF split(4,2,3)] split(1) by simp
  let ?own = "filter (\<lambda>m. m_source m = ?src) ?H"
  have ne: "?own \<noteq> []" using split(1,2) by (simp add: filter_empty_conv)
  have le: "m_seq x \<le> ?h" if "x \<in> set ?H" "m_source x = ?src" for x
  proof -
    have "ascending m_seq ?own" using ascending_filter[OF asc] .
    moreover have "x \<in> set ?own" using that by simp
    ultimately show ?thesis using ne by (cases ?own rule: rev_cases) (auto simp: sorted_wrt_append less_imp_le)
  qed
  have "0 \<le> ?h" using le[of l] split(1,2) hwf by fastforce
  then have n: "history_of C st3 = ?H @ [stored_message m] \<and> m_source m = ?src \<and> m_body m = Control Resume ?h None \<and> wf_log (cv_log st3)"
    using new_append[OF x wf _ w(1,2) new] w(3) by simp
  have "wk_paused (wake_of ?src ?H) \<le> ?h" using wake_within[of ?H ?src ?h] hwf le \<open>0 \<le> ?h\<close> by auto
  then have "needs_reply_to (history_of C st3) ?src"
    using n bd latest hwf split(1) by (simp add: needs_reply_to_def Let_def wake_body(7)[of "stored_message m"])
  then show "needs_reply (cv_log st3) (cn_session C) ?src = Inr True" using n by (simp add: needs_reply_history)
  have "cv_task st3 = cv_task st" using x by (auto simp: append_changed_def split: sum.splits prod.splits)
  then show "\<not> task_active st3" using act by (simp add: task_active_def)
qed

text \<open>What the methods of a source promise: a newly accepted input revokes the running reply and makes the
  source need one; a new pause revokes it and the source needs none; a new resume is recorded only
  while nothing runs, and the source needs a reply again.\<close>

theorem source_control:
  assumes C: "wf_conversation C" and wf: "wf_log (cv_log st)"
  shows "(conv_accept C now g c mid b st = (Inr m, st1) \<and> get_message (cv_log st) (cn_session C) mid = Inr None \<and> is_input b \<and> wf_body b
            \<longrightarrow> \<not> task_active st1 \<and> needs_reply (cv_log st1) (cn_session C) (cn_source C) = Inr True)
     \<and> (conv_pause C now c mid st = (Inr p, st2) \<and> get_message (cv_log st) (cn_session C) mid = Inr None
            \<longrightarrow> \<not> task_active st2 \<and> needs_reply (cv_log st2) (cn_session C) (cn_source C) = Inr False)
     \<and> (conv_resume C now g c mid i st = (Inr m, st3) \<and> get_message (cv_log st) (cn_session C) mid = Inr None
            \<longrightarrow> \<not> task_active st3 \<and> needs_reply (cv_log st3) (cn_session C) (cn_source C) = Inr True)"
  by (intro conjI impI; elim conjE; rule accepted_new[OF assms] paused_new[OF assms] resumed_new[OF assms]; assumption)

section \<open>Reachable conversations\<close>

text \<open>C21. In every reachable state the source's history projects to turns; asking for a reply, which reads only from
  the latest input on, answers as the fold over the whole history does; and while a reply is
  needed the latest input stands in the open, last turn.\<close>

theorem conversation_turns:
  assumes "wf_conversation C" and "(conv_step C L)\<^sup>*\<^sup>* conv_start (st, h)"
  shows "\<exists>ts. project (history_of C st) (cn_source C) = Inr ts
    \<and> needs_reply (cv_log st) (cn_session C) (cn_source C) = Inr (needs_reply_to (history_of C st) (cn_source C))
    \<and> (needs_reply_to (history_of C st) (cn_source C) \<longrightarrow>
        (\<exists>l. last_input (cn_source C) (history_of C st) = Some l
           \<and> ts \<noteq> [] \<and> t_status (last ts) = TOpen \<and> m_id l \<in> set (t_messages (last ts))))"
proof -
  let ?H = "history_of C st" and ?src = "cn_source C"
  have wf: "wf_log (cv_log st)" and ab: "abandons_open ?src ?H"
    using conv_reach_ok[OF assms(2,1)] by (simp_all add: conv_ok_def)
  have ok: "prefix_ok ?H" by (rule history_prefix_ok[OF wf])
  obtain ts where ts: "project ?H ?src = Inr ts" using project_total[OF ok ab] by blast
  have "\<exists>l. last_input ?src ?H = Some l \<and> ts \<noteq> [] \<and> t_status (last ts) = TOpen \<and> m_id l \<in> set (t_messages (last ts))"
    if n: "needs_reply_to ?H ?src"
  proof -
    obtain l where l: "last_input ?src ?H = Some l"
      using n wake_no_input[of ?src ?H] history_wf[OF wf, of "cn_session C"] by fastforce
    obtain pre post where s: "?H = pre @ l # post" "m_source l = ?src" "is_input (m_body l)"
      "\<forall>m \<in> set post. \<not> (m_source m = ?src \<and> is_input (m_body m))" using last_input_split[OF l] by blast
    have "wk_latest (wake_of ?src ?H) = m_seq l" using wake_latest[OF s(4,2,3)] s(1) by simp
    then have "closed_through ?H ?src < m_seq l" using n wake_closed[OF ok] by (simp add: needs_reply_to_def Let_def)
    moreover have "is_talk (m_body l)" using s(3) by (cases "m_body l") auto
    ultimately show ?thesis using open_turn_member[OF ts ok _ s(2)] l s(1) by simp
  qed
  then show ?thesis using ts needs_reply_history[OF wf] by blast
qed

text \<open>C8. No stale reply: when a reply task appends a new message to a reachable log, the task is active, and every input, pause
  and abandon of the source was there when that task was started - but those for which the listener of the source raised. The
  methods notify the listener between the append and the revocation, so such a message is stored while the old task goes
  on; when no listener raises there is no exception.\<close>

theorem no_stale_reply:
  assumes "wf_conversation C" and "(conv_step C L)\<^sup>*\<^sup>* conv_start (st, h)"
    and "reply_writer C st w" and "writer_append now w mid b eh md (cv_log st) = (Inr m, s)" and "find_message (cv_log st) mid = None"
  shows "task_active st \<and> (\<forall>x \<in> set (history_of C st). m_source x = cn_source C \<and> interrupts (m_body x) \<longrightarrow>
      m_seq x \<le> h \<or> (\<exists>changed \<in> L. \<exists>y e. changed y = Inl e \<and> x = stored_message y))"
proof -
  obtain u where "append_message now w mid b eh md (cv_log st\<lparr>in_tx := True\<rparr>) = Inr (m, u)" using written[OF assms(4)] by blast
  then have "committed now w mid b eh md (cv_log st\<lparr>in_tx := True\<rparr>) m u" using append_known_committed assms(5) by simp
  then have "task_active st" using assms(3) by (simp add: committed_def reply_writer_def)
  then show ?thesis using conv_reach_ok[OF assms(2,1)] by (simp add: conv_ok_def unheard_def)
qed

section \<open>The sample conversation\<close>

definition chat :: conversation where
  "chat = \<lparr>cn_session = ''s'', cn_source = ''chat'', cn_inputs = user_writer, cn_controls = user_writer\<lparr>w_types := [ControlType]\<rparr>\<rparr>"

definition silent :: "(message \<Rightarrow> unit res) set" where
  "silent = {\<lambda>m. Inr ()}"

lemma chat_wf: "wf_conversation chat"
  by (simp add: wf_conversation_def chat_def wf_writer_def project_metadata_def user_writer_def)

lemma chat_sel [simp]: "cn_session chat = ''s''" "cn_source chat = ''chat''" "cn_inputs chat = user_writer"
  by (simp_all add: chat_def)

abbreviation chat_at :: "message_log \<Rightarrow> conv_task option \<Rightarrow> conv_state" where
  "chat_at s t \<equiv> \<lparr>cv_log = s, cv_task = t\<rparr>"

lemma chat_history: "session_history empty_log ''s'' = []" "session_history bound_log ''s'' = []"
  "session_history log1 ''s'' = [said ''m1'' 0 ''user'' hello]"
proof -
  have d: "decode_body hello_doc = Inr hello" 
    using decode_encode[of hello hello_doc] by (simp add: encode_samples) (simp add: hello_def)
  show "session_history empty_log ''s'' = []" "session_history bound_log ''s'' = []"
    "session_history log1 ''s'' = [said ''m1'' 0 ''user'' hello]"
    using make_samples
    by (simp_all add: session_history_def session_rows_def log_after_def said_row_def message_of_def json_object_of_def d
        bound_log_def empty_log_def)
qed

lemma chat_unknown: "get_message bound_log ''s'' ''m1'' = Inr None"
  by (simp add: get_message_def res_simps) (simp add: bound_log_def empty_log_def)

lemma chat_accept: "conv_accept chat 5 (Inr ()) (\<lambda>m. Inr ()) ''m1'' hello (chat_at bound_log None)
    = (Inr (said ''m1'' 0 ''user'' hello), chat_at log1 None)"
  by (simp add: conv_accept_def append_changed_def sample_writes cancel_task_def chat_unknown)

lemma chat_needs: "needs_reply log1 ''s'' ''chat'' = Inr True"
  by (simp add: needs_reply_history chat_history needs_reply_to_def wake_step_def wake_start_def said_def hello_def Let_def)

lemma chat_start: "start_task chat True ''t'' (chat_at log1 None)
    = (Inr (Some ''t''), chat_at log1 (Some \<lparr>ct_handle = ''t'', ct_active = True\<rparr>))"
  by (simp add: start_task_def chat_needs)

lemma chat_head: "head_of log1 ''s'' (Some ''chat'') = 0"
  by (simp add: head_of_def log_after_def said_row_def max_default_def)

lemma chat_reach:
  "(conv_step chat silent)\<^sup>*\<^sup>* conv_start (chat_at bound_log None, - 1)"
  "(conv_step chat silent)\<^sup>*\<^sup>* conv_start (chat_at log1 None, - 1)"
  "(conv_step chat silent)\<^sup>*\<^sup>* conv_start (chat_at log1 (Some \<lparr>ct_handle = ''t'', ct_active = True\<rparr>), 0)"
proof -
  have "foreign chat empty_log bound_log" using sample_steps(1) by (simp add: foreign_def chat_history)
  from conv_step.Other[of chat "chat_at empty_log None" bound_log silent "- 1"] this
  show one: "(conv_step chat silent)\<^sup>*\<^sup>* conv_start (chat_at bound_log None, - 1)" by (auto simp: conv_start_def)
  have "conv_step chat silent (chat_at bound_log None, - 1) (chat_at log1 None, - 1)"
    by (rule conv_step.Accept[OF _ _ _ chat_accept]) (simp_all add: silent_def hello_def)
  with one show two: "(conv_step chat silent)\<^sup>*\<^sup>* conv_start (chat_at log1 None, - 1)" by simp
  show "(conv_step chat silent)\<^sup>*\<^sup>* conv_start (chat_at log1 (Some \<lparr>ct_handle = ''t'', ct_active = True\<rparr>), 0)"
    using two conv_step.Start[OF chat_start, of silent "- 1"] by (auto simp: chat_head intro: rtranclp.rtrancl_into_rtrancl)
qed

lemma conversation_turns_witness:
  "\<exists>ts. project (history_of chat (chat_at log1 None)) ''chat'' = Inr ts \<and> ts \<noteq> [] \<and> t_status (last ts) = TOpen"
proof -
  have "needs_reply_to (session_history log1 ''s'') ''chat''" using chat_needs by (simp add: needs_reply_history)
  then show ?thesis using conversation_turns[OF chat_wf chat_reach(2)] by auto
qed

lemma no_stale_reply_witness:
  "task_active (chat_at log1 (Some \<lparr>ct_handle = ''t'', ct_active = True\<rparr>)) \<and> m_seq (said ''m1'' 0 ''user'' hello) \<le> 0"
proof -
  have "reply_writer chat (chat_at log1 (Some \<lparr>ct_handle = ''t'', ct_active = True\<rparr>)) program_writer"
    by (simp add: reply_writer_def task_active_def) (simp add: program_writer_def)
  from no_stale_reply[OF chat_wf chat_reach(3) this, of 5 "''m2''" asking "Some 0" None] show ?thesis
    by (simp add: sample_writes sample_find chat_history silent_def) (simp add: said_def hello_def)
qed

text \<open>The exception happens: the listener raises, the input is stored and the task keeps its rights.\<close>

lemma unheard_input_revokes_nothing:
  "conv_accept chat 5 (Inr ()) (\<lambda>m. Inl RuntimeError) ''m1'' hello (chat_at bound_log (Some \<lparr>ct_handle = ''t'', ct_active = True\<rparr>))
     = (Inl RuntimeError, chat_at log1 (Some \<lparr>ct_handle = ''t'', ct_active = True\<rparr>))"
  by (simp add: conv_accept_def append_changed_def sample_writes chat_unknown)

lemma source_control_witness: "needs_reply log1 ''s'' ''chat'' = Inr True"
proof -
  have new: "get_message (cv_log (chat_at bound_log None)) (cn_session chat) ''m1'' = Inr None \<and> is_input hello \<and> wf_body hello"
    by (simp add: chat_unknown) (simp add: hello_def)
  show ?thesis
    using source_control[OF chat_wf, THEN conjunct1, THEN mp, OF _ conjI[OF chat_accept new]] by simp
qed

end
