(* ===== verification/Tool_Receipts.thy ===== *)
theory Tool_Receipts
  imports Owner_Store Message_Reader
begin

text \<open>
  The receipts of tool calls: \<open>plugins/tools/api.py\<close>, and the storage half of
  \<open>plugins/tools/execution.py\<close>.

  A call has one owner record, its receipt, which goes through the phases requested, prepared, started and
  done. A call made by a message is answered by a message, its reply; the receipt then
  holds a pointer to it, and both are written in one transaction (\<open>finish\<close>). A call made by a
  program keeps its result in the receipt. The fingerprint's hash is a parameter.
\<close>

section \<open>Results and replies\<close>

record tool_result =
  tr_outcome :: outcome
  tr_parts :: "part list"

definition mk_Result :: "pyval \<Rightarrow> part list \<Rightarrow> tool_result res" where
  "mk_Result outcome parts =
     bindR (as_outcome outcome) (\<lambda>oc.
       if list_ex is_tool_call parts then Inl TypeError else Inr \<lparr>tr_outcome = oc, tr_parts = parts\<rparr>)"

text \<open>\<open>MessageReply\<close>: where a call's result is written. The reader is given by its session.\<close>

record reply =
  rp_message :: string
  rp_call :: call_ref
  rp_reader :: string
  rp_writer :: writer

definition call_request :: "reply \<Rightarrow> message_log \<Rightarrow> (string \<times> json_object) res" where
  "call_request rp s =
     (if rp_reader rp \<noteq> w_session (rp_writer rp) then Inl ValueError
      else bindR (get_message s (rp_reader rp) (ref_message (rp_call rp))) (\<lambda>found. case found of
        None \<Rightarrow> Inl ValueError
      | Some m \<Rightarrow>
          (case m_body m of
             Output ps f \<Rightarrow>
               (if length ps \<le> ref_index (rp_call rp) then Inl ValueError
                else case ps ! ref_index (rp_call rp) of
                    ToolCall binding args \<Rightarrow> Inr (binding, args)
                  | ContentPart k v \<Rightarrow> Inl ValueError)
           | _ \<Rightarrow> Inl ValueError)))"

text \<open>The history up to the call, all a tool sees when it prepares.\<close>

definition call_source :: "reply \<Rightarrow> message_log \<Rightarrow> message list res" where
  "call_source rp s =
     bindR (get_message s (rp_reader rp) (ref_message (rp_call rp))) (\<lambda>found. case found of
       None \<Rightarrow> Inl ValueError
     | Some m \<Rightarrow> snapshot s (rp_reader rp) (- 1) (Some (m_seq m)))"

definition reply_check :: "reply \<Rightarrow> message_log \<Rightarrow> unit res" where
  "reply_check rp s = writer_check (rp_writer rp) s (ToolResult False (rp_call rp) Errored [])"

definition reply_abandoned :: "reply \<Rightarrow> message_log \<Rightarrow> bool res" where
  "reply_abandoned rp s =
     bindR (get_message s (rp_reader rp) (ref_message (rp_call rp))) (\<lambda>found. case found of
       None \<Rightarrow> Inl ValueError
     | Some call \<Rightarrow> bindR (snapshot s (rp_reader rp) (m_seq call) None) (\<lambda>ms.
         Inr (list_ex (\<lambda>m. m_source m = m_source call \<and>
                (case m_body m of Control a t r \<Rightarrow> a = Abandon \<and> m_seq call \<le> t | _ \<Rightarrow> False)) ms)))"

text \<open>\<open>d[key]\<close>.\<close>

definition item :: "string \<Rightarrow> json_object \<Rightarrow> json res" where
  "item k d = (case map_of d k of None \<Rightarrow> Inl KeyError | Some v \<Rightarrow> Inr v)"

text \<open>Reading the result a receipt points to: first the pointer, then the message.\<close>

definition pointer_seq :: "string \<Rightarrow> json \<Rightarrow> int res" where
  "pointer_seq mid pointer =
     (if set (keys (obj_items pointer)) \<noteq> {''message_id'', ''seq''}
         \<or> map_of (obj_items pointer) ''message_id'' \<noteq> Some (JStr mid) then Inl ValueError
      else case map_of (obj_items pointer) ''seq'' of
          Some (JInt n) \<Rightarrow> (if n < 0 then Inl ValueError else Inr n)
        | _ \<Rightarrow> Inl ValueError)"

definition reply_read :: "reply \<Rightarrow> message_log \<Rightarrow> json \<Rightarrow> tool_result res" where
  "reply_read rp s pointer =
     bindR (pointer_seq (rp_message rp) pointer) (\<lambda>n.
     bindR (read_range s (rp_reader rp) (n - 1) (Some n) None 1) (\<lambda>ms. case ms of
       [m] \<Rightarrow>
         (if m_id m \<noteq> rp_message rp then Inl ValueError
          else case m_body m of
              ToolResult l r oc ps \<Rightarrow>
                (if r \<noteq> rp_call rp then Inl ValueError else Inr \<lparr>tr_outcome = oc, tr_parts = ps\<rparr>)
            | _ \<Rightarrow> Inl ValueError)
     | _ \<Rightarrow> Inl ValueError))"

section \<open>Identities\<close>

definition result_message_id :: "call_ref \<Rightarrow> string" where
  "result_message_id r = ''tool-result:'' @ ref_message r @ '':'' @ show_nat (ref_index r)"

definition durable_call_key :: "call_ref \<Rightarrow> string" where
  "durable_call_key r = ''message:'' @ json_text (JArr [JStr (ref_message r), JInt (int (ref_index r))])"

definition fingerprint :: "(string \<Rightarrow> string) \<Rightarrow> string \<Rightarrow> json_object \<Rightarrow> reply option \<Rightarrow> string" where
  "fingerprint sha256 binding args rp =
     sha256 (json_text (json_sorted (JArr [JStr binding, JObj args,
       (case rp of
          None \<Rightarrow> JNull
        | Some r \<Rightarrow> JArr [JStr (rp_message r), JStr (ref_message (rp_call r)), JInt (int (ref_index (rp_call r)))])])))"

section \<open>Receipts\<close>

text \<open>A result kept in the receipt, and its reading; a part of a result is always content.\<close>

definition part_value :: "part \<Rightarrow> pyval" where
  "part_value p = (case p of
     ContentPart k v \<Rightarrow> py_dict [(''kind'', VStr k), (''value'', frozen_value v)]
   | ToolCall b args \<Rightarrow> VOther)"

definition result_value :: "tool_result \<Rightarrow> pyval" where
  "result_value r = py_dict [(''outcome'', VStr (outcome_name (tr_outcome r))), (''parts'', VSeq True (map part_value (tr_parts r)))]"

definition read_part :: "json \<Rightarrow> part res" where
  "read_part p = (case p of
     JObj d \<Rightarrow>
       (if set (keys d) \<noteq> {''kind'', ''value''} then Inl ValueError
        else bindR (item ''kind'' d) (\<lambda>k. bindR (item ''value'' d) (\<lambda>v. mk_ContentPart (frozen_value k) (frozen_value v))))
   | _ \<Rightarrow> Inl ValueError)"

definition read_result :: "json \<Rightarrow> tool_result res" where
  "read_result value = (case value of
     JObj d \<Rightarrow>
       (if set (keys d) \<noteq> {''outcome'', ''parts''} then Inl ValueError
        else bindR (item ''parts'' d) (\<lambda>ps. case ps of
          JArr xs \<Rightarrow> bindR (mapR read_part xs) (\<lambda>parts. bindR (item ''outcome'' d) (\<lambda>oc.
            mk_Result (if oc = JStr ''unknown'' then VStr ''error'' else frozen_value oc) parts))
        | _ \<Rightarrow> Inl ValueError))
   | _ \<Rightarrow> Inl ValueError)"

definition frozen_items :: "json_object \<Rightarrow> (string \<times> pyval) list" where
  "frozen_items d = map (map_prod id frozen_value) d"

definition receipt_doc :: "string \<Rightarrow> string \<Rightarrow> string option \<Rightarrow> string \<Rightarrow> pyval \<Rightarrow> pyval" where
  "receipt_doc print binding reply_id phase args =
     py_dict [(''version'', VInt 1), (''request'', VStr print), (''binding'', VStr binding),
       (''reply_id'', (case reply_id of None \<Rightarrow> VNone | Some i \<Rightarrow> VStr i)), (''phase'', VStr phase), (''arguments'', args)]"

definition started_doc :: "json_object \<Rightarrow> pyval \<Rightarrow> pyval" where
  "started_doc value permission =
     py_dict (AList.update ''permission'' permission (AList.update ''phase'' (VStr ''started'') (frozen_items value)))"

definition done_doc :: "json_object \<Rightarrow> pyval \<Rightarrow> pyval" where
  "done_doc value result =
     py_dict (AList.update ''result'' result (AList.update ''phase'' (VStr ''done'') (frozen_items value)))"

definition tool_record :: "string \<Rightarrow> string \<Rightarrow> string \<Rightarrow> message_log \<Rightarrow> owner_record option res" where
  "tool_record owner key print s =
     bindR (owner_read s owner key) (\<lambda>found. case found of
       None \<Rightarrow> Inr None
     | Some r \<Rightarrow>
         bindR (item ''version'' (rec_value r)) (\<lambda>v.
         if \<not> json_eq v (JInt 1) then Inl ValueError
         else bindR (item ''phase'' (rec_value r)) (\<lambda>p.
         if \<not> hashable (frozen_value p) then Inl TypeError
         else if p \<notin> JStr ` {''requested'', ''prepared'', ''started'', ''done''} then Inl ValueError
         else bindR (item ''request'' (rec_value r)) (\<lambda>q.
         if q \<noteq> JStr print then Inl ValueError else Inr (Some r)))))"

definition receipt_save ::
  "string \<Rightarrow> int \<Rightarrow> string \<Rightarrow> owner_record option \<Rightarrow> pyval \<Rightarrow> message_log \<Rightarrow> owner_record res \<times> message_log" where
  "receipt_save owner now key previous value =
     transact owner now (Save key value (map_option rec_version previous) (\<lambda>r. case r of Inl e \<Rightarrow> Raise e | Inr x \<Rightarrow> Return x))"

section \<open>Finishing a call\<close>

text \<open>The result already settled, read from the current receipt.\<close>

definition settled_receipt :: "json_object \<Rightarrow> reply option \<Rightarrow> message_log \<Rightarrow> owner_record option \<Rightarrow> tool_result option res" where
  "settled_receipt value rp s current = (case current of
     None \<Rightarrow> Inr None
   | Some c \<Rightarrow>
       bindR (item ''phase'' (rec_value c)) (\<lambda>p.
       if p \<noteq> JStr ''done'' then Inr None
       else bindR (item ''request'' (rec_value c)) (\<lambda>a. bindR (item ''request'' value) (\<lambda>b.
         if \<not> json_eq a b then Inl ValueError
         else bindR (item ''result'' (rec_value c)) (\<lambda>d.
           bindR (case rp of None \<Rightarrow> read_result d | Some rp \<Rightarrow> reply_read rp s d) (\<lambda>r. Inr (Some r)))))))"

definition finish_save :: "string \<Rightarrow> json_object \<Rightarrow> pyval \<Rightarrow> int option \<Rightarrow> tool_result \<Rightarrow> tool_result tx_prog" where
  "finish_save key value saved version result =
     Save key (done_doc value saved) version (\<lambda>x. case x of Inl e \<Rightarrow> Raise e | Inr y \<Rightarrow> Return result)"

definition finish_prog ::
  "string \<Rightarrow> json_object \<Rightarrow> int option \<Rightarrow> tool_result \<Rightarrow> reply option \<Rightarrow> message_log \<Rightarrow> tool_result tx_prog" where
  "finish_prog key value version result rp s =
     Read key (\<lambda>current. case bindR current (settled_receipt value rp s) of
       Inl e \<Rightarrow> Raise e
     | Inr (Some r) \<Rightarrow> Return r
     | Inr None \<Rightarrow>
         (case rp of
            None \<Rightarrow> finish_save key value (result_value result) version result
          | Some rp \<Rightarrow>
              (case mk_ToolResult (rp_call rp) (VStr (outcome_name (tr_outcome result))) (tr_parts result) of
                 Inl e \<Rightarrow> Raise e
               | Inr b \<Rightarrow>
                   Append (rp_writer rp) (rp_message rp) b None None (\<lambda>x. case x of
                     Inl e \<Rightarrow> Raise e
                   | Inr m \<Rightarrow> finish_save key value (py_dict [(''message_id'', VStr (m_id m)), (''seq'', VInt (m_seq m))])
                       version result))))"

definition finish_call ::
  "string \<Rightarrow> int \<Rightarrow> string \<Rightarrow> owner_record option \<Rightarrow> tool_result \<Rightarrow> reply option \<Rightarrow> json_object option \<Rightarrow> message_log
     \<Rightarrow> tool_result res \<times> message_log" where
  "finish_call owner now key record result rp initial s =
     (case (case record of None \<Rightarrow> initial | Some r \<Rightarrow> Some (rec_value r)) of
        None \<Rightarrow> (Inl RuntimeError, s)
      | Some value \<Rightarrow> transact owner now (finish_prog key value (map_option rec_version record) result rp s) s)"

end
