(* ===== verification/Tool_Execution.thy ===== *)
theory Tool_Execution
  imports Tool_Receipts Turn_Projection
begin

text \<open>
  \<open>plugins/tools/execution.py\<close> and \<open>abandon.py\<close>: running one tool call to its single settled result.

  \<open>_run\<close> is a machine whose states are its awaits: opening the tool, preparing, querying,
  authorizing, invoking, closing the tool. What the tool and the authorization answer are inputs of the
  segments; \<open>Refused\<close> is the exception the code turns into a result (\<open>InvalidArguments\<close>,
  \<open>Denied\<close>) with its text, \<open>Broken\<close> any other, cancellation included. The exit of the tool's context manager
  does not swallow exceptions. \<open>deny_call\<close> and \<open>abandon_call\<close> settle a call without an await.
\<close>

section \<open>Texts\<close>

definition utf8 :: "nat list \<Rightarrow> string" where
  "utf8 bs = map (char_of :: nat \<Rightarrow> char) bs"

definition lost_text :: string where
  "lost_text = utf8
      [229, 142, 159, 229, 183, 165, 229, 133, 183, 232, 176, 131, 231, 148, 168, 228, 184,
       173, 230, 150, 173, 228, 184, 148, 230, 178, 161, 230, 156, 137, 229, 143, 175, 230,
       159, 165, 232, 175, 162, 231, 187, 147, 230, 158, 156, 239, 188, 155, 229, 133, 136,
       230, 163, 128, 230, 159, 165, 229, 189, 147, 229, 137, 141, 231, 138, 182, 230, 128,
       129, 239, 188, 140, 228, 184, 141, 232, 166, 129, 231, 155, 180, 230, 142, 165, 233,
       135, 141, 229, 164, 141, 230, 137, 167, 232, 161, 140, 229, 142, 159, 230, 147, 141,
       228, 189, 156, 227, 128, 130]"

definition cancelled_text :: string where
  "cancelled_text = utf8
      [229, 183, 165, 229, 133, 183, 232, 176, 131, 231, 148, 168, 229, 143, 150, 230, 182,
       136, 239, 188, 140, 229, 183, 178, 230, 137, 167, 232, 161, 140, 231, 154, 132, 230,
       149, 136, 230, 158, 156, 228, 184, 141, 228, 188, 154, 230, 146, 164, 233, 148, 128,
       227, 128, 130]"

definition failed_text :: string where
  "failed_text = utf8
      [229, 183, 165, 229, 133, 183, 230, 137, 167, 232, 161, 140, 229, 164, 177, 232, 180,
       165, 58, 32]"

definition effect_text :: string where
  "effect_text = utf8
      [239, 188, 155, 229, 183, 178, 230, 137, 167, 232, 161, 140, 231, 154, 132, 230, 149,
       136, 230, 158, 156, 228, 184, 141, 228, 188, 154, 230, 146, 164, 233, 148, 128, 227,
       128, 130]"

definition resumed_text :: string where
  "resumed_text = utf8
      [229, 142, 159, 229, 183, 165, 229, 133, 183, 232, 176, 131, 231, 148, 168, 229, 156,
       168, 230, 129, 162, 229, 164, 141, 230, 151, 182, 229, 143, 150, 230, 182, 136, 239,
       188, 155, 229, 183, 178, 230, 137, 167, 232, 161, 140, 231, 154, 132, 230, 149, 136,
       230, 158, 156, 228, 184, 141, 228, 188, 154, 230, 146, 164, 233, 148, 128, 227, 128,
       130]"

definition abandoned_started_text :: string where
  "abandoned_started_text = utf8
      [231, 148, 168, 230, 136, 183, 229, 183, 178, 230, 148, 190, 229, 188, 131, 230, 173,
       164, 229, 183, 165, 228, 189, 156, 239, 188, 155, 232, 176, 131, 231, 148, 168, 229,
       183, 178, 228, 184, 173, 230, 150, 173, 239, 188, 140, 229, 164, 150, 233, 131, 168,
       230, 149, 136, 230, 158, 156, 229, 143, 175, 232, 131, 189, 229, 183, 178, 231, 187,
       143, 229, 143, 145, 231, 148, 159, 239, 188, 140, 228, 184, 141, 232, 131, 189, 230,
       141, 174, 230, 173, 164, 233, 135, 141, 232, 183, 145, 227, 128, 130]"

definition abandoned_text :: string where
  "abandoned_text = utf8
      [231, 148, 168, 230, 136, 183, 229, 183, 178, 230, 148, 190, 229, 188, 131, 230, 173,
       164, 229, 183, 165, 228, 189, 156, 239, 188, 140, 229, 183, 165, 229, 133, 183, 230,
       156, 170, 229, 144, 175, 229, 138, 168, 227, 128, 130]"

definition text_result :: "outcome \<Rightarrow> string \<Rightarrow> tool_result" where
  "text_result oc reason = \<lparr>tr_outcome = oc, tr_parts = [ContentPart ''text'' (JStr reason)]\<rparr>"

section \<open>Segments\<close>

text \<open>The arguments of \<open>_run\<close>.\<close>

record invocation =
  iv_owner :: string
  iv_key :: string
  iv_binding :: string
  iv_args :: json_object
  iv_print :: string
  iv_reply :: "reply option"

datatype tool_pc =
    Idle
  | Opening owner_record
  | Preparing owner_record "message list option"
  | Querying owner_record json
  | Authorizing owner_record json bool
  | Invoking owner_record json
  | Closing "tool_result res"
  | Returned tool_result
  | Raised py_error

datatype 'a answer = Answer 'a | Refused string | Broken py_error

definition phase_of :: "owner_record \<Rightarrow> string" where
  "phase_of r = (case map_of (rec_value r) ''phase'' of Some (JStr p) \<Rightarrow> p | _ \<Rightarrow> [])"

definition arguments_of :: "owner_record \<Rightarrow> json res" where
  "arguments_of r = item ''arguments'' (rec_value r)"

definition iv_finish :: "invocation \<Rightarrow> int \<Rightarrow> owner_record \<Rightarrow> tool_result \<Rightarrow> message_log \<Rightarrow> tool_result res \<times> message_log" where
  "iv_finish iv now r result s = finish_call (iv_owner iv) now (iv_key iv) (Some r) result (iv_reply iv) None s"

definition iv_save :: "invocation \<Rightarrow> int \<Rightarrow> owner_record option \<Rightarrow> pyval \<Rightarrow> message_log \<Rightarrow> owner_record res \<times> message_log" where
  "iv_save iv now previous v s = receipt_save (iv_owner iv) now (iv_key iv) previous v s"

definition iv_doc :: "invocation \<Rightarrow> string \<Rightarrow> pyval \<Rightarrow> pyval" where
  "iv_doc iv phase args = receipt_doc (iv_print iv) (iv_binding iv) (map_option rp_message (iv_reply iv)) phase args"

definition iv_check :: "invocation \<Rightarrow> message_log \<Rightarrow> unit res" where
  "iv_check iv s = (case iv_reply iv of None \<Rightarrow> Inr () | Some rp \<Rightarrow> reply_check rp s)"

text \<open>The outer handler: a cancelled run settles an effect that was started.\<close>

definition leave :: "invocation \<Rightarrow> int \<Rightarrow> py_error \<Rightarrow> message_log \<Rightarrow> tool_pc \<times> message_log" where
  "leave iv now e s =
     (if e \<noteq> CancelledError then (Raised e, s)
      else case owner_read s (iv_owner iv) (iv_key iv) of
          Inr (Some r) \<Rightarrow>
            (if phase_of r = ''started'' then (Raised e, snd (iv_finish iv now r (text_result Interrupted resumed_text) s))
             else (Raised e, s))
        | _ \<Rightarrow> (Raised e, s))"

definition run_begin :: "invocation \<Rightarrow> int \<Rightarrow> message_log \<Rightarrow> tool_pc \<times> message_log" where
  "run_begin iv now s =
     (case tool_record (iv_owner iv) (iv_key iv) (iv_print iv) s of
        Inl e \<Rightarrow> (Raised e, s)
      | Inr found \<Rightarrow>
          if map_option phase_of found = Some ''done'' then
            (case bindR (item ''result'' (rec_value (the found)))
                     (\<lambda>d. case iv_reply iv of None \<Rightarrow> read_result d | Some rp \<Rightarrow> reply_read rp s d) of
               Inl e \<Rightarrow> (Raised e, s)
             | Inr r \<Rightarrow> (Returned r, s))
          else case iv_check iv s of
              Inl e \<Rightarrow> leave iv now e s
            | Inr u \<Rightarrow>
                (case found of
                   Some r \<Rightarrow> (Opening r, s)
                 | None \<Rightarrow>
                     (case iv_save iv now None (iv_doc iv ''requested'' (frozen_value (JObj (iv_args iv)))) s of
                        (Inl e, s') \<Rightarrow> leave iv now e s'
                      | (Inr r, s') \<Rightarrow> (Opening r, s'))))"

text \<open>Steps 3 and 4 begin with the final arguments.\<close>

definition run_prepared :: "owner_record \<Rightarrow> message_log \<Rightarrow> tool_pc \<times> message_log" where
  "run_prepared r s =
     (case arguments_of r of
        Inl e \<Rightarrow> (Closing (Inl e), s)
      | Inr a \<Rightarrow> (if phase_of r = ''started'' then Querying r a else Authorizing r a False, s))"

definition run_opened :: "invocation \<Rightarrow> int \<Rightarrow> owner_record \<Rightarrow> bool \<Rightarrow> unit res \<Rightarrow> message_log \<Rightarrow> tool_pc \<times> message_log" where
  "run_opened iv now r active opened s =
     (case opened of
        Inl e \<Rightarrow> leave iv now e s
      | Inr u \<Rightarrow>
          if \<not> active then (Closing (Inl CancelledError), s)
          else if phase_of r = ''requested'' then
            (case iv_reply iv of
               None \<Rightarrow> (Preparing r None, s)
             | Some rp \<Rightarrow> (case call_source rp s of Inl e \<Rightarrow> (Closing (Inl e), s) | Inr ms \<Rightarrow> (Preparing r (Some ms), s)))
          else run_prepared r s)"

definition run_answered :: "invocation \<Rightarrow> int \<Rightarrow> owner_record \<Rightarrow> bool \<Rightarrow> pyval answer \<Rightarrow> message_log \<Rightarrow> tool_pc \<times> message_log" where
  "run_answered iv now r active prepared s =
     (case prepared of
        Broken e \<Rightarrow> (Closing (Inl e), s)
      | Refused reason \<Rightarrow> (case iv_finish iv now r (text_result Errored reason) s of (out, s') \<Rightarrow> (Closing out, s'))
      | Answer v \<Rightarrow>
          (case freeze_json v of
             Inl e \<Rightarrow> (Closing (Inl e), s)
           | Inr final \<Rightarrow>
               if \<not> is_mapping v then (Closing (Inl TypeError), s)
               else if \<not> active then (Closing (Inl CancelledError), s)
               else case iv_save iv now (Some r) (iv_doc iv ''prepared'' (frozen_value final)) s of
                   (Inl e, s') \<Rightarrow> (Closing (Inl e), s')
                 | (Inr r', s') \<Rightarrow> run_prepared r' s'))"

definition run_queried :: "invocation \<Rightarrow> int \<Rightarrow> owner_record \<Rightarrow> json \<Rightarrow> bool \<Rightarrow> tool_result option res \<Rightarrow> message_log \<Rightarrow> tool_pc \<times> message_log" where
  "run_queried iv now r args idempotent found s =
     (case found of
        Inl e \<Rightarrow> (Closing (Inl e), s)
      | Inr (Some result) \<Rightarrow> (case iv_finish iv now r result s of (out, s') \<Rightarrow> (Closing out, s'))
      | Inr None \<Rightarrow>
          if idempotent then (Authorizing r args True, s)
          else case iv_finish iv now r (text_result Errored lost_text) s of (out, s') \<Rightarrow> (Closing out, s'))"

text \<open>The authorization answers the permission; \<open>start\<close> is the answer of \<open>check_start\<close>.\<close>

definition run_authorized ::
  "invocation \<Rightarrow> int \<Rightarrow> owner_record \<Rightarrow> json \<Rightarrow> bool \<Rightarrow> bool \<Rightarrow> pyval answer \<Rightarrow> unit answer \<Rightarrow> message_log \<Rightarrow> tool_pc \<times> message_log" where
  "run_authorized iv now r args was_started active permission start s =
     (let refused = (\<lambda>reason. case iv_finish iv now r (text_result (if was_started then Interrupted else Denied) reason) s of
                       (out, s') \<Rightarrow> (Closing out, s'));
          go = (\<lambda>p. if \<not> active then (Closing (Inl CancelledError), s)
                    else case iv_check iv s of
                        Inl e \<Rightarrow> (Closing (Inl e), s)
                      | Inr u \<Rightarrow>
                          (case iv_save iv now (Some r) (started_doc (rec_value r) p) s of
                             (Inl e, s') \<Rightarrow> (Closing (Inl e), s')
                           | (Inr r', s') \<Rightarrow> (Invoking r' args, s'))) in
      case permission of
        Broken e \<Rightarrow> (Closing (Inl e), s)
      | Refused reason \<Rightarrow> refused reason
      | Answer p \<Rightarrow>
          if iv_reply iv = None then go p
          else case start of
              Broken e \<Rightarrow> (Closing (Inl e), s)
            | Refused reason \<Rightarrow> refused reason
            | Answer u \<Rightarrow> go p)"

text \<open>The tool returned, or raised an exception of the class named; what \<open>finish\<close> raises then is dropped.\<close>

definition run_invoked ::
  "invocation \<Rightarrow> int \<Rightarrow> owner_record \<Rightarrow> (py_error \<times> string) + tool_result \<Rightarrow> message_log \<Rightarrow> tool_pc \<times> message_log" where
  "run_invoked iv now r response s =
     (case response of
        Inr result \<Rightarrow> (case iv_finish iv now r result s of (out, s') \<Rightarrow> (Closing out, s'))
      | Inl (e, name) \<Rightarrow>
          (Closing (Inl e), snd (iv_finish iv now r
             (if e = CancelledError then text_result Interrupted cancelled_text
              else text_result Errored (failed_text @ name @ effect_text)) s)))"

definition run_closed :: "invocation \<Rightarrow> int \<Rightarrow> tool_result res \<Rightarrow> py_error option \<Rightarrow> message_log \<Rightarrow> tool_pc \<times> message_log" where
  "run_closed iv now out exit s =
     (case exit of
        Some e \<Rightarrow> leave iv now e s
      | None \<Rightarrow> (case out of Inl e \<Rightarrow> leave iv now e s | Inr r \<Rightarrow> (Returned r, s)))"

section \<open>Settling without running\<close>

definition deny_run :: "invocation \<Rightarrow> int \<Rightarrow> reply \<Rightarrow> string \<Rightarrow> message_log \<Rightarrow> tool_result res \<times> message_log" where
  "deny_run iv now rp reason s =
     (case tool_record (iv_owner iv) (iv_key iv) (iv_print iv) s of
        Inl e \<Rightarrow> (Inl e, s)
      | Inr found \<Rightarrow>
          if map_option phase_of found = Some ''done'' then
            (bindR (item ''result'' (rec_value (the found))) (reply_read rp s), s)
          else case reply_check rp s of
              Inl e \<Rightarrow> (Inl e, s)
            | Inr u \<Rightarrow>
                (let settle = (\<lambda>r s. finish_call (iv_owner iv) now (iv_key iv) (Some r)
                       (text_result (if phase_of r = ''started'' then Interrupted else Denied) reason) (Some rp) None s) in
                 case found of
                   Some r \<Rightarrow> settle r s
                 | None \<Rightarrow>
                     (case iv_save iv now None (iv_doc iv ''prepared'' (frozen_value (JObj (iv_args iv)))) s of
                        (Inl e, s') \<Rightarrow> (Inl e, s')
                      | (Inr r, s') \<Rightarrow> settle r s')))"

text \<open>The identity of the reply a receipt was made for; old receipts do not name it.\<close>

definition abandon_target :: "reply \<Rightarrow> owner_record option \<Rightarrow> reply res" where
  "abandon_target rp found =
     (let renamed = (\<lambda>i. if i = [] then Inl ValueError else Inr (rp\<lparr>rp_message := i\<rparr>)) in
      case found of
        None \<Rightarrow> Inr rp
      | Some r \<Rightarrow>
          (case map_of (rec_value r) ''reply_id'' of
             Some (JStr i) \<Rightarrow> renamed i
           | Some _ \<Rightarrow> Inl ValueError
           | None \<Rightarrow>
               bindR (item ''phase'' (rec_value r)) (\<lambda>p.
               if p \<noteq> JStr ''done'' then Inr rp
               else case map_of (rec_value r) ''result'' of
                   Some (JObj d) \<Rightarrow> (case map_of d ''message_id'' of Some (JStr i) \<Rightarrow> renamed i | _ \<Rightarrow> Inr rp)
                 | _ \<Rightarrow> Inr rp)))"

definition answers_call :: "call_ref \<Rightarrow> message \<Rightarrow> bool" where
  "answers_call ref m \<longleftrightarrow> result_ref (m_body m) = Some ref"

definition result_of :: "message \<Rightarrow> tool_result" where
  "result_of m = (case m_body m of ToolResult l r oc ps \<Rightarrow> \<lparr>tr_outcome = oc, tr_parts = ps\<rparr>
     | _ \<Rightarrow> text_result Errored [])"

text \<open>A call without a receipt may have been answered by a message already.\<close>

definition earlier_result :: "reply \<Rightarrow> owner_record option \<Rightarrow> message_log \<Rightarrow> tool_result option res" where
  "earlier_result rp found s =
     (if found \<noteq> None then Inr None
      else bindR (snapshot s (rp_reader rp) (- 1) None) (\<lambda>ms.
        Inr (map_option result_of (find (answers_call (rp_call rp)) ms))))"

definition abandon_request :: "reply \<Rightarrow> owner_record option \<Rightarrow> message_log \<Rightarrow> (reply \<times> string \<times> json_object) res" where
  "abandon_request rp found s =
     bindR (abandon_target rp found) (\<lambda>target. bindR (call_request target s) (\<lambda>(binding, args). Inr (target, binding, args)))"

text \<open>The receipt must be of this request and still open; whether the effect was started.\<close>

definition abandon_check :: "string \<Rightarrow> owner_record \<Rightarrow> string res" where
  "abandon_check print r =
     bindR (item ''request'' (rec_value r)) (\<lambda>q.
     if q \<noteq> JStr print then
       Inl (if ''reply_id'' \<notin> set (keys (rec_value r)) then LegacyReplyIdentity else ValueError)
     else bindR (item ''phase'' (rec_value r)) (\<lambda>p.
     if \<not> hashable (frozen_value p) then Inl TypeError
     else if p \<notin> JStr ` {''requested'', ''prepared'', ''started'', ''done''} then Inl ValueError
     else Inr (phase_of r)))"

definition abandon_finish ::
  "string \<Rightarrow> int \<Rightarrow> string \<Rightarrow> owner_record option \<Rightarrow> bool \<Rightarrow> reply \<Rightarrow> json_object \<Rightarrow> message_log
     \<Rightarrow> (tool_result res \<times> bool) \<times> message_log" where
  "abandon_finish owner now key found started target initial s =
     (case finish_call owner now key found
             (if started then text_result Interrupted abandoned_started_text else text_result Denied abandoned_text)
             (Some target) (Some initial) s of
        (Inl e, s') \<Rightarrow> ((Inl e, False), s')
      | (Inr r, s') \<Rightarrow> ((Inr r, True), s'))"

text \<open>\<open>abandon_call\<close> inside the admission. The Boolean says that the running task is cancelled.\<close>

definition abandon_settle ::
  "(string \<Rightarrow> string) \<Rightarrow> string \<Rightarrow> int \<Rightarrow> reply \<Rightarrow> message_log \<Rightarrow> (tool_result res \<times> bool) \<times> message_log" where
  "abandon_settle sha256 owner now rp s =
     (let key = durable_call_key (rp_call rp) in
      case bindR (owner_read s owner key) (\<lambda>found. bindR (earlier_result rp found s) (\<lambda>earlier. Inr (found, earlier))) of
        Inl e \<Rightarrow> ((Inl e, False), s)
      | Inr (found, Some r) \<Rightarrow> ((Inr r, True), s)
      | Inr (found, None) \<Rightarrow>
          (case abandon_request rp found s of
             Inl e \<Rightarrow> ((Inl e, False), s)
           | Inr (target, binding, args) \<Rightarrow>
               (let print = fingerprint sha256 binding args (Some target);
                    initial = [(''version'', JInt 1), (''request'', JStr print), (''binding'', JStr binding),
                      (''reply_id'', JStr (rp_message target)), (''arguments'', JObj args)] in
                case found of
                  None \<Rightarrow> abandon_finish owner now key found False target initial s
                | Some r \<Rightarrow>
                    (case abandon_check print r of
                       Inl e \<Rightarrow> ((Inl e, False), s)
                     | Inr phase \<Rightarrow>
                         if phase = ''done'' then ((bindR (item ''result'' (rec_value r)) (reply_read target s), True), s)
                         else abandon_finish owner now key found (phase = ''started'') target initial s))))"

text \<open>The calls an abandon closes.\<close>

definition abandoned_step :: "string \<Rightarrow> int \<Rightarrow> message \<Rightarrow> call_ref list \<Rightarrow> call_ref list" where
  "abandoned_step source through m calls =
     (if m_source m \<noteq> source then calls
      else case m_body m of
          Output ps f \<Rightarrow>
            (if through < m_seq m then calls
             else if f \<noteq> Continue then []
             else fold (\<lambda>r cs. if r \<in> set cs then cs else cs @ [r]) (message_calls m) calls)
        | _ \<Rightarrow> calls)"

definition abandoned_calls :: "message list \<Rightarrow> string \<Rightarrow> int \<Rightarrow> call_ref list" where
  "abandoned_calls ms source through = fold (abandoned_step source through) ms []"

section \<open>The waiter\<close>

text \<open>What a waiter sees of the receipt: a result, once the call is both done and abandoned.\<close>

definition recorded_result :: "invocation \<Rightarrow> reply \<Rightarrow> message_log \<Rightarrow> tool_result option res" where
  "recorded_result iv rp s =
     bindR (tool_record (iv_owner iv) (iv_key iv) (iv_print iv) s) (\<lambda>found.
     if map_option phase_of found \<noteq> Some ''done'' then Inr None
     else bindR (item ''result'' (rec_value (the found))) (\<lambda>d. bindR (reply_read rp s d) (\<lambda>r.
       bindR (reply_abandoned rp s) (\<lambda>a. Inr (if a then Some r else None)))))"

text \<open>The task of the call ended with \<open>joined\<close>; a settled, abandoned receipt wins.\<close>

definition wait_joined :: "invocation \<Rightarrow> tool_result res \<Rightarrow> message_log \<Rightarrow> tool_result res" where
  "wait_joined iv joined s =
     (case iv_reply iv of
        None \<Rightarrow> joined
      | Some rp \<Rightarrow> bindR (recorded_result iv rp s) (\<lambda>r. case r of Some x \<Rightarrow> Inr x | None \<Rightarrow> joined))"

text \<open>The last check of \<open>_execute\<close>.\<close>

definition execute_end :: "invocation \<Rightarrow> tool_result \<Rightarrow> message_log \<Rightarrow> tool_result res" where
  "execute_end iv result s =
     bindR (owner_read s (iv_owner iv) (iv_key iv)) (\<lambda>found. case found of
       None \<Rightarrow> Inl ValueError
     | Some r \<Rightarrow> bindR (item ''request'' (rec_value r)) (\<lambda>q. if q \<noteq> JStr (iv_print iv) then Inl ValueError else Inr result))"

text \<open>The invocations of \<open>execute\<close> and \<open>execute_call\<close>.\<close>

definition program_call :: "(string \<Rightarrow> string) \<Rightarrow> string \<Rightarrow> string \<Rightarrow> string \<Rightarrow> pyval \<Rightarrow> invocation res" where
  "program_call sha256 owner key binding arguments =
     (if key = [] then Inl ValueError
      else if binding = [] then Inl ValueError
      else if \<not> is_mapping arguments then Inl TypeError
      else bindR (freeze_json arguments) (\<lambda>j.
        Inr \<lparr>iv_owner = owner, iv_key = ''program:'' @ key, iv_binding = binding, iv_args = obj_items j,
          iv_print = fingerprint sha256 binding (obj_items j) None, iv_reply = None\<rparr>))"

definition message_call :: "(string \<Rightarrow> string) \<Rightarrow> string \<Rightarrow> reply \<Rightarrow> message_log \<Rightarrow> invocation res" where
  "message_call sha256 owner rp s =
     bindR (call_request rp s) (\<lambda>(binding, args).
       Inr \<lparr>iv_owner = owner, iv_key = durable_call_key (rp_call rp), iv_binding = binding, iv_args = args,
         iv_print = fingerprint sha256 binding args (Some rp), iv_reply = Some rp\<rparr>)"

end
