(* ===== verification/Tool_State.thy ===== *)
theory Tool_State
  imports Tool_Execution Log_Properties
begin

text \<open>
  Facts about the receipt of a tool call: its documents, what saving and finishing establish, and the
  order in which its states follow each other.
\<close>

section \<open>Documents up to the order of keys\<close>

definition same_at :: "string \<Rightarrow> json_object \<Rightarrow> json_object \<Rightarrow> bool" where
  "same_at k d d' \<longleftrightarrow> map_option json_sorted (map_of d k) = map_option json_sorted (map_of d' k)"

lemma same_at_refl [simp]: "same_at k d d"
  by (simp add: same_at_def)

lemma same_at_sym: "same_at k d d' \<Longrightarrow> same_at k d' d"
  by (simp add: same_at_def)

lemma same_at_trans: "same_at k a b \<Longrightarrow> same_at k b c \<Longrightarrow> same_at k a c"
  by (simp add: same_at_def)

lemma sorted_is_str [simp]: "json_sorted j = JStr p \<longleftrightarrow> j = JStr p" "JStr p = json_sorted j \<longleftrightarrow> j = JStr p"
  by (cases j; auto)+

lemma same_at_str: "same_at k d d' \<Longrightarrow> map_of d k = Some (JStr p) \<Longrightarrow> map_of d' k = Some (JStr p)"
  by (cases "map_of d' k") (auto simp: same_at_def)

lemma phase_same: "same_at ''phase'' d d' \<Longrightarrow> phase_of \<lparr>rec_version = v, rec_value = d\<rparr> = phase_of \<lparr>rec_version = v', rec_value = d'\<rparr>"
  by (auto simp: same_at_def phase_of_def split: option.splits json.splits)

lemma phase_of_same: "same_at ''phase'' (rec_value r) (rec_value r') \<Longrightarrow> phase_of r = phase_of r'"
  using phase_same[of "rec_value r" "rec_value r'" "rec_version r" "rec_version r'"] by (simp add: phase_of_def)

lemma sorted_object_at:
  assumes "distinct (keys d)"
  shows "map_of (obj_items (json_sorted (JObj d))) k = map_option json_sorted (map_of d k)"
  using assms by (simp add: map_of_sorted_items)

lemma sorted_at_same: "map_of d k = map_option json_sorted (map_of d' k) \<Longrightarrow> same_at k d d'"
  by (simp add: same_at_def option.map_comp comp_def)

lemma freeze_py_dict:
  assumes "freeze_json (py_dict d) = Inr (JObj q)"
  shows "map_of d k = Some v \<Longrightarrow> \<exists>j. freeze_json v = Inr j \<and> map_of q k = Some j"
    and "map_of d k = None \<Longrightarrow> map_of q k = None"
proof -
  have "seqR (map (\<lambda>p. bindR (freeze_json (snd p)) (\<lambda>v. Inr (fst p, v))) d) = Inr q"
    using assms by (simp add: py_dict_def comp_def res_simps split: if_splits)
  then have l: "list_all2 (\<lambda>p x. freeze_json (snd p) = Inr (snd x) \<and> fst x = fst p) d q"
  proof (induction d arbitrary: q)
    case (Cons p d)
    then show ?case by (auto simp: res_simps list_all2_Cons1)
  qed simp
  from l show "map_of d k = Some v \<Longrightarrow> \<exists>j. freeze_json v = Inr j \<and> map_of q k = Some j"
    by (induction rule: list_all2_induct) (auto split: if_splits)
  from l show "map_of d k = None \<Longrightarrow> map_of q k = None"
    by (induction rule: list_all2_induct) (auto split: if_splits)
qed

lemma frozen_items_at: "map_of (frozen_items d) k = map_option frozen_value (map_of d k)"
  by (simp add: frozen_items_def map_of_map map_prod_def)

lemma frozen_items_wf: "wf_json (JObj d) \<Longrightarrow> distinct (keys (frozen_items d)) \<and> (\<forall>p \<in> set (frozen_items d). wf_pyval (snd p))"
  by (auto simp: frozen_items_def list_all_iff comp_def)

lemma updated_doc_at:
  assumes "freeze_json (py_dict (AList.update a x (AList.update b y (frozen_items d)))) = Inr (JObj q)" and "a \<noteq> b"
  shows "\<exists>j. freeze_json x = Inr j \<and> map_of q a = Some j" "\<exists>j. freeze_json y = Inr j \<and> map_of q b = Some j"
    "k \<notin> {a, b} \<Longrightarrow> map_of q k = map_of d k"
proof -
  note f = freeze_py_dict[OF assms(1)]
  show "\<exists>j. freeze_json x = Inr j \<and> map_of q a = Some j" by (rule f(1)) (simp add: map_of_update)
  show "\<exists>j. freeze_json y = Inr j \<and> map_of q b = Some j" using assms(2) by (intro f(1)) (simp add: map_of_update)
  show "k \<notin> {a, b} \<Longrightarrow> map_of q k = map_of d k"
  proof (cases "map_of d k")
    case None
    then show "k \<notin> {a, b} \<Longrightarrow> ?thesis" using f(2)[of k] by (simp add: map_of_update frozen_items_at)
  next
    case (Some j)
    then show "k \<notin> {a, b} \<Longrightarrow> ?thesis" using f(1)[of k "frozen_value j"] by (simp add: map_of_update frozen_items_at)
  qed
qed

lemma updated_doc_wf:
  assumes "wf_json (JObj d)" and "wf_pyval x" "wf_pyval y"
  shows "wf_pyval (py_dict (AList.update a x (AList.update b y (frozen_items d))))"
  unfolding wf_py_dict
proof (intro conjI ballI)
  show "distinct (keys (AList.update a x (AList.update b y (frozen_items d))))"
    using frozen_items_wf[OF assms(1)] by simp
  show "wf_pyval (snd p)" if "p \<in> set (AList.update a x (AList.update b y (frozen_items d)))" for p
    using that frozen_items_wf[OF assms(1)] assms(2,3) in_set_update[of "fst p" "snd p"] by (metis prod.collapse)
qed

lemma receipt_doc_wf: "wf_pyval args \<Longrightarrow> wf_pyval (receipt_doc print binding rid phase args)"
  by (auto simp: receipt_doc_def wf_py_dict split: option.split)

lemma receipt_doc_at:
  assumes "freeze_json (receipt_doc print binding rid phase args) = Inr (JObj q)"
  shows "map_of q ''version'' = Some (JInt 1)" "map_of q ''request'' = Some (JStr print)" "map_of q ''phase'' = Some (JStr phase)"
    "\<exists>j. freeze_json args = Inr j \<and> map_of q ''arguments'' = Some j"
proof -
  note f = freeze_py_dict(1)[OF assms[unfolded receipt_doc_def]]
  show "map_of q ''version'' = Some (JInt 1)" using f[of "''version''" "VInt 1"] by simp
  show "map_of q ''request'' = Some (JStr print)" using f[of "''request''" "VStr print"] by simp
  show "map_of q ''phase'' = Some (JStr phase)" using f[of "''phase''" "VStr phase"] by simp
  show "\<exists>j. freeze_json args = Inr j \<and> map_of q ''arguments'' = Some j" using f[of "''arguments''" args] by simp
qed

section \<open>Saving a receipt\<close>

definition current :: "string \<Rightarrow> string \<Rightarrow> message_log \<Rightarrow> owner_record option" where
  "current ow key s = (case owner_read s ow key of Inr c \<Rightarrow> c | Inl e \<Rightarrow> None)"

definition phase_at :: "string \<Rightarrow> string \<Rightarrow> message_log \<Rightarrow> string option" where
  "phase_at ow key s = map_option phase_of (current ow key s)"

lemma store_current: "wf_store s \<Longrightarrow> owner_read s ow key = Inr (current ow key s)"
  using owner_read_total[of s ow key] by (auto simp: wf_store_def current_def)

lemma current_cong: "owner_row t ow key = owner_row s ow key \<Longrightarrow> current ow key t = current ow key s"
  by (simp add: current_def owner_read_def)

lemma current_in_tx [simp]: "current ow key (s\<lparr>in_tx := x\<rparr>) = current ow key s"
  by (simp add: current_def owner_read_def owner_row_def)

lemma current_wf: "wf_store s \<Longrightarrow> current ow key s = Some c \<Longrightarrow> wf_json (JObj (rec_value c)) \<and> 0 \<le> rec_version c"
proof -
  assume wf: "wf_store s" and c: "current ow key s = Some c"
  obtain row where row: "owner_row s ow key = Some row" and r: "owner_record_of row = Inr c"
    using c by (auto simp: current_def owner_read_def res_simps split: option.splits sum.splits)
  obtain kvs where "0 \<le> o_version row" "wf_json (o_value row)" "o_value row = JObj kvs"
    using owner_row_mem[OF row] wf unfolding wf_store_def wf_owner_rows_def by blast
  then show ?thesis using r owner_record_of_wf[of row kvs] by auto
qed

lemma transact_save:
  "transact ow now (Save key v ver (\<lambda>r. case r of Inl e \<Rightarrow> Raise e | Inr x \<Rightarrow> Return (f x))) s =
     (if in_tx s then (Inl RuntimeError, s)
      else case owner_save ow key v ver (s\<lparr>in_tx := True\<rparr>) of
          Inl e \<Rightarrow> (Inl e, s)
        | Inr (r, t) \<Rightarrow> (Inr (f r), t\<lparr>in_tx := False\<rparr>))"
  by (auto simp: transact_def write_tx_def perform_def split: sum.splits)

text \<open>What a save of the machine establishes.\<close>

definition saved :: "string \<Rightarrow> string \<Rightarrow> int option \<Rightarrow> pyval \<Rightarrow> message_log \<Rightarrow> owner_record \<Rightarrow> message_log \<Rightarrow> bool" where
  "saved ow key ver v s r s' \<longleftrightarrow> wf_store s' \<and> extends s s' \<and> messages s' = messages s
     \<and> map_option rec_version (current ow key s) = ver
     \<and> rec_version r = (case ver of None \<Rightarrow> 0 | Some n \<Rightarrow> n + 1)
     \<and> freeze_json v = Inr (JObj (rec_value r)) \<and> wf_json (JObj (rec_value r))
     \<and> (\<exists>c. current ow key s' = Some c \<and> rec_version c = rec_version r
          \<and> (\<forall>k. map_of (rec_value c) k = map_option json_sorted (map_of (rec_value r) k)))"

lemma owner_save_saved:
  assumes sv: "owner_save ow key v ver s = Inr (r, t)" and wf: "wf_store s" "wf_pyval v"
  shows "saved ow key ver v s r t"
proof -
  have rows: "wf_owner_rows s" using wf(1) by (simp add: wf_store_def)
  note eff = owner_save_effect[OF sv rows wf(2)]
  then obtain c where c: "owner_read s ow key = Inr c" "map_option rec_version c = ver"
    "rec_version r = (case c of None \<Rightarrow> 0 | Some x \<Rightarrow> rec_version x + 1)" by blast
  have fr: "freeze_json v = Inr (JObj (rec_value r))" using eff by blast
  have wfr: "wf_json (JObj (rec_value r))" using wf_freeze_json[OF wf(2) fr] .
  have t: "t = s\<lparr>owner_records := owner_records t\<rparr>" using eff by blast
  have "messages t = messages s" by (subst t) simp
  moreover have "\<forall>k. map_of (obj_items (json_sorted (JObj (rec_value r)))) k = map_option json_sorted (map_of (rec_value r) k)"
    using sorted_object_at wfr by simp
  moreover have "current ow key t = Some (r\<lparr>rec_value := obj_items (json_sorted (JObj (rec_value r)))\<rparr>)"
    using eff by (simp add: current_def)
  moreover have "current ow key s = c" using c(1) by (simp add: current_def)
  ultimately show ?thesis
    using owner_save_wf[OF sv wf] c(2,3) fr wfr by (auto simp: saved_def split: option.splits)
qed

lemma saved_in_tx: "saved ow key ver v (s\<lparr>in_tx := x\<rparr>) r t \<Longrightarrow> saved ow key ver v s r (t\<lparr>in_tx := y\<rparr>)"
  by (auto simp: saved_def wf_store_in_tx extends_def)

lemma receipt_saved:
  assumes "receipt_save ow now key prev v s = (Inr r, s')" and "wf_store s" "wf_pyval v"
  shows "saved ow key (map_option rec_version prev) v s r s'"
proof -
  obtain t where "owner_save ow key v (map_option rec_version prev) (s\<lparr>in_tx := True\<rparr>) = Inr (r, t)" "s' = t\<lparr>in_tx := False\<rparr>"
    using assms(1) transact_save[where f = "\<lambda>x. x", of ow now key v "map_option rec_version prev" s]
    unfolding receipt_save_def by (auto split: if_splits sum.splits)
  then show ?thesis using owner_save_saved[of ow key v _ "s\<lparr>in_tx := True\<rparr>" r t] assms(2,3) saved_in_tx
    by (metis wf_store_in_tx)
qed

lemma receipt_unsaved: "receipt_save ow now key prev v s = (Inl e, s') \<Longrightarrow> s' = s"
  unfolding receipt_save_def by (rule transact_error)

section \<open>Finishing\<close>

definition wf_result :: "tool_result \<Rightarrow> bool" where
  "wf_result r \<longleftrightarrow> list_all wf_part (tr_parts r) \<and> \<not> list_ex is_tool_call (tr_parts r)"

definition sorted_result :: "tool_result \<Rightarrow> tool_result" where
  "sorted_result r = r\<lparr>tr_parts := map sorted_part (tr_parts r)\<rparr>"

definition wf_reply :: "reply \<Rightarrow> bool" where
  "wf_reply rp \<longleftrightarrow> wf_writer (rp_writer rp) \<and> rp_reader rp = w_session (rp_writer rp) \<and> ref_message (rp_call rp) \<noteq> []"

definition receipt_result :: "reply option \<Rightarrow> message_log \<Rightarrow> json \<Rightarrow> tool_result res" where
  "receipt_result rp s d = (case rp of None \<Rightarrow> read_result d | Some rp \<Rightarrow> reply_read rp s d)"

lemma text_result_wf [simp]: "wf_result (text_result oc reason)"
  by (simp add: wf_result_def text_result_def)

fun content_json :: "part \<Rightarrow> json" where
  "content_json (ContentPart k v) = JObj [(''kind'', JStr k), (''value'', v)]"
| "content_json (ToolCall b args) = JNull"

lemma freeze_result:
  assumes "wf_result r"
  shows "freeze_json (result_value r)
     = Inr (JObj [(''outcome'', JStr (outcome_name (tr_outcome r))), (''parts'', JArr (map content_json (tr_parts r)))])"
proof -
  have "freeze_json (part_value p) = Inr (content_json p)" if "p \<in> set (tr_parts r)" for p
    using assms that by (cases p) (auto simp: wf_result_def list_ex_iff part_value_def py_dict_def)
  then have "seqR (map freeze_json (map part_value (tr_parts r))) = Inr (map content_json (tr_parts r))"
    unfolding map_map by (intro seqR_all_Inr) simp
  then show ?thesis by (simp add: result_value_def py_dict_def)
qed

lemma result_value_wf: "wf_result r \<Longrightarrow> wf_pyval (result_value r)"
  by (auto simp: result_value_def wf_py_dict wf_result_def part_value_def list_all_iff split: part.split)

lemma read_content:
  assumes "wf_part p" and "\<not> is_tool_call p"
  shows "read_part (json_sorted (content_json p)) = Inr (sorted_part p)"
  using assms by (cases p) (simp_all add: read_part_def item_def)

lemma read_saved_result:
  assumes "wf_result r"
  shows "read_result (json_sorted (JObj [(''outcome'', JStr (outcome_name (tr_outcome r))), (''parts'', JArr (map content_json (tr_parts r)))]))
     = Inr (sorted_result r)"
proof -
  have "mapR read_part (map json_sorted (map content_json (tr_parts r))) = Inr (map sorted_part (tr_parts r))"
  proof -
    have "mapR read_part (map (\<lambda>p. json_sorted (content_json p)) ps) = Inr (map sorted_part ps)"
      if "\<forall>p \<in> set ps. wf_part p \<and> \<not> is_tool_call p" for ps
      using that by (induction ps) (simp_all add: read_content)
    then show ?thesis using assms by (simp add: wf_result_def list_all_iff list_ex_iff comp_def)
  qed
  moreover have "\<not> list_ex is_tool_call (map sorted_part (tr_parts r))"
  proof -
    have "is_tool_call (sorted_part p) = is_tool_call p" for p by (cases p) simp_all
    then show ?thesis using assms by (simp add: wf_result_def list_ex_iff)
  qed
  moreover have "outcome_name (tr_outcome r) \<noteq> ''unknown''" by (cases "tr_outcome r") simp_all
  ultimately show ?thesis
    by (simp add: read_result_def item_def mk_Result_def sorted_result_def as_outcome_name)
qed

lemma append_in_history:
  assumes a: "append_message now w mid b h md s = Inr (m, t)" and wf: "wf_log s" "wf_body b" "pred_option wf_pyval md" "wf_writer w"
  shows "\<exists>x \<in> set (session_history t (w_session w)). m_id x = mid \<and> m_id m = mid \<and> m_seq x = m_seq m \<and> m_body x = sorted_body b"
proof (cases "find_message s mid")
  case None
  have "session_history t (w_session w) = session_history s (w_session w) @ [stored_message m]"
    using append_history[OF a None wf] by blast
  moreover have "m_id m = mid" "m_body m = b"
    using append_known_committed[OF a None] by (auto simp: committed_def commit_message_def res_simps mk_Message_iff Let_def)
  ultimately show ?thesis by (auto simp: stored_message_def)
next
  case (Some row)
  have k: "t = s" "message_of s row = Inr m" "encode_body b True = Inr (r_body row)" "r_session row = w_session w"
    using append_known[OF a Some] by auto
  have row: "row \<in> set (messages s)" "r_id row = mid" using find_message_mem[OF Some] by auto
  have "m_body m = sorted_body b"
    using k(2) encode_sorted_body[OF k(3) wf(2)] by (auto simp: message_of_def res_simps mk_Message_iff)
  moreover have "m \<in> set (session_history t (w_session w))"
    using row k by (force simp: session_history_def session_rows_def)
  ultimately show ?thesis using message_of_fields[OF k(2)] row(2) by blast
qed

lemma pointer_seq_nonneg:
  assumes "pointer_seq mid d = Inr n"
  shows "0 \<le> n"
proof (cases "map_of (obj_items d) ''seq''")
  case None
  then show ?thesis using assms unfolding pointer_seq_def None by (simp split: if_split_asm)
next
  case (Some j)
  then show ?thesis using assms unfolding pointer_seq_def by (cases j) (simp_all split: if_split_asm)
qed

lemma reply_read_history:
  assumes wf: "wf_log s" and d: "pointer_seq (rp_message rp) d = Inr n"
  shows "reply_read rp s d = Inr r \<longleftrightarrow>
    (\<exists>x l. x \<in> set (session_history s (rp_reader rp)) \<and> m_seq x = n \<and> m_id x = rp_message rp
       \<and> m_body x = ToolResult l (rp_call rp) (tr_outcome r) (tr_parts r))"
proof -
  let ?H = "session_history s (rp_reader rp)"
  have n: "0 \<le> n" by (rule pointer_seq_nonneg[OF d])
  have range: "read_range s (rp_reader rp) (n - 1) (Some n) None 1 = Inr (take 1 (filter (\<lambda>m. n - 1 < m_seq m \<and> m_seq m \<le> n) ?H))"
    using read_range_history[OF wf, of 1 "n - 1"] n by simp
  show ?thesis
  proof (cases "\<exists>x \<in> set ?H. m_seq x = n")
    case True
    then obtain x where x: "x \<in> set ?H" "m_seq x = n" by blast
    have asc: "ascending m_seq ?H" by (rule session_history_ascending[OF wf])
    obtain pre post where s: "?H = pre @ x # post" using x(1) split_list by metis
    have lt: "\<forall>m \<in> set pre. m_seq m < n" "\<forall>m \<in> set post. n < m_seq m"
      using asc x(2) unfolding s by (auto simp: sorted_wrt_append)
    then have "filter (\<lambda>m. n - 1 < m_seq m \<and> m_seq m \<le> n) pre = []" "filter (\<lambda>m. n - 1 < m_seq m \<and> m_seq m \<le> n) post = []"
      by (force simp: filter_empty_conv)+
    then have rx: "read_range s (rp_reader rp) (n - 1) (Some n) None 1 = Inr [x]" using range x(2) by (simp add: s)
    have only: "y = x" if "y \<in> set ?H" "m_seq y = n" for y using that lt unfolding s by auto
    have one: "(\<exists>y l. y \<in> set ?H \<and> m_seq y = n \<and> Q y l) \<longleftrightarrow> (\<exists>l. Q x l)" for Q :: "message \<Rightarrow> bool \<Rightarrow> bool"
      using only x by metis
    have "reply_read rp s d = (if m_id x \<noteq> rp_message rp then Inl ValueError
          else case m_body x of
              ToolResult l r oc ps \<Rightarrow> (if r \<noteq> rp_call rp then Inl ValueError else Inr \<lparr>tr_outcome = oc, tr_parts = ps\<rparr>)
            | _ \<Rightarrow> Inl ValueError)"
      using rx d by (simp add: reply_read_def)
    then show ?thesis unfolding one by (cases r; cases "m_body x") auto
  next
    case False
    then have "filter (\<lambda>m. n - 1 < m_seq m \<and> m_seq m \<le> n) ?H = []" by (auto simp: filter_empty_conv)
    then show ?thesis using range d False by (auto simp: reply_read_def)
  qed
qed

lemma reply_read_later:
  assumes r: "reply_read rp s d = Inr r" and wf: "wf_log s" "wf_log t" and e: "extends s t"
  shows "reply_read rp t d = Inr r"
proof -
  obtain n where n: "pointer_seq (rp_message rp) d = Inr n" using r by (auto simp: reply_read_def res_simps)
  show ?thesis using r extends_history[OF e, of "rp_reader rp"]
    unfolding reply_read_history[OF wf(1) n] reply_read_history[OF wf(2) n] by auto
qed

lemma run_finish_save:
  "run_tx ow now (finish_save key value sv ver result) (False, u) =
     (case owner_save ow key (done_doc value sv) ver u of
        Inl e \<Rightarrow> (Inl e, (True, u))
      | Inr (r, t) \<Rightarrow> (Inr result, (False, t)))"
  by (auto simp: finish_save_def perform_def split: sum.splits)

definition finished :: "string \<Rightarrow> string \<Rightarrow> owner_record option \<Rightarrow> json_object \<Rightarrow> tool_result \<Rightarrow> reply option \<Rightarrow> message_log \<Rightarrow> message_log \<Rightarrow> bool" where
  "finished ow key rec value result rp s s' \<longleftrightarrow>
     map_option rec_version (current ow key s) = map_option rec_version rec \<and> phase_at ow key s \<noteq> Some ''done''
     \<and> (\<exists>c d. current ow key s' = Some c \<and> phase_of c = ''done''
          \<and> (\<forall>v. map_option rec_version (current ow key s) = Some v \<longrightarrow> rec_version c = v + 1)
          \<and> (\<forall>k. k \<notin> {''phase'', ''result''} \<longrightarrow> same_at k (rec_value c) value)
          \<and> map_of (rec_value c) ''result'' = Some d \<and> receipt_result rp s' d = Inr (sorted_result result))"

definition read_settled :: "string \<Rightarrow> string \<Rightarrow> reply option \<Rightarrow> tool_result \<Rightarrow> message_log \<Rightarrow> bool" where
  "read_settled ow key rp r s \<longleftrightarrow> (\<exists>c d. current ow key s = Some c \<and> phase_of c = ''done''
     \<and> map_of (rec_value c) ''result'' = Some d \<and> receipt_result rp s d = Inr r)"

lemma settled_receipt_cases:
  assumes "settled_receipt value rp s cur = Inr x"
  shows "(x = None \<and> map_option phase_of cur \<noteq> Some ''done'')
    \<or> (\<exists>c d r. cur = Some c \<and> x = Some r \<and> phase_of c = ''done'' \<and> map_of (rec_value c) ''result'' = Some d
         \<and> receipt_result rp s d = Inr r)"
proof (cases cur)
  case None
  then show ?thesis using assms by (simp add: settled_receipt_def)
next
  case (Some c)
  obtain p where p: "map_of (rec_value c) ''phase'' = Some p"
    using assms Some by (auto simp: settled_receipt_def item_def split: option.splits)
  show ?thesis
  proof (cases "p = JStr ''done''")
    case True
    then show ?thesis using assms Some p
      by (auto simp: settled_receipt_def item_def res_simps receipt_result_def phase_of_def split: option.splits if_splits)
  next
    case False
    then have "phase_of c \<noteq> ''done''" using p by (cases p) (simp_all add: phase_of_def)
    then show ?thesis using assms Some p False by (simp add: settled_receipt_def item_def)
  qed
qed

lemma finish_saved:
  assumes sv: "owner_save ow key (done_doc value sv) ver u = Inr (r, t)" and wf: "wf_store u" "wf_json (JObj value)" "wf_pyval sv"
  shows "saved ow key ver (done_doc value sv) u r t \<and> (\<exists>c j. current ow key t = Some c \<and> phase_of c = ''done''
    \<and> (\<forall>k. k \<notin> {''phase'', ''result''} \<longrightarrow> same_at k (rec_value c) value)
    \<and> freeze_json sv = Inr j \<and> map_of (rec_value c) ''result'' = Some (json_sorted j))"
proof -
  have "wf_pyval (done_doc value sv)" unfolding done_doc_def by (rule updated_doc_wf[OF wf(2,3)]) simp
  then have s: "saved ow key ver (done_doc value sv) u r t" by (rule owner_save_saved[OF sv wf(1)])
  then obtain c where c: "current ow key t = Some c" "\<forall>k. map_of (rec_value c) k = map_option json_sorted (map_of (rec_value r) k)"
    and f: "freeze_json (done_doc value sv) = Inr (JObj (rec_value r))" by (auto simp: saved_def)
  note u = updated_doc_at[OF f[unfolded done_doc_def]]
  obtain j where j: "freeze_json sv = Inr j" "map_of (rec_value r) ''result'' = Some j" using u(1) by auto
  have "map_of (rec_value r) ''phase'' = Some (JStr ''done'')" using u(2) by auto
  then have "phase_of c = ''done''" using c(2) by (simp add: phase_of_def)
  moreover have "same_at k (rec_value c) value" if "k \<notin> {''phase'', ''result''}" for k
    using c(2) u(3)[of k] that by (intro sorted_at_same) auto
  ultimately show ?thesis using s c j by simp
qed

lemma saved_version:
  assumes "saved ow key ver v s r t" and "current ow key t = Some c"
  shows "map_option rec_version (current ow key s) = ver" "ver = Some n \<Longrightarrow> rec_version c = n + 1"
  using assms by (auto simp: saved_def)

lemma finishedI:
  assumes "saved ow key (map_option rec_version rec) v s r t" and "phase_at ow key u \<noteq> Some ''done''"
    and "current ow key u = current ow key s"
    and "current ow key t = Some c" "phase_of c = ''done''" "\<forall>k. k \<notin> {''phase'', ''result''} \<longrightarrow> same_at k (rec_value c) value"
    and "map_of (rec_value c) ''result'' = Some d" "receipt_result rp t d = Inr (sorted_result result)"
  shows "finished ow key rec value result rp u t"
  unfolding finished_def assms(3)
  using assms(2,4-8) saved_version[OF assms(1,4)] by metis

lemma finish_program:
  assumes sv: "owner_save ow key (done_doc value (result_value result)) (map_option rec_version rec) u = Inr (r, t)"
    and wf: "wf_store u" "wf_json (JObj value)" "wf_result result" and nd: "phase_at ow key u \<noteq> Some ''done''"
  shows "finished ow key rec value result None u t"
proof -
  obtain c j where c: "saved ow key (map_option rec_version rec) (done_doc value (result_value result)) u r t"
    "current ow key t = Some c" "phase_of c = ''done''" "\<forall>k. k \<notin> {''phase'', ''result''} \<longrightarrow> same_at k (rec_value c) value"
    "freeze_json (result_value result) = Inr j" "map_of (rec_value c) ''result'' = Some (json_sorted j)"
    using finish_saved[OF sv wf(1,2) result_value_wf[OF wf(3)]] by blast
  have "read_result (json_sorted j) = Inr (sorted_result result)"
    using c(5) freeze_result[OF wf(3)] read_saved_result[OF wf(3)] by simp
  then have "receipt_result None t (json_sorted j) = Inr (sorted_result result)" by (simp add: receipt_result_def)
  then show ?thesis by (rule finishedI[OF c(1) nd refl c(2-4,6)])
qed

lemma finish_message:
  assumes ap: "append_message now (rp_writer rp) (rp_message rp) b None None u = Inr (m, u1)"
    and b: "b = ToolResult False (rp_call rp) (tr_outcome result) (tr_parts result)"
    and sv: "owner_save ow key (done_doc value (py_dict [(''message_id'', VStr (m_id m)), (''seq'', VInt (m_seq m))]))
       (map_option rec_version rec) u1 = Inr (r, t)"
    and wf: "wf_store u" "wf_json (JObj value)" "wf_result result" "wf_reply rp" and nd: "phase_at ow key u \<noteq> Some ''done''"
  shows "finished ow key rec value result (Some rp) u t \<and> wf_store t \<and> extends u t"
proof -
  have wb: "wf_body b" using wf(3,4) by (simp add: b wf_result_def wf_reply_def)
  have w: "wf_writer (rp_writer rp)" "rp_reader rp = w_session (rp_writer rp)" using wf(4) by (simp_all add: wf_reply_def)
  have lg: "wf_log u" using wf(1) by (simp add: wf_store_def)
  have u1: "wf_store u1 \<and> extends u u1" using append_store[OF ap wf(1) wb _ w(1)] by simp
  have "owner_records u1 = owner_records u" using append_owner_records[OF ap lg wb _ w(1)] by simp
  then have cur: "current ow key u1 = current ow key u" by (intro current_cong) (simp add: owner_row_def)
  let ?p = "py_dict [(''message_id'', VStr (m_id m)), (''seq'', VInt (m_seq m))]"
  have "wf_pyval ?p" by (simp add: wf_py_dict)
  then obtain c j where c: "saved ow key (map_option rec_version rec) (done_doc value ?p) u1 r t"
    "current ow key t = Some c" "phase_of c = ''done''" "\<forall>k. k \<notin> {''phase'', ''result''} \<longrightarrow> same_at k (rec_value c) value"
    "freeze_json ?p = Inr j" "map_of (rec_value c) ''result'' = Some (json_sorted j)"
    using finish_saved[OF sv _ wf(2)] u1 by blast
  obtain x where x: "x \<in> set (session_history u1 (w_session (rp_writer rp)))" "m_id x = rp_message rp" "m_id m = rp_message rp"
    "m_seq x = m_seq m" "m_body x = sorted_body b" using append_in_history[OF ap lg wb _ w(1)] by auto
  have t: "wf_store t" "extends u1 t" using c(1) by (auto simp: saved_def)
  have xt: "x \<in> set (session_history t (rp_reader rp))" using x(1) w(2) extends_history[OF t(2), of "rp_reader rp"] by auto
  have pos: "0 \<le> m_seq m" using x(1,4) history_nonneg[of u1 x] u1 by (auto simp: wf_store_def)
  have j: "j = JObj [(''message_id'', JStr (m_id m)), (''seq'', JInt (m_seq m))]"
    using c(5) by (auto simp: py_dict_def)
  have "pointer_seq (rp_message rp) (json_sorted j) = Inr (m_seq m)"
    using x(3) pos unfolding j by (simp add: pointer_seq_def)
  then have "reply_read rp t (json_sorted j) = Inr (sorted_result result)"
    using reply_read_history[of t rp "json_sorted j" "m_seq m" "sorted_result result"] t(1) xt x
    by (auto simp: wf_store_def b sorted_result_def)
  then have "receipt_result (Some rp) t (json_sorted j) = Inr (sorted_result result)" by (simp add: receipt_result_def)
  then have "finished ow key rec value result (Some rp) u t"
    by (rule finishedI[OF c(1) nd cur[symmetric] c(2-4,6)])
  then show ?thesis using t u1 extends_trans by blast
qed

lemma receipt_result_in_tx [simp]: "receipt_result rp (s\<lparr>in_tx := x\<rparr>) d = receipt_result rp s d"
proof -
  have "message_of (s\<lparr>in_tx := x\<rparr>) = message_of s" by (rule message_of_cong[THEN ext]) simp
  then have "read_range (s\<lparr>in_tx := x\<rparr>) = read_range s" by (intro ext) (simp add: read_range_def rows_between_def)
  then show ?thesis by (cases rp) (simp_all add: receipt_result_def reply_read_def)
qed

lemma finished_in_tx: "finished ow key rec value result rp (s\<lparr>in_tx := x\<rparr>) t \<Longrightarrow> finished ow key rec value result rp s (t\<lparr>in_tx := y\<rparr>)"
  unfolding finished_def phase_at_def current_in_tx receipt_result_in_tx by assumption

lemma extends_closed: "extends (s\<lparr>in_tx := x\<rparr>) t \<Longrightarrow> extends s (t\<lparr>in_tx := y\<rparr>)"
  by (simp add: extends_def)

lemma result_body:
  assumes "wf_result r"
  shows "mk_ToolResult ref (VStr (outcome_name (tr_outcome r))) (tr_parts r) = Inr (ToolResult False ref (tr_outcome r) (tr_parts r))"
  using assms by (simp add: mk_ToolResult_def wf_result_def as_outcome_name)

text \<open>The run of the transaction: the value the receipt keeps, then the save.\<close>

definition finish_value :: "int \<Rightarrow> tool_result \<Rightarrow> reply option \<Rightarrow> message_log \<Rightarrow> (pyval \<times> message_log) res" where
  "finish_value now result rp u = (case rp of
     None \<Rightarrow> Inr (result_value result, u)
   | Some rp \<Rightarrow>
       bindR (append_message now (rp_writer rp) (rp_message rp) (ToolResult False (rp_call rp) (tr_outcome result) (tr_parts result)) None None u)
         (\<lambda>(m, u1). Inr (py_dict [(''message_id'', VStr (m_id m)), (''seq'', VInt (m_seq m))], u1)))"

lemma run_finish:
  assumes "tx_read ow key (False, u) = Inr cur" and "wf_result result"
  shows "\<exists>u1. run_tx ow now (finish_prog key v ver result rp s) (False, u) =
    (case settled_receipt v rp s cur of
       Inl e \<Rightarrow> (Inl e, (False, u))
     | Inr (Some r) \<Rightarrow> (Inr r, (False, u))
     | Inr None \<Rightarrow>
         (case bindR (finish_value now result rp u) (\<lambda>(sv, w). owner_save ow key (done_doc v sv) ver w) of
            Inl e \<Rightarrow> (Inl e, (True, u1))
          | Inr (r, w) \<Rightarrow> (Inr result, (False, w))))"
proof (cases "settled_receipt v rp s cur")
  case (Inr found)
  then show ?thesis using assms
    by (cases found; cases rp)
      (auto simp: finish_prog_def finish_value_def run_finish_save result_body perform_def split: sum.splits prod.splits)
qed (use assms in \<open>simp add: finish_prog_def\<close>)

lemma finish_cases:
  assumes fin: "transact ow now (finish_prog key v ver result rp s) s = (res, s')" and wf: "wf_store s" "wf_result result"
  shows "(s' = s \<and> (\<forall>r. res = Inr r \<longrightarrow> read_settled ow key rp r s))
    \<or> (\<exists>sv u1 r w. res = Inr result \<and> s' = w\<lparr>in_tx := False\<rparr> \<and> phase_at ow key s \<noteq> Some ''done''
         \<and> finish_value now result rp (s\<lparr>in_tx := True\<rparr>) = Inr (sv, u1) \<and> owner_save ow key (done_doc v sv) ver u1 = Inr (r, w))"
proof (cases "in_tx s")
  case True
  then show ?thesis using fin by (auto simp: transact_def write_tx_def)
next
  case False
  let ?u = "s\<lparr>in_tx := True\<rparr>"
  have put: "s\<lparr>in_tx := False\<rparr> = s" using False by simp
  have "wf_store ?u" using wf(1) by (simp add: wf_store_in_tx)
  then have read: "tx_read ow key (False, ?u) = Inr (current ow key s)" using store_current by (simp add: tx_read_def)
  obtain u1 where run: "run_tx ow now (finish_prog key v ver result rp s) (False, ?u) =
    (case settled_receipt v rp s (current ow key s) of
       Inl e \<Rightarrow> (Inl e, (False, ?u))
     | Inr (Some r) \<Rightarrow> (Inr r, (False, ?u))
     | Inr None \<Rightarrow>
         (case bindR (finish_value now result rp ?u) (\<lambda>(sv, w). owner_save ow key (done_doc v sv) ver w) of
            Inl e \<Rightarrow> (Inl e, (True, u1))
          | Inr (r, w) \<Rightarrow> (Inr result, (False, w))))" using run_finish[OF read wf(2)] by blast
  have t: "(res, s') = (case run_tx ow now (finish_prog key v ver result rp s) (False, ?u) of
      (Inl e, st) \<Rightarrow> (Inl e, s) | (Inr x, (failed, t)) \<Rightarrow> if failed then (Inl RuntimeError, s) else (Inr x, t\<lparr>in_tx := False\<rparr>))"
    using fin False by (auto simp: transact_def write_tx_def split: sum.splits prod.splits)
  show ?thesis
  proof (cases "settled_receipt v rp s (current ow key s)")
    case (Inl e)
    then show ?thesis using t run by simp
  next
    case (Inr found)
    note c = settled_receipt_cases[OF Inr]
    show ?thesis
    proof (cases found)
      case (Some r)
      then show ?thesis using t run Inr put c by (auto simp: read_settled_def)
    next
      case None
      then have "phase_at ow key s \<noteq> Some ''done''" using c by (simp add: phase_at_def)
      then show ?thesis using t run Inr None
        by (cases "bindR (finish_value now result rp ?u) (\<lambda>(sv, w). owner_save ow key (done_doc v sv) ver w)") (auto simp: res_simps)
    qed
  qed
qed

lemma finish_effect:
  assumes fin: "finish_call ow now key rec result rp initial s = (res, s')"
    and wf: "wf_store s" "wf_result result" "\<forall>rp'. rp = Some rp' \<longrightarrow> wf_reply rp'"
    and vals: "\<forall>v. (case rec of None \<Rightarrow> initial | Some r \<Rightarrow> Some (rec_value r)) = Some v \<longrightarrow> wf_json (JObj v)"
  shows "wf_store s' \<and> extends s s' \<and> ((s' = s \<and> (\<forall>r. res = Inr r \<longrightarrow> read_settled ow key rp r s))
    \<or> (res = Inr result \<and> (\<exists>v. (case rec of None \<Rightarrow> initial | Some r \<Rightarrow> Some (rec_value r)) = Some v
         \<and> finished ow key rec v result rp s s')))"
proof (cases "case rec of None \<Rightarrow> initial | Some r \<Rightarrow> Some (rec_value r)")
  case None
  then show ?thesis using fin wf(1) by (auto simp: finish_call_def)
next
  case (Some v)
  let ?u = "s\<lparr>in_tx := True\<rparr>"
  have v: "wf_json (JObj v)" using vals Some by blast
  have u: "wf_store ?u" using wf(1) by (simp add: wf_store_in_tx)
  have t: "transact ow now (finish_prog key v (map_option rec_version rec) result rp s) s = (res, s')"
    using fin Some by (simp add: finish_call_def)
  from finish_cases[OF t wf(1,2)] show ?thesis
  proof (elim disjE exE conjE)
    fix sv u1 r w
    assume res: "res = Inr result" "s' = w\<lparr>in_tx := False\<rparr>" and nd: "phase_at ow key s \<noteq> Some ''done''"
      and fv: "finish_value now result rp ?u = Inr (sv, u1)" and save: "owner_save ow key (done_doc v sv) (map_option rec_version rec) u1 = Inr (r, w)"
    have nd': "phase_at ow key ?u \<noteq> Some ''done''" using nd by (simp add: phase_at_def)
    have "finished ow key rec v result rp ?u w \<and> wf_store w \<and> extends ?u w"
    proof (cases rp)
      case None
      then have p: "sv = result_value result" "u1 = ?u" using fv by (simp_all add: finish_value_def)
      have "wf_pyval (done_doc v sv)"
        unfolding done_doc_def p(1) using v result_value_wf[OF wf(2)] by (intro updated_doc_wf) simp_all
      then show ?thesis
        using finish_program[OF save[unfolded p] u v wf(2) nd'] owner_save_wf[OF save] u None p by simp
    next
      case (Some reply)
      then obtain m where "append_message now (rp_writer reply) (rp_message reply)
          (ToolResult False (rp_call reply) (tr_outcome result) (tr_parts result)) None None ?u = Inr (m, u1)"
        "sv = py_dict [(''message_id'', VStr (m_id m)), (''seq'', VInt (m_seq m))]"
        using fv by (auto simp: finish_value_def res_simps)
      then show ?thesis using finish_message[OF _ refl _ u v wf(2) _ nd'] save wf(3) Some by simp
    qed
    then show ?thesis using res Some finished_in_tx extends_closed by (auto simp: wf_store_in_tx)
  qed (use wf(1) in simp)
qed

section \<open>A receipt moves forward\<close>

definition rank :: "string \<Rightarrow> nat" where
  "rank p = (if p = ''prepared'' then 1 else if p = ''started'' then 2 else if p = ''done'' then 3 else 0)"

lemma rank_simps [simp]: "rank ''requested'' = 0" "rank ''prepared'' = 1" "rank ''started'' = 2" "rank ''done'' = 3"
  by (simp_all add: rank_def)

lemma rank_bound: "rank p \<le> 3"
  by (simp add: rank_def)

text \<open>From one state to a later one: the receipt is unchanged, or newer and not behind.\<close>

definition forward :: "string \<Rightarrow> string \<Rightarrow> message_log \<Rightarrow> message_log \<Rightarrow> bool" where
  "forward ow key s s' \<longleftrightarrow> current ow key s' = current ow key s
     \<or> (\<exists>c'. current ow key s' = Some c' \<and> (\<forall>c. current ow key s = Some c \<longrightarrow>
          phase_of c \<noteq> ''done'' \<and> rec_version c < rec_version c' \<and> rank (phase_of c) \<le> rank (phase_of c')
          \<and> (1 \<le> rank (phase_of c) \<longrightarrow> same_at ''arguments'' (rec_value c') (rec_value c))))"

lemma forward_refl [simp]: "forward ow key s s"
  by (simp add: forward_def)

lemma forward_same: "current ow key t = current ow key s \<Longrightarrow> forward ow key s t"
  by (simp add: forward_def)

lemma rank_done: "rank p = 3 \<longleftrightarrow> p = ''done''"
  by (simp add: rank_def)

lemma forward_trans:
  assumes "forward ow key s t" and "forward ow key t u"
  shows "forward ow key s u"
proof (cases "current ow key s")
  case None
  then show ?thesis using assms by (auto simp: forward_def)
next
  case (Some c)
  show ?thesis
  proof (cases "current ow key t = Some c \<or> current ow key u = current ow key t")
    case True
    then show ?thesis using assms Some by (auto simp: forward_def)
  next
    case False
    then obtain d where d: "current ow key t = Some d" "phase_of c \<noteq> ''done''" "rec_version c < rec_version d"
      "rank (phase_of c) \<le> rank (phase_of d)" "1 \<le> rank (phase_of c) \<longrightarrow> same_at ''arguments'' (rec_value d) (rec_value c)"
      using assms(1) Some by (auto simp: forward_def)
    obtain e where e: "current ow key u = Some e" "rec_version d < rec_version e"
      "rank (phase_of d) \<le> rank (phase_of e)" "1 \<le> rank (phase_of d) \<longrightarrow> same_at ''arguments'' (rec_value e) (rec_value d)"
      using assms(2) d(1) False by (auto simp: forward_def)
    have "1 \<le> rank (phase_of c) \<longrightarrow> same_at ''arguments'' (rec_value e) (rec_value c)"
      using d(4,5) e(4) same_at_trans by fastforce
    then show ?thesis using Some d(2-4) e(1-3) unfolding forward_def by auto
  qed
qed

lemma forward_done: "forward ow key s t \<Longrightarrow> phase_at ow key s = Some ''done'' \<Longrightarrow> current ow key t = current ow key s"
  by (auto simp: forward_def phase_at_def)

definition held :: "string \<Rightarrow> string \<Rightarrow> message_log \<Rightarrow> owner_record \<Rightarrow> bool" where
  "held ow key s r \<longleftrightarrow> wf_json (JObj (rec_value r)) \<and> (\<exists>c. current ow key s = Some c \<and> rec_version r \<le> rec_version c
     \<and> (rec_version r = rec_version c \<longrightarrow> (\<forall>k. same_at k (rec_value c) (rec_value r))))"

lemma held_current: "wf_store s \<Longrightarrow> current ow key s = Some r \<Longrightarrow> held ow key s r"
  using current_wf by (auto simp: held_def)

lemma held_forward:
  assumes "held ow key s r" and "forward ow key s t"
  shows "held ow key t r"
  using assms by (fastforce simp: held_def forward_def)

text \<open>A save that names the version of a held record finds that record.\<close>

lemma held_version:
  assumes "held ow key s r" and "map_option rec_version (current ow key s) = Some (rec_version r)"
  shows "\<exists>c. current ow key s = Some c \<and> rec_version c = rec_version r \<and> phase_of c = phase_of r \<and> (\<forall>k. same_at k (rec_value c) (rec_value r))"
  using assms phase_of_same by (auto simp: held_def)

definition spent :: "string \<Rightarrow> string \<Rightarrow> message_log \<Rightarrow> nat" where
  "spent ow key s = (case phase_at ow key s of None \<Rightarrow> 0 | Some p \<Rightarrow> if 2 \<le> rank p then 1 else 0)"

lemma spent_forward: "forward ow key s t \<Longrightarrow> spent ow key s \<le> spent ow key t"
  by (auto simp: forward_def spent_def phase_at_def split: option.split)

lemma saved_forward:
  assumes s: "saved ow key (Some (rec_version r)) v s x t" and h: "held ow key s r"
    and "phase_of r \<noteq> ''done''" "rank (phase_of r) \<le> rank (phase_of x)"
    and "1 \<le> rank (phase_of r) \<Longrightarrow> same_at ''arguments'' (rec_value x) (rec_value r)"
  shows "forward ow key s t \<and> held ow key t x \<and> phase_at ow key t = Some (phase_of x) \<and> phase_at ow key s = Some (phase_of r)"
proof -
  obtain c where c: "current ow key t = Some c" "rec_version c = rec_version x"
    "\<forall>k. map_of (rec_value c) k = map_option json_sorted (map_of (rec_value x) k)" and wfx: "wf_json (JObj (rec_value x))"
    and ver: "map_option rec_version (current ow key s) = Some (rec_version r)" "rec_version x = rec_version r + 1"
    using s by (auto simp: saved_def)
  obtain d where d: "current ow key s = Some d" "rec_version d = rec_version r" "phase_of d = phase_of r"
    "\<forall>k. same_at k (rec_value d) (rec_value r)" using held_version[OF h ver(1)] by blast
  have cx: "same_at k (rec_value c) (rec_value x)" for k using c(3) sorted_at_same by blast
  then have ph: "phase_of c = phase_of x" using phase_of_same by blast
  have "1 \<le> rank (phase_of r) \<Longrightarrow> same_at ''arguments'' (rec_value c) (rec_value d)"
    using assms(5) cx d(4) same_at_trans same_at_sym by blast
  then have "forward ow key s t" using c(1,2) d ph ver(2) assms(3,4) by (auto simp: forward_def)
  moreover have "held ow key t x" using c(1,2) cx wfx by (auto simp: held_def)
  ultimately show ?thesis using c(1) d ph by (simp add: phase_at_def)
qed

lemma finished_forward:
  assumes f: "finished ow key (Some r) (rec_value r) result rp s t" and h: "held ow key s r"
  shows "forward ow key s t \<and> phase_at ow key t = Some ''done''"
proof -
  obtain c where c: "current ow key t = Some c" "phase_of c = ''done''" "same_at ''arguments'' (rec_value c) (rec_value r)"
    "\<forall>v. map_option rec_version (current ow key s) = Some v \<longrightarrow> rec_version c = v + 1"
    and ver: "map_option rec_version (current ow key s) = Some (rec_version r)" and nd: "phase_at ow key s \<noteq> Some ''done''"
    using f by (auto simp: finished_def)
  obtain d where d: "current ow key s = Some d" "phase_of d = phase_of r" "\<forall>k. same_at k (rec_value d) (rec_value r)"
    using held_version[OF h ver] by blast
  have "same_at ''arguments'' (rec_value c) (rec_value d)" using c(3) d(3) same_at_trans same_at_sym by blast
  moreover have "rec_version d < rec_version c" using c(4) d(1) by simp
  moreover have "phase_of d \<noteq> ''done''" using nd d(1) by (simp add: phase_at_def)
  ultimately show ?thesis using c(1,2) d(1) rank_bound by (auto simp: forward_def phase_at_def)
qed

end
