(* ===== verification/Tool_Steps.thy ===== *)
theory Tool_Steps
  imports Tool_State
begin

text \<open>
  One tool call over time: the segments of its run interleave with crashes, cancellation, denials,
  abandons and all other work on the store. Every step moves the receipt forward.
\<close>

section \<open>Everything that can happen to a call\<close>

record tool_world =
  tw_pc :: tool_pc
  tw_log :: message_log
  tw_active :: bool
  tw_calls :: "json list"

definition tool_running :: "tool_pc \<Rightarrow> bool" where
  "tool_running pc = (case pc of Idle \<Rightarrow> False | Returned r \<Rightarrow> False | Raised e \<Rightarrow> False | _ \<Rightarrow> True)"

text \<open>A segment that ends in the call of \<open>invoke\<close> passes it the final arguments.\<close>

fun invoked :: "tool_pc \<Rightarrow> json list" where
  "invoked (Invoking r a) = [a]"
| "invoked _ = []"

definition tool_moved :: "tool_pc \<times> message_log \<Rightarrow> tool_world \<Rightarrow> tool_world" where
  "tool_moved r w = w\<lparr>tw_pc := fst r, tw_log := snd r, tw_calls := tw_calls w @ invoked (fst r)\<rparr>"

fun wf_answer :: "pyval answer \<Rightarrow> bool" where
  "wf_answer (Answer v) = wf_pyval v"
| "wf_answer _ = True"

inductive tool_step :: "invocation \<Rightarrow> bool \<Rightarrow> tool_world \<Rightarrow> tool_world \<Rightarrow> bool" for iv idem where
  begins: "\<not> tool_running (tw_pc w) \<Longrightarrow>
     tool_step iv idem w (tool_moved (run_begin iv now (tw_log w)) (w\<lparr>tw_active := True\<rparr>))"
| opens: "tw_pc w = Opening r \<Longrightarrow>
     tool_step iv idem w (tool_moved (run_opened iv now r (tw_active w) opened (tw_log w)) w)"
| prepares: "tw_pc w = Preparing r src \<Longrightarrow> wf_answer v \<Longrightarrow>
     tool_step iv idem w (tool_moved (run_answered iv now r (tw_active w) v (tw_log w)) w)"
| queries: "tw_pc w = Querying r a \<Longrightarrow> (\<forall>x. found = Inr (Some x) \<longrightarrow> wf_result x) \<Longrightarrow>
     tool_step iv idem w (tool_moved (run_queried iv now r a idem found (tw_log w)) w)"
| authorizes: "tw_pc w = Authorizing r a st \<Longrightarrow> wf_answer v \<Longrightarrow>
     tool_step iv idem w (tool_moved (run_authorized iv now r a st (tw_active w) v start (tw_log w)) w)"
| answers: "tw_pc w = Invoking r a \<Longrightarrow> (\<forall>x. response = Inr x \<longrightarrow> wf_result x) \<Longrightarrow>
     tool_step iv idem w (tool_moved (run_invoked iv now r response (tw_log w)) w)"
| closes: "tw_pc w = Closing out \<Longrightarrow>
     tool_step iv idem w (tool_moved (run_closed iv now out exit (tw_log w)) w)"
| crashes: "tool_step iv idem w (w\<lparr>tw_pc := Idle\<rparr>)"
| revokes: "tool_step iv idem w (w\<lparr>tw_active := False\<rparr>)"
| denies: "\<not> tool_running (tw_pc w) \<Longrightarrow> wf_reply rp \<Longrightarrow> deny_run iv now rp reason (tw_log w) = (res, s') \<Longrightarrow>
     tool_step iv idem w (w\<lparr>tw_log := s'\<rparr>)"
| abandons: "iv_key iv = durable_call_key (rp_call rp) \<Longrightarrow> wf_writer (rp_writer rp) \<Longrightarrow> ref_message (rp_call rp) \<noteq> [] \<Longrightarrow>
     abandon_settle sha256 (iv_owner iv) now rp (tw_log w) = ((res, cancelled), s') \<Longrightarrow>
     tool_step iv idem w (w\<lparr>tw_log := s', tw_active := (tw_active w \<and> \<not> cancelled)\<rparr>)"
| others: "wf_store s' \<Longrightarrow> extends (tw_log w) s' \<Longrightarrow>
     owner_row s' (iv_owner iv) (iv_key iv) = owner_row (tw_log w) (iv_owner iv) (iv_key iv) \<Longrightarrow>
     tool_step iv idem w (w\<lparr>tw_log := s'\<rparr>)"

section \<open>The invariant\<close>

definition wf_invocation :: "invocation \<Rightarrow> bool" where
  "wf_invocation iv \<longleftrightarrow> wf_json (JObj (iv_args iv)) \<and> (\<forall>rp. iv_reply iv = Some rp \<longrightarrow> wf_reply rp)"

abbreviation iv_held :: "invocation \<Rightarrow> message_log \<Rightarrow> owner_record \<Rightarrow> bool" where
  "iv_held iv \<equiv> held (iv_owner iv) (iv_key iv)"

definition settled_as :: "invocation \<Rightarrow> message_log \<Rightarrow> tool_result \<Rightarrow> bool" where
  "settled_as iv s x \<longleftrightarrow> (\<exists>r. read_settled (iv_owner iv) (iv_key iv) (iv_reply iv) r s \<and> sorted_result r = sorted_result x)"

definition tool_pc_ok :: "invocation \<Rightarrow> bool \<Rightarrow> message_log \<Rightarrow> tool_pc \<Rightarrow> bool" where
  "tool_pc_ok iv idem s pc = (case pc of
       Opening r \<Rightarrow> iv_held iv s r \<and> phase_of r \<noteq> ''done''
     | Preparing r src \<Rightarrow> iv_held iv s r \<and> phase_of r = ''requested''
     | Querying r a \<Rightarrow> iv_held iv s r \<and> phase_of r = ''started'' \<and> arguments_of r = Inr a
     | Authorizing r a st \<Rightarrow> iv_held iv s r \<and> phase_of r \<noteq> ''done'' \<and> arguments_of r = Inr a
         \<and> st = (phase_of r = ''started'') \<and> (st \<longrightarrow> idem)
     | Invoking r a \<Rightarrow> iv_held iv s r \<and> phase_of r = ''started'' \<and> arguments_of r = Inr a
     | Closing (Inr x) \<Rightarrow> settled_as iv s x
     | Returned x \<Rightarrow> settled_as iv s x
     | _ \<Rightarrow> True)"

definition call_done :: "invocation \<Rightarrow> message_log \<Rightarrow> json \<Rightarrow> bool" where
  "call_done iv s a \<longleftrightarrow> (\<exists>c. current (iv_owner iv) (iv_key iv) s = Some c \<and> 2 \<le> rank (phase_of c)
     \<and> map_option json_sorted (map_of (rec_value c) ''arguments'') = Some (json_sorted a))"

text \<open>\<open>b\<close> is one when the receipt was started before.\<close>

definition tool_inv :: "invocation \<Rightarrow> bool \<Rightarrow> nat \<Rightarrow> tool_world \<Rightarrow> bool" where
  "tool_inv iv idem b w \<longleftrightarrow> wf_store (tw_log w) \<and> tool_pc_ok iv idem (tw_log w) (tw_pc w)
     \<and> (\<not> idem \<longrightarrow> b + length (tw_calls w) \<le> spent (iv_owner iv) (iv_key iv) (tw_log w))
     \<and> (\<forall>a \<in> set (tw_calls w). call_done iv (tw_log w) a)"

text \<open>What one segment, or any other operation, keeps.\<close>

abbreviation iv_forward :: "invocation \<Rightarrow> message_log \<Rightarrow> message_log \<Rightarrow> bool" where
  "iv_forward iv s s' \<equiv> wf_store s' \<and> extends s s' \<and> forward (iv_owner iv) (iv_key iv) s s'"

definition segment_ok :: "invocation \<Rightarrow> bool \<Rightarrow> message_log \<Rightarrow> tool_pc \<times> message_log \<Rightarrow> bool" where
  "segment_ok iv idem s r \<longleftrightarrow> iv_forward iv s (snd r) \<and> tool_pc_ok iv idem (snd r) (fst r)
     \<and> (\<not> idem \<longrightarrow> spent (iv_owner iv) (iv_key iv) s + length (invoked (fst r)) \<le> spent (iv_owner iv) (iv_key iv) (snd r))
     \<and> (\<forall>a \<in> set (invoked (fst r)). call_done iv (snd r) a)"

lemma call_done_forward:
  assumes "call_done iv s a" and "forward (iv_owner iv) (iv_key iv) s t"
  shows "call_done iv t a"
  using assms by (auto simp: call_done_def forward_def same_at_def)

lemma settled_as_forward:
  assumes "settled_as iv s x" and wf: "wf_store s" and f: "iv_forward iv s t"
  shows "settled_as iv t x"
proof -
  obtain r c d where c: "current (iv_owner iv) (iv_key iv) s = Some c" "phase_of c = ''done''"
    "map_of (rec_value c) ''result'' = Some d" "receipt_result (iv_reply iv) s d = Inr r" "sorted_result r = sorted_result x"
    using assms(1) by (auto simp: settled_as_def read_settled_def)
  have "current (iv_owner iv) (iv_key iv) t = Some c" using forward_done[of "iv_owner iv" "iv_key iv" s t] f c(1,2) by (simp add: phase_at_def)
  moreover have "receipt_result (iv_reply iv) t d = Inr r"
    using c(4) f wf reply_read_later[of _ s d r t] by (auto simp: receipt_result_def wf_store_def split: option.splits)
  ultimately show ?thesis using c by (auto simp: settled_as_def read_settled_def)
qed

lemma pc_ok_forward:
  assumes "tool_pc_ok iv idem s pc" and "wf_store s" and "iv_forward iv s t"
  shows "tool_pc_ok iv idem t pc"
  using assms held_forward settled_as_forward[OF _ assms(2,3)]
  by (auto simp: tool_pc_ok_def split: tool_pc.splits sum.splits)

lemma tool_moved_inv:
  assumes inv: "tool_inv iv idem b w" and seg: "segment_ok iv idem (tw_log w) r"
  shows "tool_inv iv idem b (tool_moved r w)"
proof -
  have f: "forward (iv_owner iv) (iv_key iv) (tw_log w) (snd r)" using seg by (simp add: segment_ok_def)
  have "call_done iv (snd r) a" if "a \<in> set (tw_calls w) \<union> set (invoked (fst r))" for a
    using that inv seg call_done_forward[OF _ f] by (auto simp: tool_inv_def segment_ok_def)
  then show ?thesis using inv seg by (auto simp: tool_inv_def segment_ok_def tool_moved_def)
qed

lemma tool_other_inv:
  assumes inv: "tool_inv iv idem b w" and f: "iv_forward iv (tw_log w) s"
  shows "tool_inv iv idem b (w\<lparr>tw_log := s, tw_active := act\<rparr>)"
proof -
  have "spent (iv_owner iv) (iv_key iv) (tw_log w) \<le> spent (iv_owner iv) (iv_key iv) s" using f spent_forward by blast
  then show ?thesis using inv f pc_ok_forward[OF _ _ f] call_done_forward[of iv "tw_log w" _ s]
    by (auto simp: tool_inv_def)
qed

section \<open>Segments\<close>

lemma sorted_result_idem [simp]: "sorted_result (sorted_result r) = sorted_result r"
proof -
  have "sorted_part (sorted_part p) = sorted_part p" for p
    by (cases p) (simp_all del: json_sorted.simps(7), metis json_sorted.simps(7) json_sorted_idem obj_items.simps(1))
  then show ?thesis by (simp add: sorted_result_def)
qed

lemma finish_iv:
  assumes iv: "wf_invocation iv" and s: "wf_store s" and h: "iv_held iv s r" and x: "wf_result x"
    and fin: "iv_finish iv now r x s = (out, s')"
  shows "iv_forward iv s s' \<and> (\<forall>y. out = Inr y \<longrightarrow> settled_as iv s' y)"
proof -
  have vals: "\<forall>v. (case Some r of None \<Rightarrow> None | Some r \<Rightarrow> Some (rec_value r)) = Some v \<longrightarrow> wf_json (JObj v)"
    using h by (simp add: held_def)
  have rp: "\<forall>rp'. iv_reply iv = Some rp' \<longrightarrow> wf_reply rp'" using iv by (simp add: wf_invocation_def)
  note e = finish_effect[OF fin[unfolded iv_finish_def] s x rp vals]
  then show ?thesis
  proof (elim conjE disjE)
    assume "s' = s" "\<forall>r. out = Inr r \<longrightarrow> read_settled (iv_owner iv) (iv_key iv) (iv_reply iv) r s"
    then show ?thesis using e by (auto simp: settled_as_def)
  next
    assume out: "out = Inr x" and "\<exists>v. (case Some r of None \<Rightarrow> None | Some r \<Rightarrow> Some (rec_value r)) = Some v
      \<and> finished (iv_owner iv) (iv_key iv) (Some r) v x (iv_reply iv) s s'"
    then have f: "finished (iv_owner iv) (iv_key iv) (Some r) (rec_value r) x (iv_reply iv) s s'" by simp
    then have "read_settled (iv_owner iv) (iv_key iv) (iv_reply iv) (sorted_result x) s'"
      by (auto simp: finished_def read_settled_def)
    then have "settled_as iv s' x" unfolding settled_as_def by (intro exI[of _ "sorted_result x"]) simp
    then show ?thesis using e finished_forward[OF f h] out by simp
  qed
qed

lemma still_segment:
  assumes "iv_forward iv s t" and "tool_pc_ok iv idem t pc" and "invoked pc = []"
  shows "segment_ok iv idem s (pc, t)"
  using assms spent_forward by (simp add: segment_ok_def)

lemma finish_segment:
  assumes "wf_invocation iv" "wf_store s" "iv_held iv s r" "wf_result x" "iv_finish iv now r x s = (out, s')"
  shows "segment_ok iv idem s (Closing out, s')"
proof -
  note f = finish_iv[OF assms]
  then have "tool_pc_ok iv idem s' (Closing out)" by (cases out) (simp_all add: tool_pc_ok_def)
  then show ?thesis using f still_segment by simp
qed

lemma closing_segment: "wf_store s \<Longrightarrow> segment_ok iv idem s (Closing (Inl e), s)"
  by (rule still_segment) (simp_all add: tool_pc_ok_def)

lemma raised_segment: "iv_forward iv s t \<Longrightarrow> segment_ok iv idem s (Raised e, t)"
  by (rule still_segment) (simp_all add: tool_pc_ok_def)

lemma raised_same: "wf_store s \<Longrightarrow> segment_ok iv idem s (Raised e, s)"
  by (rule raised_segment) simp

lemma leave_segment:
  assumes iv: "wf_invocation iv" and s: "wf_store s" "iv_forward iv s0 s"
  shows "segment_ok iv idem s0 (leave iv now e s)"
proof -
  have stay: "segment_ok iv idem s0 (Raised e, s)" by (rule raised_segment[OF s(2)])
  have "segment_ok iv idem s0 (Raised e, snd (iv_finish iv now r (text_result Interrupted resumed_text) s))"
    if "owner_read s (iv_owner iv) (iv_key iv) = Inr (Some r)" for r
  proof -
    have h: "iv_held iv s r" using held_current[OF s(1)] that by (simp add: current_def)
    obtain out s' where f: "iv_finish iv now r (text_result Interrupted resumed_text) s = (out, s')" by fastforce
    have "iv_forward iv s s'" using finish_iv[OF iv s(1) h _ f] by simp
    then have "iv_forward iv s0 s'" using s(2) extends_trans forward_trans by blast
    then show ?thesis using f raised_segment by simp
  qed
  then show ?thesis using stay by (auto simp: leave_def split: sum.splits option.splits)
qed

lemma tool_record_current:
  assumes "tool_record ow key print s = Inr found"
  shows "current ow key s = found \<and> (\<forall>r. found = Some r \<longrightarrow> phase_of r \<in> {''requested'', ''prepared'', ''started'', ''done''})"
proof -
  obtain c where c: "owner_read s ow key = Inr c" using assms by (auto simp: tool_record_def res_simps)
  show ?thesis
  proof (cases c)
    case None
    then show ?thesis using assms c by (simp add: tool_record_def current_def)
  next
    case (Some r)
    then have "found = Some r" and "\<exists>p. map_of (rec_value r) ''phase'' = Some (JStr p) \<and> p \<in> {''requested'', ''prepared'', ''started'', ''done''}"
      using assms c unfolding tool_record_def by (auto simp: item_def res_simps split: option.splits if_split_asm)
    then show ?thesis using c Some by (auto simp: current_def phase_of_def)
  qed
qed

lemma receipt_doc_phase: "freeze_json (receipt_doc p b i ph args) = Inr (JObj (rec_value r)) \<Longrightarrow> phase_of r = ph"
  using receipt_doc_at(3) by (simp add: phase_of_def)

lemma fresh_forward:
  assumes s: "saved ow key None v s x t"
  shows "forward ow key s t \<and> held ow key t x"
proof -
  obtain c where "current ow key t = Some c" "rec_version c = rec_version x" "wf_json (JObj (rec_value x))"
    "\<forall>k. map_of (rec_value c) k = map_option json_sorted (map_of (rec_value x) k)" and "current ow key s = None"
    using s by (auto simp: saved_def)
  then show ?thesis using sorted_at_same by (auto simp: forward_def held_def)
qed

lemma begin_segment:
  assumes iv: "wf_invocation iv" and s: "wf_store s"
  shows "segment_ok iv idem s (run_begin iv now s)"
proof (cases "tool_record (iv_owner iv) (iv_key iv) (iv_print iv) s")
  case (Inl e)
  then show ?thesis using raised_same[OF s] by (simp add: run_begin_def)
next
  case (Inr found)
  note cur = tool_record_current[OF Inr]
  show ?thesis
  proof (cases "map_option phase_of found = Some ''done''")
    case True
    then obtain c where c: "found = Some c" "phase_of c = ''done''" by auto
    let ?read = "bindR (item ''result'' (rec_value c)) (\<lambda>d. case iv_reply iv of None \<Rightarrow> read_result d | Some rp \<Rightarrow> reply_read rp s d)"
    show ?thesis
    proof (cases ?read)
      case (Inl e)
      then show ?thesis using \<open>tool_record _ _ _ s = Inr found\<close> c raised_same[OF s] by (simp add: run_begin_def)
    next
      case (Inr r)
      have "settled_as iv s r" using Inr c cur
        by (auto simp: settled_as_def read_settled_def receipt_result_def item_def res_simps split: option.splits)
      then have "segment_ok iv idem s (Returned r, s)" using s by (intro still_segment) (simp_all add: tool_pc_ok_def)
      then show ?thesis using \<open>tool_record _ _ _ s = Inr found\<close> c Inr by (simp add: run_begin_def)
    qed
  next
    case open': False
    have rb: "run_begin iv now s = (case iv_check iv s of
        Inl e \<Rightarrow> leave iv now e s
      | Inr u \<Rightarrow>
          (case found of
             Some r \<Rightarrow> (Opening r, s)
           | None \<Rightarrow>
               (case iv_save iv now None (iv_doc iv ''requested'' (frozen_value (JObj (iv_args iv)))) s of
                  (Inl e, s') \<Rightarrow> leave iv now e s'
                | (Inr r, s') \<Rightarrow> (Opening r, s'))))"
      by (simp only: run_begin_def Inr sum.case open' if_False)
    show ?thesis
    proof (cases "iv_check iv s")
      case (Inl e)
      then show ?thesis using leave_segment[OF iv s] s by (simp add: rb)
    next
      case chk: (Inr u)
      show ?thesis
      proof (cases found)
        case (Some r)
        then have "segment_ok iv idem s (Opening r, s)"
          using s cur held_current open' by (intro still_segment) (auto simp: tool_pc_ok_def)
        then show ?thesis using chk Some by (simp add: rb)
      next
        case None
        let ?v = "iv_doc iv ''requested'' (frozen_value (JObj (iv_args iv)))"
        have v: "wf_pyval ?v" unfolding iv_doc_def using iv by (intro receipt_doc_wf) (simp add: wf_invocation_def del: wf_json.simps frozen_value.simps)
        obtain x t where sv: "iv_save iv now None ?v s = (x, t)" by fastforce
        show ?thesis
        proof (cases x)
          case (Inl e)
          then have "t = s" using sv receipt_unsaved by (simp add: iv_save_def)
          then show ?thesis using chk None sv Inl leave_segment[OF iv s] s by (simp add: rb)
        next
          case ok: (Inr r)
          have sd: "saved (iv_owner iv) (iv_key iv) None ?v s r t"
            using receipt_saved[OF sv[unfolded ok iv_save_def] s v] by simp
          have "phase_of r = ''requested''" using sd receipt_doc_phase by (auto simp: saved_def iv_doc_def)
          then have "segment_ok iv idem s (Opening r, t)"
            using fresh_forward[OF sd] sd by (intro still_segment) (simp_all add: tool_pc_ok_def saved_def)
          then show ?thesis using chk None sv ok by (simp add: rb)
        qed
      qed
    qed
  qed
qed

lemma prepared_segment:
  assumes "iv_forward iv s0 s" and "iv_held iv s r" and "phase_of r \<noteq> ''done''"
  shows "segment_ok iv idem s0 (run_prepared r s)"
  using assms
  by (cases "arguments_of r") (auto simp: run_prepared_def intro!: still_segment, auto simp: tool_pc_ok_def)

lemma opened_segment:
  assumes iv: "wf_invocation iv" and s: "wf_store s" and h: "iv_held iv s r" "phase_of r \<noteq> ''done''"
  shows "segment_ok iv idem s (run_opened iv now r active opened s)"
proof -
  have prep: "segment_ok iv idem s (Preparing r src, s)" if "phase_of r = ''requested''" for src
    using s h that by (intro still_segment) (simp_all add: tool_pc_ok_def)
  show ?thesis
    using leave_segment[OF iv s] closing_segment[OF s] prepared_segment[OF _ h] s h prep
    by (auto simp: run_opened_def split: sum.split option.split)
qed

lemma answered_segment:
  assumes iv: "wf_invocation iv" and s: "wf_store s" and h: "iv_held iv s r" "phase_of r = ''requested''" and v: "wf_answer a"
  shows "segment_ok iv idem s (run_answered iv now r active a s)"
proof (cases a)
  case (Answer v)
  show ?thesis
  proof (cases "freeze_json v")
    case (Inl e)
    then show ?thesis using Answer closing_segment[OF s] by (simp add: run_answered_def)
  next
    case (Inr final)
    let ?d = "iv_doc iv ''prepared'' (frozen_value final)"
    have "wf_json final" using wf_freeze_json[OF _ Inr] v Answer by simp
    then have wd: "wf_pyval ?d" unfolding iv_doc_def by (intro receipt_doc_wf) simp
    obtain x t where sv: "iv_save iv now (Some r) ?d s = (x, t)" by fastforce
    have "segment_ok iv idem s (case iv_save iv now (Some r) ?d s of
        (Inl e, s') \<Rightarrow> (Closing (Inl e), s') | (Inr r', s') \<Rightarrow> run_prepared r' s')"
    proof (cases x)
      case (Inl e)
      then have "t = s" using sv receipt_unsaved by (simp add: iv_save_def)
      then show ?thesis using sv Inl closing_segment[OF s] by simp
    next
      case (Inr r')
      have sd: "saved (iv_owner iv) (iv_key iv) (Some (rec_version r)) ?d s r' t"
        using receipt_saved[OF sv[unfolded Inr iv_save_def] s wd] by simp
      have ph: "phase_of r' = ''prepared''" using sd receipt_doc_phase by (auto simp: saved_def iv_doc_def)
      have "forward (iv_owner iv) (iv_key iv) s t \<and> iv_held iv t r'"
        using saved_forward[OF sd h(1)] h(2) ph by simp
      then have "segment_ok iv idem s (run_prepared r' t)" using sd ph by (intro prepared_segment) (simp_all add: saved_def)
      then show ?thesis using sv Inr by simp
    qed
    then show ?thesis using Answer Inr closing_segment[OF s] by (simp add: run_answered_def)
  qed
next
  case (Refused reason)
  then show ?thesis using finish_segment[OF iv s h(1) text_result_wf] by (auto simp: run_answered_def split: prod.split)
next
  case (Broken e)
  then show ?thesis using closing_segment[OF s] by (simp add: run_answered_def)
qed

lemma queried_segment:
  assumes iv: "wf_invocation iv" and s: "wf_store s" and h: "iv_held iv s r" "phase_of r = ''started''" "arguments_of r = Inr a"
    and x: "\<forall>x. found = Inr (Some x) \<longrightarrow> wf_result x"
  shows "segment_ok iv idem s (run_queried iv now r a idem found s)"
proof -
  have fin: "segment_ok iv idem s (case iv_finish iv now r y s of (out, s') \<Rightarrow> (Closing out, s'))" if "wf_result y" for y
    using finish_segment[OF iv s h(1) that] by (auto split: prod.split)
  have "segment_ok iv idem s (Authorizing r a True, s)" if idem
    using s h that by (intro still_segment) (simp_all add: tool_pc_ok_def)
  then show ?thesis using closing_segment[OF s] fin x
    by (auto simp: run_queried_def split: sum.split option.split)
qed

text \<open>Only this segment calls the tool: the phase becomes started, and without idempotence it was prepared.\<close>

lemma started_segment:
  assumes s: "wf_store s" and h: "iv_held iv s r" "phase_of r \<noteq> ''done''" "arguments_of r = Inr a"
    and st: "phase_of r = ''started'' \<longrightarrow> idem" and p: "wf_pyval p"
    and sv: "iv_save iv now (Some r) (started_doc (rec_value r) p) s = (Inr r', t)"
  shows "segment_ok iv idem s (Invoking r' a, t)"
proof -
  have "wf_json (JObj (rec_value r))" using h(1) by (simp add: held_def)
  then have wd: "wf_pyval (started_doc (rec_value r) p)"
    unfolding started_doc_def by (intro updated_doc_wf) (use p in simp_all)
  have sd: "saved (iv_owner iv) (iv_key iv) (Some (rec_version r)) (started_doc (rec_value r) p) s r' t"
    using receipt_saved[OF sv[unfolded iv_save_def] s wd] by simp
  then have f: "freeze_json (started_doc (rec_value r) p) = Inr (JObj (rec_value r'))" by (simp add: saved_def)
  note u = updated_doc_at[OF f[unfolded started_doc_def]]
  have ph: "phase_of r' = ''started''" using u(2) by (auto simp: phase_of_def)
  have arg: "map_of (rec_value r') ''arguments'' = map_of (rec_value r) ''arguments''" using u(3)[of "''arguments''"] by simp
  have "rank (phase_of r) \<le> 2" using h(2) by (simp add: rank_def)
  then have fw: "forward (iv_owner iv) (iv_key iv) s t \<and> iv_held iv t r' \<and> phase_at (iv_owner iv) (iv_key iv) t = Some ''started''
      \<and> phase_at (iv_owner iv) (iv_key iv) s = Some (phase_of r)"
    using saved_forward[OF sd h(1,2)] ph arg by (simp add: same_at_def)
  obtain c where c: "current (iv_owner iv) (iv_key iv) t = Some c"
    "\<forall>k. map_of (rec_value c) k = map_option json_sorted (map_of (rec_value r') k)" using sd by (auto simp: saved_def)
  have a: "map_of (rec_value r') ''arguments'' = Some a" using h(3) arg by (auto simp: arguments_of_def item_def split: option.splits)
  have "2 \<le> rank (phase_of c)" using fw c(1) by (simp add: phase_at_def)
  moreover have "map_option json_sorted (map_of (rec_value c) ''arguments'') = Some (json_sorted a)" using c(2) a by simp
  ultimately have "call_done iv t a" using c(1) by (simp add: call_done_def)
  moreover have "tool_pc_ok iv idem t (Invoking r' a)"
    using fw ph a by (simp add: tool_pc_ok_def arguments_of_def item_def)
  moreover have "spent (iv_owner iv) (iv_key iv) s = 0" if "\<not> idem"
    using that st fw h(2) by (auto simp: spent_def rank_def)
  moreover have "spent (iv_owner iv) (iv_key iv) t = 1" using fw by (simp add: spent_def)
  ultimately show ?thesis using fw sd by (simp add: segment_ok_def saved_def)
qed

lemma authorized_segment:
  assumes iv: "wf_invocation iv" and s: "wf_store s" and h: "iv_held iv s r" "phase_of r \<noteq> ''done''" "arguments_of r = Inr a"
    and st: "phase_of r = ''started'' \<longrightarrow> idem" and v: "wf_answer v"
  shows "segment_ok iv idem s (run_authorized iv now r a was active v start s)"
proof -
  have fin: "segment_ok iv idem s (case iv_finish iv now r (text_result oc reason) s of (out, s') \<Rightarrow> (Closing out, s'))" for oc reason
    using finish_segment[OF iv s h(1) text_result_wf] by (auto split: prod.split)
  have go: "segment_ok iv idem s (case iv_save iv now (Some r) (started_doc (rec_value r) p) s of
      (Inl e, s') \<Rightarrow> (Closing (Inl e), s') | (Inr r', s') \<Rightarrow> (Invoking r' a, s'))" if "v = Answer p" for p
  proof -
    obtain x t where sv: "iv_save iv now (Some r) (started_doc (rec_value r) p) s = (x, t)" by fastforce
    show ?thesis
    proof (cases x)
      case (Inl e)
      then have "t = s" using sv receipt_unsaved by (simp add: iv_save_def)
      then show ?thesis using sv Inl closing_segment[OF s] by simp
    next
      case (Inr r')
      then show ?thesis using started_segment[OF s h st _ sv[unfolded Inr]] sv v that by simp
    qed
  qed
  show ?thesis using closing_segment[OF s] fin go
    by (cases v) (auto simp: run_authorized_def Let_def split: answer.split sum.split)
qed

lemma invoked_segment:
  assumes iv: "wf_invocation iv" and s: "wf_store s" and h: "iv_held iv s r" and x: "\<forall>x. response = Inr x \<longrightarrow> wf_result x"
  shows "segment_ok iv idem s (run_invoked iv now r response s)"
proof (cases response)
  case (Inl p)
  obtain e name where p: "p = (e, name)" by (cases p)
  let ?t = "if e = CancelledError then text_result Interrupted cancelled_text
              else text_result Errored (failed_text @ name @ effect_text)"
  obtain out s' where f: "iv_finish iv now r ?t s = (out, s')" by fastforce
  have "iv_forward iv s s'" using finish_iv[OF iv s h _ f] by (simp split: if_splits)
  then have "segment_ok iv idem s (Closing (Inl e), s')" by (intro still_segment) (simp_all add: tool_pc_ok_def)
  then show ?thesis using Inl p f by (simp add: run_invoked_def)
next
  case (Inr y)
  then show ?thesis using finish_segment[OF iv s h] x by (auto simp: run_invoked_def split: prod.split)
qed

lemma closed_segment:
  assumes iv: "wf_invocation iv" and s: "wf_store s" and ok: "tool_pc_ok iv idem s (Closing out)"
  shows "segment_ok iv idem s (run_closed iv now out exit s)"
proof -
  have "segment_ok iv idem s (Returned r, s)" if "out = Inr r" for r
    using s ok that by (intro still_segment) (simp_all add: tool_pc_ok_def)
  then show ?thesis using leave_segment[OF iv s] s by (auto simp: run_closed_def split: option.split sum.split)
qed

section \<open>Settling without running\<close>

lemma finish_forward:
  assumes fin: "finish_call ow now key rec x rp initial s = (out, s')" and s: "wf_store s" and x: "wf_result x"
    and rp: "\<forall>rp'. rp = Some rp' \<longrightarrow> wf_reply rp'" and h: "\<forall>r. rec = Some r \<longrightarrow> held ow key s r"
    and i: "\<forall>v. initial = Some v \<longrightarrow> wf_json (JObj v)"
  shows "wf_store s' \<and> extends s s' \<and> forward ow key s s'"
proof -
  have vals: "\<forall>v. (case rec of None \<Rightarrow> initial | Some r \<Rightarrow> Some (rec_value r)) = Some v \<longrightarrow> wf_json (JObj v)"
    using h i by (auto simp: held_def split: option.splits)
  note e = finish_effect[OF fin s x rp vals]
  have "forward ow key s s'" if "finished ow key rec v x rp s s'" "(case rec of None \<Rightarrow> initial | Some r \<Rightarrow> Some (rec_value r)) = Some v" for v
  proof (cases rec)
    case None
    then show ?thesis using that(1) by (auto simp: finished_def forward_def)
  next
    case (Some r)
    then show ?thesis using that finished_forward[of ow key r x rp s s'] h by auto
  qed
  then show ?thesis using e by auto
qed

lemma deny_forward:
  assumes d: "deny_run iv now rp reason s = (res, s')" and iv: "wf_invocation iv" and s: "wf_store s" and rp: "wf_reply rp"
  shows "iv_forward iv s s'"
proof -
  let ?settle = "\<lambda>r s. finish_call (iv_owner iv) now (iv_key iv) (Some r)
                       (text_result (if phase_of r = ''started'' then Interrupted else Denied) reason) (Some rp) None s"
  let ?v = "iv_doc iv ''prepared'' (frozen_value (JObj (iv_args iv)))"
  have settle: "iv_forward iv t t'" if "?settle r t = (out, t')" "wf_store t" "iv_held iv t r" for r t t' out
    using finish_forward[OF that(1,2)] that(3) rp by simp
  show ?thesis
  proof (cases "\<exists>found u. tool_record (iv_owner iv) (iv_key iv) (iv_print iv) s = Inr found \<and> map_option phase_of found \<noteq> Some ''done''
      \<and> reply_check rp s = Inr u")
    case False
    then have "s' = s" using d unfolding deny_run_def by (auto split: sum.splits if_splits)
    then show ?thesis using s by simp
  next
    case True
    then obtain found where f: "tool_record (iv_owner iv) (iv_key iv) (iv_print iv) s = Inr found" "map_option phase_of found \<noteq> Some ''done''"
      "reply_check rp s = Inr ()" by auto
    have eq: "deny_run iv now rp reason s = (case found of
         Some r \<Rightarrow> ?settle r s
       | None \<Rightarrow> (case iv_save iv now None ?v s of (Inl e, s') \<Rightarrow> (Inl e, s') | (Inr r, s') \<Rightarrow> ?settle r s'))"
      by (simp only: deny_run_def f(1,3) sum.case if_not_P[OF f(2)] Let_def)
    show ?thesis
    proof (cases found)
      case (Some r)
      then have "iv_held iv s r" using tool_record_current[OF f(1)] held_current[OF s] by simp
      then show ?thesis using settle[of r s res s'] d eq Some s by simp
    next
      case None
      have v: "wf_pyval ?v" unfolding iv_doc_def using iv by (intro receipt_doc_wf) (simp add: wf_invocation_def del: wf_json.simps frozen_value.simps)
      obtain x t where sv: "iv_save iv now None ?v s = (x, t)" by fastforce
      show ?thesis
      proof (cases x)
        case (Inl e)
        then have "t = s" using sv receipt_unsaved by (simp add: iv_save_def)
        then show ?thesis using d eq None sv Inl s by simp
      next
        case (Inr r)
        have sd: "saved (iv_owner iv) (iv_key iv) None ?v s r t"
          using receipt_saved[OF sv[unfolded Inr iv_save_def] s v] by simp
        then have t: "iv_forward iv s t" "iv_held iv t r" using fresh_forward[OF sd] by (simp_all add: saved_def)
        then have "iv_forward iv t s'" using settle[of r t res s'] d eq None sv Inr by simp
        then show ?thesis using t(1) extends_trans forward_trans by blast
      qed
    qed
  qed
qed

lemma request_wf:
  assumes "call_request rp s = Inr (binding, args)"
  shows "rp_reader rp = w_session (rp_writer rp) \<and> wf_json (JObj args)"
proof -
  obtain m where m: "get_message s (rp_reader rp) (ref_message (rp_call rp)) = Inr (Some m)" and r: "rp_reader rp = w_session (rp_writer rp)"
    using assms by (auto simp: call_request_def res_simps split: if_splits option.splits)
  obtain ps f where ps: "m_body m = Output ps f" using assms m r by (cases "m_body m") (simp_all add: call_request_def)
  then have p: "ref_index (rp_call rp) < length ps" "ps ! ref_index (rp_call rp) = ToolCall binding args"
    using assms m r by (auto simp: call_request_def split: if_splits part.splits)
  have "wf_part (ps ! ref_index (rp_call rp))"
    using get_message_body[OF m] ps p(1) by (simp add: list_all_length)
  then show ?thesis using r p(2) by simp
qed

lemma target_same: "abandon_target rp found = Inr target \<Longrightarrow>
    rp_call target = rp_call rp \<and> rp_reader target = rp_reader rp \<and> rp_writer target = rp_writer rp"
  by (auto simp: abandon_target_def item_def Let_def res_simps split: option.splits json.splits if_split_asm)

lemma abandon_forward:
  assumes a: "abandon_settle sha256 ow now rp s = ((res, cancelled), s')" and s: "wf_store s"
    and rp: "wf_writer (rp_writer rp)" "ref_message (rp_call rp) \<noteq> []"
  shows "wf_store s' \<and> extends s s' \<and> forward ow (durable_call_key (rp_call rp)) s s'"
proof -
  let ?key = "durable_call_key (rp_call rp)"
  have fin: "wf_store t \<and> extends s t \<and> forward ow ?key s t"
    if "abandon_finish ow now ?key found st target initial s = (y, t)" "abandon_request rp found s = Inr (target, binding, args)"
      "owner_read s ow ?key = Inr found" "wf_json (JObj initial)" for found st target initial y t binding args
  proof -
    have "abandon_target rp found = Inr target" "call_request target s = Inr (binding, args)"
      using that(2) by (auto simp: abandon_request_def res_simps)
    then have "wf_reply target" using target_same request_wf rp by (metis wf_reply_def)
    moreover have "\<forall>r. found = Some r \<longrightarrow> held ow ?key s r" using held_current[OF s] that(3) by (simp add: current_def)
    ultimately show ?thesis
      using that(1,4) finish_forward[OF _ s, of ow now ?key found _ "Some target" "Some initial"]
      by (auto simp: abandon_finish_def split: prod.splits sum.splits if_splits)
  qed
  show ?thesis
  proof (cases "bindR (owner_read s ow ?key) (\<lambda>found. bindR (earlier_result rp found s) (\<lambda>earlier. Inr (found, earlier)))")
    case (Inl e)
    then show ?thesis using a s by (simp add: abandon_settle_def Let_def)
  next
    case (Inr p)
    obtain found earlier where p: "p = (found, earlier)" by (cases p)
    have read: "owner_read s ow ?key = Inr found" using Inr p by (auto simp: res_simps)
    show ?thesis
    proof (cases "earlier = None \<and> (\<exists>target binding args. abandon_request rp found s = Inr (target, binding, args))")
      case False
      then have "s' = s" using a Inr p by (auto simp: abandon_settle_def Let_def split: option.splits sum.splits)
      then show ?thesis using s by simp
    next
      case True
      then obtain target binding args where q: "earlier = None" "abandon_request rp found s = Inr (target, binding, args)" by blast
      let ?print = "fingerprint sha256 binding args (Some target)"
      let ?initial = "[(''version'', JInt 1), (''request'', JStr ?print), (''binding'', JStr binding),
                      (''reply_id'', JStr (rp_message target)), (''arguments'', JObj args)]"
      have "wf_json (JObj args)" using q(2) request_wf by (auto simp: abandon_request_def res_simps)
      then have wi: "wf_json (JObj ?initial)" by simp
      have "(\<exists>st. abandon_finish ow now ?key found st target ?initial s = ((res, cancelled), s')) \<or> s' = s"
        using a Inr p q by (cases found) (auto simp: abandon_settle_def Let_def split: sum.splits if_splits)
      then show ?thesis using fin[OF _ q(2) read wi] s by auto
    qed
  qed
qed

text \<open>Every step is a segment of the run, or leaves the run where it is (or forgets it).\<close>

lemma tool_step_cases:
  assumes "tool_step iv idem w w'" and s: "wf_store (tw_log w)" and pc: "tool_pc_ok iv idem (tw_log w) (tw_pc w)"
    and iv: "wf_invocation iv"
  shows "(\<exists>r act. segment_ok iv idem (tw_log w) r \<and> w' = tool_moved r (w\<lparr>tw_active := act\<rparr>))
    \<or> (\<exists>t act pc. iv_forward iv (tw_log w) t \<and> (pc = tw_pc w \<or> pc = Idle) \<and> w' = w\<lparr>tw_pc := pc, tw_log := t, tw_active := act\<rparr>)"
proof -
  have seg: ?thesis if "segment_ok iv idem (tw_log w) r" "w' = tool_moved r w" for r
    using that by (metis tool_world.surjective tool_world.update_convs(3))
  have out: ?thesis if "iv_forward iv (tw_log w) t" "pc = tw_pc w \<or> pc = Idle" "w' = w\<lparr>tw_pc := pc, tw_log := t, tw_active := act\<rparr>" for t act pc
    using that by blast
  show ?thesis
    using assms(1)
  proof cases
    case (begins now)
    then show ?thesis using begin_segment[OF iv s] by blast
  next
    case (opens r now opened)
    then show ?thesis using seg opened_segment[OF iv s] pc by (simp add: tool_pc_ok_def)
  next
    case (prepares r src v now)
    then show ?thesis using seg answered_segment[OF iv s] pc by (simp add: tool_pc_ok_def)
  next
    case (queries r a found now)
    then show ?thesis using seg queried_segment[OF iv s] pc by (simp add: tool_pc_ok_def)
  next
    case (authorizes r a st v now start)
    then show ?thesis using seg authorized_segment[OF iv s] pc by (simp add: tool_pc_ok_def)
  next
    case (answers r a response now)
    then show ?thesis using seg invoked_segment[OF iv s] pc by (simp add: tool_pc_ok_def)
  next
    case (closes out now exit)
    then show ?thesis using seg closed_segment[OF iv s] pc by simp
  next
    case crashes
    then show ?thesis using out[of "tw_log w" Idle "tw_active w"] s by simp
  next
    case revokes
    then show ?thesis using out[of "tw_log w" "tw_pc w" False] s by simp
  next
    case (denies rp now reason res s')
    then show ?thesis using out[of s' "tw_pc w" "tw_active w"] deny_forward[OF _ iv s] by simp
  next
    case (abandons rp sha256 now res cancelled s')
    then show ?thesis using out[of s' "tw_pc w" "tw_active w \<and> \<not> cancelled"] abandon_forward[OF _ s] by simp
  next
    case (others s')
    then show ?thesis using out[of s' "tw_pc w" "tw_active w"] forward_same[OF current_cong] by simp
  qed
qed

lemma tool_step_inv:
  assumes "tool_step iv idem w w'" and inv: "tool_inv iv idem b w" and iv: "wf_invocation iv"
  shows "tool_inv iv idem b w' \<and> iv_forward iv (tw_log w) (tw_log w')"
proof -
  have s: "wf_store (tw_log w)" and pc: "tool_pc_ok iv idem (tw_log w) (tw_pc w)" using inv by (simp_all add: tool_inv_def)
  show ?thesis
    using tool_step_cases[OF assms(1) s pc iv]
  proof
    assume "\<exists>r act. segment_ok iv idem (tw_log w) r \<and> w' = tool_moved r (w\<lparr>tw_active := act\<rparr>)"
    then obtain r act where r: "segment_ok iv idem (tw_log w) r" and w': "w' = tool_moved r (w\<lparr>tw_active := act\<rparr>)" by blast
    have "tool_inv iv idem b (w\<lparr>tw_active := act\<rparr>)" using inv by (simp add: tool_inv_def)
    then have "tool_inv iv idem b w'" using tool_moved_inv r w' by simp
    moreover have "tw_log w' = snd r" by (simp add: w' tool_moved_def)
    ultimately show ?thesis using r by (simp add: segment_ok_def)
  next
    assume "\<exists>t act pc. iv_forward iv (tw_log w) t \<and> (pc = tw_pc w \<or> pc = Idle) \<and> w' = w\<lparr>tw_pc := pc, tw_log := t, tw_active := act\<rparr>"
    then obtain t act pc where f: "iv_forward iv (tw_log w) t" and c: "pc = tw_pc w \<or> pc = Idle"
      and w': "w' = w\<lparr>tw_pc := pc, tw_log := t, tw_active := act\<rparr>" by blast
    have "tool_inv iv idem b (w\<lparr>tw_log := t, tw_active := act\<rparr>)" using tool_other_inv[OF inv] f by blast
    then have "tool_inv iv idem b w'" using c w' by (auto simp: tool_inv_def tool_pc_ok_def)
    then show ?thesis using f w' by simp
  qed
qed

lemma tool_steps_inv:
  assumes "(tool_step iv idem)\<^sup>*\<^sup>* w w'" and "tool_inv iv idem b w" and "wf_invocation iv"
  shows "tool_inv iv idem b w' \<and> iv_forward iv (tw_log w) (tw_log w')"
  using assms(1)
proof (induction rule: rtranclp_induct)
  case base
  then show ?case using assms(2) by (simp add: tool_inv_def)
next
  case (step u v)
  have iv: "wf_invocation iv" by (rule assms(3))
  show ?case using tool_step_inv[OF step(2) _ iv] step.IH extends_trans forward_trans by blast
qed

end
