(* ===== verification/Tool_Properties.thy ===== *)
theory Tool_Properties
  imports Tool_Steps Turn_Properties
begin

text \<open>
  What running a tool call guarantees: the effect happens at most once, with the arguments that were
  fixed, its result is durable and unique, and an interrupted call is settled.
\<close>

section \<open>At most once\<close>

lemma tool_start_inv:
  assumes "wf_store (tw_log w)" and "tw_pc w = Idle" "tw_calls w = []"
  shows "tool_inv iv idem (spent (iv_owner iv) (iv_key iv) (tw_log w)) w"
  using assms by (simp add: tool_inv_def tool_pc_ok_def)

text \<open>C3. Whatever crashes, cancellations, denials and abandons happen, a tool that cannot recognise a repeated key is
  called at most once, and never when its receipt already says started; every call passes the
  arguments of the receipt, and while the tool works the receipt says so durably.\<close>

theorem tool_invoked_once:
  assumes "wf_invocation iv" and "wf_store (tw_log w)" "tw_pc w = Idle" "tw_calls w = []" and "(tool_step iv idem)\<^sup>*\<^sup>* w w'"
  shows "(\<not> idem \<longrightarrow> length (tw_calls w') \<le> 1)
    \<and> (\<not> idem \<and> phase_at (iv_owner iv) (iv_key iv) (tw_log w) \<in> {Some ''started'', Some ''done''} \<longrightarrow> tw_calls w' = [])
    \<and> (\<forall>a \<in> set (tw_calls w'). \<exists>c. current (iv_owner iv) (iv_key iv) (tw_log w') = Some c \<and> phase_of c \<in> {''started'', ''done''}
         \<and> map_option json_sorted (map_of (rec_value c) ''arguments'') = Some (json_sorted a))"
proof -
  let ?sp = "spent (iv_owner iv) (iv_key iv)"
  have inv: "tool_inv iv idem (?sp (tw_log w)) w'"
    using tool_steps_inv[OF assms(5) tool_start_inv[OF assms(2-4)] assms(1)] by blast
  have one: "?sp (tw_log w') \<le> 1" by (auto simp: spent_def split: option.split)
  have begun: "?sp (tw_log w) = 1" if "phase_at (iv_owner iv) (iv_key iv) (tw_log w) \<in> {Some ''started'', Some ''done''}"
    using that by (auto simp: spent_def)
  have late: "phase_of c \<in> {''started'', ''done''}" if "2 \<le> rank (phase_of c)" for c
    using that unfolding rank_def by (simp split: if_split_asm)
  have n: "\<not> idem \<longrightarrow> ?sp (tw_log w) + length (tw_calls w') \<le> 1" using inv one by (auto simp: tool_inv_def)
  have d: "\<forall>a \<in> set (tw_calls w'). call_done iv (tw_log w') a" using inv by (simp add: tool_inv_def)
  show ?thesis
  proof (intro conjI)
    show "\<not> idem \<longrightarrow> length (tw_calls w') \<le> 1" using n by linarith
    show "\<not> idem \<and> phase_at (iv_owner iv) (iv_key iv) (tw_log w) \<in> {Some ''started'', Some ''done''} \<longrightarrow> tw_calls w' = []"
      using n begun by auto
  qed (use d late in \<open>unfold call_done_def, blast\<close>)
qed

text \<open>A receipt only moves forward: its version grows with every change, its phase never goes back, a settled receipt
  never changes, and the arguments stay what they were when the call was prepared.\<close>

theorem tool_receipt_forward:
  assumes "wf_invocation iv" and "wf_store (tw_log w)" "tw_pc w = Idle" "tw_calls w = []" and "(tool_step iv idem)\<^sup>*\<^sup>* w v"
    and "(tool_step iv idem)\<^sup>*\<^sup>* v v'" and "current (iv_owner iv) (iv_key iv) (tw_log v) = Some c"
  shows "\<exists>c'. current (iv_owner iv) (iv_key iv) (tw_log v') = Some c'
    \<and> (c' = c \<or> (phase_of c \<noteq> ''done'' \<and> rec_version c < rec_version c' \<and> rank (phase_of c) \<le> rank (phase_of c')
         \<and> (phase_of c \<in> {''prepared'', ''started''} \<longrightarrow> same_at ''arguments'' (rec_value c') (rec_value c))))"
proof -
  have "tool_inv iv idem (spent (iv_owner iv) (iv_key iv) (tw_log w)) v"
    using tool_steps_inv[OF assms(5) tool_start_inv[OF assms(2-4)] assms(1)] by blast
  then have "forward (iv_owner iv) (iv_key iv) (tw_log v) (tw_log v')"
    using tool_steps_inv[OF assms(6) _ assms(1)] by blast
  then show ?thesis using assms(7) by (auto simp: forward_def)
qed

text \<open>C12. A result is durable and unique before it is known, and final: when a run returns a result, the receipt is
  done and holds it (itself, or by pointing to the message that does, up to the order of object
  members); from then on no run, denial, abandon or crash changes the receipt - version, arguments and
  result - nor any stored message, so the same result is read for ever and a later run of the call
  returns the same.\<close>

theorem tool_result_settled:
  assumes "wf_invocation iv" and "wf_store (tw_log w)" "tw_pc w = Idle" "tw_calls w = []" and "(tool_step iv idem)\<^sup>*\<^sup>* w v"
    and "tw_pc v = Returned x" and "(tool_step iv idem)\<^sup>*\<^sup>* v v'"
  shows "(\<exists>c d r. current (iv_owner iv) (iv_key iv) (tw_log v) = Some c \<and> current (iv_owner iv) (iv_key iv) (tw_log v') = Some c
      \<and> phase_of c = ''done'' \<and> map_of (rec_value c) ''result'' = Some d
      \<and> (case iv_reply iv of None \<Rightarrow> read_result d | Some rp \<Rightarrow> reply_read rp (tw_log v') d) = Inr r \<and> sorted_result r = sorted_result x)
    \<and> (\<exists>rows. messages (tw_log v') = messages (tw_log v) @ rows)
    \<and> (\<forall>y. tw_pc v' = Returned y \<longrightarrow> sorted_result y = sorted_result x)"
proof -
  have inv: "tool_inv iv idem (spent (iv_owner iv) (iv_key iv) (tw_log w)) v"
    using tool_steps_inv[OF assms(5) tool_start_inv[OF assms(2-4)] assms(1)] by blast
  note later = tool_steps_inv[OF assms(7) inv assms(1)]
  have now: "settled_as iv (tw_log v) x" "wf_store (tw_log v)" using inv assms(6) by (simp_all add: tool_inv_def tool_pc_ok_def)
  then have x: "settled_as iv (tw_log v') x" using settled_as_forward later by blast
  have "sorted_result y = sorted_result x" if "tw_pc v' = Returned y" for y
  proof -
    have "settled_as iv (tw_log v') y" using later that by (simp add: tool_inv_def tool_pc_ok_def)
    then show ?thesis using x by (auto simp: settled_as_def read_settled_def)
  qed
  moreover obtain c d r where c: "current (iv_owner iv) (iv_key iv) (tw_log v') = Some c" "phase_of c = ''done''"
    "map_of (rec_value c) ''result'' = Some d" "receipt_result (iv_reply iv) (tw_log v') d = Inr r" "sorted_result r = sorted_result x"
    using x by (auto simp: settled_as_def read_settled_def)
  moreover have "current (iv_owner iv) (iv_key iv) (tw_log v) = Some c"
    using now(1) later c(1) by (auto simp: settled_as_def read_settled_def forward_def)
  moreover have "\<exists>rows. messages (tw_log v') = messages (tw_log v) @ rows" using later by (simp add: extends_def)
  ultimately show ?thesis unfolding receipt_result_def by blast
qed

section \<open>Interrupted calls\<close>

lemma freeze_py_dict_total:
  assumes "\<forall>p \<in> set d. \<exists>j. freeze_json (snd p) = Inr j"
  shows "\<exists>q. freeze_json (py_dict d) = Inr (JObj q)"
proof -
  have "\<exists>q. seqR (map (\<lambda>p. bindR (freeze_json (snd p)) (\<lambda>v. Inr (fst p, v))) d) = Inr q"
    using assms
  proof (induction d)
    case (Cons p d)
    then show ?case by auto
  qed simp
  then show ?thesis by (auto simp: py_dict_def comp_def list_ex_iff)
qed

lemma save_succeeds:
  assumes "wf_store u" and "current ow key u = Some c" and "key \<noteq> []"
    and "\<forall>p \<in> set d. \<exists>j. freeze_json (snd p) = Inr j"
  shows "\<exists>r t. owner_save ow key (py_dict d) (Some (rec_version c)) u = Inr (r, t)"
proof -
  obtain q where "freeze_json (py_dict d) = Inr (JObj q)" using freeze_py_dict_total[OF assms(4)] by blast
  moreover have "owner_read u ow key = Inr (Some c)" using store_current[OF assms(1)] assms(2) by simp
  moreover have "0 \<le> rec_version c" using current_wf[OF assms(1,2)] by blast
  ultimately show ?thesis using assms(3) by (simp add: owner_save_def Let_def) (simp add: py_dict_def)
qed

lemma finish_succeeds:
  assumes s: "wf_store s" "\<not> in_tx s" "key \<noteq> []" and c: "current ow key s = Some c" "map_of (rec_value c) ''phase'' = Some p" "p \<noteq> JStr ''done''"
    and x: "wf_result x" and fv: "finish_value now x rp (s\<lparr>in_tx := True\<rparr>) = Inr (sv, u)" and rp: "\<forall>rp'. rp = Some rp' \<longrightarrow> wf_reply rp'"
  shows "\<exists>t. finish_call ow now key (Some c) x rp initial s = (Inr x, t)"
proof -
  let ?u = "s\<lparr>in_tx := True\<rparr>"
  have u0: "wf_store ?u" using s(1) by (simp add: wf_store_in_tx)
  have u: "wf_store u \<and> current ow key u = Some c \<and> (\<exists>j. freeze_json sv = Inr j)"
  proof (cases rp)
    case None
    then have "sv = result_value x" "u = ?u" using fv by (simp_all add: finish_value_def)
    then show ?thesis using u0 c(1) freeze_result[OF x] by simp
  next
    case (Some reply)
    let ?b = "ToolResult False (rp_call reply) (tr_outcome x) (tr_parts x)"
    obtain m where m: "append_message now (rp_writer reply) (rp_message reply) ?b None None ?u = Inr (m, u)"
      and sv: "sv = py_dict [(''message_id'', VStr (m_id m)), (''seq'', VInt (m_seq m))]"
      using fv Some by (auto simp: finish_value_def res_simps)
    have w: "wf_writer (rp_writer reply)" "wf_body ?b" using rp Some x by (simp_all add: wf_reply_def wf_result_def)
    have "wf_store u" using append_store[OF m u0 w(2) _ w(1)] by simp
    moreover have "owner_records u = owner_records ?u"
      using append_owner_records[OF m _ w(2) _ w(1)] u0 by (simp add: wf_store_def)
    then have "current ow key u = current ow key ?u" by (intro current_cong) (simp add: owner_row_def)
    ultimately show ?thesis using c(1) sv by (simp add: py_dict_def)
  qed
  have "\<forall>q \<in> set (AList.update ''result'' sv (AList.update ''phase'' (VStr ''done'') (frozen_items (rec_value c)))).
      \<exists>j. freeze_json (snd q) = Inr j"
    using u in_set_update[of _ _ "''result''" sv] in_set_update[of _ _ "''phase''" "VStr ''done''"]
    by (fastforce simp: frozen_items_def)
  then obtain r t where save: "owner_save ow key (done_doc (rec_value c) sv) (Some (rec_version c)) u = Inr (r, t)"
    using save_succeeds[of u ow key c] u s(3) unfolding done_doc_def by blast
  have read: "tx_read ow key (False, ?u) = Inr (Some c)" using store_current[OF u0, of ow key] c(1) by (simp add: tx_read_def)
  have "settled_receipt (rec_value c) rp s (Some c) = Inr None" using c(2,3) by (simp add: settled_receipt_def item_def)
  then have "run_tx ow now (finish_prog key (rec_value c) (Some (rec_version c)) x rp s) (False, ?u) = (Inr x, (False, t))"
    using run_finish[OF read x, of now "rec_value c" "Some (rec_version c)" rp s] fv save by auto
  then show ?thesis using s(2) by (simp add: finish_call_def transact_def write_tx_def)
qed

lemma interrupted_run:
  assumes "wf_invocation iv" and "wf_store (tw_log w)" "\<not> in_tx (tw_log w)" "iv_key iv \<noteq> []" "\<not> tool_running (tw_pc w)"
    and "tool_record (iv_owner iv) (iv_key iv) (iv_print iv) (tw_log w) = Inr (Some r)"
    and "phase_of r = ''started''" "arguments_of r = Inr a" and "iv_check iv (tw_log w) = Inr ()"
    and "finish_value now (text_result Errored lost_text) (iv_reply iv) (tw_log w\<lparr>in_tx := True\<rparr>) = Inr p"
  shows "\<exists>w'. (tool_step iv False ^^ 4) w w' \<and> tw_pc w' = Returned (text_result Errored lost_text)
    \<and> tw_calls w' = tw_calls w \<and> phase_at (iv_owner iv) (iv_key iv) (tw_log w') = Some ''done''"
proof -
  let ?s = "tw_log w" and ?x = "text_result Errored lost_text"
  have cur: "current (iv_owner iv) (iv_key iv) ?s = Some r" using tool_record_current[OF assms(6)] by simp
  obtain q where q: "map_of (rec_value r) ''phase'' = Some q" "q \<noteq> JStr ''done''"
    using assms(7) by (auto simp: phase_of_def split: option.splits json.splits)
  have rp: "\<forall>rp'. iv_reply iv = Some rp' \<longrightarrow> wf_reply rp'" using assms(1) by (simp add: wf_invocation_def)
  obtain sv u where p: "p = (sv, u)" by (cases p)
  obtain t where fin: "iv_finish iv now r ?x ?s = (Inr ?x, t)"
    using finish_succeeds[OF assms(2-4) cur q text_result_wf assms(10)[unfolded p] rp] by (auto simp: iv_finish_def)
  have "settled_as iv t ?x" using finish_iv[OF assms(1,2) held_current[OF assms(2) cur] text_result_wf fin] by blast
  then have don: "phase_at (iv_owner iv) (iv_key iv) t = Some ''done''" by (auto simp: settled_as_def read_settled_def phase_at_def)
  let ?w1 = "w\<lparr>tw_active := True, tw_pc := Opening r\<rparr>" and ?w2 = "w\<lparr>tw_active := True, tw_pc := Querying r a\<rparr>"
    and ?w3 = "w\<lparr>tw_active := True, tw_pc := Closing (Inr ?x), tw_log := t\<rparr>" and ?w4 = "w\<lparr>tw_active := True, tw_pc := Returned ?x, tw_log := t\<rparr>"
  have "run_begin iv now ?s = (Opening r, ?s)" using assms(6,7,9) by (simp add: run_begin_def)
  moreover have "tool_step iv False w (tool_moved (run_begin iv now ?s) (w\<lparr>tw_active := True\<rparr>))" by (rule tool_step.begins[OF assms(5)])
  ultimately have s1: "tool_step iv False w ?w1" by (simp add: tool_moved_def)
  have "run_opened iv now r True (Inr ()) ?s = (Querying r a, ?s)" using assms(7,8) by (simp add: run_opened_def run_prepared_def)
  moreover have "tool_step iv False ?w1 (tool_moved (run_opened iv now r (tw_active ?w1) (Inr ()) (tw_log ?w1)) ?w1)"
    by (rule tool_step.opens) simp
  ultimately have s2: "tool_step iv False ?w1 ?w2" by (simp add: tool_moved_def)
  have "run_queried iv now r a False (Inr None) ?s = (Closing (Inr ?x), t)" using fin by (simp add: run_queried_def)
  moreover have "tool_step iv False ?w2 (tool_moved (run_queried iv now r a False (Inr None) (tw_log ?w2)) ?w2)"
    by (rule tool_step.queries) simp_all
  ultimately have s3: "tool_step iv False ?w2 ?w3" by (simp add: tool_moved_def)
  have "tool_step iv False ?w3 (tool_moved (run_closed iv now (Inr ?x) None (tw_log ?w3)) ?w3)"
    by (rule tool_step.closes) simp
  then have s4: "tool_step iv False ?w3 ?w4" by (simp add: tool_moved_def run_closed_def)
  have "(tool_step iv False ^^ 4) w ?w4" using s1 s2 s3 s4 by (auto simp: eval_nat_numeral)
  then show ?thesis using don by (intro exI[of _ ?w4]) simp
qed

text \<open>An interrupted call is settled by the next run: when the receipt says started and the tool can neither report
  nor repeat the call, then after opening the tool, asking it and closing it the call is done with
  an error that says so, and the tool was not called again.\<close>

theorem interrupted_call_settles:
  assumes "wf_invocation iv" and "wf_store (tw_log w)" "\<not> in_tx (tw_log w)" "iv_key iv \<noteq> []" "\<not> tool_running (tw_pc w)"
    and "tool_record (iv_owner iv) (iv_key iv) (iv_print iv) (tw_log w) = Inr (Some r)"
    and "phase_of r = ''started''" "arguments_of r = Inr a" and "iv_check iv (tw_log w) = Inr ()"
    and "finish_value now (text_result Errored lost_text) (iv_reply iv) (tw_log w\<lparr>in_tx := True\<rparr>) = Inr p"
  shows "\<exists>w'. (tool_step iv False ^^ 4) w w' \<and> tw_pc w' = Returned (text_result Errored lost_text)
    \<and> tw_calls w' = tw_calls w \<and> phase_at (iv_owner iv) (iv_key iv) (tw_log w') = Some ''done''"
  by (rule interrupted_run[OF assms])

section \<open>Abandoned calls\<close>

lemma abandoned_keep:
  assumes "r \<in> set calls" and "\<forall>m \<in> set ms. m_source m = source \<longrightarrow> (\<forall>ps f. m_body m = Output ps f \<longrightarrow> f \<noteq> Continue \<longrightarrow> through < m_seq m)"
  shows "r \<in> set (fold (abandoned_step source through) ms calls)"
  using assms
proof (induction ms arbitrary: calls)
  case (Cons m ms)
  have add: "r \<in> set (fold (\<lambda>r cs. if r \<in> set cs then cs else cs @ [r]) rs cs)" if "r \<in> set cs" for rs cs
    using that by (induction rs arbitrary: cs) auto
  have "r \<in> set (abandoned_step source through m calls)"
    using Cons.prems add by (cases "m_body m") (auto simp: abandoned_step_def)
  then show ?case using Cons by simp
qed simp

lemma fold_add_set: "set (fold (\<lambda>r cs. if r \<in> set cs then cs else cs @ [r]) rs cs) = set cs \<union> set rs"
  by (induction rs arbitrary: cs) auto

text \<open>C22. An abandon leaves no call waiting: a call the react loop would still execute, of a message the control closes, is
  selected for settling by the abandon consumer, at any later reading of the history; and the loop
  does not see it as pending any more.\<close>

theorem abandon_selects_pending:
  assumes "wf_log s" and "session_history s sid = pre @ c # post" and "m_source c = source" "m_body c = Control Abandon t reason"
    and "r \<in> set (pending_calls pre source)" "x \<in> set pre" "r \<in> set (message_calls x)" "m_seq x \<le> t"
  shows "r \<in> set (abandoned_calls (session_history s sid) source t) \<and> r \<notin> set (pending_calls (pre @ [c]) source)"
proof -
  have ok: "prefix_ok (pre @ c # post)" using history_prefix_ok[OF assms(1), of sid] assms(2) by simp
  then have okc: "prefix_ok (pre @ [c])" and okp: "prefix_ok pre"
    by (auto simp: prefix_ok_def sorted_wrt_append)
  obtain y where y: "y \<in> set pre" "m_source y = source" "r \<in> set (message_calls y)" "closed_through pre source < m_seq y"
    using assms(5) pending_calls_spec[OF okp] by blast
  have "m_id y = m_id x" using message_calls_id[OF y(3)] message_calls_id[OF assms(7)] by simp
  then have xy: "y = x" using distinct_map_same[OF _ y(1) assms(6)] okp unfolding prefix_ok_def by blast
  obtain p q where pq: "pre = p @ x # q" using assms(6) split_list by metis
  obtain ps f where b: "m_body x = Output ps f" using assms(7) by (cases "m_body x") (auto simp: message_calls.simps)
  have le: "v \<le> closed_through pre source" if "m \<in> set pre" "m_source m = source" "v \<in> set (closings m)" for m v
    using that by (auto simp: closed_through_def from_source_def intro!: max_default_ge(2))
  have final: "m_seq m < m_seq x" if "m \<in> set pre" "m_source m = source" "m_body m = Output qs g" "g \<noteq> Continue" for m qs g
    using le[OF that(1,2), of "m_seq m"] that(3,4) y(4) xy by (simp add: closings.simps)
  have "f = Continue" using final[of x ps f] assms(6) y(2) xy b by auto
  then have r: "r \<in> set (abandoned_step source t x (fold (abandoned_step source t) p []))"
    using b assms(7,8) y(2) xy by (simp add: abandoned_step_def fold_add_set)
  have after: "m_seq x < m_seq m" if "m \<in> set q" for m using okp that unfolding pq by (auto simp: prefix_ok_def sorted_wrt_append)
  have "t < m_seq c" "\<forall>m \<in> set post. m_seq c < m_seq m"
    using ok assms(4) by (auto simp: prefix_ok_def sorted_wrt_append wf_message_def)
  then have all: "\<forall>m \<in> set (q @ c # post). m_source m = source \<longrightarrow> (\<forall>ps f. m_body m = Output ps f \<longrightarrow> f \<noteq> Continue \<longrightarrow> t < m_seq m)"
    using final after assms(4) pq by fastforce
  then have "r \<in> set (abandoned_calls (session_history s sid) source t)"
    using abandoned_keep[OF r all] by (simp add: abandoned_calls_def assms(2) pq)
  moreover have "r \<notin> set (pending_calls (pre @ [c]) source)"
  proof
    assume "r \<in> set (pending_calls (pre @ [c]) source)"
    then obtain z where z: "z \<in> set (pre @ [c])" "r \<in> set (message_calls z)" "closed_through (pre @ [c]) source < m_seq z"
      using pending_calls_spec[OF okc] by blast
    have "m_id z = m_id x" using message_calls_id[OF z(2)] message_calls_id[OF assms(7)] by simp
    moreover have "x \<in> set (pre @ [c])" using assms(6) by simp
    ultimately have "z = x" using distinct_map_same[OF _ z(1)] okc unfolding prefix_ok_def by blast
    moreover have "t \<le> closed_through (pre @ [c]) source" using assms(3,4) by (simp add: closed_through_snoc closings.simps)
    ultimately show False using z(3) assms(8) by simp
  qed
  ultimately show ?thesis by blast
qed

section \<open>A sample call\<close>

definition sample_call :: invocation where
  "sample_call = \<lparr>iv_owner = ''tools'', iv_key = ''program:k'', iv_binding = ''echo'', iv_args = [], iv_print = ''f'', iv_reply = None\<rparr>"

definition receipt_fields :: "string \<Rightarrow> json_object" where
  "receipt_fields phase = [(''arguments'', JObj []), (''binding'', JStr ''echo''), (''phase'', JStr phase),
     (''reply_id'', JNull), (''request'', JStr ''f''), (''version'', JInt 1)]"

definition receipt_log :: "int \<Rightarrow> string \<Rightarrow> message_log" where
  "receipt_log n phase = bound_log\<lparr>owner_records := [\<lparr>o_owner = ''tools'', o_key = ''program:k'', o_version = n, o_value = JObj (receipt_fields phase)\<rparr>]\<rparr>"

definition receipt_at :: "int \<Rightarrow> string \<Rightarrow> owner_record" where
  "receipt_at n phase = \<lparr>rec_version = n, rec_value = receipt_fields phase\<rparr>"

lemma sample_call_sel [simp]: "iv_owner sample_call = ''tools''" "iv_key sample_call = ''program:k''" "iv_reply sample_call = None"
  "iv_print sample_call = ''f''" "wf_invocation sample_call"
  by (simp_all add: sample_call_def wf_invocation_def)

lemma receipt_read: "0 \<le> n \<Longrightarrow> owner_read (receipt_log n p) ''tools'' ''program:k'' = Inr (Some (receipt_at n p))"
  by (simp add: owner_read_def owner_row_def receipt_log_def owner_record_of_def receipt_at_def receipt_fields_def)

lemma receipt_store: "0 \<le> n \<Longrightarrow> wf_store (receipt_log n p)"
  unfolding wf_store_def receipt_log_def wf_log_owner by (simp add: wf_owner_rows_def receipt_fields_def)

lemma receipt_tx [simp]: "\<not> in_tx (receipt_log n p)"
  by (simp add: receipt_log_def)

lemma receipt_phase: "phase_of (receipt_at n p) = p" "arguments_of (receipt_at n p) = Inr (JObj [])"
  "0 \<le> n \<Longrightarrow> current ''tools'' ''program:k'' (receipt_log n p) = Some (receipt_at n p)"
  by (simp_all add: phase_of_def arguments_of_def item_def receipt_at_def receipt_fields_def current_def receipt_read[unfolded receipt_at_def receipt_fields_def])

lemma receipt_known:
  assumes "p \<in> {''requested'', ''prepared'', ''started''}" "0 \<le> n"
  shows "tool_record ''tools'' ''program:k'' ''f'' (receipt_log n p) = Inr (Some (receipt_at n p))"
  using assms(1) unfolding tool_record_def receipt_read[OF assms(2)]
  by (auto simp: item_def receipt_at_def receipt_fields_def num_eq_def)

definition world_at :: "tool_pc \<Rightarrow> message_log \<Rightarrow> tool_world" where
  "world_at pc s = \<lparr>tw_pc = pc, tw_log = s, tw_active = True, tw_calls = []\<rparr>"

lemma world_sel [simp]: "tw_pc (world_at pc s) = pc" "tw_log (world_at pc s) = s" "tw_calls (world_at pc s) = []" "tw_active (world_at pc s)"
  by (simp_all add: world_at_def)

lemma sample_invoked:
  "\<exists>w'. (tool_step sample_call False)\<^sup>*\<^sup>* (world_at Idle (receipt_log 1 ''prepared'')) w' \<and> tw_calls w' = [JObj []]"
proof -
  let ?s = "receipt_log 1 ''prepared''" and ?r = "receipt_at 1 ''prepared''"
  let ?d = "AList.update ''permission'' (VMap []) (AList.update ''phase'' (VStr ''started'') (frozen_items (receipt_fields ''prepared'')))"
  have r: "rec_version ?r = 1" "rec_value ?r = receipt_fields ''prepared''" by (simp_all add: receipt_at_def)
  have "\<forall>p \<in> set ?d. \<exists>j. freeze_json (snd p) = Inr j"
    by (auto simp: frozen_items_def receipt_fields_def)
  moreover have "wf_store (?s\<lparr>in_tx := True\<rparr>)" using receipt_store[of 1] by (simp add: wf_store_in_tx)
  moreover have "current ''tools'' ''program:k'' (?s\<lparr>in_tx := True\<rparr>) = Some ?r" by (simp add: receipt_phase)
  ultimately obtain r' t where "owner_save ''tools'' ''program:k'' (py_dict ?d) (Some 1) (?s\<lparr>in_tx := True\<rparr>) = Inr (r', t)"
    using save_succeeds[of "?s\<lparr>in_tx := True\<rparr>" "''tools''" "''program:k''" ?r ?d] r(1) by auto
  then have save: "iv_save sample_call 0 (Some ?r) (started_doc (rec_value ?r) (VMap [])) ?s = (Inr r', t\<lparr>in_tx := False\<rparr>)"
    using transact_save[where f = "\<lambda>x. x", of "''tools''" 0 "''program:k''" "py_dict ?d" "Some 1" ?s]
    by (simp add: iv_save_def receipt_save_def started_doc_def r)
  let ?w1 = "world_at (Opening ?r) ?s" and ?w2 = "world_at (Authorizing ?r (JObj []) False) ?s"
  have "run_begin sample_call 0 ?s = (Opening ?r, ?s)"
    using receipt_known[of "''prepared''" 1] by (simp add: run_begin_def receipt_phase iv_check_def)
  then have s1: "tool_step sample_call False (world_at Idle ?s) ?w1"
    using tool_step.begins[of "world_at Idle ?s" sample_call False 0] by (simp add: tool_running_def tool_moved_def world_at_def)
  have "run_opened sample_call 0 ?r True (Inr ()) ?s = (Authorizing ?r (JObj []) False, ?s)"
    by (simp add: run_opened_def run_prepared_def receipt_phase)
  then have s2: "tool_step sample_call False ?w1 ?w2"
    using tool_step.opens[of ?w1 ?r sample_call False 0 "Inr ()"] by (simp add: tool_moved_def world_at_def)
  have "run_authorized sample_call 0 ?r (JObj []) False True (Answer (VMap [])) (Answer ()) ?s = (Invoking r' (JObj []), t\<lparr>in_tx := False\<rparr>)"
    using save by (simp add: run_authorized_def iv_check_def)
  then have s3: "tool_step sample_call False ?w2 (tool_moved (Invoking r' (JObj []), t\<lparr>in_tx := False\<rparr>) ?w2)"
    using tool_step.authorizes[of ?w2 ?r "JObj []" False "Answer (VMap [])" sample_call False 0 "Answer ()"] by simp
  have "tw_calls (tool_moved (Invoking r' (JObj []), t\<lparr>in_tx := False\<rparr>) ?w2) = [JObj []]" by (simp add: tool_moved_def)
  then show ?thesis using s1 s2 s3 by (meson converse_rtranclp_into_rtranclp rtranclp.rtrancl_refl)
qed

lemma tool_invoked_once_witness:
  "\<exists>w' :: tool_world. tw_calls w' = [JObj []] \<and> (\<exists>c. current ''tools'' ''program:k'' (tw_log w') = Some c \<and> phase_of c \<in> {''started'', ''done''})"
proof -
  obtain w' where w': "(tool_step sample_call False)\<^sup>*\<^sup>* (world_at Idle (receipt_log 1 ''prepared'')) w'" "tw_calls w' = [JObj []]"
    using sample_invoked by blast
  have "\<forall>a \<in> set (tw_calls w'). \<exists>c. current ''tools'' ''program:k'' (tw_log w') = Some c \<and> phase_of c \<in> {''started'', ''done''}
      \<and> map_option json_sorted (map_of (rec_value c) ''arguments'') = Some (json_sorted a)"
    using tool_invoked_once[OF _ _ _ _ w'(1), THEN conjunct2, THEN conjunct2] receipt_store[of 1] by simp
  then obtain c where "current ''tools'' ''program:k'' (tw_log w') = Some c" "phase_of c \<in> {''started'', ''done''}"
    using w'(2) by auto
  then have found: "tw_calls w' = [JObj []] \<and> (\<exists>c. current ''tools'' ''program:k'' (tw_log w') = Some c \<and> phase_of c \<in> {''started'', ''done''})"
    using w'(2) by simp
  show ?thesis by (rule exI[of _ w']) (fact found)
qed

lemma sample_interrupted:
  "\<exists>w'. (tool_step sample_call False ^^ 4) (world_at Idle (receipt_log 2 ''started'')) w'
    \<and> tw_pc w' = Returned (text_result Errored lost_text) \<and> tw_calls w' = []"
  using interrupted_run[of sample_call "world_at Idle (receipt_log 2 ''started'')" "receipt_at 2 ''started''" "JObj []" 0] receipt_known[of "''started''" 2]
  by (simp add: receipt_store tool_running_def receipt_phase iv_check_def finish_value_def) (elim exE conjE; intro exI conjI; assumption)

lemma interrupted_call_settles_witness:
  "\<exists>w'. (tool_step sample_call False ^^ 4) (world_at Idle (receipt_log 2 ''started'')) w' \<and> phase_at ''tools'' ''program:k'' (tw_log w') = Some ''done''"
  using interrupted_call_settles[of sample_call "world_at Idle (receipt_log 2 ''started'')" "receipt_at 2 ''started''" "JObj []" 0] receipt_known[of "''started''" 2]
  by (simp add: receipt_store tool_running_def receipt_phase iv_check_def finish_value_def) (elim exE conjE; intro exI conjI; assumption)

lemma tool_receipt_forward_witness:
  "\<exists>w' c. (tool_step sample_call False)\<^sup>*\<^sup>* (world_at Idle (receipt_log 2 ''started'')) w' \<and> tw_pc w' = Returned (text_result Errored lost_text)
    \<and> current ''tools'' ''program:k'' (tw_log w') = Some c \<and> 2 \<le> rank (phase_of c)"
proof -
  obtain w' where w': "(tool_step sample_call False)\<^sup>*\<^sup>* (world_at Idle (receipt_log 2 ''started'')) w'"
    "tw_pc w' = Returned (text_result Errored lost_text)"
    using sample_interrupted relpowp_imp_rtranclp by metis
  have cur: "current (iv_owner sample_call) (iv_key sample_call) (tw_log (world_at Idle (receipt_log 2 ''started''))) = Some (receipt_at 2 ''started'')"
    by (simp add: receipt_phase)
  obtain c where "current ''tools'' ''program:k'' (tw_log w') = Some c"
    "c = receipt_at 2 ''started'' \<or> rank (phase_of (receipt_at 2 ''started'')) \<le> rank (phase_of c)"
    using tool_receipt_forward[OF _ _ _ _ rtranclp.rtrancl_refl w'(1) cur] receipt_store[of 2] by auto
  then show ?thesis using w' receipt_phase(1)[of 2 "''started''"] by auto
qed

lemma tool_result_settled_witness:
  "\<exists>v c. (tool_step sample_call False)\<^sup>*\<^sup>* (world_at Idle (receipt_log 2 ''started'')) v
    \<and> tw_pc v = Returned (text_result Errored lost_text) \<and> phase_of c = ''done''
    \<and> current ''tools'' ''program:k'' (tw_log v) = Some c
    \<and> current ''tools'' ''program:k'' (snd (run_begin sample_call 0 (tw_log v))) = Some c"
proof -
  obtain v where v: "(tool_step sample_call False)\<^sup>*\<^sup>* (world_at Idle (receipt_log 2 ''started'')) v"
    "tw_pc v = Returned (text_result Errored lost_text)"
    using sample_interrupted relpowp_imp_rtranclp by metis
  let ?again = "tool_moved (run_begin sample_call 0 (tw_log v)) (v\<lparr>tw_active := True\<rparr>)"
  have "tool_step sample_call False v ?again"
    using v(2) by (intro tool_step.begins) (simp add: tool_running_def)
  then have step: "(tool_step sample_call False)\<^sup>*\<^sup>* v ?again" by (rule r_into_rtranclp)
  have "tw_log ?again = snd (run_begin sample_call 0 (tw_log v))"
    by (cases "run_begin sample_call 0 (tw_log v)") (simp add: tool_moved_def)
  then obtain c where "current ''tools'' ''program:k'' (tw_log v) = Some c" "phase_of c = ''done''"
    "current ''tools'' ''program:k'' (snd (run_begin sample_call 0 (tw_log v))) = Some c"
    using tool_result_settled[OF _ _ _ _ v step] receipt_store[of 2] by auto
  then show ?thesis using v by blast
qed

definition stop :: body where
  "stop = Control Abandon 1 None"

definition stop_writer :: writer where
  "stop_writer = user_writer\<lparr>w_types := [ControlType]\<rparr>"

lemma sample_stop: "\<exists>t. append_message 5 stop_writer ''m3'' stop None None log2 = Inr (said ''m3'' 2 ''user'' stop, t)"
proof -
  have e: "encode_body stop al = Inr (JObj [(''action'', JStr ''abandon''), (''kind'', JStr ''control''), (''reason'', JNull), (''through_seq'', JInt 1)])" for al
    by (simp add: stop_def encode_body_def Let_def)
  have m: "mk_Message ''m3'' ''s'' 2 (Aware 5) ''user'' ''chat'' stop (VMap []) = Inr (said ''m3'' 2 ''user'' stop)"
    by (simp add: mk_Message_def no_metadata stop_def said_def)
  have b: "type_of stop = ControlType" "result_ref stop = None" "is_control stop" by (simp_all add: stop_def)
  show ?thesis
    by (simp add: append_eval sample_eval stop_writer_def e m b) (simp add: answered_call_def json_get_def field_def)
qed

lemma abandon_selects_pending_witness:
  "\<exists>t. CallRef ''m2'' 0 \<in> set (abandoned_calls (session_history t ''s'') ''chat'' 1)"
proof -
  obtain t where t: "append_message 5 stop_writer ''m3'' stop None None log2 = Inr (said ''m3'' 2 ''user'' stop, t)"
    using sample_stop by blast
  have w: "wf_writer stop_writer" "w_session stop_writer = ''s''" "wf_body stop"
    by (simp_all add: wf_writer_def project_metadata_def stop_writer_def user_writer_def stop_def)
  have new: "find_message log2 ''m3'' = None" by (simp add: sample_find)
  have h: "session_history t ''s'' = session_history log2 ''s'' @ [stored_message (said ''m3'' 2 ''user'' stop)]" and wf: "wf_log t"
    using append_history[OF t new sample_wf(3) w(3) _ w(1)] append_wf[OF t sample_wf(3) w(3) _ w(1)] w(2) by simp_all
  have c: "m_source (stored_message (said ''m3'' 2 ''user'' stop)) = ''chat''" "m_body (stored_message (said ''m3'' 2 ''user'' stop)) = Control Abandon 1 None"
    by (simp_all add: stored_message_def said_def stop_def)
  have x: "said ''m2'' 1 ''model'' asking \<in> set (session_history log2 ''s'')"
    "CallRef ''m2'' 0 \<in> set (message_calls (said ''m2'' 1 ''model'' asking))" "m_seq (said ''m2'' 1 ''model'' asking) \<le> 1"
    by (simp_all add: sample_history) (simp_all add: said_def asking_def message_calls.simps calls_in_def)
  have "CallRef ''m2'' 0 \<in> set (pending_calls (session_history log2 ''s'') ''chat'')"
    by (simp add: sample_history said_def hello_def asking_def pending_calls_def recovered_def recover_step_def
        calls_in_def Let_def)
  then show ?thesis using abandon_selects_pending[OF wf h c _ x] by blast
qed

end
