(* ===== verification/Task_Groups.thy ===== *)
theory Task_Groups
  imports Prelude
begin

text \<open>
  The groups of the task service, \<open>agent/plugin_composition/tasks.py\<close>: activity, waiting for
  idleness and exclusive work under a key.

  Group objects are shared between the calls that use them, so they live on a heap. \<open>notify\<close>
  replaces a group's event and then sets the old one: events are numbered, and an event is set
  exactly when it is older than the one in the group. A call suspended on an event is a
  \<open>member\<close>; each segment between two awaits is one function from the service to the call's next state.
\<close>

section \<open>Groups\<close>

record group =
  gr_changed :: nat
  gr_references :: int
  gr_activity :: int
  gr_exclusive :: bool
  gr_waiting :: "(nat \<times> bool) list"

definition new_group :: group where
  "new_group = \<lparr>gr_changed = 0, gr_references = 0, gr_activity = 0, gr_exclusive = False, gr_waiting = []\<rparr>"

definition notify :: "group \<Rightarrow> group" where
  "notify g = g\<lparr>gr_changed := gr_changed g + 1\<rparr>"

definition event_set :: "group \<Rightarrow> nat \<Rightarrow> bool" where
  "event_set g e \<longleftrightarrow> e < gr_changed g"

text \<open>The fields of \<open>Tasks\<close> about groups: the dict of groups, and the group objects it and the calls refer to.\<close>

record groups =
  tg_groups :: "(string \<times> nat) list"
  tg_heap :: "nat \<Rightarrow> group"
  tg_next :: nat
  tg_drained :: bool
  tg_closed :: bool

definition no_groups :: groups where
  "no_groups = \<lparr>tg_groups = [], tg_heap = (\<lambda>i. new_group), tg_next = 0, tg_drained = True, tg_closed = False\<rparr>"

definition put_group :: "nat \<Rightarrow> (group \<Rightarrow> group) \<Rightarrow> groups \<Rightarrow> groups" where
  "put_group i f T = T\<lparr>tg_heap := (tg_heap T)(i := f (tg_heap T i))\<rparr>"

definition open_group :: "string \<Rightarrow> groups \<Rightarrow> (nat \<times> groups) res" where
  "open_group key T =
     (if tg_closed T then Inl RuntimeError
      else let (i, T1) = (case map_of (tg_groups T) key of
             Some i \<Rightarrow> (i, T)
           | None \<Rightarrow> (tg_next T, T\<lparr>tg_groups := tg_groups T @ [(key, tg_next T)],
                        tg_heap := (tg_heap T)(tg_next T := new_group), tg_next := tg_next T + 1\<rparr>))
         in Inr (i, (put_group i (\<lambda>g. g\<lparr>gr_references := gr_references g + 1\<rparr>) T1)\<lparr>tg_drained := False\<rparr>))"

definition release_group :: "string \<Rightarrow> nat \<Rightarrow> groups \<Rightarrow> unit res \<times> groups" where
  "release_group key i T =
     (let T1 = put_group i (\<lambda>g. g\<lparr>gr_references := gr_references g - 1\<rparr>) T in
      if gr_references (tg_heap T1 i) \<noteq> 0 then (Inr (), T1)
      else if map_of (tg_groups T1) key = None then (Inl KeyError, T1)
      else let gs = AList.delete key (tg_groups T1) in
        (Inr (), T1\<lparr>tg_groups := gs, tg_drained := (gs = [] \<or> tg_drained T1)\<rparr>))"

section \<open>The calls\<close>

text \<open>Where a call of \<open>activity\<close>, \<open>wait_idle\<close> or \<open>exclusive\<close> stands; the number is the event it waits for.\<close>

datatype member =
    Outside
  | InActivity string nat
  | AwaitIdle string nat nat
  | AwaitTurn string nat bool nat
  | InTurn string nat
  | Ended "unit res"

text \<open>Leaving through \<open>finally\<close>: what it raises replaces the outcome.\<close>

definition leave_group :: "string \<Rightarrow> nat \<Rightarrow> unit res \<Rightarrow> groups \<Rightarrow> member \<times> groups" where
  "leave_group key i out T = (case release_group key i T of (Inl e, T') \<Rightarrow> (Ended (Inl e), T') | (Inr u, T') \<Rightarrow> (Ended out, T'))"

definition activity_enter :: "string \<Rightarrow> groups \<Rightarrow> member \<times> groups" where
  "activity_enter key T = (case open_group key T of
     Inl e \<Rightarrow> (Ended (Inl e), T)
   | Inr (i, T') \<Rightarrow> (InActivity key i, put_group i (\<lambda>g. notify (g\<lparr>gr_activity := gr_activity g + 1\<rparr>)) T'))"

definition activity_exit :: "string \<Rightarrow> nat \<Rightarrow> unit res \<Rightarrow> groups \<Rightarrow> member \<times> groups" where
  "activity_exit key i out T = leave_group key i out (put_group i (\<lambda>g. notify (g\<lparr>gr_activity := gr_activity g - 1\<rparr>)) T)"

definition idle_check :: "string \<Rightarrow> nat \<Rightarrow> groups \<Rightarrow> member \<times> groups" where
  "idle_check key i T =
     (if tg_closed T then leave_group key i (Inl RuntimeError) T
      else if gr_activity (tg_heap T i) = 0 then leave_group key i (Inr ()) T
      else (AwaitIdle key i (gr_changed (tg_heap T i)), T))"

definition wait_idle :: "string \<Rightarrow> groups \<Rightarrow> member \<times> groups" where
  "wait_idle key T = (case open_group key T of
     Inl e \<Rightarrow> (Ended (Inl e), T)
   | Inr (i, T') \<Rightarrow> idle_check key i T')"

definition eligible :: "group \<Rightarrow> (nat \<times> bool) option" where
  "eligible g = List.find (\<lambda>r. \<not> snd r \<or> gr_activity g = 0) (gr_waiting g)"

text \<open>The end of a request that did not enter: it leaves the queue.\<close>

definition turn_withdraw :: "string \<Rightarrow> nat \<Rightarrow> nat \<times> bool \<Rightarrow> py_error \<Rightarrow> groups \<Rightarrow> member \<times> groups" where
  "turn_withdraw key i r e T =
     (if r \<notin> set (gr_waiting (tg_heap T i)) then (Ended (Inl ValueError), T)
      else leave_group key i (Inl e) (put_group i (\<lambda>g. notify (g\<lparr>gr_waiting := remove1 r (gr_waiting g)\<rparr>)) T))"

definition turn_check :: "string \<Rightarrow> nat \<Rightarrow> nat \<times> bool \<Rightarrow> groups \<Rightarrow> member \<times> groups" where
  "turn_check key i r T =
     (let g = tg_heap T i in
      if tg_closed T then turn_withdraw key i r RuntimeError T
      else if \<not> gr_exclusive g \<and> eligible g = Some r then
        (InTurn key i, put_group i (\<lambda>g. g\<lparr>gr_waiting := remove1 r (gr_waiting g), gr_exclusive := True\<rparr>) T)
      else (AwaitTurn key i (snd r) (gr_changed g), T))"

text \<open>The request is identified by the call that made it.\<close>

definition exclusive_enter :: "nat \<Rightarrow> string \<Rightarrow> bool \<Rightarrow> groups \<Rightarrow> member \<times> groups" where
  "exclusive_enter m key idle T = (case open_group key T of
     Inl e \<Rightarrow> (Ended (Inl e), T)
   | Inr (i, T') \<Rightarrow> turn_check key i (m, idle) (put_group i (\<lambda>g. g\<lparr>gr_waiting := gr_waiting g @ [(m, idle)]\<rparr>) T'))"

definition exclusive_exit :: "string \<Rightarrow> nat \<Rightarrow> unit res \<Rightarrow> groups \<Rightarrow> member \<times> groups" where
  "exclusive_exit key i out T = leave_group key i out (put_group i (\<lambda>g. notify (g\<lparr>gr_exclusive := False\<rparr>)) T)"

text \<open>The first lines of \<open>close\<close>.\<close>

definition close_groups :: "groups \<Rightarrow> groups" where
  "close_groups T = fold (\<lambda>p. put_group (snd p) notify) (tg_groups T) (T\<lparr>tg_closed := True\<rparr>)"

section \<open>Runs\<close>

text \<open>All calls made so far are numbered in the order they began.\<close>

record groups_world =
  gw_groups :: groups
  gw_members :: "nat \<Rightarrow> member"
  gw_count :: nat

definition gw_start :: groups_world where
  "gw_start = \<lparr>gw_groups = no_groups, gw_members = (\<lambda>m. Outside), gw_count = 0\<rparr>"

definition moved :: "nat \<Rightarrow> member \<times> groups \<Rightarrow> groups_world \<Rightarrow> groups_world" where
  "moved m r w = w\<lparr>gw_groups := snd r, gw_members := (gw_members w)(m := fst r)\<rparr>"

definition begun :: "member \<times> groups \<Rightarrow> groups_world \<Rightarrow> groups_world" where
  "begun r w = (moved (gw_count w) r w)\<lparr>gw_count := gw_count w + 1\<rparr>"

inductive group_step :: "groups_world \<Rightarrow> groups_world \<Rightarrow> bool" where
  activity_begins: "group_step w (begun (activity_enter key (gw_groups w)) w)"
| idle_begins: "group_step w (begun (wait_idle key (gw_groups w)) w)"
| turn_begins: "group_step w (begun (exclusive_enter (gw_count w) key idle (gw_groups w)) w)"
| activity_ends: "gw_members w m = InActivity key i \<Longrightarrow>
     group_step w (moved m (activity_exit key i out (gw_groups w)) w)"
| idle_wakes: "gw_members w m = AwaitIdle key i e \<Longrightarrow> event_set (tg_heap (gw_groups w) i) e \<Longrightarrow>
     group_step w (moved m (idle_check key i (gw_groups w)) w)"
| idle_cancelled: "gw_members w m = AwaitIdle key i e \<Longrightarrow>
     group_step w (moved m (leave_group key i (Inl CancelledError) (gw_groups w)) w)"
| turn_wakes: "gw_members w m = AwaitTurn key i idle e \<Longrightarrow> event_set (tg_heap (gw_groups w) i) e \<Longrightarrow>
     group_step w (moved m (turn_check key i (m, idle) (gw_groups w)) w)"
| turn_cancelled: "gw_members w m = AwaitTurn key i idle e \<Longrightarrow>
     group_step w (moved m (turn_withdraw key i (m, idle) CancelledError (gw_groups w)) w)"
| turn_ends: "gw_members w m = InTurn key i \<Longrightarrow>
     group_step w (moved m (exclusive_exit key i out (gw_groups w)) w)"
| closes: "group_step w (w\<lparr>gw_groups := close_groups (gw_groups w)\<rparr>)"

end
