(* ===== verification/Task_Service.thy ===== *)
theory Task_Service
  imports Task_Groups
begin

text \<open>
  The tasks of \<open>agent/plugin_composition/tasks.py\<close>: a task, its admission under a key, its
  cancellation and the shutdown of the service.

  A task runs as an asyncio task whose segments are the functions below; what its operation and the
  snapshot lease it holds answer are inputs of the segments. An admission callback is a program over the
  slot's operations and runs in one step, as the code demands (a callback that returns an awaitable counts as
  one that raises \<open>TypeError\<close>; coroutines do not start before the callback has returned).
  Cleanups and done callbacks are numbered; \<open>fails c\<close> says that the cleanup
  \<open>c\<close> raises an \<open>Exception\<close>. Exception groups are \<open>ExceptionGroup\<close>. The key stands for the pair the callers use.
\<close>

section \<open>Tasks\<close>

datatype task_pc =
    TCreated
  | TAdmission
  | TReleasing py_error
  | TOperating
  | TClosing "unit res"
  | TDone "unit res"

text \<open>\<open>tk_scope\<close>: a runtime scope that is still to be closed. \<open>tk_admitted\<close>: the event of the slot. \<open>tk_interrupt\<close>: the
  asyncio task was asked to cancel. The last four fields are traces: the cleanups and callbacks accepted, and those
  that have run.\<close>

record task =
  tk_key :: string
  tk_pc :: task_pc
  tk_active :: bool
  tk_cancel_requested :: bool
  tk_running :: bool
  tk_scope :: bool
  tk_admitted :: bool
  tk_interrupt :: bool
  tk_cleanup :: "nat list"
  tk_callbacks :: "nat list"
  tk_accepted :: "nat list"
  tk_promised :: "nat list"
  tk_ran :: "nat list"
  tk_called :: "nat list"

definition new_task :: "string \<Rightarrow> bool \<Rightarrow> task" where
  "new_task key scope = \<lparr>tk_key = key, tk_pc = TCreated, tk_active = True, tk_cancel_requested = False, tk_running = False,
     tk_scope = scope, tk_admitted = False, tk_interrupt = False, tk_cleanup = [], tk_callbacks = [],
     tk_accepted = [], tk_promised = [], tk_ran = [], tk_called = []\<rparr>"

definition tk_done :: "task \<Rightarrow> bool" where
  "tk_done t \<longleftrightarrow> (case tk_pc t of TDone out \<Rightarrow> True | _ \<Rightarrow> False)"

definition on_done :: "nat \<Rightarrow> task \<Rightarrow> task" where
  "on_done c t0 = (let t = t0\<lparr>tk_promised := tk_promised t0 @ [c]\<rparr> in
     if tk_done t then t\<lparr>tk_called := tk_called t @ [c]\<rparr> else t\<lparr>tk_callbacks := tk_callbacks t @ [c]\<rparr>)"

text \<open>A failing callback is logged; the others still run.\<close>

definition run_done_callbacks :: "task \<Rightarrow> task" where
  "run_done_callbacks t = t\<lparr>tk_callbacks := [], tk_called := tk_called t @ tk_callbacks t\<rparr>"

definition on_close :: "nat \<Rightarrow> task \<Rightarrow> unit res \<times> task" where
  "on_close c t = (if \<not> tk_active t then (Inl StaleTask, t) else (Inr (), t\<lparr>tk_cleanup := tk_cleanup t @ [c], tk_accepted := tk_accepted t @ [c]\<rparr>))"

definition task_close :: "(nat \<Rightarrow> bool) \<Rightarrow> task \<Rightarrow> unit res \<times> task" where
  "task_close fails t =
     (if \<not> tk_active t then (Inr (), t)
      else (if list_ex fails (tk_cleanup t) then Inl ExceptionGroup else Inr (),
            t\<lparr>tk_active := False, tk_cleanup := [], tk_ran := tk_ran t @ rev (tk_cleanup t)\<rparr>))"

definition task_cancel :: "(nat \<Rightarrow> bool) \<Rightarrow> task \<Rightarrow> unit res \<times> task" where
  "task_cancel fails t =
     (if tk_cancel_requested t then (Inr (), t)
      else case task_close fails (t\<lparr>tk_cancel_requested := True\<rparr>) of
        (out, t') \<Rightarrow> (out, if tk_running t' \<and> \<not> tk_done t' then t'\<lparr>tk_interrupt := True\<rparr> else t'))"

text \<open>The \<open>finally\<close> blocks of \<open>_run\<close>.\<close>

definition task_finally :: "(nat \<Rightarrow> bool) \<Rightarrow> unit res \<Rightarrow> task \<Rightarrow> task" where
  "task_finally fails out t =
     (case task_close fails t of (r, t') \<Rightarrow>
        let out' = (case r of Inl e \<Rightarrow> Inl e | Inr u \<Rightarrow> out) in
        if tk_scope t' then t'\<lparr>tk_scope := False, tk_pc := TClosing out'\<rparr> else t'\<lparr>tk_pc := TDone out'\<rparr>)"

text \<open>Entering the scope binds the lease at once, or fails and releases it.\<close>

definition task_enter :: "unit res \<Rightarrow> task \<Rightarrow> task" where
  "task_enter bound t =
     (case (tk_scope t, bound) of
        (True, Inl e) \<Rightarrow> t\<lparr>tk_scope := False, tk_pc := TReleasing e\<rparr>
      | _ \<Rightarrow> t\<lparr>tk_pc := TOperating\<rparr>)"

definition task_begin :: "(nat \<Rightarrow> bool) \<Rightarrow> unit res \<Rightarrow> task \<Rightarrow> task" where
  "task_begin fails bound t =
     (let t1 = t\<lparr>tk_running := True\<rparr> in
      if tk_cancel_requested t1 then task_finally fails (Inl CancelledError) t1
      else if tk_admitted t1 then task_enter bound t1
      else t1\<lparr>tk_pc := TAdmission\<rparr>)"

text \<open>The wait for the admission ends: by the event, or by cancellation.\<close>

definition task_resume :: "(nat \<Rightarrow> bool) \<Rightarrow> unit res \<Rightarrow> task \<Rightarrow> task" where
  "task_resume fails bound t =
     (if tk_interrupt t then task_finally fails (Inl CancelledError) t else task_enter bound t)"

definition lease_released :: "(nat \<Rightarrow> bool) \<Rightarrow> py_error \<Rightarrow> unit res \<Rightarrow> task \<Rightarrow> task" where
  "lease_released fails e r t = task_finally fails (case r of Inl e' \<Rightarrow> Inl e' | Inr u \<Rightarrow> Inl e) t"

definition scope_closed :: "unit res \<Rightarrow> unit res \<Rightarrow> task \<Rightarrow> task" where
  "scope_closed out r t = t\<lparr>tk_pc := TDone (case r of Inl e \<Rightarrow> Inl e | Inr u \<Rightarrow> out)\<rparr>"

section \<open>The service\<close>

record service =
  sv_tasks :: "(string \<times> nat) list"
  sv_heap :: "nat \<Rightarrow> task"
  sv_next :: nat
  sv_groups :: groups

definition no_tasks :: service where
  "no_tasks = \<lparr>sv_tasks = [], sv_heap = (\<lambda>i. new_task [] False), sv_next = 0, sv_groups = no_groups\<rparr>"

definition put_task :: "nat \<Rightarrow> (task \<Rightarrow> task) \<Rightarrow> service \<Rightarrow> service" where
  "put_task i f S = S\<lparr>sv_heap := (sv_heap S)(i := f (sv_heap S i))\<rparr>"

definition release_task :: "string \<Rightarrow> nat \<Rightarrow> service \<Rightarrow> service" where
  "release_task key i S =
     (if map_of (sv_tasks S) key = Some i then S\<lparr>sv_tasks := AList.delete key (sv_tasks S)\<rparr> else S)"

definition slot_current :: "string \<Rightarrow> service \<Rightarrow> nat option" where
  "slot_current key S = (case map_of (sv_tasks S) key of
     None \<Rightarrow> None
   | Some i \<Rightarrow> if tk_done (sv_heap S i) then None else Some i)"

text \<open>A handle names one task for ever.\<close>

definition slot_require :: "string \<Rightarrow> nat \<Rightarrow> service \<Rightarrow> nat res" where
  "slot_require key handle S = (case slot_current key S of
     None \<Rightarrow> Inl StaleTask
   | Some i \<Rightarrow> if i \<noteq> handle \<or> \<not> tk_active (sv_heap S i) then Inl StaleTask else Inr i)"

definition slot_start :: "string \<Rightarrow> bool \<Rightarrow> service \<Rightarrow> nat res \<times> service" where
  "slot_start key scope S =
     (if slot_current key S \<noteq> None then (Inl TaskBusy, S)
      else (Inr (sv_next S), S\<lparr>sv_tasks := AList.update key (sv_next S) (sv_tasks S),
              sv_heap := (sv_heap S)(sv_next S := new_task key scope), sv_next := sv_next S + 1\<rparr>))"

text \<open>What an admission callback may do.\<close>

datatype 'a slot_prog =
    SReturn 'a
  | SRaise py_error
  | SCurrent "nat option \<Rightarrow> 'a slot_prog"
  | SRequire nat "nat res \<Rightarrow> 'a slot_prog"
  | SStart bool "nat res \<Rightarrow> 'a slot_prog"
  | SCancel nat "unit res \<Rightarrow> 'a slot_prog"
  | SOnClose nat nat "unit res \<Rightarrow> 'a slot_prog"
  | SOnDone nat nat "'a slot_prog"

primrec run_slot :: "(nat \<Rightarrow> bool) \<Rightarrow> string \<Rightarrow> 'a slot_prog \<Rightarrow> nat option \<Rightarrow> service \<Rightarrow> 'a res \<times> nat option \<times> service" where
  "run_slot fails key (SReturn x) started S = (Inr x, started, S)"
| "run_slot fails key (SRaise e) started S = (Inl e, started, S)"
| "run_slot fails key (SCurrent f) started S = run_slot fails key (f (slot_current key S)) started S"
| "run_slot fails key (SRequire h f) started S = run_slot fails key (f (slot_require key h S)) started S"
| "run_slot fails key (SStart scope f) started S =
     (case slot_start key scope S of
        (Inl e, S') \<Rightarrow> run_slot fails key (f (Inl e)) started S'
      | (Inr i, S') \<Rightarrow> run_slot fails key (f (Inr i)) (Some i) S')"
| "run_slot fails key (SCancel i f) started S =
     (let r = task_cancel fails (sv_heap S i) in run_slot fails key (f (fst r)) started (put_task i (\<lambda>t. snd r) S))"
| "run_slot fails key (SOnClose i c f) started S =
     (let r = on_close c (sv_heap S i) in run_slot fails key (f (fst r)) started (put_task i (\<lambda>t. snd r) S))"
| "run_slot fails key (SOnDone i c p) started S = run_slot fails key p started (put_task i (on_done c) S)"

text \<open>Where a call of \<open>admit\<close> stands: ended, or waiting for the task it has to take back. The flags
  say that the caller was cancelled meanwhile and that the withdrawal itself failed.\<close>

datatype 'a admission = NotCalled | AdEnded "'a res" | AdDraining string nat py_error bool bool

definition admit :: "(nat \<Rightarrow> bool) \<Rightarrow> string \<Rightarrow> 'a slot_prog \<Rightarrow> service \<Rightarrow> 'a admission \<times> service" where
  "admit fails key prog S =
     (if tg_closed (sv_groups S) then (AdEnded (Inl RuntimeError), S)
      else case run_slot fails key prog None S of
        (Inr x, started, S') \<Rightarrow>
          (AdEnded (Inr x), case started of None \<Rightarrow> S' | Some i \<Rightarrow> put_task i (\<lambda>t. t\<lparr>tk_admitted := True\<rparr>) S')
      | (Inl e, None, S') \<Rightarrow> (AdEnded (Inl e), S')
      | (Inl e, Some i, S') \<Rightarrow>
          (let r = task_cancel fails (sv_heap S' i) in
           (AdDraining key i e False (fst r \<noteq> Inr ()), put_task i (\<lambda>t. snd r) S')))"

definition drained :: "string \<Rightarrow> nat \<Rightarrow> py_error \<Rightarrow> bool \<Rightarrow> bool \<Rightarrow> service \<Rightarrow> 'a admission \<times> service" where
  "drained key i e interrupted failed S =
     (AdEnded (Inl (if failed then ExceptionGroup else if interrupted then CancelledError else e)), release_task key i S)"

text \<open>The join of the withdrawn task ends with its outcome.\<close>

definition drain_joined :: "string \<Rightarrow> nat \<Rightarrow> py_error \<Rightarrow> bool \<Rightarrow> bool \<Rightarrow> service \<Rightarrow> 'a admission \<times> service" where
  "drain_joined key i e interrupted failed S =
     drained key i e interrupted (failed \<or> (case tk_pc (sv_heap S i) of TDone (Inl x) \<Rightarrow> x \<noteq> CancelledError | _ \<Rightarrow> False)) S"

definition drain_interrupted :: "string \<Rightarrow> nat \<Rightarrow> py_error \<Rightarrow> bool \<Rightarrow> service \<Rightarrow> 'a admission \<times> service" where
  "drain_interrupted key i e failed S =
     (if tk_done (sv_heap S i) then drained key i e True failed S else (AdDraining key i e True failed, S))"

section \<open>Shutdown\<close>

datatype closing = Open | ClJoining "nat list" bool | ClGroups bool | ClEnded "unit res"

fun cancel_all :: "(nat \<Rightarrow> bool) \<Rightarrow> nat list \<Rightarrow> service \<Rightarrow> bool \<times> service" where
  "cancel_all fails [] S = (False, S)"
| "cancel_all fails (i # is) S =
     (let r = task_cancel fails (sv_heap S i); (failed, S') = cancel_all fails is (put_task i (\<lambda>t. snd r) S) in
      (fst r \<noteq> Inr () \<or> failed, S'))"

definition close_begin :: "(nat \<Rightarrow> bool) \<Rightarrow> service \<Rightarrow> closing \<times> service" where
  "close_begin fails S =
     (let S1 = S\<lparr>sv_groups := close_groups (sv_groups S)\<rparr>; is = map snd (sv_tasks S); (failed, S2) = cancel_all fails is S1 in
      (ClJoining is failed, S2))"

text \<open>All joins have ended; a cancelled task is no failure.\<close>

definition close_joined :: "nat list \<Rightarrow> bool \<Rightarrow> service \<Rightarrow> closing \<times> service" where
  "close_joined is failed S =
     (ClGroups (failed \<or> list_ex (\<lambda>i. case tk_pc (sv_heap S i) of TDone (Inl x) \<Rightarrow> x \<noteq> CancelledError | _ \<Rightarrow> False) is),
      S\<lparr>sv_tasks := []\<rparr>)"

definition close_drained :: "bool \<Rightarrow> closing" where
  "close_drained failed = ClEnded (if failed then Inl ExceptionGroup else Inr ())"

section \<open>One service per plugin\<close>

text \<open>\<open>PluginTasks\<close>: the owner is the plugin of the calling context, its service is a numbered object. Closing closes
  every service and forgets them only if none of them failed.\<close>

record plugin_tasks =
  pt_formal :: bool
  pt_owners :: "(string \<times> nat) list"
  pt_next :: nat
  pt_closed :: bool

definition pt_start :: "plugin_tasks \<Rightarrow> plugin_tasks res" where
  "pt_start P = (if pt_closed P \<and> pt_owners P \<noteq> [] then Inl RuntimeError else Inr (P\<lparr>pt_closed := False\<rparr>))"

definition pt_open :: "string \<Rightarrow> plugin_tasks \<Rightarrow> (nat \<times> plugin_tasks) res" where
  "pt_open owner P =
     (if \<not> pt_formal P \<or> pt_closed P then Inl RuntimeError
      else case map_of (pt_owners P) owner of
        Some S \<Rightarrow> Inr (S, P)
      | None \<Rightarrow> Inr (pt_next P, P\<lparr>pt_owners := pt_owners P @ [(owner, pt_next P)], pt_next := pt_next P + 1\<rparr>))"

definition pt_close_begin :: "plugin_tasks \<Rightarrow> plugin_tasks" where
  "pt_close_begin P = P\<lparr>pt_closed := True\<rparr>"

definition pt_close_end :: "unit res list \<Rightarrow> plugin_tasks \<Rightarrow> unit res \<times> plugin_tasks" where
  "pt_close_end results P = (if list_ex (\<lambda>r. r \<noteq> Inr ()) results then (Inl ExceptionGroup, P) else (Inr (), P\<lparr>pt_owners := []\<rparr>))"

section \<open>Runs\<close>

text \<open>Any number of admissions, numbered; callers hold tasks that exist.\<close>

record service_world =
  sw_service :: service
  sw_admissions :: "nat \<Rightarrow> unit admission"
  sw_closing :: closing

definition sw_start :: service_world where
  "sw_start = \<lparr>sw_service = no_tasks, sw_admissions = (\<lambda>a. NotCalled), sw_closing = Open\<rparr>"

definition on_task :: "nat \<Rightarrow> (task \<Rightarrow> task) \<Rightarrow> service_world \<Rightarrow> service_world" where
  "on_task i f w = w\<lparr>sw_service := put_task i f (sw_service w)\<rparr>"

definition admitted :: "nat \<Rightarrow> unit admission \<times> service \<Rightarrow> service_world \<Rightarrow> service_world" where
  "admitted a r w = w\<lparr>sw_service := snd r, sw_admissions := (sw_admissions w)(a := fst r)\<rparr>"

abbreviation sw_task :: "service_world \<Rightarrow> nat \<Rightarrow> task" where
  "sw_task w i \<equiv> sv_heap (sw_service w) i"

abbreviation known :: "service_world \<Rightarrow> nat \<Rightarrow> bool" where
  "known w i \<equiv> i < sv_next (sw_service w)"

primrec prog_ok :: "nat \<Rightarrow> 'a slot_prog \<Rightarrow> bool" where
  "prog_ok n (SReturn x) = True"
| "prog_ok n (SRaise e) = True"
| "prog_ok n (SCurrent f) = (\<forall>x. prog_ok n (f x))"
| "prog_ok n (SRequire h f) = (\<forall>x. prog_ok n (f x))"
| "prog_ok n (SStart scope f) = (\<forall>x. prog_ok (case x of Inl e \<Rightarrow> n | Inr i \<Rightarrow> Suc n) (f x))"
| "prog_ok n (SCancel i f) = (i < n \<and> (\<forall>x. prog_ok n (f x)))"
| "prog_ok n (SOnClose i c f) = (i < n \<and> (\<forall>x. prog_ok n (f x)))"
| "prog_ok n (SOnDone i c p) = (i < n \<and> prog_ok n p)"

inductive service_step :: "(nat \<Rightarrow> bool) \<Rightarrow> service_world \<Rightarrow> service_world \<Rightarrow> bool" for fails where
  admits: "sw_admissions w a = NotCalled \<Longrightarrow> prog_ok (sv_next (sw_service w)) prog \<Longrightarrow>
     service_step fails w (admitted a (admit fails key prog (sw_service w)) w)"
| drains: "sw_admissions w a = AdDraining key i e intr failed \<Longrightarrow> tk_done (sw_task w i) \<Longrightarrow>
     service_step fails w (admitted a (drain_joined key i e intr failed (sw_service w)) w)"
| drain_cancelled: "sw_admissions w a = AdDraining key i e intr failed \<Longrightarrow>
     service_step fails w (admitted a (drain_interrupted key i e failed (sw_service w)) w)"
| begins: "known w i \<Longrightarrow> tk_pc (sw_task w i) = TCreated \<Longrightarrow> service_step fails w (on_task i (task_begin fails bound) w)"
| resumes: "known w i \<Longrightarrow> tk_pc (sw_task w i) = TAdmission \<Longrightarrow> tk_admitted (sw_task w i) \<or> tk_interrupt (sw_task w i) \<Longrightarrow>
     service_step fails w (on_task i (task_resume fails bound) w)"
| releases_lease: "known w i \<Longrightarrow> tk_pc (sw_task w i) = TReleasing e \<Longrightarrow> service_step fails w (on_task i (lease_released fails e r) w)"
| operates: "known w i \<Longrightarrow> tk_pc (sw_task w i) = TOperating \<Longrightarrow> service_step fails w (on_task i (task_finally fails out) w)"
| closes_scope: "known w i \<Longrightarrow> tk_pc (sw_task w i) = TClosing out \<Longrightarrow> service_step fails w (on_task i (scope_closed out r) w)"
| calls_back: "known w i \<Longrightarrow> tk_done (sw_task w i) \<Longrightarrow> service_step fails w (on_task i run_done_callbacks w)"
| forgets: "known w i \<Longrightarrow> tk_done (sw_task w i) \<Longrightarrow>
     service_step fails w (w\<lparr>sw_service := release_task (tk_key (sw_task w i)) i (sw_service w)\<rparr>)"
| cancels: "known w i \<Longrightarrow> service_step fails w (on_task i (\<lambda>t. snd (task_cancel fails t)) w)"
| adds_cleanup: "known w i \<Longrightarrow> service_step fails w (on_task i (\<lambda>t. snd (on_close c t)) w)"
| adds_callback: "known w i \<Longrightarrow> service_step fails w (on_task i (on_done c) w)"
| shuts: "sw_closing w = Open \<Longrightarrow> close_begin fails (sw_service w) = (c, S) \<Longrightarrow>
     service_step fails w (w\<lparr>sw_service := S, sw_closing := c\<rparr>)"
| shut_joined: "sw_closing w = ClJoining is failed \<Longrightarrow> \<forall>i \<in> set is. tk_done (sw_task w i) \<Longrightarrow> close_joined is failed (sw_service w) = (c, S) \<Longrightarrow>
     service_step fails w (w\<lparr>sw_service := S, sw_closing := c\<rparr>)"
| shut_drained: "sw_closing w = ClGroups failed \<Longrightarrow> tg_drained (sv_groups (sw_service w)) \<Longrightarrow>
     service_step fails w (w\<lparr>sw_closing := close_drained failed\<rparr>)"
| uses_groups: "tg_closed T = tg_closed (sv_groups (sw_service w)) \<Longrightarrow>
     service_step fails w (w\<lparr>sw_service := (sw_service w)\<lparr>sv_groups := T\<rparr>\<rparr>)"

end
