(* ===== verification/Group_Properties.thy ===== *)
theory Group_Properties
  imports Task_Groups
begin

text \<open>
  The groups of the task service in every reachable state: exclusive work excludes itself, requests
  enter in the order they were made, and no call sleeps through the event it waits for.
\<close>

section \<open>The invariant\<close>

fun group_of :: "member \<Rightarrow> (string \<times> nat) option" where
  "group_of (InActivity key i) = Some (key, i)"
| "group_of (AwaitIdle key i e) = Some (key, i)"
| "group_of (AwaitTurn key i idle e) = Some (key, i)"
| "group_of (InTurn key i) = Some (key, i)"
| "group_of _ = None"

abbreviation inside :: "(nat \<Rightarrow> member) \<Rightarrow> string \<Rightarrow> nat \<Rightarrow> nat set" where
  "inside M key i \<equiv> {m. group_of (M m) = Some (key, i)}"

definition waits_ok :: "bool \<Rightarrow> (nat \<Rightarrow> member) \<Rightarrow> string \<Rightarrow> nat \<Rightarrow> group \<Rightarrow> bool" where
  "waits_ok closed M key i g \<longleftrightarrow>
     (\<forall>m idle e. M m = AwaitTurn key i idle e \<longrightarrow> e \<le> gr_changed g \<and>
        (e = gr_changed g \<longrightarrow> \<not> closed \<and> (gr_exclusive g \<or> eligible g \<noteq> Some (m, idle))))
   \<and> (\<forall>m e. M m = AwaitIdle key i e \<longrightarrow> e \<le> gr_changed g \<and> (e = gr_changed g \<longrightarrow> \<not> closed \<and> gr_activity g \<noteq> 0))"

definition queue_ok :: "(nat \<Rightarrow> member) \<Rightarrow> string \<Rightarrow> nat \<Rightarrow> group \<Rightarrow> bool" where
  "queue_ok M key i g \<longleftrightarrow> sorted_wrt (<) (map fst (gr_waiting g))
   \<and> (\<forall>m idle. (m, idle) \<in> set (gr_waiting g) \<longleftrightarrow> (\<exists>e. M m = AwaitTurn key i idle e))"

definition turn_ok :: "(nat \<Rightarrow> member) \<Rightarrow> string \<Rightarrow> nat \<Rightarrow> group \<Rightarrow> bool" where
  "turn_ok M key i g \<longleftrightarrow> (gr_exclusive g \<longleftrightarrow> (\<exists>m. M m = InTurn key i))
   \<and> (\<forall>m n. M m = InTurn key i \<longrightarrow> M n = InTurn key i \<longrightarrow> m = n)"

definition counts_ok :: "(nat \<Rightarrow> member) \<Rightarrow> string \<Rightarrow> nat \<Rightarrow> group \<Rightarrow> bool" where
  "counts_ok M key i g \<longleftrightarrow> gr_references g = int (card (inside M key i))
   \<and> gr_activity g = int (card {m. M m = InActivity key i})"

definition group_ok :: "bool \<Rightarrow> (nat \<Rightarrow> member) \<Rightarrow> string \<Rightarrow> nat \<Rightarrow> group \<Rightarrow> bool" where
  "group_ok closed M key i g \<longleftrightarrow> counts_ok M key i g \<and> turn_ok M key i g \<and> queue_ok M key i g \<and> waits_ok closed M key i g"

definition groups_ok :: "groups \<Rightarrow> (nat \<Rightarrow> member) \<Rightarrow> nat \<Rightarrow> bool" where
  "groups_ok T M n \<longleftrightarrow> (\<forall>m \<ge> n. M m = Outside)
   \<and> distinct (keys (tg_groups T)) \<and> tg_drained T = (tg_groups T = [])
   \<and> (\<forall>key i. map_of (tg_groups T) key = Some i \<longrightarrow> i < tg_next T)
   \<and> (\<forall>key key' i. map_of (tg_groups T) key = Some i \<longrightarrow> map_of (tg_groups T) key' = Some i \<longrightarrow> key = key')
   \<and> (\<forall>m key i. group_of (M m) = Some (key, i) \<longrightarrow> map_of (tg_groups T) key = Some i)
   \<and> (\<forall>key i. map_of (tg_groups T) key = Some i \<longrightarrow> inside M key i \<noteq> {} \<and> group_ok (tg_closed T) M key i (tg_heap T i))"

lemmas group_defs = group_ok_def counts_ok_def turn_ok_def queue_ok_def waits_ok_def

lemma members_finite:
  fixes M :: "nat \<Rightarrow> member"
  assumes "\<forall>m \<ge> n. M m = Outside" and "\<not> P Outside"
  shows "finite {m. P (M m)}"
proof -
  have "m < n" if "P (M m)" for m using assms that by (metis not_le)
  then have "{m. P (M m)} \<subseteq> {..<n}" by auto
  then show ?thesis by (rule finite_subset) simp
qed

lemma card_moved:
  fixes M :: "nat \<Rightarrow> member"
  assumes "finite {k. P (M k)}"
  shows "int (card {k. P ((M(m := x)) k)}) = int (card {k. P (M k)}) + (if P x then 1 else 0) - (if P (M m) then 1 else 0)"
proof -
  obtain B where B: "B = {k. P (M k) \<and> k \<noteq> m}" by simp
  have f: "finite B" "m \<notin> B" using assms B by auto
  have "{k. P ((M(m := x)) k)} = (if P x then insert m B else B)" "{k. P (M k)} = (if P (M m) then insert m B else B)"
    using B by auto
  then show ?thesis using f by simp
qed

text \<open>A group is not concerned by a move of a call that stays outside it.\<close>

lemma group_ok_other:
  assumes "group_of (M m) \<noteq> Some (key, i)" "group_of x \<noteq> Some (key, i)"
  shows "group_ok c (M(m := x)) key i g = group_ok c M key i g" and "inside (M(m := x)) key i = inside M key i"
proof -
  have eq: "((M(m := x)) k = y) = (M k = y)" if "group_of y = Some (key, i)" for k y
    using assms that by auto
  have "(group_of ((M(m := x)) k) = Some (key, i)) = (group_of (M k) = Some (key, i))" for k using assms by auto
  then show "inside (M(m := x)) key i = inside M key i" by blast
  then show "group_ok c (M(m := x)) key i g = group_ok c M key i g" unfolding group_defs by (simp add: eq del: fun_upd_apply)
qed

text \<open>One call moves within one group: what has to be shown of the new state.\<close>

lemma groups_ok_moved:
  assumes ok: "groups_ok T M n" and m: "m < n'" "n \<le> n'"
    and i: "map_of (tg_groups T) key = Some i \<or> (map_of (tg_groups T) key = None \<and> i = tg_next T)"
    and old: "group_of (M m) = None \<or> group_of (M m) = Some (key, i)" and new: "group_of x = None \<or> group_of x = Some (key, i)"
    and g: "group_ok (tg_closed T') (M(m := x)) key i (tg_heap T' i)"
    and T': "map_of (tg_groups T') = (map_of (tg_groups T))(key := if inside (M(m := x)) key i = {} then None else Some i)"
      "distinct (keys (tg_groups T'))"
      "\<forall>j. j \<noteq> i \<longrightarrow> tg_heap T' j = tg_heap T j" "tg_next T \<le> tg_next T'" "i < tg_next T'" "tg_closed T' = tg_closed T"
      "tg_drained T' = (tg_groups T' = [])"
  shows "groups_ok T' (M(m := x)) n'"
proof -
  have d: "\<And>key i. map_of (tg_groups T) key = Some i \<Longrightarrow> i < tg_next T"
      "\<And>key key' i. map_of (tg_groups T) key = Some i \<Longrightarrow> map_of (tg_groups T) key' = Some i \<Longrightarrow> key = key'"
    and out: "\<forall>m \<ge> n. M m = Outside"
    and mem: "\<And>m key i. group_of (M m) = Some (key, i) \<Longrightarrow> map_of (tg_groups T) key = Some i"
    and all: "\<And>key i. map_of (tg_groups T) key = Some i \<Longrightarrow> inside M key i \<noteq> {} \<and> group_ok (tg_closed T) M key i (tg_heap T i)"
    using ok unfolding groups_ok_def by blast+
  have other: "map_of (tg_groups T) k = Some j \<Longrightarrow> k \<noteq> key \<Longrightarrow> j \<noteq> i" for k j
    using i d by (metis nat_neq_iff)
  have rest: "inside (M(m := x)) k j = inside M k j" "group_ok c (M(m := x)) k j h = group_ok c M k j h" if "k \<noteq> key" for k j c h
    using group_ok_other[of M m k j x] that old new by auto
  have M': "group_of ((M(m := x)) l) = Some (k, j) \<Longrightarrow> map_of (tg_groups T') k = Some j" for l k j
  proof -
    assume a: "group_of ((M(m := x)) l) = Some (k, j)"
    show ?thesis
    proof (cases "k = key")
      case True
      moreover have "j = i" using a True new mem i by (auto split: if_splits)
      moreover have "inside (M(m := x)) key i \<noteq> {}" using a calculation by blast
      ultimately show ?thesis using T'(1) by simp
    next
      case False
      then have "group_of (M l) = Some (k, j)" using a new old by (auto split: if_splits)
      then show ?thesis using mem T'(1) False by simp
    qed
  qed
  have "\<forall>k \<ge> n'. (M(m := x)) k = Outside" using out m by auto
  moreover have "map_of (tg_groups T') k = Some j \<Longrightarrow> j < tg_next T'" for k j
    using T'(1,4,5) d(1)[of k j] by (cases "k = key") (auto split: if_splits)
  moreover have "map_of (tg_groups T') k = Some j \<Longrightarrow> map_of (tg_groups T') k' = Some j \<Longrightarrow> k = k'" for k k' j
    using T'(1) d(2)[of k j k'] other[of k j] other[of k' j] by (auto split: if_splits)
  moreover have "map_of (tg_groups T') k = Some j \<Longrightarrow> inside (M(m := x)) k j \<noteq> {} \<and> group_ok (tg_closed T') (M(m := x)) k j (tg_heap T' j)" for k j
  proof (cases "k = key")
    case True
    then show "map_of (tg_groups T') k = Some j \<Longrightarrow> ?thesis" using T'(1) g by (auto split: if_splits)
  next
    case False
    assume "map_of (tg_groups T') k = Some j"
    then have "map_of (tg_groups T) k = Some j" using T'(1) False by simp
    then show ?thesis using all rest[OF False] other[OF _ False] T'(3,6) by simp
  qed
  ultimately show ?thesis unfolding groups_ok_def using M' T'(2,7) by blast
qed

section \<open>The operations\<close>

lemma put_group_sel [simp]: "tg_groups (put_group i f T) = tg_groups T" "tg_next (put_group i f T) = tg_next T"
  "tg_closed (put_group i f T) = tg_closed T" "tg_drained (put_group i f T) = tg_drained T"
  "tg_heap (put_group i f T) j = (if j = i then f (tg_heap T i) else tg_heap T j)"
  by (simp_all add: put_group_def)

text \<open>What a call finds when it opens its group: the group that is there, or a fresh one.\<close>

definition found_group :: "groups \<Rightarrow> string \<Rightarrow> nat \<times> group" where
  "found_group T key = (case map_of (tg_groups T) key of Some i \<Rightarrow> (i, tg_heap T i) | None \<Rightarrow> (tg_next T, new_group))"

lemma open_groupE:
  assumes "open_group key T = Inr (i, T')"
  shows "\<not> tg_closed T" "i = fst (found_group T key)" "tg_heap T' i = snd (found_group T key)\<lparr>gr_references := gr_references (snd (found_group T key)) + 1\<rparr>"
    "map_of (tg_groups T') = (map_of (tg_groups T))(key \<mapsto> i)" "distinct (keys (tg_groups T)) \<Longrightarrow> distinct (keys (tg_groups T'))"
    "\<forall>j. j \<noteq> i \<longrightarrow> tg_heap T' j = tg_heap T j" "tg_next T \<le> tg_next T'" "map_of (tg_groups T) key = None \<Longrightarrow> i < tg_next T'"
    "\<not> tg_closed T'" "\<not> tg_drained T'"
proof -
  have c: "\<not> tg_closed T" using assms by (simp add: open_group_def split: if_splits)
  have u: "map_of (tg_groups T @ [(key, j)]) = (map_of (tg_groups T))(key \<mapsto> j)" "distinct (keys (tg_groups T)) \<Longrightarrow> distinct (keys (tg_groups T @ [(key, j)]))"
    if "map_of (tg_groups T) key = None" for j
    using set_update_notin[of key "tg_groups T" j] that map_of_update[of key j "tg_groups T"] by (auto simp: map_of_eq_None_iff)
  have n: "T' = (put_group i (\<lambda>g. g\<lparr>gr_references := gr_references g + 1\<rparr>) (T\<lparr>tg_groups := tg_groups T @ [(key, tg_next T)],
                        tg_heap := (tg_heap T)(tg_next T := new_group), tg_next := tg_next T + 1\<rparr>))\<lparr>tg_drained := False\<rparr>" "i = tg_next T"
    if "map_of (tg_groups T) key = None" using assms c that by (auto simp: open_group_def)
  have f: "T' = (put_group i (\<lambda>g. g\<lparr>gr_references := gr_references g + 1\<rparr>) T)\<lparr>tg_drained := False\<rparr>" "i = j"
    if "map_of (tg_groups T) key = Some j" for j using assms c that by (auto simp: open_group_def)
  show "\<not> tg_closed T" by (rule c)
  have "i = fst (found_group T key) \<and> tg_heap T' i = snd (found_group T key)\<lparr>gr_references := gr_references (snd (found_group T key)) + 1\<rparr>
    \<and> map_of (tg_groups T') = (map_of (tg_groups T))(key \<mapsto> i) \<and> (distinct (keys (tg_groups T)) \<longrightarrow> distinct (keys (tg_groups T')))
    \<and> (\<forall>j. j \<noteq> i \<longrightarrow> tg_heap T' j = tg_heap T j) \<and> tg_next T \<le> tg_next T' \<and> (map_of (tg_groups T) key = None \<longrightarrow> i < tg_next T')
    \<and> \<not> tg_closed T' \<and> \<not> tg_drained T'"
  proof (cases "map_of (tg_groups T) key")
    case None
    show ?thesis unfolding n(1)[OF None] using n(2)[OF None] u[OF None] c by (simp add: found_group_def None)
  next
    case (Some j)
    show ?thesis unfolding f(1)[OF Some] using f(2)[OF Some] c by (simp add: found_group_def fun_upd_idem Some)
  qed
  then show "i = fst (found_group T key)" "tg_heap T' i = snd (found_group T key)\<lparr>gr_references := gr_references (snd (found_group T key)) + 1\<rparr>"
    "map_of (tg_groups T') = (map_of (tg_groups T))(key \<mapsto> i)" "distinct (keys (tg_groups T)) \<Longrightarrow> distinct (keys (tg_groups T'))"
    "\<forall>j. j \<noteq> i \<longrightarrow> tg_heap T' j = tg_heap T j" "tg_next T \<le> tg_next T'" "map_of (tg_groups T) key = None \<Longrightarrow> i < tg_next T'"
    "\<not> tg_closed T'" "\<not> tg_drained T'"
    by blast+
qed

lemma release_groupE:
  assumes "release_group key i T = (u, T')" "map_of (tg_groups T) key = Some i"
  shows "u = Inr ()" "tg_heap T' = tg_heap (put_group i (\<lambda>g. g\<lparr>gr_references := gr_references g - 1\<rparr>) T)"
    "map_of (tg_groups T') = (map_of (tg_groups T))(key := if gr_references (tg_heap T i) = 1 then None else Some i)"
    "distinct (keys (tg_groups T)) \<Longrightarrow> distinct (keys (tg_groups T'))"
    "tg_next T' = tg_next T" "tg_closed T' = tg_closed T"
    "tg_drained T = (tg_groups T = []) \<Longrightarrow> tg_drained T' = (tg_groups T' = [])"
  using assms unfolding release_group_def Let_def
  by (auto split: if_splits simp: map_of_delete' fun_upd_idem)

text \<open>The service after a call has opened or changed its group, before it leaves it.\<close>

definition opened :: "groups \<Rightarrow> groups \<Rightarrow> string \<Rightarrow> nat \<Rightarrow> bool" where
  "opened T T1 key i \<longleftrightarrow> i = fst (found_group T key)
   \<and> map_of (tg_groups T1) = (map_of (tg_groups T))(key \<mapsto> i) \<and> distinct (keys (tg_groups T1))
   \<and> (\<forall>j. j \<noteq> i \<longrightarrow> tg_heap T1 j = tg_heap T j) \<and> tg_next T \<le> tg_next T1 \<and> i < tg_next T1
   \<and> tg_closed T1 = tg_closed T \<and> tg_drained T1 = (tg_groups T1 = [])"

lemma opened_put [simp]: "opened T (put_group i f T1) key i = opened T T1 key i"
  by (simp add: opened_def)

lemma opened_same: "groups_ok T M n \<Longrightarrow> map_of (tg_groups T) key = Some i \<Longrightarrow> opened T T key i"
  by (auto simp: opened_def groups_ok_def found_group_def fun_upd_idem)

lemma opened_open:
  assumes "groups_ok T M n" "open_group key T = Inr (i, T1)"
  shows "opened T T1 key i"
proof -
  note o = open_groupE[OF assms(2)]
  have "map_of (tg_groups T1) key = Some i" using o(4) by simp
  then have "tg_groups T1 \<noteq> []" by auto
  moreover have "i < tg_next T1"
    using o(2,7,8) assms(1) unfolding groups_ok_def found_group_def by (auto split: option.splits) (meson order_less_le_trans)
  ultimately show ?thesis using o assms(1) by (simp add: opened_def groups_ok_def)
qed

lemma found_ok:
  assumes "groups_ok T M n"
  shows "group_ok (tg_closed T) M key (fst (found_group T key)) (snd (found_group T key))"
proof (cases "map_of (tg_groups T) key")
  case None
  then have none: "group_of (M m) \<noteq> Some (key, j)" for m j using assms unfolding groups_ok_def by (metis option.distinct(1))
  have "M m \<noteq> InActivity key j" "M m \<noteq> AwaitIdle key j e" "M m \<noteq> AwaitTurn key j idle e" "M m \<noteq> InTurn key j" for m j e idle
    using none[of m j] by auto
  then show ?thesis using None none by (simp add: found_group_def group_defs new_group_def)
next
  case (Some i)
  then show ?thesis using assms by (simp add: found_group_def groups_ok_def)
qed

lemma stay_ok:
  assumes "groups_ok T M n" "m < n'" "n \<le> n'" "opened T T1 key i"
    and "group_of (M m) = None \<or> group_of (M m) = Some (key, i)" "group_of x = Some (key, i)"
    and "group_ok (tg_closed T) (M(m := x)) key i (tg_heap T1 i)"
  shows "groups_ok T1 (M(m := x)) n'"
proof -
  have "map_of (tg_groups T) key = Some i \<or> (map_of (tg_groups T) key = None \<and> i = tg_next T)"
    using assms(4) by (auto simp: opened_def found_group_def split: option.splits)
  moreover have "inside (M(m := x)) key i \<noteq> {}" using assms(6) by auto
  ultimately show ?thesis
    using assms by (intro groups_ok_moved[of T M n m n' key i x]) (auto simp: opened_def)
qed

lemma leave_ok:
  assumes "groups_ok T M n" "m < n'" "n \<le> n'" "opened T T1 key i"
    and "group_of (M m) = None \<or> group_of (M m) = Some (key, i)"
    and g: "group_ok (tg_closed T) (M(m := Ended out)) key i ((tg_heap T1 i)\<lparr>gr_references := gr_references (tg_heap T1 i) - 1\<rparr>)"
  shows "fst (leave_group key i out T1) = Ended out" and "groups_ok (snd (leave_group key i out T1)) (M(m := Ended out)) n'"
proof -
  have i: "map_of (tg_groups T) key = Some i \<or> (map_of (tg_groups T) key = None \<and> i = tg_next T)"
    using assms(4) by (auto simp: opened_def found_group_def split: option.splits)
  have here: "map_of (tg_groups T1) key = Some i" using assms(4) by (simp add: opened_def)
  obtain u T' where r: "release_group key i T1 = (u, T')" by force
  note e = release_groupE[OF r here]
  show out: "fst (leave_group key i out T1) = Ended out" using r e(1) by (simp add: leave_group_def)
  have "\<forall>k \<ge> n'. (M(m := Ended out)) k = Outside" using assms(1-3) unfolding groups_ok_def by auto
  then have "finite (inside (M(m := Ended out)) key i)" using members_finite[of n' "M(m := Ended out)" "\<lambda>x. group_of x = Some (key, i)"] by simp
  then have empty: "(gr_references (tg_heap T1 i) = 1) = (inside (M(m := Ended out)) key i = {})"
  proof -
    have "gr_references (tg_heap T1 i) - 1 = int (card (inside (M(m := Ended out)) key i))"
      using g by (simp add: group_ok_def counts_ok_def del: fun_upd_apply)
    then have "(gr_references (tg_heap T1 i) = 1) = (card (inside (M(m := Ended out)) key i) = 0)" by linarith
    then show ?thesis using \<open>finite (inside (M(m := Ended out)) key i)\<close> by (simp del: fun_upd_apply)
  qed
  have "snd (leave_group key i out T1) = T'" using r e(1) by (simp add: leave_group_def)
  moreover have "groups_ok T' (M(m := Ended out)) n'"
  proof (rule groups_ok_moved[OF assms(1-3) i assms(5)])
    show "map_of (tg_groups T') = (map_of (tg_groups T))(key := if inside (M(m := Ended out)) key i = {} then None else Some i)"
      using e(3) empty assms(4) by (simp add: opened_def)
  qed (use e g assms(4) in \<open>simp_all add: opened_def\<close>)
  ultimately show "groups_ok (snd (leave_group key i out T1)) (M(m := Ended out)) n'" by simp
qed

section \<open>Each call keeps the invariant\<close>

lemma counts_moved:
  assumes "counts_ok M key i g" "finite {k. group_of (M k) = Some (key, i)}"
    and "gr_references g' = gr_references g + (if group_of x = Some (key, i) then 1 else 0) - (if group_of (M m) = Some (key, i) then 1 else 0)"
    and "gr_activity g' = gr_activity g + (if x = InActivity key i then 1 else 0) - (if M m = InActivity key i then 1 else 0)"
  shows "counts_ok (M(m := x)) key i g'"
proof -
  have "finite {k. M k = InActivity key i}" by (rule finite_subset[OF _ assms(2)]) auto
  then show ?thesis
    using assms card_moved[of "\<lambda>x. group_of x = Some (key, i)" M m x] card_moved[of "\<lambda>x. x = InActivity key i" M m x]
    by (simp add: counts_ok_def del: fun_upd_apply)
qed

lemma waits_notified:
  assumes "waits_ok c M key i g" "gr_changed g' = gr_changed g + 1"
    and "\<And>idle e. x \<noteq> AwaitTurn key i idle e" "\<And>e. x \<noteq> AwaitIdle key i e"
  shows "waits_ok c' (M(m := x)) key i g'"
  using assms unfolding waits_ok_def by (auto split: if_splits; fastforce)

lemma turn_same:
  assumes "turn_ok M key i g" "gr_exclusive g' = gr_exclusive g" "M m \<noteq> InTurn key i" "x \<noteq> InTurn key i"
  shows "turn_ok (M(m := x)) key i g'"
  using assms unfolding turn_ok_def by (auto split: if_splits)

lemma queue_same:
  assumes "queue_ok M key i g" "gr_waiting g' = gr_waiting g" "\<And>idle e. M m \<noteq> AwaitTurn key i idle e" "\<And>idle e. x \<noteq> AwaitTurn key i idle e"
  shows "queue_ok (M(m := x)) key i g'"
  using assms unfolding queue_ok_def by (auto split: if_splits)

lemma groups_ok_finite: "groups_ok T M n \<Longrightarrow> finite {k. group_of (M k) = Some p}"
  using members_finite[of n M "\<lambda>x. group_of x = Some p"] by (simp add: groups_ok_def)

lemma groups_ok_fresh: "groups_ok T M n \<Longrightarrow> M n = Outside"
  by (simp add: groups_ok_def)

lemma groups_ok_refused: "groups_ok T M n \<Longrightarrow> groups_ok T (M(n := Ended out)) (Suc n)"
proof -
  assume ok: "groups_ok T M n"
  have "group_ok c (M(n := Ended out)) key i g = group_ok c M key i g" "inside (M(n := Ended out)) key i = inside M key i" for c key i g
    using group_ok_other[of M n key i "Ended out"] groups_ok_fresh[OF ok] by auto
  then show ?thesis using ok groups_ok_fresh[OF ok] unfolding groups_ok_def by (auto simp del: fun_upd_apply) (auto split: if_splits)
qed

lemma activity_enter_ok:
  assumes "groups_ok T M n"
  shows "groups_ok (snd (activity_enter key T)) (M(n := fst (activity_enter key T))) (Suc n)"
proof (cases "open_group key T")
  case (Inl e)
  then show ?thesis using groups_ok_refused[OF assms] by (simp add: activity_enter_def)
next
  case (Inr p)
  obtain i T1 where T1: "open_group key T = Inr (i, T1)" using Inr by (cases p) auto
  note o = open_groupE[OF T1] and f = found_ok[OF assms, of key] and fresh = groups_ok_fresh[OF assms]
  let ?x = "InActivity key i" and ?g = "notify (tg_heap T1 i\<lparr>gr_activity := gr_activity (tg_heap T1 i) + 1\<rparr>)"
  have "group_ok (tg_closed T) (M(n := ?x)) key i ?g"
    using f fresh unfolding group_ok_def o(2)[symmetric] o(3)
    by (intro conjI; elim conjE)
      (erule counts_moved turn_same queue_same waits_notified; use groups_ok_finite[OF assms] in \<open>simp add: notify_def\<close>)+
  then show ?thesis
    using T1 stay_ok[OF assms lessI le_SucI[OF le_refl] _ _ _, of "put_group i (\<lambda>g. notify (g\<lparr>gr_activity := gr_activity g + 1\<rparr>)) T1" key i ?x]
      opened_open[OF assms T1] fresh by (simp add: activity_enter_def del: fun_upd_apply)
qed

lemma member_opened:
  assumes "groups_ok T M n" "group_of (M m) = Some (key, i)"
  shows "opened T T key i" "m < n" "group_ok (tg_closed T) M key i (tg_heap T i)"
proof -
  have "map_of (tg_groups T) key = Some i" using assms unfolding groups_ok_def by blast
  then show "opened T T key i" "group_ok (tg_closed T) M key i (tg_heap T i)"
    using opened_same[OF assms(1)] assms(1) unfolding groups_ok_def by blast+
  show "m < n" using assms unfolding groups_ok_def by (metis group_of.simps(5) not_le option.distinct(1))
qed

lemma activity_exit_ok:
  assumes "groups_ok T M n" "M m = InActivity key i"
  shows "groups_ok (snd (activity_exit key i out T)) (M(m := fst (activity_exit key i out T))) n"
proof -
  let ?T = "put_group i (\<lambda>g. notify (g\<lparr>gr_activity := gr_activity g - 1\<rparr>)) T"
  have g: "group_of (M m) = Some (key, i)" using assms(2) by simp
  note o = member_opened[OF assms(1) g]
  have "group_ok (tg_closed T) (M(m := Ended out)) key i ((tg_heap ?T i)\<lparr>gr_references := gr_references (tg_heap ?T i) - 1\<rparr>)"
    using o(3) assms(2) unfolding group_ok_def
    by (intro conjI; elim conjE)
      (erule counts_moved turn_same queue_same waits_notified; use groups_ok_finite[OF assms(1)] in \<open>simp add: notify_def\<close>)+
  then show ?thesis using leave_ok[OF assms(1) o(2) le_refl, of ?T key i out] o(1) g by (simp add: activity_exit_def del: fun_upd_apply)
qed

lemma moved_twice: "(M(m := x))(m := y) = M(m := y)"
  by simp

lemma waits_dropped:
  assumes "waits_ok c (M(m := Outside)) key i g" "gr_changed g \<le> gr_changed g'"
    and "gr_changed g' = gr_changed g \<Longrightarrow> eligible g' = eligible g \<and> gr_exclusive g' = gr_exclusive g \<and> gr_activity g' = gr_activity g \<and> c' = c"
    and "\<And>idle e. x \<noteq> AwaitTurn key i idle e" "\<And>e. x \<noteq> AwaitIdle key i e"
  shows "waits_ok c' (M(m := x)) key i g'"
proof -
  have "gr_changed g' = gr_changed g \<or> gr_changed g < gr_changed g'" using assms(2) by auto
  then show ?thesis
  proof
    assume e: "gr_changed g' = gr_changed g"
    show ?thesis using assms(1,4,5) assms(3)[OF e] e unfolding waits_ok_def by (auto split: if_splits; metis)
  next
    assume "gr_changed g < gr_changed g'"
    then show ?thesis using assms(1,4,5) unfolding waits_ok_def by (auto split: if_splits; metis le_less_trans less_imp_le less_irrefl)
  qed
qed

lemma waits_without: "waits_ok c M key i g \<Longrightarrow> waits_ok c (M(m := Outside)) key i g"
  unfolding waits_ok_def by auto

lemma waits_added:
  assumes "waits_ok c (M(m := Outside)) key i g" "\<not> c"
    and "(\<exists>idle. x = AwaitTurn key i idle (gr_changed g) \<and> (gr_exclusive g \<or> eligible g \<noteq> Some (m, idle)))
      \<or> (x = AwaitIdle key i (gr_changed g) \<and> gr_activity g \<noteq> 0)"
  shows "waits_ok c (M(m := x)) key i g"
proof -
  have turn: "e \<le> gr_changed g \<and> (e = gr_changed g \<longrightarrow> \<not> c \<and> (gr_exclusive g \<or> eligible g \<noteq> Some (k, idle)))"
    if k: "(M(m := x)) k = AwaitTurn key i idle e" for k idle e
  proof (cases "k = m")
    case True
    then have "x = AwaitTurn key i idle e" using k by simp
    then show ?thesis using assms(2,3) True by auto
  next
    case False
    then have "(M(m := Outside)) k = AwaitTurn key i idle e" using k by simp
    then show ?thesis using assms(1) unfolding waits_ok_def by blast
  qed
  have "e \<le> gr_changed g \<and> (e = gr_changed g \<longrightarrow> \<not> c \<and> gr_activity g \<noteq> 0)"
    if k: "(M(m := x)) k = AwaitIdle key i e" for k e
  proof (cases "k = m")
    case True
    then have "x = AwaitIdle key i e" using k by simp
    then show ?thesis using assms(2,3) by auto
  next
    case False
    then have "(M(m := Outside)) k = AwaitIdle key i e" using k by simp
    then show ?thesis using assms(1) unfolding waits_ok_def by blast
  qed
  then show ?thesis using turn unfolding waits_ok_def by blast
qed

lemma waits_entered:
  assumes "waits_ok c (M(m := Outside)) key i g"
  shows "waits_ok c (M(m := InTurn key i)) key i (g\<lparr>gr_waiting := ws, gr_exclusive := True\<rparr>)"
proof -
  have "(M(m := InTurn key i)) k = y \<longleftrightarrow> (M(m := Outside)) k = y" if "y \<noteq> InTurn key i" "y \<noteq> Outside" for k y using that by simp
  then show ?thesis using assms unfolding waits_ok_def by simp
qed

lemma turn_taken:
  assumes "turn_ok (M(m := x)) key i g" "\<not> gr_exclusive g" "gr_exclusive h"
  shows "turn_ok (M(m := InTurn key i)) key i h"
proof -
  have "M k \<noteq> InTurn key i" if "k \<noteq> m" for k using assms(1,2) that unfolding turn_ok_def by (metis fun_upd_other)
  then have "(M(m := InTurn key i)) k = InTurn key i \<longleftrightarrow> k = m" for k by simp
  then show ?thesis using assms(3) unfolding turn_ok_def by (simp del: fun_upd_apply)
qed

lemma idle_check_ok:
  assumes ok: "groups_ok T M n" "m < n'" "n \<le> n'" "opened T T1 key i"
    and "group_of (M m) = None \<or> group_of (M m) = Some (key, i)"
    and mid: "counts_ok (M(m := AwaitIdle key i e)) key i (tg_heap T1 i)" "turn_ok (M(m := AwaitIdle key i e)) key i (tg_heap T1 i)"
      "queue_ok (M(m := AwaitIdle key i e)) key i (tg_heap T1 i)" "waits_ok (tg_closed T) (M(m := Outside)) key i (tg_heap T1 i)"
  shows "groups_ok (snd (idle_check key i T1)) (M(m := fst (idle_check key i T1))) n'"
proof -
  let ?g = "tg_heap T1 i" and ?M = "M(m := AwaitIdle key i e)"
  have fin: "finite (inside ?M key i)" using members_finite[of n' ?M "\<lambda>x. group_of x = Some (key, i)"] ok(1-3) by (auto simp: groups_ok_def)
  have c: "tg_closed T1 = tg_closed T" using ok(4) by (simp add: opened_def)
  have left: "group_ok (tg_closed T) (M(m := Ended out)) key i (?g\<lparr>gr_references := gr_references ?g - 1\<rparr>)" for out
    unfolding group_ok_def
    using counts_moved[OF mid(1) fin, of "?g\<lparr>gr_references := gr_references ?g - 1\<rparr>" "Ended out" m]
      turn_same[OF mid(2), of "?g\<lparr>gr_references := gr_references ?g - 1\<rparr>" m "Ended out"]
      queue_same[OF mid(3), of "?g\<lparr>gr_references := gr_references ?g - 1\<rparr>" m "Ended out"]
      waits_dropped[OF mid(4), of "?g\<lparr>gr_references := gr_references ?g - 1\<rparr>" "tg_closed T" "Ended out"]
    by (simp add: eligible_def fun_upd_same del: fun_upd_apply)
  note leave = leave_ok[OF ok(1-4) assms(5) left]
  show ?thesis
  proof (cases "tg_closed T1 \<or> gr_activity ?g = 0")
    case True
    then show ?thesis using leave unfolding idle_check_def by auto
  next
    case False
    have "group_ok (tg_closed T) (M(m := AwaitIdle key i (gr_changed ?g))) key i ?g"
      using counts_moved[OF mid(1) fin, of ?g "AwaitIdle key i (gr_changed ?g)" m] turn_same[OF mid(2), of ?g m "AwaitIdle key i (gr_changed ?g)"]
        queue_same[OF mid(3), of ?g m "AwaitIdle key i (gr_changed ?g)"] waits_added[OF mid(4), of "AwaitIdle key i (gr_changed ?g)"] False c
      by (simp add: group_ok_def fun_upd_same del: fun_upd_apply)
    then show ?thesis
      using stay_ok[OF ok(1-4) assms(5), of "AwaitIdle key i (gr_changed ?g)"] False by (simp add: idle_check_def del: fun_upd_apply)
  qed
qed

lemma queue_withdrawn:
  assumes "queue_ok (M(m := AwaitTurn key i idle e)) key i g" "gr_waiting g' = remove1 (m, idle) (gr_waiting g)" "\<And>b e. x \<noteq> AwaitTurn key i b e"
  shows "queue_ok (M(m := x)) key i g'"
proof -
  have s: "sorted_wrt (<) (map fst (gr_waiting g))" using assms(1) by (simp add: queue_ok_def)
  then have "distinct (map fst (gr_waiting g))" using strict_sorted_iff by blast
  then have d: "distinct (gr_waiting g)" and inj: "inj_on fst (set (gr_waiting g))" by (simp_all add: distinct_map)
  have w: "gr_waiting g' = filter (\<lambda>r. r \<noteq> (m, idle)) (gr_waiting g)"
    using d assms(2) by (simp add: distinct_remove1_removeAll removeAll_filter_not_eq) (metis (mono_tags, lifting))
  have "sorted_wrt (<) (map fst (gr_waiting g'))" using s unfolding w by (simp add: sorted_wrt_map sorted_wrt_filter)
  moreover have "(k, b) \<in> set (gr_waiting g') \<longleftrightarrow> (\<exists>e. (M(m := x)) k = AwaitTurn key i b e)" for k b
    using assms(1,3) unfolding w queue_ok_def by (cases "k = m") auto
  ultimately show ?thesis by (simp add: queue_ok_def del: fun_upd_apply)
qed

text \<open>A request that stands in the queue, whether it has just been added or has just woken up.\<close>

definition queued :: "groups \<Rightarrow> groups \<Rightarrow> (nat \<Rightarrow> member) \<Rightarrow> nat \<Rightarrow> string \<Rightarrow> nat \<Rightarrow> bool \<Rightarrow> nat \<Rightarrow> bool" where
  "queued T T1 M m key i idle e \<longleftrightarrow> opened T T1 key i \<and> (group_of (M m) = None \<or> group_of (M m) = Some (key, i))
   \<and> counts_ok (M(m := AwaitTurn key i idle e)) key i (tg_heap T1 i) \<and> turn_ok (M(m := AwaitTurn key i idle e)) key i (tg_heap T1 i)
   \<and> queue_ok (M(m := AwaitTurn key i idle e)) key i (tg_heap T1 i) \<and> waits_ok (tg_closed T) (M(m := Outside)) key i (tg_heap T1 i)"

lemma queued_waiting: "queued T T1 M m key i idle e \<Longrightarrow> (m, idle) \<in> set (gr_waiting (tg_heap T1 i))"
  unfolding queued_def queue_ok_def by auto

lemma turn_withdraw_ok:
  assumes ok: "groups_ok T M n" "m < n'" "n \<le> n'" and q: "queued T T1 M m key i idle e"
  shows "groups_ok (snd (turn_withdraw key i (m, idle) x T1)) (M(m := fst (turn_withdraw key i (m, idle) x T1))) n'"
    and "fst (turn_withdraw key i (m, idle) x T1) = Ended (Inl x)"
proof -
  let ?g = "tg_heap T1 i" and ?M = "M(m := AwaitTurn key i idle e)"
  let ?T = "put_group i (\<lambda>g. notify (g\<lparr>gr_waiting := remove1 (m, idle) (gr_waiting g)\<rparr>)) T1"
  let ?h = "(tg_heap ?T i)\<lparr>gr_references := gr_references (tg_heap ?T i) - 1\<rparr>"
  have fin: "finite (inside ?M key i)" using members_finite[of n' ?M "\<lambda>x. group_of x = Some (key, i)"] ok by (auto simp: groups_ok_def)
  note q' = q[unfolded queued_def]
  have left: "group_ok (tg_closed T) (M(m := Ended (Inl x))) key i ?h"
    unfolding group_ok_def
    using counts_moved[of ?M key i ?g ?h "Ended (Inl x)" m] turn_same[of ?M key i ?g ?h m "Ended (Inl x)"]
      queue_withdrawn[of M m key i idle e ?g ?h "Ended (Inl x)"] waits_dropped[of "tg_closed T" M m key i ?g ?h "tg_closed T" "Ended (Inl x)"] q' fin
    by (simp add: notify_def fun_upd_same del: fun_upd_apply)
  have "opened T ?T key i" using q' by simp
  then show "groups_ok (snd (turn_withdraw key i (m, idle) x T1)) (M(m := fst (turn_withdraw key i (m, idle) x T1))) n'"
    and "fst (turn_withdraw key i (m, idle) x T1) = Ended (Inl x)"
    using leave_ok[OF ok, of ?T key i "Inl x", OF _ _ left] q' queued_waiting[OF q] by (simp_all add: turn_withdraw_def del: fun_upd_apply)
qed

lemma turn_check_ok:
  assumes ok: "groups_ok T M n" "m < n'" "n \<le> n'" and q: "queued T T1 M m key i idle e"
  shows "groups_ok (snd (turn_check key i (m, idle) T1)) (M(m := fst (turn_check key i (m, idle) T1))) n'"
proof -
  let ?g = "tg_heap T1 i" and ?M = "M(m := AwaitTurn key i idle e)"
  have fin: "finite (inside ?M key i)" using members_finite[of n' ?M "\<lambda>x. group_of x = Some (key, i)"] ok by (auto simp: groups_ok_def)
  note q' = q[unfolded queued_def]
  have c: "tg_closed T1 = tg_closed T" using q' by (simp add: opened_def)
  consider (closed) "tg_closed T1" | (enters) "\<not> tg_closed T1" "\<not> gr_exclusive ?g \<and> eligible ?g = Some (m, idle)"
    | (waits) "\<not> tg_closed T1" "\<not> (\<not> gr_exclusive ?g \<and> eligible ?g = Some (m, idle))" by blast
  then show ?thesis
  proof cases
    case closed
    then show ?thesis using turn_withdraw_ok(1)[OF ok q] by (simp add: turn_check_def)
  next
    case enters
    let ?h = "?g\<lparr>gr_waiting := remove1 (m, idle) (gr_waiting ?g), gr_exclusive := True\<rparr>"
    have "turn_ok (M(m := InTurn key i)) key i ?h"
      using turn_taken[of M m "AwaitTurn key i idle e" key i ?g ?h] q' enters by simp
    moreover have "waits_ok (tg_closed T) (M(m := InTurn key i)) key i ?h"
      using waits_entered q' by simp
    moreover have "queue_ok (M(m := InTurn key i)) key i ?h"
      using queue_withdrawn[of M m key i idle e ?g ?h "InTurn key i"] q' by simp
    moreover have "counts_ok (M(m := InTurn key i)) key i ?h"
      using counts_moved[of ?M key i ?g ?h "InTurn key i" m] q' fin by (simp add: fun_upd_same del: fun_upd_apply)
    ultimately show ?thesis
      using stay_ok[OF ok, of "put_group i (\<lambda>g. g\<lparr>gr_waiting := remove1 (m, idle) (gr_waiting g), gr_exclusive := True\<rparr>) T1" key i "InTurn key i"] enters q'
      by (simp add: turn_check_def group_ok_def del: fun_upd_apply)
  next
    case waits
    let ?x = "AwaitTurn key i idle (gr_changed ?g)"
    have "turn_ok (M(m := ?x)) key i ?g" using turn_same[of ?M key i ?g ?g m ?x] q' by (simp add: fun_upd_same del: fun_upd_apply)
    moreover have "counts_ok (M(m := ?x)) key i ?g" using counts_moved[of ?M key i ?g ?g ?x m] q' fin by (simp add: fun_upd_same del: fun_upd_apply)
    moreover have "queue_ok (M(m := ?x)) key i ?g" using q' unfolding queue_ok_def by (auto split: if_splits)
    moreover have "waits_ok (tg_closed T) (M(m := ?x)) key i ?g" using waits_added[of "tg_closed T" M m key i ?g ?x] q' waits c by blast
    ultimately show ?thesis using stay_ok[OF ok, of T1 key i ?x] waits q'
      by (auto simp add: turn_check_def Let_def group_ok_def simp del: fun_upd_apply)
  qed
qed

lemma exclusive_exit_ok:
  assumes "groups_ok T M n" "M m = InTurn key i"
  shows "groups_ok (snd (exclusive_exit key i out T)) (M(m := fst (exclusive_exit key i out T))) n"
proof -
  let ?T = "put_group i (\<lambda>g. notify (g\<lparr>gr_exclusive := False\<rparr>)) T"
  let ?h = "(tg_heap ?T i)\<lparr>gr_references := gr_references (tg_heap ?T i) - 1\<rparr>"
  have g: "group_of (M m) = Some (key, i)" using assms(2) by simp
  note o = member_opened[OF assms(1) g]
  note ok = o(3)[unfolded group_ok_def]
  have alone: "(M(m := Ended out)) k \<noteq> InTurn key i" for k
    using ok assms(2) unfolding turn_ok_def by (metis fun_upd_apply member.distinct(29))
  then have "turn_ok (M(m := Ended out)) key i ?h" unfolding turn_ok_def by (simp add: notify_def del: fun_upd_apply)
  then have "group_ok (tg_closed T) (M(m := Ended out)) key i ?h"
    using counts_moved[of M key i "tg_heap T i" ?h "Ended out" m] queue_same[of M key i "tg_heap T i" ?h m "Ended out"]
      waits_notified[of "tg_closed T" M key i "tg_heap T i" ?h "Ended out" "tg_closed T" m] ok assms(2) groups_ok_finite[OF assms(1)]
    unfolding group_ok_def by (simp add: notify_def del: fun_upd_apply)
  then show ?thesis using leave_ok[OF assms(1) o(2) le_refl, of ?T key i out] o(1) g by (simp add: exclusive_exit_def del: fun_upd_apply)
qed

lemma idle_wakes_ok:
  assumes "groups_ok T M n" "M m = AwaitIdle key i e"
  shows "groups_ok (snd (idle_check key i T)) (M(m := fst (idle_check key i T))) n"
proof -
  have g: "group_of (M m) = Some (key, i)" using assms(2) by simp
  note o = member_opened[OF assms(1) g]
  have M: "M(m := AwaitIdle key i e) = M" using assms(2) by (simp add: fun_upd_idem)
  show ?thesis
    using idle_check_ok[OF assms(1) o(2) le_refl o(1), of e] o(3) waits_without[of "tg_closed T" M key i "tg_heap T i" m] g
    unfolding M group_ok_def by blast
qed

lemma idle_cancelled_ok:
  assumes "groups_ok T M n" "M m = AwaitIdle key i e"
  shows "groups_ok (snd (leave_group key i out T)) (M(m := fst (leave_group key i out T))) n"
proof -
  let ?h = "(tg_heap T i)\<lparr>gr_references := gr_references (tg_heap T i) - 1\<rparr>"
  have g: "group_of (M m) = Some (key, i)" using assms(2) by simp
  note o = member_opened[OF assms(1) g]
  note ok = o(3)[unfolded group_ok_def]
  have "group_ok (tg_closed T) (M(m := Ended out)) key i ?h"
    using counts_moved[of M key i "tg_heap T i" ?h "Ended out" m] queue_same[of M key i "tg_heap T i" ?h m "Ended out"]
      turn_same[of M key i "tg_heap T i" ?h m "Ended out"]
      waits_dropped[of "tg_closed T" M m key i "tg_heap T i" ?h "tg_closed T" "Ended out"] waits_without ok assms(2) groups_ok_finite[OF assms(1)]
    unfolding group_ok_def by (simp add: eligible_def del: fun_upd_apply)
  then show ?thesis using leave_ok[OF assms(1) o(2) le_refl o(1)] g by (simp del: fun_upd_apply)
qed

lemma queued_member:
  assumes "groups_ok T M n" "M m = AwaitTurn key i idle e"
  shows "queued T T M m key i idle e" "m < n"
proof -
  have g: "group_of (M m) = Some (key, i)" using assms(2) by simp
  have M: "M(m := AwaitTurn key i idle e) = M" using assms(2) by (simp add: fun_upd_idem)
  show "queued T T M m key i idle e" "m < n"
    using member_opened[OF assms(1) g] g waits_without unfolding queued_def M group_ok_def by simp_all
qed

lemma queue_appended:
  assumes "queue_ok M key i g" "\<And>k idle e. M k = AwaitTurn key i idle e \<Longrightarrow> k < m" "gr_waiting h = gr_waiting g @ [(m, idle)]"
  shows "queue_ok (M(m := AwaitTurn key i idle e)) key i h"
proof -
  have "\<forall>r \<in> set (gr_waiting g). fst r < m" using assms(1,2) unfolding queue_ok_def by (metis prod.collapse)
  moreover have "(k, b) \<in> set (gr_waiting h) \<longleftrightarrow> (\<exists>e'. (M(m := AwaitTurn key i idle e)) k = AwaitTurn key i b e')" for k b
    using assms unfolding queue_ok_def by (cases "k = m") auto
  ultimately show ?thesis using assms(1,3) unfolding queue_ok_def by (simp add: sorted_wrt_append del: fun_upd_apply)
qed

lemma find_appended: "List.find P (xs @ ys) = (case List.find P xs of None \<Rightarrow> List.find P ys | Some x \<Rightarrow> Some x)"
  by (induction xs) auto

lemma waits_appended:
  assumes "waits_ok c M key i g" "gr_changed h = gr_changed g" "gr_exclusive h = gr_exclusive g" "gr_activity h = gr_activity g"
    and "gr_waiting h = gr_waiting g @ [(m, idle)]"
  shows "waits_ok c (M(m := Outside)) key i h"
proof -
  have "eligible g \<noteq> Some (k, b) \<Longrightarrow> k \<noteq> m \<Longrightarrow> eligible h \<noteq> Some (k, b)" for k b
    unfolding eligible_def assms(4,5) find_appended
    by (cases "List.find (\<lambda>r. \<not> snd r \<or> gr_activity g = 0) (gr_waiting g)"; simp del: de_Morgan_conj de_Morgan_disj)
  then show ?thesis using assms(1-4) unfolding waits_ok_def by (simp add: all_conj_distrib) blast
qed

lemma wait_idle_ok:
  assumes "groups_ok T M n"
  shows "groups_ok (snd (wait_idle key T)) (M(n := fst (wait_idle key T))) (Suc n)"
proof (cases "open_group key T")
  case (Inl e)
  then show ?thesis using groups_ok_refused[OF assms] by (simp add: wait_idle_def)
next
  case (Inr p)
  obtain i T1 where T1: "open_group key T = Inr (i, T1)" using Inr by (cases p) auto
  note o = open_groupE[OF T1] and f = found_ok[OF assms, of key] and fresh = groups_ok_fresh[OF assms]
  let ?x = "AwaitIdle key i 0" and ?f = "snd (found_group T key)"
  note f' = f[unfolded group_ok_def o(2)[symmetric]]
  have "groups_ok (snd (idle_check key i T1)) (M(n := fst (idle_check key i T1))) (Suc n)"
    by (rule idle_check_ok[OF assms lessI le_SucI[OF le_refl] opened_open[OF assms T1], of 0])
      (use fresh f' waits_without counts_moved[of M key i ?f "tg_heap T1 i" ?x n] turn_same[of M key i ?f "tg_heap T1 i" n ?x]
        queue_same[of M key i ?f "tg_heap T1 i" n ?x] groups_ok_finite[OF assms] o(3)
        waits_dropped[of "tg_closed T" M n key i ?f "tg_heap T1 i" "tg_closed T" Outside]
       in \<open>simp_all add: eligible_def del: fun_upd_apply\<close>)
  then show ?thesis using T1 by (simp add: wait_idle_def)
qed

lemma queued_entered:
  assumes "groups_ok T M n" "open_group key T = Inr (i, T1)"
  shows "queued T (put_group i (\<lambda>g. g\<lparr>gr_waiting := gr_waiting g @ [(n, idle)]\<rparr>) T1) M n key i idle 0"
proof -
  note o = open_groupE[OF assms(2)]
  note f = found_ok[OF assms(1), of key, unfolded group_ok_def o(2)[symmetric]] and fresh = groups_ok_fresh[OF assms(1)]
  let ?x = "AwaitTurn key i idle 0" and ?f = "snd (found_group T key)"
  let ?T = "put_group i (\<lambda>g. g\<lparr>gr_waiting := gr_waiting g @ [(n, idle)]\<rparr>) T1"
  have before: "k < n" if "M k = AwaitTurn key i b e" for k b e
    using assms(1) that unfolding groups_ok_def by (metis member.distinct(5) not_le)
  show ?thesis
    unfolding queued_def using fresh f counts_moved[of M key i ?f "tg_heap ?T i" ?x n] turn_same[of M key i ?f "tg_heap ?T i" n ?x]
      queue_appended[of M key i ?f n "tg_heap ?T i" idle 0, OF _ before] groups_ok_finite[OF assms(1)] o(3) opened_open[OF assms]
      waits_appended[of "tg_closed T" M key i ?f "tg_heap ?T i" n idle]
    by (simp del: fun_upd_apply)
qed

lemma exclusive_enter_ok:
  assumes "groups_ok T M n"
  shows "groups_ok (snd (exclusive_enter n key idle T)) (M(n := fst (exclusive_enter n key idle T))) (Suc n)"
proof (cases "open_group key T")
  case (Inl e)
  then show ?thesis using groups_ok_refused[OF assms] by (simp add: exclusive_enter_def)
next
  case (Inr p)
  obtain i T1 where T1: "open_group key T = Inr (i, T1)" using Inr by (cases p) auto
  then show ?thesis using turn_check_ok[OF assms lessI le_SucI[OF le_refl] queued_entered[OF assms T1]] by (simp add: exclusive_enter_def)
qed

section \<open>Reachable states\<close>

definition world_ok :: "groups_world \<Rightarrow> bool" where
  "world_ok w \<longleftrightarrow> groups_ok (gw_groups w) (gw_members w) (gw_count w)"

lemma close_groups_sel [simp]: "tg_groups (close_groups T) = tg_groups T" "tg_next (close_groups T) = tg_next T"
  "tg_closed (close_groups T)" "tg_drained (close_groups T) = tg_drained T"
proof -
  have "tg_groups (fold (\<lambda>p. put_group (snd p) notify) ps S) = tg_groups S \<and> tg_next (fold (\<lambda>p. put_group (snd p) notify) ps S) = tg_next S
      \<and> tg_closed (fold (\<lambda>p. put_group (snd p) notify) ps S) = tg_closed S \<and> tg_drained (fold (\<lambda>p. put_group (snd p) notify) ps S) = tg_drained S"
    for ps :: "(string \<times> nat) list" and S by (induction ps arbitrary: S) simp_all
  then show "tg_groups (close_groups T) = tg_groups T" "tg_next (close_groups T) = tg_next T"
    "tg_closed (close_groups T)" "tg_drained (close_groups T) = tg_drained T"
    by (simp_all add: close_groups_def)
qed

lemma close_groups_heap: "distinct (map snd (tg_groups T)) \<Longrightarrow> i \<in> snd ` set (tg_groups T) \<Longrightarrow> tg_heap (close_groups T) i = notify (tg_heap T i)"
proof -
  have out: "i \<notin> snd ` set ps \<Longrightarrow> tg_heap (fold (\<lambda>p. put_group (snd p) notify) ps S) i = tg_heap S i"
    for ps :: "(string \<times> nat) list" and S by (induction ps arbitrary: S) auto
  have "distinct (map snd ps) \<Longrightarrow> i \<in> snd ` set ps \<Longrightarrow> tg_heap (fold (\<lambda>p. put_group (snd p) notify) ps S) i = notify (tg_heap S i)"
    for ps :: "(string \<times> nat) list" and S
  proof (induction ps arbitrary: S)
    case (Cons p ps)
    show ?case
    proof (cases "i \<in> snd ` set ps")
      case True
      then have "snd p \<noteq> i" using Cons.prems(1) by auto
      then show ?thesis using Cons.IH[of "put_group (snd p) notify S"] Cons.prems(1) True by simp
    next
      case False
      then show ?thesis using Cons.prems(2) out by auto
    qed
  qed simp
  then show "distinct (map snd (tg_groups T)) \<Longrightarrow> i \<in> snd ` set (tg_groups T) \<Longrightarrow> tg_heap (close_groups T) i = notify (tg_heap T i)"
    by (simp add: close_groups_def)
qed

lemma waits_closed: "waits_ok c M key i g \<Longrightarrow> waits_ok True M key i (notify g)"
  unfolding waits_ok_def notify_def by (auto; fastforce)

lemma close_groups_ok:
  assumes "groups_ok T M n"
  shows "groups_ok (close_groups T) M n"
proof -
  have d: "distinct (keys (tg_groups T))" and inj: "\<And>k k' i. map_of (tg_groups T) k = Some i \<Longrightarrow> map_of (tg_groups T) k' = Some i \<Longrightarrow> k = k'"
    using assms unfolding groups_ok_def by blast+
  have "distinct (map snd (tg_groups T))"
    unfolding distinct_map
  proof
    show "distinct (tg_groups T)" using d by (simp add: distinct_map)
    show "inj_on snd (set (tg_groups T))" using inj d by (auto simp: inj_on_def)
  qed
  then have h: "map_of (tg_groups T) key = Some i \<Longrightarrow> tg_heap (close_groups T) i = notify (tg_heap T i)" for key i
    using close_groups_heap by (metis image_eqI map_of_SomeD snd_conv)
  have "group_ok True M key i (notify g)" if "group_ok c M key i g" for c key i g
    using waits_closed[of c M key i g] that by (simp add: group_ok_def counts_ok_def turn_ok_def queue_ok_def notify_def)
  then have "inside M key i \<noteq> {} \<and> group_ok True M key i (tg_heap (close_groups T) i)" if "map_of (tg_groups T) key = Some i" for key i
    using assms h[OF that] that unfolding groups_ok_def by metis
  moreover have "tg_closed (close_groups T) = True" by simp
  ultimately show ?thesis using assms unfolding groups_ok_def close_groups_sel(1,2,4) by (simp only: simp_thms) blast
qed

lemma group_step_ok: "group_step w w' \<Longrightarrow> world_ok w \<Longrightarrow> world_ok w'"
proof (induction rule: group_step.induct)
  case (closes w)
  then show ?case using close_groups_ok by (simp add: world_ok_def)
next
  case (turn_cancelled w m key i idle e)
  then show ?case using queued_member[of "gw_groups w" "gw_members w" "gw_count w" m key i idle e] turn_withdraw_ok(1)[OF _ _ le_refl] unfolding world_ok_def moved_def by simp
next
  case (turn_wakes w m key i idle e)
  then show ?case using queued_member[of "gw_groups w" "gw_members w" "gw_count w" m key i idle e] turn_check_ok[OF _ _ le_refl] unfolding world_ok_def moved_def by simp
qed (simp_all add: world_ok_def moved_def begun_def activity_enter_ok wait_idle_ok exclusive_enter_ok activity_exit_ok
  exclusive_exit_ok idle_wakes_ok idle_cancelled_ok del: fun_upd_apply)

lemma reachable_ok: "group_step\<^sup>*\<^sup>* gw_start w \<Longrightarrow> world_ok w"
proof (induction rule: rtranclp_induct)
  case base
  show ?case by (simp add: world_ok_def gw_start_def groups_ok_def no_groups_def)
qed (rule group_step_ok)

section \<open>Properties\<close>

text \<open>Exclusive work excludes itself: in every reachable state at most one call is inside the exclusive section of a key.\<close>

theorem exclusive_alone:
  assumes "group_step\<^sup>*\<^sup>* gw_start w" and "gw_members w m = InTurn key i" "gw_members w n = InTurn key j"
  shows "m = n"
proof -
  have ok: "groups_ok (gw_groups w) (gw_members w) (gw_count w)" using reachable_ok[OF assms(1)] by (simp add: world_ok_def)
  then have "map_of (tg_groups (gw_groups w)) key = Some i" "map_of (tg_groups (gw_groups w)) key = Some j"
    using assms(2,3) unfolding groups_ok_def by (metis group_of.simps(4))+
  then have "i = j" by simp
  then show ?thesis using member_opened(3)[OF ok, of m key i] assms(2,3) unfolding group_ok_def turn_ok_def by simp
qed

lemma turn_check_enters:
  assumes "fst (turn_check key i (m, idle) T) = InTurn key' i'"
  shows "key' = key" "i' = i" "\<not> gr_exclusive (tg_heap T i)" "eligible (tg_heap T i) = Some (m, idle)"
    "snd (turn_check key i (m, idle) T) = put_group i (\<lambda>g. g\<lparr>gr_waiting := remove1 (m, idle) (gr_waiting g), gr_exclusive := True\<rparr>) T"
  using assms unfolding turn_check_def turn_withdraw_def leave_group_def Let_def
  by (auto split: if_splits prod.splits sum.splits)

lemma found_first:
  fixes m k :: nat
  assumes "sorted_wrt (<) (map fst xs)" "List.find P xs = Some (m, b)" "(k, c) \<in> set xs" "k < m"
  shows "\<not> P (k, c)"
proof
  assume P: "P (k, c)"
  obtain i where i: "i < length xs" "xs ! i = (m, b)" "\<forall>j<i. \<not> P (xs ! j)" using assms(2) by (auto simp: find_Some_iff)
  obtain j where j: "j < length xs" "xs ! j = (k, c)" using assms(3) by (auto simp: in_set_conv_nth)
  have "i \<le> j" using i(3) j(2) P by (metis not_le)
  then have "m \<le> k" using sorted_wrt_nth_less[OF assms(1), of i j] i j by (cases "i = j") auto
  then show False using assms(4) by simp
qed

lemma activity_count:
  assumes "counts_ok M key i g" "finite (inside M key i)"
  shows "gr_activity g = 0 \<longleftrightarrow> (\<nexists>a. M a = InActivity key i)"
proof -
  have "finite {m. M m = InActivity key i}" by (rule finite_subset[OF _ assms(2)]) auto
  then show ?thesis using assms(1) by (auto simp: counts_ok_def card_eq_0_iff)
qed

lemma turn_first:
  assumes ok: "groups_ok T M n" and q: "queued T T1 M m key i idle e" and x: "fst (turn_check key i (m, idle) T1) = InTurn key' i'"
  shows "key' = key" "i' = i" "\<And>k. k \<noteq> m \<Longrightarrow> M k \<noteq> InTurn key i"
    "\<And>k b e'. k < m \<Longrightarrow> M k = AwaitTurn key i b e' \<Longrightarrow> b \<and> (\<exists>a. M a = InActivity key i)"
proof -
  note t = turn_check_enters[OF x] and q' = q[unfolded queued_def]
  let ?M = "M(m := AwaitTurn key i idle e)" and ?g = "tg_heap T1 i"
  show "key' = key" "i' = i" by (fact t)+
  show "M k \<noteq> InTurn key i" if "k \<noteq> m" for k using q' t(3) that unfolding turn_ok_def by (metis fun_upd_other)
  have fin: "finite (inside ?M key i)"
  proof (rule finite_subset)
    show "inside ?M key i \<subseteq> insert m (inside M key i)" by auto
  qed (simp add: groups_ok_finite[OF ok])
  show "b \<and> (\<exists>a. M a = InActivity key i)" if k: "k < m" "M k = AwaitTurn key i b e'" for k b e'
  proof -
    have "(k, b) \<in> set (gr_waiting ?g)" using q' k unfolding queue_ok_def by (metis fun_upd_other less_irrefl)
    then have "\<not> (\<not> b \<or> gr_activity ?g = 0)"
      using found_first[of "gr_waiting ?g" "\<lambda>r. \<not> snd r \<or> gr_activity ?g = 0" m idle k b] t(4) k(1) q' by (simp add: eligible_def queue_ok_def)
    moreover have "gr_activity ?g \<noteq> 0 \<longleftrightarrow> (\<exists>a. ?M a = InActivity key i)" using activity_count[of ?M key i ?g] q' fin by blast
    ultimately show ?thesis by (auto split: if_splits)
  qed
qed

lemma leave_group_ended: "\<exists>out. fst (leave_group key i x T) = Ended out"
  by (simp add: leave_group_def split: sum.splits prod.splits)

lemma leave_not_turn: "fst (leave_group key i x T) \<noteq> InTurn key' i'"
  using leave_group_ended[of key i x T] by auto

lemma others_not_turn:
  "fst (activity_enter key T) \<noteq> InTurn key' i'" "fst (wait_idle key T) \<noteq> InTurn key' i'" "fst (idle_check key i T) \<noteq> InTurn key' i'"
  "fst (activity_exit key i out T) \<noteq> InTurn key' i'" "fst (turn_withdraw key i r e T) \<noteq> InTurn key' i'"
  "fst (exclusive_exit key i out T) \<noteq> InTurn key' i'"
  by (simp_all add: activity_enter_def wait_idle_def idle_check_def activity_exit_def turn_withdraw_def exclusive_exit_def leave_not_turn
      split: sum.split prod.split)

lemma entered_by_turn:
  assumes "group_step w w'" "gw_members w m \<noteq> InTurn key i" "gw_members w' m = InTurn key i" and ok: "world_ok w"
  shows "\<exists>T1 idle e. queued (gw_groups w) T1 (gw_members w) m key i idle e \<and> fst (turn_check key i (m, idle) T1) = InTurn key i"
  using assms(1)
proof cases
  case (turn_begins key' idle)
  note G = ok[unfolded world_ok_def]
  have m: "m = gw_count w" "fst (exclusive_enter (gw_count w) key' idle (gw_groups w)) = InTurn key i"
    using turn_begins assms(2,3) by (auto simp: begun_def moved_def split: if_splits)
  then obtain j T1 where T1: "open_group key' (gw_groups w) = Inr (j, T1)"
    and x: "fst (turn_check key' j (m, idle) (put_group j (\<lambda>g. g\<lparr>gr_waiting := gr_waiting g @ [(m, idle)]\<rparr>) T1)) = InTurn key i"
    by (auto simp: exclusive_enter_def split: sum.splits prod.splits)
  then show ?thesis using queued_entered[OF G T1, of idle] turn_check_enters(1,2)[OF x] m(1) by blast
next
  case (turn_wakes n key' j idle e)
  then have n: "m = n" and x: "fst (turn_check key' j (m, idle) (gw_groups w)) = InTurn key i"
    using assms(2,3) by (auto simp: moved_def split: if_splits)
  then show ?thesis using queued_member(1)[OF ok[unfolded world_ok_def] turn_wakes(2)] turn_check_enters(1,2)[OF x] by blast
qed (use assms(2,3) in \<open>simp_all add: begun_def moved_def leave_not_turn others_not_turn split: if_splits\<close>)

text \<open>C25. Exclusive requests are served in order: when a call enters the exclusive section of a key, nobody
  is inside, and every call for the key that was made earlier and still waits is one that asked
  for an idle key while the key is active.\<close>

theorem exclusive_fifo:
  assumes "group_step\<^sup>*\<^sup>* gw_start w" and "group_step w w'" and "gw_members w m \<noteq> InTurn key i" "gw_members w' m = InTurn key i"
  shows "(\<forall>k j. gw_members w k \<noteq> InTurn key j)
    \<and> (\<forall>k j idle e. k < m \<and> gw_members w k = AwaitTurn key j idle e \<longrightarrow> idle \<and> (\<exists>a. gw_members w a = InActivity key j))"
proof -
  have w: "world_ok w" and ok: "groups_ok (gw_groups w) (gw_members w) (gw_count w)"
    using reachable_ok[OF assms(1)] by (simp_all add: world_ok_def)
  obtain T1 idle e where q: "queued (gw_groups w) T1 (gw_members w) m key i idle e" and x: "fst (turn_check key i (m, idle) T1) = InTurn key i"
    using entered_by_turn[OF assms(2-4) w] by blast
  have "j = i" if "group_of (gw_members w k) = Some (key, j)" for k j
  proof -
    have "map_of (tg_groups (gw_groups w)) key = Some j" using ok that unfolding groups_ok_def by blast
    then show ?thesis using q by (simp add: queued_def opened_def found_group_def)
  qed
  then have j: "gw_members w k = InTurn key j \<Longrightarrow> j = i" "gw_members w k = AwaitTurn key j b e' \<Longrightarrow> j = i" for k j b e'
    by (metis group_of.simps(4), metis group_of.simps(3))
  note f = turn_first(3,4)[OF ok q x]
  show ?thesis
  proof (intro conjI allI impI)
    fix k j show "gw_members w k \<noteq> InTurn key j" using f(1)[of k] j(1)[of k j] assms(3) by (cases "k = m") auto
  next
    fix k j idle e assume k: "k < m \<and> gw_members w k = AwaitTurn key j idle e"
    then have "j = i" using j(2) by blast
    then show "idle" "\<exists>a. gw_members w a = InActivity key j" using f(2)[of k idle e] k by blast+
  qed
qed

lemma leave_out: "map_of (tg_groups T) key = Some i \<Longrightarrow> fst (leave_group key i out T) = Ended out"
  using release_groupE(1)[of key i T] by (cases "release_group key i T") (auto simp: leave_group_def)

lemma idle_wakes_up:
  assumes ok: "groups_ok T M n" and a: "M m = AwaitIdle key i e" and "tg_closed T \<or> (\<nexists>a. M a = InActivity key i)"
  shows "event_set (tg_heap T i) e" "fst (idle_check key i T) = Ended (if tg_closed T then Inl RuntimeError else Inr ())"
proof -
  have in_g: "group_of (M m) = Some (key, i)" using a by simp
  note g = member_opened(3)[OF ok in_g, unfolded group_ok_def]
  have here: "map_of (tg_groups T) key = Some i" using ok in_g unfolding groups_ok_def by blast
  have c: "tg_closed T \<or> gr_activity (tg_heap T i) = 0"
    using assms(3) activity_count[of M key i "tg_heap T i"] g groups_ok_finite[OF ok] by blast
  have "e \<le> gr_changed (tg_heap T i) \<and> e \<noteq> gr_changed (tg_heap T i)" using g a c unfolding waits_ok_def by blast
  then show "event_set (tg_heap T i) e" by (simp add: event_set_def)
  show "fst (idle_check key i T) = Ended (if tg_closed T then Inl RuntimeError else Inr ())"
    using c leave_out[OF here] by (auto simp: idle_check_def)
qed

lemma turn_wakes_up:
  assumes ok: "groups_ok T M n" and a: "M m = AwaitTurn key i idle e"
    and x: "tg_closed T \<or> (\<not> gr_exclusive (tg_heap T i) \<and> eligible (tg_heap T i) = Some (m, idle))"
  shows "event_set (tg_heap T i) e" "fst (turn_check key i (m, idle) T) = (if tg_closed T then Ended (Inl RuntimeError) else InTurn key i)"
proof -
  have in_g: "group_of (M m) = Some (key, i)" using a by simp
  note g = member_opened(3)[OF ok in_g, unfolded group_ok_def]
  have "e \<le> gr_changed (tg_heap T i) \<and> e \<noteq> gr_changed (tg_heap T i)" using g a x unfolding waits_ok_def by blast
  then show "event_set (tg_heap T i) e" by (simp add: event_set_def)
  show "fst (turn_check key i (m, idle) T) = (if tg_closed T then Ended (Inl RuntimeError) else InTurn key i)"
    using x turn_withdraw_ok(2)[OF ok queued_member(2)[OF ok a] le_refl queued_member(1)[OF ok a], of RuntimeError]
    unfolding turn_check_def Let_def by auto
qed

lemma moved_self: "gw_members (moved m r w) m = fst r"
  by (simp add: moved_def)

lemma found_no_later:
  fixes m :: nat
  assumes "sorted_wrt (<) (map fst xs)" "(m, b) \<in> set xs" "P (m, b)"
  shows "\<exists>k c. List.find P xs = Some (k, c) \<and> k \<le> m"
proof -
  obtain r where r: "List.find P xs = Some r" using assms(2,3) by (metis find_None_iff not_None_eq)
  obtain k c where "r = (k, c)" by (cases r)
  then show ?thesis using r found_first[OF assms(1), of P k c m b] assms(2,3) by (metis not_le)
qed

text \<open>C34. No wake-up is lost. In every reachable state: when the service is closed, every waiting call
  can go on and ends with an error; when a key is idle, a call that waits for that can go on and
  returns; when nobody is in the exclusive section of a key and the conditions of some request hold,
  a request made no later can go on and enters.\<close>

theorem no_lost_wakeup:
  assumes "group_step\<^sup>*\<^sup>* gw_start w"
  shows "(tg_closed (gw_groups w) \<and> (gw_members w m = AwaitIdle key i e \<or> gw_members w m = AwaitTurn key i idle e) \<longrightarrow>
        (\<exists>w'. group_step w w' \<and> gw_members w' m = Ended (Inl RuntimeError)))
    \<and> (\<not> tg_closed (gw_groups w) \<and> gw_members w m = AwaitIdle key i e \<and> (\<nexists>a. gw_members w a = InActivity key i) \<longrightarrow>
        (\<exists>w'. group_step w w' \<and> gw_members w' m = Ended (Inr ())))
    \<and> (\<not> tg_closed (gw_groups w) \<and> gw_members w m = AwaitTurn key i idle e \<and> (\<nexists>a. gw_members w a = InTurn key i)
          \<and> (idle \<longrightarrow> (\<nexists>a. gw_members w a = InActivity key i)) \<longrightarrow>
        (\<exists>n w'. n \<le> m \<and> group_step w w' \<and> gw_members w' n = InTurn key i))"
proof (intro conjI impI; elim conjE)
  note ok = reachable_ok[OF assms, unfolded world_ok_def]
  let ?T = "gw_groups w"
  show "\<exists>w'. group_step w w' \<and> gw_members w' m = Ended (Inl RuntimeError)"
    if c: "tg_closed ?T" "gw_members w m = AwaitIdle key i e \<or> gw_members w m = AwaitTurn key i idle e"
    using c(2)
  proof
    assume a: "gw_members w m = AwaitIdle key i e"
    note u = idle_wakes_up[OF ok a disjI1[OF c(1)]]
    show ?thesis using group_step.idle_wakes[OF a u(1)] u(2) c(1) by (intro exI[of _ "moved m (idle_check key i ?T) w"]) (simp add: moved_self)
  next
    assume a: "gw_members w m = AwaitTurn key i idle e"
    note u = turn_wakes_up[OF ok a disjI1[OF c(1)]]
    show ?thesis using group_step.turn_wakes[OF a u(1)] u(2) c(1) by (intro exI[of _ "moved m (turn_check key i (m, idle) ?T) w"]) (simp add: moved_self)
  qed
  show "\<exists>w'. group_step w w' \<and> gw_members w' m = Ended (Inr ())"
    if c: "\<not> tg_closed ?T" "gw_members w m = AwaitIdle key i e" "\<nexists>a. gw_members w a = InActivity key i"
    using idle_wakes_up[OF ok c(2) disjI2[OF c(3)]] group_step.idle_wakes[OF c(2)] c(1)
    by (intro exI[of _ "moved m (idle_check key i ?T) w"]) (simp add: moved_self)
  show "\<exists>n w'. n \<le> m \<and> group_step w w' \<and> gw_members w' n = InTurn key i"
    if c: "\<not> tg_closed ?T" "gw_members w m = AwaitTurn key i idle e" "\<nexists>a. gw_members w a = InTurn key i"
      "idle \<longrightarrow> (\<nexists>a. gw_members w a = InActivity key i)"
  proof -
    have in_g: "group_of (gw_members w m) = Some (key, i)" using c(2) by simp
    note g = member_opened(3)[OF ok in_g, unfolded group_ok_def]
    have "\<not> idle \<or> gr_activity (tg_heap ?T i) = 0"
      using c(4) activity_count[of "gw_members w" key i "tg_heap ?T i"] g groups_ok_finite[OF ok] by blast
    moreover have "(m, idle) \<in> set (gr_waiting (tg_heap ?T i))" "sorted_wrt (<) (map fst (gr_waiting (tg_heap ?T i)))"
      using g c(2) unfolding queue_ok_def by blast+
    ultimately obtain k b where k: "eligible (tg_heap ?T i) = Some (k, b)" "k \<le> m"
      using found_no_later[of "gr_waiting (tg_heap ?T i)" m idle "\<lambda>r. \<not> snd r \<or> gr_activity (tg_heap ?T i) = 0"]
      unfolding eligible_def by auto
    have "(k, b) \<in> set (gr_waiting (tg_heap ?T i))" using k(1) unfolding eligible_def by (metis find_Some_iff nth_mem)
    then obtain e' where a: "gw_members w k = AwaitTurn key i b e'" using g unfolding queue_ok_def by blast
    have "\<not> gr_exclusive (tg_heap ?T i)" using g c(3) unfolding turn_ok_def by blast
    then have u: "event_set (tg_heap ?T i) e'" "fst (turn_check key i (k, b) ?T) = InTurn key i"
      using turn_wakes_up[OF ok a] k(1) c(1) by simp_all
    show ?thesis
      by (rule exI[of _ k], rule exI[of _ "moved k (turn_check key i (k, b) ?T) w"])
        (use group_step.turn_wakes[OF a u(1)] u(2) k(2) in \<open>simp add: moved_self\<close>)
  qed
qed

text \<open>The service keeps a group exactly as long as some call uses it, and is drained exactly when no
  call is inside any group.\<close>

theorem groups_kept:
  assumes "group_step\<^sup>*\<^sup>* gw_start w"
  shows "dom (map_of (tg_groups (gw_groups w))) = {key. \<exists>m i. group_of (gw_members w m) = Some (key, i)}
    \<and> (tg_drained (gw_groups w) \<longleftrightarrow> (\<forall>m. group_of (gw_members w m) = None))"
proof -
  note ok = reachable_ok[OF assms, unfolded world_ok_def]
  have d: "dom (map_of (tg_groups (gw_groups w))) = {key. \<exists>m i. group_of (gw_members w m) = Some (key, i)}"
  proof (intro subset_antisym subsetI)
    fix key assume "key \<in> dom (map_of (tg_groups (gw_groups w)))"
    then obtain i where "map_of (tg_groups (gw_groups w)) key = Some i" by auto
    then have "inside (gw_members w) key i \<noteq> {}" using ok unfolding groups_ok_def by blast
    then show "key \<in> {key. \<exists>m i. group_of (gw_members w m) = Some (key, i)}" by blast
  next
    fix key assume "key \<in> {key. \<exists>m i. group_of (gw_members w m) = Some (key, i)}"
    then obtain m i where "group_of (gw_members w m) = Some (key, i)" by blast
    then have "map_of (tg_groups (gw_groups w)) key = Some i" using ok unfolding groups_ok_def by blast
    then show "key \<in> dom (map_of (tg_groups (gw_groups w)))" by blast
  qed
  moreover have "tg_drained (gw_groups w) \<longleftrightarrow> dom (map_of (tg_groups (gw_groups w))) = {}" using ok by (simp add: groups_ok_def)
  moreover have "{key. \<exists>m i. group_of (gw_members w m) = Some (key, i)} = {} \<longleftrightarrow> (\<forall>m. group_of (gw_members w m) = None)"
  proof
    assume none: "{key. \<exists>m i. group_of (gw_members w m) = Some (key, i)} = {}"
    have "\<nexists>p. group_of (gw_members w m) = Some p" for m using none by (simp add: split_paired_all)
    then show "\<forall>m. group_of (gw_members w m) = None" by (simp add: not_Some_eq[symmetric])
  qed simp
  ultimately show ?thesis by (simp only: simp_thms)
qed

section \<open>A sample run\<close>

text \<open>One activity, a request for an idle key, and a plain request.\<close>

definition busy_world :: groups_world where
  "busy_world = begun (exclusive_enter 1 ''k'' True (gw_groups (begun (activity_enter ''k'' no_groups) gw_start)))
     (begun (activity_enter ''k'' no_groups) gw_start)"

definition turn_world :: groups_world where
  "turn_world = begun (exclusive_enter 2 ''k'' False (gw_groups busy_world)) busy_world"

definition quiet_world :: groups_world where
  "quiet_world = moved 0 (activity_exit ''k'' 0 (Inr ()) (gw_groups busy_world)) busy_world"

lemmas sample_defs = begun_def moved_def gw_start_def no_groups_def activity_enter_def activity_exit_def exclusive_enter_def open_group_def
  put_group_def notify_def new_group_def turn_check_def eligible_def leave_group_def release_group_def

lemma busy_reached: "group_step\<^sup>*\<^sup>* gw_start busy_world"
proof -
  let ?w = "begun (activity_enter ''k'' no_groups) gw_start"
  have "group_step gw_start ?w" using group_step.activity_begins[of gw_start "''k''"] by (simp add: gw_start_def)
  moreover have "group_step ?w busy_world"
    using group_step.turn_begins[of ?w "''k''" True] by (simp add: busy_world_def begun_def gw_start_def)
  ultimately show ?thesis by (meson converse_rtranclp_into_rtranclp rtranclp.rtrancl_refl)
qed

lemma busy_members: "gw_members busy_world = (\<lambda>m. Outside)(0 := InActivity ''k'' 0, 1 := AwaitTurn ''k'' 0 True 1)"
  "gw_count busy_world = 2"
  by (simp_all add: busy_world_def sample_defs)

lemma turn_reached: "group_step busy_world turn_world" "gw_members turn_world 2 = InTurn ''k'' 0"
  using group_step.turn_begins[of busy_world "''k''" False] by (simp_all add: turn_world_def busy_world_def sample_defs)

lemma quiet_reached: "group_step\<^sup>*\<^sup>* gw_start quiet_world" "gw_members quiet_world = (\<lambda>m. Outside)(0 := Ended (Inr ()), 1 := AwaitTurn ''k'' 0 True 1)"
  "\<not> tg_closed (gw_groups quiet_world)"
proof -
  have "group_step busy_world quiet_world"
    using group_step.activity_ends[of busy_world 0 "''k''" 0 "Inr ()"] by (simp add: busy_members quiet_world_def)
  then show "group_step\<^sup>*\<^sup>* gw_start quiet_world" using busy_reached by (rule rtranclp.rtrancl_into_rtrancl[rotated])
  show "gw_members quiet_world = (\<lambda>m. Outside)(0 := Ended (Inr ()), 1 := AwaitTurn ''k'' 0 True 1)" "\<not> tg_closed (gw_groups quiet_world)"
    by (simp_all add: quiet_world_def busy_world_def sample_defs fun_eq_iff)
qed

lemma exclusive_alone_witness: "{m. gw_members turn_world m = InTurn ''k'' 0} = {2}"
proof -
  have "group_step\<^sup>*\<^sup>* gw_start turn_world" using busy_reached turn_reached(1) by (rule rtranclp.rtrancl_into_rtrancl)
  then have "gw_members turn_world m = InTurn ''k'' 0 \<Longrightarrow> m = 2" for m using exclusive_alone[OF _ _ turn_reached(2)] by blast
  then show ?thesis using turn_reached(2) by blast
qed

lemma exclusive_fifo_witness: "\<exists>a. gw_members busy_world a = InActivity ''k'' 0"
proof -
  have "gw_members busy_world 1 = AwaitTurn ''k'' 0 True 1" "gw_members busy_world 2 \<noteq> InTurn ''k'' 0" by (simp_all add: busy_members)
  then show ?thesis
    using exclusive_fifo[OF busy_reached turn_reached(1) _ turn_reached(2), THEN conjunct2, THEN spec[of _ 1], THEN spec[of _ 0],
        THEN spec[of _ True], THEN spec[of _ 1]] by simp
qed

lemma no_lost_wakeup_witness: "\<exists>n w'. n \<le> 1 \<and> group_step quiet_world w' \<and> gw_members w' n = InTurn ''k'' 0"
proof -
  have m: "gw_members quiet_world 1 = AwaitTurn ''k'' 0 True 1" "\<nexists>a. gw_members quiet_world a = InTurn ''k'' 0" "\<nexists>a. gw_members quiet_world a = InActivity ''k'' 0"
    by (simp_all add: quiet_reached(2))
  show ?thesis using no_lost_wakeup[OF quiet_reached(1), of 1 "''k''" 0 1 True] quiet_reached(3) m by blast
qed

lemma groups_kept_witness: "dom (map_of (tg_groups (gw_groups quiet_world))) = {''k''}"
proof -
  have "group_of (gw_members quiet_world m) = Some (key, i) \<longleftrightarrow> m = 1 \<and> key = ''k'' \<and> i = 0" for m key i
    by (simp add: quiet_reached(2)) blast
  then show ?thesis using groups_kept[OF quiet_reached(1), THEN conjunct1] by simp
qed

end
