(* ===== verification/Service_Properties.thy ===== *)
theory Service_Properties
  imports Task_Service Group_Properties "HOL-Library.Multiset"
begin

text \<open>
  The tasks of the service in every reachable state: one running task per key, operations start only under an
  admission that succeeded, cleanups run once, and shutdown waits for every task.
\<close>

section \<open>One task\<close>

definition task_ok :: "task \<Rightarrow> bool" where
  "task_ok t \<longleftrightarrow> (tk_pc t = TCreated \<longleftrightarrow> \<not> tk_running t)
   \<and> (if tk_active t then \<not> tk_cancel_requested t \<and> tk_ran t = [] \<and> tk_cleanup t = tk_accepted t \<and> (\<forall>out. tk_pc t \<noteq> TClosing out \<and> tk_pc t \<noteq> TDone out)
      else tk_cleanup t = [] \<and> tk_ran t = rev (tk_accepted t) \<and> (tk_cancel_requested t \<or> (\<exists>out. tk_pc t = TClosing out \<or> tk_pc t = TDone out)))
   \<and> (tk_pc t = TOperating \<or> (\<exists>e. tk_pc t = TReleasing e) \<longrightarrow> tk_admitted t)
   \<and> (tk_pc t = TAdmission \<and> tk_cancel_requested t \<longrightarrow> tk_interrupt t) \<and> (tk_interrupt t \<longrightarrow> tk_cancel_requested t)
   \<and> mset (tk_promised t) = mset (tk_called t) + mset (tk_callbacks t) \<and> (tk_called t \<noteq> [] \<longrightarrow> tk_done t)"

lemma tk_done_iff: "tk_done t \<longleftrightarrow> (\<exists>out. tk_pc t = TDone out)"
  by (simp add: tk_done_def split: task_pc.split)

lemma new_task_ok: "task_ok (new_task key scope)"
  by (simp add: task_ok_def new_task_def)

lemma close_sel [simp]: "tk_pc (snd (task_close fails t)) = tk_pc t" "tk_key (snd (task_close fails t)) = tk_key t"
  "tk_admitted (snd (task_close fails t)) = tk_admitted t" "tk_running (snd (task_close fails t)) = tk_running t"
  "\<not> tk_active (snd (task_close fails t))" "tk_cancel_requested (snd (task_close fails t)) = tk_cancel_requested t"
  "tk_scope (snd (task_close fails t)) = tk_scope t" "tk_interrupt (snd (task_close fails t)) = tk_interrupt t"
  by (simp_all add: task_close_def)

lemma cancel_sel [simp]: "tk_pc (snd (task_cancel fails t)) = tk_pc t" "tk_key (snd (task_cancel fails t)) = tk_key t"
  "tk_admitted (snd (task_cancel fails t)) = tk_admitted t" "tk_running (snd (task_cancel fails t)) = tk_running t"
  "tk_cancel_requested (snd (task_cancel fails t))" "tk_scope (snd (task_cancel fails t)) = tk_scope t"
  by (simp_all add: task_cancel_def task_close_def split_def)

lemma cancel_ok: "task_ok t \<Longrightarrow> task_ok (snd (task_cancel fails t))"
  by (auto simp: task_ok_def task_cancel_def task_close_def tk_done_def split: if_splits task_pc.splits)

lemma finally_ok: "task_ok t \<Longrightarrow> tk_running t \<Longrightarrow> \<not> tk_done t \<Longrightarrow> task_ok (task_finally fails out t)"
  by (auto simp: task_ok_def task_finally_def task_close_def tk_done_def Let_def split: if_splits task_pc.splits)

lemma finally_sel [simp]: "tk_key (task_finally fails out t) = tk_key t" "tk_admitted (task_finally fails out t) = tk_admitted t"
  "tk_pc (task_finally fails out t) \<noteq> TOperating" "tk_cancel_requested (task_finally fails out t) = tk_cancel_requested t"
  by (simp_all add: task_finally_def Let_def split: prod.split) (simp_all add: task_close_def split: if_splits)

lemma enter_sel [simp]: "tk_key (task_enter bound t) = tk_key t" "tk_admitted (task_enter bound t) = tk_admitted t"
  "tk_active (task_enter bound t) = tk_active t" "tk_cancel_requested (task_enter bound t) = tk_cancel_requested t"
  by (simp_all add: task_enter_def split: bool.split sum.split)

lemma enter_ok: "task_ok t \<Longrightarrow> tk_active t \<Longrightarrow> tk_running t \<Longrightarrow> tk_admitted t \<Longrightarrow> task_ok (task_enter bound t)"
  by (auto simp: task_ok_def task_enter_def tk_done_def split: bool.splits sum.splits task_pc.splits)

lemma begin_ok:
  assumes "task_ok t" "tk_pc t = TCreated"
  shows "task_ok (task_begin fails bound t)"
proof -
  have "task_ok (t\<lparr>tk_running := True, tk_pc := TAdmission\<rparr>)" if "\<not> tk_cancel_requested t"
    using assms that by (auto simp: task_ok_def tk_done_def split: if_splits)
  moreover have "task_ok (task_finally fails out (t\<lparr>tk_running := True\<rparr>))" if "tk_cancel_requested t" for out
    using assms that by (auto simp: task_ok_def task_finally_def task_close_def tk_done_def Let_def split: if_splits)
  moreover have "task_ok (task_enter bound (t\<lparr>tk_running := True\<rparr>))" if "\<not> tk_cancel_requested t" "tk_admitted t"
    using assms that by (auto simp: task_ok_def task_enter_def tk_done_def split: bool.splits sum.splits if_splits)
  ultimately show ?thesis by (simp add: task_begin_def Let_def)
qed

lemma resume_ok:
  assumes "task_ok t" "tk_pc t = TAdmission" "tk_admitted t \<or> tk_interrupt t"
  shows "task_ok (task_resume fails bound t)"
proof -
  have r: "tk_running t" "\<not> tk_done t" using assms(1,2) by (auto simp: task_ok_def tk_done_def)
  moreover have "tk_active t" if "\<not> tk_interrupt t" using assms(1,2) that by (auto simp: task_ok_def split: if_splits)
  ultimately show ?thesis using assms by (auto simp: task_resume_def intro: finally_ok enter_ok)
qed

lemma on_close_ok: "task_ok t \<Longrightarrow> task_ok (snd (on_close c t))"
  by (auto simp: task_ok_def on_close_def tk_done_def)

lemma on_done_ok: "task_ok t \<Longrightarrow> task_ok (on_done c t)"
  by (auto simp: task_ok_def on_done_def tk_done_def Let_def split: task_pc.splits)

lemma callbacks_ok: "task_ok t \<Longrightarrow> tk_done t \<Longrightarrow> task_ok (run_done_callbacks t)"
  by (auto simp: task_ok_def run_done_callbacks_def tk_done_def split: task_pc.splits)

lemma scope_closed_ok: "task_ok t \<Longrightarrow> tk_pc t = TClosing out \<Longrightarrow> task_ok (scope_closed out r t)"
  by (auto simp: task_ok_def scope_closed_def tk_done_def split: if_splits)

section \<open>The service\<close>

definition service_ok :: "service \<Rightarrow> bool" where
  "service_ok S \<longleftrightarrow> distinct (keys (sv_tasks S))
   \<and> (\<forall>key i. map_of (sv_tasks S) key = Some i \<longrightarrow> i < sv_next S \<and> tk_key (sv_heap S i) = key)
   \<and> (\<forall>i < sv_next S. task_ok (sv_heap S i) \<and> (\<not> tk_done (sv_heap S i) \<longrightarrow> map_of (sv_tasks S) (tk_key (sv_heap S i)) = Some i))"

lemma put_task_sel [simp]: "sv_tasks (put_task i f S) = sv_tasks S" "sv_next (put_task i f S) = sv_next S"
  "sv_groups (put_task i f S) = sv_groups S" "sv_heap (put_task i f S) j = (if j = i then f (sv_heap S i) else sv_heap S j)"
  by (simp_all add: put_task_def)

lemma service_okD:
  assumes "service_ok S"
  shows "distinct (keys (sv_tasks S))" "\<And>key i. map_of (sv_tasks S) key = Some i \<Longrightarrow> i < sv_next S \<and> tk_key (sv_heap S i) = key"
    "\<And>i. i < sv_next S \<Longrightarrow> task_ok (sv_heap S i)"
    "\<And>i. i < sv_next S \<Longrightarrow> \<not> tk_done (sv_heap S i) \<Longrightarrow> map_of (sv_tasks S) (tk_key (sv_heap S i)) = Some i"
  using assms unfolding service_ok_def by blast+

lemma service_okI:
  assumes "distinct (keys (sv_tasks S))" "\<And>key i. map_of (sv_tasks S) key = Some i \<Longrightarrow> i < sv_next S \<and> tk_key (sv_heap S i) = key"
    "\<And>i. i < sv_next S \<Longrightarrow> task_ok (sv_heap S i)"
    "\<And>i. i < sv_next S \<Longrightarrow> \<not> tk_done (sv_heap S i) \<Longrightarrow> map_of (sv_tasks S) (tk_key (sv_heap S i)) = Some i"
  shows "service_ok S"
  using assms unfolding service_ok_def by blast

lemma put_task_ok:
  assumes "service_ok S" "tk_key (f (sv_heap S i)) = tk_key (sv_heap S i)" "tk_done (sv_heap S i) \<Longrightarrow> tk_done (f (sv_heap S i))"
    and "i < sv_next S \<Longrightarrow> task_ok (sv_heap S i) \<Longrightarrow> task_ok (f (sv_heap S i))"
  shows "service_ok (put_task i f S)"
proof (rule service_okI)
  fix j assume "j < sv_next (put_task i f S)" "\<not> tk_done (sv_heap (put_task i f S) j)"
  then show "map_of (sv_tasks (put_task i f S)) (tk_key (sv_heap (put_task i f S) j)) = Some j"
    using service_okD(4)[OF assms(1), of j] assms(2,3) by (cases "j = i") auto
qed (use service_okD[OF assms(1)] assms(2,4) in auto)

lemma slot_current_iff:
  assumes "service_ok S"
  shows "slot_current key S = Some i \<longleftrightarrow> i < sv_next S \<and> tk_key (sv_heap S i) = key \<and> \<not> tk_done (sv_heap S i)"
proof
  assume "slot_current key S = Some i"
  then have "map_of (sv_tasks S) key = Some i" "\<not> tk_done (sv_heap S i)"
    by (auto simp: slot_current_def split: option.splits if_splits)
  then show "i < sv_next S \<and> tk_key (sv_heap S i) = key \<and> \<not> tk_done (sv_heap S i)" using service_okD(2)[OF assms] by blast
next
  assume "i < sv_next S \<and> tk_key (sv_heap S i) = key \<and> \<not> tk_done (sv_heap S i)"
  then show "slot_current key S = Some i" using service_okD(4)[OF assms, of i] by (simp add: slot_current_def)
qed

text \<open>What an operation keeps of the tasks that were there before.\<close>

definition keeps :: "service \<Rightarrow> service \<Rightarrow> bool" where
  "keeps S S' \<longleftrightarrow> sv_next S \<le> sv_next S' \<and> sv_groups S' = sv_groups S
   \<and> (\<forall>i < sv_next S. tk_key (sv_heap S' i) = tk_key (sv_heap S i) \<and> tk_pc (sv_heap S' i) = tk_pc (sv_heap S i)
        \<and> tk_admitted (sv_heap S' i) = tk_admitted (sv_heap S i) \<and> (tk_cancel_requested (sv_heap S i) \<longrightarrow> tk_cancel_requested (sv_heap S' i)))"

lemma service_keeps_refl: "keeps S S"
  by (simp add: keeps_def)

lemma service_keeps_trans: "keeps S S' \<Longrightarrow> keeps S' S'' \<Longrightarrow> keeps S S''"
  unfolding keeps_def by fastforce

lemma keeps_put: "(\<And>t. tk_key (f t) = tk_key t \<and> tk_pc (f t) = tk_pc t \<and> tk_admitted (f t) = tk_admitted t \<and> (tk_cancel_requested t \<longrightarrow> tk_cancel_requested (f t))) \<Longrightarrow>
    keeps S (put_task i f S)"
  by (simp add: keeps_def)

lemma slot_start_ok:
  assumes "service_ok S" "slot_start key scope S = (Inr i, S')"
  shows "service_ok S'" "keeps S S'" "i = sv_next S" "sv_next S' = Suc i" "sv_heap S' i = new_task key scope"
proof -
  have r: "slot_current key S = None" "i = sv_next S" "S' = S\<lparr>sv_tasks := AList.update key (sv_next S) (sv_tasks S),
              sv_heap := (sv_heap S)(sv_next S := new_task key scope), sv_next := sv_next S + 1\<rparr>"
    using assms(2) by (auto simp: slot_start_def split: if_splits)
  then show "i = sv_next S" "sv_next S' = Suc i" "sv_heap S' i = new_task key scope" by simp_all
  show "keeps S S'" using r(3) by (simp add: keeps_def)
  have new: "j < sv_next S \<Longrightarrow> \<not> tk_done (sv_heap S j) \<Longrightarrow> tk_key (sv_heap S j) \<noteq> key" for j
    using slot_current_iff[OF assms(1), of key j] r(1) by auto
  show "service_ok S'"
  proof (rule service_okI)
    fix j assume "j < sv_next S'" "\<not> tk_done (sv_heap S' j)"
    then show "map_of (sv_tasks S') (tk_key (sv_heap S' j)) = Some j"
      using service_okD(4)[OF assms(1), of j] new[of j] r(3) by (cases "j = sv_next S") (auto simp: map_of_update new_task_def)
  next
    fix j assume "j < sv_next S'"
    then show "task_ok (sv_heap S' j)" using service_okD(3)[OF assms(1), of j] r(3) new_task_ok by (cases "j = sv_next S") auto
  next
    fix k j assume "map_of (sv_tasks S') k = Some j"
    then show "j < sv_next S' \<and> tk_key (sv_heap S' j) = k"
      using service_okD(2)[OF assms(1), of k j] r(3) by (auto simp: map_of_update new_task_def split: if_splits)
  qed (use service_okD(1)[OF assms(1)] r(3) in simp)
qed

text \<open>The task an admission has started, if any: it has not run and is not admitted.\<close>

definition fresh_task :: "nat \<Rightarrow> string \<Rightarrow> nat option \<Rightarrow> service \<Rightarrow> bool" where
  "fresh_task n key started S \<longleftrightarrow> n \<le> sv_next S \<and> (\<forall>i. started = Some i \<longrightarrow> n \<le> i \<and> i < sv_next S \<and> \<not> tk_admitted (sv_heap S i)
     \<and> tk_key (sv_heap S i) = key \<and> tk_pc (sv_heap S i) = TCreated)"

lemma fresh_keeps: "fresh_task n key started S \<Longrightarrow> keeps S S' \<Longrightarrow> fresh_task n key started S'"
  unfolding fresh_task_def keeps_def by fastforce

lemma run_slot_ok:
  assumes "service_ok S" "prog_ok (sv_next S) prog" "fresh_task n key started S" "run_slot fails key prog started S = (out, started', S')"
  shows "service_ok S' \<and> keeps S S' \<and> fresh_task n key started' S'"
  using assms
proof (induction prog arbitrary: S started)
  case (SStart scope f)
  show ?case
  proof (cases "fst (slot_start key scope S)")
    case (Inl e)
    then have s: "slot_start key scope S = (Inl e, S)" by (auto simp: slot_start_def split: if_splits)
    have "prog_ok (sv_next S) (f (Inl e))" using SStart.prems(2) by (auto dest: spec[of _ "Inl e"])
    then show ?thesis using SStart.IH[of "f (Inl e)" S started] SStart.prems s by simp
  next
    case (Inr i)
    then obtain S1 where S1: "slot_start key scope S = (Inr i, S1)" by (metis prod.collapse)
    note o = slot_start_ok[OF SStart.prems(1) S1]
    have "prog_ok (sv_next S1) (f (Inr i))" using SStart.prems(2) o(3,4) by (auto dest: spec[of _ "Inr i"])
    moreover have "fresh_task n key (Some i) S1" using SStart.prems(3) o by (auto simp: fresh_task_def new_task_def)
    ultimately have "service_ok S' \<and> keeps S1 S' \<and> fresh_task n key started' S'"
      using SStart.IH[of "f (Inr i)" S1 "Some i"] SStart.prems(4) o(1) S1 by simp
    then show ?thesis using service_keeps_trans o(2) by blast
  qed
next
  case (SCancel i f)
  let ?r = "task_cancel fails (sv_heap S i)" and ?S = "put_task i (\<lambda>t. snd (task_cancel fails (sv_heap S i))) S"
  have "service_ok ?S" by (rule put_task_ok[OF SCancel.prems(1)]) (simp_all add: tk_done_def cancel_ok)
  moreover have k: "keeps S ?S" by (simp add: keeps_def)
  ultimately have "service_ok S' \<and> keeps ?S S' \<and> fresh_task n key started' S'"
    using SCancel.IH[of "f (fst ?r)" ?S started] SCancel.prems fresh_keeps by (simp add: Let_def)
  then show ?case using service_keeps_trans[OF k] by blast
next
  case (SOnClose i c f)
  let ?r = "on_close c (sv_heap S i)" and ?S = "put_task i (\<lambda>t. snd (on_close c (sv_heap S i))) S"
  have s: "tk_pc (snd ?r) = tk_pc (sv_heap S i)" "tk_key (snd ?r) = tk_key (sv_heap S i)" "tk_admitted (snd ?r) = tk_admitted (sv_heap S i)"
    "tk_cancel_requested (snd ?r) = tk_cancel_requested (sv_heap S i)" by (simp_all add: on_close_def)
  have "service_ok ?S" by (rule put_task_ok[OF SOnClose.prems(1)]) (simp_all add: tk_done_def on_close_ok s)
  moreover have k: "keeps S ?S" by (simp add: keeps_def s)
  ultimately have "service_ok S' \<and> keeps ?S S' \<and> fresh_task n key started' S'"
    using SOnClose.IH[of "f (fst ?r)" ?S started] SOnClose.prems fresh_keeps by (simp add: Let_def)
  then show ?case using service_keeps_trans[OF k] by blast
next
  case (SOnDone i c p)
  let ?S = "put_task i (on_done c) S"
  have s: "tk_pc (on_done c t) = tk_pc t" "tk_key (on_done c t) = tk_key t" "tk_admitted (on_done c t) = tk_admitted t"
    "tk_cancel_requested (on_done c t) = tk_cancel_requested t" for t by (simp_all add: on_done_def Let_def)
  have "service_ok ?S" by (rule put_task_ok[OF SOnDone.prems(1)]) (simp_all add: tk_done_def on_done_ok s)
  moreover have k: "keeps S ?S" by (rule keeps_put) (simp add: s)
  ultimately have "service_ok S' \<and> keeps ?S S' \<and> fresh_task n key started' S'"
    using SOnDone.IH[of ?S started] SOnDone.prems fresh_keeps by simp
  then show ?case using service_keeps_trans[OF k] by blast
next
  case (SCurrent f)
  then show ?case using SCurrent.IH[of "f (slot_current key S)" S started] by simp
next
  case (SRequire h f)
  then show ?case using SRequire.IH[of "f (slot_require key h S)" S started] by simp
qed (auto simp: service_keeps_refl)

section \<open>Admissions and shutdown\<close>

definition world_fine :: "service_world \<Rightarrow> bool" where
  "world_fine w \<longleftrightarrow> service_ok (sw_service w)
   \<and> (\<forall>a key i e intr failed. sw_admissions w a = AdDraining key i e intr failed \<longrightarrow>
        known w i \<and> tk_key (sw_task w i) = key \<and> \<not> tk_admitted (sw_task w i) \<and> tk_cancel_requested (sw_task w i))
   \<and> (tg_closed (sv_groups (sw_service w)) \<longleftrightarrow> sw_closing w \<noteq> Open)
   \<and> (\<forall>is failed. sw_closing w = ClJoining is failed \<longrightarrow> (\<forall>i. known w i \<longrightarrow> \<not> tk_done (sw_task w i) \<longrightarrow> i \<in> set is))
   \<and> (sw_closing w \<noteq> Open \<and> (\<forall>is failed. sw_closing w \<noteq> ClJoining is failed) \<longrightarrow> (\<forall>i. known w i \<longrightarrow> tk_done (sw_task w i)))"

text \<open>A later state: tasks keep their keys, finished tasks stay finished, and a task that was there and is not
  admitted stays so.\<close>

definition later :: "service \<Rightarrow> service \<Rightarrow> bool" where
  "later S S' \<longleftrightarrow> sv_next S \<le> sv_next S'
   \<and> (\<forall>i < sv_next S. tk_key (sv_heap S' i) = tk_key (sv_heap S i) \<and> (tk_done (sv_heap S i) \<longrightarrow> tk_done (sv_heap S' i))
        \<and> tk_admitted (sv_heap S' i) = tk_admitted (sv_heap S i) \<and> (tk_cancel_requested (sv_heap S i) \<longrightarrow> tk_cancel_requested (sv_heap S' i)))"

lemma keeps_later: "keeps S S' \<Longrightarrow> later S S'"
  by (auto simp: keeps_def later_def tk_done_def)

lemma later_refl: "later S S"
  by (simp add: later_def)

lemma later_trans: "later S S' \<Longrightarrow> later S' S'' \<Longrightarrow> later S S''"
  unfolding later_def by fastforce

lemma later_put:
  assumes "tk_key (f (sv_heap S i)) = tk_key (sv_heap S i)" "tk_done (sv_heap S i) \<Longrightarrow> tk_done (f (sv_heap S i))"
    "tk_admitted (f (sv_heap S i)) = tk_admitted (sv_heap S i)" "tk_cancel_requested (sv_heap S i) \<Longrightarrow> tk_cancel_requested (f (sv_heap S i))"
  shows "later S (put_task i f S)"
  using assms by (simp add: later_def)

lemma release_task_ok:
  assumes "service_ok S" "tk_done (sv_heap S i)"
  shows "service_ok (release_task key i S)" "later S (release_task key i S)" "sv_groups (release_task key i S) = sv_groups S"
    "sv_heap (release_task key i S) = sv_heap S" "sv_next (release_task key i S) = sv_next S"
proof -
  show "later S (release_task key i S)" "sv_groups (release_task key i S) = sv_groups S"
    "sv_heap (release_task key i S) = sv_heap S" "sv_next (release_task key i S) = sv_next S"
    by (simp_all add: release_task_def later_refl later_def)
  show "service_ok (release_task key i S)"
  proof (cases "map_of (sv_tasks S) key = Some i")
    case True
    show ?thesis
    proof (rule service_okI)
      fix j assume "j < sv_next (release_task key i S)" and j: "\<not> tk_done (sv_heap (release_task key i S) j)"
      then have "map_of (sv_tasks S) (tk_key (sv_heap S j)) = Some j" "j \<noteq> i"
        using service_okD(4)[OF assms(1), of j] assms(2) True by (auto simp: release_task_def)
      then show "map_of (sv_tasks (release_task key i S)) (tk_key (sv_heap (release_task key i S) j)) = Some j"
        using True by (auto simp: release_task_def map_of_delete')
    qed (use service_okD[OF assms(1)] True in \<open>auto simp: release_task_def map_of_delete' split: if_splits\<close>)
  qed (simp add: release_task_def assms(1))
qed

lemma admit_ok:
  assumes "service_ok S" "prog_ok (sv_next S) prog" "admit fails key prog S = (x, S')"
  shows "service_ok S'" "later S S'" "sv_groups S' = sv_groups S" "tg_closed (sv_groups S) \<Longrightarrow> S' = S"
    "\<And>k i e intr failed. x = AdDraining k i e intr failed \<Longrightarrow>
       i < sv_next S' \<and> tk_key (sv_heap S' i) = k \<and> \<not> tk_admitted (sv_heap S' i) \<and> tk_cancel_requested (sv_heap S' i)"
proof -
  show "tg_closed (sv_groups S) \<Longrightarrow> S' = S" using assms(3) by (simp add: admit_def)
  have "service_ok S' \<and> later S S' \<and> sv_groups S' = sv_groups S \<and> (\<forall>k i e intr failed. x = AdDraining k i e intr failed \<longrightarrow>
       i < sv_next S' \<and> tk_key (sv_heap S' i) = k \<and> \<not> tk_admitted (sv_heap S' i) \<and> tk_cancel_requested (sv_heap S' i))"
  proof (cases "tg_closed (sv_groups S)")
    case True
    then show ?thesis using assms by (auto simp: admit_def later_refl)
  next
    case False
    obtain out started S1 where r: "run_slot fails key prog None S = (out, started, S1)" by (metis prod_cases3)
    have "fresh_task (sv_next S) key None S" by (simp add: fresh_task_def)
    note o = run_slot_ok[OF assms(1,2) this r]
    have g: "sv_groups S1 = sv_groups S" using o by (simp add: keeps_def)
    consider (ok) y where "out = Inr y" "started = None" | (admitted) y i where "out = Inr y" "started = Some i"
      | (bad) e where "out = Inl e" "started = None" | (withdrawn) e i where "out = Inl e" "started = Some i"
      by (cases out; cases started) auto
    then show ?thesis
    proof cases
      case (admitted y i)
      let ?f = "\<lambda>t. t\<lparr>tk_admitted := True\<rparr>"
      have i: "sv_next S \<le> i" "tk_pc (sv_heap S1 i) = TCreated" "i < sv_next S1" using o admitted by (auto simp: fresh_task_def)
      have "task_ok (?f (sv_heap S1 i))" using service_okD(3)[of S1 i] o i by (auto simp: task_ok_def tk_done_def)
      then have "service_ok (put_task i ?f S1)" using o by (intro put_task_ok) (auto simp: tk_done_def)
      moreover have "later S (put_task i ?f S1)" using o i(1) unfolding keeps_def later_def by (auto simp: tk_done_def)
      ultimately show ?thesis using admitted assms(3) r False g by (auto simp: admit_def)
    next
      case (withdrawn e i)
      let ?f = "\<lambda>t. snd (task_cancel fails (sv_heap S1 i))"
      have "service_ok (put_task i ?f S1)" using o by (intro put_task_ok) (auto simp: tk_done_def cancel_ok)
      moreover have "later S (put_task i ?f S1)" using later_trans[OF keeps_later later_put[of ?f S1 i]] o by (simp add: tk_done_def)
      ultimately show ?thesis using withdrawn assms(3) r False g o by (auto simp: admit_def Let_def fresh_task_def)
    qed (use assms(3) r False g o keeps_later in \<open>auto simp: admit_def\<close>)
  qed
  then show "service_ok S'" "later S S'" "sv_groups S' = sv_groups S"
    "\<And>k i e intr failed. x = AdDraining k i e intr failed \<Longrightarrow>
       i < sv_next S' \<and> tk_key (sv_heap S' i) = k \<and> \<not> tk_admitted (sv_heap S' i) \<and> tk_cancel_requested (sv_heap S' i)"
    by blast+
qed

lemma cancel_all_ok:
  assumes "service_ok S" "cancel_all fails is S = (failed, S')"
  shows "service_ok S' \<and> later S S' \<and> sv_groups S' = sv_groups S \<and> sv_next S' = sv_next S \<and> (\<forall>i \<in> set is. tk_cancel_requested (sv_heap S' i))
    \<and> (\<forall>i. tk_cancel_requested (sv_heap S i) \<longrightarrow> tk_cancel_requested (sv_heap S' i))"
  using assms
proof (induction "is" arbitrary: S failed)
  case (Cons i "is")
  let ?S = "put_task i (\<lambda>t. snd (task_cancel fails (sv_heap S i))) S"
  obtain f' where r: "cancel_all fails is ?S = (f', S')" using Cons.prems(2) by (auto simp: Let_def split: prod.splits)
  have "service_ok ?S" by (rule put_task_ok[OF Cons.prems(1)]) (simp_all add: tk_done_def cancel_ok)
  note o = Cons.IH[OF this r]
  have "later S ?S" by (rule later_put) (simp_all add: tk_done_def)
  then show ?case using o later_trans by (simp split: if_splits)
qed (simp add: later_refl)

lemma world_later:
  assumes "world_fine w" "service_ok S'" "later (sw_service w) S'" "tg_closed (sv_groups S') = tg_closed (sv_groups (sw_service w))"
    and "sw_closing w \<noteq> Open \<Longrightarrow> sv_next S' = sv_next (sw_service w)"
  shows "world_fine (w\<lparr>sw_service := S'\<rparr>)"
proof -
  have l: "i < sv_next (sw_service w) \<Longrightarrow> i < sv_next S' \<and> tk_key (sv_heap S' i) = tk_key (sw_task w i) \<and> (tk_done (sw_task w i) \<longrightarrow> tk_done (sv_heap S' i))
     \<and> tk_admitted (sv_heap S' i) = tk_admitted (sw_task w i) \<and> (tk_cancel_requested (sw_task w i) \<longrightarrow> tk_cancel_requested (sv_heap S' i))" for i
    using assms(3) by (simp add: later_def)
  show ?thesis
    unfolding world_fine_def
  proof (intro conjI allI impI)
    fix a key i e intr failed
    assume "sw_admissions (w\<lparr>sw_service := S'\<rparr>) a = AdDraining key i e intr failed"
    then have "known w i" "tk_key (sw_task w i) = key" "\<not> tk_admitted (sw_task w i)" "tk_cancel_requested (sw_task w i)"
      using assms(1) unfolding world_fine_def by simp_all blast+
    then show "known (w\<lparr>sw_service := S'\<rparr>) i" "tk_key (sw_task (w\<lparr>sw_service := S'\<rparr>) i) = key"
      "\<not> tk_admitted (sw_task (w\<lparr>sw_service := S'\<rparr>) i)" "tk_cancel_requested (sw_task (w\<lparr>sw_service := S'\<rparr>) i)"
      using l[of i] by simp_all
  next
    fix "is" failed i assume "sw_closing (w\<lparr>sw_service := S'\<rparr>) = ClJoining is failed" "known (w\<lparr>sw_service := S'\<rparr>) i" "\<not> tk_done (sw_task (w\<lparr>sw_service := S'\<rparr>) i)"
    then show "i \<in> set is" using assms(1,5) l[of i] unfolding world_fine_def by auto
  next
    fix i assume "sw_closing (w\<lparr>sw_service := S'\<rparr>) \<noteq> Open \<and> (\<forall>is failed. sw_closing (w\<lparr>sw_service := S'\<rparr>) \<noteq> ClJoining is failed)"
      "known (w\<lparr>sw_service := S'\<rparr>) i"
    then show "tk_done (sw_task (w\<lparr>sw_service := S'\<rparr>) i)" using assms(1,5) l[of i] unfolding world_fine_def by auto
  qed (use assms(1,2,4) in \<open>simp_all add: world_fine_def\<close>)
qed

lemma world_task:
  assumes "world_fine w" "tk_key (f (sw_task w i)) = tk_key (sw_task w i)" "tk_done (sw_task w i) \<Longrightarrow> tk_done (f (sw_task w i))"
    "tk_admitted (f (sw_task w i)) = tk_admitted (sw_task w i)" "tk_cancel_requested (sw_task w i) \<Longrightarrow> tk_cancel_requested (f (sw_task w i))"
    "task_ok (sw_task w i) \<Longrightarrow> task_ok (f (sw_task w i))"
  shows "world_fine (on_task i f w) \<and> later (sw_service w) (sw_service (on_task i f w))"
proof -
  have "later (sw_service w) (put_task i f (sw_service w))" using assms by (intro later_put) auto
  moreover have "service_ok (put_task i f (sw_service w))" using assms by (intro put_task_ok) (auto simp: world_fine_def)
  ultimately show ?thesis using world_later[OF assms(1)] by (simp add: on_task_def)
qed

lemma world_admission:
  assumes "world_fine w" "\<And>k i e intr failed. x = AdDraining k i e intr failed \<Longrightarrow> known w i \<and> tk_key (sw_task w i) = k \<and> \<not> tk_admitted (sw_task w i) \<and> tk_cancel_requested (sw_task w i)"
  shows "world_fine (w\<lparr>sw_admissions := (sw_admissions w)(a := x)\<rparr>)"
proof -
  have "known w i \<and> tk_key (sw_task w i) = k \<and> \<not> tk_admitted (sw_task w i) \<and> tk_cancel_requested (sw_task w i)"
    if "((sw_admissions w)(a := x)) b = AdDraining k i e intr failed" for b k i e intr failed
    using assms(2)[of k i e intr failed] assms(1) that unfolding world_fine_def by (cases "b = a") (simp, simp, blast)
  then show ?thesis using assms(1) unfolding world_fine_def by (simp del: fun_upd_apply)
qed

lemma admitted_later:
  assumes "world_fine w" "service_ok S'" "later (sw_service w) S'" "sv_groups S' = sv_groups (sw_service w)"
    and "sw_closing w \<noteq> Open \<Longrightarrow> sv_next S' = sv_next (sw_service w)"
    and "\<And>k i e intr failed. x = AdDraining k i e intr failed \<Longrightarrow> i < sv_next S' \<and> tk_key (sv_heap S' i) = k \<and> \<not> tk_admitted (sv_heap S' i) \<and> tk_cancel_requested (sv_heap S' i)"
  shows "world_fine (admitted a (x, S') w)"
proof -
  have "world_fine (w\<lparr>sw_service := S'\<rparr>)" using world_later[OF assms(1-3)] assms(4,5) by simp
  then have "world_fine (w\<lparr>sw_service := S', sw_admissions := (sw_admissions (w\<lparr>sw_service := S'\<rparr>))(a := x)\<rparr>)"
    using world_admission[of "w\<lparr>sw_service := S'\<rparr>" x a] assms(6) by simp
  then show ?thesis by (simp add: admitted_def)
qed

lemma drained_later:
  assumes "world_fine w" "sw_admissions w a = AdDraining key i e intr failed" "tk_done (sw_task w i)"
  shows "world_fine (admitted a (drained k i e' b c (sw_service w)) w) \<and> later (sw_service w) (sw_service (admitted a (drained k i e' b c (sw_service w)) w))"
proof -
  have "service_ok (sw_service w)" using assms(1) by (simp add: world_fine_def)
  note r = release_task_ok[OF this assms(3), of k]
  show ?thesis using admitted_later[OF assms(1) r(1,2,3), of "AdEnded y" a for y] r(2,5) by (simp add: drained_def admitted_def)
qed

lemma service_step_fine:
  assumes "service_step fails w w'" "world_fine w"
  shows "world_fine w' \<and> later (sw_service w) (sw_service w')"
proof -
  have ok: "service_ok (sw_service w)" using assms(2) by (simp add: world_fine_def)
  have task: "known w i \<Longrightarrow> task_ok (sw_task w i)" for i using service_okD(3)[OF ok] .
  have running: "known w i \<Longrightarrow> tk_pc (sw_task w i) \<noteq> TCreated \<Longrightarrow> tk_running (sw_task w i)" for i using task[of i] by (simp add: task_ok_def)
  show ?thesis
    using assms(1)
  proof cases
    case (admits a prog key)
    obtain x S' where r: "admit fails key prog (sw_service w) = (x, S')" by force
    note o = admit_ok[OF ok admits(3) r]
    have "sw_closing w \<noteq> Open \<Longrightarrow> sv_next S' = sv_next (sw_service w)" using o(4) assms(2) by (simp add: world_fine_def)
    then show ?thesis using admitted_later[OF assms(2) o(1-3) _ o(5)] o(2) admits(1) r by (simp add: admitted_def)
  next
    case (drains a key i e intr failed)
    then show ?thesis using drained_later[OF assms(2) drains(2,3)] by (simp add: drain_joined_def)
  next
    case (drain_cancelled a key i e intr failed)
    show ?thesis
    proof (cases "tk_done (sw_task w i)")
      case True
      then show ?thesis using drained_later[OF assms(2) drain_cancelled(2) True] drain_cancelled(1) by (simp add: drain_interrupted_def)
    next
      case False
      have "world_fine (w\<lparr>sw_admissions := (sw_admissions w)(a := AdDraining key i e True failed)\<rparr>)"
        using world_admission[OF assms(2), of "AdDraining key i e True failed" a] assms(2) drain_cancelled(2) unfolding world_fine_def by auto
      then show ?thesis using drain_cancelled(1) False later_refl by (simp add: drain_interrupted_def admitted_def)
    qed
  next
    case (begins i bound)
    have s: "tk_key (task_begin fails bound t) = tk_key t" "tk_admitted (task_begin fails bound t) = tk_admitted t"
      "tk_cancel_requested (task_begin fails bound t) = tk_cancel_requested t" for t by (simp_all add: task_begin_def Let_def)
    show ?thesis unfolding begins(1) using begins(3) begin_ok[OF task[OF begins(2)] begins(3)]
      by (intro world_task[OF assms(2)]) (simp_all add: s tk_done_def)
  next
    case (resumes i bound)
    have s: "tk_key (task_resume fails bound t) = tk_key t" "tk_admitted (task_resume fails bound t) = tk_admitted t"
      "tk_cancel_requested (task_resume fails bound t) = tk_cancel_requested t" for t by (simp_all add: task_resume_def)
    show ?thesis unfolding resumes(1) using resumes(3) resume_ok[OF task[OF resumes(2)] resumes(3,4)]
      by (intro world_task[OF assms(2)]) (simp_all add: s tk_done_def)
  next
    case (releases_lease i e r)
    have "task_ok (lease_released fails e r (sw_task w i))"
      unfolding lease_released_def using task[OF releases_lease(2)] running[OF releases_lease(2)] releases_lease(3)
      by (intro finally_ok) (simp_all add: tk_done_def)
    then show ?thesis unfolding releases_lease(1) using releases_lease(3)
      by (intro world_task[OF assms(2)]) (simp_all add: lease_released_def tk_done_def)
  next
    case (operates i out)
    have "task_ok (task_finally fails out (sw_task w i))"
      using task[OF operates(2)] running[OF operates(2)] operates(3) by (intro finally_ok) (simp_all add: tk_done_def)
    then show ?thesis unfolding operates(1) using operates(3) by (intro world_task[OF assms(2)]) (simp_all add: tk_done_def)
  next
    case (closes_scope i out r)
    then show ?thesis unfolding closes_scope(1) using scope_closed_ok[OF task[OF closes_scope(2)] closes_scope(3)]
      by (intro world_task[OF assms(2)]) (simp_all add: scope_closed_def tk_done_def)
  next
    case (calls_back i)
    then show ?thesis unfolding calls_back(1) using callbacks_ok[OF task[OF calls_back(2)] calls_back(3)]
      by (intro world_task[OF assms(2)]) (simp_all add: run_done_callbacks_def tk_done_def)
  next
    case (forgets i)
    note r = release_task_ok[OF ok forgets(3), of "tk_key (sw_task w i)"]
    show ?thesis unfolding forgets(1) using world_later[OF assms(2) r(1,2)] r by simp
  next
    case (cancels i)
    show ?thesis unfolding cancels(1) by (intro world_task[OF assms(2)]) (simp_all add: tk_done_def cancel_ok)
  next
    case (adds_cleanup i c)
    show ?thesis unfolding adds_cleanup(1) by (intro world_task[OF assms(2)]) (use on_close_ok in \<open>auto simp: on_close_def tk_done_def\<close>)
  next
    case (adds_callback i c)
    show ?thesis unfolding adds_callback(1) by (intro world_task[OF assms(2)]) (use on_done_ok in \<open>auto simp: on_done_def tk_done_def Let_def\<close>)
  next
    case (shuts c S)
    let ?S = "(sw_service w)\<lparr>sv_groups := close_groups (sv_groups (sw_service w))\<rparr>" and ?is = "map snd (sv_tasks (sw_service w))"
    obtain failed where r: "cancel_all fails ?is ?S = (failed, S)" and c: "c = ClJoining ?is failed"
      using shuts(3) by (auto simp: close_begin_def Let_def split: prod.splits)
    have "service_ok ?S" using ok by (simp add: service_ok_def)
    note o = cancel_all_ok[OF this r]
    have l: "later (sw_service w) S" using o by (auto simp: later_def)
    have "i \<in> set ?is" if "i < sv_next S" "\<not> tk_done (sv_heap S i)" for i
    proof -
      have "known w i" "\<not> tk_done (sw_task w i)" using that o l by (auto simp: later_def)
      then have "map_of (sv_tasks (sw_service w)) (tk_key (sw_task w i)) = Some i" using service_okD(4)[OF ok] by blast
      then show ?thesis by (force dest: map_of_SomeD)
    qed
    moreover have "known w i \<Longrightarrow> i < sv_next S \<and> tk_key (sv_heap S i) = tk_key (sw_task w i) \<and> tk_admitted (sv_heap S i) = tk_admitted (sw_task w i)
      \<and> (tk_cancel_requested (sw_task w i) \<longrightarrow> tk_cancel_requested (sv_heap S i))" for i using l by (simp add: later_def)
    ultimately have "world_fine w'" using assms(2) o shuts(1) c unfolding world_fine_def by simp blast
    then show ?thesis using l shuts(1) by simp
  next
    case (shut_joined "is" failed c S)
    obtain b where c: "c = ClGroups b" "S = (sw_service w)\<lparr>sv_tasks := []\<rparr>" using shut_joined(4) by (auto simp: close_joined_def)
    have d: "known w i \<Longrightarrow> tk_done (sw_task w i)" for i using assms(2) shut_joined(2,3) unfolding world_fine_def by blast
    have "service_ok S" using ok d c(2) by (simp add: service_ok_def)
    then have "world_fine w'" using assms(2) d c shut_joined(1,2) unfolding world_fine_def by simp
    then show ?thesis using c shut_joined(1) by (simp add: later_def)
  next
    case (shut_drained failed)
    then show ?thesis using assms(2) later_refl by (auto simp: world_fine_def close_drained_def)
  next
    case (uses_groups T)
    have "service_ok ((sw_service w)\<lparr>sv_groups := T\<rparr>)" using ok by (simp add: service_ok_def)
    moreover have "later (sw_service w) ((sw_service w)\<lparr>sv_groups := T\<rparr>)" by (simp add: later_def)
    ultimately show ?thesis unfolding uses_groups(1) using world_later[OF assms(2)] uses_groups(2) by simp
  qed
qed

section \<open>Properties\<close>

lemma service_steps_fine:
  assumes "(service_step fails)\<^sup>*\<^sup>* w w'" "world_fine w"
  shows "world_fine w' \<and> later (sw_service w) (sw_service w')"
  using assms
proof (induction rule: rtranclp_induct)
  case (step u v)
  then show ?case using service_step_fine[of fails u v] later_trans[of "sw_service w" "sw_service u" "sw_service v"] by blast
qed (simp add: later_refl)

lemma start_fine: "world_fine sw_start"
  by (simp add: world_fine_def sw_start_def no_tasks_def service_ok_def no_groups_def)

lemmas reached_fine = service_steps_fine[OF _ start_fine, THEN conjunct1]

text \<open>One task per key: in every reachable state two tasks of one key that are not done are the same task,
  and a slot of that key shows exactly this task.\<close>

theorem one_task_per_key:
  assumes "(service_step fails)\<^sup>*\<^sup>* sw_start w"
  shows "(known w i \<and> known w j \<and> tk_key (sw_task w i) = tk_key (sw_task w j) \<and> \<not> tk_done (sw_task w i) \<and> \<not> tk_done (sw_task w j) \<longrightarrow> i = j)
    \<and> (slot_current key (sw_service w) = Some i \<longleftrightarrow> known w i \<and> tk_key (sw_task w i) = key \<and> \<not> tk_done (sw_task w i))"
proof -
  have ok: "service_ok (sw_service w)" using reached_fine[OF assms] by (simp add: world_fine_def)
  have "map_of (sv_tasks (sw_service w)) (tk_key (sw_task w i)) = Some i" if "known w i" "\<not> tk_done (sw_task w i)" for i
    using service_okD(4)[OF ok] that by blast
  then have "i = j" if "known w i \<and> known w j \<and> tk_key (sw_task w i) = tk_key (sw_task w j) \<and> \<not> tk_done (sw_task w i) \<and> \<not> tk_done (sw_task w j)"
    using that by (metis option.inject)
  then show ?thesis using slot_current_iff[OF ok] by blast
qed

text \<open>A cleanup runs exactly once: in every reachable state a task that still holds its rights has run none of the cleanups it
  accepted; one that was cancelled or has finished has run all of them, last first. Every callback promised to
  run at the end is waiting or has run, and none runs before the task is done.\<close>

theorem cleanup_once:
  assumes "(service_step fails)\<^sup>*\<^sup>* sw_start w" and "known w i"
  shows "tk_ran (sw_task w i) = (if tk_active (sw_task w i) then [] else rev (tk_accepted (sw_task w i)))
    \<and> (tk_cancel_requested (sw_task w i) \<or> tk_done (sw_task w i) \<longrightarrow> \<not> tk_active (sw_task w i))
    \<and> mset (tk_promised (sw_task w i)) = mset (tk_called (sw_task w i)) + mset (tk_callbacks (sw_task w i))
    \<and> (tk_called (sw_task w i) \<noteq> [] \<longrightarrow> tk_done (sw_task w i))"
proof -
  have "service_ok (sw_service w)" using reached_fine[OF assms(1)] by (simp add: world_fine_def)
  then have ok: "task_ok (sw_task w i)" using service_okD(3) assms(2) by blast
  have "\<not> tk_active (sw_task w i)" if "tk_done (sw_task w i)"
    using ok that by (auto simp: task_ok_def tk_done_iff split: if_splits)
  then show ?thesis using ok unfolding task_ok_def by (simp split: if_splits)
qed

lemma begins_operating:
  assumes "tk_pc (task_begin fails bound t) = TOperating" "task_ok t" "tk_pc t = TCreated"
  shows "tk_admitted t \<and> tk_active (task_begin fails bound t) \<and> \<not> tk_cancel_requested (task_begin fails bound t)"
  using assms by (auto simp: task_begin_def Let_def task_enter_def task_ok_def split: if_splits bool.splits sum.splits)

lemma resumes_operating:
  assumes "tk_pc (task_resume fails bound t) = TOperating" "task_ok t" "tk_pc t = TAdmission" "tk_admitted t \<or> tk_interrupt t"
  shows "tk_admitted t \<and> tk_active (task_resume fails bound t) \<and> \<not> tk_cancel_requested (task_resume fails bound t)"
  using assms by (auto simp: task_resume_def task_enter_def task_ok_def split: if_splits bool.splits sum.splits)

lemma run_slot_pc:
  assumes "service_ok S" "prog_ok (sv_next S) prog" "admit fails key prog S = (x, S')" "i < sv_next S"
  shows "tk_pc (sv_heap S' i) = tk_pc (sv_heap S i)"
proof -
  obtain out started S1 where r: "run_slot fails key prog None S = (out, started, S1)" by (metis prod_cases3)
  have "fresh_task (sv_next S) key None S" by (simp add: fresh_task_def)
  then have "keeps S S1" using run_slot_ok[OF assms(1,2) _ r] by blast
  then have "tk_pc (sv_heap S1 i) = tk_pc (sv_heap S i)" using assms(4) by (simp add: keeps_def)
  then show ?thesis using assms(3) r by (auto simp: admit_def Let_def split: if_splits sum.splits option.splits)
qed

lemma cancel_all_pc: "cancel_all fails is S = (failed, S') \<Longrightarrow> tk_pc (sv_heap S' i) = tk_pc (sv_heap S i)"
  by (induction "is" arbitrary: S failed) (auto simp: Let_def split: prod.splits if_splits)

text \<open>An operation starts only under its admission: when a task begins its operation, its admission has succeeded, and
  it has neither been cancelled nor lost its rights.\<close>

theorem operation_under_admission:
  assumes "(service_step fails)\<^sup>*\<^sup>* sw_start w" and "service_step fails w w'"
    and "known w i" "tk_pc (sw_task w i) \<noteq> TOperating" "tk_pc (sw_task w' i) = TOperating"
  shows "tk_admitted (sw_task w i) \<and> tk_active (sw_task w' i) \<and> \<not> tk_cancel_requested (sw_task w' i)"
proof -
  have w: "world_fine w" and ok: "service_ok (sw_service w)" using reached_fine[OF assms(1)] by (simp_all add: world_fine_def)
  have t: "task_ok (sw_task w i)" using service_okD(3)[OF ok assms(3)] .
  show ?thesis
    using assms(2)
  proof cases
    case (begins j bound)
    then have "j = i" using assms(4,5) by (auto simp: on_task_def split: if_splits)
    then show ?thesis using begins_operating[of fails bound "sw_task w i"] begins(1,3) t assms(5) by (simp add: on_task_def)
  next
    case (resumes j bound)
    then have "j = i" using assms(4,5) by (auto simp: on_task_def split: if_splits)
    then show ?thesis using resumes_operating[of fails bound "sw_task w i"] resumes(1,3,4) t assms(5) by (simp add: on_task_def)
  next
    case (admits a prog key)
    then show ?thesis using run_slot_pc[OF ok admits(3) prod.collapse[symmetric] assms(3)] assms(4,5) by (simp add: admitted_def)
  next
    case (shuts c S)
    then show ?thesis using assms(4,5) cancel_all_pc by (fastforce simp: close_begin_def Let_def split: prod.splits)
  qed (use assms(4,5) in \<open>auto simp: on_task_def admitted_def drain_joined_def drain_interrupted_def drained_def release_task_def
      lease_released_def scope_closed_def run_done_callbacks_def on_close_def on_done_def Let_def close_joined_def split: if_splits\<close>)
qed

text \<open>A cancelled task whose operation is not running needs at most two more segments of its own.\<close>

theorem cancelled_ends:
  assumes "(service_step fails)\<^sup>*\<^sup>* sw_start w" and "known w i" "tk_cancel_requested (sw_task w i)" "tk_pc (sw_task w i) \<noteq> TOperating"
  shows "\<exists>w' k. k \<le> 2 \<and> (service_step fails ^^ k) w w' \<and> tk_done (sw_task w' i)"
proof -
  have t: "task_ok (sw_task w i)" using service_okD(3)[of "sw_service w"] reached_fine[OF assms(1)] assms(2) by (simp add: world_fine_def)
  have closing: "\<exists>v'. service_step fails v v' \<and> tk_done (sw_task v' i)" if "known v i" "tk_pc (sw_task v i) = TClosing out" for v out
    using closes_scope[OF that, of fails "Inr ()"] by (intro exI conjI) (auto simp: on_task_def scope_closed_def tk_done_def)
  have fin: ?thesis if s: "service_step fails w (on_task i f w)" and f: "f (sw_task w i) = task_finally fails out (t'::task)" for f out t'
  proof (cases "tk_done (sw_task (on_task i f w) i)")
    case True
    then show ?thesis using s by (intro exI[of _ "on_task i f w"] exI[of _ 1]) (auto simp: eq_OO)
  next
    case False
    then obtain o' where "tk_pc (sw_task (on_task i f w) i) = TClosing o'"
      using f by (auto simp: on_task_def task_finally_def tk_done_def Let_def split: prod.splits if_splits)
    then obtain v where v: "service_step fails (on_task i f w) v" "tk_done (sw_task v i)" using closing[of "on_task i f w"] assms(2) by (auto simp: on_task_def)
    have "(service_step fails ^^ 2) w v" using s v(1) by (auto simp: numeral_2_eq_2)
    then show ?thesis using v(2) by (intro exI[of _ v] exI[of _ 2]) simp
  qed
  show ?thesis
  proof (cases "tk_pc (sw_task w i)")
    case TCreated
    show ?thesis
      by (rule fin[OF begins[OF assms(2) TCreated, of fails "Inr ()"], of "Inl CancelledError" "(sw_task w i)\<lparr>tk_running := True\<rparr>"])
        (simp add: task_begin_def Let_def assms(3))
  next
    case TAdmission
    have "tk_interrupt (sw_task w i)" using t TAdmission assms(3) by (simp add: task_ok_def)
    then show ?thesis
      by (intro fin[OF resumes[OF assms(2) TAdmission, of fails "Inr ()"], of "Inl CancelledError" "sw_task w i"]) (simp_all add: task_resume_def)
  next
    case (TReleasing e)
    show ?thesis by (rule fin[OF releases_lease[OF assms(2) TReleasing, of fails "Inr ()"], of "Inl e" "sw_task w i"]) (simp add: lease_released_def)
  next
    case TOperating
    then show ?thesis using assms(4) by simp
  next
    case (TClosing out)
    then obtain v where v: "service_step fails w v" "tk_done (sw_task v i)" using closing[OF assms(2)] by blast
    have "(service_step fails ^^ 1) w v" using v(1) by (simp add: eq_OO)
    then show ?thesis using v(2) by (intro exI[of _ v] exI[of _ "1::nat"]) simp
  next
    case (TDone out)
    then show ?thesis by (intro exI[of _ w] exI[of _ "0::nat"]) (simp add: tk_done_def)
  qed
qed

text \<open>Shutdown waits: once the joins of \<open>close\<close> have ended, no task is left that is not done.\<close>

theorem shutdown_waits:
  assumes "(service_step fails)\<^sup>*\<^sup>* sw_start w" and "sw_closing w = ClGroups b \<or> sw_closing w = ClEnded r" and "known w i"
  shows "tk_done (sw_task w i) \<and> fst (admit fails key prog (sw_service w)) = AdEnded (Inl RuntimeError)"
  using reached_fine[OF assms(1)] assms(2,3) unfolding world_fine_def admit_def by auto

lemma never_operating:
  assumes "world_fine w" "known w i" "\<not> tk_admitted (sw_task w i)"
  shows "tk_pc (sw_task w i) \<noteq> TOperating"
  using assms service_okD(3)[of "sw_service w" i] by (auto simp: world_fine_def task_ok_def)

lemma drain_ends:
  assumes "service_step fails w w'" "world_fine w" "sw_admissions w a = AdDraining key i e intr failed"
  shows "(\<exists>intr'. sw_admissions w' a = AdDraining key i e intr' failed)
    \<or> (\<exists>x. sw_admissions w' a = AdEnded (Inl x) \<and> tk_done (sw_task w' i) \<and> slot_current key (sw_service w') \<noteq> Some i)"
  using assms(1)
proof cases
  case (drains b key' j e' intr' failed')
  then show ?thesis using assms(3) by (auto simp: admitted_def drain_joined_def drained_def release_task_def slot_current_def split: option.splits if_splits)
next
  case (drain_cancelled b key' j e' intr' failed')
  then show ?thesis using assms(3)
    by (auto simp: admitted_def drain_interrupted_def drained_def release_task_def slot_current_def split: option.splits if_splits)
next
  case (admits b prog key')
  then show ?thesis using assms(3) by (auto simp: admitted_def)
qed (use assms(3) in \<open>auto simp: on_task_def\<close>)

text \<open>C33. A rejected admission leaves nothing behind: while the task it started is taken back, and ever after, the operation
  of that task never runs; and once the call has raised, the task is done and the key is free again.\<close>

theorem rejected_never_runs:
  assumes "(service_step fails)\<^sup>*\<^sup>* sw_start w" and "sw_admissions w a = AdDraining key i e intr failed" and "(service_step fails)\<^sup>*\<^sup>* w w'"
  shows "tk_pc (sw_task w' i) \<noteq> TOperating
    \<and> ((\<exists>intr'. sw_admissions w' a = AdDraining key i e intr' failed) \<or> (\<exists>x. sw_admissions w' a = AdEnded (Inl x) \<and> tk_done (sw_task w' i)))"
proof -
  have w: "world_fine w" using reached_fine[OF assms(1)] .
  have w': "world_fine w'" "later (sw_service w) (sw_service w')" using service_steps_fine[OF assms(3) w] by simp_all
  have i: "known w i" "\<not> tk_admitted (sw_task w i)" using w assms(2) unfolding world_fine_def by blast+
  then have "known w' i" "\<not> tk_admitted (sw_task w' i)" using w'(2) by (simp_all add: later_def)
  then have "tk_pc (sw_task w' i) \<noteq> TOperating" using never_operating[OF w'(1)] by blast
  moreover have "(\<exists>intr'. sw_admissions w' a = AdDraining key i e intr' failed) \<or> (\<exists>x. sw_admissions w' a = AdEnded (Inl x) \<and> tk_done (sw_task w' i))"
    using assms(3)
  proof (induction rule: rtranclp_induct)
    case base
    then show ?case using assms(2) by blast
  next
    case (step u v)
    have u: "world_fine u" "later (sw_service w) (sw_service u)" using service_steps_fine[OF step(1) w] by simp_all
    have d: "tk_done (sw_task u i) \<Longrightarrow> tk_done (sw_task v i)"
      using service_step_fine[OF step(2) u(1)] u(2) i(1) unfolding later_def by (meson order_less_le_trans)
    have "sw_admissions v a = AdEnded (Inl x)" if "sw_admissions u a = AdEnded (Inl x)" for x
      using step(2) that by cases (auto simp: admitted_def on_task_def)
    then show ?case using step(3) d drain_ends[OF step(2) u(1)] by metis
  qed
  ultimately show ?thesis by blast
qed

section \<open>Sample runs\<close>

definition harmless :: "nat \<Rightarrow> bool" where
  "harmless c = False"

text \<open>One admission that starts a task, which accepts two cleanups and is cancelled; and one that starts a task and raises.\<close>

definition one_task :: service_world where
  "one_task = admitted 0 (admit harmless ''k'' (SStart False (\<lambda>r. SReturn ())) no_tasks) sw_start"

definition two_cleanups :: service_world where
  "two_cleanups = on_task 0 (\<lambda>t. snd (on_close 8 t)) (on_task 0 (\<lambda>t. snd (on_close 7 t)) one_task)"

definition taken_back :: service_world where
  "taken_back = admitted 0 (admit harmless ''k'' (SStart False (\<lambda>r. SRaise ValueError)) no_tasks) sw_start"

lemmas run_defs = admitted_def admit_def sw_start_def no_tasks_def no_groups_def slot_start_def slot_current_def put_task_def on_task_def
  new_task_def on_close_def task_cancel_def task_close_def tk_done_def harmless_def Let_def

lemma one_task_reached: "(service_step harmless)\<^sup>*\<^sup>* sw_start one_task"
proof -
  have "service_step harmless sw_start one_task"
    using service_step.admits[of sw_start 0 "SStart False (\<lambda>r. SReturn ())" harmless "''k''"] by (simp add: one_task_def sw_start_def split: sum.split)
  then show ?thesis by (rule r_into_rtranclp)
qed

lemma taken_back_reached: "(service_step harmless)\<^sup>*\<^sup>* sw_start taken_back"
proof -
  have "service_step harmless sw_start taken_back"
    using service_step.admits[of sw_start 0 "SStart False (\<lambda>r. SRaise ValueError)" harmless "''k''"] by (simp add: taken_back_def sw_start_def split: sum.split)
  then show ?thesis by (rule r_into_rtranclp)
qed

lemma one_task_state: "known one_task 0" "tk_key (sw_task one_task 0) = ''k''" "\<not> tk_done (sw_task one_task 0)" "tk_pc (sw_task one_task 0) = TCreated"
  "tk_admitted (sw_task one_task 0)" "\<not> tk_cancel_requested (sw_task one_task 0)" "\<not> tk_scope (sw_task one_task 0)"
  by (simp_all add: one_task_def run_defs)

lemma taken_back_state: "sw_admissions taken_back 0 = AdDraining ''k'' 0 ValueError False False" "known taken_back 0" "tk_pc (sw_task taken_back 0) = TCreated"
  by (simp_all add: taken_back_def run_defs)

lemma one_task_per_key_witness: "slot_current ''k'' (sw_service one_task) = Some 0"
  using one_task_per_key[OF one_task_reached, of 0 0 "''k''"] one_task_state by blast

lemma operation_under_admission_witness:
  "\<exists>w. service_step harmless one_task w \<and> tk_pc (sw_task w 0) = TOperating \<and> tk_active (sw_task w 0)"
proof -
  let ?w = "on_task 0 (task_begin harmless (Inr ())) one_task"
  have s: "service_step harmless one_task ?w" using service_step.begins one_task_state by blast
  have pc: "tk_pc (sw_task ?w 0) = TOperating" using one_task_state by (simp add: on_task_def task_begin_def task_enter_def Let_def)
  show ?thesis using operation_under_admission[OF one_task_reached s one_task_state(1) _ pc] one_task_state(4) s pc by (intro exI[of _ ?w]) simp
qed

lemma cleanup_once_witness: "\<exists>w. tk_ran (sw_task w 0) = [8, 7] \<and> \<not> tk_active (sw_task w 0)"
proof -
  let ?w = "on_task 0 (\<lambda>t. snd (task_cancel harmless t)) two_cleanups"
  have "service_step harmless one_task (on_task 0 (\<lambda>t. snd (on_close 7 t)) one_task)" using service_step.adds_cleanup one_task_state by blast
  moreover have "service_step harmless (on_task 0 (\<lambda>t. snd (on_close 7 t)) one_task) two_cleanups"
    unfolding two_cleanups_def by (rule service_step.adds_cleanup) (simp add: on_task_def one_task_state)
  moreover have k: "known two_cleanups 0" by (simp add: two_cleanups_def on_task_def one_task_state)
  then have "service_step harmless two_cleanups ?w" by (rule service_step.cancels)
  ultimately have r: "(service_step harmless)\<^sup>*\<^sup>* sw_start ?w" using one_task_reached by (meson rtranclp.rtrancl_into_rtrancl)
  have "tk_accepted (sw_task ?w 0) = [7, 8]" "tk_cancel_requested (sw_task ?w 0)" by (simp_all add: two_cleanups_def one_task_def run_defs)
  moreover have "known ?w 0" using k by (simp add: on_task_def)
  ultimately show ?thesis using cleanup_once[OF r] by (intro exI[of _ ?w]) simp
qed

lemma rejected_never_runs_witness:
  "\<exists>w. (service_step harmless)\<^sup>*\<^sup>* taken_back w \<and> tk_done (sw_task w 0) \<and> sw_admissions w 0 = AdEnded (Inl ValueError)"
proof -
  let ?v = "on_task 0 (task_begin harmless (Inr ())) taken_back"
  let ?w = "admitted 0 (drain_joined ''k'' 0 ValueError False False (sw_service ?v)) ?v"
  have s1: "service_step harmless taken_back ?v" using service_step.begins taken_back_state by blast
  have d: "tk_done (sw_task ?v 0)"
    by (simp add: taken_back_def run_defs task_begin_def task_finally_def)
  have s2: "service_step harmless ?v ?w"
    by (rule service_step.drains) (use d in \<open>simp_all add: on_task_def taken_back_state\<close>)
  have r: "(service_step harmless)\<^sup>*\<^sup>* taken_back ?w" using s1 s2 by (meson rtranclp.rtrancl_into_rtrancl rtranclp.rtrancl_refl)
  have e: "sw_admissions ?w 0 = AdEnded (Inl ValueError)"
    by (simp add: admitted_def drain_joined_def drained_def) (simp add: taken_back_def run_defs task_begin_def task_finally_def)
  show ?thesis using rejected_never_runs[OF taken_back_reached taken_back_state(1) r] r e by (intro exI[of _ ?w]) simp
qed

end
