(* ===== verification/Context_Builder.thy ===== *)
theory Context_Builder
  imports Turn_Projection Artifacts
begin

text \<open>
  \<open>plugins/context/api.py\<close> and the builder of \<open>plugins/context/plugin.py\<close>: which part of the history a model
  request shows, and the request itself.

  A summary stands for a range of messages that has no open tool call at either end
  (\<open>settled_prefixes\<close>). The model's projection of messages to rows, its estimate and its limits are parameters;
  the request fields the builder does not touch are of type \<open>'r\<close>.
\<close>

section \<open>Settled prefixes\<close>

text \<open>The dict \<open>pending\<close>: open calls with the message that made them.\<close>

definition settle_step :: "message \<Rightarrow> (call_ref \<times> message) list \<Rightarrow> (call_ref \<times> message) list" where
  "settle_step m pending = (case m_body m of
     Output ps f \<Rightarrow> fold (\<lambda>r. AList.update r m) (calls_in (m_id m) ps) pending
   | ToolResult l r oc ps \<Rightarrow> AList.delete r pending
   | Control a through reason \<Rightarrow>
       (if a = Abandon then filter (\<lambda>(ref, call). m_source call \<noteq> m_source m \<or> through < m_seq call) pending else pending)
   | Input ps \<Rightarrow> pending)"

fun settled_from :: "nat \<Rightarrow> (call_ref \<times> message) list \<Rightarrow> message list \<Rightarrow> nat list" where
  "settled_from i pending [] = []"
| "settled_from i pending (m # ms) =
     (let p = settle_step m pending in (if p = [] then [i + 1] else []) @ settled_from (i + 1) p ms)"

definition settled_prefixes :: "message list \<Rightarrow> nat list" where
  "settled_prefixes ms = settled_from 0 [] ms"

section \<open>Summaries and materials\<close>

text \<open>A binding reference in a \<open>context.summary\<close> part.\<close>

definition check_summary :: "json \<Rightarrow> string list res" where
  "check_summary value = (case value of
     JObj d \<Rightarrow>
       (case map_of d ''reference'' of
          Some (JStr r) \<Rightarrow> (if set (keys d) = {''reference''} \<and> r \<noteq> [] then Inr [r] else Inl ValueError)
        | _ \<Rightarrow> Inl ValueError)
   | _ \<Rightarrow> Inl ValueError)"

definition index_of :: "'a \<Rightarrow> 'a list \<Rightarrow> nat" where
  "index_of x xs = length (takeWhile (\<lambda>y. y \<noteq> x) xs)"

text \<open>Start and end of the range a summary covers.\<close>

definition summary_range :: "message list \<Rightarrow> string list \<Rightarrow> (nat \<times> nat) res" where
  "summary_range ms ids =
     (let identities = map m_id ms in
      if ids = [] \<or> hd ids \<notin> set identities then Inl ValueError
      else let start = index_of (hd ids) identities in
        if take (length ids) (drop start identities) \<noteq> ids then Inl ValueError
        else Inr (start, start + length ids))"

record summary =
  su_reference :: string
  su_ids :: "string list"
  su_content :: string

definition mk_Summary :: "string \<Rightarrow> string list \<Rightarrow> string \<Rightarrow> summary res" where
  "mk_Summary reference ids content =
     (if reference = [] then Inl ValueError
      else if ids = [] \<or> [] \<in> set ids then Inl ValueError
      else if \<not> distinct ids then Inl ValueError
      else if content = [] then Inl ValueError
      else Inr \<lparr>su_reference = reference, su_ids = ids, su_content = content\<rparr>)"

lemma white_space_nonempty: "w \<in> set white_space \<Longrightarrow> w \<noteq> []"
  by (auto simp: white_space_def)

function skip_space :: "nat list \<Rightarrow> nat list" where
  "skip_space ns = (case List.find (\<lambda>w. take (length w) ns = w) white_space of
     None \<Rightarrow> ns
   | Some w \<Rightarrow> skip_space (drop (length w) ns))"
  by pat_completeness auto

termination
proof (relation "measure length")
  fix ns :: "nat list" and w
  assume "List.find (\<lambda>w. take (length w) ns = w) white_space = Some w"
  then have "w \<in> set white_space" "take (length w) ns = w" by (auto simp: find_Some_iff)
  then have "w \<noteq> []" "length w \<le> length ns" using white_space_nonempty by (blast, metis length_take min.cobounded1)
  then show "(drop (length w) ns, ns) \<in> measure length" by (cases ns) auto
qed simp

declare skip_space.simps [simp del]

text \<open>\<open>not s.strip()\<close>.\<close>

definition blank :: "string \<Rightarrow> bool" where
  "blank s \<longleftrightarrow> skip_space (map code s) = []"

record reminder =
  re_name :: string
  re_text :: string
  re_priority :: int

definition mk_Reminder :: "pyval \<Rightarrow> pyval \<Rightarrow> pyval \<Rightarrow> reminder res" where
  "mk_Reminder nam txt priority = (case nam of
     VStr n \<Rightarrow>
       (if blank n then Inl ValueError
        else case txt of
          VStr t \<Rightarrow> (case priority of VInt p \<Rightarrow> Inr \<lparr>re_name = n, re_text = t, re_priority = p\<rparr> | _ \<Rightarrow> Inl TypeError)
        | _ \<Rightarrow> Inl TypeError)
   | _ \<Rightarrow> Inl ValueError)"

text \<open>The references of the materials are handed to the content view unread.\<close>

record 'c materials =
  mt_prompt :: string
  mt_reminders :: "reminder list"
  mt_summary :: "summary option"
  mt_references :: 'c

section \<open>The cut\<close>

definition strictly_ordered :: "int list \<Rightarrow> bool" where
  "strictly_ordered ns = list_all (\<lambda>(a, b). a < b) (zip ns (tl ns))"

definition summary_cutoff :: "message list \<Rightarrow> summary option \<Rightarrow> int res" where
  "summary_cutoff ms s =
     (if ms \<noteq> [] \<and> list_ex (\<lambda>m. m_session m \<noteq> m_session (hd ms)) ms then Inl ValueError
      else if \<not> strictly_ordered (map m_seq ms) then Inl ValueError
      else if \<not> distinct (map m_id ms) then Inl ValueError
      else case s of
        None \<Rightarrow> Inr (- 1)
      | Some su \<Rightarrow>
          bindR (summary_range ms (su_ids su)) (\<lambda>(start, stop).
            let ends = settled_prefixes (take stop ms) in
            if stop \<notin> set ends \<or> (start \<noteq> 0 \<and> start \<notin> set ends) then Inl ValueError
            else Inr (m_seq (ms ! (stop - 1)))))"

text \<open>Where a first window may start.\<close>

definition window_cutoff :: "message list \<Rightarrow> string \<Rightarrow> int res" where
  "window_cutoff ms window =
     (let identities = map m_id ms in
      if window \<notin> set identities then Inl ValueError
      else let start = index_of window identities in
        if start \<noteq> 0 \<and> start \<notin> set (settled_prefixes (take start ms)) then Inl ValueError
        else Inr (if start = 0 then - 1 else m_seq (ms ! (start - 1))))"

section \<open>The request\<close>

record 'r model_request =
  mr_rows :: "json_object list"
  mr_tools :: "json_object list"
  mr_system :: string
  mr_max_output :: int
  mr_rest :: 'r

text \<open>\<open>ContextModel\<close>: its \<open>render\<close> takes the messages, the cut, the summary reference and \<open>fresh\<close>.\<close>

record 'r context_model =
  cm_window :: "int option"
  cm_max_tools :: "nat option"
  cm_render :: "message list \<Rightarrow> int \<Rightarrow> string option \<Rightarrow> bool \<Rightarrow> 'r model_request res"
  cm_estimate :: "'r model_request \<Rightarrow> int"

definition escape_char :: "char \<Rightarrow> string" where
  "escape_char c = (if c = CHR ''&'' then ''&amp;'' else if c = CHR ''<'' then ''&lt;'' else if c = CHR ''>'' then ''&gt;'' else [c])"

definition escape_html :: "string \<Rightarrow> string" where
  "escape_html s = concat (map escape_char s)"

definition newline :: char where
  "newline = CHR 0x0A"

definition joined :: "string \<Rightarrow> string list \<Rightarrow> string" where
  "joined sep parts = concat (case parts of [] \<Rightarrow> [] | p # ps \<Rightarrow> p # map (\<lambda>q. sep @ q) ps)"

definition reminder_note :: string where
  "reminder_note = map (char_of :: nat \<Rightarrow> char)
      [228, 187, 165, 228, 184, 139, 230, 152, 175, 230, 156, 172, 230, 172, 161, 232, 175, 183,
       230, 177, 130, 231, 154, 132, 228, 184, 138, 228, 184, 139, 230, 150, 135, 230, 157, 144,
       230, 150, 153, 239, 188, 140, 228, 184, 141, 230, 152, 175, 231, 148, 168, 230, 136, 183,
       231, 154, 132, 230, 150, 176, 230, 182, 136, 230, 129, 175, 239, 188, 155, 232, 181, 132,
       230, 150, 153, 228, 184, 173, 231, 154, 132, 230, 140, 135, 228, 187, 164, 228, 184, 141,
       232, 131, 189, 230, 148, 185, 229, 143, 152, 230, 157, 131, 233, 153, 144, 227, 128, 130]"

definition reminder_content :: "'c materials \<Rightarrow> string option" where
  "reminder_content mt =
     (let reminders = map (\<lambda>p. escape_html (re_text p)) (filter (\<lambda>p. \<not> blank (re_text p)) (mt_reminders mt)) in
      if reminders = [] then None
      else Some (''<system-reminder>'' @ [newline] @ reminder_note @ [newline, newline]
             @ joined [newline, newline] reminders @ [newline] @ ''</system-reminder>''))"

definition row :: "string \<Rightarrow> string \<Rightarrow> json_object" where
  "row role content = [(''role'', JStr role), (''content'', JStr content)]"

text \<open>Rendered history may not speak as the system.\<close>

definition check_role :: "json_object \<Rightarrow> unit res" where
  "check_role r = (case map_of r ''role'' of
     None \<Rightarrow> Inl KeyError
   | Some v \<Rightarrow>
       if \<not> hashable (frozen_value v) then Inl TypeError
       else if v \<notin> JStr ` {''user'', ''assistant'', ''tool''} then Inl ValueError
       else Inr ())"

definition request_rows :: "'c materials \<Rightarrow> json_object list \<Rightarrow> json_object list" where
  "request_rows mt rendered =
     (if mt_prompt mt = [] then [] else [row ''system'' (mt_prompt mt)])
     @ (case mt_summary mt of
          None \<Rightarrow> []
        | Some su \<Rightarrow> [row ''user'' (json_text (JObj [(''summary'', JStr (su_content su)), (''reference'', JStr (su_reference su))]))])
     @ rendered
     @ (case reminder_content mt of None \<Rightarrow> [] | Some text \<Rightarrow> [row ''user'' text])"

datatype 'r built =
    Built "'r model_request"
  | Overflowed int int int "'r model_request"
  | NotBuilt py_error

definition rendered_history ::
  "message list \<Rightarrow> 'c materials \<Rightarrow> 'r context_model \<Rightarrow> string option \<Rightarrow> 'r model_request res" where
  "rendered_history ms mt model window =
     bindR (summary_cutoff ms (mt_summary mt)) (\<lambda>cut. case window of
       Some w \<Rightarrow>
         (if mt_summary mt \<noteq> None then Inl ValueError
          else bindR (window_cutoff ms w) (\<lambda>c. cm_render model ms c None True))
     | None \<Rightarrow> cm_render model ms cut (map_option su_reference (mt_summary mt)) False)"

definition build ::
  "message list \<Rightarrow> 'c materials \<Rightarrow> 'r context_model \<Rightarrow> json_object list \<Rightarrow> int \<Rightarrow> string option \<Rightarrow> 'r built" where
  "build ms mt model tools max_output window =
     (if max_output < 0 then NotBuilt ValueError
      else case bindR (rendered_history ms mt model window) (\<lambda>r. bindR (mapR check_role (mr_rows r)) (\<lambda>us. Inr r)) of
        Inl e \<Rightarrow> NotBuilt e
      | Inr r \<Rightarrow>
          (let request = r\<lparr>mr_rows := request_rows mt (mr_rows r), mr_tools := tools, mr_system := [], mr_max_output := max_output\<rparr> in
           if (case cm_max_tools model of None \<Rightarrow> False | Some n \<Rightarrow> n < length tools) then NotBuilt ValueError
           else case cm_window model of
               None \<Rightarrow> Built request
             | Some capacity \<Rightarrow>
                 (let estimated = cm_estimate model request in
                  if capacity < estimated + max_output then Overflowed estimated max_output capacity request
                  else Built request)))"

end
