(* ===== verification/Context_Properties.thy ===== *)
theory Context_Properties
  imports Context_Builder Sample_Log
begin

text \<open>
  Where a request may cut the history: the dict of open calls is what its definition means, and neither a summary nor
  a first window separates a tool call from what settles it.
\<close>

section \<open>Open calls\<close>

text \<open>A later message ends a call: its result, or an abandon of its source that covers it.\<close>

definition ends_call :: "message \<Rightarrow> call_ref \<Rightarrow> message \<Rightarrow> bool" where
  "ends_call call c m \<longleftrightarrow> (case m_body m of
     ToolResult l r oc ps \<Rightarrow> r = c
   | Control a through reason \<Rightarrow> a = Abandon \<and> m_source m = m_source call \<and> m_seq call \<le> through
   | _ \<Rightarrow> False)"

definition open_call :: "message list \<Rightarrow> call_ref \<Rightarrow> message \<Rightarrow> bool" where
  "open_call ms c m \<longleftrightarrow> (\<exists>pre post. ms = pre @ m # post \<and> c \<in> set (message_calls m) \<and> (\<forall>x \<in> set post. \<not> ends_call m c x))"

lemma open_call_snoc:
  "open_call (ms @ [x]) c m \<longleftrightarrow> (m = x \<and> c \<in> set (message_calls x)) \<or> (open_call ms c m \<and> \<not> ends_call m c x)"
proof
  assume "open_call (ms @ [x]) c m"
  then obtain pre post where d: "ms @ [x] = pre @ m # post" "c \<in> set (message_calls m)" "\<forall>y \<in> set post. \<not> ends_call m c y"
    unfolding open_call_def by blast
  show "(m = x \<and> c \<in> set (message_calls x)) \<or> (open_call ms c m \<and> \<not> ends_call m c x)"
  proof (cases post rule: rev_cases)
    case Nil
    then show ?thesis using d by simp
  next
    case (snoc ys y)
    then have "ms = pre @ m # ys" "x = y" using d(1) by simp_all
    then show ?thesis using d snoc unfolding open_call_def by auto
  qed
next
  assume "(m = x \<and> c \<in> set (message_calls x)) \<or> (open_call ms c m \<and> \<not> ends_call m c x)"
  then show "open_call (ms @ [x]) c m"
  proof (elim disjE conjE)
    assume "m = x" "c \<in> set (message_calls x)"
    then show ?thesis unfolding open_call_def by (intro exI[of _ ms] exI[of _ "[]"]) simp
  next
    assume "open_call ms c m" "\<not> ends_call m c x"
    then obtain pre post where "ms = pre @ m # post" "c \<in> set (message_calls m)" "\<forall>y \<in> set post. \<not> ends_call m c y"
      unfolding open_call_def by blast
    then show ?thesis using \<open>\<not> ends_call m c x\<close> unfolding open_call_def by (intro exI[of _ pre] exI[of _ "post @ [x]"]) auto
  qed
qed

lemma updates_set:
  assumes "distinct (map fst al)"
  shows "set (fold (\<lambda>r. AList.update r m) cs al) = {p \<in> set al. fst p \<notin> set cs} \<union> (\<lambda>c. (c, m)) ` set cs
    \<and> distinct (map fst (fold (\<lambda>r. AList.update r m) cs al))"
  using assms
proof (induction cs arbitrary: al)
  case (Cons c cs)
  have d: "distinct (map fst (AList.update c m al))" using Cons.prems by (rule distinct_update)
  have "set (AList.update c m al) = {p \<in> set al. fst p \<noteq> c} \<union> {(c, m)}"
    using Cons.prems by (induction al) (auto simp: image_iff)
  then show ?case using Cons.IH[OF d] by auto
qed auto

lemma settle_fold:
  assumes "distinct (map m_id ms)"
  shows "distinct (map fst (fold settle_step ms [])) \<and> set (fold settle_step ms []) = {(c, m). open_call ms c m}"
  using assms
proof (induction ms rule: rev_induct)
  case Nil
  then show ?case by (simp add: open_call_def)
next
  case (snoc x ms)
  obtain p where p: "fold settle_step ms [] = p" by blast
  have ih: "distinct (map fst p)" "set p = {(c, m). open_call ms c m}" using snoc p by simp_all
  have "distinct (map fst (settle_step x p)) \<and> set (settle_step x p) = {(c, m). open_call (ms @ [x]) c m}"
  proof (cases "m_body x")
    case (Output ps f)
    have calls: "message_calls x = calls_in (m_id x) ps" by (simp add: Output message_calls.simps)
    have "fst q \<notin> set (message_calls x)" if "q \<in> set p" for q
    proof
      assume "fst q \<in> set (message_calls x)"
      then have "ref_message (fst q) = m_id x" by (rule message_calls_id)
      moreover have "\<exists>m \<in> set ms. fst q \<in> set (message_calls m)" using that ih(2) by (auto simp: open_call_def)
      ultimately show False using snoc.prems message_calls_id by (metis image_eqI distinct_append list.set_map map_append not_distinct_conv_prefix list.simps(9) list.map_disc_iff append_Nil disjoint_iff list.set_intros(1))
    qed
    then have "{q \<in> set p. fst q \<notin> set (message_calls x)} = set p" by blast
    moreover have "settle_step x p = fold (\<lambda>r. AList.update r x) (message_calls x) p"
      by (simp add: settle_step_def Output calls)
    moreover have "\<not> ends_call m c x" for m c by (simp add: ends_call_def Output)
    then have "{(c, m). open_call (ms @ [x]) c m} = {(c, m). open_call ms c m} \<union> (\<lambda>c. (c, x)) ` set (message_calls x)"
      by (auto simp: open_call_snoc)
    ultimately show ?thesis using updates_set[OF ih(1), of x "message_calls x"] ih(2) by simp
  next
    case (ToolResult l r oc ps)
    then show ?thesis
      using ih by (auto simp: settle_step_def open_call_snoc ends_call_def message_calls.simps AList.delete_eq distinct_map_filter)
  next
    case (Control a t reason)
    then show ?thesis
      using ih by (auto simp: settle_step_def open_call_snoc ends_call_def message_calls.simps distinct_map_filter)
  next
    case (Input ps)
    then show ?thesis using ih by (auto simp: settle_step_def open_call_snoc ends_call_def message_calls.simps)
  qed
  then show ?case by (simp add: p)
qed

lemma settled_from_exact:
  "n \<in> set (settled_from i p ms) \<longleftrightarrow> (\<exists>k. 1 \<le> k \<and> k \<le> length ms \<and> n = i + k \<and> fold settle_step (take k ms) p = [])"
proof (induction ms arbitrary: i p)
  case (Cons m ms)
  have "(\<exists>k. 1 \<le> k \<and> k \<le> length (m # ms) \<and> n = i + k \<and> fold settle_step (take k (m # ms)) p = []) \<longleftrightarrow>
    (n = i + 1 \<and> settle_step m p = []) \<or> (\<exists>k. 1 \<le> k \<and> k \<le> length ms \<and> n = i + 1 + k \<and> fold settle_step (take k ms) (settle_step m p) = [])"
    (is "?l \<longleftrightarrow> ?a \<or> ?b")
  proof
    assume ?l
    then obtain k where k: "1 \<le> k" "k \<le> length (m # ms)" "n = i + k" "fold settle_step (take k (m # ms)) p = []" by blast
    then show "?a \<or> ?b" by (cases "k = 1") (auto intro!: exI[of _ "k - 1"] simp: take_Cons')
  next
    assume "?a \<or> ?b"
    then show ?l
    proof
      assume ?a
      then show ?l by (intro exI[of _ 1]) simp
    next
      assume ?b
      then obtain k where "1 \<le> k" "k \<le> length ms" "n = i + 1 + k" "fold settle_step (take k ms) (settle_step m p) = []" by blast
      then show ?l by (intro exI[of _ "Suc k"]) simp
    qed
  qed
  then show ?case by (simp add: Let_def Cons.IH) 
qed simp

text \<open>\<open>settled_prefixes\<close> lists exactly the prefixes without an open call.\<close>

lemma settled_prefixes_exact:
  assumes "distinct (map m_id ms)"
  shows "n \<in> set (settled_prefixes ms) \<longleftrightarrow> 1 \<le> n \<and> n \<le> length ms \<and> (\<nexists>c m. open_call (take n ms) c m)"
proof -
  have "fold settle_step (take k ms) [] = [] \<longleftrightarrow> (\<nexists>c m. open_call (take k ms) c m)" for k
  proof -
    have "distinct (map m_id (take k ms))" using assms by (simp add: take_map[symmetric] distinct_take)
    then have "set (fold settle_step (take k ms) []) = {(c, m). open_call (take k ms) c m}" using settle_fold by blast
    moreover have "fold settle_step (take k ms) [] = [] \<longleftrightarrow> set (fold settle_step (take k ms) []) = {}" by simp
    ultimately show ?thesis by auto
  qed
  then show ?thesis by (auto simp: settled_prefixes_def settled_from_exact)
qed

section \<open>The cut of a request\<close>

text \<open>A cut behind the first \<open>n\<close> messages.\<close>

definition settled_cut :: "message list \<Rightarrow> int \<Rightarrow> nat \<Rightarrow> bool" where
  "settled_cut ms upto_seq n \<longleftrightarrow> n \<le> length ms \<and> upto_seq = (if n = 0 then - 1 else m_seq (ms ! (n - 1))) \<and> (\<nexists>c m. open_call (take n ms) c m)"

definition history_ordered :: "message list \<Rightarrow> bool" where
  "history_ordered ms \<longleftrightarrow> distinct (map m_id ms) \<and> strictly_ordered (map m_seq ms)"

lemma strictly_ordered_sorted: "strictly_ordered ns \<longleftrightarrow> sorted_wrt (<) ns"
proof (induction ns)
  case (Cons n ns)
  then show ?case by (cases ns) (auto simp: strictly_ordered_def intro: order_less_trans)
qed (simp add: strictly_ordered_def)

lemma summary_range_exact:
  assumes "summary_range ms ids = Inr (start, stop)"
  shows "start < stop \<and> stop \<le> length ms \<and> map m_id (take (stop - start) (drop start ms)) = ids"
proof -
  have t: "take (length ids) (drop start (map m_id ms)) = ids" "stop = start + length ids" "ids \<noteq> []"
    using assms by (auto simp: summary_range_def Let_def split: if_splits)
  then have "length ids \<le> length ms - start" by (metis length_drop length_map length_take min.cobounded1 min.commute)
  moreover have "0 < length ids" using t(3) by simp
  ultimately have "stop \<le> length ms" "start < stop" using t(2) by linarith+
  then show ?thesis using t(1,2) by (simp add: take_map drop_map)
qed

lemma summary_cutoff_ordered:
  assumes "summary_cutoff ms su = Inr upto_seq"
  shows "history_ordered ms"
  using assms by (auto simp: summary_cutoff_def history_ordered_def split: if_splits)

lemma summary_cutoff_settled:
  assumes "summary_cutoff ms su = Inr upto_seq"
  shows "\<exists>n. settled_cut ms upto_seq n
    \<and> (su = None \<longrightarrow> n = 0) \<and> (\<forall>s. su = Some s \<longrightarrow> 0 < n \<and> su_ids s = map m_id (drop (n - length (su_ids s)) (take n ms)))"
proof (cases su)
  case None
  then show ?thesis using assms
    by (intro exI[of _ 0]) (auto simp: settled_cut_def open_call_def summary_cutoff_def split: if_splits)
next
  case (Some s)
  have ord: "distinct (map m_id ms)" using summary_cutoff_ordered[OF assms] by (simp add: history_ordered_def)
  obtain start stop where r: "summary_range ms (su_ids s) = Inr (start, stop)" and e: "stop \<in> set (settled_prefixes (take stop ms))"
    and upto_seq: "upto_seq = m_seq (ms ! (stop - 1))"
    using assms Some by (auto simp: summary_cutoff_def res_simps Let_def split: if_splits)
  note rng = summary_range_exact[OF r]
  have "distinct (map m_id (take stop ms))" using ord by (simp add: take_map[symmetric] distinct_take)
  then have "\<nexists>c m. open_call (take stop ms) c m" using settled_prefixes_exact e by fastforce
  then have "settled_cut ms upto_seq stop" using rng upto_seq by (simp add: settled_cut_def)
  moreover have "su_ids s = map m_id (drop (stop - length (su_ids s)) (take stop ms))"
  proof -
    have "length (su_ids s) = stop - start" using rng by (metis length_map length_take length_drop min.absorb2 diff_le_mono)
    then show ?thesis using rng by (simp add: drop_take)
  qed
  ultimately show ?thesis using rng Some by (intro exI[of _ stop]) auto
qed

lemma index_of_less: "x \<in> set xs \<Longrightarrow> index_of x xs < length xs \<and> xs ! index_of x xs = x"
  by (induction xs) (auto simp: index_of_def)

lemma window_cutoff_settled:
  assumes "window_cutoff ms w = Inr upto_seq" and "distinct (map m_id ms)"
  shows "\<exists>n. settled_cut ms upto_seq n \<and> n < length ms \<and> m_id (ms ! n) = w"
proof -
  let ?n = "index_of w (map m_id ms)"
  have w: "?n < length ms" "m_id (ms ! ?n) = w"
    using assms(1) index_of_less[of w "map m_id ms"] by (auto simp: window_cutoff_def split: if_splits)
  have upto_seq: "?n = 0 \<or> ?n \<in> set (settled_prefixes (take ?n ms))" "upto_seq = (if ?n = 0 then - 1 else m_seq (ms ! (?n - 1)))"
    using assms(1) by (auto simp: window_cutoff_def Let_def split: if_splits)
  have "distinct (map m_id (take ?n ms))" using assms(2) by (simp add: take_map[symmetric] distinct_take)
  then have "\<nexists>c m. open_call (take ?n ms) c m"
    using upto_seq(1) settled_prefixes_exact[of "take ?n ms" ?n] by (auto simp: open_call_def)
  then show ?thesis using w upto_seq(2) by (intro exI[of _ ?n]) (simp add: settled_cut_def)
qed

lemma cut_prefix:
  assumes "settled_cut ms upto_seq n" and "history_ordered ms" and "\<forall>m \<in> set ms. 0 \<le> m_seq m"
  shows "filter (\<lambda>m. m_seq m \<le> upto_seq) ms = take n ms \<and> filter (\<lambda>m. upto_seq < m_seq m) ms = drop n ms"
proof -
  have ord: "sorted_wrt (\<lambda>a b. m_seq a < m_seq b) (take n ms @ drop n ms)"
    using assms(2) by (simp add: history_ordered_def strictly_ordered_sorted sorted_wrt_map)
  then have sep: "\<forall>a \<in> set (take n ms). \<forall>b \<in> set (drop n ms). m_seq a < m_seq b" unfolding sorted_wrt_append by blast
  have low: "m_seq m \<le> upto_seq" if "m \<in> set (take n ms)" for m
  proof -
    have "0 < n" using that by (cases n) simp_all
    moreover from this have "n \<le> length ms" "upto_seq = m_seq (ms ! (n - 1))" using assms(1) by (simp_all add: settled_cut_def)
    moreover have "take n ms = take (n - 1) ms @ [ms ! (n - 1)]"
      using calculation by (metis Suc_diff_1 Suc_le_lessD take_Suc_conv_app_nth)
    ultimately show ?thesis using ord that by (auto simp: sorted_wrt_append)
  qed
  have high: "upto_seq < m_seq m" if "m \<in> set (drop n ms)" for m
  proof (cases "n = 0")
    case True
    then show ?thesis using assms(1,3) that by (auto simp: settled_cut_def dest: order_less_le_trans[of "- 1" 0])
  next
    case False
    then have "ms ! (n - 1) \<in> set (take n ms)" "upto_seq = m_seq (ms ! (n - 1))"
      using assms(1) by (auto simp: settled_cut_def in_set_conv_nth intro!: exI[of _ "n - 1"])
    then show ?thesis using sep that by simp
  qed
  have "filter P ms = filter P (take n ms) @ filter P (drop n ms)" for P by (metis append_take_drop_id filter_append)
  then show ?thesis using low high by (auto simp: filter_id_conv filter_empty_conv not_le not_less)
qed

text \<open>C26. A request never separates a call from what settles it: the cut handed to the model's projection hides exactly a
  prefix of the history, in which every call has its result or is abandoned; with a summary that
  prefix ends with the messages the summary covers, without one it ends where the window starts.\<close>

theorem cut_splits_no_call:
  assumes "rendered_history ms mt model window = Inr r" and "\<forall>m \<in> set ms. 0 \<le> m_seq m"
  shows "\<exists>n upto_seq reference fresh. cm_render model ms upto_seq reference fresh = Inr r
    \<and> filter (\<lambda>m. m_seq m \<le> upto_seq) ms = take n ms \<and> (\<nexists>c m. open_call (take n ms) c m)
    \<and> (case mt_summary mt of
         Some s \<Rightarrow> 0 < n \<and> su_ids s = map m_id (drop (n - length (su_ids s)) (take n ms)) \<and> reference = Some (su_reference s)
       | None \<Rightarrow> (case window of None \<Rightarrow> n = 0 | Some w \<Rightarrow> n < length ms \<and> m_id (ms ! n) = w))"
proof -
  obtain upto_seq where upto_seq: "summary_cutoff ms (mt_summary mt) = Inr upto_seq"
    and rest: "(case window of Some w \<Rightarrow> (if mt_summary mt \<noteq> None then Inl ValueError
          else bindR (window_cutoff ms w) (\<lambda>c. cm_render model ms c None True))
     | None \<Rightarrow> cm_render model ms upto_seq (map_option su_reference (mt_summary mt)) False) = Inr r"
    using assms(1) unfolding rendered_history_def bindR_def by (cases "summary_cutoff ms (mt_summary mt)") simp_all
  note ord = summary_cutoff_ordered[OF upto_seq]
  show ?thesis
  proof (cases window)
    case None
    from summary_cutoff_settled[OF upto_seq] obtain n where settled: "settled_cut ms upto_seq n \<and> (mt_summary mt = None \<longrightarrow> n = 0)
      \<and> (\<forall>s. mt_summary mt = Some s \<longrightarrow> 0 < n \<and> su_ids s = map m_id (drop (n - length (su_ids s)) (take n ms)))" ..
    note n = settled[THEN conjunct1] settled[THEN conjunct2, THEN conjunct1] settled[THEN conjunct2, THEN conjunct2, rule_format]
    have "cm_render model ms upto_seq (map_option su_reference (mt_summary mt)) False = Inr r" using rest None by simp
    moreover have "\<nexists>c m. open_call (take n ms) c m" using n(1) unfolding settled_cut_def by blast
    moreover have "case mt_summary mt of
         Some s \<Rightarrow> 0 < n \<and> su_ids s = map m_id (drop (n - length (su_ids s)) (take n ms)) \<and> map_option su_reference (mt_summary mt) = Some (su_reference s)
       | None \<Rightarrow> (case window of None \<Rightarrow> n = 0 | Some w \<Rightarrow> n < length ms \<and> m_id (ms ! n) = w)"
    proof (cases "mt_summary mt")
      case (Some s)
      then have "0 < n \<and> su_ids s = map m_id (drop (n - length (su_ids s)) (take n ms))" by (rule n(3))
      then show ?thesis unfolding Some option.case option.map by blast
    qed (use n(2) None in simp)
    ultimately show ?thesis using cut_prefix[OF n(1) ord assms(2)] by blast
  next
    case (Some w)
    then obtain c where c: "mt_summary mt = None" "window_cutoff ms w = Inr c" "cm_render model ms c None True = Inr r"
      using rest by (auto simp: res_simps split: if_splits)
    obtain n where n: "settled_cut ms c n" "n < length ms" "m_id (ms ! n) = w"
      using window_cutoff_settled[OF c(2)] ord unfolding history_ordered_def by blast
    show ?thesis
      using cut_prefix[OF n(1) ord assms(2)] n c Some
      by (intro exI[of _ n] exI[of _ c] exI[of _ None] exI[of _ True]) (auto simp: settled_cut_def)
  qed
qed

section \<open>A sample\<close>

definition talk :: "message list" where
  "talk = [said ''m1'' 0 ''user'' hello, said ''m2'' 1 ''model'' asking, said ''m3'' 2 ''tool'' answer]"

definition first_summary :: "unit materials" where
  "first_summary = \<lparr>mt_prompt = [], mt_reminders = [], mt_summary = Some \<lparr>su_reference = ''r'', su_ids = [''m1''], su_content = ''hi''\<rparr>, mt_references = ()\<rparr>"

definition plain_model :: "unit context_model" where
  "plain_model = \<lparr>cm_window = None, cm_max_tools = None,
     cm_render = (\<lambda>ms after reference fresh. Inr \<lparr>mr_rows = [], mr_tools = [], mr_system = [], mr_max_output = after, mr_rest = ()\<rparr>),
     cm_estimate = (\<lambda>r. 0)\<rparr>"

lemma sample_rendered: "\<exists>r. rendered_history talk first_summary plain_model None = Inr r"
  by (simp add: rendered_history_def first_summary_def plain_model_def summary_cutoff_def talk_def said_def strictly_ordered_def
      summary_range_def index_of_def settled_prefixes_def settle_step_def hello_def asking_def answer_def Let_def)

lemma cut_splits_no_call_witness:
  "\<exists>n upto_seq. filter (\<lambda>m. m_seq m \<le> upto_seq) talk = take n talk \<and> 0 < n \<and> map m_id (drop (n - 1) (take n talk)) = [''m1'']"
proof -
  obtain r where r: "rendered_history talk first_summary plain_model None = Inr r" using sample_rendered by blast
  have "\<forall>m \<in> set talk. 0 \<le> m_seq m" by (simp add: talk_def said_def)
  from cut_splits_no_call[OF r this] obtain n upto_seq
    where "filter (\<lambda>m. m_seq m \<le> upto_seq) talk = take n talk" and "0 < n \<and> [''m1''] = map m_id (drop (n - length [''m1'']) (take n talk))"
    by (elim exE conjE) (simp add: first_summary_def)
  then show ?thesis by (intro exI[of _ n] exI[of _ upto_seq]) simp
qed

end
