(* ===== verification/React.thy ===== *)
theory React
  imports Context_Builder Message_Reader
begin

text \<open>
  The model loop, \<open>react\<close> and \<open>_complete\<close> of \<open>plugins/react/plugin.py\<close>.

  The loop is a machine whose states are its awaits: settling a call, obtaining materials, reducing the history to a
  summary, the model's answer, decoding its content. What these answer are inputs of the segments;
  projection, menu and content view are parameters. Drafts shown while a model answers are
  not modelled; \<open>mid\<close> is the message id made for a request.
\<close>

section \<open>Arguments\<close>

record model_call =
  mc_id :: string
  mc_name :: string
  mc_arguments :: json_object

text \<open>The state of the driver and the usage are passed on unread.\<close>

record response =
  rs_content :: "string option"
  rs_calls :: "model_call list"
  rs_thinking :: "string option"
  rs_finish_reason :: "string option"
  rs_continuation :: "(string \<times> json_object) option"
  rs_usage :: "json_object option"
  rs_call_record_id :: "string option"

text \<open>\<open>tools.decode\<close> answers a binding with arguments, refuses the call as invalid with a text, or raises.\<close>

datatype decoded_call = Called string pyval | InvalidCall string | CallError py_error

text \<open>\<open>ra_facts\<close> is \<open>projection.facts\<close> on the response, the positions of the calls, the reminder and the actual parts.\<close>

record 'r react =
  ra_session :: string
  ra_writer :: writer
  ra_max_steps :: int
  ra_max_output :: int
  ra_terminal :: "string list"
  ra_tool_name :: "string \<Rightarrow> string"
  ra_schemas :: "json_object list"
  ra_model :: "'r context_model"
  ra_reduces :: bool
  ra_decode :: "model_call \<Rightarrow> decoded_call"
  ra_facts :: "response \<Rightarrow> nat list \<Rightarrow> string option \<Rightarrow> part list \<Rightarrow> part res"

text \<open>A decision in progress: the history it reads, the source head it expects, and the materials.\<close>

record 'c decision =
  de_history :: "message list"
  de_head :: int
  de_materials :: "'c materials"

text \<open>\<open>Reducing de request forced cause\<close>: \<open>cause\<close> is what is raised when the summary does not change.\<close>

datatype ('c, 'r) react_pc =
    Ready
  | Settling "call_ref list"
  | Gathering "message list" int
  | Reducing "'c decision" "'r model_request" bool "py_error option"
  | Completing "'c decision" "'r model_request" bool
  | Decoding "'c decision" response string
  | Finished message
  | Failed py_error

section \<open>Segments\<close>

abbreviation ra_source :: "'r react \<Rightarrow> string" where
  "ra_source R \<equiv> w_source (ra_writer R)"

text \<open>\<open>max((m.seq for m in snapshot if m.source == source), default=-1)\<close>.\<close>

definition source_last :: "string \<Rightarrow> message list \<Rightarrow> int" where
  "source_last source ms = max_default (- 1) (map m_seq (filter (\<lambda>m. m_source m = source) ms))"

text \<open>After the calls are settled: end, give up, or read the history for the next decision.\<close>

definition decide :: "'r react \<Rightarrow> int \<Rightarrow> string \<Rightarrow> message_log \<Rightarrow> ('c, 'r) react_pc \<times> message_log" where
  "decide R now mid s =
     (case snapshot s (ra_session R) (- 1) None of
        Inl e \<Rightarrow> (Failed e, s)
      | Inr ms \<Rightarrow>
          if ra_terminal R \<noteq> [] \<and> terminal_result (ra_tool_name R) (ra_terminal R) ms (ra_source R) then
            (case writer_append now (ra_writer R) mid (Output [] Quiet) (Some (source_head s (ra_session R) (ra_source R))) None s of
               (Inl e, s') \<Rightarrow> (Failed e, s')
             | (Inr m, s') \<Rightarrow> (Finished m, s'))
          else if 0 < ra_max_steps R \<and> ra_max_steps R \<le> int (model_steps ms (ra_source R)) then (Failed StepLimit, s)
          else (Gathering ms (source_last (ra_source R) ms), s))"

definition loop_top :: "'r react \<Rightarrow> int \<Rightarrow> string \<Rightarrow> message_log \<Rightarrow> ('c, 'r) react_pc \<times> message_log" where
  "loop_top R now mid s =
     (case snapshot s (ra_session R) (- 1) None of
        Inl e \<Rightarrow> (Failed e, s)
      | Inr ms \<Rightarrow>
          (case pending_calls ms (ra_source R) of
             [] \<Rightarrow> decide R now mid s
           | calls \<Rightarrow> (Settling calls, s)))"

definition react_begin :: "'r react \<Rightarrow> int \<Rightarrow> string \<Rightarrow> message_log \<Rightarrow> ('c, 'r) react_pc \<times> message_log" where
  "react_begin R now mid s =
     (if ra_max_steps R < 0 then (Failed ValueError, s)
      else if ra_session R \<noteq> w_session (ra_writer R) then (Failed ValueError, s)
      else loop_top R now mid s)"

text \<open>\<open>_settle\<close>: the call's execution ended with a result, or raised; a cancelled loop has waited for it.\<close>

definition react_settled ::
  "'r react \<Rightarrow> int \<Rightarrow> string \<Rightarrow> call_ref list \<Rightarrow> unit res \<Rightarrow> message_log \<Rightarrow> ('c, 'r) react_pc \<times> message_log" where
  "react_settled R now mid calls out s =
     (case out of
        Inl e \<Rightarrow> (Failed e, s)
      | Inr u \<Rightarrow> (case tl calls of [] \<Rightarrow> decide R now mid s | rest \<Rightarrow> (Settling rest, s)))"

definition built_request :: "'r react \<Rightarrow> 'c decision \<Rightarrow> 'r built" where
  "built_request R de = build (de_history de) (de_materials de) (ra_model R) (ra_schemas R) (ra_max_output R) None"

definition with_summary :: "'c decision \<Rightarrow> summary option \<Rightarrow> 'c decision" where
  "with_summary de su = de\<lparr>de_materials := (de_materials de)\<lparr>mt_summary := su\<rparr>\<rparr>"

text \<open>The request to send after a summary has replaced the old one.\<close>

definition rebuilt :: "'r react \<Rightarrow> 'c decision \<Rightarrow> bool \<Rightarrow> ('c, 'r) react_pc" where
  "rebuilt R de again = (case built_request R de of
     Built r \<Rightarrow> Completing de r again
   | Overflowed a b c r \<Rightarrow> Failed ContextOverflow
   | NotBuilt e \<Rightarrow> Failed e)"

definition react_prepared :: "'r react \<Rightarrow> message list \<Rightarrow> int \<Rightarrow> 'c materials res \<Rightarrow> ('c, 'r) react_pc" where
  "react_prepared R ms head prepared = (case prepared of
     Inl e \<Rightarrow> Failed e
   | Inr mt \<Rightarrow>
       (let de = \<lparr>de_history = ms, de_head = head, de_materials = mt\<rparr> in
        case built_request R de of
          NotBuilt e \<Rightarrow> Failed e
        | Overflowed a b c r \<Rightarrow> (if ra_reduces R then Reducing de r True (Some ContextOverflow) else Failed ContextOverflow)
        | Built r \<Rightarrow> (if ra_reduces R then Reducing de r False None else Completing de r True)))"

text \<open>Only the first request may be retried: \<open>True\<close> in \<open>Completing\<close>.\<close>

definition react_reduced ::
  "'r react \<Rightarrow> 'c decision \<Rightarrow> 'r model_request \<Rightarrow> py_error option \<Rightarrow> summary option res \<Rightarrow> ('c, 'r) react_pc" where
  "react_reduced R de r cause ans = (case ans of
     Inl e \<Rightarrow> Failed e
   | Inr su \<Rightarrow>
       if su = mt_summary (de_materials de) then (case cause of None \<Rightarrow> Completing de r True | Some e \<Rightarrow> Failed e)
       else rebuilt R (with_summary de su) (cause \<noteq> Some ContextLength))"

definition react_answered ::
  "'r react \<Rightarrow> 'c decision \<Rightarrow> 'r model_request \<Rightarrow> bool \<Rightarrow> string \<Rightarrow> response res \<Rightarrow> ('c, 'r) react_pc" where
  "react_answered R de r first mid ans = (case ans of
     Inr response \<Rightarrow> Decoding de response mid
   | Inl e \<Rightarrow>
       if e = ContextLength \<and> first \<and> ra_reduces R then Reducing de r True (Some ContextLength)
       else Failed e)"

section \<open>The committed output\<close>

definition rejection_part :: "model_call \<Rightarrow> string \<Rightarrow> part" where
  "rejection_part c reason = ContentPart ''model.tool_rejection''
     (JObj [(''name'', JStr (mc_name c)), (''arguments'', JObj (mc_arguments c)), (''error'', JStr reason)])"

definition actual_call :: "'r react \<Rightarrow> model_call \<Rightarrow> part res" where
  "actual_call R c = (case ra_decode R c of
     Called binding args \<Rightarrow> mk_ToolCall (VStr binding) args
   | InvalidCall reason \<Rightarrow> Inr (rejection_part c reason)
   | CallError e \<Rightarrow> Inl e)"

text \<open>The parts of the output: content, calls, the facts of the model, the summary used.\<close>

definition output_parts ::
  "'r react \<Rightarrow> 'c decision \<Rightarrow> response \<Rightarrow> part list \<Rightarrow> (part list \<times> nat list) res" where
  "output_parts R de response decoded =
     bindR (mapR (actual_call R) (rs_calls response)) (\<lambda>calls.
       let parts = decoded @ calls; indices = [length decoded ..< length parts] in
       if parts = [] then Inl EmptyResponse
       else bindR (ra_facts R response indices (reminder_content (de_materials de)) calls) (\<lambda>facts.
         Inr (parts @ [facts] @ (case mt_summary (de_materials de) of
                None \<Rightarrow> []
              | Some su \<Rightarrow> [ContentPart ''context.summary'' (JObj [(''reference'', JStr (su_reference su))])]), indices)))"

definition react_decoded ::
  "'r react \<Rightarrow> int \<Rightarrow> string \<Rightarrow> 'c decision \<Rightarrow> response \<Rightarrow> string \<Rightarrow> (part list \<times> pyval option) res \<Rightarrow> message_log
     \<Rightarrow> ('c, 'r) react_pc \<times> message_log" where
  "react_decoded R now fresh de response mid content s =
     (case bindR content (\<lambda>(decoded, metadata).
             bindR (output_parts R de response decoded) (\<lambda>(parts, indices).
             bindR (mk_Output parts (if indices = [] then VStr ''complete'' else VStr ''continue'')) (\<lambda>b. Inr (b, indices, metadata)))) of
        Inl e \<Rightarrow> (Failed e, s)
      | Inr (b, indices, metadata) \<Rightarrow>
          (case writer_append now (ra_writer R) mid b (Some (de_head de)) metadata s of
             (Inl e, s') \<Rightarrow> (Failed e, s')
           | (Inr m, s') \<Rightarrow> if indices = [] then (Finished m, s') else loop_top R now fresh s'))"

end
