(* ===== verification/React_Properties.thy ===== *)
theory React_Properties
  imports React Conversation_Properties
begin

text \<open>
  The model loop over time: its segments interleave with the appends of tools, other sources and the user; it may
  be cancelled and restarted at any await. Every request shows a history whose calls are settled, an output is
  committed only to the history it was made from, and a bounded loop ends within a bounded number of requests.
\<close>

section \<open>Readings of a growing history\<close>

text \<open>What the loop's history gains while the loop waits: no output and no abandon of its own source.\<close>

definition calm :: "string \<Rightarrow> message \<Rightarrow> bool" where
  "calm source m \<longleftrightarrow> m_source m = source \<longrightarrow> (case m_body m of Output ps f \<Rightarrow> False | Control a t r \<Rightarrow> a \<noteq> Abandon | _ \<Rightarrow> True)"

lemma recover_calm:
  assumes "calm source m"
  shows "v_boundary (recover_step source m v) = v_boundary v" "v_calls (recover_step source m v) = v_calls v"
    "set (v_results v) \<subseteq> set (v_results (recover_step source m v))"
  using assms by (auto simp: recover_step_def calm_def split: body.splits)

lemma recovered_calm:
  assumes "list_all (calm source) new"
  shows "v_boundary (recovered (ms @ new) source) = v_boundary (recovered ms source)
    \<and> v_calls (recovered (ms @ new) source) = v_calls (recovered ms source)
    \<and> set (v_results (recovered ms source)) \<subseteq> set (v_results (recovered (ms @ new) source))"
  using assms
proof (induction new rule: rev_induct)
  case (snoc m new)
  then have "calm source m" "list_all (calm source) new" by simp_all
  then show ?case using snoc.IH recover_calm[of source m "recovered (ms @ new) source"] recovered_snoc[of "ms @ new" m source] by auto
qed simp

lemma pending_calm:
  assumes "list_all (calm source) new"
  shows "set (pending_calls (ms @ new) source) \<subseteq> set (pending_calls ms source)"
  using recovered_calm[OF assms, of ms] by (auto simp: pending_calls_def Let_def)

lemma steps_calm:
  assumes "list_all (calm source) new"
  shows "model_steps (ms @ new) source = model_steps ms source"
proof -
  have "steps_step source m out = out" if "calm source m" for m out
    using that by (auto simp: steps_step_def calm_def split: body.splits)
  then have "fold (steps_step source) new out = out" for out
    using assms by (induction new arbitrary: out) simp_all
  then show ?thesis by (simp add: model_steps_def)
qed

lemma is_facts_sorted [simp]: "is_facts (sorted_part p) = is_facts p"
  by (cases p) (simp_all add: is_facts_def)

lemma steps_output:
  assumes "m_source m = source" and "m_body m = Output ps Continue" and "list_ex is_facts ps"
  shows "model_steps (ms @ [stored_message m]) source = Suc (model_steps ms source)"
proof -
  have "list_ex is_facts (map sorted_part ps)" using assms(3) by (simp add: list_ex_iff)
  then show ?thesis using assms(1,2) by (simp add: model_steps_def steps_step_def)
qed

lemma prefix_ok_take: "prefix_ok (ms @ new) \<Longrightarrow> prefix_ok ms"
  by (induction new rule: rev_induct) (simp, metis append_assoc prefix_ok_butlast)

text \<open>The expected head is the number of the last message of the source that the loop has read.\<close>

lemma source_last_head:
  assumes "wf_log s"
  shows "source_head s sid source = source_last source (session_history s sid)"
proof -
  have "map m_seq (filter (\<lambda>m. m_source m = source) (map (\<lambda>r. projr (message_of s r)) rows)) = map r_seq (filter (\<lambda>r. r_source r = source) rows)"
    if "set rows \<subseteq> set (messages s)" for rows
    using that by (induction rows) (simp_all add: row_seq[OF assms] row_source[OF assms])
  then have "map m_seq (filter (\<lambda>m. m_source m = source) (session_history s sid)) = map r_seq (filter (\<lambda>r. r_source r = source) (session_rows s sid))"
    by (simp add: session_history_def session_rows_def)
  moreover have "filter (\<lambda>r. r_source r = source) (session_rows s sid) = filter (\<lambda>r. r_session r = sid \<and> r_source r = source) (messages s)"
    by (simp add: session_rows_def)
  ultimately show ?thesis unfolding source_head_def source_last_def by (simp only:)
qed

lemma source_last_unseen:
  assumes "prefix_ok (ms @ new)" and "source_last source (ms @ new) = source_last source ms"
  shows "from_source source new = []"
proof (rule ccontr)
  assume "from_source source new \<noteq> []"
  then obtain m where m: "m \<in> set new" "m_source m = source" by (auto simp: from_source_def filter_empty_conv)
  have "source_last source ms < m_seq m" unfolding source_last_def
  proof (rule max_default_less)
    have "wf_message m" using assms(1) m(1) unfolding prefix_ok_def set_append by blast
    then show "- 1 < m_seq m" by (simp add: wf_message_def)
    have later: "\<forall>y \<in> set ms. \<forall>z \<in> set new. m_seq y < m_seq z"
      using assms(1) unfolding prefix_ok_def sorted_wrt_append by blast
    show "x < m_seq m" if "x \<in> set (map m_seq (filter (\<lambda>m. m_source m = source) ms))" for x
      using later m(1) that by auto
  qed
  moreover have "m_seq m \<le> source_last source (ms @ new)"
    unfolding source_last_def using m by (intro max_default_ge(2)) auto
  ultimately show False using assms(2) by simp
qed

section \<open>Runs\<close>

text \<open>A driver answers JSON.\<close>

fun legal_response :: "response res \<Rightarrow> bool" where
  "legal_response (Inr response) = (list_all (\<lambda>c. wf_json (JObj (mc_arguments c))) (rs_calls response)
     \<and> (case rs_continuation response of None \<Rightarrow> True | Some (b, payload) \<Rightarrow> wf_json (JObj payload)))"
| "legal_response (Inl e) = True"

text \<open>Whatever the menu and the projection answer is a legal value, and the facts of a response are of the kind by which
  the loop counts its steps.\<close>

definition wf_react :: "'r react \<Rightarrow> bool" where
  "wf_react R \<longleftrightarrow> wf_writer (ra_writer R)
     \<and> (\<forall>c b v. ra_decode R c = Called b v \<longrightarrow> wf_pyval v)
     \<and> (\<forall>response indices reminded calls p. legal_response (Inr response) \<and> list_all wf_part calls
          \<and> ra_facts R response indices reminded calls = Inr p \<longrightarrow> wf_part p \<and> is_facts p)"

text \<open>\<open>rw_sent\<close> counts the requests the running loop has sent.\<close>

record ('c, 'r) react_world =
  rw_pc :: "('c, 'r) react_pc"
  rw_log :: message_log
  rw_sent :: nat

definition turned :: "('c, 'r) react_pc \<times> message_log \<Rightarrow> nat \<Rightarrow> ('c, 'r) react_world" where
  "turned r n = \<lparr>rw_pc = fst r, rw_log = snd r, rw_sent = n\<rparr>"

abbreviation history_in :: "'r react \<Rightarrow> message_log \<Rightarrow> message list" where
  "history_in R s \<equiv> session_history s (ra_session R)"

fun legal_content :: "(part list \<times> pyval option) res \<Rightarrow> bool" where
  "legal_content (Inr (ps, metadata)) = (list_all wf_part ps \<and> pred_option wf_pyval metadata)"
| "legal_content (Inl e) = True"

text \<open>The loop's own segments. A call whose execution returned is no longer pending: its result is
  stored, or it was abandoned. The id made for a message is new.\<close>

inductive react_own :: "'r react \<Rightarrow> ('c, 'r) react_world \<Rightarrow> ('c, 'r) react_world \<Rightarrow> bool" for R where
  settles: "rw_pc w = Settling calls \<Longrightarrow>
    out = Inr () \<longrightarrow> hd calls \<notin> set (pending_calls (history_in R (rw_log w)) (ra_source R)) \<Longrightarrow>
    react_own R w (turned (react_settled R now mid calls out (rw_log w)) (rw_sent w))"
| prepares: "rw_pc w = Gathering ms head \<Longrightarrow>
    react_own R w (turned (react_prepared R ms head prepared, rw_log w) (rw_sent w))"
| reduces: "rw_pc w = Reducing de r forced cause \<Longrightarrow>
    react_own R w (turned (react_reduced R de r cause summary, rw_log w) (rw_sent w))"
| answers: "rw_pc w = Completing de r first \<Longrightarrow> legal_response ans \<Longrightarrow>
    react_own R w (turned (react_answered R de r first mid ans, rw_log w) (rw_sent w + 1))"
| decodes: "rw_pc w = Decoding de response mid \<Longrightarrow> find_message (rw_log w) mid = None \<Longrightarrow> legal_content content \<Longrightarrow>
    react_own R w (turned (react_decoded R now fresh de response mid content (rw_log w)) (rw_sent w))"

text \<open>Meanwhile tools store results and the user and other sources write. An output or an abandon of the loop's source
  means that the loop is gone: the source revokes its task first.\<close>

inductive react_idle :: "'r react \<Rightarrow> ('c, 'r) react_world \<Rightarrow> ('c, 'r) react_world \<Rightarrow> bool" for R where
  others: "wf_log t \<Longrightarrow> history_in R t = history_in R (rw_log w) @ new \<Longrightarrow> list_all (calm (ra_source R)) new \<Longrightarrow>
    react_idle R w (w\<lparr>rw_log := t\<rparr>)"

inductive react_step :: "'r react \<Rightarrow> ('c, 'r) react_world \<Rightarrow> ('c, 'r) react_world \<Rightarrow> bool" for R where
  begins: "react_step R w (turned (react_begin R now mid (rw_log w)) 0)"
| own: "react_own R w w' \<Longrightarrow> react_step R w w'"
| idles: "react_idle R w w' \<Longrightarrow> react_step R w w'"
| gone: "wf_log t \<Longrightarrow> history_in R t = history_in R (rw_log w) @ new \<Longrightarrow>
    react_step R w (w\<lparr>rw_pc := Ready, rw_log := t\<rparr>)"

inductive reached :: "'r react \<Rightarrow> ('c, 'r) react_world \<Rightarrow> bool" for R where
  start: "wf_log s \<Longrightarrow> reached R \<lparr>rw_pc = Ready, rw_log = s, rw_sent = 0\<rparr>"
| step: "reached R w \<Longrightarrow> react_step R w w' \<Longrightarrow> reached R w'"

section \<open>The invariant\<close>

fun running :: "('c, 'r) react_pc \<Rightarrow> bool" where
  "running Ready = False"
| "running (Finished m) = False"
| "running (Failed e) = False"
| "running _ = True"

text \<open>A decision stands on a history that the log extends, with every call settled.\<close>

definition stands_on :: "'r react \<Rightarrow> message list \<Rightarrow> message list \<Rightarrow> int \<Rightarrow> bool" where
  "stands_on R hist ms head \<longleftrightarrow> ra_session R = w_session (ra_writer R)
     \<and> (\<exists>new. hist = ms @ new \<and> list_all (calm (ra_source R)) new)
     \<and> pending_calls ms (ra_source R) = [] \<and> head = source_last (ra_source R) ms
     \<and> (0 < ra_max_steps R \<longrightarrow> int (model_steps ms (ra_source R)) < ra_max_steps R)"

fun pc_ok :: "'r react \<Rightarrow> message list \<Rightarrow> ('c, 'r) react_pc \<Rightarrow> bool" where
  "pc_ok R hist (Settling calls) = (ra_session R = w_session (ra_writer R) \<and> calls \<noteq> [] \<and> set (pending_calls hist (ra_source R)) \<subseteq> set calls)"
| "pc_ok R hist (Gathering ms head) = stands_on R hist ms head"
| "pc_ok R hist (Reducing de r forced cause) =
     (stands_on R hist (de_history de) (de_head de) \<and> (cause \<noteq> Some ContextOverflow \<longrightarrow> built_request R de = Built r))"
| "pc_ok R hist (Completing de r first) = (stands_on R hist (de_history de) (de_head de) \<and> built_request R de = Built r)"
| "pc_ok R hist (Decoding de response mid) = (stands_on R hist (de_history de) (de_head de) \<and> legal_response (Inr response))"
| "pc_ok R hist _ = True"

text \<open>Requests sent in the current decision.\<close>

fun spent :: "('c, 'r) react_pc \<Rightarrow> nat" where
  "spent (Reducing de r forced cause) = (if cause = Some ContextLength then 1 else 0)"
| "spent (Completing de r first) = (if first then 0 else 1)"
| "spent (Decoding de response mid) = 2"
| "spent _ = 0"

definition loop_ok :: "'r react \<Rightarrow> ('c, 'r) react_world \<Rightarrow> bool" where
  "loop_ok R w \<longleftrightarrow> wf_log (rw_log w) \<and> pc_ok R (history_in R (rw_log w)) (rw_pc w)
     \<and> (running (rw_pc w) \<longrightarrow> rw_sent w \<le> 2 * model_steps (history_in R (rw_log w)) (ra_source R) + spent (rw_pc w))
     \<and> (0 < ra_max_steps R \<longrightarrow> rw_sent w \<le> 2 * nat (ra_max_steps R))"

lemma stands_on_later:
  assumes "stands_on R hist ms head" and "list_all (calm (ra_source R)) new"
  shows "stands_on R (hist @ new) ms head"
  using assms unfolding stands_on_def by (metis append_assoc list_all_append)

lemma pc_ok_later:
  assumes "pc_ok R hist pc" and "list_all (calm (ra_source R)) new"
  shows "pc_ok R (hist @ new) pc"
  using assms stands_on_later[OF _ assms(2)] pending_calm[OF assms(2), of hist] by (cases pc) auto

lemma stands_on_steps:
  assumes "stands_on R hist ms head"
  shows "model_steps hist (ra_source R) = model_steps ms (ra_source R)"
  using assms steps_calm unfolding stands_on_def by metis

text \<open>Where the loop stands after it has looked at the log: it has written nothing unless it is over.\<close>

definition lands :: "'r react \<Rightarrow> message_log \<Rightarrow> ('c, 'r) react_pc \<times> message_log \<Rightarrow> bool" where
  "lands R s r \<longleftrightarrow> wf_log (snd r) \<and> (\<exists>new. history_in R (snd r) = history_in R s @ new)
     \<and> (running (fst r) \<longrightarrow> snd r = s) \<and> pc_ok R (history_in R s) (fst r) \<and> spent (fst r) = 0"

lemma lands_failed: "wf_log s \<Longrightarrow> lands R s (Failed e, s)"
  by (simp add: lands_def)

lemma append_grows:
  assumes "writer_append now w mid b h md s = (r, t)" and "wf_log s" "wf_body b" "pred_option wf_pyval md" "wf_writer w"
  shows "wf_log t \<and> (\<exists>new. session_history t sid = session_history s sid @ new)"
  using append_adds[OF assms, of undefined sid] by (metis append_Nil2)

lemma decide_lands:
  assumes "wf_react R" "wf_log s" "ra_session R = w_session (ra_writer R)"
    and settled: "pending_calls (history_in R s) (ra_source R) = []"
  shows "lands R s (decide R now mid s)"
proof -
  obtain r t where a: "writer_append now (ra_writer R) mid (Output [] Quiet) (Some (source_head s (ra_session R) (ra_source R))) None s = (r, t)"
    by fastforce
  have "wf_log t \<and> (\<exists>new. history_in R t = history_in R s @ new)"
    using append_grows[OF a assms(2)] assms(1) by (simp add: wf_react_def)
  moreover have "stands_on R (history_in R s) (history_in R s) (source_last (ra_source R) (history_in R s))"
    if "\<not> (0 < ra_max_steps R \<and> ra_max_steps R \<le> int (model_steps (history_in R s) (ra_source R)))"
    using that assms(3) settled by (auto simp: stands_on_def)
  ultimately show ?thesis
    using assms(2) by (auto simp: decide_def snapshot_all a lands_def split: sum.splits)
qed

lemma loop_top_lands:
  assumes "wf_react R" "wf_log s" "ra_session R = w_session (ra_writer R)"
  shows "lands R s (loop_top R now mid s)"
proof (cases "pending_calls (history_in R s) (ra_source R)")
  case Nil
  then show ?thesis using decide_lands[OF assms Nil] assms(2) by (simp add: loop_top_def snapshot_all)
next
  case (Cons c cs)
  then show ?thesis using assms(2,3) by (simp add: loop_top_def snapshot_all lands_def)
qed

lemma pc_ok_over: "\<not> running pc \<Longrightarrow> pc_ok R hist pc"
  by (cases pc) auto

lemma lands_ok:
  assumes "lands R s r" and "n \<le> 2 * model_steps (history_in R s) (ra_source R)" and "0 < ra_max_steps R \<longrightarrow> n \<le> 2 * nat (ra_max_steps R)"
  shows "loop_ok R (turned r n)"
proof (cases "running (fst r)")
  case True
  then show ?thesis using assms by (auto simp: lands_def loop_ok_def turned_def)
next
  case False
  then show ?thesis using assms pc_ok_over[OF False] by (simp add: lands_def loop_ok_def turned_def)
qed

lemma react_begin_ok:
  assumes "wf_react R" "wf_log s"
  shows "loop_ok R (turned (react_begin R now mid s) 0)"
proof -
  have "lands R s (react_begin R now mid s)"
    using lands_failed[OF assms(2)] loop_top_lands[OF assms] by (auto simp: react_begin_def)
  then show ?thesis by (rule lands_ok) simp_all
qed

lemma settles_lands:
  assumes "wf_react R" "loop_ok R w" "rw_pc w = Settling calls"
    and ok: "out = Inr () \<longrightarrow> hd calls \<notin> set (pending_calls (history_in R (rw_log w)) (ra_source R))"
  shows "lands R (rw_log w) (react_settled R now mid calls out (rw_log w))"
proof -
  have w: "wf_log (rw_log w)" "ra_session R = w_session (ra_writer R)" "calls \<noteq> []"
    "set (pending_calls (history_in R (rw_log w)) (ra_source R)) \<subseteq> set calls"
    using assms(2)[unfolded loop_ok_def assms(3) pc_ok.simps] by blast+
  show ?thesis
  proof (cases out)
    case (Inl e)
    then show ?thesis using lands_failed[OF w(1)] by (simp add: react_settled_def)
  next
    case (Inr u)
    then have less: "set (pending_calls (history_in R (rw_log w)) (ra_source R)) \<subseteq> set (tl calls)"
      using w(3,4) ok by (cases calls) auto
    show ?thesis
    proof (cases "tl calls")
      case Nil
      then show ?thesis using less Inr decide_lands[OF assms(1) w(1,2)] by (simp add: react_settled_def)
    next
      case (Cons c cs)
      then show ?thesis using less Inr w(1,2) by (simp add: react_settled_def lands_def)
    qed
  qed
qed

lemma settles_ok:
  assumes "wf_react R" "loop_ok R w" "rw_pc w = Settling calls"
    and ok: "out = Inr () \<longrightarrow> hd calls \<notin> set (pending_calls (history_in R (rw_log w)) (ra_source R))"
  shows "loop_ok R (turned (react_settled R now mid calls out (rw_log w)) (rw_sent w))"
proof (rule lands_ok[OF settles_lands[OF assms]])
  show "rw_sent w \<le> 2 * model_steps (history_in R (rw_log w)) (ra_source R)"
    using assms(2)[unfolded loop_ok_def assms(3)] unfolding running.simps spent.simps add_0_right by blast
  show "0 < ra_max_steps R \<longrightarrow> rw_sent w \<le> 2 * nat (ra_max_steps R)" using assms(2) unfolding loop_ok_def by blast
qed

lemma prepares_ok:
  assumes "loop_ok R w" "rw_pc w = Gathering ms head"
  shows "loop_ok R (turned (react_prepared R ms head prepared, rw_log w) (rw_sent w))"
  using assms by (auto simp: loop_ok_def turned_def react_prepared_def Let_def split: sum.splits built.splits)

lemma built_new_summary [simp]: "stands_on R hist (de_history (with_summary de su)) h = stands_on R hist (de_history de) h"
  "de_head (with_summary de su) = de_head de"
  by (simp_all add: with_summary_def)

lemma reduces_ok:
  assumes "loop_ok R w" "rw_pc w = Reducing de r forced cause"
  shows "loop_ok R (turned (react_reduced R de r cause summary, rw_log w) (rw_sent w))"
  using assms by (auto simp: loop_ok_def turned_def react_reduced_def rebuilt_def split: sum.splits built.splits option.splits)

lemma answers_ok:
  assumes "loop_ok R w" "rw_pc w = Completing de r first" "legal_response ans"
  shows "loop_ok R (turned (react_answered R de r first mid ans, rw_log w) (rw_sent w + 1))"
proof -
  have s: "stands_on R (history_in R (rw_log w)) (de_history de) (de_head de)" using assms(1,2) by (simp add: loop_ok_def)
  have sent: "rw_sent w + 1 \<le> 2 * model_steps (de_history de) (ra_source R) + 2"
    using assms(1,2) stands_on_steps[OF s] by (auto simp: loop_ok_def split: if_splits)
  have "rw_sent w + 1 \<le> 2 * nat (ra_max_steps R)" if "0 < ra_max_steps R"
  proof -
    have "int (model_steps (de_history de) (ra_source R)) < ra_max_steps R" using s that by (simp add: stands_on_def)
    then show ?thesis using sent by linarith
  qed
  then show ?thesis
    using assms stands_on_steps[OF s] by (auto simp: loop_ok_def turned_def react_answered_def split: sum.splits if_splits)
qed

text \<open>What the committing segment does.\<close>

lemma rejection_wf: "wf_json (JObj (mc_arguments c)) \<Longrightarrow> wf_part (rejection_part c reason)"
  by (simp add: rejection_part_def)

lemma actual_call_wf:
  assumes "wf_react R" "wf_json (JObj (mc_arguments c))" "actual_call R c = Inr p"
  shows "wf_part p"
proof (cases "ra_decode R c")
  case (Called b v)
  then have "wf_pyval v" "mk_ToolCall (VStr b) v = Inr p"
    using assms(1,3) unfolding wf_react_def by (blast, simp add: actual_call_def del: mk_ToolCall.simps)
  then show ?thesis using mk_ToolCall_wf by blast
next
  case (InvalidCall reason)
  then show ?thesis using assms(3) rejection_wf[OF assms(2), of reason] by (auto simp: actual_call_def)
qed (use assms(3) in \<open>simp add: actual_call_def\<close>)

lemma output_parts_wf:
  assumes "wf_react R" "legal_response (Inr response)" "list_all wf_part decoded" "output_parts R de response decoded = Inr (parts, indices)"
  shows "list_all wf_part parts \<and> list_ex is_facts parts"
proof -
  obtain calls where c: "mapR (actual_call R) (rs_calls response) = Inr calls"
    using assms(4) by (auto simp: output_parts_def res_simps)
  have "wf_part p" if "p \<in> set calls" for p
    using mapR_set[OF c that] actual_call_wf[OF assms(1)] assms(2) by (auto simp: list_all_iff simp del: wf_json.simps)
  then have calls: "list_all wf_part calls" by (simp add: list_all_iff)
  obtain reminded facts where f: "ra_facts R response indices reminded calls = Inr facts"
    and p: "\<exists>rest. parts = (decoded @ calls) @ [facts] @ rest \<and> list_all wf_part rest"
    using assms(4) c by (fastforce simp: output_parts_def res_simps Let_def split: if_splits option.splits)
  then have "wf_part facts" "is_facts facts" using assms(1,2) calls unfolding wf_react_def by blast+
  then show ?thesis using p calls assms(3) by auto
qed

text \<open>The output the loop has committed: the log took it after a history that holds nothing of the source the
  decision has not read.\<close>

definition commits :: "'r react \<Rightarrow> 'c decision \<Rightarrow> message_log \<Rightarrow> message_log \<Rightarrow> message \<Rightarrow> part list \<Rightarrow> finish \<Rightarrow> bool" where
  "commits R de s t m ps f \<longleftrightarrow> wf_log t \<and> history_in R t = history_in R s @ [stored_message m]
     \<and> m_source m = ra_source R \<and> m_body m = Output ps f \<and> list_ex is_facts ps
     \<and> source_head s (ra_session R) (ra_source R) = de_head de"

lemma decoded_cases:
  assumes "wf_react R" "wf_log s" "ra_session R = w_session (ra_writer R)" "legal_response (Inr response)" "legal_content content"
    and new: "find_message s mid = None" and d: "react_decoded R now fresh de response mid content s = r"
  shows "(\<exists>e. r = (Failed e, s)) \<or> (\<exists>m t ps f. commits R de s t m ps f
     \<and> (r = (Finished m, t) \<or> f = Continue \<and> r = loop_top R now fresh t))"
proof (cases "bindR content (\<lambda>(decoded, metadata).
             bindR (output_parts R de response decoded) (\<lambda>(parts, indices).
             bindR (mk_Output parts (if indices = [] then VStr ''complete'' else VStr ''continue'')) (\<lambda>b. Inr (b, indices, metadata))))")
  case (Inl e)
  then show ?thesis using d unfolding react_decoded_def Inl by auto
next
  case (Inr x)
  obtain b indices metadata where x: "x = (b, indices, metadata)" by (metis prod_cases3)
  then obtain decoded parts where c: "content = Inr (decoded, metadata)" "output_parts R de response decoded = Inr (parts, indices)"
    and mk: "mk_Output parts (if indices = [] then VStr ''complete'' else VStr ''continue'') = Inr b"
    using Inr by (auto simp: res_simps)
  have wf: "list_all wf_part parts" "list_ex is_facts parts" using output_parts_wf[OF assms(1,4) _ c(2)] assms(5) c(1) by simp_all
  have body: "wf_body b" by (rule mk_body_wf(2)[OF wf(1) mk])
  obtain f where f: "b = Output parts f" "indices \<noteq> [] \<longrightarrow> f = Continue"
    using mk as_finish_name[of Continue] by (auto simp: mk_Output_def res_simps split: if_splits)
  obtain q t where a: "writer_append now (ra_writer R) mid b (Some (de_head de)) metadata s = (q, t)" by fastforce
  have "pred_option wf_pyval metadata" "wf_writer (ra_writer R)" using assms(1,5) c(1) by (simp_all add: wf_react_def)
  note adds = append_adds[OF a assms(2) body this]
  have r: "r = (case (q, t) of (Inl e, s') \<Rightarrow> (Failed e, s')
             | (Inr m, s') \<Rightarrow> if indices = [] then (Finished m, s') else loop_top R now fresh s')"
    using d unfolding react_decoded_def Inr x by (simp add: a)
  show ?thesis
  proof (cases q)
    case (Inl e)
    then show ?thesis using r adds[of e] by simp
  next
    case (Inr m)
    have "history_in R t = history_in R s @ [stored_message m]" using adds Inr new assms(3) by simp
    then have "commits R de s t m parts f"
      using adds[of undefined "ra_session R"] Inr wf(2) f(1) by (auto simp: commits_def)
    moreover have "r = (Finished m, t) \<or> f = Continue \<and> r = loop_top R now fresh t" using r Inr f(2) by (cases "indices = []") simp_all
    ultimately show ?thesis by blast
  qed
qed

lemma decodes_ok:
  assumes "wf_react R" "loop_ok R w" "rw_pc w = Decoding de response mid" "find_message (rw_log w) mid = None" "legal_content content"
  shows "loop_ok R (turned (react_decoded R now fresh de response mid content (rw_log w)) (rw_sent w))"
proof -
  let ?s = "rw_log w" and ?k = "\<lambda>s. model_steps (history_in R s) (ra_source R)"
  have w: "wf_log ?s" "stands_on R (history_in R ?s) (de_history de) (de_head de)" "legal_response (Inr response)"
    "rw_sent w \<le> 2 * ?k ?s + 2" "0 < ra_max_steps R \<longrightarrow> rw_sent w \<le> 2 * nat (ra_max_steps R)"
    using assms(2)[unfolded loop_ok_def assms(3) pc_ok.simps running.simps spent.simps] by blast+
  have sess: "ra_session R = w_session (ra_writer R)" using w(2) unfolding stands_on_def by blast
  from decoded_cases[OF assms(1) w(1) sess w(3) assms(5,4) refl, of now fresh de]
  show ?thesis
  proof (elim disjE exE conjE)
    fix e assume "react_decoded R now fresh de response mid content ?s = (Failed e, ?s)"
    then show ?thesis using w(1,5) by (simp add: loop_ok_def turned_def)
  next
    fix m t ps f assume "commits R de ?s t m ps f" "react_decoded R now fresh de response mid content ?s = (Finished m, t)"
    then show ?thesis using w(5) by (simp add: loop_ok_def turned_def commits_def)
  next
    fix m t ps f assume c: "commits R de ?s t m ps f" "f = Continue"
      and r: "react_decoded R now fresh de response mid content ?s = loop_top R now fresh t"
    have "?k t = Suc (?k ?s)" using c steps_output unfolding commits_def by metis
    then have "rw_sent w \<le> 2 * ?k t" using w(4) by simp
    moreover have "lands R t (loop_top R now fresh t)" using loop_top_lands[OF assms(1) _ sess] c(1) unfolding commits_def by blast
    ultimately show ?thesis unfolding r using lands_ok w(5) by blast
  qed
qed

lemma own_ok: "react_own R w w' \<Longrightarrow> wf_react R \<Longrightarrow> loop_ok R w \<Longrightarrow> loop_ok R w'"
  by (induction rule: react_own.induct) (rule settles_ok prepares_ok reduces_ok answers_ok decodes_ok; assumption)+

lemma idle_ok: "react_idle R w w' \<Longrightarrow> loop_ok R w \<Longrightarrow> loop_ok R w'"
  by (induction rule: react_idle.induct) (auto simp: loop_ok_def pc_ok_later steps_calm)

lemma react_step_ok:
  assumes "react_step R w w'" "wf_react R" "loop_ok R w"
  shows "loop_ok R w'"
  using assms
proof cases
  case (begins now mid)
  have "wf_log (rw_log w)" using assms(3) unfolding loop_ok_def by blast
  then show ?thesis unfolding begins by (rule react_begin_ok[OF assms(2)])
next
  case (gone t new)
  then show ?thesis using assms(3) by (simp add: loop_ok_def)
qed (use own_ok idle_ok in blast)+

lemma reached_ok:
  assumes "reached R w" "wf_react R"
  shows "loop_ok R w"
  using assms
proof (induction rule: reached.induct)
  case (start s)
  then show ?case by (simp add: loop_ok_def)
next
  case (step w w')
  then show ?case using react_step_ok by blast
qed

section \<open>Requests and outputs\<close>

text \<open>C10. A model request shows a settled history: whenever the loop waits for a model, the request is the one built from
  the history the decision has read; the log extends that history, every call of the source
  in it that is not closed has its result in it, and the request fits the window of the model.\<close>

theorem request_after_settlement:
  assumes "reached R w" and "wf_react R" and "rw_pc w = Completing de r first"
  shows "built_request R de = Built r
    \<and> (\<exists>new. history_in R (rw_log w) = de_history de @ new)
    \<and> (\<forall>m \<in> set (de_history de). \<forall>c. m_source m = ra_source R \<and> c \<in> set (message_calls m) \<and> closed_through (de_history de) (ra_source R) < m_seq m
          \<longrightarrow> (\<exists>m' \<in> set (de_history de). m_source m' = ra_source R \<and> result_ref (m_body m') = Some c))
    \<and> (\<forall>capacity. cm_window (ra_model R) = Some capacity \<longrightarrow> cm_estimate (ra_model R) r + ra_max_output R \<le> capacity)"
proof -
  have ok: "wf_log (rw_log w)" "stands_on R (history_in R (rw_log w)) (de_history de) (de_head de)" "built_request R de = Built r"
    using reached_ok[OF assms(1,2)] assms(3) by (simp_all add: loop_ok_def)
  then obtain new where new: "history_in R (rw_log w) = de_history de @ new" and none: "pending_calls (de_history de) (ra_source R) = []"
    unfolding stands_on_def by blast
  have "prefix_ok (de_history de)" using history_prefix_ok[OF ok(1), of "ra_session R"] new prefix_ok_take by simp
  note exact = pending_calls_spec[OF this, of _ "ra_source R", unfolded none]
  have obs: "(\<exists>i. (c, i) \<in> set (observed m)) \<longleftrightarrow> result_ref (m_body m) = Some c" for c m by (cases "m_body m") (auto simp: observed.simps)
  have "\<forall>capacity. cm_window (ra_model R) = Some capacity \<longrightarrow> cm_estimate (ra_model R) r + ra_max_output R \<le> capacity"
    using ok(3) by (auto simp: built_request_def build_def Let_def split: if_splits sum.splits option.splits)
  then show ?thesis using ok(3) new exact unfolding obs by auto
qed

text \<open>C23. An output answers the history it was made from: when the segment that decodes an answer adds anything to the
  session, the first message it adds is that output, and no message of the source had been
  stored since the decision read its history.\<close>

theorem output_answers_history:
  assumes "reached R w" and "wf_react R" and "rw_pc w = Decoding de response mid"
    and "find_message (rw_log w) mid = None" and "legal_content content"
    and "react_decoded R now fresh de response mid content (rw_log w) = (pc, t)"
  shows "t = rw_log w \<or> (\<exists>m rest. history_in R t = history_in R (rw_log w) @ m # rest
      \<and> m_source m = ra_source R \<and> (\<exists>ps f. m_body m = Output ps f)
      \<and> from_source (ra_source R) (history_in R (rw_log w)) = from_source (ra_source R) (de_history de))"
proof -
  have ok: "wf_log (rw_log w)" "stands_on R (history_in R (rw_log w)) (de_history de) (de_head de)" "legal_response (Inr response)"
    using reached_ok[OF assms(1,2)] unfolding loop_ok_def assms(3) pc_ok.simps by blast+
  then obtain new where sess: "ra_session R = w_session (ra_writer R)" and new: "history_in R (rw_log w) = de_history de @ new"
    and head: "de_head de = source_last (ra_source R) (de_history de)"
    unfolding stands_on_def by blast
  from decoded_cases[OF assms(2) ok(1) sess ok(3) assms(5,4,6)] show ?thesis
  proof (elim disjE exE)
    fix m u ps f assume c: "commits R de (rw_log w) u m ps f \<and> ((pc, t) = (Finished m, u) \<or> f = Continue \<and> (pc, t) = loop_top R now fresh u)"
    then have wfu: "wf_log u" and m: "m_source m = ra_source R" "m_body m = Output ps f" "history_in R u = history_in R (rw_log w) @ [stored_message m]"
      and h: "source_head (rw_log w) (ra_session R) (ra_source R) = de_head de" unfolding commits_def by blast+
    have "\<exists>rest. history_in R t = history_in R u @ rest"
      using c loop_top_lands[OF assms(2) wfu sess] unfolding lands_def by (metis append_Nil2 prod.inject snd_conv)
    moreover have "from_source (ra_source R) new = []"
      by (rule source_last_unseen[of "de_history de"])
         (use history_prefix_ok[OF ok(1), of "ra_session R"] source_last_head[OF ok(1)] new head h in simp_all)
    ultimately show ?thesis using m new by (auto simp: from_source_def)
  qed simp
qed

text \<open>C32. A bounded loop is bounded in its cost: when \<open>max_steps\<close> is positive, a run of the loop sends at most two
  requests for each step it may take, over any interleaving and with any answers.\<close>

theorem requests_bounded:
  assumes "reached R w" and "wf_react R" and "0 < ra_max_steps R"
  shows "int (rw_sent w) \<le> 2 * ra_max_steps R"
  using reached_ok[OF assms(1,2)] assms(3) by (simp add: loop_ok_def) linarith

section \<open>The loop ends\<close>

fun stage :: "('c, 'r) react_pc \<Rightarrow> nat" where
  "stage (Settling calls) = 6 + length calls"
| "stage (Gathering ms head) = 6"
| "stage (Reducing de r forced cause) = (if cause = Some ContextLength then 3 else 5)"
| "stage (Completing de r first) = (if first then 4 else 2)"
| "stage (Decoding de response mid) = 1"
| "stage _ = 0"

text \<open>Steps left, then the segments left in the current decision.\<close>

definition rank :: "'r react \<Rightarrow> ('c, 'r) react_world \<Rightarrow> nat \<times> nat" where
  "rank R w = (if running (rw_pc w)
     then (Suc (nat (ra_max_steps R) - model_steps (history_in R (rw_log w)) (ra_source R)), stage (rw_pc w)) else (0, 0))"

abbreviation falls :: "((nat \<times> nat) \<times> nat \<times> nat) set" where
  "falls \<equiv> less_than <*lex*> less_than"

lemma lands_same: "lands R s r \<Longrightarrow> running (fst r) \<Longrightarrow> snd r = s"
  by (simp add: lands_def)

lemma rank_over: "running (rw_pc w) \<Longrightarrow> \<not> running (rw_pc w') \<Longrightarrow> (rank R w', rank R w) \<in> falls"
  by (simp add: rank_def)

lemma rank_same_log:
  assumes "running (rw_pc w)" "rw_log w' = rw_log w" "stage (rw_pc w') < stage (rw_pc w)"
  shows "(rank R w', rank R w) \<in> falls"
  using assms by (simp add: rank_def)

lemma decide_stage: "wf_log s \<Longrightarrow> stage (fst (decide R now mid s)) \<le> 6"
  by (auto simp: decide_def snapshot_all split: sum.splits prod.splits)

lemma settles_falls:
  fixes w :: "('c, 'r) react_world" and r :: "('c, 'r) react_pc \<times> message_log"
  assumes "wf_react R" "loop_ok R w" "rw_pc w = Settling calls"
    and ok: "out = Inr () \<longrightarrow> hd calls \<notin> set (pending_calls (history_in R (rw_log w)) (ra_source R))"
    and r: "r = react_settled R now mid calls out (rw_log w)"
  shows "(rank R (turned r n), rank R w) \<in> falls"
proof -
  have w: "wf_log (rw_log w)" "calls \<noteq> []" using assms(2)[unfolded loop_ok_def assms(3) pc_ok.simps] by blast+
  have same: "running (fst r) \<longrightarrow> snd r = rw_log w" unfolding r using lands_same[OF settles_lands[OF assms(1-4)]] by blast
  have d: "stage (fst (decide R now mid (rw_log w) :: ('c, 'r) react_pc \<times> message_log)) \<le> 6" by (rule decide_stage[OF w(1)])
  have "stage (fst r) < stage (rw_pc w)"
    using d w(2) assms(3) unfolding r by (cases calls) (auto simp: react_settled_def split: sum.split list.split)
  then show ?thesis using same assms(3) by (cases "running (fst r)") (simp_all add: rank_def turned_def)
qed

lemma decodes_falls:
  fixes w :: "('c, 'r) react_world" and r :: "('c, 'r) react_pc \<times> message_log"
  assumes "wf_react R" "0 < ra_max_steps R" "loop_ok R w" "rw_pc w = Decoding de response mid" "find_message (rw_log w) mid = None" "legal_content content"
    and r: "react_decoded R now fresh de response mid content (rw_log w) = r"
  shows "(rank R (turned r n), rank R w) \<in> falls"
proof (cases "running (fst r)")
  case False
  then show ?thesis using assms(4) by (intro rank_over) (simp_all add: turned_def)
next
  case True
  let ?s = "rw_log w" and ?k = "\<lambda>s. model_steps (history_in R s) (ra_source R)"
  have w: "wf_log ?s" "stands_on R (history_in R ?s) (de_history de) (de_head de)" "legal_response (Inr response)"
    using assms(3)[unfolded loop_ok_def assms(4) pc_ok.simps running.simps spent.simps] by blast+
  have sess: "ra_session R = w_session (ra_writer R)" using w(2) unfolding stands_on_def by blast
  obtain m t ps where c: "commits R de ?s t m ps Continue" and top: "r = loop_top R now fresh t"
    using decoded_cases[OF assms(1) w(1) sess w(3) assms(6,5) r] True by force
  have "?k t = Suc (?k ?s)" using c steps_output unfolding commits_def by metis
  moreover have "wf_log t" using c by (simp add: commits_def)
  then have "snd r = t" unfolding top by (rule lands_same[OF loop_top_lands[OF assms(1) _ sess] True[unfolded top]])
  moreover have "?k ?s < nat (ra_max_steps R)" using w(2) stands_on_steps[OF w(2)] assms(2) unfolding stands_on_def by auto
  ultimately show ?thesis using True assms(4) by (simp add: rank_def turned_def diff_less_mono2)
qed

lemma own_falls:
  fixes w w' :: "('c, 'r) react_world"
  assumes "react_own R w w'" "wf_react R" "0 < ra_max_steps R" "loop_ok R w"
  shows "(rank R w', rank R w) \<in> falls"
  using assms(1)
proof cases
  case (settles calls out now mid)
  then show ?thesis using settles_falls[OF assms(2,4) _ _ refl] by blast
next
  case (prepares ms head prepared)
  then show ?thesis
    by (intro rank_same_log) (auto simp: turned_def react_prepared_def Let_def split: sum.splits built.splits)
next
  case (reduces de r forced cause summary)
  then show ?thesis
    by (intro rank_same_log) (auto simp: turned_def react_reduced_def rebuilt_def split: sum.splits built.splits option.splits)
next
  case (answers de r first ans mid)
  then show ?thesis
    by (intro rank_same_log) (auto simp: turned_def react_answered_def split: sum.splits)
next
  case (decodes de response mid content now fresh)
  then show ?thesis using decodes_falls[OF assms(2-4) _ _ _ refl] by blast
qed

lemma idle_rank: "(react_idle R)\<^sup>*\<^sup>* w u \<Longrightarrow> rank R u = rank R w \<and> (loop_ok R w \<longrightarrow> loop_ok R u)"
proof (induction rule: rtranclp_induct)
  case (step u v)
  from step(2) have "rank R v = rank R u"
    by cases (simp add: rank_def steps_calm)
  then show ?case using step(3) idle_ok[OF step(2)] by simp
qed simp

text \<open>C24. A bounded loop ends: with a positive \<open>max_steps\<close> there is no infinite run of the loop, whatever models,
  tools, reducers and decoders answer. Between any two of its segments others may write results of
  tools, inputs and messages of other sources, as many as they like - but no output and no abandon of
  the loop's own source: these come with a revocation of the loop's task, so they are the step that
  ends the run (an abandon would reset the count of steps).\<close>

theorem react_terminates:
  assumes "wf_react R" and "0 < ra_max_steps R"
  shows "wf {(w', w). reached R w \<and> (\<exists>u. (react_idle R)\<^sup>*\<^sup>* w u \<and> react_own R u w')}"
proof (rule wf_subset)
  show "wf (inv_image falls (rank R))" by (intro wf_inv_image wf_lex_prod) simp_all
  show "{(w', w). reached R w \<and> (\<exists>u. (react_idle R)\<^sup>*\<^sup>* w u \<and> react_own R u w')} \<subseteq> inv_image falls (rank R)"
  proof clarify
    fix w' w u assume r: "reached R w" and i: "(react_idle R)\<^sup>*\<^sup>* w u" and o: "react_own R u w'"
    have "rank R u = rank R w" "loop_ok R u" using idle_rank[OF i] reached_ok[OF r assms(1)] by simp_all
    then show "(w', w) \<in> inv_image falls (rank R)" using own_falls[OF o assms] by simp
  qed
qed

section \<open>A sample run\<close>

text \<open>One decision on the sample conversation: the model is asked once about the user's message and answers with a text.\<close>

definition reply_output :: body where
  "reply_output = Output [ContentPart ''text'' (JStr ''hi''), ContentPart ''model.facts'' (JObj [])] Complete"

definition reply_author :: writer where
  "reply_author = program_writer\<lparr>w_content := map (\<lambda>k. (k, \<lambda>p. Inr (Some \<lparr>ref_binding_ids = [], ref_artifact_ids = []\<rparr>))) [''text'', ''model.facts'']\<rparr>"

definition sample_react :: "unit react" where
  "sample_react = \<lparr>ra_session = ''s'', ra_writer = reply_author, ra_max_steps = 3, ra_max_output = 10, ra_terminal = [],
     ra_tool_name = (\<lambda>b. b), ra_schemas = [],
     ra_model = \<lparr>cm_window = Some 100, cm_max_tools = None,
       cm_render = (\<lambda>ms cut reference fresh. Inr \<lparr>mr_rows = [row ''user'' ''hi''], mr_tools = [], mr_system = [], mr_max_output = 0, mr_rest = ()\<rparr>),
       cm_estimate = (\<lambda>r. 5)\<rparr>,
     ra_reduces = False, ra_decode = (\<lambda>c. InvalidCall ''unknown''),
     ra_facts = (\<lambda>response indices reminded calls. Inr (ContentPart ''model.facts'' (JObj [])))\<rparr>"

definition sample_materials :: "unit materials" where
  "sample_materials = \<lparr>mt_prompt = [], mt_reminders = [], mt_summary = None, mt_references = ()\<rparr>"

definition sample_decision :: "unit decision" where
  "sample_decision = \<lparr>de_history = [said ''m1'' 0 ''user'' hello], de_head = 0, de_materials = sample_materials\<rparr>"

definition sample_request :: "unit model_request" where
  "sample_request = \<lparr>mr_rows = [row ''user'' ''hi''], mr_tools = [], mr_system = [], mr_max_output = 10, mr_rest = ()\<rparr>"

definition sample_world :: "(unit, unit) react_pc \<Rightarrow> nat \<Rightarrow> (unit, unit) react_world" where
  "sample_world pc n = \<lparr>rw_pc = pc, rw_log = log1, rw_sent = n\<rparr>"

lemma sample_react_wf: "wf_react sample_react"
  by (simp add: wf_react_def sample_react_def is_facts_def reply_author_def wf_writer_def project_metadata_def program_writer_def user_writer_def)

lemma sample_history1: "session_history log1 ''s'' = [said ''m1'' 0 ''user'' hello]"
proof -
  have "decode_body hello_doc = Inr hello" using decode_encode[of hello hello_doc] by (simp add: encode_samples) (simp add: hello_def)
  then show ?thesis
    using make_samples by (simp add: session_history_def session_rows_def log_after_def said_row_def message_of_def json_object_of_def bound_log_def empty_log_def)
qed

lemma sample_begin: "react_begin sample_react 5 ''q'' log1 = (Gathering [said ''m1'' 0 ''user'' hello] 0, log1)"
  by (simp add: react_begin_def sample_react_def loop_top_def decide_def snapshot_all sample_wf sample_history1 reply_author_def pending_calls_def recovered_def
      recover_step_def model_steps_def steps_step_def source_last_def max_default_def said_def hello_def)

lemma sample_built: "built_request sample_react sample_decision = Built sample_request"
  by (simp add: built_request_def sample_react_def sample_decision_def sample_request_def build_def rendered_history_def
      summary_cutoff_def strictly_ordered_def said_def check_role_def row_def request_rows_def reminder_content_def sample_materials_def)

lemma sample_waiting: "reached sample_react (sample_world (Completing sample_decision sample_request True) 0)"
proof -
  have 1: "reached sample_react (sample_world Ready 0)" unfolding sample_world_def by (rule reached.start) simp
  have "react_step sample_react (sample_world Ready 0) (sample_world (Gathering [said ''m1'' 0 ''user'' hello] 0) 0)"
    using react_step.begins[of sample_react "sample_world Ready 0" 5 "''q''"] by (simp add: sample_world_def sample_begin turned_def)
  then have 2: "reached sample_react (sample_world (Gathering [said ''m1'' 0 ''user'' hello] 0) 0)" by (rule reached.step[OF 1])
  have "react_prepared sample_react [said ''m1'' 0 ''user'' hello] 0 (Inr sample_materials) = Completing sample_decision sample_request True"
    using sample_built by (simp add: react_prepared_def sample_decision_def) (simp add: sample_react_def)
  then have "react_own sample_react (sample_world (Gathering [said ''m1'' 0 ''user'' hello] 0) 0) (sample_world (Completing sample_decision sample_request True) 0)"
    using react_own.prepares[of "sample_world (Gathering [said ''m1'' 0 ''user'' hello] 0) 0" _ _ sample_react "Inr sample_materials"]
    by (simp add: sample_world_def turned_def)
  then show ?thesis by (rule reached.step[OF 2 react_step.own])
qed

abbreviation sample_response :: response where
  "sample_response \<equiv> \<lparr>rs_content = Some ''hi'', rs_calls = [], rs_thinking = None, rs_finish_reason = None,
     rs_continuation = None, rs_usage = None, rs_call_record_id = None\<rparr>"

lemma sample_answered: "reached sample_react (sample_world (Decoding sample_decision sample_response ''m2'') 1)"
proof -
  have "react_own sample_react (sample_world (Completing sample_decision sample_request True) 0) (sample_world (Decoding sample_decision sample_response ''m2'') 1)"
    using react_own.answers[of "sample_world (Completing sample_decision sample_request True) 0" _ _ _ "Inr sample_response" sample_react "''m2''"]
    by (simp add: sample_world_def turned_def react_answered_def)
  then show ?thesis by (rule reached.step[OF sample_waiting react_step.own])
qed

lemma request_after_settlement_witness:
  "built_request sample_react sample_decision = Built sample_request \<and> (\<exists>new. session_history log1 ''s'' = de_history sample_decision @ new)
    \<and> 5 + 10 \<le> (100 :: int)"
  using request_after_settlement[OF sample_waiting sample_react_wf, of sample_decision sample_request True]
  by (simp add: sample_world_def) (simp add: sample_react_def)

lemma requests_bounded_witness: "\<exists>w :: (unit, unit) react_world. reached sample_react w \<and> rw_sent w = 1 \<and> int (rw_sent w) \<le> 2 * 3"
proof (intro exI conjI)
  let ?w = "sample_world (Decoding sample_decision sample_response ''m2'') 1"
  show "reached sample_react ?w" by (rule sample_answered)
  show "rw_sent ?w = 1" by (simp add: sample_world_def)
  show "int (rw_sent ?w) \<le> 2 * 3" using requests_bounded[OF sample_answered sample_react_wf] by (simp add: sample_react_def)
qed

lemma react_terminates_witness:
  "wf {(w' :: (unit, unit) react_world, w). reached sample_react w \<and> (\<exists>u. (react_idle sample_react)\<^sup>*\<^sup>* w u \<and> react_own sample_react u w')}"
  by (rule react_terminates[OF sample_react_wf]) (simp add: sample_react_def)

lemma sample_output:
  "output_parts sample_react sample_decision sample_response [ContentPart ''text'' (JStr ''hi'')] = Inr (body_parts reply_output, [])"
  "mk_Output (body_parts reply_output) (VStr ''complete'') = Inr reply_output"
  using as_finish_name[of Complete]
  by (simp_all add: output_parts_def sample_react_def sample_decision_def sample_materials_def reply_output_def mk_Output_def)

lemma reply_shape: "type_of reply_output = OutputType" "result_ref reply_output = None" "\<not> is_control reply_output"
  "body_parts reply_output = [ContentPart ''text'' (JStr ''hi''), ContentPart ''model.facts'' (JObj [])]"
  by (simp_all add: reply_output_def)

lemma sample_append:
  "\<exists>t. append_message 5 reply_author ''m2'' reply_output (Some 0) None (log1\<lparr>in_tx := True\<rparr>) = Inr (said ''m2'' 1 ''model'' reply_output, t)
     \<and> length (messages t) = 2"
proof -
  have "mk_Message ''m2'' ''s'' 1 (Aware 5) ''model'' ''chat'' reply_output (VMap []) = Inr (said ''m2'' 1 ''model'' reply_output)"
    by (simp add: mk_Message_def no_metadata reply_output_def said_def)
  moreover have "\<exists>doc. encode_body reply_output False = Inr doc" by (simp add: reply_output_def encode_body_def Let_def)
  ultimately show ?thesis
    by (auto simp: append_eval sample_eval reply_author_def reply_shape)
qed

lemma sample_commit:
  "\<exists>pc t. react_decoded sample_react 5 ''q'' sample_decision sample_response ''m2'' (Inr ([ContentPart ''text'' (JStr ''hi'')], None)) log1
     = (pc :: (unit, unit) react_pc, t) \<and> length (messages t) = 2"
proof -
  obtain u where a: "append_message 5 reply_author ''m2'' reply_output (Some 0) None (log1\<lparr>in_tx := True\<rparr>) = Inr (said ''m2'' 1 ''model'' reply_output, u)"
    and n: "length (messages u) = 2" using sample_append by blast
  have "ra_writer sample_react = reply_author" "de_head sample_decision = 0" by (simp_all add: sample_react_def sample_decision_def)
  then show ?thesis
    using a n sample_output by (simp add: react_decoded_def writer_append_def write_tx_def)
qed

lemma output_answers_history_witness:
  "\<exists>pc :: (unit, unit) react_pc. \<exists>t m rest. react_decoded sample_react 5 ''q'' sample_decision sample_response ''m2'' (Inr ([ContentPart ''text'' (JStr ''hi'')], None)) log1 = (pc, t)
    \<and> session_history t ''s'' = said ''m1'' 0 ''user'' hello # m # rest \<and> m_source m = ''chat''"
proof -
  obtain pc :: "(unit, unit) react_pc" and t where d: "react_decoded sample_react 5 ''q'' sample_decision sample_response ''m2'' (Inr ([ContentPart ''text'' (JStr ''hi'')], None)) log1 = (pc, t)"
    and n: "length (messages t) = 2" using sample_commit by blast
  have "t \<noteq> log1" using n by (auto simp: log_after_def)
  moreover have "find_message log1 ''m2'' = None" by (simp add: sample_find)
  ultimately show ?thesis
    using output_answers_history[OF sample_answered sample_react_wf, of sample_decision sample_response "''m2''"
        "Inr ([ContentPart ''text'' (JStr ''hi'')], None)" 5 "''q''" pc t] d
    by (simp add: sample_world_def sample_history1) (auto simp: sample_react_def sample_history1 reply_author_def)
qed

end
