(* ===== verification/Model_Projection.thy ===== *)
theory Model_Projection
  imports React
begin

text \<open>
  \<open>plugins/models/projection.py\<close>: what a model is shown of a session, and the facts of its answers that are kept
  for replay.

  The call ledger, the rendering of content, the names of tools and the digest of a call reference are
  parameters. \<open>pj_replay\<close> is the reading of several receipts at once; for a plain reader it answers the reader itself.
  The request's fields other than rows, tools, system prompt and budget are its continuation.
\<close>

section \<open>Facts\<close>

definition nonempty_text :: "json \<Rightarrow> bool" where
  "nonempty_text j = (case j of JStr s \<Rightarrow> s \<noteq> [] | _ \<Rightarrow> False)"

definition is_object :: "json \<Rightarrow> bool" where
  "is_object j = (case j of JObj d \<Rightarrow> True | _ \<Rightarrow> False)"

definition text_or_null :: "json \<Rightarrow> bool" where
  "text_or_null j = (case j of JNull \<Rightarrow> True | JStr s \<Rightarrow> True | _ \<Rightarrow> False)"

text \<open>\<open>index.isdecimal() and str(int(index)) == index\<close>: other decimal digits never print as themselves.\<close>

definition is_index :: "string \<Rightarrow> bool" where
  "is_index s \<longleftrightarrow> s \<noteq> [] \<and> list_all (\<lambda>c. 48 \<le> (of_char c :: nat) \<and> (of_char c :: nat) \<le> 57) s
     \<and> (length s = 1 \<or> hd s \<noteq> CHR ''0'')"

definition check_tool_rejection :: "json \<Rightarrow> unit res" where
  "check_tool_rejection value = (case value of
     JObj d \<Rightarrow>
       (if set (keys d) = {''name'', ''arguments'', ''error''} \<and> nonempty_text (field d ''name'') \<and> is_object (field d ''arguments'')
           \<and> nonempty_text (field d ''error'') then Inr () else Inl ValueError)
   | _ \<Rightarrow> Inl ValueError)"

definition wire_ok :: "json \<Rightarrow> bool" where
  "wire_ok raw = (case raw of
     JObj d \<Rightarrow> set (keys d) = {''name'', ''arguments''} \<and> nonempty_text (field d ''name'') \<and> is_object (field d ''arguments'')
   | _ \<Rightarrow> False)"

definition continuation_ok :: "json \<Rightarrow> bool" where
  "continuation_ok j = (case j of
     JNull \<Rightarrow> True
   | JObj d \<Rightarrow> set (keys d) = {''binding_id'', ''payload''} \<and> nonempty_text (field d ''binding_id'') \<and> is_object (field d ''payload'')
   | _ \<Rightarrow> False)"

definition old_fields :: "string set" where
  "old_fields = {''call_record_id'', ''tool_ids'', ''thinking'', ''continuation''}"

definition new_fields :: "string set" where
  "new_fields = old_fields \<union> {''wire_tool_calls'', ''reminder''}"

definition facts_ok :: "json_object \<Rightarrow> bool" where
  "facts_ok d \<longleftrightarrow>
     (set (keys d) = old_fields \<or> set (keys d) = new_fields) \<and> nonempty_text (field d ''call_record_id'')
     \<and> (case field d ''tool_ids'' of
          JObj ids \<Rightarrow>
            list_all (\<lambda>(index, identity). is_index index \<and> nonempty_text identity) ids \<and> distinct (map snd ids)
            \<and> (''wire_tool_calls'' \<in> set (keys d) \<longrightarrow>
                (case field d ''wire_tool_calls'' of
                   JObj wire \<Rightarrow> set (keys wire) \<subseteq> set (keys ids) \<and> list_all (\<lambda>(index, raw). wire_ok raw) wire \<and> text_or_null (field d ''reminder'')
                 | _ \<Rightarrow> False))
        | _ \<Rightarrow> False)
     \<and> text_or_null (field d ''thinking'') \<and> continuation_ok (field d ''continuation'')"

definition check_facts :: "json \<Rightarrow> unit res" where
  "check_facts value = (case value of JObj d \<Rightarrow> (if facts_ok d then Inr () else Inl ValueError) | _ \<Rightarrow> Inl ValueError)"

definition display_facts :: "json \<Rightarrow> json_object res" where
  "display_facts value = bindR (check_facts value) (\<lambda>_.
     Inr [(''call_record_id'', field (obj_items value) ''call_record_id''), (''thinking'', field (obj_items value) ''thinking'')])"

definition opt_json :: "string option \<Rightarrow> json" where
  "opt_json t = (case t of None \<Rightarrow> JNull | Some s \<Rightarrow> JStr s)"

definition response_facts :: "response \<Rightarrow> nat list \<Rightarrow> string option \<Rightarrow> json_object \<Rightarrow> part res" where
  "response_facts response indices reminded wire = (case rs_call_record_id response of
     None \<Rightarrow> Inl ValueError
   | Some record \<Rightarrow>
       if length indices \<noteq> length (rs_calls response) \<or> \<not> distinct indices then Inl ValueError
       else Inr (ContentPart ''model.facts'' (JObj
         [(''call_record_id'', JStr record),
          (''tool_ids'', JObj (map (\<lambda>(index, c). (show_nat index, JStr (mc_id c))) (zip indices (rs_calls response)))),
          (''wire_tool_calls'', JObj wire),
          (''reminder'', opt_json reminded),
          (''thinking'', opt_json (rs_thinking response)),
          (''continuation'', case rs_continuation response of
              None \<Rightarrow> JNull
            | Some (binding, payload) \<Rightarrow> JObj [(''binding_id'', JStr binding), (''payload'', JObj payload)])])))"

section \<open>The projection of a model\<close>

record call_receipt =
  cr_state :: string
  cr_binding :: string

record projection =
  pj_binding :: string
  pj_window :: "int option"
  pj_max_tools :: "nat option"
  pj_estimate :: "json_object list \<Rightarrow> json_object list \<Rightarrow> int"
  pj_source :: string
  pj_content :: "part \<Rightarrow> json_object list res"
  pj_tool_name :: "string \<Rightarrow> string res"
  pj_read_call :: "string \<Rightarrow> call_receipt res"
  pj_replay :: "string list \<Rightarrow> (string \<Rightarrow> call_receipt res) res"
  pj_digest :: "call_ref \<Rightarrow> string"
  pj_keep :: "string list"

text \<open>A call whose name or arguments the menu has changed is kept as the model wrote it.\<close>

definition wire_step :: "projection \<Rightarrow> nat \<times> model_call \<times> part \<Rightarrow> json_object \<Rightarrow> json_object res" where
  "wire_step P ica wire = (case ica of (index, original, actual) \<Rightarrow> (case actual of
     ContentPart k v \<Rightarrow> bindR (check_tool_rejection v) (\<lambda>_. Inr wire)
   | ToolCall binding args \<Rightarrow> bindR (pj_tool_name P binding) (\<lambda>name.
       if mc_name original \<noteq> name \<or> \<not> json_eq (JObj (mc_arguments original)) (JObj args)
       then Inr (AList.update (show_nat index)
              (JObj [(''name'', JStr (mc_name original)), (''arguments'', JObj (mc_arguments original))]) wire)
       else Inr wire)))"

definition facts :: "projection \<Rightarrow> response \<Rightarrow> nat list \<Rightarrow> string option \<Rightarrow> part list option \<Rightarrow> part res" where
  "facts P response indices reminded actual =
     (if actual \<noteq> None \<and> length (the actual) \<noteq> length (rs_calls response) then Inl ValueError
      else bindR (foldR (wire_step P) (zip indices (zip (rs_calls response) (case actual of None \<Rightarrow> [] | Some ps \<Rightarrow> ps))) []) (\<lambda>wire.
        bindR (response_facts response indices reminded wire) (\<lambda>kept.
        bindR (pj_read_call P (the (rs_call_record_id response))) (\<lambda>receipt.
        if cr_state receipt \<noteq> ''success'' \<or> cr_binding receipt \<noteq> pj_binding P then Inl ValueError else Inr kept))))"

section \<open>Withdrawn outputs\<close>

record withdrawal =
  wd_pending :: "(string \<times> message list) list"
  wd_outputs :: "string list"
  wd_calls :: "call_ref list"

definition no_withdrawal :: withdrawal where
  "no_withdrawal = \<lparr>wd_pending = [], wd_outputs = [], wd_calls = []\<rparr>"

definition source_pending :: "withdrawal \<Rightarrow> string \<Rightarrow> message list" where
  "source_pending W source = (case map_of (wd_pending W) source of None \<Rightarrow> [] | Some ms \<Rightarrow> ms)"

definition withdraw_step :: "message \<Rightarrow> withdrawal \<Rightarrow> withdrawal" where
  "withdraw_step m W = (case m_body m of
     Output ps f \<Rightarrow>
       W\<lparr>wd_pending := AList.update (m_source m) (if f = Continue then source_pending W (m_source m) @ [m] else []) (wd_pending W)\<rparr>
   | Control a through reason \<Rightarrow>
       (if a \<noteq> Abandon then W
        else let outputs = source_pending W (m_source m); gone = filter (\<lambda>x. m_seq x \<le> through) outputs in
          W\<lparr>wd_outputs := map m_id gone @ wd_outputs W,
            wd_calls := concat (map (\<lambda>x. calls_in (m_id x) (body_parts (m_body x))) gone) @ wd_calls W,
            wd_pending := AList.update (m_source m) (filter (\<lambda>x. through < m_seq x) outputs) (wd_pending W)\<rparr>)
   | _ \<Rightarrow> W)"

definition withdrawn :: "message list \<Rightarrow> withdrawal" where
  "withdrawn ms = fold withdraw_step ms no_withdrawal"

section \<open>Replay\<close>

definition facts_parts :: "part list \<Rightarrow> json list" where
  "facts_parts ps = concat (map (\<lambda>p. case p of ContentPart k v \<Rightarrow> (if k = ''model.facts'' then [v] else []) | _ \<Rightarrow> []) ps)"

definition record_step :: "string list \<Rightarrow> message \<Rightarrow> (string \<times> json_object) list \<Rightarrow> (string \<times> json_object) list res" where
  "record_step gone m recorded = (case m_body m of
     Output ps f \<Rightarrow>
       (if m_id m \<in> set gone then Inr recorded
        else case facts_parts ps of
            [] \<Rightarrow> Inr recorded
          | [v] \<Rightarrow> bindR (check_facts v) (\<lambda>_. Inr (AList.update (m_id m) (obj_items v) recorded))
          | _ \<Rightarrow> Inl ValueError)
   | _ \<Rightarrow> Inr recorded)"

fun json_str :: "json \<Rightarrow> string" where
  "json_str (JStr s) = s"
| "json_str _ = []"

definition record_id :: "json_object \<Rightarrow> string" where
  "record_id d = json_str (field d ''call_record_id'')"

definition is_rejection :: "part \<Rightarrow> bool" where
  "is_rejection p = (case p of ContentPart k v \<Rightarrow> k = ''model.tool_rejection'' | _ \<Rightarrow> False)"

definition call_positions :: "part list \<Rightarrow> string list" where
  "call_positions ps = map (\<lambda>(i, p). show_nat i) (filter (\<lambda>(i, p). is_tool_call p \<or> is_rejection p) (List.enumerate 0 ps))"

definition tool_ids :: "json_object \<Rightarrow> json_object" where
  "tool_ids d = obj_items (field d ''tool_ids'')"

text \<open>\<open>ModelContinuation\<close>: the binding and the opaque payload.\<close>

type_synonym continuation = "string \<times> json_object"

definition continuation_of :: "json_object \<Rightarrow> continuation option" where
  "continuation_of d = (case field d ''continuation'' of
     JObj c \<Rightarrow> Some (json_str (field c ''binding_id''), obj_items (field c ''payload''))
   | _ \<Rightarrow> None)"

definition summary_parts :: "part list \<Rightarrow> json list" where
  "summary_parts ps = concat (map (\<lambda>p. case p of ContentPart k v \<Rightarrow> (if k = ''context.summary'' then [v] else []) | _ \<Rightarrow> []) ps)"

record replayed =
  rp_facts :: "(string \<times> json_object) list"
  rp_continuation :: "continuation option"
  rp_summary :: "string option"
  rp_seq :: int
  rp_results :: "(call_ref \<times> message) list"

definition no_replay :: replayed where
  "no_replay = \<lparr>rp_facts = [], rp_continuation = None, rp_summary = None, rp_seq = - 1, rp_results = []\<rparr>"

definition used_summary :: "part list \<Rightarrow> string option res" where
  "used_summary ps = (case summary_parts ps of
     [] \<Rightarrow> Inr None
   | [v] \<Rightarrow> bindR (check_summary v) (\<lambda>ids. Inr (Some (hd ids)))
   | _ \<Rightarrow> Inl ValueError)"

definition replay_output ::
  "projection \<Rightarrow> (string \<Rightarrow> call_receipt res) \<Rightarrow> message \<Rightarrow> part list \<Rightarrow> json_object \<Rightarrow> replayed \<Rightarrow> replayed res" where
  "replay_output P read_call m ps d V =
     bindR (read_call (record_id d)) (\<lambda>receipt.
       if cr_state receipt \<noteq> ''success'' then Inl ValueError
       else if set (keys (tool_ids d)) \<noteq> set (call_positions ps) then Inl ValueError
       else let c = continuation_of d in
         if c \<noteq> None \<and> fst (the c) \<noteq> cr_binding receipt then Inl ValueError
         else bindR (if m_source m = pj_source P
                     then bindR (used_summary ps) (\<lambda>su. Inr (V\<lparr>rp_continuation := c, rp_seq := m_seq m, rp_summary := su\<rparr>))
                     else Inr V)
                (\<lambda>V'. Inr (V'\<lparr>rp_facts := AList.update (m_id m) d (rp_facts V')\<rparr>)))"

definition replay_step ::
  "projection \<Rightarrow> (string \<Rightarrow> call_receipt res) \<Rightarrow> withdrawal \<Rightarrow> (string \<times> json_object) list \<Rightarrow> message \<Rightarrow> replayed \<Rightarrow> replayed res" where
  "replay_step P read_call W recorded m V = (case m_body m of
     Control a through reason \<Rightarrow>
       Inr (if a = Abandon \<and> m_source m = pj_source P then V\<lparr>rp_continuation := None\<rparr> else V)
   | ToolResult l r oc ps \<Rightarrow>
       (if r \<in> set (wd_calls W) then Inr V
        else if map_of (rp_results V) r \<noteq> None then Inl ValueError
        else Inr (V\<lparr>rp_results := AList.update r m (rp_results V)\<rparr>))
   | Output ps f \<Rightarrow>
       (if m_id m \<in> set (wd_outputs W) then Inr V
        else case map_of recorded (m_id m) of None \<Rightarrow> Inr V | Some d \<Rightarrow> replay_output P read_call m ps d V)
   | Input ps \<Rightarrow> Inr V)"

definition continued :: "projection \<Rightarrow> int \<Rightarrow> string option \<Rightarrow> bool \<Rightarrow> replayed \<Rightarrow> continuation option res" where
  "continued P after reference fresh V =
     (if fresh \<or> (reference \<noteq> None \<and> (rp_summary V \<noteq> reference \<or> rp_seq V \<le> after)) then Inr None
      else case rp_continuation V of
          None \<Rightarrow> Inr None
        | Some c \<Rightarrow>
            if fst c \<noteq> pj_binding P then Inl ValueError
            else if 0 \<le> after \<and> reference = None then Inl ValueError
            else Inr (Some c))"

section \<open>Rows\<close>

definition bytes :: "nat list \<Rightarrow> string" where
  "bytes ns = map (char_of :: nat \<Rightarrow> char) ns"

definition not_run_text :: string where
  "not_run_text = bytes [232, 176, 131, 231, 148, 168, 230, 156, 170, 230, 137, 167, 232, 161, 140, 239, 188, 154]"

definition outcome_text :: "outcome \<Rightarrow> string" where
  "outcome_text oc = bytes [229, 183, 165, 229, 133, 183, 231, 138, 182, 230, 128, 129, 58, 32] @ outcome_name oc
     @ (if oc = Errored \<or> oc = Interrupted then bytes
         [227, 128, 130, 229, 142, 159, 232, 176, 131, 231, 148, 168, 229, 143, 175, 232, 131, 189, 229, 183, 178, 231, 187, 143,
          228, 186, 167, 231, 148, 159, 230, 149, 136, 230, 158, 156, 239, 188, 155, 229, 133, 136, 230, 163, 128, 230, 159, 165,
          229, 189, 147, 229, 137, 141, 231, 138, 182, 230, 128, 129, 239, 188, 140, 229, 134, 141, 229, 134, 179, 229, 174, 154,
          228, 184, 139, 228, 184, 128, 230, 173, 165, 239, 188, 140, 228, 184, 141, 232, 166, 129, 231, 155, 180, 230, 142, 165,
          233, 135, 141, 229, 164, 141, 230, 137, 167, 232, 161, 140, 229, 142, 159, 230, 147, 141, 228, 189, 156, 227, 128, 130]
        else [])"

definition text_block :: "string \<Rightarrow> json_object" where
  "text_block s = [(''type'', JStr ''text''), (''text'', JStr s)]"

definition call_entry :: "json \<Rightarrow> json \<Rightarrow> json_object \<Rightarrow> json_object" where
  "call_entry identity name args = [(''id'', identity), (''type'', JStr ''function''),
     (''function'', JObj [(''name'', name), (''arguments'', JStr (json_text (JObj args)))])]"

definition observation_row :: "json \<Rightarrow> json_object list \<Rightarrow> json_object" where
  "observation_row identity blocks = [(''role'', JStr ''tool''), (''tool_call_id'', identity), (''content'', JArr (map JObj blocks))]"

definition kept_identity :: "json_object \<Rightarrow> nat \<Rightarrow> json res" where
  "kept_identity d index = (case map_of (tool_ids d) (show_nat index) of None \<Rightarrow> Inl KeyError | Some j \<Rightarrow> Inr j)"

definition call_identity :: "projection \<Rightarrow> json_object option \<Rightarrow> call_ref \<Rightarrow> json res" where
  "call_identity P known ref = (case known of
     Some d \<Rightarrow> kept_identity d (ref_index ref)
   | None \<Rightarrow> Inr (JStr (''call_'' @ take 32 (pj_digest P ref))))"

definition wire_call :: "json_object option \<Rightarrow> nat \<Rightarrow> json_object option" where
  "wire_call known index = (case known of
     None \<Rightarrow> None
   | Some d \<Rightarrow> (case map_of d ''wire_tool_calls'' of
       Some (JObj wire) \<Rightarrow> map_option obj_items (map_of wire (show_nat index))
     | _ \<Rightarrow> None))"

definition result_blocks :: "projection \<Rightarrow> outcome \<Rightarrow> part list \<Rightarrow> json_object list res" where
  "result_blocks P oc ps = bindR (mapR (pj_content P) ps) (\<lambda>bs.
     Inr ((if oc = Success then [] else [text_block (outcome_text oc)]) @ concat bs))"

text \<open>The request row under construction: blocks, calls, observations; and the results used so far.\<close>

record assembly =
  as_blocks :: "json_object list"
  as_calls :: "json_object list"
  as_observations :: "json_object list"
  as_used :: "string list"

definition rejection_step :: "bool \<Rightarrow> json_object option \<Rightarrow> nat \<Rightarrow> json \<Rightarrow> assembly \<Rightarrow> assembly res" where
  "rejection_step gone known index v A =
     bindR (check_tool_rejection v) (\<lambda>_.
       if gone then Inr A
       else case known of
         None \<Rightarrow> Inl ValueError
       | Some d \<Rightarrow> bindR (kept_identity d index) (\<lambda>identity.
           Inr (A\<lparr>as_calls := as_calls A @ [call_entry identity (field (obj_items v) ''name'') (obj_items (field (obj_items v) ''arguments''))],
                  as_observations := as_observations A
                    @ [observation_row identity [text_block (not_run_text @ json_str (field (obj_items v) ''error''))]]\<rparr>)))"

definition call_step ::
  "projection \<Rightarrow> replayed \<Rightarrow> json_object option \<Rightarrow> message \<Rightarrow> nat \<Rightarrow> string \<Rightarrow> json_object \<Rightarrow> assembly \<Rightarrow> assembly res" where
  "call_step P V known m index binding args A =
     (let ref = CallRef (m_id m) index in
      bindR (call_identity P known ref) (\<lambda>identity.
      bindR (case wire_call known index of
               None \<Rightarrow> bindR (pj_tool_name P binding) (\<lambda>name. Inr (call_entry identity (JStr name) args))
             | Some raw \<Rightarrow> Inr (call_entry identity (field raw ''name'') (obj_items (field raw ''arguments'')))) (\<lambda>entry.
      case map_of (rp_results V) ref of
        None \<Rightarrow> Inl ValueError
      | Some observation \<Rightarrow>
          if m_seq observation \<le> m_seq m then Inl ValueError
          else (case m_body observation of
              ToolResult l r oc ps \<Rightarrow> bindR (result_blocks P oc ps) (\<lambda>blocks.
                Inr (A\<lparr>as_calls := as_calls A @ [entry], as_observations := as_observations A @ [observation_row identity blocks],
                       as_used := m_id observation # as_used A\<rparr>))
            | _ \<Rightarrow> Inl AssertionError))))"

definition part_step ::
  "projection \<Rightarrow> replayed \<Rightarrow> bool \<Rightarrow> json_object option \<Rightarrow> message \<Rightarrow> nat \<times> part \<Rightarrow> assembly \<Rightarrow> assembly res" where
  "part_step P V gone known m ip A = (case ip of (index, p) \<Rightarrow> (case p of
     ContentPart k v \<Rightarrow>
       (if k = ''model.tool_rejection'' then rejection_step gone known index v A
        else if k = ''model.facts'' then Inr A
        else bindR (pj_content P p) (\<lambda>bs. Inr (A\<lparr>as_blocks := as_blocks A @ bs\<rparr>)))
   | ToolCall binding args \<Rightarrow> if gone then Inr A else call_step P V known m index binding args A))"

definition reminder_rows :: "json_object option \<Rightarrow> json_object list" where
  "reminder_rows known = (case known of
     None \<Rightarrow> []
   | Some d \<Rightarrow> (case map_of d ''reminder'' of None \<Rightarrow> [] | Some JNull \<Rightarrow> [] | Some j \<Rightarrow> [[(''role'', JStr ''user''), (''content'', j)]]))"

definition message_row :: "body \<Rightarrow> json_object option \<Rightarrow> assembly \<Rightarrow> json_object" where
  "message_row b known A =
     [(''role'', JStr (case b of Input ps \<Rightarrow> ''user'' | _ \<Rightarrow> ''assistant'')), (''content'', JArr (map JObj (as_blocks A)))]
     @ (if as_calls A = [] then [] else [(''tool_calls'', JArr (map JObj (as_calls A)))])
     @ (case known of
          None \<Rightarrow> []
        | Some d \<Rightarrow> if field d ''thinking'' = JNull then [] else [(''reasoning_content'', field d ''thinking'')])"

definition row_step ::
  "projection \<Rightarrow> replayed \<Rightarrow> withdrawal \<Rightarrow> int \<Rightarrow> message \<Rightarrow> json_object list \<times> string list \<Rightarrow> (json_object list \<times> string list) res" where
  "row_step P V W after m acc =
     (if m_seq m \<le> after \<and> m_id m \<notin> set (pj_keep P) then Inr acc
      else if (case m_body m of Control a t r \<Rightarrow> True | ToolResult l r oc ps \<Rightarrow> True | _ \<Rightarrow> False) then Inr acc
      else let known = map_of (rp_facts V) (m_id m) in
        bindR (foldR (part_step P V (m_id m \<in> set (wd_outputs W)) known m) (List.enumerate 0 (body_parts (m_body m)))
                 \<lparr>as_blocks = [], as_calls = [], as_observations = [], as_used = snd acc\<rparr>) (\<lambda>A.
          Inr (fst acc @ reminder_rows known
                 @ (if as_blocks A = [] \<and> as_calls A = [] then [] else message_row (m_body m) known A # as_observations A),
               as_used A)))"

section \<open>The request\<close>

definition check_keep :: "projection \<Rightarrow> message list \<Rightarrow> unit res" where
  "check_keep P ms =
     (if \<not> distinct (pj_keep P)
         \<or> set (pj_keep P) \<noteq> set (map m_id (filter (\<lambda>m. m_id m \<in> set (pj_keep P)
              \<and> (case m_body m of Input ps \<Rightarrow> True | _ \<Rightarrow> False) \<and> m_source m = pj_source P) ms))
      then Inl ValueError else Inr ())"

text \<open>\<open>_same_json\<close> on frozen values.\<close>

primrec same_json :: "json \<Rightarrow> json \<Rightarrow> bool" where
  "same_json JNull = (\<lambda>j. j = JNull)"
| "same_json (JBool b) = (\<lambda>j. j = JBool b)"
| "same_json (JInt i) = (\<lambda>j. j = JInt i)"
| "same_json (JFloat r i) = (\<lambda>j. case j of JFloat r' i' \<Rightarrow> num_eq (JFloat r i) j \<or> (i = None \<and> i' = None \<and> r = r') | _ \<Rightarrow> False)"
| "same_json (JStr s) = (\<lambda>j. j = JStr s)"
| "same_json (JArr xs) = (\<lambda>j. case j of JArr ys \<Rightarrow> list_all2 (\<lambda>f y. f y) (map same_json xs) ys | _ \<Rightarrow> False)"
| "same_json (JObj kvs) = (\<lambda>j. case j of
       JObj ls \<Rightarrow> length kvs = length ls \<and>
         list_all (\<lambda>p. case map_of ls (fst p) of None \<Rightarrow> False | Some w \<Rightarrow> snd p w) (map (map_prod id same_json) kvs)
     | _ \<Rightarrow> False)"

definition reuse_rows :: "json_object list \<Rightarrow> json_object list \<Rightarrow> json_object list" where
  "reuse_rows prior rows = map (\<lambda>(index, row). if index < length prior \<and> same_json (JObj row) (JObj (prior ! index)) then prior ! index else row)
     (List.enumerate 0 rows)"

text \<open>The rows and the continuation, before the rows of the last request are reused.\<close>

definition projected ::
  "projection \<Rightarrow> message list \<Rightarrow> int \<Rightarrow> string option \<Rightarrow> bool \<Rightarrow> (json_object list \<times> continuation option) res" where
  "projected P ms after reference fresh =
     bindR (check_keep P ms) (\<lambda>_.
       let W = withdrawn ms in
       bindR (foldR (record_step (wd_outputs W)) ms []) (\<lambda>recorded.
       bindR (pj_replay P (map (\<lambda>p. record_id (snd p)) recorded)) (\<lambda>read_call.
       bindR (foldR (replay_step P read_call W recorded) ms no_replay) (\<lambda>V.
       bindR (continued P after reference fresh V) (\<lambda>c.
       bindR (foldR (row_step P V W after) ms ([], [])) (\<lambda>(rows, used).
       if list_ex (\<lambda>p. after < m_seq (snd p) \<and> m_id (snd p) \<notin> set used) (rp_results V) then Inl ValueError
       else Inr (rows, c)))))))"

definition render ::
  "projection \<Rightarrow> json_object list \<Rightarrow> message list \<Rightarrow> int \<Rightarrow> string option \<Rightarrow> bool
     \<Rightarrow> (continuation option model_request \<times> json_object list) res" where
  "render P last_rows ms after reference fresh =
     bindR (projected P ms after reference fresh) (\<lambda>(rows, c).
       let shown = reuse_rows last_rows rows in
       Inr (\<lparr>mr_rows = shown, mr_tools = [], mr_system = [], mr_max_output = 0, mr_rest = c\<rparr>, shown))"

text \<open>What the context builder sees of it.\<close>

definition projected_model :: "projection \<Rightarrow> json_object list \<Rightarrow> continuation option context_model" where
  "projected_model P last_rows = \<lparr>cm_window = pj_window P, cm_max_tools = pj_max_tools P,
     cm_render = (\<lambda>ms after reference fresh. bindR (render P last_rows ms after reference fresh) (\<lambda>r. Inr (fst r))),
     cm_estimate = (\<lambda>r. pj_estimate P (mr_rows r) (mr_tools r))\<rparr>"

end
