(* ===== verification/Projection_Properties.thy ===== *)
theory Projection_Properties
  imports Model_Projection Context_Properties React_Properties
begin

text \<open>
  The projection keeps the protocol of a model's provider: every call of an assistant row is answered by the rows after it, each
  result is shown with its call and only there, withdrawn work is not replayed, and the opaque state
  of the provider is continued only where it belongs; and what the model loop commits can be replayed.
\<close>

section \<open>Rows of the provider's protocol\<close>

definition row_calls :: "json_object \<Rightarrow> json list" where
  "row_calls r = (case map_of r ''tool_calls'' of Some (JArr cs) \<Rightarrow> map (\<lambda>c. field (obj_items c) ''id'') cs | _ \<Rightarrow> [])"

definition is_answer :: "json_object \<Rightarrow> bool" where
  "is_answer r \<longleftrightarrow> map_of r ''role'' = Some (JStr ''tool'')"

definition answers_id :: "json_object \<Rightarrow> json \<Rightarrow> bool" where
  "answers_id r identity \<longleftrightarrow> is_answer r \<and> map_of r ''tool_call_id'' = Some identity"

text \<open>Rows are groups: one row that is no answer, then one answer for each of its calls, in order.\<close>

inductive paired :: "json_object list \<Rightarrow> bool" where
  no_rows: "paired []"
| a_group: "\<not> is_answer r \<Longrightarrow> list_all2 answers_id observations (row_calls r) \<Longrightarrow> paired rows \<Longrightarrow> paired (r # observations @ rows)"

lemma paired_append: "paired a \<Longrightarrow> paired b \<Longrightarrow> paired (a @ b)"
  by (induction rule: paired.induct) (auto intro: paired.a_group)

lemma paired_plain: "\<not> is_answer r \<Longrightarrow> row_calls r = [] \<Longrightarrow> paired [r]"
  using a_group[of r "[]" "[]"] no_rows by simp

definition id_text :: "json_object \<Rightarrow> bool" where
  "id_text c \<longleftrightarrow> (\<exists>s. map_of c ''id'' = Some (JStr s))"

definition assembled :: "assembly \<Rightarrow> bool" where
  "assembled A \<longleftrightarrow> list_all2 (\<lambda>o' c. answers_id o' (field c ''id'')) (as_observations A) (as_calls A) \<and> list_all id_text (as_calls A)
     \<and> list_all (\<lambda>r. row_calls r = [] \<and> distinct (keys r)) (as_observations A)"

text \<open>Facts that have passed their check.\<close>

definition checked :: "json_object option \<Rightarrow> bool" where
  "checked known \<longleftrightarrow> (\<forall>d. known = Some d \<longrightarrow> facts_ok d)"

lemma answers_observation [simp]: "answers_id (observation_row identity blocks) identity"
  by (simp add: answers_id_def is_answer_def observation_row_def)

lemma entry_id [simp]: "field (call_entry identity name args) ''id'' = identity"
  by (simp add: call_entry_def field_def)

lemma entry_text [simp]: "id_text (call_entry (JStr s) name args)"
  by (simp add: call_entry_def id_text_def)

lemma observation_shape [simp]: "row_calls (observation_row identity blocks) = []" "distinct (keys (observation_row identity blocks))"
  by (simp_all add: observation_row_def row_calls_def)

lemma kept_text:
  assumes "facts_ok d" "kept_identity d index = Inr identity"
  shows "\<exists>s. identity = JStr s"
proof -
  have m: "map_of (tool_ids d) (show_nat index) = Some identity" using assms(2) by (simp add: kept_identity_def split: option.splits)
  obtain ids where f: "field d ''tool_ids'' = JObj ids" and l: "list_all (\<lambda>(index, identity). is_index index \<and> nonempty_text identity) ids"
    using assms(1) unfolding facts_ok_def by (cases "field d ''tool_ids''") simp_all
  have "(show_nat index, identity) \<in> set ids" using m f by (simp add: tool_ids_def map_of_SomeD)
  then have "nonempty_text identity" using l by (auto simp: list_all_iff)
  then show ?thesis by (cases identity) (simp_all add: nonempty_text_def)
qed

lemma identity_text:
  assumes "checked known" "call_identity P known ref = Inr identity"
  shows "\<exists>s. identity = JStr s"
  using assms kept_text by (cases known) (auto simp: call_identity_def checked_def)

lemma call_step_adds:
  assumes "call_step P V known m index binding args A = Inr A'"
  shows "\<exists>identity name args' observation blocks. call_identity P known (CallRef (m_id m) index) = Inr identity \<and> map_of (rp_results V) (CallRef (m_id m) index) = Some observation
    \<and> m_seq m < m_seq observation \<and> (\<exists>l r oc ps. m_body observation = ToolResult l r oc ps \<and> result_blocks P oc ps = Inr blocks)
    \<and> ((\<exists>n. name = JStr n) \<or> (\<exists>raw. wire_call known index = Some raw \<and> name = field raw ''name''))
    \<and> A' = A\<lparr>as_calls := as_calls A @ [call_entry identity name args'], as_observations := as_observations A @ [observation_row identity blocks],
             as_used := m_id observation # as_used A\<rparr>"
proof -
  obtain identity entry where i: "call_identity P known (CallRef (m_id m) index) = Inr identity"
    and w: "(case wire_call known index of
               None \<Rightarrow> bindR (pj_tool_name P binding) (\<lambda>name. Inr (call_entry identity (JStr name) args))
             | Some raw \<Rightarrow> Inr (call_entry identity (field raw ''name'') (obj_items (field raw ''arguments'')))) = Inr entry"
    and rest: "(case map_of (rp_results V) (CallRef (m_id m) index) of
        None \<Rightarrow> Inl ValueError
      | Some observation \<Rightarrow>
          if m_seq observation \<le> m_seq m then Inl ValueError
          else (case m_body observation of
              ToolResult l r oc ps \<Rightarrow> bindR (result_blocks P oc ps) (\<lambda>blocks.
                Inr (A\<lparr>as_calls := as_calls A @ [entry], as_observations := as_observations A @ [observation_row identity blocks],
                       as_used := m_id observation # as_used A\<rparr>))
            | _ \<Rightarrow> Inl AssertionError)) = Inr A'"
    using assms unfolding call_step_def Let_def bindR_Inr_iff[of "call_identity P known (CallRef (m_id m) index)"]
      bindR_Inr_iff[of "case wire_call known index of None \<Rightarrow> x | Some y \<Rightarrow> z y" for x z] by blast
  obtain name args' where e: "entry = call_entry identity name args'"
    "(\<exists>n. name = JStr n) \<or> (\<exists>raw. wire_call known index = Some raw \<and> name = field raw ''name'')"
    using w by (auto simp: res_simps split: option.splits)
  obtain observation where o: "map_of (rp_results V) (CallRef (m_id m) index) = Some observation" "m_seq m < m_seq observation"
    using rest by (auto split: option.splits if_splits)
  then obtain blocks l r oc ps where "A' = A\<lparr>as_calls := as_calls A @ [entry], as_observations := as_observations A @ [observation_row identity blocks],
             as_used := m_id observation # as_used A\<rparr>" "m_body observation = ToolResult l r oc ps" "result_blocks P oc ps = Inr blocks"
    using rest by (auto simp: res_simps split: body.splits)
  then show ?thesis using i e o by blast
qed

lemma part_assembled:
  assumes "part_step P V gone known m ip A = Inr A'" "assembled A" "checked known"
  shows "assembled A'"
proof (cases ip)
  case (Pair index p)
  show ?thesis
  proof (cases p)
    case (ContentPart k v)
    then show ?thesis using assms Pair kept_text
      by (fastforce simp: part_step_def rejection_step_def assembled_def checked_def res_simps intro!: list_all2_appendI split: if_splits option.splits)
  next
    case (ToolCall binding args)
    show ?thesis
    proof (cases gone)
      case False
      then have c: "call_step P V known m index binding args A = Inr A'" using assms(1) Pair ToolCall by (simp add: part_step_def)
      show ?thesis using call_step_adds[OF c] identity_text[OF assms(3)] assms(2)
        by (fastforce simp: assembled_def intro!: list_all2_appendI)
    qed (use assms Pair ToolCall in \<open>simp add: part_step_def\<close>)
  qed
qed

lemma parts_assembled:
  assumes "foldR (part_step P V gone known m) ips A = Inr A'" "assembled A" "checked known"
  shows "assembled A'"
  by (rule foldR_invariant[where P = assembled, OF assms(1,2)]) (rule part_assembled[OF _ _ assms(3)])

lemma message_row_shape: "\<not> is_answer (message_row b known A)"
  "row_calls (message_row b known A) = map (\<lambda>c. field c ''id'') (as_calls A)"
  by (auto simp: message_row_def is_answer_def row_calls_def comp_def split: body.split option.split)

abbreviation empty_assembly :: "string list \<Rightarrow> assembly" where
  "empty_assembly used \<equiv> \<lparr>as_blocks = [], as_calls = [], as_observations = [], as_used = used\<rparr>"

text \<open>Messages that are no row of their own.\<close>

definition not_shown :: "projection \<Rightarrow> int \<Rightarrow> message \<Rightarrow> bool" where
  "not_shown P after m \<longleftrightarrow> (m_seq m \<le> after \<and> m_id m \<notin> set (pj_keep P))
     \<or> (case m_body m of Control a t r \<Rightarrow> True | ToolResult l r oc ps \<Rightarrow> True | _ \<Rightarrow> False)"

lemma row_step_adds:
  assumes "row_step P V W after m acc = Inr acc'"
  shows "if not_shown P after m then acc' = acc
    else \<exists>A. foldR (part_step P V (m_id m \<in> set (wd_outputs W)) (map_of (rp_facts V) (m_id m)) m) (List.enumerate 0 (body_parts (m_body m)))
                 (empty_assembly (snd acc)) = Inr A
      \<and> acc' = (fst acc @ reminder_rows (map_of (rp_facts V) (m_id m))
                 @ (if as_blocks A = [] \<and> as_calls A = [] then [] else message_row (m_body m) (map_of (rp_facts V) (m_id m)) A # as_observations A),
               as_used A)"
proof (cases "not_shown P after m")
  case True
  then show ?thesis using assms by (auto simp: row_step_def not_shown_def split: if_splits)
next
  case False
  then have "\<not> (m_seq m \<le> after \<and> m_id m \<notin> set (pj_keep P))"
    "\<not> (case m_body m of Control a t r \<Rightarrow> True | ToolResult l r oc ps \<Rightarrow> True | _ \<Rightarrow> False)" unfolding not_shown_def by blast+
  then have "row_step P V W after m acc =
      bindR (foldR (part_step P V (m_id m \<in> set (wd_outputs W)) (map_of (rp_facts V) (m_id m)) m) (List.enumerate 0 (body_parts (m_body m)))
                 (empty_assembly (snd acc))) (\<lambda>A.
          Inr (fst acc @ reminder_rows (map_of (rp_facts V) (m_id m))
                 @ (if as_blocks A = [] \<and> as_calls A = [] then [] else message_row (m_body m) (map_of (rp_facts V) (m_id m)) A # as_observations A),
               as_used A))"
    unfolding row_step_def Let_def by (simp only: if_False)
  then have "bindR (foldR (part_step P V (m_id m \<in> set (wd_outputs W)) (map_of (rp_facts V) (m_id m)) m) (List.enumerate 0 (body_parts (m_body m)))
                 (empty_assembly (snd acc))) (\<lambda>A.
          Inr (fst acc @ reminder_rows (map_of (rp_facts V) (m_id m))
                 @ (if as_blocks A = [] \<and> as_calls A = [] then [] else message_row (m_body m) (map_of (rp_facts V) (m_id m)) A # as_observations A),
               as_used A)) = Inr acc'"
    using assms by (simp only:)
  then show ?thesis using False unfolding bindR_Inr_iff by auto
qed

definition row_ok :: "json_object \<Rightarrow> bool" where
  "row_ok r \<longleftrightarrow> distinct (keys r) \<and> (\<forall>cs. map_of r ''tool_calls'' = Some (JArr cs) \<longrightarrow> list_all (\<lambda>c. \<exists>d. c = JObj d \<and> id_text d) cs)"

definition rows_fine :: "json_object list \<Rightarrow> bool" where
  "rows_fine rows \<longleftrightarrow> paired rows \<and> list_all row_ok rows"

lemma rows_fine_append: "rows_fine a \<Longrightarrow> rows_fine b \<Longrightarrow> rows_fine (a @ b)"
  by (simp add: rows_fine_def paired_append)

lemma no_rows_fine [simp]: "rows_fine []"
  by (simp add: rows_fine_def no_rows)

lemma reminders_fine: "rows_fine (reminder_rows known)"
  by (auto simp: reminder_rows_def is_answer_def row_calls_def rows_fine_def row_ok_def intro!: paired_plain no_rows split: option.split json.split)

lemma plain_row_ok: "row_calls r = [] \<Longrightarrow> distinct (keys r) \<Longrightarrow> row_ok r"
  by (auto simp: row_calls_def row_ok_def)

lemma group_fine:
  assumes "assembled A"
  shows "rows_fine (message_row b known A # as_observations A)"
proof -
  have "paired (message_row b known A # as_observations A)"
    using a_group[OF message_row_shape(1) _ no_rows, of "as_observations A" b known A] assms
    by (simp add: message_row_shape(2) assembled_def list_all2_map2)
  moreover have "row_ok (message_row b known A)"
    using assms by (auto simp: message_row_def row_ok_def assembled_def list_all_iff split: option.split if_splits)
  moreover have "list_all row_ok (as_observations A)"
    using assms plain_row_ok by (auto simp: assembled_def list_all_iff)
  ultimately show ?thesis by (simp add: rows_fine_def)
qed

definition facts_known :: "replayed \<Rightarrow> bool" where
  "facts_known V \<longleftrightarrow> (\<forall>p \<in> set (rp_facts V). facts_ok (snd p))"

lemma row_fine:
  assumes "row_step P V W after m acc = Inr acc'" "rows_fine (fst acc)" "facts_known V"
  shows "rows_fine (fst acc')"
proof (cases "not_shown P after m")
  case True
  then show ?thesis using row_step_adds[OF assms(1)] assms(2) by simp
next
  case False
  then obtain A where a: "foldR (part_step P V (m_id m \<in> set (wd_outputs W)) (map_of (rp_facts V) (m_id m)) m) (List.enumerate 0 (body_parts (m_body m)))
                 (empty_assembly (snd acc)) = Inr A"
    and acc': "acc' = (fst acc @ reminder_rows (map_of (rp_facts V) (m_id m))
                 @ (if as_blocks A = [] \<and> as_calls A = [] then [] else message_row (m_body m) (map_of (rp_facts V) (m_id m)) A # as_observations A),
               as_used A)"
    using row_step_adds[OF assms(1)] by auto
  have "checked (map_of (rp_facts V) (m_id m))" using assms(3) by (auto simp: checked_def facts_known_def dest!: map_of_SomeD)
  then have "assembled A" using parts_assembled[OF a] by (simp add: assembled_def)
  then show ?thesis using assms(2) reminders_fine group_fine unfolding acc' by (auto intro!: rows_fine_append)
qed

lemma rows_all_fine:
  assumes "foldR (row_step P V W after) ms acc = Inr acc'" "rows_fine (fst acc)" "facts_known V"
  shows "rows_fine (fst acc')"
  by (rule foldR_invariant[where P = "\<lambda>acc. rows_fine (fst acc)", OF assms(1,2)]) (rule row_fine[OF _ _ assms(3)])

lemma set_alist_update: "p \<in> set (AList.update k v al) \<Longrightarrow> p = (k, v) \<or> p \<in> set al"
  by (induction al) (auto split: if_splits)

lemma recorded_checked:
  assumes "foldR (record_step gone) ms recorded = Inr recorded'" "\<forall>p \<in> set recorded. facts_ok (snd p)"
  shows "\<forall>p \<in> set recorded'. facts_ok (snd p)"
proof (rule foldR_invariant[where P = "\<lambda>r. \<forall>p \<in> set r. facts_ok (snd p)", OF assms])
  fix m s t assume s: "\<forall>p \<in> set s. facts_ok (snd p)" and t: "record_step gone m s = Inr t"
  have "facts_ok (obj_items v)" if "check_facts v = Inr u" for v u
    using that by (auto simp: check_facts_def split: json.splits if_splits)
  then show "\<forall>p \<in> set t. facts_ok (snd p)"
    using s t by (auto simp: record_step_def res_simps dest!: set_alist_update split: body.splits if_splits list.splits)
qed

lemma replay_output_adds:
  assumes "replay_output P read_call m ps d V = Inr V'"
  shows "\<exists>receipt. read_call (record_id d) = Inr receipt \<and> cr_state receipt = ''success'' \<and> set (keys (tool_ids d)) = set (call_positions ps)
    \<and> (continuation_of d \<noteq> None \<longrightarrow> fst (the (continuation_of d)) = cr_binding receipt)
    \<and> (if m_source m = pj_source P
       then \<exists>su. used_summary ps = Inr su \<and> V' = V\<lparr>rp_continuation := continuation_of d, rp_seq := m_seq m, rp_summary := su,
           rp_facts := AList.update (m_id m) d (rp_facts V)\<rparr>
       else V' = V\<lparr>rp_facts := AList.update (m_id m) d (rp_facts V)\<rparr>)"
proof -
  obtain receipt where r: "read_call (record_id d) = Inr receipt"
    and rest: "(if cr_state receipt \<noteq> ''success'' then Inl ValueError
       else if set (keys (tool_ids d)) \<noteq> set (call_positions ps) then Inl ValueError
       else let c = continuation_of d in
         if c \<noteq> None \<and> fst (the c) \<noteq> cr_binding receipt then Inl ValueError
         else bindR (if m_source m = pj_source P
                     then bindR (used_summary ps) (\<lambda>su. Inr (V\<lparr>rp_continuation := c, rp_seq := m_seq m, rp_summary := su\<rparr>))
                     else Inr V)
                (\<lambda>V'. Inr (V'\<lparr>rp_facts := AList.update (m_id m) d (rp_facts V')\<rparr>))) = Inr V'"
    using assms unfolding replay_output_def bindR_Inr_iff by blast
  have c: "\<not> cr_state receipt \<noteq> ''success''" "\<not> set (keys (tool_ids d)) \<noteq> set (call_positions ps)"
    "\<not> (continuation_of d \<noteq> None \<and> fst (the (continuation_of d)) \<noteq> cr_binding receipt)"
    using rest unfolding Let_def by (meson Inl_Inr_False)+
  have "bindR (if m_source m = pj_source P
                     then bindR (used_summary ps) (\<lambda>su. Inr (V\<lparr>rp_continuation := continuation_of d, rp_seq := m_seq m, rp_summary := su\<rparr>))
                     else Inr V)
                (\<lambda>V'. Inr (V'\<lparr>rp_facts := AList.update (m_id m) d (rp_facts V')\<rparr>)) = Inr V'"
    using rest unfolding Let_def if_not_P[OF c(1)] if_not_P[OF c(2)] if_not_P[OF c(3)] .
  then show ?thesis using r c by (cases "m_source m = pj_source P") (auto simp: res_simps)
qed

text \<open>An output whose facts are replayed.\<close>

definition replays :: "withdrawal \<Rightarrow> (string \<times> json_object) list \<Rightarrow> message \<Rightarrow> part list \<Rightarrow> json_object \<Rightarrow> bool" where
  "replays W recorded m ps d \<longleftrightarrow> (\<exists>f. m_body m = Output ps f) \<and> m_id m \<notin> set (wd_outputs W) \<and> map_of recorded (m_id m) = Some d"

lemma replay_step_facts:
  assumes "replay_step P read_call W recorded m V = Inr V'"
  shows "(\<exists>ps d. replays W recorded m ps d \<and> replay_output P read_call m ps d V = Inr V')
    \<or> ((\<nexists>ps d. replays W recorded m ps d) \<and> rp_facts V' = rp_facts V)"
  using assms by (cases "m_body m") (auto simp: replay_step_def replays_def split: if_splits option.splits)

lemma replay_output_facts: "replay_output P read_call m ps d V = Inr V' \<Longrightarrow> rp_facts V' = AList.update (m_id m) d (rp_facts V) \<and> rp_results V' = rp_results V"
  using replay_output_adds[of P read_call m ps d V V'] by (auto split: if_splits)

lemma replay_known:
  assumes "foldR (replay_step P read_call W recorded) ms V = Inr V'" "facts_known V" "\<forall>p \<in> set recorded. facts_ok (snd p)"
  shows "facts_known V'"
proof (rule foldR_invariant[where P = facts_known, OF assms(1,2)])
  fix m s t assume s: "facts_known s" and t: "replay_step P read_call W recorded m s = Inr t"
  from replay_step_facts[OF t] show "facts_known t"
  proof (elim disjE exE conjE)
    fix ps d assume r: "replays W recorded m ps d" and o: "replay_output P read_call m ps d s = Inr t"
    have "facts_ok d" using r assms(3) by (auto simp: replays_def dest!: map_of_SomeD)
    then show ?thesis using replay_output_facts[OF o] s set_alist_update by (fastforce simp: facts_known_def)
  qed (use s in \<open>simp add: facts_known_def\<close>)
qed

text \<open>What a successful projection has gone through.\<close>

lemma projected_steps:
  assumes "projected P ms after reference fresh = Inr (rows, c)"
  obtains recorded read_call V used where "check_keep P ms = Inr ()"
    and "foldR (record_step (wd_outputs (withdrawn ms))) ms [] = Inr recorded"
    and "foldR (replay_step P read_call (withdrawn ms) recorded) ms no_replay = Inr V"
    and "continued P after reference fresh V = Inr c"
    and "foldR (row_step P V (withdrawn ms) after) ms ([], []) = Inr (rows, used)"
    and "\<forall>p \<in> set (rp_results V). after < m_seq (snd p) \<longrightarrow> m_id (snd p) \<in> set used"
    and "facts_known V" and "\<forall>p \<in> set recorded. facts_ok (snd p)"
proof -
  obtain recorded read_call V used where s: "check_keep P ms = Inr ()" "foldR (record_step (wd_outputs (withdrawn ms))) ms [] = Inr recorded"
    "foldR (replay_step P read_call (withdrawn ms) recorded) ms no_replay = Inr V" "continued P after reference fresh V = Inr c"
    "foldR (row_step P V (withdrawn ms) after) ms ([], []) = Inr (rows, used)"
    "\<forall>p \<in> set (rp_results V). after < m_seq (snd p) \<longrightarrow> m_id (snd p) \<in> set used"
    using assms by (auto simp: projected_def Let_def res_simps list_ex_iff split: if_splits)
  have r: "\<forall>p \<in> set recorded. facts_ok (snd p)" by (rule recorded_checked[OF s(2)]) simp
  have "facts_known V" by (rule replay_known[OF s(3) _ r]) (simp add: facts_known_def no_replay_def)
  then show ?thesis using that s r by blast
qed

lemma projected_fine:
  assumes "projected P ms after reference fresh = Inr (rows, c)"
  shows "rows_fine rows"
  using projected_steps[OF assms] rows_all_fine by (metis fst_conv no_rows_fine)

section \<open>Reused rows\<close>

lemma case_some: "(case x of None \<Rightarrow> False | Some w \<Rightarrow> P w) \<longleftrightarrow> (\<exists>w. x = Some w \<and> P w)"
  by (cases x) auto

lemma same_json_eq: "same_json a b \<Longrightarrow> json_eq a b"
proof (induction a arbitrary: b)
  case (JArr xs)
  then show ?case by (cases b) (auto simp: list_all2_map1 elim!: list.rel_mono_strong)
next
  case (JObj kvs)
  have "\<exists>w. map_of ls k = Some w \<and> json_eq v w" if "(k, v) \<in> set kvs" "\<exists>w. map_of ls k = Some w \<and> same_json v w" for k v ls
    using JObj.IH[of "(k, v)" v] that by (auto simp: snds.simps)
  then show ?case using JObj.prems by (cases b) (auto simp: list_all_iff case_some)
qed (auto simp: num_eq_def split: json.splits)

lemma eq_get:
  assumes "json_eq (JObj r) (JObj p)" "map_of r k = Some v"
  shows "\<exists>w. map_of p k = Some w \<and> json_eq v w"
  using assms(1) map_of_SomeD[OF assms(2)] by (force simp: list_all_iff case_some)

lemma eq_none:
  assumes "json_eq (JObj r) (JObj p)" "distinct (keys r)" "map_of r k = None"
  shows "map_of p k = None"
proof -
  have sub: "set (keys r) \<subseteq> set (keys p)"
  proof
    fix x assume "x \<in> set (keys r)"
    then obtain v where "map_of r x = Some v" by (metis map_of_eq_None_iff not_None_eq set_map)
    then show "x \<in> set (keys p)" using eq_get[OF assms(1)] by (metis domI dom_map_of_conv_image_fst set_map)
  qed
  have "card (set (keys p)) \<le> length (keys p)" by (rule card_length)
  also have "length (keys p) = length (keys r)" using assms(1) by simp
  also have "length (keys r) = card (set (keys r))" using distinct_card[OF assms(2)] by (simp only:)
  finally have "set (keys r) = set (keys p)" using sub by (intro card_seteq) simp_all
  then show ?thesis using assms(3) by (simp add: map_of_eq_None_iff)
qed

lemma eq_text: "json_eq v (JStr s) \<longleftrightarrow> v = JStr s"
  by (cases v) (auto simp: num_eq_def)

lemma eq_is_answer:
  assumes "json_eq (JObj r) (JObj p)" "distinct (keys r)"
  shows "is_answer p = is_answer r"
proof (cases "map_of r ''role''")
  case None
  then show ?thesis using eq_none[OF assms] by (simp add: is_answer_def)
next
  case (Some v)
  then obtain w where "map_of p ''role'' = Some w" "json_eq v w" using eq_get[OF assms(1)] by blast
  then show ?thesis using Some eq_text[of v "''tool''"] by (cases "v = JStr ''tool''") (auto simp: is_answer_def)
qed

lemma eq_answers:
  assumes "json_eq (JObj r) (JObj p)" "distinct (keys r)" "answers_id r (JStr s)"
  shows "answers_id p (JStr s)"
proof -
  have "is_answer p" using eq_is_answer[OF assms(1,2)] assms(3) by (simp add: answers_id_def)
  moreover obtain w where "map_of p ''tool_call_id'' = Some w" "json_eq (JStr s) w"
    using eq_get[OF assms(1), of "''tool_call_id''" "JStr s"] assms(3) by (auto simp: answers_id_def)
  ultimately show ?thesis by (simp add: answers_id_def)
qed

lemma row_calls_text:
  assumes "row_ok r" "i \<in> set (row_calls r)"
  shows "\<exists>s. i = JStr s"
proof -
  obtain cs c where m: "map_of r ''tool_calls'' = Some (JArr cs)" "c \<in> set cs" "i = field (obj_items c) ''id''"
    using assms(2) unfolding row_calls_def by (cases "map_of r ''tool_calls''") (auto split: json.splits)
  then have "\<exists>d. c = JObj d \<and> id_text d" using assms(1) by (simp add: row_ok_def list_all_iff)
  then show ?thesis using m(3) by (auto simp: id_text_def field_def)
qed

lemma eq_calls:
  assumes "json_eq (JObj r) (JObj p)" "row_ok r"
  shows "row_calls p = row_calls r"
proof (cases "map_of r ''tool_calls''")
  case None
  then show ?thesis using eq_none[OF assms(1)] assms(2) by (simp add: row_calls_def row_ok_def)
next
  case (Some v)
  then obtain w where w: "map_of p ''tool_calls'' = Some w" "json_eq v w" using eq_get[OF assms(1)] by blast
  show ?thesis
  proof (cases v)
    case (JArr cs)
    then obtain ds where ds: "w = JArr ds" "list_all2 json_eq cs ds" using w(2) by (cases w) (auto simp: list_all2_map1)
    have "list_all (\<lambda>c. \<exists>d. c = JObj d \<and> id_text d) cs" using assms(2) Some JArr by (simp add: row_ok_def)
    with ds(2) have "map (\<lambda>c. field (obj_items c) ''id'') ds = map (\<lambda>c. field (obj_items c) ''id'') cs"
    proof (induction rule: list_all2_induct)
      case (Cons c cs x ds)
      then obtain d s where d: "c = JObj d" "map_of d ''id'' = Some (JStr s)" by (auto simp: id_text_def)
      moreover obtain e where "x = JObj e" using Cons(1) d(1) by (cases x) auto
      ultimately show ?case using Cons eq_get[of d _ "''id''" "JStr s"] by (auto simp: field_def)
    qed simp
    then show ?thesis using Some JArr w(1) ds(1) by (simp add: row_calls_def)
  qed (use Some w in \<open>auto simp: row_calls_def num_eq_def split: json.splits\<close>)
qed

definition reused :: "json_object \<Rightarrow> json_object \<Rightarrow> bool" where
  "reused r p \<longleftrightarrow> r = p \<or> json_eq (JObj r) (JObj p)"

lemma reused_facts:
  assumes "reused r p" "row_ok r"
  shows "is_answer p = is_answer r" and "row_calls p = row_calls r" and "answers_id r (JStr s) \<Longrightarrow> answers_id p (JStr s)"
  using assms eq_is_answer[of r p] eq_calls[of r p] eq_answers[of r p s] by (auto simp: reused_def row_ok_def)

lemma rows_reused: "list_all2 reused rows (reuse_rows prior rows)"
  using same_json_eq by (simp add: list_all2_conv_all_nth reuse_rows_def nth_enumerate_eq reused_def del: same_json.simps json_eq.simps)

lemma paired_reused:
  assumes "paired rows" "list_all row_ok rows" "list_all2 reused rows shown"
  shows "paired shown"
  using assms
proof (induction arbitrary: shown rule: paired.induct)
  case no_rows
  then show ?case by (simp add: paired.no_rows)
next
  case (a_group r observations rows)
  then obtain p obs' rows' where shown: "shown = p # obs' @ rows'" and e: "reused r p"
    and o: "list_all2 reused observations obs'" and rest: "list_all2 reused rows rows'"
    by (auto simp: list_all2_Cons1 list_all2_append1)
  have ok: "row_ok r" "list_all row_ok observations" "list_all row_ok rows" using a_group.prems(1) by simp_all
  have "list_all (\<lambda>i. \<exists>s. i = JStr s) (row_calls r)"
    using row_calls_text[OF ok(1)] by (simp add: list_all_iff)
  with a_group(2) o ok(2) have "list_all2 answers_id obs' (row_calls r)"
  proof (induction arbitrary: obs' rule: list_all2_induct)
    case (Cons x xs y ys)
    obtain z zs where obs': "obs' = z # zs" "reused x z" "list_all2 reused xs zs"
      using Cons.prems(1) by (auto simp: list_all2_Cons1)
    obtain i where i: "y = JStr i" using Cons.prems(3) by auto
    have "answers_id z y" using reused_facts(3)[OF obs'(2)] Cons.hyps(1) Cons.prems(2) unfolding i by simp
    then show ?case using Cons.IH[OF obs'(3)] Cons.prems(2,3) obs'(1) by simp
  qed simp
  then have "list_all2 answers_id obs' (row_calls p)" using reused_facts(2)[OF e ok(1)] by simp
  moreover have "\<not> is_answer p" using reused_facts(1)[OF e ok(1)] a_group(1) by simp
  ultimately show ?case unfolding shown using a_group(4)[OF ok(3) rest] by (metis paired.a_group)
qed

lemma render_parts:
  assumes "render P last_rows ms after reference fresh = Inr (request, kept)"
  obtains rows where "projected P ms after reference fresh = Inr (rows, mr_rest request)" "mr_rows request = reuse_rows last_rows rows"
    "kept = mr_rows request"
  using assms by (auto simp: render_def res_simps Let_def)

text \<open>C27. A request keeps the protocol of its provider: whatever rows were kept from the last request, the rows
  are groups of one row followed by exactly one answer for each of its calls, with the id of the call and in the
  order of the calls; an answer stands nowhere else.\<close>

theorem request_rows_paired:
  assumes "render P last_rows ms after reference fresh = Inr (request, kept)"
  shows "paired (mr_rows request)"
proof -
  obtain rows where p: "projected P ms after reference fresh = Inr (rows, mr_rest request)" and r: "mr_rows request = reuse_rows last_rows rows"
    using render_parts[OF assms] by blast
  have "rows_fine rows" by (rule projected_fine[OF p])
  then show ?thesis using paired_reused rows_reused unfolding r rows_fine_def by blast
qed

text \<open>What a provider can tell of a value: its type and its value, so 1, 1.0 and true are three different values; members of an
  object have no order, and of a float with an integer value the sign of zero is not told.\<close>

primrec exact :: "json \<Rightarrow> json" where
  "exact JNull = JNull"
| "exact (JBool b) = JBool b"
| "exact (JInt i) = JInt i"
| "exact (JFloat r i) = JFloat (if i = None then r else []) i"
| "exact (JStr s) = JStr s"
| "exact (JArr xs) = JArr (map exact xs)"
| "exact (JObj kvs) = JObj (sort_key fst (map (map_prod id exact) kvs))"

lemma same_keys:
  assumes "length a = length b" "distinct (keys a)" "\<forall>p \<in> set a. map_of b (fst p) \<noteq> None"
  shows "set (keys a) = set (keys b)"
proof (rule card_subset_eq)
  show sub: "set (keys a) \<subseteq> set (keys b)" using assms(3) by (auto simp: map_of_eq_None_iff)
  have "card (set (keys b)) \<le> length b" using card_length[of "keys b"] by simp
  also have "\<dots> = card (set (keys a))" using distinct_card[OF assms(2)] assms(1) by simp
  finally show "card (set (keys a)) = card (set (keys b))" using card_mono[OF _ sub] by simp
qed simp

lemma listing_unique:
  assumes "distinct (keys a)" "distinct (keys b)" "set (keys a) = set (keys b)" "\<forall>k \<in> set (keys a). map_of a k = map_of b k"
  shows "sort_key fst a = sort_key fst b"
proof -
  let ?ks = "sorted_list_of_set (set (keys a))"
  have "sort_key fst a = map (\<lambda>k. (k, the (map_of a k))) ?ks" using assms(1) by (intro sort_known_keys) simp_all
  also have "\<dots> = map (\<lambda>k. (k, the (map_of b k))) ?ks" using assms(4) by simp
  also have "\<dots> = sort_key fst b" using assms(2,3) by (intro sort_known_keys[symmetric]) simp_all
  finally show ?thesis .
qed

lemma same_json_exact: "same_json a b \<Longrightarrow> wf_json a \<Longrightarrow> wf_json b \<Longrightarrow> exact a = exact b"
proof (induction a arbitrary: b)
  case (JFloat r i)
  then show ?case by (cases b) (auto simp: num_eq_def)
next
  case (JArr xs)
  then obtain ys where b: "b = JArr ys" "list_all2 same_json xs ys" by (cases b) (auto simp: list_all2_map1)
  from b(2) JArr.IH JArr.prems(2,3) have "map exact xs = map exact ys"
    unfolding b(1) by (induction rule: list_all2_induct) simp_all
  then show ?case by (simp add: b(1))
next
  case (JObj kvs)
  then obtain ls where b: "b = JObj ls" "length kvs = length ls" by (cases b) auto
  have v: "\<exists>w. map_of ls k = Some w \<and> same_json v w" if "(k, v) \<in> set kvs" for k v
    using JObj.prems(1) that unfolding b(1) by (fastforce simp: list_all_iff case_some)
  have d: "distinct (keys kvs)" "distinct (keys ls)" using JObj.prems(2,3) b(1) by simp_all
  have ks: "set (keys kvs) = set (keys ls)" using same_keys[OF b(2) d(1)] v by fastforce
  have "map_of (map (map_prod id exact) kvs) k = map_of (map (map_prod id exact) ls) k" if k: "k \<in> set (keys kvs)" for k
  proof -
    obtain u where u: "(k, u) \<in> set kvs" using k by auto
    then obtain w where w: "map_of ls k = Some w" "same_json u w" using v by blast
    have "wf_json u" "wf_json w" using JObj.prems(2,3) b(1) u map_of_SomeD[OF w(1)] by (auto simp: list_all_iff)
    then have "exact u = exact w" using JObj.IH[of "(k, u)" u w] u w(2) by (simp add: snds.simps)
    then show ?thesis using w(1) map_of_is_SomeI[OF d(1) u] by (simp add: map_of_map map_prod_def)
  qed
  then show ?case using listing_unique[of "map (map_prod id exact) kvs" "map (map_prod id exact) ls"] d ks
    by (simp add: b(1) comp_def)
qed (auto split: json.splits)

text \<open>A row under construction is made of dicts whenever the renderer of content gives dicts.\<close>

abbreviation dicts :: "json_object list \<Rightarrow> bool" where
  "dicts \<equiv> list_all (\<lambda>r. wf_json (JObj r))"

definition renders_dicts :: "projection \<Rightarrow> bool" where
  "renders_dicts P \<longleftrightarrow> (\<forall>p bs. pj_content P p = Inr bs \<longrightarrow> dicts bs)"

definition asm_dicts :: "assembly \<Rightarrow> bool" where
  "asm_dicts A \<longleftrightarrow> dicts (as_blocks A) \<and> dicts (as_calls A) \<and> dicts (as_observations A)"

lemma text_dicts: "wf_json identity \<Longrightarrow> wf_json name \<Longrightarrow> wf_json (JObj (call_entry identity name args))"
  "wf_json identity \<Longrightarrow> dicts blocks \<Longrightarrow> wf_json (JObj (observation_row identity blocks))" "wf_json (JObj (text_block x))"
  by (simp_all add: call_entry_def observation_row_def text_block_def list_all_iff)

lemma nonempty_wf: "nonempty_text j \<Longrightarrow> wf_json j" "text_or_null j \<Longrightarrow> wf_json j"
  by (cases j; simp add: nonempty_text_def text_or_null_def)+

lemma result_dicts:
  assumes "renders_dicts P" "result_blocks P oc ps = Inr blocks"
  shows "dicts blocks"
proof -
  obtain bs where bs: "mapR (pj_content P) ps = Inr bs" "blocks = (if oc = Success then [] else [text_block (outcome_text oc)]) @ concat bs"
    using assms(2) by (auto simp: result_blocks_def res_simps)
  have "dicts b" if "b \<in> set bs" for b using mapR_set[OF bs(1) that] assms(1) by (auto simp: renders_dicts_def)
  then have "dicts (concat bs)" by (auto simp: list_all_iff)
  then show ?thesis using bs(2) text_dicts(3) by simp
qed

lemma wire_name:
  assumes "checked known" "wire_call known index = Some raw"
  shows "wf_json (field raw ''name'')"
proof -
  obtain d wire x where d: "known = Some d" "map_of d ''wire_tool_calls'' = Some (JObj wire)" "map_of wire (show_nat index) = Some x" "raw = obj_items x"
    using assms(2) by (auto simp: wire_call_def split: option.splits json.splits)
  have "''wire_tool_calls'' \<in> set (keys d)" "field d ''wire_tool_calls'' = JObj wire"
    using d(2) map_of_SomeD[OF d(2)] by (force simp: field_def)+
  then have "list_all (\<lambda>(index, raw). wire_ok raw) wire"
    using assms(1) d(1) by (auto simp: checked_def facts_ok_def split: json.splits)
  then have "wire_ok x" using map_of_SomeD[OF d(3)] by (auto simp: list_all_iff)
  then show ?thesis using nonempty_wf(1) unfolding d(4) by (auto simp: wire_ok_def split: json.splits)
qed

lemma part_dicts:
  assumes "part_step P V gone known m ip A = Inr A'" "asm_dicts A" "renders_dicts P" "checked known"
  shows "asm_dicts A'"
proof (cases ip)
  case (Pair index p)
  show ?thesis
  proof (cases p)
    case (ContentPart k v)
    consider (rejected) "k = ''model.tool_rejection''" "\<not> gone" | (kept) "A' = A"
      | (shown) bs where "pj_content P p = Inr bs" "A' = A\<lparr>as_blocks := as_blocks A @ bs\<rparr>"
      using assms(1) unfolding Pair ContentPart by (auto simp: part_step_def rejection_step_def res_simps split: if_splits)
    then show ?thesis
    proof cases
      case rejected
      then obtain d identity where d: "known = Some d" "kept_identity d index = Inr identity" "check_tool_rejection v = Inr ()"
        and A': "A' = A\<lparr>as_calls := as_calls A @ [call_entry identity (field (obj_items v) ''name'') (obj_items (field (obj_items v) ''arguments''))],
                  as_observations := as_observations A
                    @ [observation_row identity [text_block (not_run_text @ json_str (field (obj_items v) ''error''))]]\<rparr>"
        using assms(1) unfolding Pair ContentPart by (auto simp: part_step_def rejection_step_def res_simps split: if_splits option.splits)
      have "wf_json identity" using kept_text[OF _ d(2)] assms(4) d(1) by (auto simp: checked_def)
      moreover have "wf_json (field (obj_items v) ''name'')"
        using d(3) nonempty_wf(1) by (auto simp: check_tool_rejection_def split: json.splits if_splits)
      ultimately show ?thesis using assms(2) text_dicts unfolding A' by (simp add: asm_dicts_def del: wf_json.simps)
    qed (use assms(2,3) in \<open>auto simp: asm_dicts_def renders_dicts_def\<close>)
  next
    case (ToolCall binding args)
    show ?thesis
    proof (cases gone)
      case False
      then have c: "call_step P V known m index binding args A = Inr A'" using assms(1) Pair ToolCall by (simp add: part_step_def)
      obtain identity name args' blocks l r oc ps where i: "call_identity P known (CallRef (m_id m) index) = Inr identity"
        and b: "result_blocks P oc ps = Inr blocks" and A': "as_blocks A' = as_blocks A"
          "as_calls A' = as_calls A @ [call_entry identity name args']" "as_observations A' = as_observations A @ [observation_row identity blocks]"
          "(\<exists>n. name = JStr n) \<or> (\<exists>raw. wire_call known index = Some raw \<and> name = field raw ''name'')"
        using call_step_adds[OF c] by (elim exE conjE) simp
      have "wf_json identity" "wf_json name" using identity_text[OF assms(4) i] A'(4) wire_name[OF assms(4)] by auto
      then show ?thesis using assms(2) A' text_dicts result_dicts[OF assms(3) b] by (simp add: asm_dicts_def del: wf_json.simps)
    qed (use assms Pair ToolCall in \<open>simp add: part_step_def\<close>)
  qed
qed

lemma reminder_dicts:
  assumes "checked known"
  shows "dicts (reminder_rows known)"
proof (cases known)
  case (Some d)
  have "wf_json j" if "map_of d ''reminder'' = Some j" for j
  proof -
    have f: "field d ''reminder'' = j" using that by (simp add: field_def)
    have "''reminder'' \<in> set (keys d)" using map_of_SomeD[OF that] by force
    moreover have ok: "facts_ok d" using assms Some by (simp add: checked_def)
    ultimately have "set (keys d) = new_fields" unfolding facts_ok_def old_fields_def by fastforce
    then have "''wire_tool_calls'' \<in> set (keys d)" by (simp add: new_fields_def)
    then have "text_or_null (field d ''reminder'')"
      using ok unfolding facts_ok_def by (cases "field d ''tool_ids''"; cases "field d ''wire_tool_calls''") simp_all
    then have "text_or_null j" unfolding f .
    then show ?thesis by (rule nonempty_wf)
  qed
  then show ?thesis using Some by (cases "map_of d ''reminder''"; cases "the (map_of d ''reminder'')") (simp_all add: reminder_rows_def)
qed (simp add: reminder_rows_def)

lemma row_dicts:
  assumes "row_step P V W after m acc = Inr acc'" "dicts (fst acc)" "facts_known V" "renders_dicts P"
  shows "dicts (fst acc')"
proof (cases "not_shown P after m")
  case True
  then show ?thesis using row_step_adds[OF assms(1)] assms(2) by simp
next
  case False
  let ?known = "map_of (rp_facts V) (m_id m)"
  obtain A where a: "foldR (part_step P V (m_id m \<in> set (wd_outputs W)) ?known m) (List.enumerate 0 (body_parts (m_body m)))
                 (empty_assembly (snd acc)) = Inr A"
    and acc': "fst acc' = fst acc @ reminder_rows ?known
                 @ (if as_blocks A = [] \<and> as_calls A = [] then [] else message_row (m_body m) ?known A # as_observations A)"
    using row_step_adds[OF assms(1)] False by auto
  have ch: "checked ?known" using assms(3) by (auto simp: checked_def facts_known_def dest!: map_of_SomeD)
  have A: "asm_dicts A"
    by (rule foldR_invariant[where P = asm_dicts, OF a]) (simp add: asm_dicts_def, rule part_dicts[OF _ _ assms(4) ch])
  have th: "wf_json (field d ''thinking'')" if "?known = Some d" for d
    using ch that nonempty_wf(2) by (simp add: checked_def facts_ok_def)
  have "wf_json (JObj (message_row (m_body m) ?known A))"
    using A th by (auto simp: message_row_def asm_dicts_def list_all_iff split: option.split)
  moreover have "dicts (reminder_rows ?known)" using ch reminder_dicts by blast
  ultimately show ?thesis using A assms(2) unfolding acc' by (simp add: asm_dicts_def)
qed

lemma projected_dicts:
  assumes "projected P ms after reference fresh = Inr (rows, c)" "renders_dicts P"
  shows "dicts rows"
proof -
  obtain V used where "foldR (row_step P V (withdrawn ms) after) ms ([], []) = Inr (rows, used)" "facts_known V"
    using projected_steps[OF assms(1)] by metis
  then show ?thesis
    using foldR_invariant[where P = "\<lambda>acc. dicts (fst acc)" and f = "row_step P V (withdrawn ms) after"] row_dicts[OF _ _ _ assms(2)]
    by fastforce
qed

text \<open>The requests of one model in a row: each sees its own history - and its own rendering of content, which is made
  anew every time - and the rows the last successful one left behind.\<close>

record render_call =
  rn_projection :: projection
  rn_history :: "message list"
  rn_after :: int
  rn_reference :: "string option"
  rn_fresh :: bool

definition rn_projected :: "render_call \<Rightarrow> (json_object list \<times> continuation option) res" where
  "rn_projected x = projected (rn_projection x) (rn_history x) (rn_after x) (rn_reference x) (rn_fresh x)"

primrec renders :: "json_object list \<Rightarrow> render_call list \<Rightarrow> continuation option model_request res list" where
  "renders last_rows [] = []"
| "renders last_rows (x # xs) =
     (case render (rn_projection x) last_rows (rn_history x) (rn_after x) (rn_reference x) (rn_fresh x) of
        Inl e \<Rightarrow> Inl e # renders last_rows xs
      | Inr (request, kept) \<Rightarrow> Inr request # renders kept xs)"

definition tells :: "continuation option model_request res \<Rightarrow> render_call \<Rightarrow> bool" where
  "tells r x \<longleftrightarrow> (case r of
     Inl e \<Rightarrow> rn_projected x = Inl e
   | Inr request \<Rightarrow> (\<exists>rows. rn_projected x = Inr (rows, mr_rest request)
       \<and> map (\<lambda>w. exact (JObj w)) (mr_rows request) = map (\<lambda>w. exact (JObj w)) rows))"

lemma tells_simps:
  "tells (Inl e) x \<longleftrightarrow> rn_projected x = Inl e"
  "tells (Inr request) x \<longleftrightarrow> (\<exists>rows. rn_projected x = Inr (rows, mr_rest request)
     \<and> map (\<lambda>w. exact (JObj w)) (mr_rows request) = map (\<lambda>w. exact (JObj w)) rows)"
  by (simp_all add: tells_def del: exact.simps)

lemma reuse_exact:
  assumes "dicts prior" "dicts rows"
  shows "map (\<lambda>w. exact (JObj w)) (reuse_rows prior rows) = map (\<lambda>w. exact (JObj w)) rows" "dicts (reuse_rows prior rows)"
proof -
  have len: "length (reuse_rows prior rows) = length rows" by (simp add: reuse_rows_def)
  have row: "exact (JObj (reuse_rows prior rows ! i)) = exact (JObj (rows ! i)) \<and> wf_json (JObj (reuse_rows prior rows ! i))"
    if i: "i < length rows" for i
  proof (cases "i < length prior \<and> same_json (JObj (rows ! i)) (JObj (prior ! i))")
    case True
    then have "reuse_rows prior rows ! i = prior ! i" using i by (simp add: reuse_rows_def nth_enumerate_eq)
    moreover have "wf_json (JObj (prior ! i))" "wf_json (JObj (rows ! i))" using assms i True by (simp_all only: list_all_length)
    ultimately show ?thesis using same_json_exact True by metis
  next
    case False
    then have "reuse_rows prior rows ! i = rows ! i" using i by (auto simp: reuse_rows_def nth_enumerate_eq)
    moreover have "wf_json (JObj (rows ! i))" using assms(2) i by (simp only: list_all_length)
    ultimately show ?thesis by metis
  qed
  show "map (\<lambda>w. exact (JObj w)) (reuse_rows prior rows) = map (\<lambda>w. exact (JObj w)) rows"
    by (rule nth_equalityI) (simp_all add: len row del: exact.simps)
  show "dicts (reuse_rows prior rows)" using row by (simp only: list_all_length len) blast
qed

lemma renders_told:
  assumes "\<forall>x \<in> set xs. renders_dicts (rn_projection x)" "dicts last_rows"
  shows "list_all2 tells (renders last_rows xs) xs"
  using assms
proof (induction xs arbitrary: last_rows)
  case (Cons x xs)
  show ?case
  proof (cases "rn_projected x")
    case (Inl e)
    have "list_all2 tells (renders last_rows xs) xs" using Cons.IH[OF _ Cons.prems(2)] Cons.prems(1) by simp
    then show ?thesis using Inl by (simp add: tells_simps render_def rn_projected_def)
  next
    case (Inr p)
    obtain rows c where p: "p = (rows, c)" by (cases p)
    have "dicts rows" using projected_dicts Inr p Cons.prems(1) unfolding rn_projected_def by auto
    note e = reuse_exact[OF Cons.prems(2) this]
    have "list_all2 tells (renders (reuse_rows last_rows rows) xs) xs" using Cons.IH[OF _ e(2)] Cons.prems(1) by simp
    then show ?thesis using Inr p e(1)
      by (simp add: tells_simps render_def rn_projected_def Let_def del: exact.simps wf_json.simps)
  qed
qed simp

text \<open>C31. Reusing the rows of the last request is invisible: in any sequence of requests, each fails exactly when a rendering
  without reuse fails, with the same error, and else has the same continuation and, row by row, the same
  content to the type of every value. A row is only reused when nothing of it changed.\<close>

theorem reuse_is_equal:
  assumes "\<forall>x \<in> set xs. renders_dicts (rn_projection x)"
  shows "list_all2 (\<lambda>r x. case r of
     Inl e \<Rightarrow> projected (rn_projection x) (rn_history x) (rn_after x) (rn_reference x) (rn_fresh x) = Inl e
   | Inr request \<Rightarrow> (\<exists>rows. projected (rn_projection x) (rn_history x) (rn_after x) (rn_reference x) (rn_fresh x) = Inr (rows, mr_rest request)
       \<and> map (\<lambda>w. exact (JObj w)) (mr_rows request) = map (\<lambda>w. exact (JObj w)) rows)) (renders [] xs) xs"
  using renders_told[OF assms, of "[]"] unfolding tells_def[abs_def] rn_projected_def by simp

section \<open>Withdrawn work\<close>

definition closes_output :: "message \<Rightarrow> message \<Rightarrow> bool" where
  "closes_output m x \<longleftrightarrow> m_source x = m_source m \<and> (\<exists>ps f. m_body x = Output ps f \<and> f \<noteq> Continue)"

definition abandons :: "message \<Rightarrow> message \<Rightarrow> bool" where
  "abandons m x \<longleftrightarrow> m_source x = m_source m \<and> (\<exists>t r. m_body x = Control Abandon t r \<and> m_seq m \<le> t)"

text \<open>An intermediate output that nothing has closed or withdrawn yet.\<close>

definition unfinished :: "message list \<Rightarrow> message \<Rightarrow> bool" where
  "unfinished ms m \<longleftrightarrow> (\<exists>pre post. ms = pre @ m # post \<and> (\<exists>ps. m_body m = Output ps Continue)
     \<and> (\<forall>x \<in> set post. \<not> closes_output m x \<and> \<not> abandons m x))"

definition withdrawn_output :: "message list \<Rightarrow> message \<Rightarrow> bool" where
  "withdrawn_output ms m \<longleftrightarrow> (\<exists>pre x post. ms = pre @ x # post \<and> unfinished pre m \<and> abandons m x)"

lemma unfinished_snoc:
  "unfinished (ms @ [x]) m \<longleftrightarrow> (m = x \<and> (\<exists>ps. m_body x = Output ps Continue)) \<or> (unfinished ms m \<and> \<not> closes_output m x \<and> \<not> abandons m x)"
proof
  assume "unfinished (ms @ [x]) m"
  then obtain pre post where d: "ms @ [x] = pre @ m # post" "\<exists>ps. m_body m = Output ps Continue"
    "\<forall>y \<in> set post. \<not> closes_output m y \<and> \<not> abandons m y" unfolding unfinished_def by blast
  show "(m = x \<and> (\<exists>ps. m_body x = Output ps Continue)) \<or> (unfinished ms m \<and> \<not> closes_output m x \<and> \<not> abandons m x)"
  proof (cases post rule: rev_cases)
    case (snoc ys y)
    then have "ms = pre @ m # ys" "x = y" using d(1) by simp_all
    then show ?thesis using d snoc unfolding unfinished_def by auto
  qed (use d in simp)
next
  assume "(m = x \<and> (\<exists>ps. m_body x = Output ps Continue)) \<or> (unfinished ms m \<and> \<not> closes_output m x \<and> \<not> abandons m x)"
  then show "unfinished (ms @ [x]) m"
  proof (elim disjE conjE)
    assume "m = x" "\<exists>ps. m_body x = Output ps Continue"
    then show ?thesis unfolding unfinished_def by (intro exI[of _ ms] exI[of _ "[]"]) simp
  next
    assume u: "unfinished ms m" "\<not> closes_output m x" "\<not> abandons m x"
    then obtain pre post where "ms = pre @ m # post" "\<exists>ps. m_body m = Output ps Continue"
      "\<forall>y \<in> set post. \<not> closes_output m y \<and> \<not> abandons m y" unfolding unfinished_def by blast
    then show ?thesis using u unfolding unfinished_def by (intro exI[of _ pre] exI[of _ "post @ [x]"]) auto
  qed
qed

lemma withdrawn_snoc: "withdrawn_output (ms @ [x]) m \<longleftrightarrow> withdrawn_output ms m \<or> (unfinished ms m \<and> abandons m x)"
proof
  assume "withdrawn_output (ms @ [x]) m"
  then obtain pre y post where d: "ms @ [x] = pre @ y # post" "unfinished pre m" "abandons m y" unfolding withdrawn_output_def by blast
  show "withdrawn_output ms m \<or> (unfinished ms m \<and> abandons m x)"
  proof (cases post rule: rev_cases)
    case (snoc ys z)
    then have "ms = pre @ y # ys" using d(1) by simp
    then show ?thesis using d(2,3) unfolding withdrawn_output_def by blast
  qed (use d in simp)
next
  assume "withdrawn_output ms m \<or> (unfinished ms m \<and> abandons m x)"
  then show "withdrawn_output (ms @ [x]) m"
  proof (elim disjE conjE)
    assume "withdrawn_output ms m"
    then obtain pre y post where "ms = pre @ y # post" "unfinished pre m" "abandons m y" unfolding withdrawn_output_def by blast
    then show ?thesis unfolding withdrawn_output_def by (intro exI[of _ pre] exI[of _ y] exI[of _ "post @ [x]"]) simp
  next
    assume "unfinished ms m" "abandons m x"
    then show ?thesis unfolding withdrawn_output_def by (intro exI[of _ ms] exI[of _ x] exI[of _ "[]"]) simp
  qed
qed

lemma source_pending_update [simp]:
  "source_pending (W\<lparr>wd_pending := AList.update s ms (wd_pending W)\<rparr>) source = (if source = s then ms else source_pending W source)"
  "source_pending (W\<lparr>wd_outputs := a, wd_calls := b, wd_pending := AList.update s ms (wd_pending W)\<rparr>) source
     = (if source = s then ms else source_pending W source)"
  by (simp_all add: source_pending_def update_conv')

lemma withdrawn_exact:
  "set (source_pending (withdrawn ms) source) = {m. unfinished ms m \<and> m_source m = source}
   \<and> set (wd_outputs (withdrawn ms)) = m_id ` {m. withdrawn_output ms m}
   \<and> set (wd_calls (withdrawn ms)) = (\<Union>m \<in> {m. withdrawn_output ms m}. set (message_calls m))"
proof (induction ms arbitrary: source rule: rev_induct)
  case Nil
  then show ?case by (simp add: withdrawn_def no_withdrawal_def source_pending_def unfinished_def withdrawn_output_def)
next
  case (snoc x ms)
  let ?W = "withdrawn ms"
  have step: "withdrawn (ms @ [x]) = withdraw_step x ?W" by (simp add: withdrawn_def)
  show ?case
  proof (cases "m_body x")
    case (Output ps f)
    have "\<not> abandons m x" "closes_output m x \<longleftrightarrow> m_source x = m_source m \<and> f \<noteq> Continue" for m
      by (auto simp: abandons_def closes_output_def Output)
    then show ?thesis using snoc by (auto simp: step withdraw_step_def Output unfinished_snoc withdrawn_snoc)
  next
    case (Control a t r)
    have c: "abandons m x \<longleftrightarrow> m_source x = m_source m \<and> a = Abandon \<and> m_seq m \<le> t" "\<not> closes_output m x" for m
      by (auto simp: abandons_def closes_output_def Control)
    show ?thesis
    proof (cases "a = Abandon")
      case True
      let ?gone = "filter (\<lambda>y. m_seq y \<le> t) (source_pending ?W (m_source x))"
      have gone: "set ?gone = {m. unfinished ms m \<and> abandons m x}" using snoc[of "m_source x"] c(1) True by auto
      have calls: "set (calls_in (m_id m) (body_parts (m_body m))) = set (message_calls m)" if "m \<in> set ?gone" for m
        using that unfolding gone by (auto simp: unfinished_def message_calls.simps)
      have w: "withdrawn (ms @ [x]) = ?W\<lparr>wd_outputs := map m_id ?gone @ wd_outputs ?W,
            wd_calls := concat (map (\<lambda>y. calls_in (m_id y) (body_parts (m_body y))) ?gone) @ wd_calls ?W,
            wd_pending := AList.update (m_source x) (filter (\<lambda>y. t < m_seq y) (source_pending ?W (m_source x))) (wd_pending ?W)\<rparr>"
        using True by (simp add: step withdraw_step_def Control Let_def)
      have new: "{m. withdrawn_output (ms @ [x]) m} = set ?gone \<union> {m. withdrawn_output ms m}"
        unfolding gone withdrawn_snoc by blast
      have "set (wd_outputs (withdrawn (ms @ [x]))) = m_id ` set ?gone \<union> m_id ` {m. withdrawn_output ms m}"
        using snoc by (simp add: w)
      moreover have "set (wd_calls (withdrawn (ms @ [x]))) = (\<Union>m \<in> set ?gone. set (message_calls m)) \<union> (\<Union>m \<in> {m. withdrawn_output ms m}. set (message_calls m))"
        using snoc calls by (simp add: w)
      moreover have "set (source_pending (withdrawn (ms @ [x])) source) = {m. unfinished (ms @ [x]) m \<and> m_source m = source}"
      proof -
        have u: "{m. unfinished (ms @ [x]) m \<and> m_source m = source} =
            {m. (unfinished ms m \<and> m_source m = source) \<and> \<not> (m_source x = source \<and> m_seq m \<le> t)}"
          using c True by (auto simp: unfinished_snoc Control)
        have "set (source_pending ?W source) = {m. unfinished ms m \<and> m_source m = source}" using snoc by blast
        then show ?thesis unfolding u w source_pending_update by (cases "source = m_source x") (simp_all add: not_le set_filter)
      qed
      ultimately show ?thesis unfolding new by (simp add: image_Un)
    next
      case False
      then show ?thesis using snoc c by (auto simp: step withdraw_step_def Control unfinished_snoc withdrawn_snoc)
    qed
  next
    case (Input ps)
    then show ?thesis using snoc by (auto simp: step withdraw_step_def unfinished_snoc withdrawn_snoc abandons_def closes_output_def)
  next
    case (ToolResult l r oc ps)
    then show ?thesis using snoc by (auto simp: step withdraw_step_def unfinished_snoc withdrawn_snoc abandons_def closes_output_def)
  qed
qed

section \<open>Calls and their results\<close>

lemma foldR_snoc: "foldR f (xs @ [x]) s = Inr t \<longleftrightarrow> (\<exists>u. foldR f xs s = Inr u \<and> f x u = Inr t)"
  by (simp add: foldR_append res_simps)

lemma replay_step_results:
  assumes "replay_step P read_call W recorded m V = Inr V'"
  shows "(case result_ref (m_body m) of
      Some r \<Rightarrow> if r \<in> set (wd_calls W) then rp_results V' = rp_results V
        else map_of (rp_results V) r = None \<and> rp_results V' = AList.update r m (rp_results V)
    | None \<Rightarrow> rp_results V' = rp_results V)"
proof (cases "m_body m")
  case (Output ps f)
  then show ?thesis using assms replay_output_facts by (auto simp: replay_step_def split: if_splits option.splits)
qed (use assms in \<open>auto simp: replay_step_def split: if_splits\<close>)

lemma replayed_results:
  assumes "foldR (replay_step P read_call W recorded) ms no_replay = Inr V"
  shows "map_of (rp_results V) r = Some m \<longleftrightarrow> m \<in> set ms \<and> result_ref (m_body m) = Some r \<and> r \<notin> set (wd_calls W)"
  using assms
proof (induction ms arbitrary: V r m rule: rev_induct)
  case Nil
  then show ?case by (auto simp: no_replay_def)
next
  case (snoc x ms)
  obtain U where U: "foldR (replay_step P read_call W recorded) ms no_replay = Inr U" "replay_step P read_call W recorded x U = Inr V"
    using snoc.prems unfolding foldR_snoc by blast
  note ih = snoc.IH[OF U(1)] and step = replay_step_results[OF U(2)]
  show ?case
  proof (cases "result_ref (m_body x)")
    case None
    then show ?thesis using ih[of r m] step by auto
  next
    case (Some q)
    show ?thesis
    proof (cases "q \<in> set (wd_calls W)")
      case True
      then show ?thesis using ih[of r m] step Some by auto
    next
      case False
      then have "map_of (rp_results U) q = None" "rp_results V = AList.update q x (rp_results U)" using step Some by simp_all
      then show ?thesis using ih[of r m] ih[of q] Some False by (auto simp: update_conv')
    qed
  qed
qed

text \<open>Every call the assembly of a row goes through has its result, and only results of such calls are used.\<close>

lemma parts_results:
  assumes "foldR (part_step P V gone known m) ips A = Inr A'"
  shows "(\<forall>(i, p) \<in> set ips. is_tool_call p \<and> \<not> gone \<longrightarrow> (\<exists>o'. map_of (rp_results V) (CallRef (m_id m) i) = Some o' \<and> m_seq m < m_seq o'))
    \<and> (\<forall>u \<in> set (as_used A'). u \<in> set (as_used A) \<or> \<not> gone \<and> (\<exists>(i, p) \<in> set ips. is_tool_call p \<and>
          (\<exists>o'. map_of (rp_results V) (CallRef (m_id m) i) = Some o' \<and> m_id o' = u)))"
  using assms
proof (induction ips arbitrary: A)
  case (Cons ip ips)
  obtain i p where ip: "ip = (i, p)" by (cases ip)
  obtain B where B: "part_step P V gone known m ip A = Inr B" "foldR (part_step P V gone known m) ips B = Inr A'"
    using Cons.prems by (auto simp: res_simps)
  have "(is_tool_call p \<and> \<not> gone \<longrightarrow> (\<exists>o'. map_of (rp_results V) (CallRef (m_id m) i) = Some o' \<and> m_seq m < m_seq o' \<and> as_used B = m_id o' # as_used A))
    \<and> (\<not> (is_tool_call p \<and> \<not> gone) \<longrightarrow> as_used B = as_used A)"
  proof (cases p)
    case (ContentPart k v)
    then show ?thesis using B(1) ip by (auto simp: part_step_def rejection_step_def res_simps split: if_splits option.splits)
  next
    case (ToolCall binding args)
    then show ?thesis using B(1) ip call_step_adds[of P V known m i binding args A B] by (auto simp: part_step_def split: if_splits)
  qed
  then show ?case using Cons.IH[OF B(2)] ip by fastforce
qed simp

lemma rows_results:
  assumes "foldR (row_step P V W after) ms acc = Inr acc'"
  shows "(\<forall>m \<in> set ms. \<not> not_shown P after m \<and> m_id m \<notin> set (wd_outputs W) \<longrightarrow>
      (\<forall>(i, p) \<in> set (List.enumerate 0 (body_parts (m_body m))). is_tool_call p \<longrightarrow>
        (\<exists>o'. map_of (rp_results V) (CallRef (m_id m) i) = Some o' \<and> m_seq m < m_seq o')))
    \<and> (\<forall>u \<in> set (snd acc'). u \<in> set (snd acc) \<or> (\<exists>m \<in> set ms. \<not> not_shown P after m \<and> m_id m \<notin> set (wd_outputs W)
        \<and> (\<exists>(i, p) \<in> set (List.enumerate 0 (body_parts (m_body m))). is_tool_call p \<and>
          (\<exists>o'. map_of (rp_results V) (CallRef (m_id m) i) = Some o' \<and> m_id o' = u))))"
  using assms
proof (induction ms arbitrary: acc)
  case (Cons m ms)
  obtain b where b: "row_step P V W after m acc = Inr b" "foldR (row_step P V W after) ms b = Inr acc'"
    using Cons.prems by (auto simp: res_simps)
  show ?case
  proof (cases "not_shown P after m")
    case True
    then show ?thesis using row_step_adds[OF b(1)] Cons.IH[OF b(2)] by auto
  next
    case False
    then obtain A where "foldR (part_step P V (m_id m \<in> set (wd_outputs W)) (map_of (rp_facts V) (m_id m)) m) (List.enumerate 0 (body_parts (m_body m)))
                 (empty_assembly (snd acc)) = Inr A" "snd b = as_used A"
      using row_step_adds[OF b(1)] by auto
    then show ?thesis using parts_results[of P V _ _ m _ "empty_assembly (snd acc)" A] Cons.IH[OF b(2)] False by fastforce
  qed
qed simp

lemma calls_of_output:
  assumes "m_body m = Output ps f"
  shows "c \<in> set (message_calls m) \<longleftrightarrow> (\<exists>(i, p) \<in> set (List.enumerate 0 ps). is_tool_call p \<and> c = CallRef (m_id m) i)"
  using assms by (auto simp: message_calls.simps calls_in_def)

lemma shown_calls:
  assumes "wf_body (m_body m)" "\<not> not_shown P after m"
  shows "c \<in> set (message_calls m) \<longleftrightarrow> (\<exists>(i, p) \<in> set (List.enumerate 0 (body_parts (m_body m))). is_tool_call p \<and> c = CallRef (m_id m) i)"
proof (cases "m_body m")
  case (Input ps)
  then have "\<not> list_ex is_tool_call ps" using assms(1) by simp
  then show ?thesis using Input by (auto simp: message_calls.simps list_ex_iff in_set_enumerate_eq)
next
  case (Output ps f)
  then show ?thesis using calls_of_output[OF Output] by simp
qed (use assms(2) in \<open>simp_all add: not_shown_def\<close>)

lemma withdrawn_ids:
  assumes "distinct (map m_id ms)" "m \<in> set ms"
  shows "m_id m \<in> set (wd_outputs (withdrawn ms)) \<longleftrightarrow> withdrawn_output ms m"
proof -
  have known: "m' \<in> set ms" if "withdrawn_output ms m'" for m'
    using that unfolding withdrawn_output_def unfinished_def by fastforce
  have "set (wd_outputs (withdrawn ms)) = m_id ` {m. withdrawn_output ms m}" using withdrawn_exact by blast
  moreover have "m = m'" if "withdrawn_output ms m'" "m_id m = m_id m'" for m'
    using inj_onD[of m_id "set ms" m m'] assms known[OF that(1)] that(2) by (simp add: distinct_map)
  ultimately show ?thesis by (auto simp: image_iff)
qed

text \<open>
  What a message must look like in a request, said without the assembly of its row: its calls and
  rejected calls are shown unless it is withdrawn, each with the answer it got; its other parts are
  shown as the blocks their renderer makes.
\<close>

definition shown_parts :: "message list \<Rightarrow> message \<Rightarrow> (nat \<times> part) list" where
  "shown_parts ms m = (if withdrawn_output ms m then []
     else filter (\<lambda>(i, p). is_tool_call p \<or> is_rejection p) (List.enumerate 0 (body_parts (m_body m))))"

definition rendered :: "part \<Rightarrow> bool" where
  "rendered p \<longleftrightarrow> (\<exists>k v. p = ContentPart k v \<and> k \<noteq> ''model.facts'' \<and> k \<noteq> ''model.tool_rejection'')"

definition content_of :: "json_object list \<Rightarrow> json" where
  "content_of blocks = JArr (map JObj blocks)"

text \<open>The answer of a call is the content of a later result of it, after a line on the outcome when that is no
  success; the answer of a rejected call says that it was not run and why.\<close>

definition answered_by :: "projection \<Rightarrow> message list \<Rightarrow> message \<Rightarrow> nat \<times> part \<Rightarrow> json_object \<Rightarrow> bool" where
  "answered_by P ms m ip shown \<longleftrightarrow> (case ip of
     (i, ToolCall b args) \<Rightarrow> \<exists>m' \<in> set ms. \<exists>l oc ps bs line. m_body m' = ToolResult l (CallRef (m_id m) i) oc ps \<and> m_seq m < m_seq m'
        \<and> mapR (pj_content P) ps = Inr bs \<and> map_of shown ''content'' = Some (content_of (line @ concat bs)) \<and> (line = [] \<longleftrightarrow> oc = Success)
   | (i, ContentPart k v) \<Rightarrow> map_of shown ''content'' = Some (content_of [text_block (not_run_text @ json_str (field (obj_items v) ''error''))]))"

text \<open>The rows of a message: a reminder perhaps, then - unless it has neither blocks nor shown calls - one row with its
  blocks and the ids of its calls, followed by their answers in order.\<close>

definition rows_of_message :: "projection \<Rightarrow> int \<Rightarrow> message list \<Rightarrow> message \<Rightarrow> json_object list \<Rightarrow> bool" where
  "rows_of_message P after ms m rows \<longleftrightarrow> (if not_shown P after m then rows = []
     else \<exists>before group bs. rows = before @ group \<and> (\<forall>r \<in> set before. \<not> is_answer r \<and> row_calls r = [])
       \<and> mapR (pj_content P) (filter rendered (body_parts (m_body m))) = Inr bs
       \<and> (if concat bs = [] \<and> shown_parts ms m = [] then group = []
          else \<exists>r answers. group = r # answers \<and> \<not> is_answer r \<and> map_of r ''content'' = Some (content_of (concat bs))
            \<and> list_all2 answers_id answers (row_calls r) \<and> list_all2 (answered_by P ms m) (shown_parts ms m) answers))"

lemma mapR_append: "mapR f (xs @ ys) = bindR (mapR f xs) (\<lambda>as. bindR (mapR f ys) (\<lambda>bs. Inr (as @ bs)))"
  by (induction xs) (simp_all add: bindR_def split: sum.splits)

lemma part_adds:
  assumes "part_step P V gone known m (i, p) A = Inr A'"
    and res: "\<And>r m'. map_of (rp_results V) r = Some m' \<Longrightarrow> m' \<in> set ms \<and> result_ref (m_body m') = Some r"
  shows "\<exists>bs answers. mapR (pj_content P) (filter rendered [p]) = Inr bs \<and> as_blocks A' = as_blocks A @ concat bs
    \<and> as_observations A' = as_observations A @ answers
    \<and> list_all2 (answered_by P ms m) (if gone then [] else filter (\<lambda>(i, p). is_tool_call p \<or> is_rejection p) [(i, p)]) answers"
proof (cases p)
  case (ContentPart k v)
  then show ?thesis using assms(1)
    by (auto simp: part_step_def rejection_step_def rendered_def is_rejection_def answered_by_def observation_row_def content_of_def res_simps
        split: if_splits option.splits)
next
  case (ToolCall b args)
  then have plain: "filter rendered [p] = []" by (simp add: rendered_def)
  show ?thesis
  proof (cases gone)
    case True
    then show ?thesis using assms(1) ToolCall plain by (simp add: part_step_def)
  next
    case False
    then have c: "call_step P V known m i b args A = Inr A'" using assms(1) ToolCall by (simp add: part_step_def)
    obtain identity name args' x blocks l r oc ps where x: "map_of (rp_results V) (CallRef (m_id m) i) = Some x" "m_seq m < m_seq x"
      and body: "m_body x = ToolResult l r oc ps" "result_blocks P oc ps = Inr blocks"
      and A': "A' = A\<lparr>as_calls := as_calls A @ [call_entry identity name args'], as_observations := as_observations A @ [observation_row identity blocks],
             as_used := m_id x # as_used A\<rparr>"
      using call_step_adds[OF c] by blast
    obtain bs where "mapR (pj_content P) ps = Inr bs" and blocks: "blocks = (if oc = Success then [] else [text_block (outcome_text oc)]) @ concat bs"
      using body(2) by (auto simp: result_blocks_def res_simps)
    then have "answered_by P ms m (i, p) (observation_row identity blocks)"
      using res[OF x(1)] x(2) body(1) ToolCall
      by (auto simp: answered_by_def observation_row_def content_of_def intro!: bexI[of _ x]
          exI[of _ "if oc = Success then [] else [text_block (outcome_text oc)]"])
    then show ?thesis using A' plain False ToolCall by simp
  qed
qed

lemma parts_add:
  assumes "foldR (part_step P V gone known m) ips A = Inr A'"
    and res: "\<And>r m'. map_of (rp_results V) r = Some m' \<Longrightarrow> m' \<in> set ms \<and> result_ref (m_body m') = Some r"
  shows "\<exists>bs answers. mapR (pj_content P) (filter rendered (map snd ips)) = Inr bs \<and> as_blocks A' = as_blocks A @ concat bs
    \<and> as_observations A' = as_observations A @ answers
    \<and> list_all2 (answered_by P ms m) (if gone then [] else filter (\<lambda>(i, p). is_tool_call p \<or> is_rejection p) ips) answers"
  using assms(1)
proof (induction ips arbitrary: A)
  case (Cons ip ips)
  obtain i p where ip: "ip = (i, p)" by (cases ip)
  obtain B where B: "part_step P V gone known m ip A = Inr B" "foldR (part_step P V gone known m) ips B = Inr A'"
    using Cons.prems by (auto simp: res_simps)
  obtain bs answers where one: "mapR (pj_content P) (filter rendered [p]) = Inr bs" "as_blocks B = as_blocks A @ concat bs"
    "as_observations B = as_observations A @ answers"
    "list_all2 (answered_by P ms m) (if gone then [] else filter (\<lambda>(i, p). is_tool_call p \<or> is_rejection p) [(i, p)]) answers"
    using part_adds[OF B(1)[unfolded ip] res] by blast
  obtain bs' answers' where rest: "mapR (pj_content P) (filter rendered (map snd ips)) = Inr bs'" "as_blocks A' = as_blocks B @ concat bs'"
    "as_observations A' = as_observations B @ answers'"
    "list_all2 (answered_by P ms m) (if gone then [] else filter (\<lambda>(i, p). is_tool_call p \<or> is_rejection p) ips) answers'"
    using Cons.IH[OF B(2)] by blast
  have split: "(if gone then [] else filter (\<lambda>(i, p). is_tool_call p \<or> is_rejection p) (ip # ips))
      = (if gone then [] else filter (\<lambda>(i, p). is_tool_call p \<or> is_rejection p) [(i, p)]) @ (if gone then [] else filter (\<lambda>(i, p). is_tool_call p \<or> is_rejection p) ips)"
    unfolding ip by simp
  have "mapR (pj_content P) (filter rendered (map snd (ip # ips))) = Inr (bs @ bs')"
    using mapR_append[of "pj_content P" "filter rendered [p]" "filter rendered (map snd ips)"] one(1) rest(1) ip by (simp split: if_splits)
  moreover have "list_all2 (answered_by P ms m) (if gone then [] else filter (\<lambda>(i, p). is_tool_call p \<or> is_rejection p) (ip # ips)) (answers @ answers')"
    unfolding split by (rule list_all2_appendI[OF one(4) rest(4)])
  moreover have "as_blocks A' = as_blocks A @ concat (bs @ bs')" "as_observations A' = as_observations A @ answers @ answers'"
    using one(2,3) rest(2,3) by simp_all
  ultimately show ?case by blast
qed simp

lemma reminders_plain: "\<forall>r \<in> set (reminder_rows known). \<not> is_answer r \<and> row_calls r = []"
  by (cases known; cases "map_of (the known) ''reminder''"; cases "the (map_of (the known) ''reminder'')")
    (simp_all add: reminder_rows_def is_answer_def row_calls_def)

lemma message_row_content: "map_of (message_row b known A) ''content'' = Some (content_of (as_blocks A))"
  by (simp add: message_row_def content_of_def)

lemma row_adds:
  assumes step: "row_step P V (withdrawn ms) after m acc = Inr acc'" and "facts_known V" and m: "m \<in> set ms" "distinct (map m_id ms)"
    and res: "\<And>r m'. map_of (rp_results V) r = Some m' \<Longrightarrow> m' \<in> set ms \<and> result_ref (m_body m') = Some r"
  shows "\<exists>g. fst acc' = fst acc @ g \<and> rows_of_message P after ms m g"
proof (cases "not_shown P after m")
  case True
  then show ?thesis using row_step_adds[OF step] by (simp add: rows_of_message_def)
next
  case False
  let ?known = "map_of (rp_facts V) (m_id m)"
  obtain A where a: "foldR (part_step P V (m_id m \<in> set (wd_outputs (withdrawn ms))) ?known m) (List.enumerate 0 (body_parts (m_body m)))
                 (empty_assembly (snd acc)) = Inr A"
    and acc': "fst acc' = fst acc @ reminder_rows ?known
                 @ (if as_blocks A = [] \<and> as_calls A = [] then [] else message_row (m_body m) ?known A # as_observations A)"
    using row_step_adds[OF step] False by auto
  let ?group = "if as_blocks A = [] \<and> as_calls A = [] then [] else message_row (m_body m) ?known A # as_observations A"
  have "checked ?known" using assms(2) by (auto simp: checked_def facts_known_def dest!: map_of_SomeD)
  then have asm: "list_all2 answers_id (as_observations A) (row_calls (message_row (m_body m) ?known A))" and len: "length (as_calls A) = length (as_observations A)"
    using parts_assembled[OF a] by (auto simp: assembled_def message_row_shape(2) list_all2_map2 dest: list_all2_lengthD)
  obtain bs where bs: "mapR (pj_content P) (filter rendered (body_parts (m_body m))) = Inr bs" "as_blocks A = concat bs"
    and answers: "list_all2 (answered_by P ms m) (shown_parts ms m) (as_observations A)"
    using parts_add[OF a res] withdrawn_ids[OF m(2,1)] by (auto simp: shown_parts_def map_snd_enumerate)
  have "as_calls A = [] \<longleftrightarrow> shown_parts ms m = []" using len list_all2_lengthD[OF answers] by (metis length_0_conv)
  then have group: "if concat bs = [] \<and> shown_parts ms m = [] then ?group = []
      else \<exists>r answers. ?group = r # answers \<and> \<not> is_answer r \<and> map_of r ''content'' = Some (content_of (concat bs))
        \<and> list_all2 answers_id answers (row_calls r) \<and> list_all2 (answered_by P ms m) (shown_parts ms m) answers"
    using bs(2) asm answers message_row_shape(1)[of "m_body m" ?known A] message_row_content[of "m_body m" ?known A] by simp
  have "rows_of_message P after ms m (reminder_rows ?known @ ?group)"
    unfolding rows_of_message_def if_not_P[OF False] using reminders_plain bs(1) group by blast
  then show ?thesis unfolding acc' by blast
qed

lemma rows_add:
  assumes "foldR (row_step P V (withdrawn ms) after) xs acc = Inr acc'" and "facts_known V" and "set xs \<subseteq> set ms" "distinct (map m_id ms)"
    and res: "\<And>r m'. map_of (rp_results V) r = Some m' \<Longrightarrow> m' \<in> set ms \<and> result_ref (m_body m') = Some r"
  shows "\<exists>groups. fst acc' = fst acc @ concat groups \<and> list_all2 (rows_of_message P after ms) xs groups"
  using assms(1,3)
proof (induction xs arbitrary: acc)
  case (Cons m xs)
  obtain b where b: "row_step P V (withdrawn ms) after m acc = Inr b" "foldR (row_step P V (withdrawn ms) after) xs b = Inr acc'"
    using Cons.prems(1) by (auto simp: res_simps)
  obtain g where "fst b = fst acc @ g" "rows_of_message P after ms m g"
    using row_adds[OF b(1) assms(2) _ assms(4) res] Cons.prems(2) by auto
  moreover obtain groups where "fst acc' = fst b @ concat groups" "list_all2 (rows_of_message P after ms) xs groups"
    using Cons.IH[OF b(2)] Cons.prems(2) by auto
  ultimately have "fst acc' = fst acc @ concat (g # groups) \<and> list_all2 (rows_of_message P after ms) (m # xs) (g # groups)" by simp
  then show ?case by blast
qed simp

text \<open>C28. A request shows the history: its rows are the rows of its messages in order, each with the blocks of its
  parts, every call of a message that is not withdrawn with the answer it got, whether or not the
  message has other content, and no withdrawn call. Every such call has a later result in the
  history, and every result after the cut answers such a call, unless the work it belongs to was
  withdrawn. So no call is sent unanswered and no result is dropped.\<close>

theorem calls_shown_with_results:
  assumes "projected P ms after reference fresh = Inr (rows, c)" and "\<forall>m \<in> set ms. wf_body (m_body m)" and "distinct (map m_id ms)"
  shows "(\<exists>groups. rows = concat groups \<and> list_all2 (rows_of_message P after ms) ms groups)
    \<and> (\<forall>m \<in> set ms. \<not> not_shown P after m \<and> \<not> withdrawn_output ms m \<longrightarrow>
      (\<forall>r \<in> set (message_calls m). \<exists>m' \<in> set ms. result_ref (m_body m') = Some r \<and> m_seq m < m_seq m'))
    \<and> (\<forall>m' \<in> set ms. \<forall>r. result_ref (m_body m') = Some r \<and> after < m_seq m' \<and> (\<nexists>m. withdrawn_output ms m \<and> r \<in> set (message_calls m)) \<longrightarrow>
      (\<exists>m \<in> set ms. \<not> not_shown P after m \<and> \<not> withdrawn_output ms m \<and> r \<in> set (message_calls m)))"
proof -
  let ?W = "withdrawn ms"
  obtain recorded read_call V used where V: "foldR (replay_step P read_call ?W recorded) ms no_replay = Inr V"
    and rows: "foldR (row_step P V ?W after) ms ([], []) = Inr (rows, used)"
    and all_used: "\<forall>p \<in> set (rp_results V). after < m_seq (snd p) \<longrightarrow> m_id (snd p) \<in> set used" and known: "facts_known V"
    using projected_steps[OF assms(1)] by metis
  note res = replayed_results[OF V] and rr = rows_results[OF rows, unfolded snd_conv]
  show ?thesis
  proof (intro conjI ballI allI impI)
    show "\<exists>groups. rows = concat groups \<and> list_all2 (rows_of_message P after ms) ms groups"
      using rows_add[OF rows known subset_refl assms(3)] res by auto
  next
    fix m r assume m: "m \<in> set ms" "\<not> not_shown P after m \<and> \<not> withdrawn_output ms m" and r: "r \<in> set (message_calls m)"
    obtain i p where "(i, p) \<in> set (List.enumerate 0 (body_parts (m_body m)))" "is_tool_call p" "r = CallRef (m_id m) i"
      using shown_calls[of m P after r] m r assms(2) by blast
    then obtain o' where "map_of (rp_results V) r = Some o'" "m_seq m < m_seq o'"
      using rr m withdrawn_ids[OF assms(3) m(1)] by fastforce
    then show "\<exists>m' \<in> set ms. result_ref (m_body m') = Some r \<and> m_seq m < m_seq m'" using res by blast
  next
    fix m' r assume m': "m' \<in> set ms"
      and h: "result_ref (m_body m') = Some r \<and> after < m_seq m' \<and> (\<nexists>m. withdrawn_output ms m \<and> r \<in> set (message_calls m))"
    have "r \<notin> set (wd_calls ?W)" using h withdrawn_exact[of ms] by blast
    then have "map_of (rp_results V) r = Some m'" using res m' h by blast
    then have "m_id m' \<in> set used" using all_used h map_of_SomeD by fastforce
    then obtain m i p o' where m: "m \<in> set ms" "\<not> not_shown P after m" "m_id m \<notin> set (wd_outputs ?W)"
      and ip: "(i, p) \<in> set (List.enumerate 0 (body_parts (m_body m)))" "is_tool_call p"
      and o': "map_of (rp_results V) (CallRef (m_id m) i) = Some o'" "m_id o' = m_id m'"
      using rr by fastforce
    have "o' \<in> set ms" "result_ref (m_body o') = Some (CallRef (m_id m) i)" using res o'(1) by blast+
    moreover have "o' = m'" using assms(3) calculation(1) m' o'(2) by (simp add: distinct_map inj_on_def)
    ultimately have "r = CallRef (m_id m) i" using h by simp
    then have "r \<in> set (message_calls m)" using shown_calls[of m P after r] m(1,2) ip assms(2) by blast
    then show "\<exists>m \<in> set ms. \<not> not_shown P after m \<and> \<not> withdrawn_output ms m \<and> r \<in> set (message_calls m)"
      using m withdrawn_ids[OF assms(3) m(1)] by blast
  qed
qed

section \<open>The opaque state\<close>

definition closes_state :: "projection \<Rightarrow> withdrawal \<Rightarrow> (string \<times> json_object) list \<Rightarrow> message \<Rightarrow> bool" where
  "closes_state P W recorded m \<longleftrightarrow> m_source m = pj_source P \<and> ((\<exists>t r. m_body m = Control Abandon t r) \<or> (\<exists>ps d. replays W recorded m ps d))"

lemma replayed_state:
  assumes "foldR (replay_step P read_call W recorded) ms no_replay = Inr V" and "rp_continuation V = Some k"
  shows "\<exists>pre m post ps d. ms = pre @ m # post \<and> replays W recorded m ps d \<and> m_source m = pj_source P \<and> continuation_of d = Some k
    \<and> used_summary ps = Inr (rp_summary V) \<and> rp_seq V = m_seq m \<and> (\<forall>y \<in> set post. \<not> closes_state P W recorded y)"
  using assms
proof (induction ms arbitrary: V rule: rev_induct)
  case Nil
  then show ?case by (auto simp: no_replay_def)
next
  case (snoc x ms)
  obtain U where U: "foldR (replay_step P read_call W recorded) ms no_replay = Inr U" "replay_step P read_call W recorded x U = Inr V"
    using snoc.prems(1) unfolding foldR_snoc by blast
  show ?case
  proof (cases "closes_state P W recorded x")
    case True
    then have src: "m_source x = pj_source P" by (simp add: closes_state_def)
    show ?thesis
    proof (cases "\<exists>ps d. replays W recorded x ps d")
      case r: True
      then obtain ps d where r: "replays W recorded x ps d" "replay_output P read_call x ps d U = Inr V"
        using replay_step_facts[OF U(2)] by blast
      obtain su where "used_summary ps = Inr su" "V = U\<lparr>rp_continuation := continuation_of d, rp_seq := m_seq x, rp_summary := su,
           rp_facts := AList.update (m_id x) d (rp_facts U)\<rparr>"
        using replay_output_adds[OF r(2)] src by auto
      then show ?thesis using r(1) src snoc.prems(2)
        by (intro exI[of _ ms] exI[of _ x] exI[of _ "[]"] exI[of _ ps] exI[of _ d]) simp
    next
      case False
      then obtain t q where "m_body x = Control Abandon t q" using True by (auto simp: closes_state_def)
      then show ?thesis using U(2) src snoc.prems(2) by (auto simp: replay_step_def)
    qed
  next
    case False
    have same: "rp_continuation V = rp_continuation U \<and> rp_summary V = rp_summary U \<and> rp_seq V = rp_seq U"
      using replay_step_facts[OF U(2)]
    proof (elim disjE exE conjE)
      fix ps d assume r: "replays W recorded x ps d" "replay_output P read_call x ps d U = Inr V"
      then have "m_source x \<noteq> pj_source P" using False by (auto simp: closes_state_def)
      then show ?thesis using replay_output_adds[OF r(2)] by auto
    next
      assume "\<nexists>ps d. replays W recorded x ps d"
      then show ?thesis using U(2) False
        by (cases "m_body x") (auto simp: replay_step_def closes_state_def replays_def split: if_splits option.splits)
    qed
    then obtain pre m post ps d where "ms = pre @ m # post" "replays W recorded m ps d" "m_source m = pj_source P" "continuation_of d = Some k"
      "used_summary ps = Inr (rp_summary V)" "rp_seq V = m_seq m" "\<forall>y \<in> set post. \<not> closes_state P W recorded y"
      using snoc.IH[OF U(1)] snoc.prems(2) by metis
    then show ?thesis using False
      by (intro exI[of _ pre] exI[of _ m] exI[of _ "post @ [x]"] exI[of _ ps] exI[of _ d]) auto
  qed
qed

lemma record_step_other:
  assumes "record_step gone x r = Inr r'" "i \<noteq> m_id x"
  shows "map_of r' i = map_of r i"
  using assms by (auto simp: record_step_def res_simps update_conv' split: body.splits if_splits list.splits)

lemma recorded_exact:
  assumes "foldR (record_step gone) ms [] = Inr recorded" and "distinct (map m_id ms)" and "m \<in> set ms" and "m_body m = Output ps f"
  shows "map_of recorded (m_id m) = Some d \<longleftrightarrow> m_id m \<notin> set gone \<and> facts_parts ps = [JObj d]"
    and "m_id m \<notin> set gone \<Longrightarrow> facts_parts ps \<noteq> [] \<Longrightarrow> map_of recorded (m_id m) \<noteq> None"
proof -
  have unknown: "map_of recorded i = None" if "foldR (record_step gone) ms [] = Inr recorded" "i \<notin> m_id ` set ms" for ms recorded i
    using that
  proof (induction ms arbitrary: recorded rule: rev_induct)
    case (snoc x ms)
    then obtain r where "foldR (record_step gone) ms [] = Inr r" "record_step gone x r = Inr recorded" unfolding foldR_snoc by blast
    then show ?case using snoc record_step_other[of gone x r recorded i] by auto
  qed auto
  have "(map_of recorded (m_id m) = Some d \<longleftrightarrow> m_id m \<notin> set gone \<and> facts_parts ps = [JObj d])
    \<and> (m_id m \<notin> set gone \<longrightarrow> facts_parts ps \<noteq> [] \<longrightarrow> map_of recorded (m_id m) \<noteq> None)"
    using assms
  proof (induction ms arbitrary: recorded rule: rev_induct)
    case (snoc x ms)
    obtain r where r: "foldR (record_step gone) ms [] = Inr r" "record_step gone x r = Inr recorded"
      using snoc.prems(1) unfolding foldR_snoc by blast
    show ?case
    proof (cases "m = x")
      case True
      have new: "map_of r (m_id m) = None" using unknown[OF r(1)] snoc.prems(2) True by auto
      have "\<exists>e. v = JObj e" if "check_facts v = Inr u" for v u using that by (cases v) (simp_all add: check_facts_def)
      then show ?thesis using r(2) new snoc.prems(4) True
        by (fastforce simp: record_step_def res_simps update_conv' split: if_splits list.splits)
    next
      case False
      then have m: "m \<in> set ms" using snoc.prems(3) by simp
      then have other: "m_id m \<noteq> m_id x" using snoc.prems(2) by (metis distinct_append image_eqI list.set_map map_append disjoint_iff list.simps(9) list.set_intros(1))
      have "map_of recorded (m_id m) = map_of r (m_id m)"
        by (rule record_step_other[OF r(2) other])
      then show ?thesis using snoc.IH[OF r(1)] snoc.prems(2,4) m by simp
    qed
  qed simp
  then show "map_of recorded (m_id m) = Some d \<longleftrightarrow> m_id m \<notin> set gone \<and> facts_parts ps = [JObj d]"
    and "m_id m \<notin> set gone \<Longrightarrow> facts_parts ps \<noteq> [] \<Longrightarrow> map_of recorded (m_id m) \<noteq> None" by blast+
qed

text \<open>C29. The opaque state of a provider is continued only where it belongs: if a request carries one, it was issued by the
  current binding, is that of the last replayed answer of the source, which was not withdrawn and after which the source abandoned
  nothing; the request is not a fresh one, and under a summary that answer used the same summary and stands after the cut.\<close>

theorem state_continued:
  assumes "projected P ms after reference fresh = Inr (rows, Some k)" and "distinct (map m_id ms)"
  shows "fst k = pj_binding P \<and> \<not> fresh \<and> (\<exists>pre m post ps f d. ms = pre @ m # post \<and> m_source m = pj_source P \<and> m_body m = Output ps f
    \<and> facts_parts ps = [JObj d] \<and> continuation_of d = Some k \<and> \<not> withdrawn_output ms m
    \<and> (case reference of None \<Rightarrow> after < 0 | Some r \<Rightarrow> used_summary ps = Inr (Some r) \<and> after < m_seq m)
    \<and> (\<forall>y \<in> set post. m_source y = pj_source P \<longrightarrow>
          (\<forall>t q. m_body y \<noteq> Control Abandon t q) \<and> (\<forall>ps' f'. m_body y = Output ps' f' \<and> facts_parts ps' \<noteq> [] \<longrightarrow> withdrawn_output ms y)))"
proof -
  let ?W = "withdrawn ms"
  obtain recorded read_call V where rec: "foldR (record_step (wd_outputs ?W)) ms [] = Inr recorded"
    and V: "foldR (replay_step P read_call ?W recorded) ms no_replay = Inr V" and c: "continued P after reference fresh V = Inr (Some k)"
    using projected_steps[OF assms(1)] by metis
  have k: "rp_continuation V = Some k" "fst k = pj_binding P" "\<not> fresh" "\<not> (0 \<le> after \<and> reference = None)"
    "\<not> (reference \<noteq> None \<and> (rp_summary V \<noteq> reference \<or> rp_seq V \<le> after))"
    using c unfolding continued_def by (simp_all split: if_splits option.splits)
  obtain pre m post ps d where ms: "ms = pre @ m # post" and r: "replays ?W recorded m ps d" and m: "m_source m = pj_source P" "continuation_of d = Some k"
      "used_summary ps = Inr (rp_summary V)" "rp_seq V = m_seq m" and last: "\<forall>y \<in> set post. \<not> closes_state P ?W recorded y"
    using replayed_state[OF V k(1)] by blast
  have mem: "m \<in> set ms" unfolding ms by simp
  obtain f where f: "m_body m = Output ps f" using r by (auto simp: replays_def)
  have "facts_parts ps = [JObj d]" "\<not> withdrawn_output ms m"
    using recorded_exact(1)[OF rec assms(2) mem f, of d] r withdrawn_ids[OF assms(2) mem] unfolding replays_def by blast+
  moreover have "case reference of None \<Rightarrow> after < 0 | Some r \<Rightarrow> used_summary ps = Inr (Some r) \<and> after < m_seq m"
    using k(4,5) m(3,4) by (cases reference) auto
  moreover have "(\<forall>t q. m_body y \<noteq> Control Abandon t q) \<and> (\<forall>ps' f'. m_body y = Output ps' f' \<and> facts_parts ps' \<noteq> [] \<longrightarrow> withdrawn_output ms y)"
    if y: "y \<in> set post" "m_source y = pj_source P" for y
  proof (intro conjI allI impI)
    show "m_body y \<noteq> Control Abandon t q" for t q using last y by (auto simp: closes_state_def)
    fix ps' f' assume b: "m_body y = Output ps' f' \<and> facts_parts ps' \<noteq> []"
    have "y \<in> set ms" using y(1) ms by simp
    moreover have "\<not> (m_id y \<notin> set (wd_outputs ?W) \<and> map_of recorded (m_id y) \<noteq> None)"
      using last y b by (auto simp: closes_state_def replays_def)
    ultimately show "withdrawn_output ms y"
      using recorded_exact(2)[OF rec assms(2) _ conjunct1[OF b]] b withdrawn_ids[OF assms(2)] by blast
  qed
  ultimately show ?thesis using k(2,3) ms m(1,2) f by blast
qed

section \<open>What the loop commits can be replayed\<close>

lemma digit_code: "n < 10 \<Longrightarrow> (of_char (char_of (48 + n) :: char) :: nat) = 48 + n"
  by (simp add: of_char_mod_256)

lemma show_nat_value: "foldl (\<lambda>a c. 10 * a + ((of_char c :: nat) - 48)) 0 (show_nat n) = n"
proof (induction n rule: show_nat.induct)
  case (1 n)
  then show ?case by (subst show_nat.simps) (simp add: digit_code)
qed

lemma show_nat_inject [simp]: "show_nat m = show_nat n \<longleftrightarrow> m = n"
  using show_nat_value by metis

lemma show_nat_nonempty [simp]: "show_nat n \<noteq> []"
  by (subst show_nat.simps) simp

lemma show_nat_all_digits: "list_all (\<lambda>c. 48 \<le> (of_char c :: nat) \<and> (of_char c :: nat) \<le> 57) (show_nat n)"
proof (induction n rule: show_nat.induct)
  case (1 n)
  have "n mod 10 \<le> 9" by simp
  then show ?case using 1 by (subst show_nat.simps) (simp add: digit_code)
qed

lemma show_nat_leading: "0 < n \<Longrightarrow> hd (show_nat n) \<noteq> CHR ''0''"
proof (induction n rule: show_nat.induct)
  case (1 n)
  show ?case
  proof (cases "n < 10")
    case True
    then have "(of_char (hd (show_nat n)) :: nat) = 48 + n" by (subst show_nat.simps) (simp add: digit_code)
    then show ?thesis using 1(2) by auto
  next
    case False
    then show ?thesis using 1(1) by (subst show_nat.simps) (simp add: hd_append)
  qed
qed

lemma show_nat_index: "is_index (show_nat n)"
proof (cases "n = 0")
  case True
  then show ?thesis by (simp add: is_index_def show_nat.simps)
next
  case False
  then show ?thesis using show_nat_all_digits[of n] show_nat_leading[of n] by (simp add: is_index_def)
qed

definition wire_entries_ok :: "nat list \<Rightarrow> json_object \<Rightarrow> bool" where
  "wire_entries_ok indices wire \<longleftrightarrow> distinct (keys wire) \<and> (\<forall>(index, raw) \<in> set wire. index \<in> show_nat ` set indices \<and> wire_ok raw \<and> wf_json raw)"

lemma wire_kept:
  assumes "foldR (wire_step P) (zip indices (zip calls actual)) wire = Inr wire'" "wire_entries_ok all wire" "set indices \<subseteq> set all"
    and "list_all (\<lambda>c. mc_name c \<noteq> [] \<and> wf_json (JObj (mc_arguments c))) calls"
  shows "wire_entries_ok all wire'"
proof (rule foldR_invariant[where P = "wire_entries_ok all", OF assms(1,2)])
  fix x s t assume x: "x \<in> set (zip indices (zip calls actual))" and s: "wire_entries_ok all s" and t: "wire_step P x s = Inr t"
  obtain i c a where x': "x = (i, c, a)" by (metis prod_cases3)
  have "i \<in> set indices" "c \<in> set calls"
    using x unfolding x' by (metis set_zip_leftD, metis set_zip_leftD set_zip_rightD)
  then have i: "i \<in> set all" and c: "mc_name c \<noteq> []" "wf_json (JObj (mc_arguments c))"
    using assms(3,4) by (auto simp: list_all_iff)
  have "wire_ok (JObj [(''name'', JStr (mc_name c)), (''arguments'', JObj (mc_arguments c))])"
    using c(1) by (auto simp: wire_ok_def nonempty_text_def is_object_def field_def)
  moreover have "wf_json (JObj [(''name'', JStr (mc_name c)), (''arguments'', JObj (mc_arguments c))])" using c(2) by simp
  moreover have "t = s \<or> t = AList.update (show_nat i) (JObj [(''name'', JStr (mc_name c)), (''arguments'', JObj (mc_arguments c))]) s"
    using t by (auto simp: x' wire_step_def res_simps split: part.splits if_splits)
  ultimately show "wire_entries_ok all t"
    using s i set_alist_update distinct_update unfolding wire_entries_ok_def by (fastforce simp del: wf_json.simps)
qed

text \<open>A response of a driver that the ledger has settled.\<close>

definition settled_response :: "response \<Rightarrow> bool" where
  "settled_response response \<longleftrightarrow> legal_response (Inr response) \<and> rs_call_record_id response \<noteq> None \<and> rs_call_record_id response \<noteq> Some []
     \<and> list_all (\<lambda>c. mc_id c \<noteq> [] \<and> mc_name c \<noteq> []) (rs_calls response) \<and> distinct (map mc_id (rs_calls response))
     \<and> (\<forall>b payload. rs_continuation response = Some (b, payload) \<longrightarrow> b \<noteq> [])"

lemma facts_shape:
  assumes "facts P response indices reminded (Some actual) = Inr p"
  obtains wire receipt key where "foldR (wire_step P) (zip indices (zip (rs_calls response) actual)) [] = Inr wire"
    and "rs_call_record_id response = Some key" and "length indices = length (rs_calls response)" and "distinct indices"
    and "pj_read_call P key = Inr receipt" and "cr_state receipt = ''success''" and "cr_binding receipt = pj_binding P"
    and "p = ContentPart ''model.facts'' (JObj
         [(''call_record_id'', JStr key),
          (''tool_ids'', JObj (map (\<lambda>(index, c). (show_nat index, JStr (mc_id c))) (zip indices (rs_calls response)))),
          (''wire_tool_calls'', JObj wire),
          (''reminder'', opt_json reminded),
          (''thinking'', opt_json (rs_thinking response)),
          (''continuation'', case rs_continuation response of
              None \<Rightarrow> JNull
            | Some (binding, payload) \<Rightarrow> JObj [(''binding_id'', JStr binding), (''payload'', JObj payload)])])"
  using assms by (auto simp: facts_def response_facts_def res_simps split: if_splits option.splits)

lemma zip_columns:
  assumes "length xs = length ys"
  shows "map fst (map (\<lambda>(x, y). (f x, g y)) (zip xs ys)) = map f xs" "map snd (map (\<lambda>(x, y). (f x, g y)) (zip xs ys)) = map g ys"
  using assms by (induction rule: list_induct2) simp_all

lemma facts_kept:
  assumes "facts P response indices reminded (Some actual) = Inr p" and "settled_response response"
  shows "\<exists>d key receipt. p = ContentPart ''model.facts'' (JObj d) \<and> facts_ok d \<and> wf_part p
    \<and> keys (tool_ids d) = map show_nat indices \<and> rs_call_record_id response = Some key \<and> record_id d = key
    \<and> continuation_of d = rs_continuation response
    \<and> pj_read_call P key = Inr receipt \<and> cr_state receipt = ''success'' \<and> cr_binding receipt = pj_binding P"
proof -
  obtain wire receipt key where w: "foldR (wire_step P) (zip indices (zip (rs_calls response) actual)) [] = Inr wire"
    and key: "rs_call_record_id response = Some key" and ind: "length indices = length (rs_calls response)" "distinct indices"
    and receipt: "pj_read_call P key = Inr receipt" "cr_state receipt = ''success''" "cr_binding receipt = pj_binding P"
    and p: "p = ContentPart ''model.facts'' (JObj
         [(''call_record_id'', JStr key),
          (''tool_ids'', JObj (map (\<lambda>(index, c). (show_nat index, JStr (mc_id c))) (zip indices (rs_calls response)))),
          (''wire_tool_calls'', JObj wire),
          (''reminder'', opt_json reminded),
          (''thinking'', opt_json (rs_thinking response)),
          (''continuation'', case rs_continuation response of
              None \<Rightarrow> JNull
            | Some (binding, payload) \<Rightarrow> JObj [(''binding_id'', JStr binding), (''payload'', JObj payload)])])"
    (is "p = ContentPart _ (JObj ?d)")
    by (rule facts_shape[OF assms(1)])
  let ?ids = "map (\<lambda>(index, c). (show_nat index, JStr (mc_id c))) (zip indices (rs_calls response))"
  have ids: "tool_ids ?d = ?ids" by (simp add: tool_ids_def field_def)
  have keys: "keys ?ids = map show_nat indices" using zip_columns(1)[OF ind(1)] .
  have snds: "map snd ?ids = map (\<lambda>c. JStr (mc_id c)) (rs_calls response)"
    using zip_columns(2)[OF ind(1)] .
  have "list_all (\<lambda>c. mc_name c \<noteq> [] \<and> wf_json (JObj (mc_arguments c))) (rs_calls response)"
    using assms(2) unfolding settled_response_def by (auto simp: list_all_iff)
  then have wire: "wire_entries_ok indices wire" using wire_kept[OF w, of indices] by (simp add: wire_entries_ok_def)
  have calls: "list_all (\<lambda>c. mc_id c \<noteq> [] \<and> mc_name c \<noteq> []) (rs_calls response)" "distinct (map mc_id (rs_calls response))"
    "key \<noteq> []" "\<forall>b payload. rs_continuation response = Some (b, payload) \<longrightarrow> b \<noteq> [] \<and> wf_json (JObj payload)"
    using assms(2) key by (auto simp: settled_response_def)
  have entries: "list_all (\<lambda>(index, identity). is_index index \<and> nonempty_text identity) ?ids"
  proof -
    have "is_index (fst q) \<and> nonempty_text (snd q)" if mem: "q \<in> set ?ids" for q
    proof -
      obtain i c where q: "q = (show_nat i, JStr (mc_id c))" "(i, c) \<in> set (zip indices (rs_calls response))" using mem by auto
      then have "mc_id c \<noteq> []" using calls(1) set_zip_rightD[OF q(2)] by (simp add: list_all_iff)
      then show ?thesis using show_nat_index by (simp add: q(1) nonempty_text_def)
    qed
    then show ?thesis unfolding list_all_iff by (intro ballI) (simp only: split_beta)
  qed
  have "distinct (map snd ?ids)"
    using calls(2) unfolding snds by (simp add: distinct_map inj_on_def)
  moreover have "set (keys wire) \<subseteq> set (keys ?ids) \<and> list_all (\<lambda>(index, raw). wire_ok raw) wire"
    using wire unfolding keys by (auto simp: wire_entries_ok_def list_all_iff)
  moreover have "text_or_null (opt_json t)" for t by (cases t) (simp_all add: text_or_null_def opt_json_def)
  moreover have "continuation_ok (case rs_continuation response of None \<Rightarrow> JNull
      | Some (binding, payload) \<Rightarrow> JObj [(''binding_id'', JStr binding), (''payload'', JObj payload)])"
    using calls(4) by (auto simp: continuation_ok_def nonempty_text_def is_object_def field_def split: option.split)
  ultimately have ok: "facts_ok ?d"
    using entries calls(3) unfolding facts_ok_def
    by (simp add: field_def nonempty_text_def old_fields_def new_fields_def) auto
  have "wf_json (JObj ?ids)"
    using ind(2) keys by (simp add: distinct_map inj_on_def list_all_iff split_beta del: map_map)
  moreover have "wf_json (JObj wire)" using wire by (auto simp: wire_entries_ok_def list_all_iff)
  moreover have "wf_json (opt_json t)" for t by (cases t) (simp_all add: opt_json_def)
  moreover have "wf_json (case rs_continuation response of None \<Rightarrow> JNull
      | Some (binding, payload) \<Rightarrow> JObj [(''binding_id'', JStr binding), (''payload'', JObj payload)])"
    using calls(4) by (auto split: option.split)
  ultimately have wf: "wf_part p" by (simp add: p)
  have "continuation_of ?d = rs_continuation response"
    by (simp add: continuation_of_def field_def split: option.split)
  moreover have "record_id ?d = key" by (simp add: record_id_def field_def)
  ultimately show ?thesis using p ok wf ids keys key receipt by (intro exI[of _ ?d] exI[of _ key] exI[of _ receipt]) simp
qed


text \<open>Reading a stored part back sorts the keys of its objects; no check of the projection sees their order.\<close>

definition sorted_items :: "json_object \<Rightarrow> json_object" where
  "sorted_items d = sort_key fst (map (map_prod id json_sorted) d)"

lemma sorted_items_simps [simp]: "json_sorted (JObj d) = JObj (sorted_items d)" "fst ` set (sorted_items d) = fst ` set d"
  using keys_json_sorted[of json_sorted d] by (simp_all add: sorted_items_def)

declare json_sorted.simps(7) [simp del]

lemma field_sorted: "distinct (keys d) \<Longrightarrow> field (sorted_items d) k = json_sorted (field d k)"
  by (simp add: field_def sorted_items_def map_of_sorted_items split: option.split)

lemma sorted_checks [simp]: "nonempty_text (json_sorted j) = nonempty_text j" "is_object (json_sorted j) = is_object j"
  "text_or_null (json_sorted j) = text_or_null j"
  by (cases j; simp add: nonempty_text_def is_object_def text_or_null_def)+

lemma wire_ok_sorted: "wf_json j \<Longrightarrow> wire_ok j \<Longrightarrow> wire_ok (json_sorted j)"
  by (cases j) (simp_all add: wire_ok_def field_sorted)

lemma continuation_ok_sorted: "wf_json j \<Longrightarrow> continuation_ok j \<Longrightarrow> continuation_ok (json_sorted j)"
  by (cases j) (simp_all add: continuation_ok_def field_sorted)

lemma sorted_members: "p \<in> set (sorted_items d) \<longleftrightarrow> (\<exists>q \<in> set d. p = (fst q, json_sorted (snd q)))"
  by (cases p) (force simp: sorted_items_def image_iff)

lemma distinct_sorted_ids:
  assumes "\<forall>q \<in> set d. nonempty_text (snd q)" "distinct (map snd d)"
  shows "distinct (map snd (sorted_items d))"
proof -
  have "map (map_prod id json_sorted) d = d"
  proof (rule map_idI)
    fix q assume "q \<in> set d"
    then have "nonempty_text (snd q)" using assms(1) by blast
    then have "json_sorted (snd q) = snd q" by (cases "snd q") (simp_all add: nonempty_text_def)
    then show "map_prod id json_sorted q = q" by (cases q) simp
  qed
  then have "sorted_items d = sort_key fst d" by (simp add: sorted_items_def)
  then show ?thesis using assms(2) by (simp add: distinct_map)
qed

lemma wf_field: "wf_json (JObj d) \<Longrightarrow> wf_json (field d k)"
  by (auto simp: field_def list_all_iff split: option.split dest!: map_of_SomeD)

lemma facts_ok_sorted:
  assumes "facts_ok d" "wf_json (JObj d)"
  shows "facts_ok (sorted_items d)"
proof -
  have dist: "distinct (keys d)" using assms(2) by simp
  obtain ids where ids: "field d ''tool_ids'' = JObj ids" and e: "list_all (\<lambda>(index, identity). is_index index \<and> nonempty_text identity) ids" "distinct (map snd ids)"
    and w: "''wire_tool_calls'' \<in> set (keys d) \<longrightarrow>
                (case field d ''wire_tool_calls'' of
                   JObj wire \<Rightarrow> set (keys wire) \<subseteq> set (keys ids) \<and> list_all (\<lambda>(index, raw). wire_ok raw) wire \<and> text_or_null (field d ''reminder'')
                 | _ \<Rightarrow> False)"
    using assms(1) unfolding facts_ok_def by (cases "field d ''tool_ids''") simp_all
  have texts: "\<forall>q \<in> set ids. nonempty_text (snd q)" using e(1) by (auto simp: list_all_iff)
  have "list_all (\<lambda>(index, identity). is_index index \<and> nonempty_text identity) (sorted_items ids)"
    using e(1) by (fastforce simp: list_all_iff sorted_members)
  moreover have "distinct (map snd (sorted_items ids))" by (rule distinct_sorted_ids[OF texts e(2)])
  moreover have "case json_sorted (field d ''wire_tool_calls'') of
                   JObj wire \<Rightarrow> set (keys wire) \<subseteq> set (keys (sorted_items ids)) \<and> list_all (\<lambda>(index, raw). wire_ok raw) wire \<and> text_or_null (field (sorted_items d) ''reminder'')
                 | _ \<Rightarrow> False" if wired: "''wire_tool_calls'' \<in> set (keys d)"
  proof -
    obtain wire where wire: "field d ''wire_tool_calls'' = JObj wire" and ok: "set (keys wire) \<subseteq> set (keys ids)" "list_all (\<lambda>(index, raw). wire_ok raw) wire"
      and r: "text_or_null (field d ''reminder'')"
      using mp[OF w wired] by (cases "field d ''wire_tool_calls''") simp_all
    have "wf_json (JObj wire)" using wf_field[OF assms(2), of "''wire_tool_calls''"] wire by simp
    then have "list_all (\<lambda>(index, raw). wire_ok raw) (sorted_items wire)"
      using ok(2) wire_ok_sorted by (fastforce simp: list_all_iff sorted_members)
    then show ?thesis using ok(1) r by (simp add: wire field_sorted[OF dist])
  qed
  ultimately show ?thesis
    using assms(1) continuation_ok_sorted[OF wf_field[OF assms(2)]]
    unfolding facts_ok_def by (simp add: field_sorted[OF dist] ids)
qed

lemma continuation_sorted:
  assumes "wf_json (JObj d)" "continuation_of d = c"
  shows "continuation_of (sorted_items d) = map_option (map_prod id sorted_items) c"
proof -
  have dist: "distinct (keys d)" using assms(1) by simp
  have str: "json_str (json_sorted j) = json_str j" for j by (cases j) simp_all
  have items: "obj_items (json_sorted j) = sorted_items (obj_items j)" for j by (cases j) (simp_all add: sorted_items_def)
  show ?thesis
  proof (cases "field d ''continuation''")
    case (JObj x)
    then have "distinct (keys x)" using wf_field[OF assms(1), of "''continuation''"] by simp
    then show ?thesis using assms(2) JObj by (auto simp: continuation_of_def field_sorted[OF dist] field_sorted str items)
  qed (use assms(2) in \<open>auto simp: continuation_of_def field_sorted[OF dist]\<close>)
qed

text \<open>The content a decoder of responses makes is text: the loop alone adds facts, rejections and the use of a summary.\<close>

definition plain_content :: "part \<Rightarrow> bool" where
  "plain_content p \<longleftrightarrow> (\<exists>k v. p = ContentPart k v \<and> k \<notin> {''model.facts'', ''model.tool_rejection'', ''context.summary''})"

lemma plain_sorted [simp]: "plain_content (sorted_part p) = plain_content p"
  by (cases p) (simp_all add: plain_content_def)

lemma positions_append: "call_positions (ps @ qs) = call_positions ps @ map (\<lambda>(i, p). show_nat i) (filter (\<lambda>(i, p). is_tool_call p \<or> is_rejection p) (List.enumerate (length ps) qs))"
  by (simp add: call_positions_def enumerate_append_eq)

lemma plain_parts:
  assumes "list_all plain_content ps"
  shows "facts_parts ps = []" "summary_parts ps = []" "filter (\<lambda>(i, p). is_tool_call p \<or> is_rejection p) (List.enumerate n ps) = []"
  using assms by (induction ps arbitrary: n)
    (auto simp: facts_parts_def summary_parts_def plain_content_def is_rejection_def)

lemma call_parts:
  assumes "list_all (\<lambda>p. is_tool_call p \<or> is_rejection p) ps"
  shows "facts_parts ps = []" "summary_parts ps = []" "filter (\<lambda>(i, p). is_tool_call p \<or> is_rejection p) (List.enumerate n ps) = List.enumerate n ps"
  using assms by (induction ps arbitrary: n)
    (auto simp: facts_parts_def summary_parts_def is_rejection_def split: part.splits)

lemma actual_calls:
  assumes "mapR (actual_call R) calls = Inr ps"
  shows "list_all (\<lambda>p. is_tool_call p \<or> is_rejection p) ps" "length ps = length calls"
proof -
  have "is_tool_call p \<or> is_rejection p" if "actual_call R c = Inr p" for c p
    using that by (auto simp: actual_call_def rejection_part_def is_rejection_def res_simps split: decoded_call.splits if_splits)
  then show "list_all (\<lambda>p. is_tool_call p \<or> is_rejection p) ps"
    unfolding list_all_iff using mapR_set[OF assms] by metis
  show "length ps = length calls" using assms by (auto simp: mapR_Inr_iff dest: list_all2_lengthD)
qed

lemma sorted_calls: "list_all (\<lambda>p. is_tool_call p \<or> is_rejection p) ps \<Longrightarrow> list_all (\<lambda>p. is_tool_call p \<or> is_rejection p) (map sorted_part ps)"
proof (induction ps)
  case (Cons p ps)
  then show ?case by (cases p) (simp_all add: is_rejection_def)
qed simp

lemma facts_part_sorted:
  assumes "facts_ok d" "wf_json (JObj d)"
  shows "facts_parts [sorted_part (ContentPart ''model.facts'' (JObj d))] = [JObj (sorted_items d)]"
    "check_facts (JObj (sorted_items d)) = Inr ()" "record_id (sorted_items d) = record_id d" "set (keys (tool_ids (sorted_items d))) = set (keys (tool_ids d))"
proof -
  have dist: "distinct (keys d)" using assms(2) by simp
  have str: "json_str (json_sorted j) = json_str j" for j by (cases j) simp_all
  have items: "obj_items (json_sorted j) = sorted_items (obj_items j)" for j by (cases j) (simp_all add: sorted_items_def)
  show "facts_parts [sorted_part (ContentPart ''model.facts'' (JObj d))] = [JObj (sorted_items d)]" by (simp add: facts_parts_def)
  show "check_facts (JObj (sorted_items d)) = Inr ()" using facts_ok_sorted[OF assms] by (simp add: check_facts_def)
  show "record_id (sorted_items d) = record_id d" by (simp add: record_id_def field_sorted[OF dist] str)
  show "set (keys (tool_ids (sorted_items d))) = set (keys (tool_ids d))"
    by (simp add: tool_ids_def field_sorted[OF dist] items)
qed

lemma parts_split [simp]: "facts_parts (ps @ qs) = facts_parts ps @ facts_parts qs" "summary_parts (ps @ qs) = summary_parts ps @ summary_parts qs"
  by (simp_all add: facts_parts_def summary_parts_def)

text \<open>The use of a summary, as the loop writes it.\<close>

definition summary_use :: "summary option \<Rightarrow> part list" where
  "summary_use su = (case su of None \<Rightarrow> [] | Some s \<Rightarrow> [ContentPart ''context.summary'' (JObj [(''reference'', JStr (su_reference s))])])"

lemma sorted_single: "sorted_items [(k, v)] = [(k, json_sorted v)]"
  by (simp add: sorted_items_def)

lemma summary_use_sorted: "map sorted_part (summary_use su) = summary_use su"
  by (simp add: summary_use_def sorted_single split: option.split)

lemma summary_use_parts:
  "facts_parts (summary_use su) = []" "filter (\<lambda>(i, p). is_tool_call p \<or> is_rejection p) (List.enumerate n (summary_use su)) = []"
  by (cases su; simp add: summary_use_def facts_parts_def is_rejection_def)+

lemma summary_used:
  assumes "summary_parts ps = summary_parts (summary_use su)" "\<forall>s. su = Some s \<longrightarrow> su_reference s \<noteq> []"
  shows "used_summary ps = Inr (map_option su_reference su)"
proof (cases su)
  case None
  then have "summary_parts ps = []" using assms(1) by (simp add: summary_use_def summary_parts_def)
  then show ?thesis using None by (simp add: used_summary_def)
next
  case (Some s)
  then have "summary_parts ps = [JObj [(''reference'', JStr (su_reference s))]]" using assms(1) by (simp add: summary_use_def summary_parts_def)
  then show ?thesis using Some assms(2) by (simp add: used_summary_def check_summary_def)
qed

lemma output_parts_split:
  assumes "output_parts R de response decoded = Inr (ps, indices)"
  obtains calls p where "mapR (actual_call R) (rs_calls response) = Inr calls" "indices = [length decoded ..< length decoded + length calls]"
    "ra_facts R response indices (reminder_content (de_materials de)) calls = Inr p"
    "ps = decoded @ calls @ [p] @ summary_use (mt_summary (de_materials de))"
  using assms by (auto simp: output_parts_def res_simps Let_def summary_use_def split: if_splits)

text \<open>The parts of a committed output, as they are read back: one part of facts, the calls at their indices, at most one use of a summary.\<close>

lemma committed_parts:
  assumes plain: "list_all plain_content decoded" and calls: "list_all (\<lambda>p. is_tool_call p \<or> is_rejection p) calls"
    and d: "facts_ok d" "wf_json (JObj d)"
    and ps_def: "ps = map sorted_part (decoded @ calls @ [ContentPart ''model.facts'' (JObj d)] @ summary_use su)"
  shows "facts_parts ps = [JObj (sorted_items d)]" "call_positions ps = map show_nat [length decoded ..< length decoded + length calls]"
    "summary_parts ps = summary_parts (summary_use su)"
proof -
  have pl: "list_all plain_content (map sorted_part decoded)" using plain by (simp add: list_all_iff)
  note cs = sorted_calls[OF calls]
  let ?p = "sorted_part (ContentPart ''model.facts'' (JObj d))"
  have ps: "ps = map sorted_part decoded @ map sorted_part calls @ [?p] @ summary_use su"
    unfolding ps_def by (simp add: summary_use_sorted)
  show "facts_parts ps = [JObj (sorted_items d)]"
    using plain_parts(1)[OF pl] call_parts(1)[OF cs] summary_use_parts(1) facts_part_sorted(1)[OF d]
    by (simp only: ps parts_split append_Nil append_Nil2)
  have no_call: "\<not> is_tool_call ?p" "\<not> is_rejection ?p" by (simp_all add: is_rejection_def)
  have "call_positions ps = map (\<lambda>(i, p). show_nat i) (List.enumerate (length decoded) (map sorted_part calls))"
    using plain_parts(3)[OF pl, of 0] call_parts(3)[OF cs] summary_use_parts(2) no_call
    by (simp add: ps call_positions_def enumerate_append_eq)
  also have "\<dots> = map show_nat (map fst (List.enumerate (length decoded) (map sorted_part calls)))" unfolding map_map comp_def split_beta' ..
  finally show "call_positions ps = map show_nat [length decoded ..< length decoded + length calls]"
    by (simp only: map_fst_enumerate length_map)
  show "summary_parts ps = summary_parts (summary_use su)"
    using plain_parts(2)[OF pl] call_parts(2)[OF cs] by (simp add: ps summary_parts_def)
qed

text \<open>C30. What the model loop commits can be replayed: when the facts of an output are made by the projection, for a response the ledger has
  settled, the output, read back from the log, passes every check of a later projection of the same model; it contributes exactly its
  facts, the state the provider returned with the response, and the summary its request used.\<close>

theorem committed_output_replays:
  assumes out: "output_parts R de response decoded = Inr (ps, indices)"
    and facts: "ra_facts R = (\<lambda>r is reminded calls. facts P r is reminded (Some calls))"
    and settled: "settled_response response" and plain: "list_all plain_content decoded"
    and summary: "\<forall>su. mt_summary (de_materials de) = Some su \<longrightarrow> su_reference su \<noteq> []"
    and own: "\<forall>b payload. rs_continuation response = Some (b, payload) \<longrightarrow> b = pj_binding P"
    and m: "m_body m = sorted_body (Output ps f)" "m_id m \<notin> set gone"
  shows "\<exists>d. record_step gone m recorded = Inr (AList.update (m_id m) d recorded)
    \<and> replay_output P (pj_read_call P) m (body_parts (m_body m)) d V = Inr
        ((if m_source m = pj_source P
          then V\<lparr>rp_continuation := map_option (map_prod id sorted_items) (rs_continuation response), rp_seq := m_seq m,
                 rp_summary := map_option su_reference (mt_summary (de_materials de))\<rparr>
          else V)\<lparr>rp_facts := AList.update (m_id m) d (rp_facts V)\<rparr>)"
proof -
  obtain calls p where calls: "mapR (actual_call R) (rs_calls response) = Inr calls" and ind: "indices = [length decoded ..< length decoded + length calls]"
    and p: "ra_facts R response indices (reminder_content (de_materials de)) calls = Inr p"
    and ps: "ps = decoded @ calls @ [p] @ summary_use (mt_summary (de_materials de))"
    by (rule output_parts_split[OF out])
  have "facts P response indices (reminder_content (de_materials de)) (Some calls) = Inr p" using p unfolding facts .
  from facts_kept[OF this settled] obtain d key receipt where d: "p = ContentPart ''model.facts'' (JObj d)" "facts_ok d" "wf_part p"
      "keys (tool_ids d) = map show_nat indices" "rs_call_record_id response = Some key" "record_id d = key"
      "continuation_of d = rs_continuation response"
    and receipt: "pj_read_call P key = Inr receipt" "cr_state receipt = ''success''" "cr_binding receipt = pj_binding P"
    by blast
  have wf: "wf_json (JObj d)" using d(1,3) by simp
  note sorted = facts_part_sorted[OF d(2) wf]
  let ?parts = "map sorted_part ps"
  note parts = committed_parts[OF plain actual_calls(1)[OF calls] d(2) wf arg_cong[OF ps[unfolded d(1)], of "map sorted_part"]]
  have body: "m_body m = Output ?parts f" using m(1) by simp
  have rec: "record_step gone m recorded = Inr (AList.update (m_id m) (sorted_items d) recorded)"
    using m(2) by (simp only: record_step_def body body.case if_False parts(1) list.case sorted(2)) simp
  have c: "continuation_of (sorted_items d) = map_option (map_prod id sorted_items) (rs_continuation response)"
    by (rule continuation_sorted[OF wf d(7)])
  have "set (keys (tool_ids (sorted_items d))) = set (call_positions ?parts)" using sorted(4) d(4) parts(2) ind by metis
  moreover have "\<not> (continuation_of (sorted_items d) \<noteq> None \<and> fst (the (continuation_of (sorted_items d))) \<noteq> cr_binding receipt)"
    using own receipt(3) by (cases "rs_continuation response") (auto simp: c)
  moreover have "pj_read_call P (record_id (sorted_items d)) = Inr receipt" using sorted(3) d(6) receipt(1) by simp
  ultimately have "replay_output P (pj_read_call P) m ?parts (sorted_items d) V = Inr
        ((if m_source m = pj_source P
          then V\<lparr>rp_continuation := map_option (map_prod id sorted_items) (rs_continuation response), rp_seq := m_seq m,
                 rp_summary := map_option su_reference (mt_summary (de_materials de))\<rparr>
          else V)\<lparr>rp_facts := AList.update (m_id m) (sorted_items d) (rp_facts V)\<rparr>)"
    using receipt(2) unfolding replay_output_def Let_def
    by (simp only: bindR_simps if_False summary_used[OF parts(3) summary] c refl not_True_eq_False simp_thms if_True split: if_split) simp
  then show ?thesis using rec body by (intro exI[of _ "sorted_items d"]) simp
qed

section \<open>A sample\<close>

definition sample_projection :: projection where
  "sample_projection = \<lparr>pj_binding = ''b'', pj_window = None, pj_max_tools = None, pj_estimate = (\<lambda>rows tools. 0), pj_source = ''chat'',
     pj_content = (\<lambda>p. Inr [text_block ''x'']), pj_tool_name = (\<lambda>name. Inr name),
     pj_read_call = (\<lambda>key. Inr \<lparr>cr_state = ''success'', cr_binding = ''b''\<rparr>),
     pj_replay = (\<lambda>records. Inr (\<lambda>key. Inr \<lparr>cr_state = ''success'', cr_binding = ''b''\<rparr>)),
     pj_digest = (\<lambda>r. ''d''), pj_keep = []\<rparr>"

definition talk_rows :: "json_object list" where
  "talk_rows = [
     [(''role'', JStr ''user''), (''content'', JArr [JObj (text_block ''x'')])],
     [(''role'', JStr ''assistant''), (''content'', JArr []), (''tool_calls'', JArr [JObj (call_entry (JStr ''call_d'') (JStr ''echo'') [])])],
     observation_row (JStr ''call_d'') [text_block ''x'']]"

lemmas sample_steps = projected_def sample_projection_def check_keep_def withdrawn_def no_withdrawal_def withdraw_step_def source_pending_def
  record_step_def facts_parts_def no_replay_def replay_step_def continued_def row_step_def part_step_def reminder_rows_def message_row_def
  call_step_def call_identity_def wire_call_def result_blocks_def said_def Let_def

lemma talk_projected: "projected sample_projection talk (- 1) None False = Inr (talk_rows, None)"
  by (simp add: sample_steps talk_def talk_rows_def hello_def asking_def answer_def)

lemma request_rows_paired_witness:
  "paired (mr_rows (\<lparr>mr_rows = talk_rows, mr_tools = [], mr_system = [], mr_max_output = 0, mr_rest = None\<rparr> :: continuation option model_request))"
proof -
  have "render sample_projection [] talk (- 1) None False
      = Inr (\<lparr>mr_rows = talk_rows, mr_tools = [], mr_system = [], mr_max_output = 0, mr_rest = None\<rparr>, talk_rows)"
    by (simp add: render_def talk_projected reuse_rows_def talk_rows_def Let_def)
  then show ?thesis by (rule request_rows_paired)
qed

lemma reuse_is_equal_witness:
  "\<exists>first second. renders [] (replicate 2 \<lparr>rn_projection = sample_projection, rn_history = talk, rn_after = - 1, rn_reference = None, rn_fresh = False\<rparr>)
      = [Inr first, Inr second]
    \<and> map (\<lambda>w. exact (JObj w)) (mr_rows second) = map (\<lambda>w. exact (JObj w)) talk_rows \<and> exact (JInt 1) \<noteq> exact (JBool True)"
proof -
  let ?x = "\<lparr>rn_projection = sample_projection, rn_history = talk, rn_after = - 1, rn_reference = None, rn_fresh = False\<rparr>"
  have "\<forall>x \<in> set (replicate 2 ?x). renders_dicts (rn_projection x)"
    by (simp add: renders_dicts_def sample_projection_def text_block_def)
  note all = reuse_is_equal[OF this]
  have "\<exists>a b. zs = [a, b] \<and> Q a x \<and> Q b x" if "list_all2 Q zs (replicate 2 x)" for Q :: "'a \<Rightarrow> 'b \<Rightarrow> bool" and zs x
    using that by (auto simp: numeral_2_eq_2 list_all2_Cons2)
  from this[OF all] obtain a b where ab: "renders [] (replicate 2 ?x) = [a, b]" and two: "case a of Inl e \<Rightarrow> False | Inr r \<Rightarrow> True"
    "case b of Inl e \<Rightarrow> False | Inr r \<Rightarrow> map (\<lambda>w. exact (JObj w)) (mr_rows r) = map (\<lambda>w. exact (JObj w)) talk_rows"
    by (fastforce simp: talk_projected simp del: exact.simps renders.simps split: sum.splits)
  then show ?thesis by (cases a; cases b) (auto simp del: renders.simps)
qed

lemma calls_shown_with_results_witness:
  "(\<exists>groups. talk_rows = concat groups \<and> list_all2 (rows_of_message sample_projection (- 1) talk) talk groups)
    \<and> (\<exists>m' \<in> set talk. result_ref (m_body m') = Some (CallRef ''m2'' 0) \<and> 1 < m_seq m')"
proof
  have wf: "\<forall>m \<in> set talk. wf_body (m_body m)" "distinct (map m_id talk)"
    by (auto simp: talk_def said_def hello_def asking_def answer_def)
  note shown = calls_shown_with_results[OF talk_projected wf]
  show "\<exists>groups. talk_rows = concat groups \<and> list_all2 (rows_of_message sample_projection (- 1) talk) talk groups"
    using shown by blast
  have gone: "\<not> withdrawn_output talk (said ''m2'' 1 ''model'' asking)"
    by (auto simp: withdrawn_output_def abandons_def talk_def said_def hello_def asking_def answer_def Cons_eq_append_conv)
  have visible: "\<not> not_shown sample_projection (- 1) (said ''m2'' 1 ''model'' asking)"
    by (simp add: not_shown_def said_def asking_def)
  have "CallRef ''m2'' 0 \<in> set (message_calls (said ''m2'' 1 ''model'' asking))"
    by (simp add: message_calls.simps calls_in_def said_def asking_def)
  moreover have "said ''m2'' 1 ''model'' asking \<in> set talk" by (simp add: talk_def)
  ultimately have "\<exists>m' \<in> set talk. result_ref (m_body m') = Some (CallRef ''m2'' 0) \<and> m_seq (said ''m2'' 1 ''model'' asking) < m_seq m'"
    using shown visible gone by blast
  then show "\<exists>m' \<in> set talk. result_ref (m_body m') = Some (CallRef ''m2'' 0) \<and> 1 < m_seq m'" by (simp add: said_def)
qed

definition kept_facts :: json_object where
  "kept_facts = [(''call_record_id'', JStr ''r''), (''tool_ids'', JObj []), (''thinking'', JNull),
     (''continuation'', JObj [(''binding_id'', JStr ''b''), (''payload'', JObj [])])]"

definition answered_talk :: "message list" where
  "answered_talk = [said ''m1'' 0 ''user'' hello, said ''m2'' 1 ''model'' (Output [ContentPart ''model.facts'' (JObj kept_facts)] Continue)]"

lemma answered_projected: "\<exists>rows. projected sample_projection answered_talk (- 1) None False = Inr (rows, Some (''b'', []))"
  by (simp add: sample_steps answered_talk_def hello_def kept_facts_def check_facts_def facts_ok_def old_fields_def new_fields_def field_def
      nonempty_text_def text_or_null_def continuation_ok_def is_object_def replay_output_def record_id_def tool_ids_def call_positions_def
      is_rejection_def continuation_of_def used_summary_def summary_parts_def)

lemma state_continued_witness:
  "\<exists>m ps f d. m \<in> set answered_talk \<and> m_body m = Output ps f \<and> facts_parts ps = [JObj d] \<and> continuation_of d = Some (''b'', [])"
proof -
  obtain rows where r: "projected sample_projection answered_talk (- 1) None False = Inr (rows, Some (''b'', []))" using answered_projected by blast
  have "distinct (map m_id answered_talk)" by (simp add: answered_talk_def said_def)
  from state_continued[OF r this] show ?thesis by (metis in_set_conv_decomp)
qed

definition replayable_loop :: "unit react" where
  "replayable_loop = sample_react\<lparr>ra_facts := (\<lambda>r is reminded calls. facts sample_projection r is reminded (Some calls))\<rparr>"

definition calling_response :: response where
  "calling_response = sample_response\<lparr>rs_calls := [\<lparr>mc_id = ''i'', mc_name = ''nope'', mc_arguments = []\<rparr>],
     rs_continuation := Some (''b'', []), rs_call_record_id := Some ''r''\<rparr>"

lemma sample_committed: "\<exists>ps. output_parts replayable_loop sample_decision calling_response [ContentPart ''text'' (JStr ''hi'')] = Inr (ps, [1])"
  by (simp add: output_parts_def replayable_loop_def calling_response_def sample_react_def sample_decision_def sample_materials_def actual_call_def
      rejection_part_def facts_def wire_step_def check_tool_rejection_def nonempty_text_def is_object_def field_def insert_commute
      response_facts_def sample_projection_def Let_def)

lemma committed_output_replays_witness:
  "\<exists>ps d V. record_step [] (said ''m2'' 1 ''model'' (sorted_body (Output ps Continue))) [] = Inr [(''m2'', d)]
    \<and> replay_output sample_projection (pj_read_call sample_projection) (said ''m2'' 1 ''model'' (sorted_body (Output ps Continue)))
        (map sorted_part ps) d no_replay = Inr V
    \<and> rp_continuation V = Some (''b'', []) \<and> rp_seq V = 1"
proof -
  obtain ps where out: "output_parts replayable_loop sample_decision calling_response [ContentPart ''text'' (JStr ''hi'')] = Inr (ps, [1])"
    using sample_committed by blast
  let ?m = "said ''m2'' 1 ''model'' (sorted_body (Output ps Continue))"
  have facts: "ra_facts replayable_loop = (\<lambda>r is reminded calls. facts sample_projection r is reminded (Some calls))"
    by (simp add: replayable_loop_def)
  have settled: "settled_response calling_response" by (simp add: settled_response_def calling_response_def)
  have plain: "list_all plain_content [ContentPart ''text'' (JStr ''hi'')]" by (simp add: plain_content_def)
  have su: "\<forall>su. mt_summary (de_materials sample_decision) = Some su \<longrightarrow> su_reference su \<noteq> []" by (simp add: sample_decision_def sample_materials_def)
  have own: "\<forall>b payload. rs_continuation calling_response = Some (b, payload) \<longrightarrow> b = pj_binding sample_projection"
    by (simp add: calling_response_def sample_projection_def)
  have "m_body ?m = sorted_body (Output ps Continue)" "m_id ?m \<notin> set []" by (simp_all add: said_def)
  from committed_output_replays[OF out facts settled plain su own this, of "[]" no_replay] obtain d
    where "record_step [] ?m [] = Inr (AList.update (m_id ?m) d [])"
      and "replay_output sample_projection (pj_read_call sample_projection) ?m (body_parts (m_body ?m)) d no_replay = Inr
        ((if m_source ?m = pj_source sample_projection
          then no_replay\<lparr>rp_continuation := map_option (map_prod id sorted_items) (rs_continuation calling_response), rp_seq := m_seq ?m,
                 rp_summary := map_option su_reference (mt_summary (de_materials sample_decision))\<rparr>
          else no_replay)\<lparr>rp_facts := AList.update (m_id ?m) d (rp_facts no_replay)\<rparr>)"
    by blast
  then show ?thesis
    by (intro exI[of _ ps] exI[of _ d]) (simp add: said_def sample_projection_def calling_response_def sorted_items_def)
qed

end
