(* ===== verification/Spec2Isabelle.thy ===== *)
theory Spec2Isabelle
  imports Log_Properties Reader_Properties Store_Properties Turn_Properties Delivery_Properties Durable_Properties Job_Properties Inbound_Properties Frame_Properties Conversation_Properties Tool_Properties Service_Properties Context_Properties React_Properties Projection_Properties
begin

text \<open>
  A verification library for the message core of mono-agent, an agent that lives in chat channels.

  \<^bold>\<open>The program.\<close> Everything a session says is kept in one SQLite log of messages (\<open>src/session\<close>): inputs of
  users, outputs of programs with their tool calls, tool results, and controls (pause, resume,
  abandon, failure). Who may write what is granted by writers; plugins keep their own versioned JSON
  records beside the messages, in the same transactions. A session's source
  (\<open>plugins/conversation\<close>) accepts inputs and controls, wakes a reply task and revokes it; the task
  reads the history as turns (\<open>plugins/turn_projection\<close>), recovers unanswered calls
  (\<open>plugins/react\<close>), runs them under durable receipts (\<open>plugins/tools\<close>), builds a model request from the history
  (\<open>plugins/context\<close>), projected to the rows of the model's protocol (\<open>plugins/models/projection.py\<close>), and appends the model's answer as an output. Tasks run under a service that admits at most one per key
  (\<open>agent/plugin_composition/tasks.py\<close>). Outputs selected for a channel become deliveries
  (\<open>plugins/delivery\<close>), which a task sends; outside providers are driven through a durable ledger of
  their own (\<open>agent/plugin_composition/durable_*\<close>). Control connections wait for the page of an input they sent
  (\<open>agent/control/frame_book.py\<close>). Scheduled jobs live in a schedule file (\<open>plugins/scheduler\<close>),
  messages handed in from a mobile gateway in a hand-off table (\<open>session/inbound_store.py\<close>).

  \<^bold>\<open>Modelling.\<close> Python functions are HOL functions into \<open>'a res\<close> (\<open>Inl\<close> an exception class, \<open>Inr\<close> a value); a table is
  the list of its rows; a transaction that raises leaves the state as it was; constraint violations are
  \<open>IntegrityError\<close>. Text is its UTF-8 bytes; a JSON column is the parsed document and its bytes matter only where the
  code compares or measures them. Asynchronous code is cut at its awaits: each segment
  between two awaits is one function, the machine's states are the awaits, and step relations
  interleave the segments with everything else the source allows (other tasks, cancellation, crashes). Objects
  shared by reference are an explicit heap (\<open>Frame_Book\<close>). Plugins, validators and
  network calls are parameters or inputs of the steps: what they return or raise is arbitrary unless a
  property says otherwise. The clock is a parameter.

  \<^bold>\<open>Theories.\<close>
  \<^item> \<open>Prelude\<close>: exceptions, sequencing, tables, association lists as dicts.
  \<^item> \<open>Py_Json\<close>, \<open>Message\<close>, \<open>Message_Codec\<close> (\<open>session/message.py\<close>, \<open>message_codec.py\<close>): frozen JSON, parts,
    bodies and messages with the checks of their constructors; the stored document of a body and its
    decoder.
  \<^item> \<open>Artifacts\<close>, \<open>Artifact_Store\<close> (\<open>session/artifacts.py\<close>, \<open>artifact_store.py\<close>): attachment references and
    the phases of an import.
  \<^item> \<open>Message_Store\<close>, \<open>Message_Reader\<close>, \<open>Owner_Store\<close> (\<open>session/log.py\<close>): sessions, bindings, appends with
    their grants; range reads, snapshots, pages, followers, the catalog; owner
    records and transactions. \<open>wf_log\<close> is the invariant of the log; \<open>versioned_records\<close> is the contract of the owner
    records, interpreted on the log.
  \<^item> \<open>Turn_Projection\<close> (\<open>plugins/turn_projection/plugin.py\<close>, the readings of \<open>plugins/react/plugin.py\<close>).
  \<^item> \<open>Conversation\<close> (\<open>plugins/conversation/source.py\<close>): the source of a session and its reply task.
  \<^item> \<open>Tool_Receipts\<close>, \<open>Tool_Execution\<close> (\<open>plugins/tools/api.py\<close>, \<open>execution.py\<close>, \<open>abandon.py\<close>): receipts and
    their single settlement, the run of a call as a machine, abandoning; \<open>Tool_State\<close> and \<open>Tool_Steps\<close> hold its
    runs with crashes and their invariant.
  \<^item> \<open>Context_Builder\<close> (\<open>plugins/context/api.py\<close>, \<open>plugin.py\<close>), \<open>React\<close> (\<open>plugins/react/plugin.py\<close>): model requests and
    the loop of decisions. \<open>Model_Projection\<close> (\<open>plugins/models/projection.py\<close>): the rows a model is shown, the facts
    of its answers and their replay.
  \<^item> \<open>Task_Groups\<close>, \<open>Task_Service\<close> (\<open>agent/plugin_composition/tasks.py\<close>): activities and exclusive sections of a
    key, and the tasks of a plugin with their admission, cancellation and shutdown.
  \<^item> \<open>Delivery_Records\<close>, \<open>Delivery_State\<close>, \<open>Delivery_Execution\<close> (\<open>plugins/delivery\<close>).
  \<^item> \<open>Durable_Store\<close>, \<open>Durable_Deliveries\<close> (\<open>agent/plugin_composition/durable_delivery_store.py\<close>,
    \<open>durable_deliveries.py\<close>).
  \<^item> \<open>Job_Store\<close> (\<open>plugins/scheduler/store.py\<close>, \<open>schedule.py\<close>), \<open>Inbound_Store\<close> (\<open>session/inbound_store.py\<close>,
    \<open>admissions.py\<close>), \<open>Frame_Book\<close> (\<open>agent/control/frame_book.py\<close>).
  \<^item> \<open>Sample_Log\<close>: one short conversation on which the witnesses of the properties are evaluated.

  \<^bold>\<open>What is shown.\<close> The \<open>_Properties\<close> theories hold the properties, numbered C1 and up in order of importance.
  \<^item> Log: every reachable store is well formed and passes the program's own integrity checks, it
    only grows, appends are idempotent and can be conditional on the head, a call has one result,
    bodies survive encoding; readers return exactly the history however often they read, and a follower - a
    machine with its event, under concurrent commits and wake-ups - hands it over without gap or
    repetition and does not sleep over a message.
  \<^item> Owners: a transaction is what its operations do one after the other, or nothing; records are compare-and-set.
  \<^item> Turns and conversation: the projection partitions the history, the react loop recovers exactly
    the open unanswered calls, no reply is appended after an input its task did not see, unless a
    listener raised while that input was announced.
  \<^item> Tools: a call is invoked at most once unless its tool is idempotent, its result is settled once, together with the
    message that answers it, and neither changes afterwards; an interrupted call ends, an abandon reaches all the calls it closes.
  \<^item> Model loop: a request shows a history with every call settled and never separates a call from its result; an
    output is committed only to the history it was made from; a bounded loop ends and its requests are counted.
  \<^item> Projection: the rows of a request are those of its messages in order, every call answered by the rows after it, and no
    result is dropped; the opaque state
    of a provider is continued only where it belongs, the rows reused from the last request tell a provider the same as fresh ones,
    and an output the loop commits passes the checks of its later replay.
  \<^item> Tasks: exclusive requests are served in order and no wake-up is lost, a rejected admission leaves nothing
    behind, cleanups run once.
  \<^item> Deliveries: a sender without idempotence is called once, nothing prepared is forgotten, rows move
    forward only, every ledger operation and the recovery after a restart refine a map of abstract rows.
  \<^item> Jobs, hand-offs, control frames: the schedule file stays valid, fires settle once, redeliveries are
    recognised, a waiting control task is always completed.

  \<^bold>\<open>Bounds.\<close> No definition runs on fuel. The paging loops are functions whose recursion is proved to end (each page
  moves the cursor); loops over awaited events are step relations, and where the code must return, a
  property says after how many steps; the end of the model loop is a well-founded rank.

  \<^bold>\<open>Not modelled.\<close> Opening database files, comparing SQL schema text, file backups, the text of exceptions, and JSON
  parsing of bytes. Not modelled as
  components: the legacy session store and its migrations, the plugin host, channels and gateways (network
  protocols), the clients of model services and the ledger of their calls, retrieval (floating point vectors), event mail, dashboards and start-up
  wiring. Three flaws found while modelling are recorded as findings: a failed
  staged control route can still be committed (\<open>Frame_Properties\<close>), an input whose listener raises is stored
  without revoking the running reply (\<open>Conversation_Properties\<close>), and a granted change of session metadata between
  values Python compares as equal is not written (\<open>Message_Store\<close>).
\<close>

end
